(* ===== verification/Gmos_Prelude.thy ===== *)
theory Gmos_Prelude
  imports Main "HOL-Library.Word" "HOL-Library.Monad_Syntax"
begin

text \<open>
  Shared vocabulary of the development: the fault monad, the machine integers of the
  32-bit targets and linked lists threaded through memory.

  \<^item> A C function that may dereference a null pointer, run a list walk for ever or trip an
    assertion returns an \<open>option\<close>: \<open>None\<close> is that failure and \<open>Some\<close> the values
    the function leaves behind. A theorem that concludes \<open>Some\<close> therefore states memory safety
    and termination at once.
  \<^item> Unsigned integers are \<open>nat\<close> with every narrowing store and every subtraction that can
    wrap written out (\<open>u16\<close>, \<open>u32\<close>, \<open>sub32\<close>). \<open>uint_fast16_t\<close> and
    \<open>uint_fast8_t\<close> are 32 bits wide, as they are on the Cortex-M targets.
  \<^item> A linked list is described by the relation \<open>chain\<close> between a \<open>next\<close> field,
    a start pointer, the list of nodes and the pointer behind the last node.
\<close>

named_theorems gmos_defs \<open>definitions of the modelled C functions that proofs unfold\<close>
named_theorems chain_simps \<open>rewriting of linked-list descriptions\<close>

type_synonym byte = "8 word"

subsection \<open>Machine integers\<close>

definition u8 :: "nat \<Rightarrow> nat" where
  "u8 n = n mod 256"

definition u16 :: "nat \<Rightarrow> nat" where
  "u16 n = n mod 65536"

definition u32 :: "nat \<Rightarrow> nat" where
  "u32 n = n mod 4294967296"

text \<open>Subtraction of two 32-bit unsigned values: it wraps when the subtrahend is larger.\<close>

definition sub32 :: "nat \<Rightarrow> nat \<Rightarrow> nat" where
  "sub32 a b = (if b \<le> a then a - b else a + 4294967296 - b)"

lemma u8_small [simp]: "n < 256 \<Longrightarrow> u8 n = n"
  by (simp add: u8_def)

lemma u16_small [simp]: "n < 65536 \<Longrightarrow> u16 n = n"
  by (simp add: u16_def)

lemma u16_bound [simp]: "u16 n < 65536"
  by (simp add: u16_def)

lemma u32_small [simp]: "n < 4294967296 \<Longrightarrow> u32 n = n"
  by (simp add: u32_def)

lemma u32_bound [simp]: "u32 n < 4294967296"
  by (simp add: u32_def)

lemma sub32_le [simp]: "b \<le> a \<Longrightarrow> sub32 a b = a - b"
  by (simp add: sub32_def)

subsection \<open>Linked lists\<close>

fun chain :: "('p \<Rightarrow> 'p option) \<Rightarrow> 'p option \<Rightarrow> 'p list \<Rightarrow> 'p option \<Rightarrow> bool" where
  "chain nx p [] q \<longleftrightarrow> p = q"
| "chain nx p (x # xs) q \<longleftrightarrow> p = Some x \<and> chain nx (nx x) xs q"

abbreviation llist :: "('p \<Rightarrow> 'p option) \<Rightarrow> 'p option \<Rightarrow> 'p list \<Rightarrow> bool" where
  "llist nx p xs \<equiv> chain nx p xs None"

lemma chain_append [chain_simps]:
  "chain nx p (xs @ ys) q \<longleftrightarrow> (\<exists>r. chain nx p xs r \<and> chain nx r ys q)"
  by (induction xs arbitrary: p) auto

lemma chain_cong:
  "(\<And>a. a \<in> set xs \<Longrightarrow> nx' a = nx a) \<Longrightarrow> chain nx' p xs q = chain nx p xs q"
  by (induction xs arbitrary: p) auto

lemma chain_upd [chain_simps]:
  "a \<notin> set xs \<Longrightarrow> chain (nx(a := v)) p xs q = chain nx p xs q"
  by (rule chain_cong) auto

lemma llist_null [simp]: "llist nx None xs \<longleftrightarrow> xs = []"
  by (cases xs) auto

lemma llist_Some: "llist nx (Some x) xs \<longleftrightarrow> (\<exists>ys. xs = x # ys \<and> llist nx (nx x) ys)"
  by (cases xs) auto

lemma llist_Nil_iff: "llist nx p xs \<Longrightarrow> (xs = []) = (p = None)"
  by (cases xs) auto

lemma llist_unique: "llist nx p xs \<Longrightarrow> llist nx p ys \<Longrightarrow> xs = ys"
proof (induction xs arbitrary: p ys)
  case Nil
  then show ?case by simp
next
  case (Cons x xs)
  then show ?case by (auto simp: llist_Some)
qed

lemma llist_head_notin: "llist nx (nx x) xs \<Longrightarrow> x \<notin> set xs"
proof
  assume l: "llist nx (nx x) xs" and "x \<in> set xs"
  then obtain us vs where xs: "xs = us @ x # vs" by (auto simp: in_set_conv_decomp)
  with l have "llist nx (nx x) vs" by (auto simp: chain_append)
  with l have "xs = vs" by (rule llist_unique)
  with xs show False by simp
qed

lemma llist_distinct: "llist nx p xs \<Longrightarrow> distinct xs"
  by (induction xs arbitrary: p) (auto dest: llist_head_notin)

text \<open>Linking the end of one list to the start of another.\<close>

lemma chain_last: "chain nx p xs q \<Longrightarrow> xs \<noteq> [] \<Longrightarrow> nx (last xs) = q"
  by (induction xs arbitrary: p) auto

lemma chain_relink:
  assumes "chain nx p xs q" and "xs \<noteq> []" and "distinct xs"
  shows "chain (nx(last xs := r)) p xs r"
proof -
  obtain ys y where xs: "xs = ys @ [y]" using assms(2) by (cases xs rule: rev_cases) auto
  from assms(1) xs have c: "chain nx p ys (Some y)" by (auto simp: chain_append)
  from assms(3) xs have "y \<notin> set ys" by simp
  with c show ?thesis by (simp add: xs chain_append chain_upd)
qed

lemma llist_link:
  assumes "chain nx p xs q" and "xs \<noteq> []" and "distinct xs"
    and "llist nx r ys" and "set xs \<inter> set ys = {}"
  shows "llist (nx(last xs := r)) p (xs @ ys)"
proof -
  have "chain (nx(last xs := r)) p xs r" using assms(1-3) by (rule chain_relink)
  moreover have "last xs \<notin> set ys" using assms(2,5) by (meson disjoint_iff last_in_set)
  ultimately show ?thesis using assms(4) by (auto simp: chain_append chain_upd)
qed

lemma chain_cut:
  assumes "llist nx p (xs @ ys)" and "xs \<noteq> []"
  shows "llist (nx(last xs := None)) p xs" and "llist nx (nx (last xs)) ys"
proof -
  from assms(1) obtain r where r: "chain nx p xs r" "llist nx r ys" by (auto simp: chain_append)
  have d: "distinct xs" using llist_distinct[OF assms(1)] by simp
  show "llist (nx(last xs := None)) p xs" using chain_relink[OF r(1) assms(2) d] .
  show "llist nx (nx (last xs)) ys" using r chain_last[OF r(1) assms(2)] by simp
qed

subsection \<open>Walking a list\<close>

text \<open>
  Following the \<open>next\<close> pointer a given number of times, and following it up to the last
  node. Both stop with a fault on a null pointer; the second runs for ever on a cyclic list.
\<close>

fun walk :: "('p \<Rightarrow> 'p option) \<Rightarrow> nat \<Rightarrow> 'p option \<Rightarrow> 'p option option" where
  "walk nx 0 p = Some p"
| "walk nx (Suc k) p = (case p of None \<Rightarrow> None | Some a \<Rightarrow> walk nx k (nx a))"

partial_function (option) walkEnd :: "('p \<Rightarrow> 'p option) \<Rightarrow> 'p \<Rightarrow> 'p option" where
  "walkEnd nx a = (case nx a of None \<Rightarrow> Some a | Some b \<Rightarrow> walkEnd nx b)"

definition ptr_at :: "'p list \<Rightarrow> nat \<Rightarrow> 'p option" where
  "ptr_at xs k = (if k < length xs then Some (xs ! k) else None)"

lemma ptr_at_simps [simp]:
  "ptr_at [] k = None"
  "ptr_at (x # xs) 0 = Some x"
  "ptr_at (x # xs) (Suc k) = ptr_at xs k"
  by (auto simp: ptr_at_def)

lemma llist_ptr_at: "llist nx p xs \<Longrightarrow> p = ptr_at xs 0"
  by (cases xs) auto

lemma walk_llist:
  "llist nx p xs \<Longrightarrow> walk nx k p = (if k \<le> length xs then Some (ptr_at xs k) else None)"
proof (induction k arbitrary: p xs)
  case 0
  then show ?case by (cases xs) auto
next
  case (Suc k)
  then show ?case by (cases xs) auto
qed

lemma llist_drop: "llist nx p xs \<Longrightarrow> k \<le> length xs \<Longrightarrow> llist nx (ptr_at xs k) (drop k xs)"
proof (induction k arbitrary: p xs)
  case 0
  then show ?case by (cases xs) auto
next
  case (Suc k)
  then show ?case by (cases xs) auto
qed

lemma walkEnd_llist: "llist nx (Some a) xs \<Longrightarrow> walkEnd nx a = Some (last xs)"
proof (induction xs arbitrary: a)
  case Nil
  then show ?case by simp
next
  case (Cons x xs)
  then have [simp]: "x = a" and l: "llist nx (nx a) xs" by auto
  show ?case
  proof (cases xs)
    case Nil
    with l show ?thesis by (simp add: walkEnd.simps)
  next
    case (Cons y ys)
    with l have n: "nx a = Some y" by simp
    with l have "llist nx (Some y) xs" by simp
    then have "walkEnd nx y = Some (last xs)" by (rule Cons.IH)
    with n Cons show ?thesis by (simp add: walkEnd.simps [of nx a])
  qed
qed

subsection \<open>Little-endian byte representations\<close>

primrec leBytes :: "nat \<Rightarrow> nat \<Rightarrow> byte list" where
  "leBytes 0 x = []"
| "leBytes (Suc n) x = of_nat (x mod 256) # leBytes n (x div 256)"

lemma of_nat_mod_byte: "(of_nat (n mod 256) :: byte) = of_nat n"
  by (simp add: word_of_nat_eq_iff take_bit_eq_mod)

lemma leBytes_Suc: "leBytes (Suc k) n = of_nat n # leBytes k (n div 256)"
  by (simp add: of_nat_mod_byte)

primrec leNat :: "byte list \<Rightarrow> nat" where
  "leNat [] = 0"
| "leNat (b # bs) = unat b + 256 * leNat bs"

lemma length_leBytes [simp]: "length (leBytes n x) = n"
  by (induction n arbitrary: x) auto

lemma unat_byte [simp]: "unat (of_nat (x mod 256) :: byte) = x mod 256"
  by (simp add: unat_of_nat take_bit_eq_mod)

lemma leNat_leBytes: "leNat (leBytes n x) = x mod 256 ^ n"
proof (induction n arbitrary: x)
  case 0
  then show ?case by simp
next
  case (Suc n)
  have "x mod (256 * 256 ^ n) = 256 * (x div 256 mod 256 ^ n) + x mod 256"
    by (rule mod_mult2_eq)
  then show ?case using Suc by (simp add: unat_of_nat take_bit_eq_mod)
qed

lemma leNat_less: "leNat bs < 256 ^ length bs"
proof (induction bs)
  case (Cons b bs)
  have "unat b < 256" using unsigned_less [of b] by simp
  with Cons show ?case by simp
qed simp

lemma leBytes_leNat: "leBytes (length bs) (leNat bs) = bs"
proof (induction bs)
  case (Cons b bs)
  have b: "unat b < 256" using unsigned_less [of b] by simp
  then have "(unat b + 256 * leNat bs) mod 256 = unat b" "(unat b + 256 * leNat bs) div 256 = leNat bs"
    by simp_all
  with Cons show ?case by simp
qed simp

end
