(* ===== verification/Gmos_Segments.thy ===== *)
theory Gmos_Segments
  imports Gmos_Prelude
begin

text \<open>
  The contract between the memory pool and the components that keep data in linked lists of
  its segments (buffers and streams): what allocation and release promise about the segments
  that clients own, and what a client may do to its own segments. Inside the locale the four
  list surgeries the clients perform are proved once: appending and prepending freshly
  allocated segments, and cutting off the end or the start of a list.
\<close>

locale segment_store =
  fixes ok :: "'s \<Rightarrow> nat set \<Rightarrow> bool"
    and nxt :: "'s \<Rightarrow> nat \<Rightarrow> nat option"
    and content :: "'s \<Rightarrow> nat \<Rightarrow> byte list"
    and room :: "'s \<Rightarrow> nat"
    and fixed_pool :: "'s \<Rightarrow> bool"
    and link :: "nat \<Rightarrow> nat option \<Rightarrow> 's \<Rightarrow> 's"
    and alloc :: "nat \<Rightarrow> 's \<Rightarrow> (nat option \<times> 's) option"
    and release :: "nat option \<Rightarrow> 's \<Rightarrow> 's option"
  assumes nxt_link: "nxt (link a v s) = (nxt s)(a := v)"
    and content_link: "content (link a v s) = content s"
    and room_link: "room (link a v s) = room s"
    and fixed_link: "fixed_pool (link a v s) = fixed_pool s"
    and ok_link: "ok s own \<Longrightarrow> a \<in> own \<Longrightarrow> ok (link a v s) own"
    and alloc_some: "ok s own \<Longrightarrow> 0 < n \<Longrightarrow> n \<le> room s \<Longrightarrow>
      \<exists>s' h xs. alloc n s = Some (Some h, s') \<and> llist (nxt s') (Some h) xs \<and> length xs = n \<and>
        set xs \<inter> own = {} \<and> ok s' (own \<union> set xs) \<and> (\<forall>a\<in>own. nxt s' a = nxt s a) \<and>
        content s' = content s \<and> room s - n \<le> room s' \<and>
        fixed_pool s' = fixed_pool s \<and> (fixed_pool s \<longrightarrow> room s' = room s - n)"
    and alloc_none: "ok s own \<Longrightarrow> room s < n \<Longrightarrow>
      \<exists>s'. alloc n s = Some (None, s') \<and> ok s' own \<and> (\<forall>a\<in>own. nxt s' a = nxt s a) \<and>
        content s' = content s \<and> room s \<le> room s' \<and>
        fixed_pool s' = fixed_pool s \<and> (fixed_pool s \<longrightarrow> s' = s)"
    and release_some: "ok s own \<Longrightarrow> llist (nxt s) h xs \<Longrightarrow> set xs \<subseteq> own \<Longrightarrow>
      \<exists>s'. release h s = Some s' \<and> ok s' (own - set xs) \<and>
        (\<forall>a\<in>own - set xs. nxt s' a = nxt s a) \<and> content s' = content s \<and>
        fixed_pool s' = fixed_pool s \<and> (fixed_pool s \<longrightarrow> room s' = room s + length xs)"
begin

text \<open>Appending \<open>n\<close> new segments to a client's list.\<close>

lemma alloc_append:
  assumes "ok s (set xs \<union> R)" "llist (nxt s) h xs" "xs \<noteq> []" "set xs \<inter> R = {}"
    and "0 < n" "n \<le> room s"
  shows "\<exists>s1 new ys. alloc n s = Some (Some new, s1) \<and> length ys = n \<and>
    llist (nxt s1) h xs \<and> set ys \<inter> (set xs \<union> R) = {} \<and>
    (let s2 = link (last xs) (Some new) s1
     in llist (nxt s2) h (xs @ ys) \<and> ok s2 (set (xs @ ys) \<union> R) \<and>
        (\<forall>a\<in>R. nxt s2 a = nxt s a) \<and> content s2 = content s \<and> room s - n \<le> room s2 \<and>
        fixed_pool s2 = fixed_pool s \<and> (fixed_pool s \<longrightarrow> room s2 = room s - n))"
proof -
  from alloc_some [OF assms(1,5,6)] obtain s1 new ys where r:
    "alloc n s = Some (Some new, s1)" "llist (nxt s1) (Some new) ys" "length ys = n"
    "set ys \<inter> (set xs \<union> R) = {}" "ok s1 (set xs \<union> R \<union> set ys)"
    "\<forall>a\<in>set xs \<union> R. nxt s1 a = nxt s a" "content s1 = content s" "room s - n \<le> room s1"
    "fixed_pool s1 = fixed_pool s" "fixed_pool s \<longrightarrow> room s1 = room s - n" by blast
  have c: "llist (nxt s1) h xs" using r(6) assms(2) chain_cong [of xs "nxt s1" "nxt s"] by auto
  have "llist ((nxt s1)(last xs := Some new)) h (xs @ ys)"
    by (rule llist_link [OF c assms(3) llist_distinct [OF c] r(2)]) (use r(4) in blast)
  moreover have "last xs \<notin> R" using assms(3,4) by (meson disjoint_iff last_in_set)
  moreover have "ok (link (last xs) (Some new) s1) (set xs \<union> R \<union> set ys)"
    using ok_link [OF r(5)] assms(3) by simp
  then have "ok (link (last xs) (Some new) s1) (set (xs @ ys) \<union> R)"
    by (simp add: Un_ac)
  ultimately show ?thesis
    using r(1,3,4,6-10) c
    by (intro exI [of _ s1] exI [of _ new] exI [of _ ys])
       (simp add: Let_def nxt_link content_link room_link fixed_link)
qed

text \<open>Prepending \<open>n\<close> new segments.\<close>

lemma alloc_prepend:
  assumes "ok s (set xs \<union> R)" "llist (nxt s) h xs" "set xs \<inter> R = {}"
    and "0 < n" "n \<le> room s"
  shows "\<exists>s1 new ys. alloc n s = Some (Some new, s1) \<and> length ys = n \<and>
    llist (nxt s1) (Some new) ys \<and> set ys \<inter> (set xs \<union> R) = {} \<and>
    (let s2 = link (last ys) h s1
     in llist (nxt s2) (Some new) (ys @ xs) \<and> ok s2 (set (ys @ xs) \<union> R) \<and>
        (\<forall>a\<in>R. nxt s2 a = nxt s a) \<and> content s2 = content s \<and>
        fixed_pool s2 = fixed_pool s \<and> (fixed_pool s \<longrightarrow> room s2 = room s - n))"
proof -
  from alloc_some [OF assms(1,4,5)] obtain s1 new ys where r:
    "alloc n s = Some (Some new, s1)" "llist (nxt s1) (Some new) ys" "length ys = n"
    "set ys \<inter> (set xs \<union> R) = {}" "ok s1 (set xs \<union> R \<union> set ys)"
    "\<forall>a\<in>set xs \<union> R. nxt s1 a = nxt s a" "content s1 = content s"
    "fixed_pool s1 = fixed_pool s" "fixed_pool s \<longrightarrow> room s1 = room s - n" by blast
  have ne: "ys \<noteq> []" using r(3) assms(4) by auto
  have c: "llist (nxt s1) h xs" using r(6) assms(2) chain_cong [of xs "nxt s1" "nxt s"] by auto
  have "llist ((nxt s1)(last ys := h)) (Some new) (ys @ xs)"
    by (rule llist_link [OF r(2) ne llist_distinct [OF r(2)] c]) (use r(4) in blast)
  moreover have "last ys \<notin> R" using ne r(4) by (meson disjoint_iff last_in_set Un_iff)
  moreover have "ok (link (last ys) h s1) (set xs \<union> R \<union> set ys)"
    using ok_link [OF r(5)] ne by simp
  then have "ok (link (last ys) h s1) (set (ys @ xs) \<union> R)"
    by (simp add: Un_ac)
  ultimately show ?thesis
    using r(1-4,6-9)
    by (intro exI [of _ s1] exI [of _ new] exI [of _ ys])
       (simp add: Let_def nxt_link content_link room_link fixed_link)
qed

text \<open>Releasing the end of a list: the segments go back first, then the link is cut.\<close>

lemma release_suffix:
  assumes "ok s (set (xs @ ys) \<union> R)" "llist (nxt s) h (xs @ ys)" "xs \<noteq> []"
    and "set (xs @ ys) \<inter> R = {}"
  shows "\<exists>s1. release (nxt s (last xs)) s = Some s1 \<and>
    (let s2 = link (last xs) None s1
     in llist (nxt s2) h xs \<and> ok s2 (set xs \<union> R) \<and> (\<forall>a\<in>R. nxt s2 a = nxt s a) \<and>
        content s2 = content s \<and>
        fixed_pool s2 = fixed_pool s \<and> (fixed_pool s \<longrightarrow> room s2 = room s + length ys))"
proof -
  have d: "distinct (xs @ ys)" using llist_distinct [OF assms(2)] .
  have own: "set (xs @ ys) \<union> R - set ys = set xs \<union> R" using d assms(4) by auto
  have "llist (nxt s) (nxt s (last xs)) ys" using chain_cut (2) [OF assms(2,3)] .
  from release_some [OF assms(1) this] own obtain s1 where r:
    "release (nxt s (last xs)) s = Some s1" "ok s1 (set xs \<union> R)"
    "\<forall>a\<in>set xs \<union> R. nxt s1 a = nxt s a" "content s1 = content s"
    "fixed_pool s1 = fixed_pool s" "fixed_pool s \<longrightarrow> room s1 = room s + length ys" by auto
  have "llist ((nxt s)(last xs := None)) h xs" using chain_cut (1) [OF assms(2,3)] .
  then have "llist ((nxt s1)(last xs := None)) h xs"
    using chain_cong [of xs "(nxt s1)(last xs := None)" "(nxt s)(last xs := None)"] r(3) by auto
  moreover have "last xs \<notin> R" using assms(3,4) by (metis disjoint_iff in_set_conv_decomp append_is_Nil_conv last_in_set set_append Un_iff)
  ultimately show ?thesis
    using r ok_link [OF r(2)] assms(3)
    by (intro exI [of _ s1])
       (simp add: Let_def nxt_link content_link room_link fixed_link)
qed

text \<open>Releasing the start of a list: the link is cut first, then the segments go back.\<close>

lemma release_prefix:
  assumes "ok s (set (xs @ ys) \<union> R)" "llist (nxt s) h (xs @ ys)" "xs \<noteq> []"
    and "set (xs @ ys) \<inter> R = {}"
  shows "\<exists>s2. release h (link (last xs) None s) = Some s2 \<and>
    llist (nxt s2) (nxt s (last xs)) ys \<and> ok s2 (set ys \<union> R) \<and> (\<forall>a\<in>R. nxt s2 a = nxt s a) \<and>
    content s2 = content s \<and>
    fixed_pool s2 = fixed_pool s \<and> (fixed_pool s \<longrightarrow> room s2 = room s + length xs)"
proof -
  let ?s1 = "link (last xs) None s"
  have d: "distinct (xs @ ys)" using llist_distinct [OF assms(2)] .
  have own: "set (xs @ ys) \<union> R - set xs = set ys \<union> R" using d assms(4) by auto
  have ok1: "ok ?s1 (set (xs @ ys) \<union> R)" using ok_link [OF assms(1)] assms(3) by simp
  have "llist (nxt ?s1) h xs" using chain_cut (1) [OF assms(2,3)] by (simp add: nxt_link)
  from release_some [OF ok1 this] own obtain s2 where r:
    "release h ?s1 = Some s2" "ok s2 (set ys \<union> R)"
    "\<forall>a\<in>set ys \<union> R. nxt s2 a = nxt ?s1 a" "content s2 = content ?s1"
    "fixed_pool s2 = fixed_pool ?s1" "fixed_pool ?s1 \<longrightarrow> room s2 = room ?s1 + length xs" by auto
  have lx: "last xs \<notin> set ys \<union> R" using assms(3,4) d
    by (metis Un_iff disjoint_iff distinct_append last_in_set set_append)
  then have eq: "\<forall>a\<in>set ys \<union> R. nxt s2 a = nxt s a" using r(3) by (auto simp: nxt_link)
  moreover have "llist (nxt s2) (nxt s (last xs)) ys"
    using chain_cut (2) [OF assms(2,3)] chain_cong [of ys "nxt s2" "nxt s"] eq by auto
  ultimately show ?thesis using r by (simp add: content_link room_link fixed_link)
qed

text \<open>Nothing is leaked: releasing what was just allocated returns to the same owners.\<close>

lemma alloc_release:
  assumes "ok s own" "0 < n" "n \<le> room s"
  shows "\<exists>s1 s2 h. alloc n s = Some (h, s1) \<and> release h s1 = Some s2 \<and> ok s2 own \<and>
    (\<forall>a\<in>own. nxt s2 a = nxt s a) \<and> content s2 = content s \<and>
    (fixed_pool s \<longrightarrow> room s2 = room s)"
proof -
  from alloc_some [OF assms] obtain s1 h xs where r:
    "alloc n s = Some (Some h, s1)" "llist (nxt s1) (Some h) xs" "length xs = n"
    "set xs \<inter> own = {}" "ok s1 (own \<union> set xs)" "\<forall>a\<in>own. nxt s1 a = nxt s a"
    "content s1 = content s" "fixed_pool s1 = fixed_pool s"
    "fixed_pool s \<longrightarrow> room s1 = room s - n" by blast
  have "own \<union> set xs - set xs = own" using r(4) by auto
  with release_some [OF r(5,2)] obtain s2 where q: "release (Some h) s1 = Some s2" "ok s2 own"
    "\<forall>a\<in>own. nxt s2 a = nxt s1 a" "content s2 = content s1"
    "fixed_pool s1 \<longrightarrow> room s2 = room s1 + length xs" by auto
  from r(6) q(3) have "\<forall>a\<in>own. nxt s2 a = nxt s a" by simp
  with r(1,3,7-9) q(1,2,4,5) assms(3) show ?thesis by auto
qed

end

end
