(* ===== verification/Gmos_Mempool.thy ===== *)
theory Gmos_Mempool
  imports Gmos_Segments
begin

text \<open>
  The memory pool of common/src/gmos-mempool.c: fixed-size segments linked into a free list.

  A segment is named by its address, a \<open>nat\<close>; the fields of all segments are the two
  functions \<open>nextSegment\<close> and \<open>segBytes\<close>. The file's static variables are the fields
  \<open>gmosMempoolFreeList\<close> and \<open>gmosMempoolFreeSegmentCount\<close>. The compile-time option
  GMOS_CONFIG_MEMPOOL_USE_HEAP is the field \<open>mempoolUseHeap\<close>, which no operation writes;
  \<open>heapBlocks\<close> holds the blocks the platform's heap can still hand out, so GMOS_MALLOC returns
  the first of them (NULL when there is none) and GMOS_FREE puts one back.

  \<open>pool_ok p own\<close> is the invariant: the free list is a proper list of as many segments as
  the counter says, all of them different from each other, from the blocks left on the heap and
  from the segments \<open>own\<close> that the pool's clients hold. \<open>same_on\<close> is the frame: an
  operation leaves the segments of the other clients alone.
\<close>

subsection \<open>State\<close>

definition GMOS_CONFIG_MEMPOOL_SEGMENT_SIZE :: nat where
  "GMOS_CONFIG_MEMPOOL_SEGMENT_SIZE = 64"

definition GMOS_CONFIG_MEMPOOL_SEGMENT_NUMBER :: nat where
  "GMOS_CONFIG_MEMPOOL_SEGMENT_NUMBER = 64"

definition FREE_SEGMENT_THRESHOLD :: nat where
  "FREE_SEGMENT_THRESHOLD = GMOS_CONFIG_MEMPOOL_SEGMENT_NUMBER div 4"

abbreviation SEG :: nat where
  "SEG \<equiv> GMOS_CONFIG_MEMPOOL_SEGMENT_SIZE"

record mempool =
  nextSegment :: "nat \<Rightarrow> nat option"
  segBytes :: "nat \<Rightarrow> byte list"
  gmosMempoolFreeList :: "nat option"
  gmosMempoolFreeSegmentCount :: nat
  mempoolUseHeap :: bool
  heapBlocks :: "nat list"

subsection \<open>Operations\<close>

function checkLowerCapacityThreshold :: "mempool \<Rightarrow> mempool" where
  "checkLowerCapacityThreshold p =
     (if mempoolUseHeap p \<and> gmosMempoolFreeSegmentCount p < FREE_SEGMENT_THRESHOLD
      then (case heapBlocks p of
              [] \<Rightarrow> p
            | newSegment # blocks \<Rightarrow>
                checkLowerCapacityThreshold
                  (p\<lparr>heapBlocks := blocks,
                     nextSegment := (nextSegment p)(newSegment := gmosMempoolFreeList p),
                     gmosMempoolFreeList := Some newSegment,
                     gmosMempoolFreeSegmentCount := u32 (gmosMempoolFreeSegmentCount p + 1)\<rparr>))
      else p)"
  by pat_completeness auto
termination
  by (relation "measure (\<lambda>p. length (heapBlocks p))") auto

partial_function (option) checkUpperCapacityThreshold :: "mempool \<Rightarrow> mempool option" where
  "checkUpperCapacityThreshold p =
     (if mempoolUseHeap p \<and>
         gmosMempoolFreeSegmentCount p > GMOS_CONFIG_MEMPOOL_SEGMENT_NUMBER
      then (case gmosMempoolFreeList p of
              None \<Rightarrow> None
            | Some oldSegment \<Rightarrow>
                checkUpperCapacityThreshold
                  (p\<lparr>gmosMempoolFreeList := nextSegment p oldSegment,
                     heapBlocks := oldSegment # heapBlocks p,
                     gmosMempoolFreeSegmentCount :=
                       sub32 (gmosMempoolFreeSegmentCount p) 1\<rparr>))
      else Some p)"

text \<open>
  Initialisation links every segment behind the previous one through the pointer
  \<open>nextSegmentPtr\<close>, which first points at the list head (\<open>None\<close>) and then at the
  \<open>nextSegment\<close> field of the segment just linked (\<open>Some\<close> of it). A static pool uses the
  array entries \<open>0, 1, 2, ...\<close>; a heap pool asks the heap and trips an assertion when it is
  exhausted.
\<close>

definition storeNextSegment :: "nat option \<Rightarrow> nat option \<Rightarrow> mempool \<Rightarrow> mempool" where
  "storeNextSegment ptr v p =
     (case ptr of
        None \<Rightarrow> p\<lparr>gmosMempoolFreeList := v\<rparr>
      | Some s \<Rightarrow> p\<lparr>nextSegment := (nextSegment p)(s := v)\<rparr>)"

primrec gmosMempoolInitLoop ::
    "nat list \<Rightarrow> nat option \<Rightarrow> mempool \<Rightarrow> (nat option \<times> mempool) option" where
  "gmosMempoolInitLoop [] ptr p = Some (ptr, p)"
| "gmosMempoolInitLoop (i # is) ptr p =
     (if mempoolUseHeap p
      then (case heapBlocks p of
              [] \<Rightarrow> None
            | s # blocks \<Rightarrow>
                gmosMempoolInitLoop is (Some s)
                  (storeNextSegment ptr (Some s) (p\<lparr>heapBlocks := blocks\<rparr>)))
      else gmosMempoolInitLoop is (Some i) (storeNextSegment ptr (Some i) p))"

definition gmosMempoolInit :: "mempool \<Rightarrow> mempool option" where
  "gmosMempoolInit p = do {
     (ptr, p) \<leftarrow> gmosMempoolInitLoop [0..<GMOS_CONFIG_MEMPOOL_SEGMENT_NUMBER] None p;
     Some ((storeNextSegment ptr None p)
             \<lparr>gmosMempoolFreeSegmentCount := GMOS_CONFIG_MEMPOOL_SEGMENT_NUMBER\<rparr>) }"

definition gmosMempoolSegmentsAvailable :: "mempool \<Rightarrow> nat" where
  "gmosMempoolSegmentsAvailable p = u16 (gmosMempoolFreeSegmentCount p)"

definition gmosMempoolAlloc :: "mempool \<Rightarrow> nat option \<times> mempool" where
  "gmosMempoolAlloc p =
     (let segment = gmosMempoolFreeList p;
          p1 = (case segment of
                  None \<Rightarrow> p
                | Some s \<Rightarrow>
                    p\<lparr>gmosMempoolFreeList := nextSegment p s,
                      nextSegment := (nextSegment p)(s := None),
                      gmosMempoolFreeSegmentCount :=
                        sub32 (gmosMempoolFreeSegmentCount p) 1\<rparr>)
      in (segment, checkLowerCapacityThreshold p1))"

definition gmosMempoolFree :: "nat option \<Rightarrow> mempool \<Rightarrow> mempool option" where
  "gmosMempoolFree freeSegment p =
     checkUpperCapacityThreshold
       (case freeSegment of
          None \<Rightarrow> p
        | Some s \<Rightarrow>
            p\<lparr>nextSegment := (nextSegment p)(s := gmosMempoolFreeList p),
              gmosMempoolFreeList := Some s,
              gmosMempoolFreeSegmentCount := u32 (gmosMempoolFreeSegmentCount p + 1)\<rparr>)"

definition gmosMempoolAllocSegments :: "nat \<Rightarrow> mempool \<Rightarrow> (nat option \<times> mempool) option" where
  "gmosMempoolAllocSegments segmentCount p =
     (if segmentCount \<le> gmosMempoolFreeSegmentCount p
      then do {
        end \<leftarrow> walk (nextSegment p) (segmentCount - 1) (gmosMempoolFreeList p);
        s \<leftarrow> end;
        Some (gmosMempoolFreeList p,
              checkLowerCapacityThreshold
                (p\<lparr>gmosMempoolFreeList := nextSegment p s,
                   nextSegment := (nextSegment p)(s := None),
                   gmosMempoolFreeSegmentCount :=
                     sub32 (gmosMempoolFreeSegmentCount p) segmentCount\<rparr>)) }
      else Some (None, checkLowerCapacityThreshold p))"

text \<open>The loop that counts the segments to be freed and stops at the last of them.\<close>

partial_function (option) countSegments ::
    "(nat \<Rightarrow> nat option) \<Rightarrow> nat \<Rightarrow> nat \<Rightarrow> (nat \<times> nat) option" where
  "countSegments nx segment segmentCount =
     (case nx segment of
        None \<Rightarrow> Some (segment, segmentCount)
      | Some s \<Rightarrow> countSegments nx s (u32 (segmentCount + 1)))"

definition gmosMempoolFreeSegments :: "nat option \<Rightarrow> mempool \<Rightarrow> mempool option" where
  "gmosMempoolFreeSegments freeSegments p =
     (case freeSegments of
        None \<Rightarrow> checkUpperCapacityThreshold p
      | Some s \<Rightarrow> do {
          (segment, segmentCount) \<leftarrow> countSegments (nextSegment p) s 1;
          checkUpperCapacityThreshold
            (p\<lparr>nextSegment := (nextSegment p)(segment := gmosMempoolFreeList p),
               gmosMempoolFreeList := Some s,
               gmosMempoolFreeSegmentCount :=
                 u32 (gmosMempoolFreeSegmentCount p + segmentCount)\<rparr>) })"

declare checkLowerCapacityThreshold.simps [simp del]

subsection \<open>Invariant and frame\<close>

definition pool_inv :: "mempool \<Rightarrow> nat set \<Rightarrow> nat list \<Rightarrow> bool" where
  "pool_inv p own fs \<longleftrightarrow>
     llist (nextSegment p) (gmosMempoolFreeList p) fs \<and>
     gmosMempoolFreeSegmentCount p = length fs \<and>
     distinct (fs @ heapBlocks p) \<and>
     own \<inter> set (fs @ heapBlocks p) = {} \<and>
     own \<union> set (fs @ heapBlocks p) \<subseteq> {..<65535} \<and>
     (\<forall>a. length (segBytes p a) = SEG)"

definition pool_ok :: "mempool \<Rightarrow> nat set \<Rightarrow> bool" where
  "pool_ok p own \<longleftrightarrow> (\<exists>fs. pool_inv p own fs)"

definition same_on :: "nat set \<Rightarrow> mempool \<Rightarrow> mempool \<Rightarrow> bool" where
  "same_on A p p' \<longleftrightarrow>
     (\<forall>a\<in>A. nextSegment p' a = nextSegment p a \<and> segBytes p' a = segBytes p a)"

abbreviation avail :: "mempool \<Rightarrow> nat" where
  "avail p \<equiv> gmosMempoolFreeSegmentCount p"

lemma SEG_pos [simp]: "0 < SEG"
  by (simp add: GMOS_CONFIG_MEMPOOL_SEGMENT_SIZE_def)

lemma same_on_refl [simp]: "same_on A p p"
  by (simp add: same_on_def)

lemma same_on_trans [trans]: "same_on A p q \<Longrightarrow> same_on A q r \<Longrightarrow> same_on A p r"
  by (simp add: same_on_def)

lemma same_on_mono: "same_on A p q \<Longrightarrow> B \<subseteq> A \<Longrightarrow> same_on B p q"
  by (auto simp: same_on_def)

lemma same_on_chain:
  "same_on A p p' \<Longrightarrow> set xs \<subseteq> A \<Longrightarrow>
     chain (nextSegment p') s xs q = chain (nextSegment p) s xs q"
  by (rule chain_cong) (auto simp: same_on_def)

lemma distinct_bound_length:
  "distinct xs \<Longrightarrow> set xs \<subseteq> {..<n} \<Longrightarrow> length xs \<le> (n::nat)"
  using card_mono [of "{..<n}" "set xs"] by (simp add: distinct_card)

lemma pool_inv_length: "pool_inv p own fs \<Longrightarrow> length fs + length (heapBlocks p) \<le> 65535"
  using distinct_bound_length [of "fs @ heapBlocks p" 65535]
  by (simp add: pool_inv_def)

lemma pool_inv_avail: "pool_inv p own fs \<Longrightarrow> avail p \<le> 65535"
  using pool_inv_length [of p own fs] by (simp add: pool_inv_def)

lemma pool_inv_count: "pool_inv p own fs \<Longrightarrow> avail p = length fs"
  by (simp add: pool_inv_def)

lemma pool_okI: "pool_inv p own fs \<Longrightarrow> pool_ok p own"
  by (auto simp: pool_ok_def)

lemma pool_ok_avail: "pool_ok p own \<Longrightarrow> avail p \<le> 65535"
  by (auto simp: pool_ok_def dest: pool_inv_avail)

lemma pool_ok_segBytes: "pool_ok p own \<Longrightarrow> length (segBytes p a) = SEG"
  by (auto simp: pool_ok_def pool_inv_def)

text \<open>Changing fields of segments that a client owns keeps the invariant.\<close>

lemma pool_inv_owned_upd:
  assumes "pool_inv p own fs" and "a \<in> own"
  shows "pool_inv (p\<lparr>nextSegment := (nextSegment p)(a := v)\<rparr>) own fs"
proof -
  have "a \<notin> set fs" using assms by (auto simp: pool_inv_def)
  then show ?thesis using assms(1) by (simp add: pool_inv_def chain_upd)
qed

lemma pool_ok_next_upd:
  "pool_ok p own \<Longrightarrow> a \<in> own \<Longrightarrow> pool_ok (p\<lparr>nextSegment := (nextSegment p)(a := v)\<rparr>) own"
  by (auto simp: pool_ok_def intro: pool_inv_owned_upd)

lemma pool_ok_bytes_upd:
  "pool_ok p own \<Longrightarrow> length bs = SEG \<Longrightarrow> pool_ok (p\<lparr>segBytes := (segBytes p)(a := bs)\<rparr>) own"
  by (auto simp: pool_ok_def pool_inv_def)

subsection \<open>The capacity thresholds\<close>

text \<open>
  Refilling from the heap keeps the invariant for the same owners, never shrinks the free
  list, leaves every byte and every owned segment alone, and does nothing in a static pool.
\<close>

lemma checkLower_inv:
  "pool_inv p own fs \<Longrightarrow>
     \<exists>fs'. pool_inv (checkLowerCapacityThreshold p) own fs' \<and> length fs \<le> length fs' \<and>
       same_on own p (checkLowerCapacityThreshold p) \<and>
       segBytes (checkLowerCapacityThreshold p) = segBytes p \<and>
       mempoolUseHeap (checkLowerCapacityThreshold p) = mempoolUseHeap p \<and>
       (\<not> mempoolUseHeap p \<longrightarrow> checkLowerCapacityThreshold p = p)"
proof (induction p arbitrary: fs rule: checkLowerCapacityThreshold.induct)
  case (1 p)
  show ?case
  proof (cases "mempoolUseHeap p \<and> avail p < FREE_SEGMENT_THRESHOLD \<and> heapBlocks p \<noteq> []")
    case False
    then have "checkLowerCapacityThreshold p = p"
      by (subst checkLowerCapacityThreshold.simps) (auto split: list.splits)
    with "1.prems" show ?thesis by auto
  next
    case True
    then obtain s blocks where hb: "heapBlocks p = s # blocks" by (cases "heapBlocks p") auto
    let ?q = "p\<lparr>heapBlocks := blocks,
                nextSegment := (nextSegment p)(s := gmosMempoolFreeList p),
                gmosMempoolFreeList := Some s,
                gmosMempoolFreeSegmentCount := u32 (avail p + 1)\<rparr>"
    have eq: "checkLowerCapacityThreshold p = checkLowerCapacityThreshold ?q"
      using True hb by (subst checkLowerCapacityThreshold.simps) simp
    have s: "s \<notin> set fs" "s \<notin> own" using "1.prems" hb by (auto simp: pool_inv_def)
    have q: "pool_inv ?q own (s # fs)"
      using "1.prems" hb s pool_inv_avail [OF "1.prems"]
      by (auto simp: pool_inv_def chain_upd)
    have fr: "same_on own p ?q" using s by (auto simp: same_on_def)
    obtain fs' where r: "pool_inv (checkLowerCapacityThreshold ?q) own fs'"
        "length (s # fs) \<le> length fs'" "same_on own ?q (checkLowerCapacityThreshold ?q)"
        "segBytes (checkLowerCapacityThreshold ?q) = segBytes ?q"
        "mempoolUseHeap (checkLowerCapacityThreshold ?q) = mempoolUseHeap ?q"
      using "1.IH" [OF _ hb q] True by blast
    from fr r(3) have "same_on own p (checkLowerCapacityThreshold ?q)" by (rule same_on_trans)
    with r True show ?thesis unfolding eq by (intro exI [of _ fs']) simp
  qed
qed

lemma checkUpper_inv:
  assumes "pool_inv p own fs"
  shows "\<exists>p' fs'. checkUpperCapacityThreshold p = Some p' \<and> pool_inv p' own fs' \<and>
    same_on own p p' \<and> segBytes p' = segBytes p \<and> mempoolUseHeap p' = mempoolUseHeap p \<and>
    length fs' = (if mempoolUseHeap p then min (length fs) GMOS_CONFIG_MEMPOOL_SEGMENT_NUMBER
                  else length fs) \<and>
    (\<not> mempoolUseHeap p \<longrightarrow> p' = p)"
  using assms
proof (induction fs arbitrary: p)
  case Nil
  then have "checkUpperCapacityThreshold p = Some p"
    by (subst checkUpperCapacityThreshold.simps) (simp add: pool_inv_def)
  with Nil show ?case by auto
next
  case (Cons s fs)
  show ?case
  proof (cases "mempoolUseHeap p \<and> GMOS_CONFIG_MEMPOOL_SEGMENT_NUMBER < avail p")
    case False
    then have "checkUpperCapacityThreshold p = Some p"
      by (subst checkUpperCapacityThreshold.simps) auto
    moreover have "avail p = length (s # fs)" using Cons.prems by (simp add: pool_inv_def)
    ultimately show ?thesis using False Cons.prems by auto
  next
    case True
    let ?q = "p\<lparr>gmosMempoolFreeList := nextSegment p s, heapBlocks := s # heapBlocks p,
                gmosMempoolFreeSegmentCount := sub32 (avail p) 1\<rparr>"
    have fl: "gmosMempoolFreeList p = Some s" "avail p = Suc (length fs)"
      using Cons.prems by (auto simp: pool_inv_def)
    then have eq: "checkUpperCapacityThreshold p = checkUpperCapacityThreshold ?q"
      using True by (subst checkUpperCapacityThreshold.simps) simp
    have "pool_inv ?q own fs" using Cons.prems fl by (auto simp: pool_inv_def)
    then obtain p' fs' where r: "checkUpperCapacityThreshold ?q = Some p'" "pool_inv p' own fs'"
        "same_on own ?q p'" "segBytes p' = segBytes p" "mempoolUseHeap p'"
        "length fs' = min (length fs) GMOS_CONFIG_MEMPOOL_SEGMENT_NUMBER"
      using Cons.IH [of ?q] True by auto
    have "same_on own p p'" using r(3) by (simp add: same_on_def)
    moreover have "length fs' = min (length (s # fs)) GMOS_CONFIG_MEMPOOL_SEGMENT_NUMBER"
      using r(6) True fl(2) by simp
    ultimately show ?thesis using eq r True by auto
  qed
qed

subsection \<open>Allocation and release\<close>

text \<open>
  Allocating \<open>n\<close> segments when that many are free hands out a null-terminated list of exactly
  \<open>n\<close> segments that no client owned, and they become owned.
\<close>

lemma AllocSegments_inv:
  assumes inv: "pool_inv p own fs" and n: "0 < n" "n \<le> length fs"
  shows "\<exists>p' h. gmosMempoolAllocSegments n p = Some (h, p') \<and>
    llist (nextSegment p') h (take n fs) \<and> h \<noteq> None \<and>
    pool_ok p' (own \<union> set (take n fs)) \<and> same_on own p p' \<and> segBytes p' = segBytes p \<and>
    mempoolUseHeap p' = mempoolUseHeap p \<and>
    length fs - n \<le> avail p' \<and> (\<not> mempoolUseHeap p \<longrightarrow> avail p' = length fs - n)"
proof -
  let ?xs = "take n fs" and ?ys = "drop n fs"
  have l: "llist (nextSegment p) (gmosMempoolFreeList p) (?xs @ ?ys)" and ne: "?xs \<noteq> []"
    and cnt: "avail p = length fs"
    using inv n by (auto simp: pool_inv_def)
  have s: "ptr_at fs (n - 1) = Some (last ?xs)"
    using n by (cases n) (auto simp: ptr_at_def take_Suc_conv_app_nth)
  have w: "walk (nextSegment p) (n - 1) (gmosMempoolFreeList p) = Some (Some (last ?xs))"
    using walk_llist [of "nextSegment p" "gmosMempoolFreeList p" fs "n - 1"] l n s by simp
  let ?q = "p\<lparr>gmosMempoolFreeList := nextSegment p (last ?xs),
              nextSegment := (nextSegment p)(last ?xs := None),
              gmosMempoolFreeSegmentCount := sub32 (avail p) n\<rparr>"
  have lx: "last ?xs \<in> set ?xs" using ne by simp
  have dj: "set ?xs \<inter> set ?ys = {}" "set ?xs \<inter> own = {}"
    using inv by (auto simp: pool_inv_def set_take_disj_set_drop_if_distinct dest: in_set_takeD)
  have q: "pool_inv ?q (own \<union> set ?xs) ?ys"
  proof -
    have "llist (nextSegment ?q) (gmosMempoolFreeList ?q) ?ys"
      using chain_cut (2) [OF l ne] lx dj by (simp add: chain_upd disjoint_iff)
    moreover have "set ?xs \<inter> set (heapBlocks p) = {}"
      using inv by (auto simp: pool_inv_def dest: in_set_takeD)
    moreover have "set ?xs \<subseteq> {..<65535}"
      using inv by (auto simp: pool_inv_def dest: in_set_takeD)
    ultimately show ?thesis
      using inv dj(1) n cnt by (auto simp: pool_inv_def dest: in_set_dropD)
  qed
  from checkLower_inv [OF q] obtain fs' where r:
      "pool_inv (checkLowerCapacityThreshold ?q) (own \<union> set ?xs) fs'" "length ?ys \<le> length fs'"
      "same_on (own \<union> set ?xs) ?q (checkLowerCapacityThreshold ?q)"
      "segBytes (checkLowerCapacityThreshold ?q) = segBytes ?q"
      "mempoolUseHeap (checkLowerCapacityThreshold ?q) = mempoolUseHeap ?q"
      "\<not> mempoolUseHeap ?q \<longrightarrow> checkLowerCapacityThreshold ?q = ?q" by blast
  have "llist (nextSegment ?q) (gmosMempoolFreeList p) ?xs"
    using chain_cut (1) [OF l ne] by simp
  then have "llist (nextSegment (checkLowerCapacityThreshold ?q)) (gmosMempoolFreeList p) ?xs"
    using same_on_chain [OF r(3)] by simp
  moreover have "same_on own p ?q" using dj lx by (auto simp: same_on_def)
  then have "same_on own p (checkLowerCapacityThreshold ?q)"
    using same_on_trans same_on_mono [OF r(3)] by blast
  moreover have "gmosMempoolAllocSegments n p =
      Some (gmosMempoolFreeList p, checkLowerCapacityThreshold ?q)"
    using n cnt w by (simp add: gmosMempoolAllocSegments_def)
  moreover have "gmosMempoolFreeList p \<noteq> None" using l ne by (cases fs) auto
  moreover have "avail (checkLowerCapacityThreshold ?q) = length fs'"
    using r(1) by (simp add: pool_inv_def)
  moreover have "pool_ok (checkLowerCapacityThreshold ?q) (own \<union> set ?xs)"
    using r(1) by (auto simp: pool_ok_def)
  ultimately show ?thesis using r(2,4,5,6) cnt n by auto
qed

lemma AllocSegments_ok:
  assumes "pool_ok p own" and "0 < n" and "n \<le> avail p"
  obtains p' h xs where "gmosMempoolAllocSegments n p = Some (h, p')"
    "llist (nextSegment p') h xs" "length xs = n" "h \<noteq> None" "set xs \<inter> own = {}"
    "pool_ok p' (own \<union> set xs)" "same_on own p p'" "segBytes p' = segBytes p"
    "mempoolUseHeap p' = mempoolUseHeap p" "avail p - n \<le> avail p'"
    "\<not> mempoolUseHeap p \<Longrightarrow> avail p' = avail p - n"
proof -
  from assms(1) obtain fs where inv: "pool_inv p own fs" by (auto simp: pool_ok_def)
  then have a: "avail p = length fs" by (simp add: pool_inv_def)
  have "set (take n fs) \<inter> own = {}"
    using inv by (auto simp: pool_inv_def dest: in_set_takeD)
  moreover have "length (take n fs) = n" using assms(3) a by simp
  ultimately show thesis
    using AllocSegments_inv [OF inv assms(2)] assms(3) a that by (metis (no_types, lifting))
qed

lemma AllocSegments_fail:
  assumes "pool_ok p own" and "avail p < n"
  obtains p' where "gmosMempoolAllocSegments n p = Some (None, p')"
    "pool_ok p' own" "same_on own p p'" "segBytes p' = segBytes p" "avail p \<le> avail p'"
    "mempoolUseHeap p' = mempoolUseHeap p" "\<not> mempoolUseHeap p \<Longrightarrow> p' = p"
proof -
  from assms(1) obtain fs where inv: "pool_inv p own fs" by (auto simp: pool_ok_def)
  from checkLower_inv [OF inv] obtain fs' where r:
      "pool_inv (checkLowerCapacityThreshold p) own fs'" "length fs \<le> length fs'"
      "same_on own p (checkLowerCapacityThreshold p)"
      "segBytes (checkLowerCapacityThreshold p) = segBytes p"
      "mempoolUseHeap (checkLowerCapacityThreshold p) = mempoolUseHeap p"
      "\<not> mempoolUseHeap p \<longrightarrow> checkLowerCapacityThreshold p = p" by blast
  show thesis
    by (rule that [of "checkLowerCapacityThreshold p"])
       (use r assms(2) pool_inv_count [OF inv] pool_inv_count [OF r(1)] pool_okI [OF r(1)]
        in \<open>simp_all add: gmosMempoolAllocSegments_def\<close>)
qed

text \<open>Releasing a list of owned segments returns exactly those segments.\<close>

lemma countSegments_llist:
  "llist nx (Some s) xs \<Longrightarrow> n + length xs < 4294967296 \<Longrightarrow>
     countSegments nx s n = Some (last xs, n + length xs - 1)"
proof (induction xs arbitrary: s n)
  case Nil
  then show ?case by simp
next
  case (Cons x xs)
  then have [simp]: "x = s" and l: "llist nx (nx s) xs" by auto
  show ?case
  proof (cases xs)
    case Nil
    with l show ?thesis by (simp add: countSegments.simps)
  next
    case (Cons y ys)
    with l have n: "nx s = Some y" by simp
    with l have "llist nx (Some y) xs" by simp
    with Cons.IH [of y "n + 1"] Cons.prems(2)
    have "countSegments nx y (n + 1) = Some (last xs, n + length xs)" by simp
    with n Cons Cons.prems(2) show ?thesis by (simp add: countSegments.simps [of nx s])
  qed
qed

lemma FreeSegments_inv:
  assumes inv: "pool_inv p own fs" and l: "llist (nextSegment p) h xs" and sub: "set xs \<subseteq> own"
  shows "\<exists>p' fs'. gmosMempoolFreeSegments h p = Some p' \<and> pool_inv p' (own - set xs) fs' \<and>
    same_on (own - set xs) p p' \<and> segBytes p' = segBytes p \<and>
    mempoolUseHeap p' = mempoolUseHeap p \<and>
    length fs' = (if mempoolUseHeap p
                  then min (length fs + length xs) GMOS_CONFIG_MEMPOOL_SEGMENT_NUMBER
                  else length fs + length xs)"
proof (cases h)
  case None
  with l have "xs = []" by simp
  with checkUpper_inv [OF inv] None show ?thesis by (auto simp: gmosMempoolFreeSegments_def)
next
  case (Some s)
  with l have ne: "xs \<noteq> []" by auto
  have d: "distinct xs" using llist_distinct [OF l] .
  have dj: "set xs \<inter> set fs = {}" "set xs \<inter> set (heapBlocks p) = {}" "set xs \<subseteq> {..<65535}"
    using inv sub by (auto simp: pool_inv_def)
  have lens: "length xs \<le> 65535" using distinct_bound_length [OF d dj(3)] .
  have lf: "length fs \<le> 65535" using pool_inv_length [OF inv] by simp
  let ?q = "p\<lparr>nextSegment := (nextSegment p)(last xs := gmosMempoolFreeList p),
              gmosMempoolFreeList := Some s,
              gmosMempoolFreeSegmentCount := u32 (avail p + length xs)\<rparr>"
  have eq: "gmosMempoolFreeSegments h p = checkUpperCapacityThreshold ?q"
    using countSegments_llist [of "nextSegment p" s xs 1] l Some lens
    by (simp add: gmosMempoolFreeSegments_def)
  have fl: "llist (nextSegment p) (gmosMempoolFreeList p) fs" "avail p = length fs"
    using inv by (auto simp: pool_inv_def)
  have "llist (nextSegment ?q) (gmosMempoolFreeList ?q) (xs @ fs)"
    using llist_link [OF l ne d fl(1) dj(1)] Some by simp
  then have q: "pool_inv ?q (own - set xs) (xs @ fs)"
    using inv d dj sub lens lf by (auto simp: pool_inv_def)
  have fr: "same_on (own - set xs) p ?q" using ne by (auto simp: same_on_def)
  obtain p' fs' where r: "checkUpperCapacityThreshold ?q = Some p'"
      "pool_inv p' (own - set xs) fs'" "same_on (own - set xs) ?q p'"
      "segBytes p' = segBytes p" "mempoolUseHeap p' = mempoolUseHeap p"
      "length fs' = (if mempoolUseHeap p
                     then min (length (xs @ fs)) GMOS_CONFIG_MEMPOOL_SEGMENT_NUMBER
                     else length (xs @ fs))"
    using checkUpper_inv [OF q] by auto
  from fr r(3) have "same_on (own - set xs) p p'" by (rule same_on_trans)
  with r eq show ?thesis by (auto simp: add.commute)
qed

lemma FreeSegments_ok:
  assumes "pool_ok p own" and "llist (nextSegment p) h xs" and "set xs \<subseteq> own"
  obtains p' where "gmosMempoolFreeSegments h p = Some p'" "pool_ok p' (own - set xs)"
    "same_on (own - set xs) p p'" "segBytes p' = segBytes p"
    "mempoolUseHeap p' = mempoolUseHeap p"
    "\<not> mempoolUseHeap p \<Longrightarrow> avail p' = avail p + length xs"
proof -
  from assms(1) obtain fs where inv: "pool_inv p own fs" by (auto simp: pool_ok_def)
  from FreeSegments_inv [OF inv assms(2,3)] obtain p' fs' where r:
      "gmosMempoolFreeSegments h p = Some p'" "pool_inv p' (own - set xs) fs'"
      "same_on (own - set xs) p p'" "segBytes p' = segBytes p"
      "mempoolUseHeap p' = mempoolUseHeap p"
      "\<not> mempoolUseHeap p \<longrightarrow> length fs' = length fs + length xs" by auto
  show thesis
    by (rule that [OF r(1) pool_okI [OF r(2)] r(3-5)])
       (use r(6) pool_inv_count [OF inv] pool_inv_count [OF r(2)] in simp)
qed

text \<open>Single segments: allocation is the one-segment case, release needs no list.\<close>

lemma AllocSegments_1:
  assumes "pool_ok p own"
  shows "gmosMempoolAllocSegments 1 p = Some (gmosMempoolAlloc p)"
proof -
  from assms obtain fs where "pool_inv p own fs" by (auto simp: pool_ok_def)
  then show ?thesis
    by (cases fs) (auto simp: pool_inv_def gmosMempoolAllocSegments_def gmosMempoolAlloc_def)
qed

lemma Alloc_ok:
  assumes "pool_ok p own" and "0 < avail p"
  obtains p' s where "gmosMempoolAlloc p = (Some s, p')" "nextSegment p' s = None" "s \<notin> own"
    "pool_ok p' (insert s own)" "same_on own p p'" "segBytes p' = segBytes p"
    "mempoolUseHeap p' = mempoolUseHeap p" "avail p - 1 \<le> avail p'"
    "\<not> mempoolUseHeap p \<Longrightarrow> avail p' = avail p - 1"
proof -
  from assms(2) have "1 \<le> avail p" by simp
  from AllocSegments_ok [OF assms(1) zero_less_one this] obtain p' h xs where r:
      "gmosMempoolAllocSegments 1 p = Some (h, p')" "llist (nextSegment p') h xs"
      "length xs = 1" "set xs \<inter> own = {}" "pool_ok p' (own \<union> set xs)" "same_on own p p'"
      "segBytes p' = segBytes p" "mempoolUseHeap p' = mempoolUseHeap p" "avail p - 1 \<le> avail p'"
      "\<not> mempoolUseHeap p \<Longrightarrow> avail p' = avail p - 1" by metis
  from r(3) obtain s where xs: "xs = [s]" by (cases xs) auto
  show thesis
    by (rule that [of s p']) (use r xs AllocSegments_1 [OF assms(1)] in auto)
qed

lemma Alloc_fail:
  assumes "pool_ok p own" and "avail p = 0"
  obtains p' where "gmosMempoolAlloc p = (None, p')" "pool_ok p' own" "same_on own p p'"
    "segBytes p' = segBytes p"
proof -
  from AllocSegments_fail [OF assms(1), of 1] assms(2) obtain p' where
      "gmosMempoolAllocSegments 1 p = Some (None, p')" "pool_ok p' own" "same_on own p p'"
      "segBytes p' = segBytes p" by auto
  moreover from this have "gmosMempoolAlloc p = (None, p')"
    using AllocSegments_1 [OF assms(1)] by simp
  ultimately show thesis using that by blast
qed

lemma Free_ok:
  assumes "pool_ok p own" and "s \<in> own"
  obtains p' where "gmosMempoolFree (Some s) p = Some p'" "pool_ok p' (own - {s})"
    "same_on (own - {s}) p p'" "segBytes p' = segBytes p"
    "mempoolUseHeap p' = mempoolUseHeap p"
    "\<not> mempoolUseHeap p \<Longrightarrow> avail p' = avail p + 1"
proof -
  let ?q = "p\<lparr>nextSegment := (nextSegment p)(s := None)\<rparr>"
  let ?r = "p\<lparr>nextSegment := (nextSegment p)(s := gmosMempoolFreeList p),
              gmosMempoolFreeList := Some s, gmosMempoolFreeSegmentCount := u32 (avail p + 1)\<rparr>"
  have q: "pool_ok ?q own" using assms by (rule pool_ok_next_upd)
  have "llist (nextSegment ?q) (Some s) [s]" by simp
  with q assms(2) obtain p' where r: "gmosMempoolFreeSegments (Some s) ?q = Some p'"
      "pool_ok p' (own - {s})" "same_on (own - {s}) ?q p'" "segBytes p' = segBytes ?q"
      "mempoolUseHeap p' = mempoolUseHeap ?q" "\<not> mempoolUseHeap ?q \<Longrightarrow> avail p' = avail ?q + 1"
    using FreeSegments_ok [of ?q own "Some s" "[s]"] by auto
  have "gmosMempoolFreeSegments (Some s) ?q = checkUpperCapacityThreshold ?r"
    by (simp add: gmosMempoolFreeSegments_def countSegments.simps)
  then have "gmosMempoolFree (Some s) p = Some p'"
    using r(1) by (simp add: gmosMempoolFree_def)
  moreover have "same_on (own - {s}) p p'" using r(3) by (simp add: same_on_def)
  ultimately show thesis using that [of p'] r(2,4,5,6) by auto
qed

subsection \<open>Initialisation\<close>

definition ptr_of :: "nat list \<Rightarrow> nat option" where
  "ptr_of xs = (if xs = [] then None else Some (last xs))"

lemma storeNextSegment_chain:
  assumes "chain (nextSegment p) (gmosMempoolFreeList p) xs q" and "distinct xs"
  shows "chain (nextSegment (storeNextSegment (ptr_of xs) v p))
           (gmosMempoolFreeList (storeNextSegment (ptr_of xs) v p)) xs v"
  using assms by (auto simp: storeNextSegment_def ptr_of_def chain_relink)

lemma storeNextSegment_fields [simp]:
  "segBytes (storeNextSegment ptr v p) = segBytes p"
  "mempoolUseHeap (storeNextSegment ptr v p) = mempoolUseHeap p"
  "heapBlocks (storeNextSegment ptr v p) = heapBlocks p"
  by (auto simp: storeNextSegment_def split: option.splits)

lemma gmosMempoolInitLoop_inv:
  assumes "chain (nextSegment p) (gmosMempoolFreeList p) xs q"
    and "ys = (if mempoolUseHeap p then take (length is) (heapBlocks p) else is)"
    and "length ys = length is" and "distinct (xs @ ys)"
  shows "\<exists>p' q'. gmosMempoolInitLoop is (ptr_of xs) p = Some (ptr_of (xs @ ys), p') \<and>
    chain (nextSegment p') (gmosMempoolFreeList p') (xs @ ys) q' \<and>
    segBytes p' = segBytes p \<and> mempoolUseHeap p' = mempoolUseHeap p \<and>
    heapBlocks p' = (if mempoolUseHeap p then drop (length is) (heapBlocks p) else heapBlocks p)"
  using assms
proof (induction "is" arbitrary: xs ys p q)
  case Nil
  then show ?case by auto
next
  case (Cons i "is")
  define s where "s = (if mempoolUseHeap p then hd (heapBlocks p) else i)"
  define p0 where "p0 = (if mempoolUseHeap p then p\<lparr>heapBlocks := tl (heapBlocks p)\<rparr> else p)"
  define p1 where "p1 = storeNextSegment (ptr_of xs) (Some s) p0"
  obtain zs where ys: "ys = s # zs"
    and zs: "zs = (if mempoolUseHeap p1 then take (length is) (heapBlocks p1) else is)"
    using Cons.prems(2,3)
    by (cases "heapBlocks p") (auto simp: s_def p1_def p0_def split: if_splits)
  have "chain (nextSegment p1) (gmosMempoolFreeList p1) xs (Some s)"
    unfolding p1_def by (rule storeNextSegment_chain) (use Cons.prems in \<open>auto simp: p0_def\<close>)
  then have c: "chain (nextSegment p1) (gmosMempoolFreeList p1) (xs @ [s]) (nextSegment p1 s)"
    by (simp add: chain_append)
  have step: "gmosMempoolInitLoop (i # is) (ptr_of xs) p =
      gmosMempoolInitLoop is (ptr_of (xs @ [s])) p1"
    using Cons.prems(2,3) ys
    by (cases "heapBlocks p")
       (auto simp: p1_def p0_def s_def ptr_of_def split: if_splits)
  have hb: "heapBlocks p1 = (if mempoolUseHeap p then tl (heapBlocks p) else heapBlocks p)"
    "segBytes p1 = segBytes p"
    "mempoolUseHeap p1 = mempoolUseHeap p" by (simp_all add: p1_def p0_def)
  have "length zs = length is" "distinct ((xs @ [s]) @ zs)"
    using Cons.prems(3,4) unfolding ys by auto
  from Cons.IH [OF c zs this] show ?case
    unfolding step using hb ys by (auto simp: drop_Suc)
qed

lemma gmosMempoolInit_inv:
  assumes bytes: "\<forall>a. length (segBytes p a) = SEG"
    and heap: "mempoolUseHeap p \<Longrightarrow> GMOS_CONFIG_MEMPOOL_SEGMENT_NUMBER \<le> length (heapBlocks p)"
    and dist: "distinct (heapBlocks p)" "set (heapBlocks p) \<subseteq> {..<65535}"
    and stat: "\<not> mempoolUseHeap p \<Longrightarrow> heapBlocks p = []"
  shows "\<exists>p'. gmosMempoolInit p = Some p' \<and> pool_inv p' {}
    (if mempoolUseHeap p then take GMOS_CONFIG_MEMPOOL_SEGMENT_NUMBER (heapBlocks p)
     else [0..<GMOS_CONFIG_MEMPOOL_SEGMENT_NUMBER])"
proof -
  let ?n = "GMOS_CONFIG_MEMPOOL_SEGMENT_NUMBER"
  define ys where "ys = (if mempoolUseHeap p then take ?n (heapBlocks p) else [0..<?n])"
  have d: "distinct ys" and len: "length ys = length [0..<?n]"
    using heap dist by (auto simp: ys_def)
  have "distinct ([] @ ys)" using d by simp
  moreover have
    "ys = (if mempoolUseHeap p then take (length [0..<?n]) (heapBlocks p) else [0..<?n])"
    by (simp add: ys_def)
  ultimately obtain p1 q where
      r: "gmosMempoolInitLoop [0..<?n] (ptr_of []) p = Some (ptr_of ys, p1)"
      "chain (nextSegment p1) (gmosMempoolFreeList p1) ys q" "segBytes p1 = segBytes p"
      "heapBlocks p1 = (if mempoolUseHeap p then drop ?n (heapBlocks p) else heapBlocks p)"
    using gmosMempoolInitLoop_inv [of p "[]" "gmosMempoolFreeList p" ys "[0..<?n]"] len by auto
  let ?p' = "storeNextSegment (ptr_of ys) None p1 \<lparr>gmosMempoolFreeSegmentCount := ?n\<rparr>"
  have "llist (nextSegment ?p') (gmosMempoolFreeList ?p') ys"
    using storeNextSegment_chain [OF r(2) d, of None] by simp
  moreover have "length ys = ?n" using len by simp
  moreover have "distinct (ys @ heapBlocks ?p')" "set (ys @ heapBlocks ?p') \<subseteq> {..<65535}"
    using r(4) dist stat
    by (auto simp: ys_def set_take_disj_set_drop_if_distinct GMOS_CONFIG_MEMPOOL_SEGMENT_NUMBER_def
             dest: in_set_takeD in_set_dropD)
  ultimately have "pool_inv ?p' {} ys" using bytes r(3) by (auto simp: pool_inv_def)
  moreover have "gmosMempoolInit p = Some ?p'"
    using r(1) by (simp add: gmosMempoolInit_def ptr_of_def [of "[]"])
  ultimately show ?thesis unfolding ys_def by blast
qed

subsection \<open>The pool is a segment store\<close>

text \<open>The assignment \<open>segment->nextSegment = v\<close> of the pool's clients.\<close>

definition setNext :: "nat \<Rightarrow> nat option \<Rightarrow> mempool \<Rightarrow> mempool" where
  "setNext s v p = p\<lparr>nextSegment := (nextSegment p)(s := v)\<rparr>"

lemma setNext_fields [simp]:
  "nextSegment (setNext s v p) = (nextSegment p)(s := v)"
  "segBytes (setNext s v p) = segBytes p"
  "gmosMempoolFreeSegmentCount (setNext s v p) = gmosMempoolFreeSegmentCount p"
  "mempoolUseHeap (setNext s v p) = mempoolUseHeap p"
  by (simp_all add: setNext_def)

interpretation mp: segment_store pool_ok nextSegment segBytes avail
  "\<lambda>p. \<not> mempoolUseHeap p" setNext gmosMempoolAllocSegments gmosMempoolFreeSegments
proof (unfold_locales, goal_cases)
  case (5 s own a v)
  then show ?case by (simp add: setNext_def pool_ok_next_upd)
next
  case (6 s own n)
  from AllocSegments_ok [OF this] obtain p' h xs where
    "gmosMempoolAllocSegments n s = Some (h, p')" "llist (nextSegment p') h xs" "length xs = n"
    "h \<noteq> None" "set xs \<inter> own = {}" "pool_ok p' (own \<union> set xs)" "same_on own s p'"
    "segBytes p' = segBytes s" "mempoolUseHeap p' = mempoolUseHeap s" "avail s - n \<le> avail p'"
    "\<not> mempoolUseHeap s \<Longrightarrow> avail p' = avail s - n" by metis
  then show ?case by (intro exI [of _ p'] exI [of _ "the h"] exI [of _ xs]) (auto simp: same_on_def)
next
  case (7 s own n)
  from AllocSegments_fail [OF this] show ?case unfolding same_on_def by metis
next
  case (8 s own h xs)
  from FreeSegments_ok [OF this] show ?case unfolding same_on_def by metis
qed simp_all

subsection \<open>Properties\<close>

text \<open>A static pool before initialisation, and the pool the scheduler boots with.\<close>

definition rawPool :: mempool where
  "rawPool = \<lparr>nextSegment = (\<lambda>_. None), segBytes = (\<lambda>_. replicate SEG 0),
     gmosMempoolFreeList = None, gmosMempoolFreeSegmentCount = 0, mempoolUseHeap = False,
     heapBlocks = []\<rparr>"

definition bootPool :: mempool where
  "bootPool = the (gmosMempoolInit rawPool)"

lemma rawPool_fields [simp]:
  "segBytes rawPool a = replicate SEG 0" "mempoolUseHeap rawPool = False"
  "heapBlocks rawPool = []"
  by (simp_all add: rawPool_def)

lemma gmosMempoolInit_ok:
  assumes "\<forall>a. length (segBytes p a) = SEG"
    and "mempoolUseHeap p \<Longrightarrow> GMOS_CONFIG_MEMPOOL_SEGMENT_NUMBER \<le> length (heapBlocks p)"
    and "distinct (heapBlocks p)" "set (heapBlocks p) \<subseteq> {..<65535}"
    and "\<not> mempoolUseHeap p \<Longrightarrow> heapBlocks p = []"
  shows "\<exists>p'. gmosMempoolInit p = Some p' \<and> pool_ok p' {} \<and>
    avail p' = GMOS_CONFIG_MEMPOOL_SEGMENT_NUMBER"
proof -
  from gmosMempoolInit_inv [OF assms] obtain p' fs where r: "gmosMempoolInit p = Some p'"
    "pool_inv p' {} fs" by blast
  have "avail p' = GMOS_CONFIG_MEMPOOL_SEGMENT_NUMBER"
    using r(1) by (auto simp: gmosMempoolInit_def split: Option.bind_splits)
  with r pool_okI show ?thesis by blast
qed

lemma storeNextSegment_static:
  "gmosMempoolInitLoop is ptr p = Some (ptr', p') \<Longrightarrow> \<not> mempoolUseHeap p \<Longrightarrow> \<not> mempoolUseHeap p'"
  by (induction "is" arbitrary: ptr p) auto

lemma bootPool_ok: "pool_ok bootPool {}" "avail bootPool = 64" "\<not> mempoolUseHeap bootPool"
proof -
  from gmosMempoolInit_ok [of rawPool] obtain p' where r: "gmosMempoolInit rawPool = Some p'"
    "pool_ok p' {}" "avail p' = GMOS_CONFIG_MEMPOOL_SEGMENT_NUMBER" by auto
  then show "pool_ok bootPool {}" "avail bootPool = 64"
    by (simp_all add: bootPool_def GMOS_CONFIG_MEMPOOL_SEGMENT_NUMBER_def)
  show "\<not> mempoolUseHeap bootPool"
    using r(1) unfolding bootPool_def
    by (auto simp: gmosMempoolInit_def split: Option.bind_splits dest!: storeNextSegment_static)
qed

lemma AllocSegments_spec:
  assumes "pool_ok p own" "0 < n"
  shows "\<exists>h p'. gmosMempoolAllocSegments n p = Some (h, p') \<and> same_on own p p' \<and>
    segBytes p' = segBytes p \<and>
    (case h of
       None \<Rightarrow> avail p < n \<and> pool_ok p' own
     | Some _ \<Rightarrow> n \<le> avail p \<and>
         (\<exists>xs. llist (nextSegment p') h xs \<and> length xs = n \<and> set xs \<inter> own = {} \<and>
               pool_ok p' (own \<union> set xs)))"
proof (cases "n \<le> avail p")
  case True
  from mp.alloc_some [OF assms True] True show ?thesis
    by (fastforce simp: same_on_def)
next
  case False
  then have "avail p < n" by simp
  from mp.alloc_none [OF assms(1) this] this show ?thesis
    by (fastforce simp: same_on_def)
qed

text \<open>
  Initialising the pool links every segment into the free list and counts them: the
  invariant holds with no segment owned by any client and all segments available, for a static
  pool and for one that takes its segments from the heap.
\<close>

theorem mempool_init_ok:
  assumes "\<forall>a. length (segBytes p a) = SEG"
    and "mempoolUseHeap p \<Longrightarrow> GMOS_CONFIG_MEMPOOL_SEGMENT_NUMBER \<le> length (heapBlocks p)"
    and "distinct (heapBlocks p)" "set (heapBlocks p) \<subseteq> {..<65535}"
    and "\<not> mempoolUseHeap p \<Longrightarrow> heapBlocks p = []"
  shows "\<exists>p'. gmosMempoolInit p = Some p' \<and> pool_ok p' {} \<and>
    gmosMempoolSegmentsAvailable p' = GMOS_CONFIG_MEMPOOL_SEGMENT_NUMBER"
  using gmosMempoolInit_ok [OF assms]
  by (auto simp: gmosMempoolSegmentsAvailable_def GMOS_CONFIG_MEMPOOL_SEGMENT_NUMBER_def)

theorem mempool_init_ok_witness:
  "\<exists>p'. gmosMempoolInit rawPool = Some p' \<and> pool_ok p' {} \<and> gmosMempoolSegmentsAvailable p' = 64"
  using mempool_init_ok [of rawPool] by (simp add: GMOS_CONFIG_MEMPOOL_SEGMENT_NUMBER_def)

text \<open>
  C5: A request for segments is met exactly when the pool has that many: the result is a list
  of that length of segments that no client owned before, which the caller owns afterwards. A
  request that cannot be met changes no ownership. Either way the links and the contents of
  the other clients' segments are untouched.
\<close>

theorem mempool_alloc_segments:
  assumes "pool_ok p own" "0 < n"
  shows "\<exists>h p'. gmosMempoolAllocSegments n p = Some (h, p') \<and> same_on own p p' \<and>
    segBytes p' = segBytes p \<and>
    (case h of
       None \<Rightarrow> avail p < n \<and> pool_ok p' own
     | Some _ \<Rightarrow> n \<le> avail p \<and>
         (\<exists>xs. llist (nextSegment p') h xs \<and> length xs = n \<and> set xs \<inter> own = {} \<and>
               pool_ok p' (own \<union> set xs)))"
  by (rule AllocSegments_spec [OF assms])

theorem mempool_alloc_segments_witness:
  "\<exists>h p' xs. gmosMempoolAllocSegments 3 bootPool = Some (Some h, p') \<and>
     llist (nextSegment p') (Some h) xs \<and> length xs = 3 \<and> pool_ok p' (set xs)"
  using mempool_alloc_segments [OF bootPool_ok(1), of 3] bootPool_ok(2)
  by (auto split: option.splits)

text \<open>
  Nothing is lost or gained: segments that are allocated and then released leave the
  clients with exactly the segments they had, and a static pool with the same number of free
  segments.
\<close>

theorem mempool_alloc_free:
  assumes "pool_ok p own" "0 < n" "n \<le> avail p"
  shows "\<exists>h p1 p2. gmosMempoolAllocSegments n p = Some (h, p1) \<and>
    gmosMempoolFreeSegments h p1 = Some p2 \<and> pool_ok p2 own \<and> same_on own p p2 \<and>
    (\<not> mempoolUseHeap p \<longrightarrow> avail p2 = avail p)"
  using mp.alloc_release [OF assms] unfolding same_on_def by fastforce

theorem mempool_alloc_free_witness:
  "\<exists>h p1 p2. gmosMempoolAllocSegments 64 bootPool = Some (h, p1) \<and>
     gmosMempoolFreeSegments h p1 = Some p2 \<and> pool_ok p2 {} \<and> avail p2 = 64"
  using mempool_alloc_free [OF bootPool_ok(1), of 64] bootPool_ok(2,3) by auto

end
