(* ===== verification/Gmos_Buffers.thy ===== *)
theory Gmos_Buffers
  imports Gmos_Mempool
begin

text \<open>
  The data buffers of common/src/gmos-buffers.c: byte sequences of up to 65535 bytes kept in a
  linked list of memory pool segments, with room to grow at either end.

  Every function takes the pool and the buffer and returns both; a byte array argument and its
  size are one \<open>byte list\<close>. A function with two buffer arguments models calls with two
  different buffers; gmosBufferConcatenate, whose destination may be one of its sources, takes
  the three cases as \<open>concatDest\<close>. A pointer-to-pointer into the segment list is \<open>None\<close>
  for \<open>&(buffer->segmentList)\<close> and \<open>Some s\<close> for \<open>&(s->nextSegment)\<close>.

  \<open>buf_state p b ds R\<close> relates the concrete state to the abstract one: buffer \<open>b\<close> holds
  exactly the bytes \<open>ds\<close>, in segments disjoint from those of the pool's other clients,
  \<open>R\<close>. Each operation is proved against the corresponding operation on byte lists.
\<close>

subsection \<open>State\<close>

record gmosBuffer =
  segmentList :: "nat option"
  bufferSize :: nat
  bufferOffset :: nat

definition splice :: "nat \<Rightarrow> byte list \<Rightarrow> byte list \<Rightarrow> byte list" where
  "splice off ds bs = take off bs @ ds @ drop (off + length ds) bs"

text \<open>BUFFER_COPY into the data area of a segment.\<close>

definition writeSeg :: "nat \<Rightarrow> nat \<Rightarrow> byte list \<Rightarrow> mempool \<Rightarrow> mempool" where
  "writeSeg s off ds p = p\<lparr>segBytes := (segBytes p)(s := splice off ds (segBytes p s))\<rparr>"

subsection \<open>Moving data between arrays and segment lists\<close>

definition gmosBufferDiscardContents ::
    "mempool \<Rightarrow> gmosBuffer \<Rightarrow> (mempool \<times> gmosBuffer) option" where
  "gmosBufferDiscardContents p b =
     (if segmentList b \<noteq> None
      then do {
        p \<leftarrow> gmosMempoolFreeSegments (segmentList b) p;
        Some (p, b\<lparr>segmentList := None, bufferSize := 0, bufferOffset := 0\<rparr>) }
      else Some (p, b))"

partial_function (option) skipSegments ::
    "(nat \<Rightarrow> nat option) \<Rightarrow> nat option \<Rightarrow> nat \<Rightarrow> (nat option \<times> nat) option" where
  "skipSegments nx segment segmentOffset =
     (if segmentOffset \<ge> SEG
      then (case segment of
              None \<Rightarrow> None
            | Some s \<Rightarrow> skipSegments nx (nx s) (segmentOffset - SEG))
      else Some (segment, segmentOffset))"

partial_function (option) copyToLoop ::
    "mempool \<Rightarrow> nat option \<Rightarrow> nat \<Rightarrow> byte list \<Rightarrow> mempool option" where
  "copyToLoop p segment segmentOffset sourceData =
     (let blockSize = min (SEG - segmentOffset) (length sourceData);
          rest = drop blockSize sourceData
      in if blockSize = 0 \<and> rest = [] then Some p
         else (case segment of
                 None \<Rightarrow> None
               | Some s \<Rightarrow>
                   (let p1 = writeSeg s segmentOffset (take blockSize sourceData) p
                    in if rest = [] then Some p1
                       else copyToLoop p1 (nextSegment p1 s) 0 rest)))"

definition gmosBufferCopyToSegments ::
    "mempool \<Rightarrow> nat option \<Rightarrow> nat \<Rightarrow> byte list \<Rightarrow> mempool option" where
  "gmosBufferCopyToSegments p segment segmentOffset sourceData = do {
     (segment, segmentOffset) \<leftarrow> skipSegments (nextSegment p) segment segmentOffset;
     copyToLoop p segment segmentOffset sourceData }"

partial_function (option) copyFromLoop ::
    "mempool \<Rightarrow> nat option \<Rightarrow> nat \<Rightarrow> nat \<Rightarrow> byte list option" where
  "copyFromLoop p segment segmentOffset copySize =
     (let blockSize = min (SEG - segmentOffset) copySize;
          rest = copySize - blockSize
      in if blockSize = 0 \<and> rest = 0 then Some []
         else (case segment of
                 None \<Rightarrow> None
               | Some s \<Rightarrow>
                   (let block = take blockSize (drop segmentOffset (segBytes p s))
                    in if rest = 0 then Some block
                       else Option.bind (copyFromLoop p (nextSegment p s) 0 rest)
                              (\<lambda>targetData. Some (block @ targetData)))))"

definition gmosBufferCopyFromSegments ::
    "mempool \<Rightarrow> nat option \<Rightarrow> nat \<Rightarrow> nat \<Rightarrow> byte list option" where
  "gmosBufferCopyFromSegments p segment segmentOffset copySize = do {
     (segment, segmentOffset) \<leftarrow> skipSegments (nextSegment p) segment segmentOffset;
     copyFromLoop p segment segmentOffset copySize }"

definition gmosBufferInit :: gmosBuffer where
  "gmosBufferInit = \<lparr>segmentList = None, bufferSize = 0, bufferOffset = 0\<rparr>"

definition gmosBufferGetSize :: "gmosBuffer \<Rightarrow> nat" where
  "gmosBufferGetSize b = bufferSize b"

definition gmosBufferReset ::
    "mempool \<Rightarrow> gmosBuffer \<Rightarrow> nat \<Rightarrow> (bool \<times> mempool \<times> gmosBuffer) option" where
  "gmosBufferReset p b bufSize = do {
     (p, b) \<leftarrow> gmosBufferDiscardContents p b;
     if bufSize > 0
     then do {
       (segs, p) \<leftarrow> gmosMempoolAllocSegments (u16 (1 + (bufSize - 1) div SEG)) p;
       let b = b\<lparr>segmentList := segs\<rparr>;
       if segs \<noteq> None then Some (True, p, b\<lparr>bufferSize := bufSize\<rparr>) else Some (False, p, b) }
     else Some (True, p, b) }"

subsection \<open>Growing and shrinking\<close>

definition storeSegPtr ::
    "nat option \<Rightarrow> nat option \<Rightarrow> mempool \<Rightarrow> gmosBuffer \<Rightarrow> mempool \<times> gmosBuffer" where
  "storeSegPtr ptr v p b =
     (case ptr of
        None \<Rightarrow> (p, b\<lparr>segmentList := v\<rparr>)
      | Some s \<Rightarrow> (setNext s v p, b))"

text \<open>The loop that counts segments and leaves \<open>segmentPtr\<close> at the terminating null link.\<close>

partial_function (option) segmentListEnd ::
    "(nat \<Rightarrow> nat option) \<Rightarrow> nat option \<Rightarrow> nat option \<Rightarrow> nat \<Rightarrow> (nat option \<times> nat) option"
  where
  "segmentListEnd nx segmentPtr cur segmentCount =
     (case cur of
        None \<Rightarrow> Some (segmentPtr, segmentCount)
      | Some s \<Rightarrow> segmentListEnd nx (Some s) (nx s) (u32 (segmentCount + 1)))"

definition gmosBufferIncrSizeEnd ::
    "mempool \<Rightarrow> gmosBuffer \<Rightarrow> nat \<Rightarrow> (bool \<times> mempool \<times> gmosBuffer) option" where
  "gmosBufferIncrSizeEnd p b bufSize = do {
     (segmentPtr, segmentCount) \<leftarrow> segmentListEnd (nextSegment p) None (segmentList b) 0;
     let newSegmentCount =
       u32 (sub32 1 segmentCount + sub32 (bufferOffset b + bufSize) 1 div SEG);
     (if newSegmentCount \<noteq> 0
      then do {
        (newSegments, p) \<leftarrow> gmosMempoolAllocSegments (u16 newSegmentCount) p;
        if newSegments \<noteq> None
        then (let (p, b) = storeSegPtr segmentPtr newSegments p b
              in Some (True, p, b\<lparr>bufferSize := u16 bufSize\<rparr>))
        else Some (False, p, b) }
      else Some (True, p, b\<lparr>bufferSize := u16 bufSize\<rparr>)) }"

partial_function (option) trimEndLoop ::
    "(nat \<Rightarrow> nat option) \<Rightarrow> nat \<Rightarrow> nat \<Rightarrow> nat option \<Rightarrow> nat option \<Rightarrow>
     (nat option \<times> nat option) option" where
  "trimEndLoop nx limit byteCount segmentPtr cur =
     (if byteCount < limit
      then (case cur of
              None \<Rightarrow> None
            | Some s \<Rightarrow> trimEndLoop nx limit (byteCount + SEG) (Some s) (nx s))
      else Some (segmentPtr, cur))"

definition gmosBufferDecrSizeEnd ::
    "mempool \<Rightarrow> gmosBuffer \<Rightarrow> nat \<Rightarrow> (mempool \<times> gmosBuffer) option" where
  "gmosBufferDecrSizeEnd p b bufSize = do {
     (segmentPtr, cur) \<leftarrow>
       trimEndLoop (nextSegment p) (bufferOffset b + bufSize) 0 None (segmentList b);
     (p, b) \<leftarrow>
       (if cur \<noteq> None
        then do {
          p \<leftarrow> gmosMempoolFreeSegments cur p;
          Some (storeSegPtr segmentPtr None p b) }
        else Some (p, b));
     Some (p, b\<lparr>bufferSize := u16 bufSize\<rparr>) }"

definition gmosBufferIncrSizeStart ::
    "mempool \<Rightarrow> gmosBuffer \<Rightarrow> nat \<Rightarrow> (bool \<times> mempool \<times> gmosBuffer) option" where
  "gmosBufferIncrSizeStart p b bufSize =
     (let extraByteCount = sub32 bufSize (bufferSize b) in
      if extraByteCount \<le> bufferOffset b
      then Some (True, p, b\<lparr>bufferSize := u16 bufSize,
                             bufferOffset := u16 (bufferOffset b - extraByteCount)\<rparr>)
      else
        let newSegmentCount = 1 + sub32 (sub32 extraByteCount (bufferOffset b)) 1 div SEG;
            newOffset =
              u32 (sub32 (bufferOffset b) extraByteCount + newSegmentCount * SEG)
        in do {
          (newSegments, p) \<leftarrow> gmosMempoolAllocSegments (u16 newSegmentCount) p;
          case newSegments of
            None \<Rightarrow> Some (False, p, b)
          | Some s \<Rightarrow> do {
              end \<leftarrow> walkEnd (nextSegment p) s;
              Some (True, setNext end (segmentList b) p,
                    b\<lparr>segmentList := newSegments, bufferSize := u16 bufSize,
                      bufferOffset := u16 newOffset\<rparr>) } })"

partial_function (option) trimStartLoop ::
    "(nat \<Rightarrow> nat option) \<Rightarrow> nat \<Rightarrow> nat \<Rightarrow> nat option \<Rightarrow> nat option \<Rightarrow>
     (nat \<times> nat option \<times> nat option) option" where
  "trimStartLoop nx limit segmentCount segmentPtr cur =
     (if limit \<ge> (segmentCount + 1) * SEG
      then (case cur of
              None \<Rightarrow> None
            | Some s \<Rightarrow> trimStartLoop nx limit (segmentCount + 1) (Some s) (nx s))
      else Some (segmentCount, segmentPtr, cur))"

definition gmosBufferDecrSizeStart ::
    "mempool \<Rightarrow> gmosBuffer \<Rightarrow> nat \<Rightarrow> (mempool \<times> gmosBuffer) option" where
  "gmosBufferDecrSizeStart p b bufSize =
     (let trimByteCount = sub32 (bufferSize b) bufSize in do {
        (segmentCount, segmentPtr, cur) \<leftarrow>
          trimStartLoop (nextSegment p) (bufferOffset b + trimByteCount) 0 None (segmentList b);
        (p, b) \<leftarrow>
          (if segmentCount > 0
           then (let freeSegments = segmentList b;
                     (p, b) = storeSegPtr segmentPtr None p (b\<lparr>segmentList := cur\<rparr>)
                 in do {
                   p \<leftarrow> gmosMempoolFreeSegments freeSegments p;
                   Some (p, b) })
           else Some (p, b));
        Some (p, b\<lparr>bufferSize := u16 bufSize,
                   bufferOffset :=
                     u16 (bufferOffset b + sub32 trimByteCount (segmentCount * SEG))\<rparr>) })"

definition gmosBufferExtend ::
    "mempool \<Rightarrow> gmosBuffer \<Rightarrow> nat \<Rightarrow> (bool \<times> mempool \<times> gmosBuffer) option" where
  "gmosBufferExtend p b bufSize =
     (let newBufferSize = bufferSize b + bufSize in
      if bufSize = 0 then Some (True, p, b)
      else if newBufferSize > 0xFFFF then Some (False, p, b)
      else gmosBufferIncrSizeEnd p b (u16 newBufferSize))"

definition gmosBufferResize ::
    "mempool \<Rightarrow> gmosBuffer \<Rightarrow> nat \<Rightarrow> (bool \<times> mempool \<times> gmosBuffer) option" where
  "gmosBufferResize p b bufSize =
     (if bufSize = 0 then do { (p, b) \<leftarrow> gmosBufferDiscardContents p b; Some (True, p, b) }
      else if bufSize = bufferSize b then Some (True, p, b)
      else if bufSize > bufferSize b then gmosBufferIncrSizeEnd p b bufSize
      else do { (p, b) \<leftarrow> gmosBufferDecrSizeEnd p b bufSize; Some (True, p, b) })"

definition gmosBufferRebase ::
    "mempool \<Rightarrow> gmosBuffer \<Rightarrow> nat \<Rightarrow> (bool \<times> mempool \<times> gmosBuffer) option" where
  "gmosBufferRebase p b bufSize =
     (if bufSize = 0 then do { (p, b) \<leftarrow> gmosBufferDiscardContents p b; Some (True, p, b) }
      else if bufSize = bufferSize b then Some (True, p, b)
      else if bufSize > bufferSize b then gmosBufferIncrSizeStart p b bufSize
      else do { (p, b) \<leftarrow> gmosBufferDecrSizeStart p b bufSize; Some (True, p, b) })"

subsection \<open>Reading and writing\<close>

definition gmosBufferWrite ::
    "mempool \<Rightarrow> gmosBuffer \<Rightarrow> nat \<Rightarrow> byte list \<Rightarrow> (bool \<times> mempool) option" where
  "gmosBufferWrite p b offset writeData =
     (if offset + length writeData \<le> bufferSize b
      then do {
        p \<leftarrow> gmosBufferCopyToSegments p (segmentList b) (bufferOffset b + offset) writeData;
        Some (True, p) }
      else Some (False, p))"

text \<open>The read data is \<open>None\<close> when the function returns false and leaves the array alone.\<close>

definition gmosBufferRead ::
    "mempool \<Rightarrow> gmosBuffer \<Rightarrow> nat \<Rightarrow> nat \<Rightarrow> byte list option option" where
  "gmosBufferRead p b offset readSize =
     (if offset + readSize \<le> bufferSize b
      then do {
        readData \<leftarrow>
          gmosBufferCopyFromSegments p (segmentList b) (bufferOffset b + offset) readSize;
        Some (Some readData) }
      else Some None)"

definition gmosBufferAppend ::
    "mempool \<Rightarrow> gmosBuffer \<Rightarrow> byte list \<Rightarrow> (bool \<times> mempool \<times> gmosBuffer) option" where
  "gmosBufferAppend p b writeData =
     (let offset = bufferSize b in do {
        (ok, p, b) \<leftarrow> gmosBufferExtend p b (length writeData);
        if ok
        then do {
          p \<leftarrow> gmosBufferCopyToSegments p (segmentList b) (bufferOffset b + offset) writeData;
          Some (True, p, b) }
        else Some (False, p, b) })"

definition gmosBufferPrepend ::
    "mempool \<Rightarrow> gmosBuffer \<Rightarrow> byte list \<Rightarrow> (bool \<times> mempool \<times> gmosBuffer) option" where
  "gmosBufferPrepend p b writeData = do {
     (ok, p, b) \<leftarrow> gmosBufferRebase p b (u16 (bufferSize b + length writeData));
     if ok
     then do {
       p \<leftarrow> gmosBufferCopyToSegments p (segmentList b) (bufferOffset b) writeData;
       Some (True, p, b) }
     else Some (False, p, b) }"

subsection \<open>Moving, copying and concatenating\<close>

text \<open>The results are the pool, the source and the destination.\<close>

definition gmosBufferMove ::
    "mempool \<Rightarrow> gmosBuffer \<Rightarrow> gmosBuffer \<Rightarrow> (mempool \<times> gmosBuffer \<times> gmosBuffer) option" where
  "gmosBufferMove p source destination = do {
     (p, destination) \<leftarrow> gmosBufferDiscardContents p destination;
     let destination = destination
       \<lparr>segmentList := segmentList source, bufferSize := bufferSize source,
        bufferOffset := bufferOffset source\<rparr>;
     Some (p, source\<lparr>segmentList := None, bufferSize := 0, bufferOffset := 0\<rparr>, destination) }"

partial_function (option) copySegmentsLoop ::
    "mempool \<Rightarrow> nat option \<Rightarrow> nat option \<Rightarrow> mempool option" where
  "copySegmentsLoop p sourceSegment targetSegment =
     (case sourceSegment of
        None \<Rightarrow> Some p
      | Some s \<Rightarrow>
          (case targetSegment of
             None \<Rightarrow> Some p
           | Some t \<Rightarrow>
               copySegmentsLoop (writeSeg t 0 (take SEG (segBytes p s)) p)
                 (nextSegment p s) (nextSegment p t)))"

definition gmosBufferCopyCommon ::
    "mempool \<Rightarrow> gmosBuffer \<Rightarrow> gmosBuffer \<Rightarrow> nat \<Rightarrow> nat \<Rightarrow>
     (bool \<times> mempool \<times> gmosBuffer) option" where
  "gmosBufferCopyCommon p source destination copyOffset copySize = do {
     (p, destination) \<leftarrow> gmosBufferDiscardContents p destination;
     if copySize = 0 then Some (True, p, destination)
     else do {
       let segmentCount = 1 + (bufferOffset source + copyOffset + copySize - 1) div SEG;
       (segs, p) \<leftarrow> gmosMempoolAllocSegments (u16 segmentCount) p;
       if segs = None then Some (False, p, destination)
       else do {
         (sourceSegment, targetOffset) \<leftarrow>
           skipSegments (nextSegment p) (segmentList source) (bufferOffset source + copyOffset);
         p \<leftarrow> copySegmentsLoop p sourceSegment segs;
         Some (True, p, destination
           \<lparr>segmentList := segs, bufferSize := copySize, bufferOffset := u16 targetOffset\<rparr>) } } }"

definition gmosBufferCopy ::
    "mempool \<Rightarrow> gmosBuffer \<Rightarrow> gmosBuffer \<Rightarrow> (bool \<times> mempool \<times> gmosBuffer) option" where
  "gmosBufferCopy p source destination =
     gmosBufferCopyCommon p source destination 0 (bufferSize source)"

definition gmosBufferCopySection ::
    "mempool \<Rightarrow> gmosBuffer \<Rightarrow> gmosBuffer \<Rightarrow> nat \<Rightarrow> nat \<Rightarrow>
     (bool \<times> mempool \<times> gmosBuffer) option" where
  "gmosBufferCopySection p source destination copyOffset copySize =
     (if copyOffset + copySize \<le> bufferSize source
      then gmosBufferCopyCommon p source destination copyOffset copySize
      else Some (False, p, destination))"

text \<open>
  The two concatenation loops ignore the results of the calls in their bodies. A failed read
  would leave \<open>copyData\<close> uninitialised, which the model treats as a fault.
\<close>

partial_function (option) gmosBufferConcatenateIntoA ::
    "mempool \<Rightarrow> gmosBuffer \<Rightarrow> gmosBuffer \<Rightarrow> (mempool \<times> gmosBuffer \<times> gmosBuffer) option" where
  "gmosBufferConcatenateIntoA p sourceA sourceB =
     (if bufferSize sourceB > 0
      then do {
        let copySize = min (2 * SEG) (bufferSize sourceB);
        readResult \<leftarrow> gmosBufferRead p sourceB 0 copySize;
        copyData \<leftarrow> readResult;
        (_, p, sourceB) \<leftarrow> gmosBufferRebase p sourceB (bufferSize sourceB - copySize);
        (_, p, sourceA) \<leftarrow> gmosBufferAppend p sourceA copyData;
        gmosBufferConcatenateIntoA p sourceA sourceB }
      else Some (p, sourceA, sourceB))"

partial_function (option) gmosBufferConcatenateIntoB ::
    "mempool \<Rightarrow> gmosBuffer \<Rightarrow> gmosBuffer \<Rightarrow> (mempool \<times> gmosBuffer \<times> gmosBuffer) option" where
  "gmosBufferConcatenateIntoB p sourceA sourceB =
     (if bufferSize sourceA > 0
      then do {
        let copySize = min (2 * SEG) (bufferSize sourceA);
        readResult \<leftarrow> gmosBufferRead p sourceA (bufferSize sourceA - copySize) copySize;
        copyData \<leftarrow> readResult;
        (_, p, sourceA) \<leftarrow> gmosBufferResize p sourceA (bufferSize sourceA - copySize);
        (_, p, sourceB) \<leftarrow> gmosBufferPrepend p sourceB copyData;
        gmosBufferConcatenateIntoB p sourceA sourceB }
      else Some (p, sourceA, sourceB))"

text \<open>Which buffer the destination pointer is: one of the sources or a third one.\<close>

datatype concatDest = DestA | DestB | DestOther gmosBuffer

text \<open>
  Moving into the destination, unless it is the buffer already: the results are the pool,
  both sources and the destination buffer, which for \<open>DestA\<close> and \<open>DestB\<close> is that source.
\<close>

definition moveSource ::
    "mempool \<Rightarrow> bool \<Rightarrow> gmosBuffer \<Rightarrow> gmosBuffer \<Rightarrow> concatDest \<Rightarrow>
     (mempool \<times> gmosBuffer \<times> gmosBuffer \<times> concatDest) option" where
  "moveSource p fromA sourceA sourceB dest =
     (case dest of
        DestA \<Rightarrow>
          (if fromA then Some (p, sourceA, sourceB, DestA)
           else do {
             (p, sourceB, sourceA) \<leftarrow> gmosBufferMove p sourceB sourceA;
             Some (p, sourceA, sourceB, DestA) })
      | DestB \<Rightarrow>
          (if \<not> fromA then Some (p, sourceA, sourceB, DestB)
           else do {
             (p, sourceA, sourceB) \<leftarrow> gmosBufferMove p sourceA sourceB;
             Some (p, sourceA, sourceB, DestB) })
      | DestOther d \<Rightarrow>
          (if fromA
           then do {
             (p, sourceA, d) \<leftarrow> gmosBufferMove p sourceA d;
             Some (p, sourceA, sourceB, DestOther d) }
           else do {
             (p, sourceB, d) \<leftarrow> gmosBufferMove p sourceB d;
             Some (p, sourceA, sourceB, DestOther d) }))"

definition resetDest ::
    "mempool \<Rightarrow> gmosBuffer \<Rightarrow> gmosBuffer \<Rightarrow> concatDest \<Rightarrow>
     (mempool \<times> gmosBuffer \<times> gmosBuffer \<times> concatDest) option" where
  "resetDest p sourceA sourceB dest =
     (case dest of
        DestA \<Rightarrow> do {
          (_, p, sourceA) \<leftarrow> gmosBufferReset p sourceA 0; Some (p, sourceA, sourceB, DestA) }
      | DestB \<Rightarrow> do {
          (_, p, sourceB) \<leftarrow> gmosBufferReset p sourceB 0; Some (p, sourceA, sourceB, DestB) }
      | DestOther d \<Rightarrow> do {
          (_, p, d) \<leftarrow> gmosBufferReset p d 0; Some (p, sourceA, sourceB, DestOther d) })"

definition gmosBufferConcatenate ::
    "mempool \<Rightarrow> gmosBuffer \<Rightarrow> gmosBuffer \<Rightarrow> concatDest \<Rightarrow>
     (bool \<times> mempool \<times> gmosBuffer \<times> gmosBuffer \<times> concatDest) option" where
  "gmosBufferConcatenate p sourceA sourceB dest = do {
     (p, sourceA, sourceB, dest) \<leftarrow>
       (if bufferSize sourceA = 0 \<and> bufferSize sourceB = 0 then resetDest p sourceA sourceB dest
        else if bufferSize sourceA = 0 then moveSource p False sourceA sourceB dest
        else if bufferSize sourceB = 0 then moveSource p True sourceA sourceB dest
        else if bufferSize sourceA \<ge> bufferSize sourceB
        then do {
          (p, sourceA, sourceB) \<leftarrow> gmosBufferConcatenateIntoA p sourceA sourceB;
          moveSource p True sourceA sourceB dest }
        else do {
          (p, sourceA, sourceB) \<leftarrow> gmosBufferConcatenateIntoB p sourceA sourceB;
          moveSource p False sourceA sourceB dest });
     Some (True, p, sourceA, sourceB, dest) }"

partial_function (option) getSegmentLoop ::
    "(nat \<Rightarrow> nat option) \<Rightarrow> nat \<Rightarrow> nat \<Rightarrow> nat option \<Rightarrow> nat option option" where
  "getSegmentLoop nx limit byteCount segment =
     (if segment \<noteq> None \<and> limit \<ge> byteCount
      then getSegmentLoop nx limit (byteCount + SEG) (nx (the segment))
      else Some segment)"

definition gmosBufferGetSegment :: "mempool \<Rightarrow> gmosBuffer \<Rightarrow> nat \<Rightarrow> nat option option" where
  "gmosBufferGetSegment p b dataOffset =
     (if dataOffset \<ge> bufferSize b then Some None
      else getSegmentLoop (nextSegment p) (bufferOffset b + dataOffset) SEG (segmentList b))"

subsection \<open>Segment lists as flat byte arrays\<close>

definition flat :: "mempool \<Rightarrow> nat list \<Rightarrow> byte list" where
  "flat p xs = concat (map (segBytes p) xs)"

lemma flat_simps [simp]:
  "flat p [] = []" "flat p (x # xs) = segBytes p x @ flat p xs"
  "flat p (xs @ ys) = flat p xs @ flat p ys"
  by (simp_all add: flat_def)

lemma length_flat [simp]:
  "\<forall>a. length (segBytes p a) = SEG \<Longrightarrow> length (flat p xs) = SEG * length xs"
  by (induction xs) auto

lemma flat_cong: "(\<And>a. a \<in> set xs \<Longrightarrow> segBytes p' a = segBytes p a) \<Longrightarrow> flat p' xs = flat p xs"
  by (induction xs) auto

lemma length_splice [simp]: "off + length ds \<le> length bs \<Longrightarrow> length (splice off ds bs) = length bs"
  by (simp add: splice_def)

lemma splice_append_right:
  "length us \<le> off \<Longrightarrow> splice off ds (us @ vs) = us @ splice (off - length us) ds vs"
  by (simp add: splice_def)

lemma splice_append_left:
  "off + length ds \<le> length us \<Longrightarrow> splice off ds (us @ vs) = splice off ds us @ vs"
  by (simp add: splice_def)

lemma splice_split:
  assumes "off \<le> length us" "length us \<le> off + length ds"
  shows "splice off ds (us @ vs) =
    splice off (take (length us - off) ds) us @ splice 0 (drop (length us - off) ds) vs"
proof -
  let ?k = "length us - off"
  have "splice off ds (us @ vs) = take off us @ ds @ drop (off + length ds - length us) vs"
    using assms by (simp add: splice_def)
  also have "\<dots> = take off us @ (take ?k ds @ drop ?k ds) @ drop (off + length ds - length us) vs"
    by simp
  also have "\<dots> = splice off (take ?k ds) us @ splice 0 (drop ?k ds) vs"
    using assms by (simp add: splice_def add.commute del: append_take_drop_id)
  finally show ?thesis .
qed

lemma splice_Nil [simp]: "splice off [] bs = bs"
  by (simp add: splice_def)

lemma writeSeg_fields [simp]:
  "nextSegment (writeSeg s off ds p) = nextSegment p"
  "segBytes (writeSeg s off ds p) = (segBytes p)(s := splice off ds (segBytes p s))"
  "gmosMempoolFreeList (writeSeg s off ds p) = gmosMempoolFreeList p"
  "gmosMempoolFreeSegmentCount (writeSeg s off ds p) = gmosMempoolFreeSegmentCount p"
  "mempoolUseHeap (writeSeg s off ds p) = mempoolUseHeap p"
  "heapBlocks (writeSeg s off ds p) = heapBlocks p"
  by (simp_all add: writeSeg_def)

lemma skipSegments_llist:
  "llist nx seg xs \<Longrightarrow> off \<le> SEG * length xs \<Longrightarrow>
     skipSegments nx seg off = Some (ptr_at xs (off div SEG), off mod SEG)"
proof (induction xs arbitrary: seg off)
  case Nil
  then show ?case by (simp add: skipSegments.simps)
next
  case (Cons x xs)
  then have [simp]: "seg = Some x" and l: "llist nx (nx x) xs" by auto
  show ?case
  proof (cases "off \<ge> SEG")
    case True
    then have "off - SEG \<le> SEG * length xs" using Cons.prems(2) by simp
    with l have "skipSegments nx (nx x) (off - SEG) =
        Some (ptr_at xs ((off - SEG) div SEG), (off - SEG) mod SEG)" by (rule Cons.IH)
    moreover have "off div SEG = Suc ((off - SEG) div SEG)" "off mod SEG = (off - SEG) mod SEG"
      using True by (simp_all add: le_div_geq le_mod_geq)
    ultimately show ?thesis using True by (simp add: skipSegments.simps [of nx "Some x"])
  next
    case False
    then show ?thesis by (simp add: skipSegments.simps)
  qed
qed

lemma copyFromLoop_llist:
  "llist (nextSegment p) seg xs \<Longrightarrow> \<forall>a. length (segBytes p a) = SEG \<Longrightarrow>
     off < SEG \<Longrightarrow> off + n \<le> SEG * length xs \<or> n = 0 \<Longrightarrow>
     copyFromLoop p seg off n = Some (take n (drop off (flat p xs)))"
proof (induction xs arbitrary: seg off n)
  case Nil
  then show ?case by (auto simp: copyFromLoop.simps Let_def)
next
  case (Cons x xs)
  then have [simp]: "seg = Some x" and l: "llist (nextSegment p) (nextSegment p x) xs" by auto
  have len: "length (segBytes p x) = SEG" using Cons.prems(2) by simp
  show ?case
  proof (cases "n \<le> SEG - off")
    case True
    then show ?thesis using len Cons.prems(3)
      by (simp add: copyFromLoop.simps [of p "Some x"] Let_def min_absorb2)
  next
    case False
    then have "copyFromLoop p (nextSegment p x) 0 (n - (SEG - off)) =
        Some (take (n - (SEG - off)) (drop 0 (flat p xs)))"
      using Cons.prems by (intro Cons.IH [OF l]) auto
    then show ?thesis using False len Cons.prems(3)
      by (simp add: copyFromLoop.simps [of p "Some x"] Let_def min_absorb1)
  qed
qed

text \<open>Copying into a list changes nothing but the bytes of its segments.\<close>

definition only_bytes :: "nat set \<Rightarrow> mempool \<Rightarrow> mempool \<Rightarrow> bool" where
  "only_bytes A p p' \<longleftrightarrow>
     (\<exists>bs. p' = p\<lparr>segBytes := bs\<rparr> \<and> (\<forall>a. length (bs a) = SEG) \<and> (\<forall>a. a \<notin> A \<longrightarrow> bs a = segBytes p a))"

lemma only_bytesD:
  assumes "only_bytes A p p'"
  shows "nextSegment p' = nextSegment p" "\<forall>a. length (segBytes p' a) = SEG"
    "\<And>a. a \<notin> A \<Longrightarrow> segBytes p' a = segBytes p a" "avail p' = avail p"
    "mempoolUseHeap p' = mempoolUseHeap p"
    "pool_ok p own \<Longrightarrow> pool_ok p' own" "A \<inter> R = {} \<Longrightarrow> same_on R p p'"
proof -
  obtain bs where bs: "p' = p\<lparr>segBytes := bs\<rparr>" "\<forall>a. length (bs a) = SEG"
    "\<forall>a. a \<notin> A \<longrightarrow> bs a = segBytes p a" using assms by (auto simp: only_bytes_def)
  then show "nextSegment p' = nextSegment p" "\<forall>a. length (segBytes p' a) = SEG"
    "\<And>a. a \<notin> A \<Longrightarrow> segBytes p' a = segBytes p a" "avail p' = avail p"
    "mempoolUseHeap p' = mempoolUseHeap p" by auto
  show "pool_ok p own \<Longrightarrow> pool_ok p' own" using bs by (auto simp: pool_ok_def pool_inv_def)
  show "A \<inter> R = {} \<Longrightarrow> same_on R p p'" using bs by (auto simp: same_on_def)
qed

lemma only_bytes_refl: "\<forall>a. length (segBytes p a) = SEG \<Longrightarrow> only_bytes A p p"
  unfolding only_bytes_def by (intro exI [of _ "segBytes p"]) simp

lemma only_bytes_step:
  assumes "only_bytes A (writeSeg s off ds p) p'" "s \<in> A"
  shows "only_bytes A p p'"
  using assms by (auto simp: only_bytes_def writeSeg_def)

lemma only_bytes_writeSeg:
  "\<forall>a. length (segBytes p a) = SEG \<Longrightarrow> off + length ds \<le> SEG \<Longrightarrow> s \<in> A \<Longrightarrow>
     only_bytes A p (writeSeg s off ds p)"
  unfolding only_bytes_def
  by (intro exI [of _ "(segBytes p)(s := splice off ds (segBytes p s))"]) (auto simp: writeSeg_def)

lemma only_bytes_mono: "only_bytes A p p' \<Longrightarrow> A \<subseteq> B \<Longrightarrow> only_bytes B p p'"
  unfolding only_bytes_def by blast

lemma copyToLoop_llist:
  "llist (nextSegment p) seg xs \<Longrightarrow> \<forall>a. length (segBytes p a) = SEG \<Longrightarrow>
     off < SEG \<Longrightarrow> off + length ds \<le> SEG * length xs \<or> ds = [] \<Longrightarrow>
     \<exists>p'. copyToLoop p seg off ds = Some p' \<and> only_bytes (set xs) p p' \<and>
       flat p' xs = splice off ds (flat p xs)"
proof (induction xs arbitrary: p seg off ds)
  case Nil
  then show ?case by (auto simp: copyToLoop.simps Let_def only_bytes_refl splice_def)
next
  case (Cons x xs)
  then have [simp]: "seg = Some x" and l: "llist (nextSegment p) (nextSegment p x) xs" by auto
  have len: "length (segBytes p x) = SEG" using Cons.prems(2) by simp
  have x: "x \<notin> set xs" using llist_head_notin [OF l] .
  show ?case
  proof (cases "length ds \<le> SEG - off")
    case True
    let ?p1 = "writeSeg x off ds p"
    have e: "copyToLoop p seg off ds = Some (if ds = [] then p else ?p1)"
      using True len Cons.prems(3) by (simp add: copyToLoop.simps [of p "Some x"] Let_def min_absorb2)
    have f: "flat ?p1 xs = flat p xs" by (rule flat_cong) (use x in auto)
    have "only_bytes (set (x # xs)) p ?p1"
      using True Cons.prems(2,3) by (intro only_bytes_writeSeg) auto
    moreover have "flat ?p1 (x # xs) = splice off ds (flat p (x # xs))"
      using True Cons.prems(3) len f by (simp add: splice_append_left)
    ultimately show ?thesis
      using e only_bytes_refl [OF Cons.prems(2)] by (cases "ds = []") auto
  next
    case False
    let ?d1 = "take (SEG - off) ds" and ?d2 = "drop (SEG - off) ds"
    let ?p1 = "writeSeg x off ?d1 p"
    have l1: "llist (nextSegment ?p1) (nextSegment p x) xs" using l by simp
    have b1: "\<forall>a. length (segBytes ?p1 a) = SEG" using Cons.prems(2,3) False by simp
    have "0 + length ?d2 \<le> SEG * length xs \<or> ?d2 = []" using Cons.prems(4) False by auto
    from Cons.IH [OF l1 b1 SEG_pos this] obtain p' where
      r: "copyToLoop ?p1 (nextSegment p x) 0 ?d2 = Some p'" "only_bytes (set xs) ?p1 p'"
        "flat p' xs = splice 0 ?d2 (flat ?p1 xs)" by blast
    have e: "copyToLoop p seg off ds = Some p'"
      using False r(1) Cons.prems(3) by (simp add: copyToLoop.simps [of p "Some x"] Let_def min_absorb1)
    have f: "flat ?p1 xs = flat p xs" by (rule flat_cong) (use x in auto)
    have "only_bytes (set (x # xs)) p p'"
      using only_bytes_mono [OF r(2)] by (intro only_bytes_step [of _ x off ?d1 p]) auto
    moreover have "segBytes p' x = splice off ?d1 (segBytes p x)"
      using only_bytesD(3) [OF r(2) x] by simp
    then have "flat p' (x # xs) = splice off ds (flat p (x # xs))"
      using r(3) f False len Cons.prems(3) by (simp add: splice_split)
    ultimately show ?thesis using e by blast
  qed
qed

lemma flat_div_mod:
  assumes "\<forall>a. length (segBytes p a) = SEG" "off \<le> SEG * length xs"
  shows "flat p xs = flat p (take (off div SEG) xs) @ flat p (drop (off div SEG) xs)"
    and "length (flat p (take (off div SEG) xs)) = off - off mod SEG"
    and "off div SEG \<le> length xs"
proof -
  show "flat p xs = flat p (take (off div SEG) xs) @ flat p (drop (off div SEG) xs)"
    by (simp flip: flat_simps(3))
  show k: "off div SEG \<le> length xs"
    using div_le_mono [OF assms(2), of SEG] by simp
  show "length (flat p (take (off div SEG) xs)) = off - off mod SEG"
    using k assms(1) by (simp add: min_absorb2 minus_mod_eq_mult_div)
qed

lemma CopyFrom_llist:
  assumes l: "llist (nextSegment p) seg xs" and b: "\<forall>a. length (segBytes p a) = SEG"
    and n: "off + n \<le> SEG * length xs"
  shows "gmosBufferCopyFromSegments p seg off n = Some (take n (drop off (flat p xs)))"
proof -
  let ?k = "off div SEG"
  have off: "off \<le> SEG * length xs" using n by simp
  note f = flat_div_mod [OF b off]
  have "llist (nextSegment p) (ptr_at xs ?k) (drop ?k xs)" using llist_drop [OF l f(3)] .
  moreover have "off mod SEG + n \<le> SEG * length (drop ?k xs)"
    using n f(3) by (simp add: diff_mult_distrib2 flip: minus_mod_eq_mult_div)
  ultimately have "copyFromLoop p (ptr_at xs ?k) (off mod SEG) n =
      Some (take n (drop (off mod SEG) (flat p (drop ?k xs))))"
    using b by (intro copyFromLoop_llist) auto
  moreover have "drop off (flat p xs) = drop (off mod SEG) (flat p (drop ?k xs))"
    using f(2) by (subst f(1)) simp
  ultimately show ?thesis
    by (simp add: gmosBufferCopyFromSegments_def skipSegments_llist [OF l off])
qed

lemma CopyTo_llist:
  assumes l: "llist (nextSegment p) seg xs" and b: "\<forall>a. length (segBytes p a) = SEG"
    and n: "off + length ds \<le> SEG * length xs"
  obtains p' where "gmosBufferCopyToSegments p seg off ds = Some p'"
    "only_bytes (set xs) p p'" "flat p' xs = splice off ds (flat p xs)"
proof -
  let ?k = "off div SEG"
  have off: "off \<le> SEG * length xs" using n by simp
  note f = flat_div_mod [OF b off]
  have "llist (nextSegment p) (ptr_at xs ?k) (drop ?k xs)" using llist_drop [OF l f(3)] .
  moreover have "off mod SEG + length ds \<le> SEG * length (drop ?k xs)"
    using n f(3) by (simp add: diff_mult_distrib2 flip: minus_mod_eq_mult_div)
  ultimately obtain p' where r: "copyToLoop p (ptr_at xs ?k) (off mod SEG) ds = Some p'"
      "only_bytes (set (drop ?k xs)) p p'"
      "flat p' (drop ?k xs) = splice (off mod SEG) ds (flat p (drop ?k xs))"
    using copyToLoop_llist [of p "ptr_at xs ?k" "drop ?k xs" "off mod SEG" ds] b by auto
  have "flat p' (take ?k xs) = flat p (take ?k xs)"
    using only_bytesD(3) [OF r(2)] llist_distinct [OF l]
    by (intro flat_cong) (metis disjoint_iff order_refl set_take_disj_set_drop_if_distinct)
  then have "flat p' xs = flat p (take ?k xs) @ splice (off mod SEG) ds (flat p (drop ?k xs))"
    using r(3) by (metis append_take_drop_id flat_simps(3))
  also have "\<dots> = splice off ds (flat p (take ?k xs) @ flat p (drop ?k xs))"
    using f(2) by (subst splice_append_right) auto
  finally have "flat p' xs = splice off ds (flat p xs)" using f(1) by simp
  moreover have "only_bytes (set xs) p p'" using only_bytes_mono [OF r(2)] by (simp add: set_drop_subset)
  ultimately show thesis
    using that r(1) by (simp add: gmosBufferCopyToSegments_def skipSegments_llist [OF l off])
qed

subsection \<open>What a buffer holds\<close>

text \<open>The number of segments that \<open>n\<close> bytes occupy from the start of the first one.\<close>

definition need :: "nat \<Rightarrow> nat" where
  "need n = (n + SEG - 1) div SEG"

lemma need_0 [simp]: "need 0 = 0"
  by (simp add: need_def GMOS_CONFIG_MEMPOOL_SEGMENT_SIZE_def)

lemma need_code: "0 < n \<Longrightarrow> need n = Suc ((n - 1) div SEG)"
proof -
  assume "0 < n"
  then have "n + SEG - 1 = (n - 1) + SEG" by simp
  then show ?thesis by (simp add: need_def div_add_self2 del: One_nat_def)
qed

lemma need_le: "n \<le> SEG * need n"
  by (simp add: need_def GMOS_CONFIG_MEMPOOL_SEGMENT_SIZE_def)

lemma need_less: "SEG * need n < n + SEG"
  by (simp add: need_def GMOS_CONFIG_MEMPOOL_SEGMENT_SIZE_def)

lemma need_eq_0 [simp]: "need n = 0 \<longleftrightarrow> n = 0"
  by (auto simp: need_def GMOS_CONFIG_MEMPOOL_SEGMENT_SIZE_def)

lemma need_pos [simp]: "0 < need n \<longleftrightarrow> 0 < n"
  using need_eq_0 [of n] by (metis not_gr_zero)

lemma need_mono: "m \<le> n \<Longrightarrow> need m \<le> need n"
  by (simp add: need_def div_le_mono)

lemma need_unique: "m \<le> SEG * k \<Longrightarrow> SEG * k < m + SEG \<Longrightarrow> k = need m"
  by (auto simp: need_def GMOS_CONFIG_MEMPOOL_SEGMENT_SIZE_def)

lemma need_shift: "need (n + SEG * k) = need n + k"
  by (simp add: need_def GMOS_CONFIG_MEMPOOL_SEGMENT_SIZE_def)

lemma need_bound: "n < 66000 \<Longrightarrow> need n < 1100"
  by (simp add: need_def GMOS_CONFIG_MEMPOOL_SEGMENT_SIZE_def)

definition buf_rep :: "mempool \<Rightarrow> gmosBuffer \<Rightarrow> nat list \<Rightarrow> byte list \<Rightarrow> bool" where
  "buf_rep p b xs ds \<longleftrightarrow>
     llist (nextSegment p) (segmentList b) xs \<and>
     bufferSize b = length ds \<and> length ds < 65536 \<and>
     bufferOffset b < SEG \<and> (ds = [] \<longrightarrow> bufferOffset b = 0) \<and>
     length xs = need (bufferOffset b + length ds) \<and>
     take (length ds) (drop (bufferOffset b) (flat p xs)) = ds"

definition buf_state :: "mempool \<Rightarrow> gmosBuffer \<Rightarrow> byte list \<Rightarrow> nat set \<Rightarrow> bool" where
  "buf_state p b ds R \<longleftrightarrow>
     (\<exists>xs. buf_rep p b xs ds \<and> set xs \<inter> R = {} \<and> pool_ok p (set xs \<union> R))"

lemma buf_repD:
  assumes "buf_rep p b xs ds"
  shows "llist (nextSegment p) (segmentList b) xs" "bufferSize b = length ds" "length ds < 65536"
    "bufferOffset b < SEG" "length xs = need (bufferOffset b + length ds)"
    "take (length ds) (drop (bufferOffset b) (flat p xs)) = ds"
    "bufferOffset b + length ds \<le> SEG * length xs"
    "xs = [] \<longleftrightarrow> ds = []" "segmentList b = None \<longleftrightarrow> ds = []"
proof -
  show *: "llist (nextSegment p) (segmentList b) xs" "bufferSize b = length ds"
    "length ds < 65536" "bufferOffset b < SEG" "length xs = need (bufferOffset b + length ds)"
    "take (length ds) (drop (bufferOffset b) (flat p xs)) = ds"
    using assms by (auto simp: buf_rep_def)
  show "bufferOffset b + length ds \<le> SEG * length xs" using need_le *(5) by simp
  have "length xs = 0 \<longleftrightarrow> bufferOffset b + length ds = 0" using *(5) by simp
  moreover have "ds = [] \<longrightarrow> bufferOffset b = 0" using assms by (simp add: buf_rep_def)
  ultimately show e: "xs = [] \<longleftrightarrow> ds = []" by auto
  show "segmentList b = None \<longleftrightarrow> ds = []" using llist_Nil_iff [OF *(1)] e by simp
qed

lemma buf_stateI:
  "buf_rep p b xs ds \<Longrightarrow> set xs \<inter> R = {} \<Longrightarrow> pool_ok p (set xs \<union> R) \<Longrightarrow> buf_state p b ds R"
  by (auto simp: buf_state_def)

lemma buf_state_size: "buf_state p b ds R \<Longrightarrow> bufferSize b = length ds \<and> length ds < 65536"
  by (auto simp: buf_state_def buf_rep_def)

lemma buf_state_init: "pool_ok p R \<Longrightarrow> buf_state p gmosBufferInit [] R"
  by (auto simp: buf_state_def buf_rep_def gmosBufferInit_def)

text \<open>An empty buffer owns no segment.\<close>

lemma buf_state_Nil:
  "buf_state p b [] R \<Longrightarrow> pool_ok p R \<and> segmentList b = None \<and> bufferOffset b = 0 \<and> bufferSize b = 0"
  by (auto simp: buf_state_def buf_rep_def)

text \<open>
  A buffer owned by another client survives an operation that keeps \<open>R\<close> intact, where
  \<open>R\<close> contains that buffer's segments.
\<close>

lemma buf_rep_same_on:
  assumes "buf_rep p b xs ds" "same_on A p p'" "set xs \<subseteq> A"
  shows "buf_rep p' b xs ds"
proof -
  have "flat p' xs = flat p xs" using assms(2,3) by (intro flat_cong) (auto simp: same_on_def)
  moreover have "llist (nextSegment p') (segmentList b) xs"
    using same_on_chain [OF assms(2,3)] assms(1) by (simp add: buf_rep_def)
  ultimately show ?thesis using assms(1) by (simp add: buf_rep_def)
qed

subsection \<open>Reading, writing and discarding\<close>

lemma take_drop_splice:
  assumes "off + length w \<le> n" "k + n \<le> length F"
  shows "take n (drop k (splice (k + off) w F)) = splice off w (take n (drop k F))"
proof -
  have "drop k (splice (k + off) w F) = splice off w (drop k F)"
    using assms by (simp add: splice_def drop_take add.commute add.left_commute)
  also have "\<dots> = splice off w (take n (drop k F) @ drop n (drop k F))"
    by (simp only: append_take_drop_id)
  also have "\<dots> = splice off w (take n (drop k F)) @ drop n (drop k F)"
    by (rule splice_append_left) (use assms in simp)
  finally show ?thesis using assms by simp
qed

lemma copy_into:
  assumes rep: "buf_rep p b xs ds" and ok: "pool_ok p own" and w: "offset + length w \<le> length ds"
  obtains p' where
    "gmosBufferCopyToSegments p (segmentList b) (bufferOffset b + offset) w = Some p'"
    "buf_rep p' b xs (splice offset w ds)" "only_bytes (set xs) p p'"
proof -
  note r = buf_repD [OF rep]
  have bytes: "\<forall>a. length (segBytes p a) = SEG" using pool_ok_segBytes [OF ok] by simp
  have "bufferOffset b + offset + length w \<le> SEG * length xs" using w r(7) by simp
  from CopyTo_llist [OF r(1) bytes this] obtain p' where p':
    "gmosBufferCopyToSegments p (segmentList b) (bufferOffset b + offset) w = Some p'"
    "only_bytes (set xs) p p'" "flat p' xs = splice (bufferOffset b + offset) w (flat p xs)" .
  have "take (length ds) (drop (bufferOffset b) (flat p' xs)) = splice offset w ds"
    unfolding p'(3) using w r(6,7) bytes by (subst take_drop_splice) auto
  then have "buf_rep p' b xs (splice offset w ds)"
    using rep w only_bytesD(1) [OF p'(2)] by (auto simp: buf_rep_def splice_def)
  with p' show thesis using that by blast
qed

lemma gmosBufferRead_ok:
  assumes "buf_state p b ds R"
  shows "gmosBufferRead p b offset n =
    Some (if offset + n \<le> length ds then Some (take n (drop offset ds)) else None)"
proof -
  from assms obtain xs where rep: "buf_rep p b xs ds" and ok: "pool_ok p (set xs \<union> R)"
    by (auto simp: buf_state_def)
  note r = buf_repD [OF rep]
  show ?thesis
  proof (cases "offset + n \<le> length ds")
    case True
    have "bufferOffset b + offset + n \<le> SEG * length xs" using True r(7) by simp
    then have "gmosBufferCopyFromSegments p (segmentList b) (bufferOffset b + offset) n =
        Some (take n (drop (bufferOffset b + offset) (flat p xs)))"
      using pool_ok_segBytes [OF ok] by (intro CopyFrom_llist [OF r(1)]) auto
    moreover have "take n (drop offset ds) = take n (drop (bufferOffset b + offset) (flat p xs))"
      using True by (subst r(6) [symmetric]) (simp add: drop_take add.commute min_absorb1)
    ultimately show ?thesis using True r(2) by (simp add: gmosBufferRead_def)
  next
    case False
    then show ?thesis using r(2) by (simp add: gmosBufferRead_def)
  qed
qed

lemma gmosBufferWrite_ok:
  assumes st: "buf_state p b ds R"
  obtains p' where "gmosBufferWrite p b offset w = Some (offset + length w \<le> length ds, p')"
    "buf_state p' b (if offset + length w \<le> length ds then splice offset w ds else ds) R"
    "same_on R p p'" "avail p' = avail p" "mempoolUseHeap p' = mempoolUseHeap p"
proof (cases "offset + length w \<le> length ds")
  case True
  from st obtain xs where rep: "buf_rep p b xs ds" and d: "set xs \<inter> R = {}"
    and ok: "pool_ok p (set xs \<union> R)" by (auto simp: buf_state_def)
  from copy_into [OF rep ok True] obtain p' where p':
    "gmosBufferCopyToSegments p (segmentList b) (bufferOffset b + offset) w = Some p'"
    "buf_rep p' b xs (splice offset w ds)" "only_bytes (set xs) p p'" .
  note o = only_bytesD [OF p'(3)]
  have "buf_state p' b (splice offset w ds) R" using p'(2) d o(6) [OF ok] by (rule buf_stateI)
  then show thesis
    using that [of p'] True p'(1) buf_repD(2) [OF rep] o(4,5) o(7) [OF d]
    by (simp add: gmosBufferWrite_def)
next
  case False
  then show thesis
    using that [of p] st buf_state_size [OF st] by (simp add: gmosBufferWrite_def)
qed

lemma gmosBufferDiscardContents_ok:
  assumes st: "buf_state p b ds R"
  obtains p' where "gmosBufferDiscardContents p b = Some (p', gmosBufferInit)" "pool_ok p' R"
    "same_on R p p'" "mempoolUseHeap p' = mempoolUseHeap p"
    "\<not> mempoolUseHeap p \<Longrightarrow> avail p' = avail p + need (bufferOffset b + length ds)"
proof (cases "ds = []")
  case True
  with st have n: "pool_ok p R" "segmentList b = None" "bufferOffset b = 0" "bufferSize b = 0"
    using buf_state_Nil [of p b R] by auto
  then have "b = gmosBufferInit" by (cases b) (simp add: gmosBufferInit_def)
  then show thesis
    using that [of p] n True by (simp add: gmosBufferDiscardContents_def gmosBufferInit_def)
next
  case False
  from st obtain xs where rep: "buf_rep p b xs ds" and d: "set xs \<inter> R = {}"
    and ok: "pool_ok p (set xs \<union> R)" by (auto simp: buf_state_def)
  note r = buf_repD [OF rep]
  have own: "set xs \<union> R - set xs = R" using d by auto
  from mp.release_some [OF ok r(1)] own obtain p' where p':
    "gmosMempoolFreeSegments (segmentList b) p = Some p'" "pool_ok p' R"
    "\<forall>a\<in>R. nextSegment p' a = nextSegment p a" "segBytes p' = segBytes p"
    "mempoolUseHeap p' = mempoolUseHeap p"
    "\<not> mempoolUseHeap p \<longrightarrow> avail p' = avail p + length xs" by auto
  show thesis
  proof (rule that)
    show "gmosBufferDiscardContents p b = Some (p', gmosBufferInit)"
      using False r(9) p'(1)
      by (cases b) (auto simp: gmosBufferDiscardContents_def gmosBufferInit_def)
    show "same_on R p p'" using p'(3,4) by (simp add: same_on_def)
  qed (use p' r(5) in auto)
qed

subsection \<open>Growing and shrinking, proved\<close>

lemma segmentListEnd_llist:
  "llist nx cur xs \<Longrightarrow> n + length xs < 4294967296 \<Longrightarrow>
     segmentListEnd nx ptr cur n = Some (if xs = [] then ptr else Some (last xs), n + length xs)"
proof (induction xs arbitrary: ptr cur n)
  case Nil
  then show ?case by (simp add: segmentListEnd.simps)
next
  case (Cons x xs)
  then have "segmentListEnd nx (Some x) (nx x) (n + 1) =
      Some (if xs = [] then Some x else Some (last xs), n + 1 + length xs)" by simp
  then show ?case using Cons.prems by (auto simp: segmentListEnd.simps [of nx ptr "Some x"])
qed

lemma trimEndLoop_llist:
  "llist nx cur xs \<Longrightarrow> limit \<le> bc + SEG * length xs \<Longrightarrow>
     trimEndLoop nx limit bc ptr cur =
       (let k = need (limit - bc)
        in Some (if k = 0 then ptr else ptr_at xs (k - 1), ptr_at xs k))"
proof (induction xs arbitrary: ptr cur bc)
  case Nil
  then show ?case by (simp add: trimEndLoop.simps)
next
  case (Cons x xs)
  show ?case
  proof (cases "bc < limit")
    case True
    have k: "need (limit - bc) = Suc (need (limit - (bc + SEG)))"
      using True need_shift [of "limit - (bc + SEG)" 1] need_code [of "limit - bc"]
      by (cases "bc + SEG \<le> limit") auto
    have "trimEndLoop nx limit (bc + SEG) (Some x) (nx x) =
        (let k = need (limit - (bc + SEG))
         in Some (if k = 0 then Some x else ptr_at xs (k - 1), ptr_at xs k))"
      using Cons.prems by (intro Cons.IH) auto
    then show ?thesis
      using True Cons.prems(1) unfolding k
      by (cases "need (limit - (bc + SEG))") (auto simp: trimEndLoop.simps [of nx limit bc])
  next
    case False
    with Cons.prems(1) show ?thesis by (simp add: trimEndLoop.simps [of nx limit bc])
  qed
qed

lemma trimStartLoop_llist:
  "llist nx cur xs \<Longrightarrow> limit div SEG \<le> c + length xs \<Longrightarrow> c \<le> limit div SEG \<Longrightarrow>
     trimStartLoop nx limit c ptr cur =
       (let k = limit div SEG - c
        in Some (limit div SEG, if k = 0 then ptr else ptr_at xs (k - 1), ptr_at xs k))"
proof (induction xs arbitrary: ptr cur c)
  case Nil
  then have "c = limit div SEG" by simp
  then have "\<not> (c + 1) * SEG \<le> limit"
    by (metis SEG_pos Suc_eq_plus1 Suc_le_eq less_eq_div_iff_mult_less_eq less_irrefl)
  with Nil show ?case by (simp add: trimStartLoop.simps [of nx limit c])
next
  case (Cons x xs)
  have g: "(c + 1) * SEG \<le> limit \<longleftrightarrow> c < limit div SEG"
    by (metis SEG_pos Suc_eq_plus1 Suc_le_eq less_eq_div_iff_mult_less_eq)
  show ?case
  proof (cases "c < limit div SEG")
    case True
    then have "trimStartLoop nx limit (c + 1) (Some x) (nx x) =
        (let k = limit div SEG - (c + 1)
         in Some (limit div SEG, if k = 0 then Some x else ptr_at xs (k - 1), ptr_at xs k))"
      using Cons.prems by (intro Cons.IH) auto
    moreover have k: "limit div SEG - c = Suc (limit div SEG - (c + 1))" using True by simp
    ultimately show ?thesis
      using True g Cons.prems(1) unfolding k
      by (cases "limit div SEG - (c + 1)") (auto simp: trimStartLoop.simps [of nx limit c])
  next
    case False
    with Cons.prems(3) have "c = limit div SEG" by simp
    with g False Cons.prems(1) show ?thesis
      by (subst trimStartLoop.simps) simp
  qed
qed

text \<open>The segment count of gmosBufferIncrSizeEnd, whose intermediate values may wrap.\<close>

lemma newSegmentCount_eq:
  assumes "k \<le> m" "0 < m" "m < 1100"
  shows "u32 (sub32 1 k + (m - 1)) = m - k"
  using assms by (auto simp: sub32_def u32_def mod_if)

lemma take_add_drop: "take (a + b) (drop k F) = take a (drop k F) @ take b (drop (k + a) F)"
  by (simp add: take_add add.commute)

lemma take_drop_extend:
  assumes "take (length ds) (drop off F) = ds" "length ds \<le> n" "off + n \<le> length F"
  shows "\<exists>junk. take n (drop off (F @ G)) = ds @ junk \<and> length (ds @ junk) = n"
proof -
  have "take n (drop off (F @ G)) = take n (drop off F)" using assms(3) by simp
  also have "\<dots> = take (length ds) (drop off F) @ drop (length ds) (take n (drop off F))"
    using assms(2) by (metis append_take_drop_id min_absorb1 take_take)
  also have "\<dots> = ds @ drop (length ds) (take n (drop off F))" using assms(1) by simp
  finally show ?thesis using assms by (intro exI [of _ "drop (length ds) (take n (drop off F))"]) auto
qed

lemma gmosBufferIncrSizeEnd_ok:
  assumes st: "buf_state p b ds R" and n: "length ds < n" "n < 65536"
  obtains ok p' b' where "gmosBufferIncrSizeEnd p b n = Some (ok, p', b')"
    "same_on R p p'" "mempoolUseHeap p' = mempoolUseHeap p"
    "ok \<longleftrightarrow> need (bufferOffset b + n) - need (bufferOffset b + length ds) \<le> avail p"
    "\<not> ok \<Longrightarrow> b' = b \<and> buf_state p' b ds R"
    "ok \<Longrightarrow> bufferOffset b' = bufferOffset b \<and>
      (\<exists>junk. length (ds @ junk) = n \<and> buf_state p' b' (ds @ junk) R)"
    "\<not> mempoolUseHeap p \<Longrightarrow> avail p' =
      (if ok then avail p - (need (bufferOffset b + n) - need (bufferOffset b + length ds))
       else avail p)"
proof -
  from st obtain xs where rep: "buf_rep p b xs ds" and d: "set xs \<inter> R = {}"
    and ok: "pool_ok p (set xs \<union> R)" by (auto simp: buf_state_def)
  note r = buf_repD [OF rep]
  have bytes: "\<forall>a. length (segBytes p a) = SEG" using pool_ok_segBytes [OF ok] by simp
  let ?off = "bufferOffset b"
  define m where "m = need (?off + n)"
  have m: "length xs \<le> m" "0 < m" "m < 1100" "sub32 (?off + n) 1 div SEG = m - 1"
    using n r(4,5) need_mono [of "?off + length ds" "?off + n"] need_code [of "?off + n"]
      need_bound [of "?off + n"]
    by (auto simp: m_def GMOS_CONFIG_MEMPOOL_SEGMENT_SIZE_def)
  have le: "segmentListEnd (nextSegment p) None (segmentList b) 0 =
      Some (if xs = [] then None else Some (last xs), length xs)"
    using segmentListEnd_llist [OF r(1), of 0] m by simp
  have cnt: "u32 (sub32 1 (length xs) + sub32 (?off + n) 1 div SEG) = m - length xs"
    using newSegmentCount_eq [OF m(1-3)] m(4) by simp
  have u: "u16 (m - length xs) = m - length xs" "u16 n = n" using m(3) n by auto
  show thesis
  proof (cases "m = length xs")
    case True
    let ?b' = "b\<lparr>bufferSize := n\<rparr>"
    have "?off + n \<le> length (flat p xs)" using need_le [of "?off + n"] True bytes by (simp add: m_def)
    from take_drop_extend [OF r(6) _ this, of "[]"] n obtain junk where
      j: "take n (drop ?off (flat p xs)) = ds @ junk" "length (ds @ junk) = n" by auto
    have "buf_rep p ?b' xs (ds @ junk)"
      using rep n j True by (auto simp: buf_rep_def m_def)
    from buf_stateI [OF this d ok] have "buf_state p ?b' (ds @ junk) R" .
    moreover have "gmosBufferIncrSizeEnd p b n = Some (True, p, ?b')"
      using le cnt True u(2) by (simp add: gmosBufferIncrSizeEnd_def)
    ultimately show thesis
      using that [of True p ?b'] j(2) True r(5) by (auto simp: m_def)
  next
    case False
    then have k0: "0 < m - length xs" using m(1) by simp
    show thesis
    proof (cases "m - length xs \<le> avail p")
      case False
      from mp.alloc_none [OF ok, of "m - length xs"] False obtain p' where p':
        "gmosMempoolAllocSegments (m - length xs) p = Some (None, p')" "pool_ok p' (set xs \<union> R)"
        "same_on (set xs \<union> R) p p'" "mempoolUseHeap p' = mempoolUseHeap p"
        "\<not> mempoolUseHeap p \<longrightarrow> p' = p" unfolding same_on_def by auto
      have "gmosBufferIncrSizeEnd p b n = Some (False, p', b)"
        using le cnt k0 u p'(1) by (simp add: gmosBufferIncrSizeEnd_def)
      moreover have "buf_state p' b ds R"
        using buf_rep_same_on [OF rep p'(3)] d p'(2) by (auto intro: buf_stateI)
      ultimately show thesis
        using that [of False p' b] False r(5) p' same_on_mono [OF p'(3)]
        by (auto simp: m_def)
    next
      case True
      obtain p1 new ys p2 b2 where a:
        "gmosMempoolAllocSegments (m - length xs) p = Some (Some new, p1)"
        "storeSegPtr (if xs = [] then None else Some (last xs)) (Some new) p1 b = (p2, b2)"
        "length ys = m - length xs" "llist (nextSegment p2) (segmentList b2) (xs @ ys)"
        "set (xs @ ys) \<inter> R = {}" "pool_ok p2 (set (xs @ ys) \<union> R)"
        "\<forall>a\<in>R. nextSegment p2 a = nextSegment p a" "segBytes p2 = segBytes p"
        "mempoolUseHeap p2 = mempoolUseHeap p"
        "\<not> mempoolUseHeap p \<longrightarrow> avail p2 = avail p - (m - length xs)"
        "bufferOffset b2 = ?off" "bufferSize b2 = length ds"
      proof (cases "xs = []")
        case True
        have okR: "pool_ok p R" using ok True by simp
        from mp.alloc_some [OF okR k0 \<open>m - length xs \<le> avail p\<close>] True r(2) show thesis
          by (auto simp: storeSegPtr_def Un_commute Int_commute intro!: that)
      next
        case False
        from mp.alloc_append [OF ok r(1) False d k0 \<open>m - length xs \<le> avail p\<close>]
        obtain s1 new ys where
          "gmosMempoolAllocSegments (m - length xs) p = Some (Some new, s1)"
          "length ys = m - length xs" "set ys \<inter> (set xs \<union> R) = {}"
          "llist (nextSegment (setNext (last xs) (Some new) s1)) (segmentList b) (xs @ ys)"
          "pool_ok (setNext (last xs) (Some new) s1) (set (xs @ ys) \<union> R)"
          "\<forall>a\<in>R. nextSegment (setNext (last xs) (Some new) s1) a = nextSegment p a"
          "segBytes (setNext (last xs) (Some new) s1) = segBytes p"
          "mempoolUseHeap (setNext (last xs) (Some new) s1) = mempoolUseHeap p"
          "\<not> mempoolUseHeap p \<longrightarrow>
            avail (setNext (last xs) (Some new) s1) = avail p - (m - length xs)"
          unfolding Let_def by blast
        then show thesis
          using that [of new s1 "setNext (last xs) (Some new) s1" b ys] False d r(2)
          by (auto simp: storeSegPtr_def)
      qed
      let ?b' = "b2\<lparr>bufferSize := n\<rparr>"
      have len: "length (xs @ ys) = m" using a(3) m(1) by simp
      have "take (length ds) (drop ?off (flat p2 (xs @ ys))) = ds"
        using r(6,7) bytes a(8) flat_cong [of xs p2 p] by simp
      moreover have "?off + n \<le> length (flat p2 (xs @ ys))"
        using need_le [of "?off + n"] length_flat [of p2 "xs @ ys"] bytes a(8) len
        unfolding m_def by metis
      ultimately obtain junk where
        j: "take n (drop ?off (flat p2 (xs @ ys))) = ds @ junk" "length (ds @ junk) = n"
        using take_drop_extend [of ds ?off "flat p2 (xs @ ys)" n "[]"] n by auto
      have "buf_rep p2 ?b' (xs @ ys) (ds @ junk)"
        using rep n j a(4,11) len by (auto simp: buf_rep_def m_def)
      from buf_stateI [OF this a(5,6)] have "buf_state p2 ?b' (ds @ junk) R" .
      moreover have "gmosBufferIncrSizeEnd p b n = Some (True, p2, ?b')"
        using le cnt k0 u a(1,2) by (simp add: gmosBufferIncrSizeEnd_def)
      moreover have "same_on R p p2" using a(7,8) by (simp add: same_on_def)
      ultimately show thesis
        using that [of True p2 ?b'] j(2) True r(5) a(9-11) by (auto simp: m_def)
    qed
  qed
qed

lemma buf_take:
  assumes "buf_rep p b xs ds" "n \<le> length ds" "bufferOffset b + n \<le> length (flat p us)"
    "xs = us @ vs"
  shows "take n (drop (bufferOffset b) (flat p us)) = take n ds"
proof -
  have "take n ds = take n (take (length ds) (drop (bufferOffset b) (flat p xs)))"
    using buf_repD(6) [OF assms(1)] by simp
  also have "\<dots> = take n (drop (bufferOffset b) (flat p us))"
    using assms(2-4) by (simp add: min_absorb1)
  finally show ?thesis by simp
qed

lemma gmosBufferDecrSizeEnd_ok:
  assumes st: "buf_state p b ds R" and n: "0 < n" "n < length ds"
  obtains p' b' where "gmosBufferDecrSizeEnd p b n = Some (p', b')"
    "buf_state p' b' (take n ds) R" "same_on R p p'" "mempoolUseHeap p' = mempoolUseHeap p"
    "bufferOffset b' = bufferOffset b"
    "\<not> mempoolUseHeap p \<Longrightarrow> avail p' =
       avail p + (need (bufferOffset b + length ds) - need (bufferOffset b + n))"
proof -
  from st obtain xs where rep: "buf_rep p b xs ds" and d: "set xs \<inter> R = {}"
    and ok: "pool_ok p (set xs \<union> R)" by (auto simp: buf_state_def)
  note r = buf_repD [OF rep]
  have bytes: "\<forall>a. length (segBytes p a) = SEG" using pool_ok_segBytes [OF ok] by simp
  define k where "k = need (bufferOffset b + n)"
  define us vs where "us = take k xs" and "vs = drop k xs"
  have k: "0 < k" "k \<le> length xs"
    using n r(5) need_mono [of "bufferOffset b + n" "bufferOffset b + length ds"]
    by (auto simp: k_def)
  have xs: "xs = us @ vs" "us \<noteq> []" "length us = k" "length vs = length xs - k"
    using k by (auto simp: us_def vs_def)
  have lst: "ptr_at xs (k - 1) = Some (last us)"
    using k by (cases k) (auto simp: ptr_at_def us_def take_Suc_conv_app_nth)
  have l: "llist (nextSegment p) (segmentList b) (us @ vs)" using r(1) xs(1) by simp
  have "ptr_at vs 0 = ptr_at xs k" by (auto simp: ptr_at_def vs_def)
  then have cur: "ptr_at xs k = nextSegment p (last us)"
    using llist_ptr_at [OF chain_cut (2) [OF l xs(2)]] by simp
  have loop: "trimEndLoop (nextSegment p) (bufferOffset b + n) 0 None (segmentList b) =
      Some (Some (last us), nextSegment p (last us))"
    using trimEndLoop_llist [OF r(1), of "bufferOffset b + n" 0 None] r(7) n k lst cur
    by (simp add: k_def Let_def)
  have offn: "bufferOffset b + n \<le> SEG * k" using need_le by (simp add: k_def)
  have u: "u16 n = n" using n r(3) by simp
  let ?b' = "b\<lparr>bufferSize := n\<rparr>"
  have repI: "buf_rep q ?b' us (take n ds)"
    if "llist (nextSegment q) (segmentList b) us" "segBytes q = segBytes p" for q
  proof -
    have "flat q us = flat p us" using that(2) by (intro flat_cong) simp
    moreover have "take n (drop (bufferOffset b) (flat p us)) = take n ds"
      using buf_take [OF rep _ _ xs(1)] n offn bytes xs(3) by simp
    ultimately show ?thesis
      using rep that(1) n xs(3) by (auto simp: buf_rep_def k_def)
  qed
  show thesis
  proof (cases "vs = []")
    case True
    then have "us = xs" "length xs = k" using xs by auto
    moreover from this have "nextSegment p (last us) = None" using cur by (simp add: ptr_at_def)
    then have "gmosBufferDecrSizeEnd p b n = Some (p, ?b')"
      using loop u by (simp add: gmosBufferDecrSizeEnd_def)
    moreover have "buf_state p ?b' (take n ds) R"
      using buf_stateI [of p ?b' us "take n ds" R] repI [of p] d ok r(1) \<open>us = xs\<close> by simp
    ultimately show thesis using that [of p ?b'] r(5) by (simp add: k_def)
  next
    case False
    then have "k < length xs" using xs(4) by (cases "k < length xs") auto
    then have c: "nextSegment p (last us) \<noteq> None" 
      using cur by (metis option.distinct(1) ptr_at_def)
    have ok': "pool_ok p (set (us @ vs) \<union> R)" and d': "set (us @ vs) \<inter> R = {}"
      using ok d xs(1) by simp_all
    from mp.release_suffix [OF ok' l xs(2) d'] obtain p1 p2 where p2:
      "gmosMempoolFreeSegments (nextSegment p (last us)) p = Some p1"
      "p2 = setNext (last us) None p1" "llist (nextSegment p2) (segmentList b) us"
      "pool_ok p2 (set us \<union> R)" "\<forall>a\<in>R. nextSegment p2 a = nextSegment p a"
      "segBytes p2 = segBytes p" "mempoolUseHeap p2 = mempoolUseHeap p"
      "\<not> mempoolUseHeap p \<longrightarrow> avail p2 = avail p + length vs"
      unfolding Let_def by auto
    have "gmosBufferDecrSizeEnd p b n = Some (p2, ?b')"
      using loop c p2(1,2) u by (auto simp: gmosBufferDecrSizeEnd_def storeSegPtr_def)
    moreover have "set us \<inter> R = {}" using d xs(1) by auto
    ultimately show thesis
      using that [of p2 ?b'] buf_stateI [OF repI [OF p2(3,6)]] p2 r(5) xs(4)
      by (simp add: same_on_def k_def)
  qed
qed

text \<open>The offset update of gmosBufferDecrSizeStart, whose intermediate value may wrap.\<close>

lemma trim_offset_eq:
  assumes "k + o' = off + trim" "o' < 65536" "k < 4294967296"
  shows "u16 (off + sub32 trim k) = o'"
proof (cases "k \<le> trim")
  case True
  then have "off + sub32 trim k = o'" using assms(1) by simp
  then show ?thesis using assms(2) by simp
next
  case False
  then have "off + sub32 trim k = o' + 4294967296" using assms(1,3) by (simp add: sub32_def)
  then show ?thesis using assms(2) by (simp add: u16_def mod_add_eq [symmetric])
qed

lemma gmosBufferDecrSizeStart_ok:
  assumes st: "buf_state p b ds R" and n: "0 < n" "n < length ds"
  obtains p' b' where "gmosBufferDecrSizeStart p b n = Some (p', b')"
    "buf_state p' b' (drop (length ds - n) ds) R" "same_on R p p'"
    "mempoolUseHeap p' = mempoolUseHeap p"
    "\<not> mempoolUseHeap p \<Longrightarrow>
       avail p' = avail p + (bufferOffset b + (length ds - n)) div SEG"
    "bufferOffset b' = (bufferOffset b + (length ds - n)) mod SEG"
proof -
  from st obtain xs where rep: "buf_rep p b xs ds" and d: "set xs \<inter> R = {}"
    and ok: "pool_ok p (set xs \<union> R)" by (auto simp: buf_state_def)
  note r = buf_repD [OF rep]
  have bytes: "\<forall>a. length (segBytes p a) = SEG" using pool_ok_segBytes [OF ok] by simp
  define trim where "trim = length ds - n"
  define limit where "limit = bufferOffset b + trim"
  define c where "c = limit div SEG"
  define us vs where "us = take c xs" and "vs = drop c xs"
  have "limit < SEG * length xs" using r(7) n by (simp add: limit_def trim_def)
  then have c: "c < length xs" by (simp add: c_def div_less_iff_less_mult mult.commute)
  have xs: "xs = us @ vs" "length us = c" "length vs = length xs - c"
    using c by (auto simp: us_def vs_def)
  have tr: "sub32 (bufferSize b) n = trim" using n r(2) by (simp add: trim_def)
  have loop: "trimStartLoop (nextSegment p) limit 0 None (segmentList b) =
      Some (c, if c = 0 then None else ptr_at xs (c - 1), ptr_at xs c)"
    using trimStartLoop_llist [OF r(1), of limit 0 None] c by (simp add: c_def Let_def)
  define o' where "o' = limit mod SEG"
  have lim: "limit = c * SEG + o'" by (simp add: c_def o'_def)
  have "o' < SEG" "limit < 65536 + SEG"
    using r(3,4) by (auto simp: o'_def limit_def trim_def)
  then have off': "u16 (bufferOffset b + sub32 trim (c * SEG)) = o'"
    using lim by (intro trim_offset_eq)
      (auto simp: limit_def GMOS_CONFIG_MEMPOOL_SEGMENT_SIZE_def)
  have u: "u16 n = n" using n r(3) by simp
  let ?b' = "\<lparr>segmentList = ptr_at xs c, bufferSize = n, bufferOffset = o'\<rparr>"
  have lenF: "length (flat p us) = SEG * c" using bytes xs(2) by simp
  have cont: "take n (drop o' (flat p vs)) = drop trim ds"
  proof -
    have "drop trim ds = drop trim (take (length ds) (drop (bufferOffset b) (flat p xs)))"
      using r(6) by simp
    also have "\<dots> = take n (drop limit (flat p xs))"
      using n by (simp add: drop_take limit_def trim_def add.commute)
    also have "\<dots> = take n (drop o' (flat p vs))" using lenF xs(1) lim by (simp add: mult.commute)
    finally show ?thesis by simp
  qed
  have "o' + n + SEG * c = bufferOffset b + length ds"
    using lim n by (simp add: limit_def trim_def mult.commute)
  then have "need (o' + n) + c = need (bufferOffset b + length ds)"
    using need_shift [of "o' + n" c] by simp
  then have lv: "length vs = need (o' + n)" using xs(3) r(5) by simp
  have repI: "buf_rep q ?b' vs (drop trim ds)"
    if "llist (nextSegment q) (ptr_at xs c) vs" "segBytes q = segBytes p" for q
  proof -
    have "flat q vs = flat p vs" using that(2) by (intro flat_cong) simp
    moreover have "length (drop trim ds) = n" using n by (simp add: trim_def)
    moreover have "n < 65536" using n r(3) by simp
    ultimately show ?thesis
      using that(1) n lv cont by (auto simp: buf_rep_def o'_def)
  qed
  have ov: "set vs \<inter> R = {}" using d xs(1) by auto
  show thesis
  proof (cases "c = 0")
    case True
    then have "vs = xs" "ptr_at xs c = segmentList b"
      using llist_ptr_at [OF r(1)] by (auto simp: vs_def)
    moreover have "gmosBufferDecrSizeStart p b n = Some (p, ?b')"
      using loop True tr off' u llist_ptr_at [OF r(1)]
      by (cases b) (simp add: gmosBufferDecrSizeStart_def limit_def)
    moreover have "buf_state p ?b' (drop trim ds) R"
      using buf_stateI [of p ?b' vs "drop trim ds" R] repI [of p] d ok r(1) calculation(1,2)
      by simp
    ultimately show thesis
      using that [of p ?b'] True
      by (simp add: trim_def [symmetric] limit_def [symmetric] c_def [symmetric] o'_def)
  next
    case False
    then have ne: "us \<noteq> []" using xs(2) by auto
    have lst: "ptr_at xs (c - 1) = Some (last us)"
      using c False by (cases c) (auto simp: ptr_at_def us_def take_Suc_conv_app_nth)
    have l: "llist (nextSegment p) (segmentList b) (us @ vs)" using r(1) xs(1) by simp
    have "ptr_at vs 0 = ptr_at xs c" by (auto simp: ptr_at_def vs_def)
    then have cur: "ptr_at xs c = nextSegment p (last us)"
      using llist_ptr_at [OF chain_cut (2) [OF l ne]] by simp
    have ok': "pool_ok p (set (us @ vs) \<union> R)" and d': "set (us @ vs) \<inter> R = {}"
      using ok d xs(1) by simp_all
    from mp.release_prefix [OF ok' l ne d'] obtain p2 where p2:
      "gmosMempoolFreeSegments (segmentList b) (setNext (last us) None p) = Some p2"
      "llist (nextSegment p2) (nextSegment p (last us)) vs" "pool_ok p2 (set vs \<union> R)"
      "\<forall>a\<in>R. nextSegment p2 a = nextSegment p a" "segBytes p2 = segBytes p"
      "mempoolUseHeap p2 = mempoolUseHeap p"
      "\<not> mempoolUseHeap p \<longrightarrow> avail p2 = avail p + length us" by auto
    have "gmosBufferDecrSizeStart p b n = Some (p2, ?b')"
      using loop False tr off' u lst p2(1)
      by (cases b) (simp add: gmosBufferDecrSizeStart_def limit_def storeSegPtr_def)
    then show thesis
      using that [of p2 ?b'] buf_stateI [OF repI ov] p2 cur xs(2)
      by (simp add: same_on_def trim_def [symmetric] limit_def [symmetric] c_def [symmetric] o'_def)
  qed
qed

lemma gmosBufferIncrSizeStart_ok:
  assumes st: "buf_state p b ds R" and n: "length ds < n" "n < 65536"
  obtains ok p' b' where "gmosBufferIncrSizeStart p b n = Some (ok, p', b')"
    "same_on R p p'" "mempoolUseHeap p' = mempoolUseHeap p"
    "ok \<longleftrightarrow> need (n - length ds - bufferOffset b) \<le> avail p"
    "\<not> ok \<Longrightarrow> b' = b \<and> buf_state p' b ds R"
    "ok \<Longrightarrow> \<exists>junk. length (junk @ ds) = n \<and> buf_state p' b' (junk @ ds) R"
    "\<not> mempoolUseHeap p \<Longrightarrow> avail p' =
      (if ok then avail p - need (n - length ds - bufferOffset b) else avail p)"
proof -
  from st obtain xs where rep: "buf_rep p b xs ds" and d: "set xs \<inter> R = {}"
    and ok: "pool_ok p (set xs \<union> R)" by (auto simp: buf_state_def)
  note r = buf_repD [OF rep]
  have bytes: "\<forall>a. length (segBytes p a) = SEG" using pool_ok_segBytes [OF ok] by simp
  let ?off = "bufferOffset b"
  define extra where "extra = n - length ds"
  have ex: "sub32 n (bufferSize b) = extra" "0 < extra" "extra < 65536" "extra + length ds = n"
    using n r(2) by (auto simp: extra_def)
  have u: "u16 n = n" using n by simp
  show thesis
  proof (cases "extra \<le> ?off")
    case True
    let ?b' = "b\<lparr>bufferSize := n, bufferOffset := ?off - extra\<rparr>"
    define junk where "junk = take extra (drop (?off - extra) (flat p xs))"
    have "take n (drop (?off - extra) (flat p xs)) =
        junk @ take (length ds) (drop ?off (flat p xs))"
      using True ex(4) take_add_drop [of extra "length ds" "?off - extra" "flat p xs"]
      unfolding junk_def by simp
    then have t: "take n (drop (?off - extra) (flat p xs)) = junk @ ds" using r(6) by simp
    have l: "length (junk @ ds) = n"
      using True ex(4) r(7) bytes by (simp add: junk_def)
    have "?off - extra + n = ?off + length ds" using True ex(4) by simp
    then have "buf_rep p ?b' xs (junk @ ds)"
      unfolding buf_rep_def using r(1,4,5) t l n ex(2) by (auto simp del: length_append)
    from buf_stateI [OF this d ok] have "buf_state p ?b' (junk @ ds) R" .
    moreover have "gmosBufferIncrSizeStart p b n = Some (True, p, ?b')"
      using True ex(1) u r(4)
      by (simp add: gmosBufferIncrSizeStart_def Let_def GMOS_CONFIG_MEMPOOL_SEGMENT_SIZE_def)
    ultimately show thesis
      using that [of True p ?b'] l True by (auto simp: extra_def)
  next
    case False
    define m where "m = need (extra - ?off)"
    define o' where "o' = ?off + SEG * m - extra"
    have m0: "0 < m" "m < 1100" using False ex(3) need_bound [of "extra - ?off"] by (auto simp: m_def)
    have mcode: "Suc (sub32 (sub32 extra ?off) (Suc 0) div SEG) = m"
      using False need_code [of "extra - ?off"] by (simp add: m_def)
    have om: "o' + extra = ?off + SEG * m" "o' < SEG"
      using need_le [of "extra - ?off"] need_less [of "extra - ?off"] False
      by (auto simp: o'_def m_def)
    have ocode: "u32 (sub32 ?off extra + m * SEG) = o'"
    proof -
      have "sub32 ?off extra + m * SEG = o' + 4294967296"
        using False ex(3) om(1) by (simp add: sub32_def mult.commute)
      then show ?thesis
        using om(2) by (simp add: u32_def GMOS_CONFIG_MEMPOOL_SEGMENT_SIZE_def)
    qed
    have u': "u16 m = m" "u16 o' = o'"
      using m0 om(2) by (auto simp: GMOS_CONFIG_MEMPOOL_SEGMENT_SIZE_def)
    note code = gmosBufferIncrSizeStart_def Let_def ex(1) mcode ocode u u' False
    show thesis
    proof (cases "m \<le> avail p")
      case False
      from mp.alloc_none [OF ok, of m] False obtain p' where p':
        "gmosMempoolAllocSegments m p = Some (None, p')" "pool_ok p' (set xs \<union> R)"
        "same_on (set xs \<union> R) p p'" "mempoolUseHeap p' = mempoolUseHeap p"
        "\<not> mempoolUseHeap p \<longrightarrow> p' = p" unfolding same_on_def by auto
      have "gmosBufferIncrSizeStart p b n = Some (False, p', b)" using p'(1) by (simp add: code)
      moreover have "buf_state p' b ds R"
        using buf_rep_same_on [OF rep p'(3)] d p'(2) by (auto intro: buf_stateI)
      ultimately show thesis
        using that [of False p' b] False p' same_on_mono [OF p'(3)]
        by (auto simp: m_def extra_def)
    next
      case True
      from mp.alloc_prepend [OF ok r(1) d m0(1) True] obtain p1 new ys p2 where a:
        "gmosMempoolAllocSegments m p = Some (Some new, p1)" "length ys = m"
        "llist (nextSegment p1) (Some new) ys" "set ys \<inter> (set xs \<union> R) = {}"
        "p2 = setNext (last ys) (segmentList b) p1" "llist (nextSegment p2) (Some new) (ys @ xs)"
        "pool_ok p2 (set (ys @ xs) \<union> R)" "\<forall>a\<in>R. nextSegment p2 a = nextSegment p a"
        "segBytes p2 = segBytes p" "mempoolUseHeap p2 = mempoolUseHeap p"
        "\<not> mempoolUseHeap p \<longrightarrow> avail p2 = avail p - m"
        unfolding Let_def by metis
      let ?b' = "b\<lparr>segmentList := Some new, bufferSize := n, bufferOffset := o'\<rparr>"
      have we: "walkEnd (nextSegment p1) new = Some (last ys)" using walkEnd_llist [OF a(3)] .
      have f: "flat p2 ys = flat p ys" "flat p2 xs = flat p xs" "length (flat p ys) = SEG * m"
        using a(2,9) bytes by (auto intro!: flat_cong)
      define junk where "junk = take extra (drop o' (flat p (ys @ xs)))"
      have "take n (drop o' (flat p (ys @ xs))) =
          junk @ take (length ds) (drop (o' + extra) (flat p (ys @ xs)))"
        using ex(4) take_add_drop [of extra "length ds" o' "flat p (ys @ xs)"]
        unfolding junk_def by simp
      also have "drop (o' + extra) (flat p (ys @ xs)) = drop ?off (flat p xs)"
        using om(1) f(3) by simp
      also have "take (length ds) (drop ?off (flat p xs)) = ds" by (rule r(6))
      finally have t: "take n (drop o' (flat p (ys @ xs))) = junk @ ds" .
      have "o' + n \<le> length (flat p (ys @ xs))"
        using om(1) ex(4) r(7) a(2) bytes by simp
      then have l: "length (junk @ ds) = n" using ex(4) unfolding junk_def by simp
      have ne: "junk \<noteq> []" using l n by auto
      have "o' + n = ?off + length ds + SEG * m" using om(1) ex(4) by linarith
      then have "need (o' + n) = need (?off + length ds) + m" by (simp only: need_shift)
      then have "buf_rep p2 ?b' (ys @ xs) (junk @ ds)"
        using a(2,6) r(5) l t n om(2) f ne by (simp add: buf_rep_def)
      moreover have "set (ys @ xs) \<inter> R = {}" using a(4) d by auto
      ultimately have "buf_state p2 ?b' (junk @ ds) R" using a(7) by (rule buf_stateI)
      with l have st2: "\<exists>junk. length (junk @ ds) = n \<and> buf_state p2 ?b' (junk @ ds) R" by blast
      have e: "gmosBufferIncrSizeStart p b n = Some (True, p2, ?b')"
        using a(1,5) we by (simp add: code)
      have s: "same_on R p p2" using a(8,9) by (simp add: same_on_def)
      have k: "need (n - length ds - ?off) \<le> avail p" using True by (simp add: m_def extra_def)
      show thesis
        by (rule that [OF e s a(10)]) (use st2 k a(11) in \<open>simp_all add: m_def extra_def\<close>)
    qed
  qed
qed

end
