(* ===== verification/Gmos_Buffer_Ops.thy ===== *)
theory Gmos_Buffer_Ops
  imports Gmos_Buffers
begin

text \<open>
  The public operations of common/src/gmos-buffers.c against the byte sequence that a buffer
  holds: resizing at either end, appending, prepending, moving, copying and concatenating. The
  definitions are in \<open>Gmos_Buffers\<close>; this theory proves what each of them does to
  \<open>buf_state\<close>, when it succeeds, and that a refusal leaves the contents alone. Several buffers
  in one pool are described by \<open>bufs\<close>, which says that their segments are pairwise disjoint.
\<close>

subsection \<open>Resetting and resizing\<close>

lemma copy_into_state:
  assumes st: "buf_state p b ds R" and w: "offset + length w \<le> length ds"
  obtains p' where
    "gmosBufferCopyToSegments p (segmentList b) (bufferOffset b + offset) w = Some p'"
    "buf_state p' b (splice offset w ds) R" "same_on R p p'" "avail p' = avail p"
    "mempoolUseHeap p' = mempoolUseHeap p"
proof -
  from st obtain xs where rep: "buf_rep p b xs ds" and d: "set xs \<inter> R = {}"
    and ok: "pool_ok p (set xs \<union> R)" by (auto simp: buf_state_def)
  from copy_into [OF rep ok w] obtain p' where r:
    "gmosBufferCopyToSegments p (segmentList b) (bufferOffset b + offset) w = Some p'"
    "buf_rep p' b xs (splice offset w ds)" "only_bytes (set xs) p p'" .
  note o = only_bytesD [OF r(3)]
  show thesis by (rule that [OF r(1) buf_stateI [OF r(2) d o(6) [OF ok]] o(7) [OF d] o(4,5)])
qed

lemma gmosBufferExtend_ok:
  assumes st: "buf_state p b ds R" and n: "n < 65536"
  obtains ok p' b' where "gmosBufferExtend p b n = Some (ok, p', b')"
    "same_on R p p'" "mempoolUseHeap p' = mempoolUseHeap p"
    "ok \<longleftrightarrow> length ds + n < 65536 \<and>
      need (bufferOffset b + length ds + n) - need (bufferOffset b + length ds) \<le> avail p"
    "\<not> ok \<Longrightarrow> b' = b \<and> buf_state p' b ds R"
    "ok \<Longrightarrow> bufferOffset b' = bufferOffset b \<and>
      (\<exists>junk. length junk = n \<and> buf_state p' b' (ds @ junk) R)"
    "\<not> mempoolUseHeap p \<Longrightarrow> avail p' =
      (if ok then avail p -
         (need (bufferOffset b + length ds + n) - need (bufferOffset b + length ds))
       else avail p)"
proof -
  note s = buf_state_size [OF st]
  consider (zero) "n = 0" | (big) "0 < n" "65536 \<le> length ds + n"
    | (grow) "0 < n" "length ds + n < 65536" by linarith
  then show thesis
  proof cases
    case zero
    then have e: "gmosBufferExtend p b n = Some (True, p, b)" by (simp add: gmosBufferExtend_def)
    have "\<exists>junk. length junk = n \<and> buf_state p b (ds @ junk) R" using zero st by simp
    then show thesis by (intro that [OF e]) (use zero s in simp_all)
  next
    case big
    then have "gmosBufferExtend p b n = Some (False, p, b)"
      using s by (simp add: gmosBufferExtend_def Let_def)
    then show thesis by (rule that) (use big st in simp_all)
  next
    case grow
    then have "length ds < length ds + n" by simp
    from gmosBufferIncrSizeEnd_ok [OF st this grow(2)] obtain ok p' b' where r:
      "gmosBufferIncrSizeEnd p b (length ds + n) = Some (ok, p', b')"
      "same_on R p p'" "mempoolUseHeap p' = mempoolUseHeap p"
      "ok \<longleftrightarrow> need (bufferOffset b + (length ds + n)) - need (bufferOffset b + length ds) \<le> avail p"
      "\<not> ok \<Longrightarrow> b' = b \<and> buf_state p' b ds R"
      "ok \<Longrightarrow> bufferOffset b' = bufferOffset b \<and>
        (\<exists>junk. length (ds @ junk) = length ds + n \<and> buf_state p' b' (ds @ junk) R)"
      "\<not> mempoolUseHeap p \<Longrightarrow> avail p' =
        (if ok then avail p -
          (need (bufferOffset b + (length ds + n)) - need (bufferOffset b + length ds))
         else avail p)" by blast
    have e: "gmosBufferExtend p b n = Some (ok, p', b')"
      using r(1) grow s by (simp add: gmosBufferExtend_def Let_def)
    show thesis by (rule that [OF e r(2,3)]) (use r(4-7) grow in \<open>simp_all add: add.assoc\<close>)
  qed
qed

lemma gmosBufferResize_ok:
  assumes st: "buf_state p b ds R" and n: "n < 65536"
  obtains ok p' b' where "gmosBufferResize p b n = Some (ok, p', b')"
    "same_on R p p'" "mempoolUseHeap p' = mempoolUseHeap p"
    "ok \<longleftrightarrow> need (bufferOffset b + n) - need (bufferOffset b + length ds) \<le> avail p"
    "\<not> ok \<Longrightarrow> b' = b \<and> buf_state p' b ds R"
    "ok \<Longrightarrow> \<exists>junk. length junk = n - length ds \<and> buf_state p' b' (take n ds @ junk) R"
    "\<not> mempoolUseHeap p \<Longrightarrow> n < length ds \<Longrightarrow>
       avail p' = avail p + (need (bufferOffset b + length ds) -
         (if n = 0 then 0 else need (bufferOffset b + n)))"
proof -
  note s = buf_state_size [OF st]
  consider (zero) "n = 0" | (same) "n = length ds" "0 < n" | (grow) "length ds < n"
    | (cut) "0 < n" "n < length ds" by linarith
  then show thesis
  proof cases
    case zero
    from gmosBufferDiscardContents_ok [OF st] obtain p' where r:
      "gmosBufferDiscardContents p b = Some (p', gmosBufferInit)" "pool_ok p' R"
      "same_on R p p'" "mempoolUseHeap p' = mempoolUseHeap p"
      "\<not> mempoolUseHeap p \<Longrightarrow> avail p' = avail p + need (bufferOffset b + length ds)" by blast
    have e: "gmosBufferResize p b n = Some (True, p', gmosBufferInit)"
      using zero r(1) by (simp add: gmosBufferResize_def)
    have "need (bufferOffset b + n) \<le> need (bufferOffset b + length ds)"
      using zero by (intro need_mono) simp
    moreover have "buf_state p' gmosBufferInit [] R" using buf_state_init [OF r(2)] .
    ultimately show thesis by (intro that [OF e r(3,4)]) (use zero r(5) in simp_all)
  next
    case same
    then have e: "gmosBufferResize p b n = Some (True, p, b)"
      using s by (simp add: gmosBufferResize_def)
    show thesis by (intro that [OF e]) (use st same in simp_all)
  next
    case grow
    from gmosBufferIncrSizeEnd_ok [OF st grow n] obtain ok p' b' where r:
      "gmosBufferIncrSizeEnd p b n = Some (ok, p', b')"
      "same_on R p p'" "mempoolUseHeap p' = mempoolUseHeap p"
      "ok \<longleftrightarrow> need (bufferOffset b + n) - need (bufferOffset b + length ds) \<le> avail p"
      "\<not> ok \<Longrightarrow> b' = b \<and> buf_state p' b ds R"
      "ok \<Longrightarrow> bufferOffset b' = bufferOffset b \<and>
        (\<exists>junk. length (ds @ junk) = n \<and> buf_state p' b' (ds @ junk) R)"
      "\<not> mempoolUseHeap p \<Longrightarrow> avail p' =
        (if ok then avail p - (need (bufferOffset b + n) - need (bufferOffset b + length ds))
         else avail p)" by blast
    have e: "gmosBufferResize p b n = Some (ok, p', b')"
      using r(1) grow s by (simp add: gmosBufferResize_def)
    have "ok \<Longrightarrow> \<exists>junk. length junk = n - length ds \<and> buf_state p' b' (take n ds @ junk) R"
      using r(6) grow by fastforce
    then show thesis by (intro that [OF e r(2-5)]) (use grow in simp_all)
  next
    case cut
    from gmosBufferDecrSizeEnd_ok [OF st cut] obtain p' b' where r:
      "gmosBufferDecrSizeEnd p b n = Some (p', b')"
      "buf_state p' b' (take n ds) R" "same_on R p p'" "mempoolUseHeap p' = mempoolUseHeap p"
      "\<not> mempoolUseHeap p \<Longrightarrow> avail p' =
         avail p + (need (bufferOffset b + length ds) - need (bufferOffset b + n))" by blast
    have e: "gmosBufferResize p b n = Some (True, p', b')"
      using r(1) cut s by (simp add: gmosBufferResize_def)
    have "need (bufferOffset b + n) \<le> need (bufferOffset b + length ds)"
      using cut by (intro need_mono) simp
    moreover have "\<exists>junk. length junk = n - length ds \<and> buf_state p' b' (take n ds @ junk) R"
      using r(2) cut by simp
    ultimately show thesis by (intro that [OF e r(3,4)]) (use cut r(5) in simp_all)
  qed
qed

lemma gmosBufferRebase_ok:
  assumes st: "buf_state p b ds R" and n: "n < 65536"
  obtains ok p' b' where "gmosBufferRebase p b n = Some (ok, p', b')"
    "same_on R p p'" "mempoolUseHeap p' = mempoolUseHeap p"
    "ok \<longleftrightarrow> need (n - length ds - bufferOffset b) \<le> avail p"
    "\<not> ok \<Longrightarrow> b' = b \<and> buf_state p' b ds R"
    "ok \<Longrightarrow> \<exists>junk. length junk = n - length ds \<and>
       buf_state p' b' (junk @ drop (length ds - n) ds) R"
    "\<not> mempoolUseHeap p \<Longrightarrow> n < length ds \<Longrightarrow>
       avail p' = avail p + (if n = 0 then need (bufferOffset b + length ds)
                             else (bufferOffset b + (length ds - n)) div SEG)"
proof -
  note s = buf_state_size [OF st]
  consider (zero) "n = 0" | (same) "n = length ds" "0 < n" | (grow) "length ds < n"
    | (cut) "0 < n" "n < length ds" by linarith
  then show thesis
  proof cases
    case zero
    from gmosBufferDiscardContents_ok [OF st] obtain p' where r:
      "gmosBufferDiscardContents p b = Some (p', gmosBufferInit)" "pool_ok p' R"
      "same_on R p p'" "mempoolUseHeap p' = mempoolUseHeap p"
      "\<not> mempoolUseHeap p \<Longrightarrow> avail p' = avail p + need (bufferOffset b + length ds)" by blast
    have e: "gmosBufferRebase p b n = Some (True, p', gmosBufferInit)"
      using zero r(1) by (simp add: gmosBufferRebase_def)
    have "buf_state p' gmosBufferInit [] R" using buf_state_init [OF r(2)] .
    then show thesis by (intro that [OF e r(3,4)]) (use zero r(5) in simp_all)
  next
    case same
    then have e: "gmosBufferRebase p b n = Some (True, p, b)"
      using s by (simp add: gmosBufferRebase_def)
    show thesis by (intro that [OF e]) (use st same in simp_all)
  next
    case grow
    from gmosBufferIncrSizeStart_ok [OF st grow n] obtain ok p' b' where r:
      "gmosBufferIncrSizeStart p b n = Some (ok, p', b')"
      "same_on R p p'" "mempoolUseHeap p' = mempoolUseHeap p"
      "ok \<longleftrightarrow> need (n - length ds - bufferOffset b) \<le> avail p"
      "\<not> ok \<Longrightarrow> b' = b \<and> buf_state p' b ds R"
      "ok \<Longrightarrow> \<exists>junk. length (junk @ ds) = n \<and> buf_state p' b' (junk @ ds) R"
      "\<not> mempoolUseHeap p \<Longrightarrow> avail p' =
        (if ok then avail p - need (n - length ds - bufferOffset b) else avail p)" by blast
    have e: "gmosBufferRebase p b n = Some (ok, p', b')"
      using r(1) grow s by (simp add: gmosBufferRebase_def)
    have "ok \<Longrightarrow> \<exists>junk. length junk = n - length ds \<and>
        buf_state p' b' (junk @ drop (length ds - n) ds) R"
      using r(6) grow by fastforce
    then show thesis by (intro that [OF e r(2-5)]) (use grow in simp_all)
  next
    case cut
    from gmosBufferDecrSizeStart_ok [OF st cut] obtain p' b' where r:
      "gmosBufferDecrSizeStart p b n = Some (p', b')"
      "buf_state p' b' (drop (length ds - n) ds) R" "same_on R p p'"
      "mempoolUseHeap p' = mempoolUseHeap p"
      "\<not> mempoolUseHeap p \<Longrightarrow>
         avail p' = avail p + (bufferOffset b + (length ds - n)) div SEG" by blast
    have e: "gmosBufferRebase p b n = Some (True, p', b')"
      using r(1) cut s by (simp add: gmosBufferRebase_def)
    have "\<exists>junk. length junk = n - length ds \<and>
        buf_state p' b' (junk @ drop (length ds - n) ds) R"
      using r(2) cut by simp
    then show thesis by (intro that [OF e r(3,4)]) (use cut r(5) in simp_all)
  qed
qed

subsection \<open>Appending and prepending\<close>

lemma splice_end [simp]: "length junk = length w \<Longrightarrow> splice (length ds) w (ds @ junk) = ds @ w"
  by (simp add: splice_def)

lemma splice_start [simp]: "length junk = length w \<Longrightarrow> splice 0 w (junk @ ds) = w @ ds"
  by (simp add: splice_def)

lemma Append_offset:
  "gmosBufferAppend p b w = Some (ok, p', b') \<Longrightarrow> bufferOffset b' = bufferOffset b"
  by (auto simp: gmosBufferAppend_def gmosBufferExtend_def gmosBufferIncrSizeEnd_def storeSegPtr_def
      Let_def split: Option.bind_splits if_splits option.splits)

lemma gmosBufferAppend_ok:
  assumes st: "buf_state p b ds R" and n: "length w < 65536"
  obtains ok p' b' where "gmosBufferAppend p b w = Some (ok, p', b')"
    "same_on R p p'" "mempoolUseHeap p' = mempoolUseHeap p"
    "ok \<longleftrightarrow> length ds + length w < 65536 \<and>
      need (bufferOffset b + length ds + length w) - need (bufferOffset b + length ds) \<le> avail p"
    "\<not> ok \<Longrightarrow> b' = b" "buf_state p' b' (if ok then ds @ w else ds) R"
    "\<not> mempoolUseHeap p \<Longrightarrow> avail p' =
      (if ok then avail p -
         (need (bufferOffset b + length ds + length w) - need (bufferOffset b + length ds))
       else avail p)"
proof -
  note s = buf_state_size [OF st]
  from gmosBufferExtend_ok [OF st n] obtain ok p1 b1 where r:
    "gmosBufferExtend p b (length w) = Some (ok, p1, b1)"
    "same_on R p p1" "mempoolUseHeap p1 = mempoolUseHeap p"
    "ok \<longleftrightarrow> length ds + length w < 65536 \<and>
      need (bufferOffset b + length ds + length w) - need (bufferOffset b + length ds) \<le> avail p"
    "\<not> ok \<Longrightarrow> b1 = b \<and> buf_state p1 b ds R"
    "ok \<Longrightarrow> bufferOffset b1 = bufferOffset b \<and>
      (\<exists>junk. length junk = length w \<and> buf_state p1 b1 (ds @ junk) R)"
    "\<not> mempoolUseHeap p \<Longrightarrow> avail p1 =
      (if ok then avail p -
         (need (bufferOffset b + length ds + length w) - need (bufferOffset b + length ds))
       else avail p)" by blast
  show thesis
  proof (cases ok)
    case False
    then have e: "gmosBufferAppend p b w = Some (ok, p1, b1)"
      using r(1) by (simp add: gmosBufferAppend_def Let_def)
    show thesis by (rule that [OF e r(2-4)]) (use False r(5,7) in simp_all)
  next
    case True
    from r(6) [OF True] obtain junk where j: "length junk = length w"
      "buf_state p1 b1 (ds @ junk) R" "bufferOffset b1 = bufferOffset b" by blast
    have "length ds + length w \<le> length (ds @ junk)" using j(1) by simp
    from copy_into_state [OF j(2) this] obtain p2 where c:
      "gmosBufferCopyToSegments p1 (segmentList b1) (bufferOffset b1 + length ds) w = Some p2"
      "buf_state p2 b1 (splice (length ds) w (ds @ junk)) R" "same_on R p1 p2"
      "avail p2 = avail p1" "mempoolUseHeap p2 = mempoolUseHeap p1" by blast
    have e: "gmosBufferAppend p b w = Some (ok, p2, b1)"
      using r(1) c(1) s True by (simp add: gmosBufferAppend_def Let_def)
    have c2: "buf_state p2 b1 (ds @ w) R" using c(2) j(1) by simp
    show thesis
      by (rule that [OF e same_on_trans [OF r(2) c(3)] _ r(4)])
         (use True r(3,7) c(4,5) c2 in simp_all)
  qed
qed

lemma gmosBufferPrepend_ok:
  assumes st: "buf_state p b ds R" and n: "length ds + length w < 65536"
  obtains ok p' b' where "gmosBufferPrepend p b w = Some (ok, p', b')"
    "same_on R p p'" "mempoolUseHeap p' = mempoolUseHeap p"
    "ok \<longleftrightarrow> need (length w - bufferOffset b) \<le> avail p"
    "\<not> ok \<Longrightarrow> b' = b" "buf_state p' b' (if ok then w @ ds else ds) R"
proof -
  note s = buf_state_size [OF st]
  from gmosBufferRebase_ok [OF st n] obtain ok p1 b1 where r:
    "gmosBufferRebase p b (length ds + length w) = Some (ok, p1, b1)"
    "same_on R p p1" "mempoolUseHeap p1 = mempoolUseHeap p"
    "ok \<longleftrightarrow> need (length ds + length w - length ds - bufferOffset b) \<le> avail p"
    "\<not> ok \<Longrightarrow> b1 = b \<and> buf_state p1 b ds R"
    "ok \<Longrightarrow> \<exists>junk. length junk = length ds + length w - length ds \<and>
       buf_state p1 b1 (junk @ drop (length ds - (length ds + length w)) ds) R"
    "\<not> mempoolUseHeap p \<Longrightarrow> length ds + length w < length ds \<Longrightarrow>
       avail p1 = avail p + (if length ds + length w = 0 then need (bufferOffset b + length ds)
         else (bufferOffset b + (length ds - (length ds + length w))) div SEG)" by blast
  show thesis
  proof (cases ok)
    case False
    then have e: "gmosBufferPrepend p b w = Some (ok, p1, b1)"
      using r(1) s n by (simp add: gmosBufferPrepend_def)
    show thesis by (rule that [OF e r(2,3)]) (use False r(4,5) in simp_all)
  next
    case True
    from r(6) [OF True] obtain junk where j: "length junk = length w"
      "buf_state p1 b1 (junk @ ds) R" by auto
    have "0 + length w \<le> length (junk @ ds)" using j(1) by simp
    from copy_into_state [OF j(2) this] obtain p2 where c:
      "gmosBufferCopyToSegments p1 (segmentList b1) (bufferOffset b1 + 0) w = Some p2"
      "buf_state p2 b1 (splice 0 w (junk @ ds)) R" "same_on R p1 p2"
      "mempoolUseHeap p2 = mempoolUseHeap p1" by blast
    have e: "gmosBufferPrepend p b w = Some (ok, p2, b1)"
      using r(1) c(1) s n True by (simp add: gmosBufferPrepend_def)
    have c2: "buf_state p2 b1 (w @ ds) R" using c(2) j(1) by simp
    show thesis
      by (rule that [OF e same_on_trans [OF r(2) c(3)]]) (use True r(3,4) c(4) c2 in simp_all)
  qed
qed

subsection \<open>Reset and segment lookup\<close>

lemma gmosBufferReset_ok:
  assumes st: "buf_state p b ds R" and n: "n < 65536"
  obtains ok p' b' where "gmosBufferReset p b n = Some (ok, p', b')"
    "same_on R p p'" "mempoolUseHeap p' = mempoolUseHeap p"
    "\<exists>ds'. buf_state p' b' ds' R \<and> length ds' = (if ok then n else 0)"
    "\<not> mempoolUseHeap p \<Longrightarrow>
      ok \<longleftrightarrow> need n \<le> avail p + need (bufferOffset b + length ds)"
proof -
  from gmosBufferDiscardContents_ok [OF st] obtain p1 where r:
    "gmosBufferDiscardContents p b = Some (p1, gmosBufferInit)" "pool_ok p1 R"
    "same_on R p p1" "mempoolUseHeap p1 = mempoolUseHeap p"
    "\<not> mempoolUseHeap p \<Longrightarrow> avail p1 = avail p + need (bufferOffset b + length ds)" by blast
  have b0: "buf_state p1 gmosBufferInit [] R" using buf_state_init [OF r(2)] .
  show thesis
  proof (cases "n = 0")
    case True
    then have e: "gmosBufferReset p b n = Some (True, p1, gmosBufferInit)"
      using r(1) by (simp add: gmosBufferReset_def)
    show thesis by (rule that [OF e r(3,4)]) (use True b0 in auto)
  next
    case False
    then have m: "Suc ((n - 1) div SEG) = need n" using need_code [of n] by simp
    have u: "u16 (need n) = need n" using need_bound [of n] n by simp
    show thesis
    proof (cases "need n \<le> avail p1")
      case False
      then have "avail p1 < need n" by simp
      from mp.alloc_none [OF r(2) this] obtain p2 where a:
        "gmosMempoolAllocSegments (need n) p1 = Some (None, p2)" "pool_ok p2 R"
        "same_on R p1 p2" "mempoolUseHeap p2 = mempoolUseHeap p1"
        unfolding same_on_def by auto
      have e: "gmosBufferReset p b n = Some (False, p2, gmosBufferInit)"
        using r(1) \<open>n \<noteq> 0\<close> m u a(1)
        by (simp add: gmosBufferReset_def gmosBufferInit_def)
      have b2: "buf_state p2 gmosBufferInit [] R" using buf_state_init [OF a(2)] .
      show thesis
        by (rule that [OF e same_on_trans [OF r(3) a(3)]]) (use r(4,5) a(4) False b2 in auto)
    next
      case True
      have n0: "0 < need n" using \<open>n \<noteq> 0\<close> by simp
      from mp.alloc_some [OF r(2) n0 True] obtain p2 h xs where a:
        "gmosMempoolAllocSegments (need n) p1 = Some (Some h, p2)"
        "llist (nextSegment p2) (Some h) xs" "length xs = need n" "set xs \<inter> R = {}"
        "pool_ok p2 (R \<union> set xs)" "same_on R p1 p2" "mempoolUseHeap p2 = mempoolUseHeap p1"
        unfolding same_on_def by metis
      let ?b = "gmosBufferInit\<lparr>segmentList := Some h, bufferSize := n\<rparr>"
      have e: "gmosBufferReset p b n = Some (True, p2, ?b)"
        using r(1) \<open>n \<noteq> 0\<close> m u a(1)
        by (simp add: gmosBufferReset_def gmosBufferInit_def)
      have ok: "pool_ok p2 (set xs \<union> R)" using a(5) by (simp add: Un_commute)
      let ?ds = "take n (flat p2 xs)"
      have len: "length ?ds = n" using pool_ok_segBytes [OF ok] a(3) need_le [of n] by simp
      then have "?ds \<noteq> []" using \<open>n \<noteq> 0\<close> by auto
      then have "buf_rep p2 ?b xs ?ds"
        using a(2,3) len n by (simp add: buf_rep_def gmosBufferInit_def)
      from buf_stateI [OF this a(4) ok] len
      have b2: "\<exists>ds'. buf_state p2 ?b ds' R \<and> length ds' = n" by blast
      show thesis
        by (rule that [OF e same_on_trans [OF r(3) a(6)]]) (use r(4,5) a(7) True b2 in auto)
    qed
  qed
qed

lemma getSegmentLoop_llist:
  "llist nx cur xs \<Longrightarrow> limit < bc + SEG * length xs \<Longrightarrow> bc \<le> limit + SEG \<Longrightarrow>
     getSegmentLoop nx limit bc cur = Some (ptr_at xs ((limit + SEG - bc) div SEG))"
proof (induction xs arbitrary: cur bc)
  case Nil
  then show ?case by (subst getSegmentLoop.simps) simp
next
  case (Cons x xs)
  then have [simp]: "cur = Some x" and l: "llist nx (nx x) xs" by auto
  show ?case
  proof (cases "bc \<le> limit")
    case True
    have "limit + SEG - bc = (limit + SEG - (bc + SEG)) + SEG" using True by simp
    then have d: "(limit + SEG - bc) div SEG = Suc ((limit + SEG - (bc + SEG)) div SEG)"
      by (metis SEG_pos div_add_self2 Suc_eq_plus1 less_numeral_extra(3))
    have "getSegmentLoop nx limit (bc + SEG) (nx x) =
        Some (ptr_at xs ((limit + SEG - (bc + SEG)) div SEG))"
      using Cons.prems(2) True by (intro Cons.IH [OF l]) auto
    then show ?thesis using True d by (subst getSegmentLoop.simps) simp
  next
    case False
    then have "(limit + SEG - bc) div SEG = 0" using Cons.prems(3) by simp
    then show ?thesis using False by (subst getSegmentLoop.simps) simp
  qed
qed

lemma gmosBufferGetSegment_rep:
  assumes "buf_rep p b xs ds"
  shows "gmosBufferGetSegment p b i =
    Some (if i < length ds then ptr_at xs ((bufferOffset b + i) div SEG) else None)"
proof -
  note r = buf_repD [OF assms]
  show ?thesis
  proof (cases "i < length ds")
    case True
    with r(7) have "bufferOffset b + i < SEG * length xs" by linarith
    then have "getSegmentLoop (nextSegment p) (bufferOffset b + i) SEG (segmentList b) =
        Some (ptr_at xs ((bufferOffset b + i + SEG - SEG) div SEG))"
      by (intro getSegmentLoop_llist [OF r(1)]) auto
    then show ?thesis using True r(2) by (simp add: gmosBufferGetSegment_def)
  next
    case False
    then show ?thesis using r(2) by (simp add: gmosBufferGetSegment_def)
  qed
qed

subsection \<open>Several buffers in one pool\<close>

fun bufs :: "mempool \<Rightarrow> (gmosBuffer \<times> byte list) list \<Rightarrow> nat set \<Rightarrow> bool" where
  "bufs p [] R = pool_ok p R"
| "bufs p ((b, ds) # r) R = (\<exists>xs. buf_rep p b xs ds \<and> set xs \<inter> R = {} \<and> bufs p r (set xs \<union> R))"

lemma bufs_1: "bufs p [(b, ds)] R \<longleftrightarrow> buf_state p b ds R"
  by (simp add: buf_state_def)

lemma bufs_swap: "bufs p (x # y # r) R \<Longrightarrow> bufs p (y # x # r) R"
proof -
  assume a: "bufs p (x # y # r) R"
  obtain b ds c es where x: "x = (b, ds)" and y: "y = (c, es)" by fastforce
  from a obtain xs ys where s: "buf_rep p b xs ds" "set xs \<inter> R = {}" "buf_rep p c ys es"
    "set ys \<inter> (set xs \<union> R) = {}" "bufs p r (set ys \<union> (set xs \<union> R))" unfolding x y by auto
  have "set ys \<union> (set xs \<union> R) = set xs \<union> (set ys \<union> R)" by blast
  with s have "set ys \<inter> R = {}" "set xs \<inter> (set ys \<union> R) = {}"
    "bufs p r (set xs \<union> (set ys \<union> R))" by auto
  with s(1,3) show ?thesis unfolding x y bufs.simps by blast
qed

lemma bufs_rotate: "bufs p (x # y # z # r) R \<Longrightarrow> bufs p (z # x # y # r) R"
proof -
  assume a: "bufs p (x # y # z # r) R"
  obtain b ds where x: "x = (b, ds)" by fastforce
  from a obtain xs where "buf_rep p b xs ds" "set xs \<inter> R = {}" "bufs p (y # z # r) (set xs \<union> R)"
    unfolding x by auto
  moreover from this(3) have "bufs p (z # y # r) (set xs \<union> R)" by (rule bufs_swap)
  ultimately have "bufs p (x # z # y # r) R" unfolding x by (metis bufs.simps(2))
  then show ?thesis by (rule bufs_swap)
qed

text \<open>An operation on one buffer keeps the others, which are part of what it must not touch.\<close>

lemma bufs_2D:
  assumes "bufs p [(a, da), (b, db)] R"
  obtains xs where "buf_rep p a xs da" "set xs \<inter> R = {}" "buf_state p b db (set xs \<union> R)"
  using assms by (auto simp: buf_state_def)

lemma bufs_2I:
  assumes "buf_rep p a xs da" "set xs \<inter> R = {}" "buf_state p' b db (set xs \<union> R)"
    and "same_on (set xs \<union> R) p p'"
  shows "bufs p' [(a, da), (b, db)] R"
proof -
  have "buf_rep p' a xs da" using buf_rep_same_on [OF assms(1,4)] by simp
  with assms(2,3) show ?thesis by (auto simp: bufs_1 [symmetric] simp del: bufs.simps(1))
qed

text \<open>The bytes of a buffer and its size are what its fields and the pool say.\<close>

lemma bufs_size: "bufs p ((b, ds) # r) R \<Longrightarrow> bufferSize b = length ds"
  by (auto simp: buf_rep_def)

subsection \<open>Moving\<close>

lemma gmosBufferMove_ok:
  assumes st: "bufs p [(a, da), (b, db)] R"
  obtains p' b' where "gmosBufferMove p a b = Some (p', gmosBufferInit, b')"
    "buf_state p' b' da R" "same_on R p p'" "mempoolUseHeap p' = mempoolUseHeap p"
    "segmentList b' = segmentList a" "bufferOffset b' = bufferOffset a"
proof -
  from bufs_2D [OF st] obtain xs where x: "buf_rep p a xs da" "set xs \<inter> R = {}"
    "buf_state p b db (set xs \<union> R)" .
  from gmosBufferDiscardContents_ok [OF x(3)] obtain p1 where r:
    "gmosBufferDiscardContents p b = Some (p1, gmosBufferInit)" "pool_ok p1 (set xs \<union> R)"
    "same_on (set xs \<union> R) p p1" "mempoolUseHeap p1 = mempoolUseHeap p" by blast
  let ?b = "gmosBufferInit\<lparr>segmentList := segmentList a, bufferSize := bufferSize a,
    bufferOffset := bufferOffset a\<rparr>"
  have rep: "buf_rep p1 a xs da" using buf_rep_same_on [OF x(1) r(3)] by simp
  then have "buf_rep p1 ?b xs da" by (simp add: buf_rep_def)
  from buf_stateI [OF this x(2) r(2)] have s: "buf_state p1 ?b da R" .
  have e: "gmosBufferMove p a b = Some (p1, gmosBufferInit, ?b)"
    using r(1) by (simp add: gmosBufferMove_def Let_def) (simp add: gmosBufferInit_def)
  show thesis
    by (rule that [OF e s _ r(4)]) (use same_on_mono [OF r(3)] in simp_all)
qed

subsection \<open>Copying\<close>

lemma copySegmentsLoop_llist:
  "llist (nextSegment p) src xs \<Longrightarrow> llist (nextSegment p) tgt ys \<Longrightarrow> set xs \<inter> set ys = {} \<Longrightarrow>
   \<forall>a. length (segBytes p a) = SEG \<Longrightarrow>
     \<exists>p'. copySegmentsLoop p src tgt = Some p' \<and> only_bytes (set ys) p p' \<and>
       (let j = min (length xs) (length ys) in flat p' (take j ys) = flat p (take j xs))"
proof (induction xs arbitrary: p src tgt ys)
  case Nil
  then show ?case by (auto simp: copySegmentsLoop.simps only_bytes_refl)
next
  case (Cons x xs)
  then have [simp]: "src = Some x" and lx: "llist (nextSegment p) (nextSegment p x) xs" by auto
  show ?case
  proof (cases ys)
    case Nil
    with Cons.prems(2,4) show ?thesis by (auto simp: copySegmentsLoop.simps only_bytes_refl)
  next
    case (Cons y zs)
    with Cons.prems(2) have [simp]: "tgt = Some y"
      and ly: "llist (nextSegment p) (nextSegment p y) zs" by auto
    let ?p1 = "writeSeg y 0 (take SEG (segBytes p x)) p"
    have y: "y \<notin> set xs" "y \<noteq> x" "set xs \<inter> set zs = {}" using Cons.prems(3) Cons by auto
    have yz: "y \<notin> set zs" using llist_head_notin [OF ly] .
    have w: "segBytes ?p1 y = segBytes p x" using Cons.prems(4) by (simp add: splice_def)
    have b1: "\<forall>a. length (segBytes ?p1 a) = SEG" using Cons.prems(4) w by simp
    obtain p' where r: "copySegmentsLoop ?p1 (nextSegment p x) (nextSegment p y) = Some p'"
      "only_bytes (set zs) ?p1 p'"
      "let j = min (length xs) (length zs) in flat p' (take j zs) = flat ?p1 (take j xs)"
      using Cons.IH [of ?p1 "nextSegment p x" "nextSegment p y" zs] lx ly y(3) b1 by auto
    have "copySegmentsLoop p src tgt = Some p'"
      using r(1) by (simp add: copySegmentsLoop.simps [of p "Some x"])
    moreover have "only_bytes (set ys) p p'"
      using only_bytes_step [OF only_bytes_mono [OF r(2), of "set ys"]] Cons by auto
    moreover have "let j = min (length (x # xs)) (length ys)
        in flat p' (take j ys) = flat p (take j (x # xs))"
    proof -
      define k where "k = min (length xs) (length zs)"
      have "flat ?p1 (take k xs) = flat p (take k xs)"
        using y(1) by (intro flat_cong) (auto dest: in_set_takeD)
      then have "flat p' (take k zs) = flat p (take k xs)"
        using r(3) unfolding k_def Let_def by simp
      moreover have "segBytes p' y = segBytes p x" using only_bytesD(3) [OF r(2) yz] w by simp
      moreover have "min (length (x # xs)) (length ys) = Suc k" unfolding Cons k_def by simp
      ultimately show ?thesis unfolding Cons Let_def by simp
    qed
    ultimately show ?thesis by blast
  qed
qed

lemma take_flat_take:
  assumes "\<forall>a. length (segBytes p a) = SEG" "off + n \<le> SEG * j" "j \<le> length xs"
  shows "take n (drop off (flat p xs)) = take n (drop off (flat p (take j xs)))"
proof -
  have "flat p xs = flat p (take j xs) @ flat p (drop j xs)" by (simp flip: flat_simps(3))
  moreover have "length (flat p (take j xs)) = SEG * j" using assms(1,3) by simp
  ultimately show ?thesis using assms(2) by simp
qed

lemma sub_take_drop:
  assumes "take (length ds) (drop off F) = ds" "i + n \<le> length ds"
  shows "take n (drop (off + i) F) = take n (drop i ds)"
proof -
  have "take n (drop i (take (length ds) (drop off F))) = take n (drop (off + i) F)"
    using assms(2) by (simp add: drop_take add.commute)
  then show ?thesis using assms(1) by simp
qed

lemma div_mod_room: "off = SEG * k + (o' :: nat) \<Longrightarrow> off + n \<le> SEG * l \<Longrightarrow> o' + n \<le> SEG * (l - k)"
  by (simp add: diff_mult_distrib2)

text \<open>
  A buffer that may own more segments than its bytes need, which is what a copied section is.
\<close>

definition buf_view :: "mempool \<Rightarrow> gmosBuffer \<Rightarrow> nat list \<Rightarrow> byte list \<Rightarrow> bool" where
  "buf_view p b xs ds \<longleftrightarrow>
     llist (nextSegment p) (segmentList b) xs \<and> bufferSize b = length ds \<and>
     bufferOffset b < SEG \<and> bufferOffset b + length ds \<le> SEG * length xs \<and>
     take (length ds) (drop (bufferOffset b) (flat p xs)) = ds"

lemma buf_rep_view: "buf_rep p b xs ds \<Longrightarrow> buf_view p b xs ds"
  using buf_repD by (simp add: buf_view_def)

lemma buf_view_read:
  assumes "buf_view p b xs ds" "pool_ok p own"
  shows "gmosBufferRead p b i n =
    Some (if i + n \<le> length ds then Some (take n (drop i ds)) else None)"
proof (cases "i + n \<le> length ds")
  case True
  note v = assms(1) [unfolded buf_view_def]
  have "gmosBufferCopyFromSegments p (segmentList b) (bufferOffset b + i) n =
      Some (take n (drop (bufferOffset b + i) (flat p xs)))"
    using v True pool_ok_segBytes [OF assms(2)] by (intro CopyFrom_llist) auto
  moreover have "take n (drop i ds) = take n (drop (bufferOffset b + i) (flat p xs))"
    using v sub_take_drop [OF _ True] by simp
  ultimately show ?thesis using v True by (simp add: gmosBufferRead_def)
next
  case False
  then show ?thesis using assms(1) by (simp add: gmosBufferRead_def buf_view_def)
qed

lemma gmosBufferCopyCommon_ok:
  assumes st: "bufs p [(a, da), (b, db)] R" and n: "co + n \<le> length da"
  obtains ok p' b' where "gmosBufferCopyCommon p a b co n = Some (ok, p', b')"
    "same_on R p p'"
    "\<not> mempoolUseHeap p \<Longrightarrow> ok \<longleftrightarrow> n = 0 \<or>
      need (bufferOffset a + co + n) \<le> avail p + need (bufferOffset b + length db)"
    "\<not> ok \<Longrightarrow> bufs p' [(a, da), (b', [])] R"
    "ok \<Longrightarrow> \<exists>xs ys. buf_rep p' a xs da \<and> set xs \<inter> R = {} \<and>
       buf_view p' b' ys (take n (drop co da)) \<and> set ys \<inter> (set xs \<union> R) = {} \<and>
       pool_ok p' (set ys \<union> (set xs \<union> R)) \<and>
       (n \<noteq> 0 \<longrightarrow> length ys = need (bufferOffset a + co + n) \<and>
                  bufferOffset b' = (bufferOffset a + co) mod SEG)"
    "n = 0 \<Longrightarrow> b' = gmosBufferInit"
proof -
  from bufs_2D [OF st] obtain xs where x: "buf_rep p a xs da" "set xs \<inter> R = {}"
    "buf_state p b db (set xs \<union> R)" .
  from gmosBufferDiscardContents_ok [OF x(3)] obtain p1 where r:
    "gmosBufferDiscardContents p b = Some (p1, gmosBufferInit)" "pool_ok p1 (set xs \<union> R)"
    "same_on (set xs \<union> R) p p1" "mempoolUseHeap p1 = mempoolUseHeap p"
    "\<not> mempoolUseHeap p \<Longrightarrow> avail p1 = avail p + need (bufferOffset b + length db)" by blast
  have rep1: "buf_rep p1 a xs da" using buf_rep_same_on [OF x(1) r(3)] by simp
  have R1: "same_on R p p1" using same_on_mono [OF r(3)] by simp
  let ?off = "bufferOffset a"
  show thesis
  proof (cases "n = 0")
    case True
    then have e: "gmosBufferCopyCommon p a b co n = Some (True, p1, gmosBufferInit)"
      using r(1) by (simp add: gmosBufferCopyCommon_def)
    have "buf_view p1 gmosBufferInit [] []" by (simp add: buf_view_def gmosBufferInit_def)
    then have "\<exists>xs ys. buf_rep p1 a xs da \<and> set xs \<inter> R = {} \<and>
       buf_view p1 gmosBufferInit ys (take n (drop co da)) \<and> set ys \<inter> (set xs \<union> R) = {} \<and>
       pool_ok p1 (set ys \<union> (set xs \<union> R)) \<and>
       (n \<noteq> 0 \<longrightarrow> length ys = need (?off + co + n) \<and>
                  bufferOffset gmosBufferInit = (?off + co) mod SEG)"
      using rep1 x(2) r(2) True by (intro exI [of _ xs] exI [of _ "[]"]) simp
    then show thesis by (intro that [OF e R1]) (use True in simp_all)
  next
    case False
    define m where "m = need (?off + co + n)"
    note ra = buf_repD [OF rep1]
    have m: "Suc ((?off + co + n - Suc 0) div SEG) = m" "0 < m" "u16 m = m"
      using need_code [of "?off + co + n"] need_bound [of "?off + co + n"] False n ra(3,4)
      by (auto simp: m_def GMOS_CONFIG_MEMPOOL_SEGMENT_SIZE_def)
    note code = gmosBufferCopyCommon_def r(1) m(1,3) False Let_def
    show thesis
    proof (cases "m \<le> avail p1")
      case False
      from mp.alloc_none [OF r(2), of m] False obtain p2 where q:
        "gmosMempoolAllocSegments m p1 = Some (None, p2)" "pool_ok p2 (set xs \<union> R)"
        "same_on (set xs \<union> R) p1 p2" unfolding same_on_def by auto
      have e: "gmosBufferCopyCommon p a b co n = Some (False, p2, gmosBufferInit)"
        using q(1) by (simp add: code)
      have "bufs p2 [(a, da), (gmosBufferInit, [])] R"
        using bufs_2I [OF rep1 x(2) buf_state_init [OF q(2)] q(3)] .
      then show thesis
        by (intro that [OF e same_on_trans [OF R1 same_on_mono [OF q(3)]]])
           (use False \<open>n \<noteq> 0\<close> r(5) m_def in auto)
    next
      case True
      from mp.alloc_some [OF r(2) m(2) True] obtain p2 h ys where q:
        "gmosMempoolAllocSegments m p1 = Some (Some h, p2)" "llist (nextSegment p2) (Some h) ys"
        "length ys = m" "set ys \<inter> (set xs \<union> R) = {}" "pool_ok p2 (set xs \<union> R \<union> set ys)"
        "same_on (set xs \<union> R) p1 p2" unfolding same_on_def by metis
      have rep2: "buf_rep p2 a xs da" using buf_rep_same_on [OF rep1 q(6)] by simp
      note rb = buf_repD [OF rep2]
      have by2: "\<forall>s. length (segBytes p2 s) = SEG" using pool_ok_segBytes [OF q(5)] by simp
      let ?k = "(?off + co) div SEG" and ?o = "(?off + co) mod SEG"
      have le: "?off + co \<le> SEG * length xs" "?off + co = SEG * ?k + ?o" using n rb(7) by auto
      note sk = skipSegments_llist [OF rb(1) le(1)]
      have k: "?k \<le> length xs" using flat_div_mod(3) [OF by2 le(1)] .
      have ls: "llist (nextSegment p2) (ptr_at xs ?k) (drop ?k xs)" using llist_drop [OF rb(1) k] .
      have "set (drop ?k xs) \<inter> set ys = {}" using q(4) by (auto dest: in_set_dropD)
      from copySegmentsLoop_llist [OF ls q(2) this by2] obtain p3 where c:
        "copySegmentsLoop p2 (ptr_at xs ?k) (Some h) = Some p3" "only_bytes (set ys) p2 p3"
        "let j = min (length (drop ?k xs)) (length ys)
         in flat p3 (take j ys) = flat p2 (take j (drop ?k xs))" by blast
      define j where "j = min (length (drop ?k xs)) (length ys)"
      note o3 = only_bytesD [OF c(2)]
      let ?b = "gmosBufferInit\<lparr>segmentList := Some h, bufferSize := n, bufferOffset := ?o\<rparr>"
      have "u16 ?o = ?o"
        using mod_less_divisor [OF SEG_pos, of "?off + co"]
        by (auto simp: GMOS_CONFIG_MEMPOOL_SEGMENT_SIZE_def)
      then have e: "gmosBufferCopyCommon p a b co n = Some (True, p3, ?b)"
        using q(1) sk c(1) by (simp add: code)
      have "?o + n \<le> SEG * (length xs - ?k)"
        using n rb(7) by (intro div_mod_room [OF le(2)]) simp
      moreover have om: "?o + n \<le> SEG * m" using need_le [of "?off + co + n", folded m_def]
        mod_less_eq_dividend [of "?off + co" SEG] by linarith
      ultimately have jl: "?o + n \<le> SEG * j" using q(3) by (simp add: j_def min_def)
      have "take n (drop ?o (flat p3 ys)) = take n (drop ?o (flat p3 (take j ys)))"
        by (rule take_flat_take [OF o3(2) jl]) (simp add: j_def)
      also have "\<dots> = take n (drop ?o (flat p2 (take j (drop ?k xs))))"
        using c(3) by (simp add: j_def Let_def)
      also have "\<dots> = take n (drop ?o (flat p2 (drop ?k xs)))"
        by (rule take_flat_take [OF by2 jl, symmetric]) (simp add: j_def)
      also have "drop ?o (flat p2 (drop ?k xs)) = drop (?off + co) (flat p2 xs)"
        using flat_div_mod(2) [OF by2 le(1)] by (subst flat_div_mod(1) [OF by2 le(1)]) simp
      also have "take n (drop (?off + co) (flat p2 xs)) = take n (drop co da)"
        using sub_take_drop [OF rb(6) n] by simp
      finally have t: "take n (drop ?o (flat p3 ys)) = take n (drop co da)" .
      have ln: "length (take n (drop co da)) = n" using n by simp
      have view: "buf_view p3 ?b ys (take n (drop co da))"
        unfolding buf_view_def ln using q(2,3) o3(1) t om by simp
      have d: "set ys \<inter> (set xs \<union> R) = {}" by (rule q(4))
      have s3: "same_on (set xs \<union> R) p2 p3" using o3(7) [OF d] .
      have rep3: "buf_rep p3 a xs da" using buf_rep_same_on [OF rep2 s3] by simp
      have ok3: "pool_ok p3 (set ys \<union> (set xs \<union> R))"
        using o3(6) [OF q(5)] by (simp add: Un_ac)
      have cnt: "n \<noteq> 0 \<longrightarrow> length ys = need (?off + co + n) \<and> bufferOffset ?b = ?o"
        using q(3) m_def by simp
      have fin: "\<exists>xs ys. buf_rep p3 a xs da \<and> set xs \<inter> R = {} \<and>
         buf_view p3 ?b ys (take n (drop co da)) \<and> set ys \<inter> (set xs \<union> R) = {} \<and>
         pool_ok p3 (set ys \<union> (set xs \<union> R)) \<and>
         (n \<noteq> 0 \<longrightarrow> length ys = need (?off + co + n) \<and> bufferOffset ?b = (?off + co) mod SEG)"
        by (rule exI [of _ xs], rule exI [of _ ys]) (intro conjI rep3 x(2) view d ok3 cnt)
      have s: "same_on R p p3"
        by (rule same_on_trans [OF R1 same_on_trans [OF same_on_mono [OF q(6)]
              same_on_mono [OF s3]]]) simp_all
      show thesis
        by (rule that [OF e s]) (use True \<open>n \<noteq> 0\<close> r(5) m_def fin in simp_all)
    qed
  qed
qed

lemma buf_rep_Nil: "buf_rep p b xs [] \<longleftrightarrow> b = gmosBufferInit \<and> xs = []"
  by (cases b) (auto simp: buf_rep_def gmosBufferInit_def)

lemma bufs_Nil [simp]: "bufs p ((b, []) # r) R \<longleftrightarrow> b = gmosBufferInit \<and> bufs p r R"
  by (auto simp: buf_rep_Nil)

lemma gmosBufferInit_fields [simp]:
  "segmentList gmosBufferInit = None" "bufferSize gmosBufferInit = 0"
  "bufferOffset gmosBufferInit = 0"
  by (simp_all add: gmosBufferInit_def)

lemma gmosBufferCopy_ok:
  assumes st: "bufs p [(a, da), (b, db)] R"
  obtains ok p' b' where "gmosBufferCopy p a b = Some (ok, p', b')"
    "same_on R p p'" "bufs p' [(a, da), (b', if ok then da else [])] R"
    "\<not> mempoolUseHeap p \<Longrightarrow> ok \<longleftrightarrow>
      need (bufferOffset a + length da) \<le> avail p + need (bufferOffset b + length db)"
proof -
  have s: "bufferSize a = length da" using bufs_size [OF st] .
  have "0 + length da \<le> length da" by simp
  from gmosBufferCopyCommon_ok [OF st this] obtain ok p' b' where r:
    "gmosBufferCopyCommon p a b 0 (length da) = Some (ok, p', b')" "same_on R p p'"
    "\<not> mempoolUseHeap p \<Longrightarrow> ok \<longleftrightarrow> length da = 0 \<or>
      need (bufferOffset a + 0 + length da) \<le> avail p + need (bufferOffset b + length db)"
    "\<not> ok \<Longrightarrow> bufs p' [(a, da), (b', [])] R"
    "ok \<Longrightarrow> \<exists>xs ys. buf_rep p' a xs da \<and> set xs \<inter> R = {} \<and>
       buf_view p' b' ys (take (length da) (drop 0 da)) \<and> set ys \<inter> (set xs \<union> R) = {} \<and>
       pool_ok p' (set ys \<union> (set xs \<union> R)) \<and>
       (length da \<noteq> 0 \<longrightarrow> length ys = need (bufferOffset a + 0 + length da) \<and>
                  bufferOffset b' = (bufferOffset a + 0) mod SEG)"
    "length da = 0 \<Longrightarrow> b' = gmosBufferInit" by blast
  have e: "gmosBufferCopy p a b = Some (ok, p', b')"
    using r(1) s by (simp add: gmosBufferCopy_def)
  have "bufs p' [(a, da), (b', if ok then da else [])] R"
  proof (cases ok)
    case True
    from r(5) [OF True] obtain xs ys where f: "buf_rep p' a xs da" "set xs \<inter> R = {}"
      "buf_view p' b' ys da" "set ys \<inter> (set xs \<union> R) = {}" "pool_ok p' (set ys \<union> (set xs \<union> R))"
      "da \<noteq> [] \<Longrightarrow> length ys = need (bufferOffset a + length da) \<and>
                  bufferOffset b' = bufferOffset a mod SEG" by auto
    note ra = buf_repD [OF f(1)]
    have "buf_rep p' b' ys da"
    proof (cases "da = []")
      case True
      with r(6) have "b' = gmosBufferInit" by simp
      with f(3) True show ?thesis by (simp add: buf_view_def buf_rep_def gmosBufferInit_def)
    next
      case False
      with f(3,6) ra(3,4) show ?thesis by (simp add: buf_view_def buf_rep_def)
    qed
    from buf_stateI [OF this f(4,5)] bufs_2I [OF f(1,2) _ same_on_refl] True
    show ?thesis by simp
  qed (use r(4) in simp)
  moreover have "ok \<longleftrightarrow>
      need (bufferOffset a + length da) \<le> avail p + need (bufferOffset b + length db)"
    if "\<not> mempoolUseHeap p"
  proof (cases "da = []")
    case True
    with st have "bufs p [(a, []), (b, db)] R" by (simp only:)
    then have "a = gmosBufferInit" by (simp only: bufs_Nil)
    with True r(3) [OF that] show ?thesis by (simp add: gmosBufferInit_def)
  qed (use r(3) [OF that] in simp)
  ultimately show thesis using that [OF e r(2)] by blast
qed

subsection \<open>Concatenating\<close>

lemma need_add: "need (m + n) \<le> need m + need n"
  using need_mono [of "m + n" "0 + SEG * (need m + need n)"] need_le [of m] need_le [of n]
  unfolding need_shift by (simp add: distrib_left)

lemma ConcatenateIntoA_ok:
  assumes "\<not> mempoolUseHeap p" "length da + length db < 65536" "bufs p [(a, da), (b, db)] R"
  shows "\<exists>p' a'. gmosBufferConcatenateIntoA p a b = Some (p', a', gmosBufferInit) \<and>
    buf_state p' a' (da @ db) R \<and> same_on R p p' \<and> \<not> mempoolUseHeap p'"
  using assms
proof (induction "length db" arbitrary: p a b da db rule: less_induct)
  case less
  note heap = less.prems(1) and len = less.prems(2) and st = less.prems(3)
  from bufs_2D [OF st] obtain xs where x: "buf_rep p a xs da" "set xs \<inter> R = {}"
    "buf_state p b db (set xs \<union> R)" .
  note s = buf_state_size [OF x(3)]
  show ?case
  proof (cases "db = []")
    case True
    then have "gmosBufferConcatenateIntoA p a b = Some (p, a, b)"
      using s by (subst gmosBufferConcatenateIntoA.simps) simp
    moreover have "bufs p [(b, []), (a, da)] R" using bufs_swap [OF st] True by simp
    then have "b = gmosBufferInit" "buf_state p a da R"
      by (simp_all only: bufs_Nil bufs_1)
    ultimately show ?thesis using heap True by simp
  next
    case False
    define c where "c = min (2 * SEG) (length db)"
    have c: "0 < c" "c \<le> length db" "length db - c < 65536"
      using False len by (auto simp: c_def)
    have rd: "gmosBufferRead p b 0 c = Some (Some (take c db))"
      using gmosBufferRead_ok [OF x(3), of 0 c] c by simp
    from gmosBufferRebase_ok [OF x(3) c(3)] obtain ok p1 b1 where r:
      "gmosBufferRebase p b (length db - c) = Some (ok, p1, b1)"
      "same_on (set xs \<union> R) p p1" "mempoolUseHeap p1 = mempoolUseHeap p"
      "ok \<longleftrightarrow> need (length db - c - length db - bufferOffset b) \<le> avail p"
      "\<not> ok \<Longrightarrow> b1 = b \<and> buf_state p1 b db (set xs \<union> R)"
      "ok \<Longrightarrow> \<exists>junk. length junk = length db - c - length db \<and>
         buf_state p1 b1 (junk @ drop (length db - (length db - c)) db) (set xs \<union> R)"
      "\<not> mempoolUseHeap p \<Longrightarrow> length db - c < length db \<Longrightarrow> avail p1 = avail p +
         (if length db - c = 0 then need (bufferOffset b + length db)
          else (bufferOffset b + (length db - (length db - c))) div SEG)" by blast
    have ok: ok using r(4) by simp
    have lt: "length db - c < length db" using c by simp
    have st1: "buf_state p1 b1 (drop c db) (set xs \<union> R)" using r(6) [OF ok] c by simp
    have room: "need c \<le> avail p1"
    proof (cases "length db = c")
      case True
      have "need c \<le> need (bufferOffset b + length db)" using True by (intro need_mono) simp
      then show ?thesis using r(7) [OF heap lt] True by simp
    next
      case False
      then have "c = 2 * SEG" "c < length db" using c by (auto simp: c_def)
      moreover have "need (2 * SEG) = 2" using need_shift [of 0 2] by (simp add: mult.commute)
      ultimately show ?thesis using r(7) [OF heap lt] by simp
    qed
    have "bufs p1 [(b1, drop c db), (a, da)] R"
      using bufs_swap [OF bufs_2I [OF x(1,2) st1 r(2)]] .
    from bufs_2D [OF this] obtain ys where y: "buf_rep p1 b1 ys (drop c db)" "set ys \<inter> R = {}"
      "buf_state p1 a da (set ys \<union> R)" .
    have "length (take c db) < 65536" using c len by simp
    from gmosBufferAppend_ok [OF y(3) this] obtain ok2 p2 a2 where q:
      "gmosBufferAppend p1 a (take c db) = Some (ok2, p2, a2)" "same_on (set ys \<union> R) p1 p2"
      "mempoolUseHeap p2 = mempoolUseHeap p1"
      "ok2 \<longleftrightarrow> length da + length (take c db) < 65536 \<and>
        need (bufferOffset a + length da + length (take c db)) -
          need (bufferOffset a + length da) \<le> avail p1"
      "buf_state p2 a2 (if ok2 then da @ take c db else da) (set ys \<union> R)" by metis
    have "need (bufferOffset a + length da + c) \<le> need (bufferOffset a + length da) + need c"
      by (rule need_add)
    then have ok2: ok2 using q(4) room c len by simp
    have "bufs p2 [(a2, da @ take c db), (b1, drop c db)] R"
      using bufs_swap [OF bufs_2I [OF y(1,2) q(5,2)]] ok2 by simp
    moreover have "\<not> mempoolUseHeap p2" using heap r(3) q(3) by simp
    moreover have "length (drop c db) < length db" using c by simp
    moreover have "length (da @ take c db) + length (drop c db) < 65536" using len c by simp
    ultimately obtain p' a' where f:
      "gmosBufferConcatenateIntoA p2 a2 b1 = Some (p', a', gmosBufferInit)"
      "buf_state p' a' ((da @ take c db) @ drop c db) R" "same_on R p2 p'" "\<not> mempoolUseHeap p'"
      using less.hyps by blast
    have "gmosBufferConcatenateIntoA p a b = Some (p', a', gmosBufferInit)"
      using False s rd r(1) q(1) f(1) c_def
      by (subst gmosBufferConcatenateIntoA.simps) (simp add: Let_def)
    moreover have "same_on R p p'"
      by (rule same_on_trans [OF same_on_mono [OF r(2)] same_on_trans [OF same_on_mono [OF q(2)] f(3)]])
         simp_all
    ultimately show ?thesis using f(2,4) by simp
  qed
qed

lemma ConcatenateIntoB_ok:
  assumes "\<not> mempoolUseHeap p" "length da + length db < 65536" "bufs p [(a, da), (b, db)] R"
  shows "\<exists>p' b'. gmosBufferConcatenateIntoB p a b = Some (p', gmosBufferInit, b') \<and>
    buf_state p' b' (da @ db) R \<and> same_on R p p' \<and> \<not> mempoolUseHeap p'"
  using assms
proof (induction "length da" arbitrary: p a b da db rule: less_induct)
  case less
  note heap = less.prems(1) and len = less.prems(2) and st = less.prems(3)
  from bufs_2D [OF bufs_swap [OF st]] obtain xs where x: "buf_rep p b xs db" "set xs \<inter> R = {}"
    "buf_state p a da (set xs \<union> R)" .
  note s = buf_state_size [OF x(3)]
  show ?case
  proof (cases "da = []")
    case True
    then have "gmosBufferConcatenateIntoB p a b = Some (p, a, b)"
      using s by (subst gmosBufferConcatenateIntoB.simps) simp
    moreover have "bufs p [(a, []), (b, db)] R" using st True by (simp only:)
    then have "a = gmosBufferInit" "buf_state p b db R"
      by (simp_all only: bufs_Nil bufs_1)
    ultimately show ?thesis using heap True by simp
  next
    case False
    define c where "c = min (2 * SEG) (length da)"
    define k where "k = length da - c"
    have c: "0 < c" "c \<le> length da" "k < 65536" "k + c = length da" "k < length da"
      using False len by (auto simp: c_def k_def)
    have rd: "gmosBufferRead p a k c = Some (Some (drop k da))"
      using gmosBufferRead_ok [OF x(3), of k c] c by simp
    from gmosBufferResize_ok [OF x(3) c(3)] obtain ok p1 a1 where r:
      "gmosBufferResize p a k = Some (ok, p1, a1)"
      "same_on (set xs \<union> R) p p1" "mempoolUseHeap p1 = mempoolUseHeap p"
      "ok \<longleftrightarrow> need (bufferOffset a + k) - need (bufferOffset a + length da) \<le> avail p"
      "\<not> ok \<Longrightarrow> a1 = a \<and> buf_state p1 a da (set xs \<union> R)"
      "ok \<Longrightarrow> \<exists>junk. length junk = k - length da \<and>
         buf_state p1 a1 (take k da @ junk) (set xs \<union> R)"
      "\<not> mempoolUseHeap p \<Longrightarrow> k < length da \<Longrightarrow> avail p1 = avail p +
         (need (bufferOffset a + length da) - (if k = 0 then 0 else need (bufferOffset a + k)))"
      by blast
    have "need (bufferOffset a + k) \<le> need (bufferOffset a + length da)"
      using c by (intro need_mono) simp
    then have ok: ok using r(4) by simp
    have st1: "buf_state p1 a1 (take k da) (set xs \<union> R)" using r(6) [OF ok] c by simp
    have room: "need c \<le> avail p1"
    proof (cases "k = 0")
      case True
      have "need c \<le> need (bufferOffset a + length da)" using c by (intro need_mono) simp
      then show ?thesis using r(7) [OF heap c(5)] True by simp
    next
      case False
      then have c2: "c = SEG * 2" using c by (auto simp: c_def k_def)
      then have "bufferOffset a + length da = bufferOffset a + k + SEG * 2" using c by simp
      then have "need (bufferOffset a + length da) = need (bufferOffset a + k) + 2"
        by (simp only: need_shift)
      moreover have "need (SEG * 2) = 2" using need_shift [of 0 2] by simp
      ultimately show ?thesis using r(7) [OF heap c(5)] c2 by simp
    qed
    have "bufs p1 [(a1, take k da), (b, db)] R"
      using bufs_swap [OF bufs_2I [OF x(1,2) st1 r(2)]] .
    from bufs_2D [OF this] obtain ys where y: "buf_rep p1 a1 ys (take k da)" "set ys \<inter> R = {}"
      "buf_state p1 b db (set ys \<union> R)" .
    have lw: "length (drop k da) = c" using c by simp
    have "length db + length (drop k da) < 65536" using c len lw by simp
    from gmosBufferPrepend_ok [OF y(3) this] obtain ok2 p2 b2 where q:
      "gmosBufferPrepend p1 b (drop k da) = Some (ok2, p2, b2)" "same_on (set ys \<union> R) p1 p2"
      "mempoolUseHeap p2 = mempoolUseHeap p1"
      "ok2 \<longleftrightarrow> need (length (drop k da) - bufferOffset b) \<le> avail p1"
      "buf_state p2 b2 (if ok2 then drop k da @ db else db) (set ys \<union> R)" by metis
    have "need (c - bufferOffset b) \<le> need c" by (intro need_mono) simp
    then have ok2: ok2 using q(4) [unfolded lw] room by simp
    have "bufs p2 [(a1, take k da), (b2, drop k da @ db)] R"
      using bufs_2I [OF y(1,2) q(5,2)] ok2 by simp
    moreover have "\<not> mempoolUseHeap p2" using heap r(3) q(3) by simp
    moreover have "length (take k da) < length da" using c by simp
    moreover have "length (take k da) + length (drop k da @ db) < 65536" using len c by simp
    ultimately obtain p' b' where f:
      "gmosBufferConcatenateIntoB p2 a1 b2 = Some (p', gmosBufferInit, b')"
      "buf_state p' b' (take k da @ drop k da @ db) R" "same_on R p2 p'" "\<not> mempoolUseHeap p'"
      using less.hyps by blast
    have "gmosBufferConcatenateIntoB p a b = Some (p', gmosBufferInit, b')"
      using False s rd r(1) q(1) f(1) unfolding k_def c_def
      by (subst gmosBufferConcatenateIntoB.simps) (simp add: Let_def)
    moreover have "same_on R p p'"
      by (rule same_on_trans [OF same_on_mono [OF r(2)] same_on_trans [OF same_on_mono [OF q(2)] f(3)]])
         simp_all
    ultimately show ?thesis using f(2,4) by (simp flip: append_assoc)
  qed
qed

text \<open>
  The whole function, for the three places the destination can be. \<open>concatResult\<close> is the
  contents of the buffers afterwards: the sources are emptied into the destination.
\<close>

definition concatState ::
    "mempool \<Rightarrow> gmosBuffer \<Rightarrow> byte list \<Rightarrow> gmosBuffer \<Rightarrow> byte list \<Rightarrow> concatDest \<Rightarrow> byte list \<Rightarrow>
     nat set \<Rightarrow> bool" where
  "concatState p a da b db dest dd R =
     (case dest of
        DestOther d \<Rightarrow> bufs p [(d, dd), (a, da), (b, db)] R
      | _ \<Rightarrow> bufs p [(a, da), (b, db)] R)"

definition concatResult ::
    "mempool \<Rightarrow> gmosBuffer \<Rightarrow> gmosBuffer \<Rightarrow> concatDest \<Rightarrow> byte list \<Rightarrow> nat set \<Rightarrow> bool" where
  "concatResult p a b dest ds R =
     (case dest of
        DestA \<Rightarrow> bufs p [(a, ds), (b, [])] R
      | DestB \<Rightarrow> bufs p [(a, []), (b, ds)] R
      | DestOther d \<Rightarrow> bufs p [(d, ds), (a, []), (b, [])] R)"

lemma bufs_last: "bufs p [(a, da), (gmosBufferInit, [])] R \<longleftrightarrow> buf_state p a da R"
  by (auto simp: buf_rep_Nil buf_state_def)

lemma bufs_last2:
  "bufs p [(d, ds), (gmosBufferInit, []), (gmosBufferInit, [])] R \<longleftrightarrow> buf_state p d ds R"
  by (auto simp: buf_rep_Nil buf_state_def)

fun sameDest :: "concatDest \<Rightarrow> concatDest \<Rightarrow> bool" where
  "sameDest DestA d = (d = DestA)"
| "sameDest DestB d = (d = DestB)"
| "sameDest (DestOther _) d = (\<exists>x. d = DestOther x)"

lemma moveSource_fromA:
  assumes "concatState p a ds gmosBufferInit [] dest dd R"
  shows "\<exists>p' a' b' dest'. moveSource p True a gmosBufferInit dest = Some (p', a', b', dest') \<and>
    concatResult p' a' b' dest' ds R \<and> sameDest dest dest' \<and> same_on R p p'"
proof (cases dest)
  case DestA
  with assms show ?thesis by (auto simp: moveSource_def concatState_def concatResult_def)
next
  case DestB
  with assms have "bufs p [(a, ds), (gmosBufferInit, [])] R" by (simp add: concatState_def)
  from gmosBufferMove_ok [OF this] obtain p' b' where
    "gmosBufferMove p a gmosBufferInit = Some (p', gmosBufferInit, b')"
    "buf_state p' b' ds R" "same_on R p p'" by metis
  then show ?thesis using DestB
    by (simp add: moveSource_def concatResult_def bufs_1 del: bufs.simps)
next
  case (DestOther d)
  with assms have "bufs p [(d, dd), (a, ds)] R"
    using bufs_rotate [of p "(d, dd)" "(a, ds)" "(gmosBufferInit, [])" "[]" R]
    by (simp only: concatState_def concatDest.case bufs_Nil)
  from gmosBufferMove_ok [OF bufs_swap [OF this]] obtain p' d' where
    "gmosBufferMove p a d = Some (p', gmosBufferInit, d')"
    "buf_state p' d' ds R" "same_on R p p'" by metis
  then show ?thesis using DestOther
    by (simp add: moveSource_def concatResult_def bufs_last2 del: bufs.simps bufs_Nil)
qed

lemma moveSource_fromB:
  assumes "concatState p gmosBufferInit [] b ds dest dd R"
  shows "\<exists>p' a' b' dest'. moveSource p False gmosBufferInit b dest = Some (p', a', b', dest') \<and>
    concatResult p' a' b' dest' ds R \<and> sameDest dest dest' \<and> same_on R p p'"
proof (cases dest)
  case DestA
  with assms have "bufs p [(gmosBufferInit, []), (b, ds)] R" by (simp add: concatState_def)
  from gmosBufferMove_ok [OF bufs_swap [OF this]] obtain p' a' where
    "gmosBufferMove p b gmosBufferInit = Some (p', gmosBufferInit, a')"
    "buf_state p' a' ds R" "same_on R p p'" by metis
  then show ?thesis using DestA
    by (simp add: moveSource_def concatResult_def bufs_last del: bufs.simps bufs_Nil)
next
  case DestB
  with assms show ?thesis by (auto simp: moveSource_def concatState_def concatResult_def)
next
  case (DestOther d)
  with assms have "bufs p [(d, dd), (b, ds)] R"
    using bufs_swap [of p "(d, dd)" "(gmosBufferInit, [])" "[(b, ds)]" R]
    by (simp only: concatState_def concatDest.case bufs_Nil)
  from gmosBufferMove_ok [OF bufs_swap [OF this]] obtain p' d' where
    "gmosBufferMove p b d = Some (p', gmosBufferInit, d')"
    "buf_state p' d' ds R" "same_on R p p'" by metis
  then show ?thesis using DestOther
    by (simp add: moveSource_def concatResult_def bufs_last2 del: bufs.simps bufs_Nil)
qed

lemma concatState_sources:
  assumes "concatState p a da b db dest dd R"
  obtains R' where "bufs p [(a, da), (b, db)] R'" "R \<subseteq> R'"
    "\<And>p' a' b' da' db'. same_on R' p p' \<Longrightarrow> bufs p' [(a', da'), (b', db')] R' \<Longrightarrow>
       concatState p' a' da' b' db' dest dd R"
proof (cases dest)
  case (DestOther d)
  with assms obtain zs where z: "buf_rep p d zs dd" "set zs \<inter> R = {}"
    "bufs p [(a, da), (b, db)] (set zs \<union> R)"
    by (auto simp only: concatState_def concatDest.case bufs.simps(2) [of p d dd])
  show thesis
  proof (rule that [OF z(3)])
    fix p' a' b' da' db'
    assume f: "same_on (set zs \<union> R) p p'" "bufs p' [(a', da'), (b', db')] (set zs \<union> R)"
    have "buf_rep p' d zs dd" using buf_rep_same_on [OF z(1) f(1)] by simp
    then show "concatState p' a' da' b' db' dest dd R"
      using DestOther z(2) f(2)
      by (auto simp only: concatState_def concatDest.case bufs.simps(2) [of p' d dd])
  qed simp
qed (use assms that [of R] in \<open>auto simp only: concatState_def concatDest.case\<close>)

lemma gmosBufferConcatenate_ok:
  assumes heap: "\<not> mempoolUseHeap p" and len: "length da + length db < 65536"
    and st: "concatState p a da b db dest dd R"
  shows "\<exists>p' a' b' dest'. gmosBufferConcatenate p a b dest = Some (True, p', a', b', dest') \<and>
    concatResult p' a' b' dest' (da @ db) R \<and> sameDest dest dest' \<and> same_on R p p'"
proof -
  from concatState_sources [OF st] obtain R' where r: "bufs p [(a, da), (b, db)] R'" "R \<subseteq> R'"
    "\<And>p' a' b' da' db'. same_on R' p p' \<Longrightarrow> bufs p' [(a', da'), (b', db')] R' \<Longrightarrow>
       concatState p' a' da' b' db' dest dd R" by blast
  have sz: "bufferSize a = length da" "bufferSize b = length db"
    using bufs_size [OF r(1)] bufs_size [OF bufs_swap [OF r(1)]] by simp_all
  have ea: "a = gmosBufferInit" if "da = []" using r(1) unfolding that bufs_Nil by simp
  have eb: "b = gmosBufferInit" if "db = []"
    using bufs_swap [OF r(1)] unfolding that bufs_Nil by simp
  consider (none) "da = []" "db = []" | (onlyB) "da = []" "db \<noteq> []" | (onlyA) "da \<noteq> []" "db = []"
    | (intoA) "da \<noteq> []" "db \<noteq> []" "length db \<le> length da"
    | (intoB) "da \<noteq> []" "db \<noteq> []" "length da < length db" by fastforce
  then show ?thesis
  proof cases
    case none
    note e = ea [OF none(1)] eb [OF none(2)]
    show ?thesis
    proof (cases dest)
      case (DestOther d)
      have "buf_state p d dd R"
        using st bufs_swap [of p "(d, dd)" "(gmosBufferInit, [])" "[(gmosBufferInit, [])]" R]
          bufs_last unfolding concatState_def DestOther none e concatDest.case
        by (auto simp del: bufs.simps)
      from gmosBufferDiscardContents_ok [OF this] obtain p' where
        "gmosBufferDiscardContents p d = Some (p', gmosBufferInit)" "pool_ok p' R" "same_on R p p'"
        by metis
      then show ?thesis unfolding DestOther e none
        by (simp add: gmosBufferConcatenate_def resetDest_def gmosBufferReset_def concatResult_def
            del: bufs.simps(2))
    qed (use st e none in \<open>auto simp: gmosBufferConcatenate_def resetDest_def gmosBufferReset_def
           concatResult_def concatState_def gmosBufferInit_def gmosBufferDiscardContents_def\<close>)
  next
    case onlyB
    from moveSource_fromB [OF st [unfolded ea [OF onlyB(1)] onlyB(1)]] onlyB sz ea [OF onlyB(1)]
    show ?thesis by (auto simp: gmosBufferConcatenate_def)
  next
    case onlyA
    from moveSource_fromA [OF st [unfolded eb [OF onlyA(2)] onlyA(2)]] onlyA sz eb [OF onlyA(2)]
    show ?thesis by (auto simp: gmosBufferConcatenate_def)
  next
    case intoA
    from ConcatenateIntoA_ok [OF heap len r(1)] obtain p1 a1 where f:
      "gmosBufferConcatenateIntoA p a b = Some (p1, a1, gmosBufferInit)"
      "buf_state p1 a1 (da @ db) R'" "same_on R' p p1" by blast
    have "concatState p1 a1 (da @ db) gmosBufferInit [] dest dd R"
      by (rule r(3) [OF f(3)]) (use f(2) in \<open>simp only: bufs_last\<close>)
    from moveSource_fromA [OF this] obtain p' a' b' dest' where g:
      "moveSource p1 True a1 gmosBufferInit dest = Some (p', a', b', dest')"
      "concatResult p' a' b' dest' (da @ db) R" "sameDest dest dest'" "same_on R p1 p'" by blast
    have "same_on R p p'" by (rule same_on_trans [OF same_on_mono [OF f(3) r(2)] g(4)])
    with f(1) g(1-3) intoA sz show ?thesis by (simp add: gmosBufferConcatenate_def)
  next
    case intoB
    from ConcatenateIntoB_ok [OF heap len r(1)] obtain p1 b1 where f:
      "gmosBufferConcatenateIntoB p a b = Some (p1, gmosBufferInit, b1)"
      "buf_state p1 b1 (da @ db) R'" "same_on R' p p1" by blast
    have "concatState p1 gmosBufferInit [] b1 (da @ db) dest dd R"
      by (rule r(3) [OF f(3)]) (use f(2) in \<open>simp only: bufs_Nil bufs_1\<close>)
    from moveSource_fromB [OF this] obtain p' a' b' dest' where g:
      "moveSource p1 False gmosBufferInit b1 dest = Some (p', a', b', dest')"
      "concatResult p' a' b' dest' (da @ db) R" "sameDest dest dest'" "same_on R p1 p'" by blast
    have "same_on R p p'" by (rule same_on_trans [OF same_on_mono [OF f(3) r(2)] g(4)])
    with f(1) g(1-3) intoB sz show ?thesis by (simp add: gmosBufferConcatenate_def)
  qed
qed

subsection \<open>Two limits of the code\<close>

text \<open>
  gmosBufferPrepend computes the new size in 16 bits. When the old and new data together have
  exactly 65536 bytes the size becomes zero, so the buffer is discarded, and the data is then
  copied through a null segment pointer.
\<close>

lemma gmosBufferPrepend_wraps:
  assumes st: "buf_state p b ds R" and n: "length ds + length w = 65536"
  shows "gmosBufferPrepend p b w = None"
proof -
  note s = buf_state_size [OF st]
  then have w: "w \<noteq> []" using n by auto
  from gmosBufferDiscardContents_ok [OF st] obtain p' where
    "gmosBufferDiscardContents p b = Some (p', gmosBufferInit)" by metis
  moreover have "u16 (bufferSize b + length w) = 0" using s n by (simp add: u16_def)
  moreover have "gmosBufferCopyToSegments p' None 0 w = None"
    using w by (simp add: gmosBufferCopyToSegments_def skipSegments.simps copyToLoop.simps Let_def)
  ultimately show ?thesis by (simp add: gmosBufferPrepend_def gmosBufferRebase_def)
qed

text \<open>
  A buffer that owns more segments than its size needs, as a copied section may, cannot be
  extended: the number of missing segments is computed as a negative number and asked of the
  pool as a huge one.
\<close>

lemma gmosBufferIncrSizeEnd_surplus:
  assumes v: "buf_view p b xs ds" and ok: "pool_ok p own"
    and n: "0 < n" "n < 65536" "length xs = need (bufferOffset b + n) + d" "0 < d"
    and few: "avail p + d < 65536" and heap: "\<not> mempoolUseHeap p"
  shows "gmosBufferIncrSizeEnd p b n = Some (False, p, b)"
proof -
  have l: "llist (nextSegment p) (segmentList b) xs" "bufferOffset b < SEG"
    using v by (auto simp: buf_view_def)
  define m where "m = need (bufferOffset b + n)"
  have m: "Suc ((bufferOffset b + n - Suc 0) div SEG) = m" "m < 1100" "0 < m"
    using need_code [of "bufferOffset b + n"] need_bound [of "bufferOffset b + n"] n(1,2) l(2)
    by (auto simp: m_def GMOS_CONFIG_MEMPOOL_SEGMENT_SIZE_def)
  have c: "sub32 (bufferOffset b + n) 1 = bufferOffset b + n - 1"
    using n(1,2) l(2) by (auto simp: GMOS_CONFIG_MEMPOOL_SEGMENT_SIZE_def)
  have d: "d < 65536" using few by simp
  have "sub32 1 (length xs) + (m - 1) = 4294967296 - d"
    using n(3,4) d m(2,3) unfolding m_def [symmetric] by (auto simp: sub32_def)
  then have e1: "u32 (sub32 1 (length xs) + (m - 1)) = 4294967296 - d"
    using n(4) by (simp add: u32_def)
  have "4294967296 - d = (65536 - d) + 65536 * 65535" using d by simp
  then have "u16 (4294967296 - d) = (65536 - d) mod 65536"
    unfolding u16_def by (simp only: mod_mult_self2)
  then have e: "u16 (4294967296 - d) = 65536 - d" "4294967296 - d \<noteq> 0"
    using n(4) d by simp_all
  have lx: "length xs < 4294967296" using n(3) d m(2) unfolding m_def [symmetric] by simp
  have "avail p < 65536 - d" using few by simp
  from mp.alloc_none [OF ok this] heap have
    a: "gmosMempoolAllocSegments (65536 - d) p = Some (None, p)" by auto
  have q: "(bufferOffset b + n - 1) div SEG = m - 1" using m(1) by simp
  show ?thesis
    using segmentListEnd_llist [OF l(1), of 0 None] lx a e e1
    by (simp add: gmosBufferIncrSizeEnd_def Let_def c q del: One_nat_def)
qed

subsection \<open>Properties\<close>

text \<open>Two buffers in a freshly initialised pool, for the witnesses.\<close>

lemma boot_bufs:
  obtains p a b where "bufs p [(a, [1, 2, 3]), (b, [4, 5])] {}" "\<not> mempoolUseHeap p"
    "avail p = 62"
proof -
  have n1: "need (Suc (Suc (Suc 0))) = 1" "need (Suc (Suc 0)) = 1"
    by (simp_all add: need_def GMOS_CONFIG_MEMPOOL_SEGMENT_SIZE_def)
  have st: "buf_state bootPool gmosBufferInit [] {}" using buf_state_init [OF bootPool_ok(1)] .
  obtain p1 a where a: "buf_state p1 a [1, 2, 3] {}" "avail p1 = 63" "\<not> mempoolUseHeap p1"
    by (rule gmosBufferAppend_ok [OF st, of "[1, 2, 3]"]) (auto simp: n1 bootPool_ok)
  from a(1) obtain xs where x: "buf_rep p1 a xs [1, 2, 3]" "set xs \<inter> {} = {}"
    "pool_ok p1 (set xs \<union> {})" by (auto simp: buf_state_def)
  obtain p2 b where b: "buf_state p2 b [4, 5] (set xs \<union> {})" "same_on (set xs \<union> {}) p1 p2"
    "avail p2 = 62" "\<not> mempoolUseHeap p2"
    by (rule gmosBufferAppend_ok [OF buf_state_init [OF x(3)], of "[4, 5]"])
       (use a(2,3) in \<open>auto simp: n1\<close>)
  show thesis by (rule that [OF bufs_2I [OF x(1,2) b(1,2)] b(4,3)])
qed

lemma boot_buf:
  obtains p b R where "buf_state p b [4, 5] R" "\<not> mempoolUseHeap p" "avail p = 62"
  by (rule boot_bufs, erule bufs_2D, blast)

text \<open>
  C1: Appending puts the new bytes behind the ones the buffer holds. It succeeds exactly when
  the total stays below 64 KiB and the pool has the extra segments this needs; a refused append
  leaves buffer and contents as they were. The other buffers of the pool are untouched.
\<close>

theorem buffer_append:
  assumes "buf_state p b ds R" "length w < 65536"
  shows "\<exists>ok p' b'. gmosBufferAppend p b w = Some (ok, p', b') \<and>
    buf_state p' b' (if ok then ds @ w else ds) R \<and> same_on R p p' \<and> (\<not> ok \<longrightarrow> b' = b) \<and>
    (ok \<longleftrightarrow> length ds + length w < 65536 \<and>
       need (bufferOffset b + length ds + length w) - need (bufferOffset b + length ds) \<le> avail p)"
  by (rule gmosBufferAppend_ok [OF assms]) blast

theorem buffer_append_witness:
  "\<exists>p b p' b' R. buf_state p b [4, 5] R \<and> gmosBufferAppend p b [6, 7, 8] = Some (True, p', b') \<and>
     buf_state p' b' [4, 5, 6, 7, 8] R"
proof -
  obtain p b R where st: "buf_state p b [4, 5] R" "avail p = 62" by (rule boot_buf)
  have "need (bufferOffset b + 2 + 3) \<le> need (bufferOffset b + 2) + 1"
    using need_add [of "bufferOffset b + 2" 3]
    by (simp add: need_def GMOS_CONFIG_MEMPOOL_SEGMENT_SIZE_def)
  then have n: "need (bufferOffset b + length [4, 5 :: byte] + length [6, 7, 8 :: byte]) -
      need (bufferOffset b + length [4, 5 :: byte]) \<le> avail p"
    using st(2) by (simp add: eval_nat_numeral)
  have "length [6, 7, 8 :: byte] < 65536" by simp
  from buffer_append [OF st(1) this] obtain ok p' b' where
    "gmosBufferAppend p b [6, 7, 8] = Some (ok, p', b')"
    "buf_state p' b' (if ok then [4, 5] @ [6, 7, 8] else [4, 5]) R" "ok" using n by auto
  then have "gmosBufferAppend p b [6, 7, 8] = Some (True, p', b')"
    "buf_state p' b' [4, 5, 6, 7, 8] R" by simp_all
  then show ?thesis using st(1) by blast
qed

text \<open>
  C2: Prepending puts the new bytes in front, provided the total stays below 64 KiB, which the
  code does not check. It succeeds exactly when the pool has the segments that the gap at the
  start of the buffer does not cover.
\<close>

theorem buffer_prepend:
  assumes "buf_state p b ds R" "length ds + length w < 65536"
  shows "\<exists>ok p' b'. gmosBufferPrepend p b w = Some (ok, p', b') \<and>
    buf_state p' b' (if ok then w @ ds else ds) R \<and> same_on R p p' \<and> (\<not> ok \<longrightarrow> b' = b) \<and>
    (ok \<longleftrightarrow> need (length w - bufferOffset b) \<le> avail p)"
  by (rule gmosBufferPrepend_ok [OF assms]) blast

theorem buffer_prepend_witness:
  "\<exists>p b p' b' R. buf_state p b [4, 5] R \<and> gmosBufferPrepend p b [6, 7, 8] = Some (True, p', b') \<and>
     buf_state p' b' [6, 7, 8, 4, 5] R"
proof -
  obtain p b R where st: "buf_state p b [4, 5] R" "avail p = 62" by (rule boot_buf)
  have "need (3 - bufferOffset b) \<le> need 3" by (intro need_mono) simp
  also have "need 3 = 1" by (simp add: need_def GMOS_CONFIG_MEMPOOL_SEGMENT_SIZE_def)
  finally have n: "need (length [6, 7, 8 :: byte] - bufferOffset b) \<le> avail p"
    using st(2) by (simp add: eval_nat_numeral)
  have "length [4, 5 :: byte] + length [6, 7, 8 :: byte] < 65536" by simp
  from buffer_prepend [OF st(1) this] obtain ok p' b' where
    "gmosBufferPrepend p b [6, 7, 8] = Some (ok, p', b')"
    "buf_state p' b' (if ok then [6, 7, 8] @ [4, 5] else [4, 5]) R" "ok" using n by auto
  then have "gmosBufferPrepend p b [6, 7, 8] = Some (True, p', b')"
    "buf_state p' b' [6, 7, 8, 4, 5] R" by simp_all
  then show ?thesis using st(1) by blast
qed

text \<open>
  Resizing at the end keeps the bytes up to the new size and adds arbitrary ones beyond the
  old size; resizing at the start (rebasing) keeps the last bytes and adds arbitrary ones in
  front. Shrinking always succeeds, and a refused growth changes nothing.
\<close>

theorem buffer_resize_rebase:
  assumes "buf_state p b ds R" "n < 65536"
  shows "(\<exists>ok p' b' junk. gmosBufferResize p b n = Some (ok, p', b') \<and> same_on R p p' \<and>
      (if ok then length junk = n - length ds \<and> buf_state p' b' (take n ds @ junk) R
       else length ds < n \<and> b' = b \<and> buf_state p' b ds R)) \<and>
    (\<exists>ok p' b' junk. gmosBufferRebase p b n = Some (ok, p', b') \<and> same_on R p p' \<and>
      (if ok then length junk = n - length ds \<and> buf_state p' b' (junk @ drop (length ds - n) ds) R
       else length ds < n \<and> b' = b \<and> buf_state p' b ds R))"
proof
  show "\<exists>ok p' b' junk. gmosBufferResize p b n = Some (ok, p', b') \<and> same_on R p p' \<and>
      (if ok then length junk = n - length ds \<and> buf_state p' b' (take n ds @ junk) R
       else length ds < n \<and> b' = b \<and> buf_state p' b ds R)"
  proof (rule gmosBufferResize_ok [OF assms], goal_cases)
    case (1 ok p' b')
    have "length ds < n" if "\<not> ok"
    proof (rule ccontr)
      assume "\<not> length ds < n"
      then have "need (bufferOffset b + n) \<le> need (bufferOffset b + length ds)"
        by (intro need_mono) simp
      with 1(4) that show False by simp
    qed
    with 1(1,2,5,6) show ?case by (cases ok) auto
  qed
  show "\<exists>ok p' b' junk. gmosBufferRebase p b n = Some (ok, p', b') \<and> same_on R p p' \<and>
      (if ok then length junk = n - length ds \<and> buf_state p' b' (junk @ drop (length ds - n) ds) R
       else length ds < n \<and> b' = b \<and> buf_state p' b ds R)"
  proof (rule gmosBufferRebase_ok [OF assms], goal_cases)
    case (1 ok p' b')
    have "length ds < n" if "\<not> ok"
      using 1(4) that by (cases "length ds < n") auto
    with 1(1,2,5,6) show ?case by (cases ok) auto
  qed
qed

theorem buffer_resize_rebase_witness:
  "\<exists>p b R. buf_state p b [4, 5] R \<and>
     (\<exists>p' b'. gmosBufferResize p b 1 = Some (True, p', b') \<and> buf_state p' b' [4] R) \<and>
     (\<exists>p' b'. gmosBufferRebase p b 1 = Some (True, p', b') \<and> buf_state p' b' [5] R)"
proof -
  obtain p b R where st: "buf_state p b [4, 5] R" by (rule boot_buf)
  have "(1 :: nat) < 65536" by simp
  from buffer_resize_rebase [OF st this] show ?thesis
    by (intro exI [of _ p] exI [of _ b] exI [of _ R]) (auto simp: st split: if_splits)
qed

text \<open>
  A write inside the buffer replaces exactly the bytes it covers and a read returns the
  bytes at its position, so what was written is read back; a range outside the buffer is
  refused by both without touching the contents.
\<close>

theorem buffer_write_read:
  assumes "buf_state p b ds R"
  shows "\<exists>p'. gmosBufferWrite p b offset w = Some (offset + length w \<le> length ds, p') \<and>
    same_on R p p' \<and>
    (if offset + length w \<le> length ds
     then buf_state p' b (take offset ds @ w @ drop (offset + length w) ds) R \<and>
          gmosBufferRead p' b offset (length w) = Some (Some w)
     else buf_state p' b ds R \<and> gmosBufferRead p' b offset (length w) = Some None)"
proof -
  from gmosBufferWrite_ok [OF assms, of offset w] obtain p' where
    r: "gmosBufferWrite p b offset w = Some (offset + length w \<le> length ds, p')"
    "buf_state p' b (if offset + length w \<le> length ds then splice offset w ds else ds) R"
    "same_on R p p'" by metis
  with gmosBufferRead_ok [OF r(2), of offset "length w"] show ?thesis
    by (auto simp: splice_def)
qed

theorem buffer_write_read_witness:
  "\<exists>p p' b R. buf_state p b [4, 5] R \<and> gmosBufferWrite p b 1 [9] = Some (True, p') \<and>
     buf_state p' b [4, 9] R \<and> gmosBufferRead p' b 1 1 = Some (Some [9])"
proof -
  obtain p b R where st: "buf_state p b [4, 5] R" by (rule boot_buf)
  from buffer_write_read [OF st, of 1 "[9]"] st show ?thesis by (auto simp: eval_nat_numeral)
qed

text \<open>
  C3: Concatenation in a static pool never runs out of segments, whatever the pool holds and
  wherever the destination is: the loops release the segments they need before they ask for
  them. The destination receives the bytes of both sources in order, the sources are emptied,
  and the function returns true.
\<close>

theorem buffer_concatenate:
  assumes "\<not> mempoolUseHeap p" "length da + length db < 65536"
    and "concatState p a da b db dest dd R"
  shows "\<exists>p' a' b' dest'. gmosBufferConcatenate p a b dest = Some (True, p', a', b', dest') \<and>
    concatResult p' a' b' dest' (da @ db) R \<and> sameDest dest dest' \<and> same_on R p p'"
  by (rule gmosBufferConcatenate_ok [OF assms])

theorem buffer_concatenate_witness:
  "\<exists>p a b p' a' b'. bufs p [(a, [1, 2, 3]), (b, [4, 5])] {} \<and>
     gmosBufferConcatenate p a b DestB = Some (True, p', a', b', DestB) \<and>
     bufs p' [(a', []), (b', [1, 2, 3, 4, 5])] {}"
proof -
  obtain p a b where st: "bufs p [(a, [1, 2, 3]), (b, [4, 5])] {}" "\<not> mempoolUseHeap p"
    by (rule boot_bufs)
  then have "concatState p a [1, 2, 3] b [4, 5] DestB [] {}" by (simp add: concatState_def)
  from buffer_concatenate [OF st(2) _ this] obtain p' a' b' dest' where
    "gmosBufferConcatenate p a b DestB = Some (True, p', a', b', dest')"
    "concatResult p' a' b' dest' ([1, 2, 3] @ [4, 5]) {}" "dest' = DestB" by auto
  then show ?thesis using st(1)
    by (intro exI [of _ p] exI [of _ a] exI [of _ b] exI [of _ p'] exI [of _ a'] exI [of _ b'])
       (simp add: concatResult_def del: bufs.simps)
qed

text \<open>
  Copying a buffer replaces the destination by a copy and keeps the source; without the
  segments it needs it reports failure and leaves the destination empty. Copying a section
  gives a buffer from which exactly the bytes of the section can be read.
\<close>

theorem buffer_copy:
  assumes "bufs p [(a, da), (b, db)] R"
  shows "(\<exists>ok p' b'. gmosBufferCopy p a b = Some (ok, p', b') \<and> same_on R p p' \<and>
      bufs p' [(a, da), (b', if ok then da else [])] R) \<and>
    (co + n \<le> length da \<longrightarrow>
     (\<exists>ok p' b'. gmosBufferCopySection p a b co n = Some (ok, p', b') \<and> same_on R p p' \<and>
       (ok \<longrightarrow> bufferSize b' = n \<and>
         (\<forall>i k. i + k \<le> n \<longrightarrow> gmosBufferRead p' b' i k = Some (Some (take k (drop (co + i) da)))))))"
proof (intro conjI impI)
  show "\<exists>ok p' b'. gmosBufferCopy p a b = Some (ok, p', b') \<and> same_on R p p' \<and>
      bufs p' [(a, da), (b', if ok then da else [])] R"
    by (rule gmosBufferCopy_ok [OF assms]) blast
next
  assume n: "co + n \<le> length da"
  show "\<exists>ok p' b'. gmosBufferCopySection p a b co n = Some (ok, p', b') \<and> same_on R p p' \<and>
       (ok \<longrightarrow> bufferSize b' = n \<and>
         (\<forall>i k. i + k \<le> n \<longrightarrow> gmosBufferRead p' b' i k = Some (Some (take k (drop (co + i) da)))))"
  proof (rule gmosBufferCopyCommon_ok [OF assms n], goal_cases)
    case (1 ok p' b')
    have "gmosBufferCopySection p a b co n = Some (ok, p', b')"
      using 1(1) n bufs_size [OF assms] by (simp add: gmosBufferCopySection_def)
    moreover have "bufferSize b' = n \<and>
        (\<forall>i k. i + k \<le> n \<longrightarrow> gmosBufferRead p' b' i k = Some (Some (take k (drop (co + i) da))))"
      if ok
    proof -
      from 1(5) [OF that] obtain ys own where v: "buf_view p' b' ys (take n (drop co da))"
        "pool_ok p' own" by blast
      have "length (take n (drop co da)) = n" using n by simp
      with v(1) buf_view_read [OF v] show ?thesis
        by (auto simp: buf_view_def drop_take min_def add.commute)
    qed
    ultimately show ?thesis using 1(2) by blast
  qed
qed

theorem buffer_copy_witness:
  "\<exists>p a b ok p' b'. bufs p [(a, [1, 2, 3]), (b, [4, 5])] {} \<and>
     gmosBufferCopy p a b = Some (ok, p', b') \<and>
     bufs p' [(a, [1, 2, 3]), (b', if ok then [1, 2, 3] else [])] {}"
proof -
  obtain p a b where st: "bufs p [(a, [1, 2, 3]), (b, [4, 5])] {}" by (rule boot_bufs)
  from buffer_copy [OF st, of 1 2] st show ?thesis by blast
qed

end
