(* ===== verification/Gmos_Fifo.thy ===== *)
theory Gmos_Fifo
  imports Gmos_Prelude
begin

text \<open>
  The contract of the two intrusive first-in first-out queues of the kernel, the queue of
  pending events and the list of ready tasks, and what follows from it for their users: a run
  of insertions followed by a run of removals returns the elements in the order in which they
  were inserted, and an element waits for exactly the elements in front of it.
\<close>

primrec enqAll :: "('a \<Rightarrow> 's \<Rightarrow> 's option) \<Rightarrow> 'a list \<Rightarrow> 's \<Rightarrow> 's option" where
  "enqAll enq [] s = Some s"
| "enqAll enq (x # xs) s = Option.bind (enq x s) (enqAll enq xs)"

primrec deqN :: "('s \<Rightarrow> 'a option \<times> 's) \<Rightarrow> nat \<Rightarrow> 's \<Rightarrow> 'a option list \<times> 's" where
  "deqN deq 0 s = ([], s)"
| "deqN deq (Suc n) s =
     (let (x, s1) = deq s; (xs, s2) = deqN deq n s1 in (x # xs, s2))"

locale fifo =
  fixes holds :: "'s \<Rightarrow> 'a list \<Rightarrow> bool"
    and addable :: "'s \<Rightarrow> 'a \<Rightarrow> bool"
    and enq :: "'a \<Rightarrow> 's \<Rightarrow> 's option"
    and deq :: "'s \<Rightarrow> 'a option \<times> 's"
  assumes enq_new: "holds s xs \<Longrightarrow> addable s x \<Longrightarrow> x \<notin> set xs \<Longrightarrow>
      \<exists>s'. enq x s = Some s' \<and> holds s' (xs @ [x]) \<and> (\<forall>y. addable s y \<longrightarrow> addable s' y)"
    and deq_Nil: "holds s [] \<Longrightarrow> fst (deq s) = None \<and> holds (snd (deq s)) []"
    and deq_Cons: "holds s (x # xs) \<Longrightarrow> fst (deq s) = Some x \<and> holds (snd (deq s)) xs"
begin

lemma enqAll_holds:
  "holds s xs \<Longrightarrow> distinct (xs @ ys) \<Longrightarrow> \<forall>y\<in>set ys. addable s y \<Longrightarrow>
     \<exists>s'. enqAll enq ys s = Some s' \<and> holds s' (xs @ ys)"
proof (induction ys arbitrary: s xs)
  case Nil
  then show ?case by simp
next
  case (Cons y ys)
  then have "addable s y" "y \<notin> set xs" by auto
  from enq_new [OF Cons.prems(1) this] obtain s1 where
    r: "enq y s = Some s1" "holds s1 (xs @ [y])" "\<forall>z. addable s z \<longrightarrow> addable s1 z" by blast
  have "distinct ((xs @ [y]) @ ys)" "\<forall>z\<in>set ys. addable s1 z" using Cons.prems(2,3) r(3) by auto
  from Cons.IH [OF r(2) this] r(1) show ?case by auto
qed

lemma deqN_holds:
  "holds s xs \<Longrightarrow> n \<le> length xs \<Longrightarrow>
     fst (deqN deq n s) = map Some (take n xs) \<and> holds (snd (deqN deq n s)) (drop n xs)"
proof (induction n arbitrary: s xs)
  case 0
  then show ?case by simp
next
  case (Suc n)
  then obtain x ys where xs: "xs = x # ys" by (cases xs) auto
  with Suc.prems(1) have d: "fst (deq s) = Some x" "holds (snd (deq s)) ys" using deq_Cons by auto
  have "n \<le> length ys" using Suc.prems(2) xs by simp
  from Suc.IH [OF d(2) this] d(1) xs show ?case by (simp add: split_def Let_def)
qed

text \<open>What goes in comes out, in order.\<close>

lemma fifo_order:
  assumes "holds s []" "distinct ys" "\<forall>y\<in>set ys. addable s y"
  shows "\<exists>s'. enqAll enq ys s = Some s' \<and> fst (deqN deq (length ys) s') = map Some ys \<and>
    holds (snd (deqN deq (length ys) s')) []"
proof -
  from enqAll_holds [OF assms(1), of ys] assms(2,3) obtain s' where
    r: "enqAll enq ys s = Some s'" "holds s' ys" by auto
  with deqN_holds [OF r(2), of "length ys"] show ?thesis by auto
qed

text \<open>An element with \<open>k\<close> others in front of it is the result of removal number \<open>k + 1\<close>.\<close>

lemma fifo_position:
  assumes "holds s xs" "k < length xs"
  shows "fst (deqN deq (Suc k) s) ! k = Some (xs ! k)"
  using deqN_holds [OF assms(1), of "Suc k"] assms(2) by (simp del: deqN.simps add: nth_append)

end

end
