(* ===== verification/Gmos_Events.thy ===== *)
theory Gmos_Events
  imports Gmos_Fifo
begin

text \<open>
  The asynchronous event flags of common/src/gmos-events.c. An event is named by its address;
  the fields of all events are functions, and the file's two static variables are
  \<open>pendingEvents\<close> and \<open>pendingEventsReady\<close>. Calls of gmosPalWake are counted in
  \<open>palWakes\<close>.

  Interrupt handlers run between any two steps of the main program except inside a section
  that holds the platform mutex. Every function below is one such section, except
  gmosEventGetNextConsumer, which reads the flag \<open>pendingEventsReady\<close> outside: it is split
  into that read and the section \<open>gmosEventPop\<close>, and \<open>evStep\<close> interleaves the two with
  the operations of interrupt handlers.
\<close>

subsection \<open>State and operations\<close>

record gmosEvents =
  consumerTask :: "nat \<Rightarrow> nat option"
  nextEvent :: "nat \<Rightarrow> nat option"
  eventBits :: "nat \<Rightarrow> 32 word"
  pendingEvents :: "nat option"
  pendingEventsReady :: bool
  palWakes :: nat

text \<open>
  The loop to the end of the queue: \<open>Some (Some ptr)\<close> is the pointer to the terminating
  link (\<open>None\<close> for the queue head), \<open>Some None\<close> means that the event was found.
\<close>

partial_function (option) eventQueueEnd ::
    "(nat \<Rightarrow> nat option) \<Rightarrow> nat \<Rightarrow> nat option \<Rightarrow> nat option \<Rightarrow> nat option option option" where
  "eventQueueEnd nx event ptr cur =
     (if cur = None then Some (Some ptr)
      else if cur = Some event then Some None
      else eventQueueEnd nx event cur (nx (the cur)))"

definition storeEventPtr :: "nat option \<Rightarrow> nat option \<Rightarrow> gmosEvents \<Rightarrow> gmosEvents" where
  "storeEventPtr ptr v q =
     (case ptr of
        None \<Rightarrow> q\<lparr>pendingEvents := v\<rparr>
      | Some e \<Rightarrow> q\<lparr>nextEvent := (nextEvent q)(e := v)\<rparr>)"

definition gmosEventAppendToQueue :: "nat \<Rightarrow> gmosEvents \<Rightarrow> gmosEvents option" where
  "gmosEventAppendToQueue event q =
     (if consumerTask q event = None then Some q
      else do {
        r \<leftarrow> eventQueueEnd (nextEvent q) event None (pendingEvents q);
        (case r of
           None \<Rightarrow> Some q
         | Some ptr \<Rightarrow>
             let q = q\<lparr>nextEvent := (nextEvent q)(event := None)\<rparr>;
                 q = storeEventPtr ptr (Some event) q
             in Some (q\<lparr>pendingEventsReady := True, palWakes := palWakes q + 1\<rparr>)) })"

definition gmosEventInit :: "nat \<Rightarrow> nat option \<Rightarrow> gmosEvents \<Rightarrow> gmosEvents" where
  "gmosEventInit event consumer q =
     q\<lparr>consumerTask := (consumerTask q)(event := consumer),
       nextEvent := (nextEvent q)(event := None),
       eventBits := (eventBits q)(event := 0)\<rparr>"

definition gmosEventGetBits :: "nat \<Rightarrow> gmosEvents \<Rightarrow> 32 word" where
  "gmosEventGetBits event q = eventBits q event"

definition gmosEventTestAllBits :: "nat \<Rightarrow> 32 word \<Rightarrow> gmosEvents \<Rightarrow> bool" where
  "gmosEventTestAllBits event bitMask q \<longleftrightarrow> and (eventBits q event) bitMask = bitMask"

definition gmosEventTestAnyBits :: "nat \<Rightarrow> 32 word \<Rightarrow> gmosEvents \<Rightarrow> bool" where
  "gmosEventTestAnyBits event bitMask q \<longleftrightarrow> and (eventBits q event) bitMask \<noteq> 0"

definition gmosEventAssignBits ::
    "nat \<Rightarrow> 32 word \<Rightarrow> gmosEvents \<Rightarrow> (32 word \<times> gmosEvents) option" where
  "gmosEventAssignBits event bitValues q = do {
     let bits = eventBits q event;
     q \<leftarrow> gmosEventAppendToQueue event (q\<lparr>eventBits := (eventBits q)(event := bitValues)\<rparr>);
     Some (bits, q) }"

definition gmosEventAssignMaskedBits ::
    "nat \<Rightarrow> 32 word \<Rightarrow> 32 word \<Rightarrow> gmosEvents \<Rightarrow> (32 word \<times> gmosEvents) option" where
  "gmosEventAssignMaskedBits event bitMask bitValues q = do {
     let bits = eventBits q event;
     let newBits = or (and bits (not bitMask)) (and bitValues bitMask);
     q \<leftarrow> gmosEventAppendToQueue event (q\<lparr>eventBits := (eventBits q)(event := newBits)\<rparr>);
     Some (bits, q) }"

definition gmosEventSetBits ::
    "nat \<Rightarrow> 32 word \<Rightarrow> gmosEvents \<Rightarrow> (32 word \<times> gmosEvents) option" where
  "gmosEventSetBits event bitMask q = do {
     let bits = eventBits q event;
     q \<leftarrow> gmosEventAppendToQueue event (q\<lparr>eventBits := (eventBits q)(event := or bits bitMask)\<rparr>);
     Some (bits, q) }"

definition gmosEventClearBits ::
    "nat \<Rightarrow> 32 word \<Rightarrow> gmosEvents \<Rightarrow> (32 word \<times> gmosEvents) option" where
  "gmosEventClearBits event bitMask q = do {
     let bits = eventBits q event;
     q \<leftarrow> gmosEventAppendToQueue event
            (q\<lparr>eventBits := (eventBits q)(event := and bits (not bitMask))\<rparr>);
     Some (bits, q) }"

definition gmosEventResetBits :: "nat \<Rightarrow> gmosEvents \<Rightarrow> 32 word \<times> gmosEvents" where
  "gmosEventResetBits event q =
     (eventBits q event, q\<lparr>eventBits := (eventBits q)(event := 0)\<rparr>)"

text \<open>The locked section of gmosEventGetNextConsumer.\<close>

definition gmosEventPop :: "gmosEvents \<Rightarrow> nat option \<times> gmosEvents" where
  "gmosEventPop q =
     (let event = pendingEvents q;
          q = (case event of None \<Rightarrow> q | Some e \<Rightarrow> q\<lparr>pendingEvents := nextEvent q e\<rparr>);
          q = (if pendingEvents q = None then q\<lparr>pendingEventsReady := False\<rparr> else q)
      in (event, q))"

definition gmosEventGetNextConsumer :: "gmosEvents \<Rightarrow> nat option \<times> gmosEvents" where
  "gmosEventGetNextConsumer q =
     (if \<not> pendingEventsReady q then (None, q)
      else let (event, q) = gmosEventPop q
           in ((case event of None \<Rightarrow> None | Some e \<Rightarrow> consumerTask q e), q))"

subsection \<open>The queue invariant\<close>

definition ev_inv :: "gmosEvents \<Rightarrow> nat list \<Rightarrow> bool" where
  "ev_inv q es \<longleftrightarrow>
     llist (nextEvent q) (pendingEvents q) es \<and> (pendingEventsReady q \<longleftrightarrow> es \<noteq> [])"

lemma eventQueueEnd_llist:
  "llist nx cur es \<Longrightarrow> eventQueueEnd nx e ptr cur =
     Some (if e \<in> set es then None else Some (if es = [] then ptr else Some (last es)))"
proof (induction es arbitrary: ptr cur)
  case Nil
  then show ?case by (simp add: eventQueueEnd.simps)
next
  case (Cons x xs)
  then show ?case by (subst eventQueueEnd.simps) auto
qed

lemma ev_inv_bits [simp]: "ev_inv (q\<lparr>eventBits := bs\<rparr>) es = ev_inv q es"
  by (simp add: ev_inv_def)

text \<open>The result of queueing, on the list of pending events.\<close>

definition queued :: "gmosEvents \<Rightarrow> nat \<Rightarrow> nat list \<Rightarrow> nat list" where
  "queued q e es = (if consumerTask q e = None \<or> e \<in> set es then es else es @ [e])"

lemma queued_append: "\<exists>new. queued q e es = es @ new"
  by (auto simp: queued_def)

lemma queued_bits [simp]: "queued (q\<lparr>eventBits := bs\<rparr>) e es = queued q e es"
  by (simp add: queued_def)

lemma AppendToQueue_ok:
  assumes inv: "ev_inv q es"
  obtains q' where "gmosEventAppendToQueue e q = Some q'" "ev_inv q' (queued q e es)"
    "consumerTask q' = consumerTask q" "eventBits q' = eventBits q"
    "palWakes q' = palWakes q + (if queued q e es = es then 0 else 1)"
proof -
  have l: "llist (nextEvent q) (pendingEvents q) es" using inv by (simp add: ev_inv_def)
  note qe = eventQueueEnd_llist [OF l, of e None]
  show thesis
  proof (cases "consumerTask q e = None \<or> e \<in> set es")
    case True
    then have "gmosEventAppendToQueue e q = Some q"
      using qe by (auto simp: gmosEventAppendToQueue_def)
    then show thesis by (rule that) (use True inv in \<open>simp_all add: queued_def\<close>)
  next
    case False
    let ?nx = "(nextEvent q)(e := None)"
    let ?p = "if es = [] then None else Some (last es)"
    let ?q = "storeEventPtr ?p (Some e) (q\<lparr>nextEvent := ?nx\<rparr>)
                \<lparr>pendingEventsReady := True, palWakes := palWakes q + 1\<rparr>"
    have e: "gmosEventAppendToQueue e q = Some ?q"
      using False qe by (auto simp: gmosEventAppendToQueue_def storeEventPtr_def Let_def)
    have l1: "llist ?nx (pendingEvents q) es" using l False by (simp add: chain_upd)
    have l2: "llist ?nx (Some e) [e]" by simp
    have "llist (nextEvent ?q) (pendingEvents ?q) (es @ [e])"
    proof (cases "es = []")
      case True
      then show ?thesis by (simp add: storeEventPtr_def)
    next
      case ne: False
      have "llist (?nx(last es := Some e)) (pendingEvents q) (es @ [e])"
        by (rule llist_link [OF l1 ne llist_distinct [OF l] l2]) (use False in auto)
      then show ?thesis using ne by (simp add: storeEventPtr_def)
    qed
    then have "ev_inv ?q (es @ [e])" by (simp add: ev_inv_def)
    moreover have "queued q e es = es @ [e]" using False by (simp add: queued_def)
    ultimately have "ev_inv ?q (queued q e es)" by simp
    then show thesis
      by (rule that [OF e]) (use False in \<open>auto simp: storeEventPtr_def queued_def\<close>)
  qed
qed

lemma gmosEventPop_ok:
  assumes "ev_inv q es"
  shows "fst (gmosEventPop q) = (case es of [] \<Rightarrow> None | e # _ \<Rightarrow> Some e)"
    and "ev_inv (snd (gmosEventPop q)) (tl es)"
    and "consumerTask (snd (gmosEventPop q)) = consumerTask q"
    and "eventBits (snd (gmosEventPop q)) = eventBits q"
  using assms
  by (cases es; auto simp: ev_inv_def gmosEventPop_def Let_def llist_Nil_iff split: option.splits)+

interpretation evq: fifo ev_inv "\<lambda>q e. consumerTask q e \<noteq> None" gmosEventAppendToQueue gmosEventPop
proof (unfold_locales, goal_cases)
  case (1 s xs x)
  obtain q' where "gmosEventAppendToQueue x s = Some q'" "ev_inv q' (queued s x xs)"
    "consumerTask q' = consumerTask s" by (rule AppendToQueue_ok [OF 1(1)])
  with 1(2,3) show ?case by (auto simp: queued_def)
next
  case (2 s)
  with gmosEventPop_ok [OF this] show ?case by simp
next
  case (3 s x xs)
  with gmosEventPop_ok [OF this] show ?case by simp
qed

lemma GetNextConsumer_ok:
  assumes "ev_inv q es"
  shows "fst (gmosEventGetNextConsumer q) = (case es of [] \<Rightarrow> None | e # _ \<Rightarrow> consumerTask q e)"
    and "ev_inv (snd (gmosEventGetNextConsumer q)) (tl es)"
    and "consumerTask (snd (gmosEventGetNextConsumer q)) = consumerTask q"
  using gmosEventPop_ok [OF assms] assms
  by (cases es; auto simp: gmosEventGetNextConsumer_def ev_inv_def split_def Let_def)+

subsection \<open>The bit operations\<close>

text \<open>
  Each operation returns the previous bits, stores the new ones, touches no other event's bits
  and queues the event for its consumer.
\<close>

lemma bits_op_ok:
  assumes inv: "ev_inv q es"
  shows "\<exists>q'. gmosEventAppendToQueue e (q\<lparr>eventBits := (eventBits q)(e := v)\<rparr>) = Some q' \<and>
    ev_inv q' (queued q e es) \<and> consumerTask q' = consumerTask q \<and>
    eventBits q' = (eventBits q)(e := v)"
proof -
  let ?q = "q\<lparr>eventBits := (eventBits q)(e := v)\<rparr>"
  have "ev_inv ?q es" using inv by simp
  then obtain q' where "gmosEventAppendToQueue e ?q = Some q'" "ev_inv q' (queued ?q e es)"
    "consumerTask q' = consumerTask ?q" "eventBits q' = eventBits ?q" by (rule AppendToQueue_ok)
  then show ?thesis by (intro exI [of _ q']) simp
qed

text \<open>What an interrupt handler may do to the events.\<close>

datatype isrOp =
    IsrAssignBits nat "32 word"
  | IsrAssignMaskedBits nat "32 word" "32 word"
  | IsrSetBits nat "32 word"
  | IsrClearBits nat "32 word"
  | IsrResetBits nat

fun runIsr :: "isrOp \<Rightarrow> gmosEvents \<Rightarrow> (32 word \<times> gmosEvents) option" where
  "runIsr (IsrAssignBits e v) q = gmosEventAssignBits e v q"
| "runIsr (IsrAssignMaskedBits e m v) q = gmosEventAssignMaskedBits e m v q"
| "runIsr (IsrSetBits e m) q = gmosEventSetBits e m q"
| "runIsr (IsrClearBits e m) q = gmosEventClearBits e m q"
| "runIsr (IsrResetBits e) q = Some (gmosEventResetBits e q)"

fun isrEvent :: "isrOp \<Rightarrow> nat" where
  "isrEvent (IsrAssignBits e _) = e"
| "isrEvent (IsrAssignMaskedBits e _ _) = e"
| "isrEvent (IsrSetBits e _) = e"
| "isrEvent (IsrClearBits e _) = e"
| "isrEvent (IsrResetBits e) = e"

text \<open>The intended new bits, given position by position.\<close>

fun isrBit :: "isrOp \<Rightarrow> (nat \<Rightarrow> bool) \<Rightarrow> nat \<Rightarrow> bool" where
  "isrBit (IsrAssignBits _ v) old n = bit v n"
| "isrBit (IsrAssignMaskedBits _ m v) old n = (if bit m n then bit v n else old n)"
| "isrBit (IsrSetBits _ m) old n = (old n \<or> bit m n)"
| "isrBit (IsrClearBits _ m) old n = (old n \<and> \<not> bit m n)"
| "isrBit (IsrResetBits _) old n = False"

fun isrQueues :: "isrOp \<Rightarrow> bool" where
  "isrQueues (IsrResetBits _) = False"
| "isrQueues _ = True"

lemma bit_word32: "n < 32 \<Longrightarrow> bit (not (w :: 32 word)) n = (\<not> bit w n)"
  by (simp add: bit_not_iff)

lemma runIsr_ok:
  assumes "ev_inv q es"
  shows "\<exists>q'. runIsr op q = Some (eventBits q (isrEvent op), q') \<and>
    ev_inv q' (if isrQueues op then queued q (isrEvent op) es else es) \<and>
    consumerTask q' = consumerTask q \<and>
    (\<forall>n < 32. bit (eventBits q' (isrEvent op)) n = isrBit op (bit (eventBits q (isrEvent op))) n) \<and>
    (\<forall>e. e \<noteq> isrEvent op \<longrightarrow> eventBits q' e = eventBits q e)"
proof (cases op)
  case (IsrAssignBits e v)
  with bits_op_ok [OF assms, of e v] show ?thesis
    by (auto simp: gmosEventAssignBits_def)
next
  case (IsrAssignMaskedBits e m v)
  with bits_op_ok [OF assms, of e "or (and (eventBits q e) (not m)) (and v m)"] show ?thesis
    by (auto simp: gmosEventAssignMaskedBits_def bit_or_iff bit_and_iff bit_word32)
next
  case (IsrSetBits e m)
  with bits_op_ok [OF assms, of e "or (eventBits q e) m"] show ?thesis
    by (auto simp: gmosEventSetBits_def bit_or_iff)
next
  case (IsrClearBits e m)
  with bits_op_ok [OF assms, of e "and (eventBits q e) (not m)"] show ?thesis
    by (auto simp: gmosEventClearBits_def bit_and_iff bit_word32)
next
  case (IsrResetBits e)
  with assms show ?thesis by (simp add: gmosEventResetBits_def)
qed

subsection \<open>Interleaving with interrupt handlers\<close>

text \<open>
  The consumer is the scheduler calling gmosEventGetNextConsumer: \<open>EvIdle\<close> before the
  unprotected test of \<open>pendingEventsReady\<close>, \<open>EvChecked\<close> between the test and the locked
  section. Each step carries what an observer sees of it: the operation of an interrupt handler,
  the result of the test, or the event taken off the queue with the consumer task returned.
\<close>

datatype evPc = EvIdle | EvChecked

datatype evLabel = EvIsr isrOp | EvTest bool | EvTake "nat option" "nat option"

type_synonym evConf = "evPc \<times> gmosEvents"

inductive evStep :: "evConf \<Rightarrow> evLabel \<Rightarrow> evConf \<Rightarrow> bool" where
  isr: "runIsr op q = Some (old, q') \<Longrightarrow> evStep (pc, q) (EvIsr op) (pc, q')"
| check: "pendingEventsReady q \<Longrightarrow> evStep (EvIdle, q) (EvTest True) (EvChecked, q)"
| skip: "\<not> pendingEventsReady q \<Longrightarrow> evStep (EvIdle, q) (EvTest False) (EvIdle, q)"
| pop: "gmosEventPop q = (event, q') \<Longrightarrow> evStep (EvChecked, q)
    (EvTake event (case event of None \<Rightarrow> None | Some e \<Rightarrow> consumerTask q' e)) (EvIdle, q')"

inductive evRun :: "evConf \<Rightarrow> evLabel list \<Rightarrow> evConf \<Rightarrow> bool" where
  none: "evRun c [] c"
| step: "evStep c l d \<Longrightarrow> evRun d ls e \<Longrightarrow> evRun c (l # ls) e"

text \<open>Without an interrupt in between, the two parts of the consumer are the function itself.\<close>

lemma GetNextConsumer_evRun:
  assumes "pendingEventsReady q" "gmosEventGetNextConsumer q = (t, q')"
  shows "evRun (EvIdle, q) [EvTest True, EvTake (fst (gmosEventPop q)) t] (EvIdle, q')"
proof -
  obtain e q2 where e: "gmosEventPop q = (e, q2)" by (cases "gmosEventPop q") auto
  then have t: "t = (case e of None \<Rightarrow> None | Some e \<Rightarrow> consumerTask q2 e)" "q' = q2"
    using assms by (auto simp: gmosEventGetNextConsumer_def)
  have "evStep (EvIdle, q) (EvTest True) (EvChecked, q)" using assms(1) by (rule evStep.check)
  moreover have "evStep (EvChecked, q) (EvTake (fst (gmosEventPop q)) t) (EvIdle, q')"
    using evStep.pop [OF e] e t by simp
  ultimately show ?thesis by (blast intro: evRun.intros)
qed

text \<open>
  The abstract queue: a list of pending events. An interrupt handler's operation appends its
  event if the event has a consumer and is not pending; the test tells whether anything is
  pending; a take removes the oldest pending event and returns its consumer. \<open>None\<close> means
  that the observed step is not one of these.
\<close>

definition evArrive :: "(nat \<Rightarrow> nat option) \<Rightarrow> isrOp \<Rightarrow> nat list \<Rightarrow> nat list" where
  "evArrive cons op es =
     (if isrQueues op \<and> cons (isrEvent op) \<noteq> None \<and> isrEvent op \<notin> set es
      then es @ [isrEvent op] else es)"

fun evSpec :: "(nat \<Rightarrow> nat option) \<Rightarrow> nat list \<Rightarrow> evLabel list \<Rightarrow> nat list option" where
  "evSpec cons es [] = Some es"
| "evSpec cons es (EvIsr op # ls) = evSpec cons (evArrive cons op es) ls"
| "evSpec cons es (EvTest b # ls) = (if b = (es \<noteq> []) then evSpec cons es ls else None)"
| "evSpec cons es (EvTake event task # ls) =
     (case es of
        [] \<Rightarrow> None
      | e # r \<Rightarrow> if event = Some e \<and> task = cons e then evSpec cons r ls else None)"

text \<open>The relation between the two: the pending list, and a passed test that still holds.\<close>

definition evGood :: "(nat \<Rightarrow> nat option) \<Rightarrow> evConf \<Rightarrow> nat list \<Rightarrow> bool" where
  "evGood cons c es \<longleftrightarrow>
     (case c of (pc, q) \<Rightarrow> ev_inv q es \<and> consumerTask q = cons \<and> (pc = EvChecked \<longrightarrow> es \<noteq> []))"

lemma evGood_step:
  "evStep c l d \<Longrightarrow> evGood cons c es \<Longrightarrow> \<exists>es'. evSpec cons es [l] = Some es' \<and> evGood cons d es'"
proof (induction rule: evStep.induct)
  case (isr op q old q' pc)
  then have g: "ev_inv q es" "consumerTask q = cons" "pc = EvChecked \<longrightarrow> es \<noteq> []"
    by (auto simp: evGood_def)
  have "(if isrQueues op then queued q (isrEvent op) es else es) = evArrive cons op es"
    using g(2) by (auto simp: queued_def evArrive_def)
  then show ?case
    using runIsr_ok [OF g(1), of op] isr(1) g(2,3) by (auto simp: evGood_def evArrive_def)
next
  case (pop q event q')
  then show ?case
    using gmosEventPop_ok [of q es] by (cases es) (auto simp: evGood_def)
qed (auto simp: evGood_def ev_inv_def)

lemma evSpec_Cons: "evSpec cons es (l # ls) = Option.bind (evSpec cons es [l]) (\<lambda>es. evSpec cons es ls)"
  by (cases l) (auto split: list.split)

lemma evGood_run:
  "evRun c ls d \<Longrightarrow> evGood cons c es \<Longrightarrow> \<exists>es'. evSpec cons es ls = Some es' \<and> evGood cons d es'"
proof (induction arbitrary: es rule: evRun.induct)
  case (step c l d ls e)
  from evGood_step [OF step(1,4)] obtain es1 where
    "evSpec cons es [l] = Some es1" "evGood cons d es1" by blast
  with step.IH [of es1] show ?case by (simp add: evSpec_Cons [of _ _ l ls])
qed simp

subsection \<open>Properties\<close>

text \<open>An event queue with nothing pending, where event \<open>n\<close> has consumer task \<open>n\<close>.\<close>

definition idleEvents :: gmosEvents where
  "idleEvents = \<lparr>consumerTask = Some, nextEvent = (\<lambda>_. None), eventBits = (\<lambda>_. 0),
     pendingEvents = None, pendingEventsReady = False, palWakes = 0\<rparr>"

lemma idleEvents_inv: "ev_inv idleEvents []"
  by (simp add: ev_inv_def idleEvents_def)

text \<open>
  C4: Whatever interrupt handlers do between the steps of the consumer, including between its
  unprotected test of the flag and its locked section, the steps observed are exactly those of
  the abstract queue: an operation queues its event behind those pending if it has a consumer
  and is not pending already, and otherwise changes nothing pending; the test passes exactly
  when something is pending; a take returns the oldest pending event with its consumer and
  leaves exactly the others pending. So no pending event is lost, duplicated, invented or
  overtaken, and a passed test never finds an empty queue.
\<close>

theorem event_delivery:
  assumes "ev_inv q es" "evRun (EvIdle, q) ls (pc, q')"
  shows "\<exists>es'. evSpec (consumerTask q) es ls = Some es' \<and> ev_inv q' es' \<and>
    consumerTask q' = consumerTask q \<and> (pc = EvChecked \<longrightarrow> es' \<noteq> [])"
  using evGood_run [OF assms(2), of "consumerTask q" es] assms(1) by (simp add: evGood_def)

theorem event_delivery_witness:
  "\<exists>q'. evRun (EvIdle, idleEvents) [EvIsr (IsrSetBits 3 1), EvTest True, EvIsr (IsrSetBits 5 1),
       EvTake (Some 3) (Some 3)] (EvIdle, q') \<and> ev_inv q' [5]"
proof -
  obtain q1 where q1: "runIsr (IsrSetBits 3 1) idleEvents = Some (0, q1)" "ev_inv q1 [3]"
      "consumerTask q1 = Some"
    using runIsr_ok [OF idleEvents_inv, of "IsrSetBits 3 1"]
    by (auto simp: queued_def idleEvents_def)
  obtain q2 where q2: "runIsr (IsrSetBits 5 1) q1 = Some (eventBits q1 5, q2)" "ev_inv q2 [3, 5]"
      "consumerTask q2 = Some"
    using runIsr_ok [OF q1(2), of "IsrSetBits 5 1"] q1(3) by (auto simp: queued_def)
  let ?q = "snd (gmosEventPop q2)"
  have p: "gmosEventPop q2 = (Some 3, ?q)"
    using gmosEventPop_ok(1) [OF q2(2)] by (metis list.case(2) prod.collapse)
  have c: "consumerTask ?q 3 = Some 3" using gmosEventPop_ok(3) [OF q2(2)] q2(3) by simp
  have "pendingEventsReady q1" using q1(2) by (simp add: ev_inv_def)
  then have r: "evRun (EvIdle, idleEvents) [EvIsr (IsrSetBits 3 1), EvTest True,
      EvIsr (IsrSetBits 5 1), EvTake (Some 3) (Some 3)] (EvIdle, ?q)"
    using evStep.isr [OF q1(1)] evStep.check [of q1] evStep.isr [OF q2(1)]
      evStep.pop [OF p, unfolded option.case c] by (blast intro: evRun.intros)
  from event_delivery [OF idleEvents_inv r] r show ?thesis
    by (auto simp: evArrive_def idleEvents_def)
qed

text \<open>
  Every bit operation returns the previous bits, sets each bit of its event as its mask and
  values say, leaves other events' bits alone and queues the event behind those already pending,
  at most once and only if it has a consumer.
\<close>

theorem event_bits:
  assumes "ev_inv q es"
  shows "\<exists>q'. runIsr op q = Some (eventBits q (isrEvent op), q') \<and>
    ev_inv q' (if isrQueues op then queued q (isrEvent op) es else es) \<and>
    (\<forall>n < 32. bit (eventBits q' (isrEvent op)) n = isrBit op (bit (eventBits q (isrEvent op))) n) \<and>
    (\<forall>e. e \<noteq> isrEvent op \<longrightarrow> eventBits q' e = eventBits q e)"
  using runIsr_ok [OF assms, of op] by blast

theorem event_bits_witness:
  "\<exists>q'. runIsr (IsrSetBits 7 4) idleEvents = Some (0, q') \<and> ev_inv q' [7] \<and>
     bit (eventBits q' 7) 2 \<and> \<not> bit (eventBits q' 7) 1"
  using event_bits [OF idleEvents_inv, of "IsrSetBits 7 4"]
  by (auto simp: queued_def idleEvents_def bit_numeral_rec)

text \<open>
  Events set in a row are delivered in that order, each exactly once.
\<close>

theorem event_fifo:
  assumes "ev_inv q []" "distinct es" "\<forall>e\<in>set es. consumerTask q e \<noteq> None"
  shows "\<exists>q'. enqAll gmosEventAppendToQueue es q = Some q' \<and>
    fst (deqN gmosEventPop (length es) q') = map Some es \<and>
    ev_inv (snd (deqN gmosEventPop (length es) q')) []"
  by (rule evq.fifo_order [OF assms])

theorem event_fifo_witness:
  "\<exists>q'. enqAll gmosEventAppendToQueue [4, 2, 9] idleEvents = Some q' \<and>
     fst (deqN gmosEventPop 3 q') = [Some 4, Some 2, Some 9]"
  using event_fifo [OF idleEvents_inv, of "[4, 2, 9]"]
  by (auto simp: idleEvents_def eval_nat_numeral simp del: enqAll.simps deqN.simps)

end
