(* ===== verification/Gmos_Scheduler.thy ===== *)
theory Gmos_Scheduler
  imports Gmos_Events
begin

text \<open>
  The task scheduler of common/src/gmos-scheduler.c. A task is named by its address; the fields
  of all tasks are functions, and the static variables of the file are the remaining fields of
  \<open>sched\<close>, which also holds the event queue.

  The platform timer is the parameter \<open>tm\<close>: reading number \<open>n\<close> returns \<open>tm n\<close>, and
  \<open>timerReads\<close> counts the readings, so the clock may advance between any two of them. The
  execution function of a task is the parameter \<open>tick\<close>: it maps the task and the scheduler
  state to a task status and the state it leaves behind, since it may call the scheduler. The
  build is one without a host operating system (GMOS_CONFIG_HOST_OS_SUPPORT is false).

  \<open>sched_inv s S B Q\<close> is the invariant: the scheduled, background and ready lists are the
  proper lists \<open>S\<close>, \<open>B\<close> and \<open>Q\<close>, and the state field of every task says which list it is on.
\<close>

subsection \<open>State\<close>

datatype taskStateCode =
    TASK_STATE_INITIALISING
  | TASK_STATE_SCHEDULED
  | TASK_STATE_BACKGROUND
  | TASK_STATE_READY
  | TASK_STATE_ACTIVE
  | TASK_STATE_SUSPENDED
  | TASK_STATE_BUSY_WAIT

record sched =
  nextTask :: "nat \<Rightarrow> nat option"
  timestamp :: "nat \<Rightarrow> 32 word"
  taskState :: "nat \<Rightarrow> taskStateCode"
  scheduledTasks :: "nat option"
  backgroundTasks :: "nat option"
  readyTaskListHead :: "nat option"
  readyTaskListEnd :: "nat option"
  currentTask :: "nat option"
  stayAwakeCounter :: nat
  timerReads :: nat
  events :: gmosEvents

type_synonym tickFn = "nat \<Rightarrow> sched \<Rightarrow> (32 word \<times> sched) option"

definition GMOS_TASK_RUN_IMMEDIATE :: "32 word" where
  "GMOS_TASK_RUN_IMMEDIATE = 0"

definition GMOS_TASK_SUSPEND :: "32 word" where
  "GMOS_TASK_SUSPEND = 0x80000000"

text \<open>The macros GMOS_TASK_RUN_LATER and GMOS_TASK_RUN_AFTER, for a delay given as an integer.\<close>

definition GMOS_TASK_RUN_LATER :: "int \<Rightarrow> 32 word" where
  "GMOS_TASK_RUN_LATER delay =
     word_of_int (if delay < 1 then 1 else if delay > 0x7FFFFFFF then 0x7FFFFFFF else delay)"

definition GMOS_TASK_RUN_AFTER :: "int \<Rightarrow> 32 word" where
  "GMOS_TASK_RUN_AFTER delay =
     or 0x80000000
       (word_of_int (if delay < 1 then 1 else if delay > 0x7FFFFFFF then 0x7FFFFFFF else delay))"

definition gmosPalGetTimer :: "(nat \<Rightarrow> 32 word) \<Rightarrow> sched \<Rightarrow> 32 word \<times> sched" where
  "gmosPalGetTimer tm s = (tm (timerReads s), s\<lparr>timerReads := timerReads s + 1\<rparr>)"

definition GMOS_CONFIG_SYSTEM_TIMER_FREQUENCY :: nat where
  "GMOS_CONFIG_SYSTEM_TIMER_FREQUENCY = 1024"

definition GMOS_MS_TO_TICKS :: "nat \<Rightarrow> nat" where
  "GMOS_MS_TO_TICKS ms = u32 (ms * GMOS_CONFIG_SYSTEM_TIMER_FREQUENCY div 1000)"

text \<open>The two timed lists, and stores through a pointer into one of them.\<close>

datatype taskQueue = ScheduledQueue | BackgroundQueue

definition queueHead :: "taskQueue \<Rightarrow> sched \<Rightarrow> nat option" where
  "queueHead L s = (case L of ScheduledQueue \<Rightarrow> scheduledTasks s | BackgroundQueue \<Rightarrow> backgroundTasks s)"

definition setQueueHead :: "taskQueue \<Rightarrow> nat option \<Rightarrow> sched \<Rightarrow> sched" where
  "setQueueHead L v s =
     (case L of
        ScheduledQueue \<Rightarrow> s\<lparr>scheduledTasks := v\<rparr>
      | BackgroundQueue \<Rightarrow> s\<lparr>backgroundTasks := v\<rparr>)"

definition storeTaskPtr :: "taskQueue \<Rightarrow> nat option \<Rightarrow> nat option \<Rightarrow> sched \<Rightarrow> sched" where
  "storeTaskPtr L ptr v s =
     (case ptr of
        None \<Rightarrow> setQueueHead L v s
      | Some t \<Rightarrow> s\<lparr>nextTask := (nextTask s)(t := v)\<rparr>)"

definition setTaskState :: "nat \<Rightarrow> taskStateCode \<Rightarrow> sched \<Rightarrow> sched" where
  "setTaskState t c s = s\<lparr>taskState := (taskState s)(t := c)\<rparr>"

subsection \<open>Task lists\<close>

definition gmosSchedulerMakeTaskReady :: "nat \<Rightarrow> sched \<Rightarrow> sched option" where
  "gmosSchedulerMakeTaskReady t s =
     (let s = setTaskState t TASK_STATE_READY s;
          s = s\<lparr>nextTask := (nextTask s)(t := None)\<rparr>
      in if readyTaskListHead s = None
         then Some (s\<lparr>readyTaskListHead := Some t, readyTaskListEnd := Some t\<rparr>)
         else (case readyTaskListEnd s of
                 None \<Rightarrow> None
               | Some e \<Rightarrow>
                   Some (s\<lparr>nextTask := (nextTask s)(e := Some t), readyTaskListEnd := Some t\<rparr>)))"

text \<open>
  The two search loops: each returns the pointer at which it stops (\<open>None\<close> for the list
  head) and the task it points at.
\<close>

partial_function (option) searchInsert ::
    "(nat \<Rightarrow> nat option) \<Rightarrow> (nat \<Rightarrow> 32 word) \<Rightarrow> 32 word \<Rightarrow> nat option \<Rightarrow> nat option \<Rightarrow>
     (nat option \<times> nat option) option" where
  "searchInsert nx ts new ptr cur =
     (case cur of
        None \<Rightarrow> Some (ptr, None)
      | Some t \<Rightarrow>
          if sint (ts t - new) > 0 then Some (ptr, cur)
          else searchInsert nx ts new (Some t) (nx t))"

partial_function (option) searchTask ::
    "(nat \<Rightarrow> nat option) \<Rightarrow> nat \<Rightarrow> nat option \<Rightarrow> nat option \<Rightarrow>
     (nat option \<times> nat option) option" where
  "searchTask nx task ptr cur =
     (case cur of
        None \<Rightarrow> Some (ptr, None)
      | Some t \<Rightarrow> if t = task then Some (ptr, cur) else searchTask nx task (Some t) (nx t))"

definition gmosSchedulerInsertTask ::
    "(nat \<Rightarrow> 32 word) \<Rightarrow> nat \<Rightarrow> 32 word \<Rightarrow> sched \<Rightarrow> sched option" where
  "gmosSchedulerInsertTask tm t taskStatus s =
     (if taskStatus = GMOS_TASK_RUN_IMMEDIATE then gmosSchedulerMakeTaskReady t s
      else if taskStatus = GMOS_TASK_SUSPEND
      then Some (setTaskState t TASK_STATE_SUSPENDED s)
      else do {
        let (L, s) = (if and taskStatus 0x80000000 = 0
                      then (ScheduledQueue, setTaskState t TASK_STATE_SCHEDULED s)
                      else (BackgroundQueue, setTaskState t TASK_STATE_BACKGROUND s));
        let (now, s) = gmosPalGetTimer tm s;
        let s = s\<lparr>timestamp := (timestamp s)(t := now + and taskStatus 0x7FFFFFFF)\<rparr>;
        (ptr, cur) \<leftarrow>
          searchInsert (nextTask s) (timestamp s) (timestamp s t) None (queueHead L s);
        let s = s\<lparr>nextTask := (nextTask s)(t := cur)\<rparr>;
        Some (storeTaskPtr L ptr (Some t) s) })"

definition gmosSchedulerRemoveTask :: "nat \<Rightarrow> sched \<Rightarrow> sched option" where
  "gmosSchedulerRemoveTask t s =
     (if taskState s t = TASK_STATE_SCHEDULED \<or> taskState s t = TASK_STATE_BACKGROUND
      then do {
        let L = (if taskState s t = TASK_STATE_SCHEDULED then ScheduledQueue else BackgroundQueue);
        (ptr, cur) \<leftarrow> searchTask (nextTask s) t None (queueHead L s);
        Some (if cur = None then s
              else storeTaskPtr L ptr (nextTask s t) (setTaskState t TASK_STATE_SUSPENDED s)) }
      else Some s)"

definition gmosSchedulerGetPendingTask ::
    "(nat \<Rightarrow> 32 word) \<Rightarrow> taskQueue \<Rightarrow> sched \<Rightarrow> nat option \<times> sched" where
  "gmosSchedulerGetPendingTask tm L s =
     (let pendingTask = queueHead L s;
          (currentTime, s) = gmosPalGetTimer tm s
      in case pendingTask of
           None \<Rightarrow> (None, s)
         | Some t \<Rightarrow>
             if sint (timestamp s t - currentTime) \<le> 0
             then (Some t, setQueueHead L (nextTask s t) s)
             else (None, s))"

definition gmosSchedulerGetPendingTaskDelay ::
    "(nat \<Rightarrow> 32 word) \<Rightarrow> taskQueue \<Rightarrow> sched \<Rightarrow> int \<times> sched" where
  "gmosSchedulerGetPendingTaskDelay tm L s =
     (let pendingTask = queueHead L s;
          (currentTime, s) = gmosPalGetTimer tm s
      in ((case pendingTask of
             None \<Rightarrow> 2147483647
           | Some t \<Rightarrow> sint (timestamp s t - currentTime)), s))"

subsection \<open>The scheduler step\<close>

partial_function (option) wakeEventTasks :: "sched \<Rightarrow> sched option" where
  "wakeEventTasks s =
     (let (queuedTask, ev) = gmosEventGetNextConsumer (events s);
          s = s\<lparr>events := ev\<rparr>
      in case queuedTask of
           None \<Rightarrow> Some s
         | Some t \<Rightarrow>
             Option.bind
               (if taskState s t \<noteq> TASK_STATE_READY \<and> taskState s t \<noteq> TASK_STATE_BUSY_WAIT
                then Option.bind (gmosSchedulerRemoveTask t s) (gmosSchedulerMakeTaskReady t)
                else Some s)
               wakeEventTasks)"

partial_function (option) wakePendingTasks ::
    "(nat \<Rightarrow> 32 word) \<Rightarrow> taskQueue \<Rightarrow> sched \<Rightarrow> sched option" where
  "wakePendingTasks tm L s =
     (let (queuedTask, s) = gmosSchedulerGetPendingTask tm L s
      in case queuedTask of
           None \<Rightarrow> Some s
         | Some t \<Rightarrow> Option.bind (gmosSchedulerMakeTaskReady t s) (wakePendingTasks tm L))"

text \<open>Popping the next task off the ready list and marking it active.\<close>

definition popReadyTask :: "sched \<Rightarrow> nat option \<times> sched" where
  "popReadyTask s =
     (case readyTaskListHead s of
        None \<Rightarrow> (None, s)
      | Some t \<Rightarrow>
          (let s = s\<lparr>currentTask := Some t\<rparr>;
               s = s\<lparr>readyTaskListHead := nextTask s t\<rparr>
           in (Some t, setTaskState t TASK_STATE_ACTIVE s)))"

definition gmosSchedulerStep ::
    "(nat \<Rightarrow> 32 word) \<Rightarrow> tickFn \<Rightarrow> sched \<Rightarrow> (nat \<times> sched) option" where
  "gmosSchedulerStep tm tick s = do {
     s \<leftarrow> wakeEventTasks s;
     s \<leftarrow> wakePendingTasks tm ScheduledQueue s;
     s \<leftarrow> wakePendingTasks tm BackgroundQueue s;
     let (popped, s) = popReadyTask s;
     (case popped of
        Some t \<Rightarrow> do {
          (taskStatus, s) \<leftarrow> tick t s;
          cur \<leftarrow> currentTask s;
          s \<leftarrow> gmosSchedulerInsertTask tm cur taskStatus s;
          Some (0, s\<lparr>currentTask := None\<rparr>) }
      | None \<Rightarrow>
          if stayAwakeCounter s = 0
          then (let (delay, s) = gmosSchedulerGetPendingTaskDelay tm ScheduledQueue s
                in Some (if delay < 0 then 0 else nat delay, s))
          else Some (0, s)) }"

subsection \<open>Interface functions\<close>

definition gmosSchedulerTaskStart :: "nat \<Rightarrow> sched \<Rightarrow> sched option" where
  "gmosSchedulerTaskStart newTask s = gmosSchedulerMakeTaskReady newTask s"

definition gmosSchedulerTaskResume :: "nat \<Rightarrow> sched \<Rightarrow> sched option" where
  "gmosSchedulerTaskResume t s =
     (if taskState s t \<noteq> TASK_STATE_READY \<and> taskState s t \<noteq> TASK_STATE_ACTIVE
      then Option.bind (gmosSchedulerRemoveTask t s) (gmosSchedulerMakeTaskReady t)
      else Some s)"

definition gmosSchedulerTaskBusyWait ::
    "(nat \<Rightarrow> 32 word) \<Rightarrow> tickFn \<Rightarrow> sched \<Rightarrow> sched option" where
  "gmosSchedulerTaskBusyWait tm tick s = do {
     idleTask \<leftarrow> currentTask s;
     let s = (setTaskState idleTask TASK_STATE_BUSY_WAIT s)\<lparr>currentTask := None\<rparr>;
     (_, s) \<leftarrow> gmosSchedulerStep tm tick s;
     Some (setTaskState idleTask TASK_STATE_ACTIVE (s\<lparr>currentTask := Some idleTask\<rparr>)) }"

definition gmosSchedulerStayAwake :: "sched \<Rightarrow> sched option" where
  "gmosSchedulerStayAwake s =
     (if stayAwakeCounter s < 4294967295
      then Some (s\<lparr>stayAwakeCounter := stayAwakeCounter s + 1\<rparr>) else None)"

definition gmosSchedulerCanSleep :: "sched \<Rightarrow> sched option" where
  "gmosSchedulerCanSleep s =
     (if stayAwakeCounter s > 0
      then Some (s\<lparr>stayAwakeCounter := stayAwakeCounter s - 1\<rparr>) else None)"

definition gmosSchedulerCurrentTask :: "sched \<Rightarrow> nat option" where
  "gmosSchedulerCurrentTask s = currentTask s"

definition gmosSchedulerPrioritise :: "32 word \<Rightarrow> 32 word \<Rightarrow> 32 word" where
  "gmosSchedulerPrioritise taskStatusA taskStatusB =
     (if taskStatusA = GMOS_TASK_SUSPEND then taskStatusB
      else if taskStatusB = GMOS_TASK_SUSPEND then taskStatusA
      else
        let (a, b) =
          (if and taskStatusA 0x80000000 \<noteq> and taskStatusB 0x80000000
           then (and taskStatusA 0x7FFFFFFF, and taskStatusB 0x7FFFFFFF)
           else (taskStatusA, taskStatusB))
        in if a < b then a else b)"

text \<open>
  Lifecycle monitors: the monitors' \<open>nextMonitor\<close> and \<open>handlerFn\<close> fields and the list head.
  A handler is a function of the status and of a state \<open>'w\<close> it may change.
\<close>

datatype gmosLifecycleStatus =
    SCHEDULER_STARTUP
  | SCHEDULER_SHUTDOWN
  | SCHEDULER_ENTER_POWER_SAVE
  | SCHEDULER_EXIT_POWER_SAVE
  | SCHEDULER_ENTER_DEEP_SLEEP
  | SCHEDULER_EXIT_DEEP_SLEEP

record 'w lifecycle =
  handlerFn :: "nat \<Rightarrow> gmosLifecycleStatus \<Rightarrow> 'w \<Rightarrow> bool \<times> 'w"
  nextMonitor :: "nat \<Rightarrow> nat option"
  lifecycleMonitors :: "nat option"

definition gmosLifecycleAddMonitor ::
    "nat \<Rightarrow> (gmosLifecycleStatus \<Rightarrow> 'w \<Rightarrow> bool \<times> 'w) \<Rightarrow> 'w lifecycle \<Rightarrow> 'w lifecycle" where
  "gmosLifecycleAddMonitor m handlerFunction l =
     l\<lparr>handlerFn := (handlerFn l)(m := handlerFunction),
       nextMonitor := (nextMonitor l)(m := lifecycleMonitors l),
       lifecycleMonitors := Some m\<rparr>"

partial_function (option) notifyLoop ::
    "'w lifecycle \<Rightarrow> gmosLifecycleStatus \<Rightarrow> bool \<Rightarrow> nat option \<Rightarrow> 'w \<Rightarrow> (bool \<times> 'w) option" where
  "notifyLoop l status retVal cur w =
     (case cur of
        None \<Rightarrow> Some (retVal, w)
      | Some m \<Rightarrow>
          (let (ok, w) = handlerFn l m status w
           in notifyLoop l status (retVal \<and> ok) (nextMonitor l m) w))"

definition gmosLifecycleNotify ::
    "'w lifecycle \<Rightarrow> gmosLifecycleStatus \<Rightarrow> 'w \<Rightarrow> (bool \<times> 'w) option" where
  "gmosLifecycleNotify l status w = notifyLoop l status True (lifecycleMonitors l) w"

subsection \<open>The invariant\<close>

definition queueCode :: "taskQueue \<Rightarrow> taskStateCode" where
  "queueCode L = (case L of ScheduledQueue \<Rightarrow> TASK_STATE_SCHEDULED | BackgroundQueue \<Rightarrow> TASK_STATE_BACKGROUND)"

text \<open>
  \<open>T\<close> gives the contents of the two timed lists and \<open>Q\<close> those of the ready list. The tasks
  in \<open>X\<close> are on no list and their state field is not constrained: this is the situation between
  taking a task off one list and putting it on another.
\<close>

definition sched_invx :: "nat set \<Rightarrow> sched \<Rightarrow> (taskQueue \<Rightarrow> nat list) \<Rightarrow> nat list \<Rightarrow> bool" where
  "sched_invx X s T Q \<longleftrightarrow>
     (\<forall>L. llist (nextTask s) (queueHead L s) (T L)) \<and>
     llist (nextTask s) (readyTaskListHead s) Q \<and>
     (Q \<noteq> [] \<longrightarrow> readyTaskListEnd s = Some (last Q)) \<and>
     (\<forall>t. t \<notin> X \<longrightarrow> (\<forall>L. taskState s t = queueCode L \<longleftrightarrow> t \<in> set (T L)) \<and>
                     (taskState s t = TASK_STATE_READY \<longleftrightarrow> t \<in> set Q)) \<and>
     (\<forall>t\<in>X. (\<forall>L. t \<notin> set (T L)) \<and> t \<notin> set Q)"

abbreviation sched_inv :: "sched \<Rightarrow> (taskQueue \<Rightarrow> nat list) \<Rightarrow> nat list \<Rightarrow> bool" where
  "sched_inv \<equiv> sched_invx {}"

text \<open>What the list operations leave alone.\<close>

definition sched_frame :: "nat \<Rightarrow> sched \<Rightarrow> sched \<Rightarrow> bool" where
  "sched_frame t s s' \<longleftrightarrow>
     currentTask s' = currentTask s \<and> stayAwakeCounter s' = stayAwakeCounter s \<and>
     events s' = events s \<and> (\<forall>u. u \<noteq> t \<longrightarrow> taskState s' u = taskState s u \<and> timestamp s' u = timestamp s u)"

lemma queueCode_simps [simp]:
  "queueCode ScheduledQueue = TASK_STATE_SCHEDULED" "queueCode BackgroundQueue = TASK_STATE_BACKGROUND"
  "queueCode L \<noteq> TASK_STATE_READY" "TASK_STATE_READY \<noteq> queueCode L"
  "queueCode L \<noteq> TASK_STATE_ACTIVE" "TASK_STATE_ACTIVE \<noteq> queueCode L"
  "queueCode L \<noteq> TASK_STATE_SUSPENDED" "TASK_STATE_SUSPENDED \<noteq> queueCode L"
  "queueCode L \<noteq> TASK_STATE_BUSY_WAIT" "TASK_STATE_BUSY_WAIT \<noteq> queueCode L"
  "queueCode L = queueCode M \<longleftrightarrow> L = M"
  by (cases L; cases M; simp add: queueCode_def)+

lemma queueHead_simps [simp]:
  "queueHead L (setQueueHead M v s) = (if L = M then v else queueHead L s)"
  "queueHead L (setTaskState t c s) = queueHead L s"
  "queueHead L (s\<lparr>nextTask := nx\<rparr>) = queueHead L s"
  "queueHead L (s\<lparr>timestamp := ts\<rparr>) = queueHead L s"
  "queueHead L (s\<lparr>readyTaskListHead := h\<rparr>) = queueHead L s"
  "queueHead L (s\<lparr>readyTaskListEnd := h\<rparr>) = queueHead L s"
  "queueHead L (s\<lparr>currentTask := h\<rparr>) = queueHead L s"
  "queueHead L (s\<lparr>timerReads := n\<rparr>) = queueHead L s"
  "queueHead L (s\<lparr>stayAwakeCounter := n\<rparr>) = queueHead L s"
  "queueHead L (s\<lparr>events := ev\<rparr>) = queueHead L s"
  by (cases L; cases M; simp add: queueHead_def setQueueHead_def setTaskState_def)+

lemma setQueueHead_fields [simp]:
  "nextTask (setQueueHead L v s) = nextTask s" "timestamp (setQueueHead L v s) = timestamp s"
  "taskState (setQueueHead L v s) = taskState s"
  "readyTaskListHead (setQueueHead L v s) = readyTaskListHead s"
  "readyTaskListEnd (setQueueHead L v s) = readyTaskListEnd s"
  "currentTask (setQueueHead L v s) = currentTask s"
  "stayAwakeCounter (setQueueHead L v s) = stayAwakeCounter s"
  "timerReads (setQueueHead L v s) = timerReads s" "events (setQueueHead L v s) = events s"
  by (cases L; simp add: setQueueHead_def)+

lemma setTaskState_fields [simp]:
  "nextTask (setTaskState t c s) = nextTask s" "timestamp (setTaskState t c s) = timestamp s"
  "taskState (setTaskState t c s) = (taskState s)(t := c)"
  "readyTaskListHead (setTaskState t c s) = readyTaskListHead s"
  "readyTaskListEnd (setTaskState t c s) = readyTaskListEnd s"
  "currentTask (setTaskState t c s) = currentTask s"
  "stayAwakeCounter (setTaskState t c s) = stayAwakeCounter s"
  "timerReads (setTaskState t c s) = timerReads s" "events (setTaskState t c s) = events s"
  by (simp_all add: setTaskState_def)

text \<open>The lists are pairwise disjoint, because a task has one state.\<close>

lemma sched_invx_lists:
  assumes "sched_invx X s T Q"
  shows "llist (nextTask s) (queueHead L s) (T L)" "llist (nextTask s) (readyTaskListHead s) Q"
    "distinct (T L)" "distinct Q" "set (T L) \<inter> set Q = {}" "L \<noteq> M \<Longrightarrow> set (T L) \<inter> set (T M) = {}"
proof -
  show l: "llist (nextTask s) (queueHead L s) (T L)" "llist (nextTask s) (readyTaskListHead s) Q"
    using assms by (auto simp: sched_invx_def)
  then show "distinct (T L)" "distinct Q" using llist_distinct by blast+
  have t: "taskState s t = queueCode L" if "t \<in> set (T L)" for t L
    using assms that unfolding sched_invx_def by metis
  have q: "taskState s t = TASK_STATE_READY" if "t \<in> set Q" for t
    using assms that unfolding sched_invx_def by metis
  show "set (T L) \<inter> set Q = {}" using t q by fastforce
  show "L \<noteq> M \<Longrightarrow> set (T L) \<inter> set (T M) = {}"
    using t by (metis disjoint_iff queueCode_simps(11))
qed

lemma sched_inv_state:
  assumes "sched_inv s T Q"
  shows "taskState s t = queueCode L \<longleftrightarrow> t \<in> set (T L)" "taskState s t = TASK_STATE_READY \<longleftrightarrow> t \<in> set Q"
  using assms by (auto simp: sched_invx_def)

text \<open>Relinking nodes that no other list uses.\<close>

lemma llist_ready_append:
  assumes "llist nx h Q" "t \<notin> set Q" "Q \<noteq> []"
  shows "llist (nx(t := None, last Q := Some t)) h (Q @ [t])"
proof -
  have "llist (nx(t := None)) h Q" using assms(1,2) by (simp add: chain_upd)
  moreover have "llist (nx(t := None)) (Some t) [t]" by simp
  ultimately show ?thesis
    using llist_link [of "nx(t := None)" h Q None "Some t" "[t]"] llist_distinct [OF assms(1)] assms(2,3)
    by simp
qed

lemma MakeTaskReady_ok:
  assumes inv: "sched_invx X s T Q" and t: "\<And>L. t \<notin> set (T L)" "t \<notin> set Q"
  obtains s' where "gmosSchedulerMakeTaskReady t s = Some s'" "sched_invx (X - {t}) s' T (Q @ [t])"
    "sched_frame t s s'" "taskState s' = (taskState s)(t := TASK_STATE_READY)"
    "timestamp s' = timestamp s" "timerReads s' = timerReads s"
proof -
  let ?s1 = "(setTaskState t TASK_STATE_READY s)\<lparr>nextTask := (nextTask s)(t := None)\<rparr>"
  note l = sched_invx_lists [OF inv]
  show thesis
  proof (cases "Q = []")
    case True
    then have h: "readyTaskListHead s = None" using l(2) by simp
    let ?s' = "?s1\<lparr>readyTaskListHead := Some t, readyTaskListEnd := Some t\<rparr>"
    have "gmosSchedulerMakeTaskReady t s = Some ?s'"
      using h by (simp add: gmosSchedulerMakeTaskReady_def Let_def)
    moreover have "sched_invx (X - {t}) ?s' T (Q @ [t])"
      using inv t True unfolding sched_invx_def by (auto simp: chain_upd)
    ultimately show thesis by (rule that) (simp_all add: sched_frame_def)
  next
    case False
    then have h: "readyTaskListHead s \<noteq> None" "readyTaskListEnd s = Some (last Q)"
      using inv llist_Nil_iff [OF l(2)] by (simp_all add: sched_invx_def)
    let ?s' = "?s1\<lparr>nextTask := (nextTask s)(t := None, last Q := Some t), readyTaskListEnd := Some t\<rparr>"
    have "gmosSchedulerMakeTaskReady t s = Some ?s'"
      using h by (auto simp: gmosSchedulerMakeTaskReady_def Let_def)
    moreover have "sched_invx (X - {t}) ?s' T (Q @ [t])"
    proof -
      have "llist (nextTask ?s') (readyTaskListHead ?s') (Q @ [t])"
        using llist_ready_append [OF l(2) t(2) False] by simp
      moreover have "llist (nextTask ?s') (queueHead L ?s') (T L)" for L
      proof -
        have "last Q \<notin> set (T L)" using False l(5) [of L] by (meson disjoint_iff last_in_set)
        then show ?thesis using l(1) t(1) by (simp add: chain_upd)
      qed
      ultimately show ?thesis using inv t unfolding sched_invx_def by auto
    qed
    ultimately show thesis by (rule that) (simp_all add: sched_frame_def)
  qed
qed

text \<open>Taking a task out of a timed list.\<close>

lemma searchTask_llist:
  "llist nx cur (us @ t # vs) \<Longrightarrow> t \<notin> set us \<Longrightarrow>
     searchTask nx t ptr cur = Some (if us = [] then ptr else Some (last us), Some t)"
proof (induction us arbitrary: ptr cur)
  case Nil
  then show ?case by (subst searchTask.simps) simp
next
  case (Cons u us)
  then have [simp]: "cur = Some u" "t \<noteq> u" "u \<noteq> t" by auto
  have "searchTask nx t (Some u) (nx u) = Some (if us = [] then Some u else Some (last us), Some t)"
    using Cons.prems by (intro Cons.IH) auto
  then show ?case by (subst searchTask.simps) simp
qed

lemma chain_splice:
  assumes "llist nx p (us @ ws)" "us \<noteq> []" "llist (nx(last us := q)) q vs" "last us \<notin> set vs"
  shows "llist (nx(last us := q)) p (us @ vs)"
proof -
  from assms(1) obtain r where "chain nx p us r" by (auto simp: chain_append)
  moreover have "distinct us" using llist_distinct [OF assms(1)] by simp
  ultimately have "chain (nx(last us := q)) p us q" using assms(2) by (intro chain_relink)
  with assms(3) show ?thesis by (auto simp: chain_append)
qed

lemma storeTaskPtr_lists:
  assumes l: "\<And>M. llist (nextTask s) (queueHead M s) (T M)"
    "llist (nextTask s) (readyTaskListHead s) Q"
    and d: "\<And>M. M \<noteq> L \<Longrightarrow> set us \<inter> set (T M) = {}" "set us \<inter> set Q = {}"
    and T: "T L = us @ ws" and vs: "llist (nextTask s) v vs" "us \<noteq> [] \<Longrightarrow> last us \<notin> set vs"
  defines "s' \<equiv> storeTaskPtr L (if us = [] then None else Some (last us)) v s"
  shows "llist (nextTask s') (queueHead M s') ((T(L := us @ vs)) M)"
    "llist (nextTask s') (readyTaskListHead s') Q"
proof (atomize (full), cases "us = []")
  case True
  then show "llist (nextTask s') (queueHead M s') ((T(L := us @ vs)) M) \<and>
      llist (nextTask s') (readyTaskListHead s') Q"
    using l vs by (simp add: s'_def storeTaskPtr_def)
next
  case False
  have h: "llist (nextTask s) (queueHead L s) (us @ ws)" using l(1) [of L] T by simp
  have "llist ((nextTask s)(last us := v)) v vs" using vs False by (simp add: chain_upd)
  from chain_splice [OF h False this vs(2) [OF False]]
  have "llist ((nextTask s)(last us := v)) (queueHead L s) (us @ vs)" .
  moreover have "last us \<notin> set Q" using d(2) False by (meson disjoint_iff last_in_set)
  moreover have "M \<noteq> L \<Longrightarrow> last us \<notin> set (T M)"
    using d(1) [of M] False by (meson disjoint_iff last_in_set)
  ultimately show "llist (nextTask s') (queueHead M s') ((T(L := us @ vs)) M) \<and>
      llist (nextTask s') (readyTaskListHead s') Q"
    using l False by (simp add: s'_def storeTaskPtr_def chain_upd)
qed

lemma storeTaskPtr_fields [simp]:
  "timestamp (storeTaskPtr L ptr v s) = timestamp s" "taskState (storeTaskPtr L ptr v s) = taskState s"
  "readyTaskListHead (storeTaskPtr L ptr v s) = readyTaskListHead s"
  "readyTaskListEnd (storeTaskPtr L ptr v s) = readyTaskListEnd s"
  "currentTask (storeTaskPtr L ptr v s) = currentTask s"
  "stayAwakeCounter (storeTaskPtr L ptr v s) = stayAwakeCounter s"
  "timerReads (storeTaskPtr L ptr v s) = timerReads s" "events (storeTaskPtr L ptr v s) = events s"
  by (cases ptr; simp add: storeTaskPtr_def)+

lemma RemoveTask_ok:
  assumes inv: "sched_inv s T Q"
  obtains s' where "gmosSchedulerRemoveTask t s = Some s'"
    "sched_inv s' (\<lambda>L. filter (\<lambda>u. u \<noteq> t) (T L)) Q" "sched_frame t s s'"
    "timestamp s' = timestamp s" "timerReads s' = timerReads s"
    "\<And>L. taskState s' t \<noteq> queueCode L"
    "(\<And>L. taskState s t \<noteq> queueCode L) \<Longrightarrow> s' = s"
proof (cases "\<exists>L. taskState s t = queueCode L")
  case False
  then have st: "\<And>L. t \<notin> set (T L)" using sched_inv_state(1) [OF inv] by blast
  then have "(\<lambda>L. filter (\<lambda>u. u \<noteq> t) (T L)) = T"
    by (intro ext filter_True) blast
  moreover have "gmosSchedulerRemoveTask t s = Some s"
    using False [simplified not_ex, rule_format, of ScheduledQueue]
      False [simplified not_ex, rule_format, of BackgroundQueue]
    by (simp add: gmosSchedulerRemoveTask_def)
  ultimately show thesis using that [of s] inv False by (simp add: sched_frame_def)
next
  case True
  then obtain L where L: "taskState s t = queueCode L" by blast
  note l = sched_invx_lists [OF inv]
  have "t \<in> set (T L)" using sched_inv_state(1) [OF inv] L by blast
  then obtain us vs where T: "T L = us @ t # vs" "t \<notin> set us" by (meson split_list_first)
  have d: "distinct (us @ t # vs)" using l(3) [of L] T(1) by simp
  let ?ptr = "if us = [] then None else Some (last us)"
  let ?s1 = "setTaskState t TASK_STATE_SUSPENDED s"
  let ?s' = "storeTaskPtr L ?ptr (nextTask s t) ?s1"
  have h: "llist (nextTask s) (queueHead L s) (us @ t # vs)" using l(1) [of L] T by simp
  then have lv: "llist (nextTask s) (nextTask s t) vs" by (auto simp: chain_append)
  have lq: "(if taskState s t = TASK_STATE_SCHEDULED then ScheduledQueue else BackgroundQueue) = L"
    "taskState s t = TASK_STATE_SCHEDULED \<or> taskState s t = TASK_STATE_BACKGROUND"
    using L by (cases L; simp)+
  have e: "gmosSchedulerRemoveTask t s = Some ?s'"
    using searchTask_llist [OF h T(2), of None] lq by (simp add: gmosSchedulerRemoveTask_def)
  have "filter (\<lambda>u. u \<noteq> t) us = us" "filter (\<lambda>u. u \<noteq> t) vs = vs"
    using d by (auto intro!: filter_True)
  then have f: "filter (\<lambda>u. u \<noteq> t) (T L) = us @ vs" using T by simp
  have g: "filter (\<lambda>u. u \<noteq> t) (T M) = T M" if "M \<noteq> L" for M
    using l(6) [OF that] T(1) by (intro filter_True) auto
  have T': "(\<lambda>M. filter (\<lambda>u. u \<noteq> t) (T M)) = T(L := us @ vs)" using f g by auto
  have dj: "\<And>M. M \<noteq> L \<Longrightarrow> set us \<inter> set (T M) = {}" "set us \<inter> set Q = {}"
    using l(5) [of L] l(6) [of L, OF not_sym] T(1) by (fastforce, auto)
  have lu: "us \<noteq> [] \<Longrightarrow> last us \<notin> set vs" using d by (auto simp: disjoint_iff)
  have c: "llist (nextTask ?s') (queueHead M ?s') ((T(L := us @ vs)) M)"
    "llist (nextTask ?s') (readyTaskListHead ?s') Q" for M
    using storeTaskPtr_lists [where s = ?s1 and T = T and Q = Q and L = L and us = us and
        ws = "t # vs" and v = "nextTask s t" and vs = vs] l(1,2) dj T(1) lv lu
    by simp_all
  have tn1: "t \<notin> set Q" using l(5) [of L] T(1) by auto
  have tn2: "t \<notin> set (T M)" if "M \<noteq> L" for M using l(6) [OF that] T(1) by auto
  have "(taskState ?s' x = queueCode M) = (x \<in> set ((T(L := us @ vs)) M))" for x M
    using sched_inv_state(1) [OF inv, of x M] tn2 [of M] T d by auto
  moreover have "(taskState ?s' x = TASK_STATE_READY) = (x \<in> set Q)" for x
    using sched_inv_state(2) [OF inv, of x] tn1 by auto
  moreover have "Q \<noteq> [] \<longrightarrow> readyTaskListEnd ?s' = Some (last Q)"
    using inv by (simp add: sched_invx_def)
  ultimately have "sched_inv ?s' (T(L := us @ vs)) Q"
    using c unfolding sched_invx_def by blast
  moreover have "(\<And>M. taskState s t \<noteq> queueCode M) \<Longrightarrow> ?s' = s" using L by blast
  ultimately show thesis
    by (intro that [OF e]) (simp_all add: T' sched_frame_def)
qed

text \<open>Putting a task into a timed list: behind every task that is not later.\<close>

definition notLater :: "(nat \<Rightarrow> 32 word) \<Rightarrow> 32 word \<Rightarrow> nat \<Rightarrow> bool" where
  "notLater ts new u \<longleftrightarrow> sint (ts u - new) \<le> 0"

definition insertTimed :: "(nat \<Rightarrow> 32 word) \<Rightarrow> nat \<Rightarrow> nat list \<Rightarrow> nat list" where
  "insertTimed ts t xs =
     takeWhile (notLater ts (ts t)) xs @ t # dropWhile (notLater ts (ts t)) xs"

lemma searchInsert_llist:
  "llist nx cur xs \<Longrightarrow> searchInsert nx ts new ptr cur =
     Some (let us = takeWhile (notLater ts new) xs in if us = [] then ptr else Some (last us),
           ptr_at (dropWhile (notLater ts new) xs) 0)"
proof (induction xs arbitrary: ptr cur)
  case Nil
  then show ?case by (simp add: searchInsert.simps)
next
  case (Cons x xs)
  then have [simp]: "cur = Some x" by simp
  show ?case
  proof (cases "notLater ts new x")
    case True
    have "searchInsert nx ts new (Some x) (nx x) =
        Some (let us = takeWhile (notLater ts new) xs in if us = [] then Some x else Some (last us),
              ptr_at (dropWhile (notLater ts new) xs) 0)"
      using Cons.prems by (intro Cons.IH) simp
    then show ?thesis using True by (subst searchInsert.simps) (simp add: notLater_def Let_def)
  next
    case False
    then show ?thesis by (subst searchInsert.simps) (simp add: notLater_def)
  qed
qed

lemma InsertTask_timed_ok:
  assumes inv: "sched_inv s T Q" and st: "\<And>L. t \<notin> set (T L)" "t \<notin> set Q"
    and status: "taskStatus \<noteq> GMOS_TASK_RUN_IMMEDIATE" "taskStatus \<noteq> GMOS_TASK_SUSPEND"
    and L: "L = (if and taskStatus 0x80000000 = 0 then ScheduledQueue else BackgroundQueue)"
    and ts: "ts = (timestamp s)(t := tm (timerReads s) + and taskStatus 0x7FFFFFFF)"
  obtains s' where "gmosSchedulerInsertTask tm t taskStatus s = Some s'"
    "sched_inv s' (T(L := insertTimed ts t (T L))) Q" "sched_frame t s s'"
    "timestamp s' = ts" "timerReads s' = timerReads s + 1"
    "taskState s' = (taskState s)(t := queueCode L)"
proof -
  note l = sched_invx_lists [OF inv]
  let ?s1 = "(setTaskState t (queueCode L) s)\<lparr>timerReads := timerReads s + 1, timestamp := ts\<rparr>"
  define us ws where "us = takeWhile (notLater ts (ts t)) (T L)"
    and "ws = dropWhile (notLater ts (ts t)) (T L)"
  have T: "T L = us @ ws" by (simp add: us_def ws_def)
  have d: "distinct (us @ ws)" "t \<notin> set us" "t \<notin> set ws" using l(3) [of L] st(1) [of L] T by auto
  let ?ptr = "if us = [] then None else Some (last us)"
  let ?s2 = "?s1\<lparr>nextTask := (nextTask s)(t := ptr_at ws 0)\<rparr>"
  let ?s' = "storeTaskPtr L ?ptr (Some t) ?s2"
  have "searchInsert (nextTask s) ts (ts t) None (queueHead L s) = Some (?ptr, ptr_at ws 0)"
    using searchInsert_llist [OF l(1) [of L], of ts "ts t" None] by (simp add: us_def ws_def Let_def)
  then have e: "gmosSchedulerInsertTask tm t taskStatus s = Some ?s'"
    using status L ts by (auto simp: gmosSchedulerInsertTask_def gmosPalGetTimer_def)
  have lw: "llist (nextTask s) (ptr_at ws 0) ws"
  proof -
    obtain r where "llist (nextTask s) r ws" using l(1) [of L] T by (auto simp: chain_append)
    then show ?thesis using llist_ptr_at by metis
  qed
  have c: "llist (nextTask ?s') (queueHead M ?s') ((T(L := us @ t # ws)) M)"
    "llist (nextTask ?s') (readyTaskListHead ?s') Q" for M
  proof -
    have p: "\<And>M. llist (nextTask ?s2) (queueHead M ?s2) (T M)"
      "llist (nextTask ?s2) (readyTaskListHead ?s2) Q"
      "llist (nextTask ?s2) (Some t) (t # ws)" "us \<noteq> [] \<Longrightarrow> last us \<notin> set (t # ws)"
      using l(1,2) st lw d by (auto simp: chain_upd disjoint_iff)
    have q: "\<And>M. M \<noteq> L \<Longrightarrow> set us \<inter> set (T M) = {}" "set us \<inter> set Q = {}"
      using l(5) [of L] l(6) [of L, OF not_sym] T by (fastforce, auto)
    from storeTaskPtr_lists [where s = ?s2 and T = T and Q = Q and L = L and us = us and
        ws = ws and v = "Some t" and vs = "t # ws", OF p(1,2) q T p(3,4)]
    show "llist (nextTask ?s') (queueHead M ?s') ((T(L := us @ t # ws)) M)"
      "llist (nextTask ?s') (readyTaskListHead ?s') Q" by simp_all
  qed
  have "(taskState ?s' x = queueCode M) = (x \<in> set ((T(L := us @ t # ws)) M))" for x M
    using sched_inv_state(1) [OF inv, of x M] st T by auto
  moreover have "(taskState ?s' x = TASK_STATE_READY) = (x \<in> set Q)" for x
    using sched_inv_state(2) [OF inv, of x] st(2) by auto
  moreover have "Q \<noteq> [] \<longrightarrow> readyTaskListEnd ?s' = Some (last Q)"
    using inv by (simp add: sched_invx_def)
  ultimately have "sched_inv ?s' (T(L := us @ t # ws)) Q"
    using c unfolding sched_invx_def by blast
  moreover have "us @ t # ws = insertTimed ts t (T L)" by (simp add: insertTimed_def us_def ws_def)
  ultimately have "sched_inv ?s' (T(L := insertTimed ts t (T L))) Q" by simp
  then show thesis by (rule that [OF e]) (use ts in \<open>simp_all add: sched_frame_def\<close>)
qed

lemma InsertTask_immediate_ok:
  assumes "sched_inv s T Q" "\<And>L. t \<notin> set (T L)" "t \<notin> set Q"
  obtains s' where "gmosSchedulerInsertTask tm t GMOS_TASK_RUN_IMMEDIATE s = Some s'"
    "sched_inv s' T (Q @ [t])" "sched_frame t s s'" "timestamp s' = timestamp s"
    "taskState s' = (taskState s)(t := TASK_STATE_READY)"
proof -
  from MakeTaskReady_ok [OF assms] obtain s' where r:
    "gmosSchedulerMakeTaskReady t s = Some s'" "sched_invx ({} - {t}) s' T (Q @ [t])"
    "sched_frame t s s'" "taskState s' = (taskState s)(t := TASK_STATE_READY)"
    "timestamp s' = timestamp s" by blast
  then show thesis by (intro that [of s']) (simp_all add: gmosSchedulerInsertTask_def)
qed

lemma InsertTask_suspend_ok:
  assumes inv: "sched_inv s T Q" and st: "\<And>L. t \<notin> set (T L)" "t \<notin> set Q"
  obtains s' where "gmosSchedulerInsertTask tm t GMOS_TASK_SUSPEND s = Some s'"
    "sched_inv s' T Q" "sched_frame t s s'" "timestamp s' = timestamp s"
    "taskState s' = (taskState s)(t := TASK_STATE_SUSPENDED)"
proof -
  have "sched_inv (setTaskState t TASK_STATE_SUSPENDED s) T Q"
    using inv st unfolding sched_invx_def by auto
  moreover have "gmosSchedulerInsertTask tm t GMOS_TASK_SUSPEND s =
      Some (setTaskState t TASK_STATE_SUSPENDED s)"
    by (simp add: gmosSchedulerInsertTask_def GMOS_TASK_SUSPEND_def GMOS_TASK_RUN_IMMEDIATE_def)
  ultimately show thesis
    by (intro that [of "setTaskState t TASK_STATE_SUSPENDED s"]) (simp_all add: sched_frame_def)
qed

subsection \<open>Waking tasks\<close>

text \<open>What waking leaves alone.\<close>

definition wake_frame :: "sched \<Rightarrow> sched \<Rightarrow> bool" where
  "wake_frame s s' \<longleftrightarrow>
     currentTask s' = currentTask s \<and> stayAwakeCounter s' = stayAwakeCounter s \<and>
     timestamp s' = timestamp s \<and>
     (\<forall>u. taskState s u = TASK_STATE_BUSY_WAIT \<longrightarrow> taskState s' u = TASK_STATE_BUSY_WAIT)"

lemma wake_frame_trans: "wake_frame a b \<Longrightarrow> wake_frame b c \<Longrightarrow> wake_frame a c"
  by (simp add: wake_frame_def)

text \<open>
  The tasks of a timed list that become ready: a prefix \<open>us\<close>, each of whose members is due at
  the timer reading made for it, followed by the end of the list or a task that is not due.
\<close>

definition dueSplit :: "(nat \<Rightarrow> 32 word) \<Rightarrow> (nat \<Rightarrow> 32 word) \<Rightarrow> nat \<Rightarrow> nat list \<Rightarrow> nat list \<Rightarrow> bool" where
  "dueSplit tm ts n us vs \<longleftrightarrow>
     (\<forall>i < length us. sint (ts (us ! i) - tm (n + i)) \<le> 0) \<and>
     (vs \<noteq> [] \<longrightarrow> sint (ts (hd vs) - tm (n + length us)) > 0)"

lemma sched_invx_pop:
  assumes inv: "sched_inv s T Q" and T: "T L = t # xs"
  shows "sched_invx {t} (setQueueHead L (nextTask s t) (s\<lparr>timerReads := n\<rparr>)) (T(L := xs)) Q"
proof -
  note l = sched_invx_lists [OF inv]
  have x: "llist (nextTask s) (nextTask s t) xs" using l(1) [of L] T by simp
  have t: "t \<notin> set xs" "t \<notin> set Q" using l(3,5) [of L] T by auto
  have tM: "t \<notin> set (T M)" if "M \<noteq> L" for M using l(6) [OF that] T by auto
  show ?thesis
    unfolding sched_invx_def
  proof (intro conjI allI impI ballI)
    fix u M assume "u \<notin> {t}"
    then show "(taskState (setQueueHead L (nextTask s t) (s\<lparr>timerReads := n\<rparr>)) u = queueCode M) =
        (u \<in> set ((T(L := xs)) M))"
      using sched_inv_state(1) [OF inv, of u M] T by auto
  qed (use inv l x t tM in \<open>auto simp: sched_invx_def\<close>)
qed

lemma wakePendingTasks_ok:
  "sched_inv s T Q \<Longrightarrow> T L = xs \<Longrightarrow>
   \<exists>s' us vs. wakePendingTasks tm L s = Some s' \<and> xs = us @ vs \<and>
     dueSplit tm (timestamp s) (timerReads s) us vs \<and> sched_inv s' (T(L := vs)) (Q @ us) \<and>
     timerReads s' = timerReads s + length us + 1 \<and> events s' = events s \<and> wake_frame s s'"
proof (induction xs arbitrary: s T Q)
  case Nil
  then have "queueHead L s = None" using sched_invx_lists(1) [OF Nil.prems(1), of L] by simp
  then have "wakePendingTasks tm L s = Some (s\<lparr>timerReads := timerReads s + 1\<rparr>)"
    by (simp add: wakePendingTasks.simps gmosSchedulerGetPendingTask_def gmosPalGetTimer_def)
  moreover have "sched_inv (s\<lparr>timerReads := timerReads s + 1\<rparr>) (T(L := [])) Q"
    using Nil.prems by (simp add: sched_invx_def fun_upd_idem)
  ultimately show ?case
    by (intro exI [of _ "s\<lparr>timerReads := timerReads s + 1\<rparr>"] exI [of _ "[]"])
       (simp add: dueSplit_def wake_frame_def fun_upd_def)
next
  case (Cons x xs)
  then have h: "queueHead L s = Some x" using sched_invx_lists(1) [OF Cons.prems(1), of L] by simp
  let ?s1 = "s\<lparr>timerReads := timerReads s + 1\<rparr>"
  show ?case
  proof (cases "sint (timestamp s x - tm (timerReads s)) \<le> 0")
    case False
    then have "wakePendingTasks tm L s = Some ?s1"
      using h by (simp add: wakePendingTasks.simps gmosSchedulerGetPendingTask_def gmosPalGetTimer_def)
    moreover have "sched_inv ?s1 (T(L := x # xs)) Q"
      using Cons.prems by (simp add: sched_invx_def fun_upd_idem)
    moreover have "dueSplit tm (timestamp s) (timerReads s) [] (x # xs)"
      using False by (simp add: dueSplit_def)
    ultimately show ?thesis
      by - (rule exI [of _ ?s1], rule exI [of _ "[]"], rule exI [of _ "x # xs"],
            simp add: wake_frame_def fun_upd_def)
  next
    case True
    let ?s2 = "setQueueHead L (nextTask s x) ?s1"
    have i2: "sched_invx {x} ?s2 (T(L := xs)) Q" by (rule sched_invx_pop [OF Cons.prems])
    have n: "\<And>M. x \<notin> set ((T(L := xs)) M)" "x \<notin> set Q" using i2 by (auto simp: sched_invx_def)
    obtain s3 where r: "gmosSchedulerMakeTaskReady x ?s2 = Some s3"
      "sched_invx ({x} - {x}) s3 (T(L := xs)) (Q @ [x])" "sched_frame x ?s2 s3"
      "taskState s3 = (taskState ?s2)(x := TASK_STATE_READY)"
      "timestamp s3 = timestamp ?s2" "timerReads s3 = timerReads ?s2"
      by (rule MakeTaskReady_ok [OF i2 n])
    have i3: "sched_inv s3 (T(L := xs)) (Q @ [x])" using r(2) by simp
    have "taskState s x \<noteq> TASK_STATE_BUSY_WAIT"
      using sched_inv_state(1) [OF Cons.prems(1), of x L] Cons.prems(2) by (cases L) auto
    then have f: "wake_frame s s3" using r(3-5) by (auto simp: wake_frame_def sched_frame_def)
    have "(T(L := xs)) L = xs" by simp
    from Cons.IH [OF i3 this, unfolded fun_upd_upd append_assoc] obtain s' us vs where
      q: "wakePendingTasks tm L s3 = Some s'" "xs = us @ vs"
      "dueSplit tm (timestamp s3) (timerReads s3) us vs"
      "sched_inv s' (T(L := vs)) (Q @ [x] @ us)"
      "timerReads s' = timerReads s3 + length us + 1" "events s' = events s3" "wake_frame s3 s'"
      by blast
    have "wakePendingTasks tm L s = Some s'"
      using h True r(1) q(1)
      by (subst wakePendingTasks.simps) (simp add: gmosSchedulerGetPendingTask_def gmosPalGetTimer_def)
    moreover have "dueSplit tm (timestamp s) (timerReads s) (x # us) vs"
      using q(3) True r(5,6) unfolding dueSplit_def
      by (auto simp: less_Suc_eq_0_disj)
    moreover have "timerReads s' = timerReads s + length (x # us) + 1" "events s' = events s"
      using q(5,6) r(3,6) by (simp_all add: sched_frame_def)
    ultimately show ?thesis using q(2,4) wake_frame_trans [OF f q(7)]
      by - (rule exI [of _ s'], rule exI [of _ "x # us"], rule exI [of _ vs],
            simp add: fun_upd_def)
  qed
qed

text \<open>
  The tasks woken by events: each consumer in turn joins the ready list unless it is on it or
  in a busy wait, and leaves the timed lists.
\<close>

primrec wakeQ :: "nat set \<Rightarrow> nat list \<Rightarrow> nat list \<Rightarrow> nat list" where
  "wakeQ busy [] Q = Q"
| "wakeQ busy (t # ts) Q = wakeQ busy ts (if t \<in> set Q \<or> t \<in> busy then Q else Q @ [t])"

definition busyTasks :: "sched \<Rightarrow> nat set" where
  "busyTasks s = {t. taskState s t = TASK_STATE_BUSY_WAIT}"

definition ev_ready :: "gmosEvents \<Rightarrow> nat list \<Rightarrow> bool" where
  "ev_ready q es \<longleftrightarrow> ev_inv q es \<and> (\<forall>e\<in>set es. consumerTask q e \<noteq> None)"

lemma wakeQ_mono: "set Q \<subseteq> set (wakeQ busy ts Q)"
proof (induction ts arbitrary: Q)
  case (Cons t ts)
  let ?Q = "if t \<in> set Q \<or> t \<in> busy then Q else Q @ [t]"
  have "set Q \<subseteq> set ?Q" by auto
  with Cons.IH [of ?Q] show ?case unfolding wakeQ.simps by blast
qed simp

lemma sched_invx_events [simp]: "sched_invx X (s\<lparr>events := ev\<rparr>) T Q = sched_invx X s T Q"
  by (simp add: sched_invx_def)

lemma wakeEventTasks_ok:
  "sched_inv s T Q \<Longrightarrow> ev_ready (events s) es \<Longrightarrow>
   \<exists>s'. wakeEventTasks s = Some s' \<and>
     (let Q' = wakeQ (busyTasks s) (map (the \<circ> consumerTask (events s)) es) Q
      in sched_inv s' (\<lambda>L. filter (\<lambda>t. t \<notin> set Q') (T L)) Q') \<and>
     ev_ready (events s') [] \<and> wake_frame s s' \<and> timerReads s' = timerReads s"
proof (induction es arbitrary: s T Q)
  case Nil
  let ?s' = "s\<lparr>events := snd (gmosEventGetNextConsumer (events s))\<rparr>"
  have g: "fst (gmosEventGetNextConsumer (events s)) = None" "ev_ready (events ?s') []"
    using GetNextConsumer_ok [of "events s" "[]"] Nil.prems(2) by (simp_all add: ev_ready_def)
  have "wakeEventTasks s = Some ?s'"
    using g(1) by (subst wakeEventTasks.simps) (simp add: split_def)
  moreover have "filter (\<lambda>t. t \<notin> set Q) (T L) = T L" for L
    using sched_invx_lists(5) [OF Nil.prems(1), of L] by (intro filter_True) auto
  ultimately show ?case using Nil.prems(1) g(2) by (simp add: wake_frame_def)
next
  case (Cons e es)
  obtain t where t: "consumerTask (events s) e = Some t" using Cons.prems(2) by (auto simp: ev_ready_def)
  define ev where "ev = snd (gmosEventGetNextConsumer (events s))"
  let ?s1 = "s\<lparr>events := ev\<rparr>"
  have evi: "ev_inv (events s) (e # es)" using Cons.prems(2) by (simp add: ev_ready_def)
  note g = GetNextConsumer_ok [OF evi, folded ev_def]
  have g1: "gmosEventGetNextConsumer (events s) = (Some t, ev)"
    using g(1) t by (simp add: prod_eq_iff ev_def)
  have r1: "ev_ready ev es" using g(2,3) Cons.prems(2) by (auto simp: ev_ready_def)
  have i1: "sched_inv ?s1 T Q" using Cons.prems(1) by simp
  let ?Q1 = "if t \<in> set Q \<or> t \<in> busyTasks s then Q else Q @ [t]"
  obtain s2 where s2: "(if taskState ?s1 t \<noteq> TASK_STATE_READY \<and> taskState ?s1 t \<noteq> TASK_STATE_BUSY_WAIT
      then Option.bind (gmosSchedulerRemoveTask t ?s1) (gmosSchedulerMakeTaskReady t)
      else Some ?s1) = Some s2"
    "sched_inv s2 (\<lambda>L. filter (\<lambda>u. u \<notin> set ?Q1) (T L)) ?Q1" "events s2 = ev"
    "wake_frame s s2" "busyTasks s2 = busyTasks s" "timerReads s2 = timerReads s"
  proof (cases "t \<in> set Q \<or> t \<in> busyTasks s")
    case True
    then have "taskState s t = TASK_STATE_READY \<or> taskState s t = TASK_STATE_BUSY_WAIT"
      using sched_inv_state(2) [OF Cons.prems(1), of t] by (auto simp: busyTasks_def)
    moreover have "filter (\<lambda>u. u \<notin> set Q) (T L) = T L" for L
      using sched_invx_lists(5) [OF Cons.prems(1), of L] by (intro filter_True) auto
    ultimately show thesis
      using True Cons.prems(1) by (intro that [of ?s1]) (auto simp: wake_frame_def busyTasks_def)
  next
    case False
    then have n: "taskState s t \<noteq> TASK_STATE_READY" "taskState s t \<noteq> TASK_STATE_BUSY_WAIT"
      using sched_inv_state(2) [OF Cons.prems(1), of t] by (auto simp: busyTasks_def)
    obtain sa where a: "gmosSchedulerRemoveTask t ?s1 = Some sa"
      "sched_inv sa (\<lambda>L. filter (\<lambda>u. u \<noteq> t) (T L)) Q" "sched_frame t ?s1 sa"
      "timestamp sa = timestamp ?s1" "timerReads sa = timerReads ?s1"
      by (rule RemoveTask_ok [OF i1])
    have "t \<notin> set (filter (\<lambda>u. u \<noteq> t) (T L))" "t \<notin> set Q" for L using False by auto
    from MakeTaskReady_ok [OF a(2) this] obtain sb where b:
      "gmosSchedulerMakeTaskReady t sa = Some sb"
      "sched_invx ({} - {t}) sb (\<lambda>L. filter (\<lambda>u. u \<noteq> t) (T L)) (Q @ [t])" "sched_frame t sa sb"
      "taskState sb = (taskState sa)(t := TASK_STATE_READY)" "timestamp sb = timestamp sa"
      "timerReads sb = timerReads sa" by blast
    have "filter (\<lambda>u. u \<noteq> t) (T L) = filter (\<lambda>u. u \<notin> set (Q @ [t])) (T L)" for L
      using sched_invx_lists(5) [OF Cons.prems(1), of L] by (intro filter_cong) auto
    moreover have "taskState sb u = TASK_STATE_BUSY_WAIT \<longleftrightarrow> taskState s u = TASK_STATE_BUSY_WAIT" for u
      using n a(3) b(4) by (cases "u = t") (auto simp: sched_frame_def)
    ultimately show thesis
      using False n a b(1-3,5,6)
      by (intro that [of sb]) (auto simp: wake_frame_def busyTasks_def sched_frame_def)
  qed
  have c2: "consumerTask (events s2) = consumerTask (events s)" using s2(3) g(3) by simp
  have "ev_ready (events s2) es" using r1 s2(3) by simp
  from Cons.IH [OF s2(2) this] obtain s' where
    q: "wakeEventTasks s2 = Some s'"
    "let Q' = wakeQ (busyTasks s) (map (the \<circ> consumerTask (events s)) es) ?Q1
      in sched_inv s' (\<lambda>L. filter (\<lambda>t. t \<notin> set Q') (filter (\<lambda>u. u \<notin> set ?Q1) (T L))) Q'"
    "ev_ready (events s') []" "wake_frame s2 s'" "timerReads s' = timerReads s2"
    unfolding s2(5) c2 by blast
  have "wakeEventTasks s = Some s'"
    using g1 s2(1) q(1) by (subst wakeEventTasks.simps) simp
  moreover have "let Q' = wakeQ (busyTasks s) (map (the \<circ> consumerTask (events s)) (e # es)) Q
      in sched_inv s' (\<lambda>L. filter (\<lambda>t. t \<notin> set Q') (T L)) Q'"
  proof -
    define Q' where "Q' = wakeQ (busyTasks s) (map (the \<circ> consumerTask (events s)) es) ?Q1"
    have "filter (\<lambda>t. t \<notin> set Q') (filter (\<lambda>u. u \<notin> set ?Q1) xs) = filter (\<lambda>t. t \<notin> set Q') xs" for xs
      using wakeQ_mono [of ?Q1] unfolding filter_filter Q'_def by (intro filter_cong) blast+
    moreover have "wakeQ (busyTasks s) (map (the \<circ> consumerTask (events s)) (e # es)) Q = Q'"
      using t by (simp add: Q'_def)
    ultimately show ?thesis using q(2) unfolding Let_def Q'_def [symmetric] by simp
  qed
  moreover have "timerReads s' = timerReads s" using q(5) s2(6) by simp
  ultimately show ?case using q(3) wake_frame_trans [OF s2(4) q(4)] by blast
qed

subsection \<open>Running a task\<close>

lemma popReadyTask_Nil: "sched_inv s T [] \<Longrightarrow> popReadyTask s = (None, s)"
  by (simp add: popReadyTask_def sched_invx_def llist_Nil_iff [symmetric])

lemma popReadyTask_Cons:
  assumes inv: "sched_inv s T (t # Q)"
  obtains s' where "popReadyTask s = (Some t, s')" "sched_inv s' T Q" "currentTask s' = Some t"
    "taskState s' = (taskState s)(t := TASK_STATE_ACTIVE)" "timestamp s' = timestamp s"
    "events s' = events s" "stayAwakeCounter s' = stayAwakeCounter s" "timerReads s' = timerReads s"
proof -
  note l = sched_invx_lists [OF inv]
  let ?s' = "setTaskState t TASK_STATE_ACTIVE
    (s\<lparr>currentTask := Some t, readyTaskListHead := nextTask s t\<rparr>)"
  have h: "readyTaskListHead s = Some t" "llist (nextTask s) (nextTask s t) Q" "t \<notin> set Q"
    using l(2,4) by auto
  have "t \<notin> set (T L)" for L using l(5) [of L] by auto
  then have "(taskState ?s' x = queueCode M) = (x \<in> set (T M))" for x M
    using sched_inv_state(1) [OF inv, of x M] by auto
  moreover have "(taskState ?s' x = TASK_STATE_READY) = (x \<in> set Q)" for x
    using sched_inv_state(2) [OF inv, of x] h(3) by auto
  moreover have "Q \<noteq> [] \<longrightarrow> readyTaskListEnd ?s' = Some (last Q)"
    using inv by (simp add: sched_invx_def)
  ultimately have "sched_inv ?s' T Q" using l(1) h(2) unfolding sched_invx_def by auto
  then show thesis
    by (intro that [of ?s']) (simp_all add: popReadyTask_def h(1) Let_def)
qed

text \<open>The ready list is a queue.\<close>

interpretation rdy: fifo "\<lambda>s Q. \<exists>T. sched_inv s T Q"
  "\<lambda>s t. \<forall>L. taskState s t \<noteq> queueCode L" gmosSchedulerMakeTaskReady popReadyTask
proof (unfold_locales, goal_cases)
  case (1 s Q t)
  then obtain T where T: "sched_inv s T Q" by blast
  then have "\<And>L. t \<notin> set (T L)" using 1(2) sched_inv_state(1) by blast
  from MakeTaskReady_ok [OF T this 1(3)] obtain s' where
    "gmosSchedulerMakeTaskReady t s = Some s'" "sched_invx ({} - {t}) s' T (Q @ [t])"
    "taskState s' = (taskState s)(t := TASK_STATE_READY)" by blast
  then show ?case by auto
next
  case (2 s)
  then show ?case using popReadyTask_Nil by auto
next
  case (3 s t Q)
  then obtain T where "sched_inv s T (t # Q)" by blast
  from popReadyTask_Cons [OF this] show ?case by (metis fst_conv snd_conv)
qed

text \<open>
  What a task finds when it is called, and what it must leave behind: the invariant, its own
  identity and state, and the tasks in a busy wait.
\<close>

definition sched_good :: "sched \<Rightarrow> bool" where
  "sched_good s \<longleftrightarrow> (\<exists>T Q es. sched_inv s T Q \<and> ev_ready (events s) es)"

definition tick_env :: "nat \<Rightarrow> sched \<Rightarrow> bool" where
  "tick_env t s \<longleftrightarrow> sched_good s \<and> currentTask s = Some t \<and> taskState s t = TASK_STATE_ACTIVE"

definition tick_ok :: "tickFn \<Rightarrow> bool" where
  "tick_ok tick \<longleftrightarrow>
     (\<forall>t s. tick_env t s \<longrightarrow>
        (\<exists>st s'. tick t s = Some (st, s') \<and> tick_env t s' \<and> busyTasks s \<subseteq> busyTasks s'))"

lemma InsertTask_good:
  assumes "tick_env t s"
  obtains s' where "gmosSchedulerInsertTask tm t st s = Some s'" "sched_good s'"
    "busyTasks s' = busyTasks s" "stayAwakeCounter s' = stayAwakeCounter s"
proof -
  from assms obtain T Q es where i: "sched_inv s T Q" "ev_ready (events s) es"
    "taskState s t = TASK_STATE_ACTIVE" by (auto simp: tick_env_def sched_good_def)
  have n: "\<And>L. t \<notin> set (T L)" "t \<notin> set Q"
    using sched_inv_state [OF i(1), of t] i(3) by auto
  have b: "busyTasks s' = busyTasks s"
    if "sched_frame t s s'" "taskState s' t \<noteq> TASK_STATE_BUSY_WAIT" for s'
  proof -
    have "taskState s' u = TASK_STATE_BUSY_WAIT \<longleftrightarrow> taskState s u = TASK_STATE_BUSY_WAIT" for u
      using that i(3) by (cases "u = t") (simp_all add: sched_frame_def)
    then show ?thesis by (simp add: busyTasks_def)
  qed
  consider "st = GMOS_TASK_RUN_IMMEDIATE" | "st = GMOS_TASK_SUSPEND"
    | "st \<noteq> GMOS_TASK_RUN_IMMEDIATE" "st \<noteq> GMOS_TASK_SUSPEND" by blast
  then obtain s' T' Q' where r: "gmosSchedulerInsertTask tm t st s = Some s'" "sched_inv s' T' Q'"
    "sched_frame t s s'" "taskState s' t \<noteq> TASK_STATE_BUSY_WAIT"
  proof cases
    case 1
    show thesis
      by (rule InsertTask_immediate_ok [OF i(1) n, of tm]) (rule that, use 1 in auto)
  next
    case 2
    show thesis
      by (rule InsertTask_suspend_ok [OF i(1) n, of tm]) (rule that, use 2 in auto)
  next
    case 3
    show thesis
      by (rule InsertTask_timed_ok [OF i(1) n 3 refl refl, of tm]) (rule that, auto)
  qed
  have "sched_good s'" using r(2,3) i(2) by (auto simp: sched_good_def sched_frame_def)
  then show thesis using that [OF r(1)] b [OF r(3,4)] r(3) by (simp add: sched_frame_def)
qed

text \<open>
  The state after the wake-up phases of a step: the consumers of all pending events and then the
  due tasks of the two timed lists have joined the ready list, in that order.
\<close>

definition wokenState ::
    "(nat \<Rightarrow> 32 word) \<Rightarrow> sched \<Rightarrow> (taskQueue \<Rightarrow> nat list) \<Rightarrow> nat list \<Rightarrow> nat list \<Rightarrow> sched \<Rightarrow>
     (taskQueue \<Rightarrow> nat list) \<Rightarrow> nat list \<Rightarrow> bool" where
  "wokenState tm s T Q es s' T' Q' \<longleftrightarrow>
     (let Q1 = wakeQ (busyTasks s) (map (the \<circ> consumerTask (events s)) es) Q;
          S1 = filter (\<lambda>t. t \<notin> set Q1) (T ScheduledQueue);
          B1 = filter (\<lambda>t. t \<notin> set Q1) (T BackgroundQueue)
      in \<exists>us ub. S1 = us @ T' ScheduledQueue \<and> B1 = ub @ T' BackgroundQueue \<and>
           dueSplit tm (timestamp s) (timerReads s) us (T' ScheduledQueue) \<and>
           dueSplit tm (timestamp s) (timerReads s + length us + 1) ub (T' BackgroundQueue) \<and>
           Q' = Q1 @ us @ ub) \<and>
     sched_inv s' T' Q' \<and> ev_ready (events s') [] \<and> wake_frame s s'"

definition wakeAll :: "(nat \<Rightarrow> 32 word) \<Rightarrow> sched \<Rightarrow> sched option" where
  "wakeAll tm s = do {
     s \<leftarrow> wakeEventTasks s;
     s \<leftarrow> wakePendingTasks tm ScheduledQueue s;
     wakePendingTasks tm BackgroundQueue s }"

lemma wakeAll_ok:
  assumes "sched_inv s T Q" "ev_ready (events s) es"
  obtains s' T' Q' where "wakeAll tm s = Some s'" "wokenState tm s T Q es s' T' Q'"
proof -
  define Q1 where "Q1 = wakeQ (busyTasks s) (map (the \<circ> consumerTask (events s)) es) Q"
  define T1 where "T1 L = filter (\<lambda>t. t \<notin> set Q1) (T L)" for L
  from wakeEventTasks_ok [OF assms] obtain s1 where a: "wakeEventTasks s = Some s1"
    "sched_inv s1 T1 Q1" "ev_ready (events s1) []" "wake_frame s s1" "timerReads s1 = timerReads s"
    by (auto simp: Let_def Q1_def T1_def [abs_def])
  from wakePendingTasks_ok [OF a(2) refl, where L = ScheduledQueue and tm = tm]
  obtain s2 us S2 where b:
    "wakePendingTasks tm ScheduledQueue s1 = Some s2" "T1 ScheduledQueue = us @ S2"
    "dueSplit tm (timestamp s1) (timerReads s1) us S2"
    "sched_inv s2 (T1(ScheduledQueue := S2)) (Q1 @ us)"
    "timerReads s2 = timerReads s1 + length us + 1" "events s2 = events s1" "wake_frame s1 s2"
    by blast
  have n: "(T1(ScheduledQueue := S2)) BackgroundQueue = T1 BackgroundQueue" by simp
  from wakePendingTasks_ok [OF b(4) n, where tm = tm] obtain s3 ub B3 where c:
    "wakePendingTasks tm BackgroundQueue s2 = Some s3" "T1 BackgroundQueue = ub @ B3"
    "dueSplit tm (timestamp s2) (timerReads s2) ub B3"
    "sched_inv s3 (T1(ScheduledQueue := S2, BackgroundQueue := B3)) ((Q1 @ us) @ ub)"
    "events s3 = events s2" "wake_frame s2 s3" by blast
  let ?T = "T1(ScheduledQueue := S2, BackgroundQueue := B3)"
  have e: "wakeAll tm s = Some s3" using a(1) b(1) c(1) by (simp add: wakeAll_def)
  have ts: "timestamp s1 = timestamp s" "timestamp s2 = timestamp s"
    using a(4) b(7) by (simp_all add: wake_frame_def)
  have w: "wake_frame s s3" using wake_frame_trans [OF a(4) wake_frame_trans [OF b(7) c(6)]] .
  have "wokenState tm s T Q es s3 ?T (Q1 @ us @ ub)"
    unfolding wokenState_def Let_def Q1_def [symmetric]
    using b(2,3) c(2,3,4) b(5) a(3,5) b(6) c(5) w ts
    by (auto simp: T1_def)
  with e show thesis by (rule that)
qed

lemma Step_unfold:
  "gmosSchedulerStep tm tick s = Option.bind (wakeAll tm s) (\<lambda>s.
     let (popped, s) = popReadyTask s
     in case popped of
        Some t \<Rightarrow> do {
          (taskStatus, s) \<leftarrow> tick t s;
          cur \<leftarrow> currentTask s;
          s \<leftarrow> gmosSchedulerInsertTask tm cur taskStatus s;
          Some (0, s\<lparr>currentTask := None\<rparr>) }
      | None \<Rightarrow>
          if stayAwakeCounter s = 0
          then (let (delay, s) = gmosSchedulerGetPendingTaskDelay tm ScheduledQueue s
                in Some (if delay < 0 then 0 else nat delay, s))
          else Some (0, s))"
  by (cases "wakeEventTasks s")
     (simp_all add: gmosSchedulerStep_def wakeAll_def Option.bind_assoc)

lemma busyTasks_wake: "wake_frame s s' \<Longrightarrow> busyTasks s \<subseteq> busyTasks s'"
  by (auto simp: wake_frame_def busyTasks_def)

lemma sched_inv_timer [simp]: "sched_invx X (s\<lparr>timerReads := n\<rparr>) T Q = sched_invx X s T Q"
  "sched_invx X (s\<lparr>currentTask := c\<rparr>) T Q = sched_invx X s T Q"
  by (simp_all add: sched_invx_def)

lemma Step_idle:
  assumes w: "wakeAll tm s = Some s1" and i: "sched_inv s1 T1 []"
  shows "gmosSchedulerStep tm tick s =
    (if stayAwakeCounter s1 = 0
     then Some (case T1 ScheduledQueue of
            [] \<Rightarrow> 2147483647
          | t # _ \<Rightarrow> nat (sint (timestamp s1 t - tm (timerReads s1))),
          s1\<lparr>timerReads := timerReads s1 + 1\<rparr>)
     else Some (0, s1))"
proof -
  have "queueHead ScheduledQueue s1 = ptr_at (T1 ScheduledQueue) 0"
    using sched_invx_lists(1) [OF i, of ScheduledQueue] llist_ptr_at by metis
  then show ?thesis
    using w popReadyTask_Nil [OF i]
    by (cases "T1 ScheduledQueue")
       (auto simp: Step_unfold gmosSchedulerGetPendingTaskDelay_def gmosPalGetTimer_def)
qed

lemma Step_good:
  assumes g: "sched_good s" and tick: "tick_ok tick"
  obtains d s' where "gmosSchedulerStep tm tick s = Some (d, s')" "sched_good s'"
    "busyTasks s \<subseteq> busyTasks s'"
proof -
  from g obtain T Q es where i: "sched_inv s T Q" "ev_ready (events s) es"
    by (auto simp: sched_good_def)
  obtain s1 T1 Q1 where w: "wakeAll tm s = Some s1" "wokenState tm s T Q es s1 T1 Q1"
    by (rule wakeAll_ok [OF i])
  then have i1: "sched_inv s1 T1 Q1" "ev_ready (events s1) []" "wake_frame s s1"
    by (auto simp: wokenState_def)
  show thesis
  proof (cases Q1)
    case Nil
    note e = Step_idle [OF w(1) i1(1) [unfolded Nil], of tick]
    have g1: "sched_good s1" using i1 by (auto simp: sched_good_def)
    then have "sched_good (s1\<lparr>timerReads := timerReads s1 + 1\<rparr>)" by (simp add: sched_good_def)
    moreover have "busyTasks (s1\<lparr>timerReads := timerReads s1 + 1\<rparr>) = busyTasks s1"
      by (simp add: busyTasks_def)
    ultimately show thesis
      using e g1 busyTasks_wake [OF i1(3)] by (cases "stayAwakeCounter s1 = 0") (auto intro: that)
  next
    case (Cons t Qr)
    obtain s2 where p: "popReadyTask s1 = (Some t, s2)" "sched_inv s2 T1 Qr" "currentTask s2 = Some t"
      "taskState s2 = (taskState s1)(t := TASK_STATE_ACTIVE)" "events s2 = events s1"
      by (rule popReadyTask_Cons [OF i1(1) [unfolded Cons]]) blast
    have "tick_env t s2" using p(2-5) i1(2) by (auto simp: tick_env_def sched_good_def)
    then obtain st s3 where k: "tick t s2 = Some (st, s3)" "tick_env t s3" "busyTasks s2 \<subseteq> busyTasks s3"
      using tick unfolding tick_ok_def by blast
    have c: "currentTask s3 = Some t" using k(2) by (simp add: tick_env_def)
    obtain s4 where q: "gmosSchedulerInsertTask tm t st s3 = Some s4" "sched_good s4"
      "busyTasks s4 = busyTasks s3" by (rule InsertTask_good [OF k(2)])
    have e: "gmosSchedulerStep tm tick s = Some (0, s4\<lparr>currentTask := None\<rparr>)"
      using w(1) p(1) k(1) c q(1) by (simp add: Step_unfold)
    have "taskState s1 t = TASK_STATE_READY"
      using sched_inv_state(2) [OF i1(1), of t] Cons by simp
    then have "busyTasks s1 \<subseteq> busyTasks s2" using p(4) by (auto simp: busyTasks_def)
    then have "busyTasks s \<subseteq> busyTasks s4" using busyTasks_wake [OF i1(3)] k(3) q(3) by blast
    moreover have "sched_good (s4\<lparr>currentTask := None\<rparr>)" using q(2) by (simp add: sched_good_def)
    ultimately show thesis using that [OF e] by (simp add: busyTasks_def)
  qed
qed

subsection \<open>Interface functions\<close>

lemma TaskResume_ok:
  assumes inv: "sched_inv s T Q" and a: "taskState s t \<noteq> TASK_STATE_ACTIVE"
  obtains s' where "gmosSchedulerTaskResume t s = Some s'"
    "sched_inv s' (\<lambda>L. filter (\<lambda>u. u \<noteq> t) (T L)) (if t \<in> set Q then Q else Q @ [t])"
    "sched_frame t s s'" "timestamp s' = timestamp s" "taskState s' t = TASK_STATE_READY"
proof (cases "t \<in> set Q")
  case True
  then have r: "taskState s t = TASK_STATE_READY" using sched_inv_state(2) [OF inv] by blast
  have "filter (\<lambda>u. u \<noteq> t) (T L) = T L" for L
    using sched_invx_lists(5) [OF inv, of L] True by (intro filter_True) auto
  then show thesis
    using r True inv by (intro that [of s]) (simp_all add: gmosSchedulerTaskResume_def sched_frame_def)
next
  case False
  then have r: "taskState s t \<noteq> TASK_STATE_READY" using sched_inv_state(2) [OF inv] by blast
  obtain sa where p: "gmosSchedulerRemoveTask t s = Some sa"
    "sched_inv sa (\<lambda>L. filter (\<lambda>u. u \<noteq> t) (T L)) Q" "sched_frame t s sa" "timestamp sa = timestamp s"
    by (rule RemoveTask_ok [OF inv])
  have "t \<notin> set (filter (\<lambda>u. u \<noteq> t) (T L))" for L by simp
  from MakeTaskReady_ok [OF p(2) this False] obtain sb where b:
    "gmosSchedulerMakeTaskReady t sa = Some sb"
    "sched_invx ({} - {t}) sb (\<lambda>L. filter (\<lambda>u. u \<noteq> t) (T L)) (Q @ [t])" "sched_frame t sa sb"
    "taskState sb = (taskState sa)(t := TASK_STATE_READY)" "timestamp sb = timestamp sa" by blast
  show thesis
    using r a p b False
    by (intro that [of sb]) (simp_all add: gmosSchedulerTaskResume_def sched_frame_def)
qed

lemma TaskBusyWait_ok:
  assumes env: "tick_env t s" and tick: "tick_ok tick"
  obtains s' where "gmosSchedulerTaskBusyWait tm tick s = Some s'" "tick_env t s'"
    "busyTasks s \<subseteq> insert t (busyTasks s')"
proof -
  let ?s1 = "(setTaskState t TASK_STATE_BUSY_WAIT s)\<lparr>currentTask := None\<rparr>"
  from env obtain T Q es where i: "sched_inv s T Q" "ev_ready (events s) es"
    "taskState s t = TASK_STATE_ACTIVE" "currentTask s = Some t"
    by (auto simp: tick_env_def sched_good_def)
  have n: "\<And>L. t \<notin> set (T L)" "t \<notin> set Q" using sched_inv_state [OF i(1), of t] i(3) by auto
  have "sched_inv ?s1 T Q" using i(1) n by (simp add: sched_invx_def)
  then have "sched_good ?s1" using i(2) by (auto simp: sched_good_def)
  then obtain d s2 where r: "gmosSchedulerStep tm tick ?s1 = Some (d, s2)" "sched_good s2"
    "busyTasks ?s1 \<subseteq> busyTasks s2" by (rule Step_good [OF _ tick])
  let ?s' = "setTaskState t TASK_STATE_ACTIVE (s2\<lparr>currentTask := Some t\<rparr>)"
  have b: "busyTasks ?s1 = insert t (busyTasks s)" by (auto simp: busyTasks_def)
  have "taskState s2 t = TASK_STATE_BUSY_WAIT" using r(3) b by (auto simp: busyTasks_def)
  moreover from r(2) obtain T2 Q2 es2 where q: "sched_inv s2 T2 Q2" "ev_ready (events s2) es2"
    by (auto simp: sched_good_def)
  ultimately have n2: "\<And>L. t \<notin> set (T2 L)" "t \<notin> set Q2"
    using sched_inv_state [OF q(1), of t] by auto
  have "sched_inv ?s' T2 Q2" using q(1) n2 by (simp add: sched_invx_def)
  then have "tick_env t ?s'" using q(2) by (auto simp: tick_env_def sched_good_def)
  moreover have "gmosSchedulerTaskBusyWait tm tick s = Some ?s'"
    using r(1) i(4) by (simp add: gmosSchedulerTaskBusyWait_def)
  moreover have "busyTasks s \<subseteq> insert t (busyTasks ?s')" using r(3) b by (auto simp: busyTasks_def)
  ultimately show thesis using that by blast
qed

subsection \<open>The timed lists stay sorted\<close>

text \<open>
  Timestamps wrap, so their order only makes sense inside a window: \<open>due base ts t\<close> is the
  signed distance from a base time, and all tasks of a list must lie within less than half the
  range of the timer.
\<close>

definition due :: "32 word \<Rightarrow> (nat \<Rightarrow> 32 word) \<Rightarrow> nat \<Rightarrow> int" where
  "due base ts t = sint (ts t - base)"

lemma sint_diff_window:
  fixes a b base :: "32 word"
  assumes "- (2 ^ 31) \<le> sint (a - base) - sint (b - base)" "sint (a - base) - sint (b - base) < 2 ^ 31"
  shows "sint (a - b) = sint (a - base) - sint (b - base)"
proof -
  have "sint (a - b) = sint ((a - base) - (b - base))" by simp
  also have "\<dots> = signed_take_bit 31 (sint (a - base) - sint (b - base))"
    by (subst sint_word_diff) simp
  also have "\<dots> = sint (a - base) - sint (b - base)"
    by (rule signed_take_bit_int_eq_self) (use assms in auto)
  finally show ?thesis .
qed

definition timedSorted :: "32 word \<Rightarrow> (nat \<Rightarrow> 32 word) \<Rightarrow> nat list \<Rightarrow> bool" where
  "timedSorted base ts xs \<longleftrightarrow> sorted_wrt (\<lambda>u v. due base ts u \<le> due base ts v) xs"

definition inWindow :: "32 word \<Rightarrow> (nat \<Rightarrow> 32 word) \<Rightarrow> int \<Rightarrow> int \<Rightarrow> nat set \<Rightarrow> bool" where
  "inWindow base ts lo hi A \<longleftrightarrow> hi - lo < 2 ^ 31 \<and> (\<forall>u\<in>A. lo \<le> due base ts u \<and> due base ts u \<le> hi)"

lemma notLater_due:
  assumes "inWindow base ts lo hi A" "u \<in> A" "t \<in> A"
  shows "notLater ts (ts t) u \<longleftrightarrow> due base ts u \<le> due base ts t"
proof -
  have "lo \<le> due base ts u" "due base ts u \<le> hi" "lo \<le> due base ts t" "due base ts t \<le> hi" "hi - lo < 2 ^ 31"
    using assms by (auto simp: inWindow_def)
  then show ?thesis
    using sint_diff_window [of "ts u" base "ts t"] by (simp add: notLater_def due_def)
qed

lemma dropWhile_sorted_later:
  assumes "timedSorted base ts xs" "inWindow base ts lo hi (insert t (set xs))"
    and "v \<in> set (dropWhile (notLater ts (ts t)) xs)"
  shows "due base ts t < due base ts v"
proof -
  let ?D = "dropWhile (notLater ts (ts t)) xs"
  from assms(3) obtain y ys where D: "?D = y # ys" by (cases ?D) auto
  have "y \<in> set xs" using D by (metis list.set_intros(1) set_dropWhileD)
  moreover have "\<not> notLater ts (ts t) y" using D by (metis hd_dropWhile list.distinct(1) list.sel(1))
  ultimately have y: "due base ts t < due base ts y"
    using notLater_due [OF assms(2), of y t] by auto
  have "timedSorted base ts (takeWhile (notLater ts (ts t)) xs @ ?D)" using assms(1) by simp
  then have "timedSorted base ts (y # ys)" unfolding D timedSorted_def sorted_wrt_append by blast
  with assms(3) D y show ?thesis by (auto simp: timedSorted_def)
qed

lemma insertTimed_sorted:
  assumes s: "timedSorted base ts xs" and w: "inWindow base ts lo hi (insert t (set xs))"
  shows "timedSorted base ts (insertTimed ts t xs)"
    and "set (insertTimed ts t xs) = insert t (set xs)"
    and "u \<in> set (takeWhile (notLater ts (ts t)) xs) \<Longrightarrow> due base ts u \<le> due base ts t"
    and "v \<in> set (dropWhile (notLater ts (ts t)) xs) \<Longrightarrow> due base ts t < due base ts v"
proof -
  let ?P = "notLater ts (ts t)"
  show a: "due base ts u \<le> due base ts t" if "u \<in> set (takeWhile ?P xs)" for u
    using set_takeWhileD [OF that] notLater_due [OF w, of u t] by auto
  show b: "due base ts t < due base ts v" if "v \<in> set (dropWhile ?P xs)" for v
    by (rule dropWhile_sorted_later [OF s w that])
  have "sorted_wrt (\<lambda>u v. due base ts u \<le> due base ts v) (takeWhile ?P xs @ dropWhile ?P xs)"
    using s by (simp add: timedSorted_def)
  then show "timedSorted base ts (insertTimed ts t xs)"
    using a b unfolding timedSorted_def insertTimed_def sorted_wrt_append
    by (force simp: less_imp_le)
  have "set xs = set (takeWhile ?P xs) \<union> set (dropWhile ?P xs)"
    by (metis set_append takeWhile_dropWhile_id)
  then show "set (insertTimed ts t xs) = insert t (set xs)" by (auto simp: insertTimed_def)
qed

subsection \<open>Task status values\<close>

text \<open>A status as the queue it asks for (\<open>True\<close> for the scheduled one) and the delay.\<close>

definition taskBackground :: "32 word \<Rightarrow> bool" where
  "taskBackground st \<longleftrightarrow> bit st 31"

definition taskDelay :: "32 word \<Rightarrow> nat" where
  "taskDelay st = unat (and st 0x7FFFFFFF)"

lemma and_exp: "and (a :: 'a :: len word) (2 ^ n) = (if bit a n then 2 ^ n else 0)"
  by (rule bit_eqI) (auto simp: bit_simps)

lemma unat_take_bit: "unat (take_bit n (a :: 'a :: len word)) = unat a mod 2 ^ n"
  by (simp only: unsigned_take_bit_eq) (simp only: take_bit_eq_mod)

lemma bit_unat: "bit (a :: 'a :: len word) n \<longleftrightarrow> odd (unat a div 2 ^ n)"
  using bit_iff_odd [of "unat a" n] bit_unsigned_iff [of a n, where 'a = nat] by simp

lemma high_mask: "and (a :: 32 word) 0x80000000 = (if taskBackground a then 0x80000000 else 0)"
  using and_exp [of a 31] by (simp add: taskBackground_def)

lemma low_mask_bits: "and (a :: 32 word) 0x7FFFFFFF = take_bit 31 a"
proof -
  have "(0x7FFFFFFF :: 32 word) = mask 31" by (simp add: mask_eq_exp_minus_1)
  then show ?thesis by (simp only: take_bit_eq_mask)
qed

lemma low_mask: "taskDelay a = unat a mod 2 ^ 31"
  unfolding taskDelay_def low_mask_bits by (rule unat_take_bit)

lemma half_split:
  assumes "x < 2 * (d :: nat)"
  shows "x = (if odd (x div d) then d else 0) + x mod d"
proof (cases "x < d")
  case False
  then have "x - d < d" "0 < d" using assms by auto
  then have "x div d = 1" "x mod d = x - d"
    using False by (simp_all add: le_div_geq le_mod_geq)
  then show ?thesis using False by simp
qed simp

lemma status_unat: "unat a = (if taskBackground a then 2 ^ 31 else 0) + taskDelay a"
  unfolding low_mask taskBackground_def bit_unat
  by (rule half_split) (use unsigned_less [of a] in simp)

lemma low_mask_status [simp]:
  "taskDelay (and a 0x7FFFFFFF) = taskDelay a" "\<not> taskBackground (and a 0x7FFFFFFF)"
  unfolding low_mask_bits
  by (simp_all only: low_mask unat_take_bit mod_mod_trivial taskBackground_def bit_take_bit_iff) simp

lemma taskDelay_bound: "taskDelay a < 2 ^ 31"
  unfolding low_mask by simp

lemma status_eqI: "taskBackground a = taskBackground b \<Longrightarrow> taskDelay a = taskDelay b \<Longrightarrow> a = b"
  using status_unat [of a] status_unat [of b] by (simp add: word_unat_eq_iff)

lemma suspend_status: "a = GMOS_TASK_SUSPEND \<longleftrightarrow> taskBackground a \<and> taskDelay a = 0"
  using status_unat [of a] taskDelay_bound [of a]
  by (auto simp: GMOS_TASK_SUSPEND_def word_unat_eq_iff split: if_splits)

lemma Prioritise_status:
  assumes "a \<noteq> GMOS_TASK_SUSPEND" "b \<noteq> GMOS_TASK_SUSPEND"
  shows "taskBackground (gmosSchedulerPrioritise a b) \<longleftrightarrow> taskBackground a \<and> taskBackground b"
    and "taskDelay (gmosSchedulerPrioritise a b) = min (taskDelay a) (taskDelay b)"
proof -
  have less: "x < y \<longleftrightarrow> taskDelay x < taskDelay y" if "taskBackground x = taskBackground y" for x y
    using that status_unat [of x] status_unat [of y] by (simp add: word_less_nat_alt)
  have high: "and a 0x80000000 = and b 0x80000000 \<longleftrightarrow> taskBackground a = taskBackground b"
    by (simp add: high_mask)
  show "taskBackground (gmosSchedulerPrioritise a b) \<longleftrightarrow> taskBackground a \<and> taskBackground b"
    "taskDelay (gmosSchedulerPrioritise a b) = min (taskDelay a) (taskDelay b)"
    using assms unfolding gmosSchedulerPrioritise_def high
    by (auto simp: less min_def)
qed

lemma Prioritise_suspend:
  "gmosSchedulerPrioritise GMOS_TASK_SUSPEND b = b" "gmosSchedulerPrioritise a GMOS_TASK_SUSPEND = a"
  by (simp_all add: gmosSchedulerPrioritise_def)

lemma Prioritise_not_suspend:
  assumes "a \<noteq> GMOS_TASK_SUSPEND" "b \<noteq> GMOS_TASK_SUSPEND"
  shows "gmosSchedulerPrioritise a b \<noteq> GMOS_TASK_SUSPEND"
  using Prioritise_status [OF assms] assms by (auto simp: suspend_status min_def)

lemma Prioritise_comm: "gmosSchedulerPrioritise a b = gmosSchedulerPrioritise b a"
proof (cases "a = GMOS_TASK_SUSPEND \<or> b = GMOS_TASK_SUSPEND")
  case True
  then show ?thesis by (auto simp: Prioritise_suspend)
next
  case False
  then show ?thesis using Prioritise_status [of a b] Prioritise_status [of b a]
    by (intro status_eqI) (auto simp: min.commute)
qed

lemma Prioritise_assoc:
  "gmosSchedulerPrioritise (gmosSchedulerPrioritise a b) c =
   gmosSchedulerPrioritise a (gmosSchedulerPrioritise b c)"
proof (cases "a = GMOS_TASK_SUSPEND \<or> b = GMOS_TASK_SUSPEND \<or> c = GMOS_TASK_SUSPEND")
  case True
  then show ?thesis by (auto simp: Prioritise_suspend)
next
  case False
  then have n: "gmosSchedulerPrioritise a b \<noteq> GMOS_TASK_SUSPEND"
    "gmosSchedulerPrioritise b c \<noteq> GMOS_TASK_SUSPEND" using Prioritise_not_suspend by auto
  show ?thesis
    using False n by (intro status_eqI) (auto simp: Prioritise_status min.assoc)
qed

subsection \<open>Lifecycle monitors\<close>

primrec notifyAll ::
    "'w lifecycle \<Rightarrow> gmosLifecycleStatus \<Rightarrow> nat list \<Rightarrow> 'w \<Rightarrow> bool \<times> 'w" where
  "notifyAll l status [] w = (True, w)"
| "notifyAll l status (m # ms) w =
     (let (ok, w1) = handlerFn l m status w; (oks, w2) = notifyAll l status ms w1
      in (ok \<and> oks, w2))"

lemma notifyLoop_llist:
  "llist (nextMonitor l) cur ms \<Longrightarrow>
     notifyLoop l status r cur w =
       Some (r \<and> fst (notifyAll l status ms w), snd (notifyAll l status ms w))"
proof (induction ms arbitrary: r cur w)
  case Nil
  then show ?case by (simp add: notifyLoop.simps)
next
  case (Cons m ms)
  then show ?case by (subst notifyLoop.simps) (auto simp: split_def Let_def)
qed

lemma AddMonitor_llist:
  assumes "llist (nextMonitor l) (lifecycleMonitors l) ms" "m \<notin> set ms"
  shows "llist (nextMonitor (gmosLifecycleAddMonitor m h l))
           (lifecycleMonitors (gmosLifecycleAddMonitor m h l)) (m # ms)"
  using assms by (simp add: gmosLifecycleAddMonitor_def chain_upd)

subsection \<open>The main loop\<close>

text \<open>
  The states the loop of gmosSchedulerStart passes through: scheduler steps, between which the
  processor idles, and interrupt handlers that set or clear event bits.
\<close>

inductive schedReach :: "(nat \<Rightarrow> 32 word) \<Rightarrow> tickFn \<Rightarrow> sched \<Rightarrow> sched \<Rightarrow> bool"
  for tm tick s0 where
  start: "schedReach tm tick s0 s0"
| step: "schedReach tm tick s0 s \<Longrightarrow> gmosSchedulerStep tm tick s = Some (execDelay, s') \<Longrightarrow>
    schedReach tm tick s0 s'"
| interrupt: "schedReach tm tick s0 s \<Longrightarrow> runIsr op (events s) = Some (old, ev) \<Longrightarrow>
    schedReach tm tick s0 (s\<lparr>events := ev\<rparr>)"

lemma runIsr_ready:
  assumes "ev_ready q es" "runIsr op q = Some (old, q')"
  shows "\<exists>es'. ev_ready q' es'"
proof -
  let ?es = "if isrQueues op then queued q (isrEvent op) es else es"
  have "ev_inv q' ?es" "consumerTask q' = consumerTask q"
    using runIsr_ok [of q es op] assms by (auto simp: ev_ready_def)
  moreover have "\<forall>e\<in>set ?es. consumerTask q e \<noteq> None"
    using assms(1) by (auto simp: ev_ready_def queued_def split: if_splits)
  ultimately show ?thesis unfolding ev_ready_def by metis
qed

lemma schedReach_good:
  "schedReach tm tick s0 s \<Longrightarrow> tick_ok tick \<Longrightarrow> sched_good s0 \<Longrightarrow> sched_good s"
proof (induction rule: schedReach.induct)
  case (step s d s')
  then have "sched_good s" by blast
  then obtain d' s'' where "gmosSchedulerStep tm tick s = Some (d', s'')" "sched_good s''"
    by (rule Step_good [OF _ step.prems(1)])
  then show ?case using step.hyps by simp
next
  case (interrupt s op old ev)
  then show ?case using runIsr_ready unfolding sched_good_def by fastforce
qed

subsection \<open>Properties\<close>

text \<open>The state at power-up, and a task function that resumes its successor, for the witnesses.\<close>

definition bootSched :: sched where
  "bootSched = \<lparr>nextTask = (\<lambda>_. None), timestamp = (\<lambda>_. 0),
     taskState = (\<lambda>_. TASK_STATE_INITIALISING), scheduledTasks = None, backgroundTasks = None,
     readyTaskListHead = None, readyTaskListEnd = None, currentTask = None,
     stayAwakeCounter = 0, timerReads = 0, events = idleEvents\<rparr>"

definition demoTick :: tickFn where
  "demoTick t s =
     (if taskState s (t + 1) = TASK_STATE_BUSY_WAIT then Some (GMOS_TASK_SUSPEND, s)
      else do {
        s \<leftarrow> gmosSchedulerTaskResume (t + 1) s;
        Some (GMOS_TASK_RUN_LATER 10, s) })"

lemma bootSched_inv: "sched_inv bootSched (\<lambda>_. []) []" "ev_ready (events bootSched) []"
  by (auto simp: sched_invx_def bootSched_def queueHead_def queueCode_def ev_ready_def idleEvents_inv
      split: taskQueue.splits)

lemma bootSched_good: "sched_good bootSched"
  using bootSched_inv by (auto simp: sched_good_def)

lemma busyTasks_frame:
  assumes "sched_frame t s s'" "taskState s t \<noteq> TASK_STATE_BUSY_WAIT"
  shows "busyTasks s \<subseteq> busyTasks s'"
  using assms unfolding busyTasks_def sched_frame_def by (metis (mono_tags, lifting) Collect_mono)

lemma demoTick_ok: "tick_ok demoTick"
  unfolding tick_ok_def
proof (intro allI impI)
  fix t s assume env: "tick_env t s"
  then obtain T Q es where i: "sched_inv s T Q" "ev_ready (events s) es" "currentTask s = Some t"
    "taskState s t = TASK_STATE_ACTIVE" by (auto simp: tick_env_def sched_good_def)
  consider "taskState s (t + 1) = TASK_STATE_BUSY_WAIT" | "taskState s (t + 1) = TASK_STATE_ACTIVE"
    | "taskState s (t + 1) \<noteq> TASK_STATE_BUSY_WAIT" "taskState s (t + 1) \<noteq> TASK_STATE_ACTIVE" by blast
  then show "\<exists>st s'. demoTick t s = Some (st, s') \<and> tick_env t s' \<and> busyTasks s \<subseteq> busyTasks s'"
  proof cases
    case 3
    obtain s' where r: "gmosSchedulerTaskResume (t + 1) s = Some s'"
      "sched_inv s' (\<lambda>L. filter (\<lambda>u. u \<noteq> t + 1) (T L)) (if t + 1 \<in> set Q then Q else Q @ [t + 1])"
      "sched_frame (t + 1) s s'" by (rule TaskResume_ok [OF i(1) 3(2)])
    have "tick_env t s'"
      using r(2,3) i unfolding tick_env_def sched_good_def sched_frame_def by auto
    moreover have "demoTick t s = Some (GMOS_TASK_RUN_LATER 10, s')"
      using r(1) 3(1) by (simp add: demoTick_def)
    ultimately show ?thesis using busyTasks_frame [OF r(3) 3(1)] by blast
  qed (use env in \<open>auto simp: demoTick_def gmosSchedulerTaskResume_def\<close>)
qed

text \<open>
  C6: Safety of the scheduler: as long as every task keeps its contract, every state that steps
  and interrupts can reach satisfies the list invariant, and the next step returns: it never
  follows a null or dangling link and none of its list walks runs for ever.
\<close>

theorem sched_run_safe:
  assumes "tick_ok tick" "sched_good s0" "schedReach tm tick s0 s"
  shows "sched_good s \<and> (\<exists>execDelay s'. gmosSchedulerStep tm tick s = Some (execDelay, s'))"
proof -
  have g: "sched_good s" using schedReach_good [OF assms(3,1,2)] .
  then obtain d s' where "gmosSchedulerStep tm tick s = Some (d, s')"
    by (rule Step_good [OF _ assms(1)])
  with g show ?thesis by blast
qed

theorem sched_run_safe_witness:
  "\<exists>s. gmosSchedulerTaskStart 3 bootSched = Some s \<and> sched_good s \<and>
     (\<exists>execDelay s'. gmosSchedulerStep (\<lambda>_. 0) demoTick s = Some (execDelay, s'))"
proof -
  have "3 \<notin> set []" by simp
  from MakeTaskReady_ok [OF bootSched_inv(1) this this] obtain s where
    r: "gmosSchedulerMakeTaskReady 3 bootSched = Some s" "sched_invx ({} - {3}) s (\<lambda>_. []) ([] @ [3])"
    "sched_frame 3 bootSched s" by blast
  have "sched_good s" using r(2,3) bootSched_inv(2) by (auto simp: sched_good_def sched_frame_def)
  from sched_run_safe [OF demoTick_ok this schedReach.start] r(1) show ?thesis
    by (auto simp: gmosSchedulerTaskStart_def)
qed

text \<open>
  C7: One step wakes the consumers of all pending events in order, then the due tasks of the
  scheduled and of the background list, each a prefix of its list. If the ready list is then
  empty the step reports how long to sleep; otherwise it runs exactly the first task of the
  list, marked active and off all lists, and reschedules it according to the status it returns.
\<close>

theorem sched_step:
  assumes "sched_inv s T Q" "ev_ready (events s) es"
  shows "\<exists>s1 T1 Q1. wokenState tm s T Q es s1 T1 Q1 \<and>
    (case Q1 of
       [] \<Rightarrow> gmosSchedulerStep tm tick s =
         (if stayAwakeCounter s = 0
          then Some (case T1 ScheduledQueue of
                 [] \<Rightarrow> 2147483647
               | t # _ \<Rightarrow> nat (sint (timestamp s t - tm (timerReads s1))),
               s1\<lparr>timerReads := timerReads s1 + 1\<rparr>)
          else Some (0, s1))
     | t # Qr \<Rightarrow>
         \<exists>s2. sched_inv s2 T1 Qr \<and> currentTask s2 = Some t \<and> taskState s2 t = TASK_STATE_ACTIVE \<and>
           gmosSchedulerStep tm tick s = Option.bind (tick t s2) (\<lambda>(taskStatus, s3).
             Option.bind (currentTask s3) (\<lambda>cur.
               map_option (\<lambda>s4. (0, s4\<lparr>currentTask := None\<rparr>))
                 (gmosSchedulerInsertTask tm cur taskStatus s3))))"
proof -
  obtain s1 T1 Q1 where w: "wakeAll tm s = Some s1" "wokenState tm s T Q es s1 T1 Q1"
    by (rule wakeAll_ok [OF assms])
  then have i1: "sched_inv s1 T1 Q1" "wake_frame s s1" by (auto simp: wokenState_def)
  show ?thesis
  proof (cases Q1)
    case Nil
    from Step_idle [OF w(1) i1(1) [unfolded Nil], of tick] w(2) Nil i1(2) show ?thesis
      by (intro exI [of _ s1] exI [of _ T1] exI [of _ Q1])
         (simp add: wake_frame_def split: list.split)
  next
    case (Cons t Qr)
    obtain s2 where p: "popReadyTask s1 = (Some t, s2)" "sched_inv s2 T1 Qr" "currentTask s2 = Some t"
      "taskState s2 = (taskState s1)(t := TASK_STATE_ACTIVE)"
      by (rule popReadyTask_Cons [OF i1(1) [unfolded Cons]]) blast
    have "map_option f x = Option.bind x (\<lambda>y. Some (f y))" for f :: "sched \<Rightarrow> nat \<times> sched" and x
      by (cases x) auto
    with w p show ?thesis unfolding Cons
      by (intro exI [of _ s1] exI [of _ T1] exI [of _ "t # Qr"]) (auto simp: Step_unfold)
  qed
qed

theorem sched_step_witness:
  "\<exists>s1 T1 Q1. wokenState (\<lambda>_. 0) bootSched (\<lambda>_. []) [] [] s1 T1 Q1 \<and> Q1 = [] \<and>
     gmosSchedulerStep (\<lambda>_. 0) demoTick bootSched =
       Some (2147483647, s1\<lparr>timerReads := timerReads s1 + 1\<rparr>)"
proof -
  from sched_step [OF bootSched_inv, of "\<lambda>_. 0" demoTick] show ?thesis
  proof (elim exE conjE, goal_cases)
    case (1 s1 T1 Q1)
    from 1(1) have "T1 ScheduledQueue = []" "Q1 = []" by (auto simp: wokenState_def Let_def)
    with 1 show ?case by (auto simp: bootSched_def)
  qed
qed

text \<open>
  A task that asks to run after a delay enters its list behind all tasks that are due no
  later and in front of all that are due later, so a sorted list stays sorted, tasks with equal
  times keep their order, and no other task moves. Times are compared across the wrap-around of
  the timer, which is sound while all tasks of the list lie within half its range.
\<close>

theorem sched_insert_sorted:
  assumes "sched_inv s T Q" "taskState s t = TASK_STATE_ACTIVE" "\<not> taskBackground st" "st \<noteq> 0"
    and "ts = (timestamp s)(t := tm (timerReads s) + and st 0x7FFFFFFF)"
    and "timedSorted base ts (T ScheduledQueue)"
    and "inWindow base ts lo hi (insert t (set (T ScheduledQueue)))"
  shows "\<exists>s' before after. gmosSchedulerInsertTask tm t st s = Some s' \<and> timestamp s' = ts \<and>
    T ScheduledQueue = before @ after \<and>
    sched_inv s' (T(ScheduledQueue := before @ t # after)) Q \<and>
    timedSorted base ts (before @ t # after) \<and>
    (\<forall>u\<in>set before. due base ts u \<le> due base ts t) \<and>
    (\<forall>u\<in>set after. due base ts t < due base ts u)"
proof -
  have n: "\<And>L. t \<notin> set (T L)" "t \<notin> set Q" using sched_inv_state [OF assms(1), of t] assms(2) by auto
  have st: "st \<noteq> GMOS_TASK_RUN_IMMEDIATE" "st \<noteq> GMOS_TASK_SUSPEND"
    using assms(3,4) by (auto simp: GMOS_TASK_RUN_IMMEDIATE_def suspend_status)
  have L: "ScheduledQueue = (if and st 0x80000000 = 0 then ScheduledQueue else BackgroundQueue)"
    using assms(3) by (simp add: high_mask)
  let ?before = "takeWhile (notLater ts (ts t)) (T ScheduledQueue)"
  let ?after = "dropWhile (notLater ts (ts t)) (T ScheduledQueue)"
  obtain s' where r: "gmosSchedulerInsertTask tm t st s = Some s'"
    "sched_inv s' (T(ScheduledQueue := insertTimed ts t (T ScheduledQueue))) Q" "timestamp s' = ts"
    by (rule InsertTask_timed_ok [where tm = tm, OF assms(1) n st L assms(5)])
  note i = insertTimed_sorted [OF assms(6,7)]
  have e: "insertTimed ts t (T ScheduledQueue) = ?before @ t # ?after" by (simp add: insertTimed_def)
  show ?thesis
    using r i e by (intro exI [of _ s'] exI [of _ ?before] exI [of _ ?after]) simp
qed

theorem sched_insert_sorted_witness:
  "\<exists>s'. gmosSchedulerInsertTask (\<lambda>_. 0) 3 5 (setTaskState 3 TASK_STATE_ACTIVE bootSched) = Some s' \<and>
     sched_inv s' ((\<lambda>_. [])(ScheduledQueue := [3])) []"
proof -
  let ?s = "setTaskState 3 TASK_STATE_ACTIVE bootSched"
  have i: "sched_inv ?s (\<lambda>_. []) []" using bootSched_inv(1) by (auto simp: sched_invx_def)
  have a: "taskState ?s 3 = TASK_STATE_ACTIVE" by simp
  have b: "\<not> taskBackground 5" "(5 :: 32 word) \<noteq> 0" by (simp_all add: taskBackground_def bit_numeral_rec)
  have w: "inWindow 0 ((timestamp ?s)(3 := 0 + and 5 0x7FFFFFFF)) 0 100 (insert 3 (set []))"
    by (simp add: inWindow_def due_def)
  have so: "timedSorted 0 ((timestamp ?s)(3 := 0 + and 5 0x7FFFFFFF)) []" by (simp add: timedSorted_def)
  from sched_insert_sorted [where tm = "\<lambda>_. 0", OF i a b refl so w] show ?thesis by auto
qed

text \<open>
  The ready list is first come, first served: tasks made ready one after the other are run
  in exactly that order, so a ready task waits only for those that were ready before it.
\<close>

theorem sched_ready_fifo:
  assumes "sched_inv s T []" "distinct ts" "\<forall>t\<in>set ts. \<forall>L. t \<notin> set (T L)"
  shows "\<exists>s'. enqAll gmosSchedulerMakeTaskReady ts s = Some s' \<and>
    fst (deqN popReadyTask (length ts) s') = map Some ts"
proof -
  have "\<exists>T. sched_inv s T []" using assms(1) by blast
  moreover have "\<forall>t\<in>set ts. \<forall>L. taskState s t \<noteq> queueCode L"
    using assms(3) sched_inv_state(1) [OF assms(1)] by blast
  ultimately show ?thesis using rdy.fifo_order [OF _ assms(2)] by blast
qed

theorem sched_ready_fifo_witness:
  "\<exists>s'. enqAll gmosSchedulerMakeTaskReady [7, 3, 5] bootSched = Some s' \<and>
     fst (deqN popReadyTask (length [7, 3, 5 :: nat]) s') = [Some 7, Some 3, Some 5]"
  using sched_ready_fifo [OF bootSched_inv(1), of "[7, 3, 5]"]
  by (simp del: enqAll.simps deqN.simps)

text \<open>
  C8: A busy wait nests a scheduler step inside a task and is transparent to it: the waiting
  task comes back active and current, with the invariant intact, whatever the nested task does
  within its contract; in particular a task may itself use busy waits.
\<close>

theorem sched_busy_wait:
  assumes "tick_env t s" "tick_ok tick"
  shows "\<exists>s'. gmosSchedulerTaskBusyWait tm tick s = Some s' \<and> tick_env t s' \<and>
    busyTasks s \<subseteq> insert t (busyTasks s')"
  using TaskBusyWait_ok [OF assms, of tm] by blast

theorem sched_busy_wait_witness:
  "\<exists>s'. gmosSchedulerTaskBusyWait (\<lambda>_. 0) demoTick
       (setTaskState 3 TASK_STATE_ACTIVE (bootSched\<lparr>currentTask := Some 3\<rparr>)) = Some s' \<and>
     currentTask s' = Some 3 \<and> taskState s' 3 = TASK_STATE_ACTIVE"
proof -
  let ?s = "setTaskState 3 TASK_STATE_ACTIVE (bootSched\<lparr>currentTask := Some 3\<rparr>)"
  have "sched_inv ?s (\<lambda>_. []) []" using bootSched_inv(1) by (auto simp: sched_invx_def)
  moreover have "ev_ready (events ?s) []" using bootSched_inv(2) by simp
  ultimately have "sched_good ?s" unfolding sched_good_def by blast
  then have "tick_env 3 ?s" by (simp add: tick_env_def)
  from sched_busy_wait [OF this demoTick_ok, of "\<lambda>_. 0"] show ?thesis by (auto simp: tick_env_def)
qed

text \<open>
  Combining task status values is a commutative monoid whose unit is `suspend'. Of two
  values that ask to run, the result asks for the shorter delay, and for the background list
  only if both do.
\<close>

theorem task_prioritise:
  "gmosSchedulerPrioritise a b = gmosSchedulerPrioritise b a \<and>
   gmosSchedulerPrioritise (gmosSchedulerPrioritise a b) c =
     gmosSchedulerPrioritise a (gmosSchedulerPrioritise b c) \<and>
   gmosSchedulerPrioritise GMOS_TASK_SUSPEND a = a \<and>
   (a \<noteq> GMOS_TASK_SUSPEND \<and> b \<noteq> GMOS_TASK_SUSPEND \<longrightarrow>
      taskDelay (gmosSchedulerPrioritise a b) = min (taskDelay a) (taskDelay b) \<and>
      (taskBackground (gmosSchedulerPrioritise a b) \<longleftrightarrow> taskBackground a \<and> taskBackground b))"
  by (intro conjI impI) (auto intro: Prioritise_comm Prioritise_assoc simp: Prioritise_suspend Prioritise_status)

theorem task_prioritise_witness:
  "taskDelay (gmosSchedulerPrioritise 0x80000003 5) = 3 \<and>
   \<not> taskBackground (gmosSchedulerPrioritise 0x80000003 5)"
proof -
  have d: "taskDelay 0x80000003 = 3" "taskDelay 5 = 5" "\<not> taskBackground 5"
    by (simp_all add: low_mask taskBackground_def bit_unat)
  show ?thesis
    using task_prioritise [of "0x80000003" 5 0, THEN conjunct2, THEN conjunct2, THEN conjunct2]
    by (simp add: GMOS_TASK_SUSPEND_def d)
qed

text \<open>
  The scheduler never sleeps past the time of a scheduled task: with the list sorted, the
  reported delay is at most the remaining time of every task on it, and overdue tasks give no
  delay at all.
\<close>

theorem sched_sleep_bound:
  assumes "wakeAll tm s = Some s1" "sched_inv s1 T1 []"
    and "timedSorted (tm (timerReads s1)) (timestamp s1) (T1 ScheduledQueue)"
    and "gmosSchedulerStep tm tick s = Some (execDelay, s')" "u \<in> set (T1 ScheduledQueue)"
  shows "int execDelay \<le> max 0 (due (tm (timerReads s1)) (timestamp s1) u)"
proof -
  obtain t ts where T: "T1 ScheduledQueue = t # ts" using assms(5) by (cases "T1 ScheduledQueue") auto
  have "due (tm (timerReads s1)) (timestamp s1) t \<le> due (tm (timerReads s1)) (timestamp s1) u"
    using assms(3,5) unfolding T timedSorted_def by auto
  then show ?thesis
    using assms(4) Step_idle [OF assms(1,2), of tick] unfolding T due_def
    by (auto split: if_splits)
qed

theorem sched_sleep_bound_witness:
  "\<exists>s s1 T1 s'. wakeAll (\<lambda>_. 0) s = Some s1 \<and> sched_inv s1 T1 [] \<and> 3 \<in> set (T1 ScheduledQueue) \<and>
     gmosSchedulerStep (\<lambda>_. 0) demoTick s = Some (5, s') \<and>
     int 5 \<le> max 0 (due 0 (timestamp s1) 3)"
proof -
  let ?s = "setTaskState 3 TASK_STATE_ACTIVE bootSched"
  let ?ts = "(timestamp ?s)(3 := 0 + and 5 0x7FFFFFFF)"
  have i: "sched_inv ?s (\<lambda>_. []) []" using bootSched_inv(1) by (auto simp: sched_invx_def)
  have "(5 :: 32 word) \<noteq> GMOS_TASK_RUN_IMMEDIATE" "(5 :: 32 word) \<noteq> GMOS_TASK_SUSPEND"
    by (simp_all add: GMOS_TASK_RUN_IMMEDIATE_def GMOS_TASK_SUSPEND_def)
  then obtain s where s: "sched_inv s ((\<lambda>_. [])(ScheduledQueue := [3])) []" "sched_frame 3 ?s s"
    "timestamp s = ?ts"
    using InsertTask_timed_ok [OF i, of 3 5 ScheduledQueue ?ts "\<lambda>_. 0"] by (auto simp: insertTimed_def)
  have ev: "ev_ready (events s) []" using s(2) bootSched_inv(2) by (simp add: sched_frame_def)
  obtain s1 T1 Q1 where w: "wakeAll (\<lambda>_. 0) s = Some s1"
    "wokenState (\<lambda>_. 0) s ((\<lambda>_. [])(ScheduledQueue := [3])) [] [] s1 T1 Q1"
    by (rule wakeAll_ok [OF s(1) ev])
  have five: "sint (timestamp s 3 - 0) = 5" using s(3) by simp
  from w(2) have "T1 ScheduledQueue = [3]" "Q1 = []" "sched_inv s1 T1 Q1" "wake_frame s s1"
    using five by (auto simp: wokenState_def Let_def dueSplit_def Cons_eq_append_conv)
  then have r: "T1 ScheduledQueue = [3]" "sched_inv s1 T1 []" "timestamp s1 = timestamp s"
    "stayAwakeCounter s1 = 0"
    using s(2) by (auto simp: wake_frame_def sched_frame_def bootSched_def)
  let ?s2 = "s1\<lparr>timerReads := timerReads s1 + 1\<rparr>"
  have e: "gmosSchedulerStep (\<lambda>_. 0) demoTick s = Some (5, ?s2)"
    using Step_idle [OF w(1) r(2), of demoTick] r five by simp
  have so: "timedSorted 0 (timestamp s1) (T1 ScheduledQueue)" using r(1) by (simp add: timedSorted_def)
  have u: "3 \<in> set (T1 ScheduledQueue)" using r(1) by simp
  from sched_sleep_bound [OF w(1) r(2) so e u] w(1) r(2) u e show ?thesis by blast
qed

text \<open>
  Resuming a task that is not running puts it on the ready list exactly once and takes it
  off the timed lists. This includes a task in a busy wait, which is then run again while its
  first activation is still on the stack.
\<close>

theorem sched_resume:
  assumes "sched_inv s T Q" "taskState s t \<noteq> TASK_STATE_ACTIVE"
  shows "\<exists>s'. gmosSchedulerTaskResume t s = Some s' \<and> taskState s' t = TASK_STATE_READY \<and>
    sched_inv s' (\<lambda>L. filter (\<lambda>u. u \<noteq> t) (T L)) (if t \<in> set Q then Q else Q @ [t])"
  using TaskResume_ok [OF assms] by metis

theorem sched_resume_witness:
  "\<exists>s'. gmosSchedulerTaskResume 3 (setTaskState 3 TASK_STATE_BUSY_WAIT bootSched) = Some s' \<and>
     taskState s' 3 = TASK_STATE_READY \<and> sched_inv s' (\<lambda>_. []) [3]"
proof -
  have "sched_inv (setTaskState 3 TASK_STATE_BUSY_WAIT bootSched) (\<lambda>_. []) []"
    using bootSched_inv(1) by (auto simp: sched_invx_def)
  from sched_resume [OF this, of 3] show ?thesis by simp
qed

text \<open>
  A lifecycle notification calls every registered monitor, the last one registered first,
  also after one of them has reported failure, and returns the conjunction of their results.
\<close>

theorem lifecycle_notify:
  assumes "llist (nextMonitor l) (lifecycleMonitors l) ms" "m \<notin> set ms"
  shows "gmosLifecycleNotify (gmosLifecycleAddMonitor m h l) status w =
    (let l' = gmosLifecycleAddMonitor m h l;
         (ok, w1) = h status w; (oks, w2) = notifyAll l' status ms w1 in Some (ok \<and> oks, w2))"
  using notifyLoop_llist [OF AddMonitor_llist [OF assms, of h], of status True w]
  by (simp add: gmosLifecycleNotify_def split_def Let_def gmosLifecycleAddMonitor_def)

theorem lifecycle_notify_witness:
  "gmosLifecycleNotify (gmosLifecycleAddMonitor 1 (\<lambda>st w. (False, w + 1 :: nat))
     \<lparr>handlerFn = \<lambda>_ _ w. (True, w + 2), nextMonitor = \<lambda>_. None, lifecycleMonitors = Some 4\<rparr>)
     SCHEDULER_STARTUP 0 = Some (False, 3)"
  by (subst lifecycle_notify [of _ "[4]"]) (simp_all add: gmosLifecycleAddMonitor_def)

end
