(* ===== verification/Gmos_Streams.thy ===== *)
theory Gmos_Streams
  imports Gmos_Buffer_Ops Gmos_Scheduler
begin

text \<open>
  The byte streams of common/src/gmos-streams.c: bounded first-in first-out queues of bytes
  between tasks, kept in memory pool segments, with a consumer task that is resumed when data
  arrives.

  Operations take the pool, the scheduler state where they resume the consumer, and the stream.
  A copy into or out of a segment that would leave its data area is a fault, as is every use of
  a null segment. A data buffer that is passed by reference travels as the object
  representation of its \<open>gmosBuffer_t\<close>, eight bytes on the 32-bit targets.

  \<open>stream_state p st ds R N\<close> says that the stream holds the bytes \<open>ds\<close> in segments of
  its own, disjoint from those of the other clients \<open>R\<close>; \<open>N\<close> is the number of segments
  that are free or in the stream, which no stream operation changes in a static pool.
\<close>

subsection \<open>State\<close>

record gmosStream =
  consumerTask :: "nat option"
  streamSegments :: "nat option"
  maxSize :: nat
  streamSize :: nat
  writeOffset :: nat
  readOffset :: nat

text \<open>STREAM_COPY to and from the data area of a segment.\<close>

definition streamStore :: "nat \<Rightarrow> nat \<Rightarrow> byte list \<Rightarrow> mempool \<Rightarrow> mempool option" where
  "streamStore s off ds p = (if off + length ds \<le> SEG then Some (writeSeg s off ds p) else None)"

definition streamLoad :: "nat \<Rightarrow> nat \<Rightarrow> nat \<Rightarrow> mempool \<Rightarrow> byte list option" where
  "streamLoad s off n p =
     (if off + n \<le> SEG then Some (take n (drop off (segBytes p s))) else None)"

definition gmosStreamSegmentListEnd :: "mempool \<Rightarrow> gmosStream \<Rightarrow> nat option option" where
  "gmosStreamSegmentListEnd p st =
     (case streamSegments st of
        None \<Rightarrow> Some None
      | Some s \<Rightarrow> map_option Some (walkEnd (nextSegment p) s))"

definition gmosStreamInit :: "nat option \<Rightarrow> nat \<Rightarrow> gmosStream \<Rightarrow> gmosStream" where
  "gmosStreamInit task maxStreamSize st =
     st\<lparr>consumerTask := task, streamSegments := None, maxSize := maxStreamSize, streamSize := 0\<rparr>"

definition gmosStreamReset :: "mempool \<Rightarrow> gmosStream \<Rightarrow> (mempool \<times> gmosStream) option" where
  "gmosStreamReset p st =
     (if streamSegments st \<noteq> None
      then do {
        p \<leftarrow> gmosMempoolFreeSegments (streamSegments st) p;
        Some (p, st\<lparr>streamSegments := None, streamSize := 0\<rparr>) }
      else Some (p, st\<lparr>streamSize := 0\<rparr>))"

definition resumeConsumer :: "gmosStream \<Rightarrow> sched \<Rightarrow> sched option" where
  "resumeConsumer st sc =
     (case consumerTask st of None \<Rightarrow> Some sc | Some t \<Rightarrow> gmosSchedulerTaskResume t sc)"

definition gmosStreamSetConsumerTask ::
    "sched \<Rightarrow> gmosStream \<Rightarrow> nat option \<Rightarrow> (sched \<times> gmosStream) option" where
  "gmosStreamSetConsumerTask sc st task =
     (let st = st\<lparr>consumerTask := task\<rparr> in
      if task \<noteq> None \<and> streamSize st > 0
      then do { sc \<leftarrow> resumeConsumer st sc; Some (sc, st) }
      else Some (sc, st))"

subsection \<open>Capacity\<close>

definition limitCapacity :: "mempool \<Rightarrow> gmosStream \<Rightarrow> nat \<Rightarrow> nat" where
  "limitCapacity p st room =
     (let maxFreeBytes = u32 (room + SEG * gmosMempoolSegmentsAvailable p);
          maxStreamBytes = sub32 (maxSize st) (streamSize st)
      in u16 (if maxFreeBytes < maxStreamBytes then maxFreeBytes else maxStreamBytes))"

definition gmosStreamGetWriteCapacity :: "mempool \<Rightarrow> gmosStream \<Rightarrow> nat" where
  "gmosStreamGetWriteCapacity p st =
     limitCapacity p st (if streamSegments st = None then 0 else sub32 SEG (writeOffset st))"

definition gmosStreamGetReadCapacity :: "gmosStream \<Rightarrow> nat" where
  "gmosStreamGetReadCapacity st = streamSize st"

definition gmosStreamGetPushBackCapacity :: "mempool \<Rightarrow> gmosStream \<Rightarrow> nat" where
  "gmosStreamGetPushBackCapacity p st =
     limitCapacity p st (if streamSegments st = None then 0 else readOffset st)"

subsection \<open>Writing\<close>

text \<open>A new segment for an empty stream, both offsets at \<open>start\<close>.\<close>

definition streamFirstSegment ::
    "nat \<Rightarrow> mempool \<Rightarrow> gmosStream \<Rightarrow> (nat \<times> mempool \<times> gmosStream) option" where
  "streamFirstSegment start p st =
     (let (segment, p) = gmosMempoolAlloc p in do {
        s \<leftarrow> segment;
        Some (s, setNext s None p,
              st\<lparr>streamSegments := Some s, streamSize := 0, writeOffset := start,
                 readOffset := start\<rparr>) })"

text \<open>The segment that is written next: a new one if the stream is empty, else the last one.\<close>

definition streamWriteSegment ::
    "mempool \<Rightarrow> gmosStream \<Rightarrow> (nat \<times> mempool \<times> gmosStream) option" where
  "streamWriteSegment p st =
     (if streamSegments st = None then streamFirstSegment 0 p st
      else do {
        segment \<leftarrow> gmosStreamSegmentListEnd p st;
        s \<leftarrow> segment;
        Some (s, p, st) })"

definition streamAppendSegment :: "nat \<Rightarrow> mempool \<Rightarrow> (nat \<times> mempool) option" where
  "streamAppendSegment segment p =
     (let (new, p) = gmosMempoolAlloc p; p = setNext segment new p in do {
        s \<leftarrow> new;
        Some (s, setNext s None p) })"

function streamWriteLoop ::
    "nat \<Rightarrow> mempool \<Rightarrow> gmosStream \<Rightarrow> byte list \<Rightarrow> (mempool \<times> gmosStream) option" where
  "streamWriteLoop segment p st sourceData =
     (if sourceData = [] then Some (p, st)
      else do {
        (segment, p) \<leftarrow> streamAppendSegment segment p;
        let copySize = min SEG (length sourceData);
        p \<leftarrow> streamStore segment 0 (take copySize sourceData) p;
        streamWriteLoop segment p
          (st\<lparr>writeOffset := copySize, streamSize := u16 (streamSize st + copySize)\<rparr>)
          (drop copySize sourceData) })"
  by pat_completeness auto
termination
  by (relation "measure (\<lambda>(segment, p, st, sourceData). length sourceData)") auto

declare streamWriteLoop.simps [simp del]

definition gmosStreamCommonWrite ::
    "mempool \<Rightarrow> sched \<Rightarrow> gmosStream \<Rightarrow> byte list \<Rightarrow> (mempool \<times> sched \<times> gmosStream) option" where
  "gmosStreamCommonWrite p sc st writeData = do {
     (segment, p, st) \<leftarrow> streamWriteSegment p st;
     let copySize = min (sub32 SEG (writeOffset st)) (length writeData);
     (p, st) \<leftarrow>
       (if copySize > 0
        then do {
          p \<leftarrow> streamStore segment (writeOffset st) (take copySize writeData) p;
          Some (p, st\<lparr>writeOffset := u16 (writeOffset st + copySize),
                      streamSize := u16 (streamSize st + copySize)\<rparr>) }
        else Some (p, st));
     (p, st) \<leftarrow> streamWriteLoop segment p st (drop copySize writeData);
     sc \<leftarrow> resumeConsumer st sc;
     Some (p, sc, st) }"

definition gmosStreamWrite ::
    "mempool \<Rightarrow> sched \<Rightarrow> gmosStream \<Rightarrow> byte list \<Rightarrow>
     (nat \<times> mempool \<times> sched \<times> gmosStream) option" where
  "gmosStreamWrite p sc st writeData =
     (let transferSize = min (gmosStreamGetWriteCapacity p st) (length writeData) in
      if transferSize > 0
      then do {
        (p, sc, st) \<leftarrow> gmosStreamCommonWrite p sc st (take transferSize writeData);
        Some (transferSize, p, sc, st) }
      else Some (transferSize, p, sc, st))"

definition gmosStreamWriteAll ::
    "mempool \<Rightarrow> sched \<Rightarrow> gmosStream \<Rightarrow> byte list \<Rightarrow>
     (bool \<times> mempool \<times> sched \<times> gmosStream) option" where
  "gmosStreamWriteAll p sc st writeData =
     (if gmosStreamGetWriteCapacity p st < length writeData then Some (False, p, sc, st)
      else if length writeData > 0
      then do {
        (p, sc, st) \<leftarrow> gmosStreamCommonWrite p sc st writeData;
        Some (True, p, sc, st) }
      else Some (True, p, sc, st))"

definition gmosStreamWriteByte ::
    "mempool \<Rightarrow> sched \<Rightarrow> gmosStream \<Rightarrow> byte \<Rightarrow> (bool \<times> mempool \<times> sched \<times> gmosStream) option" where
  "gmosStreamWriteByte p sc st writeByte =
     (if gmosStreamGetWriteCapacity p st = 0 then Some (False, p, sc, st)
      else do {
        (segment, p, st) \<leftarrow> streamWriteSegment p st;
        (segment, p, st) \<leftarrow>
          (if writeOffset st = SEG
           then do {
             (segment, p) \<leftarrow> streamAppendSegment segment p;
             Some (segment, p, st\<lparr>writeOffset := 0\<rparr>) }
           else Some (segment, p, st));
        p \<leftarrow> streamStore segment (writeOffset st) [writeByte] p;
        let st = st\<lparr>writeOffset := u16 (writeOffset st + 1), streamSize := u16 (streamSize st + 1)\<rparr>;
        sc \<leftarrow> resumeConsumer st sc;
        Some (True, p, sc, st) })"

definition gmosStreamWriteMessage ::
    "mempool \<Rightarrow> sched \<Rightarrow> gmosStream \<Rightarrow> byte list \<Rightarrow>
     (bool \<times> mempool \<times> sched \<times> gmosStream) option" where
  "gmosStreamWriteMessage p sc st writeData =
     (let writeSize = length writeData in
      if gmosStreamGetWriteCapacity p st < writeSize + 2 then Some (False, p, sc, st)
      else if writeSize > 0
      then do {
        (_, p, sc, st) \<leftarrow> gmosStreamWriteByte p sc st (of_nat writeSize);
        (_, p, sc, st) \<leftarrow> gmosStreamWriteByte p sc st (of_nat (writeSize div 256));
        (p, sc, st) \<leftarrow> gmosStreamCommonWrite p sc st writeData;
        Some (True, p, sc, st) }
      else Some (True, p, sc, st))"

subsection \<open>Reading\<close>

text \<open>The release of the first segment when it is used up or the stream has run empty.\<close>

definition streamReleaseHead :: "nat \<Rightarrow> mempool \<Rightarrow> gmosStream \<Rightarrow> (mempool \<times> gmosStream) option" where
  "streamReleaseHead s p st =
     (if readOffset st = SEG \<or> streamSize st = 0
      then (let st = st\<lparr>streamSegments := nextSegment p s, readOffset := 0\<rparr> in do {
              p \<leftarrow> gmosMempoolFree (Some s) p;
              Some (p, st) })
      else Some (p, st))"

partial_function (option) gmosStreamCommonRead ::
    "mempool \<Rightarrow> gmosStream \<Rightarrow> nat \<Rightarrow> (byte list \<times> mempool \<times> gmosStream) option" where
  "gmosStreamCommonRead p st remainingBytes =
     (if remainingBytes > 0
      then do {
        s \<leftarrow> streamSegments st;
        let copySize = min (sub32 SEG (readOffset st)) remainingBytes;
        block \<leftarrow> streamLoad s (readOffset st) copySize p;
        (p, st) \<leftarrow> streamReleaseHead s p
          (st\<lparr>readOffset := u16 (readOffset st + copySize),
              streamSize := u16 (sub32 (streamSize st) copySize)\<rparr>);
        (readData, p, st) \<leftarrow> gmosStreamCommonRead p st (remainingBytes - copySize);
        Some (block @ readData, p, st) }
      else Some ([], p, st))"

definition gmosStreamRead ::
    "mempool \<Rightarrow> gmosStream \<Rightarrow> nat \<Rightarrow> (nat \<times> byte list \<times> mempool \<times> gmosStream) option" where
  "gmosStreamRead p st readSize =
     (let transferSize = min (streamSize st) readSize in
      if transferSize > 0
      then do {
        (readData, p, st) \<leftarrow> gmosStreamCommonRead p st transferSize;
        Some (transferSize, readData, p, st) }
      else Some (transferSize, [], p, st))"

text \<open>The data is \<open>None\<close> when the function returns false and leaves the array alone.\<close>

definition gmosStreamReadAll ::
    "mempool \<Rightarrow> gmosStream \<Rightarrow> nat \<Rightarrow> (byte list option \<times> mempool \<times> gmosStream) option" where
  "gmosStreamReadAll p st readSize =
     (if streamSize st < readSize then Some (None, p, st)
      else if readSize > 0
      then do {
        (readData, p, st) \<leftarrow> gmosStreamCommonRead p st readSize;
        Some (Some readData, p, st) }
      else Some (Some [], p, st))"

definition gmosStreamReadByte ::
    "mempool \<Rightarrow> gmosStream \<Rightarrow> (byte option \<times> mempool \<times> gmosStream) option" where
  "gmosStreamReadByte p st =
     (if streamSize st = 0 then Some (None, p, st)
      else do {
        s \<leftarrow> streamSegments st;
        readByte \<leftarrow> streamLoad s (readOffset st) 1 p;
        (p, st) \<leftarrow> streamReleaseHead s p
          (st\<lparr>readOffset := u16 (readOffset st + 1), streamSize := u16 (sub32 (streamSize st) 1)\<rparr>);
        Some (Some (hd readByte), p, st) })"

definition gmosStreamPeekByte :: "mempool \<Rightarrow> gmosStream \<Rightarrow> nat \<Rightarrow> byte option option" where
  "gmosStreamPeekByte p st offset =
     (if streamSize st \<le> offset then Some None
      else do {
        (segment, residualOffset) \<leftarrow>
          skipSegments (nextSegment p) (streamSegments st) (offset + readOffset st);
        s \<leftarrow> segment;
        peekByte \<leftarrow> streamLoad s residualOffset 1 p;
        Some (Some (hd peekByte)) })"

definition gmosStreamReadMessage ::
    "mempool \<Rightarrow> gmosStream \<Rightarrow> nat \<Rightarrow> (nat \<times> byte list \<times> mempool \<times> gmosStream) option" where
  "gmosStreamReadMessage p st readSize = do {
     msgSizeLow \<leftarrow> gmosStreamPeekByte p st 0;
     msgSizeHigh \<leftarrow> (if msgSizeLow = None then Some None else gmosStreamPeekByte p st 1);
     case (msgSizeLow, msgSizeHigh) of
       (Some low, Some high) \<Rightarrow>
         (let msgSize = unat high * 256 + unat low in
          if streamSize st < msgSize + 2 then Some (0, [], p, st)
          else if msgSize > readSize then Some (0xFFFF, [], p, st)
          else do {
            (_, p, st) \<leftarrow> gmosStreamReadByte p st;
            (_, p, st) \<leftarrow> gmosStreamReadByte p st;
            if msgSize > 0
            then do {
              (readData, p, st) \<leftarrow> gmosStreamCommonRead p st msgSize;
              Some (msgSize, readData, p, st) }
            else Some (msgSize, [], p, st) })
     | _ \<Rightarrow> Some (0, [], p, st) }"

subsection \<open>Pushing back\<close>

function streamPushBackLoop ::
    "mempool \<Rightarrow> gmosStream \<Rightarrow> byte list \<Rightarrow> (mempool \<times> gmosStream) option" where
  "streamPushBackLoop p st sourceData =
     (if sourceData = [] then Some (p, st)
      else (let (new, p) = gmosMempoolAlloc p in do {
              s \<leftarrow> new;
              let p = setNext s (streamSegments st) p;
              let copySize = min SEG (length sourceData);
              let rest = length sourceData - copySize;
              let copyOffset = SEG - copySize;
              p \<leftarrow> streamStore s copyOffset (drop rest sourceData) p;
              streamPushBackLoop p
                (st\<lparr>streamSegments := Some s, readOffset := copyOffset,
                    streamSize := u16 (streamSize st + copySize)\<rparr>)
                (take rest sourceData) }))"
  by pat_completeness auto
termination
  by (relation "measure (\<lambda>(p, st, sourceData). length sourceData)") auto

declare streamPushBackLoop.simps [simp del]

definition gmosStreamPushBack ::
    "mempool \<Rightarrow> gmosStream \<Rightarrow> byte list \<Rightarrow> (bool \<times> mempool \<times> gmosStream) option" where
  "gmosStreamPushBack p st pushBackData =
     (if gmosStreamGetPushBackCapacity p st < length pushBackData then Some (False, p, st)
      else do {
        (s, p, st) \<leftarrow>
          (case streamSegments st of
             None \<Rightarrow> streamFirstSegment SEG p st
           | Some s \<Rightarrow> Some (s, p, st));
        let copySize = min (readOffset st) (length pushBackData);
        let rest = length pushBackData - copySize;
        (p, st) \<leftarrow>
          (if copySize > 0
           then (let copyOffset = readOffset st - copySize in do {
                   p \<leftarrow> streamStore s copyOffset (drop rest pushBackData) p;
                   Some (p, st\<lparr>readOffset := copyOffset,
                               streamSize := u16 (streamSize st + copySize)\<rparr>) })
           else Some (p, st));
        (p, st) \<leftarrow> streamPushBackLoop p st (take rest pushBackData);
        Some (True, p, st) })"

subsection \<open>Passing buffers by reference\<close>

text \<open>
  The object representation of a \<open>gmosBuffer_t\<close>: the segment list pointer, the size and the
  offset. The null pointer is zero and the address of a segment is one more than its number.
\<close>

definition pointerWord :: "nat option \<Rightarrow> nat" where
  "pointerWord ptr = (case ptr of None \<Rightarrow> 0 | Some s \<Rightarrow> s + 1)"

definition bufferBytes :: "gmosBuffer \<Rightarrow> byte list" where
  "bufferBytes b =
     leBytes 4 (pointerWord (segmentList b)) @ leBytes 2 (bufferSize b) @ leBytes 2 (bufferOffset b)"

definition bytesBuffer :: "byte list \<Rightarrow> gmosBuffer" where
  "bytesBuffer bs =
     (let ptr = leNat (take 4 bs) in
      \<lparr>segmentList = (if ptr = 0 then None else Some (ptr - 1)),
       bufferSize = leNat (take 2 (drop 4 bs)), bufferOffset = leNat (take 2 (drop 6 bs))\<rparr>)"

definition gmosStreamSendBuffer ::
    "mempool \<Rightarrow> sched \<Rightarrow> gmosStream \<Rightarrow> gmosBuffer \<Rightarrow>
     (bool \<times> mempool \<times> sched \<times> gmosStream \<times> gmosBuffer) option" where
  "gmosStreamSendBuffer p sc st buffer = do {
     (ok, p, sc, st) \<leftarrow> gmosStreamWriteAll p sc st (bufferBytes buffer);
     if ok then Some (True, p, sc, st, buffer\<lparr>segmentList := None, bufferSize := 0\<rparr>)
     else Some (False, p, sc, st, buffer) }"

definition gmosStreamAcceptBuffer ::
    "mempool \<Rightarrow> gmosStream \<Rightarrow> gmosBuffer \<Rightarrow>
     (bool \<times> mempool \<times> gmosStream \<times> gmosBuffer) option" where
  "gmosStreamAcceptBuffer p st buffer = do {
     (_, p, buffer) \<leftarrow> gmosBufferReset p buffer 0;
     (readData, p, st) \<leftarrow> gmosStreamReadAll p st 8;
     case readData of
       None \<Rightarrow> Some (False, p, st, buffer)
     | Some bs \<Rightarrow> Some (True, p, st, bytesBuffer bs) }"

definition gmosStreamPushBackBuffer ::
    "mempool \<Rightarrow> gmosStream \<Rightarrow> gmosBuffer \<Rightarrow>
     (bool \<times> mempool \<times> gmosStream \<times> gmosBuffer) option" where
  "gmosStreamPushBackBuffer p st buffer = do {
     (ok, p, st) \<leftarrow> gmosStreamPushBack p st (bufferBytes buffer);
     if ok then Some (True, p, st, buffer\<lparr>segmentList := None, bufferSize := 0\<rparr>)
     else Some (False, p, st, buffer) }"

subsection \<open>What a stream holds\<close>

definition stream_core :: "mempool \<Rightarrow> gmosStream \<Rightarrow> nat list \<Rightarrow> byte list \<Rightarrow> bool" where
  "stream_core p st xs ds \<longleftrightarrow>
     llist (nextSegment p) (streamSegments st) xs \<and>
     streamSize st = length ds \<and> length ds \<le> maxSize st \<and> maxSize st < 65536 \<and>
     (xs \<noteq> [] \<longrightarrow> writeOffset st \<le> SEG \<and> readOffset st \<le> SEG \<and>
        readOffset st + length ds + SEG = SEG * length xs + writeOffset st) \<and>
     take (length ds) (drop (readOffset st) (flat p xs)) = ds"

definition stream_rep :: "mempool \<Rightarrow> gmosStream \<Rightarrow> nat list \<Rightarrow> byte list \<Rightarrow> bool" where
  "stream_rep p st xs ds \<longleftrightarrow>
     stream_core p st xs ds \<and>
     (xs \<noteq> [] \<longrightarrow> ds \<noteq> [] \<and> 0 < writeOffset st \<and> readOffset st < SEG)"

text \<open>The pool around the stream: ownership, and the segments that are free or in the stream.\<close>

definition stream_pool :: "mempool \<Rightarrow> nat list \<Rightarrow> nat set \<Rightarrow> nat \<Rightarrow> bool" where
  "stream_pool p xs R N \<longleftrightarrow>
     pool_ok p (set xs \<union> R) \<and> set xs \<inter> R = {} \<and> (\<not> mempoolUseHeap p \<longrightarrow> avail p + length xs = N)"

definition stream_state ::
    "mempool \<Rightarrow> gmosStream \<Rightarrow> byte list \<Rightarrow> nat set \<Rightarrow> nat \<Rightarrow> bool" where
  "stream_state p st ds R N \<longleftrightarrow> (\<exists>xs. stream_rep p st xs ds \<and> stream_pool p xs R N)"

lemma stream_coreD:
  assumes "stream_core p st xs ds"
  shows "llist (nextSegment p) (streamSegments st) xs" "streamSize st = length ds"
    "length ds \<le> maxSize st" "maxSize st < 65536" "length ds < 65536"
    "xs \<noteq> [] \<Longrightarrow> writeOffset st \<le> SEG" "xs \<noteq> [] \<Longrightarrow> readOffset st \<le> SEG"
    "xs \<noteq> [] \<Longrightarrow> readOffset st + length ds + SEG = SEG * length xs + writeOffset st"
    "take (length ds) (drop (readOffset st) (flat p xs)) = ds"
    "streamSegments st = None \<longleftrightarrow> xs = []"
proof -
  show "streamSegments st = None \<longleftrightarrow> xs = []"
    using assms llist_Nil_iff [of "nextSegment p" "streamSegments st" xs] by (simp add: stream_core_def)
qed (use assms in \<open>simp_all add: stream_core_def\<close>)

lemma stream_poolD:
  assumes "stream_pool p xs R N"
  shows "pool_ok p (set xs \<union> R)" "set xs \<inter> R = {}" "\<forall>a. length (segBytes p a) = SEG"
    "\<not> mempoolUseHeap p \<Longrightarrow> avail p + length xs = N" "avail p \<le> 65535"
  using assms pool_ok_segBytes pool_ok_avail by (auto simp: stream_pool_def)

lemma stream_rep_core: "stream_rep p st xs ds \<Longrightarrow> stream_core p st xs ds"
  by (simp add: stream_rep_def)

lemma stream_rep_Nil: "stream_rep p st xs ds \<Longrightarrow> ds = [] \<longleftrightarrow> xs = []"
  by (auto simp: stream_rep_def stream_core_def)

lemma stream_bytes: "stream_pool p xs R N \<Longrightarrow> length (flat p ys) = SEG * length ys"
  using stream_poolD(3) by simp

subsection \<open>Writing\<close>

lemma take_drop_splice_end:
  assumes "k + n + length c \<le> length F"
  shows "take (n + length c) (drop k (splice (k + n) c F)) = take n (drop k F) @ c"
  using assms by (simp add: splice_def drop_take)

lemma flat_writeSeg_last:
  assumes "distinct (ys @ [z])" "\<forall>a. length (segBytes p a) = SEG"
  shows "flat (writeSeg z off c p) (ys @ [z]) = splice (SEG * length ys + off) c (flat p (ys @ [z]))"
proof -
  have "flat (writeSeg z off c p) ys = flat p ys" using assms(1) by (intro flat_cong) auto
  then show ?thesis using assms(2) by (simp add: splice_append_right)
qed

text \<open>Writing into the free end of the last segment.\<close>

lemma stream_fill:
  assumes core: "stream_core p st xs ds" and pool: "stream_pool p xs R N" and ne: "xs \<noteq> []"
    and c: "writeOffset st + length c \<le> SEG" "length ds + length c \<le> maxSize st"
  obtains p' where "streamStore (last xs) (writeOffset st) c p = Some p'"
    "stream_core p' (st\<lparr>writeOffset := u16 (writeOffset st + length c),
       streamSize := u16 (streamSize st + length c)\<rparr>) xs (ds @ c)"
    "stream_pool p' xs R N" "same_on R p p'" "avail p' = avail p"
proof -
  note s = stream_coreD [OF core] and q = stream_poolD [OF pool]
  let ?p' = "writeSeg (last xs) (writeOffset st) c p"
  obtain ys z where xs: "xs = ys @ [z]" using ne by (cases xs rule: rev_cases) auto
  have pos: "SEG * length ys + writeOffset st = readOffset st + length ds" using s(8) [OF ne] xs by simp
  have "flat ?p' xs = splice (readOffset st + length ds) c (flat p xs)"
    using flat_writeSeg_last [of ys z p] llist_distinct [OF s(1)] q(3) xs pos by simp
  moreover have "readOffset st + length ds + length c \<le> length (flat p xs)"
    using pos c(1) xs q(3) by (simp add: stream_bytes [OF pool] del: flat_simps)
  ultimately have f: "take (length ds + length c) (drop (readOffset st) (flat ?p' xs)) = ds @ c"
    using take_drop_splice_end [of "readOffset st" "length ds" c "flat p xs"] s(9) by simp
  have "SEG \<le> 64" by (simp add: GMOS_CONFIG_MEMPOOL_SEGMENT_SIZE_def)
  then have u: "u16 (writeOffset st + length c) = writeOffset st + length c"
    "u16 (streamSize st + length c) = length ds + length c" using c s(2,4) by simp_all
  have o: "only_bytes (set xs) p ?p'" using only_bytes_writeSeg [OF q(3)] c(1) ne by simp
  show thesis
  proof (rule that [of ?p'])
    show "streamStore (last xs) (writeOffset st) c p = Some ?p'" using c(1) by (simp add: streamStore_def)
    show "stream_core ?p' (st\<lparr>writeOffset := u16 (writeOffset st + length c),
       streamSize := u16 (streamSize st + length c)\<rparr>) xs (ds @ c)"
      unfolding u using s(1,3,4,7) s(8) [OF ne] c f by (simp add: stream_core_def)
    show "stream_pool ?p' xs R N"
      using pool only_bytesD(4-6) [OF o] by (auto simp: stream_pool_def)
    show "same_on R p ?p'" using only_bytesD(7) [OF o q(2)] .
  qed simp
qed

text \<open>The first segment of an empty stream.\<close>

lemma stream_first:
  assumes core: "stream_core p st [] []" and pool: "stream_pool p [] R N" and a: "0 < avail p"
    and k: "k \<le> SEG"
  obtains s p' st' where "streamFirstSegment k p st = Some (s, p', st')"
    "st' = st\<lparr>streamSegments := Some s, streamSize := 0, writeOffset := k, readOffset := k\<rparr>"
    "stream_core p' st' [s] []" "stream_pool p' [s] R N" "same_on R p p'" "avail p - 1 \<le> avail p'"
proof -
  note s = stream_coreD [OF core] and q = stream_poolD [OF pool]
  from Alloc_ok [OF q(1) a] obtain p1 x where r: "gmosMempoolAlloc p = (Some x, p1)"
    "nextSegment p1 x = None" "x \<notin> set [] \<union> R" "pool_ok p1 (insert x (set [] \<union> R))"
    "same_on (set [] \<union> R) p p1" "mempoolUseHeap p1 = mempoolUseHeap p" "avail p - 1 \<le> avail p1"
    "\<not> mempoolUseHeap p \<Longrightarrow> avail p1 = avail p - 1" by metis
  let ?p2 = "setNext x None p1"
  have ok: "pool_ok ?p2 (insert x R)" using r(4) by (simp add: setNext_def pool_ok_next_upd)
  show thesis
  proof (rule that [of x ?p2 "st\<lparr>streamSegments := Some x, streamSize := 0, writeOffset := k,
      readOffset := k\<rparr>"])
    show "stream_pool ?p2 [x] R N"
      using ok r(3,6,8) q(4) a by (cases "mempoolUseHeap p") (auto simp: stream_pool_def)
    show "same_on R p ?p2" using r(3,5) by (auto simp: same_on_def)
  qed (use r s k in \<open>simp_all add: streamFirstSegment_def stream_core_def\<close>)
qed

text \<open>One more segment behind a full one.\<close>

lemma stream_append_segment:
  assumes core: "stream_core p st xs ds" and pool: "stream_pool p xs R N" and ne: "xs \<noteq> []"
    and a: "0 < avail p" and full: "writeOffset st = SEG"
  obtains s p' where "streamAppendSegment (last xs) p = Some (s, p')"
    "stream_core p' (st\<lparr>writeOffset := 0\<rparr>) (xs @ [s]) ds" "stream_pool p' (xs @ [s]) R N"
    "same_on R p p'" "avail p - 1 \<le> avail p'"
proof -
  note s = stream_coreD [OF core] and q = stream_poolD [OF pool]
  from Alloc_ok [OF q(1) a] obtain p1 x where r: "gmosMempoolAlloc p = (Some x, p1)"
    "nextSegment p1 x = None" "x \<notin> set xs \<union> R" "pool_ok p1 (insert x (set xs \<union> R))"
    "same_on (set xs \<union> R) p p1" "mempoolUseHeap p1 = mempoolUseHeap p" "avail p - 1 \<le> avail p1"
    "\<not> mempoolUseHeap p \<Longrightarrow> avail p1 = avail p - 1" by metis
  let ?p2 = "setNext x None (setNext (last xs) (Some x) p1)"
  have l: "last xs \<in> set xs" using ne by simp
  then have lR: "last xs \<notin> R" using q(2) by blast
  have ok: "pool_ok ?p2 (set (xs @ [x]) \<union> R)"
    using mp.ok_link [OF mp.ok_link [OF r(4), of "last xs" "Some x"], of x None] l by simp
  have c1: "llist (nextSegment p1) (streamSegments st) xs"
    using same_on_chain [OF r(5), of xs] s(1) by simp
  then have "llist ((nextSegment p1)(last xs := Some x)) (streamSegments st) (xs @ [x])"
    using r(2,3) by (intro llist_link [OF _ ne llist_distinct [OF s(1)]]) auto
  then have c2: "llist (nextSegment ?p2) (streamSegments st) (xs @ [x])"
    using r(2,3) l by (subst setNext_fields, subst fun_upd_idem) auto
  have f: "flat ?p2 xs = flat p xs" using r(5) by (intro flat_cong) (simp add: same_on_def)
  have "length (segBytes ?p2 x) = SEG" using pool_ok_segBytes [OF ok] .
  have pos: "length (flat p xs) = readOffset st + length ds"
    using s(8) [OF ne] full by (simp add: stream_bytes [OF pool])
  show thesis
  proof (rule that [of x ?p2])
    show "streamAppendSegment (last xs) p = Some (x, ?p2)"
      using r(1) by (simp add: streamAppendSegment_def)
    show "stream_core ?p2 (st\<lparr>writeOffset := 0\<rparr>) (xs @ [x]) ds"
      using s c2 f pos s(8) [OF ne] full ne by (simp add: stream_core_def)
    show "stream_pool ?p2 (xs @ [x]) R N"
      using ok r(3,6,8) q(2,4) a by (cases "mempoolUseHeap p") (auto simp: stream_pool_def)
    show "same_on R p ?p2" using r(3,5) lR by (auto simp: same_on_def)
  qed (use r(7) in simp)
qed

text \<open>Writing the rest into new segments.\<close>

lemma streamWriteLoop_ok:
  assumes "stream_core p st xs ds" "stream_pool p xs R N" "xs \<noteq> []"
    and "w \<noteq> [] \<longrightarrow> writeOffset st = SEG" "length w \<le> SEG * avail p"
    and "length ds + length w \<le> maxSize st"
  shows "\<exists>p' st' xs'. streamWriteLoop (last xs) p st w = Some (p', st') \<and>
    stream_core p' st' xs' (ds @ w) \<and> stream_pool p' xs' R N \<and> same_on R p p' \<and> xs' \<noteq> [] \<and>
    (w \<noteq> [] \<or> 0 < writeOffset st \<longrightarrow> 0 < writeOffset st') \<and> readOffset st' = readOffset st \<and>
    maxSize st' = maxSize st \<and> consumerTask st' = consumerTask st \<and>
    avail p + length xs \<le> avail p' + length xs'"
  using assms
proof (induction "length w" arbitrary: p st xs ds w rule: less_induct)
  case less
  show ?case
  proof (cases "w = []")
    case True
    then show ?thesis using less.prems by (intro exI [of _ p] exI [of _ st])
      (auto simp: streamWriteLoop.simps intro!: exI [of _ xs])
  next
    case False
    let ?c = "min SEG (length w)"
    have seg: "SEG < 65536" by (simp add: GMOS_CONFIG_MEMPOOL_SEGMENT_SIZE_def)
    have a: "0 < avail p" using False less.prems(5) by (cases "avail p") auto
    obtain s p1 where r: "streamAppendSegment (last xs) p = Some (s, p1)"
      "stream_core p1 (st\<lparr>writeOffset := 0\<rparr>) (xs @ [s]) ds" "stream_pool p1 (xs @ [s]) R N"
      "same_on R p p1" "avail p - 1 \<le> avail p1"
      by (rule stream_append_segment [OF less.prems(1,2,3) a less.prems(4) [rule_format, OF False]]) blast
    obtain p2 where f: "streamStore s 0 (take ?c w) p1 = Some p2"
      "stream_core p2 (st\<lparr>writeOffset := ?c, streamSize := u16 (streamSize st + ?c)\<rparr>)
         (xs @ [s]) (ds @ take ?c w)" "stream_pool p2 (xs @ [s]) R N" "same_on R p1 p2"
      "avail p2 = avail p1"
    proof -
      have tl: "length (take ?c w) = ?c" and u: "u16 ?c = ?c" using seg by (simp_all add: min_def)
      show thesis
        by (rule stream_fill [OF r(2,3), of "take ?c w", unfolded tl])
           (use less.prems(6) u in \<open>auto intro: that simp: min_def\<close>)
    qed
    let ?st2 = "st\<lparr>writeOffset := ?c, streamSize := u16 (streamSize st + ?c)\<rparr>"
    have e: "streamWriteLoop (last xs) p st w = streamWriteLoop (last (xs @ [s])) p2 ?st2 (drop ?c w)"
      using r(1) f(1) False by (simp add: streamWriteLoop.simps [of "last xs"] Let_def)
    have "SEG * avail p \<le> SEG * (avail p2 + 1)" using r(5) f(5) by (intro mult_le_mono) auto
    then have l2: "length (drop ?c w) \<le> SEG * avail p2" using less.prems(5) by auto
    have "\<exists>p' st' xs'. streamWriteLoop (last (xs @ [s])) p2 ?st2 (drop ?c w) = Some (p', st') \<and>
      stream_core p' st' xs' ((ds @ take ?c w) @ drop ?c w) \<and> stream_pool p' xs' R N \<and>
      same_on R p2 p' \<and> xs' \<noteq> [] \<and>
      (drop ?c w \<noteq> [] \<or> 0 < writeOffset ?st2 \<longrightarrow> 0 < writeOffset st') \<and>
      readOffset st' = readOffset ?st2 \<and> maxSize st' = maxSize ?st2 \<and>
      consumerTask st' = consumerTask ?st2 \<and>
      avail p2 + length (xs @ [s]) \<le> avail p' + length xs'"
      by (rule less.hyps [OF _ f(2,3)]) (use False l2 less.prems(6) in \<open>auto simp: min_def split: if_splits\<close>)
    then obtain p' st' xs' where z:
      "streamWriteLoop (last (xs @ [s])) p2 ?st2 (drop ?c w) = Some (p', st')"
      "stream_core p' st' xs' (ds @ w)" "stream_pool p' xs' R N" "same_on R p2 p'" "xs' \<noteq> []"
      "0 < writeOffset st'" "readOffset st' = readOffset st" "maxSize st' = maxSize st"
      "consumerTask st' = consumerTask st" "avail p2 + length xs + 1 \<le> avail p' + length xs'"
      using False by auto
    have "avail p + length xs \<le> avail p' + length xs'" using z(10) r(5) f(5) by simp
    have "same_on R p p'" using r(4) f(4) z(4) same_on_trans by blast
    with z(1-9) e \<open>avail p + length xs \<le> _\<close> show ?thesis by auto
  qed
qed

text \<open>Resuming the consumer keeps the scheduler's lists well formed.\<close>

definition sched_ok :: "sched \<Rightarrow> bool" where
  "sched_ok sc \<longleftrightarrow> (\<exists>T Q. sched_inv sc T Q)"

definition consumer_ready :: "gmosStream \<Rightarrow> sched \<Rightarrow> bool" where
  "consumer_ready st sc \<longleftrightarrow>
     (\<forall>t. consumerTask st = Some t \<longrightarrow> taskState sc t \<in> {TASK_STATE_READY, TASK_STATE_ACTIVE})"

lemma resumeConsumer_ok:
  assumes "sched_ok sc"
  obtains sc' where "resumeConsumer st sc = Some sc'" "sched_ok sc'" "consumer_ready st sc'"
proof (cases "consumerTask st")
  case None
  then show thesis using that [of sc] assms by (simp add: resumeConsumer_def consumer_ready_def)
next
  case (Some t)
  show thesis
  proof (cases "taskState sc t = TASK_STATE_ACTIVE")
    case True
    then show thesis using that [of sc] assms Some
      by (simp add: resumeConsumer_def gmosSchedulerTaskResume_def consumer_ready_def)
  next
    case False
    from assms obtain T Q where "sched_inv sc T Q" by (auto simp: sched_ok_def)
    from TaskResume_ok [OF this False] obtain sc' where "gmosSchedulerTaskResume t sc = Some sc'"
      "sched_ok sc'" "taskState sc' t = TASK_STATE_READY" unfolding sched_ok_def by metis
    then show thesis using that [of sc'] Some by (simp add: resumeConsumer_def consumer_ready_def)
  qed
qed

text \<open>The room for writing: free bytes of the last segment and of the free segments.\<close>

definition writeRoom :: "mempool \<Rightarrow> gmosStream \<Rightarrow> nat" where
  "writeRoom p st =
     min (maxSize st - streamSize st)
       ((if streamSegments st = None then 0 else SEG - writeOffset st) + SEG * avail p)"

lemma WriteCapacity_eq:
  assumes core: "stream_core p st xs ds" and pool: "stream_pool p xs R N"
  shows "gmosStreamGetWriteCapacity p st = writeRoom p st"
proof -
  note s = stream_coreD [OF core] and q = stream_poolD [OF pool]
  have u: "u16 (avail p) = avail p" using q(5) by simp
  have e: "(if streamSegments st = None then 0 else sub32 SEG (writeOffset st)) =
      (if streamSegments st = None then 0 else SEG - writeOffset st)" using s(6,10) by auto
  have "SEG * avail p \<le> 64 * 65535"
    using q(5) by (simp add: GMOS_CONFIG_MEMPOOL_SEGMENT_SIZE_def)
  moreover have "(if streamSegments st = None then 0 else SEG - writeOffset st) \<le> 64"
    by (simp add: GMOS_CONFIG_MEMPOOL_SEGMENT_SIZE_def)
  ultimately have "(if streamSegments st = None then 0 else SEG - writeOffset st) + SEG * avail p
      < 4294967296" by linarith
  moreover have "sub32 (maxSize st) (streamSize st) = maxSize st - streamSize st" using s(2,3) by simp
  moreover have "maxSize st - streamSize st < 65536" using s(4) by simp
  ultimately show ?thesis using u e
    by (simp add: gmosStreamGetWriteCapacity_def limitCapacity_def writeRoom_def
        gmosMempoolSegmentsAvailable_def Let_def min_def)
qed

lemma min_diff_mono: "A \<le> (B::nat) \<Longrightarrow> min a (A - k) \<le> min a (B - k)"
  by auto

lemma room_step:
  "X \<le> min (M - D) (A - (r + D)) \<Longrightarrow> A \<le> B \<Longrightarrow>
     X \<le> min (M - (D + W)) (B - (r + (D + W))) + (W :: nat)"
  by linarith

lemma writeRoom_eq:
  assumes core: "stream_core p st xs ds"
  shows "writeRoom p st = min (maxSize st - length ds)
    (if xs = [] then SEG * avail p else SEG * (avail p + length xs) - (readOffset st + length ds))"
  using stream_coreD(2,6,8,10) [OF core] by (auto simp: writeRoom_def algebra_simps)

lemma streamWriteSegment_ok:
  assumes rep: "stream_rep p st xs ds" and pool: "stream_pool p xs R N" and a: "0 < writeRoom p st"
  obtains xs1 p1 st1 where "streamWriteSegment p st = Some (last xs1, p1, st1)" "xs1 \<noteq> []"
    "stream_core p1 st1 xs1 ds" "stream_pool p1 xs1 R N" "same_on R p p1"
    "xs = [] \<longrightarrow> readOffset st1 = 0" "xs \<noteq> [] \<longrightarrow> readOffset st1 = readOffset st"
    "maxSize st1 = maxSize st" "consumerTask st1 = consumerTask st"
    "avail p + length xs \<le> avail p1 + length xs1" "readOffset st1 < SEG"
proof -
  note core = stream_rep_core [OF rep]
  note s = stream_coreD [OF core]
  show thesis
  proof (cases "xs = []")
    case True
    then have ds: "ds = []" using stream_rep_Nil [OF rep] by simp
    have "0 < avail p" using a s(10) True by (auto simp: writeRoom_def)
    then obtain x p1 st1 where r: "streamFirstSegment 0 p st = Some (x, p1, st1)"
      "st1 = st\<lparr>streamSegments := Some x, streamSize := 0, writeOffset := 0, readOffset := 0\<rparr>"
      "stream_core p1 st1 [x] []" "stream_pool p1 [x] R N" "same_on R p p1" "avail p - 1 \<le> avail p1"
      using stream_first [of p st R N 0] core pool True ds by auto
    show thesis
      by (rule that [of "[x]" p1 st1]) (use r ds True s(10) in \<open>simp_all add: streamWriteSegment_def\<close>)
  next
    case False
    with s(10) obtain h where h: "streamSegments st = Some h" by auto
    have "walkEnd (nextSegment p) h = Some (last xs)" using walkEnd_llist s(1) h by simp
    then show thesis
      using that [of xs p st] False core pool rep h
      by (simp add: streamWriteSegment_def gmosStreamSegmentListEnd_def stream_rep_def)
  qed
qed

text \<open>A write that fits appends its data and resumes the consumer.\<close>

lemma CommonWrite_ok:
  assumes st: "stream_state p st ds R N" and sc: "sched_ok sc"
    and w: "w \<noteq> []" "length w \<le> writeRoom p st"
  obtains p' sc' st' where "gmosStreamCommonWrite p sc st w = Some (p', sc', st')"
    "stream_state p' st' (ds @ w) R N" "same_on R p p'" "sched_ok sc'" "consumer_ready st' sc'"
    "maxSize st' = maxSize st" "consumerTask st' = consumerTask st"
    "writeRoom p st \<le> writeRoom p' st' + length w"
proof -
  from st obtain xs where rep: "stream_rep p st xs ds" and pool: "stream_pool p xs R N"
    by (auto simp: stream_state_def)
  have "0 < writeRoom p st" using w by (cases w) auto
  then obtain xs1 p1 st1 where r: "streamWriteSegment p st = Some (last xs1, p1, st1)" "xs1 \<noteq> []"
    "stream_core p1 st1 xs1 ds" "stream_pool p1 xs1 R N" "same_on R p p1"
    "xs = [] \<longrightarrow> readOffset st1 = 0" "xs \<noteq> [] \<longrightarrow> readOffset st1 = readOffset st"
    "maxSize st1 = maxSize st" "consumerTask st1 = consumerTask st"
    "avail p + length xs \<le> avail p1 + length xs1" "readOffset st1 < SEG"
    by (rule streamWriteSegment_ok [OF rep pool])
  note s = stream_coreD [OF r(3)]
  have ds: "xs = [] \<Longrightarrow> ds = []" using stream_rep_Nil [OF rep] by simp
  have room: "writeRoom p st \<le> min (maxSize st1 - length ds)
      (SEG * (avail p1 + length xs1) - (readOffset st1 + length ds))"
  proof -
    have "writeRoom p st = min (maxSize st - length ds)
        (SEG * (avail p + length xs) - (readOffset st1 + length ds))"
      unfolding writeRoom_eq [OF stream_rep_core [OF rep]] using ds r(6,7) by (cases "xs = []") simp_all
    then show ?thesis
      unfolding r(8) using min_diff_mono [OF mult_le_mono2 [OF r(10), of SEG]] by simp
  qed
  let ?c = "min (SEG - writeOffset st1) (length w)"
  have wo: "sub32 SEG (writeOffset st1) = SEG - writeOffset st1" using s(6) [OF r(2)] by simp
  have fit: "length ds + length w \<le> maxSize st1"
    using w room s(3) by auto
  have seg: "SEG < 65536" by (simp add: GMOS_CONFIG_MEMPOOL_SEGMENT_SIZE_def)
  obtain p2 st2 where f: "(if ?c > 0
      then do {
        p \<leftarrow> streamStore (last xs1) (writeOffset st1) (take ?c w) p1;
        Some (p, st1\<lparr>writeOffset := u16 (writeOffset st1 + ?c),
                     streamSize := u16 (streamSize st1 + ?c)\<rparr>) }
      else Some (p1, st1)) = Some (p2, st2)"
    and core2: "stream_core p2 st2 xs1 (ds @ take ?c w)" and pool2: "stream_pool p2 xs1 R N"
    and g: "same_on R p1 p2" "avail p2 = avail p1" "readOffset st2 = readOffset st1"
      "maxSize st2 = maxSize st1" "consumerTask st2 = consumerTask st1"
      "writeOffset st2 = writeOffset st1 + ?c"
  proof (cases "?c > 0")
    case True
    have tl: "length (take ?c w) = ?c" by (simp add: min_def)
    have u: "u16 (writeOffset st1 + ?c) = writeOffset st1 + ?c" using s(6) [OF r(2)] seg by simp
    show thesis
    proof (rule stream_fill [OF r(3,4,2), of "take ?c w", unfolded tl])
      fix p'
      assume a: "streamStore (last xs1) (writeOffset st1) (take ?c w) p1 = Some p'"
        "stream_core p' (st1\<lparr>writeOffset := u16 (writeOffset st1 + ?c),
           streamSize := u16 (streamSize st1 + ?c)\<rparr>) xs1 (ds @ take ?c w)"
        "stream_pool p' xs1 R N" "same_on R p1 p'" "avail p' = avail p1"
      show thesis by (rule that [OF _ a(2-5)]) (use True a(1) u in \<open>simp_all only: if_True, simp_all\<close>)
    qed (use s(6) [OF r(2)] fit in auto)
  next
    case False
    then have c: "?c = 0" by (simp only: not_gr_zero)
    show thesis by (rule that [of p1 st1]) (simp_all add: c r(3,4) del: min_0R min_0L)
  qed
  have le2: "writeOffset st1 \<le> SEG" using s(6) [OF r(2)] .
  have full: "drop ?c w \<noteq> [] \<longrightarrow> writeOffset st2 = SEG"
    using le2 g(6) by (auto simp: min_def split: if_splits)
  have fits: "length (drop ?c w) \<le> SEG * avail p2"
  proof (cases "drop ?c w = []")
    case False
    have "SEG * (avail p1 + length xs1) - (readOffset st1 + length ds) = SEG * avail p1 + (SEG - writeOffset st1)"
      using s(8) [OF r(2)] le2 by (simp add: algebra_simps)
    then have "length w \<le> SEG * avail p1 + (SEG - writeOffset st1)" using w(2) room by simp
    then show ?thesis using g(2) False by (auto simp: min_def)
  qed auto
  have max: "length (ds @ take ?c w) + length (drop ?c w) \<le> maxSize st2" using fit g(4) by simp
  from streamWriteLoop_ok [OF core2 pool2 r(2) full fits max] obtain p3 st3 xs3 where l: "streamWriteLoop (last xs1) p2 st2 (drop ?c w) = Some (p3, st3)"
    "stream_core p3 st3 xs3 ((ds @ take ?c w) @ drop ?c w)" "stream_pool p3 xs3 R N"
    "same_on R p2 p3" "xs3 \<noteq> []" "drop ?c w \<noteq> [] \<or> 0 < writeOffset st2 \<longrightarrow> 0 < writeOffset st3"
    "readOffset st3 = readOffset st2" "maxSize st3 = maxSize st2"
    "consumerTask st3 = consumerTask st2" "avail p2 + length xs1 \<le> avail p3 + length xs3"
    by - (elim exE conjE, rule that)
  have core3: "stream_core p3 st3 xs3 (ds @ w)" using l(2) by simp
  have "drop ?c w \<noteq> [] \<or> 0 < writeOffset st2" using w(1) g(6) le2 by (auto simp: min_def)
  then have rep3: "stream_rep p3 st3 xs3 (ds @ w)"
    using core3 w(1) l(6,7) g(3) r(11) by (simp add: stream_rep_def)
  obtain sc' where c: "resumeConsumer st3 sc = Some sc'" "sched_ok sc'" "consumer_ready st3 sc'"
    by (rule resumeConsumer_ok [OF sc])
  have e: "gmosStreamCommonWrite p sc st w = Some (p3, sc', st3)"
    by (simp only: gmosStreamCommonWrite_def r(1) wo Let_def f l(1) c(1) Option.bind.simps prod.case)
  show thesis
  proof (rule that [OF e])
    show "stream_state p3 st3 (ds @ w) R N" using rep3 l(3) by (auto simp: stream_state_def)
    show "same_on R p p3" using r(5) g(1) l(4) same_on_trans by blast
    have le: "avail p1 + length xs1 \<le> avail p3 + length xs3" using l(10) g(2) by simp
    have "writeRoom p3 st3 = min (maxSize st1 - (length ds + length w))
        (SEG * (avail p3 + length xs3) - (readOffset st1 + (length ds + length w)))"
      unfolding writeRoom_eq [OF core3] using l(5,7,8) g(3,4) by simp
    then show "writeRoom p st \<le> writeRoom p3 st3 + length w"
      using room_step [OF room mult_le_mono2 [OF le]] by simp
  qed (use c l(8,9) g(4,5) r(8,9) in simp_all)
qed

lemma stream_state_capacity:
  assumes "stream_state p st ds R N"
  shows "gmosStreamGetWriteCapacity p st = writeRoom p st"
    "streamSize st = length ds" "length ds + writeRoom p st \<le> maxSize st" "maxSize st < 65536"
    "length ds < 65536"
proof -
  from assms obtain xs where r: "stream_core p st xs ds" "stream_pool p xs R N"
    by (auto simp: stream_state_def stream_rep_def)
  show "gmosStreamGetWriteCapacity p st = writeRoom p st" using WriteCapacity_eq [OF r] .
  show "streamSize st = length ds" "maxSize st < 65536" "length ds < 65536"
    using stream_coreD [OF r(1)] by simp_all
  show "length ds + writeRoom p st \<le> maxSize st"
    using stream_coreD(2,3) [OF r(1)] by (simp add: writeRoom_def)
qed

lemma WriteAll_ok:
  assumes st: "stream_state p st ds R N" and sc: "sched_ok sc"
  obtains p' sc' st' where
    "gmosStreamWriteAll p sc st w = Some (length w \<le> writeRoom p st, p', sc', st')"
    "stream_state p' st' (if length w \<le> writeRoom p st then ds @ w else ds) R N" "same_on R p p'"
    "sched_ok sc'" "length w \<le> writeRoom p st \<Longrightarrow> w \<noteq> [] \<Longrightarrow> consumer_ready st' sc'"
    "\<not> length w \<le> writeRoom p st \<or> w = [] \<Longrightarrow> p' = p \<and> sc' = sc \<and> st' = st"
    "maxSize st' = maxSize st" "consumerTask st' = consumerTask st"
    "length w \<le> writeRoom p st \<Longrightarrow> writeRoom p st \<le> writeRoom p' st' + length w"
proof (cases "length w \<le> writeRoom p st \<and> w \<noteq> []")
  case True
  from CommonWrite_ok [OF st sc, of w] True obtain p' sc' st' where
    "gmosStreamCommonWrite p sc st w = Some (p', sc', st')"
    "stream_state p' st' (ds @ w) R N" "same_on R p p'" "sched_ok sc'" "consumer_ready st' sc'"
    "maxSize st' = maxSize st" "consumerTask st' = consumerTask st"
    "writeRoom p st \<le> writeRoom p' st' + length w" by blast
  then show thesis
    using that [of p' sc' st'] True stream_state_capacity(1) [OF st]
    by (simp add: gmosStreamWriteAll_def)
next
  case False
  then show thesis
    using that [of p sc st] st sc stream_state_capacity(1) [OF st]
    by (auto simp: gmosStreamWriteAll_def)
qed

text \<open>Writing one byte is writing a one-byte array.\<close>

lemma WriteByte_eq:
  assumes "stream_state p st ds R N"
  shows "gmosStreamWriteByte p sc st b = gmosStreamWriteAll p sc st [b]"
proof -
  from assms obtain xs where core: "stream_core p st xs ds" by (auto simp: stream_state_def stream_rep_def)
  note s = stream_coreD [OF core]
  have wo: "writeOffset st1 \<le> SEG" if "streamWriteSegment p st = Some (x, p1, st1)" for x p1 st1
    using that s(6,10)
    by (auto simp: streamWriteSegment_def streamFirstSegment_def split: if_splits option.splits
        prod.splits Option.bind_splits)
  show ?thesis
  proof (cases "gmosStreamGetWriteCapacity p st = 0 \<or> streamWriteSegment p st = None")
    case True
    then show ?thesis
      by (auto simp: gmosStreamWriteByte_def gmosStreamWriteAll_def gmosStreamCommonWrite_def)
  next
    case False
    then obtain x p1 st1 where x: "streamWriteSegment p st = Some (x, p1, st1)" by auto
    have le: "writeOffset st1 \<le> SEG" using wo [OF x] .
    have "Suc 0 \<le> SEG" using SEG_pos by linarith
    then have m: "min SEG (Suc 0) = Suc 0" by simp
    show ?thesis
    proof (cases "writeOffset st1 = SEG")
      case True
      then show ?thesis using False x m
        by (cases "streamAppendSegment x p1")
           (auto simp: gmosStreamWriteByte_def gmosStreamWriteAll_def gmosStreamCommonWrite_def
              streamWriteLoop.simps Let_def Option.bind_assoc split: prod.splits)
    next
      case neq: False
      then have "Suc 0 \<le> SEG - writeOffset st1" "sub32 SEG (writeOffset st1) = SEG - writeOffset st1"
        using le by simp_all
      then show ?thesis using False x neq le
        by (auto simp: gmosStreamWriteByte_def gmosStreamWriteAll_def gmosStreamCommonWrite_def
              streamWriteLoop.simps Let_def Option.bind_assoc)
    qed
  qed
qed

subsection \<open>Reading\<close>

text \<open>Reading within the first segment, and its release when it is used up.\<close>

lemma read_step:
  assumes rep: "stream_rep p st xs ds" and pool: "stream_pool p xs R N"
    and n: "0 < n" "n \<le> length ds" "readOffset st + n \<le> SEG"
  obtains s p' st' xs' where "streamSegments st = Some s"
    "streamLoad s (readOffset st) n p = Some (take n ds)"
    "streamReleaseHead s p (st\<lparr>readOffset := u16 (readOffset st + n),
       streamSize := u16 (sub32 (streamSize st) n)\<rparr>) = Some (p', st')"
    "stream_rep p' st' xs' (drop n ds)" "stream_pool p' xs' R N" "same_on R p p'"
    "maxSize st' = maxSize st" "consumerTask st' = consumerTask st"
proof -
  note core = stream_rep_core [OF rep]
  note s = stream_coreD [OF core] and q = stream_poolD [OF pool]
  have "ds \<noteq> []" using n by auto
  then have ne: "xs \<noteq> []" using stream_rep_Nil [OF rep] by simp
  then obtain x ys where xs: "xs = x # ys" by (cases xs) auto
  have h: "streamSegments st = Some x" and l: "llist (nextSegment p) (nextSegment p x) ys"
    using s(1) xs by auto
  have wo: "0 < writeOffset st" "writeOffset st \<le> SEG" and eq: "readOffset st + length ds = SEG * length ys + writeOffset st"
    using rep s(6,8) ne xs by (auto simp: stream_rep_def)
  have len: "length (segBytes p x) = SEG" using q(3) by simp
  have F: "take (length ds) (drop (readOffset st) (segBytes p x @ flat p ys)) = ds"
    using s(9) xs by simp
  have "take n ds = take n (take (length ds) (drop (readOffset st) (segBytes p x @ flat p ys)))"
    by (simp only: F)
  also have "\<dots> = take n (drop (readOffset st) (segBytes p x @ flat p ys))"
    using n(2) by (simp only: take_take min_absorb1)
  also have "\<dots> = take n (drop (readOffset st) (segBytes p x))" using n(3) len by simp
  finally have ld: "streamLoad x (readOffset st) n p = Some (take n ds)"
    using n(3) by (simp add: streamLoad_def)
  have seg: "SEG < 65536" by (simp add: GMOS_CONFIG_MEMPOOL_SEGMENT_SIZE_def)
  have u: "u16 (readOffset st + n) = readOffset st + n" using n(3) seg by simp
  have v: "u16 (sub32 (streamSize st) n) = length ds - n" using s(2,5) n(2) by simp
  let ?st1 = "st\<lparr>readOffset := readOffset st + n, streamSize := length ds - n\<rparr>"
  have D: "take (length ds - n) (drop (readOffset st + n) (segBytes p x @ flat p ys)) = drop n ds"
  proof -
    have "drop n ds = drop n (take (length ds) (drop (readOffset st) (segBytes p x @ flat p ys)))"
      by (simp only: F)
    then show ?thesis by (simp only: drop_take drop_drop add.commute)
  qed
  show thesis
  proof (cases "readOffset st + n = SEG \<or> length ds = n")
    case True
    from Free_ok [OF q(1), of x] xs obtain p1 where r: "gmosMempoolFree (Some x) p = Some p1"
      "pool_ok p1 (set xs \<union> R - {x})" "same_on (set xs \<union> R - {x}) p p1"
      "segBytes p1 = segBytes p" "mempoolUseHeap p1 = mempoolUseHeap p"
      "\<not> mempoolUseHeap p \<Longrightarrow> avail p1 = avail p + 1" by auto
    have x: "x \<notin> set ys" "x \<notin> R" using llist_head_notin [OF l] q(2) xs by auto
    then have own: "set xs \<union> R - {x} = set ys \<union> R" using xs by auto
    let ?st2 = "st\<lparr>readOffset := 0, streamSize := length ds - n, streamSegments := nextSegment p x\<rparr>"
    have fl: "flat p1 ys = flat p ys" using r(4) by (simp add: flat_def)
    have l1: "llist (nextSegment p1) (nextSegment p x) ys"
      using same_on_chain [OF r(3), of ys] l own by auto
    have z: "length ds = n \<Longrightarrow> ys = []" using eq wo n(3) by (cases ys) auto
    have z2: "length ds \<noteq> n \<Longrightarrow> readOffset st + n = SEG" using True by simp
    have D2: "take (length ds - n) (flat p ys) = drop n ds"
      using D len z z2 by (cases "length ds = n") auto
    have ln: "length ds - n + SEG = SEG * length ys + writeOffset st" if "ys \<noteq> []"
    proof -
      have "length ds \<noteq> n" using z that by auto
      then show ?thesis using z2 eq n(2) by simp
    qed
    have ne2: "drop n ds \<noteq> []" if "ys \<noteq> []" using z that n(2) by auto
    have "stream_rep p1 ?st2 ys (drop n ds)"
      using l1 s(3,4) wo fl D2 ln ne2 n(2) by (auto simp: stream_rep_def stream_core_def)
    moreover have "stream_pool p1 ys R N"
      using r(2,5,6) own q(2,4) xs by (cases "mempoolUseHeap p") (auto simp: stream_pool_def)
    moreover have "same_on R p p1" using r(3) own by (auto simp: same_on_def)
    ultimately show thesis
      using that [OF h ld, of p1 ?st2 ys] True r(1)
      by (auto simp: streamReleaseHead_def u v)
  next
    case False
    have rep1: "stream_rep p ?st1 xs (drop n ds)"
      using False s n eq wo D xs by (auto simp: stream_rep_def stream_core_def)
    show thesis
      by (rule that [OF h ld _ rep1 pool]) (use False n(2) in \<open>auto simp: streamReleaseHead_def u v\<close>)
  qed
qed

lemma CommonRead_ok:
  assumes "stream_state p st ds R N" "n \<le> length ds"
  shows "\<exists>p' st'. gmosStreamCommonRead p st n = Some (take n ds, p', st') \<and>
    stream_state p' st' (drop n ds) R N \<and> same_on R p p' \<and>
    maxSize st' = maxSize st \<and> consumerTask st' = consumerTask st"
  using assms
proof (induction n arbitrary: p st ds rule: less_induct)
  case (less n)
  show ?case
  proof (cases "n = 0")
    case True
    then show ?thesis using less.prems by (simp add: gmosStreamCommonRead.simps)
  next
    case False
    from less.prems(1) obtain xs where rep: "stream_rep p st xs ds" and pool: "stream_pool p xs R N"
      by (auto simp: stream_state_def)
    have "ds \<noteq> []" using False less.prems(2) by auto
    then have "xs \<noteq> []" using stream_rep_Nil [OF rep] by simp
    then have ro: "readOffset st < SEG" using rep by (simp add: stream_rep_def)
    let ?c = "min (SEG - readOffset st) n"
    have c: "0 < ?c" "?c \<le> length ds" "readOffset st + ?c \<le> SEG" using False ro less.prems(2) by auto
    obtain s p1 st1 ys where r: "streamSegments st = Some s"
      "streamLoad s (readOffset st) ?c p = Some (take ?c ds)"
      "streamReleaseHead s p (st\<lparr>readOffset := u16 (readOffset st + ?c),
         streamSize := u16 (sub32 (streamSize st) ?c)\<rparr>) = Some (p1, st1)"
      "stream_rep p1 st1 ys (drop ?c ds)" "stream_pool p1 ys R N" "same_on R p p1"
      "maxSize st1 = maxSize st" "consumerTask st1 = consumerTask st"
      by (rule read_step [OF rep pool c])
    have st1: "stream_state p1 st1 (drop ?c ds) R N" using r(4,5) by (auto simp: stream_state_def)
    have lt: "n - ?c < n" using c(1) False by simp
    have "n - ?c \<le> length (drop ?c ds)" using less.prems(2) by simp
    from less.IH [OF lt st1 this] obtain p' st' where z:
      "gmosStreamCommonRead p1 st1 (n - ?c) = Some (take (n - ?c) (drop ?c ds), p', st')"
      "stream_state p' st' (drop (n - ?c) (drop ?c ds)) R N" "same_on R p1 p'"
      "maxSize st' = maxSize st1" "consumerTask st' = consumerTask st1" by blast
    have n0: "0 < n" using False by simp
    have sub: "sub32 SEG (readOffset st) = SEG - readOffset st" using ro by simp
    have tk: "take ?c ds @ take (n - ?c) (drop ?c ds) = take n ds"
      using take_add [of ?c "n - ?c" ds] by simp
    have e: "gmosStreamCommonRead p st n = Some (take ?c ds @ take (n - ?c) (drop ?c ds), p', st')"
      by (subst gmosStreamCommonRead.simps)
         (simp only: n0 if_True r(1-3) sub Let_def z(1)
            Option.bind.simps prod.case)
    have dk: "drop (n - ?c) (drop ?c ds) = drop n ds" by simp
    show ?thesis
      using e [unfolded tk] z(2) [unfolded dk] same_on_trans [OF r(6) z(3)] z(4,5) r(7,8) by simp
  qed
qed

lemma ReadAll_ok:
  assumes st: "stream_state p st ds R N"
  obtains p' st' where
    "gmosStreamReadAll p st n = Some (if n \<le> length ds then Some (take n ds) else None, p', st')"
    "stream_state p' st' (if n \<le> length ds then drop n ds else ds) R N" "same_on R p p'"
    "maxSize st' = maxSize st" "consumerTask st' = consumerTask st"
proof (cases "0 < n \<and> n \<le> length ds")
  case True
  then obtain p' st' where "gmosStreamCommonRead p st n = Some (take n ds, p', st')"
    "stream_state p' st' (drop n ds) R N" "same_on R p p'" "maxSize st' = maxSize st"
    "consumerTask st' = consumerTask st" using CommonRead_ok [OF st] by blast
  then show thesis using that [of p' st'] True stream_state_capacity(2) [OF st]
    by (simp add: gmosStreamReadAll_def)
next
  case False
  then show thesis using that [of p st] st stream_state_capacity(2) [OF st]
    by (auto simp: gmosStreamReadAll_def)
qed

text \<open>Reading one byte is reading a one-byte array.\<close>

lemma ReadByte_eq:
  assumes st: "stream_state p st ds R N"
  shows "gmosStreamReadByte p st =
    map_option (\<lambda>(r, p', st'). (map_option hd r, p', st')) (gmosStreamReadAll p st 1)"
proof (cases "ds = []")
  case True
  then show ?thesis using stream_state_capacity(2) [OF st]
    by (simp add: gmosStreamReadByte_def gmosStreamReadAll_def)
next
  case False
  from st obtain xs where rep: "stream_rep p st xs ds" and pool: "stream_pool p xs R N"
    by (auto simp: stream_state_def)
  have ne: "xs \<noteq> []" using False stream_rep_Nil [OF rep] by simp
  then have ro: "readOffset st < SEG" using rep by (simp add: stream_rep_def)
  then have m: "min (SEG - readOffset st) 1 = 1" "sub32 SEG (readOffset st) = SEG - readOffset st" by auto
  have l: "1 \<le> length ds" using False by (cases ds) auto
  have ro1: "readOffset st + 1 \<le> SEG" using ro by simp
  obtain s p1 st1 ys where r: "streamSegments st = Some s"
    "streamLoad s (readOffset st) 1 p = Some (take 1 ds)"
    "streamReleaseHead s p (st\<lparr>readOffset := u16 (readOffset st + 1),
       streamSize := u16 (sub32 (streamSize st) 1)\<rparr>) = Some (p1, st1)"
    "stream_rep p1 st1 ys (drop 1 ds)" "stream_pool p1 ys R N" "same_on R p p1"
    "maxSize st1 = maxSize st" "consumerTask st1 = consumerTask st"
    by (rule read_step [OF rep pool zero_less_one l ro1])
  have n: "\<not> streamSize st = 0" "\<not> streamSize st < 1" "(0::nat) < 1" "1 - (1::nat) = 0"
    using l stream_state_capacity(2) [OF st] by auto
  have z: "gmosStreamCommonRead p1 st1 0 = Some ([], p1, st1)" by (simp add: gmosStreamCommonRead.simps)
  have "gmosStreamCommonRead p st 1 = Some (take 1 ds @ [], p1, st1)"
    by (subst gmosStreamCommonRead.simps)
       (simp only: n m r(1-3) Let_def z if_True if_False Option.bind.simps prod.case)
  then have a: "gmosStreamReadAll p st 1 = Some (Some (take 1 ds), p1, st1)"
    unfolding gmosStreamReadAll_def using n by simp
  have "gmosStreamReadByte p st = Some (Some (hd (take 1 ds)), p1, st1)"
    by (simp only: gmosStreamReadByte_def n r(1-3) if_False Option.bind.simps prod.case)
  then show ?thesis unfolding a by simp
qed

lemma ReadByte_ok:
  assumes st: "stream_state p st ds R N" and ne: "ds \<noteq> []"
  obtains p' st' where "gmosStreamReadByte p st = Some (Some (hd ds), p', st')"
    "stream_state p' st' (tl ds) R N" "same_on R p p'" "maxSize st' = maxSize st"
    "consumerTask st' = consumerTask st"
proof -
  have l: "1 \<le> length ds" using ne by (cases ds) auto
  have "take 1 ds = [hd ds]" "drop 1 ds = tl ds" using ne by (cases ds; simp)+
  then show thesis
    using that l by (rule_tac ReadAll_ok [OF st, of 1]) (auto simp: ReadByte_eq [OF st])
qed

lemma PeekByte_ok:
  assumes st: "stream_state p st ds R N"
  shows "gmosStreamPeekByte p st k = Some (if k < length ds then Some (ds ! k) else None)"
proof (cases "k < length ds")
  case True
  from st obtain xs where rep: "stream_rep p st xs ds" and pool: "stream_pool p xs R N"
    by (auto simp: stream_state_def)
  note s = stream_coreD [OF stream_rep_core [OF rep]] and q = stream_poolD [OF pool]
  have ne: "xs \<noteq> []" using True stream_rep_Nil [OF rep] by auto
  let ?o = "k + readOffset st"
  have lt: "?o < SEG * length xs" using True s(6,8) [OF ne] by linarith
  then have i: "?o div SEG < length xs" by (simp add: less_mult_imp_div_less mult.commute)
  then have sk: "skipSegments (nextSegment p) (streamSegments st) ?o =
      Some (Some (xs ! (?o div SEG)), ?o mod SEG)"
    using skipSegments_llist [OF s(1), of ?o] lt by (simp add: ptr_at_def)
  have oS: "?o mod SEG + 1 \<le> SEG" using SEG_pos by (simp add: Suc_leI)
  have le: "?o \<le> SEG * length xs" using lt by simp
  note f = flat_div_mod [OF q(3) le]
  have "ds ! k = take (length ds) (drop (readOffset st) (flat p xs)) ! k" by (simp only: s(9))
  also have "\<dots> = flat p xs ! ?o"
    using True lt by (simp add: stream_bytes [OF pool] add.commute)
  also have "flat p xs ! ?o = flat p (drop (?o div SEG) xs) ! (?o mod SEG)"
  proof -
    have "flat p xs ! ?o = (flat p (take (?o div SEG) xs) @ flat p (drop (?o div SEG) xs)) ! ?o"
      using arg_cong [OF f(1), of "\<lambda>F. F ! ?o"] .
    also have "\<dots> = flat p (drop (?o div SEG) xs) ! (?o - (?o - ?o mod SEG))"
    proof -
      have "\<not> ?o < ?o - ?o mod SEG" by simp
      then show ?thesis unfolding nth_append f(2) by (simp only: if_False)
    qed
    also have "?o - (?o - ?o mod SEG) = ?o mod SEG" by simp
    finally show ?thesis .
  qed
  also have "drop (?o div SEG) xs = xs ! (?o div SEG) # drop (Suc (?o div SEG)) xs"
    using i by (simp add: Cons_nth_drop_Suc)
  also have "flat p (xs ! (?o div SEG) # drop (Suc (?o div SEG)) xs) ! (?o mod SEG) =
      segBytes p (xs ! (?o div SEG)) ! (?o mod SEG)"
    using q(3) by (simp add: nth_append)
  finally have d: "segBytes p (xs ! (?o div SEG)) ! (?o mod SEG) = ds ! k" ..
  have "take 1 (drop (?o mod SEG) (segBytes p (xs ! (?o div SEG)))) = [ds ! k]"
    using q(3) d by (subst Cons_nth_drop_Suc [symmetric]) simp_all
  then have "streamLoad (xs ! (?o div SEG)) (?o mod SEG) 1 p = Some [ds ! k]"
    using oS by (simp add: streamLoad_def)
  then show ?thesis using True sk s(2) by (simp add: gmosStreamPeekByte_def)
qed (use stream_state_capacity(2) [OF st] in \<open>simp add: gmosStreamPeekByte_def\<close>)

subsection \<open>Pushing back\<close>

lemma take_drop_splice_start:
  assumes "k + length c + n \<le> length F"
  shows "take (length c + n) (drop k (splice k c F)) = c @ take n (drop (k + length c) F)"
  using assms by (simp add: splice_def)

text \<open>Writing into the free start of the first segment.\<close>

lemma push_fill:
  assumes core: "stream_core p st xs ds" and pool: "stream_pool p xs R N" and ne: "xs \<noteq> []"
    and c: "length c \<le> readOffset st" "length ds + length c \<le> maxSize st"
  obtains p' where "streamStore (hd xs) (readOffset st - length c) c p = Some p'"
    "stream_core p' (st\<lparr>readOffset := readOffset st - length c,
       streamSize := u16 (streamSize st + length c)\<rparr>) xs (c @ ds)"
    "stream_pool p' xs R N" "same_on R p p'" "avail p' = avail p"
proof -
  note s = stream_coreD [OF core] and q = stream_poolD [OF pool]
  let ?k = "readOffset st - length c"
  let ?p' = "writeSeg (hd xs) ?k c p"
  obtain x ys where xs: "xs = x # ys" using ne by (cases xs) auto
  have x: "x \<notin> set ys" using llist_distinct [OF s(1)] xs by simp
  have len: "length (segBytes p x) = SEG" using q(3) by simp
  have kS: "?k + length c \<le> SEG" using c(1) s(7) [OF ne] by simp
  then have k: "?k \<le> SEG" by simp
  have "flat ?p' ys = flat p ys" using x xs by (intro flat_cong) auto
  then have F: "flat ?p' xs = splice ?k c (flat p xs)"
    using kS len xs by (simp add: splice_append_left)
  have "?k + length c + length ds \<le> length (flat p xs)"
    using s(6,8) [OF ne] c(1) by (simp add: stream_bytes [OF pool])
  then have f: "take (length c + length ds) (drop ?k (flat ?p' xs)) = c @ ds"
    unfolding F by (subst take_drop_splice_start) (use s(9) c(1) in simp_all)
  have u: "u16 (streamSize st + length c) = length c + length ds" using c(2) s(2,4) by simp
  have o: "only_bytes (set xs) p ?p'" using only_bytes_writeSeg [OF q(3) kS] xs by simp
  show thesis
  proof (rule that [of ?p'])
    show "streamStore (hd xs) ?k c p = Some ?p'" using kS by (simp add: streamStore_def)
    show "stream_core ?p' (st\<lparr>readOffset := ?k, streamSize := u16 (streamSize st + length c)\<rparr>) xs (c @ ds)"
      unfolding u using s(1,3,4,6) k s(8) [OF ne] c f by (simp add: stream_core_def)
    show "stream_pool ?p' xs R N"
      using pool only_bytesD(4-6) [OF o] by (auto simp: stream_pool_def)
    show "same_on R p ?p'" using only_bytesD(7) [OF o q(2)] .
  qed simp
qed

text \<open>One more segment in front of one that has no free bytes at its start.\<close>

lemma push_segment:
  assumes core: "stream_core p st xs ds" and pool: "stream_pool p xs R N" and ne: "xs \<noteq> []"
    and a: "0 < avail p" and full: "readOffset st = 0"
  obtains x p1 p' where "gmosMempoolAlloc p = (Some x, p1)"
    "setNext x (streamSegments st) p1 = p'"
    "stream_core p' (st\<lparr>streamSegments := Some x, readOffset := SEG\<rparr>) (x # xs) ds"
    "stream_pool p' (x # xs) R N" "same_on R p p'" "avail p - 1 \<le> avail p'"
proof -
  note s = stream_coreD [OF core] and q = stream_poolD [OF pool]
  from Alloc_ok [OF q(1) a] obtain p1 x where r: "gmosMempoolAlloc p = (Some x, p1)"
    "nextSegment p1 x = None" "x \<notin> set xs \<union> R" "pool_ok p1 (insert x (set xs \<union> R))"
    "same_on (set xs \<union> R) p p1" "mempoolUseHeap p1 = mempoolUseHeap p" "avail p - 1 \<le> avail p1"
    "\<not> mempoolUseHeap p \<Longrightarrow> avail p1 = avail p - 1" by metis
  let ?p2 = "setNext x (streamSegments st) p1"
  have ok: "pool_ok ?p2 (set (x # xs) \<union> R)"
    using mp.ok_link [OF r(4), of x "streamSegments st"] by simp
  have "llist (nextSegment p1) (streamSegments st) xs"
    using same_on_chain [OF r(5), of xs] s(1) by simp
  then have c2: "llist (nextSegment ?p2) (Some x) (x # xs)" using r(3) by (simp add: chain_upd)
  have f: "flat ?p2 xs = flat p xs" using r(5) by (intro flat_cong) (simp add: same_on_def)
  have b: "length (segBytes p1 x) = SEG" using pool_ok_segBytes [OF r(4)] .
  show thesis
  proof (rule that [OF r(1) refl])
    show "stream_core ?p2 (st\<lparr>streamSegments := Some x, readOffset := SEG\<rparr>) (x # xs) ds"
      using s(2,3,4,6,9) s(8) [OF ne] full ne c2 f b by (simp add: stream_core_def)
    show "stream_pool ?p2 (x # xs) R N"
      using ok r(3,6,8) q(2,4) a by (cases "mempoolUseHeap p") (auto simp: stream_pool_def)
    show "same_on R p ?p2" using r(3,5) by (auto simp: same_on_def)
  qed (use r(7) in simp)
qed

lemma streamPushBackLoop_ok:
  assumes "stream_core p st xs ds" "stream_pool p xs R N" "xs \<noteq> []"
    and "w \<noteq> [] \<longrightarrow> readOffset st = 0" "length w \<le> SEG * avail p"
    and "length ds + length w \<le> maxSize st"
  shows "\<exists>p' st' xs'. streamPushBackLoop p st w = Some (p', st') \<and>
    stream_core p' st' xs' (w @ ds) \<and> stream_pool p' xs' R N \<and> same_on R p p' \<and> xs' \<noteq> [] \<and>
    (w \<noteq> [] \<or> readOffset st < SEG \<longrightarrow> readOffset st' < SEG) \<and> writeOffset st' = writeOffset st \<and>
    maxSize st' = maxSize st \<and> consumerTask st' = consumerTask st"
  using assms
proof (induction "length w" arbitrary: p st xs ds w rule: less_induct)
  case less
  show ?case
  proof (cases "w = []")
    case True
    then show ?thesis using less.prems by (intro exI [of _ p] exI [of _ st])
      (auto simp: streamPushBackLoop.simps intro!: exI [of _ xs])
  next
    case False
    let ?c = "min SEG (length w)"
    let ?r = "length w - ?c"
    have a: "0 < avail p" using False less.prems(5) by (cases "avail p") auto
    obtain x p1 p2 where r: "gmosMempoolAlloc p = (Some x, p1)"
      "setNext x (streamSegments st) p1 = p2"
      "stream_core p2 (st\<lparr>streamSegments := Some x, readOffset := SEG\<rparr>) (x # xs) ds"
      "stream_pool p2 (x # xs) R N" "same_on R p p2" "avail p - 1 \<le> avail p2"
      by (rule push_segment [OF less.prems(1,2,3) a less.prems(4) [rule_format, OF False]])
    have tl: "length (drop ?r w) = ?c" by (simp add: min_def)
    let ?st2 = "st\<lparr>streamSegments := Some x, readOffset := SEG - ?c, streamSize := u16 (streamSize st + ?c)\<rparr>"
    obtain p3 where f: "streamStore x (SEG - ?c) (drop ?r w) p2 = Some p3"
      "stream_core p3 ?st2 (x # xs) (drop ?r w @ ds)" "stream_pool p3 (x # xs) R N"
      "same_on R p2 p3" "avail p3 = avail p2"
      by (rule push_fill [OF r(3,4), of "drop ?r w", unfolded tl])
         (use less.prems(6) that in simp_all)
    have e: "streamPushBackLoop p st w = streamPushBackLoop p3 ?st2 (take ?r w)"
      using r(1,2) f(1) False by (simp add: streamPushBackLoop.simps [of p] Let_def)
    have "SEG * avail p \<le> SEG * (avail p3 + 1)" using r(6) f(5) by (intro mult_le_mono) auto
    then have l2: "length (take ?r w) \<le> SEG * avail p3" using less.prems(5) by auto
    have le: "length (take ?r w) < length w" using False by auto
    have c4: "take ?r w \<noteq> [] \<longrightarrow> readOffset ?st2 = 0" by (auto simp: min_def)
    have mx: "length (drop ?r w @ ds) + length (take ?r w) \<le> maxSize ?st2" using less.prems(6) by auto
    from less.hyps [OF le f(2,3) list.distinct(2) c4 l2 mx]
    obtain p' st' xs' where z: "streamPushBackLoop p3 ?st2 (take ?r w) = Some (p', st')"
      "stream_core p' st' xs' (take ?r w @ drop ?r w @ ds)" "stream_pool p' xs' R N" "same_on R p3 p'"
      "xs' \<noteq> []" "take ?r w \<noteq> [] \<or> readOffset ?st2 < SEG \<longrightarrow> readOffset st' < SEG"
      "writeOffset st' = writeOffset ?st2" "maxSize st' = maxSize ?st2"
      "consumerTask st' = consumerTask ?st2" by - (elim exE conjE, rule that)
    have "readOffset ?st2 < SEG" using False by simp
    moreover have t: "take ?r w @ drop ?r w @ ds = w @ ds" by simp
    moreover have "same_on R p p'" using same_on_trans [OF r(5) same_on_trans [OF f(4) z(4)]] .
    ultimately show ?thesis
      using e z(1,3-9) z(2) [unfolded t]
      by (intro exI [of _ p'] exI [of _ st'] exI [of _ xs']) simp
  qed
qed

definition pushRoom :: "mempool \<Rightarrow> gmosStream \<Rightarrow> nat" where
  "pushRoom p st =
     min (maxSize st - streamSize st)
       ((if streamSegments st = None then 0 else readOffset st) + SEG * avail p)"

lemma PushBackCapacity_eq:
  assumes core: "stream_core p st xs ds" and pool: "stream_pool p xs R N"
  shows "gmosStreamGetPushBackCapacity p st = pushRoom p st"
proof -
  note s = stream_coreD [OF core] and q = stream_poolD [OF pool]
  have u: "u16 (avail p) = avail p" using q(5) by simp
  have "SEG * avail p \<le> 64 * 65535"
    using q(5) by (simp add: GMOS_CONFIG_MEMPOOL_SEGMENT_SIZE_def)
  moreover have "(if streamSegments st = None then 0 else readOffset st) \<le> 64"
    using s(7,10) by (auto simp: GMOS_CONFIG_MEMPOOL_SEGMENT_SIZE_def)
  ultimately have "(if streamSegments st = None then 0 else readOffset st) + SEG * avail p
      < 4294967296" by linarith
  moreover have "sub32 (maxSize st) (streamSize st) = maxSize st - streamSize st" using s(2,3) by simp
  moreover have "maxSize st - streamSize st < 65536" using s(4) by simp
  ultimately show ?thesis using u
    by (simp add: gmosStreamGetPushBackCapacity_def limitCapacity_def pushRoom_def
        gmosMempoolSegmentsAvailable_def Let_def min_def)
qed

lemma PushBack_ok:
  assumes st: "stream_state p st ds R N" and w: "w \<noteq> []"
  obtains p' st' where "gmosStreamPushBack p st w = Some (length w \<le> pushRoom p st, p', st')"
    "stream_state p' st' (if length w \<le> pushRoom p st then w @ ds else ds) R N" "same_on R p p'"
    "maxSize st' = maxSize st" "consumerTask st' = consumerTask st"
    "\<not> length w \<le> pushRoom p st \<Longrightarrow> p' = p \<and> st' = st"
proof (cases "length w \<le> pushRoom p st")
  case False
  from st obtain xs where "stream_core p st xs ds" "stream_pool p xs R N"
    by (auto simp: stream_state_def stream_rep_def)
  then show thesis using that [of p st] st False PushBackCapacity_eq [of p st xs ds R N]
    by (simp add: gmosStreamPushBack_def)
next
  case True
  from st obtain xs where rep: "stream_rep p st xs ds" and pool: "stream_pool p xs R N"
    by (auto simp: stream_state_def)
  note core = stream_rep_core [OF rep]
  note s = stream_coreD [OF core]
  have cap: "\<not> gmosStreamGetPushBackCapacity p st < length w"
    using True PushBackCapacity_eq [OF core pool] by simp
  have fit: "length ds + length w \<le> maxSize st" using True s(2,3) unfolding pushRoom_def by linarith
  have lw: "0 < length w" using w by simp
  obtain ys p1 st1 where r: "(case streamSegments st of None \<Rightarrow> streamFirstSegment SEG p st
      | Some s \<Rightarrow> Some (s, p, st)) = Some (hd ys, p1, st1)" "ys \<noteq> []"
    "stream_core p1 st1 ys ds" "stream_pool p1 ys R N" "same_on R p p1" "maxSize st1 = maxSize st"
    "consumerTask st1 = consumerTask st" "length w \<le> readOffset st1 + SEG * avail p1"
    "0 < writeOffset st1"
  proof (cases "xs = []")
    case True
    then have ds: "ds = []" and n: "streamSegments st = None"
      using stream_rep_Nil [OF rep] s(10) by simp_all
    have lp: "length w \<le> SEG * avail p" using \<open>length w \<le> pushRoom p st\<close> n by (simp add: pushRoom_def)
    then have a: "0 < avail p" using lw by (cases "avail p") auto
    obtain x p1 st1 where q: "streamFirstSegment SEG p st = Some (x, p1, st1)"
      "st1 = st\<lparr>streamSegments := Some x, streamSize := 0, writeOffset := SEG, readOffset := SEG\<rparr>"
      "stream_core p1 st1 [x] []" "stream_pool p1 [x] R N" "same_on R p p1" "avail p - 1 \<le> avail p1"
      using stream_first [of p st R N SEG] core pool True ds a by auto
    have "SEG * avail p \<le> SEG * (avail p1 + 1)" using q(6) by (intro mult_le_mono) auto
    then have "length w \<le> SEG + SEG * avail p1" using lp by simp
    then show thesis by (intro that [of "[x]" p1 st1]) (use q n ds in simp_all)
  next
    case False
    then obtain x zs where xs: "xs = x # zs" by (cases xs) auto
    with s(1) have "streamSegments st = Some x" by simp
    then show thesis
      by (intro that [of xs p st])
         (use core pool xs \<open>length w \<le> pushRoom p st\<close> rep in \<open>simp_all add: pushRoom_def stream_rep_def\<close>)
  qed
  let ?c = "min (readOffset st1) (length w)"
  let ?r = "length w - ?c"
  have tl: "length (drop ?r w) = ?c" by (simp add: min_def)
  obtain p2 st2 where f: "(if ?c > 0
      then (let copyOffset = readOffset st1 - ?c in do {
              p \<leftarrow> streamStore (hd ys) copyOffset (drop ?r w) p1;
              Some (p, st1\<lparr>readOffset := copyOffset, streamSize := u16 (streamSize st1 + ?c)\<rparr>) })
      else Some (p1, st1)) = Some (p2, st2)"
    and core2: "stream_core p2 st2 ys (drop ?r w @ ds)" and pool2: "stream_pool p2 ys R N"
    and g: "same_on R p1 p2" "avail p2 = avail p1" "readOffset st2 = readOffset st1 - ?c"
      "maxSize st2 = maxSize st1" "consumerTask st2 = consumerTask st1"
      "writeOffset st2 = writeOffset st1"
  proof (cases "?c > 0")
    case True
    show thesis
    proof (rule push_fill [OF r(3,4,2), of "drop ?r w", unfolded tl])
      fix p'
      assume a: "streamStore (hd ys) (readOffset st1 - ?c) (drop ?r w) p1 = Some p'"
        "stream_core p' (st1\<lparr>readOffset := readOffset st1 - ?c,
           streamSize := u16 (streamSize st1 + ?c)\<rparr>) ys (drop ?r w @ ds)"
        "stream_pool p' ys R N" "same_on R p1 p'" "avail p' = avail p1"
      show thesis by (rule that [OF _ a(2-5)]) (simp_all only: True if_True Let_def a(1) Option.bind.simps, simp_all)
    qed (use fit r(6) in auto)
  next
    case False
    then have c: "?c = 0" by (simp only: not_gr_zero)
    show thesis by (rule that [of p1 st1]) (simp_all add: c r(3,4) del: min_0R min_0L)
  qed
  have full: "take ?r w \<noteq> [] \<longrightarrow> readOffset st2 = 0" using g(3) by (auto simp: min_def)
  have fits: "length (take ?r w) \<le> SEG * avail p2" using g(2) r(8) by auto
  have max: "length (drop ?r w @ ds) + length (take ?r w) \<le> maxSize st2" using fit g(4) r(6) by auto
  from streamPushBackLoop_ok [OF core2 pool2 r(2) full fits max]
  obtain p3 st3 zs where l: "streamPushBackLoop p2 st2 (take ?r w) = Some (p3, st3)"
    "stream_core p3 st3 zs (take ?r w @ drop ?r w @ ds)" "stream_pool p3 zs R N" "same_on R p2 p3"
    "zs \<noteq> []" "take ?r w \<noteq> [] \<or> readOffset st2 < SEG \<longrightarrow> readOffset st3 < SEG"
    "writeOffset st3 = writeOffset st2" "maxSize st3 = maxSize st2"
    "consumerTask st3 = consumerTask st2" by - (elim exE conjE, rule that)
  have t: "take ?r w @ drop ?r w @ ds = w @ ds" by simp
  have "take ?r w \<noteq> [] \<or> readOffset st2 < SEG"
    using g(3) lw stream_coreD(7) [OF r(3,2)] by (cases w) (auto simp: min_def)
  then have "stream_rep p3 st3 zs (w @ ds)"
    using l(2) [unfolded t] l(6,7) w r(9) g(6) by (simp add: stream_rep_def)
  then have st3: "stream_state p3 st3 (w @ ds) R N" using l(3) by (auto simp: stream_state_def)
  have e: "gmosStreamPushBack p st w = Some (True, p3, st3)"
    by (simp only: gmosStreamPushBack_def cap r(1) Let_def f [unfolded Let_def] l(1) if_False
        Option.bind.simps prod.case)
  show thesis
    by (rule that [of p3 st3])
       (use e st3 True same_on_trans [OF r(5) same_on_trans [OF g(1) l(4)]] l(8,9) g(4,5) r(6,7) in simp_all)
qed

text \<open>The corner case the lemma excludes: pushing back nothing onto an empty stream.\<close>

lemma PushBack_nothing:
  assumes "stream_state p st [] R N" "avail p = 0"
  shows "gmosStreamPushBack p st [] = None"
proof -
  from assms(1) obtain xs where rep: "stream_rep p st xs []" and pool: "stream_pool p xs R N"
    by (auto simp: stream_state_def)
  then have "xs = []" using stream_rep_Nil by blast
  then have n: "streamSegments st = None" using stream_coreD(10) [OF stream_rep_core [OF rep]] by simp
  obtain p1 where "gmosMempoolAlloc p = (None, p1)"
    using Alloc_fail [OF stream_poolD(1) [OF pool] assms(2)] by metis
  then show ?thesis using n by (simp add: gmosStreamPushBack_def streamFirstSegment_def)
qed

subsection \<open>Initialisation and reset\<close>

lemma stream_state_init:
  "pool_ok p R \<Longrightarrow> m < 65536 \<Longrightarrow> stream_state p (gmosStreamInit t m st) [] R (avail p)"
  unfolding stream_state_def
  by (intro exI [of _ "[]"])
     (simp add: stream_rep_def stream_core_def stream_pool_def gmosStreamInit_def)

lemma gmosStreamReset_ok:
  assumes st: "stream_state p st ds R N"
  obtains p' st' where "gmosStreamReset p st = Some (p', st')" "stream_state p' st' [] R N"
    "same_on R p p'" "\<not> mempoolUseHeap p \<Longrightarrow> avail p' = N"
proof -
  from st obtain xs where rep: "stream_rep p st xs ds" and pool: "stream_pool p xs R N"
    by (auto simp: stream_state_def)
  note s = stream_coreD [OF stream_rep_core [OF rep]] and q = stream_poolD [OF pool]
  show thesis
  proof (cases "xs = []")
    case True
    then have "ds = []" using stream_rep_Nil [OF rep] by simp
    then have "st\<lparr>streamSize := 0\<rparr> = st" using s(2) by simp
    then show thesis using that [of p st] True s(10) st q(4) \<open>ds = []\<close>
      by (simp add: gmosStreamReset_def)
  next
    case False
    from FreeSegments_ok [OF q(1) s(1)] obtain p1 where r:
      "gmosMempoolFreeSegments (streamSegments st) p = Some p1"
      "pool_ok p1 (set xs \<union> R - set xs)" "same_on (set xs \<union> R - set xs) p p1"
      "mempoolUseHeap p1 = mempoolUseHeap p" "\<not> mempoolUseHeap p \<Longrightarrow> avail p1 = avail p + length xs"
      by (metis Un_upper1)
    have own: "set xs \<union> R - set xs = R" using q(2) by auto
    have "stream_state p1 (st\<lparr>streamSegments := None, streamSize := 0\<rparr>) [] R N"
      unfolding stream_state_def
      by (intro exI [of _ "[]"])
         (use r own s(4) q(4) in \<open>simp add: stream_rep_def stream_core_def stream_pool_def\<close>)
    then show thesis
      using that [of p1 "st\<lparr>streamSegments := None, streamSize := 0\<rparr>"] r own q(4) False s(10)
      by (simp add: gmosStreamReset_def)
  qed
qed

text \<open>Setting the consumer of a stream that holds data makes it ready.\<close>

lemma SetConsumerTask_ok:
  assumes st: "stream_state p st ds R N" and sc: "sched_ok sc"
  obtains sc' st' where "gmosStreamSetConsumerTask sc st t = Some (sc', st')"
    "stream_state p st' ds R N" "sched_ok sc'" "consumerTask st' = t"
    "ds \<noteq> [] \<Longrightarrow> consumer_ready st' sc'"
proof -
  let ?st = "st\<lparr>consumerTask := t\<rparr>"
  have st1: "stream_state p ?st ds R N"
    using st by (simp add: stream_state_def stream_rep_def stream_core_def)
  obtain sc' where r: "resumeConsumer ?st sc = Some sc'" "sched_ok sc'" "consumer_ready ?st sc'"
    by (rule resumeConsumer_ok [OF sc])
  have n: "streamSize st = length ds" using stream_state_capacity(2) [OF st] .
  show thesis
  proof (cases "t \<noteq> None \<and> ds \<noteq> []")
    case True
    then show thesis using that [of sc' ?st] st1 r n by (simp add: gmosStreamSetConsumerTask_def)
  next
    case False
    then show thesis using that [of sc ?st] st1 sc n
      by (auto simp: gmosStreamSetConsumerTask_def consumer_ready_def)
  qed
qed

subsection \<open>Messages\<close>

definition frameMessage :: "byte list \<Rightarrow> byte list" where
  "frameMessage w = [of_nat (length w), of_nat (length w div 256)] @ w"

lemma unat_of_nat_byte: "unat (of_nat n :: byte) = n mod 256"
  by (simp add: unat_of_nat take_bit_eq_mod)

lemma WriteMessage_ok:
  assumes st: "stream_state p st ds R N" and sc: "sched_ok sc"
    and w: "w \<noteq> []" "length w + 2 \<le> writeRoom p st"
  obtains p' sc' st' where "gmosStreamWriteMessage p sc st w = Some (True, p', sc', st')"
    "stream_state p' st' (ds @ frameMessage w) R N" "same_on R p p'" "sched_ok sc'"
    "consumer_ready st' sc'"
proof -
  let ?a = "of_nat (length w) :: byte" and ?b = "of_nat (length w div 256) :: byte"
  have l: "length [?a] \<le> writeRoom p st" using w(2) by simp
  obtain p1 sc1 st1 where r: "gmosStreamWriteByte p sc st ?a = Some (True, p1, sc1, st1)"
    "stream_state p1 st1 (ds @ [?a]) R N" "same_on R p p1" "sched_ok sc1"
    "writeRoom p st \<le> writeRoom p1 st1 + 1"
    by (rule WriteAll_ok [OF st sc, of "[?a]"]) (use l in \<open>auto simp: WriteByte_eq [OF st]\<close>)
  have l1: "length [?b] \<le> writeRoom p1 st1" using r(5) w(2) by simp
  obtain p2 sc2 st2 where q: "gmosStreamWriteByte p1 sc1 st1 ?b = Some (True, p2, sc2, st2)"
    "stream_state p2 st2 ((ds @ [?a]) @ [?b]) R N" "same_on R p1 p2" "sched_ok sc2"
    "writeRoom p1 st1 \<le> writeRoom p2 st2 + 1"
    by (rule WriteAll_ok [OF r(2,4), of "[?b]"]) (use l1 in \<open>auto simp: WriteByte_eq [OF r(2)]\<close>)
  have l2: "length w \<le> writeRoom p2 st2" using r(5) q(5) w(2) by simp
  obtain p3 sc3 st3 where z: "gmosStreamCommonWrite p2 sc2 st2 w = Some (p3, sc3, st3)"
    "stream_state p3 st3 (((ds @ [?a]) @ [?b]) @ w) R N" "same_on R p2 p3" "sched_ok sc3"
    "consumer_ready st3 sc3"
    by (rule CommonWrite_ok [OF q(2,4) w(1) l2]) blast
  have "\<not> gmosStreamGetWriteCapacity p st < length w + 2"
    using w(2) stream_state_capacity(1) [OF st] by simp
  then have "gmosStreamWriteMessage p sc st w = Some (True, p3, sc3, st3)"
    using w(1) r(1) q(1) z(1) by (simp add: gmosStreamWriteMessage_def)
  then show thesis
    using that z(2,4,5) same_on_trans [OF r(3) same_on_trans [OF q(3) z(3)]]
    by (simp add: frameMessage_def)
qed

lemma ReadMessage_ok:
  assumes st: "stream_state p st (frameMessage w @ ds) R N" and n: "length w \<le> n"
  obtains p' st' where "gmosStreamReadMessage p st n = Some (length w, w, p', st')"
    "stream_state p' st' ds R N" "same_on R p p'"
proof -
  let ?a = "of_nat (length w) :: byte" and ?b = "of_nat (length w div 256) :: byte"
  have sz: "streamSize st = length w + length ds + 2" "length w < 65536"
    using stream_state_capacity(2,5) [OF st] by (simp_all add: frameMessage_def)
  have pk: "gmosStreamPeekByte p st 0 = Some (Some ?a)" "gmosStreamPeekByte p st 1 = Some (Some ?b)"
    by (simp_all add: PeekByte_ok [OF st] frameMessage_def)
  have m: "unat ?b * 256 + unat ?a = length w"
    using sz(2) div_mult_mod_eq [of "length w" 256] by (simp add: unat_of_nat_byte)
  have st0: "stream_state p st (?a # ?b # w @ ds) R N" using st by (simp add: frameMessage_def)
  obtain p1 st1 where r: "gmosStreamReadByte p st = Some (Some ?a, p1, st1)"
    "stream_state p1 st1 (?b # w @ ds) R N" "same_on R p p1"
    by (rule ReadByte_ok [OF st0]) auto
  obtain p2 st2 where q: "gmosStreamReadByte p1 st1 = Some (Some ?b, p2, st2)"
    "stream_state p2 st2 (w @ ds) R N" "same_on R p1 p2"
    by (rule ReadByte_ok [OF r(2)]) auto
  have "length w \<le> length (w @ ds)" by simp
  from CommonRead_ok [OF q(2) this] obtain p3 st3 where z:
    "gmosStreamCommonRead p2 st2 (length w) = Some (w, p3, st3)"
    "stream_state p3 st3 ds R N" "same_on R p2 p3" by auto
  have z0: "length w = 0 \<Longrightarrow> p3 = p2 \<and> st3 = st2" using z(1) by (simp add: gmosStreamCommonRead.simps)
  have "gmosStreamReadMessage p st n = Some (length w, w, p3, st3)"
    unfolding gmosStreamReadMessage_def pk using m sz n r(1) q(1) z(1) z0
    by (cases "w = []") (simp_all add: Let_def)
  then show thesis using that z(2) same_on_trans [OF r(3) same_on_trans [OF q(3) z(3)]] by blast
qed

text \<open>Reading a number of messages, each into an array large enough for any.\<close>

primrec readMessages ::
    "nat \<Rightarrow> mempool \<Rightarrow> gmosStream \<Rightarrow> (byte list list \<times> mempool \<times> gmosStream) option" where
  "readMessages 0 p st = Some ([], p, st)"
| "readMessages (Suc k) p st = do {
     (_, m, p, st) \<leftarrow> gmosStreamReadMessage p st 65535;
     (ms, p, st) \<leftarrow> readMessages k p st;
     Some (m # ms, p, st) }"

lemma readMessages_ok:
  "stream_state p st (concat (map frameMessage ms)) R N \<Longrightarrow>
     \<exists>p' st'. readMessages (length ms) p st = Some (ms, p', st') \<and> stream_state p' st' [] R N \<and>
       same_on R p p'"
proof (induction ms arbitrary: p st)
  case Nil
  then show ?case by auto
next
  case (Cons m ms)
  then have st: "stream_state p st (frameMessage m @ concat (map frameMessage ms)) R N" by simp
  have "length m \<le> 65535" using stream_state_capacity(5) [OF st] by (simp add: frameMessage_def)
  from ReadMessage_ok [OF st this] obtain p1 st1 where r:
    "gmosStreamReadMessage p st 65535 = Some (length m, m, p1, st1)"
    "stream_state p1 st1 (concat (map frameMessage ms)) R N" "same_on R p p1" by metis
  from Cons.IH [OF r(2)] obtain p2 st2 where "readMessages (length ms) p1 st1 = Some (ms, p2, st2)"
    "stream_state p2 st2 [] R N" "same_on R p1 p2" by blast
  with r(1,3) same_on_trans show ?case by (auto intro: same_on_trans)
qed

subsection \<open>Buffers\<close>

lemma length_bufferBytes [simp]: "length (bufferBytes b) = 8"
  by (simp add: bufferBytes_def)

lemma bytesBuffer_bufferBytes:
  assumes "bufferSize b < 65536" "bufferOffset b < 65536"
    and "\<And>s. segmentList b = Some s \<Longrightarrow> s < 65535"
  shows "bytesBuffer (bufferBytes b) = b"
proof -
  obtain l n off where b: "b = \<lparr>segmentList = l, bufferSize = n, bufferOffset = off\<rparr>" by (cases b)
  with assms show ?thesis
    by (cases l) (simp_all add: bytesBuffer_def bufferBytes_def pointerWord_def leNat_leBytes Let_def)
qed

lemma buf_rep_bytes:
  assumes "buf_rep p b bx bs" "pool_ok p own" "set bx \<subseteq> own"
  shows "bytesBuffer (bufferBytes b) = b"
proof (rule bytesBuffer_bufferBytes)
  show "bufferSize b < 65536" "bufferOffset b < 65536"
    using buf_repD(2,3,4) [OF assms(1)] by (simp_all add: GMOS_CONFIG_MEMPOOL_SEGMENT_SIZE_def)
  fix s
  assume "segmentList b = Some s"
  then have "s \<in> set bx" using buf_repD(1) [OF assms(1)] by (auto simp: llist_Some)
  then have "s \<in> own" using assms(3) by blast
  then show "s < 65535" using assms(2) by (auto simp: pool_ok_def pool_inv_def)
qed

lemma stream_rep_same_on:
  assumes "stream_rep p st xs ds" "same_on A p p'" "set xs \<subseteq> A"
  shows "stream_rep p' st xs ds"
proof -
  have "flat p' xs = flat p xs" using assms(2,3) by (intro flat_cong) (auto simp: same_on_def)
  then show ?thesis using assms(1) same_on_chain [OF assms(2,3)]
    by (simp add: stream_rep_def stream_core_def)
qed

text \<open>The room a buffer descriptor needs, and what sending one does.\<close>

lemma SendBuffer_ok:
  assumes st: "stream_state p st ds R N" and sc: "sched_ok sc"
  obtains p' sc' st' b' where
    "gmosStreamSendBuffer p sc st b = Some (8 \<le> writeRoom p st, p', sc', st', b')"
    "stream_state p' st' (if 8 \<le> writeRoom p st then ds @ bufferBytes b else ds) R N" "same_on R p p'"
    "sched_ok sc'" "8 \<le> writeRoom p st \<Longrightarrow> consumer_ready st' sc'"
    "b' = (if 8 \<le> writeRoom p st then b\<lparr>segmentList := None, bufferSize := 0\<rparr> else b)"
proof -
  have ne: "bufferBytes b \<noteq> []" using length_bufferBytes [of b] by fastforce
  obtain p' sc' st' where r:
    "gmosStreamWriteAll p sc st (bufferBytes b) = Some (8 \<le> writeRoom p st, p', sc', st')"
    "stream_state p' st' (if 8 \<le> writeRoom p st then ds @ bufferBytes b else ds) R N" "same_on R p p'"
    "sched_ok sc'" "8 \<le> writeRoom p st \<longrightarrow> consumer_ready st' sc'"
    by (rule WriteAll_ok [OF st sc, of "bufferBytes b"]) (use ne in simp)
  have e: "gmosStreamSendBuffer p sc st b = Some (8 \<le> writeRoom p st, p', sc', st',
      if 8 \<le> writeRoom p st then b\<lparr>segmentList := None, bufferSize := 0\<rparr> else b)"
    using r(1) by (cases "8 \<le> writeRoom p st") (simp_all add: gmosStreamSendBuffer_def)
  show thesis by (rule that [OF e r(2-4) _ refl]) (use r(5) in simp)
qed

text \<open>
  Accepting a buffer whose descriptor is at the head of the stream. \<open>R\<close> are the segments of
  the other clients, among them those of the buffers in transit; \<open>dx\<close> are the segments of the
  receiving buffer's old contents, which are released.
\<close>

lemma AcceptBuffer_ok:
  assumes st: "stream_state p st (bufferBytes b @ ds) (set dx \<union> R) N" and dest: "buf_rep p d dx es"
    and d: "set dx \<inter> R = {}" and b: "bytesBuffer (bufferBytes b) = b"
  obtains p' st' N' where "gmosStreamAcceptBuffer p st d = Some (True, p', st', b)"
    "stream_state p' st' ds R N'" "same_on R p p'" "\<not> mempoolUseHeap p \<Longrightarrow> N' = N + length dx"
proof -
  from st obtain xs where rep: "stream_rep p st xs (bufferBytes b @ ds)"
    and pool: "stream_pool p xs (set dx \<union> R) N" by (auto simp: stream_state_def)
  note q = stream_poolD [OF pool]
  have own: "set xs \<union> (set dx \<union> R) = set dx \<union> (set xs \<union> R)" by auto
  have "set dx \<inter> (set xs \<union> R) = {}" using d q(2) by auto
  with dest q(1) own have bs: "buf_state p d es (set xs \<union> R)" by (metis buf_stateI)
  obtain p1 where r: "gmosBufferDiscardContents p d = Some (p1, gmosBufferInit)"
    "pool_ok p1 (set xs \<union> R)" "same_on (set xs \<union> R) p p1" "mempoolUseHeap p1 = mempoolUseHeap p"
    "\<not> mempoolUseHeap p \<longrightarrow> avail p1 = avail p + length dx"
    by (rule gmosBufferDiscardContents_ok [OF bs]) (use buf_repD(5) [OF dest] in auto)
  have rep1: "stream_rep p1 st xs (bufferBytes b @ ds)"
    using stream_rep_same_on [OF rep r(3)] by simp
  have "stream_pool p1 xs R (N + length dx)"
    using r(2,4,5) q(2,4) by (auto simp: stream_pool_def)
  with rep1 have st1: "stream_state p1 st (bufferBytes b @ ds) R (N + length dx)"
    by (auto simp: stream_state_def)
  obtain p2 st2 where z: "gmosStreamReadAll p1 st 8 = Some (Some (bufferBytes b), p2, st2)"
    "stream_state p2 st2 ds R (N + length dx)" "same_on R p1 p2"
    by (rule ReadAll_ok [OF st1, of 8]) auto
  have "gmosStreamAcceptBuffer p st d = Some (True, p2, st2, b)"
    using r(1) z(1) b by (simp add: gmosStreamAcceptBuffer_def gmosBufferReset_def)
  moreover have "same_on R p p1" using same_on_mono [OF r(3), of R] by simp
  ultimately show thesis using that z(2,3) same_on_trans by blast
qed

lemma PushBackBuffer_ok:
  assumes st: "stream_state p st ds R N"
  obtains p' st' b' where
    "gmosStreamPushBackBuffer p st b = Some (8 \<le> pushRoom p st, p', st', b')"
    "stream_state p' st' (if 8 \<le> pushRoom p st then bufferBytes b @ ds else ds) R N" "same_on R p p'"
    "b' = (if 8 \<le> pushRoom p st then b\<lparr>segmentList := None, bufferSize := 0\<rparr> else b)"
proof -
  have ne: "bufferBytes b \<noteq> []" using length_bufferBytes [of b] by fastforce
  obtain p' st' where r:
    "gmosStreamPushBack p st (bufferBytes b) = Some (8 \<le> pushRoom p st, p', st')"
    "stream_state p' st' (if 8 \<le> pushRoom p st then bufferBytes b @ ds else ds) R N" "same_on R p p'"
    by (rule PushBack_ok [OF st ne]) simp
  have e: "gmosStreamPushBackBuffer p st b = Some (8 \<le> pushRoom p st, p', st',
      if 8 \<le> pushRoom p st then b\<lparr>segmentList := None, bufferSize := 0\<rparr> else b)"
    using r(1) by (cases "8 \<le> pushRoom p st") (simp_all add: gmosStreamPushBackBuffer_def)
  show thesis by (rule that [OF e r(2,3) refl])
qed

text \<open>A stream and scheduler to start from.\<close>

definition demoStream :: gmosStream where
  "demoStream = gmosStreamInit (Some 3) 200
     \<lparr>consumerTask = None, streamSegments = None, maxSize = 0, streamSize = 0, writeOffset = 0,
      readOffset = 0\<rparr>"

lemma demoStream_ok: "stream_state bootPool demoStream [] {} 64" "writeRoom bootPool demoStream = 200"
proof -
  show "stream_state bootPool demoStream [] {} 64"
    using stream_state_init [OF bootPool_ok(1), of 200] bootPool_ok(2) by (simp add: demoStream_def)
  show "writeRoom bootPool demoStream = 200"
    using bootPool_ok(2) by (simp add: writeRoom_def demoStream_def gmosStreamInit_def
        GMOS_CONFIG_MEMPOOL_SEGMENT_SIZE_def)
qed

lemma demoSched_ok: "sched_ok bootSched"
  using bootSched_inv(1) by (auto simp: sched_ok_def)

subsection \<open>Properties\<close>

text \<open>
  C16: Writing appends as much of the data as there is room for, which the capacity function
  reports: it is limited by the maximum size of the stream and by the free bytes of the last
  segment and of the free segments. The segments of all other clients keep their links and
  contents, no segment is lost, and the consumer task is ready to run if anything was written.
\<close>

theorem stream_write:
  assumes "stream_state p st ds R N" "sched_ok sc"
  shows "let n = gmosStreamGetWriteCapacity p st; k = min n (length w) in
    n = min (maxSize st - length ds)
          ((if streamSegments st = None then 0 else SEG - writeOffset st) + SEG * avail p) \<and>
    (\<exists>p' sc' st'. gmosStreamWrite p sc st w = Some (k, p', sc', st') \<and>
       stream_state p' st' (ds @ take k w) R N \<and> same_on R p p' \<and> sched_ok sc' \<and>
       (k > 0 \<longrightarrow> consumer_ready st' sc'))"
proof -
  note c = stream_state_capacity [OF assms(1)]
  let ?k = "min (writeRoom p st) (length w)"
  have n: "writeRoom p st = min (maxSize st - length ds)
      ((if streamSegments st = None then 0 else SEG - writeOffset st) + SEG * avail p)"
    using c(2) by (simp add: writeRoom_def)
  show ?thesis
  proof (cases "?k = 0")
    case True
    then have "gmosStreamWrite p sc st w = Some (0, p, sc, st)" "take ?k w = []"
      using c(1) by (auto simp: gmosStreamWrite_def)
    then show ?thesis unfolding Let_def c(1) True using n assms by simp
  next
    case False
    have t: "take ?k w \<noteq> []" "length (take ?k w) \<le> writeRoom p st" using False by auto
    obtain p' sc' st' where r: "gmosStreamCommonWrite p sc st (take ?k w) = Some (p', sc', st')"
      "stream_state p' st' (ds @ take ?k w) R N" "same_on R p p'" "sched_ok sc'" "consumer_ready st' sc'"
      by (rule CommonWrite_ok [OF assms t]) blast
    have k: "0 < ?k" using False by (simp only: not_gr_zero)
    have "gmosStreamWrite p sc st w = Some (?k, p', sc', st')"
      by (simp only: gmosStreamWrite_def c(1) Let_def k if_True r(1) Option.bind.simps prod.case)
    then show ?thesis using r n unfolding c(1) Let_def by blast
  qed
qed

theorem stream_write_witness:
  "\<exists>p' sc' st'. gmosStreamWrite bootPool bootSched demoStream [1, 2, 3] = Some (3, p', sc', st') \<and>
     stream_state p' st' [1, 2, 3] {} 64"
  using stream_write [OF demoStream_ok(1) demoSched_ok, of "[1, 2, 3]"] demoStream_ok(2)
    stream_state_capacity(1) [OF demoStream_ok(1)]
  by (auto simp: Let_def eval_nat_numeral)

text \<open>
  C17: Reading takes bytes off the front of the stream in the order in which they were written,
  at most as many as it holds; the segments that become empty go back to the pool. The read
  capacity is the number of bytes it holds, and peeking at an offset finds the byte at that
  position or fails beyond the end.
\<close>

theorem stream_read:
  assumes "stream_state p st ds R N"
  shows "gmosStreamGetReadCapacity st = length ds \<and>
    gmosStreamPeekByte p st k = Some (if k < length ds then Some (ds ! k) else None) \<and>
    (\<exists>p' st'. gmosStreamRead p st n = Some (min (length ds) n, take n ds, p', st') \<and>
       stream_state p' st' (drop n ds) R N \<and> same_on R p p')"
proof -
  have c: "streamSize st = length ds" using stream_state_capacity(2) [OF assms] .
  have "min (length ds) n \<le> length ds" by simp
  from CommonRead_ok [OF assms this] obtain p' st' where
    "gmosStreamCommonRead p st (min (length ds) n) = Some (take (min (length ds) n) ds, p', st')"
    "stream_state p' st' (drop (min (length ds) n) ds) R N" "same_on R p p'" by blast
  moreover have "take (min (length ds) n) ds = take n ds" "drop (min (length ds) n) ds = drop n ds"
    by (auto simp: min_def)
  ultimately have "\<exists>p' st'. gmosStreamRead p st n = Some (min (length ds) n, take n ds, p', st') \<and>
      stream_state p' st' (drop n ds) R N \<and> same_on R p p'"
    using assms c by (cases "min (length ds) n = 0") (auto simp: gmosStreamRead_def gmosStreamCommonRead.simps)
  then show ?thesis using c PeekByte_ok [OF assms, of k] by (simp add: gmosStreamGetReadCapacity_def)
qed

theorem stream_read_witness:
  "\<exists>p1 sc1 st1. gmosStreamWriteAll bootPool bootSched demoStream [1, 2, 3] = Some (True, p1, sc1, st1) \<and>
     gmosStreamPeekByte p1 st1 1 = Some (Some 2) \<and>
     (\<exists>p2 st2. gmosStreamRead p1 st1 2 = Some (2, [1, 2], p2, st2) \<and> stream_state p2 st2 [3] {} 64)"
proof -
  obtain p1 sc1 st1 where r: "gmosStreamWriteAll bootPool bootSched demoStream [1, 2, 3] =
      Some (True, p1, sc1, st1)" "stream_state p1 st1 [1, 2, 3] {} 64"
    by (rule WriteAll_ok [OF demoStream_ok(1) demoSched_ok, of "[1, 2, 3]"])
       (simp add: demoStream_ok(2))
  have n: "take 2 [1, 2, 3 :: byte] = [1, 2]" "drop 2 [1, 2, 3 :: byte] = [3]" by (simp_all add: eval_nat_numeral)
  show ?thesis
    using r(1) stream_read [OF r(2), where k = 1 and n = 2] unfolding n by auto
qed

text \<open>
  C18: Messages keep their boundaries: a message that is not empty and fits, header included, is
  written in one piece behind the messages the stream already holds and the consumer task is made
  ready; reading as many messages as were written returns them one by one in that order and
  leaves the stream empty. A message that does not fit is refused. An empty message that fits is
  reported as written, but nothing is: no reader sees it. In both cases nothing changes.
\<close>

theorem stream_message:
  assumes "stream_state p st (concat (map frameMessage ms)) R N" "sched_ok sc"
  shows "let fits = length w + 2 \<le> gmosStreamGetWriteCapacity p st;
      sent = (if fits \<and> w \<noteq> [] then [w] else []) in
    \<exists>p1 sc1 st1 p2 st2. gmosStreamWriteMessage p sc st w = Some (fits, p1, sc1, st1) \<and>
      sched_ok sc1 \<and> same_on R p p1 \<and>
      (sent \<noteq> [] \<longrightarrow> consumer_ready st1 sc1) \<and>
      (sent = [] \<longrightarrow> p1 = p \<and> sc1 = sc \<and> st1 = st) \<and>
      readMessages (length (ms @ sent)) p1 st1 = Some (ms @ sent, p2, st2) \<and>
      stream_state p2 st2 [] R N \<and> same_on R p1 p2"
proof (cases "length w + 2 \<le> gmosStreamGetWriteCapacity p st \<and> w \<noteq> []")
  case True
  then have "length w + 2 \<le> writeRoom p st" using stream_state_capacity(1) [OF assms(1)] by simp
  from WriteMessage_ok [OF assms _ this] True obtain p1 sc1 st1 where r:
    "gmosStreamWriteMessage p sc st w = Some (True, p1, sc1, st1)"
    "stream_state p1 st1 (concat (map frameMessage ms) @ frameMessage w) R N" "same_on R p p1"
    "sched_ok sc1" "consumer_ready st1 sc1" by metis
  have "stream_state p1 st1 (concat (map frameMessage (ms @ [w]))) R N" using r(2) by simp
  from readMessages_ok [OF this] r True show ?thesis
    by (simp add: Let_def del: readMessages.simps)
next
  case False
  have "gmosStreamWriteMessage p sc st w =
      Some (length w + 2 \<le> gmosStreamGetWriteCapacity p st, p, sc, st)"
    using False by (auto simp: gmosStreamWriteMessage_def not_le)
  then show ?thesis
    unfolding Let_def if_not_P [OF False]
    using readMessages_ok [OF assms(1)] assms(2) same_on_refl
    by (simp del: readMessages.simps)
qed

theorem stream_message_witness:
  "\<exists>p1 sc1 st1 p2 st2. gmosStreamWriteMessage bootPool bootSched demoStream [7, 8] = Some (True, p1, sc1, st1) \<and>
     readMessages 1 p1 st1 = Some ([[7, 8]], p2, st2)"
  using stream_message [of bootPool demoStream "[]" "{}" 64 bootSched "[7, 8]"] demoStream_ok demoSched_ok
    stream_state_capacity(1) [OF demoStream_ok(1)] by (simp add: Let_def del: readMessages.simps) blast

text \<open>
  Pushing back data puts it in front of what the stream holds, so that it is the next to be
  read; it succeeds exactly when the data fits, which the capacity function reports, and a
  refusal changes nothing.
\<close>

theorem stream_push_back:
  assumes "stream_state p st ds R N" "w \<noteq> []"
  shows "let n = gmosStreamGetPushBackCapacity p st; ok = (length w \<le> n) in
    n = min (maxSize st - length ds) ((if streamSegments st = None then 0 else readOffset st) + SEG * avail p) \<and>
    (\<exists>p' st'. gmosStreamPushBack p st w = Some (ok, p', st') \<and>
       stream_state p' st' (if ok then w @ ds else ds) R N \<and> same_on R p p' \<and>
       (\<not> ok \<longrightarrow> p' = p \<and> st' = st))"
proof -
  from assms(1) obtain xs where "stream_core p st xs ds" "stream_pool p xs R N"
    by (auto simp: stream_state_def stream_rep_def)
  then have c: "gmosStreamGetPushBackCapacity p st = pushRoom p st" by (rule PushBackCapacity_eq)
  have n: "pushRoom p st = min (maxSize st - length ds)
      ((if streamSegments st = None then 0 else readOffset st) + SEG * avail p)"
    using stream_state_capacity(2) [OF assms(1)] by (simp add: pushRoom_def)
  show ?thesis
    unfolding Let_def c by (rule PushBack_ok [OF assms]) (use n in blast)
qed

theorem stream_push_back_witness:
  "\<exists>p' st'. gmosStreamPushBack bootPool demoStream [5, 6] = Some (True, p', st') \<and>
     stream_state p' st' [5, 6] {} 64"
proof -
  have "avail bootPool = 64" "streamSize demoStream = 0" "maxSize demoStream = 200"
    "streamSegments demoStream = None"
    using bootPool_ok(2) by (simp_all add: demoStream_def gmosStreamInit_def)
  then show ?thesis
    using stream_push_back [OF demoStream_ok(1), of "[5, 6]"]
    by (auto simp: Let_def GMOS_CONFIG_MEMPOOL_SEGMENT_SIZE_def)
qed

text \<open>
  C19: Buffers pass through a stream by reference: a buffer that is sent over an empty stream
  arrives as the same buffer with the same contents at a receiver, whose old contents are
  released, while the sender is left without any segment. Nothing is copied: the segments stay
  where they are, and no other client of the pool is affected.
\<close>

theorem stream_pass_buffer:
  assumes "stream_state p st [] (set bx \<union> set dx \<union> R) N" "sched_ok sc"
    and "buf_rep p b bx bs" "buf_rep p d dx es" "set dx \<inter> (set bx \<union> R) = {}"
    and "8 \<le> gmosStreamGetWriteCapacity p st"
  shows "\<exists>p1 sc1 st1 b1 p2 st2 b2 N2. gmosStreamSendBuffer p sc st b = Some (True, p1, sc1, st1, b1) \<and>
    segmentList b1 = None \<and> bufferSize b1 = 0 \<and> sched_ok sc1 \<and> consumer_ready st1 sc1 \<and>
    gmosStreamAcceptBuffer p1 st1 d = Some (True, p2, st2, b2) \<and> b2 = b \<and> buf_rep p2 b2 bx bs \<and>
    stream_state p2 st2 [] (set bx \<union> R) N2 \<and> same_on R p p2 \<and>
    (\<not> mempoolUseHeap p1 \<longrightarrow> N2 = N + length dx)"
proof -
  have room: "8 \<le> writeRoom p st" using assms(6) stream_state_capacity(1) [OF assms(1)] by simp
  obtain p1 sc1 st1 b1 where r: "gmosStreamSendBuffer p sc st b = Some (True, p1, sc1, st1, b1)"
    "stream_state p1 st1 (bufferBytes b) (set bx \<union> set dx \<union> R) N"
    "same_on (set bx \<union> set dx \<union> R) p p1" "sched_ok sc1" "consumer_ready st1 sc1"
    "b1 = b\<lparr>segmentList := None, bufferSize := 0\<rparr>"
    by (rule SendBuffer_ok [OF assms(1,2), of b]) (use room in simp)
  have rep: "buf_rep p1 b bx bs" "buf_rep p1 d dx es"
    using buf_rep_same_on [OF assms(3) r(3)] buf_rep_same_on [OF assms(4) r(3)] by auto
  from r(2) obtain xs where ok: "pool_ok p1 (set xs \<union> (set bx \<union> set dx \<union> R))"
    by (auto simp: stream_state_def stream_pool_def)
  have bb: "bytesBuffer (bufferBytes b) = b" by (rule buf_rep_bytes [OF rep(1) ok]) auto
  have own: "set bx \<union> set dx \<union> R = set dx \<union> (set bx \<union> R)" by auto
  have st1: "stream_state p1 st1 (bufferBytes b @ []) (set dx \<union> (set bx \<union> R)) N"
    using r(2) unfolding own by simp
  obtain p2 st2 N2 where z: "gmosStreamAcceptBuffer p1 st1 d = Some (True, p2, st2, b)"
    "stream_state p2 st2 [] (set bx \<union> R) N2" "same_on (set bx \<union> R) p1 p2"
    "\<not> mempoolUseHeap p1 \<longrightarrow> N2 = N + length dx"
    by (rule AcceptBuffer_ok [OF st1 rep(2) assms(5) bb]) blast
  have "buf_rep p2 b bx bs" using buf_rep_same_on [OF rep(1) z(3)] by simp
  moreover have "same_on R p p2"
    using same_on_trans [OF same_on_mono [OF r(3), of R] same_on_mono [OF z(3), of R]] by simp
  ultimately show ?thesis using r z by auto
qed

theorem stream_pass_buffer_witness:
  "\<exists>p b bx p1 sc1 st1 b1 p2 st2. gmosStreamSendBuffer p bootSched demoStream b = Some (True, p1, sc1, st1, b1) \<and>
     gmosStreamAcceptBuffer p1 st1 gmosBufferInit = Some (True, p2, st2, b) \<and> buf_rep p2 b bx [4, 5]"
proof -
  obtain p b R where st: "buf_state p b [4, 5] R" "\<not> mempoolUseHeap p" "avail p = 62" by (rule boot_buf)
  from st(1) obtain bx where rep: "buf_rep p b bx [4, 5]" and ok: "pool_ok p (set bx \<union> R)"
    by (auto simp: buf_state_def)
  have s: "stream_state p demoStream [] (set bx \<union> set [] \<union> R) 62"
    using stream_state_init [of p "set bx \<union> R" 200] ok st(3) by (simp add: demoStream_def)
  have d: "buf_rep p gmosBufferInit [] []" by (simp add: buf_rep_def gmosBufferInit_def)
  have "8 \<le> gmosStreamGetWriteCapacity p demoStream"
    using stream_state_capacity(1) [OF s] st(3)
    by (simp add: writeRoom_def demoStream_def gmosStreamInit_def GMOS_CONFIG_MEMPOOL_SEGMENT_SIZE_def)
  from stream_pass_buffer [OF s demoSched_ok rep d _ this] show ?thesis by (simp, blast)
qed

text \<open>
  The single-byte functions, which the code implements separately, do exactly what the
  array functions do with an array of one byte, the pool and the scheduler included.
\<close>

theorem stream_bytewise:
  assumes "stream_state p st ds R N"
  shows "gmosStreamWriteByte p sc st b = gmosStreamWriteAll p sc st [b] \<and>
    gmosStreamReadByte p st =
      map_option (\<lambda>(r, p', st'). (map_option hd r, p', st')) (gmosStreamReadAll p st 1)"
  using WriteByte_eq [OF assms] ReadByte_eq [OF assms] by simp

theorem stream_bytewise_witness:
  "gmosStreamWriteByte bootPool bootSched demoStream 9 =
     gmosStreamWriteAll bootPool bootSched demoStream [9]"
  using stream_bytewise [OF demoStream_ok(1)] by simp

end
