(* ===== verification/Gmos_Cbor_Enc.thy ===== *)
theory Gmos_Cbor_Enc
  imports Gmos_Buffer_Ops
begin

text \<open>
  The CBOR encoder of common/src/gmos-format-cbor-enc.c, built with 64-bit values and floating
  point support. Every encoding function appends to a data buffer; the results are its return
  value, the pool and the buffer.

  A floating point argument is given by its bit pattern, which is all the encoder looks at. A
  null-terminated string is the byte list of the array it is stored in, and reading behind the
  end of the array is a fault.

  \<open>cborHead\<close> is the shortest form of RFC 8949 for a major type and its argument; the call
  datatype \<open>cborCall\<close> names every encoding function with its arguments, and \<open>callBytes\<close> is
  what the standard prescribes for it.
\<close>

subsection \<open>Configuration and major types\<close>

definition GMOS_CONFIG_CBOR_MAX_STRING_SIZE :: nat where
  "GMOS_CONFIG_CBOR_MAX_STRING_SIZE = 1024"

definition GMOS_CONFIG_CBOR_MAX_ARRAY_SIZE :: nat where
  "GMOS_CONFIG_CBOR_MAX_ARRAY_SIZE = 256"

definition GMOS_CONFIG_CBOR_MAX_MAP_SIZE :: nat where
  "GMOS_CONFIG_CBOR_MAX_MAP_SIZE = 256"

abbreviation MAX_STRING :: nat where "MAX_STRING \<equiv> GMOS_CONFIG_CBOR_MAX_STRING_SIZE"
abbreviation MAX_ARRAY :: nat where "MAX_ARRAY \<equiv> GMOS_CONFIG_CBOR_MAX_ARRAY_SIZE"
abbreviation MAX_MAP :: nat where "MAX_MAP \<equiv> GMOS_CONFIG_CBOR_MAX_MAP_SIZE"

datatype cborMajorType =
    INT_POS | INT_NEG | STR_BYTE | STR_TEXT | ARRAY | MAP | TAG | SIMPLE

primrec majorByte :: "cborMajorType \<Rightarrow> byte" where
  "majorByte INT_POS = 0x00"
| "majorByte INT_NEG = 0x20"
| "majorByte STR_BYTE = 0x40"
| "majorByte STR_TEXT = 0x60"
| "majorByte ARRAY = 0x80"
| "majorByte MAP = 0xA0"
| "majorByte TAG = 0xC0"
| "majorByte SIMPLE = 0xE0"

declare majorByte.simps [simp del]

subsection \<open>Encoding functions\<close>

definition gmosFormatCborEncodeWithParameter ::
    "mempool \<Rightarrow> gmosBuffer \<Rightarrow> byte \<Rightarrow> nat \<Rightarrow> (bool \<times> mempool \<times> gmosBuffer) option" where
  "gmosFormatCborEncodeWithParameter p buffer majorType parameter =
     (let dataBytes =
        (if parameter < 24 then [or majorType (of_nat parameter)]
         else if parameter \<le> 0xFF then [or majorType 24, of_nat parameter]
         else if parameter \<le> 0xFFFF
         then [or majorType 25, of_nat (parameter div 2 ^ 8), of_nat parameter]
         else if parameter \<ge> 0x100000000
         then [or majorType 27,
               of_nat (parameter div 2 ^ 56), of_nat (parameter div 2 ^ 48),
               of_nat (parameter div 2 ^ 40), of_nat (parameter div 2 ^ 32),
               of_nat (parameter div 2 ^ 24), of_nat (parameter div 2 ^ 16),
               of_nat (parameter div 2 ^ 8), of_nat parameter]
         else [or majorType 26,
               of_nat (parameter div 2 ^ 24), of_nat (parameter div 2 ^ 16),
               of_nat (parameter div 2 ^ 8), of_nat parameter])
      in gmosBufferAppend p buffer dataBytes)"

definition gmosFormatCborEncodeWithByteArray ::
    "mempool \<Rightarrow> gmosBuffer \<Rightarrow> byte \<Rightarrow> byte list \<Rightarrow> (bool \<times> mempool \<times> gmosBuffer) option" where
  "gmosFormatCborEncodeWithByteArray p buffer majorType byteArray =
     (let len = length byteArray in
      if len > MAX_STRING then Some (False, p, buffer)
      else do {
        let rollbackSize = gmosBufferGetSize buffer;
        (appendOk, p, buffer) \<leftarrow> gmosFormatCborEncodeWithParameter p buffer majorType len;
        if appendOk
        then do {
          (appendOk, p, buffer) \<leftarrow> gmosBufferAppend p buffer byteArray;
          if \<not> appendOk
          then do {
            (_, p, buffer) \<leftarrow> gmosBufferResize p buffer rollbackSize;
            Some (False, p, buffer) }
          else Some (True, p, buffer) }
        else Some (False, p, buffer) })"

definition gmosFormatCborEncodeNull :: "mempool \<Rightarrow> gmosBuffer \<Rightarrow> (bool \<times> mempool \<times> gmosBuffer) option" where
  "gmosFormatCborEncodeNull p buffer = gmosBufferAppend p buffer [or (majorByte SIMPLE) 22]"

definition gmosFormatCborEncodeUndefined ::
    "mempool \<Rightarrow> gmosBuffer \<Rightarrow> (bool \<times> mempool \<times> gmosBuffer) option" where
  "gmosFormatCborEncodeUndefined p buffer = gmosBufferAppend p buffer [or (majorByte SIMPLE) 23]"

definition gmosFormatCborEncodeBreakCode ::
    "mempool \<Rightarrow> gmosBuffer \<Rightarrow> (bool \<times> mempool \<times> gmosBuffer) option" where
  "gmosFormatCborEncodeBreakCode p buffer = gmosBufferAppend p buffer [or (majorByte SIMPLE) 31]"

definition gmosFormatCborEncodeBool ::
    "mempool \<Rightarrow> gmosBuffer \<Rightarrow> bool \<Rightarrow> (bool \<times> mempool \<times> gmosBuffer) option" where
  "gmosFormatCborEncodeBool p buffer value =
     (let encoding = (if value then or (majorByte SIMPLE) 21 else or (majorByte SIMPLE) 20)
      in gmosBufferAppend p buffer [encoding])"

definition gmosFormatCborEncodeUint32 ::
    "mempool \<Rightarrow> gmosBuffer \<Rightarrow> 32 word \<Rightarrow> (bool \<times> mempool \<times> gmosBuffer) option" where
  "gmosFormatCborEncodeUint32 p buffer value =
     gmosFormatCborEncodeWithParameter p buffer (majorByte INT_POS) (unat value)"

definition gmosFormatCborEncodeInt32 ::
    "mempool \<Rightarrow> gmosBuffer \<Rightarrow> 32 word \<Rightarrow> (bool \<times> mempool \<times> gmosBuffer) option" where
  "gmosFormatCborEncodeInt32 p buffer value =
     (let (type, param) =
        (if sint value \<ge> 0 then (majorByte INT_POS, nat (sint value))
         else (majorByte INT_NEG, nat (- (sint value + 1))))
      in gmosFormatCborEncodeWithParameter p buffer type param)"

definition gmosFormatCborEncodeUint64 ::
    "mempool \<Rightarrow> gmosBuffer \<Rightarrow> 64 word \<Rightarrow> (bool \<times> mempool \<times> gmosBuffer) option" where
  "gmosFormatCborEncodeUint64 p buffer value =
     gmosFormatCborEncodeWithParameter p buffer (majorByte INT_POS) (unat value)"

definition gmosFormatCborEncodeInt64 ::
    "mempool \<Rightarrow> gmosBuffer \<Rightarrow> 64 word \<Rightarrow> (bool \<times> mempool \<times> gmosBuffer) option" where
  "gmosFormatCborEncodeInt64 p buffer value =
     (let (type, param) =
        (if sint value \<ge> 0 then (majorByte INT_POS, nat (sint value))
         else (majorByte INT_NEG, nat (- (sint value + 1))))
      in gmosFormatCborEncodeWithParameter p buffer type param)"

definition gmosFormatCborEncodeFloat32 ::
    "mempool \<Rightarrow> gmosBuffer \<Rightarrow> 32 word \<Rightarrow> (bool \<times> mempool \<times> gmosBuffer) option" where
  "gmosFormatCborEncodeFloat32 p buffer bits =
     gmosBufferAppend p buffer
       [or (majorByte SIMPLE) 26, ucast (drop_bit 24 bits), ucast (drop_bit 16 bits),
        ucast (drop_bit 8 bits), ucast bits]"

definition gmosFormatCborEncodeFloat64 ::
    "mempool \<Rightarrow> gmosBuffer \<Rightarrow> 64 word \<Rightarrow> (bool \<times> mempool \<times> gmosBuffer) option" where
  "gmosFormatCborEncodeFloat64 p buffer bits =
     gmosBufferAppend p buffer
       [or (majorByte SIMPLE) 27, ucast (drop_bit 56 bits), ucast (drop_bit 48 bits),
        ucast (drop_bit 40 bits), ucast (drop_bit 32 bits), ucast (drop_bit 24 bits),
        ucast (drop_bit 16 bits), ucast (drop_bit 8 bits), ucast bits]"

text \<open>The search for the terminator, which gives up above the maximum string size.\<close>

fun charStringLength :: "nat \<Rightarrow> byte list \<Rightarrow> nat option" where
  "charStringLength len textString =
     (if len \<le> MAX_STRING
      then (case textString of
              [] \<Rightarrow> None
            | c # cs \<Rightarrow> if c = 0 then Some len else charStringLength (len + 1) cs)
      else Some len)"

definition gmosFormatCborEncodeTextString ::
    "mempool \<Rightarrow> gmosBuffer \<Rightarrow> byte list \<Rightarrow> (bool \<times> mempool \<times> gmosBuffer) option" where
  "gmosFormatCborEncodeTextString p buffer textString =
     gmosFormatCborEncodeWithByteArray p buffer (majorByte STR_TEXT) textString"

definition gmosFormatCborEncodeCharString ::
    "mempool \<Rightarrow> gmosBuffer \<Rightarrow> byte list \<Rightarrow> (bool \<times> mempool \<times> gmosBuffer) option" where
  "gmosFormatCborEncodeCharString p buffer textString = do {
     len \<leftarrow> charStringLength 0 textString;
     gmosFormatCborEncodeWithByteArray p buffer (majorByte STR_TEXT) (take len textString) }"

definition gmosFormatCborEncodeByteString ::
    "mempool \<Rightarrow> gmosBuffer \<Rightarrow> byte list \<Rightarrow> (bool \<times> mempool \<times> gmosBuffer) option" where
  "gmosFormatCborEncodeByteString p buffer byteString =
     gmosFormatCborEncodeWithByteArray p buffer (majorByte STR_BYTE) byteString"

definition gmosFormatCborEncodeArray ::
    "mempool \<Rightarrow> gmosBuffer \<Rightarrow> nat \<Rightarrow> (bool \<times> mempool \<times> gmosBuffer) option" where
  "gmosFormatCborEncodeArray p buffer len =
     gmosFormatCborEncodeWithParameter p buffer (majorByte ARRAY) len"

definition gmosFormatCborEncodeMap ::
    "mempool \<Rightarrow> gmosBuffer \<Rightarrow> nat \<Rightarrow> (bool \<times> mempool \<times> gmosBuffer) option" where
  "gmosFormatCborEncodeMap p buffer len =
     gmosFormatCborEncodeWithParameter p buffer (majorByte MAP) len"

definition gmosFormatCborEncodeIndefArray ::
    "mempool \<Rightarrow> gmosBuffer \<Rightarrow> (bool \<times> mempool \<times> gmosBuffer) option" where
  "gmosFormatCborEncodeIndefArray p buffer = gmosBufferAppend p buffer [or (majorByte ARRAY) 31]"

definition gmosFormatCborEncodeIndefMap ::
    "mempool \<Rightarrow> gmosBuffer \<Rightarrow> (bool \<times> mempool \<times> gmosBuffer) option" where
  "gmosFormatCborEncodeIndefMap p buffer = gmosBufferAppend p buffer [or (majorByte MAP) 31]"

definition gmosFormatCborEncodeIndefBreak ::
    "mempool \<Rightarrow> gmosBuffer \<Rightarrow> (bool \<times> mempool \<times> gmosBuffer) option" where
  "gmosFormatCborEncodeIndefBreak p buffer = gmosBufferAppend p buffer [or (majorByte SIMPLE) 31]"

definition gmosFormatCborEncodeTag ::
    "mempool \<Rightarrow> gmosBuffer \<Rightarrow> 64 word \<Rightarrow> (bool \<times> mempool \<times> gmosBuffer) option" where
  "gmosFormatCborEncodeTag p buffer tagNumber =
     gmosFormatCborEncodeWithParameter p buffer (majorByte TAG) (unat tagNumber)"

subsection \<open>The encoding of the standard\<close>

primrec majorNumber :: "cborMajorType \<Rightarrow> nat" where
  "majorNumber INT_POS = 0"
| "majorNumber INT_NEG = 1"
| "majorNumber STR_BYTE = 2"
| "majorNumber STR_TEXT = 3"
| "majorNumber ARRAY = 4"
| "majorNumber MAP = 5"
| "majorNumber TAG = 6"
| "majorNumber SIMPLE = 7"

text \<open>An initial byte holds the major type and five bits of additional information.\<close>

definition initialByte :: "cborMajorType \<Rightarrow> nat \<Rightarrow> byte" where
  "initialByte m info = of_nat (32 * majorNumber m + info)"

definition beBytes :: "nat \<Rightarrow> nat \<Rightarrow> byte list" where
  "beBytes k n = rev (leBytes k n)"

definition cborHead :: "cborMajorType \<Rightarrow> nat \<Rightarrow> byte list" where
  "cborHead m n =
     (if n < 24 then [initialByte m n]
      else if n < 2 ^ 8 then initialByte m 24 # beBytes 1 n
      else if n < 2 ^ 16 then initialByte m 25 # beBytes 2 n
      else if n < 2 ^ 32 then initialByte m 26 # beBytes 4 n
      else initialByte m 27 # beBytes 8 n)"

lemma length_beBytes [simp]: "length (beBytes k n) = k"
  by (simp add: beBytes_def)

lemma major_cases: "m \<in> set [INT_POS, INT_NEG, STR_BYTE, STR_TEXT, ARRAY, MAP, TAG, SIMPLE]"
  by (cases m) simp_all

lemma or_major_table:
  "\<forall>m\<in>set [INT_POS, INT_NEG, STR_BYTE, STR_TEXT, ARRAY, MAP, TAG, SIMPLE]. \<forall>i\<in>set [0..<32].
     or (majorByte m) (of_nat i) = initialByte m i"
  by code_simp

lemma or_major: "i < 32 \<Longrightarrow> or (majorByte m) (of_nat i) = initialByte m i"
  using or_major_table major_cases [of m] by (metis atLeast0LessThan lessThan_iff set_upt)

lemma or_major_numeral [simp]:
  "or (majorByte m) 20 = initialByte m 20" "or (majorByte m) 21 = initialByte m 21"
  "or (majorByte m) 22 = initialByte m 22" "or (majorByte m) 23 = initialByte m 23"
  "or (majorByte m) 24 = initialByte m 24" "or (majorByte m) 25 = initialByte m 25"
  "or (majorByte m) 26 = initialByte m 26" "or (majorByte m) 27 = initialByte m 27"
  "or (majorByte m) 31 = initialByte m 31"
  using or_major [of 20 m] or_major [of 21 m] or_major [of 22 m] or_major [of 23 m] or_major [of 24 m]
    or_major [of 25 m] or_major [of 26 m] or_major [of 27 m] or_major [of 31 m] by simp_all

lemma numeral_as_Suc:
  "(1::nat) = Suc 0" "(2::nat) = Suc (Suc 0)" "(4::nat) = Suc (Suc (Suc (Suc 0)))"
  "(8::nat) = Suc (Suc (Suc (Suc (Suc (Suc (Suc (Suc 0)))))))"
  by simp_all

lemma leBytes_numeral:
  "leBytes 1 n = [of_nat n]" "leBytes 2 n = [of_nat n, of_nat (n div 256)]"
  "leBytes 4 n = [of_nat n, of_nat (n div 256), of_nat (n div 65536), of_nat (n div 16777216)]"
  "leBytes 8 n = [of_nat n, of_nat (n div 256), of_nat (n div 65536), of_nat (n div 16777216),
     of_nat (n div 4294967296), of_nat (n div 1099511627776), of_nat (n div 281474976710656),
     of_nat (n div 72057594037927936)]"
proof -
  note s = leBytes_Suc leBytes.simps(1) div_mult2_eq [symmetric]
  show "leBytes 1 n = [of_nat n]" by (subst numeral_as_Suc(1)) (simp only: s)
  show "leBytes 2 n = [of_nat n, of_nat (n div 256)]" by (subst numeral_as_Suc(2)) (simp only: s)
  show "leBytes 4 n = [of_nat n, of_nat (n div 256), of_nat (n div 65536), of_nat (n div 16777216)]"
    by (subst numeral_as_Suc(3), simp only: s, simp)
  show "leBytes 8 n = [of_nat n, of_nat (n div 256), of_nat (n div 65536), of_nat (n div 16777216),
     of_nat (n div 4294967296), of_nat (n div 1099511627776), of_nat (n div 281474976710656),
     of_nat (n div 72057594037927936)]"
    by (subst numeral_as_Suc(4), simp only: s, simp)
qed

lemma beBytes_numeral:
  "beBytes (Suc 0) n = [of_nat n]"
  "beBytes 2 n = [of_nat (n div 256), of_nat n]"
  "beBytes 4 n = [of_nat (n div 16777216), of_nat (n div 65536), of_nat (n div 256), of_nat n]"
  "beBytes 8 n = [of_nat (n div 72057594037927936), of_nat (n div 281474976710656),
     of_nat (n div 1099511627776), of_nat (n div 4294967296), of_nat (n div 16777216),
     of_nat (n div 65536), of_nat (n div 256), of_nat n]"
  using leBytes_numeral(1) [of n] by (simp_all add: beBytes_def leBytes_numeral)

lemma EncodeWithParameter_eq:
  "gmosFormatCborEncodeWithParameter p b (majorByte m) n = gmosBufferAppend p b (cborHead m n)"
  by (simp add: gmosFormatCborEncodeWithParameter_def cborHead_def or_major beBytes_numeral)

lemma length_cborHead: "length (cborHead m n) \<le> 9" "0 < length (cborHead m n)"
  by (simp_all add: cborHead_def)

subsection \<open>Calls\<close>

datatype cborCall =
    CallNull | CallUndefined | CallBreakCode | CallIndefBreak | CallBool bool
  | CallUint32 "32 word" | CallInt32 "32 word" | CallUint64 "64 word" | CallInt64 "64 word"
  | CallFloat32 "32 word" | CallFloat64 "64 word"
  | CallCharString "byte list" | CallTextString "byte list" | CallByteString "byte list"
  | CallArray nat | CallMap nat | CallIndefArray | CallIndefMap | CallTag "64 word"

primrec encodeCall :: "cborCall \<Rightarrow> mempool \<Rightarrow> gmosBuffer \<Rightarrow> (bool \<times> mempool \<times> gmosBuffer) option" where
  "encodeCall CallNull p b = gmosFormatCborEncodeNull p b"
| "encodeCall CallUndefined p b = gmosFormatCborEncodeUndefined p b"
| "encodeCall CallBreakCode p b = gmosFormatCborEncodeBreakCode p b"
| "encodeCall CallIndefBreak p b = gmosFormatCborEncodeIndefBreak p b"
| "encodeCall (CallBool v) p b = gmosFormatCborEncodeBool p b v"
| "encodeCall (CallUint32 v) p b = gmosFormatCborEncodeUint32 p b v"
| "encodeCall (CallInt32 v) p b = gmosFormatCborEncodeInt32 p b v"
| "encodeCall (CallUint64 v) p b = gmosFormatCborEncodeUint64 p b v"
| "encodeCall (CallInt64 v) p b = gmosFormatCborEncodeInt64 p b v"
| "encodeCall (CallFloat32 v) p b = gmosFormatCborEncodeFloat32 p b v"
| "encodeCall (CallFloat64 v) p b = gmosFormatCborEncodeFloat64 p b v"
| "encodeCall (CallCharString s) p b = gmosFormatCborEncodeCharString p b s"
| "encodeCall (CallTextString s) p b = gmosFormatCborEncodeTextString p b s"
| "encodeCall (CallByteString s) p b = gmosFormatCborEncodeByteString p b s"
| "encodeCall (CallArray n) p b = gmosFormatCborEncodeArray p b n"
| "encodeCall (CallMap n) p b = gmosFormatCborEncodeMap p b n"
| "encodeCall CallIndefArray p b = gmosFormatCborEncodeIndefArray p b"
| "encodeCall CallIndefMap p b = gmosFormatCborEncodeIndefMap p b"
| "encodeCall (CallTag n) p b = gmosFormatCborEncodeTag p b n"

text \<open>What the standard prescribes for each call.\<close>

definition intBytes :: "int \<Rightarrow> byte list" where
  "intBytes i = (if i \<ge> 0 then cborHead INT_POS (nat i) else cborHead INT_NEG (nat (- i - 1)))"

definition stringBytes :: "cborMajorType \<Rightarrow> byte list \<Rightarrow> byte list" where
  "stringBytes m s = cborHead m (length s) @ s"

primrec callBytes :: "cborCall \<Rightarrow> byte list" where
  "callBytes CallNull = [initialByte SIMPLE 22]"
| "callBytes CallUndefined = [initialByte SIMPLE 23]"
| "callBytes CallBreakCode = [0xFF]"
| "callBytes CallIndefBreak = [0xFF]"
| "callBytes (CallBool v) = [initialByte SIMPLE (if v then 21 else 20)]"
| "callBytes (CallUint32 v) = intBytes (uint v)"
| "callBytes (CallInt32 v) = intBytes (sint v)"
| "callBytes (CallUint64 v) = intBytes (uint v)"
| "callBytes (CallInt64 v) = intBytes (sint v)"
| "callBytes (CallFloat32 v) = initialByte SIMPLE 26 # beBytes 4 (unat v)"
| "callBytes (CallFloat64 v) = initialByte SIMPLE 27 # beBytes 8 (unat v)"
| "callBytes (CallCharString s) = stringBytes STR_TEXT (takeWhile (\<lambda>c. c \<noteq> 0) s)"
| "callBytes (CallTextString s) = stringBytes STR_TEXT s"
| "callBytes (CallByteString s) = stringBytes STR_BYTE s"
| "callBytes (CallArray n) = cborHead ARRAY n"
| "callBytes (CallMap n) = cborHead MAP n"
| "callBytes CallIndefArray = [initialByte ARRAY 31]"
| "callBytes CallIndefMap = [initialByte MAP 31]"
| "callBytes (CallTag n) = cborHead TAG (unat n)"

text \<open>
  A char string has to be terminated, unless it is longer than any string the encoder takes;
  \<open>callFits\<close> is the limit on the length of strings.
\<close>

primrec callOk :: "cborCall \<Rightarrow> bool" where
  "callOk CallNull = True" | "callOk CallUndefined = True" | "callOk CallBreakCode = True"
| "callOk CallIndefBreak = True" | "callOk (CallBool v) = True" | "callOk (CallUint32 v) = True"
| "callOk (CallInt32 v) = True" | "callOk (CallUint64 v) = True" | "callOk (CallInt64 v) = True"
| "callOk (CallFloat32 v) = True" | "callOk (CallFloat64 v) = True"
| "callOk (CallCharString s) = (0 \<in> set s \<or> length s > MAX_STRING)"
| "callOk (CallTextString s) = True" | "callOk (CallByteString s) = True"
| "callOk (CallArray n) = True" | "callOk (CallMap n) = True" | "callOk CallIndefArray = True"
| "callOk CallIndefMap = True" | "callOk (CallTag n) = True"

definition callFits :: "cborCall \<Rightarrow> bool" where
  "callFits c =
     (case c of
        CallCharString s \<Rightarrow> length (takeWhile (\<lambda>c. c \<noteq> 0) s) \<le> MAX_STRING
      | CallTextString s \<Rightarrow> length s \<le> MAX_STRING
      | CallByteString s \<Rightarrow> length s \<le> MAX_STRING
      | _ \<Rightarrow> True)"

text \<open>Whether a buffer can grow by a number of bytes, in a static pool.\<close>

definition roomFor :: "mempool \<Rightarrow> gmosBuffer \<Rightarrow> nat \<Rightarrow> nat \<Rightarrow> bool" where
  "roomFor p b n k \<longleftrightarrow>
     n + k < 65536 \<and> need (bufferOffset b + n + k) - need (bufferOffset b + n) \<le> avail p"

text \<open>Appending, in the form the encoder's functions share.\<close>

definition appends :: "mempool \<Rightarrow> gmosBuffer \<Rightarrow> byte list \<Rightarrow> nat set \<Rightarrow> byte list \<Rightarrow> bool \<Rightarrow>
    (bool \<times> mempool \<times> gmosBuffer) option \<Rightarrow> bool" where
  "appends p b ds R w fits r \<longleftrightarrow>
     (\<exists>ok p' b'. r = Some (ok, p', b') \<and> same_on R p p' \<and> mempoolUseHeap p' = mempoolUseHeap p \<and>
        buf_state p' b' (if ok then ds @ w else ds) R \<and> (ok \<longrightarrow> fits) \<and>
        (\<not> mempoolUseHeap p \<longrightarrow> ok = (fits \<and> roomFor p b (length ds) (length w))) \<and>
        (ok \<longrightarrow> bufferOffset b' = bufferOffset b \<and> (\<not> mempoolUseHeap p \<longrightarrow>
           avail p' = avail p -
             (need (bufferOffset b + length ds + length w) - need (bufferOffset b + length ds)))))"

lemma appends_Append:
  assumes "buf_state p b ds R" "length w < 65536"
  shows "appends p b ds R w True (gmosBufferAppend p b w)"
proof (rule gmosBufferAppend_ok [OF assms])
  fix ok p' b'
  assume a: "gmosBufferAppend p b w = Some (ok, p', b')" "same_on R p p'"
    "mempoolUseHeap p' = mempoolUseHeap p"
    "ok = (length ds + length w < 65536 \<and>
      need (bufferOffset b + length ds + length w) - need (bufferOffset b + length ds) \<le> avail p)"
    "buf_state p' b' (if ok then ds @ w else ds) R"
    "\<not> mempoolUseHeap p \<Longrightarrow> avail p' = (if ok then avail p -
         (need (bufferOffset b + length ds + length w) - need (bufferOffset b + length ds))
       else avail p)"
  then show ?thesis using Append_offset [OF a(1)] by (simp add: appends_def roomFor_def)
qed

lemma appends_EncodeWithParameter:
  "buf_state p b ds R \<Longrightarrow>
     appends p b ds R (cborHead m n) True (gmosFormatCborEncodeWithParameter p b (majorByte m) n)"
  using length_cborHead(1) [of m n] by (simp add: EncodeWithParameter_eq appends_Append)

text \<open>A string is appended completely or, after a rollback, not at all.\<close>

lemma appends_EncodeWithByteArray:
  assumes st: "buf_state p b ds R"
  shows "appends p b ds R (stringBytes m s) (length s \<le> MAX_STRING)
    (gmosFormatCborEncodeWithByteArray p b (majorByte m) s)"
proof (cases "length s \<le> MAX_STRING")
  case False
  then show ?thesis using st by (auto simp: appends_def gmosFormatCborEncodeWithByteArray_def)
next
  case True
  let ?h = "cborHead m (length s)"
  have hl: "length ?h < 65536" using length_cborHead(1) [of m "length s"] by simp
  have sl: "length s < 65536" using True by (simp add: GMOS_CONFIG_CBOR_MAX_STRING_SIZE_def)
  note n = buf_state_size [OF st]
  obtain ok1 p1 b1 where r: "gmosBufferAppend p b ?h = Some (ok1, p1, b1)" "same_on R p p1"
    "mempoolUseHeap p1 = mempoolUseHeap p"
    "ok1 \<longleftrightarrow> roomFor p b (length ds) (length ?h)"
    "buf_state p1 b1 (if ok1 then ds @ ?h else ds) R"
    "\<not> mempoolUseHeap p \<longrightarrow> avail p1 =
      (if ok1 then avail p - (need (bufferOffset b + length ds + length ?h) - need (bufferOffset b + length ds))
       else avail p)"
    unfolding roomFor_def by (rule gmosBufferAppend_ok [OF st hl]) blast
  have mono: "need (bufferOffset b + length ds) \<le> need (bufferOffset b + length ds + length ?h)"
    "need (bufferOffset b + length ds + length ?h) \<le>
       need (bufferOffset b + length ds + length (stringBytes m s))"
    by (auto intro!: need_mono simp: stringBytes_def)
  show ?thesis
  proof (cases ok1)
    case False
    then have "\<not> roomFor p b (length ds) (length (stringBytes m s))"
      using r(4) mono by (auto simp: roomFor_def stringBytes_def)
    then show ?thesis using True False r
      by (simp add: appends_def gmosFormatCborEncodeWithByteArray_def EncodeWithParameter_eq Let_def
          ex_bool_eq)
  next
    case ok1: True
    then have st1: "buf_state p1 b1 (ds @ ?h) R" using r(5) by simp
    obtain ok2 p2 b2 where q: "gmosBufferAppend p1 b1 s = Some (ok2, p2, b2)" "same_on R p1 p2"
      "mempoolUseHeap p2 = mempoolUseHeap p1"
      "ok2 \<longleftrightarrow> roomFor p1 b1 (length (ds @ ?h)) (length s)"
      "buf_state p2 b2 (if ok2 then (ds @ ?h) @ s else ds @ ?h) R"
      "\<not> mempoolUseHeap p1 \<longrightarrow> avail p2 = (if ok2 then avail p1 -
         (need (bufferOffset b1 + length (ds @ ?h) + length s) - need (bufferOffset b1 + length (ds @ ?h)))
       else avail p1)"
      unfolding roomFor_def by (rule gmosBufferAppend_ok [OF st1 sl]) blast
    have fits: "ok2 \<longleftrightarrow> roomFor p b (length ds) (length (stringBytes m s))" if "\<not> mempoolUseHeap p"
      using that q(4) r(4,6) ok1 mono Append_offset [OF r(1)]
      by (auto simp: roomFor_def stringBytes_def add.assoc)
    have off: "bufferOffset b1 = bufferOffset b" "ok2 \<Longrightarrow> bufferOffset b2 = bufferOffset b"
      using Append_offset [OF r(1)] Append_offset [OF q(1)] by simp_all
    have av: "ok2 \<Longrightarrow> \<not> mempoolUseHeap p \<Longrightarrow> avail p2 = avail p -
        (need (bufferOffset b + length ds + length (stringBytes m s)) - need (bufferOffset b + length ds))"
      using q(3,6) r(3,6) ok1 off(1) mono by (simp add: stringBytes_def add.assoc)
    show ?thesis
    proof (cases ok2)
      case True
      then show ?thesis using \<open>length s \<le> MAX_STRING\<close> ok1 r(1-3) q(1-3,5) fits off av
          same_on_trans [OF r(2) q(2)]
        by (simp add: appends_def gmosFormatCborEncodeWithByteArray_def EncodeWithParameter_eq
            stringBytes_def Let_def ex_bool_eq)
    next
      case False
      then have st2: "buf_state p2 b2 (ds @ ?h) R" using q(5) by simp
      have "length ds < 65536" using n by simp
      from gmosBufferResize_ok [OF st2 this] obtain ok3 p3 b3 where z:
        "gmosBufferResize p2 b2 (length ds) = Some (ok3, p3, b3)" "same_on R p2 p3"
        "mempoolUseHeap p3 = mempoolUseHeap p2"
        "ok3 \<longleftrightarrow> need (bufferOffset b2 + length ds) - need (bufferOffset b2 + length (ds @ ?h)) \<le> avail p2"
        "ok3 \<Longrightarrow> \<exists>junk. length junk = length ds - length (ds @ ?h) \<and>
           buf_state p3 b3 (take (length ds) (ds @ ?h) @ junk) R" by metis
      have "need (bufferOffset b2 + length ds) \<le> need (bufferOffset b2 + length (ds @ ?h))"
        by (rule need_mono) simp
      then have "ok3" using z(4) by simp
      from z(5) [OF this] have st3: "buf_state p3 b3 ds R" by auto
      have "same_on R p p3" using same_on_trans [OF r(2) same_on_trans [OF q(2) z(2)]] .
      then show ?thesis
        using \<open>length s \<le> MAX_STRING\<close> False ok1 r(1,3) q(1,3) z(1,3) st3 n fits
        by (simp add: appends_def gmosFormatCborEncodeWithByteArray_def EncodeWithParameter_eq
            gmosBufferGetSize_def Let_def ex_bool_eq)
    qed
  qed
qed

text \<open>The search for the terminator.\<close>

lemma charStringLength_eq:
  "n \<le> MAX_STRING + 1 \<Longrightarrow> 0 \<in> set s \<or> n + length s > MAX_STRING \<Longrightarrow>
     charStringLength n s = Some (min (MAX_STRING + 1) (n + length (takeWhile (\<lambda>c. c \<noteq> 0) s)))"
proof (induction s arbitrary: n)
  case Nil
  then have "n = MAX_STRING + 1" by simp
  then show ?case by simp
next
  case (Cons c s)
  show ?case
  proof (cases "n \<le> MAX_STRING")
    case False
    then have n: "n = MAX_STRING + 1" using Cons.prems(1) by simp
    then show ?thesis by simp
  next
    case True
    then show ?thesis using Cons.IH [of "n + 1"] Cons.prems by (auto simp: min_def)
  qed
qed

lemma ucast_byte: "(ucast (w :: 'a::len word) :: byte) = of_nat (unat w)"
  by simp

lemma ucast_drop_bit_byte:
  "(ucast (drop_bit k (w :: 'a::len word)) :: byte) = of_nat (unat w div 2 ^ k)"
  by (simp only: ucast_byte unat_drop_bit_eq, simp only: drop_bit_eq_div)

lemma sint_INT:
  "(let (type, param) =
      (if sint v \<ge> 0 then (majorByte INT_POS, nat (sint v)) else (majorByte INT_NEG, nat (- (sint v + 1))))
    in gmosFormatCborEncodeWithParameter p b type param) = gmosBufferAppend p b (intBytes (sint v))"
  by (simp add: EncodeWithParameter_eq intBytes_def)

lemma uint_INT:
  "gmosFormatCborEncodeWithParameter p b (majorByte INT_POS) (unat v) = gmosBufferAppend p b (intBytes (uint v))"
  by (simp add: EncodeWithParameter_eq intBytes_def)

lemma length_intBytes: "length (intBytes i) < 65536"
  using length_cborHead(1) [of INT_POS "nat i"] length_cborHead(1) [of INT_NEG "nat (- i - 1)"]
  by (auto simp: intBytes_def)

lemma initialByte_break: "initialByte SIMPLE 31 = 0xFF"
  by (simp add: initialByte_def)

lemmas encode_defs =
  gmosFormatCborEncodeNull_def gmosFormatCborEncodeUndefined_def gmosFormatCborEncodeBreakCode_def
  gmosFormatCborEncodeBool_def gmosFormatCborEncodeUint32_def gmosFormatCborEncodeInt32_def
  gmosFormatCborEncodeUint64_def gmosFormatCborEncodeInt64_def gmosFormatCborEncodeFloat32_def
  gmosFormatCborEncodeFloat64_def gmosFormatCborEncodeTextString_def gmosFormatCborEncodeByteString_def
  gmosFormatCborEncodeArray_def gmosFormatCborEncodeMap_def gmosFormatCborEncodeIndefArray_def
  gmosFormatCborEncodeIndefMap_def gmosFormatCborEncodeIndefBreak_def gmosFormatCborEncodeTag_def

lemma encodeCall_ok:
  assumes st: "buf_state p b ds R" and ok: "callOk c"
  shows "appends p b ds R (callBytes c) (callFits c) (encodeCall c p b)"
proof -
  note a = appends_Append [OF st] and i = appends_Append [OF st length_intBytes]
    and h = appends_EncodeWithParameter [OF st] and s = appends_EncodeWithByteArray [OF st]
  show ?thesis
  proof (cases c)
    case (CallCharString t)
    let ?n = "length (takeWhile (\<lambda>c. c \<noteq> 0) t)"
    have "charStringLength 0 t = Some (min (MAX_STRING + 1) ?n)"
      using ok CallCharString charStringLength_eq [of 0 t] by auto
    then have e: "encodeCall c p b =
        gmosFormatCborEncodeWithByteArray p b (majorByte STR_TEXT) (take (min (MAX_STRING + 1) ?n) t)"
      using CallCharString by (simp add: gmosFormatCborEncodeCharString_def)
    have tk: "take ?n t = takeWhile (\<lambda>c. c \<noteq> 0) t" by (metis takeWhile_eq_take)
    have le: "?n \<le> length t" by (rule length_takeWhile_le)
    show ?thesis
    proof (cases "?n \<le> MAX_STRING")
      case True
      then have "min (MAX_STRING + 1) ?n = ?n" by simp
      then show ?thesis using s [of STR_TEXT "takeWhile (\<lambda>c. c \<noteq> 0) t"] e tk CallCharString
        by (simp add: callFits_def)
    next
      case False
      then have l: "\<not> length (take (min (MAX_STRING + 1) ?n) t) \<le> MAX_STRING" using le by simp
      then have "encodeCall c p b = Some (False, p, b)"
        using e by (simp add: gmosFormatCborEncodeWithByteArray_def)
      then show ?thesis using False CallCharString st by (auto simp: callFits_def appends_def)
    qed
  next
    case (CallFloat32 v)
    have "encodeCall c p b = gmosBufferAppend p b (callBytes c)"
      unfolding CallFloat32 encodeCall.simps callBytes.simps gmosFormatCborEncodeFloat32_def
        ucast_drop_bit_byte by (simp add: beBytes_numeral)
    then show ?thesis using a [of "callBytes c"] CallFloat32 by (simp add: callFits_def)
  next
    case (CallFloat64 v)
    have "encodeCall c p b = gmosBufferAppend p b (callBytes c)"
      unfolding CallFloat64 encodeCall.simps callBytes.simps gmosFormatCborEncodeFloat64_def
        ucast_drop_bit_byte by (simp add: beBytes_numeral)
    then show ?thesis using a [of "callBytes c"] CallFloat64 by (simp add: callFits_def)
  qed (use a i h s in \<open>simp_all add: encode_defs callFits_def sint_INT uint_INT initialByte_break\<close>)
qed

subsection \<open>Values\<close>

text \<open>
  The data items that can be built with the encoder, and their encoding; the flag of an array or
  a map selects the indefinite-length form. The negative number \<open>CNInt n\<close> is \<open>- 1 - n\<close>.
\<close>

datatype cbor =
    CUInt "64 word" | CNInt "64 word" | CBytes "byte list" | CText "byte list"
  | CArray bool "cbor list" | CMap bool "(cbor \<times> cbor) list" | CTag "64 word" cbor
  | CNull | CUndefined | CBool bool | CFloat32 "32 word" | CFloat64 "64 word"

primrec cborEncode :: "cbor \<Rightarrow> byte list" where
  "cborEncode (CUInt n) = cborHead INT_POS (unat n)"
| "cborEncode (CNInt n) = cborHead INT_NEG (unat n)"
| "cborEncode (CBytes s) = cborHead STR_BYTE (length s) @ s"
| "cborEncode (CText s) = cborHead STR_TEXT (length s) @ s"
| "cborEncode (CArray indef vs) =
     (if indef then initialByte ARRAY 31 # concat (map cborEncode vs) @ [0xFF]
      else cborHead ARRAY (length vs) @ concat (map cborEncode vs))"
| "cborEncode (CMap indef kvs) =
     (if indef then initialByte MAP 31 #
        concat (map (\<lambda>(k, v). k @ v) (map (map_prod cborEncode cborEncode) kvs)) @ [0xFF]
      else cborHead MAP (length kvs) @
        concat (map (\<lambda>(k, v). k @ v) (map (map_prod cborEncode cborEncode) kvs)))"
| "cborEncode (CTag n v) = cborHead TAG (unat n) @ cborEncode v"
| "cborEncode CNull = [initialByte SIMPLE 22]"
| "cborEncode CUndefined = [initialByte SIMPLE 23]"
| "cborEncode (CBool b) = [initialByte SIMPLE (if b then 21 else 20)]"
| "cborEncode (CFloat32 w) = initialByte SIMPLE 26 # beBytes 4 (unat w)"
| "cborEncode (CFloat64 w) = initialByte SIMPLE 27 # beBytes 8 (unat w)"

text \<open>The calls an application makes to encode a value.\<close>

primrec encodeCalls :: "cbor \<Rightarrow> cborCall list" where
  "encodeCalls (CUInt n) = [CallUint64 n]"
| "encodeCalls (CNInt n) = [CallInt64 (not n)]"
| "encodeCalls (CBytes s) = [CallByteString s]"
| "encodeCalls (CText s) = [CallTextString s]"
| "encodeCalls (CArray indef vs) =
     (if indef then CallIndefArray # concat (map encodeCalls vs) @ [CallIndefBreak]
      else CallArray (length vs) # concat (map encodeCalls vs))"
| "encodeCalls (CMap indef kvs) =
     (if indef then CallIndefMap #
        concat (map (\<lambda>(k, v). k @ v) (map (map_prod encodeCalls encodeCalls) kvs)) @ [CallIndefBreak]
      else CallMap (length kvs) #
        concat (map (\<lambda>(k, v). k @ v) (map (map_prod encodeCalls encodeCalls) kvs)))"
| "encodeCalls (CTag n v) = CallTag n # encodeCalls v"
| "encodeCalls CNull = [CallNull]"
| "encodeCalls CUndefined = [CallUndefined]"
| "encodeCalls (CBool b) = [CallBool b]"
| "encodeCalls (CFloat32 w) = [CallFloat32 w]"
| "encodeCalls (CFloat64 w) = [CallFloat64 w]"

text \<open>Negative numbers below the range of \<open>int64_t\<close> have no encoding function.\<close>

primrec encodable :: "cbor \<Rightarrow> bool" where
  "encodable (CUInt n) = True"
| "encodable (CNInt n) = (unat n < 2 ^ 63)"
| "encodable (CBytes s) = (length s \<le> MAX_STRING)"
| "encodable (CText s) = (length s \<le> MAX_STRING)"
| "encodable (CArray indef vs) = list_all (\<lambda>x. x) (map encodable vs)"
| "encodable (CMap indef kvs) = list_all (\<lambda>(k, v). k \<and> v) (map (map_prod encodable encodable) kvs)"
| "encodable (CTag n v) = encodable v"
| "encodable CNull = True"
| "encodable CUndefined = True"
| "encodable (CBool b) = True"
| "encodable (CFloat32 w) = True"
| "encodable (CFloat64 w) = True"

text \<open>A run of calls that stops at the first one to fail.\<close>

primrec runCalls ::
    "cborCall list \<Rightarrow> mempool \<Rightarrow> gmosBuffer \<Rightarrow> (bool \<times> mempool \<times> gmosBuffer) option" where
  "runCalls [] p b = Some (True, p, b)"
| "runCalls (c # cs) p b = do {
     (ok, p, b) \<leftarrow> encodeCall c p b;
     if ok then runCalls cs p b else Some (False, p, b) }"

lemma sint_small_64: assumes u: "uint (n::64 word) < 2 ^ 63" shows "sint n = uint n"
proof -
  have l: "LENGTH(64) - Suc 0 = 63" by simp
  show ?thesis
    unfolding sint_uint l
  proof (rule signed_take_bit_int_eq_self)
    show "- (2 ^ 63) \<le> uint n" by (rule order_trans [OF _ uint_nonnegative]) simp
    show "uint n < 2 ^ 63" using u .
  qed
qed

lemma sint_not_64: assumes u: "uint (n::64 word) < 2 ^ 63" shows "sint (not n) = not (uint n)"
proof -
  have l: "LENGTH(64) = 64" by simp
  have "signed_take_bit 64 (not (uint n)) = not (uint n)"
  proof (rule signed_take_bit_int_eq_self)
    show "- (2 ^ 64) \<le> not (uint n)" using u by (simp add: not_int_def)
    have "- uint n - 1 \<le> 0" using uint_nonnegative [of n] by (simp only: diff_le_eq)
    then show "not (uint n) < 2 ^ 64" unfolding not_int_def by (rule order_le_less_trans) simp
  qed
  then show ?thesis using signed_not_eq [of n, where 'a = int] sint_small_64 [OF u] unfolding l by simp
qed

lemma intBytes_not:
  assumes "unat (n :: 64 word) < 2 ^ 63"
  shows "intBytes (sint (not n)) = cborHead INT_NEG (unat n)"
proof -
  have "int (unat n) < int (2 ^ 63)" using assms by (simp only: of_nat_less_iff)
  then have "uint n < 2 ^ 63" by simp
  then show ?thesis by (simp add: sint_not_64 intBytes_def not_int_def)
qed

lemma concat_map_pairs:
  "concat (map f (concat (map (\<lambda>(k, v). k @ v) (map (map_prod g g) kvs)))) =
     concat (map (\<lambda>(k, v). k @ v) (map (map_prod (concat \<circ> map f \<circ> g) (concat \<circ> map f \<circ> g)) kvs))"
  by (induction kvs) auto

lemma callBytes_encodeCalls:
  "encodable v \<Longrightarrow> concat (map callBytes (encodeCalls v)) = cborEncode v"
proof (induction v)
  case (CArray indef vs)
  have "concat (map callBytes (concat (map encodeCalls vs))) = concat (map cborEncode vs)"
    using CArray by (induction vs) auto
  then show ?case by simp
next
  case (CMap indef kvs)
  have "map (map_prod (concat \<circ> map callBytes \<circ> encodeCalls) (concat \<circ> map callBytes \<circ> encodeCalls)) kvs =
      map (map_prod cborEncode cborEncode) kvs"
  proof (rule map_cong [OF refl])
    fix x
    assume x: "x \<in> set kvs"
    obtain k v where kv: "x = (k, v)" by (cases x)
    have "encodable k" "encodable v" using CMap.prems x kv by (auto simp: list_all_iff)
    then have "concat (map callBytes (encodeCalls k)) = cborEncode k"
      "concat (map callBytes (encodeCalls v)) = cborEncode v"
      using CMap.IH [OF x] kv by auto
    then show "map_prod (concat \<circ> map callBytes \<circ> encodeCalls) (concat \<circ> map callBytes \<circ> encodeCalls) x =
        map_prod cborEncode cborEncode x" using kv by simp
  qed
  then have "concat (map callBytes (concat (map (\<lambda>(k, v). k @ v) (map (map_prod encodeCalls encodeCalls) kvs)))) =
      concat (map (\<lambda>(k, v). k @ v) (map (map_prod cborEncode cborEncode) kvs))"
    unfolding concat_map_pairs by (rule arg_cong)
  then show ?case by (simp del: map_map)
next
  case (CNInt n)
  then show ?case using intBytes_not [of n] by simp
qed (auto simp: stringBytes_def intBytes_def)

lemma encodeCalls_ok:
  "encodable v \<Longrightarrow> c \<in> set (encodeCalls v) \<Longrightarrow> callOk c \<and> callFits c"
proof (induction v arbitrary: c)
  case (CArray indef vs)
  then show ?case by (auto simp: callFits_def list_all_iff split: if_splits)
next
  case (CMap indef kvs)
  then show ?case by (fastforce simp: callFits_def list_all_iff split: if_splits)
qed (auto simp: callFits_def)


text \<open>
  A run of calls leaves the encodings of the calls that succeeded; in a static pool with enough
  memory all do.
\<close>

lemma runCalls_ok:
  assumes "buf_state p b ds R" "\<forall>c\<in>set cs. callOk c \<and> callFits c"
  shows "\<exists>ok p' b'. runCalls cs p b = Some (ok, p', b') \<and> same_on R p p' \<and>
    (\<exists>k\<le>length cs. (ok \<longrightarrow> k = length cs) \<and>
       buf_state p' b' (ds @ concat (map callBytes (take k cs))) R) \<and>
    (\<not> mempoolUseHeap p \<longrightarrow> roomFor p b (length ds) (length (concat (map callBytes cs))) \<longrightarrow> ok)"
  using assms
proof (induction cs arbitrary: p b ds)
  case Nil
  then show ?case by (auto simp: ex_bool_eq)
next
  case (Cons c cs)
  then have c: "callOk c" "callFits c" by auto
  obtain ok p1 b1 where r: "encodeCall c p b = Some (ok, p1, b1)" "same_on R p p1"
    "mempoolUseHeap p1 = mempoolUseHeap p" "buf_state p1 b1 (if ok then ds @ callBytes c else ds) R"
    "\<not> mempoolUseHeap p \<longrightarrow> ok = roomFor p b (length ds) (length (callBytes c))"
    "ok \<longrightarrow> bufferOffset b1 = bufferOffset b \<and> (\<not> mempoolUseHeap p \<longrightarrow> avail p1 = avail p -
       (need (bufferOffset b + length ds + length (callBytes c)) - need (bufferOffset b + length ds)))"
    using encodeCall_ok [OF Cons.prems(1) c(1)] c(2) by (auto simp: appends_def)
  let ?l1 = "length (callBytes c)" and ?l2 = "length (concat (map callBytes cs))"
  have mono: "need (bufferOffset b + length ds) \<le> need (bufferOffset b + length ds + ?l1)"
    "need (bufferOffset b + length ds + ?l1) \<le> need (bufferOffset b + length ds + (?l1 + ?l2))"
    by (auto intro!: need_mono)
  show ?case
  proof (cases ok)
    case False
    have "\<not> roomFor p b (length ds) (?l1 + ?l2)" if "\<not> mempoolUseHeap p"
      using that r(5) False mono by (auto simp: roomFor_def)
    then show ?thesis using False r(1,2,4)
      by (auto simp: ex_bool_eq intro!: exI [of _ 0])
  next
    case True
    then have st1: "buf_state p1 b1 (ds @ callBytes c) R" using r(4) by simp
    have cs: "\<forall>c\<in>set cs. callOk c \<and> callFits c" using Cons.prems(2) by simp
    from Cons.IH [OF st1 cs] obtain ok' p2 b2 k where q: "runCalls cs p1 b1 = Some (ok', p2, b2)"
      "same_on R p1 p2" "k \<le> length cs" "ok' \<longrightarrow> k = length cs"
      "buf_state p2 b2 ((ds @ callBytes c) @ concat (map callBytes (take k cs))) R"
      "\<not> mempoolUseHeap p1 \<longrightarrow> roomFor p1 b1 (length (ds @ callBytes c)) ?l2 \<longrightarrow> ok'" by blast
    have "roomFor p1 b1 (length (ds @ callBytes c)) ?l2"
      if "\<not> mempoolUseHeap p" "roomFor p b (length ds) (?l1 + ?l2)"
      using that r(6) True mono by (auto simp: roomFor_def add.assoc)
    then have "\<not> mempoolUseHeap p \<longrightarrow> roomFor p b (length ds) (?l1 + ?l2) \<longrightarrow> ok'"
      using q(6) r(3) by simp
    then show ?thesis
      using True r(1) same_on_trans [OF r(2) q(2)] q(1,3-5)
      by (intro exI [of _ ok'] exI [of _ p2] exI [of _ b2]) (auto intro!: exI [of _ "Suc k"])
  qed
qed

subsection \<open>Properties\<close>

text \<open>
  C9: Every encoding function appends exactly the bytes RFC 8949 prescribes for its argument,
  in the shortest form, or leaves the buffer's contents as they were, also when memory runs out
  between the head and the body of a string. In a static pool it succeeds exactly when a string
  is not too long and the bytes fit into the buffer and the free segments. Other clients of the
  pool are not affected.
\<close>

theorem cbor_encode_call:
  assumes "buf_state p b ds R" "callOk c"
  shows "\<exists>ok p' b'. encodeCall c p b = Some (ok, p', b') \<and>
    buf_state p' b' (if ok then ds @ callBytes c else ds) R \<and> same_on R p p' \<and>
    (ok \<longrightarrow> callFits c) \<and>
    (\<not> mempoolUseHeap p \<longrightarrow> ok = (callFits c \<and> roomFor p b (length ds) (length (callBytes c))))"
  using encodeCall_ok [OF assms] unfolding appends_def by blast

theorem cbor_encode_call_witness:
  "\<exists>p b R p' b'. buf_state p b [4, 5] R \<and>
     encodeCall (CallInt32 (- 500)) p b = Some (True, p', b') \<and>
     buf_state p' b' [4, 5, 0x39, 0x01, 0xF3] R"
proof -
  obtain p b R where st: "buf_state p b [4, 5] R" "\<not> mempoolUseHeap p" "avail p = 62" by (rule boot_buf)
  have s: "sint (- 500 :: 32 word) = - 500" by simp
  have c: "callBytes (CallInt32 (- 500)) = [0x39, 0x01, 0xF3]"
    by (simp add: s intBytes_def cborHead_def beBytes_numeral initialByte_def)
  have l: "length [4, 5 :: byte] = 2" "length [x, y, z :: byte] = 3" for x y z by simp_all
  have "need (bufferOffset b + 2 + 3) \<le> need (bufferOffset b + 2) + 1"
    by (simp add: need_def GMOS_CONFIG_MEMPOOL_SEGMENT_SIZE_def)
  then have "roomFor p b (length [4, 5 :: byte]) (length (callBytes (CallInt32 (- 500))))"
    using st(3) unfolding roomFor_def c l by linarith
  moreover have "callFits (CallInt32 (- 500))" by (simp add: callFits_def)
  moreover have "callOk (CallInt32 (- 500))" by simp
  from cbor_encode_call [OF st(1) this] obtain ok p' b' where
    "encodeCall (CallInt32 (- 500)) p b = Some (ok, p', b')"
    "buf_state p' b' (if ok then [4, 5] @ callBytes (CallInt32 (- 500)) else [4, 5]) R"
    "\<not> mempoolUseHeap p \<longrightarrow> ok = (callFits (CallInt32 (- 500)) \<and>
      roomFor p b (length [4, 5 :: byte]) (length (callBytes (CallInt32 (- 500)))))"
    by - (elim exE conjE, rule that)
  ultimately have "encodeCall (CallInt32 (- 500)) p b = Some (True, p', b')"
    "buf_state p' b' ([4, 5] @ callBytes (CallInt32 (- 500))) R" using st(2) by (simp_all only: if_True simp_thms)
  then show ?thesis using st(1) unfolding c append.simps by blast
qed

text \<open>
  C10: Encoding a value call by call, depth first, produces the encoding of the value: arrays,
  maps and tags nest, in the definite and in the indefinite form. In a static pool with room for
  it every call succeeds.
\<close>

theorem cbor_encode_value:
  assumes "buf_state p b ds R" "encodable v" "\<not> mempoolUseHeap p"
    and "roomFor p b (length ds) (length (cborEncode v))"
  shows "\<exists>p' b'. runCalls (encodeCalls v) p b = Some (True, p', b') \<and>
    buf_state p' b' (ds @ cborEncode v) R \<and> same_on R p p'"
proof -
  have c: "\<forall>c\<in>set (encodeCalls v). callOk c \<and> callFits c" using encodeCalls_ok [OF assms(2)] by blast
  from runCalls_ok [OF assms(1) c] assms(3,4) show ?thesis
    unfolding callBytes_encodeCalls [OF assms(2)] by (fastforce simp: callBytes_encodeCalls [OF assms(2)])
qed

theorem cbor_encode_value_witness:
  "\<exists>p b R p' b'. runCalls (encodeCalls (CArray False [CUInt 1, CBool True])) p b = Some (True, p', b') \<and>
     buf_state p' b' [4, 5, 0x82, 0x01, 0xF5] R"
proof -
  obtain p b R where st: "buf_state p b [4, 5] R" "\<not> mempoolUseHeap p" "avail p = 62" by (rule boot_buf)
  have c: "cborEncode (CArray False [CUInt 1, CBool True]) = [0x82, 0x01, 0xF5]"
    by (simp add: cborHead_def initialByte_def)
  have l: "length [4, 5 :: byte] = 2" "length [x, y, z :: byte] = 3" for x y z by simp_all
  have "need (bufferOffset b + 2 + 3) \<le> need (bufferOffset b + 2) + 1"
    by (simp add: need_def GMOS_CONFIG_MEMPOOL_SEGMENT_SIZE_def)
  then have "roomFor p b (length [4, 5 :: byte]) (length (cborEncode (CArray False [CUInt 1, CBool True])))"
    using st(3) unfolding roomFor_def c l by linarith
  moreover have "encodable (CArray False [CUInt 1, CBool True])" by simp
  ultimately obtain p' b' where
    "runCalls (encodeCalls (CArray False [CUInt 1, CBool True])) p b = Some (True, p', b')"
    "buf_state p' b' ([4, 5] @ cborEncode (CArray False [CUInt 1, CBool True])) R"
    using cbor_encode_value [OF st(1) _ st(2)] by metis
  then show ?thesis unfolding c append.simps by blast
qed

end
