(* ===== verification/Gmos_Cbor_Scan.thy ===== *)
theory Gmos_Cbor_Scan
  imports Gmos_Cbor_Enc
begin

text \<open>
  The scanner of the CBOR parser in common/src/gmos-format-cbor-dec.c: it walks over a message
  and leaves one token per data item in the parser's token buffer, nested items behind the item
  that holds them.

  A parser is the pair of the message buffer and the token buffer. The scanning functions return
  the new token offset, zero for failure; the pointer \<open>breakDetect\<close> is a flag that says
  whether it is null, and the value written through it is part of the result. The mutual
  recursion of the code, which its argument \<open>scanDepth\<close> bounds, is a primitive recursion on
  that argument: a container function gets the scanner for the next depth, or \<open>None\<close> when the
  depth is used up. A token is stored as the 16 bytes of its structure, the padding as zeros.

  The specification is the inductive predicate \<open>cborItem\<close> over byte lists, which describes the
  data items that are well-formed by RFC 8949 and within the limits of the parser, together with
  their tokens. The code also takes some items that are not well-formed: the predicate
  \<open>scanItem\<close> is exactly what it takes, and \<open>scanItem_strict\<close> shows that the two differ only in
  items with a token that is not \<open>strictToken\<close>.
\<close>

subsection \<open>State\<close>

record cborToken =
  typeParam :: nat
  baseOffset :: nat
  tokenCount :: nat
  typeSpecifier :: byte

record cborParser =
  messageBuffer :: gmosBuffer
  tokenBuffer :: gmosBuffer

definition tokenBytes :: "cborToken \<Rightarrow> byte list" where
  "tokenBytes t =
     leBytes 8 (typeParam t) @ leBytes 2 (baseOffset t) @ leBytes 2 (tokenCount t) @
     [typeSpecifier t, 0, 0, 0]"

definition bytesToken :: "byte list \<Rightarrow> cborToken" where
  "bytesToken bs =
     \<lparr>typeParam = leNat (take 8 bs), baseOffset = leNat (take 2 (drop 8 bs)),
      tokenCount = leNat (take 2 (drop 10 bs)), typeSpecifier = bs ! 12\<rparr>"

subsection \<open>Heads\<close>

definition gmosFormatCborGetDataOffset :: "cborToken \<Rightarrow> nat" where
  "gmosFormatCborGetDataOffset token =
     (let additionalInfo = unat (and (typeSpecifier token) 0x1F);
          offsetIncrement =
            (if additionalInfo \<ge> 24 \<and> additionalInfo \<le> 27
             then [2, 3, 5, 9] ! (additionalInfo - 24) else 1)
      in baseOffset token + offsetIncrement)"

text \<open>The shift-and-add sequence over the bytes of a parameter, in network order.\<close>

definition shiftIn :: "byte list \<Rightarrow> nat" where
  "shiftIn dataBytes = foldl (\<lambda>typeParam b. typeParam * 2 ^ 8 + unat b) 0 dataBytes"

definition gmosFormatCborDecodeWithParameter ::
    "mempool \<Rightarrow> gmosBuffer \<Rightarrow> nat \<Rightarrow> cborToken option option" where
  "gmosFormatCborDecodeWithParameter p buffer sourceOffset = do {
     r \<leftarrow> gmosBufferRead p buffer (u16 sourceOffset) 1;
     (case r of
        None \<Rightarrow> Some None
      | Some bs \<Rightarrow>
          (let firstByte = hd bs;
               additionalInfo = unat (and firstByte 0x1F);
               token = \<lambda>param. \<lparr>typeParam = param, baseOffset = u16 sourceOffset, tokenCount = 1,
                          typeSpecifier = firstByte\<rparr>;
               readParam = \<lambda>n. do {
                 r \<leftarrow> gmosBufferRead p buffer (u16 (sourceOffset + 1)) n;
                 Some (map_option (\<lambda>dataBytes. token (shiftIn dataBytes)) r) }
           in if additionalInfo < 24 then Some (Some (token additionalInfo))
              else if additionalInfo = 24 then readParam 1
              else if additionalInfo = 25 then readParam 2
              else if additionalInfo = 26 then readParam 4
              else if additionalInfo = 27 then readParam 8
              else if additionalInfo = 31 then Some (Some (token 0))
              else Some None)) }"

subsection \<open>Scanning\<close>

type_synonym scanState = "mempool \<times> cborParser"
type_synonym scanner = "bool \<Rightarrow> nat \<Rightarrow> scanState \<Rightarrow> (nat \<times> bool \<times> scanState) option"

definition appendToken :: "cborToken \<Rightarrow> scanState \<Rightarrow> (bool \<times> scanState) option" where
  "appendToken token s =
     (case s of (p, parser) \<Rightarrow> do {
        (ok, p, b) \<leftarrow> gmosBufferAppend p (tokenBuffer parser) (tokenBytes token);
        Some (ok, p, parser\<lparr>tokenBuffer := b\<rparr>) })"

text \<open>The end of a container: the token is written again with the number of enclosed tokens.\<close>

definition closeToken ::
    "cborToken \<Rightarrow> nat \<Rightarrow> nat \<Rightarrow> scanState \<Rightarrow> (nat \<times> scanState) option" where
  "closeToken token tokenLocation newTokenOffset s =
     (case s of (p, parser) \<Rightarrow>
        (let token = token\<lparr>tokenCount :=
               u16 (sub32 (gmosBufferGetSize (tokenBuffer parser)) tokenLocation div 16)\<rparr>
         in do {
           (ok, p) \<leftarrow> gmosBufferWrite p (tokenBuffer parser) tokenLocation (tokenBytes token);
           Some (if ok then newTokenOffset else 0, p, parser) }))"

text \<open>The loop over a known number of items.\<close>

primrec scanItems :: "scanner \<Rightarrow> nat \<Rightarrow> nat \<Rightarrow> scanState \<Rightarrow> (nat \<times> scanState) option" where
  "scanItems scan 0 newTokenOffset s = Some (newTokenOffset, s)"
| "scanItems scan (Suc n) newTokenOffset s = do {
     (newTokenOffset, _, s) \<leftarrow> scan False newTokenOffset s;
     if newTokenOffset = 0 then Some (0, s) else scanItems scan n newTokenOffset s }"

definition gmosFormatCborParserScanFixedArray ::
    "scanner option \<Rightarrow> cborToken \<Rightarrow> scanState \<Rightarrow> (nat \<times> scanState) option" where
  "gmosFormatCborParserScanFixedArray next token s =
     (case next of
        None \<Rightarrow> Some (0, s)
      | Some scan \<Rightarrow>
          if typeParam token \<le> MAX_ARRAY
          then do {
            let arraySize = u32 (typeParam token);
            let tokenLocation = gmosBufferGetSize (tokenBuffer (snd s));
            (ok, s) \<leftarrow> appendToken token s;
            if \<not> ok then Some (0, s)
            else do {
              (newTokenOffset, s) \<leftarrow> scanItems scan arraySize (gmosFormatCborGetDataOffset token) s;
              if newTokenOffset = 0 then Some (0, s)
              else closeToken token tokenLocation newTokenOffset s } }
          else Some (0, s))"

text \<open>The result of the loop includes the number of items found.\<close>

function scanIndefArrayLoop ::
    "scanner \<Rightarrow> nat \<Rightarrow> nat \<Rightarrow> scanState \<Rightarrow> (nat \<times> nat \<times> scanState) option" where
  "scanIndefArrayLoop scan arraySize newTokenOffset s = do {
     (newTokenOffset, breakDetect, s) \<leftarrow> scan True newTokenOffset s;
     if newTokenOffset = 0 then Some (0, arraySize, s)
     else if breakDetect then Some (newTokenOffset, arraySize, s)
     else if arraySize \<ge> MAX_ARRAY then Some (0, arraySize, s)
     else scanIndefArrayLoop scan (arraySize + 1) newTokenOffset s }"
  by pat_completeness auto
termination
  by (relation "measure (\<lambda>(scan, arraySize, newTokenOffset, s). MAX_ARRAY - arraySize)") auto

definition gmosFormatCborParserScanIndefArray ::
    "scanner option \<Rightarrow> cborToken \<Rightarrow> scanState \<Rightarrow> (nat \<times> scanState) option" where
  "gmosFormatCborParserScanIndefArray next token s =
     (case next of
        None \<Rightarrow> Some (0, s)
      | Some scan \<Rightarrow> do {
          let tokenLocation = gmosBufferGetSize (tokenBuffer (snd s));
          (ok, s) \<leftarrow> appendToken token s;
          if \<not> ok then Some (0, s)
          else do {
            (newTokenOffset, arraySize, s) \<leftarrow>
              scanIndefArrayLoop scan 0 (gmosFormatCborGetDataOffset token) s;
            if newTokenOffset = 0 then Some (0, s)
            else closeToken (token\<lparr>typeParam := arraySize\<rparr>) tokenLocation newTokenOffset s } })"

definition gmosFormatCborParserScanFixedMap ::
    "scanner option \<Rightarrow> cborToken \<Rightarrow> scanState \<Rightarrow> (nat \<times> scanState) option" where
  "gmosFormatCborParserScanFixedMap next token s =
     (case next of
        None \<Rightarrow> Some (0, s)
      | Some scan \<Rightarrow>
          if typeParam token \<le> MAX_MAP
          then do {
            let mapSize = u32 (typeParam token);
            let tokenLocation = gmosBufferGetSize (tokenBuffer (snd s));
            (ok, s) \<leftarrow> appendToken token s;
            if \<not> ok then Some (0, s)
            else do {
              (newTokenOffset, s) \<leftarrow> scanItems scan (2 * mapSize) (gmosFormatCborGetDataOffset token) s;
              if newTokenOffset = 0 then Some (0, s)
              else closeToken token tokenLocation newTokenOffset s } }
          else Some (0, s))"

function scanIndefMapLoop ::
    "scanner \<Rightarrow> nat \<Rightarrow> nat \<Rightarrow> scanState \<Rightarrow> (nat \<times> nat \<times> scanState) option" where
  "scanIndefMapLoop scan mapSize newTokenOffset s = do {
     (newTokenOffset, breakDetect, s) \<leftarrow> scan True newTokenOffset s;
     if newTokenOffset = 0 then Some (0, mapSize, s)
     else if breakDetect then Some (newTokenOffset, mapSize, s)
     else if mapSize \<ge> MAX_MAP then Some (0, mapSize, s)
     else do {
       (newTokenOffset, _, s) \<leftarrow> scan False newTokenOffset s;
       if newTokenOffset = 0 then Some (0, mapSize + 1, s)
       else scanIndefMapLoop scan (mapSize + 1) newTokenOffset s } }"
  by pat_completeness auto
termination
  by (relation "measure (\<lambda>(scan, mapSize, newTokenOffset, s). MAX_MAP - mapSize)") auto

declare scanIndefArrayLoop.simps [simp del] scanIndefMapLoop.simps [simp del]

definition gmosFormatCborParserScanIndefMap ::
    "scanner option \<Rightarrow> cborToken \<Rightarrow> scanState \<Rightarrow> (nat \<times> scanState) option" where
  "gmosFormatCborParserScanIndefMap next token s =
     (case next of
        None \<Rightarrow> Some (0, s)
      | Some scan \<Rightarrow> do {
          let tokenLocation = gmosBufferGetSize (tokenBuffer (snd s));
          (ok, s) \<leftarrow> appendToken token s;
          if \<not> ok then Some (0, s)
          else do {
            (newTokenOffset, mapSize, s) \<leftarrow>
              scanIndefMapLoop scan 0 (gmosFormatCborGetDataOffset token) s;
            if newTokenOffset = 0 then Some (0, s)
            else closeToken (token\<lparr>typeParam := mapSize\<rparr>) tokenLocation newTokenOffset s } })"

definition gmosFormatCborParserScanFixedString ::
    "cborToken \<Rightarrow> scanState \<Rightarrow> (nat \<times> scanState) option" where
  "gmosFormatCborParserScanFixedString token s =
     (let newTokenOffset = u32 (gmosFormatCborGetDataOffset token + typeParam token) in
      if newTokenOffset > gmosBufferGetSize (messageBuffer (snd s)) then Some (0, s)
      else do {
        (ok, s) \<leftarrow> appendToken token s;
        Some (if ok then newTokenOffset else 0, s) })"

text \<open>
  The token of a tag is closed even when the tagged item could not be scanned; the offset stays
  zero then.
\<close>

definition gmosFormatCborParserScanTag ::
    "scanner option \<Rightarrow> cborToken \<Rightarrow> scanState \<Rightarrow> (nat \<times> scanState) option" where
  "gmosFormatCborParserScanTag next token s =
     (case next of
        None \<Rightarrow> Some (0, s)
      | Some scan \<Rightarrow> do {
          let tokenLocation = gmosBufferGetSize (tokenBuffer (snd s));
          (ok, s) \<leftarrow> appendToken token s;
          if \<not> ok then Some (0, s)
          else do {
            (newTokenOffset, _, s) \<leftarrow> scan False (gmosFormatCborGetDataOffset token) s;
            closeToken token tokenLocation newTokenOffset s } })"

definition scanToken :: "scanner option \<Rightarrow> scanner" where
  "scanToken next breakDetect tokenOffset s = do {
     r \<leftarrow> gmosFormatCborDecodeWithParameter (fst s) (messageBuffer (snd s)) tokenOffset;
     (case r of
        None \<Rightarrow> Some (0, False, s)
      | Some token \<Rightarrow>
          (let major = and (typeSpecifier token) 0xE0;
               indef = (and (typeSpecifier token) 0x1F = 31);
               noBreak = map_option (\<lambda>(newTokenOffset, s). (newTokenOffset, False, s))
           in if major = majorByte ARRAY
              then noBreak (if indef then gmosFormatCborParserScanIndefArray next token s
                            else gmosFormatCborParserScanFixedArray next token s)
              else if major = majorByte MAP
              then noBreak (if indef then gmosFormatCborParserScanIndefMap next token s
                            else gmosFormatCborParserScanFixedMap next token s)
              else if major = majorByte STR_BYTE \<or> major = majorByte STR_TEXT
              then (if \<not> indef then noBreak (gmosFormatCborParserScanFixedString token s)
                    else Some (0, False, s))
              else if major = majorByte INT_POS \<or> major = majorByte INT_NEG
              then do {
                (ok, s) \<leftarrow> appendToken token s;
                Some (if ok then gmosFormatCborGetDataOffset token else 0, False, s) }
              else if major = majorByte TAG
              then noBreak (gmosFormatCborParserScanTag next token s)
              else if typeSpecifier token = 0xFF
              then (if breakDetect then Some (gmosFormatCborGetDataOffset token, True, s)
                    else Some (0, False, s))
              else do {
                (ok, s) \<leftarrow> appendToken token s;
                Some (if ok then gmosFormatCborGetDataOffset token else 0, False, s) })) }"

primrec gmosFormatCborParserScanNextToken :: "nat \<Rightarrow> scanner" where
  "gmosFormatCborParserScanNextToken 0 = scanToken None"
| "gmosFormatCborParserScanNextToken (Suc scanDepth) =
     scanToken (Some (gmosFormatCborParserScanNextToken scanDepth))"

text \<open>The results are the return value, the pool, the parser and the source buffer.\<close>

definition gmosFormatCborParserScan ::
    "mempool \<Rightarrow> gmosBuffer \<Rightarrow> nat \<Rightarrow> (bool \<times> mempool \<times> cborParser \<times> gmosBuffer) option" where
  "gmosFormatCborParserScan p buffer maxScanDepth = do {
     (p, buffer, message) \<leftarrow> gmosBufferMove p buffer gmosBufferInit;
     (nextTokenOffset, _, p, parser) \<leftarrow>
       gmosFormatCborParserScanNextToken maxScanDepth False 0
         (p, \<lparr>messageBuffer = message, tokenBuffer = gmosBufferInit\<rparr>);
     if nextTokenOffset \<noteq> 0 \<and> nextTokenOffset = gmosBufferGetSize (messageBuffer parser)
     then Some (True, p, parser, buffer)
     else do {
       (p, message, buffer) \<leftarrow> gmosBufferMove p (messageBuffer parser) buffer;
       (_, p, tokens) \<leftarrow> gmosBufferReset p (tokenBuffer parser) 0;
       Some (False, p, \<lparr>messageBuffer = message, tokenBuffer = tokens\<rparr>, buffer) } }"

definition gmosFormatCborParserReset ::
    "mempool \<Rightarrow> cborParser \<Rightarrow> (mempool \<times> cborParser) option" where
  "gmosFormatCborParserReset p parser = do {
     (_, p, message) \<leftarrow> gmosBufferReset p (messageBuffer parser) 0;
     (_, p, tokens) \<leftarrow> gmosBufferReset p (tokenBuffer parser) 0;
     Some (p, \<lparr>messageBuffer = message, tokenBuffer = tokens\<rparr>) }"

subsection \<open>Tokens\<close>

definition token_ok :: "cborToken \<Rightarrow> bool" where
  "token_ok t \<longleftrightarrow> typeParam t < 2 ^ 64 \<and> baseOffset t < 65536 \<and> tokenCount t < 65536"

lemma length_tokenBytes [simp]: "length (tokenBytes t) = 16"
  by (simp add: tokenBytes_def)

lemma bytesToken_tokenBytes: "token_ok t \<Longrightarrow> bytesToken (tokenBytes t) = t"
  by (cases t) (simp add: token_ok_def bytesToken_def tokenBytes_def leNat_leBytes nth_append)

definition toksBytes :: "cborToken list \<Rightarrow> byte list" where
  "toksBytes ts = concat (map tokenBytes ts)"

lemma toksBytes_simps [simp]:
  "toksBytes [] = []" "toksBytes (t # ts) = tokenBytes t @ toksBytes ts"
  "toksBytes (us @ ts) = toksBytes us @ toksBytes ts"
  by (simp_all add: toksBytes_def)

lemma length_toksBytes [simp]: "length (toksBytes ts) = 16 * length ts"
  by (induction ts) auto

lemma toksBytes_nth: "i < length ts \<Longrightarrow> take 16 (drop (16 * i) (toksBytes ts)) = tokenBytes (ts ! i)"
proof (induction ts arbitrary: i)
  case (Cons t ts)
  then show ?case by (cases i) simp_all
qed simp

lemma toksBytes_update:
  "splice (16 * length pre) (tokenBytes t) (toksBytes (pre @ u # ts)) = toksBytes (pre @ t # ts)"
  by (simp add: splice_append_right splice_def)

subsection \<open>Heads in a message\<close>

definition headAt :: "byte list \<Rightarrow> nat \<Rightarrow> cborToken option" where
  "headAt msg off =
     (if off < length msg
      then (let b = msg ! off; info = unat (and b 0x1F);
                token = \<lambda>param. \<lparr>typeParam = param, baseOffset = off, tokenCount = 1, typeSpecifier = b\<rparr>;
                param = \<lambda>n. if off + 1 + n \<le> length msg
                             then Some (token (shiftIn (take n (drop (off + 1) msg)))) else None
            in if info < 24 then Some (token info)
               else if info = 24 then param 1 else if info = 25 then param 2
               else if info = 26 then param 4 else if info = 27 then param 8
               else if info = 31 then Some (token 0) else None)
      else None)"

lemma DecodeWithParameter_ok:
  assumes st: "buf_state p b msg R" and off: "off < 65536"
  shows "gmosFormatCborDecodeWithParameter p b off = Some (headAt msg off)"
proof -
  have len: "length msg < 65536" using buf_state_size [OF st] by simp
  have u: "u16 off = off" using off by simp
  show ?thesis
  proof (cases "off < length msg")
    case False
    then show ?thesis
      by (simp add: gmosFormatCborDecodeWithParameter_def headAt_def u gmosBufferRead_ok [OF st])
  next
    case True
    then have u1: "u16 (off + 1) = off + 1" using len by simp
    have "take 1 (drop off msg) = [msg ! off]"
      using True by (subst Cons_nth_drop_Suc [symmetric]) simp_all
    then have r: "gmosBufferRead p b off 1 = Some (Some [msg ! off])"
      using True by (simp add: gmosBufferRead_ok [OF st] Suc_le_eq)
    have rd: "gmosBufferRead p b (u16 (off + 1)) n =
        Some (if off + 1 + n \<le> length msg then Some (take n (drop (off + 1) msg)) else None)" for n
      by (simp only: u1 gmosBufferRead_ok [OF st])
    show ?thesis
      unfolding gmosFormatCborDecodeWithParameter_def headAt_def rd u r Let_def
      by (simp only: True if_True Option.bind.simps option.case list.sel) (simp split: if_split)
  qed
qed

lemma foldl_shiftIn: "foldl (\<lambda>a b. a * 256 + unat b) a bs < (a + 1) * 256 ^ length (bs :: byte list)"
proof (induction bs arbitrary: a)
  case (Cons b bs)
  have "unat b < 256" using unsigned_less [of b] by simp
  then have "(a * 256 + unat b + 1) * 256 ^ length bs \<le> (a + 1) * 256 * 256 ^ length bs"
    by (intro mult_le_mono) auto
  with Cons.IH [of "a * 256 + unat b"]
  have "foldl (\<lambda>a b. a * 256 + unat b) (a * 256 + unat b) bs < (a + 1) * 256 * 256 ^ length bs"
    by (rule order_less_le_trans)
  then show ?case by (simp only: foldl.simps list.size power_Suc mult.assoc add_Suc_right add_0_right)
qed simp

lemma shiftIn_less: "shiftIn bs < 256 ^ length bs"
  using foldl_shiftIn [of 0 bs] by (simp add: shiftIn_def)

lemma headAt_ok:
  assumes h: "headAt msg off = Some t" and len: "length msg < 65536"
  shows "token_ok t" "baseOffset t = off" "off < length msg" "typeSpecifier t = msg ! off"
    "gmosFormatCborGetDataOffset t \<le> length msg" "off < gmosFormatCborGetDataOffset t"
    "tokenCount t = 1"
proof -
  show off: "off < length msg" "baseOffset t = off" "typeSpecifier t = msg ! off" "tokenCount t = 1"
    using h by (auto simp: headAt_def Let_def split: if_splits)
  have "shiftIn (take n (drop (off + 1) msg)) < 2 ^ 64" if "n \<le> 8" for n
  proof -
    have "(256 :: nat) ^ length (take n (drop (off + 1) msg)) \<le> 256 ^ 8"
      by (rule power_increasing) (use that in auto)
    then show ?thesis using shiftIn_less [of "take n (drop (off + 1) msg)"] by simp
  qed
  from this [of 1] this [of 2] this [of 4] this [of 8] show "token_ok t"
    using h len by (auto simp: headAt_def token_ok_def Let_def split: if_splits)
  show "gmosFormatCborGetDataOffset t \<le> length msg" "off < gmosFormatCborGetDataOffset t"
    using h by (auto simp: headAt_def gmosFormatCborGetDataOffset_def Let_def split: if_splits)
qed

subsection \<open>Which messages are accepted\<close>

text \<open>
  What the scanner takes: \<open>scanItem msg d off ts off'\<close> says that it takes an item that starts
  at offset \<open>off\<close> of the message and ends before \<open>off'\<close>, that nests at most \<open>d\<close> levels
  deep, and that has the tokens \<open>ts\<close>; \<open>scanSeq\<close> is a sequence of \<open>n\<close> such items.
\<close>

definition dataOff :: "cborToken \<Rightarrow> nat" where
  "dataOff t = gmosFormatCborGetDataOffset t"

definition majorOf :: "cborToken \<Rightarrow> byte" where
  "majorOf t = and (typeSpecifier t) 0xE0"

definition indefinite :: "cborToken \<Rightarrow> bool" where
  "indefinite t \<longleftrightarrow> and (typeSpecifier t) 0x1F = 31"

definition closed :: "cborToken \<Rightarrow> cborToken list \<Rightarrow> cborToken list" where
  "closed t ts = t\<lparr>tokenCount := u16 (Suc (length ts))\<rparr> # ts"

definition breakAt :: "byte list \<Rightarrow> nat \<Rightarrow> nat \<Rightarrow> bool" where
  "breakAt msg off off' \<longleftrightarrow> off < length msg \<and> msg ! off = 0xFF \<and> off' = off + 1"

inductive scanItem :: "byte list \<Rightarrow> nat \<Rightarrow> nat \<Rightarrow> cborToken list \<Rightarrow> nat \<Rightarrow> bool"
  and scanSeq :: "byte list \<Rightarrow> nat \<Rightarrow> nat \<Rightarrow> nat \<Rightarrow> cborToken list \<Rightarrow> nat \<Rightarrow> bool" for msg where
  number: "headAt msg off = Some t \<Longrightarrow> majorOf t \<in> {majorByte INT_POS, majorByte INT_NEG} \<Longrightarrow>
    scanItem msg d off [t] (dataOff t)"
| simpleValue: "headAt msg off = Some t \<Longrightarrow> majorOf t = majorByte SIMPLE \<Longrightarrow> typeSpecifier t \<noteq> 0xFF \<Longrightarrow>
    scanItem msg d off [t] (dataOff t)"
| fixedString: "headAt msg off = Some t \<Longrightarrow> majorOf t \<in> {majorByte STR_BYTE, majorByte STR_TEXT} \<Longrightarrow>
    \<not> indefinite t \<Longrightarrow> off' = u32 (dataOff t + typeParam t) \<Longrightarrow> 0 < off' \<Longrightarrow> off' \<le> length msg \<Longrightarrow>
    scanItem msg d off [t] off'"
| tagged: "headAt msg off = Some t \<Longrightarrow> majorOf t = majorByte TAG \<Longrightarrow>
    scanItem msg d (dataOff t) ts off' \<Longrightarrow> scanItem msg (Suc d) off (closed t ts) off'"
| fixedArray: "headAt msg off = Some t \<Longrightarrow> majorOf t = majorByte ARRAY \<Longrightarrow> \<not> indefinite t \<Longrightarrow>
    typeParam t \<le> MAX_ARRAY \<Longrightarrow> scanSeq msg d (typeParam t) (dataOff t) ts off' \<Longrightarrow>
    scanItem msg (Suc d) off (closed t ts) off'"
| indefArray: "headAt msg off = Some t \<Longrightarrow> majorOf t = majorByte ARRAY \<Longrightarrow> indefinite t \<Longrightarrow>
    n \<le> MAX_ARRAY \<Longrightarrow> scanSeq msg d n (dataOff t) ts ob \<Longrightarrow> breakAt msg ob off' \<Longrightarrow>
    scanItem msg (Suc d) off (closed (t\<lparr>typeParam := n\<rparr>) ts) off'"
| fixedMap: "headAt msg off = Some t \<Longrightarrow> majorOf t = majorByte MAP \<Longrightarrow> \<not> indefinite t \<Longrightarrow>
    typeParam t \<le> MAX_MAP \<Longrightarrow> scanSeq msg d (2 * typeParam t) (dataOff t) ts off' \<Longrightarrow>
    scanItem msg (Suc d) off (closed t ts) off'"
| indefMap: "headAt msg off = Some t \<Longrightarrow> majorOf t = majorByte MAP \<Longrightarrow> indefinite t \<Longrightarrow>
    n \<le> MAX_MAP \<Longrightarrow> scanSeq msg d (2 * n) (dataOff t) ts ob \<Longrightarrow> breakAt msg ob off' \<Longrightarrow>
    scanItem msg (Suc d) off (closed (t\<lparr>typeParam := n\<rparr>) ts) off'"
| seqNil: "scanSeq msg d 0 off [] off"
| seqCons: "scanItem msg d off ts1 o1 \<Longrightarrow> scanSeq msg d n o1 ts2 off' \<Longrightarrow>
    scanSeq msg d (Suc n) off (ts1 @ ts2) off'"

inductive_cases scanSeq_Nil: "scanSeq msg d 0 off ts off'"
inductive_cases scanSeq_Cons: "scanSeq msg d (Suc n) off ts off'"
inductive_simps scanSeq_0 [simp]: "scanSeq msg d 0 off ts off'"

text \<open>
  The data items that are well-formed by RFC 8949, within the limits of the parser: definite
  length strings, at most \<open>MAX_ARRAY\<close> array elements and \<open>MAX_MAP\<close> map entries, nesting of
  depth \<open>d\<close>. Integers, tags and simple values have no indefinite form, a simple value in the
  two-byte form is at least 32, and a string lies inside the message.
\<close>

inductive cborItem :: "byte list \<Rightarrow> nat \<Rightarrow> nat \<Rightarrow> cborToken list \<Rightarrow> nat \<Rightarrow> bool"
  and cborItems :: "byte list \<Rightarrow> nat \<Rightarrow> nat \<Rightarrow> nat \<Rightarrow> cborToken list \<Rightarrow> nat \<Rightarrow> bool" for msg where
  integer: "headAt msg off = Some t \<Longrightarrow> majorOf t \<in> {majorByte INT_POS, majorByte INT_NEG} \<Longrightarrow>
    \<not> indefinite t \<Longrightarrow> cborItem msg d off [t] (dataOff t)"
| simple: "headAt msg off = Some t \<Longrightarrow> majorOf t = majorByte SIMPLE \<Longrightarrow> \<not> indefinite t \<Longrightarrow>
    typeSpecifier t = 0xF8 \<longrightarrow> 32 \<le> typeParam t \<Longrightarrow> cborItem msg d off [t] (dataOff t)"
| string: "headAt msg off = Some t \<Longrightarrow> majorOf t \<in> {majorByte STR_BYTE, majorByte STR_TEXT} \<Longrightarrow>
    \<not> indefinite t \<Longrightarrow> dataOff t + typeParam t \<le> length msg \<Longrightarrow>
    cborItem msg d off [t] (dataOff t + typeParam t)"
| tag: "headAt msg off = Some t \<Longrightarrow> majorOf t = majorByte TAG \<Longrightarrow> \<not> indefinite t \<Longrightarrow>
    cborItem msg d (dataOff t) ts off' \<Longrightarrow> cborItem msg (Suc d) off (closed t ts) off'"
| array: "headAt msg off = Some t \<Longrightarrow> majorOf t = majorByte ARRAY \<Longrightarrow> \<not> indefinite t \<Longrightarrow>
    typeParam t \<le> MAX_ARRAY \<Longrightarrow> cborItems msg d (typeParam t) (dataOff t) ts off' \<Longrightarrow>
    cborItem msg (Suc d) off (closed t ts) off'"
| arrayBreak: "headAt msg off = Some t \<Longrightarrow> majorOf t = majorByte ARRAY \<Longrightarrow> indefinite t \<Longrightarrow>
    n \<le> MAX_ARRAY \<Longrightarrow> cborItems msg d n (dataOff t) ts ob \<Longrightarrow> breakAt msg ob off' \<Longrightarrow>
    cborItem msg (Suc d) off (closed (t\<lparr>typeParam := n\<rparr>) ts) off'"
| mapping: "headAt msg off = Some t \<Longrightarrow> majorOf t = majorByte MAP \<Longrightarrow> \<not> indefinite t \<Longrightarrow>
    typeParam t \<le> MAX_MAP \<Longrightarrow> cborItems msg d (2 * typeParam t) (dataOff t) ts off' \<Longrightarrow>
    cborItem msg (Suc d) off (closed t ts) off'"
| mappingBreak: "headAt msg off = Some t \<Longrightarrow> majorOf t = majorByte MAP \<Longrightarrow> indefinite t \<Longrightarrow>
    n \<le> MAX_MAP \<Longrightarrow> cborItems msg d (2 * n) (dataOff t) ts ob \<Longrightarrow> breakAt msg ob off' \<Longrightarrow>
    cborItem msg (Suc d) off (closed (t\<lparr>typeParam := n\<rparr>) ts) off'"
| itemsNil: "cborItems msg d 0 off [] off"
| itemsCons: "cborItem msg d off ts1 o1 \<Longrightarrow> cborItems msg d n o1 ts2 off' \<Longrightarrow>
    cborItems msg d (Suc n) off (ts1 @ ts2) off'"

text \<open>
  The tokens whose item RFC 8949 allows, among those the scanner takes: the others are an integer
  or a tag with the additional information 31, a two-byte simple value below 32, and a string
  whose end wraps around at \<open>2 ^ 32\<close>.
\<close>

definition strictToken :: "cborToken \<Rightarrow> bool" where
  "strictToken t \<longleftrightarrow>
     (majorOf t \<in> {majorByte INT_POS, majorByte INT_NEG, majorByte TAG} \<longrightarrow> \<not> indefinite t) \<and>
     (typeSpecifier t = 0xF8 \<longrightarrow> 32 \<le> typeParam t) \<and>
     (majorOf t \<in> {majorByte STR_BYTE, majorByte STR_TEXT} \<longrightarrow> dataOff t + typeParam t < 2 ^ 32)"

lemma majorByte_inject [simp]: "majorByte m = majorByte n \<longleftrightarrow> m = n"
  by (cases m; cases n; simp add: majorByte.simps)

text \<open>The shape of an item is determined by its head.\<close>

lemma F8_major: "typeSpecifier t = 0xF8 \<Longrightarrow> majorOf t = majorByte SIMPLE"
  by (simp add: majorOf_def majorByte.simps)

lemma strictToken_closed:
  assumes "majorOf t \<in> {majorByte ARRAY, majorByte MAP}"
  shows "(\<forall>u\<in>set (closed t ts). strictToken u) \<longleftrightarrow> (\<forall>u\<in>set ts. strictToken u)"
    and "(\<forall>u\<in>set (closed (t\<lparr>typeParam := n\<rparr>) ts). strictToken u) \<longleftrightarrow> (\<forall>u\<in>set ts. strictToken u)"
proof -
  have "majorOf (t\<lparr>tokenCount := c\<rparr>) = majorOf t" "majorOf (t\<lparr>typeParam := n, tokenCount := c\<rparr>) = majorOf t"
    for c by (simp_all add: majorOf_def)
  then have "strictToken (t\<lparr>tokenCount := c\<rparr>)" "strictToken (t\<lparr>typeParam := n, tokenCount := c\<rparr>)" for c
    using assms F8_major [of t] by (auto simp: strictToken_def)
  then show "(\<forall>u\<in>set (closed t ts). strictToken u) \<longleftrightarrow> (\<forall>u\<in>set ts. strictToken u)"
    "(\<forall>u\<in>set (closed (t\<lparr>typeParam := n\<rparr>) ts). strictToken u) \<longleftrightarrow> (\<forall>u\<in>set ts. strictToken u)"
    by (simp_all add: closed_def)
qed

lemma strictToken_tag:
  assumes "majorOf t = majorByte TAG"
  shows "(\<forall>u\<in>set (closed t ts). strictToken u) \<longleftrightarrow> \<not> indefinite t \<and> (\<forall>u\<in>set ts. strictToken u)"
proof -
  have "majorOf (t\<lparr>tokenCount := c\<rparr>) = majorOf t" "indefinite (t\<lparr>tokenCount := c\<rparr>) = indefinite t" for c
    by (simp_all add: majorOf_def indefinite_def)
  then have "strictToken (t\<lparr>tokenCount := c\<rparr>) \<longleftrightarrow> \<not> indefinite t" for c
    using assms F8_major [of t] by (auto simp: strictToken_def)
  then show ?thesis by (simp add: closed_def)
qed

lemma simple_break: "majorOf t = majorByte SIMPLE \<Longrightarrow> typeSpecifier t = 0xFF \<longleftrightarrow> indefinite t"
proof -
  let ?b = "typeSpecifier t"
  assume "majorOf t = majorByte SIMPLE"
  then have m: "and ?b 0xE0 = 0xE0" by (simp add: majorOf_def majorByte.simps)
  have "or (and ?b 0xE0) (and ?b 0x1F) = and ?b 0xFF"
    by (simp add: bit.conj_disj_distrib [symmetric])
  moreover have "(0xFF :: byte) = - 1" by simp
  then have "and ?b 0xFF = ?b" by (simp only: and.right_neutral)
  ultimately have "?b = or (and ?b 0xE0) (and ?b 0x1F)" by simp
  then show ?thesis using m unfolding indefinite_def by auto
qed

lemma strict_simple:
  "majorOf t = majorByte SIMPLE \<Longrightarrow> strictToken t \<longleftrightarrow> (typeSpecifier t = 0xF8 \<longrightarrow> 32 \<le> typeParam t)"
  "majorOf t \<in> {majorByte INT_POS, majorByte INT_NEG} \<Longrightarrow> strictToken t \<longleftrightarrow> \<not> indefinite t"
  "majorOf t \<in> {majorByte STR_BYTE, majorByte STR_TEXT} \<Longrightarrow>
     strictToken t \<longleftrightarrow> dataOff t + typeParam t < 2 ^ 32"
  using F8_major [of t] by (auto simp: strictToken_def)

lemma cborItem_scan:
  assumes len: "length msg < 65536"
  shows "cborItem msg d off ts off' \<Longrightarrow> scanItem msg d off ts off' \<and> (\<forall>t\<in>set ts. strictToken t)"
    and "cborItems msg d n off ts off' \<Longrightarrow> scanSeq msg d n off ts off' \<and> (\<forall>t\<in>set ts. strictToken t)"
proof (induction rule: cborItem_cborItems.inducts)
  case (integer off t d)
  then show ?case by (auto intro: scanItem_scanSeq.number simp: strict_simple)
next
  case (simple off t d)
  then show ?case using simple_break [of t] by (auto intro: scanItem_scanSeq.simpleValue simp: strict_simple)
next
  case (string off t d)
  have "dataOff t + typeParam t < 2 ^ 32" using string len by auto
  then have "scanItem msg d off [t] (dataOff t + typeParam t)"
    using string headAt_ok(6) [OF string(1) len]
    by (intro scanItem_scanSeq.fixedString) (simp_all add: dataOff_def)
  then show ?case using string \<open>dataOff t + typeParam t < 2 ^ 32\<close> by (simp add: strict_simple)
next
  case (tag off t d ts off')
  then show ?case by (simp add: strictToken_tag scanItem_scanSeq.tagged)
next
  case (array off t d ts off')
  then show ?case by (simp add: strictToken_closed scanItem_scanSeq.fixedArray)
next
  case (arrayBreak off t n d ts ob off')
  then show ?case by (auto simp: strictToken_closed intro: scanItem_scanSeq.indefArray)
next
  case (mapping off t d ts off')
  then show ?case by (simp add: strictToken_closed scanItem_scanSeq.fixedMap)
next
  case (mappingBreak off t n d ts ob off')
  then show ?case by (auto simp: strictToken_closed intro: scanItem_scanSeq.indefMap)
qed (auto intro: scanItem_scanSeq.seqNil scanItem_scanSeq.seqCons)

lemma scan_cborItem:
  shows "scanItem msg d off ts off' \<Longrightarrow> \<forall>t\<in>set ts. strictToken t \<Longrightarrow> cborItem msg d off ts off'"
    and "scanSeq msg d n off ts off' \<Longrightarrow> \<forall>t\<in>set ts. strictToken t \<Longrightarrow> cborItems msg d n off ts off'"
proof (induction rule: scanItem_scanSeq.inducts)
  case (number off t d)
  then show ?case by (auto intro: cborItem_cborItems.integer simp: strict_simple)
next
  case (simpleValue off t d)
  then show ?case using simple_break [of t] by (auto intro: cborItem_cborItems.simple simp: strict_simple)
next
  case (fixedString off t off' d)
  then have "off' = dataOff t + typeParam t" by (simp add: strict_simple)
  with fixedString show ?case by (auto intro: cborItem_cborItems.string)
next
  case (tagged off t d ts off')
  then show ?case by (simp add: strictToken_tag cborItem_cborItems.tag)
next
  case (fixedArray off t d ts off')
  then show ?case by (simp add: strictToken_closed cborItem_cborItems.array)
next
  case (indefArray off t n d ts ob off')
  then show ?case by (auto simp: strictToken_closed intro: cborItem_cborItems.arrayBreak)
next
  case (fixedMap off t d ts off')
  then show ?case by (simp add: strictToken_closed cborItem_cborItems.mapping)
next
  case (indefMap off t n d ts ob off')
  then show ?case by (auto simp: strictToken_closed intro: cborItem_cborItems.mappingBreak)
qed (auto intro: cborItem_cborItems.itemsNil cborItem_cborItems.itemsCons)

lemma scanItem_strict:
  "length msg < 65536 \<Longrightarrow>
     cborItem msg d off ts off' \<longleftrightarrow> scanItem msg d off ts off' \<and> (\<forall>t\<in>set ts. strictToken t)"
  using cborItem_scan(1) scan_cborItem(1) by blast

lemma MAX_less [simp]: "MAX_ARRAY < 65536" "MAX_MAP < 65536" "MAX_STRING < 65536"
  by (simp_all add: GMOS_CONFIG_CBOR_MAX_ARRAY_SIZE_def GMOS_CONFIG_CBOR_MAX_MAP_SIZE_def
      GMOS_CONFIG_CBOR_MAX_STRING_SIZE_def)

text \<open>Every item ends inside the message, and its tokens are well formed.\<close>

lemma token_ok_closed:
  "token_ok t \<Longrightarrow> n < 65536 \<Longrightarrow> \<forall>u\<in>set ts. token_ok u \<Longrightarrow>
     \<forall>u\<in>set (closed t ts). token_ok u"
  "token_ok t \<Longrightarrow> n < 65536 \<Longrightarrow> \<forall>u\<in>set ts. token_ok u \<Longrightarrow>
     \<forall>u\<in>set (closed (t\<lparr>typeParam := n\<rparr>) ts). token_ok u"
  by (auto simp: closed_def token_ok_def)

lemma scan_bounds:
  assumes "length msg < 65536"
  shows "scanItem msg d off ts off' \<Longrightarrow>
      0 < off' \<and> off' \<le> length msg \<and> ts \<noteq> [] \<and> (\<forall>t\<in>set ts. token_ok t)"
    and "scanSeq msg d n off ts off' \<Longrightarrow>
      (off' = off \<or> 0 < off' \<and> off' \<le> length msg) \<and> (\<forall>t\<in>set ts. token_ok t)"
proof (induction rule: scanItem_scanSeq.inducts)
  case (number off t d)
  then show ?case using headAt_ok [OF number(1) assms] by (auto simp: dataOff_def)
next
  case (simpleValue off t d)
  then show ?case using headAt_ok [OF simpleValue(1) assms] by (auto simp: dataOff_def)
next
  case (fixedString off t off' d)
  then show ?case using headAt_ok [OF fixedString(1) assms] by auto
next
  case (tagged off t d ts off')
  then show ?case using headAt_ok [OF tagged(1) assms] token_ok_closed(1) [of t 0 ts]
    by (auto simp: closed_def)
next
  case (fixedArray off t d ts off')
  then show ?case using headAt_ok [OF fixedArray(1) assms] token_ok_closed(1) [of t 0 ts]
    by (auto simp: closed_def dataOff_def)
next
  case (indefArray off t n d ts ob off')
  have "n < 65536" using \<open>n \<le> MAX_ARRAY\<close> MAX_less(1) by (rule le_less_trans)
  with indefArray show ?case using headAt_ok [OF indefArray(1) assms] token_ok_closed(2) [of t n ts]
    by (auto simp: closed_def breakAt_def)
next
  case (fixedMap off t d ts off')
  then show ?case using headAt_ok [OF fixedMap(1) assms] token_ok_closed(1) [of t 0 ts]
    by (auto simp: closed_def dataOff_def)
next
  case (indefMap off t n d ts ob off')
  have "n < 65536" using \<open>n \<le> MAX_MAP\<close> MAX_less(2) by (rule le_less_trans)
  with indefMap show ?case using headAt_ok [OF indefMap(1) assms] token_ok_closed(2) [of t n ts]
    by (auto simp: closed_def breakAt_def)
qed auto

subsection \<open>The scanner meets its specification\<close>

text \<open>
  What stays the same during a scan: the message buffer with its contents and segments, the
  segments of the other clients, the segments that are free or hold tokens, and the pool the
  scan started from.
\<close>

record scanCtx =
  cBuffer :: gmosBuffer
  cMsg :: "byte list"
  cSegs :: "nat list"
  cRest :: "nat set"
  cTotal :: nat
  cPool :: mempool

definition scanInv :: "scanCtx \<Rightarrow> scanState \<Rightarrow> cborToken list \<Rightarrow> bool" where
  "scanInv C s toks \<longleftrightarrow>
     (case s of (p, parser) \<Rightarrow>
        messageBuffer parser = cBuffer C \<and> buf_rep p (cBuffer C) (cSegs C) (cMsg C) \<and>
        set (cSegs C) \<inter> cRest C = {} \<and>
        buf_state p (tokenBuffer parser) (toksBytes toks) (set (cSegs C) \<union> cRest C) \<and>
        bufferOffset (tokenBuffer parser) = 0 \<and>
        same_on (cRest C) (cPool C) p \<and> mempoolUseHeap p = mempoolUseHeap (cPool C) \<and>
        (\<not> mempoolUseHeap p \<longrightarrow> avail p + need (16 * length toks) = cTotal C))"

text \<open>The number of tokens a static pool has room for.\<close>

definition tokensFit :: "nat \<Rightarrow> nat \<Rightarrow> bool" where
  "tokensFit N k \<longleftrightarrow> 16 * k < 65536 \<and> need (16 * k) \<le> N"

abbreviation staticPool :: "scanCtx \<Rightarrow> bool" where
  "staticPool C \<equiv> \<not> mempoolUseHeap (cPool C)"

lemma tokensFit_mono: "tokensFit N k \<Longrightarrow> j \<le> k \<Longrightarrow> tokensFit N j"
  unfolding tokensFit_def using need_mono [of "16 * j" "16 * k"] by auto

lemma scanInv_len:
  assumes "scanInv C (p, parser) toks"
  shows "length (cMsg C) < 65536" "16 * length toks < 65536"
    "gmosBufferGetSize (messageBuffer parser) = length (cMsg C)"
    "gmosBufferGetSize (tokenBuffer parser) = 16 * length toks"
  using assms buf_repD(2,3) [of p "cBuffer C" "cSegs C" "cMsg C"]
    buf_state_size [of p "tokenBuffer parser" "toksBytes toks"]
  by (auto simp: scanInv_def gmosBufferGetSize_def)

lemma scanInv_message:
  assumes "scanInv C (p, parser) toks"
  shows "\<exists>R. buf_state p (messageBuffer parser) (cMsg C) R"
proof -
  from assms obtain ys where y: "set ys \<inter> (set (cSegs C) \<union> cRest C) = {}"
    "pool_ok p (set ys \<union> (set (cSegs C) \<union> cRest C))"
    by (auto simp: scanInv_def buf_state_def)
  have "set ys \<union> (set (cSegs C) \<union> cRest C) = set (cSegs C) \<union> (set ys \<union> cRest C)" by auto
  moreover have "set (cSegs C) \<inter> (set ys \<union> cRest C) = {}" using y(1) assms by (auto simp: scanInv_def)
  ultimately have "buf_state p (messageBuffer parser) (cMsg C) (set ys \<union> cRest C)"
    using y(2) assms by (intro buf_stateI [of _ _ "cSegs C"]) (auto simp: scanInv_def)
  then show ?thesis by blast
qed

lemma appendToken_ok:
  assumes inv: "scanInv C s toks"
  obtains ok s' where "appendToken t s = Some (ok, s')"
    "scanInv C s' (if ok then toks @ [t] else toks)"
    "staticPool C \<Longrightarrow> ok = tokensFit (cTotal C) (Suc (length toks))"
proof -
  obtain p parser where s: "s = (p, parser)" by (cases s)
  let ?R = "set (cSegs C) \<union> cRest C"
  have i: "buf_state p (tokenBuffer parser) (toksBytes toks) ?R" "bufferOffset (tokenBuffer parser) = 0"
    "mempoolUseHeap p = mempoolUseHeap (cPool C)"
    "\<not> mempoolUseHeap p \<longrightarrow> avail p + need (16 * length toks) = cTotal C"
    "same_on (cRest C) (cPool C) p"
    using inv s by (auto simp: scanInv_def)
  have "length (tokenBytes t) < 65536" by simp
  from gmosBufferAppend_ok [OF i(1) this] obtain ok p' b' where r:
    "gmosBufferAppend p (tokenBuffer parser) (tokenBytes t) = Some (ok, p', b')"
    "same_on ?R p p'" "mempoolUseHeap p' = mempoolUseHeap p"
    "ok \<longleftrightarrow> length (toksBytes toks) + length (tokenBytes t) < 65536 \<and>
      need (bufferOffset (tokenBuffer parser) + length (toksBytes toks) + length (tokenBytes t)) -
      need (bufferOffset (tokenBuffer parser) + length (toksBytes toks)) \<le> avail p"
    "buf_state p' b' (if ok then toksBytes toks @ tokenBytes t else toksBytes toks) ?R"
    "\<not> mempoolUseHeap p \<Longrightarrow> avail p' = (if ok then avail p -
         (need (bufferOffset (tokenBuffer parser) + length (toksBytes toks) + length (tokenBytes t)) -
          need (bufferOffset (tokenBuffer parser) + length (toksBytes toks)))
       else avail p)" by metis
  have off: "bufferOffset b' = 0" using Append_offset [OF r(1)] i(2) by simp
  let ?n = "length toks"
  have e: "bufferOffset (tokenBuffer parser) + length (toksBytes toks) = 16 * ?n"
    "16 * ?n + length (tokenBytes t) = 16 * Suc ?n"
    "length (toksBytes toks) + length (tokenBytes t) = 16 * Suc ?n" using i(2) by simp_all
  have ok: "ok \<longleftrightarrow> 16 * Suc ?n < 65536 \<and> need (16 * Suc ?n) - need (16 * ?n) \<le> avail p"
    using r(4) unfolding e .
  have av': "avail p' = (if ok then avail p - (need (16 * Suc ?n) - need (16 * ?n)) else avail p)"
    if "\<not> mempoolUseHeap p" using r(6) [OF that] unfolding e .
  have mono: "need (16 * length toks) \<le> need (16 * Suc (length toks))" by (rule need_mono) simp
  have rep: "buf_rep p' (cBuffer C) (cSegs C) (cMsg C)"
    using inv s buf_rep_same_on [of p _ _ _ ?R p'] r(2) by (auto simp: scanInv_def)
  have fit: "ok \<longleftrightarrow> tokensFit (cTotal C) (Suc ?n)" if st: "staticPool C"
  proof -
    have "avail p + need (16 * ?n) = cTotal C" using i(3,4) st by simp
    then show ?thesis unfolding ok tokensFit_def using mono by linarith
  qed
  have av: "avail p' + need (16 * length (if ok then toks @ [t] else toks)) = cTotal C"
    if st: "staticPool C"
  proof -
    have a: "avail p + need (16 * ?n) = cTotal C" "\<not> mempoolUseHeap p" using i(3,4) st by simp_all
    show ?thesis
    proof (cases ok)
      case True
      then have "need (16 * Suc ?n) - need (16 * ?n) \<le> avail p" using ok by simp
      moreover have "length (toks @ [t]) = Suc ?n" by simp
      ultimately show ?thesis using av' [OF a(2)] a(1) True mono by (simp only: if_True)
    next
      case False
      then show ?thesis using av' [OF a(2)] a(1) by simp
    qed
  qed
  have "same_on (cRest C) (cPool C) p'"
    using i(5) same_on_mono [OF r(2), of "cRest C"] same_on_trans by blast
  then have inv': "scanInv C (p', parser\<lparr>tokenBuffer := b'\<rparr>) (if ok then toks @ [t] else toks)"
    using inv s rep r(3,5) off i(3) av by (auto simp: scanInv_def)
  show thesis
    by (rule that [of ok "(p', parser\<lparr>tokenBuffer := b'\<rparr>)"])
       (use r(1) s inv' fit in \<open>simp_all add: appendToken_def\<close>)
qed

lemma closeToken_ok:
  assumes inv: "scanInv C s (pre @ u # ts)"
  obtains s' where "closeToken t (16 * length pre) off s = Some (off, s')"
    "scanInv C s' (pre @ closed t ts)"
proof -
  obtain p parser where s: "s = (p, parser)" by (cases s)
  let ?R = "set (cSegs C) \<union> cRest C" and ?t = "t\<lparr>tokenCount := u16 (Suc (length ts))\<rparr>"
  have i: "buf_state p (tokenBuffer parser) (toksBytes (pre @ u # ts)) ?R"
    "same_on (cRest C) (cPool C) p" using inv s by (auto simp: scanInv_def)
  have le: "16 * length pre + length (tokenBytes ?t) \<le> length (toksBytes (pre @ u # ts))" by simp
  obtain p' where w:
    "gmosBufferWrite p (tokenBuffer parser) (16 * length pre) (tokenBytes ?t) =
       Some (16 * length pre + length (tokenBytes ?t) \<le> length (toksBytes (pre @ u # ts)), p')"
    "buf_state p' (tokenBuffer parser)
       (if 16 * length pre + length (tokenBytes ?t) \<le> length (toksBytes (pre @ u # ts))
        then splice (16 * length pre) (tokenBytes ?t) (toksBytes (pre @ u # ts))
        else toksBytes (pre @ u # ts)) ?R"
    "same_on ?R p p'" "avail p' = avail p" "mempoolUseHeap p' = mempoolUseHeap p"
    by (rule gmosBufferWrite_ok [OF i(1), of "16 * length pre" "tokenBytes ?t"]) (rule that)
  have r: "gmosBufferWrite p (tokenBuffer parser) (16 * length pre) (tokenBytes ?t) = Some (True, p')"
    "buf_state p' (tokenBuffer parser) (splice (16 * length pre) (tokenBytes ?t) (toksBytes (pre @ u # ts))) ?R"
    "same_on ?R p p'" "avail p' = avail p" "mempoolUseHeap p' = mempoolUseHeap p"
    using w le by (simp_all only: if_True simp_thms)
  have n: "16 * length (pre @ u # ts) - 16 * length pre = 16 * Suc (length ts)" by simp
  have "sub32 (gmosBufferGetSize (tokenBuffer parser)) (16 * length pre) div 16 = Suc (length ts)"
    using scanInv_len(4) [OF inv [unfolded s]] n by simp
  then have "closeToken t (16 * length pre) off s = Some (off, p', parser)"
    using r(1) s by (simp add: closeToken_def)
  moreover have rep: "buf_rep p' (cBuffer C) (cSegs C) (cMsg C)"
    using inv s buf_rep_same_on [of p _ _ _ ?R p'] r(3) by (auto simp: scanInv_def)
  have "same_on (cRest C) (cPool C) p'"
    using i(2) same_on_mono [OF r(3), of "cRest C"] same_on_trans by blast
  then have "scanInv C (p', parser) (pre @ closed t ts)"
    using inv s rep r(2,4,5) unfolding toksBytes_update by (simp add: scanInv_def closed_def)
  ultimately show thesis using that by blast
qed

lemma scanItem_number:
  "headAt msg off = Some t \<Longrightarrow> majorOf t = majorByte INT_POS \<or> majorOf t = majorByte INT_NEG \<Longrightarrow>
     scanItem msg d off ts o' \<longleftrightarrow> ts = [t] \<and> o' = dataOff t"
  by (subst scanItem.simps) auto

lemma scanItem_simple:
  "headAt msg off = Some t \<Longrightarrow> majorOf t = majorByte SIMPLE \<Longrightarrow>
     scanItem msg d off ts o' \<longleftrightarrow> typeSpecifier t \<noteq> 0xFF \<and> ts = [t] \<and> o' = dataOff t"
  by (subst scanItem.simps) auto

lemma scanItem_string:
  "headAt msg off = Some t \<Longrightarrow> majorOf t = majorByte STR_BYTE \<or> majorOf t = majorByte STR_TEXT \<Longrightarrow>
     scanItem msg d off ts o' \<longleftrightarrow> \<not> indefinite t \<and> ts = [t] \<and>
       o' = u32 (dataOff t + typeParam t) \<and> 0 < o' \<and> o' \<le> length msg"
  by (subst scanItem.simps) auto

lemma scanItem_tag:
  "headAt msg off = Some t \<Longrightarrow> majorOf t = majorByte TAG \<Longrightarrow>
     scanItem msg d off ts o' \<longleftrightarrow>
       (\<exists>d' us. d = Suc d' \<and> scanItem msg d' (dataOff t) us o' \<and> ts = closed t us)"
  by (subst scanItem.simps) auto

lemma scanItem_fixedArray:
  "headAt msg off = Some t \<Longrightarrow> majorOf t = majorByte ARRAY \<Longrightarrow> \<not> indefinite t \<Longrightarrow>
     scanItem msg d off ts o' \<longleftrightarrow>
       (\<exists>d' us. d = Suc d' \<and> typeParam t \<le> MAX_ARRAY \<and>
          scanSeq msg d' (typeParam t) (dataOff t) us o' \<and> ts = closed t us)"
  by (subst scanItem.simps) auto

lemma scanItem_indefArray:
  "headAt msg off = Some t \<Longrightarrow> majorOf t = majorByte ARRAY \<Longrightarrow> indefinite t \<Longrightarrow>
     scanItem msg d off ts o' \<longleftrightarrow>
       (\<exists>d' us n ob. d = Suc d' \<and> n \<le> MAX_ARRAY \<and> scanSeq msg d' n (dataOff t) us ob \<and>
          breakAt msg ob o' \<and> ts = closed (t\<lparr>typeParam := n\<rparr>) us)"
  by (subst scanItem.simps) auto

lemma scanItem_fixedMap:
  "headAt msg off = Some t \<Longrightarrow> majorOf t = majorByte MAP \<Longrightarrow> \<not> indefinite t \<Longrightarrow>
     scanItem msg d off ts o' \<longleftrightarrow>
       (\<exists>d' us. d = Suc d' \<and> typeParam t \<le> MAX_MAP \<and>
          scanSeq msg d' (2 * typeParam t) (dataOff t) us o' \<and> ts = closed t us)"
  by (subst scanItem.simps) auto

lemma scanItem_indefMap:
  "headAt msg off = Some t \<Longrightarrow> majorOf t = majorByte MAP \<Longrightarrow> indefinite t \<Longrightarrow>
     scanItem msg d off ts o' \<longleftrightarrow>
       (\<exists>d' us n ob. d = Suc d' \<and> n \<le> MAX_MAP \<and> scanSeq msg d' (2 * n) (dataOff t) us ob \<and>
          breakAt msg ob o' \<and> ts = closed (t\<lparr>typeParam := n\<rparr>) us)"
  by (subst scanItem.simps) auto

lemma scanItem_head: "scanItem msg d off ts o' \<Longrightarrow> headAt msg off \<noteq> None"
  by (cases rule: scanItem.cases) auto

text \<open>
  A scanner for items nested up to depth \<open>d\<close>: it never fails to return, keeps the invariant
  with some tokens added, succeeds only on items (or on a break where one is allowed), and in a
  static pool succeeds on every item whose tokens fit.
\<close>

definition itemResult ::
    "scanCtx \<Rightarrow> nat \<Rightarrow> nat \<Rightarrow> cborToken list \<Rightarrow> (nat \<times> scanState) option \<Rightarrow> bool" where
  "itemResult C d off toks r \<longleftrightarrow>
     (\<exists>off' s' new. r = Some (off', s') \<and> scanInv C s' (toks @ new) \<and>
        (off' \<noteq> 0 \<longrightarrow> scanItem (cMsg C) d off new off') \<and>
        (staticPool C \<longrightarrow> (\<forall>ts o'. scanItem (cMsg C) d off ts o' \<longrightarrow>
           tokensFit (cTotal C) (length toks + length ts) \<longrightarrow> off' = o' \<and> new = ts)))"

definition seqResult ::
    "scanCtx \<Rightarrow> nat \<Rightarrow> nat \<Rightarrow> nat \<Rightarrow> cborToken list \<Rightarrow> (nat \<times> scanState) option \<Rightarrow> bool" where
  "seqResult C d n off toks r \<longleftrightarrow>
     (\<exists>off' s' new. r = Some (off', s') \<and> scanInv C s' (toks @ new) \<and>
        (off' \<noteq> 0 \<longrightarrow> scanSeq (cMsg C) d n off new off') \<and>
        (staticPool C \<longrightarrow> (\<forall>ts o'. scanSeq (cMsg C) d n off ts o' \<longrightarrow>
           tokensFit (cTotal C) (length toks + length ts) \<longrightarrow> off' = o' \<and> new = ts)))"

definition scannerOk :: "scanCtx \<Rightarrow> nat \<Rightarrow> scanner \<Rightarrow> bool" where
  "scannerOk C d sc \<longleftrightarrow>
     (\<forall>brk off s toks. scanInv C s toks \<longrightarrow> off < 65536 \<longrightarrow>
        (if brk \<and> breakAt (cMsg C) off (off + 1) then sc brk off s = Some (off + 1, True, s)
         else \<exists>r. sc brk off s = map_option (\<lambda>(off', s'). (off', False, s')) r \<and>
                  itemResult C d off toks r))"

lemma scannerOk_item:
  assumes "scannerOk C d sc" "scanInv C s toks" "off < 65536"
    and "\<not> (brk \<and> breakAt (cMsg C) off (off + 1))"
  obtains off' s' new where "sc brk off s = Some (off', False, s')" "scanInv C s' (toks @ new)"
    "off' \<noteq> 0 \<longrightarrow> scanItem (cMsg C) d off new off'"
    "staticPool C \<longrightarrow> (\<forall>ts o'. scanItem (cMsg C) d off ts o' \<longrightarrow>
       tokensFit (cTotal C) (length toks + length ts) \<longrightarrow> off' = o' \<and> new = ts)"
proof -
  have "\<exists>r. sc brk off s = map_option (\<lambda>(off', s'). (off', False, s')) r \<and> itemResult C d off toks r"
    using assms unfolding scannerOk_def by (metis (no_types, lifting))
  then obtain r where r: "sc brk off s = map_option (\<lambda>(off', s'). (off', False, s')) r"
    "itemResult C d off toks r" by blast
  from r(2) obtain off' s' new where q: "r = Some (off', s')" "scanInv C s' (toks @ new)"
    "off' \<noteq> 0 \<longrightarrow> scanItem (cMsg C) d off new off'"
    "staticPool C \<longrightarrow> (\<forall>ts o'. scanItem (cMsg C) d off ts o' \<longrightarrow>
       tokensFit (cTotal C) (length toks + length ts) \<longrightarrow> off' = o' \<and> new = ts)"
    unfolding itemResult_def by - (elim exE conjE, rule that)
  show thesis by (rule that [OF _ q(2-4)]) (simp add: r(1) q(1))
qed

lemma scannerOk_break:
  "scannerOk C d sc \<Longrightarrow> scanInv C s toks \<Longrightarrow> off < 65536 \<Longrightarrow> breakAt (cMsg C) off o' \<Longrightarrow>
     sc True off s = Some (o', True, s)"
  unfolding scannerOk_def breakAt_def by (metis (no_types, lifting))

lemma scanItem_lt:
  "scanItem (cMsg C) d off ts o' \<Longrightarrow> scanInv C s toks \<Longrightarrow> 0 < o' \<and> o' < 65536 \<and> ts \<noteq> []"
  using scan_bounds(1) [of "cMsg C" d off ts o'] scanInv_len(1) [of C "fst s" "snd s" toks] by simp

lemma scanSeq_lt:
  "scanSeq (cMsg C) d n off ts o' \<Longrightarrow> scanInv C s toks \<Longrightarrow> 0 < off \<Longrightarrow> off < 65536 \<Longrightarrow>
     0 < o' \<and> o' < 65536"
  using scan_bounds(2) [of "cMsg C" d n off ts o'] scanInv_len(1) [of C "fst s" "snd s" toks] by auto

lemma scanItems_ok:
  assumes sc: "scannerOk C d sc"
  shows "scanInv C s toks \<Longrightarrow> 0 < off \<Longrightarrow> off < 65536 \<Longrightarrow>
    seqResult C d n off toks (scanItems sc n off s)"
proof (induction n arbitrary: s toks off)
  case 0
  then show ?case by (auto simp: seqResult_def intro!: exI [of _ "[]"])
next
  case (Suc n)
  obtain off1 s1 new1 where r: "sc False off s = Some (off1, False, s1)" "scanInv C s1 (toks @ new1)"
    "off1 \<noteq> 0 \<longrightarrow> scanItem (cMsg C) d off new1 off1"
    "staticPool C \<longrightarrow> (\<forall>ts o'. scanItem (cMsg C) d off ts o' \<longrightarrow>
       tokensFit (cTotal C) (length toks + length ts) \<longrightarrow> off1 = o' \<and> new1 = ts)"
    by (rule scannerOk_item [OF sc Suc.prems(1,3), of False]) auto
  have inv: "off1 = o1 \<and> new1 = ts1"
    if "staticPool C" "scanItem (cMsg C) d off ts1 o1" "tokensFit (cTotal C) (length toks + length (ts1 @ ts2))"
    for ts1 ts2 o1
    using that r(4) tokensFit_mono [OF that(3), of "length toks + length ts1"] by simp
  show ?case
  proof (cases "off1 = 0")
    case True
    have "\<not> scanSeq (cMsg C) d (Suc n) off ts o'"
      if "staticPool C" "tokensFit (cTotal C) (length toks + length ts)" for ts o'
    proof
      assume "scanSeq (cMsg C) d (Suc n) off ts o'"
      then obtain ts1 o1 ts2 where "scanItem (cMsg C) d off ts1 o1" "ts = ts1 @ ts2"
        by (cases rule: scanSeq.cases) auto
      then show False using inv that True scanItem_lt [OF _ Suc.prems(1)] by blast
    qed
    then show ?thesis using r(1,2) True by (auto simp: seqResult_def)
  next
    case False
    then have i: "scanItem (cMsg C) d off new1 off1" using r(3) by simp
    then have "0 < off1" "off1 < 65536" using scanItem_lt [OF i Suc.prems(1)] by simp_all
    from Suc.IH [OF r(2) this] obtain off2 s2 new2 where q: "scanItems sc n off1 s1 = Some (off2, s2)"
      "scanInv C s2 ((toks @ new1) @ new2)" "off2 \<noteq> 0 \<longrightarrow> scanSeq (cMsg C) d n off1 new2 off2"
      "staticPool C \<longrightarrow> (\<forall>ts o'. scanSeq (cMsg C) d n off1 ts o' \<longrightarrow>
         tokensFit (cTotal C) (length (toks @ new1) + length ts) \<longrightarrow> off2 = o' \<and> new2 = ts)"
      by (auto simp: seqResult_def)
    have "off2 = o' \<and> new1 @ new2 = ts"
      if st: "staticPool C" and z: "scanSeq (cMsg C) d (Suc n) off ts o'"
        and f: "tokensFit (cTotal C) (length toks + length ts)" for ts o'
    proof -
      from z obtain ts1 o1 ts2 where c: "scanItem (cMsg C) d off ts1 o1" "ts = ts1 @ ts2"
        "scanSeq (cMsg C) d n o1 ts2 o'" by (cases rule: scanSeq.cases) auto
      then have "off1 = o1" "new1 = ts1" using inv [OF st c(1)] f by simp_all
      then show ?thesis using q(4) st c f by (simp add: add.assoc)
    qed
    moreover have "off2 \<noteq> 0 \<longrightarrow> scanSeq (cMsg C) d (Suc n) off (new1 @ new2) off2"
      using q(3) i by (auto intro: seqCons)
    ultimately show ?thesis using r(1) q(1,2) False
      unfolding seqResult_def by (intro exI [of _ off2] exI [of _ s2] exI [of _ "new1 @ new2"]) simp
  qed
qed

text \<open>The loops over an unknown number of items, up to the break.\<close>

lemma breakAt_unique: "breakAt msg off o1 \<Longrightarrow> breakAt msg off o2 \<Longrightarrow> o1 = o2"
  by (simp add: breakAt_def)

lemma scanItem_no_break: "scanItem msg d off ts o' \<Longrightarrow> \<not> breakAt msg off ob"
proof
  assume i: "scanItem msg d off ts o'" and b: "breakAt msg off ob"
  then have "msg ! off = 0xFF" by (simp add: breakAt_def)
  with i show False
    by (cases rule: scanItem.cases)
       (auto simp: majorOf_def indefinite_def headAt_def majorByte.simps Let_def split: if_splits)
qed

text \<open>What the loop has to achieve: some groups of \<open>g\<close> items each, then a break.\<close>

definition loopResult ::
    "scanCtx \<Rightarrow> nat \<Rightarrow> nat \<Rightarrow> nat \<Rightarrow> nat \<Rightarrow> nat \<Rightarrow> cborToken list \<Rightarrow> (nat \<times> nat \<times> scanState) option \<Rightarrow> bool"
  where
  "loopResult C d g limit n off toks r \<longleftrightarrow>
     (\<exists>off' m s' new. r = Some (off', m, s') \<and> scanInv C s' (toks @ new) \<and>
        (off' \<noteq> 0 \<longrightarrow> (\<exists>k ob. m = n + k \<and> m \<le> limit \<and> scanSeq (cMsg C) d (g * k) off new ob \<and>
           breakAt (cMsg C) ob off')) \<and>
        (staticPool C \<longrightarrow> (\<forall>ts k ob o'. scanSeq (cMsg C) d (g * k) off ts ob \<longrightarrow>
           breakAt (cMsg C) ob o' \<longrightarrow> n + k \<le> limit \<longrightarrow>
           tokensFit (cTotal C) (length toks + length ts) \<longrightarrow> off' = o' \<and> m = n + k \<and> new = ts)))"

lemma scanSeq_split:
  "scanSeq msg d (Suc n) off ts o' \<longleftrightarrow>
     (\<exists>ts1 o1 ts2. scanItem msg d off ts1 o1 \<and> scanSeq msg d n o1 ts2 o' \<and> ts = ts1 @ ts2)"
  by (subst scanSeq.simps) auto

lemma scanSeq_append:
  "scanSeq msg d (m + n) off ts o' \<longleftrightarrow>
     (\<exists>ts1 o1 ts2. scanSeq msg d m off ts1 o1 \<and> scanSeq msg d n o1 ts2 o' \<and> ts = ts1 @ ts2)"
  by (induction m arbitrary: off ts) (fastforce simp: scanSeq_split)+

text \<open>An item has one end and one list of tokens.\<close>

lemma seq_before_break:
  assumes "(n \<le> m \<longrightarrow> (\<exists>us. ts' = ts @ us \<and> scanSeq msg d (m - n) o1 us o2)) \<and>
      (m \<le> n \<longrightarrow> (\<exists>us. ts = ts' @ us \<and> scanSeq msg d (n - m) o2 us o1))"
    "breakAt msg o2 p" "breakAt msg o1 q"
  shows "m = n \<and> ts' = ts \<and> o2 = o1"
proof -
  have no: "k = 0" if "scanSeq msg d k off us o'" "breakAt msg off r" for k off us o' r
    using that scanItem_no_break by (cases k) (auto simp: scanSeq_split)
  consider "n \<le> m" | "m \<le> n" by linarith
  then show ?thesis
  proof cases
    case 1
    then obtain us where u: "ts' = ts @ us" "scanSeq msg d (m - n) o1 us o2" using assms(1) by blast
    with no [OF u(2) assms(3)] 1 show ?thesis by simp
  next
    case 2
    then obtain us where u: "ts = ts' @ us" "scanSeq msg d (n - m) o2 us o1" using assms(1) by blast
    with no [OF u(2) assms(2)] 2 show ?thesis by simp
  qed
qed

lemma scan_unique:
  shows "scanItem msg d off ts o1 \<Longrightarrow> scanItem msg d off ts' o2 \<Longrightarrow> ts' = ts \<and> o2 = o1"
    and "scanSeq msg d n off ts o1 \<Longrightarrow> scanSeq msg d m off ts' o2 \<Longrightarrow>
      (n \<le> m \<longrightarrow> (\<exists>us. ts' = ts @ us \<and> scanSeq msg d (m - n) o1 us o2)) \<and>
      (m \<le> n \<longrightarrow> (\<exists>us. ts = ts' @ us \<and> scanSeq msg d (n - m) o2 us o1))"
proof (induction arbitrary: ts' o2 and m ts' o2 rule: scanItem_scanSeq.inducts)
  case (number off t d)
  then show ?case using scanItem_number by blast
next
  case (simpleValue off t d)
  then show ?case using scanItem_simple by blast
next
  case (fixedString off t off' d)
  then show ?case using scanItem_string by blast
next
  case (tagged off t d ts off')
  then show ?case using scanItem_tag by blast
next
  case (fixedArray off t d ts off')
  then obtain us where u: "scanSeq msg d (typeParam t) (dataOff t) us o2" "ts' = closed t us"
    by (auto simp: scanItem_fixedArray)
  with fixedArray.IH(3) [OF u(1), THEN conjunct1] show ?case by auto
next
  case (indefArray off t n d ts ob off')
  then obtain us k oc where u: "scanSeq msg d (k) (dataOff t) us oc" "breakAt msg oc o2"
    "ts' = closed (t\<lparr>typeParam := k\<rparr>) us" by (auto simp: scanItem_indefArray)
  have "k = n \<and> us = ts \<and> oc = ob"
    by (rule seq_before_break [OF indefArray.IH(3) [OF u(1)] u(2) \<open>breakAt msg ob off'\<close>])
  with u \<open>breakAt msg ob off'\<close> show ?case by (auto dest: breakAt_unique)
next
  case (fixedMap off t d ts off')
  then obtain us where u: "scanSeq msg d (2 * typeParam t) (dataOff t) us o2" "ts' = closed t us"
    by (auto simp: scanItem_fixedMap)
  with fixedMap.IH(3) [OF u(1), THEN conjunct1] show ?case by auto
next
  case (indefMap off t n d ts ob off')
  then obtain us k oc where u: "scanSeq msg d (2 * k) (dataOff t) us oc" "breakAt msg oc o2"
    "ts' = closed (t\<lparr>typeParam := k\<rparr>) us" by (auto simp: scanItem_indefMap)
  have "2 * k = 2 * n \<and> us = ts \<and> oc = ob"
    by (rule seq_before_break [OF indefMap.IH(3) [OF u(1)] u(2) \<open>breakAt msg ob off'\<close>])
  with u \<open>breakAt msg ob off'\<close> show ?case by (auto dest: breakAt_unique)
next
  case (seqNil d off)
  then show ?case by auto
next
  case (seqCons d off ts1 o1 n ts2 off')
  show ?case
  proof (cases m)
    case 0
    then have "ts' = []" "o2 = off" using seqCons.prems by simp_all
    moreover have "scanSeq msg d (Suc n) off (ts1 @ ts2) off'"
      using seqCons.IH(1,3) by (rule scanItem_scanSeq.seqCons)
    ultimately show ?thesis using 0 by simp
  next
    case (Suc k)
    then obtain us1 o3 us2 where u: "scanItem msg d off us1 o3" "scanSeq msg d k o3 us2 o2"
      "ts' = us1 @ us2" using seqCons.prems by (auto simp: scanSeq_split)
    have e: "us1 = ts1" "o3 = o1" using seqCons.IH(2) [OF u(1)] by simp_all
    from seqCons.IH(4) [OF u(2) [unfolded e]] show ?thesis
      unfolding Suc u(3) e by simp
  qed
qed

lemma loop_break:
  assumes inv: "scanInv C s toks" and b: "breakAt (cMsg C) off o'" and n: "n \<le> limit" and g: "0 < g"
  shows "loopResult C d g limit n off toks (Some (o', n, s))"
proof -
  have k: "k = 0" if "scanSeq (cMsg C) d (g * k) off ts ob" for ts k ob
  proof (rule ccontr)
    assume "k \<noteq> 0"
    then obtain j where j: "g * k = Suc j" using g by (cases "g * k") auto
    have "scanSeq (cMsg C) d (Suc j) off ts ob" using that j by simp
    then obtain ts1 o1 where "scanItem (cMsg C) d off ts1 o1" unfolding scanSeq_split by blast
    then show False using scanItem_no_break b by blast
  qed
  have s: "scanSeq (cMsg C) d (g * 0) off [] off" by simp
  have u: "o' = o2 \<and> n = n + k \<and> [] = ts"
    if "scanSeq (cMsg C) d (g * k) off ts ob" "breakAt (cMsg C) ob o2" for ts k ob o2
    using k [OF that(1)] that breakAt_unique [OF b] by auto
  show ?thesis
    unfolding loopResult_def
    using inv n b s u by (intro exI [of _ o'] exI [of _ n] exI [of _ s] exI [of _ "[]"]) (auto 4 3)
qed

lemma loop_stop:
  assumes inv: "scanInv C s (toks @ new)"
    and none: "\<And>ts k ob o'. staticPool C \<Longrightarrow> scanSeq (cMsg C) d (g * k) off ts ob \<Longrightarrow> breakAt (cMsg C) ob o' \<Longrightarrow>
      n + k \<le> limit \<Longrightarrow> tokensFit (cTotal C) (length toks + length ts) \<Longrightarrow> False"
  shows "loopResult C d g limit n off toks (Some (0, m, s))"
  unfolding loopResult_def using assms by (intro exI [of _ 0] exI [of _ m] exI [of _ s] exI [of _ new]) blast

lemma loop_step:
  assumes seq: "scanSeq (cMsg C) d g off new1 off1" and nb: "\<And>ob. \<not> breakAt (cMsg C) off ob"
    and uniq: "\<And>ts1 o1 ts2. staticPool C \<Longrightarrow> scanSeq (cMsg C) d g off ts1 o1 \<Longrightarrow>
      tokensFit (cTotal C) (length toks + length (ts1 @ ts2)) \<Longrightarrow> off1 = o1 \<and> new1 = ts1"
    and rec: "loopResult C d g limit (n + 1) off1 (toks @ new1) r"
  shows "loopResult C d g limit n off toks r"
proof -
  from rec obtain off' m s' new where r: "r = Some (off', m, s')" "scanInv C s' ((toks @ new1) @ new)"
    and snd: "off' \<noteq> 0 \<longrightarrow> (\<exists>k ob. m = n + 1 + k \<and> m \<le> limit \<and> scanSeq (cMsg C) d (g * k) off1 new ob \<and>
       breakAt (cMsg C) ob off')"
    and cmp: "staticPool C \<longrightarrow> (\<forall>ts k ob o'. scanSeq (cMsg C) d (g * k) off1 ts ob \<longrightarrow>
       breakAt (cMsg C) ob o' \<longrightarrow> n + 1 + k \<le> limit \<longrightarrow>
       tokensFit (cTotal C) (length (toks @ new1) + length ts) \<longrightarrow> off' = o' \<and> m = n + 1 + k \<and> new = ts)"
    unfolding loopResult_def by - (elim exE conjE, rule that)
  have snd': "off' \<noteq> 0 \<longrightarrow> (\<exists>k ob. m = n + k \<and> m \<le> limit \<and> scanSeq (cMsg C) d (g * k) off (new1 @ new) ob \<and>
       breakAt (cMsg C) ob off')"
  proof
    assume "off' \<noteq> 0"
    with snd obtain k ob where k: "m = n + 1 + k" "m \<le> limit" "scanSeq (cMsg C) d (g * k) off1 new ob"
      "breakAt (cMsg C) ob off'" by blast
    have "scanSeq (cMsg C) d (g + g * k) off (new1 @ new) ob" using seq k(3) scanSeq_append by blast
    then show "\<exists>k ob. m = n + k \<and> m \<le> limit \<and> scanSeq (cMsg C) d (g * k) off (new1 @ new) ob \<and>
       breakAt (cMsg C) ob off'"
      using k by (intro exI [of _ "Suc k"] exI [of _ ob]) simp
  qed
  have cmp': "off' = o' \<and> m = n + k \<and> new1 @ new = ts"
    if st: "staticPool C" and z: "scanSeq (cMsg C) d (g * k) off ts ob" "breakAt (cMsg C) ob o'"
      "n + k \<le> limit" "tokensFit (cTotal C) (length toks + length ts)" for ts k ob o'
  proof -
    have "k \<noteq> 0" using z(1,2) nb by (metis mult_0_right scanSeq_0)
    then obtain j where j: "k = Suc j" by (cases k) auto
    then have "scanSeq (cMsg C) d (g + g * j) off ts ob" using z(1) by simp
    then obtain ts1 o1 ts2 where c: "scanSeq (cMsg C) d g off ts1 o1" "scanSeq (cMsg C) d (g * j) o1 ts2 ob"
      "ts = ts1 @ ts2" by (auto simp: scanSeq_append)
    have u: "off1 = o1 \<and> new1 = ts1" using uniq [OF st c(1), of ts2] z(4) c(3) by simp
    then have "off' = o' \<and> m = n + 1 + j \<and> new = ts2"
      using cmp [rule_format, OF st, of j ts2 ob o'] c z j by (simp add: add.assoc)
    then show ?thesis using u c(3) j by simp
  qed
  show ?thesis
    unfolding loopResult_def
  proof (rule exI [of _ off'], rule exI [of _ m], rule exI [of _ s'], rule exI [of _ "new1 @ new"], intro conjI)
    show "scanInv C s' (toks @ new1 @ new)" using r(2) by (simp only: append_assoc)
  qed (use r(1) snd' cmp' in \<open>blast+\<close>)
qed

lemma loop_group:
  assumes "scanSeq msg d (g * k) off ts ob" "breakAt msg ob o'" "\<And>ob. \<not> breakAt msg off ob"
  obtains j ts1 o1 ts2 where "k = Suc j" "scanSeq msg d g off ts1 o1" "ts = ts1 @ ts2"
proof -
  have "k \<noteq> 0" using assms by (metis mult_0_right scanSeq_0)
  then obtain j where j: "k = Suc j" by (cases k) auto
  then have "scanSeq msg d (g + g * j) off ts ob" using assms(1) by simp
  then show thesis using that j by (auto simp: scanSeq_append)
qed

lemma scanSeq_1: "scanSeq msg d (Suc 0) off ts o' \<longleftrightarrow> scanItem msg d off ts o'"
  by (auto simp: scanSeq_split)

lemma scanSeq_2:
  "scanSeq msg d 2 off ts o' \<longleftrightarrow>
     (\<exists>ts1 o1 ts2. scanItem msg d off ts1 o1 \<and> scanItem msg d o1 ts2 o' \<and> ts = ts1 @ ts2)"
  by (simp add: numeral_2_eq_2 scanSeq_split [of _ _ "Suc 0"] scanSeq_1)

lemma scanIndefArrayLoop_ok:
  assumes sc: "scannerOk C d sc"
  shows "scanInv C s toks \<Longrightarrow> 0 < off \<Longrightarrow> off < 65536 \<Longrightarrow> n \<le> MAX_ARRAY \<Longrightarrow>
    loopResult C d 1 MAX_ARRAY n off toks (scanIndefArrayLoop sc n off s)"
proof (induction "MAX_ARRAY - n" arbitrary: n s toks off rule: less_induct)
  case less
  show ?case
  proof (cases "breakAt (cMsg C) off (off + 1)")
    case True
    have "scanIndefArrayLoop sc n off s = Some (off + 1, n, s)"
      using scannerOk_break [OF sc less.prems(1,3) True] by (subst scanIndefArrayLoop.simps) simp
    then show ?thesis using loop_break [OF less.prems(1) True less.prems(4), of 1] by simp
  next
    case False
    have nb: "\<not> breakAt (cMsg C) off ob" for ob using False by (auto simp: breakAt_def)
    obtain off1 s1 new1 where r: "sc True off s = Some (off1, False, s1)" "scanInv C s1 (toks @ new1)"
      "off1 \<noteq> 0 \<longrightarrow> scanItem (cMsg C) d off new1 off1"
      "staticPool C \<longrightarrow> (\<forall>ts o'. scanItem (cMsg C) d off ts o' \<longrightarrow>
         tokensFit (cTotal C) (length toks + length ts) \<longrightarrow> off1 = o' \<and> new1 = ts)"
      by (rule scannerOk_item [OF sc less.prems(1,3), of True]) (use False in auto)
    have uniq: "off1 = o1 \<and> new1 = ts1"
      if "staticPool C" "scanSeq (cMsg C) d 1 off ts1 o1"
        "tokensFit (cTotal C) (length toks + length (ts1 @ ts2))" for ts1 ts2 o1
      using that r(4) tokensFit_mono [OF that(3), of "length toks + length ts1"] by (simp add: scanSeq_1)
    show ?thesis
    proof (cases "off1 = 0 \<or> n \<ge> MAX_ARRAY")
      case True
      have "loopResult C d 1 MAX_ARRAY n off toks (Some (0, n, s1))"
      proof (rule loop_stop [OF r(2)])
        fix ts k ob o'
        assume a: "staticPool C" "scanSeq (cMsg C) d (1 * k) off ts ob" "breakAt (cMsg C) ob o'"
          "n + k \<le> MAX_ARRAY" "tokensFit (cTotal C) (length toks + length ts)"
        from loop_group [OF a(2,3) nb] obtain j ts1 o1 ts2
          where g: "k = Suc j" "scanSeq (cMsg C) d 1 off ts1 o1" "ts = ts1 @ ts2" .
        then have "off1 = o1" using uniq [OF a(1) g(2), of ts2] a(5) by simp
        moreover have "0 < o1" using scanItem_lt [OF _ less.prems(1)] g(2) by (simp add: scanSeq_1)
        ultimately show False using True a(4) g(1) by simp
      qed
      moreover have "scanIndefArrayLoop sc n off s = Some (0, n, s1)"
        using r(1) True by (subst scanIndefArrayLoop.simps) auto
      ultimately show ?thesis by simp
    next
      case False
      then have i: "scanItem (cMsg C) d off new1 off1" using r(3) by simp
      have o1: "0 < off1" "off1 < 65536" using scanItem_lt [OF i less.prems(1)] by simp_all
      have "loopResult C d 1 MAX_ARRAY (n + 1) off1 (toks @ new1) (scanIndefArrayLoop sc (n + 1) off1 s1)"
        using False by (intro less.hyps r(2) o1) auto
      from loop_step [OF _ nb uniq this] i
      have "loopResult C d 1 MAX_ARRAY n off toks (scanIndefArrayLoop sc (n + 1) off1 s1)"
        by (simp add: scanSeq_1)
      moreover have "scanIndefArrayLoop sc n off s = scanIndefArrayLoop sc (n + 1) off1 s1"
        using r(1) False by (subst scanIndefArrayLoop.simps) simp
      ultimately show ?thesis by simp
    qed
  qed
qed

lemma scanIndefMapLoop_ok:
  assumes sc: "scannerOk C d sc"
  shows "scanInv C s toks \<Longrightarrow> 0 < off \<Longrightarrow> off < 65536 \<Longrightarrow> n \<le> MAX_MAP \<Longrightarrow>
    loopResult C d 2 MAX_MAP n off toks (scanIndefMapLoop sc n off s)"
proof (induction "MAX_MAP - n" arbitrary: n s toks off rule: less_induct)
  case less
  show ?case
  proof (cases "breakAt (cMsg C) off (off + 1)")
    case True
    have "scanIndefMapLoop sc n off s = Some (off + 1, n, s)"
      using scannerOk_break [OF sc less.prems(1,3) True] by (subst scanIndefMapLoop.simps) simp
    then show ?thesis using loop_break [OF less.prems(1) True less.prems(4), of 2] by simp
  next
    case False
    have nb: "\<not> breakAt (cMsg C) off ob" for ob using False by (auto simp: breakAt_def)
    obtain off1 s1 new1 where r: "sc True off s = Some (off1, False, s1)" "scanInv C s1 (toks @ new1)"
      "off1 \<noteq> 0 \<longrightarrow> scanItem (cMsg C) d off new1 off1"
      "staticPool C \<longrightarrow> (\<forall>ts o'. scanItem (cMsg C) d off ts o' \<longrightarrow>
         tokensFit (cTotal C) (length toks + length ts) \<longrightarrow> off1 = o' \<and> new1 = ts)"
      by (rule scannerOk_item [OF sc less.prems(1,3), of True]) (use False in auto)
    have uniq: "off1 = o1 \<and> new1 = ts1"
      if "staticPool C" "scanItem (cMsg C) d off ts1 o1"
        "tokensFit (cTotal C) (length toks + length (ts1 @ ts2))" for ts1 ts2 o1
      using that r(4) tokensFit_mono [OF that(3), of "length toks + length ts1"] by simp
    show ?thesis
    proof (cases "off1 = 0 \<or> n \<ge> MAX_MAP")
      case True
      have "loopResult C d 2 MAX_MAP n off toks (Some (0, n, s1))"
      proof (rule loop_stop [OF r(2)])
        fix ts k ob o'
        assume a: "staticPool C" "scanSeq (cMsg C) d (2 * k) off ts ob" "breakAt (cMsg C) ob o'"
          "n + k \<le> MAX_MAP" "tokensFit (cTotal C) (length toks + length ts)"
        from loop_group [OF a(2,3) nb] obtain j us o2 ts3
          where g: "k = Suc j" "scanSeq (cMsg C) d 2 off us o2" "ts = us @ ts3" .
        then obtain ts1 o1 ts2 where h: "scanItem (cMsg C) d off ts1 o1" "us = ts1 @ ts2"
          by (auto simp: scanSeq_2)
        then have "off1 = o1" using uniq [OF a(1) h(1), of "ts2 @ ts3"] a(5) g(3) by simp
        moreover have "0 < o1" using scanItem_lt [OF h(1) less.prems(1)] by simp
        ultimately show False using True a(4) g(1) by simp
      qed
      moreover have "scanIndefMapLoop sc n off s = Some (0, n, s1)"
        using r(1) True by (subst scanIndefMapLoop.simps) auto
      ultimately show ?thesis by simp
    next
      case False
      then have i: "scanItem (cMsg C) d off new1 off1" using r(3) by simp
      have o1: "0 < off1" "off1 < 65536" using scanItem_lt [OF i less.prems(1)] by simp_all
      obtain off2 s2 new2 where q: "sc False off1 s1 = Some (off2, False, s2)"
        "scanInv C s2 ((toks @ new1) @ new2)" "off2 \<noteq> 0 \<longrightarrow> scanItem (cMsg C) d off1 new2 off2"
        "staticPool C \<longrightarrow> (\<forall>ts o'. scanItem (cMsg C) d off1 ts o' \<longrightarrow>
           tokensFit (cTotal C) (length (toks @ new1) + length ts) \<longrightarrow> off2 = o' \<and> new2 = ts)"
        by (rule scannerOk_item [OF sc r(2) o1(2), of False]) auto
      have both: "off2 = o2 \<and> new1 @ new2 = us"
        if st: "staticPool C" and z: "scanSeq (cMsg C) d 2 off us o2"
          and f: "tokensFit (cTotal C) (length toks + length (us @ ts3))" for us o2 ts3
      proof -
        from z obtain ts1 p1 ts2 where h: "scanItem (cMsg C) d off ts1 p1" "scanItem (cMsg C) d p1 ts2 o2"
          "us = ts1 @ ts2" by (auto simp: scanSeq_2)
        have "off1 = p1 \<and> new1 = ts1" using uniq [OF st h(1), of "ts2 @ ts3"] f h(3) by simp
        then show ?thesis
          using q(4) st h f tokensFit_mono [OF f, of "length (toks @ new1) + length ts2"] by simp
      qed
      show ?thesis
      proof (cases "off2 = 0")
        case True
        have "loopResult C d 2 MAX_MAP n off toks (Some (0, n + 1, s2))"
        proof (rule loop_stop [of _ _ _ "new1 @ new2"])
          show "scanInv C s2 (toks @ new1 @ new2)" using q(2) by simp
          fix ts k ob o'
          assume a: "staticPool C" "scanSeq (cMsg C) d (2 * k) off ts ob" "breakAt (cMsg C) ob o'"
            "n + k \<le> MAX_MAP" "tokensFit (cTotal C) (length toks + length ts)"
          from loop_group [OF a(2,3) nb] obtain j us o2 ts3
            where g: "k = Suc j" "scanSeq (cMsg C) d 2 off us o2" "ts = us @ ts3" .
          have "off2 = o2" using both [OF a(1) g(2), of ts3] a(5) g(3) by simp
          moreover have "0 < o2" using scanSeq_lt [OF g(2) less.prems(1-3)] by simp
          ultimately show False using True by simp
        qed
        moreover have "scanIndefMapLoop sc n off s = Some (0, n + 1, s2)"
          using r(1) q(1) True False by (subst scanIndefMapLoop.simps) simp
        ultimately show ?thesis by simp
      next
        case two: False
        then have i2: "scanItem (cMsg C) d off1 new2 off2" using q(3) by simp
        have o2: "0 < off2" "off2 < 65536" using scanItem_lt [OF i2 r(2)] by simp_all
        have s2: "scanSeq (cMsg C) d 2 off (new1 @ new2) off2" using i i2 by (auto simp: scanSeq_2)
        have inv2: "scanInv C s2 (toks @ new1 @ new2)" using q(2) by simp
        have "loopResult C d 2 MAX_MAP (n + 1) off2 (toks @ new1 @ new2) (scanIndefMapLoop sc (n + 1) off2 s2)"
          using False by (intro less.hyps inv2 o2) auto
        from loop_step [OF s2 nb both this]
        have "loopResult C d 2 MAX_MAP n off toks (scanIndefMapLoop sc (n + 1) off2 s2)" .
        moreover have "scanIndefMapLoop sc n off s = scanIndefMapLoop sc (n + 1) off2 s2"
          using r(1) q(1) False two by (subst scanIndefMapLoop.simps) simp
        ultimately show ?thesis by simp
      qed
    qed
  qed
qed

text \<open>
  The frame that the four container functions share: the token is appended, the body scans the
  nested items and settles the token, and the token is closed.
\<close>

definition scanContainer ::
    "(scanState \<Rightarrow> (nat \<times> cborToken \<times> scanState) option) \<Rightarrow> cborToken \<Rightarrow> scanState \<Rightarrow>
     (nat \<times> scanState) option" where
  "scanContainer body token s = do {
     let tokenLocation = gmosBufferGetSize (tokenBuffer (snd s));
     (ok, s) \<leftarrow> appendToken token s;
     if \<not> ok then Some (0, s)
     else do {
       (newTokenOffset, token, s) \<leftarrow> body s;
       if newTokenOffset = 0 then Some (0, s)
       else closeToken token tokenLocation newTokenOffset s } }"

definition bodyResult ::
    "scanCtx \<Rightarrow> (cborToken \<Rightarrow> cborToken list \<Rightarrow> nat \<Rightarrow> bool) \<Rightarrow> cborToken list \<Rightarrow>
     (nat \<times> cborToken \<times> scanState) option \<Rightarrow> bool" where
  "bodyResult C P toks r \<longleftrightarrow>
     (\<exists>off' u s' new. r = Some (off', u, s') \<and> scanInv C s' (toks @ new) \<and>
        (off' \<noteq> 0 \<longrightarrow> P u new off') \<and>
        (staticPool C \<longrightarrow> (\<forall>v ts o'. P v ts o' \<longrightarrow>
           tokensFit (cTotal C) (length toks + length ts) \<longrightarrow> off' = o' \<and> u = v \<and> new = ts)))"

lemma itemResult_fail:
  assumes "scanInv C s (toks @ new)"
    and "\<And>ts o'. staticPool C \<Longrightarrow> scanItem (cMsg C) d off ts o' \<Longrightarrow>
      tokensFit (cTotal C) (length toks + length ts) \<Longrightarrow> False"
  shows "itemResult C d off toks (Some (0, s))"
  unfolding itemResult_def
  by (rule exI [of _ 0], rule exI [of _ s], rule exI [of _ new]) (use assms in blast)

lemma scanContainer_ok:
  assumes inv: "scanInv C s toks"
    and body: "\<And>s1. scanInv C s1 (toks @ [t]) \<Longrightarrow> bodyResult C P (toks @ [t]) (body s1)"
    and item: "\<And>ts o'. scanItem (cMsg C) d off ts o' \<longleftrightarrow> (\<exists>u us. P u us o' \<and> ts = closed u us)"
  shows "itemResult C d off toks (scanContainer body t s)"
proof -
  have pos: "o' \<noteq> 0" if "P u us o'" for u us o'
    using that item scanItem_lt [OF _ inv] by blast
  obtain p parser where s: "s = (p, parser)" by (cases s)
  have loc: "gmosBufferGetSize (tokenBuffer (snd s)) = 16 * length toks"
    using scanInv_len(4) [OF inv [unfolded s]] s by simp
  obtain ok s1 where a: "appendToken t s = Some (ok, s1)"
    "scanInv C s1 (if ok then toks @ [t] else toks)"
    "staticPool C \<Longrightarrow> ok = tokensFit (cTotal C) (Suc (length toks))"
    by (rule appendToken_ok [OF inv, where t = t]) (rule that)
  show ?thesis
  proof (cases ok)
    case False
    have "\<not> tokensFit (cTotal C) (length toks + length ts)"
      if "staticPool C" "scanItem (cMsg C) d off ts o'" for ts o'
    proof
      assume f: "tokensFit (cTotal C) (length toks + length ts)"
      have "ts \<noteq> []" using scanItem_lt [OF that(2) inv] by simp
      then have "tokensFit (cTotal C) (Suc (length toks))"
        by (intro tokensFit_mono [OF f]) (simp add: Suc_le_eq)
      then show False using a(3) that(1) False by simp
    qed
    moreover have "scanContainer body t s = Some (0, s1)" using a(1) False by (simp add: scanContainer_def)
    moreover have "scanInv C s1 (toks @ [])" using a(2) False by simp
    ultimately show ?thesis using itemResult_fail by metis
  next
    case True
    then have i1: "scanInv C s1 (toks @ [t])" using a(2) by simp
    from body [OF i1] obtain off' u s2 new where r: "body s1 = Some (off', u, s2)"
      "scanInv C s2 ((toks @ [t]) @ new)" "off' \<noteq> 0 \<longrightarrow> P u new off'"
      "staticPool C \<longrightarrow> (\<forall>v ts o'. P v ts o' \<longrightarrow>
         tokensFit (cTotal C) (length (toks @ [t]) + length ts) \<longrightarrow> off' = o' \<and> u = v \<and> new = ts)"
      unfolding bodyResult_def by - (elim exE conjE, rule that)
    have i2: "scanInv C s2 (toks @ t # new)" using r(2) by simp
    have cmp: "off' = o' \<and> closed u new = ts"
      if st: "staticPool C" and z: "scanItem (cMsg C) d off ts o'"
        and f: "tokensFit (cTotal C) (length toks + length ts)" for ts o'
    proof -
      obtain v us where "P v us o'" "ts = closed v us" using z item by blast
      then show ?thesis using r(4) st f by (simp add: closed_def)
    qed
    show ?thesis
    proof (cases "off' = 0")
      case True
      have "scanContainer body t s = Some (0, s2)" using a(1) r(1) \<open>ok\<close> True by (simp add: scanContainer_def)
      moreover have "itemResult C d off toks (Some (0, s2))"
        using cmp scanItem_lt [OF _ inv] True by (intro itemResult_fail [OF i2]) blast
      ultimately show ?thesis by simp
    next
      case False
      obtain s3 where c: "closeToken u (16 * length toks) off' s2 = Some (off', s3)"
        "scanInv C s3 (toks @ closed u new)" by (rule closeToken_ok [OF i2])
      have "scanContainer body t s = Some (off', s3)"
        using a(1) r(1) c(1) \<open>ok\<close> False loc by (simp add: scanContainer_def)
      moreover have "scanItem (cMsg C) d off (closed u new) off'" using r(3) False item by blast
      ultimately show ?thesis
        unfolding itemResult_def using c(2) cmp
        by - (rule exI [of _ off'], rule exI [of _ s3], rule exI [of _ "closed u new"], blast)
    qed
  qed
qed

definition nextOk :: "scanCtx \<Rightarrow> nat \<Rightarrow> scanner option \<Rightarrow> bool" where
  "nextOk C d nxt \<longleftrightarrow>
     (case nxt of None \<Rightarrow> d = 0 | Some sc \<Rightarrow> \<exists>d'. d = Suc d' \<and> scannerOk C d' sc)"

lemma seqResult_body:
  assumes "seqResult C d n off toks r"
  shows "bodyResult C (\<lambda>u us o'. u = t \<and> scanSeq (cMsg C) d n off us o') toks
    (map_option (\<lambda>(off', s'). (off', t, s')) r)"
proof -
  from assms obtain off' s' new where "r = Some (off', s')" "scanInv C s' (toks @ new)"
    "off' \<noteq> 0 \<longrightarrow> scanSeq (cMsg C) d n off new off'"
    "staticPool C \<longrightarrow> (\<forall>ts o'. scanSeq (cMsg C) d n off ts o' \<longrightarrow>
       tokensFit (cTotal C) (length toks + length ts) \<longrightarrow> off' = o' \<and> new = ts)"
    unfolding seqResult_def by - (elim exE conjE, rule that)
  then show ?thesis
    unfolding bodyResult_def
    by - (rule exI [of _ off'], rule exI [of _ t], rule exI [of _ s'], rule exI [of _ new], simp)
qed

lemma loopResult_body:
  assumes "loopResult C d g limit 0 off toks r"
  shows "bodyResult C (\<lambda>u us o'. \<exists>n ob. u = t\<lparr>typeParam := n\<rparr> \<and> n \<le> limit \<and>
      scanSeq (cMsg C) d (g * n) off us ob \<and> breakAt (cMsg C) ob o') toks
    (map_option (\<lambda>(off', n, s'). (off', t\<lparr>typeParam := n\<rparr>, s')) r)"
proof -
  from assms obtain off' m s' new where r: "r = Some (off', m, s')" "scanInv C s' (toks @ new)"
    and snd: "off' \<noteq> 0 \<longrightarrow> (\<exists>k ob. m = 0 + k \<and> m \<le> limit \<and> scanSeq (cMsg C) d (g * k) off new ob \<and>
       breakAt (cMsg C) ob off')"
    and cmp: "staticPool C \<longrightarrow> (\<forall>ts k ob o'. scanSeq (cMsg C) d (g * k) off ts ob \<longrightarrow>
       breakAt (cMsg C) ob o' \<longrightarrow> 0 + k \<le> limit \<longrightarrow>
       tokensFit (cTotal C) (length toks + length ts) \<longrightarrow> off' = o' \<and> m = 0 + k \<and> new = ts)"
    unfolding loopResult_def by - (elim exE conjE, rule that)
  show ?thesis
    unfolding bodyResult_def r(1)
  proof (rule exI [of _ off'], rule exI [of _ "t\<lparr>typeParam := m\<rparr>"], rule exI [of _ s'],
      rule exI [of _ new], intro conjI)
    show "off' \<noteq> 0 \<longrightarrow> (\<exists>n ob. t\<lparr>typeParam := m\<rparr> = t\<lparr>typeParam := n\<rparr> \<and> n \<le> limit \<and>
        scanSeq (cMsg C) d (g * n) off new ob \<and> breakAt (cMsg C) ob off')"
      using snd by fastforce
    show "staticPool C \<longrightarrow> (\<forall>v ts o'. (\<exists>n ob. v = t\<lparr>typeParam := n\<rparr> \<and> n \<le> limit \<and>
        scanSeq (cMsg C) d (g * n) off ts ob \<and> breakAt (cMsg C) ob o') \<longrightarrow>
        tokensFit (cTotal C) (length toks + length ts) \<longrightarrow>
        off' = o' \<and> t\<lparr>typeParam := m\<rparr> = v \<and> new = ts)"
      using cmp by fastforce
  qed (use r(2) in simp_all)
qed

lemma dataOff_bounds:
  assumes inv: "scanInv C s toks" and h: "headAt (cMsg C) off = Some t"
  shows "0 < dataOff t" "dataOff t < 65536"
proof -
  have len: "length (cMsg C) < 65536" using scanInv_len(1) [of C "fst s" "snd s" toks] inv by simp
  show "0 < dataOff t" "dataOff t < 65536"
    using headAt_ok(5,6) [OF h len] len by (simp_all add: dataOff_def)
qed

lemma ScanFixedArray_ok:
  assumes inv: "scanInv C s toks" and h: "headAt (cMsg C) off = Some t" "majorOf t = majorByte ARRAY"
    and indef: "\<not> indefinite t" and nxt: "nextOk C d nxt"
  shows "itemResult C d off toks (gmosFormatCborParserScanFixedArray nxt t s)"
proof (cases "nxt = None \<or> \<not> typeParam t \<le> MAX_ARRAY")
  case True
  then have "gmosFormatCborParserScanFixedArray nxt t s = Some (0, s)"
    by (auto simp: gmosFormatCborParserScanFixedArray_def split: option.split)
  moreover have "itemResult C d off toks (Some (0, s))"
    by (rule itemResult_fail [of _ _ _ "[]"])
      (use True inv nxt scanItem_fixedArray [OF h indef] in \<open>auto simp: nextOk_def\<close>)
  ultimately show ?thesis by simp
next
  case False
  then obtain sc d' where n: "nxt = Some sc" "d = Suc d'" "scannerOk C d' sc" "typeParam t \<le> MAX_ARRAY"
    using nxt by (auto simp: nextOk_def)
  let ?body = "\<lambda>s. map_option (\<lambda>(off', s'). (off', t, s')) (scanItems sc (typeParam t) (dataOff t) s)"
  have o: "0 < dataOff t" "dataOff t < 65536" by (rule dataOff_bounds [OF inv h(1)])+
  have u: "u32 (typeParam t) = typeParam t"
    using n(4) MAX_less(1) by (simp del: MAX_less)
  have "gmosFormatCborParserScanFixedArray nxt t s = scanContainer ?body t s"
    using n(1,4) u
    by (auto simp: gmosFormatCborParserScanFixedArray_def scanContainer_def Let_def dataOff_def
        Option.bind_map_option comp_def split: Option.bind_split prod.splits)
  moreover have "itemResult C d off toks (scanContainer ?body t s)"
  proof (rule scanContainer_ok [OF inv])
    fix s1 assume i: "scanInv C s1 (toks @ [t])"
    show "bodyResult C (\<lambda>u us o'. u = t \<and> scanSeq (cMsg C) d' (typeParam t) (dataOff t) us o')
        (toks @ [t]) (?body s1)"
      by (rule seqResult_body [OF scanItems_ok [OF n(3) i o]])
  qed (use scanItem_fixedArray [OF h indef] n(2,4) in auto)
  ultimately show ?thesis by simp
qed

lemma ScanFixedMap_ok:
  assumes inv: "scanInv C s toks" and h: "headAt (cMsg C) off = Some t" "majorOf t = majorByte MAP"
    and indef: "\<not> indefinite t" and nxt: "nextOk C d nxt"
  shows "itemResult C d off toks (gmosFormatCborParserScanFixedMap nxt t s)"
proof (cases "nxt = None \<or> \<not> typeParam t \<le> MAX_MAP")
  case True
  then have "gmosFormatCborParserScanFixedMap nxt t s = Some (0, s)"
    by (auto simp: gmosFormatCborParserScanFixedMap_def split: option.split)
  moreover have "itemResult C d off toks (Some (0, s))"
    by (rule itemResult_fail [of _ _ _ "[]"])
      (use True inv nxt scanItem_fixedMap [OF h indef] in \<open>auto simp: nextOk_def\<close>)
  ultimately show ?thesis by simp
next
  case False
  then obtain sc d' where n: "nxt = Some sc" "d = Suc d'" "scannerOk C d' sc" "typeParam t \<le> MAX_MAP"
    using nxt by (auto simp: nextOk_def)
  let ?body = "\<lambda>s. map_option (\<lambda>(off', s'). (off', t, s')) (scanItems sc (2 * typeParam t) (dataOff t) s)"
  have o: "0 < dataOff t" "dataOff t < 65536" by (rule dataOff_bounds [OF inv h(1)])+
  have u: "u32 (typeParam t) = typeParam t" using n(4) MAX_less(2) by (simp del: MAX_less)
  have "gmosFormatCborParserScanFixedMap nxt t s = scanContainer ?body t s"
    using n(1,4) u
    by (auto simp: gmosFormatCborParserScanFixedMap_def scanContainer_def Let_def dataOff_def
        Option.bind_map_option comp_def split: Option.bind_split prod.splits)
  moreover have "itemResult C d off toks (scanContainer ?body t s)"
  proof (rule scanContainer_ok [OF inv])
    fix s1 assume i: "scanInv C s1 (toks @ [t])"
    show "bodyResult C (\<lambda>u us o'. u = t \<and> scanSeq (cMsg C) d' (2 * typeParam t) (dataOff t) us o')
        (toks @ [t]) (?body s1)"
      by (rule seqResult_body [OF scanItems_ok [OF n(3) i o]])
  qed (use scanItem_fixedMap [OF h indef] n(2,4) in auto)
  ultimately show ?thesis by simp
qed

lemma ScanIndefArray_ok:
  assumes inv: "scanInv C s toks" and h: "headAt (cMsg C) off = Some t" "majorOf t = majorByte ARRAY"
    and indef: "indefinite t" and nxt: "nextOk C d nxt"
  shows "itemResult C d off toks (gmosFormatCborParserScanIndefArray nxt t s)"
proof (cases nxt)
  case None
  then have "gmosFormatCborParserScanIndefArray nxt t s = Some (0, s)"
    by (simp add: gmosFormatCborParserScanIndefArray_def)
  moreover have "itemResult C d off toks (Some (0, s))"
    by (rule itemResult_fail [of _ _ _ "[]"])
      (use None inv nxt scanItem_indefArray [OF h indef] in \<open>auto simp: nextOk_def\<close>)
  ultimately show ?thesis by simp
next
  case (Some sc)
  then obtain d' where n: "d = Suc d'" "scannerOk C d' sc" using nxt by (auto simp: nextOk_def)
  let ?body = "\<lambda>s. map_option (\<lambda>(off', n, s'). (off', t\<lparr>typeParam := n\<rparr>, s'))
    (scanIndefArrayLoop sc 0 (dataOff t) s)"
  have o: "0 < dataOff t" "dataOff t < 65536" by (rule dataOff_bounds [OF inv h(1)])+
  have "gmosFormatCborParserScanIndefArray nxt t s = scanContainer ?body t s"
    using Some
    by (auto simp: gmosFormatCborParserScanIndefArray_def scanContainer_def Let_def dataOff_def
        Option.bind_map_option comp_def split: Option.bind_split prod.splits)
  moreover have "itemResult C d off toks (scanContainer ?body t s)"
  proof (rule scanContainer_ok [OF inv])
    fix s1 assume i: "scanInv C s1 (toks @ [t])"
    show "bodyResult C (\<lambda>u us o'. \<exists>n ob. u = t\<lparr>typeParam := n\<rparr> \<and> n \<le> MAX_ARRAY \<and>
        scanSeq (cMsg C) d' (1 * n) (dataOff t) us ob \<and> breakAt (cMsg C) ob o') (toks @ [t]) (?body s1)"
      by (rule loopResult_body [OF scanIndefArrayLoop_ok [OF n(2) i o]]) simp
  qed (use scanItem_indefArray [OF h indef] n(1) in auto)
  ultimately show ?thesis by simp
qed

lemma ScanIndefMap_ok:
  assumes inv: "scanInv C s toks" and h: "headAt (cMsg C) off = Some t" "majorOf t = majorByte MAP"
    and indef: "indefinite t" and nxt: "nextOk C d nxt"
  shows "itemResult C d off toks (gmosFormatCborParserScanIndefMap nxt t s)"
proof (cases nxt)
  case None
  then have "gmosFormatCborParserScanIndefMap nxt t s = Some (0, s)"
    by (simp add: gmosFormatCborParserScanIndefMap_def)
  moreover have "itemResult C d off toks (Some (0, s))"
    by (rule itemResult_fail [of _ _ _ "[]"])
      (use None inv nxt scanItem_indefMap [OF h indef] in \<open>auto simp: nextOk_def\<close>)
  ultimately show ?thesis by simp
next
  case (Some sc)
  then obtain d' where n: "d = Suc d'" "scannerOk C d' sc" using nxt by (auto simp: nextOk_def)
  let ?body = "\<lambda>s. map_option (\<lambda>(off', n, s'). (off', t\<lparr>typeParam := n\<rparr>, s'))
    (scanIndefMapLoop sc 0 (dataOff t) s)"
  have o: "0 < dataOff t" "dataOff t < 65536" by (rule dataOff_bounds [OF inv h(1)])+
  have "gmosFormatCborParserScanIndefMap nxt t s = scanContainer ?body t s"
    using Some
    by (auto simp: gmosFormatCborParserScanIndefMap_def scanContainer_def Let_def dataOff_def
        Option.bind_map_option comp_def split: Option.bind_split prod.splits)
  moreover have "itemResult C d off toks (scanContainer ?body t s)"
  proof (rule scanContainer_ok [OF inv])
    fix s1 assume i: "scanInv C s1 (toks @ [t])"
    show "bodyResult C (\<lambda>u us o'. \<exists>n ob. u = t\<lparr>typeParam := n\<rparr> \<and> n \<le> MAX_MAP \<and>
        scanSeq (cMsg C) d' (2 * n) (dataOff t) us ob \<and> breakAt (cMsg C) ob o') (toks @ [t]) (?body s1)"
      by (rule loopResult_body [OF scanIndefMapLoop_ok [OF n(2) i o]]) simp
  qed (use scanItem_indefMap [OF h indef] n(1) in auto)
  ultimately show ?thesis by simp
qed

lemma scanLeaf_ok:
  assumes inv: "scanInv C s toks"
    and item: "\<And>ts o'. scanItem (cMsg C) d off ts o' \<longleftrightarrow> 0 < off1 \<and> ts = [t] \<and> o' = off1"
  shows "itemResult C d off toks (do { (ok, s) \<leftarrow> appendToken t s; Some (if ok then off1 else 0, s) })"
proof -
  obtain ok s1 where a: "appendToken t s = Some (ok, s1)"
    "scanInv C s1 (if ok then toks @ [t] else toks)"
    "staticPool C \<Longrightarrow> ok = tokensFit (cTotal C) (Suc (length toks))"
    by (rule appendToken_ok [OF inv, where t = t]) (rule that)
  show ?thesis
  proof (cases "ok \<and> 0 < off1")
    case True
    then show ?thesis
      unfolding itemResult_def using a
      by - (rule exI [of _ off1], rule exI [of _ s1], rule exI [of _ "[t]"], simp add: item)
  next
    case False
    have "itemResult C d off toks (Some (0, s1))"
      by (rule itemResult_fail [of _ _ _ "if ok then [t] else []"]) (use a False item in \<open>auto split: if_splits\<close>)
    then show ?thesis using a(1) False by auto
  qed
qed

lemma ScanFixedString_ok:
  assumes inv: "scanInv C s toks" and h: "headAt (cMsg C) off = Some t"
    and m: "majorOf t = majorByte STR_BYTE \<or> majorOf t = majorByte STR_TEXT" and indef: "\<not> indefinite t"
  shows "itemResult C d off toks (gmosFormatCborParserScanFixedString t s)"
proof -
  let ?o = "u32 (dataOff t + typeParam t)"
  have sz: "gmosBufferGetSize (messageBuffer (snd s)) = length (cMsg C)"
    using scanInv_len(3) [of C "fst s" "snd s" toks] inv by simp
  note item = scanItem_string [OF h m]
  show ?thesis
  proof (cases "?o \<le> length (cMsg C)")
    case True
    then have "gmosFormatCborParserScanFixedString t s =
        (do { (ok, s) \<leftarrow> appendToken t s; Some (if ok then ?o else 0, s) })"
      unfolding gmosFormatCborParserScanFixedString_def sz dataOff_def Let_def by simp
    moreover have "itemResult C d off toks
        (do { (ok, s) \<leftarrow> appendToken t s; Some (if ok then ?o else 0, s) })"
      by (rule scanLeaf_ok [OF inv]) (use item indef True in auto)
    ultimately show ?thesis by simp
  next
    case False
    then have "gmosFormatCborParserScanFixedString t s = Some (0, s)"
      by (simp add: gmosFormatCborParserScanFixedString_def sz dataOff_def)
    moreover have "itemResult C d off toks (Some (0, s))"
      by (rule itemResult_fail [of _ _ _ "[]"]) (use False inv item in auto)
    ultimately show ?thesis by simp
  qed
qed

lemma ScanTag_ok:
  assumes inv: "scanInv C s toks" and h: "headAt (cMsg C) off = Some t" "majorOf t = majorByte TAG"
    and nxt: "nextOk C d nxt"
  shows "itemResult C d off toks (gmosFormatCborParserScanTag nxt t s)"
proof (cases nxt)
  case None
  then have "gmosFormatCborParserScanTag nxt t s = Some (0, s)"
    by (simp add: gmosFormatCborParserScanTag_def)
  moreover have "itemResult C d off toks (Some (0, s))"
    by (rule itemResult_fail [of _ _ _ "[]"])
      (use None inv nxt scanItem_tag [OF h] in \<open>auto simp: nextOk_def\<close>)
  ultimately show ?thesis by simp
next
  case (Some sc)
  then obtain d' where n: "d = Suc d'" "scannerOk C d' sc" using nxt by (auto simp: nextOk_def)
  have o: "0 < dataOff t" "dataOff t < 65536" by (rule dataOff_bounds [OF inv h(1)])+
  have loc: "gmosBufferGetSize (tokenBuffer (snd s)) = 16 * length toks"
    using scanInv_len(4) [of C "fst s" "snd s" toks] inv by simp
  have item: "scanItem (cMsg C) d off ts o' \<longleftrightarrow>
      (\<exists>us. scanItem (cMsg C) d' (dataOff t) us o' \<and> ts = closed t us)" for ts o'
    using scanItem_tag [OF h] n(1) by auto
  obtain ok s1 where a: "appendToken t s = Some (ok, s1)"
    "scanInv C s1 (if ok then toks @ [t] else toks)"
    "staticPool C \<Longrightarrow> ok = tokensFit (cTotal C) (Suc (length toks))"
    by (rule appendToken_ok [OF inv, where t = t]) (rule that)
  show ?thesis
  proof (cases ok)
    case False
    have "itemResult C d off toks (Some (0, s1))"
    proof (rule itemResult_fail [of _ _ _ "[]"])
      fix ts o'
      assume z: "staticPool C" "scanItem (cMsg C) d off ts o'" "tokensFit (cTotal C) (length toks + length ts)"
      then have "tokensFit (cTotal C) (Suc (length toks))"
        by (intro tokensFit_mono [OF z(3)]) (auto simp: item closed_def)
      then show False using a(3) z(1) False by simp
    qed (use a(2) False in simp)
    then show ?thesis using a(1) False Some by (simp add: gmosFormatCborParserScanTag_def)
  next
    case True
    then have i1: "scanInv C s1 (toks @ [t])" using a(2) by simp
    obtain off' s2 new where r: "sc False (dataOff t) s1 = Some (off', False, s2)"
      "scanInv C s2 ((toks @ [t]) @ new)" "off' \<noteq> 0 \<longrightarrow> scanItem (cMsg C) d' (dataOff t) new off'"
      "staticPool C \<longrightarrow> (\<forall>ts o'. scanItem (cMsg C) d' (dataOff t) ts o' \<longrightarrow>
         tokensFit (cTotal C) (length (toks @ [t]) + length ts) \<longrightarrow> off' = o' \<and> new = ts)"
      by (rule scannerOk_item [OF n(2) i1 o(2), of False]) auto
    have i2: "scanInv C s2 (toks @ t # new)" using r(2) by simp
    obtain s3 where c: "closeToken t (16 * length toks) off' s2 = Some (off', s3)"
      "scanInv C s3 (toks @ closed t new)" by (rule closeToken_ok [OF i2])
    have cmp: "off' = o' \<and> closed t new = ts"
      if st: "staticPool C" and z: "scanItem (cMsg C) d off ts o'"
        and f: "tokensFit (cTotal C) (length toks + length ts)" for ts o'
    proof -
      obtain us where "scanItem (cMsg C) d' (dataOff t) us o'" "ts = closed t us" using z item by blast
      then show ?thesis using r(4) st f by (simp add: closed_def)
    qed
    have "off' \<noteq> 0 \<longrightarrow> scanItem (cMsg C) d off (closed t new) off'" using r(3) item by blast
    then have "itemResult C d off toks (Some (off', s3))"
      unfolding itemResult_def using c(2) cmp
      by - (rule exI [of _ off'], rule exI [of _ s3], rule exI [of _ "closed t new"], blast)
    then show ?thesis using a(1) r(1) c(1) True Some loc
      by (simp add: gmosFormatCborParserScanTag_def dataOff_def)
  qed
qed

lemma major_table:
  "list_all (\<lambda>k. and (of_nat k :: byte) 0xE0 \<in> set [0, 0x20, 0x40, 0x60, 0x80, 0xA0, 0xC0, 0xE0]) [0..<256]"
  by code_simp

lemma byte_major:
  obtains m where "and (x :: byte) 0xE0 = majorByte m"
proof -
  have "unat x \<in> set [0..<256]" using unsigned_less [of x] by simp
  then have "and (of_nat (unat x)) 0xE0 \<in> set [0, 0x20, 0x40, 0x60, 0x80, 0xA0, 0xC0, 0xE0 :: byte]"
    using major_table unfolding list_all_iff by blast
  then have "\<exists>m. and x 0xE0 = majorByte m"
    by (auto simp: majorByte.simps intro: exI [of _ INT_POS] exI [of _ INT_NEG] exI [of _ STR_BYTE]
        exI [of _ STR_TEXT] exI [of _ ARRAY] exI [of _ MAP] exI [of _ TAG] exI [of _ SIMPLE])
  then show thesis using that by blast
qed

lemma break_head: "breakAt msg off o' \<Longrightarrow> \<exists>t. headAt msg off = Some t \<and> typeSpecifier t = 0xFF \<and> dataOff t = o'"
  by (simp add: breakAt_def headAt_def dataOff_def gmosFormatCborGetDataOffset_def)

lemma head_break: "headAt msg off = Some t \<Longrightarrow> typeSpecifier t = 0xFF \<Longrightarrow> breakAt msg off (dataOff t)"
  by (auto simp: breakAt_def headAt_def dataOff_def gmosFormatCborGetDataOffset_def Let_def split: if_splits)

lemma scanToken_ok:
  assumes nxt: "nextOk C d nxt"
  shows "scannerOk C d (scanToken nxt)"
  unfolding scannerOk_def
proof (intro allI impI)
  fix brk and off :: nat and s toks
  assume inv: "scanInv C s toks" and off: "off < 65536"
  obtain R where "buf_state (fst s) (messageBuffer (snd s)) (cMsg C) R"
    using scanInv_message [of C "fst s" "snd s" toks] inv by auto
  from DecodeWithParameter_ok [OF this off]
  have dec: "gmosFormatCborDecodeWithParameter (fst s) (messageBuffer (snd s)) off = Some (headAt (cMsg C) off)" .
  let ?br = "breakAt (cMsg C) off (off + 1)"
  show "if brk \<and> ?br then scanToken nxt brk off s = Some (off + 1, True, s)
    else \<exists>r. scanToken nxt brk off s = map_option (\<lambda>(off', s'). (off', False, s')) r \<and>
      itemResult C d off toks r"
  proof (cases "headAt (cMsg C) off")
    case None
    have "\<not> ?br" using break_head None by fastforce
    moreover have "itemResult C d off toks (Some (0, s))"
      by (rule itemResult_fail [of _ _ _ "[]"]) (use inv None scanItem_head in auto)
    moreover have "scanToken nxt brk off s = Some (0, False, s)" using dec None by (simp add: scanToken_def)
    ultimately show ?thesis by (auto intro!: exI [of _ "Some (0, s)"])
  next
    case (Some t)
    note h = Some
    obtain m where m: "majorOf t = majorByte m" by (rule byte_major) (simp add: majorOf_def)
    have m': "and (typeSpecifier t) 0xE0 = majorByte m" using m by (simp add: majorOf_def)
    have ff: "and (0xFF :: byte) 0xE0 = majorByte SIMPLE" by (simp add: majorByte.simps)
    have nb: "\<not> ?br" if "typeSpecifier t \<noteq> 0xFF"
      using break_head h that by fastforce
    have b1: "dataOff t = off + 1 \<and> ?br" if "typeSpecifier t = 0xFF"
      using head_break [OF h that] by (auto simp: breakAt_def)
    note step = scanToken_def dec h m' Option.bind.simps option.case Let_def majorByte_inject
    have notff: "typeSpecifier t \<noteq> 0xFF" if "m \<noteq> SIMPLE"
      using that m' ff majorByte_inject by metis
    have leaf: ?thesis if "typeSpecifier t \<noteq> 0xFF" "m \<in> {INT_POS, INT_NEG, SIMPLE}"
    proof -
      let ?r = "do { (ok, s) \<leftarrow> appendToken t s; Some (if ok then dataOff t else 0, s) }"
      have "scanToken nxt brk off s = map_option (\<lambda>(off', s'). (off', False, s')) ?r"
        using that m by (cases "appendToken t s") (auto simp: step dataOff_def)
      moreover have "itemResult C d off toks ?r"
        using that m scanItem_number [OF h] scanItem_simple [OF h] dataOff_bounds [OF inv h]
        by (intro scanLeaf_ok [OF inv]) auto
      ultimately show ?thesis using nb that by auto
    qed
    have other: ?thesis
      if "m \<noteq> SIMPLE" "scanToken nxt brk off s = map_option (\<lambda>(off', s'). (off', False, s')) r"
        "itemResult C d off toks r" for r
      using that nb [OF notff] by auto
    show ?thesis
    proof (cases m)
      case INT_POS
      then show ?thesis using notff by (intro leaf) simp_all
    next
      case INT_NEG
      then show ?thesis using notff by (intro leaf) simp_all
    next
      case STR_BYTE
      show ?thesis
      proof (cases "indefinite t")
        case True
        show ?thesis
          by (rule other [of "Some (0, s)"])
            (use STR_BYTE True m h inv in \<open>auto simp: step indefinite_def scanItem_string
               intro!: itemResult_fail [of _ _ _ "[]"]\<close>)
      next
        case False
        show ?thesis
          by (rule other [OF _ _ ScanFixedString_ok [OF inv h _ False]])
            (use STR_BYTE False m in \<open>auto simp: step indefinite_def\<close>)
      qed
    next
      case STR_TEXT
      show ?thesis
      proof (cases "indefinite t")
        case True
        show ?thesis
          by (rule other [of "Some (0, s)"])
            (use STR_TEXT True m h inv in \<open>auto simp: step indefinite_def scanItem_string
               intro!: itemResult_fail [of _ _ _ "[]"]\<close>)
      next
        case False
        show ?thesis
          by (rule other [OF _ _ ScanFixedString_ok [OF inv h _ False]])
            (use STR_TEXT False m in \<open>auto simp: step indefinite_def\<close>)
      qed
    next
      case ARRAY
      show ?thesis
      proof (cases "indefinite t")
        case True
        show ?thesis
          by (rule other [OF _ _ ScanIndefArray_ok [OF inv h _ True nxt]])
            (use ARRAY True m in \<open>auto simp: step indefinite_def\<close>)
      next
        case False
        show ?thesis
          by (rule other [OF _ _ ScanFixedArray_ok [OF inv h _ False nxt]])
            (use ARRAY False m in \<open>auto simp: step indefinite_def\<close>)
      qed
    next
      case MAP
      show ?thesis
      proof (cases "indefinite t")
        case True
        show ?thesis
          by (rule other [OF _ _ ScanIndefMap_ok [OF inv h _ True nxt]])
            (use MAP True m in \<open>auto simp: step indefinite_def\<close>)
      next
        case False
        show ?thesis
          by (rule other [OF _ _ ScanFixedMap_ok [OF inv h _ False nxt]])
            (use MAP False m in \<open>auto simp: step indefinite_def\<close>)
      qed
    next
      case TAG
      show ?thesis
        by (rule other [OF _ _ ScanTag_ok [OF inv h _ nxt]]) (use TAG m in \<open>auto simp: step\<close>)
    next
      case SIMPLE
      show ?thesis
      proof (cases "typeSpecifier t = 0xFF")
        case False
        then show ?thesis using leaf SIMPLE by simp
      next
        case True
        have i: "itemResult C d off toks (Some (0, s))"
          by (rule itemResult_fail [of _ _ _ "[]"])
            (use inv True SIMPLE m scanItem_simple [OF h] in auto)
        show ?thesis
        proof (cases brk)
          case True
          then show ?thesis using b1 \<open>typeSpecifier t = 0xFF\<close> SIMPLE m
            by (simp add: step dataOff_def majorByte.simps)
        next
          case False
          have "scanToken nxt brk off s = map_option (\<lambda>(off', s'). (off', False, s')) (Some (0, s))"
            using False True SIMPLE by (simp add: step majorByte.simps)
          then show ?thesis using i False by (auto intro!: exI [of _ "Some (0, s)"])
        qed
      qed
    qed
  qed
qed

lemma ScanNextToken_ok: "scannerOk C d (gmosFormatCborParserScanNextToken d)"
proof (induction d)
  case 0
  show ?case by (simp, rule scanToken_ok) (simp add: nextOk_def)
next
  case (Suc d)
  then show ?case by (simp, intro scanToken_ok) (simp add: nextOk_def)
qed

subsection \<open>The parser\<close>

lemma gmosBufferMove_init: "gmosBufferMove p a gmosBufferInit = Some (p, gmosBufferInit, a)"
  by (cases a) (simp add: gmosBufferMove_def gmosBufferDiscardContents_def gmosBufferInit_def Let_def)

lemma gmosBufferReset_0:
  assumes "buf_state p b ds R"
  obtains p' where "gmosBufferReset p b 0 = Some (True, p', gmosBufferInit)" "pool_ok p' R"
    "same_on R p p'" "mempoolUseHeap p' = mempoolUseHeap p"
    "\<not> mempoolUseHeap p \<Longrightarrow> avail p' = avail p + need (bufferOffset b + length ds)"
proof -
  obtain p' where r: "gmosBufferDiscardContents p b = Some (p', gmosBufferInit)" "pool_ok p' R"
    "same_on R p p'" "mempoolUseHeap p' = mempoolUseHeap p"
    "\<not> mempoolUseHeap p \<Longrightarrow> avail p' = avail p + need (bufferOffset b + length ds)"
    by (rule gmosBufferDiscardContents_ok [OF assms]) (rule that)
  show thesis by (rule that [OF _ r(2-5)]) (simp_all add: gmosBufferReset_def r(1))
qed

lemma ParserScan_ok:
  assumes st: "buf_state p b msg R"
  obtains ok p' parser b' where "gmosFormatCborParserScan p b d = Some (ok, p', parser, b')"
    "same_on R p p'"
    "ok \<Longrightarrow> b' = gmosBufferInit \<and> (\<exists>ts. scanItem msg d 0 ts (length msg) \<and>
       bufs p' [(messageBuffer parser, msg), (tokenBuffer parser, toksBytes ts)] R)"
    "\<not> ok \<Longrightarrow> b' = b \<and> buf_state p' b msg R \<and>
       parser = \<lparr>messageBuffer = gmosBufferInit, tokenBuffer = gmosBufferInit\<rparr> \<and>
       (\<not> mempoolUseHeap p \<longrightarrow> avail p' = avail p)"
    "\<And>ts. \<not> mempoolUseHeap p \<Longrightarrow> scanItem msg d 0 ts (length msg) \<Longrightarrow> tokensFit (avail p) (length ts) \<Longrightarrow>
       ok \<and> bufs p' [(messageBuffer parser, msg), (tokenBuffer parser, toksBytes ts)] R"
    "ok \<Longrightarrow> \<not> mempoolUseHeap p \<Longrightarrow>
       \<exists>ts. scanItem msg d 0 ts (length msg) \<and> tokensFit (avail p) (length ts)"
proof -
  from st obtain xs where x: "buf_rep p b xs msg" "set xs \<inter> R = {}" "pool_ok p (set xs \<union> R)"
    by (auto simp: buf_state_def)
  let ?C = "\<lparr>cBuffer = b, cMsg = msg, cSegs = xs, cRest = R, cTotal = avail p, cPool = p\<rparr>"
  let ?P = "\<lparr>messageBuffer = b, tokenBuffer = gmosBufferInit\<rparr>"
  have inv0: "scanInv ?C (p, ?P) []"
    using x buf_state_init [OF x(3)] by (simp add: scanInv_def same_on_refl)
  have nb: "\<not> (False \<and> breakAt (cMsg ?C) 0 (0 + 1))" by simp
  obtain off s new where r: "gmosFormatCborParserScanNextToken d False 0 (p, ?P) = Some (off, False, s)"
    "scanInv ?C s ([] @ new)" "off \<noteq> 0 \<longrightarrow> scanItem (cMsg ?C) d 0 new off"
    "staticPool ?C \<longrightarrow> (\<forall>ts o'. scanItem (cMsg ?C) d 0 ts o' \<longrightarrow>
       tokensFit (cTotal ?C) (length ([] :: cborToken list) + length ts) \<longrightarrow> off = o' \<and> new = ts)"
    by (rule scannerOk_item [OF ScanNextToken_ok inv0 _ nb]) (use that in auto)
  obtain p1 parser where s: "s = (p1, parser)" by (cases s)
  have i: "messageBuffer parser = b" "buf_rep p1 b xs msg" "same_on R p p1"
    "buf_state p1 (tokenBuffer parser) (toksBytes new) (set xs \<union> R)" "bufferOffset (tokenBuffer parser) = 0"
    "mempoolUseHeap p1 = mempoolUseHeap p"
    "\<not> mempoolUseHeap p1 \<longrightarrow> avail p1 + need (16 * length new) = avail p"
    using r(2) by (simp_all add: scanInv_def s)
  have sz: "gmosBufferGetSize b = length msg" "16 * length new < 65536"
    using scanInv_len(2,3) [of ?C p1 parser new] r(2) i(1) by (simp_all add: s)
  have both: "bufs p1 [(b, msg), (tokenBuffer parser, toksBytes new)] R"
    using i(2,4) x(2) by (auto simp: bufs_1 [symmetric] simp del: bufs.simps(1))
  show thesis
  proof (cases "off \<noteq> 0 \<and> off = length msg")
    case True
    have e: "gmosFormatCborParserScan p b d = Some (True, p1, parser, gmosBufferInit)"
      using r(1) True i(1) sz(1) by (auto simp: gmosFormatCborParserScan_def gmosBufferMove_init s)
    have item: "scanItem msg d 0 new (length msg)" using r(3) True by auto
    have fit: "tokensFit (avail p) (length new)" if "\<not> mempoolUseHeap p"
      using i(6,7) sz(2) that by (auto simp: tokensFit_def)
    show thesis
    proof (rule that [OF e i(3)])
      show "gmosBufferInit = gmosBufferInit \<and> (\<exists>ts. scanItem msg d 0 ts (length msg) \<and>
          bufs p1 [(messageBuffer parser, msg), (tokenBuffer parser, toksBytes ts)] R)"
        using item both i(1) by blast
      show "True \<and> bufs p1 [(messageBuffer parser, msg), (tokenBuffer parser, toksBytes ts)] R"
        if "\<not> mempoolUseHeap p" "scanItem msg d 0 ts (length msg)" "tokensFit (avail p) (length ts)" for ts
      proof -
        have "new = ts" using r(4) that by auto
        then show ?thesis using both i(1) by blast
      qed
      show "\<exists>ts. scanItem msg d 0 ts (length msg) \<and> tokensFit (avail p) (length ts)"
        if "\<not> mempoolUseHeap p" using item fit that by blast
    qed simp
  next
    case False
    obtain p2 where z: "gmosBufferReset p1 (tokenBuffer parser) 0 = Some (True, p2, gmosBufferInit)"
      "pool_ok p2 (set xs \<union> R)" "same_on (set xs \<union> R) p1 p2" "mempoolUseHeap p2 = mempoolUseHeap p1"
      "\<not> mempoolUseHeap p1 \<Longrightarrow>
         avail p2 = avail p1 + need (bufferOffset (tokenBuffer parser) + length (toksBytes new))"
      by (rule gmosBufferReset_0 [OF i(4)]) (rule that)
    have e: "gmosFormatCborParserScan p b d =
        Some (False, p2, \<lparr>messageBuffer = gmosBufferInit, tokenBuffer = gmosBufferInit\<rparr>, b)"
      using r(1) False i(1) sz(1) z(1) by (auto simp: gmosFormatCborParserScan_def gmosBufferMove_init s)
    have same: "same_on R p p2" using i(3) same_on_mono [OF z(3), of R] same_on_trans by blast
    have st2: "buf_state p2 b msg R"
      using buf_rep_same_on [OF i(2) z(3)] x(2) z(2) by (auto simp: buf_state_def)
    have av: "avail p2 = avail p" if "\<not> mempoolUseHeap p" using z(5) i(5-7) that by simp
    have no: False if "\<not> mempoolUseHeap p" "scanItem msg d 0 ts (length msg)" "tokensFit (avail p) (length ts)"
      for ts
    proof -
      have "0 < length msg" using scanItem_lt [OF _ inv0, of d 0 ts "length msg"] that(2) by simp
      moreover have "off = length msg" using r(4) that by auto
      ultimately show False using False by simp
    qed
    show thesis
    proof (rule that [OF e same])
      show "b = b \<and> buf_state p2 b msg R \<and> \<lparr>messageBuffer = gmosBufferInit, tokenBuffer = gmosBufferInit\<rparr> =
          \<lparr>messageBuffer = gmosBufferInit, tokenBuffer = gmosBufferInit\<rparr> \<and>
          (\<not> mempoolUseHeap p \<longrightarrow> avail p2 = avail p)" using st2 av by simp
    qed (use no in blast)+
  qed
qed

lemma boot_msg:
  assumes "length msg < 65536" "need (length msg) \<le> 64"
  obtains p b where "buf_state p b msg {}" "\<not> mempoolUseHeap p" "avail p = 64 - need (length msg)"
    "bufferOffset b = 0"
proof -
  have st: "buf_state bootPool gmosBufferInit [] {}" using buf_state_init [OF bootPool_ok(1)] .
  obtain ok p b where r: "gmosBufferAppend bootPool gmosBufferInit msg = Some (ok, p, b)"
    "mempoolUseHeap p = mempoolUseHeap bootPool"
    "ok \<longleftrightarrow> length ([] :: byte list) + length msg < 65536 \<and>
      need (bufferOffset gmosBufferInit + length ([] :: byte list) + length msg) -
      need (bufferOffset gmosBufferInit + length ([] :: byte list)) \<le> avail bootPool"
    "buf_state p b (if ok then [] @ msg else []) {}"
    "\<not> mempoolUseHeap bootPool \<Longrightarrow> avail p = (if ok then avail bootPool -
         (need (bufferOffset gmosBufferInit + length ([] :: byte list) + length msg) -
          need (bufferOffset gmosBufferInit + length ([] :: byte list)))
       else avail bootPool)"
    using gmosBufferAppend_ok [OF st assms(1)] by metis
  have ok: ok using r(3) assms bootPool_ok by simp
  show thesis
    by (rule that) (use r ok bootPool_ok Append_offset [OF r(1)] in simp_all)
qed

text \<open>
  The items taken although RFC 8949 does not allow them.
\<close>

definition laxItem :: "byte list \<Rightarrow> nat \<Rightarrow> nat \<Rightarrow> cborToken list \<Rightarrow> nat \<Rightarrow> bool" where
  "laxItem msg d off ts off' \<longleftrightarrow> scanItem msg d off ts off' \<and> (\<exists>t\<in>set ts. \<not> strictToken t)"

lemma scanItem_lax:
  "length msg < 65536 \<Longrightarrow>
     scanItem msg d off ts off' \<longleftrightarrow> cborItem msg d off ts off' \<or> laxItem msg d off ts off'"
  using scanItem_strict by (auto simp: laxItem_def)

text \<open>
  C11: Scanning a message always returns. After success the source buffer is empty, the parser
  holds the message, and its tokens are those of a data item that fills the whole message and
  nests no deeper than the limit: an item that is well-formed by RFC 8949 (\<open>cborItem\<close>), or one
  with at least one token that is not \<open>strictToken\<close>, which the code takes as well: an integer or
  a tag with additional information 31, a two-byte simple value below 32, or a string whose end
  wraps around at \<open>2 ^ 32\<close>. A well-formed item yields exactly its tokens, and in a static pool it
  is always taken if they fit into the free segments; there the scan succeeds for nothing but
  the two kinds of items. After a failure the message is back in the source buffer and no memory
  is lost. Other clients of the pool are not affected.
\<close>

theorem cbor_scan:
  assumes "buf_state p b msg R"
  shows "\<exists>ok p' parser b'. gmosFormatCborParserScan p b d = Some (ok, p', parser, b') \<and> same_on R p p' \<and>
    (if ok
     then b' = gmosBufferInit \<and>
       (\<exists>ts. (cborItem msg d 0 ts (length msg) \<or> laxItem msg d 0 ts (length msg)) \<and>
          bufs p' [(messageBuffer parser, msg), (tokenBuffer parser, toksBytes ts)] R)
     else b' = b \<and> buf_state p' b msg R \<and>
       parser = \<lparr>messageBuffer = gmosBufferInit, tokenBuffer = gmosBufferInit\<rparr> \<and>
       (\<not> mempoolUseHeap p \<longrightarrow> avail p' = avail p)) \<and>
    (\<forall>ts. cborItem msg d 0 ts (length msg) \<longrightarrow>
       (ok \<longrightarrow> bufs p' [(messageBuffer parser, msg), (tokenBuffer parser, toksBytes ts)] R) \<and>
       (\<not> mempoolUseHeap p \<and> tokensFit (avail p) (length ts) \<longrightarrow> ok)) \<and>
    (\<not> mempoolUseHeap p \<longrightarrow>
       ok = (\<exists>ts. (cborItem msg d 0 ts (length msg) \<or> laxItem msg d 0 ts (length msg)) \<and>
         tokensFit (avail p) (length ts)))"
proof -
  obtain ok p' parser b' where r: "gmosFormatCborParserScan p b d = Some (ok, p', parser, b')"
    "same_on R p p'"
    "ok \<Longrightarrow> b' = gmosBufferInit \<and> (\<exists>ts. scanItem msg d 0 ts (length msg) \<and>
       bufs p' [(messageBuffer parser, msg), (tokenBuffer parser, toksBytes ts)] R)"
    "\<not> ok \<Longrightarrow> b' = b \<and> buf_state p' b msg R \<and>
       parser = \<lparr>messageBuffer = gmosBufferInit, tokenBuffer = gmosBufferInit\<rparr> \<and>
       (\<not> mempoolUseHeap p \<longrightarrow> avail p' = avail p)"
    "\<And>ts. \<not> mempoolUseHeap p \<Longrightarrow> scanItem msg d 0 ts (length msg) \<Longrightarrow> tokensFit (avail p) (length ts) \<Longrightarrow>
       ok \<and> bufs p' [(messageBuffer parser, msg), (tokenBuffer parser, toksBytes ts)] R"
    "ok \<Longrightarrow> \<not> mempoolUseHeap p \<Longrightarrow>
       \<exists>ts. scanItem msg d 0 ts (length msg) \<and> tokensFit (avail p) (length ts)"
    by (rule ParserScan_ok [OF assms]) (rule that)
  have len: "length msg < 65536" using buf_state_size [OF assms] by simp
  have exact: "bufs p' [(messageBuffer parser, msg), (tokenBuffer parser, toksBytes ts)] R"
    if ok "cborItem msg d 0 ts (length msg)" for ts
  proof -
    have "scanItem msg d 0 ts (length msg)" using that(2) scanItem_lax [OF len] by blast
    with r(3) [OF that(1)] scan_unique(1) show ?thesis by blast
  qed
  have "if ok
     then b' = gmosBufferInit \<and> (\<exists>ts. scanItem msg d 0 ts (length msg) \<and>
       bufs p' [(messageBuffer parser, msg), (tokenBuffer parser, toksBytes ts)] R)
     else b' = b \<and> buf_state p' b msg R \<and>
       parser = \<lparr>messageBuffer = gmosBufferInit, tokenBuffer = gmosBufferInit\<rparr> \<and>
       (\<not> mempoolUseHeap p \<longrightarrow> avail p' = avail p)"
    using r(3,4) by (simp only: split: if_split) blast
  moreover have st: "\<not> mempoolUseHeap p \<longrightarrow>
      ok = (\<exists>ts. scanItem msg d 0 ts (length msg) \<and> tokensFit (avail p) (length ts))"
    using r(5,6) by blast
  moreover have "\<forall>ts. cborItem msg d 0 ts (length msg) \<longrightarrow>
      (ok \<longrightarrow> bufs p' [(messageBuffer parser, msg), (tokenBuffer parser, toksBytes ts)] R) \<and>
      (\<not> mempoolUseHeap p \<and> tokensFit (avail p) (length ts) \<longrightarrow> ok)"
    using exact st scanItem_lax [OF len] by blast
  ultimately show ?thesis
    using r(1,2) unfolding scanItem_lax [OF len]
    by (intro exI [of _ ok] exI [of _ p'] exI [of _ parser] exI [of _ b'] conjI)
qed

theorem cbor_scan_witness:
  "\<exists>p b p' parser. buf_state p b [0x01] {} \<and>
     gmosFormatCborParserScan p b 4 = Some (True, p', parser, gmosBufferInit) \<and>
     bufs p' [(messageBuffer parser, [0x01]),
       (tokenBuffer parser, [1, 0, 0, 0, 0, 0, 0, 0, 0, 0, 1, 0, 0x01, 0, 0, 0])] {}"
proof -
  have n: "need (length [0x01 :: byte]) \<le> 64" "need 16 \<le> 1"
    by (simp_all add: need_def GMOS_CONFIG_MEMPOOL_SEGMENT_SIZE_def)
  obtain p b where st: "buf_state p b [0x01] {}" "\<not> mempoolUseHeap p"
    "avail p = 64 - need (length [0x01 :: byte])" by (rule boot_msg [OF _ n(1)]) (use that in auto)
  let ?t = "\<lparr>typeParam = 1, baseOffset = 0, tokenCount = 1, typeSpecifier = 0x01\<rparr>"
  have h: "headAt [0x01] 0 = Some ?t" by (simp add: headAt_def)
  have only: "scanItem [0x01] 4 0 ts o' \<longleftrightarrow> ts = [?t] \<and> o' = 1" for ts o'
    using scanItem_number [OF h, of 4 ts o']
    by (simp add: majorOf_def majorByte.simps dataOff_def gmosFormatCborGetDataOffset_def)
  have fit: "tokensFit (avail p) (length [?t])"
    using n(2) st(3) by (simp add: tokensFit_def need_def GMOS_CONFIG_MEMPOOL_SEGMENT_SIZE_def)
  have c: "cborItem [0x01] 4 0 ts (length [0x01 :: byte]) \<longleftrightarrow> ts = [?t]"
    and l: "\<not> laxItem [0x01] 4 0 ts (length [0x01 :: byte])" for ts
    using scanItem_strict [of "[0x01]" 4 0 ts 1] only [of ts 1]
    by (auto simp: laxItem_def strictToken_def majorOf_def majorByte.simps indefinite_def)
  from cbor_scan [OF st(1), of 4] obtain ok p' parser b' where
    r: "gmosFormatCborParserScan p b 4 = Some (ok, p', parser, b')"
    "if ok
     then b' = gmosBufferInit \<and>
       (\<exists>ts. (cborItem [0x01] 4 0 ts (length [0x01 :: byte]) \<or> laxItem [0x01] 4 0 ts (length [0x01 :: byte])) \<and>
          bufs p' [(messageBuffer parser, [0x01]), (tokenBuffer parser, toksBytes ts)] {})
     else b' = b \<and> buf_state p' b [0x01] {} \<and>
       parser = \<lparr>messageBuffer = gmosBufferInit, tokenBuffer = gmosBufferInit\<rparr> \<and>
       (\<not> mempoolUseHeap p \<longrightarrow> avail p' = avail p)"
    "\<forall>ts. cborItem [0x01] 4 0 ts (length [0x01 :: byte]) \<longrightarrow>
       (ok \<longrightarrow> bufs p' [(messageBuffer parser, [0x01]), (tokenBuffer parser, toksBytes ts)] {}) \<and>
       (\<not> mempoolUseHeap p \<and> tokensFit (avail p) (length ts) \<longrightarrow> ok)"
    by (elim exE conjE) (rule that)
  have ok: ok using r(3) fit st(2) unfolding c by blast
  have b: "bufs p' [(messageBuffer parser, [0x01]), (tokenBuffer parser, toksBytes [?t])] {}"
    using r(3) ok unfolding c by blast
  have "toksBytes [?t] = [1, 0, 0, 0, 0, 0, 0, 0, 0, 0, 1, 0, 0x01, 0, 0, 0]"
    by (simp add: tokenBytes_def leBytes_numeral)
  with b have "bufs p' [(messageBuffer parser, [0x01]),
      (tokenBuffer parser, [1, 0, 0, 0, 0, 0, 0, 0, 0, 0, 1, 0, 0x01, 0, 0, 0])] {}"
    by simp
  moreover have "b' = gmosBufferInit" using r(2) ok by simp
  moreover have "ok = True" using ok by simp
  ultimately show ?thesis using st(1) r(1) by (intro exI conjI) (assumption, simp, assumption)
qed

end
