(* ===== verification/Gmos_Cbor_Value.thy ===== *)
theory Gmos_Cbor_Value
  imports Gmos_Cbor_Scan
begin

text \<open>
  The encoder of common/src/gmos-format-cbor-enc.c against the scanner of
  common/src/gmos-format-cbor-dec.c: the tokens of a data item, and the round trip from a data
  item over its encoding to its tokens.
\<close>

subsection \<open>Encoded heads are read back\<close>

lemma head_table:
  "\<forall>m\<in>set [INT_POS, INT_NEG, STR_BYTE, STR_TEXT, ARRAY, MAP, TAG, SIMPLE]. \<forall>i\<in>set [0..<32].
     and (initialByte m i) 0x1F = of_nat i \<and> unat (and (initialByte m i) 0x1F) = i \<and>
     and (initialByte m i) 0xE0 = majorByte m"
  by code_simp

lemma initialByte_parts:
  assumes "i < 32"
  shows "and (initialByte m i) 0x1F = of_nat i" "unat (and (initialByte m i) 0x1F) = i"
    "and (initialByte m i) 0xE0 = majorByte m"
proof -
  have "i \<in> set [0..<32]" using assms by simp
  then show "and (initialByte m i) 0x1F = of_nat i" "unat (and (initialByte m i) 0x1F) = i"
    "and (initialByte m i) 0xE0 = majorByte m"
    using head_table major_cases [of m] by blast+
qed

lemma shiftIn_append: "shiftIn (bs @ [b]) = shiftIn bs * 256 + unat b"
  by (simp add: shiftIn_def)

lemma beBytes_Suc: "beBytes (Suc k) n = beBytes k (n div 256) @ [of_nat n]"
  by (simp add: beBytes_def of_nat_mod_byte)

lemma shiftIn_beBytes: "shiftIn (beBytes k n) = n mod 256 ^ k"
proof (induction k arbitrary: n)
  case 0
  then show ?case by (simp add: shiftIn_def beBytes_def)
next
  case (Suc k)
  have "unat (of_nat n :: byte) = n mod 256" by (simp add: unsigned_of_nat take_bit_eq_mod)
  then show ?case
    by (simp add: beBytes_Suc shiftIn_append Suc.IH mod_mult2_eq add.commute mult.commute)
qed

text \<open>The token of a head that starts at an offset.\<close>

definition headToken :: "byte list \<Rightarrow> nat \<Rightarrow> nat \<Rightarrow> cborToken" where
  "headToken hd_bytes n off =
     \<lparr>typeParam = n, baseOffset = off, tokenCount = 1, typeSpecifier = hd hd_bytes\<rparr>"

lemma headAt_cborHead:
  assumes "n < 2 ^ 64" "msg = pre @ cborHead m n @ post"
  shows "headAt msg (length pre) = Some (headToken (cborHead m n) n (length pre))"
    "dataOff (headToken (cborHead m n) n (length pre)) = length pre + length (cborHead m n)"
    "majorOf (headToken (cborHead m n) n off) = majorByte m"
    "\<not> indefinite (headToken (cborHead m n) n off)"
proof -
  show "headAt msg (length pre) = Some (headToken (cborHead m n) n (length pre))"
    using assms
    by (auto simp: headAt_def headToken_def cborHead_def nth_append initialByte_parts(2,3) Let_def
        shiftIn_beBytes)
  show "dataOff (headToken (cborHead m n) n (length pre)) = length pre + length (cborHead m n)"
    by (auto simp: dataOff_def gmosFormatCborGetDataOffset_def headToken_def cborHead_def
        initialByte_parts(2,3) Let_def)
  show "majorOf (headToken (cborHead m n) n off) = majorByte m"
    by (auto simp: majorOf_def headToken_def cborHead_def initialByte_parts(3))
  have "and (initialByte m i) 31 \<noteq> 31" if "i < 31" for i
  proof
    assume "and (initialByte m i) 31 = 31"
    then have "unat (and (initialByte m i) 0x1F) = 31" by simp
    then show False using initialByte_parts(2) [of i m] that by simp
  qed
  then show "\<not> indefinite (headToken (cborHead m n) n off)"
    by (auto simp: indefinite_def headToken_def cborHead_def)
qed

subsection \<open>The tokens of a data item\<close>

text \<open>
  The tokens of a sequence of items, each given by its tokens as a function of the offset and by
  its length.
\<close>

fun seqTokens :: "((nat \<Rightarrow> cborToken list) \<times> nat) list \<Rightarrow> nat \<Rightarrow> cborToken list" where
  "seqTokens [] off = []"
| "seqTokens ((f, n) # r) off = f off @ seqTokens r (off + n)"

text \<open>The keys and values of a map in the order of the encoding.\<close>

definition mapItems :: "('a \<times> 'a) list \<Rightarrow> 'a list" where
  "mapItems kvs = concat (map (\<lambda>(k, v). [k, v]) kvs)"

definition containerTokens ::
    "byte list \<Rightarrow> nat \<Rightarrow> (nat \<Rightarrow> cborToken list) list \<Rightarrow> nat list \<Rightarrow> nat \<Rightarrow> cborToken list" where
  "containerTokens h n fs ls off =
     closed (headToken h n off) (seqTokens (zip fs ls) (off + length h))"

primrec valueTokens :: "cbor \<Rightarrow> nat \<Rightarrow> cborToken list" where
  "valueTokens (CUInt n) = (\<lambda>off. [headToken (cborHead INT_POS (unat n)) (unat n) off])"
| "valueTokens (CNInt n) = (\<lambda>off. [headToken (cborHead INT_NEG (unat n)) (unat n) off])"
| "valueTokens (CBytes s) = (\<lambda>off. [headToken (cborHead STR_BYTE (length s)) (length s) off])"
| "valueTokens (CText s) = (\<lambda>off. [headToken (cborHead STR_TEXT (length s)) (length s) off])"
| "valueTokens (CArray indef vs) =
     containerTokens (if indef then [initialByte ARRAY 31] else cborHead ARRAY (length vs)) (length vs)
       (map valueTokens vs) (map (\<lambda>v. length (cborEncode v)) vs)"
| "valueTokens (CMap indef kvs) =
     containerTokens (if indef then [initialByte MAP 31] else cborHead MAP (length kvs)) (length kvs)
       (mapItems (map (map_prod valueTokens valueTokens) kvs))
       (map (\<lambda>v. length (cborEncode v)) (mapItems kvs))"
| "valueTokens (CTag n v) =
     containerTokens (cborHead TAG (unat n)) (unat n) [valueTokens v] [length (cborEncode v)]"
| "valueTokens CNull = (\<lambda>off. [headToken (cborHead SIMPLE 22) 22 off])"
| "valueTokens CUndefined = (\<lambda>off. [headToken (cborHead SIMPLE 23) 23 off])"
| "valueTokens (CBool b) =
     (\<lambda>off. [headToken (cborHead SIMPLE (if b then 21 else 20)) (if b then 21 else 20) off])"
| "valueTokens (CFloat32 w) = (\<lambda>off. [headToken [initialByte SIMPLE 26] (unat w) off])"
| "valueTokens (CFloat64 w) = (\<lambda>off. [headToken [initialByte SIMPLE 27] (unat w) off])"

text \<open>What the scanner accepts: limited containers, limited nesting.\<close>

primrec scannable :: "cbor \<Rightarrow> nat \<Rightarrow> bool" where
  "scannable (CUInt n) = (\<lambda>d. True)"
| "scannable (CNInt n) = (\<lambda>d. True)"
| "scannable (CBytes s) = (\<lambda>d. True)"
| "scannable (CText s) = (\<lambda>d. True)"
| "scannable (CArray indef vs) =
     (\<lambda>d. 0 < d \<and> length vs \<le> MAX_ARRAY \<and> list_all (\<lambda>f. f (d - 1)) (map scannable vs))"
| "scannable (CMap indef kvs) =
     (\<lambda>d. 0 < d \<and> length kvs \<le> MAX_MAP \<and>
        list_all (\<lambda>f. f (d - 1)) (mapItems (map (map_prod scannable scannable) kvs)))"
| "scannable (CTag n v) = (\<lambda>d. 0 < d \<and> scannable v (d - 1))"
| "scannable CNull = (\<lambda>d. True)"
| "scannable CUndefined = (\<lambda>d. True)"
| "scannable (CBool b) = (\<lambda>d. True)"
| "scannable (CFloat32 w) = (\<lambda>d. True)"
| "scannable (CFloat64 w) = (\<lambda>d. True)"

lemma mapItems_map: "mapItems (map (map_prod f f) kvs) = map f (mapItems kvs)"
  by (induction kvs) (auto simp: mapItems_def)

lemma length_mapItems: "length (mapItems kvs) = 2 * length kvs"
  by (induction kvs) (auto simp: mapItems_def)

lemma set_mapItems: "v \<in> set (mapItems kvs) \<Longrightarrow> \<exists>kv\<in>set kvs. v = fst kv \<or> v = snd kv"
  by (induction kvs) (auto simp: mapItems_def)

lemma encode_mapItems:
  "concat (map (\<lambda>(k, v). k @ v) (map (map_prod cborEncode cborEncode) kvs)) =
     concat (map cborEncode (mapItems kvs))"
  by (induction kvs) (auto simp: mapItems_def)

definition scansAs :: "byte list \<Rightarrow> nat \<Rightarrow> cbor \<Rightarrow> bool" where
  "scansAs msg d v \<longleftrightarrow> (\<forall>pre post. msg = pre @ cborEncode v @ post \<longrightarrow>
     scanItem msg d (length pre) (valueTokens v (length pre)) (length pre + length (cborEncode v)))"

lemma scanSeq_values:
  "\<forall>v\<in>set vs. scansAs msg d v \<Longrightarrow> msg = pre @ concat (map cborEncode vs) @ post \<Longrightarrow>
     scanSeq msg d (length vs) (length pre)
       (seqTokens (zip (map valueTokens vs) (map (\<lambda>v. length (cborEncode v)) vs)) (length pre))
       (length pre + length (concat (map cborEncode vs)))"
proof (induction vs arbitrary: pre)
  case (Cons v vs)
  have "scanItem msg d (length pre) (valueTokens v (length pre)) (length (pre @ cborEncode v))"
    using Cons.prems by (simp add: scansAs_def)
  moreover have "scanSeq msg d (length vs) (length (pre @ cborEncode v))
      (seqTokens (zip (map valueTokens vs) (map (\<lambda>v. length (cborEncode v)) vs)) (length (pre @ cborEncode v)))
      (length (pre @ cborEncode v) + length (concat (map cborEncode vs)))"
    by (rule Cons.IH) (use Cons.prems in simp_all)
  ultimately show ?case by (simp only: scanSeq_split list.size list.map concat.simps length_append
        seqTokens.simps zip_Cons_Cons add_Suc_right add_0_right add.assoc) blast
qed simp

text \<open>Each form of item, given the head at the offset.\<close>

lemma scan_leaf:
  assumes "n < 2 ^ 64" "msg = pre @ cborHead m n @ post" "m \<in> {INT_POS, INT_NEG, SIMPLE}"
  shows "scanItem msg d (length pre) [headToken (cborHead m n) n (length pre)]
    (length pre + length (cborHead m n))"
proof -
  note h = headAt_cborHead(1-2) [OF assms(1,2)]
    headAt_cborHead(3-4) [OF assms(1,2), of "length pre"]
  have "typeSpecifier (headToken (cborHead m n) n (length pre)) \<noteq> 0xFF"
    using h(4) by (auto simp: indefinite_def)
  then show ?thesis
    using assms(3) scanItem_number [OF h(1)] scanItem_simple [OF h(1)] h by auto
qed

lemma scan_float:
  assumes "k = 4 \<and> i = 26 \<or> k = 8 \<and> i = 27" "n < 256 ^ k"
    and "msg = pre @ (initialByte SIMPLE i # beBytes k n) @ post"
  shows "scanItem msg d (length pre) [headToken [initialByte SIMPLE i] n (length pre)] (length pre + Suc k)"
proof -
  let ?t = "headToken [initialByte SIMPLE i] n (length pre)"
  have i: "i < 32" using assms(1) by auto
  have h: "headAt msg (length pre) = Some ?t" "dataOff ?t = length pre + Suc k"
    using assms
    by (auto simp: headAt_def headToken_def nth_append initialByte_parts(2,3) Let_def
        shiftIn_beBytes dataOff_def gmosFormatCborGetDataOffset_def)
  have m: "majorOf ?t = majorByte SIMPLE" "typeSpecifier ?t \<noteq> 0xFF"
    using assms(1) by (auto simp: majorOf_def headToken_def initialByte_parts(3)) (auto simp: initialByte_def)
  show ?thesis using scanItem_simple [OF h(1) m(1)] m(2) h(2) by simp
qed

lemma scan_string:
  assumes "msg = pre @ (cborHead m (length s) @ s) @ post" "m \<in> {STR_BYTE, STR_TEXT}"
    and "length msg < 65536"
  shows "scanItem msg d (length pre) [headToken (cborHead m (length s)) (length s) (length pre)]
    (length pre + length (cborHead m (length s) @ s))"
proof -
  let ?n = "length s" and ?o = "length pre"
  let ?t = "headToken (cborHead m ?n) ?n ?o"
  have n: "?n < 2 ^ 64" using assms(1,3) by simp
  have e: "msg = pre @ cborHead m ?n @ (s @ post)" using assms(1) by simp
  note h = headAt_cborHead(1-2) [OF n e] headAt_cborHead(3-4) [OF n e, of ?o]
  have tot: "?o + length (cborHead m ?n @ s) \<le> length msg" using assms(1) by simp
  have p: "typeParam ?t = ?n" by (simp add: headToken_def)
  have u: "u32 (dataOff ?t + typeParam ?t) = ?o + length (cborHead m ?n @ s)"
    unfolding h(2) p using tot assms(3) by simp
  have "0 < ?o + length (cborHead m ?n @ s)" using length_cborHead(2) [of m ?n] by simp
  then show ?thesis using scanItem_string [OF h(1)] h(3,4) assms(2) tot unfolding u by auto
qed

lemma headAt_indef:
  assumes "msg = pre @ initialByte m 31 # post"
  shows "headAt msg (length pre) = Some (headToken [initialByte m 31] 0 (length pre))"
    "dataOff (headToken [initialByte m 31] 0 (length pre)) = length (pre @ [initialByte m 31])"
    "majorOf (headToken [initialByte m 31] 0 off) = majorByte m"
    "indefinite (headToken [initialByte m 31] 0 off)"
    "(headToken [initialByte m 31] 0 off)\<lparr>typeParam := n\<rparr> = headToken [initialByte m 31] n off"
  using assms
  by (auto simp: headAt_def headToken_def nth_append initialByte_parts(2,3) Let_def dataOff_def
      gmosFormatCborGetDataOffset_def majorOf_def indefinite_def initialByte_parts(1) [of 31, simplified])

lemma breakAt_append: "msg = pre @ 0xFF # post \<Longrightarrow> breakAt msg (length pre) (length pre + 1)"
  by (simp add: breakAt_def)

lemma scan_fixed:
  assumes "msg = pre @ (cborHead m k @ concat (map cborEncode vs)) @ post"
    and "m = ARRAY \<and> length vs = k \<and> k \<le> MAX_ARRAY \<or> m = MAP \<and> length vs = 2 * k \<and> k \<le> MAX_MAP"
    and "\<forall>v\<in>set vs. scansAs msg d v"
  shows "scanItem msg (Suc d) (length pre)
    (containerTokens (cborHead m k) k (map valueTokens vs) (map (\<lambda>v. length (cborEncode v)) vs) (length pre))
    (length pre + length (cborHead m k @ concat (map cborEncode vs)))"
proof -
  have "k < 65536" using assms(2) MAX_less(1,2) by (elim disjE) linarith+
  then have n: "k < 2 ^ 64" by simp
  have e: "msg = pre @ cborHead m k @ (concat (map cborEncode vs) @ post)"
    "msg = (pre @ cborHead m k) @ concat (map cborEncode vs) @ post" using assms(1) by simp_all
  note h = headAt_cborHead(1-2) [OF n e(1)] headAt_cborHead(3-4) [OF n e(1), of "length pre"]
  have p: "typeParam (headToken (cborHead m k) k (length pre)) = k" by (simp add: headToken_def)
  note s = scanSeq_values [OF assms(3) e(2)]
  show ?thesis
    using assms(2) h s scanItem_fixedArray [OF h(1)] scanItem_fixedMap [OF h(1)] p
    by (fastforce simp: containerTokens_def add.assoc)
qed

lemma scan_indef:
  assumes "msg = pre @ (initialByte m 31 # concat (map cborEncode vs) @ [0xFF]) @ post"
    and "m = ARRAY \<and> length vs = k \<and> k \<le> MAX_ARRAY \<or> m = MAP \<and> length vs = 2 * k \<and> k \<le> MAX_MAP"
    and "\<forall>v\<in>set vs. scansAs msg d v"
  shows "scanItem msg (Suc d) (length pre)
    (containerTokens [initialByte m 31] k (map valueTokens vs) (map (\<lambda>v. length (cborEncode v)) vs) (length pre))
    (length pre + length (initialByte m 31 # concat (map cborEncode vs) @ [0xFF]))"
proof -
  let ?t = "headToken [initialByte m 31] 0 (length pre)" and ?vs = "concat (map cborEncode vs)"
  have e: "msg = pre @ initialByte m 31 # (?vs @ 0xFF # post)"
    "msg = (pre @ [initialByte m 31]) @ ?vs @ (0xFF # post)"
    "msg = (pre @ [initialByte m 31] @ ?vs) @ 0xFF # post" using assms(1) by simp_all
  note h = headAt_indef(1,2) [OF e(1)] headAt_indef(3,4) [OF e(1), of "length pre"]
  note s = scanSeq_values [OF assms(3) e(2)]
  note b = breakAt_append [OF e(3)]
  have len: "length (pre @ [initialByte m 31]) + length ?vs = length (pre @ [initialByte m 31] @ ?vs)"
    "length pre + length (initialByte m 31 # ?vs @ [0xFF]) = length (pre @ [initialByte m 31] @ ?vs) + 1"
    by simp_all
  have c: "containerTokens [initialByte m 31] k fs ls (length pre) =
      closed (?t\<lparr>typeParam := k\<rparr>) (seqTokens (zip fs ls) (length (pre @ [initialByte m 31])))" for fs ls
    by (simp add: containerTokens_def headToken_def)
  show ?thesis
    unfolding c len(2) using assms(2)
  proof (elim disjE conjE)
    assume "m = ARRAY" "length vs = k" "k \<le> MAX_ARRAY"
    then show "scanItem msg (Suc d) (length pre) (closed (?t\<lparr>typeParam := k\<rparr>)
        (seqTokens (zip (map valueTokens vs) (map (\<lambda>v. length (cborEncode v)) vs))
          (length (pre @ [initialByte m 31])))) (length (pre @ [initialByte m 31] @ ?vs) + 1)"
      using scanItem_indefArray [OF h(1)] h(2-4) s b unfolding len(1) by metis
  next
    assume "m = MAP" "length vs = 2 * k" "k \<le> MAX_MAP"
    then show "scanItem msg (Suc d) (length pre) (closed (?t\<lparr>typeParam := k\<rparr>)
        (seqTokens (zip (map valueTokens vs) (map (\<lambda>v. length (cborEncode v)) vs))
          (length (pre @ [initialByte m 31])))) (length (pre @ [initialByte m 31] @ ?vs) + 1)"
      using scanItem_indefMap [OF h(1)] h(2-4) s b unfolding len(1) by metis
  qed
qed

lemma scansAs_leaf:
  assumes "n < 2 ^ 64" "cborEncode v = cborHead m n" "m \<in> {INT_POS, INT_NEG, SIMPLE}"
    and "valueTokens v = (\<lambda>off. [headToken (cborHead m n) n off])"
  shows "scansAs msg d v"
  unfolding scansAs_def assms(2,4)
proof (intro allI impI)
  fix pre post
  assume "msg = pre @ cborHead m n @ post"
  from scan_leaf [OF assms(1) this assms(3)]
  show "scanItem msg d (length pre) [headToken (cborHead m n) n (length pre)]
    (length pre + length (cborHead m n))" .
qed

lemma scansAs_string:
  assumes "length msg < 65536" "cborEncode v = cborHead m (length s) @ s" "m \<in> {STR_BYTE, STR_TEXT}"
    and "valueTokens v = (\<lambda>off. [headToken (cborHead m (length s)) (length s) off])"
  shows "scansAs msg d v"
  unfolding scansAs_def assms(2,4)
proof (intro allI impI)
  fix pre post
  assume "msg = pre @ (cborHead m (length s) @ s) @ post"
  from scan_string [OF this assms(3,1)]
  show "scanItem msg d (length pre) [headToken (cborHead m (length s)) (length s) (length pre)]
    (length pre + length (cborHead m (length s) @ s))" .
qed

lemma scansAs_float:
  assumes "k = 4 \<and> i = 26 \<or> k = 8 \<and> i = 27" "n < 256 ^ k"
    and "cborEncode v = initialByte SIMPLE i # beBytes k n"
    and "valueTokens v = (\<lambda>off. [headToken [initialByte SIMPLE i] n off])"
  shows "scansAs msg d v"
  unfolding scansAs_def assms(3,4)
proof (intro allI impI)
  fix pre post
  assume "msg = pre @ (initialByte SIMPLE i # beBytes k n) @ post"
  from scan_float [OF assms(1,2) this]
  show "scanItem msg d (length pre) [headToken [initialByte SIMPLE i] n (length pre)]
    (length pre + length (initialByte SIMPLE i # beBytes k n))" by simp
qed

lemma scan_value:
  assumes len: "length msg < 65536"
  shows "scannable v d \<Longrightarrow> encodable v \<Longrightarrow> scansAs msg d v"
proof (induction v arbitrary: d)
  case (CArray indef vs)
  have s: "\<forall>v\<in>set vs. scansAs msg (d - 1) v"
    using CArray by (auto simp: list_all_iff)
  have d: "d = Suc (d - 1)" using CArray.prems by simp
  have "length vs \<le> MAX_ARRAY" using CArray.prems by simp
  then show ?case
    using scan_fixed [OF _ _ s, where m = ARRAY and k = "length vs"] scan_indef [OF _ _ s, where m = ARRAY and k = "length vs"]
    unfolding scansAs_def by (subst d) (cases indef; simp)
next
  case (CMap indef kvs)
  have s: "\<forall>v\<in>set (mapItems kvs). scansAs msg (d - 1) v"
    using CMap by (fastforce simp: list_all_iff mapItems_map dest: set_mapItems)
  have d: "d = Suc (d - 1)" using CMap.prems by simp
  have "length kvs \<le> MAX_MAP" using CMap.prems by simp
  then show ?case
    using scan_fixed [OF _ _ s, where m = MAP and k = "length kvs"] scan_indef [OF _ _ s, where m = MAP and k = "length kvs"]
    unfolding scansAs_def
    by (subst d) (cases indef; simp add: encode_mapItems mapItems_map length_mapItems del: map_map)
next
  case (CTag n v)
  have d: "d = Suc (d - 1)" using CTag.prems by simp
  have s: "scansAs msg (d - 1) v" using CTag by simp
  have n: "unat n < 2 ^ 64" using unsigned_less [of n] by simp
  show ?case
    unfolding scansAs_def
  proof (intro allI impI)
    fix pre post
    assume e: "msg = pre @ cborEncode (CTag n v) @ post"
    let ?h = "cborHead TAG (unat n)"
    have e1: "msg = pre @ ?h @ (cborEncode v @ post)" "msg = (pre @ ?h) @ cborEncode v @ post"
      using e by simp_all
    note h = headAt_cborHead(1-2) [OF n e1(1)] headAt_cborHead(3) [OF n e1(1), of "length pre"]
    have "scanItem msg (d - 1) (length (pre @ ?h)) (valueTokens v (length (pre @ ?h)))
        (length (pre @ ?h) + length (cborEncode v))" using s e1(2) unfolding scansAs_def by blast
    then show "scanItem msg d (length pre) (valueTokens (CTag n v) (length pre))
        (length pre + length (cborEncode (CTag n v)))"
      by (subst d) (auto simp: scanItem_tag [OF h(1,3)] h(2) containerTokens_def add.assoc)
  qed
next
  case (CUInt n)
  show ?case by (rule scansAs_leaf [of "unat n" _ INT_POS]) (use unsigned_less [of n] in simp_all)
next
  case (CNInt n)
  show ?case by (rule scansAs_leaf [of "unat n" _ INT_NEG]) (use unsigned_less [of n] in simp_all)
next
  case (CBytes s)
  show ?case by (rule scansAs_string [OF len, of _ STR_BYTE s]) simp_all
next
  case (CText s)
  show ?case by (rule scansAs_string [OF len, of _ STR_TEXT s]) simp_all
next
  case CNull
  show ?case by (rule scansAs_leaf [of 22 _ SIMPLE]) (simp_all add: cborHead_def)
next
  case CUndefined
  show ?case by (rule scansAs_leaf [of 23 _ SIMPLE]) (simp_all add: cborHead_def)
next
  case (CBool b)
  show ?case by (rule scansAs_leaf [of "if b then 21 else 20" _ SIMPLE]) (simp_all add: cborHead_def)
next
  case (CFloat32 w)
  show ?case by (rule scansAs_float [of 4 26 "unat w"]) (use unsigned_less [of w] in simp_all)
next
  case (CFloat64 w)
  show ?case by (rule scansAs_float [of 8 27 "unat w"]) (use unsigned_less [of w] in simp_all)
qed

subsection \<open>From a value to its tokens\<close>

text \<open>A run of encoding calls with enough memory, and what it takes from the pool.\<close>

lemma runCalls_room:
  assumes "buf_state p b ds R" "\<forall>c\<in>set cs. callOk c \<and> callFits c" "\<not> mempoolUseHeap p"
    and "roomFor p b (length ds) (length (concat (map callBytes cs)))"
  shows "\<exists>p' b'. runCalls cs p b = Some (True, p', b') \<and> same_on R p p' \<and> \<not> mempoolUseHeap p' \<and>
    buf_state p' b' (ds @ concat (map callBytes cs)) R \<and>
    avail p' = avail p - (need (bufferOffset b + length ds + length (concat (map callBytes cs))) -
      need (bufferOffset b + length ds))"
  using assms
proof (induction cs arbitrary: p b ds)
  case (Cons c cs)
  then have c: "callOk c" "callFits c" by auto
  let ?l1 = "length (callBytes c)" and ?l2 = "length (concat (map callBytes cs))"
  let ?n = "bufferOffset b + length ds"
  obtain ok p1 b1 where r: "encodeCall c p b = Some (ok, p1, b1)" "same_on R p p1"
    "mempoolUseHeap p1 = mempoolUseHeap p" "buf_state p1 b1 (if ok then ds @ callBytes c else ds) R"
    "\<not> mempoolUseHeap p \<longrightarrow> ok = roomFor p b (length ds) ?l1"
    "ok \<longrightarrow> bufferOffset b1 = bufferOffset b \<and> (\<not> mempoolUseHeap p \<longrightarrow> avail p1 = avail p -
       (need (?n + ?l1) - need ?n))"
    using encodeCall_ok [OF Cons.prems(1) c(1)] c(2) by (auto simp: appends_def)
  have mono: "need ?n \<le> need (?n + ?l1)" "need (?n + ?l1) \<le> need (?n + (?l1 + ?l2))"
    by (auto intro!: need_mono)
  have room: "length ds + (?l1 + ?l2) < 65536" "need (?n + (?l1 + ?l2)) - need ?n \<le> avail p"
    using Cons.prems(4) by (simp_all add: roomFor_def add.assoc)
  have ok: ok using r(5) Cons.prems(3) room mono by (auto simp: roomFor_def add.assoc)
  then have q: "buf_state p1 b1 (ds @ callBytes c) R" "bufferOffset b1 = bufferOffset b"
    "avail p1 = avail p - (need (?n + ?l1) - need ?n)" "\<not> mempoolUseHeap p1"
    using r(3,4,6) Cons.prems(3) by simp_all
  have "roomFor p1 b1 (length (ds @ callBytes c)) ?l2"
    using room mono q(2,3) by (auto simp: roomFor_def add.assoc)
  from Cons.IH [OF q(1) _ q(4) this] Cons.prems(2) obtain p2 b2 where z:
    "runCalls cs p1 b1 = Some (True, p2, b2)" "same_on R p1 p2" "\<not> mempoolUseHeap p2"
    "buf_state p2 b2 ((ds @ callBytes c) @ concat (map callBytes cs)) R"
    "avail p2 = avail p1 - (need (bufferOffset b1 + length (ds @ callBytes c) + ?l2) -
      need (bufferOffset b1 + length (ds @ callBytes c)))" by auto
  have "avail p2 = avail p - (need (?n + (?l1 + ?l2)) - need ?n)"
    using z(5) q(2,3) mono room by (simp add: add.assoc)
  then show ?case
    using r(1) ok same_on_trans [OF r(2) z(2)] z(1,3,4) by (simp add: add.assoc)
qed (simp add: same_on_refl)

lemma encodeCalls_ready: "encodable v \<Longrightarrow> \<forall>c\<in>set (encodeCalls v). callOk c \<and> callFits c"
  using encodeCalls_ok by blast

lemma encode_scan_ok:
  assumes "buf_state p gmosBufferInit [] R" "\<not> mempoolUseHeap p"
    and "encodable v" "scannable v d" "length (cborEncode v) < 65536"
    and "16 * length (valueTokens v 0) < 65536"
    and "need (length (cborEncode v)) + need (16 * length (valueTokens v 0)) \<le> avail p"
  shows "\<exists>p1 b1 p2 parser. runCalls (encodeCalls v) p gmosBufferInit = Some (True, p1, b1) \<and>
    gmosFormatCborParserScan p1 b1 d = Some (True, p2, parser, gmosBufferInit) \<and>
    bufs p2 [(messageBuffer parser, cborEncode v), (tokenBuffer parser, toksBytes (valueTokens v 0))] R \<and>
    same_on R p p2"
proof -
  note e = callBytes_encodeCalls [OF assms(3)]
  have "roomFor p gmosBufferInit (length ([] :: byte list)) (length (cborEncode v))"
    using assms(5,7) by (simp add: roomFor_def)
  from runCalls_room [OF assms(1) encodeCalls_ready [OF assms(3)] assms(2), unfolded e, OF this]
  obtain p1 b1 where r: "runCalls (encodeCalls v) p gmosBufferInit = Some (True, p1, b1)"
    "same_on R p p1" "\<not> mempoolUseHeap p1" "buf_state p1 b1 (cborEncode v) R"
    "avail p1 = avail p - need (length (cborEncode v))" by auto
  have item: "scanItem (cborEncode v) d 0 (valueTokens v 0) (length (cborEncode v))"
    using scan_value [OF assms(5,4,3)] unfolding scansAs_def
    by (metis append_Nil append_Nil2 list.size(3) add_0)
  have fit: "tokensFit (avail p1) (length (valueTokens v 0))"
    using assms(6,7) r(5) by (simp add: tokensFit_def)
  obtain ok p2 parser b2 where s: "gmosFormatCborParserScan p1 b1 d = Some (ok, p2, parser, b2)"
    "same_on R p1 p2" "ok \<Longrightarrow> b2 = gmosBufferInit \<and> (\<exists>ts. scanItem (cborEncode v) d 0 ts (length (cborEncode v)) \<and>
       bufs p2 [(messageBuffer parser, cborEncode v), (tokenBuffer parser, toksBytes ts)] R)"
    "ok \<and> bufs p2 [(messageBuffer parser, cborEncode v), (tokenBuffer parser, toksBytes (valueTokens v 0))] R"
    using ParserScan_ok [OF r(4), of d] r(3) item fit by metis
  have "gmosFormatCborParserScan p1 b1 d = Some (True, p2, parser, gmosBufferInit)"
    using s(1,3,4) by simp
  then show ?thesis using r(1) s(4) same_on_trans [OF r(2) s(2)]
    by (intro exI [of _ p1] exI [of _ b1] exI [of _ p2] exI [of _ parser] conjI) simp_all
qed

text \<open>
  C12: Encoding a value into an empty buffer and scanning the result succeeds for every value
  within the limits of the parser, given the memory for the message and for the tokens. The
  parser then holds the encoding, and its token buffer holds exactly the tokens of the value: one
  per data item in depth-first order, with the offset of the item, its argument and the number of
  tokens it encloses.
\<close>

theorem cbor_round_trip:
  assumes "buf_state p gmosBufferInit [] R" "\<not> mempoolUseHeap p"
    and "encodable v" "scannable v d" "length (cborEncode v) < 65536"
    and "16 * length (valueTokens v 0) < 65536"
    and "need (length (cborEncode v)) + need (16 * length (valueTokens v 0)) \<le> avail p"
  shows "\<exists>p1 b1 p2 parser. runCalls (encodeCalls v) p gmosBufferInit = Some (True, p1, b1) \<and>
    gmosFormatCborParserScan p1 b1 d = Some (True, p2, parser, gmosBufferInit) \<and>
    bufs p2 [(messageBuffer parser, cborEncode v), (tokenBuffer parser, toksBytes (valueTokens v 0))] R \<and>
    same_on R p p2"
  using encode_scan_ok [OF assms] .

theorem cbor_round_trip_witness:
  "\<exists>p1 b1 p2 parser ts.
     runCalls (encodeCalls (CArray False [CUInt 1, CTag 2 CNull])) bootPool gmosBufferInit = Some (True, p1, b1) \<and>
     gmosFormatCborParserScan p1 b1 2 = Some (True, p2, parser, gmosBufferInit) \<and>
     bufs p2 [(messageBuffer parser, [0x82, 0x01, 0xC2, 0xF6]), (tokenBuffer parser, toksBytes ts)] {} \<and>
     map typeSpecifier ts = [0x82, 0x01, 0xC2, 0xF6] \<and> map typeParam ts = [2, 1, 2, 22] \<and>
     map baseOffset ts = [0, 1, 2, 3] \<and> map tokenCount ts = [4, 1, 2, 1]"
proof -
  let ?v = "CArray False [CUInt 1, CTag 2 CNull]"
  have c: "cborEncode ?v = [0x82, 0x01, 0xC2, 0xF6]" by (simp add: cborHead_def initialByte_def)
  have t: "length (valueTokens ?v 0) = 4" "map typeSpecifier (valueTokens ?v 0) = [0x82, 0x01, 0xC2, 0xF6]"
    "map typeParam (valueTokens ?v 0) = [2, 1, 2, 22]" "map baseOffset (valueTokens ?v 0) = [0, 1, 2, 3]"
    "map tokenCount (valueTokens ?v 0) = [4, 1, 2, 1]"
    by (simp_all add: containerTokens_def closed_def headToken_def cborHead_def initialByte_def)
  have n: "need (length (cborEncode ?v)) + need (16 * length (valueTokens ?v 0)) \<le> avail bootPool"
    unfolding c t(1) using bootPool_ok by (simp add: need_def GMOS_CONFIG_MEMPOOL_SEGMENT_SIZE_def)
  have s: "scannable ?v 2" by (simp add: GMOS_CONFIG_CBOR_MAX_ARRAY_SIZE_def)
  have h: "\<not> mempoolUseHeap bootPool" "encodable ?v" "length (cborEncode ?v) < 65536"
    "16 * length (valueTokens ?v 0) < 65536"
    unfolding c t(1) using bootPool_ok by simp_all
  have "buf_state bootPool gmosBufferInit [] {}" using buf_state_init [OF bootPool_ok(1)] .
  from cbor_round_trip [OF this h(1,2) s h(3,4) n] obtain p1 b1 p2 parser where
    "runCalls (encodeCalls ?v) bootPool gmosBufferInit = Some (True, p1, b1)"
    "gmosFormatCborParserScan p1 b1 2 = Some (True, p2, parser, gmosBufferInit)"
    "bufs p2 [(messageBuffer parser, cborEncode ?v), (tokenBuffer parser, toksBytes (valueTokens ?v 0))] {}"
    by - (elim exE conjE, rule that)
  with t(2-5) show ?thesis unfolding c
    by - (rule exI [of _ p1], rule exI [of _ b1], rule exI [of _ p2], rule exI [of _ parser],
      rule exI [of _ "valueTokens ?v 0"], blast)
qed

end
