(* ===== verification/Gmos_Cbor_Dec.thy ===== *)
theory Gmos_Cbor_Dec
  imports Gmos_Cbor_Value
begin

text \<open>
  The decoding functions of common/src/gmos-format-cbor-dec.c: they read single data items from
  a scanned message, given the index of the item's token, and look up entries of arrays and maps.

  A function that returns a flag and writes a result through a pointer returns an option here,
  with \<open>None\<close> for the flag false; what it may have written before it failed is not modelled. The
  outer option is a fault of the buffer functions, as everywhere. Floating point values are their
  bit patterns. The two functions that convert every kind of number to a floating point value,
  \<open>gmosFormatCborDecodeNumeric32\<close> and \<open>gmosFormatCborDecodeNumeric64\<close>, are not modelled.
\<close>

subsection \<open>Tokens\<close>

definition gmosFormatCborDecodeToken :: "mempool \<Rightarrow> cborParser \<Rightarrow> nat \<Rightarrow> cborToken option option" where
  "gmosFormatCborDecodeToken p parser tokenIndex = do {
     r \<leftarrow> gmosBufferRead p (tokenBuffer parser) (u16 (tokenIndex * 16)) 16;
     Some (map_option bytesToken r) }"

definition gmosFormatCborDecodeTokenCount :: "mempool \<Rightarrow> cborParser \<Rightarrow> nat \<Rightarrow> nat option option" where
  "gmosFormatCborDecodeTokenCount p parser tokenIndex = do {
     r \<leftarrow> gmosFormatCborDecodeToken p parser tokenIndex;
     Some (map_option tokenCount r) }"

text \<open>The result is the offset and the length of the item's encoding.\<close>

definition gmosFormatCborDecodeTokenDataSource ::
    "mempool \<Rightarrow> cborParser \<Rightarrow> nat \<Rightarrow> (nat \<times> nat) option option" where
  "gmosFormatCborDecodeTokenDataSource p parser tokenIndex = do {
     r \<leftarrow> gmosFormatCborDecodeToken p parser tokenIndex;
     (case r of
        None \<Rightarrow> Some None
      | Some startToken \<Rightarrow>
          (let tokenBufferOffset = tokenIndex * 16 + tokenCount startToken * 16 in
           if tokenBufferOffset = gmosBufferGetSize (tokenBuffer parser)
           then Some (Some (baseOffset startToken,
             u16 (sub32 (gmosBufferGetSize (messageBuffer parser)) (baseOffset startToken))))
           else do {
             r \<leftarrow> gmosBufferRead p (tokenBuffer parser) (u16 tokenBufferOffset) 16;
             Some (map_option (\<lambda>bs. (baseOffset startToken,
               u16 (sub32 (baseOffset (bytesToken bs)) (baseOffset startToken)))) r) })) }"

subsection \<open>Simple values\<close>

text \<open>The common shape of the functions: a test and a conversion of the token at an index.\<close>

definition decodeWith ::
    "(cborToken \<Rightarrow> 'a option) \<Rightarrow> mempool \<Rightarrow> cborParser \<Rightarrow> nat \<Rightarrow> 'a option option" where
  "decodeWith f p parser tokenIndex = do {
     r \<leftarrow> gmosFormatCborDecodeToken p parser tokenIndex;
     Some (case r of None \<Rightarrow> None | Some token \<Rightarrow> f token) }"

definition gmosFormatCborMatchNull :: "mempool \<Rightarrow> cborParser \<Rightarrow> nat \<Rightarrow> bool option" where
  "gmosFormatCborMatchNull p parser tokenIndex = do {
     r \<leftarrow> gmosFormatCborDecodeToken p parser tokenIndex;
     Some (case r of None \<Rightarrow> False
           | Some token \<Rightarrow> typeSpecifier token = or (majorByte SIMPLE) 22) }"

definition gmosFormatCborMatchUndefined :: "mempool \<Rightarrow> cborParser \<Rightarrow> nat \<Rightarrow> bool option" where
  "gmosFormatCborMatchUndefined p parser tokenIndex = do {
     r \<leftarrow> gmosFormatCborDecodeToken p parser tokenIndex;
     Some (case r of None \<Rightarrow> False
           | Some token \<Rightarrow> typeSpecifier token = or (majorByte SIMPLE) 23) }"

definition gmosFormatCborDecodeBool :: "mempool \<Rightarrow> cborParser \<Rightarrow> nat \<Rightarrow> bool option option" where
  "gmosFormatCborDecodeBool = decodeWith (\<lambda>token.
     if typeSpecifier token = or (majorByte SIMPLE) 20 then Some False
     else if typeSpecifier token = or (majorByte SIMPLE) 21 then Some True else None)"

definition gmosFormatCborDecodeUint32 :: "mempool \<Rightarrow> cborParser \<Rightarrow> nat \<Rightarrow> 32 word option option" where
  "gmosFormatCborDecodeUint32 = decodeWith (\<lambda>token.
     if and (typeSpecifier token) 0xE0 = majorByte INT_POS \<and> typeParam token \<le> 2 ^ 32 - 1
     then Some (of_nat (typeParam token)) else None)"

definition gmosFormatCborDecodeInt32 :: "mempool \<Rightarrow> cborParser \<Rightarrow> nat \<Rightarrow> 32 word option option" where
  "gmosFormatCborDecodeInt32 = decodeWith (\<lambda>token.
     if and (typeSpecifier token) 0xE0 = majorByte INT_POS \<and> typeParam token \<le> 2 ^ 31 - 1
     then Some (of_nat (typeParam token))
     else if and (typeSpecifier token) 0xE0 = majorByte INT_NEG \<and> typeParam token \<le> 2 ^ 31 - 1
     then Some (ucast (not (of_nat (typeParam token) :: 64 word))) else None)"

definition gmosFormatCborDecodeUint64 :: "mempool \<Rightarrow> cborParser \<Rightarrow> nat \<Rightarrow> 64 word option option" where
  "gmosFormatCborDecodeUint64 = decodeWith (\<lambda>token.
     if and (typeSpecifier token) 0xE0 = majorByte INT_POS \<and> typeParam token \<le> 2 ^ 64 - 1
     then Some (of_nat (typeParam token)) else None)"

definition gmosFormatCborDecodeInt64 :: "mempool \<Rightarrow> cborParser \<Rightarrow> nat \<Rightarrow> 64 word option option" where
  "gmosFormatCborDecodeInt64 = decodeWith (\<lambda>token.
     if and (typeSpecifier token) 0xE0 = majorByte INT_POS \<and> typeParam token \<le> 2 ^ 63 - 1
     then Some (of_nat (typeParam token))
     else if and (typeSpecifier token) 0xE0 = majorByte INT_NEG \<and> typeParam token \<le> 2 ^ 63 - 1
     then Some (not (of_nat (typeParam token))) else None)"

definition gmosFormatCborDecodeFloat32 :: "mempool \<Rightarrow> cborParser \<Rightarrow> nat \<Rightarrow> 32 word option option" where
  "gmosFormatCborDecodeFloat32 = decodeWith (\<lambda>token.
     if typeSpecifier token = or (majorByte SIMPLE) 26 then Some (of_nat (typeParam token)) else None)"

text \<open>
  The conversion of a single precision value to double precision, on the bit patterns: the
  exponent is rebased, a subnormal number is normalised, and the payload of a NaN is kept.
\<close>

fun leadingBit :: "nat \<Rightarrow> nat" where
  "leadingBit n = (if n \<le> 1 then 0 else Suc (leadingBit (n div 2)))"

declare leadingBit.simps [simp del]

definition floatToDouble :: "32 word \<Rightarrow> 64 word" where
  "floatToDouble w =
     (let s = unat w div 2 ^ 31; e = unat w div 2 ^ 23 mod 2 ^ 8; m = unat w mod 2 ^ 23;
          (e', m') = (if e = 255 then (2047, m * 2 ^ 29)
                      else if e = 0 \<and> m = 0 then (0, 0)
                      else if e = 0 then (let k = leadingBit m in (k + 874, (m - 2 ^ k) * 2 ^ (52 - k)))
                      else (e + 896, m * 2 ^ 29))
      in of_nat (s * 2 ^ 63 + e' * 2 ^ 52 + m'))"

definition gmosFormatCborDecodeFloat64 :: "mempool \<Rightarrow> cborParser \<Rightarrow> nat \<Rightarrow> 64 word option option" where
  "gmosFormatCborDecodeFloat64 p parser tokenIndex = do {
     r \<leftarrow> gmosFormatCborDecodeToken p parser tokenIndex;
     (case r of
        None \<Rightarrow> Some None
      | Some token \<Rightarrow>
          if typeSpecifier token = or (majorByte SIMPLE) 27
          then Some (Some (of_nat (typeParam token)))
          else do {
            v \<leftarrow> gmosFormatCborDecodeFloat32 p parser tokenIndex;
            Some (map_option floatToDouble v) }) }"

definition gmosFormatCborDecodeArray :: "mempool \<Rightarrow> cborParser \<Rightarrow> nat \<Rightarrow> nat option option" where
  "gmosFormatCborDecodeArray = decodeWith (\<lambda>token.
     if and (typeSpecifier token) 0xE0 = majorByte ARRAY \<and> typeParam token \<le> MAX_ARRAY
     then Some (u16 (typeParam token)) else None)"

definition gmosFormatCborDecodeMap :: "mempool \<Rightarrow> cborParser \<Rightarrow> nat \<Rightarrow> nat option option" where
  "gmosFormatCborDecodeMap = decodeWith (\<lambda>token.
     if and (typeSpecifier token) 0xE0 = majorByte MAP \<and> typeParam token \<le> MAX_MAP
     then Some (u16 (typeParam token)) else None)"

definition gmosFormatCborDecodeTag :: "mempool \<Rightarrow> cborParser \<Rightarrow> nat \<Rightarrow> nat option option" where
  "gmosFormatCborDecodeTag = decodeWith (\<lambda>token.
     if and (typeSpecifier token) 0xE0 = majorByte TAG then Some (typeParam token) else None)"

subsection \<open>Strings\<close>

text \<open>
  The comparison in blocks of 16 bytes. The caller's text is the memory behind its pointer; a
  read behind its end is a fault.
\<close>

function matchBlocks ::
    "mempool \<Rightarrow> gmosBuffer \<Rightarrow> nat \<Rightarrow> byte list \<Rightarrow> nat \<Rightarrow> nat \<Rightarrow> bool option" where
  "matchBlocks p message dataOffset textString len matchOffset =
     (if matchOffset < len
      then (let blockSize = (if len - matchOffset < 16 then len - matchOffset else 16) in do {
        r \<leftarrow> gmosBufferRead p message (u16 (dataOffset + matchOffset)) blockSize;
        (case r of
           None \<Rightarrow> Some False
         | Some blockData \<Rightarrow>
             if length textString < matchOffset + blockSize then None
             else if blockData = take blockSize (drop matchOffset textString)
             then matchBlocks p message dataOffset textString len (matchOffset + blockSize)
             else Some False) })
      else Some True)"
  by pat_completeness auto
termination
  by (relation "measure (\<lambda>(p, message, dataOffset, textString, len, matchOffset). len - matchOffset)")
     (auto split: if_splits)

declare matchBlocks.simps [simp del]

definition gmosFormatCborMatchTextString ::
    "mempool \<Rightarrow> cborParser \<Rightarrow> nat \<Rightarrow> byte list \<Rightarrow> nat \<Rightarrow> bool option" where
  "gmosFormatCborMatchTextString p parser tokenIndex textString len =
     (if len \<le> MAX_STRING
      then do {
        r \<leftarrow> gmosFormatCborDecodeToken p parser tokenIndex;
        (case r of
           None \<Rightarrow> Some False
         | Some token \<Rightarrow>
             if and (typeSpecifier token) 0xE0 = majorByte STR_TEXT \<and>
                and (typeSpecifier token) 0x1F \<noteq> 31 \<and> typeParam token = len
             then matchBlocks p (messageBuffer parser) (gmosFormatCborGetDataOffset token) textString len 0
             else Some False) }
      else Some False)"

definition gmosFormatCborMatchCharString ::
    "mempool \<Rightarrow> cborParser \<Rightarrow> nat \<Rightarrow> byte list \<Rightarrow> bool option" where
  "gmosFormatCborMatchCharString p parser tokenIndex textString = do {
     len \<leftarrow> charStringLength 0 textString;
     gmosFormatCborMatchTextString p parser tokenIndex textString len }"

text \<open>The result is what is written to the caller's buffer and the length of the source.\<close>

definition gmosFormatCborDecodeTextString ::
    "mempool \<Rightarrow> cborParser \<Rightarrow> nat \<Rightarrow> nat \<Rightarrow> (byte list \<times> nat) option option" where
  "gmosFormatCborDecodeTextString p parser tokenIndex stringBufLen = do {
     r \<leftarrow> gmosFormatCborDecodeToken p parser tokenIndex;
     (case r of
        None \<Rightarrow> Some None
      | Some token \<Rightarrow>
          if and (typeSpecifier token) 0xE0 = majorByte STR_TEXT \<and> and (typeSpecifier token) 0x1F \<noteq> 31
          then (let copySize = (if typeParam token \<ge> stringBufLen then sub32 stringBufLen 1
                                else u32 (typeParam token)) in do {
            r \<leftarrow> gmosBufferRead p (messageBuffer parser)
                   (u16 (gmosFormatCborGetDataOffset token)) (u16 copySize);
            Some (map_option (\<lambda>bs. (bs @ [0], u16 (typeParam token))) r) })
          else Some None) }"

definition gmosFormatCborDecodeByteString ::
    "mempool \<Rightarrow> cborParser \<Rightarrow> nat \<Rightarrow> nat \<Rightarrow> (byte list \<times> nat) option option" where
  "gmosFormatCborDecodeByteString p parser tokenIndex byteBufLen = do {
     r \<leftarrow> gmosFormatCborDecodeToken p parser tokenIndex;
     (case r of
        None \<Rightarrow> Some None
      | Some token \<Rightarrow>
          if and (typeSpecifier token) 0xE0 = majorByte STR_BYTE \<and> and (typeSpecifier token) 0x1F \<noteq> 31
          then (let copySize = (if typeParam token > byteBufLen then byteBufLen
                                else u32 (typeParam token)) in do {
            r \<leftarrow> gmosBufferRead p (messageBuffer parser)
                   (u16 (gmosFormatCborGetDataOffset token)) (u16 copySize);
            Some (map_option (\<lambda>bs. (bs, u16 (typeParam token))) r) })
          else Some None) }"

subsection \<open>Lookup\<close>

text \<open>The walk over the entries of an array.\<close>

primrec arrayWalk :: "mempool \<Rightarrow> cborParser \<Rightarrow> nat \<Rightarrow> nat \<Rightarrow> nat option option" where
  "arrayWalk p parser 0 tokenIndex = Some (Some tokenIndex)"
| "arrayWalk p parser (Suc n) tokenIndex = do {
     r \<leftarrow> gmosFormatCborDecodeTokenCount p parser tokenIndex;
     (case r of
        None \<Rightarrow> Some None
      | Some count \<Rightarrow> arrayWalk p parser n (u16 (tokenIndex + count))) }"

definition gmosFormatCborLookupArrayEntry ::
    "mempool \<Rightarrow> cborParser \<Rightarrow> nat \<Rightarrow> nat \<Rightarrow> nat option option" where
  "gmosFormatCborLookupArrayEntry p parser tokenIndex arrayIndex = do {
     r \<leftarrow> gmosFormatCborDecodeArray p parser tokenIndex;
     (case r of
        None \<Rightarrow> Some None
      | Some arrayLength \<Rightarrow>
          if arrayIndex < arrayLength then arrayWalk p parser arrayIndex (u16 (tokenIndex + 1))
          else Some None) }"

text \<open>The walk over the entries of a map, with the test for the key as an argument.\<close>

primrec mapWalk ::
    "mempool \<Rightarrow> cborParser \<Rightarrow> (nat \<Rightarrow> bool option) \<Rightarrow> nat \<Rightarrow> nat \<Rightarrow> nat option option" where
  "mapWalk p parser isKey 0 tokenIndex = Some None"
| "mapWalk p parser isKey (Suc n) tokenIndex = do {
     matches \<leftarrow> isKey tokenIndex;
     if matches then Some (Some (u16 (tokenIndex + 1)))
     else do {
       r \<leftarrow> gmosFormatCborDecodeTokenCount p parser (u16 (tokenIndex + 1));
       (case r of
          None \<Rightarrow> Some None
        | Some count \<Rightarrow> mapWalk p parser isKey n (u16 (tokenIndex + (1 + count)))) } }"

definition gmosFormatCborLookupMapIntKey ::
    "mempool \<Rightarrow> cborParser \<Rightarrow> nat \<Rightarrow> 64 word \<Rightarrow> nat option option" where
  "gmosFormatCborLookupMapIntKey p parser tokenIndex key = do {
     r \<leftarrow> gmosFormatCborDecodeMap p parser tokenIndex;
     (case r of
        None \<Rightarrow> Some None
      | Some mapLength \<Rightarrow>
          mapWalk p parser
            (\<lambda>tokenIndex. do {
               matchKey \<leftarrow> gmosFormatCborDecodeInt64 p parser tokenIndex;
               Some (matchKey = Some key) })
            mapLength (u16 (tokenIndex + 1))) }"

definition gmosFormatCborLookupMapTextKey ::
    "mempool \<Rightarrow> cborParser \<Rightarrow> nat \<Rightarrow> byte list \<Rightarrow> nat \<Rightarrow> nat option option" where
  "gmosFormatCborLookupMapTextKey p parser tokenIndex key keyLength =
     (if keyLength \<le> MAX_STRING
      then do {
        r \<leftarrow> gmosFormatCborDecodeMap p parser tokenIndex;
        (case r of
           None \<Rightarrow> Some None
         | Some mapLength \<Rightarrow>
             mapWalk p parser
               (\<lambda>tokenIndex. gmosFormatCborMatchTextString p parser tokenIndex key keyLength)
               mapLength (u16 (tokenIndex + 1))) }
      else Some None)"

definition gmosFormatCborLookupMapCharKey ::
    "mempool \<Rightarrow> cborParser \<Rightarrow> nat \<Rightarrow> byte list \<Rightarrow> nat option option" where
  "gmosFormatCborLookupMapCharKey p parser tokenIndex key = do {
     keyLength \<leftarrow> charStringLength 0 key;
     gmosFormatCborLookupMapTextKey p parser tokenIndex key keyLength }"

subsection \<open>Reading tokens\<close>

text \<open>A parser after a scan: the message and the tokens can be read.\<close>

definition parserHolds :: "mempool \<Rightarrow> cborParser \<Rightarrow> byte list \<Rightarrow> cborToken list \<Rightarrow> bool" where
  "parserHolds p parser msg ts \<longleftrightarrow>
     (\<exists>R. bufs p [(messageBuffer parser, msg), (tokenBuffer parser, toksBytes ts)] R) \<and>
     (\<forall>t\<in>set ts. token_ok t)"

lemma parserHolds_buffers:
  assumes "parserHolds p parser msg ts"
  shows "\<exists>R. buf_state p (messageBuffer parser) msg R"
    "\<exists>R. buf_state p (tokenBuffer parser) (toksBytes ts) R"
proof -
  from assms obtain R where b: "bufs p [(messageBuffer parser, msg), (tokenBuffer parser, toksBytes ts)] R"
    by (auto simp: parserHolds_def simp del: bufs.simps)
  from bufs_2D [OF b] show "\<exists>R. buf_state p (tokenBuffer parser) (toksBytes ts) R" by metis
  from bufs_2D [OF bufs_swap [OF b]] show "\<exists>R. buf_state p (messageBuffer parser) msg R" by metis
qed

lemma parserHolds_size:
  assumes "parserHolds p parser msg ts"
  shows "gmosBufferGetSize (messageBuffer parser) = length msg" "length msg < 65536"
    "gmosBufferGetSize (tokenBuffer parser) = 16 * length ts" "length ts < 4096"
  using parserHolds_buffers [OF assms] buf_state_size by (fastforce simp: gmosBufferGetSize_def)+

lemma readMessage:
  assumes "parserHolds p parser msg ts"
  shows "gmosBufferRead p (messageBuffer parser) offset n =
    Some (if offset + n \<le> length msg then Some (take n (drop offset msg)) else None)"
  using parserHolds_buffers(1) [OF assms] gmosBufferRead_ok by blast

lemma readToken:
  assumes "parserHolds p parser msg ts"
  shows "gmosBufferRead p (tokenBuffer parser) (16 * i) 16 =
    Some (if i < length ts then Some (tokenBytes (ts ! i)) else None)"
  using parserHolds_buffers(2) [OF assms] gmosBufferRead_ok
  by (auto simp: toksBytes_nth)

text \<open>
  The offset of a token is passed on as a 16-bit number: indices from 4096 on are aliases of
  smaller ones.
\<close>

lemma DecodeToken_ok:
  assumes "parserHolds p parser msg ts"
  shows "gmosFormatCborDecodeToken p parser i =
    Some (if i mod 4096 < length ts then Some (ts ! (i mod 4096)) else None)"
proof -
  have u: "u16 (i * 16) = 16 * (i mod 4096)"
    using mult_mod_right [of 16 i 4096] by (simp add: u16_def mult.commute)
  have "i mod 4096 < length ts \<Longrightarrow> token_ok (ts ! (i mod 4096))"
    using assms by (simp add: parserHolds_def)
  then show ?thesis
    unfolding gmosFormatCborDecodeToken_def u readToken [OF assms]
    by (simp add: bytesToken_tokenBytes)
qed

lemma decodeWith_ok:
  "parserHolds p parser msg ts \<Longrightarrow> i < length ts \<Longrightarrow> decodeWith f p parser i = Some (f (ts ! i))"
  using parserHolds_size(4) [of p parser msg ts] by (simp add: decodeWith_def DecodeToken_ok)

subsection \<open>A value at an index\<close>

text \<open>
  The tokens from index \<open>i\<close> on are those of the value \<open>v\<close>, and the message holds its
  encoding at offset \<open>off\<close>.
\<close>

definition holdsAt :: "byte list \<Rightarrow> cborToken list \<Rightarrow> nat \<Rightarrow> cbor \<Rightarrow> nat \<Rightarrow> bool" where
  "holdsAt msg ts i v off \<longleftrightarrow>
     (\<exists>rest. drop i ts = valueTokens v off @ rest) \<and>
     (\<exists>pre post. msg = pre @ cborEncode v @ post \<and> length pre = off)"

lemma valueTokens_Cons:
  "\<exists>t us. valueTokens v off = t # us \<and> tokenCount t = u16 (length (valueTokens v off)) \<and> baseOffset t = off"
  by (cases v) (auto simp: containerTokens_def closed_def headToken_def)

lemma holdsAt_token:
  assumes "holdsAt msg ts i v off"
  shows "i < length ts" "ts ! i = hd (valueTokens v off)"
    "i + length (valueTokens v off) \<le> length ts"
proof -
  from assms obtain rest where d: "drop i ts = valueTokens v off @ rest" by (auto simp: holdsAt_def)
  obtain t us where v: "valueTokens v off = t # us" using valueTokens_Cons by blast
  show i: "i < length ts"
  proof (rule ccontr)
    assume "\<not> i < length ts"
    then show False using d v by simp
  qed
  show "ts ! i = hd (valueTokens v off)" using hd_drop_conv_nth [OF i] d v by simp
  show "i + length (valueTokens v off) \<le> length ts"
    using arg_cong [OF d, of length] i by simp
qed

text \<open>The type specifier of a value's first token.\<close>

lemma initialByte_eq_iff:
  "i < 32 \<Longrightarrow> j < 32 \<Longrightarrow> initialByte m i = initialByte n j \<longleftrightarrow> m = n \<and> i = j"
  by (metis initialByte_parts(2,3) majorByte_inject)

lemma hd_cborHead: "\<exists>k\<le>27. hd (cborHead m n) = initialByte m k \<and> (k < 24 \<longrightarrow> k = n)"
  by (auto simp: cborHead_def intro: exI [of _ n] exI [of _ 24] exI [of _ 25] exI [of _ 26] exI [of _ 27])

lemma cborHead_type:
  "and (hd (cborHead m n)) 0xE0 = majorByte m" "and (hd (cborHead m n)) 0x1F \<noteq> 31"
  "i < 24 \<Longrightarrow> hd (cborHead m n) = initialByte SIMPLE i \<longleftrightarrow> m = SIMPLE \<and> n = i"
  "m \<noteq> SIMPLE \<Longrightarrow> i < 32 \<Longrightarrow> hd (cborHead m n) \<noteq> initialByte SIMPLE i"
proof -
  obtain k where k: "k \<le> 27" "hd (cborHead m n) = initialByte m k" "k < 24 \<longrightarrow> k = n"
    using hd_cborHead by blast
  show "and (hd (cborHead m n)) 0xE0 = majorByte m" using k initialByte_parts(3) by simp
  have "unat (and (initialByte m k) 0x1F) \<noteq> 31" using k(1) initialByte_parts(2) [of k m] by simp
  then show "and (hd (cborHead m n)) 0x1F \<noteq> 31" unfolding k(2) by auto
  show "m \<noteq> SIMPLE \<Longrightarrow> i < 32 \<Longrightarrow> hd (cborHead m n) \<noteq> initialByte SIMPLE i"
    using k by (simp add: initialByte_eq_iff)
  show "i < 24 \<Longrightarrow> hd (cborHead m n) = initialByte SIMPLE i \<longleftrightarrow> m = SIMPLE \<and> n = i"
    using k by (auto simp: initialByte_eq_iff cborHead_def)
qed

subsection \<open>Numbers\<close>

lemma sint_of_int_32: "- (2 ^ 31) \<le> j \<Longrightarrow> j < 2 ^ 31 \<Longrightarrow> sint (word_of_int j :: 32 word) = j"
  by (simp add: signed_of_int signed_take_bit_int_eq_self)

lemma sint_of_int_64: "- (2 ^ 63) \<le> j \<Longrightarrow> j < 2 ^ 63 \<Longrightarrow> sint (word_of_int j :: 64 word) = j"
  by (simp add: signed_of_int signed_take_bit_int_eq_self)

lemma uint_of_nat_32: "k < 2 ^ 32 \<Longrightarrow> uint (word_of_nat k :: 32 word) = int k"
  by (simp add: unsigned_of_nat take_bit_nat_eq_self)

lemma uint_of_nat_64: "k < 2 ^ 64 \<Longrightarrow> uint (word_of_nat k :: 64 word) = int k"
  by (simp add: unsigned_of_nat take_bit_nat_eq_self)

lemma not_of_nat_64: "not (word_of_nat k :: 64 word) = word_of_int (- 1 - int k)"
  by (simp add: not_eq_complement)

lemma ucast_of_int_32: "ucast (word_of_int j :: 64 word) = (word_of_int j :: 32 word)"
  by (rule bit_word_eqI) (simp add: bit_unsigned_iff bit_word_of_int_iff)

lemma sint_of_nat:
  "k < 2 ^ 31 \<Longrightarrow> sint (word_of_nat k :: 32 word) = int k"
  "k < 2 ^ 63 \<Longrightarrow> sint (word_of_nat k :: 64 word) = int k"
  using sint_of_int_32 [of "int k"] sint_of_int_64 [of "int k"] by simp_all

text \<open>The number an integer item stands for.\<close>

fun cborInt :: "cbor \<Rightarrow> int option" where
  "cborInt (CUInt n) = Some (uint n)"
| "cborInt (CNInt n) = Some (- 1 - uint n)"
| "cborInt _ = None"

definition inRange :: "int \<Rightarrow> int \<Rightarrow> int option \<Rightarrow> int option" where
  "inRange lo hi k = (case k of None \<Rightarrow> None | Some k \<Rightarrow> if lo \<le> k \<and> k < hi then Some k else None)"

lemma headToken_sel [simp]:
  "typeSpecifier (headToken h n off) = hd h" "typeParam (headToken h n off) = n"
  "baseOffset (headToken h n off) = off" "tokenCount (headToken h n off) = 1"
  by (simp_all add: headToken_def)

lemma hd_containerTokens [simp]:
  "typeSpecifier (hd (containerTokens h n fs ls off)) = hd h"
  "typeParam (hd (containerTokens h n fs ls off)) = n"
  "baseOffset (hd (containerTokens h n fs ls off)) = off"
  by (simp_all add: containerTokens_def closed_def)

primrec valueMajor :: "cbor \<Rightarrow> cborMajorType" where
  "valueMajor (CUInt n) = INT_POS"
| "valueMajor (CNInt n) = INT_NEG"
| "valueMajor (CBytes s) = STR_BYTE"
| "valueMajor (CText s) = STR_TEXT"
| "valueMajor (CArray indef vs) = ARRAY"
| "valueMajor (CMap indef kvs) = MAP"
| "valueMajor (CTag n v) = TAG"
| "valueMajor CNull = SIMPLE"
| "valueMajor CUndefined = SIMPLE"
| "valueMajor (CBool b) = SIMPLE"
| "valueMajor (CFloat32 w) = SIMPLE"
| "valueMajor (CFloat64 w) = SIMPLE"

lemma value_type: "and (typeSpecifier (hd (valueTokens v off))) 0xE0 = majorByte (valueMajor v)"
  by (cases v) (simp_all add: cborHead_type(1) initialByte_parts(3))

text \<open>The first token of a value is at the index.\<close>

definition tokenFor :: "mempool \<Rightarrow> cborParser \<Rightarrow> nat \<Rightarrow> cbor \<Rightarrow> nat \<Rightarrow> bool" where
  "tokenFor p parser i v off \<longleftrightarrow>
     gmosFormatCborDecodeToken p parser i = Some (Some (hd (valueTokens v off)))"

lemma holdsAt_tokenFor:
  "parserHolds p parser msg ts \<Longrightarrow> holdsAt msg ts i v off \<Longrightarrow> tokenFor p parser i v off"
  using holdsAt_token [of msg ts i v off] parserHolds_size(4) [of p parser msg ts]
  by (simp add: tokenFor_def DecodeToken_ok)

lemma decode_unsigned:
  assumes "tokenFor p parser i v off"
  shows "map_option (map_option uint) (gmosFormatCborDecodeUint32 p parser i) =
      Some (inRange 0 (2 ^ 32) (cborInt v))"
    "map_option (map_option uint) (gmosFormatCborDecodeUint64 p parser i) =
      Some (inRange 0 (2 ^ 64) (cborInt v))"
proof -
  note d = assms [unfolded tokenFor_def]
  have "map_option (map_option uint) (gmosFormatCborDecodeUint32 p parser i) =
      Some (inRange 0 (2 ^ 32) (cborInt v)) \<and>
    map_option (map_option uint) (gmosFormatCborDecodeUint64 p parser i) =
      Some (inRange 0 (2 ^ 64) (cborInt v))"
  proof (cases "valueMajor v = INT_POS")
    case True
    then obtain n where v: "v = CUInt n" by (cases v) simp_all
    have lt: "unat n < 2 ^ 64" by (rule order_less_le_trans [OF unsigned_less]) simp
    obtain k where n: "unat n = k" "uint n = int k" by simp
    then have "k \<le> 2 ^ 64 - 1" using lt by simp
    then show ?thesis
      using value_type [of v off] n
      by (simp add: gmosFormatCborDecodeUint32_def gmosFormatCborDecodeUint64_def decodeWith_def d v
          inRange_def uint_of_nat_32 uint_of_nat_64)
  next
    case False
    have "\<not> uint x \<le> - 1" for x :: "64 word"
    proof -
      have "0 \<le> uint x" by (rule unsigned_greater_eq)
      then show ?thesis by linarith
    qed
    then have "inRange 0 k (cborInt v) = None" for k using False by (cases v) (simp_all add: inRange_def)
    then show ?thesis
      using value_type [of v off] False
      by (simp add: gmosFormatCborDecodeUint32_def gmosFormatCborDecodeUint64_def decodeWith_def d)
  qed
  then show "map_option (map_option uint) (gmosFormatCborDecodeUint32 p parser i) =
      Some (inRange 0 (2 ^ 32) (cborInt v))"
    "map_option (map_option uint) (gmosFormatCborDecodeUint64 p parser i) =
      Some (inRange 0 (2 ^ 64) (cborInt v))" by simp_all
qed

lemma decode_signed:
  assumes "tokenFor p parser i v off"
  shows "map_option (map_option sint) (gmosFormatCborDecodeInt32 p parser i) =
      Some (inRange (- (2 ^ 31)) (2 ^ 31) (cborInt v))"
    "map_option (map_option sint) (gmosFormatCborDecodeInt64 p parser i) =
      Some (inRange (- (2 ^ 63)) (2 ^ 63) (cborInt v))"
proof -
  note d = assms [unfolded tokenFor_def]
  have r: "gmosFormatCborDecodeInt32 p parser i = Some (
      if valueMajor v = INT_POS \<and> typeParam (hd (valueTokens v off)) \<le> 2 ^ 31 - 1
      then Some (word_of_nat (typeParam (hd (valueTokens v off))))
      else if valueMajor v = INT_NEG \<and> typeParam (hd (valueTokens v off)) \<le> 2 ^ 31 - 1
      then Some (word_of_int (- 1 - int (typeParam (hd (valueTokens v off))))) else None)"
    "gmosFormatCborDecodeInt64 p parser i = Some (
      if valueMajor v = INT_POS \<and> typeParam (hd (valueTokens v off)) \<le> 2 ^ 63 - 1
      then Some (word_of_nat (typeParam (hd (valueTokens v off))))
      else if valueMajor v = INT_NEG \<and> typeParam (hd (valueTokens v off)) \<le> 2 ^ 63 - 1
      then Some (word_of_int (- 1 - int (typeParam (hd (valueTokens v off))))) else None)"
    using value_type [of v off]
    by (simp_all only: gmosFormatCborDecodeInt32_def gmosFormatCborDecodeInt64_def decodeWith_def d
        not_of_nat_64 ucast_of_int_32 Option.bind.simps option.case majorByte_inject simp_thms)
  consider n where "v = CUInt n" | n where "v = CNInt n" | "valueMajor v \<noteq> INT_POS" "valueMajor v \<noteq> INT_NEG"
    by (cases v) auto
  then have "map_option (map_option sint) (gmosFormatCborDecodeInt32 p parser i) =
      Some (inRange (- (2 ^ 31)) (2 ^ 31) (cborInt v)) \<and>
    map_option (map_option sint) (gmosFormatCborDecodeInt64 p parser i) =
      Some (inRange (- (2 ^ 63)) (2 ^ 63) (cborInt v))"
  proof cases
    case 1
    obtain k where n: "unat n = k" "uint n = int k" by simp
    have "sint (word_of_nat k :: 32 word) = int k" if "k \<le> 2 ^ 31 - 1"
      by (rule sint_of_nat(1)) (use that in simp_all)
    moreover have "sint (word_of_nat k :: 64 word) = int k" if "k \<le> 2 ^ 63 - 1"
      by (rule sint_of_nat(2)) (use that in simp_all)
    ultimately show ?thesis unfolding r 1 cborInt.simps n inRange_def by (simp add: n)
  next
    case 2
    obtain k where n: "unat n = k" "uint n = int k" by simp
    have "sint (word_of_int (- 1 - int k) :: 32 word) = - 1 - int k"
      if "k \<le> 2 ^ 31 - 1"
      by (rule sint_of_int_32) (use that in simp_all)
    moreover have "sint (word_of_int (- 1 - int k) :: 64 word) = - 1 - int k"
      if "k \<le> 2 ^ 63 - 1"
      by (rule sint_of_int_64) (use that in simp_all)
    ultimately show ?thesis unfolding r 2 cborInt.simps n inRange_def by (simp add: n)
  next
    case 3
    then have "inRange j k (cborInt v) = None" for j k by (cases v) (simp_all add: inRange_def)
    then show ?thesis unfolding r using 3 by simp
  qed
  then show "map_option (map_option sint) (gmosFormatCborDecodeInt32 p parser i) =
      Some (inRange (- (2 ^ 31)) (2 ^ 31) (cborInt v))"
    "map_option (map_option sint) (gmosFormatCborDecodeInt64 p parser i) =
      Some (inRange (- (2 ^ 63)) (2 ^ 63) (cborInt v))" by simp_all
qed

subsection \<open>Other single values\<close>

lemma decode_simple:
  assumes "tokenFor p parser i v off"
  shows "gmosFormatCborMatchNull p parser i = Some (v = CNull)"
    "gmosFormatCborMatchUndefined p parser i = Some (v = CUndefined)"
    "gmosFormatCborDecodeBool p parser i = Some (case v of CBool b \<Rightarrow> Some b | _ \<Rightarrow> None)"
proof -
  note d = assms [unfolded tokenFor_def]
  note s = cborHead_type(3,4) initialByte_eq_iff
  show "gmosFormatCborMatchNull p parser i = Some (v = CNull)"
    by (cases v) (simp_all add: gmosFormatCborMatchNull_def d s)
  show "gmosFormatCborMatchUndefined p parser i = Some (v = CUndefined)"
    by (cases v) (simp_all add: gmosFormatCborMatchUndefined_def d s)
  show "gmosFormatCborDecodeBool p parser i = Some (case v of CBool b \<Rightarrow> Some b | _ \<Rightarrow> None)"
    by (cases v) (simp_all add: gmosFormatCborDecodeBool_def decodeWith_def d s)
qed

lemma hd_cborHead_float: "i \<in> {26, 27} \<Longrightarrow> n < 24 \<Longrightarrow> hd (cborHead SIMPLE n) \<noteq> initialByte SIMPLE i"
  by (auto simp: cborHead_def initialByte_eq_iff)

lemma decode_float:
  assumes "tokenFor p parser i v off"
  shows "gmosFormatCborDecodeFloat32 p parser i = Some (case v of CFloat32 w \<Rightarrow> Some w | _ \<Rightarrow> None)"
    "gmosFormatCborDecodeFloat64 p parser i =
       Some (case v of CFloat64 w \<Rightarrow> Some w | CFloat32 w \<Rightarrow> Some (floatToDouble w) | _ \<Rightarrow> None)"
proof -
  note d = assms [unfolded tokenFor_def]
  note s = cborHead_type(4) initialByte_eq_iff hd_cborHead_float
  show f: "gmosFormatCborDecodeFloat32 p parser i = Some (case v of CFloat32 w \<Rightarrow> Some w | _ \<Rightarrow> None)"
    by (cases v) (simp_all add: gmosFormatCborDecodeFloat32_def decodeWith_def d s)
  show "gmosFormatCborDecodeFloat64 p parser i =
       Some (case v of CFloat64 w \<Rightarrow> Some w | CFloat32 w \<Rightarrow> Some (floatToDouble w) | _ \<Rightarrow> None)"
    unfolding gmosFormatCborDecodeFloat64_def d f
    by (cases v) (simp_all add: s)
qed

lemma decode_container:
  assumes "tokenFor p parser i v off"
  shows "gmosFormatCborDecodeArray p parser i = Some (case v of
      CArray _ vs \<Rightarrow> if length vs \<le> MAX_ARRAY then Some (length vs) else None | _ \<Rightarrow> None)"
    "gmosFormatCborDecodeMap p parser i = Some (case v of
      CMap _ kvs \<Rightarrow> if length kvs \<le> MAX_MAP then Some (length kvs) else None | _ \<Rightarrow> None)"
    "gmosFormatCborDecodeTag p parser i = Some (case v of CTag n _ \<Rightarrow> Some (unat n) | _ \<Rightarrow> None)"
proof -
  note d = assms [unfolded tokenFor_def]
  have m: "and (typeSpecifier (hd (valueTokens v off))) 0xE0 = majorByte (valueMajor v)" by (rule value_type)
  have u: "u16 n = n" if "n \<le> MAX_ARRAY \<or> n \<le> MAX_MAP" for n
    using that MAX_less(1,2) by (intro u16_small) linarith
  show "gmosFormatCborDecodeArray p parser i = Some (case v of
      CArray _ vs \<Rightarrow> if length vs \<le> MAX_ARRAY then Some (length vs) else None | _ \<Rightarrow> None)"
    using m u by (cases v) (simp_all add: gmosFormatCborDecodeArray_def decodeWith_def d)
  show "gmosFormatCborDecodeMap p parser i = Some (case v of
      CMap _ kvs \<Rightarrow> if length kvs \<le> MAX_MAP then Some (length kvs) else None | _ \<Rightarrow> None)"
    using m u by (cases v) (simp_all add: gmosFormatCborDecodeMap_def decodeWith_def d)
  show "gmosFormatCborDecodeTag p parser i = Some (case v of CTag n _ \<Rightarrow> Some (unat n) | _ \<Rightarrow> None)"
    using m by (cases v) (simp_all add: gmosFormatCborDecodeTag_def decodeWith_def d)
qed

subsection \<open>Strings\<close>

lemma if_Some_conj: "(if A then Some B else Some False) = Some (A \<and> B)"
  by simp

lemma matchBlocks_ok:
  assumes h: "parserHolds p parser msg ts" and s: "length s \<le> length text"
    and m: "take (length s) (drop off msg) = s" and o: "off + length s \<le> length msg"
  shows "k \<le> length s \<Longrightarrow> matchBlocks p (messageBuffer parser) off text (length s) k =
    Some (drop k (take (length s) text) = drop k s)"
proof (induction "length s - k" arbitrary: k rule: less_induct)
  case less
  show ?case
  proof (cases "k < length s")
    case False
    then show ?thesis by (simp add: matchBlocks.simps)
  next
    case True
    let ?n = "if length s - k < 16 then length s - k else 16"
    have n: "0 < ?n" "k + ?n \<le> length s" using True by auto
    have len: "length msg < 65536" by (rule parserHolds_size(2) [OF h])
    have "off + k < 65536" using n o len by linarith
    then have u: "u16 (off + k) = off + k" by simp
    have rd: "gmosBufferRead p (messageBuffer parser) (u16 (off + k)) ?n = Some (Some (take ?n (drop k s)))"
    proof -
      have "take ?n (drop k s) = take ?n (drop k (take (length s) (drop off msg)))" using m by simp
      also have "\<dots> = take ?n (drop (off + k) msg)"
        using n by (simp add: drop_take min_absorb1 add.commute)
      finally show ?thesis unfolding u readMessage [OF h] using n o by simp
    qed
    have split: "drop k (take (length s) text) = drop k s \<longleftrightarrow>
      take ?n (drop k s) = take ?n (drop k text) \<and>
      drop (k + ?n) (take (length s) text) = drop (k + ?n) s"
    proof -
      have t: "take ?n (drop k (take (length s) text)) = take ?n (drop k text)"
        using n by (simp add: drop_take min_absorb1)
      have "drop k (take (length s) text) = drop k s \<longleftrightarrow>
        take ?n (drop k (take (length s) text)) = take ?n (drop k s) \<and>
        drop ?n (drop k (take (length s) text)) = drop ?n (drop k s)"
        by (metis append_take_drop_id)
      then show ?thesis unfolding t by (auto simp: add.commute)
    qed
    have rec: "matchBlocks p (messageBuffer parser) off text (length s) (k + ?n) =
        Some (drop (k + ?n) (take (length s) text) = drop (k + ?n) s)"
      by (rule less.hyps) (use n True in linarith)+
    have nl: "\<not> length text < k + ?n" using n s by linarith
    show ?thesis
      by (subst matchBlocks.simps)
        (simp only: Let_def rd rec split nl True if_True if_False Option.bind.simps option.case
          if_Some_conj)
  qed
qed

lemma holdsAt_message:
  assumes "holdsAt msg ts i v off" "cborEncode v = h @ s"
  shows "take (length s) (drop (off + length h) msg) = s" "off + length h + length s \<le> length msg"
  using assms by (auto simp: holdsAt_def)

lemma string_token:
  assumes "length s < 2 ^ 64"
  shows "gmosFormatCborGetDataOffset (headToken (cborHead m (length s)) (length s) off) =
    off + length (cborHead m (length s))"
  using headAt_cborHead(2) [OF assms, of "replicate off 0 @ cborHead m (length s) @ []" "replicate off 0" m "[]"]
  by (simp add: dataOff_def)

lemma decode_MatchText:
  assumes h: "parserHolds p parser msg ts" and v: "holdsAt msg ts i v off"
    and len: "len \<le> length text" "len < 65536"
  shows "gmosFormatCborMatchTextString p parser i text len =
    Some (len \<le> MAX_STRING \<and> v = CText (take len text))"
proof (cases "len \<le> MAX_STRING")
  case False
  then show ?thesis by (simp add: gmosFormatCborMatchTextString_def)
next
  case True
  note d = holdsAt_tokenFor [OF h v, unfolded tokenFor_def]
  have m: "and (typeSpecifier (hd (valueTokens v off))) 0xE0 = majorByte (valueMajor v)" by (rule value_type)
  show ?thesis
  proof (cases "valueMajor v = STR_TEXT")
    case False
    then have "v \<noteq> CText (take len text)" by auto
    then show ?thesis using False m True by (simp add: gmosFormatCborMatchTextString_def d)
  next
    case isText: True
    then obtain s where s: "v = CText s" by (cases v) simp_all
    have sz: "off + length (cborHead STR_TEXT (length s)) + length s \<le> length msg"
      "take (length s) (drop (off + length (cborHead STR_TEXT (length s))) msg) = s"
      using holdsAt_message [OF v [unfolded s], of "cborHead STR_TEXT (length s)" s] by simp_all
    have l: "length s < 2 ^ 64" using sz(1) parserHolds_size(2) [OF h] by simp
    note o = string_token [OF l, of STR_TEXT off]
    show ?thesis
    proof (cases "length s = len")
      case False
      then have "s \<noteq> take len text" using len(1) by auto
      then show ?thesis using False True by (simp add: gmosFormatCborMatchTextString_def d s)
    next
      case eq: True
      have "gmosFormatCborMatchTextString p parser i text len =
          matchBlocks p (messageBuffer parser) (off + length (cborHead STR_TEXT (length s))) text (length s) 0"
        using True unfolding eq [symmetric]
        by (simp add: gmosFormatCborMatchTextString_def d s o cborHead_type(1,2))
      also have "\<dots> = Some (take (length s) text = s)"
        using matchBlocks_ok [OF h _ sz(2,1), of "text" 0] len(1) eq by simp
      finally show ?thesis using True eq s by auto
    qed
  qed
qed

lemma decode_strings:
  assumes h: "parserHolds p parser msg ts" and v: "holdsAt msg ts i v off" and n: "n < 65536"
  shows "gmosFormatCborDecodeTextString p parser i n = Some (case v of
      CText s \<Rightarrow> if n = 0 then None else Some (take (n - 1) s @ [0], length s) | _ \<Rightarrow> None)"
    "gmosFormatCborDecodeByteString p parser i n = Some (case v of
      CBytes s \<Rightarrow> Some (take n s, length s) | _ \<Rightarrow> None)"
proof -
  note d = holdsAt_tokenFor [OF h v, unfolded tokenFor_def]
  have m: "and (typeSpecifier (hd (valueTokens v off))) 0xE0 = majorByte (valueMajor v)" by (rule value_type)
  have len: "length msg < 65536" by (rule parserHolds_size(2) [OF h])
  have body: "off + length (cborHead m (length s)) + length s \<le> length msg \<and>
      take (length s) (drop (off + length (cborHead m (length s))) msg) = s \<and>
      gmosFormatCborGetDataOffset (headToken (cborHead m (length s)) (length s) off) =
        off + length (cborHead m (length s)) \<and> 0 < length (cborHead m (length s))"
    if "cborEncode v = cborHead m (length s) @ s" for m s
  proof -
    note b = holdsAt_message [OF v that]
    have "length s < 2 ^ 64" using b(2) len by simp
    from string_token [OF this, of m off] b show ?thesis using length_cborHead(2) by simp
  qed
  have rd: "gmosBufferRead p (messageBuffer parser) (u16 (off + length (cborHead m (length s)))) k =
      Some (Some (take k s))"
    if "cborEncode v = cborHead m (length s) @ s" "k \<le> length s" for m s k
  proof -
    let ?o = "off + length (cborHead m (length s))"
    note b = body [OF that(1)]
    have "?o < 65536" using b len by linarith
    moreover have "take k s = take k (take (length s) (drop ?o msg))" using b by simp
    then have "take k (drop ?o msg) = take k s" using that(2) by (simp add: min_absorb1)
    ultimately show ?thesis using b that(2) by (simp add: readMessage [OF h])
  qed
  show "gmosFormatCborDecodeTextString p parser i n = Some (case v of
      CText s \<Rightarrow> if n = 0 then None else Some (take (n - 1) s @ [0], length s) | _ \<Rightarrow> None)"
  proof (cases "valueMajor v = STR_TEXT")
    case False
    then show ?thesis using m by (cases v) (simp_all add: gmosFormatCborDecodeTextString_def d)
  next
    case True
    then obtain s where s: "v = CText s" by (cases v) simp_all
    note b = body [of STR_TEXT s, unfolded s, simplified]
    let ?o = "off + length (cborHead STR_TEXT (length s))"
    have ls: "length s < 65536" using b len by linarith
    have sel: "and (hd (cborHead STR_TEXT (length s))) 0xE0 = majorByte STR_TEXT"
      "and (hd (cborHead STR_TEXT (length s))) 0x1F \<noteq> 31" by (rule cborHead_type)+
    have e: "gmosFormatCborDecodeTextString p parser i n = (do {
        r \<leftarrow> gmosBufferRead p (messageBuffer parser) (u16 ?o)
          (u16 (if length s \<ge> n then sub32 n 1 else u32 (length s)));
        Some (map_option (\<lambda>bs. (bs @ [0], u16 (length s))) r) })"
      using b sel by (simp add: gmosFormatCborDecodeTextString_def d s)
    show ?thesis
    proof (cases "n = 0")
      case True
      have "u16 (sub32 0 1) = 65535" by (simp add: sub32_def u16_def)
      moreover have "\<not> u16 ?o + 65535 \<le> length msg"
      proof -
        have "?o < 65536" using b len by linarith
        then have "u16 ?o = ?o" by simp
        moreover have "0 < ?o" using b by simp
        ultimately show ?thesis using len by linarith
      qed
      ultimately show ?thesis unfolding e using True s by (simp add: readMessage [OF h])
    next
      case False
      then have k: "u16 (if length s \<ge> n then sub32 n 1 else u32 (length s)) = min (n - 1) (length s)"
        using n ls by (simp add: sub32_def u32_def)
      show ?thesis
        unfolding e k using rd [of STR_TEXT s "min (n - 1) (length s)"] s False ls
        by (simp add: min_def)
    qed
  qed
  show "gmosFormatCborDecodeByteString p parser i n = Some (case v of
      CBytes s \<Rightarrow> Some (take n s, length s) | _ \<Rightarrow> None)"
  proof (cases "valueMajor v = STR_BYTE")
    case False
    then show ?thesis using m by (cases v) (simp_all add: gmosFormatCborDecodeByteString_def d)
  next
    case True
    then obtain s where s: "v = CBytes s" by (cases v) simp_all
    note b = body [of STR_BYTE s, unfolded s, simplified]
    have ls: "length s < 65536" using b len by linarith
    have sel: "and (hd (cborHead STR_BYTE (length s))) 0xE0 = majorByte STR_BYTE"
      "and (hd (cborHead STR_BYTE (length s))) 0x1F \<noteq> 31" by (rule cborHead_type)+
    have e: "gmosFormatCborDecodeByteString p parser i n = (do {
        r \<leftarrow> gmosBufferRead p (messageBuffer parser) (u16 (off + length (cborHead STR_BYTE (length s))))
          (u16 (if length s > n then n else u32 (length s)));
        Some (map_option (\<lambda>bs. (bs, u16 (length s))) r) })"
      using b sel by (simp add: gmosFormatCborDecodeByteString_def d s)
    have k: "u16 (if length s > n then n else u32 (length s)) = min n (length s)"
      using n ls by (simp add: u32_def)
    show ?thesis
      unfolding e k using rd [of STR_BYTE s "min n (length s)"] s ls
      by (simp add: min_def)
  qed
qed

subsection \<open>Lookup\<close>

text \<open>The tokens and the encodings of a sequence of values from an index and an offset on.\<close>

definition seqAt :: "byte list \<Rightarrow> cborToken list \<Rightarrow> nat \<Rightarrow> cbor list \<Rightarrow> nat \<Rightarrow> bool" where
  "seqAt msg ts j vs off \<longleftrightarrow>
     (\<exists>rest. drop j ts =
        seqTokens (zip (map valueTokens vs) (map (\<lambda>v. length (cborEncode v)) vs)) off @ rest) \<and>
     (\<exists>pre post. msg = pre @ concat (map cborEncode vs) @ post \<and> length pre = off)"

lemma seqAt_Cons:
  assumes "seqAt msg ts j (v # vs) off"
  shows "holdsAt msg ts j v off"
    "seqAt msg ts (j + length (valueTokens v off)) vs (off + length (cborEncode v))"
proof -
  from assms obtain rest pre post where d: "drop j ts = valueTokens v off @
      seqTokens (zip (map valueTokens vs) (map (\<lambda>v. length (cborEncode v)) vs)) (off + length (cborEncode v)) @ rest"
    and m: "msg = pre @ cborEncode v @ concat (map cborEncode vs) @ post" "length pre = off"
    by (auto simp: seqAt_def)
  show "holdsAt msg ts j v off" using d m unfolding holdsAt_def by blast
  have "drop (j + length (valueTokens v off)) ts = drop (length (valueTokens v off)) (drop j ts)"
    by (simp add: add.commute)
  also have "\<dots> = seqTokens (zip (map valueTokens vs) (map (\<lambda>v. length (cborEncode v)) vs))
      (off + length (cborEncode v)) @ rest" unfolding d by simp
  moreover have "msg = (pre @ cborEncode v) @ concat (map cborEncode vs) @ post"
    "length (pre @ cborEncode v) = off + length (cborEncode v)" using m by simp_all
  ultimately show "seqAt msg ts (j + length (valueTokens v off)) vs (off + length (cborEncode v))"
    unfolding seqAt_def by metis
qed

lemma DecodeTokenCount_ok:
  assumes h: "parserHolds p parser msg ts" and v: "holdsAt msg ts i v off"
  shows "gmosFormatCborDecodeTokenCount p parser i = Some (Some (length (valueTokens v off)))"
    "u16 (i + length (valueTokens v off)) = i + length (valueTokens v off)" "i < 4096"
proof -
  note s = parserHolds_size(4) [OF h] holdsAt_token(3) [OF v] holdsAt_token(1) [OF v]
  obtain t us where t: "valueTokens v off = t # us" "tokenCount t = u16 (length (valueTokens v off))"
    using valueTokens_Cons by blast
  then have "tokenCount (hd (valueTokens v off)) = length (valueTokens v off)" using s by simp
  then show "gmosFormatCborDecodeTokenCount p parser i = Some (Some (length (valueTokens v off)))"
    using holdsAt_tokenFor [OF h v] by (simp add: gmosFormatCborDecodeTokenCount_def tokenFor_def)
  show "u16 (i + length (valueTokens v off)) = i + length (valueTokens v off)" "i < 4096" using s by simp_all
qed

lemma arrayWalk_ok:
  assumes h: "parserHolds p parser msg ts"
  shows "seqAt msg ts j vs off \<Longrightarrow> k < length vs \<Longrightarrow>
    \<exists>i. arrayWalk p parser k j = Some (Some i) \<and>
      holdsAt msg ts i (vs ! k) (off + length (concat (map cborEncode (take k vs))))"
proof (induction vs arbitrary: j off k)
  case (Cons v vs)
  note s = seqAt_Cons [OF Cons.prems(1)]
  show ?case
  proof (cases k)
    case 0
    then show ?thesis using s(1) by simp
  next
    case (Suc n)
    then show ?thesis
      using Cons.IH [OF s(2), of n] Cons.prems(2) DecodeTokenCount_ok [OF h s(1)]
      by (simp add: add.assoc)
  qed
qed simp

lemma containerTokens_seqAt:
  assumes "holdsAt msg ts i v off"
    and "valueTokens v off = containerTokens h n (map valueTokens vs) (map (\<lambda>v. length (cborEncode v)) vs) off"
    and "cborEncode v = h @ concat (map cborEncode vs) @ tl'"
  shows "seqAt msg ts (i + 1) vs (off + length h)"
proof -
  from assms obtain t rest pre post where d: "drop i ts = t #
      seqTokens (zip (map valueTokens vs) (map (\<lambda>v. length (cborEncode v)) vs)) (off + length h) @ rest"
    and m: "msg = pre @ (h @ concat (map cborEncode vs) @ tl') @ post" "length pre = off"
    by (auto simp: holdsAt_def containerTokens_def closed_def)
  have "drop (i + 1) ts = seqTokens (zip (map valueTokens vs) (map (\<lambda>v. length (cborEncode v)) vs))
      (off + length h) @ rest" using arg_cong [OF d, of tl] by (simp add: drop_Suc tl_drop)
  moreover have "msg = (pre @ h) @ concat (map cborEncode vs) @ (tl' @ post)"
    "length (pre @ h) = off + length h" using m by simp_all
  ultimately show ?thesis unfolding seqAt_def by metis
qed

definition containerHead :: "cborMajorType \<Rightarrow> bool \<Rightarrow> nat \<Rightarrow> byte list" where
  "containerHead m indef n = (if indef then [initialByte m 31] else cborHead m n)"

lemma array_seqAt:
  assumes "holdsAt msg ts i (CArray indef vs) off"
  shows "seqAt msg ts (i + 1) vs (off + length (containerHead ARRAY indef (length vs)))"
  by (rule containerTokens_seqAt [OF assms, where tl' = "if indef then [0xFF] else []"])
    (simp_all add: containerHead_def)

lemma map_seqAt:
  assumes "holdsAt msg ts i (CMap indef kvs) off"
  shows "seqAt msg ts (i + 1) (mapItems kvs) (off + length (containerHead MAP indef (length kvs)))"
  by (rule containerTokens_seqAt [OF assms, where tl' = "if indef then [0xFF] else []"])
    (simp_all add: containerHead_def encode_mapItems mapItems_map del: map_map)

text \<open>Keys that are single tokens, as the walk over a map assumes.\<close>

fun scalar :: "cbor \<Rightarrow> bool" where
  "scalar (CArray indef vs) = False"
| "scalar (CMap indef kvs) = False"
| "scalar (CTag n v) = False"
| "scalar _ = True"

lemma scalar_token: "scalar k \<Longrightarrow> length (valueTokens k off) = 1"
  by (cases k) simp_all

text \<open>
  What a lookup should return: the first entry whose key satisfies \<open>K\<close>, the token of its value
  and the place of that value in the message, behind all entries before and its own key.
\<close>

definition entryBytes :: "(cbor \<times> cbor) list \<Rightarrow> byte list" where
  "entryBytes kvs = concat (map (\<lambda>(k, v). cborEncode k @ cborEncode v) kvs)"

definition mapFound ::
    "byte list \<Rightarrow> cborToken list \<Rightarrow> (cbor \<Rightarrow> bool) \<Rightarrow> (cbor \<times> cbor) list \<Rightarrow> nat \<Rightarrow> nat option option \<Rightarrow> bool" where
  "mapFound msg ts K kvs off r \<longleftrightarrow>
     (case dropWhile (\<lambda>(k, v). \<not> K k) kvs of
        [] \<Rightarrow> r = Some None
      | (k, v) # _ \<Rightarrow> \<exists>i. r = Some (Some i) \<and>
          holdsAt msg ts i v (off + length (entryBytes (takeWhile (\<lambda>(k, v). \<not> K k) kvs)) +
            length (cborEncode k)))"

text \<open>The walk works as long as it meets single-token keys only up to the entry it looks for.\<close>

definition plainKeys :: "(cbor \<Rightarrow> bool) \<Rightarrow> (cbor \<times> cbor) list \<Rightarrow> bool" where
  "plainKeys K kvs \<longleftrightarrow> (\<forall>(k, v)\<in>set (takeWhile (\<lambda>(k, v). \<not> K k) kvs). scalar k)"

lemma mapWalk_ok:
  assumes h: "parserHolds p parser msg ts"
    and isKey: "\<And>idx key off. holdsAt msg ts idx key off \<Longrightarrow> isKey idx = Some (K key)"
    and K: "\<And>k. K k \<Longrightarrow> scalar k"
  shows "seqAt msg ts j (mapItems kvs) off \<Longrightarrow> plainKeys K kvs \<Longrightarrow>
    mapFound msg ts K kvs off (mapWalk p parser isKey (length kvs) j)"
proof (induction kvs arbitrary: j off)
  case (Cons kv kvs)
  obtain k v where kv: "kv = (k, v)" by (cases kv)
  have "seqAt msg ts j (k # v # mapItems kvs) off" using Cons.prems(1) by (simp add: kv mapItems_def)
  note s1 = seqAt_Cons [OF this]
  note s2 = seqAt_Cons [OF s1(2)]
  have one: "length (valueTokens k off) = 1"
    using Cons.prems(2) K [of k] scalar_token by (cases "K k") (auto simp: kv plainKeys_def)
  have v: "holdsAt msg ts (j + 1) v (off + length (cborEncode k))" using s2(1) one by simp
  note c = DecodeTokenCount_ok [OF h v]
  have j: "u16 (j + 1) = j + 1" using c(3) by simp
  show ?case
  proof (cases "K k")
    case True
    have "mapWalk p parser isKey (length (kv # kvs)) j = Some (Some (j + 1))"
      using isKey [OF s1(1)] True j by simp
    then show ?thesis using True v by (simp add: kv mapFound_def entryBytes_def)
  next
    case False
    let ?n = "length (valueTokens v (off + length (cborEncode k)))"
    have "u16 (j + (1 + ?n)) = j + 1 + ?n" using c(2) by simp
    then have e: "mapWalk p parser isKey (length (kv # kvs)) j = mapWalk p parser isKey (length kvs) (j + 1 + ?n)"
      using isKey [OF s1(1)] False j c(1) by simp
    have s3: "seqAt msg ts (j + 1 + ?n) (mapItems kvs) (off + length (cborEncode k) + length (cborEncode v))"
      using s2(2) one by simp
    have keys: "plainKeys K kvs" using Cons.prems(2) False by (simp add: kv plainKeys_def)
    have t: "entryBytes (takeWhile (\<lambda>(k, v). \<not> K k) (kv # kvs)) =
        cborEncode k @ cborEncode v @ entryBytes (takeWhile (\<lambda>(k, v). \<not> K k) kvs)"
      and d: "dropWhile (\<lambda>(k, v). \<not> K k) (kv # kvs) = dropWhile (\<lambda>(k, v). \<not> K k) kvs"
      using False by (simp_all add: kv entryBytes_def)
    have "mapFound msg ts K (kv # kvs) off r \<longleftrightarrow>
        mapFound msg ts K kvs (off + length (cborEncode k) + length (cborEncode v)) r" for r
      unfolding mapFound_def t d length_append add.assoc ..
    then show ?thesis unfolding e using Cons.IH [OF s3 keys] by simp
  qed
qed (simp add: mapItems_def mapFound_def)

lemma map_option_sint_eq:
  assumes "map_option (map_option sint) r = Some x"
  shows "do { y \<leftarrow> r; Some (y = Some key) } = Some (x = Some (sint key))"
  using assms by (cases r) (auto dest: signed_word_eqI)

subsection \<open>Properties\<close>

text \<open>A scanned message is held by its parser, the whole value at index zero.\<close>

lemma scanned_holds:
  assumes "bufs p [(messageBuffer parser, cborEncode v), (tokenBuffer parser, toksBytes (valueTokens v 0))] R"
    and "encodable v" "scannable v d"
  shows "parserHolds p parser (cborEncode v) (valueTokens v 0)"
    "holdsAt (cborEncode v) (valueTokens v 0) 0 v 0"
proof -
  have "bufferSize (messageBuffer parser) = length (cborEncode v)" "length (cborEncode v) < 65536"
    using assms(1) buf_repD(2,3) by (fastforce)+
  then have len: "length (cborEncode v) < 65536" by simp
  have "scanItem (cborEncode v) d 0 (valueTokens v 0) (length (cborEncode v))"
    using scan_value [OF len assms(3,2)] unfolding scansAs_def
    by (metis append_Nil append_Nil2 list.size(3) add_0)
  then show "parserHolds p parser (cborEncode v) (valueTokens v 0)"
    using assms(1) scan_bounds(1) [OF len] unfolding parserHolds_def by blast
  show "holdsAt (cborEncode v) (valueTokens v 0) 0 v 0"
    unfolding holdsAt_def by (metis append_Nil append_Nil2 drop_0 list.size(3))
qed

lemma booted_parser:
  assumes "encodable v" "scannable v d" "length (cborEncode v) \<le> 64" "length (valueTokens v 0) \<le> 64"
  obtains p parser where "parserHolds p parser (cborEncode v) (valueTokens v 0)"
    "holdsAt (cborEncode v) (valueTokens v 0) 0 v 0"
proof -
  have n: "need (length (cborEncode v)) \<le> 1" "need (16 * length (valueTokens v 0)) \<le> 16"
    using need_mono [OF assms(3)] need_mono [of "16 * length (valueTokens v 0)" "16 * 64"] assms(4)
    by (simp_all add: need_def GMOS_CONFIG_MEMPOOL_SEGMENT_SIZE_def)
  have b: "buf_state bootPool gmosBufferInit [] {}" using buf_state_init [OF bootPool_ok(1)] .
  have l: "length (cborEncode v) < 65536" "16 * length (valueTokens v 0) < 65536" using assms(3,4) by simp_all
  have a: "need (length (cborEncode v)) + need (16 * length (valueTokens v 0)) \<le> avail bootPool"
    using n bootPool_ok by simp
  from encode_scan_ok [OF b bootPool_ok(3) assms(1,2) l a] obtain p and parser :: cborParser where
    "bufs p [(messageBuffer parser, cborEncode v), (tokenBuffer parser, toksBytes (valueTokens v 0))] {}"
    by - (elim exE conjE, rule that, assumption)
  from scanned_holds [OF this assms(1,2)] show thesis using that by blast
qed

lemma charStringLength_text:
  assumes "0 \<in> set t \<or> MAX_STRING < length t"
  shows "\<exists>n. charStringLength 0 t = Some n \<and> n \<le> length t \<and> n < 65536 \<and>
    (n \<le> MAX_STRING \<longleftrightarrow> length (takeWhile (\<lambda>c. c \<noteq> 0) t) \<le> MAX_STRING) \<and>
    (n \<le> MAX_STRING \<longrightarrow> take n t = takeWhile (\<lambda>c. c \<noteq> 0) t)"
proof -
  let ?w = "takeWhile (\<lambda>c. c \<noteq> 0) t"
  have e: "charStringLength 0 t = Some (min (MAX_STRING + 1) (length ?w))"
    using charStringLength_eq [of 0 t] assms by auto
  have tk: "take (length ?w) t = ?w" by (metis takeWhile_eq_take)
  have le: "length ?w \<le> length t" by (rule length_takeWhile_le)
  have "min (MAX_STRING + 1) (length ?w) < 65536"
    using MAX_less(3) by (simp add: GMOS_CONFIG_CBOR_MAX_STRING_SIZE_def)
  with e tk le show ?thesis by (intro exI [of _ "min (MAX_STRING + 1) (length ?w)"]) (auto simp: min_def)
qed

lemma decode_MatchChar:
  assumes h: "parserHolds p parser msg ts" and v: "holdsAt msg ts i v off"
    and t: "0 \<in> set t \<or> MAX_STRING < length t"
  shows "gmosFormatCborMatchCharString p parser i t =
    Some (length (takeWhile (\<lambda>c. c \<noteq> 0) t) \<le> MAX_STRING \<and> v = CText (takeWhile (\<lambda>c. c \<noteq> 0) t))"
proof -
  from charStringLength_text [OF t] obtain n where n: "charStringLength 0 t = Some n" "n \<le> length t" "n < 65536"
    "n \<le> MAX_STRING \<longleftrightarrow> length (takeWhile (\<lambda>c. c \<noteq> 0) t) \<le> MAX_STRING"
    "n \<le> MAX_STRING \<longrightarrow> take n t = takeWhile (\<lambda>c. c \<noteq> 0) t" by blast
  show ?thesis
    using decode_MatchText [OF h v n(2,3)] n by (auto simp: gmosFormatCborMatchCharString_def)
qed

lemma inRange_int64: "inRange (- (2 ^ 63)) (2 ^ 63) k = Some (sint (key :: 64 word)) \<longleftrightarrow> k = Some (sint key)"
proof -
  have "- (2 ^ 63) \<le> sint key \<and> sint key < 2 ^ 63"
    using sint_greater_eq [of key] sint_less [of key] by simp
  then show ?thesis by (auto simp: inRange_def split: option.splits if_splits)
qed

text \<open>The offset of the first entry of a map at offset \<open>off\<close>.\<close>

definition entriesOff :: "bool \<Rightarrow> (cbor \<times> cbor) list \<Rightarrow> nat \<Rightarrow> nat" where
  "entriesOff indef kvs off = off + length (containerHead MAP indef (length kvs))"

lemma lookup_map:
  assumes h: "parserHolds p parser msg ts" and v: "holdsAt msg ts i (CMap indef kvs) off"
    and n: "length kvs \<le> MAX_MAP"
  shows "plainKeys (\<lambda>k. cborInt k = Some (sint key)) kvs \<Longrightarrow>
      mapFound msg ts (\<lambda>k. cborInt k = Some (sint key)) kvs (entriesOff indef kvs off)
        (gmosFormatCborLookupMapIntKey p parser i key)"
    "len \<le> length t \<Longrightarrow> len \<le> MAX_STRING \<Longrightarrow> plainKeys (\<lambda>k. k = CText (take len t)) kvs \<Longrightarrow>
       mapFound msg ts (\<lambda>k. k = CText (take len t)) kvs (entriesOff indef kvs off)
         (gmosFormatCborLookupMapTextKey p parser i t len)"
proof -
  have d: "gmosFormatCborDecodeMap p parser i = Some (Some (length kvs))"
    using decode_container(2) [OF holdsAt_tokenFor [OF h v]] n by simp
  have i: "u16 (i + 1) = i + 1" using DecodeTokenCount_ok(3) [OF h v] by simp
  note s = map_seqAt [OF v, folded entriesOff_def]
  have k: "(do { matchKey \<leftarrow> gmosFormatCborDecodeInt64 p parser idx; Some (matchKey = Some key) }) =
      Some (cborInt k = Some (sint key))" if "holdsAt msg ts idx k off'" for idx k off'
    using map_option_sint_eq [OF decode_signed(2) [OF holdsAt_tokenFor [OF h that]]] inRange_int64
    by simp
  show "mapFound msg ts (\<lambda>k. cborInt k = Some (sint key)) kvs (entriesOff indef kvs off)
      (gmosFormatCborLookupMapIntKey p parser i key)"
    if keys: "plainKeys (\<lambda>k. cborInt k = Some (sint key)) kvs"
  proof -
    have "scalar k" if "cborInt k = Some (sint key)" for k using that by (cases k) simp_all
    then show ?thesis
      using mapWalk_ok [OF h k _ s keys] unfolding gmosFormatCborLookupMapIntKey_def d
      by (simp only: Option.bind.simps option.case i)
  qed
  show "mapFound msg ts (\<lambda>k. k = CText (take len t)) kvs (entriesOff indef kvs off)
      (gmosFormatCborLookupMapTextKey p parser i t len)"
    if l: "len \<le> length t" "len \<le> MAX_STRING" and keys: "plainKeys (\<lambda>k. k = CText (take len t)) kvs"
  proof -
    have "len < 65536" using l(2) MAX_less(3) by linarith
    then have m: "gmosFormatCborMatchTextString p parser idx t len = Some (k = CText (take len t))"
      if "holdsAt msg ts idx k off'" for idx k off'
      using decode_MatchText [OF h that l(1)] l(2) by simp
    have "scalar k" if "k = CText (take len t)" for k using that by simp
    then show ?thesis
      using mapWalk_ok [OF h m _ s keys] l(2) unfolding gmosFormatCborLookupMapTextKey_def d
      by (simp only: Option.bind.simps option.case i if_True)
  qed
qed

lemma lookup_array:
  assumes "parserHolds p parser msg ts" "holdsAt msg ts i v off"
  shows "case v of CArray indef vs \<Rightarrow>
        (if length vs \<le> MAX_ARRAY \<and> k < length vs
         then \<exists>j. gmosFormatCborLookupArrayEntry p parser i k = Some (Some j) \<and>
           holdsAt msg ts j (vs ! k) (off + length (containerHead ARRAY indef (length vs)) +
             length (concat (map cborEncode (take k vs))))
         else gmosFormatCborLookupArrayEntry p parser i k = Some None)
      | _ \<Rightarrow> gmosFormatCborLookupArrayEntry p parser i k = Some None"
proof -
  note d = decode_container(1) [OF holdsAt_tokenFor [OF assms]]
  have i: "u16 (i + 1) = i + 1" using DecodeTokenCount_ok(3) [OF assms] by simp
  show ?thesis
  proof (cases v)
    case (CArray indef vs)
    have "gmosFormatCborLookupArrayEntry p parser i k =
        (if length vs \<le> MAX_ARRAY \<and> k < length vs then arrayWalk p parser k (i + 1) else Some None)"
      using d i CArray by (simp add: gmosFormatCborLookupArrayEntry_def)
    then show ?thesis
      using arrayWalk_ok [OF assms(1) array_seqAt [OF assms(2) [unfolded CArray]]] CArray by simp
  qed (use d in \<open>simp_all add: gmosFormatCborLookupArrayEntry_def\<close>)
qed

lemma lookup_no_map:
  assumes "parserHolds p parser msg ts" "holdsAt msg ts i v off"
    and "case v of CMap indef kvs \<Rightarrow> MAX_MAP < length kvs | _ \<Rightarrow> True"
  shows "gmosFormatCborLookupMapIntKey p parser i key = Some None"
    "gmosFormatCborLookupMapTextKey p parser i t len = Some None"
proof -
  have "gmosFormatCborDecodeMap p parser i = Some None"
    using decode_container(2) [OF holdsAt_tokenFor [OF assms(1,2)]] assms(3)
    by (cases v) (simp_all add: not_le)
  then show "gmosFormatCborLookupMapIntKey p parser i key = Some None"
    "gmosFormatCborLookupMapTextKey p parser i t len = Some None"
    by (simp_all add: gmosFormatCborLookupMapIntKey_def gmosFormatCborLookupMapTextKey_def)
qed

lemma lookup_int:
  assumes "parserHolds p parser msg ts" "holdsAt msg ts i v off"
  shows "case v of CMap indef kvs \<Rightarrow>
        (if length kvs \<le> MAX_MAP
         then plainKeys (\<lambda>k. cborInt k = Some (sint key)) kvs \<longrightarrow>
           mapFound msg ts (\<lambda>k. cborInt k = Some (sint key)) kvs (entriesOff indef kvs off)
             (gmosFormatCborLookupMapIntKey p parser i key)
         else gmosFormatCborLookupMapIntKey p parser i key = Some None)
      | _ \<Rightarrow> gmosFormatCborLookupMapIntKey p parser i key = Some None"
  using lookup_no_map(1) [OF assms] lookup_map(1) [OF assms(1)] assms(2) by (cases v) auto

lemma lookup_text:
  assumes "parserHolds p parser msg ts" "holdsAt msg ts i v off" "len \<le> length t"
  shows "case v of CMap indef kvs \<Rightarrow>
        (if length kvs \<le> MAX_MAP \<and> len \<le> MAX_STRING
         then plainKeys (\<lambda>k. k = CText (take len t)) kvs \<longrightarrow>
           mapFound msg ts (\<lambda>k. k = CText (take len t)) kvs (entriesOff indef kvs off)
             (gmosFormatCborLookupMapTextKey p parser i t len)
         else gmosFormatCborLookupMapTextKey p parser i t len = Some None)
      | _ \<Rightarrow> gmosFormatCborLookupMapTextKey p parser i t len = Some None"
proof -
  have "gmosFormatCborLookupMapTextKey p parser i t len = Some None" if "MAX_STRING < len"
    using that by (simp add: gmosFormatCborLookupMapTextKey_def)
  then show ?thesis
    using lookup_no_map(2) [OF assms(1,2)] lookup_map(2) [OF assms(1)] assms(2,3)
    by (cases v) (auto simp: not_le)
qed

lemma lookup_char:
  assumes "parserHolds p parser msg ts" "holdsAt msg ts i v off"
    and "0 \<in> set u \<or> MAX_STRING < length u"
  shows "case v of CMap indef kvs \<Rightarrow>
        (if length kvs \<le> MAX_MAP \<and> length (takeWhile (\<lambda>c. c \<noteq> 0) u) \<le> MAX_STRING
         then plainKeys (\<lambda>k. k = CText (takeWhile (\<lambda>c. c \<noteq> 0) u)) kvs \<longrightarrow>
           mapFound msg ts (\<lambda>k. k = CText (takeWhile (\<lambda>c. c \<noteq> 0) u)) kvs (entriesOff indef kvs off)
             (gmosFormatCborLookupMapCharKey p parser i u)
         else gmosFormatCborLookupMapCharKey p parser i u = Some None)
      | _ \<Rightarrow> gmosFormatCborLookupMapCharKey p parser i u = Some None"
proof -
  from charStringLength_text [OF assms(3)] obtain n where n: "charStringLength 0 u = Some n"
    "n \<le> length u" "n \<le> MAX_STRING \<longleftrightarrow> length (takeWhile (\<lambda>c. c \<noteq> 0) u) \<le> MAX_STRING"
    "n \<le> MAX_STRING \<longrightarrow> take n u = takeWhile (\<lambda>c. c \<noteq> 0) u" by blast
  have e: "gmosFormatCborLookupMapCharKey p parser i u = gmosFormatCborLookupMapTextKey p parser i u n"
    using n(1) by (simp add: gmosFormatCborLookupMapCharKey_def)
  have no: "gmosFormatCborLookupMapTextKey p parser i u n = Some None" if "MAX_STRING < n"
    using that by (simp add: gmosFormatCborLookupMapTextKey_def)
  show ?thesis
  proof (cases "n \<le> MAX_STRING")
    case True
    show ?thesis
      using lookup_text [OF assms(1,2) n(2)] unfolding e n(3) [symmetric] n(4) [rule_format, OF True]
      using True by (cases v) simp_all
  next
    case False
    then show ?thesis using no n(3) unfolding e by (cases v) (simp_all add: not_le)
  qed
qed

text \<open>
  C13: At the token of a data item each decoding function reads back the item's value: the
  match functions recognise null and undefined, the integer functions return the number exactly
  when it is in the range of their result type, and fail on every other item; booleans, floating
  point values, container sizes and tag numbers likewise.
\<close>

theorem cbor_decode_scalar:
  assumes "parserHolds p parser msg ts" "holdsAt msg ts i v off"
  shows "gmosFormatCborMatchNull p parser i = Some (v = CNull) \<and>
    gmosFormatCborMatchUndefined p parser i = Some (v = CUndefined) \<and>
    gmosFormatCborDecodeBool p parser i = Some (case v of CBool b \<Rightarrow> Some b | _ \<Rightarrow> None) \<and>
    map_option (map_option uint) (gmosFormatCborDecodeUint32 p parser i) =
      Some (inRange 0 (2 ^ 32) (cborInt v)) \<and>
    map_option (map_option sint) (gmosFormatCborDecodeInt32 p parser i) =
      Some (inRange (- (2 ^ 31)) (2 ^ 31) (cborInt v)) \<and>
    map_option (map_option uint) (gmosFormatCborDecodeUint64 p parser i) =
      Some (inRange 0 (2 ^ 64) (cborInt v)) \<and>
    map_option (map_option sint) (gmosFormatCborDecodeInt64 p parser i) =
      Some (inRange (- (2 ^ 63)) (2 ^ 63) (cborInt v)) \<and>
    gmosFormatCborDecodeFloat32 p parser i = Some (case v of CFloat32 w \<Rightarrow> Some w | _ \<Rightarrow> None) \<and>
    gmosFormatCborDecodeFloat64 p parser i =
      Some (case v of CFloat64 w \<Rightarrow> Some w | CFloat32 w \<Rightarrow> Some (floatToDouble w) | _ \<Rightarrow> None) \<and>
    gmosFormatCborDecodeArray p parser i = Some (case v of
      CArray _ vs \<Rightarrow> if length vs \<le> MAX_ARRAY then Some (length vs) else None | _ \<Rightarrow> None) \<and>
    gmosFormatCborDecodeMap p parser i = Some (case v of
      CMap _ kvs \<Rightarrow> if length kvs \<le> MAX_MAP then Some (length kvs) else None | _ \<Rightarrow> None) \<and>
    gmosFormatCborDecodeTag p parser i = Some (case v of CTag n _ \<Rightarrow> Some (unat n) | _ \<Rightarrow> None)"
proof -
  note t = holdsAt_tokenFor [OF assms]
  show ?thesis
    by (intro conjI decode_simple [OF t] decode_unsigned [OF t] decode_signed [OF t] decode_float [OF t]
        decode_container [OF t])
qed

theorem cbor_decode_scalar_witness:
  "\<exists>p parser w. gmosFormatCborDecodeInt32 p parser 0 = Some (Some w) \<and> sint w = - 500"
proof -
  obtain p parser where h: "parserHolds p parser (cborEncode (CNInt 499)) (valueTokens (CNInt 499) 0)"
    "holdsAt (cborEncode (CNInt 499)) (valueTokens (CNInt 499) 0) 0 (CNInt 499) 0"
    by (rule booted_parser [of "CNInt 499" 4]) (simp_all add: cborHead_def)
  have "inRange (- (2 ^ 31)) (2 ^ 31) (cborInt (CNInt 499)) = Some (- 500)" by (simp add: inRange_def)
  then have "map_option (map_option sint) (gmosFormatCborDecodeInt32 p parser 0) = Some (Some (- 500))"
    using cbor_decode_scalar [OF h] by metis
  then show ?thesis by (cases "gmosFormatCborDecodeInt32 p parser 0") auto
qed

text \<open>
  C14: The string functions: a text string is copied up to the size of the caller's buffer, which
  is never overrun and always terminated (a buffer of size zero makes the function fail); a byte
  string is copied up to the size of the buffer; both report the length in the message. Matching
  succeeds exactly on the given text, also when it is compared in several blocks, and never above
  the maximum string size.
\<close>

theorem cbor_decode_string:
  assumes "parserHolds p parser msg ts" "holdsAt msg ts i v off"
    and "n < 65536" "len \<le> length t" "len < 65536" "0 \<in> set u \<or> MAX_STRING < length u"
  shows "gmosFormatCborDecodeTextString p parser i n = Some (case v of
      CText s \<Rightarrow> if n = 0 then None else Some (take (n - 1) s @ [0], length s) | _ \<Rightarrow> None) \<and>
    gmosFormatCborDecodeByteString p parser i n =
      Some (case v of CBytes s \<Rightarrow> Some (take n s, length s) | _ \<Rightarrow> None) \<and>
    gmosFormatCborMatchTextString p parser i t len =
      Some (len \<le> MAX_STRING \<and> v = CText (take len t)) \<and>
    gmosFormatCborMatchCharString p parser i u =
      Some (length (takeWhile (\<lambda>c. c \<noteq> 0) u) \<le> MAX_STRING \<and> v = CText (takeWhile (\<lambda>c. c \<noteq> 0) u))"
  using decode_strings [OF assms(1-3)] decode_MatchText [OF assms(1,2,4,5)]
    decode_MatchChar [OF assms(1,2,6)] by blast

theorem cbor_decode_string_witness:
  "\<exists>p parser. gmosFormatCborDecodeTextString p parser 0 3 = Some (Some ([72, 101, 0], 5)) \<and>
     gmosFormatCborMatchCharString p parser 0 [72, 101, 108, 108, 111, 0] = Some True"
proof -
  let ?s = "[72, 101, 108, 108, 111] :: byte list"
  obtain p parser where h: "parserHolds p parser (cborEncode (CText ?s)) (valueTokens (CText ?s) 0)"
    "holdsAt (cborEncode (CText ?s)) (valueTokens (CText ?s) 0) 0 (CText ?s) 0"
    by (rule booted_parser [of "CText ?s" 4])
      (simp_all add: cborHead_def GMOS_CONFIG_CBOR_MAX_STRING_SIZE_def)
  from cbor_decode_string [OF h, of 3 0 "[]" "?s @ [0]"]
  have "gmosFormatCborDecodeTextString p parser 0 3 = Some (Some (take 2 ?s @ [0], length ?s))"
    "gmosFormatCborMatchCharString p parser 0 (?s @ [0]) = Some (length ?s \<le> MAX_STRING)" by simp_all
  moreover have "length ?s \<le> MAX_STRING" by (simp add: GMOS_CONFIG_CBOR_MAX_STRING_SIZE_def)
  ultimately show ?thesis by (intro exI [of _ p] exI [of _ parser]) simp
qed

text \<open>
  C15: Looking up an index in an array returns the token of exactly that element, and fails
  for an index behind the end. Looking up a key in a map, provided that every key before the
  first entry with that key (every key, if there is none) is a single token, so neither an array
  nor a map nor a tagged item, returns the token of the value of exactly that entry, at its place
  in the message, and fails when there is no such entry; integer keys are compared as numbers,
  text keys as byte strings. Every lookup fails for an item of the wrong type, a container above
  the maximum size and a key above the maximum string size.
\<close>

theorem cbor_lookup:
  assumes "parserHolds p parser msg ts" "holdsAt msg ts i v off"
    and "len \<le> length t" "0 \<in> set u \<or> MAX_STRING < length u"
  shows "(case v of CArray indef vs \<Rightarrow>
        (if length vs \<le> MAX_ARRAY \<and> k < length vs
         then \<exists>j. gmosFormatCborLookupArrayEntry p parser i k = Some (Some j) \<and>
           holdsAt msg ts j (vs ! k) (off + length (containerHead ARRAY indef (length vs)) +
             length (concat (map cborEncode (take k vs))))
         else gmosFormatCborLookupArrayEntry p parser i k = Some None)
      | _ \<Rightarrow> gmosFormatCborLookupArrayEntry p parser i k = Some None) \<and>
    (case v of CMap indef kvs \<Rightarrow>
        (if length kvs \<le> MAX_MAP
         then plainKeys (\<lambda>k. cborInt k = Some (sint key)) kvs \<longrightarrow>
           mapFound msg ts (\<lambda>k. cborInt k = Some (sint key)) kvs (entriesOff indef kvs off)
             (gmosFormatCborLookupMapIntKey p parser i key)
         else gmosFormatCborLookupMapIntKey p parser i key = Some None)
      | _ \<Rightarrow> gmosFormatCborLookupMapIntKey p parser i key = Some None) \<and>
    (case v of CMap indef kvs \<Rightarrow>
        (if length kvs \<le> MAX_MAP \<and> len \<le> MAX_STRING
         then plainKeys (\<lambda>k. k = CText (take len t)) kvs \<longrightarrow>
           mapFound msg ts (\<lambda>k. k = CText (take len t)) kvs (entriesOff indef kvs off)
             (gmosFormatCborLookupMapTextKey p parser i t len)
         else gmosFormatCborLookupMapTextKey p parser i t len = Some None)
      | _ \<Rightarrow> gmosFormatCborLookupMapTextKey p parser i t len = Some None) \<and>
    (case v of CMap indef kvs \<Rightarrow>
        (if length kvs \<le> MAX_MAP \<and> length (takeWhile (\<lambda>c. c \<noteq> 0) u) \<le> MAX_STRING
         then plainKeys (\<lambda>k. k = CText (takeWhile (\<lambda>c. c \<noteq> 0) u)) kvs \<longrightarrow>
           mapFound msg ts (\<lambda>k. k = CText (takeWhile (\<lambda>c. c \<noteq> 0) u)) kvs (entriesOff indef kvs off)
             (gmosFormatCborLookupMapCharKey p parser i u)
         else gmosFormatCborLookupMapCharKey p parser i u = Some None)
      | _ \<Rightarrow> gmosFormatCborLookupMapCharKey p parser i u = Some None)"
  by (intro conjI lookup_array lookup_int lookup_text lookup_char assms)

theorem cbor_lookup_witness:
  "\<exists>p parser msg ts j off.
     gmosFormatCborLookupMapIntKey p parser 0 7 = Some (Some j) \<and>
     holdsAt msg ts j (CBool True) off \<and> parserHolds p parser msg ts"
proof -
  let ?v = "CMap False [(CText [65], CArray True [CNull]), (CUInt 7, CBool True)]"
  obtain p parser where h: "parserHolds p parser (cborEncode ?v) (valueTokens ?v 0)"
    "holdsAt (cborEncode ?v) (valueTokens ?v 0) 0 ?v 0"
    by (rule booted_parser [of ?v 4])
      (simp_all add: cborHead_def GMOS_CONFIG_CBOR_MAX_STRING_SIZE_def GMOS_CONFIG_CBOR_MAX_MAP_SIZE_def
        GMOS_CONFIG_CBOR_MAX_ARRAY_SIZE_def mapItems_def containerTokens_def closed_def)
  have "mapFound (cborEncode ?v) (valueTokens ?v 0) (\<lambda>k. cborInt k = Some (sint (7 :: 64 word)))
      [(CText [65], CArray True [CNull]), (CUInt 7, CBool True)]
      (entriesOff False [(CText [65], CArray True [CNull]), (CUInt 7, CBool True)] 0)
      (gmosFormatCborLookupMapIntKey p parser 0 7)"
    using cbor_lookup [OF h, of 0 "[]" "[0]" 0 7]
    by (simp add: GMOS_CONFIG_CBOR_MAX_MAP_SIZE_def plainKeys_def)
  then obtain j off where "gmosFormatCborLookupMapIntKey p parser 0 7 = Some (Some j)"
    "holdsAt (cborEncode ?v) (valueTokens ?v 0) j (CBool True) off"
    by (auto simp: mapFound_def)
  with h(1) show ?thesis by blast
qed

end
