(* ===== verification/Gmos_Eeprom.thy ===== *)
theory Gmos_Eeprom
  imports Gmos_Scheduler Gmos_Buffers
begin

text \<open>
  The record store of common/src/gmos-driver-eeprom.c over the software emulation of
  common/src/gmos-driver-eeprom-sw.c, in the default configuration with tags and lengths of one
  byte.

  The memory behind \<open>baseAddress\<close> is a byte list; an access outside of it is a fault. A null
  write data pointer is \<open>None\<close>. A callback handler is a number, and \<open>callbacks\<close> records the
  calls made; a null handler is \<open>None\<close>. The driver task is a function on the driver state, and the
  worker task is resumed in the scheduler model. The loop that runs the task until the driver is
  idle is a partial function: it returns \<open>None\<close> when it never ends.

  The specification is the list of records, tag and value, that the memory holds.
\<close>

subsection \<open>State\<close>

definition GMOS_CONFIG_EEPROM_TAG_SIZE :: nat where
  "GMOS_CONFIG_EEPROM_TAG_SIZE = 1"

definition GMOS_CONFIG_EEPROM_LENGTH_SIZE :: nat where
  "GMOS_CONFIG_EEPROM_LENGTH_SIZE = 1"

definition GMOS_DRIVER_EEPROM_HEADER_SIZE :: nat where
  "GMOS_DRIVER_EEPROM_HEADER_SIZE = GMOS_CONFIG_EEPROM_TAG_SIZE + GMOS_CONFIG_EEPROM_LENGTH_SIZE"

definition GMOS_DRIVER_EEPROM_TAG_END_MARKER :: nat where
  "GMOS_DRIVER_EEPROM_TAG_END_MARKER = 2 ^ (8 * GMOS_CONFIG_EEPROM_TAG_SIZE) - 1"

definition GMOS_DRIVER_EEPROM_TAG_FREE_SPACE :: nat where
  "GMOS_DRIVER_EEPROM_TAG_FREE_SPACE = 2 ^ (8 * GMOS_CONFIG_EEPROM_TAG_SIZE) - 2"

definition GMOS_DRIVER_EEPROM_FACTORY_RESET_KEY :: nat where
  "GMOS_DRIVER_EEPROM_FACTORY_RESET_KEY = 0x706E6DF1"

abbreviation HEADER :: nat where "HEADER \<equiv> GMOS_DRIVER_EEPROM_HEADER_SIZE"

datatype eepromStateCode =
    EEPROM_IDLE | EEPROM_RESET_TAG_WRITE | EEPROM_CREATE_END_TAG_WRITE | EEPROM_CREATE_VALUE_WRITE
  | EEPROM_CREATE_HEADER_WRITE | EEPROM_UPDATE_VALUE_WRITE | EEPROM_COMPLETION_WAIT

datatype eepromStatus =
    EEPROM_SUCCESS | EEPROM_FATAL_ERROR | EEPROM_NOT_READY | EEPROM_NO_RECORD | EEPROM_OUT_OF_MEMORY
  | EEPROM_TAG_EXISTS | EEPROM_FORMATTING_ERROR | EEPROM_INVALID_TAG | EEPROM_INVALID_LENGTH
  | EEPROM_INVALID_RESET_KEY

record eeprom =
  baseAddress :: "byte list"
  memSize :: nat
  writeData :: "byte list option"
  callbackHandler :: "nat option"
  callbackData :: nat
  workerTask :: nat
  writeOffset :: nat
  writeSize :: nat
  eepromState :: eepromStateCode
  writeHeader :: "byte list"
  callbacks :: "(nat \<times> eepromStatus \<times> nat) list"

definition eepromEndTag :: "byte list" where
  "eepromEndTag = leBytes GMOS_CONFIG_EEPROM_TAG_SIZE GMOS_DRIVER_EEPROM_TAG_END_MARKER @
     leBytes GMOS_CONFIG_EEPROM_LENGTH_SIZE 0"

subsection \<open>Software emulation\<close>

text \<open>The configured memory: its contents and its size.\<close>

definition gmosPalEepromInit :: "byte list \<Rightarrow> nat \<Rightarrow> eeprom \<Rightarrow> eeprom option" where
  "gmosPalEepromInit memAddress memBytes e =
     (if HEADER \<le> length memAddress
      then Some (e\<lparr>baseAddress := splice 0 eepromEndTag memAddress, memSize := memBytes\<rparr>)
      else None)"

definition gmosPalEepromWriteData ::
    "eeprom \<Rightarrow> nat \<Rightarrow> byte list option \<Rightarrow> nat \<Rightarrow> (bool \<times> eeprom) option" where
  "gmosPalEepromWriteData e addrOffset source count =
     (if addrOffset + count > memSize e then Some (False, e)
      else if length (baseAddress e) < addrOffset + count then None
      else (case source of
              None \<Rightarrow>
                Some (True, e\<lparr>baseAddress := splice addrOffset (replicate count 0) (baseAddress e)\<rparr>)
            | Some data \<Rightarrow>
                if length data < count then None
                else Some (True, e\<lparr>baseAddress := splice addrOffset (take count data) (baseAddress e)\<rparr>)))"

definition gmosPalEepromWritePoll :: "eeprom \<Rightarrow> bool" where
  "gmosPalEepromWritePoll e = False"

subsection \<open>Record search\<close>

text \<open>The loop over the record list; the offset wraps around at 64 KiB.\<close>

partial_function (option) eepromSearchLoop ::
    "byte list \<Rightarrow> nat \<Rightarrow> nat \<Rightarrow> nat \<Rightarrow> (eepromStatus \<times> nat \<times> nat) option" where
  "eepromSearchLoop mem memBytes recordTag currentOffset =
     (if currentOffset + HEADER \<le> memBytes
      then (if length mem < currentOffset + HEADER then None
            else (let currentTag = leNat (take GMOS_CONFIG_EEPROM_TAG_SIZE (drop currentOffset mem));
                      currentLength = leNat (take GMOS_CONFIG_EEPROM_LENGTH_SIZE
                        (drop (currentOffset + GMOS_CONFIG_EEPROM_TAG_SIZE) mem))
                  in if currentTag = recordTag then Some (EEPROM_SUCCESS, currentOffset, currentLength)
                     else if currentTag = GMOS_DRIVER_EEPROM_TAG_END_MARKER \<and> currentLength = 0
                     then Some (EEPROM_NO_RECORD, currentOffset, currentLength)
                     else eepromSearchLoop mem memBytes recordTag
                            (u16 (u16 (currentOffset + HEADER) + currentLength))))
      else Some (EEPROM_FORMATTING_ERROR, 0, 0))"

text \<open>The status, the base offset and the length; the last two are zero when they are not set.\<close>

definition gmosDriverEepromRecordSearch :: "eeprom \<Rightarrow> nat \<Rightarrow> (eepromStatus \<times> nat \<times> nat) option" where
  "gmosDriverEepromRecordSearch e recordTag =
     (if recordTag > 2 ^ (8 * GMOS_CONFIG_EEPROM_TAG_SIZE) - 1 \<or>
         recordTag = GMOS_DRIVER_EEPROM_TAG_END_MARKER \<or> recordTag = GMOS_DRIVER_EEPROM_TAG_FREE_SPACE
      then Some (EEPROM_INVALID_TAG, 0, 0)
      else if eepromState e \<noteq> EEPROM_IDLE then Some (EEPROM_NOT_READY, 0, 0)
      else eepromSearchLoop (baseAddress e) (memSize e) recordTag 0)"

subsection \<open>Driver task\<close>

definition gmosDriverEepromTask :: "eeprom \<Rightarrow> (32 word \<times> eeprom) option" where
  "gmosDriverEepromTask e =
     (case eepromState e of
        EEPROM_RESET_TAG_WRITE \<Rightarrow> do {
          (ok, e) \<leftarrow> gmosPalEepromWriteData e 0 (Some eepromEndTag) HEADER;
          Some (GMOS_TASK_RUN_IMMEDIATE, if ok then e\<lparr>eepromState := EEPROM_COMPLETION_WAIT\<rparr> else e) }
      | EEPROM_CREATE_END_TAG_WRITE \<Rightarrow> do {
          (ok, e) \<leftarrow> gmosPalEepromWriteData e (u16 (writeOffset e + writeSize e)) (Some eepromEndTag) HEADER;
          Some (GMOS_TASK_RUN_IMMEDIATE, if ok then e\<lparr>eepromState := EEPROM_CREATE_VALUE_WRITE\<rparr> else e) }
      | EEPROM_CREATE_VALUE_WRITE \<Rightarrow>
          if gmosPalEepromWritePoll e then Some (GMOS_TASK_RUN_LATER 1, e)
          else do {
            (ok, e) \<leftarrow> gmosPalEepromWriteData e (writeOffset e) (writeData e) (writeSize e);
            Some (GMOS_TASK_RUN_IMMEDIATE, if ok then e\<lparr>eepromState := EEPROM_CREATE_HEADER_WRITE\<rparr> else e) }
      | EEPROM_CREATE_HEADER_WRITE \<Rightarrow>
          if gmosPalEepromWritePoll e then Some (GMOS_TASK_RUN_LATER 1, e)
          else do {
            (ok, e) \<leftarrow> gmosPalEepromWriteData e (u16 (sub32 (writeOffset e) HEADER)) (Some (writeHeader e)) HEADER;
            Some (GMOS_TASK_RUN_IMMEDIATE, if ok then e\<lparr>eepromState := EEPROM_COMPLETION_WAIT\<rparr> else e) }
      | EEPROM_UPDATE_VALUE_WRITE \<Rightarrow> do {
          (ok, e) \<leftarrow> gmosPalEepromWriteData e (writeOffset e) (writeData e) (writeSize e);
          Some (GMOS_TASK_RUN_IMMEDIATE, if ok then e\<lparr>eepromState := EEPROM_COMPLETION_WAIT\<rparr> else e) }
      | EEPROM_COMPLETION_WAIT \<Rightarrow>
          if \<not> gmosPalEepromWritePoll e
          then (let e = (case callbackHandler e of
                           None \<Rightarrow> e
                         | Some handler \<Rightarrow>
                             e\<lparr>callbacks := callbacks e @ [(handler, EEPROM_SUCCESS, callbackData e)],
                               callbackHandler := None\<rparr>)
                in Some (GMOS_TASK_RUN_IMMEDIATE, e\<lparr>eepromState := EEPROM_IDLE\<rparr>))
          else Some (GMOS_TASK_RUN_IMMEDIATE, e)
      | EEPROM_IDLE \<Rightarrow> Some (GMOS_TASK_SUSPEND, e))"

partial_function (option) gmosDriverEepromRunToIdle :: "eeprom \<Rightarrow> eeprom option" where
  "gmosDriverEepromRunToIdle e =
     (if eepromState e \<noteq> EEPROM_IDLE
      then Option.bind (gmosDriverEepromTask e) (\<lambda>(_, e). gmosDriverEepromRunToIdle e)
      else Some e)"

subsection \<open>Driver functions\<close>

text \<open>
  The number of the driver task is given when the driver is initialised; the global
  \<open>mainInstance\<close> is a result that says whether this instance becomes the main one.
\<close>

definition gmosDriverEepromInit ::
    "byte list \<Rightarrow> nat \<Rightarrow> eeprom \<Rightarrow> sched \<Rightarrow> bool \<Rightarrow> bool \<Rightarrow> nat \<Rightarrow>
     (bool \<times> bool \<times> eeprom \<times> sched) option" where
  "gmosDriverEepromInit memAddress memBytes e sc isMainInstance factoryReset factoryResetKey = do {
     e \<leftarrow> gmosPalEepromInit memAddress memBytes e;
     if factoryReset \<and> factoryResetKey \<noteq> GMOS_DRIVER_EEPROM_FACTORY_RESET_KEY
     then Some (False, False, e, sc)
     else do {
       let e = (if \<not> factoryReset then e\<lparr>eepromState := EEPROM_IDLE\<rparr>
                else e\<lparr>callbackHandler := None, eepromState := EEPROM_RESET_TAG_WRITE\<rparr>);
       sc \<leftarrow> gmosSchedulerTaskStart (workerTask e) sc;
       Some (True, isMainInstance, e, sc) } }"

text \<open>The end of both write functions: the worker task is resumed, or the call blocks.\<close>

definition eepromStartTransaction :: "eeprom \<Rightarrow> sched \<Rightarrow> (eepromStatus \<times> eeprom \<times> sched) option" where
  "eepromStartTransaction e sc =
     (if callbackHandler e \<noteq> None
      then do { sc \<leftarrow> gmosSchedulerTaskResume (workerTask e) sc; Some (EEPROM_SUCCESS, e, sc) }
      else do { e \<leftarrow> gmosDriverEepromRunToIdle e; Some (EEPROM_SUCCESS, e, sc) })"

definition gmosDriverEepromRecordCreate ::
    "eeprom \<Rightarrow> sched \<Rightarrow> nat \<Rightarrow> byte list option \<Rightarrow> nat \<Rightarrow> nat option \<Rightarrow> nat \<Rightarrow>
     (eepromStatus \<times> eeprom \<times> sched) option" where
  "gmosDriverEepromRecordCreate e sc recordTag defaultValue recordLength handler data = do {
     (status, searchBase, searchLength) \<leftarrow> gmosDriverEepromRecordSearch e recordTag;
     if status = EEPROM_SUCCESS
     then Some (if recordLength = searchLength then EEPROM_TAG_EXISTS else EEPROM_INVALID_LENGTH, e, sc)
     else if status \<noteq> EEPROM_NO_RECORD then Some (status, e, sc)
     else if int searchBase > int (memSize e) - int (recordLength + HEADER)
     then Some (EEPROM_OUT_OF_MEMORY, e, sc)
     else eepromStartTransaction
       (e\<lparr>writeHeader := leBytes GMOS_CONFIG_EEPROM_TAG_SIZE recordTag @
            leBytes GMOS_CONFIG_EEPROM_LENGTH_SIZE recordLength,
          writeOffset := u16 (searchBase + HEADER), writeSize := recordLength, writeData := defaultValue,
          callbackHandler := handler, callbackData := data,
          eepromState := EEPROM_CREATE_END_TAG_WRITE\<rparr>) sc }"

definition gmosDriverEepromRecordWrite ::
    "eeprom \<Rightarrow> sched \<Rightarrow> nat \<Rightarrow> byte list option \<Rightarrow> nat \<Rightarrow> nat option \<Rightarrow> nat \<Rightarrow>
     (eepromStatus \<times> eeprom \<times> sched) option" where
  "gmosDriverEepromRecordWrite e sc recordTag source count handler data = do {
     (status, recordBase, recordLength) \<leftarrow> gmosDriverEepromRecordSearch e recordTag;
     if status \<noteq> EEPROM_SUCCESS then Some (status, e, sc)
     else if count \<noteq> recordLength then Some (EEPROM_INVALID_LENGTH, e, sc)
     else eepromStartTransaction
       (e\<lparr>writeOffset := u16 (recordBase + HEADER), writeSize := count, writeData := source,
          callbackHandler := handler, callbackData := data,
          eepromState := EEPROM_UPDATE_VALUE_WRITE\<rparr>) sc }"

text \<open>The result of a read is the status and the bytes copied to the caller.\<close>

definition gmosDriverEepromRecordRead ::
    "eeprom \<Rightarrow> nat \<Rightarrow> nat \<Rightarrow> nat \<Rightarrow> (eepromStatus \<times> byte list) option" where
  "gmosDriverEepromRecordRead e recordTag readOffset readSize = do {
     (status, recordBase, recordLength) \<leftarrow> gmosDriverEepromRecordSearch e recordTag;
     if status \<noteq> EEPROM_SUCCESS then Some (status, [])
     else if readOffset + readSize > recordLength then Some (EEPROM_INVALID_LENGTH, [])
     else if length (baseAddress e) < recordBase + readOffset + HEADER + readSize then None
     else Some (EEPROM_SUCCESS, take readSize (drop (recordBase + (readOffset + HEADER)) (baseAddress e))) }"

subsection \<open>The records a memory holds\<close>

lemmas eeprom_sizes = GMOS_DRIVER_EEPROM_HEADER_SIZE_def GMOS_CONFIG_EEPROM_TAG_SIZE_def
  GMOS_CONFIG_EEPROM_LENGTH_SIZE_def

lemma HEADER_2 [simp]: "HEADER = 2"
  by (simp add: eeprom_sizes)

lemma eepromEndTag_eq: "eepromEndTag = [0xFF, 0]"
  by (simp add: eepromEndTag_def eeprom_sizes GMOS_DRIVER_EEPROM_TAG_END_MARKER_def)

definition recordHeader :: "nat \<Rightarrow> nat \<Rightarrow> byte list" where
  "recordHeader tag len = leBytes GMOS_CONFIG_EEPROM_TAG_SIZE tag @ leBytes GMOS_CONFIG_EEPROM_LENGTH_SIZE len"

definition recordBytes :: "nat \<times> byte list \<Rightarrow> byte list" where
  "recordBytes r = recordHeader (fst r) (length (snd r)) @ snd r"

definition storeBytes :: "(nat \<times> byte list) list \<Rightarrow> byte list" where
  "storeBytes rs = concat (map recordBytes rs)"

definition memHolds :: "byte list \<Rightarrow> (nat \<times> byte list) list \<Rightarrow> bool" where
  "memHolds mem rs \<longleftrightarrow> (\<exists>rest. mem = storeBytes rs @ eepromEndTag @ rest)"

definition validRecords :: "(nat \<times> byte list) list \<Rightarrow> bool" where
  "validRecords rs \<longleftrightarrow> (\<forall>(t, v)\<in>set rs. t < 254 \<and> length v < 256) \<and> distinct (map fst rs)"

definition storeInv :: "eeprom \<Rightarrow> (nat \<times> byte list) list \<Rightarrow> bool" where
  "storeInv e rs \<longleftrightarrow> memHolds (baseAddress e) rs \<and> length (baseAddress e) = memSize e \<and>
     memSize e < 65536 \<and> validRecords rs"

lemma length_recordHeader [simp]: "length (recordHeader tag len) = 2"
  by (simp add: recordHeader_def eeprom_sizes)

lemma length_eepromEndTag [simp]: "length eepromEndTag = 2"
  by (simp add: eepromEndTag_eq)

lemma length_recordBytes [simp]: "length (recordBytes r) = 2 + length (snd r)"
  by (simp add: recordBytes_def)

lemma storeBytes_simps [simp]:
  "storeBytes [] = []" "storeBytes (r # rs) = recordBytes r @ storeBytes rs"
  "storeBytes (rs @ qs) = storeBytes rs @ storeBytes qs"
  by (simp_all add: storeBytes_def)

lemma storeInv_length: "storeInv e rs \<Longrightarrow> length (storeBytes rs) + 2 \<le> memSize e"
  unfolding storeInv_def memHolds_def by (metis length_append length_eepromEndTag add.assoc le_add1)

text \<open>What the search finds in a memory that holds records.\<close>

lemma headerFields:
  assumes "mem = us @ recordHeader tag len @ rest" "tag < 256" "len < 256"
  shows "leNat (take GMOS_CONFIG_EEPROM_TAG_SIZE (drop (length us) mem)) = tag"
    "leNat (take GMOS_CONFIG_EEPROM_LENGTH_SIZE
       (drop (length us + GMOS_CONFIG_EEPROM_TAG_SIZE) mem)) = len"
  using assms leNat_leBytes [of 1 tag] leNat_leBytes [of 1 len]
  by (simp_all add: recordHeader_def eeprom_sizes del: leBytes.simps)

lemma endTag_header: "eepromEndTag = recordHeader 255 0"
  by (simp add: eepromEndTag_def recordHeader_def GMOS_DRIVER_EEPROM_TAG_END_MARKER_def eeprom_sizes)

lemma searchLoop_step:
  assumes m: "mem = us @ recordHeader t len @ rest" and t: "t < 256" "len < 256"
  shows "eepromSearchLoop mem (length mem) tag (length us) =
    (if t = tag then Some (EEPROM_SUCCESS, length us, len)
     else if t = 255 \<and> len = 0 then Some (EEPROM_NO_RECORD, length us, len)
     else eepromSearchLoop mem (length mem) tag (u16 (u16 (length us + 2) + len)))"
proof -
  have le: "length us + 2 \<le> length mem" "\<not> length mem < length us + 2" using m by simp_all
  have e: "GMOS_DRIVER_EEPROM_TAG_END_MARKER = 255"
    by (simp add: GMOS_DRIVER_EEPROM_TAG_END_MARKER_def GMOS_CONFIG_EEPROM_TAG_SIZE_def)
  show ?thesis
    by (subst eepromSearchLoop.simps)
      (simp only: headerFields [OF m t] Let_def HEADER_2 le e if_True if_False)
qed

lemma searchLoop_found:
  assumes "mem = storeBytes pre @ recordBytes (tag, v) @ rest" "tag < 254" "length v < 256"
  shows "eepromSearchLoop mem (length mem) tag (length (storeBytes pre)) =
    Some (EEPROM_SUCCESS, length (storeBytes pre), length v)"
proof -
  have m: "mem = storeBytes pre @ recordHeader tag (length v) @ (v @ rest)"
    using assms(1) by (simp add: recordBytes_def)
  show ?thesis using searchLoop_step [OF m, of tag] assms(2,3) by simp
qed

lemma searchLoop_end:
  assumes "mem = storeBytes pre @ eepromEndTag @ rest" "tag < 254"
  shows "eepromSearchLoop mem (length mem) tag (length (storeBytes pre)) =
    Some (EEPROM_NO_RECORD, length (storeBytes pre), 0)"
  using searchLoop_step [OF assms(1) [unfolded endTag_header], of tag] assms(2) by simp

lemma searchLoop_skip:
  assumes "mem = storeBytes (pre @ [(t, v)]) @ rest" "t < 254" "length v < 256" "t \<noteq> tag"
    and "length mem < 65536"
  shows "eepromSearchLoop mem (length mem) tag (length (storeBytes pre)) =
    eepromSearchLoop mem (length mem) tag (length (storeBytes (pre @ [(t, v)])))"
proof -
  have m: "mem = storeBytes pre @ recordHeader t (length v) @ (v @ rest)"
    using assms(1) by (simp add: recordBytes_def)
  have "u16 (u16 (length (storeBytes pre) + 2) + length v) = length (storeBytes (pre @ [(t, v)]))"
    using assms(5) m by simp
  then show ?thesis using searchLoop_step [OF m, of tag] assms(2-4) by simp
qed

lemma searchLoop_past:
  "mem = storeBytes (pre @ rs) @ rest \<Longrightarrow> length mem < 65536 \<Longrightarrow> map_of rs tag = None \<Longrightarrow>
     \<forall>(t, v)\<in>set rs. t < 254 \<and> length v < 256 \<Longrightarrow>
     eepromSearchLoop mem (length mem) tag (length (storeBytes pre)) =
       eepromSearchLoop mem (length mem) tag (length (storeBytes (pre @ rs)))"
proof (induction rs arbitrary: pre)
  case (Cons r rs)
  obtain t v where r: "r = (t, v)" by (cases r)
  have "eepromSearchLoop mem (length mem) tag (length (storeBytes pre)) =
      eepromSearchLoop mem (length mem) tag (length (storeBytes (pre @ [(t, v)])))"
    by (rule searchLoop_skip [of _ _ _ _ "storeBytes rs @ rest"])
      (use Cons.prems r in \<open>auto split: if_splits\<close>)
  also have "\<dots> = eepromSearchLoop mem (length mem) tag (length (storeBytes ((pre @ [(t, v)]) @ rs)))"
    by (rule Cons.IH) (use Cons.prems r in \<open>auto split: if_splits\<close>)
  finally show ?case using r by simp
qed simp

lemma searchLoop_records:
  "mem = storeBytes (pre @ rs) @ eepromEndTag @ rest \<Longrightarrow> length mem < 65536 \<Longrightarrow> tag < 254 \<Longrightarrow>
     \<forall>(t, v)\<in>set rs. t < 254 \<and> length v < 256 \<Longrightarrow>
     eepromSearchLoop mem (length mem) tag (length (storeBytes pre)) =
       Some (case map_of rs tag of
         None \<Rightarrow> (EEPROM_NO_RECORD, length (storeBytes (pre @ rs)), 0)
       | Some v \<Rightarrow> (EEPROM_SUCCESS,
           length (storeBytes (pre @ takeWhile (\<lambda>(t, _). t \<noteq> tag) rs)), length v))"
proof (induction rs arbitrary: pre)
  case Nil
  then show ?case using searchLoop_end [of mem pre rest tag] by simp
next
  case (Cons r rs)
  obtain t v where r: "r = (t, v)" by (cases r)
  show ?case
  proof (cases "t = tag")
    case True
    then show ?thesis
      using searchLoop_found [of mem pre tag v "storeBytes rs @ eepromEndTag @ rest"] Cons.prems r by simp
  next
    case False
    have "eepromSearchLoop mem (length mem) tag (length (storeBytes pre)) =
        eepromSearchLoop mem (length mem) tag (length (storeBytes (pre @ [(t, v)])))"
      by (rule searchLoop_skip [of _ _ _ _ "storeBytes rs @ eepromEndTag @ rest"]) (use Cons.prems r False in simp_all)
    also have "\<dots> = Some (case map_of rs tag of
         None \<Rightarrow> (EEPROM_NO_RECORD, length (storeBytes ((pre @ [(t, v)]) @ rs)), 0)
       | Some w \<Rightarrow> (EEPROM_SUCCESS,
           length (storeBytes ((pre @ [(t, v)]) @ takeWhile (\<lambda>(t, _). t \<noteq> tag) rs)), length w))"
      by (rule Cons.IH) (use Cons.prems r in simp_all)
    finally show ?thesis using False r by (simp split: option.splits)
  qed
qed

lemma RecordSearch_ok:
  assumes inv: "storeInv e rs"
  shows "gmosDriverEepromRecordSearch e tag =
    (if tag \<ge> 254 then Some (EEPROM_INVALID_TAG, 0, 0)
     else if eepromState e \<noteq> EEPROM_IDLE then Some (EEPROM_NOT_READY, 0, 0)
     else Some (case map_of rs tag of
         None \<Rightarrow> (EEPROM_NO_RECORD, length (storeBytes rs), 0)
       | Some v \<Rightarrow> (EEPROM_SUCCESS, length (storeBytes (takeWhile (\<lambda>(t, _). t \<noteq> tag) rs)), length v)))"
proof -
  from inv obtain rest where m: "baseAddress e = storeBytes ([] @ rs) @ eepromEndTag @ rest"
    "length (baseAddress e) = memSize e" "length (baseAddress e) < 65536"
    "\<forall>(t, v)\<in>set rs. t < 254 \<and> length v < 256"
    by (auto simp: storeInv_def memHolds_def validRecords_def)
  have r: "tag > 2 ^ (8 * GMOS_CONFIG_EEPROM_TAG_SIZE) - 1 \<or>
         tag = GMOS_DRIVER_EEPROM_TAG_END_MARKER \<or> tag = GMOS_DRIVER_EEPROM_TAG_FREE_SPACE \<longleftrightarrow>
         tag \<ge> 254"
    by (auto simp: GMOS_DRIVER_EEPROM_TAG_END_MARKER_def GMOS_DRIVER_EEPROM_TAG_FREE_SPACE_def
        GMOS_CONFIG_EEPROM_TAG_SIZE_def)
  show ?thesis
    unfolding gmosDriverEepromRecordSearch_def r
    using searchLoop_records [OF m(1,3) _ m(4), of tag, unfolded append_Nil] m(2) by simp
qed

subsection \<open>Creating a record\<close>

text \<open>The value a new record gets: zeros for a null pointer, else the first bytes of the data.\<close>

definition initialValue :: "byte list option \<Rightarrow> nat \<Rightarrow> byte list" where
  "initialValue source n = (case source of None \<Rightarrow> replicate n 0 | Some d \<Rightarrow> take n d)"

definition sourceOk :: "byte list option \<Rightarrow> nat \<Rightarrow> bool" where
  "sourceOk source n \<longleftrightarrow> (case source of None \<Rightarrow> True | Some d \<Rightarrow> n \<le> length d)"

lemma length_initialValue [simp]: "sourceOk source n \<Longrightarrow> length (initialValue source n) = n"
  by (auto simp: sourceOk_def initialValue_def split: option.splits)

lemma WriteData_ok:
  assumes "baseAddress e = us @ old @ vs" "length (baseAddress e) = memSize e" "off = length us"
    and "length old = n" "sourceOk source n"
  shows "gmosPalEepromWriteData e off source n =
    Some (True, e\<lparr>baseAddress := us @ initialValue source n @ vs\<rparr>)"
  using assms by (auto simp: gmosPalEepromWriteData_def splice_def sourceOk_def initialValue_def
      split: option.splits)

lemma sourceOk_Some [simp]: "sourceOk (Some d) n \<longleftrightarrow> n \<le> length d"
  by (simp add: sourceOk_def)

lemma initialValue_Some [simp]: "n = length d \<Longrightarrow> initialValue (Some d) n = d"
  by (simp add: initialValue_def)

text \<open>The state right after a create request was accepted.\<close>

definition createReady ::
    "eeprom \<Rightarrow> (nat \<times> byte list) list \<Rightarrow> nat \<Rightarrow> byte list option \<Rightarrow> nat \<Rightarrow> bool" where
  "createReady e rs tag source n \<longleftrightarrow>
     eepromState e = EEPROM_CREATE_END_TAG_WRITE \<and> writeHeader e = recordHeader tag n \<and>
     writeOffset e = length (storeBytes rs) + 2 \<and> writeSize e = n \<and> writeData e = source \<and>
     sourceOk source n"

text \<open>The four activations of the task, with the memory after each of them.\<close>

lemma create_steps:
  assumes r: "createReady e rs tag source n"
    and m: "baseAddress e = storeBytes rs @ eepromEndTag @ a @ b @ c" "length a = n" "length b = 2"
    and len: "length (baseAddress e) = memSize e" "memSize e < 65536"
  shows "\<exists>e1. gmosDriverEepromTask e = Some (GMOS_TASK_RUN_IMMEDIATE, e1) \<and>
      e1 = e\<lparr>baseAddress := storeBytes rs @ eepromEndTag @ a @ eepromEndTag @ c,
             eepromState := EEPROM_CREATE_VALUE_WRITE\<rparr> \<and>
    (\<exists>e2. gmosDriverEepromTask e1 = Some (GMOS_TASK_RUN_IMMEDIATE, e2) \<and>
      e2 = e\<lparr>baseAddress := storeBytes rs @ eepromEndTag @ initialValue source n @ eepromEndTag @ c,
             eepromState := EEPROM_CREATE_HEADER_WRITE\<rparr> \<and>
    (\<exists>e3. gmosDriverEepromTask e2 = Some (GMOS_TASK_RUN_IMMEDIATE, e3) \<and>
      e3 = e\<lparr>baseAddress := storeBytes (rs @ [(tag, initialValue source n)]) @ eepromEndTag @ c,
             eepromState := EEPROM_COMPLETION_WAIT\<rparr>))"
proof -
  note f = r [unfolded createReady_def]
  let ?v = "initialValue source n"
  have v: "length ?v = n" using f by simp
  have tot: "length (storeBytes rs) + n + 4 \<le> memSize e" using m len(1) by simp
  let ?e1 = "e\<lparr>baseAddress := storeBytes rs @ eepromEndTag @ a @ eepromEndTag @ c,
             eepromState := EEPROM_CREATE_VALUE_WRITE\<rparr>"
  let ?e2 = "e\<lparr>baseAddress := storeBytes rs @ eepromEndTag @ ?v @ eepromEndTag @ c,
             eepromState := EEPROM_CREATE_HEADER_WRITE\<rparr>"
  have 1: "gmosDriverEepromTask e = Some (GMOS_TASK_RUN_IMMEDIATE, ?e1)"
  proof -
    have "u16 (writeOffset e + writeSize e) = length (storeBytes rs @ eepromEndTag @ a)"
      using f m(2) tot len(2) by simp
    from WriteData_ok [OF _ len(1) this m(3), of c "Some eepromEndTag"] m(1)
    show ?thesis using f by (simp add: gmosDriverEepromTask_def)
  qed
  have 2: "gmosDriverEepromTask ?e1 = Some (GMOS_TASK_RUN_IMMEDIATE, ?e2)"
  proof -
    have "length (baseAddress ?e1) = memSize ?e1" using m len(1) by simp
    from WriteData_ok [OF _ this, of "storeBytes rs @ eepromEndTag" a "eepromEndTag @ c" "writeOffset e" n source]
    show ?thesis using f m(2) by (simp add: gmosDriverEepromTask_def gmosPalEepromWritePoll_def)
  qed
  have 3: "gmosDriverEepromTask ?e2 = Some (GMOS_TASK_RUN_IMMEDIATE,
      e\<lparr>baseAddress := storeBytes (rs @ [(tag, ?v)]) @ eepromEndTag @ c,
        eepromState := EEPROM_COMPLETION_WAIT\<rparr>)"
  proof -
    have "length (baseAddress ?e2) = memSize ?e2" using m len(1) v by simp
    moreover have "u16 (sub32 (writeOffset e) HEADER) = length (storeBytes rs)" using f tot len(2) by simp
    ultimately show ?thesis
      using WriteData_ok [of ?e2 "storeBytes rs" eepromEndTag "?v @ eepromEndTag @ c"
          "length (storeBytes rs)" 2 "Some (writeHeader e)"] f v
      by (simp add: gmosDriverEepromTask_def gmosPalEepromWritePoll_def recordBytes_def)
  qed
  show ?thesis using 1 2 3 by blast
qed

lemma RunToIdle_idle: "eepromState e = EEPROM_IDLE \<Longrightarrow> gmosDriverEepromRunToIdle e = Some e"
  by (subst gmosDriverEepromRunToIdle.simps) simp

lemma RunToIdle_step:
  "eepromState e \<noteq> EEPROM_IDLE \<Longrightarrow> gmosDriverEepromTask e = Some (st, e') \<Longrightarrow>
     gmosDriverEepromRunToIdle e = gmosDriverEepromRunToIdle e'"
  by (subst gmosDriverEepromRunToIdle.simps) simp

text \<open>The last activation reports to the callback handler.\<close>

definition completed :: "eeprom \<Rightarrow> eeprom" where
  "completed e = e\<lparr>callbacks := callbacks e @ (case callbackHandler e of None \<Rightarrow> []
       | Some h \<Rightarrow> [(h, EEPROM_SUCCESS, callbackData e)]),
     callbackHandler := None, eepromState := EEPROM_IDLE\<rparr>"

lemma completion_step:
  "eepromState e = EEPROM_COMPLETION_WAIT \<Longrightarrow>
     gmosDriverEepromTask e = Some (GMOS_TASK_RUN_IMMEDIATE, completed e)"
  by (cases "callbackHandler e")
    (simp_all add: gmosDriverEepromTask_def gmosPalEepromWritePoll_def completed_def Let_def)

text \<open>A fitting record splits the memory behind the records.\<close>

lemma store_split:
  assumes "memHolds mem rs" "length (storeBytes rs) + n + 4 \<le> length mem"
  obtains a b c where "mem = storeBytes rs @ eepromEndTag @ a @ b @ c" "length a = n" "length b = 2"
proof -
  from assms(1) obtain rest where m: "mem = storeBytes rs @ eepromEndTag @ rest" by (auto simp: memHolds_def)
  then have "n + 2 \<le> length rest" using assms(2) by simp
  moreover have "rest = take n rest @ take 2 (drop n rest) @ drop (n + 2) rest"
    by (metis append_take_drop_id add.commute drop_drop)
  ultimately show thesis using that [of "take n rest" "take 2 (drop n rest)" "drop (n + 2) rest"] m by simp
qed

lemma storeInv_append:
  assumes "storeInv e rs" "map_of rs tag = None" "tag < 254" "length v < 256"
    and "baseAddress e' = storeBytes (rs @ [(tag, v)]) @ eepromEndTag @ c"
    and "length (baseAddress e') = memSize e'" "memSize e' = memSize e"
  shows "storeInv e' (rs @ [(tag, v)])"
proof -
  have "tag \<notin> fst ` set rs" using assms(2) by (simp add: map_of_eq_None_iff)
  then show ?thesis
    using assms by (auto simp: storeInv_def memHolds_def validRecords_def)
qed

text \<open>The driver state after an accepted create request, and the outcome of running it.\<close>

definition createState :: "eeprom \<Rightarrow> nat \<Rightarrow> nat \<Rightarrow> byte list option \<Rightarrow> nat \<Rightarrow> nat option \<Rightarrow> nat \<Rightarrow> eeprom" where
  "createState e base tag source n handler data =
     e\<lparr>writeHeader := recordHeader tag n, writeOffset := u16 (base + HEADER), writeSize := n,
       writeData := source, callbackHandler := handler, callbackData := data,
       eepromState := EEPROM_CREATE_END_TAG_WRITE\<rparr>"

lemma createState_fields [simp]:
  "baseAddress (createState e base tag source n handler data) = baseAddress e"
  "memSize (createState e base tag source n handler data) = memSize e"
  "callbacks (createState e base tag source n handler data) = callbacks e"
  "callbackHandler (createState e base tag source n handler data) = handler"
  "callbackData (createState e base tag source n handler data) = data"
  "workerTask (createState e base tag source n handler data) = workerTask e"
  "eepromState (createState e base tag source n handler data) = EEPROM_CREATE_END_TAG_WRITE"
  by (simp_all add: createState_def)

lemma RecordCreate_eq:
  assumes inv: "storeInv e rs" and idle: "eepromState e = EEPROM_IDLE" and tag: "tag < 254"
    and new: "map_of rs tag = None"
  shows "gmosDriverEepromRecordCreate e sc tag source n handler data =
    (if length (storeBytes rs) + n + 2 > memSize e then Some (EEPROM_OUT_OF_MEMORY, e, sc)
     else eepromStartTransaction (createState e (length (storeBytes rs)) tag source n handler data) sc)"
proof -
  have "gmosDriverEepromRecordSearch e tag = Some (EEPROM_NO_RECORD, length (storeBytes rs), 0)"
    using RecordSearch_ok [OF inv, of tag] idle tag new by simp
  then show ?thesis
    by (auto simp: gmosDriverEepromRecordCreate_def createState_def recordHeader_def)
qed

lemma createState_ready:
  assumes "storeInv e rs" "sourceOk source n" "length (storeBytes rs) + n + 2 \<le> memSize e"
  shows "createReady (createState e (length (storeBytes rs)) tag source n handler data) rs tag source n"
  using assms storeInv_length [OF assms(1)] by (simp add: createReady_def createState_def storeInv_def)

definition runTask :: "nat \<Rightarrow> eeprom \<Rightarrow> eeprom option" where
  "runTask k e = ((\<lambda>r. do { e \<leftarrow> r; (_, e) \<leftarrow> gmosDriverEepromTask e; Some e }) ^^ k) (Some e)"

lemma runTask_0 [simp]: "runTask 0 e = Some e"
  by (simp add: runTask_def)

lemma runTask_Suc: "runTask (Suc k) e = do { e \<leftarrow> runTask k e; (_, e) \<leftarrow> gmosDriverEepromTask e; Some e }"
  by (simp add: runTask_def)

lemma runTask_first:
  "gmosDriverEepromTask e = Some (st, e') \<Longrightarrow> runTask (Suc k) e = runTask k e'"
  by (induction k) (simp_all add: runTask_Suc [of _ e] runTask_Suc [of _ e'])

lemma runTask_idle: "eepromState e = EEPROM_IDLE \<Longrightarrow> runTask k e = Some e"
  by (induction k) (simp_all add: runTask_Suc gmosDriverEepromTask_def)

text \<open>
  From an accepted request on: the memory after each activation of the task. The first two
  activations write behind the end marker, and the third one turns it into the header of the new
  record, whose length field keeps the lowest eight bits of the length only.
\<close>

lemma create_run:
  fixes handler :: "nat option" and data :: nat and tag :: nat
  assumes inv: "storeInv e rs" and src: "sourceOk source n"
    and fit: "length (storeBytes rs) + n + 4 \<le> memSize e"
  defines "e0 \<equiv> createState e (length (storeBytes rs)) tag source n handler data"
    and "mem \<equiv> \<lambda>c. storeBytes rs @ recordHeader tag n @ initialValue source n @ eepromEndTag @ c"
  obtains ek c where "\<And>k. runTask k e0 = Some (ek k)" "gmosDriverEepromRunToIdle e0 = Some (ek 4)"
    "\<And>k. memSize (ek k) = memSize e" "\<And>k. k < 3 \<Longrightarrow> storeInv (ek k) rs"
    "\<And>k. 3 \<le> k \<Longrightarrow> baseAddress (ek k) = mem c" "length (mem c) = memSize e"
    "\<And>k. eepromState (ek k) = EEPROM_IDLE \<longleftrightarrow> 4 \<le> k"
    "\<And>k. callbacks (ek k) = callbacks e @ (case handler of None \<Rightarrow> [] | Some h \<Rightarrow>
       if 4 \<le> k then [(h, EEPROM_SUCCESS, data)] else [])"
proof -
  have len: "length (baseAddress e) = memSize e" "memSize e < 65536" and mh: "memHolds (baseAddress e) rs"
    using inv by (simp_all add: storeInv_def)
  from store_split [OF mh] fit len(1) obtain a b c where
    m: "baseAddress e = storeBytes rs @ eepromEndTag @ a @ b @ c" "length a = n" "length b = 2" by metis
  have ready: "createReady e0 rs tag source n"
    unfolding e0_def by (rule createState_ready [OF inv src]) (use fit in simp)
  have rb: "storeBytes (rs @ [(tag, initialValue source n)]) @ eepromEndTag @ c = mem c"
    using src by (simp add: mem_def recordBytes_def)
  obtain e1 e2 e3 where s: "gmosDriverEepromTask e0 = Some (GMOS_TASK_RUN_IMMEDIATE, e1)"
    "gmosDriverEepromTask e1 = Some (GMOS_TASK_RUN_IMMEDIATE, e2)"
    "gmosDriverEepromTask e2 = Some (GMOS_TASK_RUN_IMMEDIATE, e3)"
    and q: "e1 = e0\<lparr>baseAddress := storeBytes rs @ eepromEndTag @ a @ eepromEndTag @ c,
             eepromState := EEPROM_CREATE_VALUE_WRITE\<rparr>"
    "e2 = e0\<lparr>baseAddress := storeBytes rs @ eepromEndTag @ initialValue source n @ eepromEndTag @ c,
             eepromState := EEPROM_CREATE_HEADER_WRITE\<rparr>"
    "e3 = e0\<lparr>baseAddress := mem c, eepromState := EEPROM_COMPLETION_WAIT\<rparr>"
    using create_steps [OF ready _ m(2,3), of c] m(1) len unfolding e0_def rb by auto
  have s4: "gmosDriverEepromTask e3 = Some (GMOS_TASK_RUN_IMMEDIATE, completed e3)"
    by (rule completion_step) (simp add: q(3))
  have idle: "eepromState (completed e3) = EEPROM_IDLE" by (simp add: completed_def)
  have mc: "length (mem c) = memSize e" using m len(1) src by (simp add: mem_def)
  define ek where "ek k = (if k = 0 then e0 else if k = 1 then e1 else if k = 2 then e2 else if k = 3 then e3
    else completed e3)" for k :: nat
  have run4: "runTask 0 e0 = Some e0" "runTask 1 e0 = Some e1" "runTask 2 e0 = Some e2" "runTask 3 e0 = Some e3"
    "runTask (k + 4) e0 = Some (completed e3)" for k
    using s s4 runTask_idle [OF idle]
    by (simp_all add: numeral_2_eq_2 numeral_3_eq_3 numeral_eq_Suc runTask_first)
  have sel: "P (ek k)" if "k < 4 \<Longrightarrow> P (ek k)" "4 \<le> k \<Longrightarrow> P (completed e3)" for P k
    using that by (cases "k < 4") (auto simp: ek_def)
  show thesis
  proof (rule that [of ek c])
    show "runTask k e0 = Some (ek k)" for k
    proof (cases "4 \<le> k")
      case True
      then obtain j where "k = j + 4" using le_Suc_ex by (metis add.commute)
      then show ?thesis using run4(5) [of j] by (simp add: ek_def)
    next
      case False
      then have "k = 0 \<or> k = 1 \<or> k = 2 \<or> k = 3" by auto
      then show ?thesis using run4(1-4) by (auto simp: ek_def)
    qed
    show "gmosDriverEepromRunToIdle e0 = Some (ek 4)"
      using RunToIdle_step [OF _ s(1)] RunToIdle_step [OF _ s(2)] RunToIdle_step [OF _ s(3)]
        RunToIdle_step [OF _ s4] RunToIdle_idle [OF idle] q by (simp add: e0_def ek_def)
    show "memSize (ek k) = memSize e" for k by (simp add: ek_def q e0_def completed_def)
    have "storeInv e0 rs" "storeInv e1 rs" "storeInv e2 rs"
      using inv src m by (auto simp: q e0_def memHolds_def storeInv_def)
    then show "storeInv (ek k) rs" if "k < 3" for k using that by (auto simp: ek_def)
    show "baseAddress (ek k) = mem c" if "3 \<le> k" for k using that by (simp add: ek_def q(3) completed_def)
    show "length (mem c) = memSize e" by (rule mc)
    show "eepromState (ek k) = EEPROM_IDLE \<longleftrightarrow> 4 \<le> k" for k
      using idle by (auto simp: ek_def q e0_def)
    show "callbacks (ek k) = callbacks e @ (case handler of None \<Rightarrow> [] | Some h \<Rightarrow>
       if 4 \<le> k then [(h, EEPROM_SUCCESS, data)] else [])" for k
      by (cases handler) (simp_all add: ek_def q e0_def completed_def)
  qed
qed

text \<open>A record with a length that fits its field is then the last one of the list.\<close>

lemma created_record:
  assumes "storeInv e rs" "map_of rs tag = None" "tag < 254" "n < 256" "sourceOk source n"
    and "baseAddress e' = storeBytes rs @ recordHeader tag n @ initialValue source n @ eepromEndTag @ c"
    and "length (baseAddress e') = memSize e'" "memSize e' = memSize e"
  shows "storeInv e' (rs @ [(tag, initialValue source n)])"
  by (rule storeInv_append [OF assms(1-3) _ _ assms(7,8)]) (use assms(4-6) in \<open>simp_all add: recordBytes_def\<close>)

text \<open>A longer one is found with the length that is left of it.\<close>

lemma created_long:
  assumes "validRecords rs" "map_of rs tag = None" "tag < 254" "eepromState e' = EEPROM_IDLE"
    and m: "baseAddress e' = storeBytes rs @ recordHeader tag n @ v @ rest" and n: "length v = n"
    and len: "length (baseAddress e') = memSize e'" "memSize e' < 65536"
  shows "gmosDriverEepromRecordSearch e' tag = Some (EEPROM_SUCCESS, length (storeBytes rs), n mod 256)"
proof -
  let ?v = "take (n mod 256) v"
  have l: "length ?v = n mod 256" using n by simp
  have "recordHeader tag n = recordHeader tag (n mod 256)"
    by (simp add: recordHeader_def eeprom_sizes)
  then have m2: "baseAddress e' = storeBytes rs @ recordBytes (tag, ?v) @ drop (n mod 256) v @ rest"
    using m l by (simp add: recordBytes_def)
  have "eepromSearchLoop (baseAddress e') (length (baseAddress e')) tag (length (storeBytes [])) =
      eepromSearchLoop (baseAddress e') (length (baseAddress e')) tag (length (storeBytes ([] @ rs)))"
    by (rule searchLoop_past) (use m assms(1,2) len in \<open>auto simp: validRecords_def\<close>)
  also have "\<dots> = Some (EEPROM_SUCCESS, length (storeBytes rs), length ?v)"
    using searchLoop_found [OF m2 assms(3)] l by simp
  finally have "eepromSearchLoop (baseAddress e') (memSize e') tag 0 =
      Some (EEPROM_SUCCESS, length (storeBytes rs), n mod 256)" using len(1) l by simp
  then show ?thesis
    using assms(3,4) by (simp add: gmosDriverEepromRecordSearch_def GMOS_DRIVER_EEPROM_TAG_END_MARKER_def
        GMOS_DRIVER_EEPROM_TAG_FREE_SPACE_def GMOS_CONFIG_EEPROM_TAG_SIZE_def)
qed

text \<open>A task that cannot start its write never becomes idle.\<close>

definition stuck :: "eeprom \<Rightarrow> bool" where
  "stuck e \<longleftrightarrow> eepromState e = EEPROM_CREATE_END_TAG_WRITE \<and>
     u16 (writeOffset e + writeSize e) + HEADER > memSize e"

lemma stuck_step: "stuck e \<Longrightarrow> gmosDriverEepromTask e = Some (GMOS_TASK_RUN_IMMEDIATE, e)"
  by (simp add: stuck_def gmosDriverEepromTask_def gmosPalEepromWriteData_def)

lemma stuck_none:
  assumes "stuck e"
  shows "gmosDriverEepromRunToIdle e = None"
proof (rule ccontr)
  assume "gmosDriverEepromRunToIdle e \<noteq> None"
  then obtain y where "gmosDriverEepromRunToIdle e = Some y" by blast
  then have "\<not> stuck e"
  proof (rule gmosDriverEepromRunToIdle.raw_induct [where P = "\<lambda>e y. \<not> stuck e", rotated])
    fix loop e y
    assume ih: "\<And>e y. loop e = Some y \<Longrightarrow> \<not> stuck e"
      and body: "(if eepromState e \<noteq> EEPROM_IDLE
        then Option.bind (gmosDriverEepromTask e) (\<lambda>(_, e). loop e) else Some e) = Some y"
    show "\<not> stuck e"
    proof
      assume st: "stuck e"
      then have "loop e = Some y" using body stuck_step [OF st] by (auto simp: stuck_def)
      then show False using ih st by blast
    qed
  qed
  then show False using assms by simp
qed

lemma stuck_run: "stuck e \<Longrightarrow> runTask k e = Some e"
  by (induction k) (simp_all add: runTask_Suc stuck_step)

lemma create_stuck:
  "storeInv e rs \<Longrightarrow> length (storeBytes rs) + n + 2 \<le> memSize e \<Longrightarrow>
     memSize e < length (storeBytes rs) + n + 4 \<Longrightarrow>
     stuck (createState e (length (storeBytes rs)) tag source n handler data)"
  by (simp add: stuck_def createState_def storeInv_def)

subsection \<open>Writing and reading a record\<close>

definition updateRecord :: "nat \<Rightarrow> byte list \<Rightarrow> (nat \<times> byte list) list \<Rightarrow> (nat \<times> byte list) list" where
  "updateRecord tag v rs = map (\<lambda>(t, w). (t, if t = tag then v else w)) rs"

lemma record_split:
  assumes "map_of rs tag = Some v" "distinct (map fst rs)"
  obtains post where "rs = takeWhile (\<lambda>(t, _). t \<noteq> tag) rs @ (tag, v) # post"
    "\<And>w. updateRecord tag w rs = takeWhile (\<lambda>(t, _). t \<noteq> tag) rs @ (tag, w) # post"
  using assms
proof (induction rs arbitrary: thesis)
  case (Cons r rs)
  obtain t w where r: "r = (t, w)" by (cases r)
  show ?case
  proof (cases "t = tag")
    case True
    then have "tag \<notin> fst ` set rs" using Cons.prems(3) r by simp
    then have "updateRecord tag x rs = rs" for x
      unfolding updateRecord_def by (induction rs) auto
    then show ?thesis using True Cons.prems(1) [of rs] Cons.prems(2) r by (simp add: updateRecord_def)
  next
    case False
    obtain post where "rs = takeWhile (\<lambda>(t, _). t \<noteq> tag) rs @ (tag, v) # post"
      "\<And>x. updateRecord tag x rs = takeWhile (\<lambda>(t, _). t \<noteq> tag) rs @ (tag, x) # post"
      by (rule Cons.IH) (use Cons.prems(2,3) False r in auto)
    then show ?thesis using False Cons.prems(1) [of post] r by (simp add: updateRecord_def)
  qed
qed simp

lemma updateRecord_fst [simp]: "map fst (updateRecord tag v rs) = map fst rs"
  by (induction rs) (auto simp: updateRecord_def)

lemma map_of_updateRecord:
  assumes "map_of rs tag = Some u"
  shows "map_of (updateRecord tag v rs) = (map_of rs)(tag \<mapsto> v)"
  using assms
proof (induction rs)
  case (Cons r rs)
  obtain t w where r: "r = (t, w)" by (cases r)
  have "map_of (updateRecord tag v rs) x = map_of rs x" if "x \<noteq> tag" for x
    using that by (induction rs) (auto simp: updateRecord_def)
  then show ?case using Cons r by (auto simp: updateRecord_def fun_eq_iff)
qed simp

lemma RecordWrite_ok:
  assumes inv: "storeInv e rs" and idle: "eepromState e = EEPROM_IDLE" and tag: "map_of rs tag = Some v"
    and src: "sourceOk source (length v)"
  shows "\<exists>e'. gmosDriverEepromRecordWrite e sc tag source (length v) None data = Some (EEPROM_SUCCESS, e', sc) \<and>
    storeInv e' (updateRecord tag (initialValue source (length v)) rs) \<and> eepromState e' = EEPROM_IDLE \<and>
    callbacks e' = callbacks e \<and> memSize e' = memSize e"
proof -
  have d: "distinct (map fst rs)" and vr: "validRecords rs" and len: "length (baseAddress e) = memSize e" "memSize e < 65536"
    using inv by (simp_all add: storeInv_def validRecords_def)
  let ?pre = "takeWhile (\<lambda>(t, _). t \<noteq> tag) rs" and ?w = "initialValue source (length v)"
  obtain post where s: "rs = ?pre @ (tag, v) # post" "\<And>w. updateRecord tag w rs = ?pre @ (tag, w) # post"
    by (rule record_split [OF tag d]) (rule that)
  have t: "tag < 254" "length v < 256" using vr tag by (auto simp: validRecords_def dest!: map_of_SomeD)
  from inv obtain rest where m: "baseAddress e = storeBytes (?pre @ (tag, v) # post) @ eepromEndTag @ rest"
    using s(1) by (auto simp: storeInv_def memHolds_def)
  let ?us = "storeBytes ?pre @ recordHeader tag (length v)" and ?vs = "storeBytes post @ eepromEndTag @ rest"
  have m': "baseAddress e = ?us @ v @ ?vs" using m by (simp add: recordBytes_def)
  let ?e0 = "e\<lparr>writeOffset := u16 (length (storeBytes ?pre) + HEADER), writeSize := length v, writeData := source,
    callbackHandler := None, callbackData := data, eepromState := EEPROM_UPDATE_VALUE_WRITE\<rparr>"
  let ?e1 = "?e0\<lparr>baseAddress := ?us @ ?w @ ?vs, eepromState := EEPROM_COMPLETION_WAIT\<rparr>"
  have srch: "gmosDriverEepromRecordSearch e tag = Some (EEPROM_SUCCESS, length (storeBytes ?pre), length v)"
    using RecordSearch_ok [OF inv, of tag] t idle tag by simp
  have "length (storeBytes ?pre) + 2 < 65536" using len m' by simp
  then have o: "u16 (length (storeBytes ?pre) + HEADER) = length ?us" by simp
  have 1: "gmosDriverEepromTask ?e0 = Some (GMOS_TASK_RUN_IMMEDIATE, ?e1)"
    using WriteData_ok [of ?e0 ?us v ?vs "length ?us" "length v" source] m' len src o
    by (simp add: gmosDriverEepromTask_def)
  have 2: "gmosDriverEepromTask ?e1 = Some (GMOS_TASK_RUN_IMMEDIATE, completed ?e1)"
    by (rule completion_step) simp
  have run: "gmosDriverEepromRunToIdle ?e0 = Some (completed ?e1)"
    using RunToIdle_step [OF _ 1] RunToIdle_step [OF _ 2] RunToIdle_idle [of "completed ?e1"]
    by (simp add: completed_def)
  have e: "gmosDriverEepromRecordWrite e sc tag source (length v) None data = Some (EEPROM_SUCCESS, completed ?e1, sc)"
    using srch run by (simp add: gmosDriverEepromRecordWrite_def eepromStartTransaction_def)
  have w: "length ?w = length v" using src by simp
  have "storeInv (completed ?e1) (updateRecord tag ?w rs)"
  proof -
    have "baseAddress (completed ?e1) = storeBytes (updateRecord tag ?w rs) @ eepromEndTag @ rest"
      using s(2) w by (simp add: completed_def recordBytes_def)
    then have "memHolds (baseAddress (completed ?e1)) (updateRecord tag ?w rs)"
      unfolding memHolds_def by (rule exI)
    moreover have "length (baseAddress (completed ?e1)) = memSize (completed ?e1)"
      using m' len w by (simp add: completed_def)
    moreover have "validRecords (updateRecord tag ?w rs)"
      using vr w t by (auto simp: validRecords_def updateRecord_def comp_def split_beta)
    ultimately show ?thesis using len by (simp add: storeInv_def completed_def)
  qed
  then show ?thesis using e by (intro exI [of _ "completed ?e1"]) (simp add: completed_def)
qed

lemma RecordRead_ok:
  assumes inv: "storeInv e rs" and idle: "eepromState e = EEPROM_IDLE" and tag: "tag < 254"
  shows "gmosDriverEepromRecordRead e tag off n = Some (case map_of rs tag of
      None \<Rightarrow> (EEPROM_NO_RECORD, [])
    | Some v \<Rightarrow> if off + n \<le> length v then (EEPROM_SUCCESS, take n (drop off v)) else (EEPROM_INVALID_LENGTH, []))"
proof (cases "map_of rs tag")
  case None
  then show ?thesis
    using RecordSearch_ok [OF inv, of tag] tag idle by (simp add: gmosDriverEepromRecordRead_def)
next
  case (Some v)
  have d: "distinct (map fst rs)" using inv by (simp add: storeInv_def validRecords_def)
  let ?pre = "takeWhile (\<lambda>(t, _). t \<noteq> tag) rs"
  obtain post where s: "rs = ?pre @ (tag, v) # post" by (rule record_split [OF Some d])
  from inv obtain rest where m: "baseAddress e = storeBytes (?pre @ (tag, v) # post) @ eepromEndTag @ rest"
    using s by (auto simp: storeInv_def memHolds_def)
  then have m': "baseAddress e = (storeBytes ?pre @ recordHeader tag (length v)) @ v @ storeBytes post @ eepromEndTag @ rest"
    by (simp add: recordBytes_def)
  have srch: "gmosDriverEepromRecordSearch e tag = Some (EEPROM_SUCCESS, length (storeBytes ?pre), length v)"
    using RecordSearch_ok [OF inv, of tag] tag idle Some by simp
  have rd: "take n (drop (length (storeBytes ?pre) + (off + HEADER)) (baseAddress e)) = take n (drop off v)"
    if "off + n \<le> length v"
  proof -
    have "drop (length (storeBytes ?pre) + (off + HEADER)) (baseAddress e) =
        drop off (v @ storeBytes post @ eepromEndTag @ rest)"
      unfolding m' by (simp add: add.commute)
    then show ?thesis using that by simp
  qed
  have le: "length (storeBytes ?pre) + off + HEADER + n \<le> length (baseAddress e)" if "off + n \<le> length v"
    using that unfolding m' by simp
  show ?thesis
  proof (cases "off + n \<le> length v")
    case True
    then show ?thesis
      using rd [OF True] le [OF True] Some by (simp add: gmosDriverEepromRecordRead_def srch not_less)
  next
    case False
    then show ?thesis using Some by (simp add: gmosDriverEepromRecordRead_def srch not_less)
  qed
qed

subsection \<open>Properties\<close>

text \<open>
  C20: What a blocking create request does on every branch, for a memory that holds the records
  \<open>rs\<close> and a source that has the bytes asked for: a reserved tag is refused, any other tag while
  the driver is not idle, an existing tag, and a record that the memory has no room for, and then
  nothing changes; a record that itself fits but leaves no room for the end marker is accepted, and
  the call never returns; any other record is written behind the others, followed by the end marker,
  and the call returns with an idle driver. A record of less than 256 bytes is then stored. The
  length field of a longer one keeps the length modulo 256 only, so reading back the whole record
  is refused with an invalid length.
\<close>
theorem eeprom_create:
  assumes inv: "storeInv e rs" and src: "sourceOk source n"
    and r: "r = gmosDriverEepromRecordCreate e sc tag source n None data"
  shows "if tag \<ge> 254 then r = Some (EEPROM_INVALID_TAG, e, sc)
    else if eepromState e \<noteq> EEPROM_IDLE then r = Some (EEPROM_NOT_READY, e, sc)
    else case map_of rs tag of
      Some v \<Rightarrow> r = Some (if n = length v then EEPROM_TAG_EXISTS else EEPROM_INVALID_LENGTH, e, sc)
    | None \<Rightarrow>
        if memSize e < length (storeBytes rs) + n + 2 then r = Some (EEPROM_OUT_OF_MEMORY, e, sc)
        else if memSize e < length (storeBytes rs) + n + 4 then r = None
        else \<exists>e' rest. r = Some (EEPROM_SUCCESS, e', sc) \<and> eepromState e' = EEPROM_IDLE \<and>
          callbacks e' = callbacks e \<and> memSize e' = memSize e \<and> length (baseAddress e') = memSize e \<and>
          baseAddress e' = storeBytes rs @ recordHeader tag n @ initialValue source n @ eepromEndTag @ rest \<and>
          (if n < 256 then storeInv e' (rs @ [(tag, initialValue source n)])
           else gmosDriverEepromRecordRead e' tag 0 n = Some (EEPROM_INVALID_LENGTH, []))"
proof (cases "tag < 254 \<and> eepromState e = EEPROM_IDLE \<and> map_of rs tag = None")
  case False
  then show ?thesis
    using RecordSearch_ok [OF inv, of tag]
    by (auto simp: r gmosDriverEepromRecordCreate_def split: option.splits)
next
  case True
  then have t: "tag < 254" "map_of rs tag = None" and idle: "eepromState e = EEPROM_IDLE" by auto
  note eq = RecordCreate_eq [OF inv idle t, of sc source n None data, folded r]
  let ?e0 = "createState e (length (storeBytes rs)) tag source n None data"
  have run: "\<exists>e' rest. gmosDriverEepromRunToIdle ?e0 = Some e' \<and> eepromState e' = EEPROM_IDLE \<and>
      callbacks e' = callbacks e \<and> memSize e' = memSize e \<and> length (baseAddress e') = memSize e \<and>
      baseAddress e' = storeBytes rs @ recordHeader tag n @ initialValue source n @ eepromEndTag @ rest \<and>
      (if n < 256 then storeInv e' (rs @ [(tag, initialValue source n)])
       else gmosDriverEepromRecordRead e' tag 0 n = Some (EEPROM_INVALID_LENGTH, []))"
    if fit: "length (storeBytes rs) + n + 4 \<le> memSize e"
  proof -
    obtain ek c where k: "gmosDriverEepromRunToIdle ?e0 = Some (ek 4)" "memSize (ek 4) = memSize e"
      "baseAddress (ek 4) = storeBytes rs @ recordHeader tag n @ initialValue source n @ eepromEndTag @ c"
      "length (baseAddress (ek 4)) = memSize e" "eepromState (ek 4) = EEPROM_IDLE"
      "callbacks (ek 4) = callbacks e"
      by (rule create_run [OF inv src fit, where handler = None and data = data and tag = tag]) simp
    have "storeInv (ek 4) (rs @ [(tag, initialValue source n)])" if "n < 256"
      by (rule created_record [OF inv t(2,1) that src k(3)]) (simp_all only: k(2,4))
    moreover have "gmosDriverEepromRecordRead (ek 4) tag 0 n = Some (EEPROM_INVALID_LENGTH, [])" if "256 \<le> n"
    proof -
      have "gmosDriverEepromRecordSearch (ek 4) tag = Some (EEPROM_SUCCESS, length (storeBytes rs), n mod 256)"
        by (rule created_long [OF _ t(2,1) k(5) k(3)]) (use inv src k in \<open>simp_all add: storeInv_def\<close>)
      moreover have "n mod 256 < n" using that mod_less_divisor [of 256 n] by linarith
      ultimately show ?thesis by (simp add: gmosDriverEepromRecordRead_def)
    qed
    ultimately show ?thesis using k by (intro exI [of _ "ek 4"] exI [of _ c]) simp
  qed
  show ?thesis
  proof (cases "length (storeBytes rs) + n + 4 \<le> memSize e")
    case True
    then have "r = Option.bind (gmosDriverEepromRunToIdle ?e0) (\<lambda>e. Some (EEPROM_SUCCESS, e, sc))"
      using eq by (simp add: eepromStartTransaction_def)
    with run [OF True] have "\<exists>e' rest. r = Some (EEPROM_SUCCESS, e', sc) \<and> eepromState e' = EEPROM_IDLE \<and>
          callbacks e' = callbacks e \<and> memSize e' = memSize e \<and> length (baseAddress e') = memSize e \<and>
          baseAddress e' = storeBytes rs @ recordHeader tag n @ initialValue source n @ eepromEndTag @ rest \<and>
          (if n < 256 then storeInv e' (rs @ [(tag, initialValue source n)])
           else gmosDriverEepromRecordRead e' tag 0 n = Some (EEPROM_INVALID_LENGTH, []))"
      by (elim exE conjE, intro exI conjI) (simp, assumption+)
    moreover have "\<not> tag \<ge> 254" "\<not> memSize e < length (storeBytes rs) + n + 2"
      "\<not> memSize e < length (storeBytes rs) + n + 4" "\<not> eepromState e \<noteq> EEPROM_IDLE"
      using t idle True by simp_all
    ultimately show ?thesis by (simp only: if_False t(2) option.case)
  next
    case False
    then show ?thesis
      using t idle eq stuck_none [OF create_stuck [OF inv]]
      by (auto simp: eepromStartTransaction_def not_less)
  qed
qed

text \<open>
  C21: A create request with a callback for a new record of less than 256 bytes, made to an idle
  driver whose worker task can be resumed. Without room for the record it is refused and nothing
  changes. If there is room it returns at once. Between any two activations of the driver task the
  memory then holds a well formed record list: the old records until the third activation, and from
  then on the old records followed by the complete new one. Reads are refused as not ready until
  the fourth activation, which calls the callback, the only time it is called; afterwards they give
  the old values and the new one. If there is room for the record but not for the end marker
  behind it, the task runs for ever, the memory keeps the old records and the callback is never
  called.
\<close>
theorem eeprom_create_async:
  assumes inv: "storeInv e rs" and idle: "eepromState e = EEPROM_IDLE" and src: "sourceOk source n"
    and new: "map_of rs tag = None" "tag < 254" "n < 256"
    and resume: "gmosSchedulerTaskResume (workerTask e) sc = Some sc'"
    and r: "r = gmosDriverEepromRecordCreate e sc tag source n (Some h) data"
  shows "if memSize e < length (storeBytes rs) + n + 2 then r = Some (EEPROM_OUT_OF_MEMORY, e, sc)
    else \<exists>e0. r = Some (EEPROM_SUCCESS, e0, sc') \<and>
      (if memSize e < length (storeBytes rs) + n + 4
       then storeInv e0 rs \<and> eepromState e0 \<noteq> EEPROM_IDLE \<and> callbacks e0 = callbacks e \<and>
         (\<forall>k. runTask k e0 = Some e0)
       else \<forall>k. \<exists>e'. runTask k e0 = Some e' \<and>
         storeInv e' (if k < 3 then rs else rs @ [(tag, initialValue source n)]) \<and>
         (eepromState e' = EEPROM_IDLE \<longleftrightarrow> 4 \<le> k) \<and>
         callbacks e' = callbacks e @ (if 4 \<le> k then [(h, EEPROM_SUCCESS, data)] else []) \<and>
         (\<forall>t < 254. \<forall>off m. gmosDriverEepromRecordRead e' t off m = Some (
            if k < 4 then (EEPROM_NOT_READY, [])
            else case map_of (rs @ [(tag, initialValue source n)]) t of
                None \<Rightarrow> (EEPROM_NO_RECORD, [])
              | Some v \<Rightarrow> if off + m \<le> length v then (EEPROM_SUCCESS, take m (drop off v))
                          else (EEPROM_INVALID_LENGTH, []))))"
proof -
  let ?L = "length (storeBytes rs)" and ?rs' = "rs @ [(tag, initialValue source n)]"
  let ?e0 = "createState e ?L tag source n (Some h) data"
  have eq: "r = (if ?L + n + 2 > memSize e then Some (EEPROM_OUT_OF_MEMORY, e, sc) else Some (EEPROM_SUCCESS, ?e0, sc'))"
    using resume RecordCreate_eq [OF inv idle new(2,1), of sc source n "Some h" data]
    by (simp add: r eepromStartTransaction_def createState_def)
  have no: "storeInv ?e0 rs \<and> eepromState ?e0 \<noteq> EEPROM_IDLE \<and> callbacks ?e0 = callbacks e \<and>
      (\<forall>k. runTask k ?e0 = Some ?e0)" if "?L + n + 2 \<le> memSize e" "memSize e < ?L + n + 4"
    using stuck_run [OF create_stuck [OF inv that]] inv by (simp add: storeInv_def)
  have yes: "\<exists>e'. runTask k ?e0 = Some e' \<and> storeInv e' (if k < 3 then rs else ?rs') \<and>
      (eepromState e' = EEPROM_IDLE \<longleftrightarrow> 4 \<le> k) \<and>
      callbacks e' = callbacks e @ (if 4 \<le> k then [(h, EEPROM_SUCCESS, data)] else []) \<and>
      (\<forall>t < 254. \<forall>off m. gmosDriverEepromRecordRead e' t off m = Some (
         if k < 4 then (EEPROM_NOT_READY, []) else case map_of ?rs' t of
             None \<Rightarrow> (EEPROM_NO_RECORD, [])
           | Some v \<Rightarrow> if off + m \<le> length v then (EEPROM_SUCCESS, take m (drop off v))
                       else (EEPROM_INVALID_LENGTH, [])))" if fit: "?L + n + 4 \<le> memSize e" for k
  proof -
    obtain ek c where k: "runTask k ?e0 = Some (ek k)" "memSize (ek k) = memSize e"
      "k < 3 \<Longrightarrow> storeInv (ek k) rs"
      "3 \<le> k \<Longrightarrow> baseAddress (ek k) = storeBytes rs @ recordHeader tag n @ initialValue source n @ eepromEndTag @ c"
      "length (storeBytes rs @ recordHeader tag n @ initialValue source n @ eepromEndTag @ c) = memSize e"
      "eepromState (ek k) = EEPROM_IDLE \<longleftrightarrow> 4 \<le> k"
      "callbacks (ek k) = callbacks e @ (if 4 \<le> k then [(h, EEPROM_SUCCESS, data)] else [])"
      by (rule create_run [OF inv src fit, where handler = "Some h" and data = data and tag = tag]) simp
    have late: "storeInv (ek k) ?rs'" if "3 \<le> k"
      by (rule created_record [OF inv new src k(4) [OF that]]) (simp_all only: k(2) k(4) [OF that] k(5))
    have "gmosDriverEepromRecordRead (ek k) t off m = Some (EEPROM_NOT_READY, [])" if "t < 254" "k < 4" for t off m
      using that k(6) RecordSearch_ok [of "ek k" "if k < 3 then rs else ?rs'" t] k(3) late
      by (simp add: gmosDriverEepromRecordRead_def)
    moreover have "gmosDriverEepromRecordRead (ek k) t off m = Some (case map_of ?rs' t of
             None \<Rightarrow> (EEPROM_NO_RECORD, [])
           | Some v \<Rightarrow> if off + m \<le> length v then (EEPROM_SUCCESS, take m (drop off v))
                       else (EEPROM_INVALID_LENGTH, []))" if "t < 254" "\<not> k < 4" for t off m
      using RecordRead_ok [of "ek k" ?rs' t] late k(6) that by simp
    ultimately show ?thesis using k late by (intro exI [of _ "ek k"]) auto
  qed
  show ?thesis using eq no yes by (simp add: not_less)
qed

text \<open>
  C22: A blocking write of a record returns and a later read of any part of any record gives back
  what the record list says: the new value of the record, and the old values of all others; the
  record list keeps its form and its order.
\<close>
theorem eeprom_write_read:
  assumes inv: "storeInv e rs" and idle: "eepromState e = EEPROM_IDLE" and tag: "map_of rs tag = Some v"
    and src: "sourceOk source (length v)"
  shows "\<exists>e'. gmosDriverEepromRecordWrite e sc tag source (length v) None data = Some (EEPROM_SUCCESS, e', sc) \<and>
    storeInv e' (updateRecord tag (initialValue source (length v)) rs) \<and>
    (\<forall>t off n. t < 254 \<longrightarrow> gmosDriverEepromRecordRead e' t off n = Some (
       case ((map_of rs)(tag \<mapsto> initialValue source (length v))) t of
         None \<Rightarrow> (EEPROM_NO_RECORD, [])
       | Some w \<Rightarrow> if off + n \<le> length w then (EEPROM_SUCCESS, take n (drop off w))
                   else (EEPROM_INVALID_LENGTH, [])))"
proof -
  let ?qs = "updateRecord tag (initialValue source (length v)) rs"
  obtain e' where e': "gmosDriverEepromRecordWrite e sc tag source (length v) None data = Some (EEPROM_SUCCESS, e', sc)"
    "storeInv e' ?qs" "eepromState e' = EEPROM_IDLE"
    using RecordWrite_ok [OF inv idle tag src, of sc data] by blast
  then show ?thesis
    using RecordRead_ok [OF e'(2,3)] by (intro exI [of _ e']) (simp add: map_of_updateRecord [OF tag])
qed

subsection \<open>A memory of sixteen bytes\<close>

definition eepromSample :: eeprom where
  "eepromSample = \<lparr>baseAddress = [0xFF, 0, 0, 0, 0, 0, 0, 0, 0, 0, 0, 0, 0, 0, 0, 0], memSize = 16,
     writeData = None, callbackHandler = None, callbackData = 0, workerTask = 0, writeOffset = 0,
     writeSize = 0, eepromState = EEPROM_IDLE, writeHeader = [], callbacks = []\<rparr>"

lemma eepromSample_init:
  "gmosPalEepromInit (replicate 16 0) 16 (eepromSample\<lparr>baseAddress := []\<rparr>) = Some eepromSample"
  by (simp add: gmosPalEepromInit_def eepromSample_def eepromEndTag_eq splice_def numeral_eq_Suc)

lemma eepromSample_inv:
  "storeInv eepromSample []" "eepromState eepromSample = EEPROM_IDLE" "memSize eepromSample = 16"
  "workerTask eepromSample = 0"
  by (auto simp: eepromSample_def storeInv_def memHolds_def validRecords_def eepromEndTag_eq)

definition eepromRecord :: eeprom where
  "eepromRecord = eepromSample\<lparr>baseAddress := [5, 2, 7, 9, 0xFF, 0, 0, 0, 0, 0, 0, 0, 0, 0, 0, 0]\<rparr>"

lemma eepromRecord_inv: "storeInv eepromRecord [(5, [7, 9])]" "eepromState eepromRecord = EEPROM_IDLE"
  by (auto simp: eepromRecord_def eepromSample_def storeInv_def memHolds_def validRecords_def eepromEndTag_eq
      recordBytes_def recordHeader_def eeprom_sizes)

text \<open>A value of three bytes is stored; one of twelve bytes lets the call run for ever.\<close>

theorem eeprom_create_witness:
  "(\<exists>e'. gmosDriverEepromRecordCreate eepromSample bootSched 5 (Some [1, 2, 3]) 3 None 0 =
      Some (EEPROM_SUCCESS, e', bootSched) \<and> storeInv e' [(5, [1, 2, 3])]) \<and>
   gmosDriverEepromRecordCreate eepromSample bootSched 5 None 13 None 0 = None"
  using eeprom_create [OF eepromSample_inv(1) _ refl, of "Some [1, 2, 3]" 3 5 bootSched 0]
    eeprom_create [OF eepromSample_inv(1) _ refl, of None 13 5 bootSched 0]
  by (auto simp: eepromSample_inv sourceOk_def initialValue_def)

theorem eeprom_write_read_witness:
  "\<exists>e'. gmosDriverEepromRecordWrite eepromRecord bootSched 5 (Some [1, 2]) 2 None 0 =
      Some (EEPROM_SUCCESS, e', bootSched) \<and>
    gmosDriverEepromRecordRead e' 5 1 1 = Some (EEPROM_SUCCESS, [2])"
  using eeprom_write_read [OF eepromRecord_inv, of 5 "[7, 9]" "Some [1, 2]" bootSched 0]
  by (auto simp: initialValue_def numeral_2_eq_2)

theorem eeprom_create_async_witness:
  "\<exists>e0 sc' e'. gmosDriverEepromRecordCreate eepromSample (setTaskState 0 TASK_STATE_READY bootSched) 5 None 3
      (Some 1) 9 = Some (EEPROM_SUCCESS, e0, sc') \<and>
    runTask 4 e0 = Some e' \<and> storeInv e' [(5, [0, 0, 0])] \<and> callbacks e' = [(1, EEPROM_SUCCESS, 9)]"
proof -
  have res: "gmosSchedulerTaskResume (workerTask eepromSample) (setTaskState 0 TASK_STATE_READY bootSched) =
      Some (setTaskState 0 TASK_STATE_READY bootSched)"
    by (simp add: gmosSchedulerTaskResume_def eepromSample_inv setTaskState_def)
  have cb: "callbacks eepromSample = []" by (simp add: eepromSample_def)
  from eeprom_create_async [OF eepromSample_inv(1,2) _ _ _ _ res refl, of None 3 5 1 9] obtain e0 where
    e0: "gmosDriverEepromRecordCreate eepromSample (setTaskState 0 TASK_STATE_READY bootSched) 5 None 3
      (Some 1) 9 = Some (EEPROM_SUCCESS, e0, setTaskState 0 TASK_STATE_READY bootSched)"
    "\<forall>k. \<exists>e'. runTask k e0 = Some e' \<and>
       storeInv e' (if k < 3 then [] else [] @ [(5, initialValue None 3)]) \<and>
       callbacks e' = callbacks eepromSample @ (if 4 \<le> k then [(1, EEPROM_SUCCESS, 9)] else [])"
    by (auto simp: eepromSample_inv sourceOk_def) blast
  from e0(2) [THEN spec, of 4] obtain e' where "runTask 4 e0 = Some e'" "storeInv e' [(5, [0, 0, 0])]"
    "callbacks e' = [(1, EEPROM_SUCCESS, 9)]"
    by (auto simp: initialValue_def numeral_3_eq_3 cb)
  with e0(1) show ?thesis by blast
qed

end
