(* ===== verification/Gmos_Rtc.thy ===== *)
theory Gmos_Rtc
  imports Gmos_Prelude
begin

text \<open>
  The calendar arithmetic of common/src/gmos-driver-rtc.c: BCD conversion, conversion between UTC
  seconds since 1 January 2000 and a local time structure, and its validation.

  Bytes are naturals below 256 and 32-bit values naturals with explicit wrap-around; the time zone
  is a signed number of quarter hours. Reading the month table outside of its bounds is a fault,
  the result \<open>None\<close>. A boolean result is paired with the structure the caller passed in.

  The specification is the calendar itself: \<open>nextDate\<close> gives the day after a date, \<open>dateOf n\<close>
  repeats it from 1 January 2000, and \<open>bcdTime\<close> is the structure that shows a date and a time.
\<close>

subsection \<open>Data\<close>

record rtcTime =
  year :: nat
  month :: nat
  dayOfMonth :: nat
  dayOfWeek :: nat
  hours :: nat
  minutes :: nat
  seconds :: nat
  timeZone :: int
  daylightSaving :: nat

definition monthLengths :: "nat list" where
  "monthLengths = [31, 28, 31, 30, 31, 30, 31, 31, 30, 31, 30, 31]"

definition tableEntry :: "nat list \<Rightarrow> nat \<Rightarrow> nat option" where
  "tableEntry table i = (if i < length table then Some (table ! i) else None)"

subsection \<open>BCD values\<close>

definition validateBcdValue :: "nat \<Rightarrow> bool" where
  "validateBcdValue bcd \<longleftrightarrow> and bcd 0x0F \<le> 0x09 \<and> and bcd 0xF0 \<le> 0x90"

definition gmosDriverRtcBcdToUint8 :: "nat \<Rightarrow> nat" where
  "gmosDriverRtcBcdToUint8 bcd = u8 (and bcd 0x0F + 10 * and (drop_bit 4 bcd) 0x0F)"

definition gmosDriverRtcBcdFromUint8 :: "nat \<Rightarrow> nat" where
  "gmosDriverRtcBcdFromUint8 n = u8 (or (push_bit 4 (n div 10)) (n mod 10))"

subsection \<open>Conversions\<close>

text \<open>The loop over the months before the given one, from the last to the first.\<close>

fun monthDaysLoop :: "bool \<Rightarrow> nat \<Rightarrow> nat \<Rightarrow> nat option" where
  "monthDaysLoop isLeapYear 0 monthDays = Some monthDays"
| "monthDaysLoop isLeapYear (Suc i) monthDays = do {
     monthLength \<leftarrow> tableEntry monthLengths i;
     let monthLength = (if isLeapYear \<and> Suc i = 2 then monthLength + 1 else monthLength);
     monthDaysLoop isLeapYear i (u32 (monthDays + monthLength)) }"

definition getElapsedDays :: "rtcTime \<Rightarrow> nat option" where
  "getElapsedDays rtc = do {
     let yearCount = gmosDriverRtcBcdToUint8 (year rtc);
     let yearDays = (yearCount div 4) * (366 + 3 * 365);
     let (yearDays, isLeapYear) =
       (if and yearCount 0x03 = 0 then (yearDays, True)
        else if and yearCount 0x03 = 1 then (yearDays + 366, False)
        else if and yearCount 0x03 = 2 then (yearDays + (366 + 365), False)
        else (yearDays + (366 + 2 * 365), False));
     let monthCount = gmosDriverRtcBcdToUint8 (month rtc);
     monthDays \<leftarrow> monthDaysLoop isLeapYear (sub32 monthCount 1) 0;
     Some (sub32 (u32 (yearDays + monthDays + gmosDriverRtcBcdToUint8 (dayOfMonth rtc))) 1) }"

fun yearLoop :: "nat \<Rightarrow> nat \<Rightarrow> nat \<times> nat" where
  "yearLoop yearDays yearCount =
     (if yearDays \<ge> 365 then yearLoop (yearDays - 365) (yearCount + 1) else (yearDays, yearCount))"

declare yearLoop.simps [simp del]

text \<open>The loop that finds the month; it returns the month and the days left.\<close>

function monthLoop :: "bool \<Rightarrow> nat \<Rightarrow> nat \<Rightarrow> nat \<times> nat" where
  "monthLoop isLeapYear monthCount monthDays =
     (if monthCount \<le> 12
      then (let monthLength = monthLengths ! (monthCount - 1);
                monthLength = (if isLeapYear \<and> monthCount = 2 then monthLength + 1 else monthLength)
            in if monthDays \<ge> monthLength
               then monthLoop isLeapYear (monthCount + 1) (monthDays - monthLength)
               else (monthCount, monthDays))
      else (monthCount, monthDays))"
  by pat_completeness auto
termination by (relation "measure (\<lambda>(_, monthCount, _). 13 - monthCount)") auto

declare monthLoop.simps [simp del]

definition gmosDriverRtcConvertFromUtcTime ::
    "rtcTime \<Rightarrow> nat \<Rightarrow> int \<Rightarrow> bool \<Rightarrow> bool \<times> rtcTime" where
  "gmosDriverRtcConvertFromUtcTime rtc utcTime tz daylight =
     (if tz < -48 \<or> tz > 56 then (False, rtc)
      else let localTime = nat ((int utcTime + tz * (15 * 60)) mod 4294967296);
               localTime = (if daylight then u32 (localTime + 60 * 60) else localTime);
               localDays = localTime div (24 * 60 * 60);
               localSeconds = localTime - localDays * (24 * 60 * 60);
               yearCount = localDays div (366 + 3 * 365);
               yearDays = localDays - yearCount * (366 + 3 * 365)
           in if yearCount \<ge> 25 then (False, rtc)
              else let (yearDays, yearCount, isLeapYear) =
                         (if yearDays < 366 then (yearDays, yearCount * 4, True)
                          else let (d, y) = yearLoop (yearDays - 366) (yearCount * 4 + 1) in (d, y, False));
                       (monthCount, monthDays) = monthLoop isLeapYear 1 yearDays;
                       timeHours = localSeconds div (60 * 60);
                       timeSeconds = localSeconds - timeHours * (60 * 60);
                       timeMinutes = timeSeconds div 60;
                       timeSeconds = timeSeconds - timeMinutes * 60
                   in (True, rtc\<lparr>year := gmosDriverRtcBcdFromUint8 (u8 yearCount),
                         month := gmosDriverRtcBcdFromUint8 (u8 monthCount),
                         dayOfMonth := gmosDriverRtcBcdFromUint8 (u8 (monthDays + 1)),
                         dayOfWeek := u8 (1 + (localDays + 5) mod 7),
                         hours := gmosDriverRtcBcdFromUint8 (u8 timeHours),
                         minutes := gmosDriverRtcBcdFromUint8 (u8 timeMinutes),
                         seconds := gmosDriverRtcBcdFromUint8 (u8 timeSeconds),
                         timeZone := tz, daylightSaving := (if daylight then 1 else 0)\<rparr>))"

text \<open>The result is the success flag and the UTC time, the old one on failure.\<close>

definition gmosDriverRtcConvertToUtcTime :: "rtcTime \<Rightarrow> nat \<Rightarrow> (bool \<times> nat) option" where
  "gmosDriverRtcConvertToUtcTime rtc utcTime = do {
     days \<leftarrow> getElapsedDays rtc;
     let localSeconds = u32 (days * (24 * 60 * 60));
     let localSeconds = u32 (localSeconds + 60 * 60 * gmosDriverRtcBcdToUint8 (hours rtc));
     let localSeconds = u32 (localSeconds + 60 * gmosDriverRtcBcdToUint8 (minutes rtc));
     let localSeconds = u32 (localSeconds + gmosDriverRtcBcdToUint8 (seconds rtc));
     let timeZoneAdjustment = timeZone rtc * (15 * 60);
     let timeZoneAdjustment = (if daylightSaving rtc \<noteq> 0 then timeZoneAdjustment + 60 * 60
                               else timeZoneAdjustment);
     Some (if timeZoneAdjustment > 0 \<and> timeZoneAdjustment > int localSeconds then (False, utcTime)
           else (True, nat ((int localSeconds - timeZoneAdjustment) mod 4294967296))) }"

definition gmosDriverRtcValidateRtcTime :: "rtcTime \<Rightarrow> (bool \<times> rtcTime) option" where
  "gmosDriverRtcValidateRtcTime rtc =
     (if \<not> validateBcdValue (year rtc) \<or> \<not> validateBcdValue (month rtc) \<or>
         \<not> validateBcdValue (dayOfMonth rtc) \<or> \<not> validateBcdValue (hours rtc) \<or>
         \<not> validateBcdValue (minutes rtc) \<or> \<not> validateBcdValue (seconds rtc)
      then Some (False, rtc)
      else let y = gmosDriverRtcBcdToUint8 (year rtc); m = gmosDriverRtcBcdToUint8 (month rtc);
               d = gmosDriverRtcBcdToUint8 (dayOfMonth rtc); h = gmosDriverRtcBcdToUint8 (hours rtc);
               mi = gmosDriverRtcBcdToUint8 (minutes rtc); s = gmosDriverRtcBcdToUint8 (seconds rtc)
           in if h \<ge> 24 \<or> mi \<ge> 60 \<or> s \<ge> 60 \<or> m < 1 \<or> m > 12 then Some (False, rtc)
              else do {
                monthLength \<leftarrow> tableEntry monthLengths (m - 1);
                let monthLength = (if and y 0x03 = 0 \<and> m = 2 then monthLength + 1 else monthLength);
                if d < 1 \<or> d > monthLength then Some (False, rtc)
                else do {
                  days \<leftarrow> getElapsedDays rtc;
                  Some (True, rtc\<lparr>dayOfWeek := u8 (1 + u32 (days + 5) mod 7)\<rparr>) } })"

subsection \<open>BCD arithmetic\<close>

definition toBcd :: "nat \<Rightarrow> nat" where
  "toBcd n = 16 * (n div 10) + n mod 10"

lemma and_15 [simp]: "and n 15 = n mod (16 :: nat)"
  using take_bit_eq_mask [of 4 n] by (simp add: take_bit_eq_mod mask_eq_exp_minus_1)

lemma and_3 [simp]: "and n 3 = n mod (4 :: nat)"
  using take_bit_eq_mask [of 2 n] by (simp add: take_bit_eq_mod mask_eq_exp_minus_1)

lemma or_low_nibble: "b < 16 \<Longrightarrow> or (push_bit 4 a) b = 16 * a + (b :: nat)"
proof -
  assume b: "b < 16"
  have "or (push_bit 4 a) (take_bit 4 b) = push_bit 4 a + take_bit 4 b"
    by (rule disjunctive_add [symmetric]) (auto simp: bit_push_bit_iff bit_take_bit_iff)
  then show ?thesis using b by (simp add: push_bit_eq_mult take_bit_eq_mod)
qed

lemma and_240: "n < 256 \<Longrightarrow> and n 240 = 16 * (n div 16 :: nat)"
proof -
  assume n: "n < 256"
  have "and n (push_bit 4 (mask 4)) = push_bit 4 (take_bit 4 (drop_bit 4 n))"
    by (rule bit_eqI) (auto simp: bit_simps)
  also have "\<dots> = 16 * (n div 16)"
    using n by (simp add: push_bit_eq_mult drop_bit_eq_div take_bit_eq_mod)
  finally show ?thesis by (simp add: push_bit_eq_mult mask_eq_exp_minus_1)
qed

lemma toBcd_eq: "toBcd n = n + 6 * (n div 10)"
  using div_mult_mod_eq [of n 10] by (simp add: toBcd_def)

lemma toBcd_mono: "m < n \<Longrightarrow> toBcd m < toBcd n"
  using div_le_mono [of m n 10] by (simp add: toBcd_eq)

lemma toBcd_less [simp]: "toBcd m < toBcd n \<longleftrightarrow> m < n"
  by (metis toBcd_mono less_asym linorder_neqE_nat less_irrefl)

lemma toBcd_le [simp]: "toBcd m \<le> toBcd n \<longleftrightarrow> m \<le> n"
  by (simp add: not_less [symmetric])

lemma toBcd_inject [simp]: "toBcd m = toBcd n \<longleftrightarrow> m = n"
  by (metis toBcd_less less_irrefl linorder_neqE_nat)

lemma toBcd_small: "n < 100 \<Longrightarrow> toBcd n < 154"
  using toBcd_le [of n 99] by (simp add: toBcd_eq [of 99])

lemma FromUint8_toBcd [simp]: "n < 100 \<Longrightarrow> gmosDriverRtcBcdFromUint8 n = toBcd n"
  using toBcd_small [of n] by (simp add: gmosDriverRtcBcdFromUint8_def or_low_nibble toBcd_def)

lemma ToUint8_toBcd [simp]: "n < 100 \<Longrightarrow> gmosDriverRtcBcdToUint8 (toBcd n) = n"
  by (simp add: gmosDriverRtcBcdToUint8_def toBcd_def drop_bit_eq_div)

lemma validateBcdValue_iff: "b < 256 \<Longrightarrow> validateBcdValue b \<longleftrightarrow> (\<exists>n < 100. b = toBcd n)"
proof
  assume b: "b < 256" and v: "validateBcdValue b"
  have "b mod 16 \<le> 9" "b div 16 \<le> 9" using v b by (auto simp: validateBcdValue_def and_240)
  then have "b = toBcd (10 * (b div 16) + b mod 16)" "10 * (b div 16) + b mod 16 < 100"
    using div_mult_mod_eq [of b 16] by (simp_all add: toBcd_def)
  then show "\<exists>n < 100. b = toBcd n" by blast
next
  assume "\<exists>n < 100. b = toBcd n"
  then obtain n where n: "n < 100" "b = toBcd n" by blast
  then show "validateBcdValue b"
    using toBcd_small [of n] by (simp add: validateBcdValue_def and_240 toBcd_def)
qed

subsection \<open>The calendar\<close>

text \<open>A date is a year counted from 2000, a month and a day, each of the last two from one.\<close>

type_synonym date = "nat \<times> nat \<times> nat"

definition isLeap :: "nat \<Rightarrow> bool" where
  "isLeap y \<longleftrightarrow> 4 dvd 2000 + y \<and> (\<not> 100 dvd 2000 + y \<or> 400 dvd 2000 + y)"

definition monthLen :: "nat \<Rightarrow> nat \<Rightarrow> nat" where
  "monthLen y m = (if m \<in> {4, 6, 9, 11} then 30 else if m = 2 then (if isLeap y then 29 else 28) else 31)"

fun nextDate :: "date \<Rightarrow> date" where
  "nextDate (y, m, d) =
     (if d < monthLen y m then (y, m, d + 1) else if m < 12 then (y, m + 1, 1) else (y + 1, 1, 1))"

definition dateOf :: "nat \<Rightarrow> date" where
  "dateOf n = (nextDate ^^ n) (0, 1, 1)"

fun validDate :: "date \<Rightarrow> bool" where
  "validDate (y, m, d) \<longleftrightarrow> y < 100 \<and> 1 \<le> m \<and> m \<le> 12 \<and> 1 \<le> d \<and> d \<le> monthLen y m"

text \<open>The day of the week \<open>n\<close> days after Saturday, day 6.\<close>

definition weekday :: "nat \<Rightarrow> nat" where
  "weekday n = ((\<lambda>w. if w = 7 then 1 else w + 1) ^^ n) 6"

definition daysBefore :: "nat \<Rightarrow> nat \<Rightarrow> nat" where
  "daysBefore y m = (\<Sum>i<m - 1. monthLen y (i + 1))"

fun dayNumber :: "date \<Rightarrow> nat" where
  "dayNumber (y, m, d) = 365 * y + (y + 3) div 4 + daysBefore y m + d - 1"

lemma isLeap_mod4:
  assumes "y < 100"
  shows "isLeap y \<longleftrightarrow> y mod 4 = 0"
proof -
  have d: "c dvd 2000 + y \<longleftrightarrow> c dvd y" if "c dvd 2000" for c
    by (rule dvd_add_right_iff [OF that])
  have "4 dvd 2000 + y \<longleftrightarrow> 4 dvd y" "100 dvd 2000 + y \<longleftrightarrow> 100 dvd y" "400 dvd 2000 + y \<longleftrightarrow> 400 dvd y"
    by (rule d; simp)+
  moreover have "100 dvd y \<longleftrightarrow> y = 0" using assms by (auto dest: dvd_imp_le)
  ultimately show ?thesis by (auto simp: isLeap_def)
qed

lemma month_cases:
  assumes "1 \<le> m" "m \<le> (12 :: nat)"
  obtains "m = 1" | "m = 2" | "m = 3" | "m = 4" | "m = 5" | "m = 6" | "m = 7" | "m = 8" | "m = 9"
    | "m = 10" | "m = 11" | "m = 12"
proof -
  have "m = 1 \<or> m = 2 \<or> m = 3 \<or> m = 4 \<or> m = 5 \<or> m = 6 \<or> m = 7 \<or> m = 8 \<or> m = 9 \<or> m = 10 \<or> m = 11 \<or> m = 12"
    using assms by presburger
  then show thesis using that by blast
qed

lemma tableEntry_month:
  assumes "i < 12"
  shows "tableEntry monthLengths i = Some (monthLengths ! i)"
    and "monthLengths ! i + (if isLeap y \<and> Suc i = 2 then 1 else 0) = monthLen y (Suc i)"
proof -
  show "tableEntry monthLengths i = Some (monthLengths ! i)"
    using assms by (simp add: tableEntry_def monthLengths_def)
  show "monthLengths ! i + (if isLeap y \<and> Suc i = 2 then 1 else 0) = monthLen y (Suc i)"
    by (rule month_cases [of "Suc i"]) (use assms in \<open>simp_all add: monthLengths_def monthLen_def\<close>)
qed

lemma monthLen_bounds: "28 \<le> monthLen y m" "monthLen y m \<le> 31"
  by (auto simp: monthLen_def)

lemma daysBefore_Suc: "1 \<le> m \<Longrightarrow> daysBefore y (Suc m) = daysBefore y m + monthLen y m"
  by (cases m) (simp_all add: daysBefore_def)

lemma daysBefore_1 [simp]: "daysBefore y (Suc 0) = 0"
  by (simp add: daysBefore_def)

lemma daysBefore_13: "daysBefore y 13 = (if isLeap y then 366 else 365)"
  by (simp add: daysBefore_def monthLen_def eval_nat_numeral)

lemma daysBefore_mono: "1 \<le> m \<Longrightarrow> m < n \<Longrightarrow> daysBefore y m + monthLen y m \<le> daysBefore y n"
proof (induction n)
  case (Suc n)
  then show ?case by (cases "m = n") (auto simp: daysBefore_Suc)
qed simp

lemma daysBefore_bound: "1 \<le> m \<Longrightarrow> m \<le> 12 \<Longrightarrow> daysBefore y m + monthLen y m \<le> (if isLeap y then 366 else 365)"
  using daysBefore_mono [of m 13 y] by (simp add: daysBefore_13)

lemma leap_step: "(Suc y + 3) div 4 = (y + 3) div 4 + (if y mod 4 = 0 then 1 else (0 :: nat))"
proof -
  have "Suc (y + 3) mod 4 = 0 \<longleftrightarrow> y mod 4 = 0" by (simp add: mod_Suc)
  then show ?thesis by (simp only: add_Suc div_Suc) simp
qed

lemma yearStart_Suc: "y < 100 \<Longrightarrow> 365 * Suc y + (Suc y + 3) div 4 = 365 * y + (y + 3) div 4 + (if isLeap y then 366 else 365)"
  unfolding leap_step by (simp add: isLeap_mod4)

lemma dayNumber_nextDate:
  assumes "validDate x" "dayNumber x < 36524"
  shows "validDate (nextDate x) \<and> dayNumber (nextDate x) = dayNumber x + 1"
proof -
  obtain y m d where x: "x = (y, m, d)" by (cases x)
  have v: "y < 100" "1 \<le> m" "m \<le> 12" "1 \<le> d" "d \<le> monthLen y m" using assms(1) x by auto
  consider "d < monthLen y m" | "d = monthLen y m" "m < 12" | "d = monthLen y m" "m = 12" using v by linarith
  then show ?thesis
  proof cases
    case 1
    then show ?thesis using v by (simp add: x)
  next
    case 2
    have "1 \<le> monthLen y (Suc m)" using monthLen_bounds(1) [of y "Suc m"] by linarith
    then show ?thesis using 2 v by (simp add: x daysBefore_Suc)
  next
    case 3
    have l: "daysBefore y 12 + monthLen y 12 = (if isLeap y then 366 else 365)"
      using daysBefore_Suc [of 12 y] by (simp add: daysBefore_13)
    have "y \<noteq> 99" using assms(2) l monthLen_bounds(1) [of y 12] 3 by (auto simp: x isLeap_mod4)
    then show ?thesis
      using v 3 l yearStart_Suc [of y] monthLen_bounds(1) [of "Suc y" 1] monthLen_bounds(1) [of y 12]
      by (simp add: x)
  qed
qed

lemma dateOf_Suc: "dateOf (Suc n) = nextDate (dateOf n)"
  by (simp add: dateOf_def)

lemma dateOf_valid: "n < 36525 \<Longrightarrow> validDate (dateOf n) \<and> dayNumber (dateOf n) = n"
proof (induction n)
  case 0
  then show ?case by (simp add: dateOf_def monthLen_def)
next
  case (Suc n)
  then show ?case using dayNumber_nextDate [of "dateOf n"] by (simp add: dateOf_Suc)
qed

lemma dayNumber_bounds:
  assumes "validDate (y, m, d)"
  shows "365 * y + (y + 3) div 4 + daysBefore y m \<le> dayNumber (y, m, d)"
    and "dayNumber (y, m, d) < 365 * y + (y + 3) div 4 + daysBefore y m + monthLen y m"
    and "dayNumber (y, m, d) < 365 * Suc y + (Suc y + 3) div 4"
    and "dayNumber (y, m, d) < 36525"
proof -
  show 1: "365 * y + (y + 3) div 4 + daysBefore y m \<le> dayNumber (y, m, d)"
    "dayNumber (y, m, d) < 365 * y + (y + 3) div 4 + daysBefore y m + monthLen y m"
    using assms by auto
  show 3: "dayNumber (y, m, d) < 365 * Suc y + (Suc y + 3) div 4"
    using 1(2) daysBefore_bound [of m y] yearStart_Suc [of y] assms by auto
  have "365 * Suc y + (Suc y + 3) div 4 \<le> 36525"
    using assms div_le_mono [of "Suc y + 3" 103 4] by simp
  with 3 show "dayNumber (y, m, d) < 36525" by linarith
qed

lemma yearStart_mono: "Suc y \<le> z \<Longrightarrow> 365 * Suc y + (Suc y + 3) div 4 \<le> 365 * z + (z + 3) div (4 :: nat)"
  by (rule add_mono) (simp_all add: div_le_mono)

lemma dayNumber_inj:
  assumes "validDate x" "validDate z" "dayNumber x = dayNumber z"
  shows "x = z"
proof -
  obtain y m d y' m' d' where x: "x = (y, m, d)" and z: "z = (y', m', d')" by (cases x; cases z)
  note b = dayNumber_bounds [OF assms(1) [unfolded x]] and b' = dayNumber_bounds [OF assms(2) [unfolded z]]
  note e = assms(3) [unfolded x z]
  have y: "y = y'"
  proof (rule ccontr)
    assume "y \<noteq> y'"
    then consider "Suc y \<le> y'" | "Suc y' \<le> y" by linarith
    then show False using b(1,3) b'(1,3) e yearStart_mono [of y y'] yearStart_mono [of y' y] by cases linarith+
  qed
  have v: "1 \<le> m" "1 \<le> m'" "1 \<le> d" "1 \<le> d'" using assms(1,2) x z by auto
  have m: "m = m'"
  proof (rule ccontr)
    assume "m \<noteq> m'"
    then consider "m < m'" | "m' < m" by linarith
    then show False
    proof cases
      case 1
      then show False using b(2) b'(1) [folded y] e [folded y] daysBefore_mono [OF v(1) 1, of y] by linarith
    next
      case 2
      then show False using b'(2) [folded y] b(1) e [folded y] daysBefore_mono [OF v(2) 2, of y] by linarith
    qed
  qed
  show ?thesis using e v y m by (simp add: x z)
qed

lemma dateOf_dayNumber: "validDate x \<Longrightarrow> dateOf (dayNumber x) = x"
  using dayNumber_inj dateOf_valid dayNumber_bounds(4) by (metis prod_cases3)

lemma weekday_eq: "weekday n = 1 + (n + 5) mod 7"
proof (induction n)
  case (Suc n)
  have "weekday (Suc n) = (if weekday n = 7 then 1 else weekday n + 1)" by (simp add: weekday_def)
  then show ?case using Suc mod_Suc [of "n + 5" 7] by auto
qed (simp add: weekday_def)

lemma u8_weekday [simp]: "u8 (weekday n) = weekday n"
  by (simp add: weekday_eq)

subsection \<open>The conversions\<close>

lemma monthDaysLoop_eq:
  "k \<le> 12 \<Longrightarrow> acc \<le> 31 * (12 - k) \<Longrightarrow> monthDaysLoop (isLeap y) k acc = Some (acc + daysBefore y (Suc k))"
proof (induction k arbitrary: acc)
  case (Suc k)
  note e = tableEntry_month [of k]
  let ?l = "monthLen y (Suc k)"
  have l: "?l \<le> 31" by (rule monthLen_bounds)
  have "acc + ?l \<le> 31 * (12 - k)" using l Suc.prems by (simp add: Suc_diff_le [symmetric])
  then have "monthDaysLoop (isLeap y) k (acc + ?l) = Some (acc + ?l + daysBefore y (Suc k))"
    using Suc.prems by (intro Suc.IH) simp_all
  moreover have "acc + ?l < 4294967296" using l Suc.prems by simp
  moreover have "(if isLeap y \<and> Suc k = 2 then monthLengths ! k + 1 else monthLengths ! k) = ?l"
    using e(2) [of y] Suc.prems by (auto split: if_splits)
  ultimately show ?case
    using e(1) Suc.prems by (simp add: Let_def daysBefore_Suc del: One_nat_def)
qed simp

lemma yearDays_cases:
  assumes "4 * (y div 4) + y mod 4 = (y :: nat)" "isLeap y \<longleftrightarrow> y mod 4 = 0"
  shows "(if and y 0x03 = 0 then (y div 4 * (366 + 3 * 365), True)
      else if and y 0x03 = 1 then (y div 4 * (366 + 3 * 365) + 366, False)
      else if and y 0x03 = 2 then (y div 4 * (366 + 3 * 365) + (366 + 365), False)
      else (y div 4 * (366 + 3 * 365) + (366 + 2 * 365), False)) = (365 * y + (y + 3) div 4, isLeap y)"
proof -
  obtain q r where qr: "q = y div 4" "r = y mod 4" by simp
  have y: "y = 4 * q + r" "r < 4" using assms(1) qr by simp_all
  have d: "(y + 3) div 4 = q + (r + 3) div 4" using y by simp
  consider "r = 0" | "r = 1" | "r = 2" | "r = 3" using y(2) by linarith
  then show ?thesis
    by cases (simp_all add: assms(2) d qr [symmetric], simp_all add: y(1))
qed

lemma getElapsedDays_date:
  assumes "validDate (y, m, d)" "year t = toBcd y" "month t = toBcd m" "dayOfMonth t = toBcd d"
  shows "getElapsedDays t = Some (dayNumber (y, m, d))"
proof -
  have v: "y < 100" "1 \<le> m" "m \<le> 12" "1 \<le> d" "d \<le> 31"
    using assms(1) monthLen_bounds(2) [of y m] by auto
  have loop: "monthDaysLoop (isLeap y) (m - 1) 0 = Some (daysBefore y m)"
    using monthDaysLoop_eq [of "m - 1" 0 y] v by simp
  have b: "daysBefore y m \<le> 366" using daysBefore_bound [of m y] v by (auto split: if_splits)
  have c: "y div 4 \<le> 25" using v(1) by simp
  have q: "(if and y 0x03 = 0 then (y div 4 * (366 + 3 * 365), True)
        else if and y 0x03 = 1 then (y div 4 * (366 + 3 * 365) + 366, False)
        else if and y 0x03 = 2 then (y div 4 * (366 + 3 * 365) + (366 + 365), False)
        else (y div 4 * (366 + 3 * 365) + (366 + 2 * 365), False)) = (365 * y + (y + 3) div 4, isLeap y)"
    by (rule yearDays_cases) (use isLeap_mod4 [OF v(1)] in simp_all)
  have s: "365 * y + (y + 3) div 4 \<le> 36525" using v(1) div_le_mono [of "y + 3" 102 4] by simp
  have f: "gmosDriverRtcBcdToUint8 (year t) = y" "gmosDriverRtcBcdToUint8 (month t) = m"
    "gmosDriverRtcBcdToUint8 (dayOfMonth t) = d" using v assms(2-4) by simp_all
  have "sub32 m 1 = m - 1" using v by simp
  moreover have "sub32 (u32 (365 * y + (y + 3) div 4 + daysBefore y m + d)) 1 = dayNumber (y, m, d)"
    using v b s by simp
  ultimately show ?thesis
    unfolding getElapsedDays_def f Let_def q prod.case by (simp only: loop Option.bind.simps)
qed

text \<open>What the time structure shows \<open>n\<close> seconds after the start of the year 2000, local time.\<close>

definition secondsPerDay :: nat where
  "secondsPerDay = 86400"

definition centurySeconds :: nat where
  "centurySeconds = 36525 * secondsPerDay"

definition showTime :: "nat \<Rightarrow> int \<Rightarrow> nat \<Rightarrow> rtcTime" where
  "showTime n tz daylight = (let (y, m, d) = dateOf (n div secondsPerDay); s = n mod secondsPerDay in
     \<lparr>year = toBcd y, month = toBcd m, dayOfMonth = toBcd d, dayOfWeek = weekday (n div secondsPerDay),
      hours = toBcd (s div 3600), minutes = toBcd (s mod 3600 div 60), seconds = toBcd (s mod 60),
      timeZone = tz, daylightSaving = daylight\<rparr>)"

definition zoneSeconds :: "int \<Rightarrow> bool \<Rightarrow> int" where
  "zoneSeconds tz daylight = tz * 900 + (if daylight then 3600 else 0)"

lemma yearLoop_eq: "yearLoop d y = (d mod 365, y + d div 365)"
proof (induction d y rule: yearLoop.induct)
  case (1 d y)
  show ?case
  proof (cases "365 \<le> d")
    case True
    then have "yearLoop d y = ((d - 365) mod 365, y + 1 + (d - 365) div 365)"
      using 1 by (subst yearLoop.simps) simp
    also have "\<dots> = (d mod 365, y + d div 365)" using True by (simp add: le_mod_geq le_div_geq)
    finally show ?thesis .
  next
    case False
    then show ?thesis by (subst yearLoop.simps) simp
  qed
qed

lemma monthLoop_eq:
  assumes "1 \<le> m" "m \<le> 12" "daysBefore y m + days < daysBefore y 13"
  shows "\<exists>m' d'. monthLoop (isLeap y) m days = (m', d') \<and> 1 \<le> m' \<and> m' \<le> 12 \<and> d' < monthLen y m' \<and>
    daysBefore y m' + d' = daysBefore y m + days"
  using assms
proof (induction "isLeap y" m days rule: monthLoop.induct)
  case (1 m days)
  obtain i where i: "m = Suc i" "i < 12" using 1(2,3) by (cases m) auto
  have l: "(if isLeap y \<and> m = 2 then monthLengths ! (m - 1) + 1 else monthLengths ! (m - 1)) = monthLen y m"
    using tableEntry_month(2) [OF i(2), of y] i(1) by (auto split: if_splits)
  have s: "monthLoop (isLeap y) m days =
      (if monthLen y m \<le> days then monthLoop (isLeap y) (m + 1) (days - monthLen y m) else (m, days))"
    using 1(3) by (subst monthLoop.simps) (simp only: Let_def l if_True)
  show ?case
  proof (cases "monthLen y m \<le> days")
    case True
    have "m < 12" using 1(3,4) True daysBefore_Suc [OF 1(2), of y] by (cases "m = 12") auto
    moreover have "daysBefore y (m + 1) + (days - monthLen y m) = daysBefore y m + days"
      using True daysBefore_Suc [OF 1(2), of y] by simp
    ultimately show ?thesis
      using 1(1) [OF 1(3) refl refl, unfolded l] True 1(2,4) s by simp
  next
    case False
    then show ?thesis using s 1(2,3) by simp
  qed
qed

text \<open>The year, the month and the day computed from a day number.\<close>

lemma convert_date:
  assumes "n < 36525"
  defines "c \<equiv> n div (366 + 3 * 365)" and "r \<equiv> n - n div (366 + 3 * 365) * (366 + 3 * 365)"
  shows "\<exists>yd y leap m d. (if r < 366 then (r, c * 4, True)
      else let (d, y) = yearLoop (r - 366) (c * 4 + 1) in (d, y, False)) = (yd, y, leap) \<and>
    monthLoop leap 1 yd = (m, d) \<and> dateOf n = (y, m, d + 1) \<and> y < 100 \<and> 1 \<le> m \<and> m \<le> 12 \<and> d < 31"
proof -
  have n: "n = 1461 * c + r" "r < 1461" unfolding r_def c_def by (simp_all add: minus_div_mult_eq_mod)
  then have c: "c < 25" using assms(1) by simp
  obtain y yd where y: "(if r < 366 then (r, c * 4, True)
      else let (d, y) = yearLoop (r - 366) (c * 4 + 1) in (d, y, False)) = (yd, y, isLeap y)"
    "y < 100" "yd < daysBefore y 13" "365 * y + (y + 3) div 4 + yd = n"
  proof (cases "r < 366")
    case True
    have "isLeap (c * 4)" "(c * 4 + 3) div 4 = c" using c by (simp_all add: isLeap_mod4)
    then show thesis
      by (intro that [of r "c * 4"]) (use True c n(1) in \<open>simp_all add: daysBefore_13\<close>)
  next
    case False
    define k where "k = (r - 366) div 365"
    have k: "r - 366 = 365 * k + (r - 366) mod 365" "k < 3" using n(2) by (simp_all add: k_def)
    let ?y = "c * 4 + 1 + k"
    have "?y mod 4 = 1 + k" using k(2) by (simp add: mod_Suc)
    then have nl: "\<not> isLeap ?y" "?y < 100" using c k(2) by (simp_all add: isLeap_mod4)
    have d: "(?y + 3) div 4 = c + 1" using k(2) by simp
    show thesis
      by (rule that [of "(r - 366) mod 365" ?y])
        (use False nl d k n in \<open>simp_all add: yearLoop_eq k_def [symmetric] daysBefore_13\<close>)
  qed
  obtain m d where m: "monthLoop (isLeap y) 1 yd = (m, d)" "1 \<le> m" "m \<le> 12" "d < monthLen y m" "daysBefore y m + d = yd"
    using monthLoop_eq [of 1 y yd] y(3) by auto
  have v: "validDate (y, m, d + 1)" using m y(2) by simp
  have "dayNumber (y, m, d + 1) = n" using m(5) y(4) by simp
  then have "dateOf n = (y, m, d + 1)" using dateOf_dayNumber [OF v] by simp
  then show ?thesis using y(1,2) m monthLen_bounds(2) [of y m] by (intro exI conjI) auto
qed

lemma centurySeconds_eq: "centurySeconds = 3155760000"
  by (simp add: centurySeconds_def secondsPerDay_def)

lemma showTime_fields:
  assumes "dateOf (n div 86400) = (y, m, d)"
  shows "showTime n tz daylight = \<lparr>year = toBcd y, month = toBcd m, dayOfMonth = toBcd d,
    dayOfWeek = weekday (n div 86400), hours = toBcd (n mod 86400 div 3600),
    minutes = toBcd (n mod 86400 mod 3600 div 60), seconds = toBcd (n mod 86400 mod 60),
    timeZone = tz, daylightSaving = daylight\<rparr>"
  using assms by (simp add: showTime_def secondsPerDay_def Let_def)

lemma time_of_day:
  assumes "s < (86400 :: nat)"
  shows "s div 3600 < 24" "s mod 3600 div 60 < 60" "s mod 60 < 60"
    "s div 3600 * 3600 + s mod 3600 div 60 * 60 + s mod 60 = s"
proof -
  have "s mod 3600 mod 60 = s mod 60" by (simp add: mod_mod_cancel)
  then show "s div 3600 * 3600 + s mod 3600 div 60 * 60 + s mod 60 = s"
    using div_mult_mod_eq [of s 3600] div_mult_mod_eq [of "s mod 3600" 60] by linarith
  have "s mod 3600 < 3600" by simp
  then show "s mod 3600 div 60 < 60" by simp
qed (use assms in simp_all)

lemma localTime_eq:
  "(if daylight then u32 (nat ((int utc + tz * (15 * 60)) mod 4294967296) + 60 * 60)
    else nat ((int utc + tz * (15 * 60)) mod 4294967296)) =
   nat ((int utc + zoneSeconds tz daylight) mod 4294967296)"
proof (cases daylight)
  case True
  let ?a = "int utc + tz * 900"
  have "int (u32 (nat (?a mod 4294967296) + 3600)) = (?a mod 4294967296 + 3600) mod 4294967296"
    by (simp add: u32_def zmod_int)
  also have "\<dots> = (?a + 3600) mod 4294967296" by (simp add: mod_simps)
  finally show ?thesis using True by (simp add: zoneSeconds_def add.assoc [symmetric])
qed (simp add: zoneSeconds_def)

lemma FromUtc_day:
  fixes n :: nat
  assumes n: "n < centurySeconds" and tz: "-48 \<le> tz" "tz \<le> 56"
    and l: "nat ((int utc + zoneSeconds tz daylight) mod 4294967296) = n"
  shows "gmosDriverRtcConvertFromUtcTime rtc utc tz daylight =
    (True, showTime n tz (if daylight then 1 else 0))"
proof -
  let ?D = "n div (24 * 60 * 60)" and ?s = "n mod 86400"
  have D: "?D < 36525" "?D = n div 86400" using n by (simp_all add: centurySeconds_eq)
  obtain yd y leap m d where c:
    "(if ?D - ?D div (366 + 3 * 365) * (366 + 3 * 365) < 366
      then (?D - ?D div (366 + 3 * 365) * (366 + 3 * 365), ?D div (366 + 3 * 365) * 4, True)
      else let (d, y) = yearLoop (?D - ?D div (366 + 3 * 365) * (366 + 3 * 365) - 366)
              (?D div (366 + 3 * 365) * 4 + 1) in (d, y, False)) = (yd, y, leap)"
    "monthLoop leap 1 yd = (m, d)" "dateOf ?D = (y, m, d + 1)" "y < 100" "1 \<le> m" "m \<le> 12" "d < 31"
    using convert_date [OF D(1)] by blast
  have y25: "\<not> 25 \<le> ?D div (366 + 3 * 365)" using D(1) by simp
  have s: "n - ?D * (24 * 60 * 60) = ?s" by (simp add: minus_div_mult_eq_mod)
  have t: "?s - ?s div (60 * 60) * (60 * 60) = ?s mod 3600"
    "?s mod 3600 - ?s mod 3600 div 60 * 60 = ?s mod 60"
    by (simp_all add: minus_div_mult_eq_mod mod_mod_cancel)
  have tod: "?s div 3600 < 24" "?s mod 3600 div 60 < 60" "?s mod 60 < 60"
    using time_of_day [of ?s] by simp_all
  have w: "u8 (1 + (?D + 5) mod 7) = weekday ?D"
    by (simp add: weekday_eq)
  have "gmosDriverRtcConvertFromUtcTime rtc utc tz daylight =
    (True, rtc\<lparr>year := gmosDriverRtcBcdFromUint8 (u8 y), month := gmosDriverRtcBcdFromUint8 (u8 m),
       dayOfMonth := gmosDriverRtcBcdFromUint8 (u8 (d + 1)), dayOfWeek := u8 (1 + (?D + 5) mod 7),
       hours := gmosDriverRtcBcdFromUint8 (u8 (?s div (60 * 60))),
       minutes := gmosDriverRtcBcdFromUint8 (u8 (?s mod 3600 div 60)),
       seconds := gmosDriverRtcBcdFromUint8 (u8 (?s mod 60)),
       timeZone := tz, daylightSaving := (if daylight then 1 else 0)\<rparr>)"
    unfolding gmosDriverRtcConvertFromUtcTime_def localTime_eq l Let_def s t
    using tz y25 by (simp only: c(1,2) [unfolded Let_def] prod.case if_False not_less) simp
  also have "\<dots> = (True, showTime n tz (if daylight then 1 else 0))"
    using c(3-7) D(2) w tod(1,2) order_less_trans [OF tod(3), of 100]
    by (cases rtc) (simp add: showTime_fields)
  finally show ?thesis .
qed

lemma zone_bounds:
  "-48 \<le> tz \<Longrightarrow> tz \<le> 56 \<Longrightarrow> -43200 \<le> zoneSeconds tz daylight \<and> zoneSeconds tz daylight \<le> 54000"
  by (simp add: zoneSeconds_def)

lemma FromUtc_eq:
  assumes small: "int utc + zoneSeconds tz daylight < 4294967296"
  shows "gmosDriverRtcConvertFromUtcTime rtc utc tz daylight =
    (if -48 \<le> tz \<and> tz \<le> 56 \<and> 0 \<le> int utc + zoneSeconds tz daylight \<and>
        int utc + zoneSeconds tz daylight < int centurySeconds
     then (True, showTime (nat (int utc + zoneSeconds tz daylight)) tz (if daylight then 1 else 0))
     else (False, rtc))"
proof (cases "-48 \<le> tz \<and> tz \<le> 56")
  case False
  then have "tz < -48 \<or> tz > 56" by linarith
  then show ?thesis
    using False unfolding gmosDriverRtcConvertFromUtcTime_def
    by (simp only: if_True) (subst if_not_P, blast, rule refl)
next
  case True
  let ?local = "int utc + zoneSeconds tz daylight"
  define n where "n = nat (?local mod 4294967296)"
  have z: "-43200 \<le> zoneSeconds tz daylight" using zone_bounds True by blast
  have eq: "n = nat ?local" if "0 \<le> ?local"
    unfolding n_def using mod_pos_pos_trivial [OF that small] by (rule arg_cong)
  have neg: "n \<ge> 4294967296 - 43200" if "?local < 0"
  proof -
    have "?local mod 4294967296 = (?local + 4294967296) mod 4294967296" by (rule mod_add_self2 [symmetric])
    also have "\<dots> = ?local + 4294967296" using that z by (intro mod_pos_pos_trivial) simp_all
    finally show ?thesis using z unfolding n_def by linarith
  qed
  show ?thesis
  proof (cases "n < centurySeconds")
    case small_n: True
    then have "0 \<le> ?local" using neg by (force simp: centurySeconds_eq)
    moreover have "gmosDriverRtcConvertFromUtcTime rtc utc tz daylight =
        (True, showTime n tz (if daylight then 1 else 0))"
      using FromUtc_day [OF small_n _ _ n_def [symmetric]] True by blast
    ultimately show ?thesis using True eq small_n by auto
  next
    case False
    then have "25 \<le> n div (24 * 60 * 60) div (366 + 3 * 365)"
      using div_le_mono [of centurySeconds n 126230400]
      by (simp add: centurySeconds_eq div_mult2_eq [symmetric])
    then have "gmosDriverRtcConvertFromUtcTime rtc utc tz daylight = (False, rtc)"
      unfolding gmosDriverRtcConvertFromUtcTime_def localTime_eq n_def [symmetric] Let_def
      by (simp only: if_True if_cancel)
    then show ?thesis using False eq by auto
  qed
qed

lemma FromUtc_no_zone:
  "\<not> (-48 \<le> tz \<and> tz \<le> 56) \<Longrightarrow> gmosDriverRtcConvertFromUtcTime rtc utc tz daylight = (False, rtc)"
  unfolding gmosDriverRtcConvertFromUtcTime_def by (subst if_P) auto

text \<open>
  The local time as the code computes it, in 32 bits: a UTC time close to the end of the range is
  accepted in a zone east of Greenwich and shown as one of the year 2000.
\<close>

definition wrappedLocal :: "nat \<Rightarrow> int \<Rightarrow> int" where
  "wrappedLocal utc z = (if 4294967296 \<le> int utc + z then int utc + z - 4294967296 else int utc + z)"

lemma FromUtc_any:
  assumes "utc < 4294967296"
  shows "gmosDriverRtcConvertFromUtcTime rtc utc tz daylight =
    (if -48 \<le> tz \<and> tz \<le> 56 \<and> 0 \<le> wrappedLocal utc (zoneSeconds tz daylight) \<and>
        wrappedLocal utc (zoneSeconds tz daylight) < int centurySeconds
     then (True, showTime (nat (wrappedLocal utc (zoneSeconds tz daylight))) tz (if daylight then 1 else 0))
     else (False, rtc))"
proof (cases "int utc + zoneSeconds tz daylight < 4294967296")
  case True
  then have "wrappedLocal utc (zoneSeconds tz daylight) = int utc + zoneSeconds tz daylight"
    by (simp add: wrappedLocal_def)
  then show ?thesis using FromUtc_eq [OF True] by simp
next
  case False
  let ?l = "int utc + zoneSeconds tz daylight"
  show ?thesis
  proof (cases "-48 \<le> tz \<and> tz \<le> 56")
    case tz: True
    have w: "wrappedLocal utc (zoneSeconds tz daylight) = ?l - 4294967296"
      using False by (simp add: wrappedLocal_def)
    have b: "0 \<le> ?l - 4294967296" "?l - 4294967296 < 54000"
      using False assms tz zone_bounds [of tz daylight] by auto
    have "?l mod 4294967296 = (?l - 4294967296 + 4294967296) mod 4294967296" by simp
    also have "\<dots> = (?l - 4294967296) mod 4294967296" by (rule mod_add_self2)
    also have "\<dots> = ?l - 4294967296" using b by (intro mod_pos_pos_trivial) linarith+
    finally have "nat (?l mod 4294967296) = nat (?l - 4294967296)" by simp
    moreover have "nat (?l - 4294967296) < centurySeconds" "?l - 4294967296 < int centurySeconds"
      using b by (auto simp: centurySeconds_eq)
    ultimately show ?thesis using FromUtc_day [of "nat (?l - 4294967296)" tz utc daylight rtc] tz b(1) w by simp
  next
    case False
    then show ?thesis using FromUtc_no_zone by auto
  qed
qed

lemma ToUtc_showTime:
  assumes n: "n < centurySeconds"
  shows "gmosDriverRtcConvertToUtcTime (showTime n tz daylight) utc0 =
    Some (if int n < zoneSeconds tz (daylight \<noteq> 0) then (False, utc0)
          else (True, nat ((int n - zoneSeconds tz (daylight \<noteq> 0)) mod 4294967296)))"
proof -
  let ?D = "n div 86400" and ?s = "n mod 86400"
  obtain y m d where x: "dateOf ?D = (y, m, d)" by (cases "dateOf ?D")
  have D: "?D < 36525" using n by (simp add: centurySeconds_eq)
  have v: "validDate (y, m, d)" "dayNumber (y, m, d) = ?D" using dateOf_valid [OF D] x by simp_all
  note f = showTime_fields [OF x, of tz daylight]
  have e: "getElapsedDays (showTime n tz daylight) = Some ?D"
    using getElapsedDays_date [OF v(1)] v(2) by (simp add: f)
  have tod: "?s div 3600 < 24" "?s mod 3600 div 60 < 60" "?s mod 60 < 60"
    "?s div 3600 * 3600 + ?s mod 3600 div 60 * 60 + ?s mod 60 = ?s"
    using time_of_day [of ?s] by simp_all
  have g: "gmosDriverRtcBcdToUint8 (hours (showTime n tz daylight)) = ?s div 3600"
    "gmosDriverRtcBcdToUint8 (minutes (showTime n tz daylight)) = ?s mod 3600 div 60"
    "gmosDriverRtcBcdToUint8 (seconds (showTime n tz daylight)) = ?s mod 60"
    "timeZone (showTime n tz daylight) = tz" "daylightSaving (showTime n tz daylight) = daylight"
    using tod(1,2) order_less_trans [OF tod(3), of 100] by (simp_all add: f)
  have "?D * 86400 + 3600 * (?s div 3600) + 60 * (?s mod 3600 div 60) + ?s mod 60 = n"
    using tod(4) div_mult_mod_eq [of n 86400] by linarith
  moreover have "n < 4294967296" using n by (simp add: centurySeconds_eq)
  ultimately have l: "u32 (u32 (u32 (u32 (?D * (24 * 60 * 60)) + 60 * 60 * (?s div 3600)) +
      60 * (?s mod 3600 div 60)) + ?s mod 60) = n" by simp
  have z: "(if daylight \<noteq> 0 then tz * (15 * 60) + 60 * 60 else tz * (15 * 60)) = zoneSeconds tz (daylight \<noteq> 0)"
    by (simp add: zoneSeconds_def)
  have c: "zoneSeconds tz (daylight \<noteq> 0) > 0 \<and> zoneSeconds tz (daylight \<noteq> 0) > int n \<longleftrightarrow>
      int n < zoneSeconds tz (daylight \<noteq> 0)" by linarith
  show ?thesis
    unfolding gmosDriverRtcConvertToUtcTime_def e Option.bind.simps g Let_def l z c ..
qed

text \<open>A structure whose six date and time fields show a date and a time of day is the one shown.\<close>

lemma showTime_of_fields:
  assumes v: "validDate (y, m, d)" and t: "h < 24" "mi < 60" "s < 60"
  defines "n \<equiv> dayNumber (y, m, d) * 86400 + h * 3600 + mi * 60 + s"
  shows "n < centurySeconds" "showTime n tz daylight =
    \<lparr>year = toBcd y, month = toBcd m, dayOfMonth = toBcd d, dayOfWeek = weekday (dayNumber (y, m, d)),
     hours = toBcd h, minutes = toBcd mi, seconds = toBcd s, timeZone = tz, daylightSaving = daylight\<rparr>"
proof -
  let ?D = "dayNumber (y, m, d)" and ?r = "h * 3600 + mi * 60 + s"
  have D: "?D < 36525" using dayNumber_bounds(4) [OF v] .
  have r: "?r < 86400" using t by linarith
  have n: "n = ?r + ?D * 86400" by (simp add: n_def)
  have dm: "n div 86400 = ?D" "n mod 86400 = ?r"
    unfolding n using r by simp_all
  have q: "mi * 60 + s < 3600" using t by linarith
  have "?r = (mi * 60 + s) + h * 3600" by simp
  then have h: "?r div 3600 = h" "?r mod 3600 = mi * 60 + s" using q by (metis div_mult_self3 mod_mult_self3
        add.commute div_less mod_less add_cancel_right_left zero_neq_numeral)+
  have m: "(mi * 60 + s) div 60 = mi" "?r mod 60 = s"
    using t(3) by (simp_all add: mod_add_eq [symmetric] mod_mult_eq [symmetric])
  show "n < centurySeconds" using D r by (simp add: n centurySeconds_eq)
  show "showTime n tz daylight =
    \<lparr>year = toBcd y, month = toBcd m, dayOfMonth = toBcd d, dayOfWeek = weekday ?D,
     hours = toBcd h, minutes = toBcd mi, seconds = toBcd s, timeZone = tz, daylightSaving = daylight\<rparr>"
    using showTime_fields [of n y m d tz daylight] dateOf_dayNumber [OF v] by (simp only: dm h m)
qed

subsection \<open>Validation\<close>

lemma validate_fields:
  assumes "year t = toBcd y" "month t = toBcd m" "dayOfMonth t = toBcd d"
    and "hours t = toBcd h" "minutes t = toBcd mi" "seconds t = toBcd s"
    and b: "y < 100" "m < 100" "d < 100" "h < 100" "mi < 100" "s < 100"
  shows "gmosDriverRtcValidateRtcTime t =
    Some (if validDate (y, m, d) \<and> h < 24 \<and> mi < 60 \<and> s < 60
          then (True, t\<lparr>dayOfWeek := weekday (dayNumber (y, m, d))\<rparr>) else (False, t))"
proof -
  have v: "validateBcdValue (toBcd k)" if "k < 100" for k
    using validateBcdValue_iff [of "toBcd k"] toBcd_small [OF that] that by auto
  note f = assms(1-6) v ToUint8_toBcd
  have l: "(if and y 0x03 = 0 \<and> m = 2 then monthLengths ! (m - 1) + 1 else monthLengths ! (m - 1)) = monthLen y m"
    if "1 \<le> m" "m \<le> 12"
    using tableEntry_month(2) [of "m - 1" y] that b(1) by (auto simp: isLeap_mod4 split: if_splits)
  show ?thesis
  proof (cases "h < 24 \<and> mi < 60 \<and> s < 60 \<and> 1 \<le> m \<and> m \<le> 12")
    case False
    then show ?thesis
      using b by (auto simp: gmosDriverRtcValidateRtcTime_def f)
  next
    case True
    then have te: "tableEntry monthLengths (m - 1) = Some (monthLengths ! (m - 1))"
      by (intro tableEntry_month(1)) linarith
    have guard: "\<not> (h \<ge> 24 \<or> mi \<ge> 60 \<or> s \<ge> 60 \<or> m < 1 \<or> m > 12)" using True by auto
    have e: "getElapsedDays t = Some (dayNumber (y, m, d))" if "validDate (y, m, d)"
      using getElapsedDays_date [OF that] f by simp
    have w: "u8 (1 + u32 (dayNumber (y, m, d) + 5) mod 7) = weekday (dayNumber (y, m, d))"
      if "validDate (y, m, d)"
      using dayNumber_bounds(4) [OF that] by (simp add: weekday_eq)
    have d: "validDate (y, m, d) \<longleftrightarrow> \<not> (d < 1 \<or> d > monthLen y m)" using True b by auto
    have "gmosDriverRtcValidateRtcTime t = (if d < 1 \<or> d > monthLen y m then Some (False, t)
        else do { days \<leftarrow> getElapsedDays t; Some (True, t\<lparr>dayOfWeek := u8 (1 + u32 (days + 5) mod 7)\<rparr>) })"
      unfolding gmosDriverRtcValidateRtcTime_def Let_def f(1-6)
      by (simp only: v b ToUint8_toBcd guard te l True Option.bind.simps simp_thms if_False if_True)
    also have "\<dots> = Some (if validDate (y, m, d) then (True, t\<lparr>dayOfWeek := weekday (dayNumber (y, m, d))\<rparr>)
        else (False, t))"
      using e w d by (simp del: dayNumber.simps validDate.simps)
    finally show ?thesis using True by simp
  qed
qed

lemma validate_shown:
  assumes "n < centurySeconds" "t\<lparr>dayOfWeek := 0\<rparr> = (showTime n tz daylight)\<lparr>dayOfWeek := 0\<rparr>"
  shows "gmosDriverRtcValidateRtcTime t = Some (True, showTime n tz daylight)"
proof -
  let ?D = "n div 86400" and ?s = "n mod 86400"
  obtain y m d where x: "dateOf ?D = (y, m, d)" by (cases "dateOf ?D")
  have D: "?D < 36525" using assms(1) by (simp add: centurySeconds_eq)
  have v: "validDate (y, m, d)" "dayNumber (y, m, d) = ?D" using dateOf_valid [OF D] x by simp_all
  have b: "y < 100" "m < 100" "d < 100" using v(1) monthLen_bounds(2) [of y m] by simp_all
  have tod: "?s div 3600 < 24" "?s mod 3600 div 60 < 60" "?s mod 60 < 60"
    using time_of_day [of ?s] by simp_all
  have f: "year t = toBcd y" "month t = toBcd m" "dayOfMonth t = toBcd d" "hours t = toBcd (?s div 3600)"
    "minutes t = toBcd (?s mod 3600 div 60)" "seconds t = toBcd (?s mod 60)" "timeZone t = tz"
    "daylightSaving t = daylight"
    using assms(2) by (cases t; simp add: showTime_fields [OF x])+
  have "gmosDriverRtcValidateRtcTime t = Some (True, t\<lparr>dayOfWeek := weekday ?D\<rparr>)"
    using validate_fields [OF f(1-6) b _ _ _] v tod
    by (simp del: dayNumber.simps validDate.simps)
  moreover have "t\<lparr>dayOfWeek := weekday ?D\<rparr> = showTime n tz daylight"
    using f by (cases t) (simp add: showTime_fields [OF x])
  ultimately show ?thesis by simp
qed

definition rtcBytes :: "rtcTime \<Rightarrow> bool" where
  "rtcBytes t \<longleftrightarrow> year t < 256 \<and> month t < 256 \<and> dayOfMonth t < 256 \<and> hours t < 256 \<and>
     minutes t < 256 \<and> seconds t < 256"

lemma validate_cases:
  assumes "rtcBytes t"
  shows "gmosDriverRtcValidateRtcTime t = Some (False, t) \<or>
    (\<exists>n < centurySeconds. t\<lparr>dayOfWeek := 0\<rparr> = (showTime n (timeZone t) (daylightSaving t))\<lparr>dayOfWeek := 0\<rparr>)"
proof (cases "validateBcdValue (year t) \<and> validateBcdValue (month t) \<and> validateBcdValue (dayOfMonth t) \<and>
    validateBcdValue (hours t) \<and> validateBcdValue (minutes t) \<and> validateBcdValue (seconds t)")
  case False
  then show ?thesis by (auto simp: gmosDriverRtcValidateRtcTime_def)
next
  case True
  then obtain y m d h mi s where f: "year t = toBcd y" "month t = toBcd m" "dayOfMonth t = toBcd d"
    "hours t = toBcd h" "minutes t = toBcd mi" "seconds t = toBcd s"
    and b: "y < 100" "m < 100" "d < 100" "h < 100" "mi < 100" "s < 100"
    using assms by (auto simp: rtcBytes_def validateBcdValue_iff)
  show ?thesis
  proof (cases "validDate (y, m, d) \<and> h < 24 \<and> mi < 60 \<and> s < 60")
    case False
    then show ?thesis using validate_fields [OF f b] by auto
  next
    case True
    note n = showTime_of_fields(1) [of y m d h mi s]
      showTime_of_fields(2) [of y m d h mi s, where tz = "timeZone t" and daylight = "daylightSaving t"]
    have "t\<lparr>dayOfWeek := 0\<rparr> = (showTime (dayNumber (y, m, d) * 86400 + h * 3600 + mi * 60 + s)
        (timeZone t) (daylightSaving t))\<lparr>dayOfWeek := 0\<rparr>"
      using n True f by (cases t) (simp del: dayNumber.simps validDate.simps)
    then show ?thesis using n(1) True by blast
  qed
qed

subsection \<open>Properties\<close>

text \<open>
  C23: Converting a UTC time, for any 32-bit value: when the time zone is one of those that exist and
  the local time falls into the years 2000 to 2099 the conversion succeeds, the result shows the date
  the calendar reaches by counting days from 1 January 2000, its day of the week and the time of day,
  it passes validation, and the conversion back returns the UTC time. Every other time and zone is
  refused, with one exception: a local time of \<open>2 ^ 32\<close> or more, in the year 2136, wraps around and is
  converted as one of the first hours of the year 2000, which the conversion back then refuses.
\<close>

theorem rtc_from_utc:
  assumes utc: "utc < 4294967296"
  shows "let local = int utc + zoneSeconds tz daylight; dst = (if daylight then 1 else 0) in
    if -48 \<le> tz \<and> tz \<le> 56 \<and> 0 \<le> local \<and> local < int centurySeconds
    then let t = showTime (nat local) tz dst in
      gmosDriverRtcConvertFromUtcTime rtc utc tz daylight = (True, t) \<and>
      gmosDriverRtcValidateRtcTime t = Some (True, t) \<and>
      gmosDriverRtcConvertToUtcTime t utc0 = Some (True, utc)
    else if -48 \<le> tz \<and> tz \<le> 56 \<and> 4294967296 \<le> local
    then let t = showTime (nat (local - 4294967296)) tz dst in
      gmosDriverRtcConvertFromUtcTime rtc utc tz daylight = (True, t) \<and>
      gmosDriverRtcConvertToUtcTime t utc0 = Some (False, utc0)
    else gmosDriverRtcConvertFromUtcTime rtc utc tz daylight = (False, rtc)"
proof -
  let ?z = "zoneSeconds tz daylight" and ?dst = "if daylight then 1 else 0 :: nat"
  let ?l = "int utc + ?z"
  have dst: "zoneSeconds tz (?dst \<noteq> 0) = ?z" by simp
  show ?thesis
  proof (cases "-48 \<le> tz \<and> tz \<le> 56")
    case tz: True
    consider "0 \<le> ?l" "?l < int centurySeconds" | "4294967296 \<le> ?l"
      | "\<not> (0 \<le> ?l \<and> ?l < int centurySeconds)" "?l < 4294967296" by linarith
    then show ?thesis
    proof cases
      case 1
      then have w: "wrappedLocal utc ?z = ?l" by (simp add: wrappedLocal_def centurySeconds_eq)
      have n: "nat ?l < centurySeconds" using 1 by linarith
      have "gmosDriverRtcConvertToUtcTime (showTime (nat ?l) tz ?dst) utc0 = Some (True, utc)"
        using ToUtc_showTime [OF n, of tz ?dst utc0] 1 utc unfolding dst by simp
      moreover have "gmosDriverRtcValidateRtcTime (showTime (nat ?l) tz ?dst) = Some (True, showTime (nat ?l) tz ?dst)"
        by (rule validate_shown [OF n]) simp
      ultimately show ?thesis using FromUtc_any [OF utc, of rtc tz daylight] 1 tz w by (simp add: Let_def)
    next
      case 2
      then have w: "wrappedLocal utc ?z = ?l - 4294967296" by (simp add: wrappedLocal_def)
      have b: "0 \<le> ?l - 4294967296" "?l - 4294967296 < ?z" "?l - 4294967296 < int centurySeconds"
        "\<not> ?l < int centurySeconds"
        using 2 utc tz zone_bounds [of tz daylight] by (auto simp: centurySeconds_eq)
      have n: "nat (?l - 4294967296) < centurySeconds" using b by linarith
      have "gmosDriverRtcConvertToUtcTime (showTime (nat (?l - 4294967296)) tz ?dst) utc0 = Some (False, utc0)"
        using ToUtc_showTime [OF n, of tz ?dst utc0] b unfolding dst by simp
      then show ?thesis using FromUtc_any [OF utc, of rtc tz daylight] 2 tz w b by (simp add: Let_def)
    next
      case 3
      then have "wrappedLocal utc ?z = ?l" by (simp add: wrappedLocal_def)
      then show ?thesis using FromUtc_any [OF utc, of rtc tz daylight] 3 tz by (auto simp: Let_def)
    qed
  next
    case False
    then show ?thesis using FromUtc_no_zone [OF False] by (auto simp: Let_def)
  qed
qed

text \<open>
  C24: Validation never reads outside of the month table; it accepts a structure exactly when its
  fields show a date and a time that exist in the years 2000 to 2099, and corrects the day of the
  week. A validated time of an existing time zone whose conversion to UTC succeeds is what
  converting that UTC time back shows.
\<close>

theorem rtc_validate:
  assumes bytes: "rtcBytes t"
  shows "\<exists>ok t'. gmosDriverRtcValidateRtcTime t = Some (ok, t') \<and>
    (if ok then \<exists>n < centurySeconds. t' = showTime n (timeZone t) (daylightSaving t) \<and>
         t\<lparr>dayOfWeek := 0\<rparr> = t'\<lparr>dayOfWeek := 0\<rparr>
     else t' = t \<and> (\<forall>n < centurySeconds.
         t\<lparr>dayOfWeek := 0\<rparr> \<noteq> (showTime n (timeZone t) (daylightSaving t))\<lparr>dayOfWeek := 0\<rparr>)) \<and>
    (\<forall>utc utc0 rtc. ok \<and> gmosDriverRtcConvertToUtcTime t' utc0 = Some (True, utc) \<and>
       -48 \<le> timeZone t \<and> timeZone t \<le> 56 \<and> daylightSaving t \<le> 1 \<longrightarrow>
       gmosDriverRtcConvertFromUtcTime rtc utc (timeZone t) (daylightSaving t = 1) = (True, t'))"
proof (cases "\<exists>n < centurySeconds.
       t\<lparr>dayOfWeek := 0\<rparr> = (showTime n (timeZone t) (daylightSaving t))\<lparr>dayOfWeek := 0\<rparr>")
  case False
  then have v: "gmosDriverRtcValidateRtcTime t = Some (False, t)" using validate_cases [OF bytes] by blast
  show ?thesis by (rule exI [of _ False], rule exI [of _ t]) (use v False in simp)
next
  case True
  then obtain n where n: "n < centurySeconds"
    "t\<lparr>dayOfWeek := 0\<rparr> = (showTime n (timeZone t) (daylightSaving t))\<lparr>dayOfWeek := 0\<rparr>" by blast
  let ?z = "zoneSeconds (timeZone t) (daylightSaving t \<noteq> 0)"
  have v: "gmosDriverRtcValidateRtcTime t = Some (True, showTime n (timeZone t) (daylightSaving t))"
    by (rule validate_shown [OF n])
  have r: "gmosDriverRtcConvertFromUtcTime rtc utc (timeZone t) (daylightSaving t = 1) =
      (True, showTime n (timeZone t) (daylightSaving t))"
    if c: "gmosDriverRtcConvertToUtcTime (showTime n (timeZone t) (daylightSaving t)) utc0 = Some (True, utc)"
      and z: "-48 \<le> timeZone t" "timeZone t \<le> 56" and d: "daylightSaving t \<le> 1" for rtc utc utc0
  proof -
    have u: "?z \<le> int n" "utc = nat ((int n - ?z) mod 4294967296)"
      using c ToUtc_showTime [OF n(1), of "timeZone t" "daylightSaving t" utc0] by (auto split: if_splits)
    have "int n - ?z < 4294967296" using n(1) zone_bounds [OF z, of "daylightSaving t \<noteq> 0"] by (simp add: centurySeconds_eq)
    then have l: "int utc + ?z = int n" using u by simp
    have e: "(daylightSaving t = 1) = (daylightSaving t \<noteq> 0)" using d by linarith
    have "(if daylightSaving t \<noteq> 0 then 1 else 0) = daylightSaving t" using d by auto
    moreover have "int n < 4294967296" using n(1) by (simp add: centurySeconds_eq)
    ultimately show ?thesis
      using FromUtc_eq [of utc "timeZone t" "daylightSaving t \<noteq> 0" rtc] z n(1) unfolding e l by simp
  qed
  show ?thesis
    unfolding v
    by (rule exI [of _ True], rule exI [of _ "showTime n (timeZone t) (daylightSaving t)"],
        unfold if_True simp_thms) (intro conjI refl allI impI exI [of _ n] n, elim conjE, rule r)
qed

definition rtcBlank :: rtcTime where
  "rtcBlank = \<lparr>year = 0, month = 0, dayOfMonth = 0, dayOfWeek = 0, hours = 0, minutes = 0,
     seconds = 0, timeZone = 0, daylightSaving = 0\<rparr>"

text \<open>Noon on 29 February 2024 in a zone one hour ahead, in daylight saving time.\<close>

theorem rtc_from_utc_witness:
  "\<exists>t. gmosDriverRtcConvertFromUtcTime rtcBlank 762516000 4 True = (True, t) \<and>
     year t = 0x24 \<and> month t = 0x02 \<and> dayOfMonth t = 0x29 \<and> hours t = 0x12 \<and>
     gmosDriverRtcConvertToUtcTime t 0 = Some (True, 762516000)"
proof -
  have "validDate (24, 2, 29)" by (simp add: monthLen_def isLeap_mod4)
  moreover have "daysBefore 24 2 = 31" by (simp add: daysBefore_def monthLen_def)
  ultimately have d: "dateOf 8825 = (24, 2, 29)" using dateOf_dayNumber [of "(24, 2, 29)"] by simp
  have "showTime 762523200 4 1 = \<lparr>year = 0x24, month = 0x02, dayOfMonth = 0x29,
      dayOfWeek = weekday 8825, hours = 0x12, minutes = 0, seconds = 0, timeZone = 4, daylightSaving = 1\<rparr>"
    using showTime_fields [of 762523200 24 2 29 4 1] d by (simp add: toBcd_def)
  then show ?thesis
    using rtc_from_utc [of 762516000 4 True rtcBlank 0] by (simp add: zoneSeconds_def centurySeconds_eq Let_def)
qed

theorem rtc_validate_witness:
  "\<exists>t'. gmosDriverRtcValidateRtcTime (rtcBlank\<lparr>month := 1, dayOfMonth := 1\<rparr>) = Some (True, t') \<and>
     gmosDriverRtcConvertFromUtcTime rtcBlank 0 0 False = (True, t')"
proof -
  let ?t = "rtcBlank\<lparr>month := 1, dayOfMonth := 1\<rparr>"
  have b: "rtcBytes ?t" by (simp add: rtcBytes_def rtcBlank_def)
  have s: "showTime 0 0 0 = ?t\<lparr>dayOfWeek := 6\<rparr>"
    by (simp add: showTime_def dateOf_def weekday_def toBcd_def secondsPerDay_def rtcBlank_def)
  have f: "timeZone ?t = 0" "daylightSaving ?t = 0" by (simp_all add: rtcBlank_def)
  have c: "0 < centurySeconds" by (simp add: centurySeconds_eq)
  have "?t\<lparr>dayOfWeek := 0\<rparr> = (showTime 0 0 0)\<lparr>dayOfWeek := 0\<rparr>" unfolding s by simp
  then have v: "gmosDriverRtcValidateRtcTime ?t = Some (True, showTime 0 0 0)" by (rule validate_shown [OF c])
  have u: "gmosDriverRtcConvertToUtcTime (showTime 0 0 0) 0 = Some (True, 0)"
    using ToUtc_showTime [OF c, of 0 0 0] by (simp add: zoneSeconds_def)
  from rtc_validate [OF b, unfolded f v] have
    "gmosDriverRtcConvertFromUtcTime rtcBlank 0 0 (0 = (1 :: nat)) = (True, showTime 0 0 0)"
    using u by (elim exE conjE) (simp, blast)
  then show ?thesis using v by simp
qed

end
