(* ===== verification/Gmos_Rtc_Sw.thy ===== *)
theory Gmos_Rtc_Sw
  imports Gmos_Rtc Gmos_Scheduler
begin

text \<open>
  The software real time clock of common/src/gmos-driver-rtc-sw.c and the driver functions of
  common/src/gmos-driver-rtc.c that use it, in the default configuration with a system timer of
  1024 Hz.

  Readings of the system timer come from the scheduler model. The clock keeps BCD fields that
  \<open>shows\<close> relates to a number of seconds of local time; sub-second counters are 32-bit words.
  Signed 32-bit values are integers, with explicit wrap-around where a conversion narrows them.
\<close>

subsection \<open>State\<close>

record palRtc =
  timerTask :: nat
  subSecTimestamp :: "32 word"
  subSecCounter :: "32 word"
  subSecCalibration :: int
  palYear :: nat
  yearBcd :: nat
  monthBcd :: nat
  dayOfMonthBcd :: nat
  palDayOfWeek :: nat
  hoursBcd :: nat
  minutesBcd :: nat
  secondsBcd :: nat
  palTimeZone :: int
  palDaylightSaving :: nat

record rtcDriver =
  palData :: palRtc
  lastRefTimestamp :: nat
  lastRtcTimestamp :: nat

definition s32 :: "int \<Rightarrow> int" where
  "s32 x = (x + 2147483648) mod 4294967296 - 2147483648"

definition s8 :: "int \<Rightarrow> int" where
  "s8 x = (x + 128) mod 256 - 128"

text \<open>Division of signed integers, which truncates towards zero.\<close>

definition cdiv :: "int \<Rightarrow> int \<Rightarrow> int" where
  "cdiv a b = sgn a * sgn b * (\<bar>a\<bar> div \<bar>b\<bar>)"

definition GMOS_DRIVER_RTC_TRACKING_WINDOW :: nat where
  "GMOS_DRIVER_RTC_TRACKING_WINDOW = 15"

definition GMOS_DRIVER_RTC_OFFSET_GAIN :: int where
  "GMOS_DRIVER_RTC_OFFSET_GAIN = 12"

definition GMOS_DRIVER_RTC_DRIFT_GAIN_SHIFT :: nat where
  "GMOS_DRIVER_RTC_DRIFT_GAIN_SHIFT = 3"

definition GMOS_DRIVER_RTC_CORRECTION_LIMIT :: int where
  "GMOS_DRIVER_RTC_CORRECTION_LIMIT = 64"

definition GMOS_DRIVER_RTC_SUBSECOND_INCREMENT :: int where
  "GMOS_DRIVER_RTC_SUBSECOND_INCREMENT = 0x100000000 div int GMOS_CONFIG_SYSTEM_TIMER_FREQUENCY"

definition monthLengthsBcd :: "nat list" where
  "monthLengthsBcd = [0, 0x31, 0x28, 0x31, 0x30, 0x31, 0x30, 0x31, 0x31, 0x30,
     0, 0, 0, 0, 0, 0, 0x31, 0x30, 0x31]"

subsection \<open>Counting\<close>

definition incrementBcdValue :: "nat \<Rightarrow> nat" where
  "incrementBcdValue bcd = (let bcd = u8 (bcd + 1) in
     if and bcd 0x0F \<ge> 0x0A then u8 (and bcd 0xF0 + 0x10) else bcd)"

definition decrementBcdValue :: "nat \<Rightarrow> nat" where
  "decrementBcdValue bcd = (if and bcd 0x0F > 0 then bcd - 1 else u8 (bcd + 256 - (0x10 - 0x09)))"

definition incrementDate :: "palRtc \<Rightarrow> palRtc option" where
  "incrementDate p = do {
     monthLengthBcd \<leftarrow> tableEntry monthLengthsBcd (monthBcd p);
     let monthLengthBcd = (if and (palYear p) 0x03 = 0 \<and> monthBcd p = 0x02
                           then u8 (monthLengthBcd + 1) else monthLengthBcd);
     let p = p\<lparr>dayOfMonthBcd := incrementBcdValue (dayOfMonthBcd p)\<rparr>;
     let p = (if dayOfMonthBcd p > monthLengthBcd
              then p\<lparr>dayOfMonthBcd := 1, monthBcd := incrementBcdValue (monthBcd p)\<rparr> else p);
     let p = (if monthBcd p > 0x12
              then p\<lparr>monthBcd := 1, palYear := u8 (palYear p + 1), yearBcd := incrementBcdValue (yearBcd p)\<rparr>
              else p);
     let p = (if palYear p > 99 then p\<lparr>palYear := 0, yearBcd := 0\<rparr> else p);
     let p = p\<lparr>palDayOfWeek := u8 (palDayOfWeek p + 1)\<rparr>;
     Some (if palDayOfWeek p > 7 then p\<lparr>palDayOfWeek := 1\<rparr> else p) }"

definition incrementTime :: "palRtc \<Rightarrow> palRtc option" where
  "incrementTime p =
     (let p = p\<lparr>secondsBcd := incrementBcdValue (secondsBcd p)\<rparr>;
          p = (if secondsBcd p > 0x59
               then p\<lparr>secondsBcd := 0, minutesBcd := incrementBcdValue (minutesBcd p)\<rparr> else p);
          p = (if minutesBcd p > 0x59
               then p\<lparr>minutesBcd := 0, hoursBcd := incrementBcdValue (hoursBcd p)\<rparr> else p)
      in if hoursBcd p > 0x23 then incrementDate (p\<lparr>hoursBcd := 0\<rparr>) else Some p)"

definition subSecIncrement :: "palRtc \<Rightarrow> 32 word" where
  "subSecIncrement p = word_of_int (GMOS_DRIVER_RTC_SUBSECOND_INCREMENT + subSecCalibration p)"

definition updateTimerCounter ::
    "(nat \<Rightarrow> 32 word) \<Rightarrow> palRtc \<Rightarrow> sched \<Rightarrow> (palRtc \<times> sched) option" where
  "updateTimerCounter tm p sc = do {
     let (currentTicks, sc) = gmosPalGetTimer tm sc;
     let incrementTicks = currentTicks - subSecTimestamp p;
     let nextSubSecCounter = subSecCounter p + incrementTicks * subSecIncrement p;
     p \<leftarrow> (if nextSubSecCounter < subSecCounter p then incrementTime p else Some p);
     Some (p\<lparr>subSecTimestamp := currentTicks, subSecCounter := nextSubSecCounter\<rparr>, sc) }"

definition timerUpdateTask ::
    "(nat \<Rightarrow> 32 word) \<Rightarrow> palRtc \<Rightarrow> sched \<Rightarrow> (32 word \<times> palRtc \<times> sched) option" where
  "timerUpdateTask tm p sc = do {
     (p, sc) \<leftarrow> updateTimerCounter tm p sc;
     Some (GMOS_TASK_RUN_LATER (int (GMOS_MS_TO_TICKS 300)), p, sc) }"

subsection \<open>The platform functions\<close>

definition gmosPalRtcInit ::
    "(nat \<Rightarrow> 32 word) \<Rightarrow> rtcDriver \<Rightarrow> int \<Rightarrow> sched \<Rightarrow> (bool \<times> rtcDriver \<times> sched) option" where
  "gmosPalRtcInit tm rtc calibration sc = do {
     let p = palData rtc;
     let scaledCalibration = (calibration * GMOS_DRIVER_RTC_SUBSECOND_INCREMENT + 2 ^ 19) div 2 ^ 20;
     let (ticks, sc) = gmosPalGetTimer tm sc;
     let p = p\<lparr>palYear := 0, yearBcd := 0, monthBcd := 1, dayOfMonthBcd := 1, palDayOfWeek := 6,
               hoursBcd := 0, minutesBcd := 0, secondsBcd := 0, palTimeZone := 0, palDaylightSaving := 0,
               subSecTimestamp := ticks, subSecCounter := 0, subSecCalibration := s32 scaledCalibration\<rparr>;
     sc \<leftarrow> gmosSchedulerTaskStart (timerTask p) sc;
     Some (True, rtc\<lparr>palData := p\<rparr>, sc) }"

text \<open>The copy of the counters that \<open>gmosDriverRtcGetTime\<close> gives to its caller.\<close>

definition rtcFields :: "palRtc \<Rightarrow> rtcTime" where
  "rtcFields p = \<lparr>year = yearBcd p, month = monthBcd p, dayOfMonth = dayOfMonthBcd p,
     dayOfWeek = palDayOfWeek p, hours = hoursBcd p, minutes = minutesBcd p, seconds = secondsBcd p,
     timeZone = palTimeZone p, daylightSaving = palDaylightSaving p\<rparr>"

definition gmosDriverRtcGetTime ::
    "(nat \<Rightarrow> 32 word) \<Rightarrow> rtcDriver \<Rightarrow> sched \<Rightarrow> (bool \<times> rtcTime \<times> rtcDriver \<times> sched) option" where
  "gmosDriverRtcGetTime tm rtc sc = do {
     (p, sc) \<leftarrow> updateTimerCounter tm (palData rtc) sc;
     Some (True, rtcFields p, rtc\<lparr>palData := p\<rparr>, sc) }"

definition gmosDriverRtcGetCalibration :: "rtcDriver \<Rightarrow> int" where
  "gmosDriverRtcGetCalibration rtc =
     s32 (cdiv (cdiv (subSecCalibration (palData rtc) * 2 ^ 21) GMOS_DRIVER_RTC_SUBSECOND_INCREMENT + 1) 2)"

definition gmosPalRtcSetTime ::
    "(nat \<Rightarrow> 32 word) \<Rightarrow> rtcDriver \<Rightarrow> rtcTime \<Rightarrow> sched \<Rightarrow> bool \<times> rtcDriver \<times> sched" where
  "gmosPalRtcSetTime tm rtc newTime sc =
     (let (ticks, sc) = gmosPalGetTimer tm sc;
          p = (palData rtc)\<lparr>palYear := gmosDriverRtcBcdToUint8 (year newTime), yearBcd := year newTime,
                monthBcd := month newTime, dayOfMonthBcd := dayOfMonth newTime,
                palDayOfWeek := dayOfWeek newTime, hoursBcd := hours newTime, minutesBcd := minutes newTime,
                secondsBcd := seconds newTime, palTimeZone := timeZone newTime,
                palDaylightSaving := daylightSaving newTime, subSecTimestamp := ticks, subSecCounter := 0\<rparr>
      in (True, rtc\<lparr>palData := p\<rparr>, sc))"

definition gmosPalRtcAdjustClock :: "rtcDriver \<Rightarrow> int \<Rightarrow> int \<Rightarrow> bool \<times> rtcDriver" where
  "gmosPalRtcAdjustClock rtc clockOffset clockDrift =
     (let p = palData rtc;
          adjustment = s32 (- clockDrift + 2 ^ (GMOS_DRIVER_RTC_DRIFT_GAIN_SHIFT - 1));
          adjustment = adjustment div 2 ^ GMOS_DRIVER_RTC_DRIFT_GAIN_SHIFT;
          adjustment = adjustment + (- clockOffset) * GMOS_DRIVER_RTC_OFFSET_GAIN;
          adjustment = (if adjustment > GMOS_DRIVER_RTC_CORRECTION_LIMIT then GMOS_DRIVER_RTC_CORRECTION_LIMIT
                        else if adjustment < - GMOS_DRIVER_RTC_CORRECTION_LIMIT
                        then - GMOS_DRIVER_RTC_CORRECTION_LIMIT else adjustment);
          scaledAdjustment = (adjustment * GMOS_DRIVER_RTC_SUBSECOND_INCREMENT + 2 ^ 19) div 2 ^ 20
      in (True, rtc\<lparr>palData := p\<lparr>subSecCalibration := s32 (subSecCalibration p + s32 scaledAdjustment)\<rparr>\<rparr>))"

definition gmosDriverRtcSetTimeZone :: "rtcDriver \<Rightarrow> int \<Rightarrow> bool \<times> rtcDriver" where
  "gmosDriverRtcSetTimeZone rtc tz =
     (if tz < -48 \<or> tz > 56 then (False, rtc)
      else (True, rtc\<lparr>palData := (palData rtc)\<lparr>palTimeZone := tz\<rparr>\<rparr>))"

definition gmosDriverRtcSetDaylightSaving :: "rtcDriver \<Rightarrow> bool \<Rightarrow> (bool \<times> rtcDriver) option" where
  "gmosDriverRtcSetDaylightSaving rtc daylight =
     (let p = palData rtc in
      if daylight \<and> palDaylightSaving p \<noteq> 0 then Some (True, rtc)
      else if \<not> daylight \<and> palDaylightSaving p = 0 then Some (True, rtc)
      else if daylight
      then do {
        let p = p\<lparr>hoursBcd := incrementBcdValue (hoursBcd p)\<rparr>;
        p \<leftarrow> (if hoursBcd p > 0x23 then incrementDate (p\<lparr>hoursBcd := 0\<rparr>) else Some p);
        Some (True, rtc\<lparr>palData := p\<lparr>palDaylightSaving := 1\<rparr>\<rparr>) }
      else if hoursBcd p > 0x00 \<and> hoursBcd p \<le> 0x23
      then Some (True, rtc\<lparr>palData := p\<lparr>hoursBcd := decrementBcdValue (hoursBcd p), palDaylightSaving := 0\<rparr>\<rparr>)
      else Some (False, rtc))"

subsection \<open>The driver functions\<close>

text \<open>The result says in addition whether the instance becomes the main one.\<close>

definition gmosDriverRtcInit ::
    "(nat \<Rightarrow> 32 word) \<Rightarrow> rtcDriver \<Rightarrow> int \<Rightarrow> bool \<Rightarrow> sched \<Rightarrow> (bool \<times> bool \<times> rtcDriver \<times> sched) option" where
  "gmosDriverRtcInit tm rtc calibration isMainInstance sc = do {
     (ok, rtc, sc) \<leftarrow> gmosPalRtcInit tm rtc calibration sc;
     Some (if ok then (True, isMainInstance, rtc\<lparr>lastRefTimestamp := 0, lastRtcTimestamp := 0\<rparr>, sc)
           else (False, False, rtc, sc)) }"

definition gmosDriverRtcSetTime ::
    "(nat \<Rightarrow> 32 word) \<Rightarrow> rtcDriver \<Rightarrow> rtcTime \<Rightarrow> sched \<Rightarrow> (bool \<times> rtcTime \<times> rtcDriver \<times> sched) option" where
  "gmosDriverRtcSetTime tm rtc newTime sc = do {
     (ok, newTime) \<leftarrow> gmosDriverRtcValidateRtcTime newTime;
     Some (if \<not> ok then (False, newTime, rtc, sc)
           else let (ok, rtc, sc) = gmosPalRtcSetTime tm rtc newTime sc in (ok, newTime, rtc, sc)) }"

text \<open>
  The local \<open>currentUtc\<close> is not set when the conversion fails, and is then not used either. Division
  by a zero elapsed time is a fault.
\<close>

definition gmosDriverRtcSyncTime ::
    "(nat \<Rightarrow> 32 word) \<Rightarrow> rtcDriver \<Rightarrow> nat \<Rightarrow> sched \<Rightarrow> (bool \<times> rtcDriver \<times> sched) option" where
  "gmosDriverRtcSyncTime tm rtc utcTime sc = do {
     (got, currentTime, rtc, sc) \<leftarrow> gmosDriverRtcGetTime tm rtc sc;
     (converted, currentUtc) \<leftarrow> gmosDriverRtcConvertToUtcTime currentTime 0;
     if \<not> got \<or> \<not> converted \<or> currentUtc > u32 (utcTime + GMOS_DRIVER_RTC_TRACKING_WINDOW) \<or>
        currentUtc < sub32 utcTime GMOS_DRIVER_RTC_TRACKING_WINDOW
     then (let (ok, syncTime) = gmosDriverRtcConvertFromUtcTime currentTime utcTime (timeZone currentTime)
                 (daylightSaving currentTime \<noteq> 0) in
           if \<not> ok then Some (False, rtc, sc)
           else let (ok, rtc, sc) = gmosPalRtcSetTime tm rtc syncTime sc in
                Some (if \<not> ok then (False, rtc, sc)
                      else (True, rtc\<lparr>lastRefTimestamp := utcTime, lastRtcTimestamp := utcTime\<rparr>, sc)))
     else do {
       let refTimeElapsed = sub32 utcTime (lastRefTimestamp rtc);
       let rtcTimeElapsed = sub32 currentUtc (lastRtcTimestamp rtc);
       let clockDrift = s32 (int (sub32 rtcTimeElapsed refTimeElapsed));
       let clockOffset = s8 (int (sub32 currentUtc utcTime));
       if clockOffset = 0 \<and> clockDrift = 0 then Some (True, rtc, sc)
       else if s32 (int refTimeElapsed) = 0 then None
       else (let clockDrift = s32 (cdiv (s32 (clockDrift * 2 ^ 21)) (s32 (int refTimeElapsed)));
                 clockDrift = cdiv (clockDrift + 1) 2;
                 (ok, rtc) = gmosPalRtcAdjustClock rtc clockOffset clockDrift
             in Some (if \<not> ok then (False, rtc, sc)
                      else (True, if clockDrift \<noteq> 0
                                  then rtc\<lparr>lastRefTimestamp := utcTime, lastRtcTimestamp := currentUtc\<rparr>
                                  else rtc, sc))) } }"

subsection \<open>BCD counting\<close>

lemma incrementBcd_toBcd:
  assumes "n < 99"
  shows "incrementBcdValue (toBcd n) = toBcd (Suc n)"
proof -
  obtain q r where n: "n = 10 * q + r" "r < 10"
    using div_mult_mod_eq [of n 10] by (metis mod_less_divisor mult.commute zero_less_numeral)
  have q: "q \<le> 9" using n assms by linarith
  have b: "toBcd n = 16 * q + r" using n by (simp add: toBcd_def)
  show ?thesis
  proof (cases "r = 9")
    case True
    have "toBcd (Suc n) = 16 * q + 16" using n True by (simp add: toBcd_def)
    moreover have "q < 9" using n True assms by linarith
    ultimately show ?thesis using b True by (simp add: incrementBcdValue_def and_240 Let_def)
  next
    case False
    then have "toBcd (Suc n) = 16 * q + Suc r" using n by (simp add: toBcd_def)
    moreover have "Suc (16 * q + r) < 256" using q n(2) by linarith
    moreover have "Suc (16 * q + r) mod 16 = Suc r"
      using False n(2) mod_mult_self2 [of "Suc r" 16 q] by (simp add: add.commute)
    ultimately show ?thesis using b False n(2) by (simp add: incrementBcdValue_def Let_def)
  qed
qed

lemma decrementBcd_toBcd:
  assumes "0 < n" "n < 100"
  shows "decrementBcdValue (toBcd n) = toBcd (n - 1)"
proof -
  obtain q r where n: "n = 10 * q + r" "r < 10"
    using div_mult_mod_eq [of n 10] by (metis mod_less_divisor mult.commute zero_less_numeral)
  have q: "q \<le> 9" using n assms by linarith
  have b: "toBcd n = 16 * q + r" using n by (simp add: toBcd_def)
  show ?thesis
  proof (cases "r = 0")
    case True
    then obtain k where k: "q = Suc k" using n assms by (cases q) auto
    have "n - 1 = 10 * k + 9" using n True k by simp
    then have "toBcd (n - 1) = 16 * k + 9" by (simp add: toBcd_def)
    moreover have "u8 (16 * q + 256 - 7) = 16 * k + 9"
    proof -
      have "16 * q + 256 - 7 = 16 * k + 9 + 256" using k by simp
      then have "u8 (16 * q + 256 - 7) = (16 * k + 9) mod 256" unfolding u8_def by (simp only: mod_add_self2)
      then show ?thesis using q k by simp
    qed
    ultimately show ?thesis using b True by (simp add: decrementBcdValue_def)
  next
    case False
    then have "n - 1 = 10 * q + (r - 1)" using n by simp
    then have "toBcd (n - 1) = 16 * q + (r - 1)" using n(2) by (simp add: toBcd_def)
    then show ?thesis using b False n(2) by (simp add: decrementBcdValue_def)
  qed
qed

lemma bcd_constants: "toBcd 0 = 0" "toBcd 1 = 1" "toBcd 2 = 2" "0x59 = toBcd 59" "0x23 = toBcd 23" "0x12 = toBcd 12"
  by (simp_all add: toBcd_def)

lemma monthLengthsBcd_entry:
  assumes "1 \<le> m" "m \<le> 12" "y < 100"
  shows "\<exists>l. tableEntry monthLengthsBcd (toBcd m) = Some l \<and>
    (if and y 0x03 = 0 \<and> toBcd m = 0x02 then u8 (l + 1) else l) = toBcd (monthLen y m)"
proof -
  have "toBcd m = 2 \<longleftrightarrow> m = 2" using toBcd_inject [of m 2] by (simp only: bcd_constants)
  show ?thesis
    by (intro exI [of _ "toBcd (monthLengths ! (m - 1))"], rule month_cases [OF assms(1,2)])
      (use assms(3) in \<open>auto simp: tableEntry_def monthLengthsBcd_def monthLengths_def monthLen_def toBcd_def isLeap_mod4\<close>)
qed

subsection \<open>What the clock shows\<close>

definition rtcShows :: "palRtc \<Rightarrow> nat \<Rightarrow> bool" where
  "rtcShows p n \<longleftrightarrow> n < centurySeconds \<and>
     rtcFields p = showTime n (palTimeZone p) (palDaylightSaving p) \<and>
     palYear p = fst (dateOf (n div secondsPerDay))"

definition rtcDigits :: "palRtc \<Rightarrow> date \<Rightarrow> nat \<Rightarrow> nat \<Rightarrow> nat \<Rightarrow> bool" where
  "rtcDigits p x h mi s \<longleftrightarrow> (case x of (y, m, d) \<Rightarrow> palYear p = y \<and> yearBcd p = toBcd y \<and>
     monthBcd p = toBcd m \<and> dayOfMonthBcd p = toBcd d \<and> palDayOfWeek p = weekday (dayNumber x) \<and>
     hoursBcd p = toBcd h \<and> minutesBcd p = toBcd mi \<and> secondsBcd p = toBcd s)"

abbreviation secondsAt :: "nat \<Rightarrow> nat \<Rightarrow> nat \<Rightarrow> nat \<Rightarrow> nat" where
  "secondsAt k h mi s \<equiv> k * 86400 + h * 3600 + mi * 60 + s"

lemma rtcShows_digits:
  assumes "rtcShows p n"
  obtains x h mi s where "validDate x" "h < 24" "mi < 60" "s < 60" "rtcDigits p x h mi s"
    "n = secondsAt (dayNumber x) h mi s"
proof -
  let ?D = "n div 86400" and ?s = "n mod 86400"
  obtain y m d where x: "dateOf ?D = (y, m, d)" by (cases "dateOf ?D")
  have D: "?D < 36525"
    using assms by (intro less_mult_imp_div_less) (simp add: rtcShows_def centurySeconds_def secondsPerDay_def)
  have v: "validDate (y, m, d)" "dayNumber (y, m, d) = ?D" using dateOf_valid [OF D] x by simp_all
  have tod: "?s div 3600 < 24" "?s mod 3600 div 60 < 60" "?s mod 60 < 60"
    "?s div 3600 * 3600 + ?s mod 3600 div 60 * 60 + ?s mod 60 = ?s"
    using time_of_day [of ?s] by simp_all
  have "rtcDigits p (y, m, d) (?s div 3600) (?s mod 3600 div 60) (?s mod 60)"
    using assms v(2) x
    by (simp add: rtcShows_def showTime_fields [OF x] rtcFields_def rtcDigits_def secondsPerDay_def
        del: dayNumber.simps)
  moreover have "n = secondsAt (dayNumber (y, m, d)) (?s div 3600) (?s mod 3600 div 60) (?s mod 60)"
    unfolding v(2) using tod(4) div_mult_mod_eq [of n 86400] by linarith
  ultimately show thesis by (rule that [OF v(1) tod(1-3)])
qed

lemma rtcDigits_shows:
  assumes "validDate x" "h < 24" "mi < 60" "s < 60" "rtcDigits p x h mi s"
  shows "rtcShows p (secondsAt (dayNumber x) h mi s)"
proof -
  obtain y m d where x: "x = (y, m, d)" by (cases x)
  note t = showTime_of_fields [OF assms(1) [unfolded x] assms(2-4)]
  have "secondsAt (dayNumber x) h mi s div 86400 = dayNumber x"
    using assms(2-4) by simp
  then have "dateOf (secondsAt (dayNumber x) h mi s div 86400) = x"
    using dateOf_dayNumber [OF assms(1)] by simp
  then show ?thesis
    unfolding rtcShows_def x secondsPerDay_def using t assms(5)
    by (simp add: rtcDigits_def rtcFields_def x del: dayNumber.simps)
qed

lemma incrementDate_raw:
  assumes "tableEntry monthLengthsBcd (monthBcd p) = Some l"
    and "(if and (palYear p) 0x03 = 0 \<and> monthBcd p = 0x02 then u8 (l + 1) else l) = ml"
    and "incrementBcdValue (dayOfMonthBcd p) = d'" "incrementBcdValue (monthBcd p) = m'"
    and "\<not> 0x12 < monthBcd p" "palYear p < 100"
    and "(if 7 < u8 (palDayOfWeek p + 1) then 1 else u8 (palDayOfWeek p + 1)) = w'"
  shows "\<not> ml < d' \<Longrightarrow> incrementDate p = Some (p\<lparr>dayOfMonthBcd := d', palDayOfWeek := w'\<rparr>)"
    and "ml < d' \<Longrightarrow> \<not> 0x12 < m' \<Longrightarrow>
      incrementDate p = Some (p\<lparr>dayOfMonthBcd := 1, monthBcd := m', palDayOfWeek := w'\<rparr>)"
    and "ml < d' \<Longrightarrow> 0x12 < m' \<Longrightarrow> palYear p < 99 \<Longrightarrow>
      incrementDate p = Some (p\<lparr>dayOfMonthBcd := 1, monthBcd := 1, palYear := palYear p + 1,
        yearBcd := incrementBcdValue (yearBcd p), palDayOfWeek := w'\<rparr>)"
  unfolding incrementDate_def assms(1) Option.bind.simps assms(2) Let_def
  by (simp_all add: assms(3-) cong del: if_weak_cong) (use assms(6,7) in auto)

lemma incrementDate_ok:
  assumes v: "validDate x" "dayNumber x < 36524" and g: "rtcDigits p x h mi s"
  shows "\<exists>p'. incrementDate p = Some p' \<and> rtcDigits p' (nextDate x) h mi s \<and>
    timerTask p' = timerTask p \<and> palTimeZone p' = palTimeZone p \<and> palDaylightSaving p' = palDaylightSaving p \<and>
    subSecTimestamp p' = subSecTimestamp p \<and> subSecCounter p' = subSecCounter p \<and>
    subSecCalibration p' = subSecCalibration p"
proof -
  obtain y m d where x: "x = (y, m, d)" by (cases x)
  have b: "y < 100" "1 \<le> m" "m \<le> 12" "1 \<le> d" "d \<le> monthLen y m" "d \<le> 31"
    using v(1) monthLen_bounds(2) [of y m] by (auto simp: x)
  have f: "palYear p = y" "yearBcd p = toBcd y" "monthBcd p = toBcd m" "dayOfMonthBcd p = toBcd d"
    "palDayOfWeek p = weekday (dayNumber x)" "hoursBcd p = toBcd h" "minutesBcd p = toBcd mi" "secondsBcd p = toBcd s"
    using g by (simp_all add: x rtcDigits_def)
  obtain l where l: "tableEntry monthLengthsBcd (toBcd m) = Some l"
    "(if and y 0x03 = 0 \<and> toBcd m = 0x02 then u8 (l + 1) else l) = toBcd (monthLen y m)"
    using monthLengthsBcd_entry [OF b(2,3,1)] by blast
  have w: "(if u8 (weekday k + 1) > 7 then 1 else u8 (weekday k + 1)) = weekday (Suc k)" for k
    using mod_Suc [of "k + 5" 7] by (auto simp: weekday_eq)
  have n: "validDate (nextDate x)" "dayNumber (nextDate x) = Suc (dayNumber x)"
    using dayNumber_nextDate [OF v] by simp_all
  have id: "incrementBcdValue (toBcd d) = toBcd (Suc d)" "incrementBcdValue (toBcd m) = toBcd (Suc m)"
    using b by (simp_all add: incrementBcd_toBcd)
  have iy: "y < 99" "incrementBcdValue (toBcd y) = toBcd (Suc y)" if "\<not> d < monthLen y m" "\<not> m < 12"
    using n(1) that b by (auto simp: x incrementBcd_toBcd)
  have gt: "toBcd (monthLen y m) < toBcd (Suc d) \<longleftrightarrow> \<not> d < monthLen y m"
    "0x12 < toBcd (Suc m) \<longleftrightarrow> \<not> m < 12" "\<not> 0x12 < toBcd m" "\<not> 99 < y"
    using b unfolding bcd_constants(6) by auto
  let ?W = "weekday (dayNumber (nextDate x))"
  have raw: "tableEntry monthLengthsBcd (monthBcd p) = Some l"
    "(if and (palYear p) 0x03 = 0 \<and> monthBcd p = 0x02 then u8 (l + 1) else l) = toBcd (monthLen y m)"
    "incrementBcdValue (dayOfMonthBcd p) = toBcd (Suc d)" "incrementBcdValue (monthBcd p) = toBcd (Suc m)"
    "\<not> 0x12 < monthBcd p" "palYear p < 100"
    "(if 7 < u8 (palDayOfWeek p + 1) then 1 else u8 (palDayOfWeek p + 1)) = ?W"
    using l id gt(3) b(1) unfolding f n(2) w by simp_all
  note step = incrementDate_raw [OF raw]
  have dig: "rtcDigits p' (nextDate x) h mi s" if "nextDate x = (y', m', d')" "palYear p' = y'"
    "yearBcd p' = toBcd y'" "monthBcd p' = toBcd m'" "dayOfMonthBcd p' = toBcd d'" "palDayOfWeek p' = ?W"
    "hoursBcd p' = toBcd h" "minutesBcd p' = toBcd mi" "secondsBcd p' = toBcd s" for p' y' m' d'
    using that unfolding rtcDigits_def by (simp only: prod.case simp_thms)
  consider "d < monthLen y m" | "\<not> d < monthLen y m" "m < 12" | "\<not> d < monthLen y m" "\<not> m < 12" by blast
  then show ?thesis
  proof cases
    case 1
    have e: "incrementDate p = Some (p\<lparr>dayOfMonthBcd := toBcd (Suc d), palDayOfWeek := ?W\<rparr>)"
      by (rule step(1)) (simp only: gt 1 simp_thms)
    have nd: "nextDate x = (y, m, Suc d)" using 1 by (simp add: x)
    show ?thesis
      unfolding e
      by (intro exI conjI, rule refl, rule dig [OF nd]) (use f in simp_all)
  next
    case 2
    have e: "incrementDate p = Some (p\<lparr>dayOfMonthBcd := 1, monthBcd := toBcd (Suc m), palDayOfWeek := ?W\<rparr>)"
      by (rule step(2)) (simp_all only: gt 2 simp_thms)
    have nd: "nextDate x = (y, Suc m, 1)" using 2 by (simp add: x)
    show ?thesis
      unfolding e
      by (intro exI conjI, rule refl, rule dig [OF nd]) (use f bcd_constants(2) in \<open>simp_all\<close>)
  next
    case 3
    have e: "incrementDate p = Some (p\<lparr>dayOfMonthBcd := 1, monthBcd := 1, palYear := palYear p + 1,
        yearBcd := incrementBcdValue (yearBcd p), palDayOfWeek := ?W\<rparr>)"
      by (rule step(3)) (simp_all only: gt 3 simp_thms f iy [OF 3])
    have nd: "nextDate x = (Suc y, 1, 1)" using 3 by (simp add: x)
    show ?thesis
      unfolding e
      by (intro exI conjI, rule refl, rule dig [OF nd]) (use f bcd_constants(2) iy(2) [OF 3] in \<open>simp_all\<close>)
  qed
qed

text \<open>What counting leaves alone, as a relation between two clock states.\<close>

definition rtcFrame :: "palRtc \<Rightarrow> palRtc \<Rightarrow> bool" where
  "rtcFrame p p' \<longleftrightarrow> timerTask p' = timerTask p \<and> palTimeZone p' = palTimeZone p \<and>
     palDaylightSaving p' = palDaylightSaving p \<and> subSecTimestamp p' = subSecTimestamp p \<and>
     subSecCounter p' = subSecCounter p \<and> subSecCalibration p' = subSecCalibration p"

lemma nextDay:
  assumes v: "validDate x" "dayNumber x < 36524" and g: "rtcDigits p x 0 mi s" and t: "mi < 60" "s < 60"
  shows "\<exists>p'. incrementDate p = Some p' \<and> rtcFrame p p' \<and>
    rtcShows p' (secondsAt (dayNumber x) 24 mi s)"
proof -
  obtain p' where p': "incrementDate p = Some p'" "rtcDigits p' (nextDate x) 0 mi s" "rtcFrame p p'"
    using incrementDate_ok [OF v g] by (auto simp: rtcFrame_def)
  have n: "validDate (nextDate x)" "dayNumber (nextDate x) = dayNumber x + 1"
    using dayNumber_nextDate [OF v] by simp_all
  have "rtcShows p' (secondsAt (dayNumber x) 24 mi s)"
    using rtcDigits_shows [OF n(1) _ t p'(2)] n(2) by (simp add: ac_simps)
  then show ?thesis using p' by blast
qed

lemma incrementTime_ok:
  assumes sh: "rtcShows p n" and n: "Suc n < centurySeconds"
  shows "\<exists>p'. incrementTime p = Some p' \<and> rtcFrame p p' \<and> rtcShows p' (Suc n)"
proof -
  obtain x h mi s where v: "validDate x" and t: "h < 24" "mi < 60" "s < 60" and g: "rtcDigits p x h mi s"
    and eq: "n = secondsAt (dayNumber x) h mi s"
    using sh by (rule rtcShows_digits)
  have f: "hoursBcd p = toBcd h" "minutesBcd p = toBcd mi" "secondsBcd p = toBcd s"
    using g by (simp_all add: rtcDigits_def split: prod.splits)
  have i: "incrementBcdValue (toBcd k) = toBcd (Suc k)" if "k < 60" for k
    using that by (simp add: incrementBcd_toBcd)
  have gt: "0x59 < toBcd k \<longleftrightarrow> 59 < k" "0x23 < toBcd k \<longleftrightarrow> 23 < k" for k
    unfolding bcd_constants(4,5) by simp_all
  have z: "toBcd 0 = 0" by (simp add: toBcd_def)
  note body = incrementTime_def Let_def f i gt z rtcFrame_def
  consider "s < 59" | "s = 59" "mi < 59" | "s = 59" "mi = 59" "h < 23" | "s = 59" "mi = 59" "h = 23"
    using t by linarith
  then show ?thesis
  proof cases
    case 1
    let ?p = "p\<lparr>secondsBcd := toBcd (Suc s)\<rparr>"
    have "rtcDigits ?p x h mi (Suc s)" using g by (simp add: rtcDigits_def split: prod.splits)
    from rtcDigits_shows [OF v _ _ _ this] have "rtcShows ?p (Suc n)" using t 1 eq by simp
    then show ?thesis using 1 t by (simp add: body)
  next
    case 2
    let ?p = "p\<lparr>secondsBcd := 0, minutesBcd := toBcd (Suc mi)\<rparr>"
    have "rtcDigits ?p x h (Suc mi) 0" using g by (simp add: rtcDigits_def z split: prod.splits)
    from rtcDigits_shows [OF v _ _ _ this] have "rtcShows ?p (Suc n)" using t 2 eq by (simp add: ac_simps)
    then show ?thesis using 2 t by (simp add: body)
  next
    case 3
    let ?p = "p\<lparr>secondsBcd := 0, minutesBcd := 0, hoursBcd := toBcd (Suc h)\<rparr>"
    have "rtcDigits ?p x (Suc h) 0 0" using g by (simp add: rtcDigits_def z split: prod.splits)
    from rtcDigits_shows [OF v _ _ _ this] have "rtcShows ?p (Suc n)" using t 3 eq by (simp add: ac_simps)
    then show ?thesis using 3 t by (simp add: body)
  next
    case 4
    let ?p = "p\<lparr>secondsBcd := 0, minutesBcd := 0, hoursBcd := 0\<rparr>"
    have "rtcDigits ?p x 0 0 0" using g by (simp add: rtcDigits_def z split: prod.splits)
    moreover have "dayNumber x < 36524" using n eq 4 by (simp add: centurySeconds_eq)
    ultimately obtain p' where p': "incrementDate ?p = Some p'" "rtcFrame ?p p'"
      "rtcShows p' (secondsAt (dayNumber x) 24 0 0)"
      using nextDay [OF v, of ?p 0 0] by auto
    have "incrementTime p = Some p'" using 4 t p'(1) by (simp add: body)
    moreover have "rtcFrame p p'" using p'(2) by (simp add: rtcFrame_def)
    moreover have "secondsAt (dayNumber x) 24 0 0 = Suc n" using eq 4 by simp
    ultimately show ?thesis using p'(3) by metis
  qed
qed

subsection \<open>The clock over time\<close>

lemma updateTimerCounter_ok:
  assumes sh: "rtcShows p n"
    and a: "unat (tm (timerReads sc) - subSecTimestamp p) * unat (subSecIncrement p) < 4294967296"
    and clock: "clock = n * 4294967296 + unat (subSecCounter p) +
      unat (tm (timerReads sc) - subSecTimestamp p) * unat (subSecIncrement p)"
    and room: "clock < centurySeconds * 4294967296"
  shows "\<exists>p'. updateTimerCounter tm p sc = Some (p', sc\<lparr>timerReads := Suc (timerReads sc)\<rparr>) \<and>
    rtcShows p' (clock div 4294967296) \<and> unat (subSecCounter p') = clock mod 4294967296 \<and>
    subSecTimestamp p' = tm (timerReads sc) \<and> subSecCalibration p' = subSecCalibration p \<and>
    subSecIncrement p' = subSecIncrement p \<and> palTimeZone p' = palTimeZone p \<and> palDaylightSaving p' = palDaylightSaving p"
proof -
  let ?t = "tm (timerReads sc)"
  let ?c = "unat (subSecCounter p)" and ?a = "unat (?t - subSecTimestamp p) * unat (subSecIncrement p)"
  let ?next = "subSecCounter p + (?t - subSecTimestamp p) * subSecIncrement p"
  have c: "?c < 4294967296" by (rule order_less_le_trans [OF unsigned_less]) simp
  have nxt: "unat ?next = (?c + ?a) mod 4294967296"
    by (simp add: unat_word_ariths mod_simps)
  have tot: "clock = n * 4294967296 + (?c + ?a)" using clock by simp
  have stamp: "rtcShows (q\<lparr>subSecTimestamp := u, subSecCounter := v\<rparr>) k \<longleftrightarrow> rtcShows q k" for q u v k
    by (simp add: rtcShows_def rtcFields_def)
  show ?thesis
  proof (cases "?c + ?a < 4294967296")
    case True
    then have "unat ?next = ?c + ?a" using nxt by simp
    then have "\<not> ?next < subSecCounter p" by (simp add: word_less_nat_alt)
    moreover have "clock div 4294967296 = n" "clock mod 4294967296 = ?c + ?a" using True tot by simp_all
    ultimately show ?thesis
      using sh stamp \<open>unat ?next = ?c + ?a\<close>
      by (simp add: updateTimerCounter_def gmosPalGetTimer_def subSecIncrement_def)
  next
    case False
    then have r: "?c + ?a = (?c + ?a - 4294967296) + 4294967296" "?c + ?a - 4294967296 < 4294967296"
      using c a by linarith+
    then have u: "unat ?next = ?c + ?a - 4294967296" using nxt by (metis mod_add_self2 mod_less)
    then have l: "?next < subSecCounter p" using a False by (simp add: word_less_nat_alt)
    have d: "clock div 4294967296 = Suc n" "clock mod 4294967296 = ?c + ?a - 4294967296"
    proof -
      have "clock = Suc n * 4294967296 + (?c + ?a - 4294967296)" using tot r(1) by simp
      then show "clock div 4294967296 = Suc n" "clock mod 4294967296 = ?c + ?a - 4294967296"
        using r(2) by (simp_all only: div_mult_self3 mod_mult_self3 div_less mod_less)
    qed
    have "Suc n < centurySeconds" using room less_mult_imp_div_less [OF room] d(1) by simp
    from incrementTime_ok [OF sh this] obtain p' where
      p': "incrementTime p = Some p'" "rtcFrame p p'" "rtcShows p' (Suc n)" by blast
    then show ?thesis
      using l u d stamp
      by (simp add: updateTimerCounter_def gmosPalGetTimer_def subSecIncrement_def rtcFrame_def)
  qed
qed

text \<open>Repeated activations of the update task, the timer ticks they see, and what they may see.\<close>

fun rtcUpdates :: "(nat \<Rightarrow> 32 word) \<Rightarrow> nat \<Rightarrow> palRtc \<Rightarrow> sched \<Rightarrow> (palRtc \<times> sched) option" where
  "rtcUpdates tm 0 p sc = Some (p, sc)"
| "rtcUpdates tm (Suc k) p sc = do {
     (_, p, sc) \<leftarrow> timerUpdateTask tm p sc;
     rtcUpdates tm k p sc }"

fun ticksFrom :: "(nat \<Rightarrow> 32 word) \<Rightarrow> 32 word \<Rightarrow> nat \<Rightarrow> nat \<Rightarrow> nat" where
  "ticksFrom tm prev r 0 = 0"
| "ticksFrom tm prev r (Suc k) = unat (tm r - prev) + ticksFrom tm (tm r) (Suc r) k"

fun timely :: "(nat \<Rightarrow> 32 word) \<Rightarrow> 32 word \<Rightarrow> nat \<Rightarrow> nat \<Rightarrow> nat \<Rightarrow> bool" where
  "timely tm prev r 0 inc \<longleftrightarrow> True"
| "timely tm prev r (Suc k) inc \<longleftrightarrow> unat (tm r - prev) * inc < 4294967296 \<and> timely tm (tm r) (Suc r) k inc"

lemma rtcUpdates_ok:
  assumes "rtcShows p n" and "inc = unat (subSecIncrement p)"
    and "timely tm (subSecTimestamp p) (timerReads sc) k inc"
    and "clock = n * 4294967296 + unat (subSecCounter p) + ticksFrom tm (subSecTimestamp p) (timerReads sc) k * inc"
    and "clock < centurySeconds * 4294967296"
  shows "\<exists>p' sc'. rtcUpdates tm k p sc = Some (p', sc') \<and> rtcShows p' (clock div 4294967296) \<and>
    unat (subSecCounter p') = clock mod 4294967296 \<and> unat (subSecIncrement p') = inc \<and>
    palTimeZone p' = palTimeZone p \<and> palDaylightSaving p' = palDaylightSaving p"
  using assms
proof (induction k arbitrary: p n sc)
  case 0
  have "unat (subSecCounter p) < 4294967296" by (rule order_less_le_trans [OF unsigned_less]) simp
  then show ?case using 0 by simp
next
  case (Suc k)
  let ?e = "unat (tm (timerReads sc) - subSecTimestamp p)"
  let ?mid = "n * 4294967296 + unat (subSecCounter p) + ?e * unat (subSecIncrement p)"
  have pre: "?e * unat (subSecIncrement p) < 4294967296" "?mid < centurySeconds * 4294967296"
    using Suc.prems by (simp_all add: distrib_right)
  from updateTimerCounter_ok [where tm = tm and sc = sc and clock = ?mid, OF Suc.prems(1) pre(1) refl pre(2)] obtain p1 where
    p1: "updateTimerCounter tm p sc = Some (p1, sc\<lparr>timerReads := Suc (timerReads sc)\<rparr>)"
    "rtcShows p1 (?mid div 4294967296)" "unat (subSecCounter p1) = ?mid mod 4294967296"
    "subSecTimestamp p1 = tm (timerReads sc)" "subSecIncrement p1 = subSecIncrement p"
    "palTimeZone p1 = palTimeZone p" "palDaylightSaving p1 = palDaylightSaving p" by auto
  let ?sc = "sc\<lparr>timerReads := Suc (timerReads sc)\<rparr>"
  have "clock = ?mid div 4294967296 * 4294967296 + ?mid mod 4294967296 +
      ticksFrom tm (tm (timerReads sc)) (Suc (timerReads sc)) k * inc"
    using Suc.prems(2,4) unfolding div_mult_mod_eq by (simp add: distrib_right)
  then have "\<exists>p' sc'. rtcUpdates tm k p1 ?sc = Some (p', sc') \<and> rtcShows p' (clock div 4294967296) \<and>
    unat (subSecCounter p') = clock mod 4294967296 \<and> unat (subSecIncrement p') = inc \<and>
    palTimeZone p' = palTimeZone p1 \<and> palDaylightSaving p' = palDaylightSaving p1"
    using Suc.prems p1 by (intro Suc.IH [of p1 "?mid div 4294967296"]) simp_all
  then show ?case using p1 by (simp add: timerUpdateTask_def)
qed

subsection \<open>Setting and adjusting\<close>

lemma rtcShows_fields_eq:
  "rtcFields q = rtcFields p \<Longrightarrow> palYear q = palYear p \<Longrightarrow> rtcShows q n \<longleftrightarrow> rtcShows p n"
  by (cases p; cases q; simp add: rtcShows_def rtcFields_def)

lemma SetTime_shows:
  assumes "n < centurySeconds"
  shows "\<exists>rtc' sc'. gmosPalRtcSetTime tm rtc (showTime n tz daylight) sc = (True, rtc', sc') \<and>
    rtcShows (palData rtc') n \<and> palTimeZone (palData rtc') = tz \<and> palDaylightSaving (palData rtc') = daylight \<and>
    subSecCounter (palData rtc') = 0 \<and> subSecCalibration (palData rtc') = subSecCalibration (palData rtc) \<and>
    subSecTimestamp (palData rtc') = tm (timerReads sc) \<and> timerReads sc' = Suc (timerReads sc)"
proof -
  obtain y m d where x: "dateOf (n div 86400) = (y, m, d)" by (cases "dateOf (n div 86400)")
  have "n div 86400 < 36525"
    using assms by (intro less_mult_imp_div_less) (simp add: centurySeconds_def secondsPerDay_def)
  then have "y < 100" using dateOf_valid [of "n div 86400"] x by simp
  then show ?thesis
    using assms x by (simp add: gmosPalRtcSetTime_def gmosPalGetTimer_def rtcShows_def rtcFields_def
        showTime_fields [OF x] secondsPerDay_def)
qed

lemma daylight_on:
  assumes sh: "rtcShows (palData rtc) n" and off: "palDaylightSaving (palData rtc) = 0"
    and n: "n + 3600 < centurySeconds"
  shows "\<exists>rtc'. gmosDriverRtcSetDaylightSaving rtc True = Some (True, rtc') \<and>
    rtcShows (palData rtc') (n + 3600) \<and> palDaylightSaving (palData rtc') = 1 \<and>
    palTimeZone (palData rtc') = palTimeZone (palData rtc)"
proof -
  let ?p = "palData rtc"
  obtain x h mi s where v: "validDate x" and t: "h < 24" "mi < 60" "s < 60" and g: "rtcDigits ?p x h mi s"
    and eq: "n = secondsAt (dayNumber x) h mi s"
    using sh by (rule rtcShows_digits)
  have f: "hoursBcd ?p = toBcd h" using g by (simp add: rtcDigits_def split: prod.splits)
  have i: "incrementBcdValue (toBcd h) = toBcd (Suc h)" using t by (simp add: incrementBcd_toBcd)
  have gt: "0x23 < toBcd k \<longleftrightarrow> 23 < k" for k unfolding bcd_constants(5) by simp
  have flag: "rtcShows (q\<lparr>palDaylightSaving := b\<rparr>) k" if "rtcShows q k" for q b k
    using that by (cases q) (simp add: rtcShows_def rtcFields_def showTime_def Let_def split: prod.splits)
  have def: "gmosDriverRtcSetDaylightSaving rtc True =
      Option.bind (if 23 < Suc h then incrementDate (?p\<lparr>hoursBcd := 0\<rparr>) else Some (?p\<lparr>hoursBcd := toBcd (Suc h)\<rparr>))
        (\<lambda>p. Some (True, rtc\<lparr>palData := p\<lparr>palDaylightSaving := 1\<rparr>\<rparr>))"
    using off by (simp add: gmosDriverRtcSetDaylightSaving_def Let_def f i gt)
  show ?thesis
  proof (cases "h < 23")
    case True
    let ?q = "?p\<lparr>hoursBcd := toBcd (Suc h)\<rparr>"
    have "rtcDigits ?q x (Suc h) mi s" using g by (simp add: rtcDigits_def split: prod.splits)
    from rtcDigits_shows [OF v _ t(2,3) this] have "rtcShows ?q (n + 3600)" using True eq by (simp add: ac_simps)
    then show ?thesis unfolding def using True flag by simp
  next
    case False
    then have h: "h = 23" using t by simp
    let ?q = "?p\<lparr>hoursBcd := 0\<rparr>"
    have "rtcDigits ?q x 0 mi s" using g by (simp add: rtcDigits_def toBcd_def split: prod.splits)
    moreover have "dayNumber x < 36524" using n eq h by (simp add: centurySeconds_eq)
    ultimately obtain q where q: "incrementDate ?q = Some q" "rtcFrame ?q q"
      "rtcShows q (secondsAt (dayNumber x) 24 mi s)"
      using nextDay [OF v, of ?q mi s] t by auto
    have "secondsAt (dayNumber x) 24 mi s = n + 3600" using eq h by simp
    with q(3) have "rtcShows q (n + 3600)" by metis
    then show ?thesis unfolding def using h q(1,2) flag by (simp add: rtcFrame_def)
  qed
qed

lemma daylight_off:
  assumes sh: "rtcShows (palData rtc) n" and on: "palDaylightSaving (palData rtc) \<noteq> 0"
  shows "if n mod 86400 < 3600 then gmosDriverRtcSetDaylightSaving rtc False = Some (False, rtc)
    else \<exists>rtc'. gmosDriverRtcSetDaylightSaving rtc False = Some (True, rtc') \<and>
      rtcShows (palData rtc') (n - 3600) \<and> palDaylightSaving (palData rtc') = 0 \<and>
      palTimeZone (palData rtc') = palTimeZone (palData rtc)"
proof -
  let ?p = "palData rtc"
  obtain x h mi s where v: "validDate x" and t: "h < 24" "mi < 60" "s < 60" and g: "rtcDigits ?p x h mi s"
    and eq: "n = secondsAt (dayNumber x) h mi s"
    using sh by (rule rtcShows_digits)
  have f: "hoursBcd ?p = toBcd h" using g by (simp add: rtcDigits_def split: prod.splits)
  have "h * 3600 + mi * 60 + s < 86400" using t by linarith
  then have "n mod 86400 = h * 3600 + mi * 60 + s" unfolding eq add.assoc mod_mult_self3 by (rule mod_less)
  then have c: "n mod 86400 < 3600 \<longleftrightarrow> h = 0" using t by (cases h) auto
  have "0 < toBcd h \<longleftrightarrow> 0 < h" using toBcd_less [of 0 h] unfolding bcd_constants(1) .
  moreover have "toBcd h \<le> 0x23" using t unfolding bcd_constants(5) by simp
  ultimately have gt: "0 < toBcd h \<longleftrightarrow> 0 < h" "toBcd h \<le> 0x23" .
  show ?thesis
  proof (cases "h = 0")
    case True
    then show ?thesis using on c gt f by (simp add: gmosDriverRtcSetDaylightSaving_def Let_def)
  next
    case False
    then obtain k where k: "h = Suc k" by (cases h) auto
    let ?q = "?p\<lparr>hoursBcd := toBcd k, palDaylightSaving := 0\<rparr>"
    have "rtcDigits ?q x k mi s" using g by (simp add: rtcDigits_def split: prod.splits)
    from rtcDigits_shows [OF v _ t(2,3) this] have "rtcShows ?q (n - 3600)" using k t eq by (simp add: ac_simps)
    moreover have "decrementBcdValue (toBcd h) = toBcd k" using decrementBcd_toBcd [of h] k t by simp
    ultimately show ?thesis using on c gt f False by (simp add: gmosDriverRtcSetDaylightSaving_def Let_def)
  qed
qed

text \<open>
  The change of the calibration for a clock offset and drift: the proportional terms with their
  gains, opposite in sign to the offset and the drift, limited to 64 parts in \<open>2 ^ 20\<close> either way;
  the increment of \<open>2 ^ 22\<close> per tick makes that four units a part.
\<close>

definition rtcCorrection :: "int \<Rightarrow> int \<Rightarrow> int" where
  "rtcCorrection off drift = 4 * max (- 64) (min 64 ((4 - drift) div 8 - 12 * off))"

lemma rtcCorrection_bounds: "\<bar>rtcCorrection off drift\<bar> \<le> 256"
  unfolding rtcCorrection_def max_def min_def by (auto simp: abs_if)

lemma rtcCorrection_sign:
  "0 < off \<Longrightarrow> 0 \<le> drift \<Longrightarrow> rtcCorrection off drift < 0"
  "off < 0 \<Longrightarrow> drift \<le> 0 \<Longrightarrow> 0 < rtcCorrection off drift"
  by (auto simp: rtcCorrection_def)

lemma s32_small: "- 2147483648 \<le> x \<Longrightarrow> x < 2147483648 \<Longrightarrow> s32 x = x"
  by (simp add: s32_def)

lemma AdjustClock_ok:
  assumes "\<bar>subSecCalibration (palData rtc)\<bar> < 1073741824" "\<bar>drift\<bar> < 1073741824"
  shows "gmosPalRtcAdjustClock rtc off drift =
      (True, rtc\<lparr>palData := (palData rtc)\<lparr>subSecCalibration :=
         subSecCalibration (palData rtc) + rtcCorrection off drift\<rparr>\<rparr>)"
proof -
  let ?c = "subSecCalibration (palData rtc)"
  have scale: "(a * GMOS_DRIVER_RTC_SUBSECOND_INCREMENT + 2 ^ 19) div 2 ^ 20 = 4 * a" for a
  proof -
    have "GMOS_DRIVER_RTC_SUBSECOND_INCREMENT = 4194304"
      by (simp add: GMOS_DRIVER_RTC_SUBSECOND_INCREMENT_def GMOS_CONFIG_SYSTEM_TIMER_FREQUENCY_def)
    then have "a * GMOS_DRIVER_RTC_SUBSECOND_INCREMENT + 2 ^ 19 = 524288 + 4 * a * 2 ^ 20" by simp
    also have "\<dots> div 2 ^ 20 = 4 * a" by simp
    finally show ?thesis .
  qed
  have limit: "s32 (?c + s32 (4 * a)) = ?c + 4 * a" if "\<bar>a\<bar> \<le> 64" for a
    using that assms unfolding s32_def by (simp add: abs_if split: if_splits)
  have raw: "s32 (- drift + 2 ^ (GMOS_DRIVER_RTC_DRIFT_GAIN_SHIFT - 1)) div 2 ^ GMOS_DRIVER_RTC_DRIFT_GAIN_SHIFT
     + (- off) * GMOS_DRIVER_RTC_OFFSET_GAIN = (4 - drift) div 8 - 12 * off"
    using assms(2) s32_small [of "4 - drift"]
    by (simp add: GMOS_DRIVER_RTC_DRIFT_GAIN_SHIFT_def GMOS_DRIVER_RTC_OFFSET_GAIN_def)
  let ?a = "max (- 64) (min 64 ((4 - drift) div 8 - 12 * off))"
  have a: "(if r > GMOS_DRIVER_RTC_CORRECTION_LIMIT then GMOS_DRIVER_RTC_CORRECTION_LIMIT
     else if r < - GMOS_DRIVER_RTC_CORRECTION_LIMIT then - GMOS_DRIVER_RTC_CORRECTION_LIMIT else r) =
     max (- 64) (min 64 r)" for r
    by (simp add: GMOS_DRIVER_RTC_CORRECTION_LIMIT_def)
  have "gmosPalRtcAdjustClock rtc off drift =
      (True, rtc\<lparr>palData := (palData rtc)\<lparr>subSecCalibration := s32 (?c + s32 (4 * ?a))\<rparr>\<rparr>)"
    unfolding gmosPalRtcAdjustClock_def Let_def raw a scale ..
  moreover have "\<bar>?a\<bar> \<le> 64" by auto
  ultimately show ?thesis using limit [of ?a] by (simp add: rtcCorrection_def)
qed

text \<open>The drift in parts per \<open>2 ^ 20\<close>, rounded, for a drift in seconds over an elapsed time.\<close>

definition driftRate :: "int \<Rightarrow> int \<Rightarrow> int" where
  "driftRate drift elapsed = cdiv (cdiv (drift * 2 ^ 21) elapsed + 1) 2"

lemma cdiv_abs: "b \<noteq> 0 \<Longrightarrow> \<bar>cdiv a b\<bar> \<le> \<bar>a\<bar>"
proof -
  assume b: "b \<noteq> 0"
  have "\<bar>a\<bar> div \<bar>b\<bar> \<le> \<bar>a\<bar> div 1" using b by (intro zdiv_mono2) auto
  moreover have "0 \<le> \<bar>a\<bar> div \<bar>b\<bar>" using b by (simp add: pos_imp_zdiv_nonneg_iff)
  then have "\<bar>cdiv a b\<bar> = (if a = 0 \<or> b = 0 then 0 else \<bar>a\<bar> div \<bar>b\<bar>)"
    unfolding cdiv_def abs_mult abs_sgn_eq by simp
  ultimately show ?thesis by simp
qed

lemma driftRate_sign:
  assumes "0 < e"
  shows "0 \<le> d \<Longrightarrow> 0 \<le> driftRate d e" "d \<le> 0 \<Longrightarrow> driftRate d e \<le> 0"
proof -
  show "0 \<le> driftRate d e" if "0 \<le> d"
    using that assms by (simp add: driftRate_def cdiv_def sgn_if pos_imp_zdiv_nonneg_iff zero_le_mult_iff)
  show "driftRate d e \<le> 0" if d: "d \<le> 0"
  proof (cases "d = 0")
    case False
    then have neg: "d * 2 ^ 21 < 0" using d by (simp add: mult_less_0_iff)
    have "cdiv (d * 2 ^ 21) e = - (\<bar>d * 2 ^ 21\<bar> div e)" using neg assms by (simp add: cdiv_def)
    moreover have "0 \<le> \<bar>d * 2 ^ 21\<bar> div e" using assms by (simp add: pos_imp_zdiv_nonneg_iff)
    ultimately have "cdiv (d * 2 ^ 21) e + 1 \<le> 1" by linarith
    then have "cdiv (cdiv (d * 2 ^ 21) e + 1) 2 \<le> 0"
      by (cases "cdiv (d * 2 ^ 21) e = 0") (auto simp: cdiv_def sgn_if)
    then show ?thesis by (simp add: driftRate_def)
  qed (simp add: driftRate_def cdiv_def)
qed

lemma sub32_eq_0: "a < 4294967296 \<Longrightarrow> b < 4294967296 \<Longrightarrow> sub32 a b = 0 \<longleftrightarrow> a = b"
  by (auto simp: sub32_def)

lemma sub32_bound: "a < 4294967296 \<Longrightarrow> b < 4294967296 \<Longrightarrow> sub32 a b < 4294967296"
  by (auto simp: sub32_def)

lemma s32_eq_0: "x < 4294967296 \<Longrightarrow> s32 (int x) = 0 \<longleftrightarrow> x = 0"
proof (cases "x < 2147483648")
  case False
  assume x: "x < 4294967296"
  have "(int x + 2147483648) mod 4294967296 = (int x - 2147483648 + 4294967296) mod 4294967296" by (simp add: add.commute)
  also have "\<dots> = int x - 2147483648" unfolding mod_add_self2 using x False by simp
  finally show ?thesis using x False by (simp add: s32_def)
qed (simp add: s32_def)

lemma GetTime_ok:
  assumes sh: "rtcShows (palData rtc) n"
    and a: "unat (tm (timerReads sc) - subSecTimestamp (palData rtc)) * unat (subSecIncrement (palData rtc)) < 4294967296"
    and clock: "clock = n * 4294967296 + unat (subSecCounter (palData rtc)) +
      unat (tm (timerReads sc) - subSecTimestamp (palData rtc)) * unat (subSecIncrement (palData rtc))"
    and room: "clock < centurySeconds * 4294967296"
  shows "\<exists>p. gmosDriverRtcGetTime tm rtc sc =
      Some (True, showTime (clock div 4294967296) (palTimeZone (palData rtc)) (palDaylightSaving (palData rtc)),
        rtc\<lparr>palData := p\<rparr>, sc\<lparr>timerReads := Suc (timerReads sc)\<rparr>) \<and>
    rtcShows p (clock div 4294967296) \<and> subSecCalibration p = subSecCalibration (palData rtc)"
proof -
  let ?p = "palData rtc"
  obtain p where p: "updateTimerCounter tm ?p sc = Some (p, sc\<lparr>timerReads := Suc (timerReads sc)\<rparr>)"
    "rtcShows p (clock div 4294967296)" "palTimeZone p = palTimeZone ?p" "palDaylightSaving p = palDaylightSaving ?p"
    "subSecCalibration p = subSecCalibration ?p"
    using updateTimerCounter_ok [where tm = tm and sc = sc and clock = clock, OF sh a clock room] by blast
  have "rtcFields p = showTime (clock div 4294967296) (palTimeZone ?p) (palDaylightSaving ?p)"
    using p by (simp add: rtcShows_def)
  then show ?thesis using p by (intro exI [of _ p]) (simp add: gmosDriverRtcGetTime_def)
qed

subsection \<open>Properties\<close>

text \<open>
  C25: The software clock neither loses nor gains time: over any number of activations of the
  update task that each come before a second has passed, the seconds shown and the sub-second
  counter together advance by exactly the timer ticks times the calibrated increment, across
  the ends of minutes, hours, days, months and years, and the date, the day of the week and the
  time are those the calendar gives. The platform timer may wrap around. The statement ends with
  the year 2099.
\<close>

theorem rtc_clock:
  assumes "rtcShows p n"
    and "timely tm (subSecTimestamp p) (timerReads sc) k (unat (subSecIncrement p))"
    and "clock = n * 4294967296 + unat (subSecCounter p) +
      ticksFrom tm (subSecTimestamp p) (timerReads sc) k * unat (subSecIncrement p)"
    and "clock < centurySeconds * 4294967296"
  shows "\<exists>p' sc'. rtcUpdates tm k p sc = Some (p', sc') \<and>
    rtcFields p' = showTime (clock div 4294967296) (palTimeZone p) (palDaylightSaving p) \<and>
    unat (subSecCounter p') = clock mod 4294967296 \<and>
    rtcShows p' (clock div 4294967296)"
  using rtcUpdates_ok [OF assms(1) refl assms(2-4)] by (auto simp: rtcShows_def)

lemma int_sub32: "a < 4294967296 \<Longrightarrow> b < 4294967296 \<Longrightarrow> int (sub32 a b) = (int a - int b) mod 4294967296"
proof (cases "b \<le> a")
  case False
  assume ab: "a < 4294967296" "b < 4294967296"
  then have "(int a - int b) mod 4294967296 = (int a - int b + 4294967296) mod 4294967296" by simp
  also have "\<dots> = int a - int b + 4294967296" using ab False by (intro mod_pos_pos_trivial) linarith+
  finally show ?thesis using ab False by (simp add: sub32_def)
qed (simp add: sub32_def)

lemma s32_mod: "s32 (x mod 4294967296) = s32 x"
  by (simp add: s32_def mod_simps)

lemma s8_mod: "s8 (x mod 4294967296) = s8 x"
proof -
  have "x mod 4294967296 mod 256 = x mod 256" by (rule mod_mod_cancel) simp
  then show ?thesis unfolding s8_def by (metis mod_add_left_eq)
qed

text \<open>Near the reference time the differences of the 32-bit times are exact.\<close>

lemma clock_offset:
  assumes "cur < 4294967296" "utc < 4294967296" "\<bar>int cur - int utc\<bar> \<le> 15"
  shows "s8 (int (sub32 cur utc)) = int cur - int utc"
  unfolding int_sub32 [OF assms(1,2)] s8_mod using assms(3) by (simp add: s8_def)

lemma clock_drift:
  assumes "cur < 4294967296" "utc < 4294967296" "lrtc < 4294967296" "lref < 4294967296"
    and "\<bar>(int cur - int utc) - (int lrtc - int lref)\<bar> \<le> 30"
  shows "s32 (int (sub32 (sub32 cur lrtc) (sub32 utc lref))) = (int cur - int utc) - (int lrtc - int lref)"
proof -
  have "int (sub32 (sub32 cur lrtc) (sub32 utc lref)) =
      ((int cur - int lrtc) - (int utc - int lref)) mod 4294967296"
    using int_sub32 [OF sub32_bound [OF assms(1,3)] sub32_bound [OF assms(2,4)]] assms
    by (simp add: int_sub32 mod_simps)
  then have "s32 (int (sub32 (sub32 cur lrtc) (sub32 utc lref))) =
      s32 ((int cur - int lrtc) - (int utc - int lref))" by (simp only: s32_mod)
  also have "\<dots> = (int cur - int utc) - (int lrtc - int lref)"
    using assms(5) by (subst s32_small) linarith+
  finally show ?thesis .
qed

lemma drift_scaled:
  assumes "\<bar>drift\<bar> \<le> 30" "elapsed \<noteq> 0"
  shows "cdiv (s32 (cdiv (s32 (drift * 2 ^ 21)) elapsed) + 1) 2 = driftRate drift elapsed"
    "\<bar>driftRate drift elapsed\<bar> < 1073741824"
proof -
  have d: "\<bar>drift * 2 ^ 21\<bar> \<le> 62914560" using assms(1) by (simp add: abs_mult)
  note q = order_trans [OF cdiv_abs [OF assms(2), of "drift * 2 ^ 21"] d]
  have "s32 (drift * 2 ^ 21) = drift * 2 ^ 21" by (rule s32_small) (use d in linarith)+
  moreover have "s32 (cdiv (drift * 2 ^ 21) elapsed) = cdiv (drift * 2 ^ 21) elapsed"
    by (rule s32_small) (use q in linarith)+
  ultimately show "cdiv (s32 (cdiv (s32 (drift * 2 ^ 21)) elapsed) + 1) 2 = driftRate drift elapsed"
    by (simp only: driftRate_def)
  show "\<bar>driftRate drift elapsed\<bar> < 1073741824"
    using cdiv_abs [of 2 "cdiv (drift * 2 ^ 21) elapsed + 1"] q unfolding driftRate_def by linarith
qed

lemma tracking_window:
  assumes "cur < 4294900000" "utc < 4294967296"
  shows "cur > u32 (utc + GMOS_DRIVER_RTC_TRACKING_WINDOW) \<or> cur < sub32 utc GMOS_DRIVER_RTC_TRACKING_WINDOW \<longleftrightarrow>
    utc < 15 \<or> 15 < \<bar>int cur - int utc\<bar>"
proof -
  consider "utc < 15" | "15 \<le> utc" "utc + 15 < 4294967296" | "4294967296 \<le> utc + 15" by linarith
  then show ?thesis
  proof cases
    case 3
    then have "cur < sub32 utc 15" "15 < \<bar>int cur - int utc\<bar>" using assms by (simp_all add: sub32_def)
    then show ?thesis by (simp add: GMOS_DRIVER_RTC_TRACKING_WINDOW_def)
  qed (use assms in \<open>auto simp: GMOS_DRIVER_RTC_TRACKING_WINDOW_def sub32_def\<close>)
qed

text \<open>
  C26: Synchronisation to any 32-bit UTC time, of a clock in an existing time zone that is read
  before a second of its timer has passed, and whose time stamps of the last synchronisation are
  within fifteen seconds of each other, as this function leaves them. With the offset of the clock
  from the reference, and the drift as the change of the offset since then: if the clock is more
  than fifteen seconds off, if its own time cannot be converted to UTC, or if the reference time is
  one of the first fifteen seconds of 2000, the clock is set to the reference in its own time zone,
  with a cleared sub-second counter, or the request is refused when that local time, computed in 32
  bits, is not in the years 2000 to 2099; a refusal changes nothing but the reading of the clock.
  Otherwise the time shown is kept. With neither offset nor drift nothing changes; if the reference
  time is the one of the last synchronisation and the clock differs, the code divides by zero; and
  in the remaining case the increment per tick is corrected by an amount given exactly by offset and
  drift, at most a part in \<open>2 ^ 14\<close>: a clock that is ahead and not losing is slowed down, one that is
  behind and not gaining is made faster.
\<close>

theorem rtc_sync:
  assumes sh: "rtcShows (palData rtc) n"
    and a: "unat (tm (timerReads sc) - subSecTimestamp (palData rtc)) * unat (subSecIncrement (palData rtc)) < 4294967296"
    and clock: "clock = n * 4294967296 + unat (subSecCounter (palData rtc)) +
      unat (tm (timerReads sc) - subSecTimestamp (palData rtc)) * unat (subSecIncrement (palData rtc))"
    and room: "clock < centurySeconds * 4294967296"
    and now: "now = int (clock div 4294967296)"
    and z: "z = zoneSeconds (palTimeZone (palData rtc)) (palDaylightSaving (palData rtc) \<noteq> 0)"
    and tz: "-48 \<le> palTimeZone (palData rtc)" "palTimeZone (palData rtc) \<le> 56"
    and utc: "utc < 4294967296"
    and last: "lastRefTimestamp rtc < 4294967296" "lastRtcTimestamp rtc < 4294967296"
      "\<bar>int (lastRtcTimestamp rtc) - int (lastRefTimestamp rtc)\<bar> \<le> 15"
    and cal: "\<bar>subSecCalibration (palData rtc)\<bar> < 1073741824"
    and off: "off = now - z - int utc"
    and drift: "drift = off - (int (lastRtcTimestamp rtc) - int (lastRefTimestamp rtc))"
    and elapsed: "elapsed = s32 (int utc - int (lastRefTimestamp rtc))"
  shows "if now < z \<or> utc < 15 \<or> 15 < \<bar>off\<bar> then
      if 0 \<le> wrappedLocal utc z \<and> wrappedLocal utc z < int centurySeconds
      then \<exists>rtc' sc'. gmosDriverRtcSyncTime tm rtc utc sc = Some (True, rtc', sc') \<and>
        rtcShows (palData rtc') (nat (wrappedLocal utc z)) \<and> subSecCounter (palData rtc') = 0 \<and>
        subSecCalibration (palData rtc') = subSecCalibration (palData rtc) \<and>
        lastRefTimestamp rtc' = utc \<and> lastRtcTimestamp rtc' = utc
      else \<exists>rtc' sc'. gmosDriverRtcSyncTime tm rtc utc sc = Some (False, rtc', sc') \<and>
        rtcShows (palData rtc') (nat now) \<and> subSecCalibration (palData rtc') = subSecCalibration (palData rtc) \<and>
        lastRefTimestamp rtc' = lastRefTimestamp rtc \<and> lastRtcTimestamp rtc' = lastRtcTimestamp rtc
    else if off = 0 \<and> drift = 0 then
      \<exists>rtc' sc'. gmosDriverRtcSyncTime tm rtc utc sc = Some (True, rtc', sc') \<and>
        rtcShows (palData rtc') (nat now) \<and> subSecCalibration (palData rtc') = subSecCalibration (palData rtc) \<and>
        lastRefTimestamp rtc' = lastRefTimestamp rtc \<and> lastRtcTimestamp rtc' = lastRtcTimestamp rtc
    else if utc = lastRefTimestamp rtc then gmosDriverRtcSyncTime tm rtc utc sc = None
    else \<exists>rtc' sc'. gmosDriverRtcSyncTime tm rtc utc sc = Some (True, rtc', sc') \<and>
      rtcShows (palData rtc') (nat now) \<and>
      subSecCalibration (palData rtc') =
        subSecCalibration (palData rtc) + rtcCorrection off (driftRate drift elapsed) \<and>
      \<bar>rtcCorrection off (driftRate drift elapsed)\<bar> \<le> 256 \<and>
      (0 < elapsed \<and> 0 < off \<and> 0 \<le> drift \<longrightarrow> rtcCorrection off (driftRate drift elapsed) < 0) \<and>
      (0 < elapsed \<and> off < 0 \<and> drift \<le> 0 \<longrightarrow> 0 < rtcCorrection off (driftRate drift elapsed)) \<and>
      (if driftRate drift elapsed = 0
       then lastRefTimestamp rtc' = lastRefTimestamp rtc \<and> lastRtcTimestamp rtc' = lastRtcTimestamp rtc
       else lastRefTimestamp rtc' = utc \<and> int (lastRtcTimestamp rtc') = now - z)"
proof -
  let ?p = "palData rtc" and ?m = "clock div 4294967296"
  let ?t = "showTime ?m (palTimeZone ?p) (palDaylightSaving ?p)" and ?dst = "palDaylightSaving (palData rtc) \<noteq> 0"
  obtain p where p: "gmosDriverRtcGetTime tm rtc sc =
      Some (True, ?t, rtc\<lparr>palData := p\<rparr>, sc\<lparr>timerReads := Suc (timerReads sc)\<rparr>)"
    "rtcShows p ?m" "subSecCalibration p = subSecCalibration ?p"
    using GetTime_ok [where tm = tm and sc = sc and clock = clock, OF sh a clock room] by blast
  let ?rtc = "rtc\<lparr>palData := p\<rparr>" and ?sc = "sc\<lparr>timerReads := Suc (timerReads sc)\<rparr>"
  have m: "?m < centurySeconds" using room by (rule less_mult_imp_div_less)
  have zb: "-43200 \<le> z" "z \<le> 54000" using zone_bounds [OF tz] z by blast+
  have f: "timeZone ?t = palTimeZone ?p" "daylightSaving ?t = palDaylightSaving ?p"
    by (simp_all add: showTime_def Let_def split: prod.splits)
  have shown: "rtcShows p (nat now)" "rtcShows (p\<lparr>subSecCalibration := c\<rparr>) (nat now)" for c
    using p(2) now by (simp_all add: rtcShows_def rtcFields_def)
  define cur where "cur = nat (now - z)"
  have conv: "gmosDriverRtcConvertToUtcTime ?t 0 = Some (if now < z then (False, 0) else (True, cur))"
    and cur: "\<not> now < z \<Longrightarrow> int cur = now - z" "\<not> now < z \<Longrightarrow> cur < 4294900000"
  proof -
    show c: "\<not> now < z \<Longrightarrow> int cur = now - z" by (simp add: cur_def)
    show b: "\<not> now < z \<Longrightarrow> cur < 4294900000" using c now m zb(1) by (simp add: centurySeconds_eq)
    have "nat ((int ?m - z) mod 4294967296) = cur" if "\<not> now < z"
      unfolding now [symmetric] c [OF that, symmetric] using b [OF that] by simp
    then show "gmosDriverRtcConvertToUtcTime ?t 0 = Some (if now < z then (False, 0) else (True, cur))"
      using ToUtc_showTime [OF m, of "palTimeZone ?p" "palDaylightSaving ?p" 0] z now by simp
  qed
  let ?set = "now < z \<or> utc < 15 \<or> 15 < \<bar>off\<bar>"
  have window: "\<not> now < z \<Longrightarrow> cur > u32 (utc + GMOS_DRIVER_RTC_TRACKING_WINDOW) \<or>
      cur < sub32 utc GMOS_DRIVER_RTC_TRACKING_WINDOW \<longleftrightarrow> utc < 15 \<or> 15 < \<bar>off\<bar>"
    using tracking_window [OF cur(2) utc] cur(1) off by simp
  show ?thesis
  proof (cases ?set)
    case True
    have far: "gmosDriverRtcSyncTime tm rtc utc sc =
       (case gmosDriverRtcConvertFromUtcTime ?t utc (palTimeZone ?p) ?dst of (ok, syncTime) \<Rightarrow>
           if \<not> ok then Some (False, ?rtc, ?sc)
           else case gmosPalRtcSetTime tm ?rtc syncTime ?sc of (ok, rtc, sc) \<Rightarrow>
                Some (if \<not> ok then (False, rtc, sc)
                      else (True, rtc\<lparr>lastRefTimestamp := utc, lastRtcTimestamp := utc\<rparr>, sc)))"
    proof (cases "now < z")
      case early: True
      show ?thesis
        unfolding gmosDriverRtcSyncTime_def p(1) Option.bind.simps prod.case conv Let_def f
        using early by (simp only: if_True prod.case simp_thms)
    next
      case False
      show ?thesis
        unfolding gmosDriverRtcSyncTime_def p(1) Option.bind.simps prod.case conv Let_def f if_not_P [OF False]
          window [OF False] using True False by (simp only: if_True prod.case simp_thms)
    qed
    note from_utc = FromUtc_any [OF utc, of ?t "palTimeZone ?p" ?dst, folded z]
    show ?thesis
    proof (cases "0 \<le> wrappedLocal utc z \<and> wrappedLocal utc z < int centurySeconds")
      case in_range: True
      then have "nat (wrappedLocal utc z) < centurySeconds" by linarith
      from SetTime_shows [OF this, of tm ?rtc "palTimeZone ?p" "if ?dst then 1 else 0" ?sc] obtain rtc' sc' where
        "gmosPalRtcSetTime tm ?rtc (showTime (nat (wrappedLocal utc z)) (palTimeZone ?p) (if ?dst then 1 else 0)) ?sc =
           (True, rtc', sc')"
        "rtcShows (palData rtc') (nat (wrappedLocal utc z))" "subSecCounter (palData rtc') = 0"
        "subSecCalibration (palData rtc') = subSecCalibration ?p" using p(3) by auto
      then show ?thesis using True in_range tz far from_utc by simp
    next
      case False
      then have "gmosDriverRtcSyncTime tm rtc utc sc = Some (False, ?rtc, ?sc)" using far from_utc by auto
      then show ?thesis using True False shown(1) p(3) by simp
    qed
  next
    case False
    then have early: "\<not> now < z" and near: "\<not> (utc < 15 \<or> 15 < \<bar>off\<bar>)" by auto
    note cur = cur [OF early]
    have cb: "cur < 4294967296" using cur(2) by simp
    have co: "off = int cur - int utc" using cur(1) off by simp
    have d30: "\<bar>drift\<bar> \<le> 30" using near last(3) drift by linarith
    have "\<bar>int cur - int utc\<bar> \<le> 15" using near co by linarith
    note e_off = clock_offset [OF cb utc this, folded co]
    have e_drift: "s32 (int (sub32 (sub32 cur (lastRtcTimestamp rtc)) (sub32 utc (lastRefTimestamp rtc)))) = drift"
      using clock_drift [OF cb utc last(2,1)] d30 co drift by simp
    have e_el: "s32 (int (sub32 utc (lastRefTimestamp rtc))) = elapsed"
      unfolding int_sub32 [OF utc last(1)] s32_mod elapsed ..
    have zero: "elapsed = 0 \<longleftrightarrow> utc = lastRefTimestamp rtc"
      unfolding e_el [symmetric] using utc last(1) by (simp add: s32_eq_0 sub32_eq_0 sub32_bound)
    let ?rate = "cdiv (s32 (cdiv (s32 (drift * 2 ^ 21)) elapsed) + 1) 2"
    have keep: "lastRefTimestamp ?rtc = lastRefTimestamp rtc" "lastRtcTimestamp ?rtc = lastRtcTimestamp rtc"
      by simp_all
    have sync: "gmosDriverRtcSyncTime tm rtc utc sc =
      (if off = 0 \<and> drift = 0 then Some (True, ?rtc, ?sc)
       else if elapsed = 0 then None
       else case gmosPalRtcAdjustClock ?rtc off ?rate of
         (ok, rtc) \<Rightarrow> Some (if \<not> ok then (False, rtc, ?sc)
           else (True, if ?rate \<noteq> 0 then rtc\<lparr>lastRefTimestamp := utc, lastRtcTimestamp := cur\<rparr> else rtc, ?sc)))"
      unfolding gmosDriverRtcSyncTime_def p(1) Option.bind.simps prod.case conv Let_def f if_not_P [OF early]
        window [OF early] if_not_P [OF near] keep e_off e_drift e_el using near
      by (simp only: if_False simp_thms prod.case)
    consider "off = 0 \<and> drift = 0" | "\<not> (off = 0 \<and> drift = 0)" "utc = lastRefTimestamp rtc"
      | "\<not> (off = 0 \<and> drift = 0)" "utc \<noteq> lastRefTimestamp rtc" by blast
    then show ?thesis
    proof cases
      case 1
      then have "gmosDriverRtcSyncTime tm rtc utc sc = Some (True, ?rtc, ?sc)" using sync by simp
      then show ?thesis unfolding if_not_P [OF False] if_P [OF 1] using shown(1) p(3) by simp
    next
      case 2
      then have "gmosDriverRtcSyncTime tm rtc utc sc = None" unfolding sync zero by simp
      then show ?thesis unfolding if_not_P [OF False] if_not_P [OF 2(1)] using 2(2) by simp
    next
      case 3
      then have nz: "elapsed \<noteq> 0" using zero by simp
      note r = drift_scaled [OF d30 nz]
      let ?c = "subSecCalibration ?p + rtcCorrection off (driftRate drift elapsed)"
      have "\<bar>subSecCalibration (palData ?rtc)\<bar> < 1073741824" using cal p(3) by simp
      from AdjustClock_ok [OF this r(2), of off]
      have "gmosPalRtcAdjustClock ?rtc off (driftRate drift elapsed) =
          (True, rtc\<lparr>palData := p\<lparr>subSecCalibration := ?c\<rparr>\<rparr>)" using p(3) by simp
      then have e: "gmosDriverRtcSyncTime tm rtc utc sc = Some (True,
          if driftRate drift elapsed = 0 then rtc\<lparr>palData := p\<lparr>subSecCalibration := ?c\<rparr>\<rparr>
          else rtc\<lparr>palData := p\<lparr>subSecCalibration := ?c\<rparr>, lastRefTimestamp := utc, lastRtcTimestamp := cur\<rparr>, ?sc)"
        using sync 3(1) nz r(1) by simp
      have signs: "0 < elapsed \<and> 0 < off \<and> 0 \<le> drift \<longrightarrow> rtcCorrection off (driftRate drift elapsed) < 0"
        "0 < elapsed \<and> off < 0 \<and> drift \<le> 0 \<longrightarrow> 0 < rtcCorrection off (driftRate drift elapsed)"
        using rtcCorrection_sign driftRate_sign by blast+
      show ?thesis
        unfolding if_not_P [OF False] if_not_P [OF 3(1)] if_not_P [OF 3(2)] e
        using shown(2) cur(1) signs rtcCorrection_bounds by (cases "driftRate drift elapsed = 0") auto
    qed
  qed
qed

text \<open>The clock after initialisation, with a timer that has not advanced.\<close>

definition palRtcSample :: palRtc where
  "palRtcSample = \<lparr>timerTask = 0, subSecTimestamp = 0, subSecCounter = 0, subSecCalibration = 0, palYear = 0,
     yearBcd = 0, monthBcd = 1, dayOfMonthBcd = 1, palDayOfWeek = 6, hoursBcd = 0, minutesBcd = 0,
     secondsBcd = 0, palTimeZone = 0, palDaylightSaving = 0\<rparr>"

definition rtcSample :: rtcDriver where
  "rtcSample = \<lparr>palData = palRtcSample, lastRefTimestamp = 15, lastRtcTimestamp = 0\<rparr>"

lemma rtcSample_shows: "rtcShows palRtcSample 0"
  by (simp add: rtcShows_def rtcFields_def palRtcSample_def showTime_def dateOf_def weekday_def toBcd_def
      centurySeconds_eq)

lemma rtcSample_fields:
  "subSecTimestamp palRtcSample = 0" "subSecCounter palRtcSample = 0" "palTimeZone palRtcSample = 0"
  "palDaylightSaving palRtcSample = 0" "subSecCalibration palRtcSample = 0" "palData rtcSample = palRtcSample"
  "lastRefTimestamp rtcSample = 15" "lastRtcTimestamp rtcSample = 0" "timerReads bootSched = 0"
  by (simp_all add: palRtcSample_def rtcSample_def bootSched_def)

lemma rtcSample_increment: "unat (subSecIncrement palRtcSample) = 4194304"
  by (simp add: subSecIncrement_def rtcSample_fields GMOS_DRIVER_RTC_SUBSECOND_INCREMENT_def
      GMOS_CONFIG_SYSTEM_TIMER_FREQUENCY_def)

theorem rtc_clock_witness:
  "\<exists>p' sc'. rtcUpdates (\<lambda>i. 307 * word_of_nat (Suc i)) 4 palRtcSample bootSched = Some (p', sc') \<and>
     rtcFields p' = showTime 1 0 0"
proof -
  have four: "(4 :: nat) = Suc (Suc (Suc (Suc 0)))" by simp
  have t: "ticksFrom (\<lambda>i. 307 * word_of_nat (Suc i)) 0 0 4 = 1228"
    "timely (\<lambda>i. 307 * word_of_nat (Suc i)) 0 0 4 4194304"
    unfolding four by simp_all
  show ?thesis
    using rtc_clock [OF rtcSample_shows, where k = 4 and sc = bootSched and clock = 5150605312
        and tm = "\<lambda>i. 307 * word_of_nat (Suc i)"] t
    by (auto simp: rtcSample_fields rtcSample_increment centurySeconds_eq)
qed

text \<open>A clock that is far off is set; one that is seen twice at the same reference time is a fault.\<close>

theorem rtc_sync_witness:
  "(\<exists>rtc' sc'. gmosDriverRtcSyncTime (\<lambda>_. 0) rtcSample 1000000 bootSched = Some (True, rtc', sc') \<and>
     rtcShows (palData rtc') 1000000) \<and>
   gmosDriverRtcSyncTime (\<lambda>_. 0) rtcSample 15 bootSched = None"
proof -
  note r = rtc_sync [of rtcSample 0 "\<lambda>_. 0" bootSched 0 0 0, unfolded rtcSample_fields, OF rtcSample_shows
    _ _ _ _ _ _ _ _ _ _ _ _ refl refl refl]
  show ?thesis
    using r [of 1000000] r [of 15] by (auto simp: centurySeconds_eq zoneSeconds_def wrappedLocal_def)
qed

end
