(* ===== verification/Gmos_Dns_Name.thy ===== *)
theory Gmos_Dns_Name
  imports Gmos_Buffer_Ops
begin

text \<open>
  Names in the DNS client of network/tcpip/common/src/gmos-tcpip-dns.c: checking and formatting a
  name, matching a string or the question of a response against a cache entry, and skipping the
  name of an answer record.

  A null-terminated string is the byte list of the array it is stored in, and reading behind the
  end of the array is a fault. The comparison of memory stops at the first difference. The build
  is the default one without IPv6.

  The specification is a list of labels: \<open>joinLabels\<close> joins them with dots, \<open>dnsEncode\<close> is the
  sequence of length-prefixed labels of RFC 1035.
\<close>

subsection \<open>Cache entries\<close>

record dnsCacheEntry =
  expiryTimestamp :: "32 word"
  retryTimestamp :: "32 word"
  resolvedAddr :: "byte list"
  dnsEntryState :: nat
  retryCount :: nat
  transactionId :: nat

definition GMOS_CONFIG_TCPIP_DNS_MAX_ADDR_SIZE :: nat where
  "GMOS_CONFIG_TCPIP_DNS_MAX_ADDR_SIZE = 4"

definition DNS_ENTRY_SIZE :: nat where
  "DNS_ENTRY_SIZE = 4 + 4 + GMOS_CONFIG_TCPIP_DNS_MAX_ADDR_SIZE + 1 + 1 + 2"

text \<open>The object representation of an entry, which the code copies to and from its buffer.\<close>

definition entryBytes :: "dnsCacheEntry \<Rightarrow> byte list" where
  "entryBytes e = leBytes 4 (unat (expiryTimestamp e)) @ leBytes 4 (unat (retryTimestamp e)) @
     resolvedAddr e @ leBytes 1 (dnsEntryState e) @ leBytes 1 (retryCount e) @ leBytes 2 (transactionId e)"

definition bytesEntry :: "byte list \<Rightarrow> dnsCacheEntry" where
  "bytesEntry bs = \<lparr>expiryTimestamp = of_nat (leNat (take 4 bs)),
     retryTimestamp = of_nat (leNat (take 4 (drop 4 bs))), resolvedAddr = take 4 (drop 8 bs),
     dnsEntryState = leNat (take 1 (drop 12 bs)), retryCount = leNat (take 1 (drop 13 bs)),
     transactionId = leNat (take 2 (drop 14 bs))\<rparr>"

subsection \<open>Labels\<close>

abbreviation DOT :: byte where "DOT \<equiv> 46"
abbreviation HYPHEN :: byte where "HYPHEN \<equiv> 45"

definition gmosTcpipDnsClientCharIsLetter :: "byte \<Rightarrow> bool" where
  "gmosTcpipDnsClientCharIsLetter c \<longleftrightarrow> (c \<ge> 97 \<and> c \<le> 122) \<or> (c \<ge> 65 \<and> c \<le> 90)"

definition gmosTcpipDnsClientCharIsValid :: "byte \<Rightarrow> bool" where
  "gmosTcpipDnsClientCharIsValid c \<longleftrightarrow>
     (c \<ge> 97 \<and> c \<le> 122) \<or> (c \<ge> 65 \<and> c \<le> 90) \<or> (c \<ge> 48 \<and> c \<le> 57) \<or> c = HYPHEN"

definition arrayByte :: "byte list \<Rightarrow> nat \<Rightarrow> byte option" where
  "arrayByte bs i = (if i < length bs then Some (bs ! i) else None)"

text \<open>The loop over the characters: the index it stops at, or no index for a bad character.\<close>

function checkLabelLoop :: "byte list \<Rightarrow> nat \<Rightarrow> nat option option" where
  "checkLabelLoop dnsLabel i =
     (if i < 64
      then do {
        c \<leftarrow> arrayByte dnsLabel i;
        if i = 0
        then (if \<not> gmosTcpipDnsClientCharIsLetter c then Some None else checkLabelLoop dnsLabel (i + 1))
        else if c = DOT \<or> c = 0 then Some (Some i)
        else if \<not> gmosTcpipDnsClientCharIsValid c then Some None
        else checkLabelLoop dnsLabel (i + 1) }
      else Some (Some i))"
  by pat_completeness auto
termination by (relation "measure (\<lambda>(_, i). 64 - i)") auto

declare checkLabelLoop.simps [simp del]

text \<open>The length of the label and the error flag.\<close>

definition gmosTcpipDnsClientCheckLabel :: "byte list \<Rightarrow> (nat \<times> bool) option" where
  "gmosTcpipDnsClientCheckLabel dnsLabel = do {
     r \<leftarrow> checkLabelLoop dnsLabel 0;
     case r of
       None \<Rightarrow> Some (0, True)
     | Some i \<Rightarrow>
         if i \<ge> 64 then Some (0, True)
         else do {
           c \<leftarrow> arrayByte dnsLabel (i - 1);
           if c = HYPHEN then Some (0, True) else Some (i, False) } }"

subsection \<open>Formatting a name\<close>

text \<open>The length of the string, and the loop over its labels with the rest of the array.\<close>

fun stringLength :: "byte list \<Rightarrow> nat option" where
  "stringLength [] = None"
| "stringLength (c # cs) = (if c = 0 then Some 0 else map_option Suc (stringLength cs))"

text \<open>The result of the loop: whether it went through, and the error flag of the last label.\<close>

partial_function (option) formatNameLoop ::
    "mempool \<Rightarrow> gmosBuffer \<Rightarrow> byte list \<Rightarrow> nat \<Rightarrow> (bool \<times> bool \<times> mempool \<times> gmosBuffer) option" where
  "formatNameLoop p buffer segmentStart residualSize =
     (if residualSize > 0
      then do {
        (segmentSize, dnsNameError) \<leftarrow> gmosTcpipDnsClientCheckLabel segmentStart;
        if dnsNameError then Some (False, True, p, buffer)
        else do {
          (ok, p, buffer) \<leftarrow> gmosBufferAppend p buffer [of_nat segmentSize];
          if \<not> ok then Some (False, False, p, buffer)
          else do {
            (ok, p, buffer) \<leftarrow> gmosBufferAppend p buffer (take segmentSize segmentStart);
            if \<not> ok then Some (False, False, p, buffer)
            else formatNameLoop p buffer (drop (segmentSize + 1) segmentStart)
                   (sub32 residualSize (segmentSize + 1)) } } }
      else Some (True, False, p, buffer))"

text \<open>The results are the return value and the error flag.\<close>

definition gmosTcpipDnsClientFormatName ::
    "mempool \<Rightarrow> byte list \<Rightarrow> gmosBuffer \<Rightarrow> (bool \<times> bool \<times> mempool \<times> gmosBuffer) option" where
  "gmosTcpipDnsClientFormatName p dnsName buffer = do {
     len \<leftarrow> stringLength dnsName;
     let residualSize = u32 (1 + len);
     if residualSize = 0 \<or> residualSize > 255 then Some (False, True, p, buffer)
     else do {
       (ok, err, p, buffer) \<leftarrow> formatNameLoop p buffer dnsName residualSize;
       if ok
       then do {
         (ok, p, buffer) \<leftarrow> gmosBufferAppend p buffer [0];
         if ok then Some (True, err, p, buffer)
         else do { (_, p, buffer) \<leftarrow> gmosBufferReset p buffer 0; Some (False, err, p, buffer) } }
       else do { (_, p, buffer) \<leftarrow> gmosBufferReset p buffer 0; Some (False, err, p, buffer) } } }"

subsection \<open>Matching\<close>

fun memEqual :: "byte list \<Rightarrow> byte list \<Rightarrow> nat \<Rightarrow> bool option" where
  "memEqual xs ys 0 = Some True"
| "memEqual (x # xs) (y # ys) (Suc n) = (if x = y then memEqual xs ys n else Some False)"
| "memEqual _ _ (Suc n) = None"

partial_function (option) matchStringLoop ::
    "mempool \<Rightarrow> gmosBuffer \<Rightarrow> byte list \<Rightarrow> nat \<Rightarrow> nat \<Rightarrow> nat \<Rightarrow> nat option" where
  "matchStringLoop p dnsCacheBuffer dnsLabel cacheLabelSize cacheBufferOffset matchLength = do {
     let cacheBufferOffset = cacheBufferOffset + 1;
     r \<leftarrow> gmosBufferRead p dnsCacheBuffer cacheBufferOffset (cacheLabelSize + 1);
     case r of
       None \<Rightarrow> Some 0
     | Some cacheLabelData \<Rightarrow> do {
         equal \<leftarrow> memEqual dnsLabel cacheLabelData cacheLabelSize;
         if \<not> equal then Some 0
         else do {
           let matchLength = u8 (matchLength + 1 + cacheLabelSize);
           let dnsLabel = drop cacheLabelSize dnsLabel;
           let cacheBufferOffset = cacheBufferOffset + cacheLabelSize;
           let cacheLabelSize = unat (cacheLabelData ! cacheLabelSize);
           c \<leftarrow> arrayByte dnsLabel 0;
           if cacheLabelSize = 0 \<and> c = 0 then Some matchLength
           else if cacheLabelSize > 63 \<or> c \<noteq> DOT then Some 0
           else matchStringLoop p dnsCacheBuffer (drop 1 dnsLabel) cacheLabelSize cacheBufferOffset matchLength } } }"

definition gmosTcpipDnsClientCacheMatchString ::
    "mempool \<Rightarrow> gmosBuffer \<Rightarrow> byte list \<Rightarrow> nat option" where
  "gmosTcpipDnsClientCacheMatchString p dnsCacheBuffer dnsName = do {
     let cacheBufferOffset = DNS_ENTRY_SIZE;
     r \<leftarrow> gmosBufferRead p dnsCacheBuffer cacheBufferOffset 1;
     case r of
       None \<Rightarrow> Some 0
     | Some d \<Rightarrow>
         let cacheLabelSize = unat (d ! 0) in
         if cacheLabelSize \<le> 0 \<or> cacheLabelSize > 63 then Some 0
         else matchStringLoop p dnsCacheBuffer dnsName cacheLabelSize cacheBufferOffset 1 }"

partial_function (option) matchBufferLoop ::
    "mempool \<Rightarrow> gmosBuffer \<Rightarrow> gmosBuffer \<Rightarrow> nat \<Rightarrow> nat \<Rightarrow> nat \<Rightarrow> nat \<Rightarrow> nat \<Rightarrow> nat option" where
  "matchBufferLoop p dnsCacheBuffer dnsNameBuffer cacheLabelSize dnsNameLabelSize cacheBufferOffset
      dnsNameBufferOffset matchLength = do {
     let cacheBufferOffset = cacheBufferOffset + 1;
     r \<leftarrow> gmosBufferRead p dnsCacheBuffer cacheBufferOffset (cacheLabelSize + 1);
     case r of
       None \<Rightarrow> Some 0
     | Some cacheLabelData \<Rightarrow> do {
         let dnsNameBufferOffset = u16 (dnsNameBufferOffset + 1);
         r \<leftarrow> gmosBufferRead p dnsNameBuffer dnsNameBufferOffset (dnsNameLabelSize + 1);
         case r of
           None \<Rightarrow> Some 0
         | Some dnsNameLabelData \<Rightarrow> do {
             equal \<leftarrow> memEqual dnsNameLabelData cacheLabelData cacheLabelSize;
             if \<not> equal then Some 0
             else let matchLength = u8 (matchLength + 1 + cacheLabelSize);
                      dnsNameBufferOffset = u16 (dnsNameBufferOffset + cacheLabelSize);
                      cacheBufferOffset = cacheBufferOffset + cacheLabelSize;
                      cacheLabelSize' = unat (cacheLabelData ! cacheLabelSize);
                      dnsNameLabelSize' = unat (dnsNameLabelData ! dnsNameLabelSize)
                  in if cacheLabelSize' = 0 \<and> dnsNameLabelSize' = 0 then Some matchLength
                     else if cacheLabelSize' > 63 \<or> cacheLabelSize' \<noteq> dnsNameLabelSize' then Some 0
                     else matchBufferLoop p dnsCacheBuffer dnsNameBuffer cacheLabelSize' dnsNameLabelSize'
                            cacheBufferOffset dnsNameBufferOffset matchLength } } }"

definition gmosTcpipDnsClientCacheMatchBuffer ::
    "mempool \<Rightarrow> gmosBuffer \<Rightarrow> gmosBuffer \<Rightarrow> nat \<Rightarrow> nat option" where
  "gmosTcpipDnsClientCacheMatchBuffer p dnsCacheBuffer dnsNameBuffer dnsNameBufferOffset = do {
     let cacheBufferOffset = DNS_ENTRY_SIZE;
     r \<leftarrow> gmosBufferRead p dnsCacheBuffer cacheBufferOffset 1;
     case r of
       None \<Rightarrow> Some 0
     | Some d \<Rightarrow> do {
         let cacheLabelSize = unat (d ! 0);
         r \<leftarrow> gmosBufferRead p dnsNameBuffer dnsNameBufferOffset 1;
         case r of
           None \<Rightarrow> Some 0
         | Some d \<Rightarrow>
             let dnsNameLabelSize = unat (d ! 0) in
             if cacheLabelSize \<noteq> dnsNameLabelSize \<or> cacheLabelSize \<le> 0 \<or> cacheLabelSize > 63 then Some 0
             else matchBufferLoop p dnsCacheBuffer dnsNameBuffer cacheLabelSize dnsNameLabelSize
                    cacheBufferOffset dnsNameBufferOffset 1 } }"

text \<open>The offset behind a name, zero when the message ends before the name does.\<close>

partial_function (option) gmosTcpipDnsClientResponseSkipDnsName ::
    "mempool \<Rightarrow> gmosBuffer \<Rightarrow> nat \<Rightarrow> nat option" where
  "gmosTcpipDnsClientResponseSkipDnsName p payload payloadOffset = do {
     r \<leftarrow> gmosBufferRead p payload payloadOffset 1;
     case r of
       None \<Rightarrow> Some 0
     | Some d \<Rightarrow>
         let segmentSize = unat (d ! 0) in
         if segmentSize = 0 then Some (u16 (payloadOffset + 1))
         else if and segmentSize 0xC0 = 0xC0 then Some (u16 (payloadOffset + 2))
         else gmosTcpipDnsClientResponseSkipDnsName p payload (u16 (payloadOffset + (1 + segmentSize))) }"

subsection \<open>Names\<close>

text \<open>The labels of RFC 1035, section 2.3.1, over the ASCII codes of letters and digits.\<close>

definition rfcLetters :: "byte set" where
  "rfcLetters = {65..90} \<union> {97..122}"

definition rfcDigits :: "byte set" where
  "rfcDigits = {48..57}"

definition okLabel :: "byte list \<Rightarrow> bool" where
  "okLabel l \<longleftrightarrow> l \<noteq> [] \<and> length l \<le> 63 \<and> hd l \<in> rfcLetters \<and>
     set l \<subseteq> rfcLetters \<union> rfcDigits \<union> {HYPHEN} \<and> last l \<in> rfcLetters \<union> rfcDigits"

lemma letter_code: "gmosTcpipDnsClientCharIsLetter c \<longleftrightarrow> c \<in> rfcLetters"
  by (auto simp: gmosTcpipDnsClientCharIsLetter_def rfcLetters_def)

lemma valid_code: "gmosTcpipDnsClientCharIsValid c \<longleftrightarrow> c \<in> rfcLetters \<union> rfcDigits \<union> {HYPHEN}"
  by (auto simp: gmosTcpipDnsClientCharIsValid_def rfcLetters_def rfcDigits_def)

lemma hyphen_code: "HYPHEN \<notin> rfcLetters \<union> rfcDigits"
  by (simp add: rfcLetters_def rfcDigits_def)

lemma okLabel_code:
  "okLabel l \<longleftrightarrow> l \<noteq> [] \<and> length l \<le> 63 \<and> gmosTcpipDnsClientCharIsLetter (hd l) \<and>
     (\<forall>c\<in>set l. gmosTcpipDnsClientCharIsValid c) \<and> last l \<noteq> HYPHEN"
proof -
  have "last l \<in> rfcLetters \<union> rfcDigits \<longleftrightarrow> last l \<noteq> HYPHEN"
    if "l \<noteq> []" "set l \<subseteq> rfcLetters \<union> rfcDigits \<union> {HYPHEN}"
    using subsetD [OF that(2) last_in_set [OF that(1)]] hyphen_code by auto
  then show ?thesis unfolding okLabel_def letter_code valid_code by blast
qed

fun splitName :: "byte list \<Rightarrow> byte list list" where
  "splitName [] = [[]]"
| "splitName (c # cs) =
     (if c = DOT then [] # splitName cs else (c # hd (splitName cs)) # tl (splitName cs))"

fun joinLabels :: "byte list list \<Rightarrow> byte list" where
  "joinLabels [] = []"
| "joinLabels [l] = l"
| "joinLabels (l # ls) = l @ DOT # joinLabels ls"

definition labelBytes :: "byte list \<Rightarrow> byte list" where
  "labelBytes l = of_nat (length l) # l"

definition dnsEncode :: "byte list list \<Rightarrow> byte list" where
  "dnsEncode ls = concat (map labelBytes ls) @ [0]"

text \<open>
  A name of RFC 1035: its encoding has at most 255 octets (section 2.3.4). The code allows one
  octet more.
\<close>

definition validName :: "byte list \<Rightarrow> bool" where
  "validName s \<longleftrightarrow> (\<forall>l\<in>set (splitName s). okLabel l) \<and> length (dnsEncode (splitName s)) \<le> 255"

definition acceptedName :: "byte list \<Rightarrow> bool" where
  "acceptedName s \<longleftrightarrow> (\<forall>l\<in>set (splitName s). okLabel l) \<and> length (dnsEncode (splitName s)) \<le> 256"

lemma splitName_nonempty [simp]: "splitName s \<noteq> []"
  by (cases s) simp_all

lemma joinLabels_Cons: "ls \<noteq> [] \<Longrightarrow> joinLabels (l # ls) = l @ DOT # joinLabels ls"
  by (cases ls) simp_all

lemma joinLabels_splitName: "joinLabels (splitName s) = s"
proof (induction s)
  case (Cons c cs)
  obtain l ls where s: "splitName cs = l # ls" by (cases "splitName cs") auto
  show ?case using Cons by (cases ls) (simp_all add: s)
qed simp

lemma splitName_label: "DOT \<notin> set l \<Longrightarrow> splitName l = [l]"
  by (induction l) auto

lemma splitName_append: "DOT \<notin> set l \<Longrightarrow> splitName (l @ DOT # s) = l # splitName s"
  by (induction l) auto

text \<open>A string is one label, or a label, a dot and the rest.\<close>

lemma name_cases:
  obtains "DOT \<notin> set s" "splitName s = [s]"
    | l s' where "s = l @ DOT # s'" "DOT \<notin> set l" "splitName s = l # splitName s'"
proof (cases "DOT \<in> set s")
  case True
  then obtain l s' where "s = l @ DOT # s'" "DOT \<notin> set l" by (meson split_list_first)
  then show thesis using that(2) splitName_append by simp
qed (use that(1) splitName_label in simp)

lemma length_labels: "length (concat (map labelBytes (splitName s))) = Suc (length s)"
proof (induction s)
  case (Cons c cs)
  obtain l ls where s: "splitName cs = l # ls" by (cases "splitName cs") auto
  show ?case using Cons by (simp add: s labelBytes_def)
qed (simp add: labelBytes_def)

lemma length_dnsEncode: "length (dnsEncode (splitName s)) = length s + 2"
  by (simp add: dnsEncode_def length_labels)

lemma acceptedName_iff: "acceptedName s \<longleftrightarrow> length s \<le> 254 \<and> (\<forall>l\<in>set (splitName s). okLabel l)"
  by (auto simp: acceptedName_def length_dnsEncode)

lemma validName_iff: "validName s \<longleftrightarrow> acceptedName s \<and> length s \<noteq> 254"
  by (auto simp: acceptedName_def validName_def length_dnsEncode)

lemma matchLength: "acceptedName s \<Longrightarrow> u8 (length s + 2) = (if validName s then length s + 2 else 0)"
  by (cases "length s = 254") (auto simp: validName_iff acceptedName_iff u8_def)

subsection \<open>Checking a label\<close>

definition firstLabel :: "byte list \<Rightarrow> byte list" where
  "firstLabel a = takeWhile (\<lambda>c. c \<noteq> DOT \<and> c \<noteq> 0) a"

lemma firstLabel_nth: "i < length (firstLabel a) \<Longrightarrow>
  arrayByte a i = Some (firstLabel a ! i) \<and> firstLabel a ! i \<noteq> DOT \<and> firstLabel a ! i \<noteq> 0"
proof -
  assume i: "i < length (firstLabel a)"
  then have "i < length a" unfolding firstLabel_def by (rule order_less_le_trans) (rule length_takeWhile_le)
  moreover have "firstLabel a ! i = a ! i" using i unfolding firstLabel_def by (rule takeWhile_nth)
  moreover have "firstLabel a ! i \<in> set (firstLabel a)" using i by simp
  ultimately show ?thesis by (auto simp: arrayByte_def firstLabel_def dest: set_takeWhileD)
qed

lemma firstLabel_end:
  assumes "0 \<in> set a"
  shows "\<exists>c. arrayByte a (length (firstLabel a)) = Some c \<and> (c = DOT \<or> c = 0)"
  using assms
proof (induction a)
  case (Cons x xs)
  then show ?case by (auto simp: firstLabel_def arrayByte_def split: if_splits)
qed simp

lemma checkLabelLoop_eq:
  assumes "0 \<in> set a"
  shows "1 \<le> i \<Longrightarrow> i \<le> 64 \<Longrightarrow> i \<le> length (firstLabel a) \<Longrightarrow>
    checkLabelLoop a i = Some (if \<forall>c\<in>set (take (64 - i) (drop i (firstLabel a))). gmosTcpipDnsClientCharIsValid c
      then Some (min 64 (length (firstLabel a))) else None)"
  using assms
proof (induction a i rule: checkLabelLoop.induct)
  case (1 a i)
  let ?l = "firstLabel a"
  show ?case
  proof (cases "i < 64")
    case False
    then show ?thesis using 1 by (subst checkLabelLoop.simps) simp
  next
    case lt: True
    show ?thesis
    proof (cases "i < length ?l")
      case True
      note n = firstLabel_nth [OF True]
      have d: "take (64 - i) (drop i ?l) = ?l ! i # take (64 - (i + 1)) (drop (i + 1) ?l)"
        using True lt by (simp add: Cons_nth_drop_Suc [symmetric] Suc_diff_Suc take_Cons')
      have ih: "checkLabelLoop a (i + 1) =
          Some (if \<forall>c\<in>set (take (64 - (i + 1)) (drop (i + 1) ?l)). gmosTcpipDnsClientCharIsValid c
            then Some (min 64 (length ?l)) else None)" if "gmosTcpipDnsClientCharIsValid (?l ! i)"
        using 1(2) [OF lt, of "?l ! i"] n 1(3,6) lt True that by simp
      have s: "checkLabelLoop a i = (if \<not> gmosTcpipDnsClientCharIsValid (?l ! i) then Some None
          else checkLabelLoop a (i + 1))"
        using 1(3) lt n by (subst checkLabelLoop.simps) simp
      show ?thesis unfolding s d using ih by simp
    next
      case False
      then have i: "i = length ?l" using 1(5) by simp
      obtain c where c: "arrayByte a i = Some c" "c = DOT \<or> c = 0" using firstLabel_end [OF 1(6)] i by blast
      have "checkLabelLoop a i = Some (Some i)"
        using 1(3) lt c by (subst checkLabelLoop.simps) auto
      then show ?thesis using i lt by simp
    qed
  qed
qed

lemma letter_valid: "gmosTcpipDnsClientCharIsLetter c \<Longrightarrow> gmosTcpipDnsClientCharIsValid c"
  by (auto simp: gmosTcpipDnsClientCharIsLetter_def gmosTcpipDnsClientCharIsValid_def)

lemma CheckLabel_ok:
  assumes z: "0 \<in> set a"
  shows "gmosTcpipDnsClientCheckLabel a =
    Some (if okLabel (firstLabel a) then (length (firstLabel a), False) else (0, True))"
proof (cases "firstLabel a")
  case Nil
  then obtain c where c: "arrayByte a 0 = Some c" "c = DOT \<or> c = 0" using firstLabel_end [OF z] by auto
  have "\<not> gmosTcpipDnsClientCharIsLetter c" using c(2) by (auto simp: gmosTcpipDnsClientCharIsLetter_def)
  then have "checkLabelLoop a 0 = Some None" using c(1) by (subst checkLabelLoop.simps) simp
  then show ?thesis using Nil by (simp add: gmosTcpipDnsClientCheckLabel_def okLabel_code)
next
  case (Cons h t)
  let ?l = "firstLabel a"
  have h: "arrayByte a 0 = Some h" using firstLabel_nth [of 0 a] Cons by simp
  show ?thesis
  proof (cases "gmosTcpipDnsClientCharIsLetter h")
    case False
    then have "checkLabelLoop a 0 = Some None" using h by (subst checkLabelLoop.simps) simp
    then show ?thesis using Cons False by (simp add: gmosTcpipDnsClientCheckLabel_def okLabel_code)
  next
    case True
    have "checkLabelLoop a 0 = checkLabelLoop a 1" using h True by (subst checkLabelLoop.simps) simp
    also have "\<dots> = Some (if \<forall>c\<in>set (take 63 t). gmosTcpipDnsClientCharIsValid c
        then Some (min 64 (length ?l)) else None)"
      using checkLabelLoop_eq [OF z, of 1] Cons by simp
    finally have loop: "checkLabelLoop a 0 = Some (if \<forall>c\<in>set (take 63 t). gmosTcpipDnsClientCharIsValid c
        then Some (min 64 (length ?l)) else None)" .
    show ?thesis
    proof (cases "length ?l \<le> 63")
      case False
      then show ?thesis by (simp add: gmosTcpipDnsClientCheckLabel_def loop okLabel_code)
    next
      case short: True
      then have t: "take 63 t = t" using Cons by simp
      have "length ?l - 1 < length ?l" using Cons by simp
      then have "arrayByte a (length ?l - 1) = Some (?l ! (length ?l - 1))" using firstLabel_nth by blast
      moreover have "?l ! (length ?l - 1) = last ?l" using Cons by (simp add: last_conv_nth)
      ultimately show ?thesis
        using short True Cons letter_valid [OF True] h
        by (simp add: gmosTcpipDnsClientCheckLabel_def loop t okLabel_code)
    qed
  qed
qed

subsection \<open>Formatting\<close>

text \<open>A static pool that has room for \<open>n\<close> more bytes at the end of a buffer.\<close>

definition roomFor :: "mempool \<Rightarrow> gmosBuffer \<Rightarrow> nat \<Rightarrow> bool" where
  "roomFor p b n \<longleftrightarrow> \<not> mempoolUseHeap p \<and>
     need (bufferOffset b + bufferSize b + n) - need (bufferOffset b + bufferSize b) \<le> avail p"

lemma Append_room:
  assumes st: "buf_state p b ds R" and n: "length ds + length w < 65536"
  obtains ok p' b' where "gmosBufferAppend p b w = Some (ok, p', b')"
    "buf_state p' b' (if ok then ds @ w else ds) R" "same_on R p p'"
    "\<And>k. roomFor p b (length w + k) \<Longrightarrow> ok \<and> roomFor p' b' k"
proof -
  have w: "length w < 65536" using n by simp
  obtain ok p' b' where r: "gmosBufferAppend p b w = Some (ok, p', b')"
    "same_on R p p'" "mempoolUseHeap p' = mempoolUseHeap p"
    "ok \<longleftrightarrow> length ds + length w < 65536 \<and>
      need (bufferOffset b + length ds + length w) - need (bufferOffset b + length ds) \<le> avail p"
    "\<not> ok \<Longrightarrow> b' = b" "buf_state p' b' (if ok then ds @ w else ds) R"
    "\<not> mempoolUseHeap p \<Longrightarrow> avail p' =
      (if ok then avail p -
         (need (bufferOffset b + length ds + length w) - need (bufferOffset b + length ds))
       else avail p)"
    by (rule gmosBufferAppend_ok [OF st w]) (rule that)
  have s: "bufferSize b = length ds" using buf_state_size [OF st] by simp
  have "ok \<and> roomFor p' b' k" if k: "roomFor p b (length w + k)" for k
  proof -
    have h: "\<not> mempoolUseHeap p" and a: "need (bufferOffset b + length ds + (length w + k)) -
        need (bufferOffset b + length ds) \<le> avail p" using k by (simp_all add: roomFor_def s)
    have m: "need (bufferOffset b + length ds) \<le> need (bufferOffset b + length ds + length w)"
      "need (bufferOffset b + length ds + length w) \<le> need (bufferOffset b + length ds + (length w + k))"
      by (rule need_mono; simp)+
    have ok: "ok" unfolding r(4) using n a m by linarith
    have s': "bufferSize b' = length ds + length w" using buf_state_size [OF r(6)] ok by simp
    have o': "bufferOffset b' = bufferOffset b" by (rule Append_offset [OF r(1)])
    show ?thesis using ok h a m r(3) r(7) [OF h] by (simp add: roomFor_def s' o' add.assoc)
  qed
  then show thesis using that [OF r(1,6,2)] by blast
qed

lemma stringLength_ok: "0 \<notin> set s \<Longrightarrow> stringLength (s @ 0 # junk) = Some (length s)"
  by (induction s) auto

lemma firstLabel_dot: "DOT \<notin> set l \<Longrightarrow> 0 \<notin> set l \<Longrightarrow> c = DOT \<or> c = 0 \<Longrightarrow> firstLabel (l @ c # t) = l"
  by (induction l) (auto simp: firstLabel_def)

lemma u8_of_label: "length l \<le> 63 \<Longrightarrow> unat (of_nat (length l) :: byte) = length l"
  by (simp add: unsigned_of_nat take_bit_nat_eq_self)

text \<open>One label: its length byte and its characters, or a refusal that leaves a prefix.\<close>

lemma formatNameLoop_ok:
  assumes "buf_state p b ds R" "0 \<notin> set s" "length ds + length s + 2 < 65536"
  shows "\<exists>ok err p' b' ds'. formatNameLoop p b (s @ 0 # junk) (Suc (length s)) = Some (ok, err, p', b') \<and>
    buf_state p' b' ds' R \<and> same_on R p p' \<and>
    (ok \<longrightarrow> \<not> err \<and> (\<forall>l\<in>set (splitName s). okLabel l) \<and> ds' = ds @ concat (map labelBytes (splitName s))) \<and>
    (err \<longrightarrow> \<not> (\<forall>l\<in>set (splitName s). okLabel l)) \<and>
    (\<forall>k. roomFor p b (Suc (length s) + k) \<longrightarrow>
      (if ok then roomFor p' b' k else err))"
  using assms
proof (induction "length s" arbitrary: s p b ds rule: less_induct)
  case less
  obtain l rest where s: "splitName s = l # rest" "DOT \<notin> set l" "0 \<notin> set l"
    "s @ 0 # junk = l @ (if rest = [] then 0 else DOT) # drop (Suc (length l)) (s @ 0 # junk)"
    "rest = [] \<Longrightarrow> length s = length l"
    "rest \<noteq> [] \<Longrightarrow> \<exists>s'. splitName s' = rest \<and> length s = Suc (length l) + length s' \<and> 0 \<notin> set s' \<and>
       drop (Suc (length l)) (s @ 0 # junk) = s' @ 0 # junk"
  proof (cases rule: name_cases [of s])
    case 1
    then show thesis using that [of s "[]"] less.prems(2) by simp
  next
    case (2 l s')
    then show thesis using that [of l "splitName s'"] less.prems(2) by auto
  qed
  have fl: "firstLabel (s @ 0 # junk) = l"
    by (subst s(4), rule firstLabel_dot) (use s(2,3) in auto)
  have z: "0 \<in> set (s @ 0 # junk)" by simp
  note cl = CheckLabel_ok [OF z, unfolded fl]
  have tk: "take (length l) (s @ 0 # junk) = l" by (subst s(4)) simp
  show ?case
  proof (cases "okLabel l")
    case False
    then have "formatNameLoop p b (s @ 0 # junk) (Suc (length s)) = Some (False, True, p, b)"
      by (subst formatNameLoop.simps) (simp add: cl)
    then show ?thesis using less.prems(1) s(1) False by (intro exI conjI) auto
  next
    case True
    have len: "length l \<le> length s" using s(5,6) by (cases "rest = []") auto
    have tk': "take (length l) s = l" using tk len by simp
    have n1: "length ds + length [of_nat (length l) :: byte] < 65536" using less.prems(3) by simp
    from Append_room [OF less.prems(1) n1] obtain ok1 p1 b1 where
      a1: "gmosBufferAppend p b [of_nat (length l)] = Some (ok1, p1, b1)"
      "buf_state p1 b1 (if ok1 then ds @ [of_nat (length l)] else ds) R" "same_on R p p1"
      "\<And>k. roomFor p b (length [of_nat (length l) :: byte] + k) \<Longrightarrow> ok1 \<and> roomFor p1 b1 k" by blast
    show ?thesis
    proof (cases ok1)
      case False
      then have "formatNameLoop p b (s @ 0 # junk) (Suc (length s)) = Some (False, False, p1, b1)"
        using a1(1) True by (subst formatNameLoop.simps) (simp add: cl)
      moreover have "\<not> roomFor p b (Suc (length s) + k)" for k
        using a1(4) [of "length s + k"] False by auto
      ultimately show ?thesis using a1(2,3) False by (intro exI conjI) auto
    next
      case ok1: True
      have n2: "length (ds @ [of_nat (length l)]) + length l < 65536" using less.prems(3) len by simp
      have st1: "buf_state p1 b1 (ds @ [of_nat (length l)]) R" using a1(2) ok1 by simp
      from Append_room [OF st1 n2] obtain ok2 p2 b2 where
        a2: "gmosBufferAppend p1 b1 l = Some (ok2, p2, b2)"
        "buf_state p2 b2 (if ok2 then (ds @ [of_nat (length l)]) @ l else ds @ [of_nat (length l)]) R" "same_on R p1 p2"
        "\<And>k. roomFor p1 b1 (length l + k) \<Longrightarrow> ok2 \<and> roomFor p2 b2 k" by blast
      have so: "same_on R p p2" using a1(3) a2(3) by (rule same_on_trans)
      have room: "ok2 \<and> roomFor p2 b2 k" if "roomFor p b (Suc (length l) + k)" for k
        using a1(4) [of "length l + k"] a2(4) [of k] that by simp
      have step: "formatNameLoop p b (s @ 0 # junk) (Suc (length s)) =
          (if \<not> ok2 then Some (False, False, p2, b2)
           else formatNameLoop p2 b2 (drop (Suc (length l)) (s @ 0 # junk)) (length s - length l))"
        using a1(1) a2(1) True ok1 len by (subst formatNameLoop.simps) (simp add: cl tk')
      show ?thesis
      proof (cases "ok2 \<and> rest \<noteq> []")
        case False
        show ?thesis
        proof (cases ok2)
          case no: False
          moreover have "\<not> roomFor p b (Suc (length s) + k)" for k
            using room [of "length s - length l + k"] no len by auto
          ultimately show ?thesis using step a2(2) so by (intro exI conjI) auto
        next
          case yes: True
          then have r: "rest = []" "length s = length l" using False s(5) by auto
          have "formatNameLoop p b (s @ 0 # junk) (Suc (length s)) = Some (True, False, p2, b2)"
            using step yes r(2) by (simp add: formatNameLoop.simps)
          moreover have "buf_state p2 b2 (ds @ concat (map labelBytes (splitName s))) R"
            using a2(2) yes r(1) s(1) by (simp add: labelBytes_def)
          ultimately show ?thesis using so True s(1) r room by (intro exI conjI) auto
        qed
      next
        case go: True
        obtain s' where s': "splitName s' = rest" "length s = Suc (length l) + length s'" "0 \<notin> set s'"
          "drop (Suc (length l)) (s @ 0 # junk) = s' @ 0 # junk" using s(6) go by blast
        let ?ds = "ds @ labelBytes l"
        have st2: "buf_state p2 b2 ?ds R" using a2(2) go by (simp add: labelBytes_def)
        have ln: "length ?ds + length s' + 2 < 65536" using less.prems(3) s'(2) by (simp add: labelBytes_def)
        have lt: "length s' < length s" using s'(2) by simp
        from less.hyps [OF lt st2 s'(3) ln, unfolded s'(1)] obtain ok err p' b' ds' where
          ih: "formatNameLoop p2 b2 (s' @ 0 # junk) (Suc (length s')) = Some (ok, err, p', b')"
          "buf_state p' b' ds' R" "same_on R p2 p'"
          "ok \<longrightarrow> \<not> err \<and> (\<forall>l\<in>set rest. okLabel l) \<and> ds' = ?ds @ concat (map labelBytes rest)"
          "err \<longrightarrow> \<not> (\<forall>l\<in>set rest. okLabel l)"
          "\<forall>k. roomFor p2 b2 (Suc (length s') + k) \<longrightarrow> (if ok then roomFor p' b' k else err)"
          by (elim exE conjE) (rule that)
        have "formatNameLoop p b (s @ 0 # junk) (Suc (length s)) = Some (ok, err, p', b')"
          using step go s'(2,4) ih(1) by simp
        moreover have "if ok then roomFor p' b' k else err" if "roomFor p b (Suc (length s) + k)" for k
          using room [of "Suc (length s') + k"] that s'(2) ih(6) [rule_format, of k] by (simp add: add.assoc)
        ultimately show ?thesis using ih(2,4,5) same_on_trans [OF so ih(3)] True s(1)
          by (intro exI conjI) auto
      qed
    qed
  qed
qed

lemma Reset_empty:
  assumes "buf_state p b ds R"
  shows "\<exists>ok p' b'. gmosBufferReset p b 0 = Some (ok, p', b') \<and> buf_state p' b' [] R \<and> same_on R p p'"
proof -
  obtain ok p' b' ds' where r: "gmosBufferReset p b 0 = Some (ok, p', b')" "same_on R p p'"
    "buf_state p' b' ds' R" "length ds' = (if ok then 0 else 0)"
    by (rule gmosBufferReset_ok [OF assms, of 0]) (auto intro: that)
  then show ?thesis by auto
qed

lemma FormatName_ok:
  assumes st: "buf_state p b ds R" and s: "0 \<notin> set s" "length s \<le> 254" and n: "length ds < 65000"
  shows "\<exists>ok err p' b'. gmosTcpipDnsClientFormatName p (s @ 0 # junk) b = Some (ok, err, p', b') \<and>
    buf_state p' b' (if ok then ds @ dnsEncode (splitName s) else []) R \<and> same_on R p p' \<and>
    (ok \<longrightarrow> acceptedName s \<and> \<not> err) \<and> (err \<longrightarrow> \<not> acceptedName s) \<and>
    (roomFor p b (length s + 2) \<longrightarrow> ok \<or> err)"
proof -
  have len: "length ds + length s + 2 < 65536" using s n by simp
  from formatNameLoop_ok [OF st s(1) len, of junk] obtain ok err p1 b1 ds1 where
    l: "formatNameLoop p b (s @ 0 # junk) (Suc (length s)) = Some (ok, err, p1, b1)"
    "buf_state p1 b1 ds1 R" "same_on R p p1"
    "ok \<longrightarrow> \<not> err \<and> (\<forall>l\<in>set (splitName s). okLabel l) \<and> ds1 = ds @ concat (map labelBytes (splitName s))"
    "err \<longrightarrow> \<not> (\<forall>l\<in>set (splitName s). okLabel l)"
    "\<forall>k. roomFor p b (Suc (length s) + k) \<longrightarrow> (if ok then roomFor p1 b1 k else err)"
    by (elim exE conjE) (rule that)
  have v: "acceptedName s \<longleftrightarrow> (\<forall>l\<in>set (splitName s). okLabel l)" using s(2) by (simp add: acceptedName_iff)
  have def: "gmosTcpipDnsClientFormatName p (s @ 0 # junk) b =
      (if ok then do {
         (ok, p, buffer) \<leftarrow> gmosBufferAppend p1 b1 [0];
         if ok then Some (True, err, p, buffer)
         else do { (_, p, buffer) \<leftarrow> gmosBufferReset p buffer 0; Some (False, err, p, buffer) } }
       else do { (_, p, buffer) \<leftarrow> gmosBufferReset p1 b1 0; Some (False, err, p, buffer) })"
    using s l(1) by (simp add: gmosTcpipDnsClientFormatName_def stringLength_ok)
  show ?thesis
  proof (cases ok)
    case False
    from Reset_empty [OF l(2)] obtain q p2 b2 where
      r: "gmosBufferReset p1 b1 0 = Some (q, p2, b2)" "buf_state p2 b2 [] R" "same_on R p1 p2" by blast
    have "gmosTcpipDnsClientFormatName p (s @ 0 # junk) b = Some (False, err, p2, b2)"
      using def False r(1) by simp
    moreover have "roomFor p b (length s + 2) \<longrightarrow> err" using l(6) [rule_format, of 1] False by simp
    ultimately show ?thesis
      using r(2) same_on_trans [OF l(3) r(3)] l(5) v by (intro exI conjI) auto
  next
    case True
    then have ds1: "ds1 = ds @ concat (map labelBytes (splitName s))" "\<not> err" "acceptedName s" using l(4) v by auto
    have "length ds1 + length [0 :: byte] < 65536" using len by (simp add: ds1(1) length_labels)
    from Append_room [OF l(2) this] obtain ok2 p2 b2 where
      a: "gmosBufferAppend p1 b1 [0] = Some (ok2, p2, b2)"
      "buf_state p2 b2 (if ok2 then ds1 @ [0] else ds1) R" "same_on R p1 p2"
      "\<And>k. roomFor p1 b1 (length [0 :: byte] + k) \<Longrightarrow> ok2 \<and> roomFor p2 b2 k" by blast
    show ?thesis
    proof (cases ok2)
      case ok2: True
      have "gmosTcpipDnsClientFormatName p (s @ 0 # junk) b = Some (True, err, p2, b2)"
        using def True ok2 a(1) by simp
      moreover have "buf_state p2 b2 (ds @ dnsEncode (splitName s)) R"
        using a(2) ok2 by (simp add: ds1(1) dnsEncode_def)
      ultimately show ?thesis
        using same_on_trans [OF l(3) a(3)] ds1(2,3) by (intro exI conjI) auto
    next
      case no: False
      from Reset_empty [OF a(2)] obtain q p3 b3 where
        r: "gmosBufferReset p2 b2 0 = Some (q, p3, b3)" "buf_state p3 b3 [] R" "same_on R p2 p3" by blast
      have "gmosTcpipDnsClientFormatName p (s @ 0 # junk) b = Some (False, err, p3, b3)"
        using def True no a(1) r(1) by simp
      moreover have "\<not> roomFor p b (length s + 2)"
        using l(6) [rule_format, of 1] True a(4) [of 0] no by auto
      ultimately show ?thesis
        using r(2) same_on_trans [OF same_on_trans [OF l(3) a(3)] r(3)] ds1(2) by (intro exI conjI) auto
    qed
  qed
qed

lemma FormatName_long:
  assumes "0 \<notin> set s" "254 < length s" "length s < 4294967295"
  shows "gmosTcpipDnsClientFormatName p (s @ 0 # junk) b = Some (False, True, p, b)"
  using assms by (simp add: gmosTcpipDnsClientFormatName_def stringLength_ok)

subsection \<open>Matching a string\<close>

definition plainLabel :: "byte list \<Rightarrow> bool" where
  "plainLabel l \<longleftrightarrow> l \<noteq> [] \<and> length l \<le> 63 \<and> DOT \<notin> set l \<and> 0 \<notin> set l"

lemma okLabel_plain: "okLabel l \<Longrightarrow> plainLabel l"
  by (auto simp: okLabel_code plainLabel_def gmosTcpipDnsClientCharIsValid_def)

lemma memEqual_string:
  assumes "0 \<notin> set l" "0 \<notin> set s"
  shows "memEqual (s @ 0 # junk) (l @ t) (length l) = Some (take (length l) s = l)"
  using assms
proof (induction l arbitrary: s)
  case (Cons c l)
  then show ?case by (cases s) auto
qed simp

lemma joinLabels_eq_split:
  assumes "plainLabel l" "\<forall>l\<in>set ls. plainLabel l" "ls \<noteq> []"
  shows "s = joinLabels (l # ls) \<longleftrightarrow> take (length l) s = l \<and> (\<exists>s'. drop (length l) s = DOT # s' \<and> s' = joinLabels ls)"
  using joinLabels_Cons [OF assms(3), of l] by (metis append_eq_conv_conj)

text \<open>
  The state of the loop: the labels not yet compared, with the length of the first one read. The
  string matches when the rest of it is those labels joined.
\<close>

lemma matchStringLoop_ok:
  assumes st: "buf_state p b ds R" and "0 \<notin> set s" and "\<forall>l\<in>set (l # ls). plainLabel l"
    and "drop off ds = dnsEncode (l # ls)" "off < length ds"
  shows "matchStringLoop p b (s @ 0 # junk) (length l) off m =
    Some (if s = joinLabels (l # ls) then u8 (m + length (concat (map labelBytes (l # ls)))) else 0)"
  using assms(2-)
proof (induction ls arbitrary: l s off m)
  case Nil
  have l: "0 \<notin> set l" "l \<noteq> []" "length l \<le> 63" using Nil.prems(2) by (auto simp: plainLabel_def)
  have d1: "drop (off + 1) ds = l @ [0]"
    using arg_cong [OF Nil.prems(3), of "drop 1"] by (simp add: dnsEncode_def labelBytes_def)
  have "length ds - (off + 1) = length l + 1"
    using arg_cong [OF d1, of length] unfolding length_drop by simp
  then have d: "drop (off + 1) ds = l @ [0]" "length ds = off + length l + 2"
    using d1 Nil.prems(4) by simp_all
  have rd: "gmosBufferRead p b (off + 1) (length l + 1) = Some (Some (l @ [0]))"
    using gmosBufferRead_ok [OF st, of "off + 1" "length l + 1"] d by simp
  have eq: "memEqual (s @ 0 # junk) (l @ [0]) (length l) = Some (take (length l) s = l)"
    by (rule memEqual_string [OF l(1) Nil.prems(1)])
  show ?case
  proof (cases "take (length l) s = l")
    case False
    then show ?thesis using rd eq by (subst matchStringLoop.simps) (auto simp: Let_def)
  next
    case True
    then obtain s' where s: "s = l @ s'" by (metis append_take_drop_id)
    show ?thesis
    proof (cases s')
      case Nil
      then show ?thesis using rd eq s by (subst matchStringLoop.simps) (simp add: Let_def arrayByte_def labelBytes_def)
    next
      case (Cons c t)
      have end0: "matchStringLoop p b x 0 (off + 1 + length l) m' = Some 0" for x m'
        using gmosBufferRead_ok [OF st, of "off + 1 + length l + 1" 1] d(2)
        by (subst matchStringLoop.simps) (simp add: Let_def)
      have "c \<noteq> 0" using Nil.prems(1) s Cons by auto
      then show ?thesis
        using rd eq s Cons end0 by (subst matchStringLoop.simps) (auto simp: Let_def arrayByte_def)
    qed
  qed
next
  case (Cons l2 ls)
  have l: "0 \<notin> set l" "l \<noteq> []" "length l \<le> 63" "plainLabel l" using Cons.prems(2) by (auto simp: plainLabel_def)
  have l2: "l2 \<noteq> []" "length l2 \<le> 63" using Cons.prems(2) by (auto simp: plainLabel_def)
  have d: "drop (off + 1) ds = l @ dnsEncode (l2 # ls)"
    using arg_cong [OF Cons.prems(3), of "drop 1"] by (simp add: dnsEncode_def labelBytes_def)
  have "length ds - (off + 1) = length l + length (dnsEncode (l2 # ls))"
    using arg_cong [OF d, of length] unfolding length_drop by simp
  moreover have "2 \<le> length (dnsEncode (l2 # ls))" by (simp add: dnsEncode_def labelBytes_def)
  moreover have "drop (off + 1 + length l) ds = drop (length l) (drop (off + 1) ds)" by (simp add: add.commute)
  ultimately have d2: "drop (off + 1 + length l) ds = dnsEncode (l2 # ls)" "off + 1 + length l < length ds"
    unfolding d using Cons.prems(4) by simp_all
  let ?data = "l @ [of_nat (length l2)]"
  have rd: "gmosBufferRead p b (off + 1) (length l + 1) = Some (Some ?data)"
    using gmosBufferRead_ok [OF st, of "off + 1" "length l + 1"] d d2(2)
    by (simp add: dnsEncode_def labelBytes_def)
  have eq: "memEqual (s @ 0 # junk) ?data (length l) = Some (take (length l) s = l)"
    by (rule memEqual_string [OF l(1) Cons.prems(1)])
  have sz: "unat (?data ! length l) = length l2" using u8_of_label [OF l2(2)] by simp
  have split: "s = joinLabels (l # l2 # ls) \<longleftrightarrow>
      take (length l) s = l \<and> (\<exists>s'. drop (length l) s = DOT # s' \<and> s' = joinLabels (l2 # ls))"
    by (rule joinLabels_eq_split) (use l(4) Cons.prems(2) in auto)
  show ?case
  proof (cases "take (length l) s = l")
    case False
    then show ?thesis using rd eq split by (subst matchStringLoop.simps) (auto simp: Let_def)
  next
    case True
    then obtain s' where s: "s = l @ s'" by (metis append_take_drop_id)
    show ?thesis
    proof (cases "s' \<noteq> [] \<and> hd s' = DOT")
      case False
      then have "arrayByte (s' @ 0 # junk) 0 \<noteq> Some DOT" by (cases s') (auto simp: arrayByte_def)
      moreover obtain c where "arrayByte (s' @ 0 # junk) 0 = Some c" by (cases s') (auto simp: arrayByte_def)
      ultimately show ?thesis
        using rd eq s split False l2(1) sz by (subst matchStringLoop.simps) (auto simp: Let_def)
    next
      case True
      then obtain t where t: "s' = DOT # t" by (cases s') auto
      have "0 \<notin> set t" "\<forall>l\<in>set (l2 # ls). plainLabel l" using Cons.prems(1,2) s t by auto
      note ih = Cons.IH [OF this d2]
      have "matchStringLoop p b (s @ 0 # junk) (length l) off m =
          matchStringLoop p b (t @ 0 # junk) (length l2) (off + 1 + length l) (u8 (m + 1 + length l))"
        using rd eq s t l2 sz by (subst matchStringLoop.simps) (simp add: Let_def arrayByte_def)
      also have "\<dots> = Some (if t = joinLabels (l2 # ls)
          then u8 (u8 (m + 1 + length l) + length (concat (map labelBytes (l2 # ls)))) else 0)"
        by (rule ih)
      also have "u8 (u8 (m + 1 + length l) + length (concat (map labelBytes (l2 # ls)))) =
          u8 (m + length (concat (map labelBytes (l # l2 # ls))))"
        unfolding u8_def mod_add_left_eq by (simp add: labelBytes_def add.assoc)
      finally have "matchStringLoop p b (s @ 0 # junk) (length l) off m =
          Some (if t = joinLabels (l2 # ls) then u8 (m + length (concat (map labelBytes (l # l2 # ls)))) else 0)" .
      moreover have "s = joinLabels (l # l2 # ls) \<longleftrightarrow> t = joinLabels (l2 # ls)" using s t by simp
      ultimately show ?thesis by simp
    qed
  qed
qed

lemma DNS_ENTRY_SIZE_16: "DNS_ENTRY_SIZE = 16"
  by (simp add: DNS_ENTRY_SIZE_def GMOS_CONFIG_TCPIP_DNS_MAX_ADDR_SIZE_def)

lemma MatchString_ok:
  assumes st: "buf_state p b (hdr @ dnsEncode (l # ls)) R" and hdr: "length hdr = 16"
    and s: "0 \<notin> set s" and ls: "\<forall>l\<in>set (l # ls). plainLabel l"
  shows "gmosTcpipDnsClientCacheMatchString p b (s @ 0 # junk) =
    Some (if s = joinLabels (l # ls) then u8 (length (dnsEncode (l # ls))) else 0)"
proof -
  have l: "l \<noteq> []" "length l \<le> 63" using ls by (auto simp: plainLabel_def)
  have d: "drop 16 (hdr @ dnsEncode (l # ls)) = dnsEncode (l # ls)" using hdr by simp
  have lt: "16 < length (hdr @ dnsEncode (l # ls))" using hdr by (simp add: dnsEncode_def)
  have rd: "gmosBufferRead p b 16 1 = Some (Some [of_nat (length l)])"
    using gmosBufferRead_ok [OF st, of 16 1] hdr by (simp add: dnsEncode_def labelBytes_def)
  have "gmosTcpipDnsClientCacheMatchString p b (s @ 0 # junk) = matchStringLoop p b (s @ 0 # junk) (length l) 16 1"
    using rd l u8_of_label [OF l(2)] by (simp add: gmosTcpipDnsClientCacheMatchString_def DNS_ENTRY_SIZE_16 Let_def)
  also have "\<dots> = Some (if s = joinLabels (l # ls) then u8 (1 + length (concat (map labelBytes (l # ls)))) else 0)"
    by (rule matchStringLoop_ok [OF st s ls d lt])
  also have "1 + length (concat (map labelBytes (l # ls))) = length (dnsEncode (l # ls))" by (simp add: dnsEncode_def)
  finally show ?thesis .
qed

lemma MatchString_short:
  assumes "buf_state p b ds R" "length ds \<le> 16"
  shows "gmosTcpipDnsClientCacheMatchString p b s = Some 0"
  using gmosBufferRead_ok [OF assms(1), of 16 1] assms(2)
  by (simp add: gmosTcpipDnsClientCacheMatchString_def DNS_ENTRY_SIZE_16 Let_def)

subsection \<open>Matching a message\<close>

lemma memEqual_take:
  "n \<le> length xs \<Longrightarrow> n \<le> length ys \<Longrightarrow> memEqual xs ys n = Some (take n xs = take n ys)"
  by (induction xs ys n rule: memEqual.induct) auto

definition wireLabel :: "byte list \<Rightarrow> bool" where
  "wireLabel l \<longleftrightarrow> l \<noteq> [] \<and> length l \<le> 63"

lemma plain_wire: "plainLabel l \<Longrightarrow> wireLabel l"
  by (simp add: plainLabel_def wireLabel_def)

lemma take_label_eq:
  assumes "x < length ns" "unat (ns ! x) = length l" "length l \<le> 63" "x + length l + 1 \<le> length ns"
  shows "take (length l + 1 + k) (drop x ns) = labelBytes l @ t \<longleftrightarrow>
    take (length l) (drop (x + 1) ns) = l \<and> take k (drop (x + 1 + length l) ns) = t"
proof -
  have "of_nat (unat (ns ! x)) = ns ! x" by simp
  then have "ns ! x = of_nat (length l)" unfolding assms(2) by simp
  then have d: "drop x ns = of_nat (length l) # drop (x + 1) ns"
    using Cons_nth_drop_Suc [OF assms(1)] by simp
  have "drop (x + 1 + length l) ns = drop (length l) (drop (x + 1) ns)"
    unfolding drop_drop by (simp add: ac_simps)
  then have e: "take (length l + k) (drop (x + 1) ns) =
      take (length l) (drop (x + 1) ns) @ take k (drop (x + 1 + length l) ns)"
    by (simp only: take_add)
  have "length (take (length l) (drop (x + 1) ns)) = length l" using assms(4) by simp
  then show ?thesis unfolding d labelBytes_def using e by auto
qed

lemma drop_encode:
  assumes "drop off ds = dnsEncode (l # ls)" "off < length ds"
  shows "drop (off + 1 + length l) ds = dnsEncode ls" "off + 1 + length l < length ds"
proof -
  have "drop (off + 1 + length l) ds = drop (1 + length l) (drop off ds)" by (simp add: add.commute add.left_commute)
  then show d: "drop (off + 1 + length l) ds = dnsEncode ls" unfolding assms(1) by (simp add: dnsEncode_def labelBytes_def)
  then show "off + 1 + length l < length ds" by (cases "off + 1 + length l < length ds") (simp_all add: dnsEncode_def)
qed

lemma u8_label_sum:
  "u8 (u8 (m + 1 + length l) + length (concat (map labelBytes ls))) = u8 (m + length (concat (map labelBytes (l # ls))))"
  unfolding u8_def mod_add_left_eq by (simp add: labelBytes_def add.assoc)

text \<open>One round of the loop, in terms of the bytes of the message.\<close>

lemma matchBuffer_step:
  assumes st: "buf_state p b ds R" and nt: "buf_state p nb ns N" and w: "\<forall>l\<in>set (l # ls). wireLabel l"
    and d: "drop off ds = dnsEncode (l # ls)" "off < length ds" and x: "x < length ns" "unat (ns ! x) = length l"
  shows "matchBufferLoop p b nb (length l) (length l) off x m =
    (if x + length l + 1 < length ns then
       if take (length l) (drop (x + 1) ns) = l then
         let size = (case ls of [] \<Rightarrow> 0 | l' # _ \<Rightarrow> length l'); size' = unat (ns ! (x + 1 + length l)) in
         if size = 0 \<and> size' = 0 then Some (u8 (m + 1 + length l))
         else if size > 63 \<or> size \<noteq> size' then Some 0
         else matchBufferLoop p b nb size size' (off + 1 + length l) (x + 1 + length l) (u8 (m + 1 + length l))
       else Some 0
     else Some 0)"
proof -
  let ?size = "case ls of [] \<Rightarrow> 0 | l' # _ \<Rightarrow> length l'"
  have l: "length l \<le> 63" "length l \<noteq> 0" using w by (simp_all add: wireLabel_def)
  have d1: "drop (off + 1) ds = l @ dnsEncode ls"
    using arg_cong [OF d(1), of "drop 1"] by (simp add: dnsEncode_def labelBytes_def)
  note d2 = drop_encode [OF d]
  obtain c cs where c: "dnsEncode ls = c # cs" by (cases "dnsEncode ls") (simp_all add: dnsEncode_def)
  have sz: "unat c = u8 ?size"
    using c by (cases ls) (auto simp: dnsEncode_def labelBytes_def u8_def unat_of_nat)
  have rd: "gmosBufferRead p b (off + 1) (length l + 1) = Some (Some (l @ [c]))"
    using gmosBufferRead_ok [OF st, of "off + 1" "length l + 1"] d1 d2(2) c by simp
  have me: "memEqual (take (length l + 1) (drop (x + 1) ns)) (l @ [c]) (length l) =
      Some (take (length l) (drop (x + 1) ns) = l)" if "x + length l + 1 < length ns"
    using that by (subst memEqual_take) auto
  have nl: "length ns < 65536" using nt by (auto simp: buf_state_def dest: buf_repD)
  have rn: "gmosBufferRead nb' n (u16 (x + 1)) k = gmosBufferRead nb' n (x + 1) k"
    for nb' n k using nl x by (simp add: u16_def)
  show ?thesis
  proof (cases "x + length l + 1 < length ns")
    case False
    then have "gmosBufferRead nb' n (x + 1) (length l + 1) = Some None" if "nb' = p" "n = nb" for nb' n
      using that gmosBufferRead_ok [OF nt, of "x + 1" "length l + 1"] by simp
    then show ?thesis using False rd rn by (subst matchBufferLoop.simps) (simp add: Let_def)
  next
    case True
    have rd2: "gmosBufferRead p nb (x + 1) (length l + 1) = Some (Some (take (length l + 1) (drop (x + 1) ns)))"
      using gmosBufferRead_ok [OF nt, of "x + 1" "length l + 1"] True by simp
    have at: "take (length l + 1) (drop (x + 1) ns) ! length l = ns ! (x + 1 + length l)" using True by simp
    have fit: "u16 (u16 (x + 1) + length l) = x + 1 + length l" using True nl by (simp add: u16_def)
    have u: "u8 ?size = ?size" using w by (cases ls) (auto simp: u8_def wireLabel_def)
    show ?thesis using rd rd2 rn me [OF True] True sz fit at u
      by (subst matchBufferLoop.simps) (simp add: Let_def)
  qed
qed

lemma matchBufferLoop_ok:
  assumes st: "buf_state p b ds R" and nt: "buf_state p nb ns N" and "\<forall>l\<in>set (l # ls). wireLabel l"
    and "drop off ds = dnsEncode (l # ls)" "off < length ds" "x < length ns" "unat (ns ! x) = length l"
  shows "matchBufferLoop p b nb (length l) (length l) off x m =
    Some (if take (length (dnsEncode (l # ls))) (drop x ns) = dnsEncode (l # ls)
          then u8 (m + length (concat (map labelBytes (l # ls)))) else 0)"
  using assms(3-)
proof (induction ls arbitrary: l off x m)
  case (Nil l off x m)
  note step = matchBuffer_step [OF st nt Nil.prems, of m]
  have w: "wireLabel l" using Nil.prems(1) by simp
  show ?case
  proof (cases "x + length l + 1 < length ns")
    case True
    have l: "length l \<le> 63" using w by (simp add: wireLabel_def)
    have t1: "take 1 (drop (x + 1 + length l) ns) = [ns ! (x + 1 + length l)]"
      using True by (simp add: take_Suc_conv_app_nth hd_drop_conv_nth take_Suc)
    have z: "ns ! (x + 1 + length l) = 0 \<longleftrightarrow> unat (ns ! (x + 1 + length l)) = 0" by (simp add: unat_eq_0)
    have "take (length (dnsEncode [l])) (drop x ns) = dnsEncode [l] \<longleftrightarrow>
        take (length l) (drop (x + 1) ns) = l \<and> unat (ns ! (x + 1 + length l)) = 0"
      using take_label_eq [OF Nil.prems(4,5) l, of 1 "[0]"] True t1 z
      by (simp add: dnsEncode_def labelBytes_def)
    then show ?thesis using step True by (simp add: labelBytes_def)
  next
    case False
    then have "length (take (length (dnsEncode [l])) (drop x ns)) < length (dnsEncode [l])"
      using Nil.prems(4) by (simp add: dnsEncode_def labelBytes_def)
    then have "take (length (dnsEncode [l])) (drop x ns) \<noteq> dnsEncode [l]" by (metis less_irrefl)
    then show ?thesis using step False by simp
  qed
next
  case (Cons l2 ls)
  note step = matchBuffer_step [OF st nt Cons.prems, of m]
  have w: "wireLabel l" "wireLabel l2" using Cons.prems(1) by simp_all
  have l: "length l \<le> 63" and l2: "l2 \<noteq> []" "length l2 \<le> 63" using w by (simp_all add: wireLabel_def)
  let ?E = "dnsEncode (l # l2 # ls)" and ?x = "x + 1 + length l"
  have E: "?E = labelBytes l @ dnsEncode (l2 # ls)" "length ?E = length l + 1 + length (dnsEncode (l2 # ls))"
    by (simp_all add: dnsEncode_def labelBytes_def)
  show ?case
  proof (cases "x + length l + 1 < length ns")
    case True
    note te = take_label_eq [OF Cons.prems(4,5) l, of "length (dnsEncode (l2 # ls))" "dnsEncode (l2 # ls)"]
    have sp: "take (length ?E) (drop x ns) = ?E \<longleftrightarrow> take (length l) (drop (x + 1) ns) = l \<and>
        take (length (dnsEncode (l2 # ls))) (drop ?x ns) = dnsEncode (l2 # ls)"
      using te True unfolding E(2) by (simp add: E(1))
    show ?thesis
    proof (cases "unat (ns ! ?x) = length l2")
      case sz: True
      note d = drop_encode [OF Cons.prems(2,3)]
      have "\<forall>l\<in>set (l2 # ls). wireLabel l" "?x < length ns" using Cons.prems(1) True by simp_all
      from Cons.IH [OF this(1) d this(2) sz, of "u8 (m + 1 + length l)"]
      have "matchBufferLoop p b nb (length l2) (length l2) (off + 1 + length l) ?x (u8 (m + 1 + length l)) =
        Some (if take (length (dnsEncode (l2 # ls))) (drop ?x ns) = dnsEncode (l2 # ls)
          then u8 (m + length (concat (map labelBytes (l # l2 # ls)))) else 0)"
        unfolding u8_label_sum .
      then show ?thesis using step True sz l2 sp by simp
    next
      case False
      have "take (length (dnsEncode (l2 # ls))) (drop ?x ns) \<noteq> dnsEncode (l2 # ls)"
      proof
        assume "take (length (dnsEncode (l2 # ls))) (drop ?x ns) = dnsEncode (l2 # ls)"
        then have "hd (take (length (dnsEncode (l2 # ls))) (drop ?x ns)) = of_nat (length l2)"
          by (simp add: dnsEncode_def labelBytes_def)
        then have "ns ! ?x = of_nat (length l2)" using True by (simp add: hd_drop_conv_nth dnsEncode_def)
        then show False using False u8_of_label [OF l2(2)] by simp
      qed
      then show ?thesis using step True False sp l2 by simp
    qed
  next
    case False
    then have "length (take (length ?E) (drop x ns)) < length ?E"
      using Cons.prems(4) E(2) by (simp add: dnsEncode_def labelBytes_def)
    then have "take (length ?E) (drop x ns) \<noteq> ?E" by (metis less_irrefl)
    then show ?thesis using step False by simp
  qed
qed

lemma MatchBuffer_ok:
  assumes st: "buf_state p b (hdr @ dnsEncode (l # ls)) R" and hdr: "length hdr = 16"
    and nt: "buf_state p nb ns N" and ls: "\<forall>l\<in>set (l # ls). wireLabel l"
  shows "gmosTcpipDnsClientCacheMatchBuffer p b nb x =
    Some (if take (length (dnsEncode (l # ls))) (drop x ns) = dnsEncode (l # ls)
          then u8 (length (dnsEncode (l # ls))) else 0)"
proof -
  let ?E = "dnsEncode (l # ls)"
  have l: "l \<noteq> []" "length l \<le> 63" using ls by (auto simp: wireLabel_def)
  have d: "drop 16 (hdr @ ?E) = ?E" using hdr by simp
  have lt: "16 < length (hdr @ ?E)" using hdr by (simp add: dnsEncode_def)
  have h: "?E = of_nat (length l) # (l @ dnsEncode ls)" by (simp add: dnsEncode_def labelBytes_def)
  have rd: "gmosBufferRead p b 16 1 = Some (Some [of_nat (length l)])"
    using gmosBufferRead_ok [OF st, of 16 1] hdr by (simp add: h)
  show ?thesis
  proof (cases "x < length ns")
    case False
    then have "gmosBufferRead p nb x 1 = Some None" using gmosBufferRead_ok [OF nt, of x 1] by simp
    then show ?thesis using rd False h
      by (simp add: gmosTcpipDnsClientCacheMatchBuffer_def DNS_ENTRY_SIZE_16)
  next
    case True
    have c: "drop x ns = ns ! x # drop (x + 1) ns" using Cons_nth_drop_Suc [OF True] by simp
    have rn: "gmosBufferRead p nb x 1 = Some (Some [ns ! x])"
      using gmosBufferRead_ok [OF nt, of x 1] True c by simp
    show ?thesis
    proof (cases "unat (ns ! x) = length l")
      case False
      then have "ns ! x \<noteq> of_nat (length l)" using u8_of_label [OF l(2)] by auto
      then have "take (length ?E) (drop x ns) \<noteq> ?E" by (simp add: h c)
      then show ?thesis using rd rn False l u8_of_label [OF l(2)]
        by (simp add: gmosTcpipDnsClientCacheMatchBuffer_def DNS_ENTRY_SIZE_16 Let_def)
    next
      case sz: True
      have "gmosTcpipDnsClientCacheMatchBuffer p b nb x = matchBufferLoop p b nb (length l) (length l) 16 x 1"
        using rd rn l u8_of_label [OF l(2)] sz
        by (simp add: gmosTcpipDnsClientCacheMatchBuffer_def DNS_ENTRY_SIZE_16 Let_def)
      then show ?thesis using matchBufferLoop_ok [OF st nt ls d lt True sz, of 1]
        by (simp add: dnsEncode_def)
    qed
  qed
qed

subsection \<open>Skipping a name\<close>

text \<open>The length of the name at the start of the bytes, up to a zero or a compression pointer.\<close>

function wireNameLength :: "byte list \<Rightarrow> nat option" where
  "wireNameLength [] = None"
| "wireNameLength (c # cs) =
     (if c = 0 then Some 1
      else if 192 \<le> unat c then Some 2
      else map_option (\<lambda>n. n + 1 + unat c) (wireNameLength (drop (unat c) cs)))"
  by pat_completeness auto
termination by (relation "measure length") auto

lemma pointer_bits: "and (unat (c :: byte)) 0xC0 = 0xC0 \<longleftrightarrow> 192 \<le> unat c"
proof -
  have "and n (push_bit 6 m) = push_bit 6 (and (drop_bit 6 n) m)" for n m :: nat
    by (rule bit_eqI) (auto simp: bit_simps)
  from this [of "unat c" 3] have "and (unat c) 0xC0 = push_bit 6 (and (drop_bit 6 (unat c)) 3)"
    by (simp add: push_bit_eq_mult)
  moreover have "and m 3 = m mod 4" for m :: nat
    using take_bit_eq_mask [of 2 m] by (simp add: take_bit_eq_mod mask_eq_exp_minus_1)
  ultimately have "and (unat c) 0xC0 = 64 * (unat c div 64 mod 4)"
    by (simp add: push_bit_eq_mult drop_bit_eq_div)
  moreover have "unat c div 64 < 4" using unsigned_less [of c, where ?'a = nat] by (simp add: less_mult_imp_div_less)
  ultimately have "and (unat c) 0xC0 = 64 * (unat c div 64)" by simp
  moreover have "64 * (unat c div 64) \<le> unat c" by simp
  ultimately show ?thesis using div_le_mono [of 192 "unat c" 64] \<open>unat c div 64 < 4\<close> by auto
qed

lemma SkipName_ok:
  assumes st: "buf_state p b ns R" and n: "length ns \<le> 65280"
  shows "x < 65536 \<Longrightarrow> gmosTcpipDnsClientResponseSkipDnsName p b x =
    Some (case wireNameLength (drop x ns) of None \<Rightarrow> 0 | Some k \<Rightarrow> x + k)"
proof (induction "length ns - x" arbitrary: x rule: less_induct)
  case less
  show ?case
  proof (cases "x < length ns")
    case False
    then have "gmosBufferRead p b x 1 = Some None" using gmosBufferRead_ok [OF st, of x 1] by simp
    then show ?thesis using False by (subst gmosTcpipDnsClientResponseSkipDnsName.simps) simp
  next
    case True
    have c: "drop x ns = ns ! x # drop (x + 1) ns" using Cons_nth_drop_Suc [OF True] by simp
    have rn: "gmosBufferRead p b x 1 = Some (Some [ns ! x])"
      using gmosBufferRead_ok [OF st, of x 1] True c by simp
    let ?n = "unat (ns ! x)"
    have z: "ns ! x = 0 \<longleftrightarrow> ?n = 0" by (simp add: unat_eq_0)
    show ?thesis
    proof (cases "?n = 0 \<or> 192 \<le> ?n")
      case True
      then show ?thesis using rn n \<open>x < length ns\<close>
        by (subst gmosTcpipDnsClientResponseSkipDnsName.simps) (auto simp: c z pointer_bits Let_def)
    next
      case False
      have "u16 (x + (1 + ?n)) = x + 1 + ?n" using False n True by simp
      moreover have "drop (x + 1 + ?n) ns = drop ?n (drop (x + 1) ns)" unfolding drop_drop by (simp add: ac_simps)
      moreover have "x + 1 + ?n < 65536" "length ns - (x + 1 + ?n) < length ns - x" using False n True by simp_all
      ultimately show ?thesis using rn False less.hyps [of "x + 1 + ?n"]
        by (subst gmosTcpipDnsClientResponseSkipDnsName.simps)
          (auto simp: c z pointer_bits Let_def split: option.splits)
    qed
  qed
qed

subsection \<open>Properties\<close>

lemma valid_plain: "acceptedName s \<Longrightarrow> \<forall>l\<in>set (splitName s). plainLabel l"
  by (simp add: acceptedName_iff okLabel_plain)

lemma joinLabels_inject:
  assumes "acceptedName s"
  obtains l ls where "splitName s = l # ls" "\<forall>l\<in>set (l # ls). plainLabel l" "joinLabels (l # ls) = s"
  using valid_plain [OF assms] joinLabels_splitName [of s] that by (cases "splitName s") auto

lemma FormatName_entry:
  assumes "buf_state p b hdr R" "length hdr = DNS_ENTRY_SIZE" "0 \<notin> set s" "length s < 4294967295"
  shows "\<exists>ok err p' b'. gmosTcpipDnsClientFormatName p (s @ 0 # junk) b = Some (ok, err, p', b') \<and>
    same_on R p p' \<and> (ok \<longrightarrow> acceptedName s \<and> \<not> err) \<and> (err \<longrightarrow> \<not> acceptedName s) \<and>
    (254 < length s \<or> roomFor p b (length s + 2) \<longrightarrow> ok \<or> err) \<and> (\<not> ok \<longrightarrow> b' = b \<and> p' = p \<or> buf_state p' b' [] R) \<and>
    (ok \<longrightarrow> buf_state p' b' (hdr @ dnsEncode (splitName s)) R \<and>
       (\<forall>s' junk'. 0 \<notin> set s' \<longrightarrow> gmosTcpipDnsClientCacheMatchString p' b' (s' @ 0 # junk') =
          Some (if s' = s \<and> validName s then length (dnsEncode (splitName s)) else 0)))"
proof (cases "length s \<le> 254")
  case False
  then have "\<not> acceptedName s" by (simp add: acceptedName_iff)
  moreover have "gmosTcpipDnsClientFormatName p (s @ 0 # junk) b = Some (False, True, p, b)"
    using False assms(3,4) by (intro FormatName_long) auto
  ultimately show ?thesis by auto
next
  case True
  have hdr: "length hdr = 16" "length hdr < 65000" using assms(2) by (simp_all add: DNS_ENTRY_SIZE_16)
  from FormatName_ok [OF assms(1,3) True hdr(2), of junk] obtain ok err p' b' where
    f: "gmosTcpipDnsClientFormatName p (s @ 0 # junk) b = Some (ok, err, p', b')"
      "buf_state p' b' (if ok then hdr @ dnsEncode (splitName s) else []) R" "same_on R p p'"
      "ok \<longrightarrow> acceptedName s \<and> \<not> err" "err \<longrightarrow> \<not> acceptedName s" "roomFor p b (length s + 2) \<longrightarrow> ok \<or> err"
    by (elim exE conjE) (rule that)
  have "gmosTcpipDnsClientCacheMatchString p' b' (s' @ 0 # junk') =
      Some (if s' = s \<and> validName s then length (dnsEncode (splitName s)) else 0)" if "ok" "0 \<notin> set s'" for s' junk'
  proof -
    obtain l ls where l: "splitName s = l # ls" "\<forall>l\<in>set (l # ls). plainLabel l" "joinLabels (l # ls) = s"
      by (rule joinLabels_inject [of s]) (use f(4) \<open>ok\<close> in blast)+
    have st: "buf_state p' b' (hdr @ dnsEncode (l # ls)) R" using f(2) that(1) l(1) by simp
    have "acceptedName s" using f(4) \<open>ok\<close> by blast
    then show ?thesis using MatchString_ok [OF st hdr(1) that(2) l(2)] l(3) length_dnsEncode [of s] l(1) matchLength [of s]
      by simp
  qed
  then show ?thesis using f True by (intro exI conjI) auto
qed

text \<open>
  C29: A name is put into DNS format only when its labels are those of RFC 1035 (1 to 63 letters,
  digits and hyphens, the first a letter, the last not a hyphen) and its encoding has at most 256
  octets, one more than the RFC allows; with room in the pool it either is or the error flag is
  set, which it never is for such a name, and always for one that is longer. The buffer is then the header with the length-prefixed
  labels behind it. When the name keeps to the limit of 255 octets, matching a string against
  that entry gives the length of the encoded name for the same string, compared with regard to
  case, and zero for every other one; the entry of a name of 256 octets matches no string, not
  even its own.
\<close>

theorem dns_name:
  assumes "buf_state p b hdr R" "length hdr = DNS_ENTRY_SIZE" "0 \<notin> set s" "length s < 4294967295"
  shows "\<exists>ok err p' b'. gmosTcpipDnsClientFormatName p (s @ 0 # junk) b = Some (ok, err, p', b') \<and>
    same_on R p p' \<and> (ok \<longrightarrow> acceptedName s \<and> \<not> err) \<and> (err \<longrightarrow> \<not> acceptedName s) \<and>
    (254 < length s \<or> roomFor p b (length s + 2) \<longrightarrow> ok \<or> err) \<and> (\<not> ok \<longrightarrow> b' = b \<and> p' = p \<or> buf_state p' b' [] R) \<and>
    (ok \<longrightarrow> buf_state p' b' (hdr @ dnsEncode (splitName s)) R \<and>
       (\<forall>s' junk'. 0 \<notin> set s' \<longrightarrow> gmosTcpipDnsClientCacheMatchString p' b' (s' @ 0 # junk') =
          Some (if s' = s \<and> validName s then length (dnsEncode (splitName s)) else 0)))"
  by (rule FormatName_entry [OF assms])

lemma boot_data:
  assumes "length ds \<le> 1000"
  obtains p b where "buf_state p b ds {}" "\<not> mempoolUseHeap p" "40 \<le> avail p"
proof -
  have st: "buf_state bootPool gmosBufferInit [] {}" using buf_state_init [OF bootPool_ok(1)] .
  have n: "need (length ds) \<le> 16" using assms need_mono [of "length ds" 1000]
    by (simp add: need_def GMOS_CONFIG_MEMPOOL_SEGMENT_SIZE_def)
  have l: "length ds < 65536" using assms by simp
  show thesis
    by (rule gmosBufferAppend_ok [OF st l]) (use n assms that bootPool_ok in \<open>auto simp: need_def\<close>)
qed

theorem dns_name_witness:
  "\<exists>p b p' b'. gmosTcpipDnsClientFormatName p [97, 46, 98, 0] b = Some (True, False, p', b') \<and>
    buf_state p' b' (replicate 16 0 @ [1, 97, 1, 98, 0]) {} \<and>
    gmosTcpipDnsClientCacheMatchString p' b' [97, 46, 98, 0] = Some 5 \<and>
    gmosTcpipDnsClientCacheMatchString p' b' [97, 0] = Some 0"
proof -
  obtain p b where st: "buf_state p b (replicate 16 0) {}" "\<not> mempoolUseHeap p" "40 \<le> avail p"
    by (rule boot_data [of "replicate 16 0"]) auto
  have v: "acceptedName [97, 46, 98]"
    by (simp add: acceptedName_iff okLabel_code gmosTcpipDnsClientCharIsLetter_def gmosTcpipDnsClientCharIsValid_def)
  have e: "dnsEncode (splitName [97, 46, 98]) = [1, 97, 1, 98, 0]" by (simp add: dnsEncode_def labelBytes_def)
  have sz: "bufferSize b = 16" using buf_state_size [OF st(1)] by simp
  have "bufferOffset b < SEG" using st(1) by (auto simp: buf_state_def dest: buf_repD)
  then have r: "roomFor p b 5" using st(2,3)
    by (simp add: roomFor_def sz need_def GMOS_CONFIG_MEMPOOL_SEGMENT_SIZE_def)
  have "length (replicate 16 (0 :: byte)) = DNS_ENTRY_SIZE" "(0 :: byte) \<notin> set [97, 46, 98]"
    "length [97, 46, 98 :: byte] < 4294967295" by (simp_all add: DNS_ENTRY_SIZE_16)
  from dns_name [OF st(1) this, of "[]"] obtain ok err p' b' where f:
    "gmosTcpipDnsClientFormatName p ([97, 46, 98] @ 0 # []) b = Some (ok, err, p', b')"
    "ok \<longrightarrow> acceptedName [97, 46, 98] \<and> \<not> err"
    "err \<longrightarrow> \<not> acceptedName [97, 46, 98]"
    "254 < length [97, 46, 98 :: byte] \<or> roomFor p b (length [97, 46, 98 :: byte] + 2) \<longrightarrow> ok \<or> err"
    "ok \<longrightarrow> buf_state p' b' (replicate 16 0 @ dnsEncode (splitName [97, 46, 98])) {} \<and>
       (\<forall>s' junk'. 0 \<notin> set s' \<longrightarrow> gmosTcpipDnsClientCacheMatchString p' b' (s' @ 0 # junk') =
          Some (if s' = [97, 46, 98] \<and> validName [97, 46, 98] then length (dnsEncode (splitName [97, 46, 98])) else 0))"
    by (elim exE conjE) (rule that)
  have "length [97, 46, 98 :: byte] + 2 = 5" by simp
  then have ok: "ok" "\<not> err" using f(2-4) v r by metis+
  have vv: "validName [97, 46, 98]" using v by (simp add: validName_iff)
  note m = f(5) [THEN mp, OF ok(1), THEN conjunct2, rule_format, of _ "[]", unfolded e]
  have "gmosTcpipDnsClientCacheMatchString p' b' [97, 46, 98, 0] = Some 5"
    "gmosTcpipDnsClientCacheMatchString p' b' [97, 0] = Some 0"
    using m [of "[97, 46, 98]"] m [of "[97]"] vv by simp_all
  moreover have "buf_state p' b' (replicate 16 0 @ [1, 97, 1, 98, 0]) {}" using f(5) ok(1) unfolding e by blast
  moreover have "gmosTcpipDnsClientFormatName p [97, 46, 98, 0] b = Some (True, False, p', b')"
    using f(1) ok by simp
  ultimately show ?thesis by blast
qed

end
