(* ===== verification/Gmos_Dns.thy ===== *)
theory Gmos_Dns
  imports Gmos_Dns_Name Gmos_Scheduler
begin

text \<open>
  The DNS client of network/tcpip/common/src/gmos-tcpip-dns.c: the cache of names, the state machine
  of its entries, the queries sent to a list of servers and the responses parsed from the network.
  The theory holds the model, the abstraction of the cache to a list of optional entries and
  lemmas to work on one of several buffers; the properties are in \<open>Gmos_Dns_Client\<close>.

  The TCP/IP driver and the random numbers of the platform are a record of functions over a state
  of their own. Servers are named by numbers, their list is linked through \<open>nextServer\<close>. A signed
  subtraction that overflows is a fault.
\<close>

subsection \<open>State\<close>

datatype gmosNetworkStatus =
    GMOS_NETWORK_STATUS_SUCCESS
  | GMOS_NETWORK_STATUS_CONNECTED
  | GMOS_NETWORK_STATUS_NOT_CONNECTED
  | GMOS_NETWORK_STATUS_NOT_OPEN
  | GMOS_NETWORK_STATUS_NOT_VALID
  | GMOS_NETWORK_STATUS_RETRY
  | GMOS_NETWORK_STATUS_OVERSIZED
  | GMOS_NETWORK_STATUS_NETWORK_DOWN
  | GMOS_NETWORK_STATUS_TIMEOUT
  | GMOS_NETWORK_STATUS_UNSUPPORTED
  | GMOS_NETWORK_STATUS_DATA_LOSS
  | GMOS_NETWORK_STATUS_PROTOCOL_ERROR
  | GMOS_NETWORK_STATUS_DRIVER_FAILURE

record 'x tcpipOps =
  phyLinkIsUp :: "'x \<Rightarrow> bool"
  udpOpen :: "nat \<Rightarrow> nat \<Rightarrow> 'x \<Rightarrow> nat option \<times> 'x"
  udpSendTo :: "nat \<Rightarrow> byte list \<Rightarrow> nat \<Rightarrow> mempool \<Rightarrow> gmosBuffer \<Rightarrow> 'x \<Rightarrow>
    gmosNetworkStatus \<times> mempool \<times> gmosBuffer \<times> 'x"
  udpReceiveFrom :: "nat \<Rightarrow> mempool \<Rightarrow> gmosBuffer \<Rightarrow> 'x \<Rightarrow>
    gmosNetworkStatus \<times> mempool \<times> gmosBuffer \<times> 'x"
  udpClose :: "nat \<Rightarrow> 'x \<Rightarrow> gmosNetworkStatus \<times> 'x"
  getRandomBytes :: "nat \<Rightarrow> 'x \<Rightarrow> byte list \<times> 'x"

record dnsClient =
  dnsServerList :: "nat option"
  nextServer :: "nat \<Rightarrow> nat option"
  serverAddress :: "nat \<Rightarrow> byte list"
  serverPriority :: "nat \<Rightarrow> nat"
  udpSocketIpv4 :: "nat option"
  dnsWorkerTask :: nat
  dnsCache :: "gmosBuffer list"
  dnsXid :: nat

definition GMOS_CONFIG_TCPIP_DNS_CACHE_SIZE :: nat where
  "GMOS_CONFIG_TCPIP_DNS_CACHE_SIZE = 2"

definition GMOS_CONFIG_TCPIP_DNS_RETRY_COUNT :: nat where
  "GMOS_CONFIG_TCPIP_DNS_RETRY_COUNT = 3"

definition GMOS_TCPIP_DNS_COMMON_PORT :: nat where
  "GMOS_TCPIP_DNS_COMMON_PORT = 53"

text \<open>The retention time of 60 s, the retry interval of 4 s and the polling interval of 10 ms, in ticks.\<close>

definition dnsRetentionTicks :: "32 word" where
  "dnsRetentionTicks = of_nat (GMOS_MS_TO_TICKS (1000 * 60))"

definition dnsRetryTicks :: "32 word" where
  "dnsRetryTicks = of_nat (GMOS_MS_TO_TICKS (1000 * 4))"

definition dnsPollStatus :: "32 word" where
  "dnsPollStatus = GMOS_TASK_RUN_LATER (int (GMOS_MS_TO_TICKS 10))"

abbreviation (input) DNS_OPEN :: nat where "DNS_OPEN \<equiv> 0"
abbreviation (input) DNS_REQUEST :: nat where "DNS_REQUEST \<equiv> 1"
abbreviation (input) DNS_WAIT :: nat where "DNS_WAIT \<equiv> 2"
abbreviation (input) DNS_VALID :: nat where "DNS_VALID \<equiv> 3"
abbreviation (input) DNS_TIMEOUT :: nat where "DNS_TIMEOUT \<equiv> 4"
abbreviation (input) DNS_NOT_VALID :: nat where "DNS_NOT_VALID \<equiv> 5"
abbreviation (input) DNS_EXPIRED :: nat where "DNS_EXPIRED \<equiv> 6"

definition setCache :: "nat \<Rightarrow> gmosBuffer \<Rightarrow> dnsClient \<Rightarrow> dnsClient" where
  "setCache i b cl = cl\<lparr>dnsCache := (dnsCache cl)[i := b]\<rparr>"

text \<open>The read of an entry that the code does not check, and the write of one.\<close>

definition readEntry :: "mempool \<Rightarrow> gmosBuffer \<Rightarrow> dnsCacheEntry option option" where
  "readEntry p b = map_option (map_option bytesEntry) (gmosBufferRead p b 0 DNS_ENTRY_SIZE)"

definition writeEntry :: "mempool \<Rightarrow> gmosBuffer \<Rightarrow> dnsCacheEntry \<Rightarrow> mempool option" where
  "writeEntry p b e = map_option snd (gmosBufferWrite p b 0 (entryBytes e))"

subsection \<open>Queries\<close>

definition dnsFail :: "mempool \<Rightarrow> gmosBuffer \<Rightarrow> (bool \<times> mempool \<times> gmosBuffer) option" where
  "dnsFail p b = do { (_, p, b) \<leftarrow> gmosBufferReset p b 0; Some (False, p, b) }"

definition gmosTcpipDnsClientFormatQuery ::
    "mempool \<Rightarrow> gmosBuffer \<Rightarrow> dnsCacheEntry \<Rightarrow> gmosBuffer \<Rightarrow> (bool \<times> mempool \<times> gmosBuffer) option" where
  "gmosTcpipDnsClientFormatQuery p dnsCacheBuffer dnsCacheEntry dnsMessage = do {
     let dnsNameLength = u16 (gmosBufferGetSize dnsCacheBuffer + 65536 - DNS_ENTRY_SIZE);
     (ok, p, dnsMessage) \<leftarrow> gmosBufferCopy p dnsCacheBuffer dnsMessage;
     if \<not> ok then dnsFail p dnsMessage
     else do {
       (_, p, dnsMessage) \<leftarrow> gmosBufferRebase p dnsMessage dnsNameLength;
       let dnsHeader = leBytes 2 (transactionId dnsCacheEntry) @ [0x01, 0x00, 0x00, 0x01] @ replicate 6 0;
       (ok, p, dnsMessage) \<leftarrow> gmosBufferPrepend p dnsMessage dnsHeader;
       if \<not> ok then dnsFail p dnsMessage
       else do {
         (ok, p, dnsMessage) \<leftarrow> gmosBufferAppend p dnsMessage [0x00, 1, 0x00, 0x01];
         if \<not> ok then dnsFail p dnsMessage else Some (True, p, dnsMessage) } } }"

subsection \<open>The cache\<close>

function cacheLookupLoop :: "mempool \<Rightarrow> gmosBuffer list \<Rightarrow> byte list \<Rightarrow> nat \<Rightarrow> nat option option" where
  "cacheLookupLoop p cache dnsName i =
     (if i < GMOS_CONFIG_TCPIP_DNS_CACHE_SIZE
      then do {
        m \<leftarrow> gmosTcpipDnsClientCacheMatchString p (cache ! i) dnsName;
        if m > 0 then Some (Some i) else cacheLookupLoop p cache dnsName (i + 1) }
      else Some None)"
  by pat_completeness auto
termination by (relation "measure (\<lambda>(_, _, _, i). GMOS_CONFIG_TCPIP_DNS_CACHE_SIZE - i)") auto

declare cacheLookupLoop.simps [simp del]

text \<open>The index of the entry and its fixed fields.\<close>

definition gmosTcpipDnsClientCacheLookup ::
    "(nat \<Rightarrow> 32 word) \<Rightarrow> mempool \<Rightarrow> dnsClient \<Rightarrow> byte list \<Rightarrow> sched \<Rightarrow>
     ((nat \<times> dnsCacheEntry) option \<times> mempool \<times> sched) option" where
  "gmosTcpipDnsClientCacheLookup tm p dnsClient dnsName sc = do {
     r \<leftarrow> cacheLookupLoop p (dnsCache dnsClient) dnsName 0;
     case r of
       None \<Rightarrow> Some (None, p, sc)
     | Some i \<Rightarrow> do {
         d \<leftarrow> readEntry p (dnsCache dnsClient ! i);
         dnsCacheEntry \<leftarrow> d;
         if dnsEntryState dnsCacheEntry = DNS_VALID
         then do {
           let (ticks, sc) = gmosPalGetTimer tm sc;
           let dnsCacheEntry = dnsCacheEntry\<lparr>expiryTimestamp := ticks + dnsRetentionTicks\<rparr>;
           p \<leftarrow> writeEntry p (dnsCache dnsClient ! i) dnsCacheEntry;
           Some (Some (i, dnsCacheEntry), p, sc) }
         else Some (Some (i, dnsCacheEntry), p, sc) } }"

text \<open>The first free entry.\<close>

definition cacheFree :: "gmosBuffer list \<Rightarrow> nat option" where
  "cacheFree cache =
     find (\<lambda>i. gmosBufferGetSize (cache ! i) < DNS_ENTRY_SIZE) [0..<GMOS_CONFIG_TCPIP_DNS_CACHE_SIZE]"

definition ssub32 :: "int \<Rightarrow> int \<Rightarrow> int option" where
  "ssub32 a b = (if - 2147483648 \<le> a - b \<and> a - b < 2147483648 then Some (a - b) else None)"

text \<open>
  The least recently used entry of a full cache, from the second entry on: the entry chosen so far,
  its time stamp and the contents of the local entry.
\<close>

function cacheLruLoop ::
    "mempool \<Rightarrow> gmosBuffer list \<Rightarrow> nat \<Rightarrow> nat \<Rightarrow> int \<Rightarrow> dnsCacheEntry \<Rightarrow> (nat \<times> dnsCacheEntry) option" where
  "cacheLruLoop p cache i j lruTimestamp dnsCacheEntry =
     (if i < GMOS_CONFIG_TCPIP_DNS_CACHE_SIZE
      then do {
        d \<leftarrow> readEntry p (cache ! i);
        let dnsCacheEntry = case_option dnsCacheEntry id d;
        let localTimestamp = sint (expiryTimestamp dnsCacheEntry);
        if i = 0 then cacheLruLoop p cache (i + 1) i localTimestamp dnsCacheEntry
        else do {
          diff \<leftarrow> ssub32 localTimestamp lruTimestamp;
          if diff < 0 then cacheLruLoop p cache (i + 1) i localTimestamp dnsCacheEntry
          else cacheLruLoop p cache (i + 1) j lruTimestamp dnsCacheEntry } }
      else Some (j, dnsCacheEntry))"
  by pat_completeness auto
termination by (relation "measure (\<lambda>(_, _, i, _). GMOS_CONFIG_TCPIP_DNS_CACHE_SIZE - i)") auto

declare cacheLruLoop.simps [simp del]

text \<open>
  The local entry starts with the contents of the stack, \<open>dnsCacheEntry\<close>. The results are the return value,
  the error flag of the name, and the state.
\<close>

definition gmosTcpipDnsClientCacheAlloc ::
    "(nat \<Rightarrow> 32 word) \<Rightarrow> dnsCacheEntry \<Rightarrow> mempool \<Rightarrow> dnsClient \<Rightarrow> byte list \<Rightarrow> sched \<Rightarrow>
     (bool \<times> bool \<times> mempool \<times> dnsClient \<times> sched) option" where
  "gmosTcpipDnsClientCacheAlloc tm dnsCacheEntry p dnsClient dnsName sc = do {
     (i, dnsCacheEntry) \<leftarrow> (case cacheFree (dnsCache dnsClient) of
         Some i \<Rightarrow> Some (i, dnsCacheEntry)
       | None \<Rightarrow> cacheLruLoop p (dnsCache dnsClient) 0 0 0 dnsCacheEntry);
     let (ticks, sc) = gmosPalGetTimer tm sc;
     let dnsCacheEntry = dnsCacheEntry\<lparr>expiryTimestamp := ticks + dnsRetentionTicks,
           dnsEntryState := DNS_OPEN, retryCount := 0, transactionId := dnsXid dnsClient\<rparr>;
     (_, p, b) \<leftarrow> gmosBufferReset p (dnsCache dnsClient ! i) 0;
     (ok, p, b) \<leftarrow> gmosBufferAppend p b (entryBytes dnsCacheEntry);
     if \<not> ok
     then do { (_, p, b) \<leftarrow> gmosBufferReset p b 0; Some (False, False, p, setCache i b dnsClient, sc) }
     else do {
       (ok, dnsNameError, p, b) \<leftarrow> gmosTcpipDnsClientFormatName p dnsName b;
       if \<not> ok
       then do { (_, p, b) \<leftarrow> gmosBufferReset p b 0; Some (False, dnsNameError, p, setCache i b dnsClient, sc) }
       else Some (True, dnsNameError, p,
              (setCache i b dnsClient)\<lparr>dnsXid := u16 (dnsXid dnsClient + 1)\<rparr>, sc) } }"

subsection \<open>Servers\<close>

primrec serverWalk :: "dnsClient \<Rightarrow> nat \<Rightarrow> nat \<Rightarrow> nat option" where
  "serverWalk dnsClient serverInfo 0 = Some serverInfo"
| "serverWalk dnsClient serverInfo (Suc n) = do {
     s \<leftarrow> (case nextServer dnsClient serverInfo of None \<Rightarrow> dnsServerList dnsClient | Some s \<Rightarrow> Some s);
     serverWalk dnsClient s n }"

definition gmosTcpipDnsServerSelect :: "dnsClient \<Rightarrow> dnsCacheEntry \<Rightarrow> nat option option" where
  "gmosTcpipDnsServerSelect dnsClient dnsCacheEntry =
     (case dnsServerList dnsClient of
        None \<Rightarrow> Some None
      | Some s \<Rightarrow>
          if retryCount dnsCacheEntry > GMOS_CONFIG_TCPIP_DNS_RETRY_COUNT then Some None
          else map_option Some (serverWalk dnsClient s (retryCount dnsCacheEntry)))"

definition gmosTcpipDnsClientOpenUdp :: "'x tcpipOps \<Rightarrow> dnsClient \<Rightarrow> 'x \<Rightarrow> bool \<times> dnsClient \<times> 'x" where
  "gmosTcpipDnsClientOpenUdp ops dnsClient x =
     (let (dnsClient, x) = (case udpSocketIpv4 dnsClient of
            Some _ \<Rightarrow> (dnsClient, x)
          | None \<Rightarrow>
              let (so, x) = udpOpen ops GMOS_TCPIP_DNS_COMMON_PORT (dnsWorkerTask dnsClient) x
              in (dnsClient\<lparr>udpSocketIpv4 := so\<rparr>, x))
      in (udpSocketIpv4 dnsClient \<noteq> None, dnsClient, x))"

definition gmosTcpipDnsClientSendRequest ::
    "'x tcpipOps \<Rightarrow> (nat \<Rightarrow> 32 word) \<Rightarrow> mempool \<Rightarrow> dnsClient \<Rightarrow> nat \<Rightarrow> gmosBuffer \<Rightarrow> dnsCacheEntry \<Rightarrow> sched \<Rightarrow> 'x \<Rightarrow>
     (bool \<times> dnsCacheEntry \<times> mempool \<times> sched \<times> 'x) option" where
  "gmosTcpipDnsClientSendRequest ops tm p dnsClient dnsServer dnsCacheBuffer dnsCacheEntry sc x = do {
     (ok, p, dnsMessage) \<leftarrow> gmosTcpipDnsClientFormatQuery p dnsCacheBuffer dnsCacheEntry gmosBufferInit;
     if \<not> ok
     then do { (_, p, dnsMessage) \<leftarrow> gmosBufferReset p dnsMessage 0; Some (False, dnsCacheEntry, p, sc, x) }
     else do {
       udpSocket \<leftarrow> udpSocketIpv4 dnsClient;
       let (stackStatus, p, dnsMessage, x) =
             udpSendTo ops udpSocket (serverAddress dnsClient dnsServer) GMOS_TCPIP_DNS_COMMON_PORT p dnsMessage x;
       if stackStatus \<noteq> GMOS_NETWORK_STATUS_SUCCESS
       then do { (_, p, dnsMessage) \<leftarrow> gmosBufferReset p dnsMessage 0; Some (False, dnsCacheEntry, p, sc, x) }
       else let (ticks, sc) = gmosPalGetTimer tm sc
            in Some (True, dnsCacheEntry\<lparr>retryTimestamp := ticks + dnsRetryTicks\<rparr>, p, sc, x) } }"

subsection \<open>The state machine of an entry\<close>

definition gmosTcpipDnsClientRetryTimeout ::
    "(nat \<Rightarrow> 32 word) \<Rightarrow> dnsCacheEntry \<Rightarrow> sched \<Rightarrow> 32 word \<times> dnsCacheEntry \<times> sched" where
  "gmosTcpipDnsClientRetryTimeout tm dnsCacheEntry sc =
     (let (ticks, sc) = gmosPalGetTimer tm sc; remainingTicks = sint (retryTimestamp dnsCacheEntry - ticks)
      in if remainingTicks \<le> 0
         then (GMOS_TASK_RUN_IMMEDIATE, dnsCacheEntry\<lparr>retryCount := u8 (retryCount dnsCacheEntry + 1)\<rparr>, sc)
         else (GMOS_TASK_RUN_LATER remainingTicks, dnsCacheEntry, sc))"

definition gmosTcpipDnsClientExpiryTimeout ::
    "(nat \<Rightarrow> 32 word) \<Rightarrow> dnsCacheEntry \<Rightarrow> sched \<Rightarrow> 32 word \<times> sched" where
  "gmosTcpipDnsClientExpiryTimeout tm dnsCacheEntry sc =
     (let (ticks, sc) = gmosPalGetTimer tm sc; remainingTicks = sint (expiryTimestamp dnsCacheEntry - ticks)
      in if remainingTicks \<le> 0 then (GMOS_TASK_SUSPEND, sc) else (GMOS_TASK_RUN_LATER remainingTicks, sc))"

text \<open>The switch over the state of the entry: the task status, the next state, the entry and the flag.\<close>

definition cacheSwitch ::
    "'x tcpipOps \<Rightarrow> (nat \<Rightarrow> 32 word) \<Rightarrow> mempool \<Rightarrow> dnsClient \<Rightarrow> gmosBuffer \<Rightarrow> dnsCacheEntry \<Rightarrow> bool \<Rightarrow> sched \<Rightarrow> 'x \<Rightarrow>
     (32 word \<times> nat \<times> dnsCacheEntry \<times> bool \<times> mempool \<times> dnsClient \<times> sched \<times> 'x) option" where
  "cacheSwitch ops tm p dnsClient dnsCacheBuffer e udpKeepOpen sc x =
     (if dnsEntryState e = DNS_OPEN then do {
        dnsServer \<leftarrow> gmosTcpipDnsServerSelect dnsClient e;
        case dnsServer of
          None \<Rightarrow> Some (dnsPollStatus, DNS_NOT_VALID, e, udpKeepOpen, p, dnsClient, sc, x)
        | Some s \<Rightarrow>
            let (ok, dnsClient, x) = gmosTcpipDnsClientOpenUdp ops dnsClient x
            in if ok then Some (dnsPollStatus, DNS_REQUEST, e, True, p, dnsClient, sc, x)
               else Some (dnsPollStatus, DNS_OPEN, e, udpKeepOpen, p, dnsClient, sc, x) }
      else if dnsEntryState e = DNS_REQUEST then do {
        dnsServer \<leftarrow> gmosTcpipDnsServerSelect dnsClient e;
        case dnsServer of
          None \<Rightarrow> Some (dnsPollStatus, DNS_NOT_VALID, e, True, p, dnsClient, sc, x)
        | Some s \<Rightarrow> do {
            (ok, e, p, sc, x) \<leftarrow> gmosTcpipDnsClientSendRequest ops tm p dnsClient s dnsCacheBuffer e sc x;
            Some (dnsPollStatus, if ok then DNS_WAIT else DNS_REQUEST, e, True, p, dnsClient, sc, x) } }
      else if dnsEntryState e = DNS_WAIT then
        let (taskStatus, e, sc) = gmosTcpipDnsClientRetryTimeout tm e sc
        in if taskStatus = GMOS_TASK_RUN_IMMEDIATE
           then Some (taskStatus,
                  if retryCount e > GMOS_CONFIG_TCPIP_DNS_RETRY_COUNT then DNS_TIMEOUT else DNS_REQUEST,
                  e, True, p, dnsClient, sc, x)
           else Some (taskStatus, DNS_WAIT, e, True, p, dnsClient, sc, x)
      else
        let (taskStatus, sc) = gmosTcpipDnsClientExpiryTimeout tm e sc
        in Some (taskStatus, if taskStatus = GMOS_TASK_SUSPEND then DNS_EXPIRED else dnsEntryState e,
             e, udpKeepOpen, p, dnsClient, sc, x))"

definition gmosTcpipDnsClientCacheProcess ::
    "'x tcpipOps \<Rightarrow> (nat \<Rightarrow> 32 word) \<Rightarrow> mempool \<Rightarrow> dnsClient \<Rightarrow> nat \<Rightarrow> bool \<Rightarrow> sched \<Rightarrow> 'x \<Rightarrow>
     (32 word \<times> bool \<times> mempool \<times> dnsClient \<times> sched \<times> 'x) option" where
  "gmosTcpipDnsClientCacheProcess ops tm p dnsClient i udpKeepOpen sc x = do {
     let dnsCacheBuffer = dnsCache dnsClient ! i;
     d \<leftarrow> readEntry p dnsCacheBuffer;
     case d of
       None \<Rightarrow> Some (GMOS_TASK_SUSPEND, udpKeepOpen, p, dnsClient, sc, x)
     | Some dnsCacheEntry \<Rightarrow> do {
         (taskStatus, nextState, e, udpKeepOpen, p, dnsClient, sc, x) \<leftarrow>
           cacheSwitch ops tm p dnsClient dnsCacheBuffer dnsCacheEntry udpKeepOpen sc x;
         if nextState = DNS_EXPIRED
         then do {
           (_, p, b) \<leftarrow> gmosBufferReset p dnsCacheBuffer 0;
           Some (taskStatus, udpKeepOpen, p, setCache i b dnsClient, sc, x) }
         else if nextState \<noteq> dnsEntryState e
         then do {
           p \<leftarrow> writeEntry p dnsCacheBuffer (e\<lparr>dnsEntryState := nextState\<rparr>);
           Some (taskStatus, udpKeepOpen, p, dnsClient, sc, x) }
         else Some (taskStatus, udpKeepOpen, p, dnsClient, sc, x) } }"

subsection \<open>Responses\<close>

text \<open>The results are the number of answers, the next state and the payload without header and question.\<close>

definition gmosTcpipDnsClientResponseCheckHeader ::
    "mempool \<Rightarrow> gmosBuffer \<Rightarrow> gmosBuffer \<Rightarrow> nat \<Rightarrow> (nat \<times> nat \<times> mempool \<times> gmosBuffer) option" where
  "gmosTcpipDnsClientResponseCheckHeader p payloadBuffer dnsCacheBuffer nextState = do {
     r \<leftarrow> gmosBufferRead p payloadBuffer 0 12;
     case r of
       None \<Rightarrow> Some (0, nextState, p, payloadBuffer)
     | Some dnsHeader \<Rightarrow>
         if and (dnsHeader ! 2) 0xFB \<noteq> 0x81 \<or> and (dnsHeader ! 3) 0x80 \<noteq> 0x80
         then Some (0, nextState, p, payloadBuffer)
         else
           let responseCode = and (dnsHeader ! 3) 0x0F;
               nextState = (if responseCode = 1 \<or> responseCode = 3 then DNS_NOT_VALID else nextState)
           in if responseCode \<noteq> 0 then Some (0, nextState, p, payloadBuffer)
              else
                let qdCount = unat (dnsHeader ! 4) * 256 + unat (dnsHeader ! 5);
                    anCount = unat (dnsHeader ! 6) * 256 + unat (dnsHeader ! 7)
                in if qdCount \<noteq> 1 then Some (0, DNS_NOT_VALID, p, payloadBuffer)
                   else do {
                     let payloadSize = gmosBufferGetSize payloadBuffer;
                     let payloadOffset = 12;
                     matchSize \<leftarrow> gmosTcpipDnsClientCacheMatchBuffer p dnsCacheBuffer payloadBuffer payloadOffset;
                     if matchSize = 0 then Some (0, DNS_NOT_VALID, p, payloadBuffer)
                     else do {
                       let payloadOffset = u16 (payloadOffset + matchSize);
                       r \<leftarrow> gmosBufferRead p payloadBuffer payloadOffset 4;
                       case r of
                         None \<Rightarrow> Some (0, nextState, p, payloadBuffer)
                       | Some queryData \<Rightarrow>
                           if queryData ! 0 \<noteq> 0 \<or> queryData ! 1 \<noteq> 1 \<or> queryData ! 2 \<noteq> 0 \<or> queryData ! 3 \<noteq> 1
                           then Some (0, nextState, p, payloadBuffer)
                           else
                             let payloadOffset = u16 (payloadOffset + 4)
                             in if payloadOffset \<ge> payloadSize then Some (0, nextState, p, payloadBuffer)
                                else do {
                                  (_, p, payloadBuffer) \<leftarrow>
                                    gmosBufferRebase p payloadBuffer (payloadSize - payloadOffset);
                                  Some (anCount, nextState, p, payloadBuffer) } } } }"

text \<open>The loop over the answers: the entry and the next state.\<close>

fun scanRecordsLoop ::
    "'x tcpipOps \<Rightarrow> mempool \<Rightarrow> gmosBuffer \<Rightarrow> nat \<Rightarrow> nat \<Rightarrow> nat \<Rightarrow> dnsCacheEntry \<Rightarrow> nat \<Rightarrow> 'x \<Rightarrow>
     (dnsCacheEntry \<times> nat \<times> 'x) option" where
  "scanRecordsLoop ops p payload 0 payloadOffset aTypeRecordCount e nextState x = Some (e, nextState, x)"
| "scanRecordsLoop ops p payload (Suc anCount) payloadOffset aTypeRecordCount e nextState x = do {
     payloadOffset \<leftarrow> gmosTcpipDnsClientResponseSkipDnsName p payload payloadOffset;
     if payloadOffset = 0 then Some (e, nextState, x)
     else do {
       r \<leftarrow> gmosBufferRead p payload payloadOffset 10;
       case r of
         None \<Rightarrow> Some (e, nextState, x)
       | Some resourceRecord \<Rightarrow>
           let payloadOffset = u16 (payloadOffset + 10);
               recordDataSize = unat (resourceRecord ! 8) * 256 + unat (resourceRecord ! 9)
           in if resourceRecord ! 0 = 0 \<and> resourceRecord ! 1 = 1 \<and> resourceRecord ! 2 = 0 \<and> resourceRecord ! 3 = 1
              then do {
                r \<leftarrow> gmosBufferRead p payload payloadOffset 4;
                case r of
                  None \<Rightarrow> Some (e, nextState, x)
                | Some addr \<Rightarrow>
                    let aTypeRecordCount = u16 (aTypeRecordCount + 1);
                        (bs, x) = getRandomBytes ops 4 x;
                        randValue = u32 (aTypeRecordCount * and (leNat bs) 0xFFFF);
                        (e, nextState) = (if randValue < 0x10000 then (e\<lparr>resolvedAddr := addr\<rparr>, DNS_VALID)
                                          else (e, nextState))
                    in scanRecordsLoop ops p payload anCount (u16 (payloadOffset + recordDataSize))
                         aTypeRecordCount e nextState x }
              else scanRecordsLoop ops p payload anCount (u16 (payloadOffset + recordDataSize))
                     aTypeRecordCount e nextState x } }"

definition gmosTcpipDnsClientResponseScanRecords ::
    "'x tcpipOps \<Rightarrow> mempool \<Rightarrow> gmosBuffer \<Rightarrow> dnsCacheEntry \<Rightarrow> nat \<Rightarrow> nat \<Rightarrow> 'x \<Rightarrow>
     (dnsCacheEntry \<times> nat \<times> 'x) option" where
  "gmosTcpipDnsClientResponseScanRecords ops p payload e anCount nextState x =
     scanRecordsLoop ops p payload anCount 0 0 e nextState x"

text \<open>The entry with the transaction identifier of a response.\<close>

function findTransaction ::
    "mempool \<Rightarrow> gmosBuffer list \<Rightarrow> nat \<Rightarrow> nat \<Rightarrow> (nat \<times> dnsCacheEntry) option option" where
  "findTransaction p cache dnsSequence i =
     (if i < GMOS_CONFIG_TCPIP_DNS_CACHE_SIZE
      then do {
        d \<leftarrow> readEntry p (cache ! i);
        case d of
          None \<Rightarrow> findTransaction p cache dnsSequence (i + 1)
        | Some e \<Rightarrow> if transactionId e = dnsSequence then Some (Some (i, e))
                   else findTransaction p cache dnsSequence (i + 1) }
      else Some None)"
  by pat_completeness auto
termination by (relation "measure (\<lambda>(_, _, _, i). GMOS_CONFIG_TCPIP_DNS_CACHE_SIZE - i)") auto

declare findTransaction.simps [simp del]

text \<open>The exit of the handler, with the entry, its index and the next state, if there is one.\<close>

definition responseExit ::
    "mempool \<Rightarrow> dnsClient \<Rightarrow> gmosBuffer \<Rightarrow> (nat \<times> dnsCacheEntry \<times> nat) option \<Rightarrow> 'x \<Rightarrow>
     (32 word \<times> mempool \<times> dnsClient \<times> 'x) option" where
  "responseExit p dnsClient payload r x = do {
     p \<leftarrow> (case r of
         None \<Rightarrow> Some p
       | Some (i, e, nextState) \<Rightarrow>
           if nextState \<noteq> dnsEntryState e
           then writeEntry p (dnsCache dnsClient ! i) (e\<lparr>dnsEntryState := nextState\<rparr>) else Some p);
     (_, p, payload) \<leftarrow> gmosBufferReset p payload 0;
     Some (GMOS_TASK_RUN_IMMEDIATE, p, dnsClient, x) }"

definition gmosTcpipDnsClientResponseProcess ::
    "'x tcpipOps \<Rightarrow> mempool \<Rightarrow> dnsClient \<Rightarrow> 'x \<Rightarrow> (32 word \<times> mempool \<times> dnsClient \<times> 'x) option" where
  "gmosTcpipDnsClientResponseProcess ops p dnsClient x = do {
     udpSocket \<leftarrow> udpSocketIpv4 dnsClient;
     let (stackStatus, p, payload, x) = udpReceiveFrom ops udpSocket p gmosBufferInit x;
     if stackStatus \<noteq> GMOS_NETWORK_STATUS_SUCCESS then Some (GMOS_TASK_SUSPEND, p, dnsClient, x)
     else do {
       r \<leftarrow> gmosBufferRead p payload 0 2;
       case r of
         None \<Rightarrow> responseExit p dnsClient payload None x
       | Some bs \<Rightarrow> do {
           hit \<leftarrow> findTransaction p (dnsCache dnsClient) (leNat bs) 0;
           case hit of
             None \<Rightarrow> responseExit p dnsClient payload None x
           | Some (i, e) \<Rightarrow> do {
               (anCount, nextState, p, payload) \<leftarrow>
                 gmosTcpipDnsClientResponseCheckHeader p payload (dnsCache dnsClient ! i) (dnsEntryState e);
               if anCount = 0 then responseExit p dnsClient payload (Some (i, e, nextState)) x
               else do {
                 (e, nextState, x) \<leftarrow>
                   gmosTcpipDnsClientResponseScanRecords ops p payload e anCount nextState x;
                 responseExit p dnsClient payload (Some (i, e, nextState)) x } } } } }"

subsection \<open>The worker task\<close>

function resetCacheLoop :: "mempool \<Rightarrow> dnsClient \<Rightarrow> nat \<Rightarrow> (mempool \<times> dnsClient) option" where
  "resetCacheLoop p dnsClient i =
     (if i < GMOS_CONFIG_TCPIP_DNS_CACHE_SIZE
      then do {
        (_, p, b) \<leftarrow> gmosBufferReset p (dnsCache dnsClient ! i) 0;
        resetCacheLoop p (setCache i b dnsClient) (i + 1) }
      else Some (p, dnsClient))"
  by pat_completeness auto
termination by (relation "measure (\<lambda>(_, _, i). GMOS_CONFIG_TCPIP_DNS_CACHE_SIZE - i)") auto

function cacheProcessLoop ::
    "'x tcpipOps \<Rightarrow> (nat \<Rightarrow> 32 word) \<Rightarrow> mempool \<Rightarrow> dnsClient \<Rightarrow> nat \<Rightarrow> bool \<Rightarrow> 32 word \<Rightarrow> sched \<Rightarrow> 'x \<Rightarrow>
     (32 word \<times> bool \<times> mempool \<times> dnsClient \<times> sched \<times> 'x) option" where
  "cacheProcessLoop ops tm p dnsClient i udpKeepOpen taskStatus sc x =
     (if i < GMOS_CONFIG_TCPIP_DNS_CACHE_SIZE
      then do {
        (nextStatus, udpKeepOpen, p, dnsClient, sc, x) \<leftarrow>
          gmosTcpipDnsClientCacheProcess ops tm p dnsClient i udpKeepOpen sc x;
        cacheProcessLoop ops tm p dnsClient (i + 1) udpKeepOpen
          (gmosSchedulerPrioritise taskStatus nextStatus) sc x }
      else Some (taskStatus, udpKeepOpen, p, dnsClient, sc, x))"
  by pat_completeness auto
termination by (relation "measure (\<lambda>(_, _, _, _, i, _). GMOS_CONFIG_TCPIP_DNS_CACHE_SIZE - i)") auto

declare resetCacheLoop.simps [simp del] cacheProcessLoop.simps [simp del]

text \<open>The code discards the priority it computes for the response, so its status stays suspended.\<close>

definition gmosTcpipDnsClientWorkerTaskFn ::
    "'x tcpipOps \<Rightarrow> (nat \<Rightarrow> 32 word) \<Rightarrow> mempool \<Rightarrow> dnsClient \<Rightarrow> sched \<Rightarrow> 'x \<Rightarrow>
     (32 word \<times> mempool \<times> dnsClient \<times> sched \<times> 'x) option" where
  "gmosTcpipDnsClientWorkerTaskFn ops tm p dnsClient sc x =
     (if \<not> phyLinkIsUp ops x \<or> dnsServerList dnsClient = None
      then do { (p, dnsClient) \<leftarrow> resetCacheLoop p dnsClient 0; Some (GMOS_TASK_SUSPEND, p, dnsClient, sc, x) }
      else do {
        let taskStatus = GMOS_TASK_SUSPEND;
        (p, dnsClient, x) \<leftarrow> (if udpSocketIpv4 dnsClient \<noteq> None
            then do { (nextStatus, p, dnsClient, x) \<leftarrow> gmosTcpipDnsClientResponseProcess ops p dnsClient x;
                      Some (p, dnsClient, x) }
            else Some (p, dnsClient, x));
        (taskStatus, udpKeepOpen, p, dnsClient, sc, x) \<leftarrow>
          cacheProcessLoop ops tm p dnsClient 0 False taskStatus sc x;
        let (dnsClient, x) = (case udpSocketIpv4 dnsClient of
            None \<Rightarrow> (dnsClient, x)
          | Some so \<Rightarrow>
              if udpKeepOpen then (dnsClient, x)
              else let (stackStatus, x) = udpClose ops so x
                   in if stackStatus \<noteq> GMOS_NETWORK_STATUS_RETRY
                      then (dnsClient\<lparr>udpSocketIpv4 := None\<rparr>, x) else (dnsClient, x));
        Some (taskStatus, p, dnsClient, sc, x) })"

subsection \<open>The interface\<close>

definition gmosTcpipDnsClientInit ::
    "'x tcpipOps \<Rightarrow> dnsClient \<Rightarrow> sched \<Rightarrow> 'x \<Rightarrow> (bool \<times> dnsClient \<times> sched \<times> 'x) option" where
  "gmosTcpipDnsClientInit ops dnsClient sc x = do {
     let (bs, x) = getRandomBytes ops 2 x;
     let dnsClient = dnsClient\<lparr>dnsServerList := None, udpSocketIpv4 := None, dnsXid := u16 (leNat bs),
           dnsCache := replicate GMOS_CONFIG_TCPIP_DNS_CACHE_SIZE gmosBufferInit\<rparr>;
     sc \<leftarrow> gmosSchedulerTaskStart (dnsWorkerTask dnsClient) sc;
     Some (True, dnsClient, sc, x) }"

text \<open>A pointer to a link of the server list: the head of the list or the link of a server.\<close>

definition loadServer :: "dnsClient \<Rightarrow> nat option \<Rightarrow> nat option" where
  "loadServer dnsClient l = (case l of None \<Rightarrow> dnsServerList dnsClient | Some s \<Rightarrow> nextServer dnsClient s)"

definition storeServer :: "dnsClient \<Rightarrow> nat option \<Rightarrow> nat option \<Rightarrow> dnsClient" where
  "storeServer dnsClient l v = (case l of
     None \<Rightarrow> dnsClient\<lparr>dnsServerList := v\<rparr>
   | Some s \<Rightarrow> dnsClient\<lparr>nextServer := (nextServer dnsClient)(s := v)\<rparr>)"

partial_function (option) removeServerLoop :: "dnsClient \<Rightarrow> nat \<Rightarrow> nat option \<Rightarrow> (bool \<times> dnsClient) option" where
  "removeServerLoop dnsClient dnsServerInfo serverInfoPtr =
     (case loadServer dnsClient serverInfoPtr of
        None \<Rightarrow> Some (False, dnsClient)
      | Some s \<Rightarrow>
          if s = dnsServerInfo then Some (True, storeServer dnsClient serverInfoPtr (nextServer dnsClient s))
          else removeServerLoop dnsClient dnsServerInfo (Some s))"

definition gmosTcpipDnsClientRemoveServer :: "dnsClient \<Rightarrow> nat \<Rightarrow> (bool \<times> dnsClient) option" where
  "gmosTcpipDnsClientRemoveServer dnsClient dnsServerInfo = removeServerLoop dnsClient dnsServerInfo None"

partial_function (option) insertServerLoop :: "dnsClient \<Rightarrow> nat \<Rightarrow> nat option \<Rightarrow> nat option option" where
  "insertServerLoop dnsClient priority serverInfoPtr =
     (case loadServer dnsClient serverInfoPtr of
        None \<Rightarrow> Some serverInfoPtr
      | Some s \<Rightarrow>
          if priority \<ge> serverPriority dnsClient s then Some serverInfoPtr
          else insertServerLoop dnsClient priority (Some s))"

definition gmosTcpipDnsClientAddServer ::
    "dnsClient \<Rightarrow> nat \<Rightarrow> bool \<Rightarrow> byte list \<Rightarrow> nat \<Rightarrow> (bool \<times> dnsClient) option" where
  "gmosTcpipDnsClientAddServer dnsClient dnsServerInfo useIpv6 serverAddr priority = do {
     (_, dnsClient) \<leftarrow> gmosTcpipDnsClientRemoveServer dnsClient dnsServerInfo;
     if useIpv6 then Some (False, dnsClient)
     else do {
       serverInfoPtr \<leftarrow> insertServerLoop dnsClient priority None;
       let dnsClient = dnsClient\<lparr>serverAddress := (serverAddress dnsClient)(dnsServerInfo := take 4 serverAddr),
             serverPriority := (serverPriority dnsClient)(dnsServerInfo := priority),
             nextServer := (nextServer dnsClient)(dnsServerInfo := loadServer dnsClient serverInfoPtr)\<rparr>;
       Some (True, storeServer dnsClient serverInfoPtr (Some dnsServerInfo)) } }"

text \<open>The results are the status, and the address that is stored for the caller.\<close>

definition gmosTcpipDnsClientQuery ::
    "'x tcpipOps \<Rightarrow> (nat \<Rightarrow> 32 word) \<Rightarrow> dnsCacheEntry \<Rightarrow> mempool \<Rightarrow> dnsClient \<Rightarrow> byte list \<Rightarrow> bool \<Rightarrow> sched \<Rightarrow> 'x \<Rightarrow>
     (gmosNetworkStatus \<times> byte list option \<times> mempool \<times> dnsClient \<times> sched) option" where
  "gmosTcpipDnsClientQuery ops tm stack p dnsClient dnsName useIpv6 sc x =
     (if useIpv6 then Some (GMOS_NETWORK_STATUS_UNSUPPORTED, None, p, dnsClient, sc)
      else if \<not> phyLinkIsUp ops x \<or> dnsServerList dnsClient = None
      then Some (GMOS_NETWORK_STATUS_NETWORK_DOWN, None, p, dnsClient, sc)
      else do {
        (hit, p, sc) \<leftarrow> gmosTcpipDnsClientCacheLookup tm p dnsClient dnsName sc;
        case hit of
          Some (i, e) \<Rightarrow>
            Some (if dnsEntryState e = DNS_VALID
                  then (GMOS_NETWORK_STATUS_SUCCESS, Some (resolvedAddr e), p, dnsClient, sc)
                  else (if dnsEntryState e = DNS_TIMEOUT then GMOS_NETWORK_STATUS_TIMEOUT
                        else if dnsEntryState e = DNS_NOT_VALID then GMOS_NETWORK_STATUS_NOT_VALID
                        else GMOS_NETWORK_STATUS_RETRY, None, p, dnsClient, sc))
        | None \<Rightarrow> do {
            (ok, dnsNameError, p, dnsClient, sc) \<leftarrow> gmosTcpipDnsClientCacheAlloc tm stack p dnsClient dnsName sc;
            if ok then do {
              sc \<leftarrow> gmosSchedulerTaskResume (dnsWorkerTask dnsClient) sc;
              Some (GMOS_NETWORK_STATUS_RETRY, None, p, dnsClient, sc) }
            else if dnsNameError then Some (GMOS_NETWORK_STATUS_NOT_VALID, None, p, dnsClient, sc)
            else Some (GMOS_NETWORK_STATUS_RETRY, None, p, dnsClient, sc) } })"

text \<open>A client without servers and requests.\<close>

definition emptyClient :: "nat \<Rightarrow> dnsClient" where
  "emptyClient t = \<lparr>dnsServerList = None, nextServer = (\<lambda>_. None), serverAddress = (\<lambda>_. []), serverPriority = (\<lambda>_. 0),
     udpSocketIpv4 = None, dnsWorkerTask = t,
     dnsCache = replicate GMOS_CONFIG_TCPIP_DNS_CACHE_SIZE gmosBufferInit, dnsXid = 0\<rparr>"

subsection \<open>One of several buffers\<close>

lemma bufs_ConsE:
  assumes "bufs p (y # r) R"
  obtains b ds xs where "y = (b, ds)" "buf_rep p b xs ds" "set xs \<inter> R = {}" "bufs p r (set xs \<union> R)"
  using assms by (cases y) auto

lemma bufs_ConsI: "buf_rep p b xs ds \<Longrightarrow> set xs \<inter> R = {} \<Longrightarrow> bufs p r (set xs \<union> R) \<Longrightarrow> bufs p ((b, ds) # r) R"
  by auto

declare bufs.simps [simp del]

lemma bufs_front: "bufs p (l @ x # r) R \<Longrightarrow> bufs p (x # l @ r) R"
proof (induction l arbitrary: R)
  case (Cons y l)
  from Cons.prems have "bufs p (y # l @ x # r) R" by simp
  then obtain b ds xs where y: "y = (b, ds)" "buf_rep p b xs ds" "set xs \<inter> R = {}"
    "bufs p (l @ x # r) (set xs \<union> R)" by (rule bufs_ConsE)
  have "bufs p (y # x # l @ r) R" unfolding y(1) by (rule bufs_ConsI [OF y(2,3) Cons.IH [OF y(4)]])
  then show ?case unfolding append_Cons by (rule bufs_swap)
qed simp

lemma bufs_back: "bufs p (x # l @ r) R \<Longrightarrow> bufs p (l @ x # r) R"
proof (induction l arbitrary: R)
  case (Cons y l)
  have "bufs p (y # x # l @ r) R" using bufs_swap Cons.prems unfolding append_Cons .
  then obtain b ds xs where y: "y = (b, ds)" "buf_rep p b xs ds" "set xs \<inter> R = {}"
    "bufs p (x # l @ r) (set xs \<union> R)" by (rule bufs_ConsE)
  show ?case unfolding y(1) append_Cons by (rule bufs_ConsI [OF y(2,3) Cons.IH [OF y(4)]])
qed simp

text \<open>
  The buffers of \<open>xs\<close> worked on alone, with the segments of the others set aside: what is then
  true of \<open>xs\<close> is true beside the others.
\<close>

lemma bufs_focus:
  "bufs p (xs @ r) R \<Longrightarrow> \<exists>R'. R \<subseteq> R' \<and> bufs p xs R' \<and>
     (\<forall>p' xs'. bufs p' xs' R' \<longrightarrow> same_on R' p p' \<longrightarrow> bufs p' (xs' @ r) R)"
proof (induction r arbitrary: R)
  case Nil
  then show ?case by auto
next
  case (Cons y r)
  from bufs_front [OF Cons.prems] obtain b ds ys where y: "y = (b, ds)" "buf_rep p b ys ds"
    "set ys \<inter> R = {}" "bufs p (xs @ r) (set ys \<union> R)" by (rule bufs_ConsE)
  from Cons.IH [OF y(4)] obtain R' where R': "set ys \<union> R \<subseteq> R'" "bufs p xs R'"
    "\<forall>p' xs'. bufs p' xs' R' \<longrightarrow> same_on R' p p' \<longrightarrow> bufs p' (xs' @ r) (set ys \<union> R)" by blast
  have "bufs p' (xs' @ y # r) R" if "bufs p' xs' R'" "same_on R' p p'" for p' xs'
  proof (rule bufs_back)
    have "same_on (set ys \<union> R) p p'" using same_on_mono [OF that(2) R'(1)] .
    then have "buf_rep p' b ys ds" using buf_rep_same_on [OF y(2)] by simp
    then show "bufs p' (y # xs' @ r) R"
      unfolding y(1) using y(3) R'(3) that by (intro bufs_ConsI) auto
  qed
  then show ?case using R'(1,2) by blast
qed

text \<open>The buffer at an index of a list, and a first buffer together with it.\<close>

lemma zip_split:
  assumes "i < length bs" "length ds = length bs"
  shows "zip bs ds = zip (take i bs) (take i ds) @ (bs ! i, ds ! i) # zip (drop (i + 1) bs) (drop (i + 1) ds)"
    and "zip (bs[i := b]) (ds[i := d]) = zip (take i bs) (take i ds) @ (b, d) # zip (drop (i + 1) bs) (drop (i + 1) ds)"
proof -
  have z: "zip (bs[i := b]) (ds[i := d]) =
      zip (take i bs) (take i ds) @ (b, d) # zip (drop (i + 1) bs) (drop (i + 1) ds)" for b d
    using assms by (simp only: upd_conv_take_nth_drop [of i bs] upd_conv_take_nth_drop [of i ds]) simp
  show "zip (bs[i := b]) (ds[i := d]) =
      zip (take i bs) (take i ds) @ (b, d) # zip (drop (i + 1) bs) (drop (i + 1) ds)" by (rule z)
  show "zip bs ds = zip (take i bs) (take i ds) @ (bs ! i, ds ! i) # zip (drop (i + 1) bs) (drop (i + 1) ds)"
    using z [of "bs ! i" "ds ! i"] by (simp only: list_update_id)
qed

lemma bufs_pick:
  assumes "bufs p (ms @ zip bs ds) R" "i < length bs" "length ds = length bs"
  obtains R' where "R \<subseteq> R'" "bufs p (ms @ [(bs ! i, ds ! i)]) R'"
    "\<And>p' ms' b d. bufs p' (ms' @ [(b, d)]) R' \<Longrightarrow> same_on R' p p' \<Longrightarrow>
       bufs p' (ms' @ zip (bs[i := b]) (ds[i := d])) R"
proof -
  let ?l = "zip (take i bs) (take i ds)" and ?r = "zip (drop (i + 1) bs) (drop (i + 1) ds)"
  note z = zip_split [OF assms(2,3)]
  have "bufs p ((ms @ ?l) @ (bs ! i, ds ! i) # ?r) R" using assms(1) unfolding z(1) append_assoc .
  from bufs_front [OF this] have "bufs p (ms @ (bs ! i, ds ! i) # (?l @ ?r)) R"
    unfolding append_assoc by (rule bufs_back)
  then have "bufs p ((ms @ [(bs ! i, ds ! i)]) @ (?l @ ?r)) R" by simp
  from bufs_focus [OF this] obtain R' where R': "R \<subseteq> R'" "bufs p (ms @ [(bs ! i, ds ! i)]) R'"
    "\<forall>p' xs'. bufs p' xs' R' \<longrightarrow> same_on R' p p' \<longrightarrow> bufs p' (xs' @ (?l @ ?r)) R" by blast
  have "bufs p' (ms' @ zip (bs[i := b]) (ds[i := d])) R"
    if "bufs p' (ms' @ [(b, d)]) R'" "same_on R' p p'" for p' ms' b d
  proof -
    have "bufs p' (ms' @ (b, d) # (?l @ ?r)) R" using R'(3) that by fastforce
    from bufs_front [OF this] have "bufs p' ((b, d) # (ms' @ ?l) @ ?r) R" unfolding append_assoc .
    from bufs_back [OF this] show ?thesis unfolding z(2) append_assoc .
  qed
  then show thesis using that R'(1,2) by blast
qed

lemma bufs_at:
  assumes "bufs p (zip bs ds) R" "i < length bs" "length ds = length bs"
  obtains R' where "R \<subseteq> R'" "buf_state p (bs ! i) (ds ! i) R'"
    "\<And>p' b d. buf_state p' b d R' \<Longrightarrow> same_on R' p p' \<Longrightarrow> bufs p' (zip (bs[i := b]) (ds[i := d])) R"
proof -
  have "bufs p ([] @ zip bs ds) R" using assms(1) by simp
  from bufs_pick [OF this assms(2,3)] obtain R' where R': "R \<subseteq> R'" "bufs p ([] @ [(bs ! i, ds ! i)]) R'"
    "\<And>p' ms' b d. bufs p' (ms' @ [(b, d)]) R' \<Longrightarrow> same_on R' p p' \<Longrightarrow>
       bufs p' (ms' @ zip (bs[i := b]) (ds[i := d])) R" by blast
  show thesis
  proof (rule that [OF R'(1)])
    show "buf_state p (bs ! i) (ds ! i) R'" using R'(2) by (simp add: bufs_1)
    show "bufs p' (zip (bs[i := b]) (ds[i := d])) R" if "buf_state p' b d R'" "same_on R' p p'" for p' b d
      using R'(3) [of p' "[]" b d] that by (simp add: bufs_1)
  qed
qed

end
