(* ===== verification/Gmos_Dns_Servers.thy ===== *)
theory Gmos_Dns_Servers
  imports Gmos_Dns
begin

text \<open>
  The list of DNS servers: adding a server, moving one, taking one out and the choice of the server
  for the next attempt of a request, against the list of the servers in order.
\<close>

subsection \<open>Links\<close>

lemma loadServer_simps [simp]:
  "loadServer cl None = dnsServerList cl" "loadServer cl (Some s) = nextServer cl s"
  by (simp_all add: loadServer_def)

lemma storeServer_simps [simp]:
  "storeServer cl None v = cl\<lparr>dnsServerList := v\<rparr>"
  "storeServer cl (Some s) v = cl\<lparr>nextServer := (nextServer cl)(s := v)\<rparr>"
  by (simp_all add: storeServer_def)

text \<open>The link to the servers behind \<open>us\<close>.\<close>

definition linkAfter :: "nat list \<Rightarrow> nat option" where
  "linkAfter us = (if us = [] then None else Some (last us))"

lemma loadServer_after: "llist (nextServer cl) (dnsServerList cl) (us @ ws) \<Longrightarrow> llist (nextServer cl) (loadServer cl (linkAfter us)) ws"
proof (cases "us = []")
  case False
  assume "llist (nextServer cl) (dnsServerList cl) (us @ ws)"
  from chain_cut(2) [OF this False] show ?thesis using False by (simp add: linkAfter_def)
qed (simp add: linkAfter_def)

lemma storeServer_after:
  assumes "llist (nextServer cl) (dnsServerList cl) (us @ ws)" "llist (nextServer cl) v vs" "set us \<inter> set vs = {}"
  defines "cl' \<equiv> storeServer cl (linkAfter us) v"
  shows "llist (nextServer cl') (dnsServerList cl') (us @ vs)"
proof (cases "us = []")
  case True
  then show ?thesis using assms(2) by (simp add: cl'_def linkAfter_def)
next
  case False
  then have l: "last us \<notin> set vs" using assms(3) by (meson disjoint_iff last_in_set)
  then have "llist ((nextServer cl)(last us := v)) v vs" using assms(2) by (simp add: chain_upd)
  from chain_splice [OF assms(1) False this l] show ?thesis using False by (simp add: cl'_def linkAfter_def)
qed

lemma storeServer_frame [simp]:
  "serverPriority (storeServer cl l v) = serverPriority cl" "serverAddress (storeServer cl l v) = serverAddress cl"
  by (simp_all add: storeServer_def split: option.split)

subsection \<open>Taking a server out\<close>

lemma removeServerLoop_hit:
  "llist (nextServer cl) (loadServer cl ptr) (us @ s # vs) \<Longrightarrow> s \<notin> set us \<Longrightarrow>
     removeServerLoop cl s ptr = Some (True, storeServer cl (if us = [] then ptr else Some (last us)) (nextServer cl s))"
proof (induction us arbitrary: ptr)
  case Nil
  then show ?case by (subst removeServerLoop.simps) simp
next
  case (Cons u us)
  then have "loadServer cl ptr = Some u" "u \<noteq> s" by auto
  moreover have "removeServerLoop cl s (Some u) =
      Some (True, storeServer cl (if us = [] then Some u else Some (last us)) (nextServer cl s))"
    using Cons.prems by (intro Cons.IH) auto
  ultimately show ?case by (subst removeServerLoop.simps) simp
qed

lemma removeServerLoop_miss:
  "llist (nextServer cl) (loadServer cl ptr) ss \<Longrightarrow> s \<notin> set ss \<Longrightarrow> removeServerLoop cl s ptr = Some (False, cl)"
proof (induction ss arbitrary: ptr)
  case Nil
  then show ?case by (subst removeServerLoop.simps) simp
next
  case (Cons t ss)
  then have "loadServer cl ptr = Some t" "t \<noteq> s" by auto
  moreover have "removeServerLoop cl s (Some t) = Some (False, cl)" using Cons.prems by (intro Cons.IH) auto
  ultimately show ?case by (subst removeServerLoop.simps) simp
qed

lemma RemoveServer_ok:
  assumes ss: "llist (nextServer cl) (dnsServerList cl) ss"
  shows "\<exists>cl'. gmosTcpipDnsClientRemoveServer cl s = Some (s \<in> set ss, cl') \<and>
    llist (nextServer cl') (dnsServerList cl') (remove1 s ss) \<and>
    serverPriority cl' = serverPriority cl \<and> serverAddress cl' = serverAddress cl"
proof (cases "s \<in> set ss")
  case False
  then show ?thesis using removeServerLoop_miss [of cl None ss s] ss
    by (simp add: gmosTcpipDnsClientRemoveServer_def remove1_idem)
next
  case True
  then obtain us vs where u: "ss = us @ s # vs" "s \<notin> set us" by (meson split_list_first)
  have c: "llist (nextServer cl) (dnsServerList cl) (us @ s # vs)" using ss u(1) by simp
  then have "distinct (us @ s # vs)" by (rule llist_distinct)
  then have d: "set us \<inter> set vs = {}" by auto
  have v: "llist (nextServer cl) (nextServer cl s) vs" using loadServer_after [OF c] by simp
  have "removeServerLoop cl s None = Some (True, storeServer cl (linkAfter us) (nextServer cl s))"
    using removeServerLoop_hit [of cl None us s vs] c u(2) by (simp add: linkAfter_def)
  then show ?thesis using storeServer_after [OF c v d] u True
    by (simp add: gmosTcpipDnsClientRemoveServer_def remove1_append)
qed

subsection \<open>Adding a server\<close>

text \<open>A server goes in front of the first one of a priority that is not higher.\<close>

definition insertServer :: "(nat \<Rightarrow> nat) \<Rightarrow> nat \<Rightarrow> nat \<Rightarrow> nat list \<Rightarrow> nat list" where
  "insertServer pr n s ss = takeWhile (\<lambda>t. n < pr t) ss @ s # dropWhile (\<lambda>t. n < pr t) ss"

definition byPriority :: "(nat \<Rightarrow> nat) \<Rightarrow> nat list \<Rightarrow> bool" where
  "byPriority pr ss \<longleftrightarrow> sorted_wrt (\<lambda>a b. pr b \<le> pr a) ss"

lemma set_insertServer: "set (insertServer pr n s ss) = insert s (set ss)"
proof -
  have "set ss = set (takeWhile (\<lambda>t. n < pr t) ss) \<union> set (dropWhile (\<lambda>t. n < pr t) ss)"
    by (metis set_append takeWhile_dropWhile_id)
  then show ?thesis by (auto simp: insertServer_def)
qed

lemma byPriority_cong: "(\<And>t. t \<in> set ss \<Longrightarrow> pr' t = pr t) \<Longrightarrow> byPriority pr' ss = byPriority pr ss"
  by (induction ss) (auto simp: byPriority_def)

lemma byPriority_remove1: "byPriority pr ss \<Longrightarrow> byPriority pr (remove1 s ss)"
  using notin_set_remove1 by (induction ss) (fastforce simp: byPriority_def)+

lemma byPriority_insert:
  assumes "byPriority pr ss" "s \<notin> set ss"
  shows "byPriority (pr(s := n)) (insertServer pr n s ss)"
  using assms
proof (induction ss)
  case Nil
  then show ?case by (simp add: byPriority_def insertServer_def)
next
  case (Cons t ss)
  have st: "t \<noteq> s" "s \<notin> set ss" using Cons.prems(2) by auto
  have ss: "byPriority pr ss" "\<forall>u\<in>set ss. pr u \<le> pr t" using Cons.prems(1) by (simp_all add: byPriority_def)
  have "byPriority (pr(s := n)) ss = byPriority pr ss" by (rule byPriority_cong) (use st(2) in auto)
  then have k: "byPriority (pr(s := n)) ss" using ss(1) by blast
  show ?case
  proof (cases "n < pr t")
    case True
    then have "insertServer pr n s (t # ss) = t # insertServer pr n s ss" by (simp add: insertServer_def)
    then show ?thesis using Cons.IH [OF ss(1) st(2)] ss(2) st True set_insertServer [of pr n s ss]
      by (auto simp: byPriority_def)
  next
    case False
    then have "insertServer pr n s (t # ss) = s # t # ss" by (simp add: insertServer_def)
    then show ?thesis using k ss(2) st False by (fastforce simp: byPriority_def)
  qed
qed

lemma insertServerLoop_ok:
  "llist (nextServer cl) (loadServer cl ptr) ss \<Longrightarrow> insertServerLoop cl n ptr =
     Some (let us = takeWhile (\<lambda>t. n < serverPriority cl t) ss in if us = [] then ptr else Some (last us))"
proof (induction ss arbitrary: ptr)
  case Nil
  then show ?case by (subst insertServerLoop.simps) simp
next
  case (Cons t ss)
  then have t: "loadServer cl ptr = Some t" by simp
  have "insertServerLoop cl n (Some t) = Some (let us = takeWhile (\<lambda>t. n < serverPriority cl t) ss
      in if us = [] then Some t else Some (last us))" using Cons.prems by (intro Cons.IH) simp
  then show ?case using t by (subst insertServerLoop.simps) (auto simp: Let_def)
qed

lemma AddServer_ok:
  assumes ss: "llist (nextServer cl) (dnsServerList cl) ss"
  shows "\<exists>cl'. gmosTcpipDnsClientAddServer cl s False addr n = Some (True, cl') \<and>
    llist (nextServer cl') (dnsServerList cl') (insertServer (serverPriority cl) n s (remove1 s ss)) \<and>
    serverPriority cl' = (serverPriority cl)(s := n) \<and> serverAddress cl' = (serverAddress cl)(s := take 4 addr)"
proof -
  let ?rest = "remove1 s ss" and ?P = "\<lambda>t. n < serverPriority cl t"
  obtain cl1 where r: "gmosTcpipDnsClientRemoveServer cl s = Some (s \<in> set ss, cl1)"
    "llist (nextServer cl1) (dnsServerList cl1) ?rest"
    "serverPriority cl1 = serverPriority cl" "serverAddress cl1 = serverAddress cl"
    using RemoveServer_ok [OF ss, of s] by (elim exE conjE) (rule that)
  have s: "s \<notin> set ?rest" using llist_distinct [OF ss] by simp
  define us ws where "us = takeWhile ?P ?rest" and "ws = dropWhile ?P ?rest"
  have uw: "?rest = us @ ws" by (simp add: us_def ws_def)
  have lp: "insertServerLoop cl1 n None = Some (linkAfter us)"
    using insertServerLoop_ok [of cl1 None ?rest n] r(2,3) by (simp add: us_def linkAfter_def Let_def)
  let ?cl = "cl1\<lparr>serverAddress := (serverAddress cl1)(s := take 4 addr), serverPriority := (serverPriority cl1)(s := n),
      nextServer := (nextServer cl1)(s := loadServer cl1 (linkAfter us))\<rparr>"
  have ls: "llist (nextServer cl1) (dnsServerList cl1) (us @ ws)" using r(2) uw by simp
  have n: "s \<notin> set us" "s \<notin> set ws" "set us \<inter> set ws = {}" using s llist_distinct [OF ls] by (auto simp: uw)
  have a: "llist (nextServer ?cl) (dnsServerList ?cl) (us @ ws)"
    using ls chain_upd [of s "us @ ws" "nextServer cl1"] n(1,2) by simp
  have b: "llist (nextServer ?cl) (Some s) (s # ws)"
    using loadServer_after [OF ls] chain_upd [of s ws "nextServer cl1"] n(2) by simp
  have "set us \<inter> set (s # ws) = {}" using n by auto
  from storeServer_after [OF a b this] show ?thesis using r(1,3,4) lp
    by (simp add: gmosTcpipDnsClientAddServer_def insertServer_def us_def [symmetric] ws_def [symmetric])
qed

subsection \<open>The choice of a server\<close>

lemma llist_nth: "llist nx h ss \<Longrightarrow> k < length ss \<Longrightarrow> nx (ss ! k) = ptr_at ss (k + 1)"
  by (induction ss arbitrary: h k) (auto simp: nth_Cons' llist_ptr_at split: nat.split dest: llist_ptr_at)

lemma serverWalk_cycle:
  assumes ss: "llist (nextServer cl) (dnsServerList cl) ss"
  shows "k < length ss \<Longrightarrow> serverWalk cl (ss ! k) n = Some (ss ! ((k + n) mod length ss))"
proof (induction n arbitrary: k)
  case (Suc n)
  note nx = llist_nth [OF ss Suc.prems]
  show ?case
  proof (cases "k + 1 < length ss")
    case True
    then show ?thesis using nx Suc.IH [OF True] by (simp add: ptr_at_def)
  next
    case False
    then have k: "k + 1 = length ss" using Suc.prems by simp
    have "dnsServerList cl = Some (ss ! 0)" using llist_ptr_at [OF ss] Suc.prems by (auto simp: ptr_at_def)
    moreover have "(k + Suc n) mod length ss = n mod length ss" using k by (metis add_Suc_shift mod_add_self1 plus_1_eq_Suc add.commute)
    moreover have "0 < length ss" using Suc.prems by (cases ss) simp_all
    ultimately show ?thesis using nx False Suc.IH [of 0] by (simp add: ptr_at_def)
  qed
qed simp

lemma ServerSelect_ok:
  assumes "llist (nextServer cl) (dnsServerList cl) ss"
  shows "gmosTcpipDnsServerSelect cl e = Some (if ss = [] \<or> retryCount e > GMOS_CONFIG_TCPIP_DNS_RETRY_COUNT then None
    else Some (ss ! (retryCount e mod length ss)))"
proof (cases ss)
  case Nil
  then show ?thesis using assms by (simp add: gmosTcpipDnsServerSelect_def)
next
  case (Cons s ts)
  then have "dnsServerList cl = Some (ss ! 0)" "0 < length ss" using assms by simp_all
  then show ?thesis using serverWalk_cycle [OF assms, of 0 "retryCount e"] Cons
    by (simp add: gmosTcpipDnsServerSelect_def)
qed

text \<open>
  C35: The servers are kept in order of falling priority. A server that is added, or moved with a
  new address and priority, goes in front of the first other server whose priority is not higher;
  taking it out again leaves the others. The attempts of a request, up to the last one allowed, go
  round that list from its front, one server after the other.
\<close>

theorem dns_servers:
  assumes "llist (nextServer cl) (dnsServerList cl) ss" "byPriority (serverPriority cl) ss"
  shows "\<exists>cl' ss'. gmosTcpipDnsClientAddServer cl s False addr n = Some (True, cl') \<and>
    ss' = insertServer (serverPriority cl) n s (remove1 s ss) \<and>
    llist (nextServer cl') (dnsServerList cl') ss' \<and> byPriority (serverPriority cl') ss' \<and>
    serverPriority cl' = (serverPriority cl)(s := n) \<and> serverAddress cl' = (serverAddress cl)(s := take 4 addr) \<and>
    (\<forall>e. gmosTcpipDnsServerSelect cl' e = Some (if retryCount e > GMOS_CONFIG_TCPIP_DNS_RETRY_COUNT then None
       else Some (ss' ! (retryCount e mod length ss')))) \<and>
    (\<exists>cl''. gmosTcpipDnsClientRemoveServer cl' s = Some (True, cl'') \<and>
       llist (nextServer cl'') (dnsServerList cl'') (remove1 s ss))"
proof -
  let ?rest = "remove1 s ss"
  let ?ss = "insertServer (serverPriority cl) n s ?rest"
  obtain cl' where a: "gmosTcpipDnsClientAddServer cl s False addr n = Some (True, cl')"
    "llist (nextServer cl') (dnsServerList cl') ?ss" "serverPriority cl' = (serverPriority cl)(s := n)"
    "serverAddress cl' = (serverAddress cl)(s := take 4 addr)"
    using AddServer_ok [OF assms(1), of s addr n] by (elim exE conjE) (rule that)
  have s: "s \<notin> set ?rest" using llist_distinct [OF assms(1)] by simp
  have p: "byPriority (serverPriority cl') ?ss"
    unfolding a(3) by (rule byPriority_insert [OF byPriority_remove1 [OF assms(2)] s])
  have ne: "?ss \<noteq> []" by (simp add: insertServer_def)
  have "s \<notin> set (takeWhile (\<lambda>t. n < serverPriority cl t) ?rest)" using s set_takeWhileD by metis
  then have rm: "remove1 s ?ss = ?rest" by (simp add: insertServer_def remove1_append)
  obtain cl'' where "gmosTcpipDnsClientRemoveServer cl' s = Some (s \<in> set ?ss, cl'')"
    "llist (nextServer cl'') (dnsServerList cl'') ?rest"
    using RemoveServer_ok [OF a(2), of s] unfolding rm by blast
  then show ?thesis using a p ne ServerSelect_ok [OF a(2)]
    by (intro exI [of _ cl'] exI [of _ ?ss]) (simp add: set_insertServer)
qed

text \<open>Three servers in turn, and a fourth attempt that starts over.\<close>

theorem dns_servers_witness:
  "\<exists>cl1 cl2 cl3. gmosTcpipDnsClientAddServer (emptyClient 5) 7 False [10, 0, 0, 1] 1 = Some (True, cl1) \<and>
     gmosTcpipDnsClientAddServer cl1 8 False [10, 0, 0, 2] 2 = Some (True, cl2) \<and>
     gmosTcpipDnsClientAddServer cl2 9 False [10, 0, 0, 3] 1 = Some (True, cl3) \<and>
     (\<forall>e. retryCount e = 1 \<longrightarrow> gmosTcpipDnsServerSelect cl3 e = Some (Some 9)) \<and>
     (\<forall>e. retryCount e = 3 \<longrightarrow> gmosTcpipDnsServerSelect cl3 e = Some (Some 8))"
proof -
  have i0: "llist (nextServer (emptyClient 5)) (dnsServerList (emptyClient 5)) []"
    "byPriority (serverPriority (emptyClient 5)) []" by (simp_all add: emptyClient_def byPriority_def)
  have p0: "serverPriority (emptyClient 5) = (\<lambda>_. 0)" by (simp add: emptyClient_def)
  from dns_servers [OF i0, of 7 "[10, 0, 0, 1]" 1] obtain cl1 where 1:
    "gmosTcpipDnsClientAddServer (emptyClient 5) 7 False [10, 0, 0, 1] 1 = Some (True, cl1)"
    "llist (nextServer cl1) (dnsServerList cl1) [7]" "byPriority (serverPriority cl1) [7]"
    "serverPriority cl1 = (\<lambda>_. 0)(7 := 1)" by (auto simp: insertServer_def p0)
  from dns_servers [OF 1(2,3), of 8 "[10, 0, 0, 2]" 2] obtain cl2 where 2:
    "gmosTcpipDnsClientAddServer cl1 8 False [10, 0, 0, 2] 2 = Some (True, cl2)"
    "llist (nextServer cl2) (dnsServerList cl2) [8, 7]" "byPriority (serverPriority cl2) [8, 7]"
    "serverPriority cl2 = (\<lambda>_. 0)(7 := 1, 8 := 2)" by (auto simp: insertServer_def 1(4))
  from dns_servers [OF 2(2,3), of 9 "[10, 0, 0, 3]" 1] obtain cl3 where
    "gmosTcpipDnsClientAddServer cl2 9 False [10, 0, 0, 3] 1 = Some (True, cl3)"
    "\<forall>e. gmosTcpipDnsServerSelect cl3 e = Some (if retryCount e > GMOS_CONFIG_TCPIP_DNS_RETRY_COUNT then None
       else Some ([8, 9, 7] ! (retryCount e mod 3)))" by (auto simp: insertServer_def 2(4))
  then show ?thesis using 1(1) 2(1)
    by (intro exI [of _ cl1] exI [of _ cl2] exI [of _ cl3]) (simp add: GMOS_CONFIG_TCPIP_DNS_RETRY_COUNT_def)
qed

end
