(* ===== verification/Gmos_Buffer_Room.thy ===== *)
theory Gmos_Buffer_Room
  imports Gmos_Buffer_Ops
begin

text \<open>
  How many segments the operations on a buffer take from a static pool and give back: the free
  segments and those of the buffer are together always the same number. This is what a lost
  segment would change, and the clients of the buffers that promise to lose none rest on it.
\<close>

definition held :: "gmosBuffer \<Rightarrow> nat" where
  "held b = need (bufferOffset b + bufferSize b)"

text \<open>Nothing is lost between two states of a pool and a buffer.\<close>

definition settles :: "mempool \<Rightarrow> gmosBuffer \<Rightarrow> mempool \<Rightarrow> gmosBuffer \<Rightarrow> bool" where
  "settles p b p' b' \<longleftrightarrow>
     (\<not> mempoolUseHeap p \<longrightarrow> \<not> mempoolUseHeap p' \<and> avail p' + held b' = avail p + held b)"

lemma settles_refl [simp]: "settles p b p b"
  by (simp add: settles_def)

lemma settles_trans: "settles p b q c \<Longrightarrow> settles q c r d \<Longrightarrow> settles p b r d"
  by (simp add: settles_def)

lemma held_init [simp]: "held gmosBufferInit = 0"
  by (simp add: held_def)

lemma held_state: "buf_state p b ds R \<Longrightarrow> held b = need (bufferOffset b + length ds)"
  using buf_state_size by (simp add: held_def)

lemma Discard_settles:
  assumes "buf_state p b ds R" "gmosBufferDiscardContents p b = Some (p', b')"
  shows "settles p b p' b'"
proof -
  obtain q where q: "gmosBufferDiscardContents p b = Some (q, gmosBufferInit)" "mempoolUseHeap q = mempoolUseHeap p"
    "\<not> mempoolUseHeap p \<Longrightarrow> avail q = avail p + need (bufferOffset b + length ds)"
    by (rule gmosBufferDiscardContents_ok [OF assms(1)]) (rule that)
  then show ?thesis using assms(2) held_state [OF assms(1)] by (simp add: settles_def)
qed

text \<open>Growing at the front moves the offset by whole segments.\<close>

lemma IncrSizeStart_held:
  assumes st: "buf_state p b ds R" and n: "length ds < n" "n < 65536"
    and r: "gmosBufferIncrSizeStart p b n = Some (True, p', b')"
  shows "held b' = held b + need (n - length ds - bufferOffset b)"
proof -
  note sz = buf_state_size [OF st]
  let ?off = "bufferOffset b" and ?ex = "n - length ds"
  have off: "?off < SEG" using st by (auto simp: buf_state_def dest: buf_repD)
  have ex: "sub32 n (bufferSize b) = ?ex" "u16 n = n" using n sz by simp_all
  show ?thesis
  proof (cases "?ex \<le> ?off")
    case True
    have "b' = b\<lparr>bufferSize := n, bufferOffset := ?off - ?ex\<rparr>"
      using r True ex off by (simp add: gmosBufferIncrSizeStart_def Let_def GMOS_CONFIG_MEMPOOL_SEGMENT_SIZE_def)
    moreover have "?off - ?ex + n = ?off + length ds" using True n by simp
    ultimately show ?thesis using sz True by (simp add: held_def)
  next
    case False
    define m where "m = need (?ex - ?off)"
    define o' where "o' = ?off + SEG * m - ?ex"
    have m: "1 + sub32 (sub32 ?ex ?off) 1 div SEG = m"
      using False n need_code [of "?ex - ?off"] by (simp add: m_def)
    have om: "o' + ?ex = ?off + SEG * m" "o' < SEG"
      using need_le [of "?ex - ?off"] need_less [of "?ex - ?off"] False by (auto simp: o'_def m_def)
    have "sub32 ?off ?ex + m * SEG = o' + 4294967296"
      using False n om(1) by (simp add: sub32_def mult.commute)
    then have oc: "u16 (u32 (sub32 ?off ?ex + m * SEG)) = o'"
      using om(2) by (simp add: u32_def GMOS_CONFIG_MEMPOOL_SEGMENT_SIZE_def)
    have b: "bufferSize b' = n" "bufferOffset b' = o'"
      using r [unfolded gmosBufferIncrSizeStart_def Let_def ex, unfolded m oc] False
      by (auto split: option.splits bind_splits)
    have "o' + n = ?off + length ds + SEG * m" using om(1) n by linarith
    then show ?thesis using sz by (simp only: held_def b need_shift m_def)
  qed
qed

lemma Rebase_settles:
  assumes st: "buf_state p b ds R" and n: "n < 65536" and r: "gmosBufferRebase p b n = Some (ok, p', b')"
  shows "settles p b p' b'"
proof -
  note s = buf_state_size [OF st] held_state [OF st]
  consider (zero) "n = 0" | (same) "n = length ds" "0 < n" | (grow) "length ds < n"
    | (cut) "0 < n" "n < length ds" by linarith
  then show ?thesis
  proof cases
    case zero
    then show ?thesis using r Discard_settles [OF st] by (auto simp: gmosBufferRebase_def split: bind_splits)
  next
    case same
    then show ?thesis using r s by (simp add: gmosBufferRebase_def)
  next
    case grow
    obtain k q c where q: "gmosBufferIncrSizeStart p b n = Some (k, q, c)" "mempoolUseHeap q = mempoolUseHeap p"
      "k \<longleftrightarrow> need (n - length ds - bufferOffset b) \<le> avail p" "\<not> k \<Longrightarrow> c = b \<and> buf_state q b ds R"
      "\<not> mempoolUseHeap p \<Longrightarrow> avail q = (if k then avail p - need (n - length ds - bufferOffset b) else avail p)"
      by (rule gmosBufferIncrSizeStart_ok [OF st grow n]) (rule that)
    have e: "q = p'" "c = b'" "k = ok" using r q(1) grow s by (simp_all add: gmosBufferRebase_def)
    show ?thesis using q IncrSizeStart_held [OF st grow n, of q c] unfolding e settles_def by (cases ok) auto
  next
    case cut
    obtain q c where q: "gmosBufferDecrSizeStart p b n = Some (q, c)" "buf_state q c (drop (length ds - n) ds) R"
      "mempoolUseHeap q = mempoolUseHeap p"
      "\<not> mempoolUseHeap p \<Longrightarrow> avail q = avail p + (bufferOffset b + (length ds - n)) div SEG"
      "bufferOffset c = (bufferOffset b + (length ds - n)) mod SEG"
      by (rule gmosBufferDecrSizeStart_ok [OF st cut]) (rule that)
    have e: "q = p'" "c = b'" using r q(1) cut s by (simp_all add: gmosBufferRebase_def)
    let ?k = "(bufferOffset b + (length ds - n)) div SEG"
    have "bufferOffset c + n + SEG * ?k = bufferOffset b + length ds"
      using q(5) cut mult_div_mod_eq [of SEG "bufferOffset b + (length ds - n)"] by linarith
    then have "need (bufferOffset b + length ds) = need (bufferOffset c + n) + ?k" by (metis need_shift)
    moreover have "held c = need (bufferOffset c + n)" using held_state [OF q(2)] cut by simp
    ultimately show ?thesis using q(3,4) s(2) unfolding e settles_def by simp
  qed
qed

text \<open>Writing into segments and copying them leaves the accounting alone.\<close>

lemma copyToLoop_room: "copyToLoop p segment off ds = Some p' \<Longrightarrow> avail p' = avail p \<and> mempoolUseHeap p' = mempoolUseHeap p"
proof (rule copyToLoop.raw_induct
    [where P = "\<lambda>p segment off ds p'. avail p' = avail p \<and> mempoolUseHeap p' = mempoolUseHeap p", rotated])
  fix f p segment off ds p'
  assume ih: "\<And>p segment off ds p'. f p segment off ds = Some p' \<Longrightarrow> avail p' = avail p \<and> mempoolUseHeap p' = mempoolUseHeap p"
    and "(let blockSize = min (SEG - off) (length ds); rest = drop blockSize ds
      in if blockSize = 0 \<and> rest = [] then Some p
         else (case segment of None \<Rightarrow> None
               | Some s \<Rightarrow> (let p1 = writeSeg s off (take blockSize ds) p
                    in if rest = [] then Some p1 else f p1 (nextSegment p1 s) 0 rest))) = Some p'"
  then show "avail p' = avail p \<and> mempoolUseHeap p' = mempoolUseHeap p"
    by (auto simp: Let_def split: if_splits option.splits dest!: ih)
qed

lemma CopyTo_room:
  "gmosBufferCopyToSegments p segment off ds = Some p' \<Longrightarrow> avail p' = avail p \<and> mempoolUseHeap p' = mempoolUseHeap p"
  by (auto simp: gmosBufferCopyToSegments_def split: bind_splits dest: copyToLoop_room)

lemma copySegmentsLoop_room: "copySegmentsLoop p a b = Some p' \<Longrightarrow> avail p' = avail p \<and> mempoolUseHeap p' = mempoolUseHeap p"
proof (rule copySegmentsLoop.raw_induct
    [where P = "\<lambda>p a b p'. avail p' = avail p \<and> mempoolUseHeap p' = mempoolUseHeap p", rotated])
  fix f p a b p'
  assume ih: "\<And>p a b p'. f p a b = Some p' \<Longrightarrow> avail p' = avail p \<and> mempoolUseHeap p' = mempoolUseHeap p"
    and "(case a of None \<Rightarrow> Some p
      | Some s \<Rightarrow> (case b of None \<Rightarrow> Some p
         | Some t \<Rightarrow> f (writeSeg t 0 (take SEG (segBytes p s)) p) (nextSegment p s) (nextSegment p t))) = Some p'"
  then show "avail p' = avail p \<and> mempoolUseHeap p' = mempoolUseHeap p"
    by (auto split: option.splits dest!: ih)
qed

lemma Prepend_settles:
  assumes st: "buf_state p b ds R" and n: "length ds + length w < 65536" and r: "gmosBufferPrepend p b w = Some (ok, p', b')"
  shows "settles p b p' b'"
proof -
  have u: "u16 (bufferSize b + length w) = length ds + length w" using n buf_state_size [OF st] by simp
  obtain k q c where q: "gmosBufferRebase p b (length ds + length w) = Some (k, q, c)"
    by (rule gmosBufferRebase_ok [OF st n]) (rule that)
  have "settles p b q c" by (rule Rebase_settles [OF st n q])
  moreover have "b' = c" "avail p' = avail q" "mempoolUseHeap p' = mempoolUseHeap q"
    using r q by (auto simp: gmosBufferPrepend_def u split: if_splits bind_splits dest: CopyTo_room)
  ultimately show ?thesis by (simp add: settles_def)
qed

lemma Append_settles:
  assumes st: "buf_state p b ds R" and n: "length w < 65536" and r: "gmosBufferAppend p b w = Some (ok, p', b')"
  shows "settles p b p' b'"
proof -
  let ?n = "need (bufferOffset b + length ds + length w) - need (bufferOffset b + length ds)"
  obtain k q c where q: "gmosBufferAppend p b w = Some (k, q, c)" "mempoolUseHeap q = mempoolUseHeap p"
    "k \<longleftrightarrow> length ds + length w < 65536 \<and> ?n \<le> avail p"
    "\<not> k \<Longrightarrow> c = b" "buf_state q c (if k then ds @ w else ds) R"
    "\<not> mempoolUseHeap p \<Longrightarrow> avail q = (if k then avail p - ?n else avail p)"
    by (rule gmosBufferAppend_ok [OF st n]) (rule that)
  have e: "q = p'" "c = b'" "k = ok" using q(1) r by simp_all
  have "held c = need (bufferOffset b + (if k then length ds + length w else length ds))"
    using held_state [OF q(5)] Append_offset [OF q(1)] by simp
  moreover have "need (bufferOffset b + length ds) \<le> need (bufferOffset b + (length ds + length w))"
    by (rule need_mono) simp
  ultimately show ?thesis using q(2,3,6) held_state [OF st] unfolding e settles_def
    by (cases ok) (auto simp: add.assoc)
qed

text \<open>Copying into an empty buffer keeps the offset of the source.\<close>

lemma Copy_settles:
  assumes st: "bufs p [(a, da), (gmosBufferInit, [])] R" and r: "gmosBufferCopy p a gmosBufferInit = Some (ok, p', b')"
  shows "settles p gmosBufferInit p' b'" "ok \<Longrightarrow> da \<noteq> [] \<Longrightarrow> bufferOffset b' = bufferOffset a"
proof -
  obtain xs where x: "buf_rep p a xs da" "set xs \<inter> R = {}" "buf_state p gmosBufferInit [] (set xs \<union> R)"
    by (rule bufs_2D [OF st])
  then have ok: "pool_ok p (set xs \<union> R)" using buf_state_Nil by blast
  note ra = buf_repD [OF x(1)]
  have s: "bufferSize a = length da" by (rule ra(2))
  have d: "gmosBufferDiscardContents p gmosBufferInit = Some (p, gmosBufferInit)"
    by (simp add: gmosBufferDiscardContents_def gmosBufferInit_def)
  have "settles p gmosBufferInit p' b' \<and> (ok \<longrightarrow> da \<noteq> [] \<longrightarrow> bufferOffset b' = bufferOffset a)"
  proof (cases "da = []")
    case True
    then show ?thesis using r s by (simp add: gmosBufferCopy_def gmosBufferCopyCommon_def d)
  next
    case False
    define m where "m = need (bufferOffset a + length da)"
    have m: "Suc ((bufferOffset a + length da - Suc 0) div SEG) = m" "0 < m" "u16 m = m"
      using need_code [of "bufferOffset a + length da"] need_bound [of "bufferOffset a + length da"] False ra(3,4)
      by (auto simp: m_def GMOS_CONFIG_MEMPOOL_SEGMENT_SIZE_def)
    note code = gmosBufferCopy_def gmosBufferCopyCommon_def d m(1,3) Let_def s
    show ?thesis
    proof (cases "m \<le> avail p")
      case no: False
      from mp.alloc_none [OF ok, of m] no obtain q where q: "gmosMempoolAllocSegments m p = Some (None, q)"
        "mempoolUseHeap q = mempoolUseHeap p" "\<not> mempoolUseHeap p \<longrightarrow> q = p" by auto
      have "gmosBufferCopy p a gmosBufferInit = Some (False, q, gmosBufferInit)" using False q(1) by (simp add: code)
      then show ?thesis using r q(2,3) by (auto simp: settles_def)
    next
      case True
      from mp.alloc_some [OF ok m(2) True] obtain q h ys where q: "gmosMempoolAllocSegments m p = Some (Some h, q)"
        "llist (nextSegment q) (Some h) ys" "pool_ok q (set xs \<union> R \<union> set ys)"
        "\<forall>s\<in>set xs \<union> R. nextSegment q s = nextSegment p s" "segBytes q = segBytes p"
        "mempoolUseHeap q = mempoolUseHeap p" "\<not> mempoolUseHeap p \<longrightarrow> avail q = avail p - m" by auto
      have "same_on (set xs) p q" using q(4,5) by (simp add: same_on_def)
      then have "buf_rep q a xs da" by (rule buf_rep_same_on [OF x(1)]) simp
      note rb = buf_repD [OF this]
      have "bufferOffset a \<le> SEG * length xs" using rb(7) by simp
      from skipSegments_llist [OF rb(1) this] have sk: "skipSegments (nextSegment q) (segmentList a) (bufferOffset a) =
          Some (ptr_at xs (bufferOffset a div SEG), bufferOffset a mod SEG)" .
      have o: "bufferOffset a mod SEG = bufferOffset a" "u16 (bufferOffset a) = bufferOffset a"
        using ra(4) by (simp_all add: GMOS_CONFIG_MEMPOOL_SEGMENT_SIZE_def)
      obtain w where w: "copySegmentsLoop q (ptr_at xs (bufferOffset a div SEG)) (Some h) = Some w" "ok" "p' = w"
        "b' = gmosBufferInit\<lparr>segmentList := Some h, bufferSize := length da, bufferOffset := bufferOffset a\<rparr>"
        using r False by (auto simp: code q(1) sk o split: bind_splits)
      then show ?thesis using copySegmentsLoop_room [OF w(1)] q(6,7) True by (auto simp: settles_def held_def m_def)
    qed
  qed
  then show "settles p gmosBufferInit p' b'" "ok \<Longrightarrow> da \<noteq> [] \<Longrightarrow> bufferOffset b' = bufferOffset a" by auto
qed

text \<open>The offset that is left behind the front of a buffer.\<close>

lemma Rebase_offset:
  assumes "buf_state p b ds R" "0 < n" "n < length ds" "gmosBufferRebase p b n = Some (ok, p', b')"
  shows "bufferOffset b' = (bufferOffset b + (length ds - n)) mod SEG"
  by (rule gmosBufferDecrSizeStart_ok [OF assms(1-3)])
    (use assms buf_state_size [OF assms(1)] in \<open>simp add: gmosBufferRebase_def\<close>)

end
