(* ===== verification/Gmos_Dns_Client.thy ===== *)
theory Gmos_Dns_Client
  imports Gmos_Dns Gmos_Buffer_Room
begin

text \<open>
  Properties of the DNS client. The cache is seen as a list of optional entries, each with the name
  it stands for; a query, a response and a step of the state machine are proved against that view,
  and the worker task keeps it for every driver that keeps to its contract.
\<close>

declare bufs.simps [simp del]

subsection \<open>The view of the cache\<close>

definition entryOk :: "dnsCacheEntry \<Rightarrow> bool" where
  "entryOk e \<longleftrightarrow> length (resolvedAddr e) = 4 \<and> dnsEntryState e < DNS_EXPIRED \<and> retryCount e < 256 \<and> transactionId e < 65536"

type_synonym dnsView = "(dnsCacheEntry \<times> byte list) option"

definition viewBytes :: "dnsView \<Rightarrow> byte list" where
  "viewBytes v = (case v of None \<Rightarrow> [] | Some (e, s) \<Rightarrow> entryBytes e @ dnsEncode (splitName s))"

definition viewOk :: "dnsView \<Rightarrow> bool" where
  "viewOk v \<longleftrightarrow> (case v of None \<Rightarrow> True | Some (e, s) \<Rightarrow> entryOk e \<and> acceptedName s \<and> 0 \<notin> set s)"

definition cacheHolds :: "mempool \<Rightarrow> dnsClient \<Rightarrow> dnsView list \<Rightarrow> nat set \<Rightarrow> bool" where
  "cacheHolds p cl v R \<longleftrightarrow> length v = GMOS_CONFIG_TCPIP_DNS_CACHE_SIZE \<and> length (dnsCache cl) = length v \<and>
     (\<forall>x\<in>set v. viewOk x) \<and> bufs p (zip (dnsCache cl) (map viewBytes v)) R"

lemma cache_size [simp]: "GMOS_CONFIG_TCPIP_DNS_CACHE_SIZE = 2"
  by (simp add: GMOS_CONFIG_TCPIP_DNS_CACHE_SIZE_def)

lemma viewOk_simps [simp]:
  "viewOk None" "viewOk (Some (e, s)) \<longleftrightarrow> entryOk e \<and> acceptedName s \<and> 0 \<notin> set s"
  by (simp_all add: viewOk_def)

lemma viewBytes_simps [simp]:
  "viewBytes None = []" "viewBytes (Some (e, s)) = entryBytes e @ dnsEncode (splitName s)"
  by (simp_all add: viewBytes_def)

lemma length_entryBytes: "entryOk e \<Longrightarrow> length (entryBytes e) = 16"
  by (simp add: entryOk_def entryBytes_def)

lemma word32_le: "of_nat (leNat (leBytes 4 (unat (w :: 32 word)))) = w"
proof -
  have "unat w < 4294967296" using unsigned_less [of w, where ?'a = nat] by simp
  then show ?thesis unfolding leNat_leBytes by simp
qed

lemma bytesEntry_entryBytes:
  assumes "entryOk e"
  shows "bytesEntry (entryBytes e) = e"
proof -
  obtain ts rs a st rc xid where e: "e = \<lparr>expiryTimestamp = ts, retryTimestamp = rs, resolvedAddr = a,
    dnsEntryState = st, retryCount = rc, transactionId = xid\<rparr>" by (cases e)
  have a: "length a = 4" "st < 256" "rc < 256" "xid < 65536" using assms by (simp_all add: entryOk_def e)
  have n: "unat (of_nat st :: byte) = st" "unat (of_nat rc :: byte) = rc"
    using a(2,3) by (simp_all add: unsigned_of_nat take_bit_nat_eq_self)
  have x: "leNat (leBytes 2 xid) = xid" unfolding leNat_leBytes using a(4) by simp
  show ?thesis using a n x word32_le [of ts] word32_le [of rs]
    by (simp add: e bytesEntry_def entryBytes_def)
qed

lemma viewOk_nth: "cacheHolds p cl v R \<Longrightarrow> i < 2 \<Longrightarrow> viewOk (v ! i)"
  by (auto simp: cacheHolds_def)

text \<open>One entry of the cache, and the cache after it has changed.\<close>

lemma cache_at:
  assumes "cacheHolds p cl v R" "i < 2"
  obtains R' where "R \<subseteq> R'" "buf_state p (dnsCache cl ! i) (viewBytes (v ! i)) R'" "viewOk (v ! i)"
    "\<And>p' b x. buf_state p' b (viewBytes x) R' \<Longrightarrow> same_on R' p p' \<Longrightarrow> viewOk x \<Longrightarrow>
       cacheHolds p' (setCache i b cl) (v[i := x]) R"
proof -
  have l: "length v = 2" "length (dnsCache cl) = 2" "\<forall>x\<in>set v. viewOk x"
    "bufs p (zip (dnsCache cl) (map viewBytes v)) R" using assms(1) by (simp_all add: cacheHolds_def)
  have i: "i < length (dnsCache cl)" "length (map viewBytes v) = length (dnsCache cl)" using assms(2) l by simp_all
  from bufs_at [OF l(4) i] obtain R' where R': "R \<subseteq> R'"
    "buf_state p (dnsCache cl ! i) (map viewBytes v ! i) R'"
    "\<And>p' b d. buf_state p' b d R' \<Longrightarrow> same_on R' p p' \<Longrightarrow>
       bufs p' (zip ((dnsCache cl)[i := b]) ((map viewBytes v)[i := d])) R" by blast
  show thesis
  proof (rule that [OF R'(1)])
    show "buf_state p (dnsCache cl ! i) (viewBytes (v ! i)) R'" using R'(2) assms(2) l by simp
    show "viewOk (v ! i)" using l assms(2) by simp
    show "cacheHolds p' (setCache i b cl) (v[i := x]) R"
      if "buf_state p' b (viewBytes x) R'" "same_on R' p p'" "viewOk x" for p' b x
      using R'(3) [OF that(1,2)] l that(3) set_update_subset_insert [of v i x]
      by (auto simp: cacheHolds_def setCache_def map_update)
  qed
qed

lemma cache_read:
  assumes "cacheHolds p cl v R" "i < 2"
  obtains R' where "buf_state p (dnsCache cl ! i) (viewBytes (v ! i)) R'" "viewOk (v ! i)"
  by (rule cache_at [OF assms]) (rule that)

lemma readEntry_ok:
  assumes "buf_state p b (viewBytes x) R" "viewOk x"
  shows "readEntry p b = Some (map_option fst x)"
proof (cases x)
  case None
  then show ?thesis using gmosBufferRead_ok [OF assms(1), of 0 16]
    by (simp add: readEntry_def DNS_ENTRY_SIZE_16)
next
  case (Some y)
  obtain e s where y: "y = (e, s)" by fastforce
  have e: "length (entryBytes e) = 16" "bytesEntry (entryBytes e) = e"
    using assms(2) length_entryBytes bytesEntry_entryBytes by (simp_all add: Some y)
  then show ?thesis using gmosBufferRead_ok [OF assms(1), of 0 16]
    by (simp add: readEntry_def DNS_ENTRY_SIZE_16 Some y)
qed

lemma writeEntry_ok:
  assumes "buf_state p b (viewBytes (Some (e, s))) R" "entryOk e" "entryOk e'"
  obtains p' where "writeEntry p b e' = Some p'" "buf_state p' b (viewBytes (Some (e', s))) R" "same_on R p p'"
proof -
  have l: "length (entryBytes e) = 16" "length (entryBytes e') = 16" using assms length_entryBytes by auto
  show thesis
    by (rule gmosBufferWrite_ok [OF assms(1), of 0 "entryBytes e'"])
      (use l that in \<open>auto simp: writeEntry_def splice_def\<close>)
qed

lemma Reset_zero:
  assumes "buf_state p b ds R"
  obtains p' where "gmosBufferReset p b 0 = Some (True, p', gmosBufferInit)" "buf_state p' gmosBufferInit [] R"
    "same_on R p p'" "mempoolUseHeap p' = mempoolUseHeap p" "\<not> mempoolUseHeap p \<Longrightarrow> avail p \<le> avail p'"
  by (rule gmosBufferDiscardContents_ok [OF assms])
    (use that in \<open>auto simp: gmosBufferReset_def dest: buf_state_init\<close>)

lemma match_view:
  assumes "buf_state p b (viewBytes x) R" "viewOk x" "0 \<notin> set s"
  shows "gmosTcpipDnsClientCacheMatchString p b (s @ 0 # junk) =
    Some (case x of None \<Rightarrow> 0 | Some (e, t) \<Rightarrow> if s = t then u8 (length t + 2) else 0)"
proof (cases x)
  case None
  then show ?thesis using MatchString_short [OF assms(1)] by simp
next
  case (Some y)
  obtain e t where y: "y = (e, t)" by fastforce
  have x: "entryOk e" "acceptedName t" using assms(2) by (simp_all add: Some y)
  obtain l ls where l: "splitName t = l # ls" "\<forall>l\<in>set (l # ls). plainLabel l" "joinLabels (l # ls) = t"
    by (rule joinLabels_inject [OF x(2)])
  have "buf_state p b (entryBytes e @ dnsEncode (l # ls)) R" using assms(1) l(1) by (simp add: Some y)
  from MatchString_ok [OF this length_entryBytes [OF x(1)] assms(3) l(2), of junk] show ?thesis
    using l(1,3) length_dnsEncode [of t] by (simp add: Some y)
qed

text \<open>
  An entry answers for its name when the name keeps to the limit of RFC 1035; the code makes
  entries for names of one octet more, too, and never finds them again.
\<close>

definition dnsHit :: "byte list \<Rightarrow> dnsView \<Rightarrow> bool" where
  "dnsHit s x = (case x of None \<Rightarrow> False | Some (e, t) \<Rightarrow> t = s \<and> validName s)"

definition dnsFind :: "byte list \<Rightarrow> dnsView list \<Rightarrow> nat option" where
  "dnsFind s v = find (\<lambda>i. dnsHit s (v ! i)) [0..<2]"

lemma match_hit:
  assumes "viewOk x"
  shows "(case x of None \<Rightarrow> 0 | Some (e, t) \<Rightarrow> if s = t then u8 (length t + 2) else 0) > 0 \<longleftrightarrow> dnsHit s x"
proof (cases x)
  case (Some y)
  obtain e t where y: "y = (e, t)" by fastforce
  have "acceptedName t" using assms by (simp add: Some y)
  from matchLength [OF this] show ?thesis by (auto simp: Some y dnsHit_def)
qed (simp add: dnsHit_def)

lemma upto2: "[0..<2] = [0, 1 :: nat]"
  by (simp add: upt_rec)

lemma lookupLoop_ok:
  assumes "cacheHolds p cl v R" "0 \<notin> set s"
  shows "cacheLookupLoop p (dnsCache cl) (s @ 0 # junk) 0 = Some (dnsFind s v)"
proof -
  have m: "\<exists>n. gmosTcpipDnsClientCacheMatchString p (dnsCache cl ! i) (s @ 0 # junk) = Some n \<and>
      (n > 0 \<longleftrightarrow> dnsHit s (v ! i))" if i: "i < 2" for i
  proof -
    obtain R' where R': "buf_state p (dnsCache cl ! i) (viewBytes (v ! i)) R'" "viewOk (v ! i)"
      by (rule cache_read [OF assms(1) i])
    show ?thesis using match_view [OF R' assms(2)] match_hit [OF R'(2)] by blast
  qed
  obtain n0 n1 where n: "gmosTcpipDnsClientCacheMatchString p (dnsCache cl ! 0) (s @ 0 # junk) = Some n0"
    "n0 > 0 \<longleftrightarrow> dnsHit s (v ! 0)" "gmosTcpipDnsClientCacheMatchString p (dnsCache cl ! 1) (s @ 0 # junk) = Some n1"
    "n1 > 0 \<longleftrightarrow> dnsHit s (v ! 1)" using m [of 0] m [of 1] by auto
  show ?thesis using n
    by (subst cacheLookupLoop.simps, simp, subst cacheLookupLoop.simps, simp, subst cacheLookupLoop.simps)
      (auto simp: dnsFind_def upto2)
qed

lemma dnsFind_Some:
  assumes "dnsFind s v = Some i"
  obtains e where "i < 2" "v ! i = Some (e, s)" "validName s"
  using assms that
  by (auto simp: dnsFind_def upto2 dnsHit_def split: if_splits option.splits)

lemma setCache_same [simp]: "setCache i (dnsCache cl ! i) cl = cl"
  by (simp add: setCache_def)

definition ticksNow :: "(nat \<Rightarrow> 32 word) \<Rightarrow> sched \<Rightarrow> 32 word" where
  "ticksNow tm sc = tm (timerReads sc)"

definition tickTaken :: "sched \<Rightarrow> sched" where
  "tickTaken sc = sc\<lparr>timerReads := timerReads sc + 1\<rparr>"

lemma GetTimer_eq: "gmosPalGetTimer tm sc = (ticksNow tm sc, tickTaken sc)"
  by (simp add: gmosPalGetTimer_def ticksNow_def tickTaken_def)

text \<open>A hit on a resolved entry renews its expiry time.\<close>

definition touched :: "32 word \<Rightarrow> dnsCacheEntry \<Rightarrow> dnsCacheEntry" where
  "touched now e = (if dnsEntryState e = DNS_VALID then e\<lparr>expiryTimestamp := now + dnsRetentionTicks\<rparr> else e)"

lemma CacheLookup_None:
  assumes "cacheHolds p cl v R" "0 \<notin> set s" "dnsFind s v = None"
  shows "gmosTcpipDnsClientCacheLookup tm p cl (s @ 0 # junk) sc = Some (None, p, sc)"
  using lookupLoop_ok [OF assms(1,2), of junk] assms(3) by (simp add: gmosTcpipDnsClientCacheLookup_def)

lemma CacheLookup_Some:
  assumes st: "cacheHolds p cl v R" and s: "0 \<notin> set s" and f: "dnsFind s v = Some i" "v ! i = Some (e, s)" "i < 2"
  obtains p' where "gmosTcpipDnsClientCacheLookup tm p cl (s @ 0 # junk) sc =
      Some (Some (i, touched (ticksNow tm sc) e), p', if dnsEntryState e = DNS_VALID then tickTaken sc else sc)"
    "cacheHolds p' cl (v[i := Some (touched (ticksNow tm sc) e, s)]) R"
proof -
  let ?b = "dnsCache cl ! i"
  obtain R' where R': "R \<subseteq> R'" "buf_state p ?b (viewBytes (v ! i)) R'" "viewOk (v ! i)"
    "\<And>p' b x. buf_state p' b (viewBytes x) R' \<Longrightarrow> same_on R' p p' \<Longrightarrow> viewOk x \<Longrightarrow>
       cacheHolds p' (setCache i b cl) (v[i := x]) R" by (rule cache_at [OF st f(3)]) (rule that)
  note rd = readEntry_ok [OF R'(2,3)]
  note lk = lookupLoop_ok [OF st s, of junk]
  show thesis
  proof (cases "dnsEntryState e = DNS_VALID")
    case False
    then have "touched (ticksNow tm sc) e = e" by (simp add: touched_def)
    moreover have "v[i := Some (e, s)] = v" using f(2) by (metis list_update_id)
    ultimately show thesis using that [of p] lk rd f False st
      by (simp add: gmosTcpipDnsClientCacheLookup_def)
  next
    case True
    let ?e = "touched (ticksNow tm sc) e"
    have e: "entryOk e" "entryOk ?e" using R'(3) by (simp_all add: f(2) touched_def entryOk_def)
    have b: "buf_state p ?b (viewBytes (Some (e, s))) R'" using R'(2) by (simp add: f(2))
    obtain p' where p': "writeEntry p ?b ?e = Some p'" "buf_state p' ?b (viewBytes (Some (?e, s))) R'" "same_on R' p p'"
      by (rule writeEntry_ok [OF b e])
    have "viewOk (Some (?e, s))" using R'(3) e(2) by (simp add: f(2))
    from R'(4) [OF p'(2,3) this] have "cacheHolds p' cl (v[i := Some (?e, s)]) R" by simp
    then show thesis using that [of p'] lk rd f True p'(1)
      by (simp add: gmosTcpipDnsClientCacheLookup_def GetTimer_eq touched_def)
  qed
qed

text \<open>The entry a new name takes: the first free one, else the one that expires first.\<close>

definition dnsVictim :: "dnsView list \<Rightarrow> nat" where
  "dnsVictim v = (case v ! 0 of None \<Rightarrow> 0 | Some (e0, _) \<Rightarrow> (case v ! 1 of None \<Rightarrow> 1 | Some (e1, _) \<Rightarrow>
     if sint (expiryTimestamp e1) < sint (expiryTimestamp e0) then 1 else 0))"

text \<open>
  The code compares two time stamps by their difference as signed integers, which must not
  overflow.
\<close>

definition lruDefined :: "dnsView list \<Rightarrow> bool" where
  "lruDefined v = (case v ! 0 of None \<Rightarrow> True | Some (e0, _) \<Rightarrow> (case v ! 1 of None \<Rightarrow> True | Some (e1, _) \<Rightarrow>
     ssub32 (sint (expiryTimestamp e1)) (sint (expiryTimestamp e0)) \<noteq> None))"

lemma victim_fault:
  assumes st: "cacheHolds p cl v R" and d: "\<not> lruDefined v"
  shows "(case cacheFree (dnsCache cl) of Some i \<Rightarrow> Some (i, stack)
       | None \<Rightarrow> cacheLruLoop p (dnsCache cl) 0 0 0 stack) = None"
proof -
  have sz: "\<not> gmosBufferGetSize (dnsCache cl ! i) < DNS_ENTRY_SIZE" "readEntry p (dnsCache cl ! i) = Some (map_option fst (v ! i))"
    if i: "i < 2" "v ! i \<noteq> None" for i
  proof -
    obtain R' where R': "buf_state p (dnsCache cl ! i) (viewBytes (v ! i)) R'" "viewOk (v ! i)"
      by (rule cache_read [OF st i(1)])
    show "\<not> gmosBufferGetSize (dnsCache cl ! i) < DNS_ENTRY_SIZE" using buf_state_size [OF R'(1)] R'(2) length_entryBytes i(2)
      by (auto simp: gmosBufferGetSize_def DNS_ENTRY_SIZE_16)
    show "readEntry p (dnsCache cl ! i) = Some (map_option fst (v ! i))" by (rule readEntry_ok [OF R'])
  qed
  obtain e0 s0 e1 s1 where v: "v ! 0 = Some (e0, s0)" "v ! 1 = Some (e1, s1)"
    "ssub32 (sint (expiryTimestamp e1)) (sint (expiryTimestamp e0)) = None"
    using d by (auto simp: lruDefined_def split: option.splits)
  have "cacheFree (dnsCache cl) = None" using sz(1) [of 0] sz(1) [of 1] v(1,2) by (simp add: cacheFree_def upto2)
  moreover have "cacheLruLoop p (dnsCache cl) 0 0 0 stack = cacheLruLoop p (dnsCache cl) 1 0 (sint (expiryTimestamp e0)) e0"
    using sz(2) [of 0] v by (subst cacheLruLoop.simps) (simp add: Let_def)
  moreover have "\<dots> = None" using sz(2) [of 1] v by (subst cacheLruLoop.simps) (simp add: Let_def)
  ultimately show ?thesis by simp
qed

lemma dnsVictim_less: "dnsVictim v < 2"
  by (simp add: dnsVictim_def split: option.splits)

lemma victim_ok:
  assumes st: "cacheHolds p cl v R" and d: "lruDefined v" and e: "length (resolvedAddr stack) = 4"
  obtains e where "(case cacheFree (dnsCache cl) of Some i \<Rightarrow> Some (i, stack)
       | None \<Rightarrow> cacheLruLoop p (dnsCache cl) 0 0 0 stack) = Some (dnsVictim v, e)" "length (resolvedAddr e) = 4"
proof -
  have sz: "gmosBufferGetSize (dnsCache cl ! i) < DNS_ENTRY_SIZE \<longleftrightarrow> v ! i = None" if i: "i < 2" for i
  proof -
    obtain R' where R': "buf_state p (dnsCache cl ! i) (viewBytes (v ! i)) R'" "viewOk (v ! i)"
      by (rule cache_read [OF st i])
    show ?thesis using buf_state_size [OF R'(1)] R'(2) length_entryBytes
      by (cases "v ! i") (auto simp: gmosBufferGetSize_def DNS_ENTRY_SIZE_16)
  qed
  have rd: "readEntry p (dnsCache cl ! i) = Some (map_option fst (v ! i))" "viewOk (v ! i)" if i: "i < 2" for i
  proof -
    obtain R' where R': "buf_state p (dnsCache cl ! i) (viewBytes (v ! i)) R'" "viewOk (v ! i)"
      by (rule cache_read [OF st i])
    show "readEntry p (dnsCache cl ! i) = Some (map_option fst (v ! i))" by (rule readEntry_ok [OF R'])
    show "viewOk (v ! i)" by (rule R'(2))
  qed
  have free: "cacheFree (dnsCache cl) = (if v ! 0 = None then Some 0 else if v ! 1 = None then Some 1 else None)"
    using sz [of 0] sz [of 1] by (simp add: cacheFree_def upto2)
  show thesis
  proof (cases "v ! 0 = None \<or> v ! 1 = None")
    case True
    then show thesis using that [of stack] free e by (auto simp: dnsVictim_def split: option.splits)
  next
    case False
    then obtain e0 s0 e1 s1 where v: "v ! 0 = Some (e0, s0)" "v ! 1 = Some (e1, s1)"
      by (cases "v ! 0"; cases "v ! 1") auto
    have e1: "length (resolvedAddr e1) = 4" using rd(2) [of 1] v(2) by (simp add: entryOk_def)
    let ?d = "sint (expiryTimestamp e1) - sint (expiryTimestamp e0)"
    have s: "ssub32 (sint (expiryTimestamp e1)) (sint (expiryTimestamp e0)) = Some ?d"
      using d v by (auto simp: lruDefined_def ssub32_def split: if_splits)
    have "cacheLruLoop p (dnsCache cl) 0 0 0 stack = cacheLruLoop p (dnsCache cl) 1 0 (sint (expiryTimestamp e0)) e0"
      using rd(1) [of 0] v by (subst cacheLruLoop.simps) (simp add: Let_def)
    also have "\<dots> = (if ?d < 0 then cacheLruLoop p (dnsCache cl) 2 1 (sint (expiryTimestamp e1)) e1
        else cacheLruLoop p (dnsCache cl) 2 0 (sint (expiryTimestamp e0)) e1)"
      using rd(1) [of 1] v s by (subst cacheLruLoop.simps) (simp add: Let_def numeral_2_eq_2)
    also have "\<dots> = Some (dnsVictim v, e1)"
      using v by (simp add: cacheLruLoop.simps [of _ _ 2] dnsVictim_def)
    finally show thesis using that [of e1] free e1 v by simp
  qed
qed

text \<open>The entry a new request starts with.\<close>

definition freshEntry :: "dnsClient \<Rightarrow> 32 word \<Rightarrow> dnsCacheEntry \<Rightarrow> bool" where
  "freshEntry cl now e \<longleftrightarrow> expiryTimestamp e = now + dnsRetentionTicks \<and> dnsEntryState e = DNS_OPEN \<and>
     retryCount e = 0 \<and> transactionId e = dnsXid cl"

text \<open>Five free segments of a static pool hold the largest entry.\<close>

definition queryRoom :: "mempool \<Rightarrow> bool" where
  "queryRoom p \<longleftrightarrow> \<not> mempoolUseHeap p \<and> 5 \<le> avail p"

lemma need_gap: "need (16 + (n + 2)) \<le> need 16 + 4" if "n \<le> 254"
  using that need_mono [of "16 + (n + 2)" 272] by (simp add: need_def GMOS_CONFIG_MEMPOOL_SEGMENT_SIZE_def)

lemma CacheAlloc_ok:
  assumes st: "cacheHolds p cl v R" and s: "0 \<notin> set s" "length s < 4294967295"
    and d: "lruDefined v" "length (resolvedAddr stack) = 4" "dnsXid cl < 65536"
  shows "\<exists>ok err p' cl' e. gmosTcpipDnsClientCacheAlloc tm stack p cl (s @ 0 # junk) sc =
      Some (ok, err, p', cl', tickTaken sc) \<and>
    (\<exists>b. cl' = (setCache (dnsVictim v) b cl)\<lparr>dnsXid := if ok then u16 (dnsXid cl + 1) else dnsXid cl\<rparr>) \<and>
    cacheHolds p' cl' (v[dnsVictim v := if ok then Some (e, s) else None]) R \<and>
    freshEntry cl (ticksNow tm sc) e \<and> (ok \<longrightarrow> acceptedName s \<and> \<not> err) \<and> (err \<longrightarrow> \<not> acceptedName s) \<and>
    (queryRoom p \<longrightarrow> ok \<or> err)"
proof -
  let ?j = "dnsVictim v" and ?now = "ticksNow tm sc"
  obtain e0 where e0: "(case cacheFree (dnsCache cl) of Some i \<Rightarrow> Some (i, stack)
       | None \<Rightarrow> cacheLruLoop p (dnsCache cl) 0 0 0 stack) = Some (?j, e0)" "length (resolvedAddr e0) = 4"
    by (rule victim_ok [OF st d(1,2)])
  let ?e = "e0\<lparr>expiryTimestamp := ?now + dnsRetentionTicks, dnsEntryState := DNS_OPEN, retryCount := 0,
    transactionId := dnsXid cl\<rparr>"
  have e: "entryOk ?e" "freshEntry cl ?now ?e" using e0(2) d(3) by (simp_all add: entryOk_def freshEntry_def)
  have le: "length (entryBytes ?e) = 16" using length_entryBytes [OF e(1)] .
  obtain R' where R': "R \<subseteq> R'" "buf_state p (dnsCache cl ! ?j) (viewBytes (v ! ?j)) R'"
    "\<And>p' b x. buf_state p' b (viewBytes x) R' \<Longrightarrow> same_on R' p p' \<Longrightarrow> viewOk x \<Longrightarrow>
       cacheHolds p' (setCache ?j b cl) (v[?j := x]) R"
    by (rule cache_at [OF st dnsVictim_less [of v]]) (rule that)
  have setx: "cacheHolds p' ((setCache ?j b cl)\<lparr>dnsXid := n\<rparr>) w R \<longleftrightarrow> cacheHolds p' (setCache ?j b cl) w R"
    for p' b n w by (simp add: cacheHolds_def setCache_def)
  have none: "(setCache ?j b cl)\<lparr>dnsXid := dnsXid cl\<rparr> = setCache ?j b cl" for b by (simp add: setCache_def)
  obtain p1 where p1: "gmosBufferReset p (dnsCache cl ! ?j) 0 = Some (True, p1, gmosBufferInit)"
    "buf_state p1 gmosBufferInit [] R'" "same_on R' p p1" "mempoolUseHeap p1 = mempoolUseHeap p"
    "\<not> mempoolUseHeap p \<Longrightarrow> avail p \<le> avail p1" by (rule Reset_zero [OF R'(2)]) (rule that)
  have l0: "length (entryBytes ?e) < 65536" using le by simp
  obtain ok1 p2 b2 where a: "gmosBufferAppend p1 gmosBufferInit (entryBytes ?e) = Some (ok1, p2, b2)"
    "same_on R' p1 p2" "mempoolUseHeap p2 = mempoolUseHeap p1"
    "ok1 \<longleftrightarrow> length ([] :: byte list) + length (entryBytes ?e) < 65536 \<and>
      need (bufferOffset gmosBufferInit + length ([] :: byte list) + length (entryBytes ?e)) -
      need (bufferOffset gmosBufferInit + length ([] :: byte list)) \<le> avail p1"
    "\<not> ok1 \<Longrightarrow> b2 = gmosBufferInit" "buf_state p2 b2 (if ok1 then [] @ entryBytes ?e else []) R'"
    "\<not> mempoolUseHeap p1 \<Longrightarrow> avail p2 = (if ok1 then avail p1 -
        (need (bufferOffset gmosBufferInit + length ([] :: byte list) + length (entryBytes ?e)) -
         need (bufferOffset gmosBufferInit + length ([] :: byte list))) else avail p1)"
    by (rule gmosBufferAppend_ok [OF p1(2) l0]) (rule that)
  have s2: "same_on R' p p2" using same_on_trans [OF p1(3) a(2)] .
  have n0: "need 0 = 0" by (simp add: need_def)
  have n16: "need 16 = 1" by (simp add: need_def GMOS_CONFIG_MEMPOOL_SEGMENT_SIZE_def)
  define alloc where "alloc = gmosTcpipDnsClientCacheAlloc tm stack p cl (s @ 0 # junk) sc"
  have failed: "\<exists>p' cl'. alloc = Some (False, err, p', cl', tickTaken sc) \<and>
      (\<exists>b. cl' = (setCache ?j b cl)\<lparr>dnsXid := dnsXid cl\<rparr>) \<and> cacheHolds p' cl' (v[?j := None]) R"
    if al: "alloc = do { (_, p, b) \<leftarrow> gmosBufferReset p3 b3 0; Some (False, err, p, setCache ?j b cl, tickTaken sc) }"
      and b3: "buf_state p3 b3 ds R'" "same_on R' p p3" for p3 b3 ds err
  proof -
    obtain p4 where p4: "gmosBufferReset p3 b3 0 = Some (True, p4, gmosBufferInit)"
      "buf_state p4 gmosBufferInit [] R'" "same_on R' p3 p4" by (rule Reset_zero [OF b3(1)])
    have "buf_state p4 gmosBufferInit (viewBytes None) R'" "viewOk None" using p4(2) by simp_all
    from R'(3) [OF this(1) same_on_trans [OF b3(2) p4(3)] this(2)] show ?thesis
      using al p4(1) none by auto
  qed
  show ?thesis
  proof (cases ok1)
    case False
    have "alloc = do { (_, p, b) \<leftarrow> gmosBufferReset p2 b2 0; Some (False, False, p, setCache ?j b cl, tickTaken sc) }"
      using e0(1) p1(1) a(1) False by (simp add: alloc_def gmosTcpipDnsClientCacheAlloc_def GetTimer_eq)
    from failed [OF this a(6) s2] obtain p' cl' where f: "alloc = Some (False, False, p', cl', tickTaken sc)"
      "\<exists>b. cl' = (setCache ?j b cl)\<lparr>dnsXid := dnsXid cl\<rparr>" "cacheHolds p' cl' (v[?j := None]) R" by blast
    have "\<not> queryRoom p" using a(4) False le p1(5) by (auto simp: n0 n16 queryRoom_def)
    then show ?thesis using f e(2) unfolding alloc_def
      by (intro exI [of _ False] exI [of _ p'] exI [of _ cl'] exI [of _ ?e]) auto
  next
    case ok1: True
    have b2: "buf_state p2 b2 (entryBytes ?e) R'" "length (entryBytes ?e) = DNS_ENTRY_SIZE"
      using a(6) ok1 le by (simp_all add: DNS_ENTRY_SIZE_16)
    from FormatName_entry [OF b2 s, of junk] obtain ok err p3 b3 where
      f: "gmosTcpipDnsClientFormatName p2 (s @ 0 # junk) b2 = Some (ok, err, p3, b3)" "same_on R' p2 p3"
        "ok \<longrightarrow> acceptedName s \<and> \<not> err" "err \<longrightarrow> \<not> acceptedName s"
        "254 < length s \<or> roomFor p2 b2 (length s + 2) \<longrightarrow> ok \<or> err" "\<not> ok \<longrightarrow> b3 = b2 \<and> p3 = p2 \<or> buf_state p3 b3 [] R'"
        "ok \<longrightarrow> buf_state p3 b3 (entryBytes ?e @ dnsEncode (splitName s)) R'"
      by (elim exE conjE) (rule that, blast+)
    have s3: "same_on R' p p3" using same_on_trans [OF s2 f(2)] .
    show ?thesis
    proof (cases ok)
      case True
      let ?cl = "(setCache ?j b3 cl)\<lparr>dnsXid := u16 (dnsXid cl + 1)\<rparr>"
      have "alloc = Some (True, err, p3, ?cl, tickTaken sc)"
        using e0(1) p1(1) a(1) ok1 f(1) True by (simp add: alloc_def gmosTcpipDnsClientCacheAlloc_def GetTimer_eq)
      moreover have "cacheHolds p3 ?cl (v[?j := Some (?e, s)]) R"
        unfolding setx using f(3,7) True e(1) s(1) by (intro R'(3) [OF _ s3]) auto
      ultimately show ?thesis using f(3,4) True e(2) unfolding alloc_def
        by (intro exI [of _ True] exI [of _ err] exI [of _ p3] exI [of _ ?cl] exI [of _ ?e]) auto
    next
      case False
      have al: "alloc = do { (_, p, b) \<leftarrow> gmosBufferReset p3 b3 0; Some (False, err, p, setCache ?j b cl, tickTaken sc) }"
        using e0(1) p1(1) a(1) ok1 f(1) False by (simp add: alloc_def gmosTcpipDnsClientCacheAlloc_def GetTimer_eq)
      obtain ds where "buf_state p3 b3 ds R'" using f(6) False b2(1) by blast
      from failed [OF al this s3] obtain p' cl' where g: "alloc = Some (False, err, p', cl', tickTaken sc)"
        "\<exists>b. cl' = (setCache ?j b cl)\<lparr>dnsXid := dnsXid cl\<rparr>" "cacheHolds p' cl' (v[?j := None]) R" by blast
      have "err" if q: "queryRoom p"
      proof -
        have h: "\<not> mempoolUseHeap p1" "5 \<le> avail p1" using p1(4,5) q by (auto simp: queryRoom_def)
        have "bufferOffset b2 = 0" using Append_offset [OF a(1)] by simp
        moreover have "bufferSize b2 = 16" using buf_state_size [OF b2(1)] le by simp
        moreover have "4 \<le> avail p2" using a(7) h ok1 le by (simp add: n0 n16)
        ultimately have "254 < length s \<or> roomFor p2 b2 (length s + 2)"
          using need_gap [of "length s"] h(1) a(3) by (cases "length s \<le> 254") (auto simp: roomFor_def)
        then show ?thesis using f(5) False by blast
      qed
      then show ?thesis using g f(4) e(2) unfolding alloc_def
        by (intro exI [of _ False] exI [of _ err] exI [of _ p'] exI [of _ cl'] exI [of _ ?e]) auto
    qed
  qed
qed

definition queryStatus :: "dnsCacheEntry \<Rightarrow> gmosNetworkStatus" where
  "queryStatus e =
     (if dnsEntryState e = DNS_VALID then GMOS_NETWORK_STATUS_SUCCESS
      else if dnsEntryState e = DNS_TIMEOUT then GMOS_NETWORK_STATUS_TIMEOUT
      else if dnsEntryState e = DNS_NOT_VALID then GMOS_NETWORK_STATUS_NOT_VALID
      else GMOS_NETWORK_STATUS_RETRY)"

lemma touched_fields: "dnsEntryState (touched t e) = dnsEntryState e" "resolvedAddr (touched t e) = resolvedAddr e"
  by (simp_all add: touched_def)

lemma tickTaken_sched [simp]: "sched_inv (tickTaken s) T Q = sched_inv s T Q" "taskState (tickTaken s) = taskState s"
  by (simp_all add: tickTaken_def)

text \<open>A query while the network is up.\<close>

lemma Query_found:
  assumes "cacheHolds p cl v R" "0 \<notin> set s" "dnsFind s v = Some i" "v ! i = Some (e, s)" "i < 2"
    and "phyLinkIsUp ops x" "dnsServerList cl \<noteq> None"
  obtains p' where "gmosTcpipDnsClientQuery ops tm stack p cl (s @ 0 # junk) False sc x =
      Some (queryStatus e, if queryStatus e = GMOS_NETWORK_STATUS_SUCCESS then Some (resolvedAddr e) else None,
        p', cl, if dnsEntryState e = DNS_VALID then tickTaken sc else sc)"
    "cacheHolds p' cl (v[i := Some (touched (ticksNow tm sc) e, s)]) R"
proof -
  let ?sc = "if dnsEntryState e = DNS_VALID then tickTaken sc else sc"
  obtain p' where p': "gmosTcpipDnsClientCacheLookup tm p cl (s @ 0 # junk) sc =
      Some (Some (i, touched (ticksNow tm sc) e), p', ?sc)"
    "cacheHolds p' cl (v[i := Some (touched (ticksNow tm sc) e, s)]) R" by (rule CacheLookup_Some [OF assms(1-5)])
  show thesis using p' assms(6,7)
    by (intro that [of p']) (simp_all add: gmosTcpipDnsClientQuery_def touched_fields queryStatus_def)
qed

text \<open>
  The answer to a query, for the entry of the name and, without one, in its three cases: a new
  request, a name that is not accepted, and a pool without room.
\<close>

definition queryAnswered ::
    "(nat \<Rightarrow> 32 word) \<Rightarrow> mempool \<Rightarrow> dnsClient \<Rightarrow> byte list \<Rightarrow> dnsView list \<Rightarrow> sched \<Rightarrow> gmosNetworkStatus \<Rightarrow>
     byte list option \<Rightarrow> dnsClient \<Rightarrow> sched \<Rightarrow> dnsView list \<Rightarrow> bool" where
  "queryAnswered tm p cl s v sc st a cl' sc' v' \<longleftrightarrow>
     (case dnsFind s v of
        Some i \<Rightarrow> (\<exists>e. v ! i = Some (e, s) \<and> v' = v[i := Some (touched (ticksNow tm sc) e, s)] \<and> cl' = cl \<and>
          sc' = (if dnsEntryState e = DNS_VALID then tickTaken sc else sc) \<and>
          st = queryStatus e \<and> a = (if st = GMOS_NETWORK_STATUS_SUCCESS then Some (resolvedAddr e) else None))
      | None \<Rightarrow> a = None \<and> cl' = cl\<lparr>dnsCache := dnsCache cl', dnsXid := dnsXid cl'\<rparr> \<and>
          ((\<exists>e. freshEntry cl (ticksNow tm sc) e \<and> v' = v[dnsVictim v := Some (e, s)]) \<and> acceptedName s \<and>
              st = GMOS_NETWORK_STATUS_RETRY \<and> dnsXid cl' = u16 (dnsXid cl + 1) \<and>
              taskState sc' (dnsWorkerTask cl) = TASK_STATE_READY \<or>
           v' = v[dnsVictim v := None] \<and> dnsXid cl' = dnsXid cl \<and> sc' = tickTaken sc \<and>
             (\<not> acceptedName s \<and> st = GMOS_NETWORK_STATUS_NOT_VALID \<or>
              \<not> queryRoom p \<and> st = GMOS_NETWORK_STATUS_RETRY)))"

lemma Query_ok:
  assumes "cacheHolds p cl v R" "0 \<notin> set s" "length s < 4294967295" "dnsFind s v = None \<longrightarrow> lruDefined v" "length (resolvedAddr stack) = 4"
    and "dnsXid cl < 65536" "phyLinkIsUp ops x" "dnsServerList cl \<noteq> None"
    and "sched_inv sc T Q" "taskState sc (dnsWorkerTask cl) \<noteq> TASK_STATE_ACTIVE"
  shows "\<exists>st a p' cl' sc' v'. gmosTcpipDnsClientQuery ops tm stack p cl (s @ 0 # junk) False sc x =
      Some (st, a, p', cl', sc') \<and> cacheHolds p' cl' v' R \<and>
    queryAnswered tm p cl s v sc st a cl' sc' v'"
proof (cases "dnsFind s v")
  case (Some i)
  obtain e where e: "i < 2" "v ! i = Some (e, s)" by (rule dnsFind_Some [OF Some])
  let ?e = "touched (ticksNow tm sc) e" and ?sc = "if dnsEntryState e = DNS_VALID then tickTaken sc else sc"
  obtain p' where q: "gmosTcpipDnsClientQuery ops tm stack p cl (s @ 0 # junk) False sc x =
      Some (queryStatus e, if queryStatus e = GMOS_NETWORK_STATUS_SUCCESS then Some (resolvedAddr e) else None,
        p', cl, ?sc)" and p': "cacheHolds p' cl (v[i := Some (?e, s)]) R"
    by (rule Query_found [OF assms(1,2) Some e(2,1) assms(7,8)])
  show ?thesis unfolding q queryAnswered_def Some using p' e(2)
    by (intro exI [of _ "queryStatus e"] exI [of _ "if queryStatus e = GMOS_NETWORK_STATUS_SUCCESS
          then Some (resolvedAddr e) else None"] exI [of _ p'] exI [of _ cl] exI [of _ ?sc]
          exI [of _ "v[i := Some (?e, s)]"]) auto
next
  case None
  note lk = CacheLookup_None [OF assms(1,2) None]
  from CacheAlloc_ok [OF assms(1-3) assms(4) [rule_format, OF None] assms(5,6), where tm = tm and sc = sc and junk = junk] obtain ok err p' cl' e b where al:
    "gmosTcpipDnsClientCacheAlloc tm stack p cl (s @ 0 # junk) sc = Some (ok, err, p', cl', tickTaken sc)"
    "cl' = (setCache (dnsVictim v) b cl)\<lparr>dnsXid := if ok then u16 (dnsXid cl + 1) else dnsXid cl\<rparr>"
    "cacheHolds p' cl' (v[dnsVictim v := if ok then Some (e, s) else None]) R"
    "freshEntry cl (ticksNow tm sc) e" "ok \<longrightarrow> acceptedName s \<and> \<not> err" "err \<longrightarrow> \<not> acceptedName s"
    "queryRoom p \<longrightarrow> ok \<or> err"
    by (elim exE conjE) (rule that)
  have same: "cl' = cl\<lparr>dnsCache := dnsCache cl', dnsXid := dnsXid cl'\<rparr>" by (simp add: al(2) setCache_def)
  have w: "dnsWorkerTask cl' = dnsWorkerTask cl" "dnsXid cl' = (if ok then u16 (dnsXid cl + 1) else dnsXid cl)"
    by (simp_all add: al(2) setCache_def)
  show ?thesis
  proof (cases ok)
    case True
    have i: "sched_inv (tickTaken sc) T Q" "taskState (tickTaken sc) (dnsWorkerTask cl) \<noteq> TASK_STATE_ACTIVE"
      using assms(9,10) by simp_all
    obtain sc' where sc': "gmosSchedulerTaskResume (dnsWorkerTask cl) (tickTaken sc) = Some sc'"
      "taskState sc' (dnsWorkerTask cl) = TASK_STATE_READY" by (rule TaskResume_ok [OF i])
    have "gmosTcpipDnsClientQuery ops tm stack p cl (s @ 0 # junk) False sc x =
        Some (GMOS_NETWORK_STATUS_RETRY, None, p', cl', sc')"
      using lk al(1) sc'(1) True assms(7,8) w(1) by (simp add: gmosTcpipDnsClientQuery_def)
    then show ?thesis using al(3,4,5) same True w(2) sc'(2) unfolding queryAnswered_def None
      by (intro exI [of _ "GMOS_NETWORK_STATUS_RETRY"] exI [of _ "None"] exI [of _ p'] exI [of _ cl']
            exI [of _ sc'] exI [of _ "v[dnsVictim v := Some (e, s)]"]) auto
  next
    case False
    let ?st = "if err then GMOS_NETWORK_STATUS_NOT_VALID else GMOS_NETWORK_STATUS_RETRY"
    have "gmosTcpipDnsClientQuery ops tm stack p cl (s @ 0 # junk) False sc x =
        Some (?st, None, p', cl', tickTaken sc)"
      using lk al(1) False assms(7,8) by (simp add: gmosTcpipDnsClientQuery_def)
    then show ?thesis using al(3,6,7) same False w(2) unfolding queryAnswered_def None
      by (intro exI [of _ ?st] exI [of _ "None"] exI [of _ p'] exI [of _ cl'] exI [of _ "tickTaken sc"]
            exI [of _ "v[dnsVictim v := None]"]) auto
  qed
qed

lemma Query_fault:
  assumes "cacheHolds p cl v R" "0 \<notin> set s" "dnsFind s v = None" "\<not> lruDefined v"
    and "phyLinkIsUp ops x" "dnsServerList cl \<noteq> None"
  shows "gmosTcpipDnsClientQuery ops tm stack p cl (s @ 0 # junk) False sc x = None"
  using CacheLookup_None [OF assms(1-3)] victim_fault [OF assms(1,4)] assms(5,6)
  by (simp add: gmosTcpipDnsClientQuery_def gmosTcpipDnsClientCacheAlloc_def)

text \<open>
  C30: A query, on every branch. A request for an IPv6 address is not supported, and while the
  network is down or there is no server the query says so; neither changes anything. If the cache
  has an entry for the name, which must keep to the limit of 255 octets, the status says what
  became of it, a resolved address is handed out and such an entry lives on for another retention
  time. Otherwise the first free entry or, in a full cache, the one that expires first by signed
  time stamps is taken, whatever it holds (the code is undefined when the difference of the two
  time stamps overflows). It becomes a request for the name with the next transaction identifier
  and the worker task is woken, with status RETRY. When the name is not accepted, or the pool has
  no room, the entry is left empty, so that what it held is lost; the status is then NOT_VALID
  for a name that is not accepted and RETRY for a lack of room, and with room a name that is not
  accepted always gives NOT_VALID. All other entries stay as they are.
\<close>

theorem dns_query:
  assumes "cacheHolds p cl v R" "0 \<notin> set s" "length s < 4294967295" "length (resolvedAddr stack) = 4"
    and "dnsXid cl < 65536" "sched_inv sc T Q" "taskState sc (dnsWorkerTask cl) \<noteq> TASK_STATE_ACTIVE"
  shows "if ipv
    then gmosTcpipDnsClientQuery ops tm stack p cl (s @ 0 # junk) ipv sc x =
      Some (GMOS_NETWORK_STATUS_UNSUPPORTED, None, p, cl, sc)
    else if \<not> phyLinkIsUp ops x \<or> dnsServerList cl = None
    then gmosTcpipDnsClientQuery ops tm stack p cl (s @ 0 # junk) ipv sc x =
      Some (GMOS_NETWORK_STATUS_NETWORK_DOWN, None, p, cl, sc)
    else if dnsFind s v = None \<and> \<not> lruDefined v
    then gmosTcpipDnsClientQuery ops tm stack p cl (s @ 0 # junk) ipv sc x = None
    else \<exists>st a p' cl' sc' v'. gmosTcpipDnsClientQuery ops tm stack p cl (s @ 0 # junk) ipv sc x =
        Some (st, a, p', cl', sc') \<and> cacheHolds p' cl' v' R \<and> queryAnswered tm p cl s v sc st a cl' sc' v'"
proof (cases ipv)
  case False
  show ?thesis
  proof (cases "\<not> phyLinkIsUp ops x \<or> dnsServerList cl = None")
    case True
    then show ?thesis unfolding if_not_P [OF False] if_P [OF True] using False by (simp add: gmosTcpipDnsClientQuery_def)
  next
    case up: False
    then have u: "phyLinkIsUp ops x" "dnsServerList cl \<noteq> None" by auto
    show ?thesis
    proof (cases "dnsFind s v = None \<and> \<not> lruDefined v")
      case True
      then have n: "dnsFind s v = None" "\<not> lruDefined v" by auto
      show ?thesis unfolding if_not_P [OF False] if_not_P [OF up] if_P [OF True] using False Query_fault [OF assms(1,2) n u]
        by simp
    next
      case d: False
      then have "dnsFind s v = None \<longrightarrow> lruDefined v" by blast
      from Query_ok [OF assms(1-3) this assms(4,5) u assms(6,7)] show ?thesis
        unfolding if_not_P [OF False] if_not_P [OF up] if_not_P [OF d] using False by simp
    qed
  qed
qed (simp add: gmosTcpipDnsClientQuery_def)

subsection \<open>Sending a query\<close>

text \<open>The message sent for a name: header, question and the type and class of an address.\<close>

definition dnsQuery :: "nat \<Rightarrow> byte list \<Rightarrow> byte list" where
  "dnsQuery xid s = leBytes 2 xid @ [1, 0, 0, 1] @ replicate 6 0 @ dnsEncode (splitName s) @ [0, 1, 0, 1]"

lemma Reset_settles: "buf_state p b ds R \<Longrightarrow> gmosBufferReset p b 0 = Some (ok, p', b') \<Longrightarrow> settles p b p' b'"
  by (auto simp: gmosBufferReset_def split: bind_splits dest: Discard_settles)

lemma dnsFail_ok:
  assumes "buf_state p b ds R"
  obtains p' where "dnsFail p b = Some (False, p', gmosBufferInit)" "buf_state p' gmosBufferInit [] R" "same_on R p p'"
    "settles p b p' gmosBufferInit"
  by (rule Reset_zero [OF assms]) (use that Reset_settles [OF assms] in \<open>simp add: dnsFail_def\<close>)

text \<open>Eight free segments of a static pool are enough for a query.\<close>

definition sendRoom :: "mempool \<Rightarrow> bool" where
  "sendRoom p \<longleftrightarrow> \<not> mempoolUseHeap p \<and> 8 \<le> avail p"

lemma room_left:
  assumes "sendRoom p" "settles p gmosBufferInit q m" "buf_state q m ds S" "length ds \<le> 280"
  shows "2 \<le> avail q" "\<not> mempoolUseHeap q"
proof -
  have "bufferOffset m < SEG" using assms(3) by (auto simp: buf_state_def dest: buf_repD)
  then have "held m \<le> need 344" using held_state [OF assms(3)] assms(4)
    by (simp add: need_mono GMOS_CONFIG_MEMPOOL_SEGMENT_SIZE_def)
  also have "need 344 = 6" by (simp add: need_def GMOS_CONFIG_MEMPOOL_SEGMENT_SIZE_def)
  finally show "2 \<le> avail q" "\<not> mempoolUseHeap q" using assms(1,2) by (simp_all add: sendRoom_def settles_def)
qed

lemma need_step: "need (n + 4) - need n \<le> 1" "need (12 - k) \<le> 1"
  using need_mono [of "n + 4" "n + SEG * 1"] need_shift [of n 1] need_mono [of "12 - k" 12]
  by (simp_all add: need_def GMOS_CONFIG_MEMPOOL_SEGMENT_SIZE_def)

lemma FormatQuery_ok:
  assumes st: "bufs p [(gmosBufferInit, []), (b, viewBytes (Some (e, s)))] R" and e: "viewOk (Some (e, s))"
  shows "\<exists>ok p' m'. gmosTcpipDnsClientFormatQuery p b e gmosBufferInit = Some (ok, p', m') \<and>
    bufs p' [(m', if ok then dnsQuery (transactionId e) s else []), (b, viewBytes (Some (e, s)))] R \<and> same_on R p p' \<and>
    settles p gmosBufferInit p' m' \<and> (sendRoom p \<longrightarrow> ok)"
proof -
  let ?v = "viewBytes (Some (e, s))" and ?n = "dnsEncode (splitName s)"
  have l: "length (entryBytes e) = 16" "length s \<le> 254"
    using e length_entryBytes by (simp_all add: acceptedName_iff)
  have lv: "length ?v = 16 + (length s + 2)" using l length_dnsEncode [of s] by simp
  have sz: "gmosBufferGetSize b = length ?v"
    using bufs_size [OF bufs_swap [OF st]] by (simp add: gmosBufferGetSize_def)
  have nl: "u16 (gmosBufferGetSize b + 65536 - DNS_ENTRY_SIZE) = length ?n"
    using l mod_add_self2 [of "length s + 2" 65536]
    by (simp add: sz lv length_dnsEncode DNS_ENTRY_SIZE_16 u16_def ac_simps)
  have copy: "bufs p [(b, ?v), (gmosBufferInit, [])] R" using bufs_swap [OF st] .
  obtain ok1 p1 m1 where c: "gmosBufferCopy p b gmosBufferInit = Some (ok1, p1, m1)" "same_on R p p1"
    "bufs p1 [(b, ?v), (m1, if ok1 then ?v else [])] R"
    "\<not> mempoolUseHeap p \<Longrightarrow> ok1 \<longleftrightarrow> need (bufferOffset b + length ?v) \<le> avail p + need (bufferOffset gmosBufferInit + length ([] :: byte list))"
    by (rule gmosBufferCopy_ok [OF copy]) (rule that)
  have t1: "settles p gmosBufferInit p1 m1" by (rule Copy_settles(1) [OF copy c(1)])
  have "bufferOffset b < SEG" using copy by (auto simp: bufs.simps dest: buf_repD)
  then have "need (bufferOffset b + length ?v) \<le> need 344" using lv l(2)
    by (intro need_mono) (simp add: GMOS_CONFIG_MEMPOOL_SEGMENT_SIZE_def)
  then have rm1: "ok1" if "sendRoom p" using c(4) that
    by (simp add: sendRoom_def need_def GMOS_CONFIG_MEMPOOL_SEGMENT_SIZE_def)
  obtain xs where x: "buf_rep p1 b xs ?v" "set xs \<inter> R = {}"
    "buf_state p1 m1 (if ok1 then ?v else []) (set xs \<union> R)" by (rule bufs_2D [OF c(3)])
  let ?S = "set xs \<union> R"
  have whole: "bufs p' [(m', d'), (b, ?v)] R \<and> same_on R p p'" if "buf_state p' m' d' ?S" "same_on ?S p1 p'" for p' m' d'
    using bufs_swap [OF bufs_2I [OF x(1,2) that]] same_on_trans [OF c(2) same_on_mono [OF that(2)]] by blast
  have fail: "\<exists>p' m'. dnsFail p2 m2 = Some (False, p', m') \<and> bufs p' [(m', []), (b, ?v)] R \<and> same_on R p p' \<and>
      settles p gmosBufferInit p' m'"
    if m2: "buf_state p2 m2 d2 ?S" "same_on ?S p1 p2" "settles p gmosBufferInit p2 m2" for p2 m2 d2
  proof -
    obtain p3 where p3: "dnsFail p2 m2 = Some (False, p3, gmosBufferInit)" "buf_state p3 gmosBufferInit [] ?S"
      "same_on ?S p2 p3" "settles p2 m2 p3 gmosBufferInit" by (rule dnsFail_ok [OF m2(1)])
    show ?thesis using p3(1) whole [OF p3(2) same_on_trans [OF m2(2) p3(3)]] settles_trans [OF m2(3) p3(4)] by blast
  qed
  define q where "q = gmosTcpipDnsClientFormatQuery p b e gmosBufferInit"
  let ?goal = "\<exists>ok p' m'. q = Some (ok, p', m') \<and>
    bufs p' [(m', if ok then dnsQuery (transactionId e) s else []), (b, ?v)] R \<and> same_on R p p' \<and>
    settles p gmosBufferInit p' m' \<and> (sendRoom p \<longrightarrow> ok)"
  have failed: ?goal if "q = dnsFail p2 m2" "buf_state p2 m2 d2 ?S" "same_on ?S p1 p2"
      "settles p gmosBufferInit p2 m2" "\<not> sendRoom p" for p2 m2 d2
    using fail [OF that(2-4)] that(1,5) by (elim exE conjE) (intro exI [of _ False], auto)
  have ?goal
  proof (cases ok1)
    case False
    then have "q = dnsFail p1 m1" using c(1) by (simp add: q_def gmosTcpipDnsClientFormatQuery_def)
    from failed [OF this x(3) same_on_refl t1] rm1 False show ?goal by blast
  next
    case ok1: True
    have m1: "buf_state p1 m1 ?v ?S" using x(3) ok1 by simp
    have "length ?n < 65536" using l by (simp add: length_dnsEncode)
    from gmosBufferRebase_ok [OF m1 this] obtain ok2 p2 m2 where r:
      "gmosBufferRebase p1 m1 (length ?n) = Some (ok2, p2, m2)" "same_on ?S p1 p2"
      "ok2 \<longleftrightarrow> need (length ?n - length ?v - bufferOffset m1) \<le> avail p1"
      "ok2 \<Longrightarrow> \<exists>junk. length junk = length ?n - length ?v \<and>
         buf_state p2 m2 (junk @ drop (length ?v - length ?n) ?v) ?S" by metis
    have ok2: ok2 using r(3) by (simp add: need_def)
    have "length ?v - length ?n = 16" "length ?n - length ?v = 0" using l by simp_all
    with r(4) [OF ok2] have m2: "buf_state p2 m2 ?n ?S" using l by simp
    have t2: "settles p gmosBufferInit p2 m2" by (rule settles_trans [OF t1 Rebase_settles [OF m1 _ r(1)]]) fact
    let ?h = "leBytes 2 (transactionId e) @ [0x01, 0x00, 0x00, 0x01] @ replicate 6 (0 :: byte)"
    have "length ?n + length ?h < 65536" using l by (simp add: length_dnsEncode)
    from gmosBufferPrepend_ok [OF m2 this] obtain ok3 p3 m3 where h:
      "gmosBufferPrepend p2 m2 ?h = Some (ok3, p3, m3)" "same_on ?S p2 p3"
      "buf_state p3 m3 (if ok3 then ?h @ ?n else ?n) ?S" "ok3 \<longleftrightarrow> need (length ?h - bufferOffset m2) \<le> avail p2" by metis
    have t3: "settles p gmosBufferInit p3 m3" by (rule settles_trans [OF t2 Prepend_settles [OF m2 _ h(1)]]) fact
    have rm3: "ok3" if "sendRoom p" using h(4) room_left(1) [OF that t2 m2] need_step(2) [of "bufferOffset m2"] l(2)
      by (simp add: length_dnsEncode)
    have s3: "same_on ?S p1 p3" using same_on_trans [OF r(2) h(2)] .
    note def = q_def gmosTcpipDnsClientFormatQuery_def nl
    show ?goal
    proof (cases ok3)
      case False
      then have "q = dnsFail p3 m3" using c(1) ok1 r(1) h(1) by (simp add: def del: replicate.simps)
      from failed [OF this h(3) s3 t3] rm3 False show ?goal by blast
    next
      case ok3: True
      have m3: "buf_state p3 m3 (?h @ ?n) ?S" using h(3) ok3 by simp
      have "length [0x00, 1, 0x00, 0x01 :: byte] < 65536" by simp
      from gmosBufferAppend_ok [OF m3 this] obtain ok4 p4 m4 where a:
        "gmosBufferAppend p3 m3 [0x00, 1, 0x00, 0x01] = Some (ok4, p4, m4)" "same_on ?S p3 p4"
        "buf_state p4 m4 (if ok4 then (?h @ ?n) @ [0x00, 1, 0x00, 0x01] else ?h @ ?n) ?S"
        "ok4 \<longleftrightarrow> length (?h @ ?n) + length [0x00, 1, 0x00, 0x01 :: byte] < 65536 \<and>
           need (bufferOffset m3 + length (?h @ ?n) + length [0x00, 1, 0x00, 0x01 :: byte]) -
           need (bufferOffset m3 + length (?h @ ?n)) \<le> avail p3" by metis
      have t4: "settles p gmosBufferInit p4 m4" by (rule settles_trans [OF t3 Append_settles [OF m3 _ a(1)]]) simp
      have "length (?h @ ?n) = length s + 14" by (simp add: length_dnsEncode)
      then have rm4: "ok4" if "sendRoom p"
        using a(4) room_left(1) [OF that t3 m3] need_step(1) [of "bufferOffset m3 + length (?h @ ?n)"] l(2) by simp
      have s4: "same_on ?S p1 p4" using same_on_trans [OF s3 a(2)] .
      show ?goal
      proof (cases ok4)
        case False
        then have "q = dnsFail p4 m4" using c(1) ok1 r(1) h(1) ok3 a(1) by (simp add: def del: replicate.simps)
        from failed [OF this a(3) s4 t4] rm4 False show ?goal by blast
      next
        case True
        then have "q = Some (True, p4, m4)" using c(1) ok1 r(1) h(1) ok3 a(1) by (simp add: def del: replicate.simps)
        moreover have "dnsQuery (transactionId e) s = (?h @ ?n) @ [0x00, 1, 0x00, 0x01]"
          unfolding dnsQuery_def append_assoc ..
        then have "buf_state p4 m4 (dnsQuery (transactionId e) s) ?S" using a(3) True by presburger
        from whole [OF this s4] have "bufs p4 [(m4, dnsQuery (transactionId e) s), (b, ?v)] R \<and> same_on R p p4" .
        ultimately show ?goal using t4 by (intro exI [of _ True] exI [of _ p4] exI [of _ m4]) simp
      qed
    qed
  qed
  then show ?thesis unfolding q_def .
qed

subsection \<open>The driver\<close>

text \<open>
  What the client relies on: a datagram that was accepted for sending has left the buffer, else it
  is still there; a received datagram fills the empty buffer, else it stays empty. The other
  buffers and the accounting of the pool are kept, whatever the driver does with its own segments.
  Datagrams are at most 65280 bytes long, so that offsets into them do not wrap around.
\<close>

definition udpSendOk :: "'x tcpipOps \<Rightarrow> bool" where
  "udpSendOk ops \<longleftrightarrow> (\<forall>so a port p m ds r R x. bufs p ((m, ds) # r) R \<longrightarrow>
     (case udpSendTo ops so a port p m x of (st, p', m', x') \<Rightarrow>
        \<exists>R'. bufs p' ((m', if st = GMOS_NETWORK_STATUS_SUCCESS then [] else ds) # r) R'))"

text \<open>
  What only the accounting of memory rests on: a refusal gives back the segments the driver took,
  if any, so that the message is all that is left to release.
\<close>

definition udpRefuseOk :: "'x tcpipOps \<Rightarrow> bool" where
  "udpRefuseOk ops \<longleftrightarrow> (\<forall>so a port p m ds r R x. bufs p ((m, ds) # r) R \<longrightarrow>
     (case udpSendTo ops so a port p m x of (st, p', m', x') \<Rightarrow>
        st \<noteq> GMOS_NETWORK_STATUS_SUCCESS \<longrightarrow> bufs p' ((m', ds) # r) R \<and> settles p m p' m'))"

definition udpReceiveOk :: "'x tcpipOps \<Rightarrow> bool" where
  "udpReceiveOk ops \<longleftrightarrow> (\<forall>so p r R x. bufs p r R \<longrightarrow>
     (case udpReceiveFrom ops so p gmosBufferInit x of (st, p', m', x') \<Rightarrow>
        \<exists>R' ns. length ns \<le> 65280 \<and> bufs p' ((m', if st = GMOS_NETWORK_STATUS_SUCCESS then ns else []) # r) R'))"

lemma bufs_head:
  assumes "bufs p ((m, ds) # r) R"
  obtains R' where "R \<subseteq> R'" "buf_state p m ds R'"
    "\<And>p' m' ds'. buf_state p' m' ds' R' \<Longrightarrow> same_on R' p p' \<Longrightarrow> bufs p' ((m', ds') # r) R"
proof -
  have "bufs p ([(m, ds)] @ r) R" using assms by simp
  from bufs_focus [OF this] obtain R' where R': "R \<subseteq> R'" "bufs p [(m, ds)] R'"
    "\<forall>p' xs'. bufs p' xs' R' \<longrightarrow> same_on R' p p' \<longrightarrow> bufs p' (xs' @ r) R" by blast
  show thesis
  proof (rule that [OF R'(1)])
    show "buf_state p m ds R'" using R'(2) by (simp add: bufs_1)
    show "bufs p' ((m', ds') # r) R" if "buf_state p' m' ds' R'" "same_on R' p p'" for p' m' ds'
      using R'(3) [rule_format, of p' "[(m', ds')]"] that by (simp add: bufs_1)
  qed
qed

text \<open>Releasing a buffer beside the others.\<close>

lemma bufs_release:
  assumes "bufs p ((m, ds) # r) R"
  obtains p' where "gmosBufferReset p m 0 = Some (True, p', gmosBufferInit)" "bufs p' r R"
proof -
  obtain R' where R': "buf_state p m ds R'"
    "\<And>p' m' ds'. buf_state p' m' ds' R' \<Longrightarrow> same_on R' p p' \<Longrightarrow> bufs p' ((m', ds') # r) R"
    by (rule bufs_head [OF assms]) (rule that)
  obtain p' where p': "gmosBufferReset p m 0 = Some (True, p', gmosBufferInit)"
    "buf_state p' gmosBufferInit [] R'" "same_on R' p p'" by (rule Reset_zero [OF R'(1)]) (rule that)
  from R'(2) [OF p'(2,3)] have "bufs p' r R" by simp
  with p'(1) show thesis by (rule that)
qed

lemma bufs_release_settles:
  assumes "bufs p ((m, ds) # r) R" "gmosBufferReset p m 0 = Some (ok, p', b')"
  shows "settles p m p' b'"
proof -
  obtain R' where "buf_state p m ds R'" by (rule bufs_head [OF assms(1)])
  then show ?thesis using assms(2) by (rule Reset_settles)
qed

lemma settled: "settles p gmosBufferInit p' gmosBufferInit \<Longrightarrow> \<not> mempoolUseHeap p \<Longrightarrow> avail p' = avail p"
  by (simp add: settles_def)

text \<open>
  One call of the driver for the query of an entry, at the address of a server: the message is all
  that was taken from the pool, and the cache is beside it. The results are whether the driver took
  the message, and the pool and the state of the driver behind the call.
\<close>

definition querySent ::
    "'x tcpipOps \<Rightarrow> mempool \<Rightarrow> dnsClient \<Rightarrow> dnsView list \<Rightarrow> nat set \<Rightarrow> nat \<Rightarrow> dnsCacheEntry \<Rightarrow> byte list \<Rightarrow> 'x \<Rightarrow>
     bool \<Rightarrow> mempool \<Rightarrow> 'x \<Rightarrow> bool" where
  "querySent ops p cl v R srv e s x sent p2 x' \<longleftrightarrow> (\<exists>so p1 m1 st m2. udpSocketIpv4 cl = Some so \<and>
     bufs p1 ((m1, dnsQuery (transactionId e) s) # zip (dnsCache cl) (map viewBytes v)) R \<and>
     settles p gmosBufferInit p1 m1 \<and>
     udpSendTo ops so (serverAddress cl srv) GMOS_TCPIP_DNS_COMMON_PORT p1 m1 x = (st, p2, m2, x') \<and>
     (sent \<longleftrightarrow> st = GMOS_NETWORK_STATUS_SUCCESS))"

lemma cacheHolds_bufs: "cacheHolds p cl v R \<Longrightarrow> bufs p (zip (dnsCache cl) (map viewBytes v)) R"
  by (simp add: cacheHolds_def)

lemma cacheHolds_move:
  "cacheHolds p cl v R \<Longrightarrow> bufs p' (zip (dnsCache cl) (map viewBytes v)) R' \<Longrightarrow> cacheHolds p' cl v R'"
  by (simp add: cacheHolds_def)

lemma SendRequest_ok:
  assumes st: "cacheHolds p cl v R" and i: "i < 2" "v ! i = Some (e, s)" and so: "udpSocketIpv4 cl = Some so"
    and ops: "udpSendOk ops"
  shows "\<exists>ok p' x' R'. gmosTcpipDnsClientSendRequest ops tm p cl srv (dnsCache cl ! i) e sc x =
      Some (ok, if ok then e\<lparr>retryTimestamp := ticksNow tm sc + dnsRetryTicks\<rparr> else e, p',
        if ok then tickTaken sc else sc, x') \<and> cacheHolds p' cl v R' \<and>
    ((\<exists>p2. querySent ops p cl v R srv e s x ok p2 x' \<and> (ok \<longrightarrow> p' = p2)) \<or> \<not> ok \<and> x' = x \<and> \<not> sendRoom p) \<and>
    (\<not> ok \<and> udpRefuseOk ops \<longrightarrow> R' = R \<and> (\<not> mempoolUseHeap p \<longrightarrow> avail p' = avail p))"
proof -
  let ?z = "zip (dnsCache cl) (map viewBytes v)" and ?b = "dnsCache cl ! i"
  have l: "length (dnsCache cl) = 2" "length v = 2" "viewOk (v ! i)"
    using st i(1) viewOk_nth [OF st i(1)] by (simp_all add: cacheHolds_def)
  have "bufs p ([(gmosBufferInit, [])] @ ?z) R" using cacheHolds_bufs [OF st] by simp
  then obtain R' where R': "bufs p ([(gmosBufferInit, [])] @ [(?b, map viewBytes v ! i)]) R'"
    "\<And>p' ms' b d. bufs p' (ms' @ [(b, d)]) R' \<Longrightarrow> same_on R' p p' \<Longrightarrow>
       bufs p' (ms' @ zip ((dnsCache cl)[i := b]) ((map viewBytes v)[i := d])) R"
    by (rule bufs_pick) (use i l that in auto)
  have vi: "map viewBytes v ! i = viewBytes (Some (e, s))" using i l by simp
  have ok: "viewOk (Some (e, s))" using l(3) i(2) by simp
  have "bufs p [(gmosBufferInit, []), (?b, viewBytes (Some (e, s)))] R'" using R'(1) vi by simp
  from FormatQuery_ok [OF this ok] obtain ok1 p1 m1 where q:
    "gmosTcpipDnsClientFormatQuery p ?b e gmosBufferInit = Some (ok1, p1, m1)"
    "bufs p1 [(m1, if ok1 then dnsQuery (transactionId e) s else []), (?b, viewBytes (Some (e, s)))] R'" "same_on R' p p1"
    "settles p gmosBufferInit p1 m1" "sendRoom p \<longrightarrow> ok1"
    by blast
  let ?q = "if ok1 then dnsQuery (transactionId e) s else []"
  have "bufs p1 ([(m1, ?q)] @ [(?b, map viewBytes v ! i)]) R'" using q(2) vi by simp
  from R'(2) [OF this q(3)] have z1: "bufs p1 ((m1, ?q) # ?z) R" by simp
  show ?thesis
  proof (cases ok1)
    case False
    obtain p2 where p2: "gmosBufferReset p1 m1 0 = Some (True, p2, gmosBufferInit)" "bufs p2 ?z R"
      by (rule bufs_release [OF z1])
    have "gmosTcpipDnsClientSendRequest ops tm p cl srv ?b e sc x = Some (False, e, p2, sc, x)"
      using q(1) False p2(1) by (simp add: gmosTcpipDnsClientSendRequest_def)
    moreover have "settles p gmosBufferInit p2 gmosBufferInit"
      by (rule settles_trans [OF q(4) bufs_release_settles [OF z1 p2(1)]])
    ultimately show ?thesis using cacheHolds_move [OF st p2(2)] q(5) False settled [of p p2]
      by (intro exI [of _ False] exI [of _ p2] exI [of _ x] exI [of _ R]) simp
  next
    case True
    obtain ns p2 m2 x2 where u: "udpSendTo ops so (serverAddress cl srv) GMOS_TCPIP_DNS_COMMON_PORT p1 m1 x = (ns, p2, m2, x2)"
      by (rule prod_cases4)
    obtain R2' where R2': "bufs p2 ((m2, if ns = GMOS_NETWORK_STATUS_SUCCESS then [] else ?q) # ?z) R2'"
      using ops [unfolded udpSendOk_def, rule_format, OF z1, of so "serverAddress cl srv" GMOS_TCPIP_DNS_COMMON_PORT x] u by auto
    have refuse: "bufs p2 ((m2, ?q) # ?z) R \<and> settles p1 m1 p2 m2"
      if "udpRefuseOk ops" "ns \<noteq> GMOS_NETWORK_STATUS_SUCCESS"
      using that(1) [unfolded udpRefuseOk_def, rule_format, OF z1, of so "serverAddress cl srv" GMOS_TCPIP_DNS_COMMON_PORT x]
        that(2) u by simp
    define R2 where "R2 = (if udpRefuseOk ops \<and> ns \<noteq> GMOS_NETWORK_STATUS_SUCCESS then R else R2')"
    have R2: "bufs p2 ((m2, if ns = GMOS_NETWORK_STATUS_SUCCESS then [] else ?q) # ?z) R2"
    proof (cases "udpRefuseOk ops \<and> ns \<noteq> GMOS_NETWORK_STATUS_SUCCESS")
      case True
      then show ?thesis using refuse by (simp add: R2_def)
    next
      case False
      show ?thesis unfolding R2_def if_not_P [OF False] by (rule R2')
    qed
    have b1: "bufs p1 ((m1, dnsQuery (transactionId e) s) # ?z) R" using z1 True by simp
    have call: "querySent ops p cl v R srv e s x (ns = GMOS_NETWORK_STATUS_SUCCESS) p2 x2"
      unfolding querySent_def using so b1 q(4) u by blast
    show ?thesis
    proof (cases "ns = GMOS_NETWORK_STATUS_SUCCESS")
      case False
      note R2n = R2 [unfolded if_not_P [OF False]]
      obtain p3 where p3: "gmosBufferReset p2 m2 0 = Some (True, p3, gmosBufferInit)" "bufs p3 ?z R2"
        by (rule bufs_release [OF R2n])
      have t: "settles p gmosBufferInit p3 gmosBufferInit" if "udpRefuseOk ops"
        using settles_trans [OF settles_trans [OF q(4)] bufs_release_settles [OF R2n p3(1)]] refuse [OF that False] by blast
      have "gmosTcpipDnsClientSendRequest ops tm p cl srv ?b e sc x = Some (False, e, p3, sc, x2)"
        using q(1) True u False p3(1) so by (simp add: gmosTcpipDnsClientSendRequest_def)
      then show ?thesis using cacheHolds_move [OF st p3(2)] call False t settled [of p p3]
        by (intro exI [of _ False] exI [of _ p3] exI [of _ x2] exI [of _ R2]) (auto simp: R2_def)
    next
      case sent: True
      have "gmosTcpipDnsClientSendRequest ops tm p cl srv ?b e sc x =
          Some (True, e\<lparr>retryTimestamp := ticksNow tm sc + dnsRetryTicks\<rparr>, p2, tickTaken sc, x2)"
        using q(1) True u sent so by (simp add: gmosTcpipDnsClientSendRequest_def GetTimer_eq)
      moreover have "cacheHolds p2 cl v R2" using R2 sent by (intro cacheHolds_move [OF st]) simp
      ultimately show ?thesis using call sent by (intro exI [of _ True] exI [of _ p2] exI [of _ x2] exI [of _ R2]) simp
    qed
  qed
qed

subsection \<open>The state machine\<close>

text \<open>
  One step of an entry at a time: whether a query was sent, and what becomes of the entry. The
  last rules are for the states in which the request is over.
\<close>

inductive dnsStep :: "dnsClient \<Rightarrow> 32 word \<Rightarrow> dnsCacheEntry \<Rightarrow> bool \<Rightarrow> dnsCacheEntry option \<Rightarrow> bool"
  for cl :: dnsClient and now :: "32 word" where
  open_none: "dnsEntryState e = DNS_OPEN \<Longrightarrow> gmosTcpipDnsServerSelect cl e = Some None \<Longrightarrow>
    dnsStep cl now e False (Some (e\<lparr>dnsEntryState := DNS_NOT_VALID\<rparr>))"
| open_socket: "dnsEntryState e = DNS_OPEN \<Longrightarrow> gmosTcpipDnsServerSelect cl e = Some (Some srv) \<Longrightarrow>
    dnsStep cl now e False (Some (e\<lparr>dnsEntryState := DNS_REQUEST\<rparr>))"
| open_again: "dnsEntryState e = DNS_OPEN \<Longrightarrow> gmosTcpipDnsServerSelect cl e = Some (Some srv) \<Longrightarrow>
    dnsStep cl now e False (Some e)"
| request_none: "dnsEntryState e = DNS_REQUEST \<Longrightarrow> gmosTcpipDnsServerSelect cl e = Some None \<Longrightarrow>
    dnsStep cl now e False (Some (e\<lparr>dnsEntryState := DNS_NOT_VALID\<rparr>))"
| request_sent: "dnsEntryState e = DNS_REQUEST \<Longrightarrow> gmosTcpipDnsServerSelect cl e = Some (Some srv) \<Longrightarrow>
    dnsStep cl now e True (Some (e\<lparr>retryTimestamp := now + dnsRetryTicks, dnsEntryState := DNS_WAIT\<rparr>))"
| request_again: "dnsEntryState e = DNS_REQUEST \<Longrightarrow> gmosTcpipDnsServerSelect cl e = Some (Some srv) \<Longrightarrow>
    dnsStep cl now e False (Some e)"
| wait_more: "dnsEntryState e = DNS_WAIT \<Longrightarrow> 0 < sint (retryTimestamp e - now) \<Longrightarrow>
    dnsStep cl now e False (Some e)"
| wait_retry: "dnsEntryState e = DNS_WAIT \<Longrightarrow> sint (retryTimestamp e - now) \<le> 0 \<Longrightarrow>
    u8 (retryCount e + 1) \<le> GMOS_CONFIG_TCPIP_DNS_RETRY_COUNT \<Longrightarrow>
    dnsStep cl now e False (Some (e\<lparr>retryCount := u8 (retryCount e + 1), dnsEntryState := DNS_REQUEST\<rparr>))"
| wait_timeout: "dnsEntryState e = DNS_WAIT \<Longrightarrow> sint (retryTimestamp e - now) \<le> 0 \<Longrightarrow>
    u8 (retryCount e + 1) > GMOS_CONFIG_TCPIP_DNS_RETRY_COUNT \<Longrightarrow>
    dnsStep cl now e False (Some (e\<lparr>retryCount := u8 (retryCount e + 1), dnsEntryState := DNS_TIMEOUT\<rparr>))"
| keep: "dnsEntryState e > DNS_WAIT \<Longrightarrow> 0 < sint (expiryTimestamp e - now) \<Longrightarrow>
    dnsStep cl now e False (Some e)"
| expire: "dnsEntryState e > DNS_WAIT \<Longrightarrow> sint (expiryTimestamp e - now) \<le> 0 \<Longrightarrow>
    dnsStep cl now e False None"

text \<open>
  The calls of the driver that come with a step: one for the query of an entry that has to be sent
  (none only when the pool has no room for the message), one to open the socket, and none in all
  other states and without a server.
\<close>

definition stepCalls ::
    "'x tcpipOps \<Rightarrow> mempool \<Rightarrow> dnsClient \<Rightarrow> dnsView list \<Rightarrow> nat set \<Rightarrow> dnsCacheEntry \<Rightarrow> byte list \<Rightarrow> bool \<Rightarrow> 'x \<Rightarrow> 'x \<Rightarrow> bool"
  where
  "stepCalls ops p cl v R e s sent x x' =
     (case gmosTcpipDnsServerSelect cl e of
        Some (Some srv) \<Rightarrow>
          if dnsEntryState e = DNS_REQUEST
          then (\<exists>p2. querySent ops p cl v R srv e s x sent p2 x') \<or> \<not> sent \<and> x' = x \<and> \<not> sendRoom p
          else if dnsEntryState e = DNS_OPEN \<and> udpSocketIpv4 cl = None
          then \<not> sent \<and> x' = snd (udpOpen ops GMOS_TCPIP_DNS_COMMON_PORT (dnsWorkerTask cl) x)
          else \<not> sent \<and> x' = x
      | _ \<Rightarrow> \<not> sent \<and> x' = x)"

lemma stepCalls_none: "dnsEntryState e \<noteq> DNS_OPEN \<Longrightarrow> dnsEntryState e \<noteq> DNS_REQUEST \<Longrightarrow> stepCalls ops p cl v R e s False x x"
  by (simp add: stepCalls_def split: option.split)

lemma stepCalls_no_server: "gmosTcpipDnsServerSelect cl e = Some None \<Longrightarrow> stepCalls ops p cl v R e s False x x"
  by (simp add: stepCalls_def)

text \<open>A request is under way in the states that need the socket.\<close>

definition dnsBusy :: "dnsView \<Rightarrow> bool" where
  "dnsBusy x = (case x of None \<Rightarrow> False | Some (e, _) \<Rightarrow> dnsEntryState e = DNS_REQUEST \<or> dnsEntryState e = DNS_WAIT)"

lemma serverWalk_total: "dnsServerList cl \<noteq> None \<Longrightarrow> \<exists>s'. serverWalk cl s n = Some s'"
  by (induction n arbitrary: s) (auto split: option.splits)

lemma ServerSelect_total: "\<exists>r. gmosTcpipDnsServerSelect cl e = Some r"
  using serverWalk_total [of cl] by (fastforce simp: gmosTcpipDnsServerSelect_def split: option.splits)

lemma RUN_LATER_eq:
  assumes "0 < d" "d < 2147483648"
  shows "GMOS_TASK_RUN_LATER d \<noteq> GMOS_TASK_SUSPEND" "GMOS_TASK_RUN_LATER d \<noteq> GMOS_TASK_RUN_IMMEDIATE"
proof -
  have "uint (GMOS_TASK_RUN_LATER d) = d" using assms
    by (simp add: GMOS_TASK_RUN_LATER_def uint_word_of_int)
  then show "GMOS_TASK_RUN_LATER d \<noteq> GMOS_TASK_SUSPEND" "GMOS_TASK_RUN_LATER d \<noteq> GMOS_TASK_RUN_IMMEDIATE"
    using assms by (auto simp: GMOS_TASK_SUSPEND_def GMOS_TASK_RUN_IMMEDIATE_def)
qed

lemma sint_word32: "sint (w :: 32 word) < 2147483648"
  using sint_less [of w] by simp

lemma later_remaining:
  "0 < sint (w :: 32 word) \<Longrightarrow> GMOS_TASK_RUN_LATER (sint w) \<noteq> GMOS_TASK_SUSPEND"
  "0 < sint (w :: 32 word) \<Longrightarrow> GMOS_TASK_RUN_LATER (sint w) \<noteq> GMOS_TASK_RUN_IMMEDIATE"
  using RUN_LATER_eq sint_word32 by blast+

lemma poll_status: "dnsPollStatus \<noteq> GMOS_TASK_SUSPEND"
  unfolding dnsPollStatus_def
  by (rule RUN_LATER_eq) (simp_all add: GMOS_MS_TO_TICKS_def GMOS_CONFIG_SYSTEM_TIMER_FREQUENCY_def)

lemma suspend_immediate [simp]: "GMOS_TASK_SUSPEND \<noteq> GMOS_TASK_RUN_IMMEDIATE"
  by (simp add: GMOS_TASK_SUSPEND_def GMOS_TASK_RUN_IMMEDIATE_def)

lemma setState_same: "dnsEntryState e = n \<Longrightarrow> e\<lparr>dnsEntryState := n\<rparr> = e"
  by (cases e) simp

text \<open>What a step promises beside the new entry: the status, the socket and the flag that keeps it open.\<close>

definition stepKeeps :: "dnsClient \<Rightarrow> bool \<Rightarrow> 32 word \<Rightarrow> nat \<Rightarrow> bool \<Rightarrow> dnsClient \<Rightarrow> bool" where
  "stepKeeps cl keep status ns keep' cl' \<longleftrightarrow>
     (status = GMOS_TASK_SUSPEND \<longleftrightarrow> ns = DNS_EXPIRED) \<and>
     (ns = DNS_REQUEST \<or> ns = DNS_WAIT \<longrightarrow> keep' \<and> udpSocketIpv4 cl' \<noteq> None) \<and> (keep \<longrightarrow> keep') \<and>
     (\<exists>so. cl' = cl\<lparr>udpSocketIpv4 := so\<rparr> \<and> (udpSocketIpv4 cl \<noteq> None \<longrightarrow> so \<noteq> None))"

lemma OpenUdp_ok:
  "\<exists>so x'. gmosTcpipDnsClientOpenUdp ops cl x = (so \<noteq> None, cl\<lparr>udpSocketIpv4 := so\<rparr>, x') \<and>
     (udpSocketIpv4 cl \<noteq> None \<longrightarrow> so \<noteq> None) \<and>
     x' = (if udpSocketIpv4 cl = None then snd (udpOpen ops GMOS_TCPIP_DNS_COMMON_PORT (dnsWorkerTask cl) x) else x)"
proof (cases "udpSocketIpv4 cl")
  case None
  obtain so x' where "udpOpen ops GMOS_TCPIP_DNS_COMMON_PORT (dnsWorkerTask cl) x = (so, x')" by fastforce
  then show ?thesis using None by (intro exI [of _ so]) (simp add: gmosTcpipDnsClientOpenUdp_def)
next
  case (Some so)
  then have "cl\<lparr>udpSocketIpv4 := Some so\<rparr> = cl" by (cases cl) simp
  then show ?thesis using Some by (intro exI [of _ "Some so"]) (simp add: gmosTcpipDnsClientOpenUdp_def)
qed

lemma same_socket: "\<exists>so. cl = cl\<lparr>udpSocketIpv4 := so\<rparr> \<and> (udpSocketIpv4 cl \<noteq> None \<longrightarrow> so \<noteq> None)"
  by (intro exI [of _ "udpSocketIpv4 cl"]) simp

lemma stepKeeps_same:
  "(status = GMOS_TASK_SUSPEND) = (ns = DNS_EXPIRED) \<Longrightarrow>
   ns = DNS_REQUEST \<or> ns = DNS_WAIT \<longrightarrow> keep' \<and> udpSocketIpv4 cl \<noteq> None \<Longrightarrow> keep \<longrightarrow> keep' \<Longrightarrow>
   stepKeeps cl keep status ns keep' cl"
  unfolding stepKeeps_def using same_socket [of cl] by blast

lemma cacheHolds_socket [simp]: "cacheHolds p (cl\<lparr>udpSocketIpv4 := so\<rparr>) v R = cacheHolds p cl v R"
  by (simp add: cacheHolds_def)

lemma cacheSwitch_ok:
  assumes st: "cacheHolds p cl v R" and i: "i < 2" "v ! i = Some (e, s)"
    and so: "dnsBusy (v ! i) \<longrightarrow> udpSocketIpv4 cl \<noteq> None" and ops: "udpSendOk ops"
  shows "\<exists>status ns e' keep' p' cl' sc' x' R' sent.
    cacheSwitch ops tm p cl (dnsCache cl ! i) e keep sc x = Some (status, ns, e', keep', p', cl', sc', x') \<and>
    cacheHolds p' cl' v R' \<and> entryOk e' \<and> dnsEntryState e' = dnsEntryState e \<and> ns \<le> DNS_EXPIRED \<and> (ns = dnsEntryState e \<longrightarrow> e' = e) \<and>
    dnsStep cl (ticksNow tm sc) e sent (if ns = DNS_EXPIRED then None else Some (e'\<lparr>dnsEntryState := ns\<rparr>)) \<and>
    stepKeeps cl keep status ns keep' cl' \<and> stepCalls ops p cl v R e s sent x x'"
proof -
  let ?now = "ticksNow tm sc"
  have e: "entryOk e" using viewOk_nth [OF st i(1)] i(2) by simp
  obtain sel where sel: "gmosTcpipDnsServerSelect cl e = Some sel" using ServerSelect_total by blast
  have res: ?thesis if "cacheSwitch ops tm p cl (dnsCache cl ! i) e keep sc x = Some (status, ns, e', keep', p', cl', sc', x')"
    "dnsStep cl ?now e sent (if ns = DNS_EXPIRED then None else Some (e'\<lparr>dnsEntryState := ns\<rparr>))"
    "cacheHolds p' cl' v R'" "entryOk e' \<and> dnsEntryState e' = dnsEntryState e \<and> ns \<le> DNS_EXPIRED \<and> (ns = dnsEntryState e \<longrightarrow> e' = e)"
    "stepKeeps cl keep status ns keep' cl'" "stepCalls ops p cl v R e s sent x x'" for status ns e' keep' p' cl' sc' x' R' sent
    using that by blast
  consider (opened) "dnsEntryState e = DNS_OPEN" | (request) "dnsEntryState e = DNS_REQUEST"
    | (waiting) "dnsEntryState e = DNS_WAIT" | (over) "dnsEntryState e > DNS_WAIT" by linarith
  then show ?thesis
  proof cases
    case opened
    show ?thesis
    proof (cases sel)
      case None
      have sw: "cacheSwitch ops tm p cl (dnsCache cl ! i) e keep sc x =
          Some (dnsPollStatus, DNS_NOT_VALID, e, keep, p, cl, sc, x)" using opened sel None by (simp add: cacheSwitch_def)
      have stp: "dnsStep cl ?now e False (if DNS_NOT_VALID = DNS_EXPIRED then None else Some (e\<lparr>dnsEntryState := DNS_NOT_VALID\<rparr>))"
        using open_none opened sel None by simp
      show ?thesis by (rule res [OF sw stp st])
        (use e poll_status sel None in \<open>auto intro!: stepKeeps_same stepCalls_no_server\<close>)
    next
      case (Some srv)
      obtain so x' where o: "gmosTcpipDnsClientOpenUdp ops cl x = (so \<noteq> None, cl\<lparr>udpSocketIpv4 := so\<rparr>, x')"
        "udpSocketIpv4 cl \<noteq> None \<longrightarrow> so \<noteq> None"
        "x' = (if udpSocketIpv4 cl = None then snd (udpOpen ops GMOS_TCPIP_DNS_COMMON_PORT (dnsWorkerTask cl) x) else x)"
        using OpenUdp_ok [of ops cl x] by (elim exE conjE) (rule that)
      let ?ns = "if so \<noteq> None then DNS_REQUEST else DNS_OPEN"
      have sw: "cacheSwitch ops tm p cl (dnsCache cl ! i) e keep sc x =
          Some (dnsPollStatus, ?ns, e, if so \<noteq> None then True else keep, p, cl\<lparr>udpSocketIpv4 := so\<rparr>, sc, x')"
        using opened sel Some o(1) by (simp add: cacheSwitch_def)
      have stp: "dnsStep cl ?now e False (if ?ns = DNS_EXPIRED then None else Some (e\<lparr>dnsEntryState := ?ns\<rparr>))"
        using open_socket [OF opened] open_again [OF opened] sel Some setState_same [OF opened] by simp
      show ?thesis by (rule res [OF sw stp], use st in simp)
        (use e poll_status o(2,3) sel Some opened in \<open>auto simp: stepKeeps_def stepCalls_def\<close>)
    qed
  next
    case request
    show ?thesis
    proof (cases sel)
      case None
      have sw: "cacheSwitch ops tm p cl (dnsCache cl ! i) e keep sc x =
          Some (dnsPollStatus, DNS_NOT_VALID, e, True, p, cl, sc, x)" using request sel None by (simp add: cacheSwitch_def)
      have stp: "dnsStep cl ?now e False (if DNS_NOT_VALID = DNS_EXPIRED then None else Some (e\<lparr>dnsEntryState := DNS_NOT_VALID\<rparr>))"
        using request_none request sel None by simp
      show ?thesis by (rule res [OF sw stp st])
        (use e poll_status sel None in \<open>auto intro!: stepKeeps_same stepCalls_no_server\<close>)
    next
      case (Some srv)
      obtain so' where so': "udpSocketIpv4 cl = Some so'" using so i(2) request by (auto simp: dnsBusy_def)
      obtain ok p' x' R' where r: "gmosTcpipDnsClientSendRequest ops tm p cl srv (dnsCache cl ! i) e sc x =
          Some (ok, if ok then e\<lparr>retryTimestamp := ?now + dnsRetryTicks\<rparr> else e, p',
            if ok then tickTaken sc else sc, x')" "cacheHolds p' cl v R'"
          "(\<exists>p2. querySent ops p cl v R srv e s x ok p2 x') \<or> \<not> ok \<and> x' = x \<and> \<not> sendRoom p"
        using SendRequest_ok [OF st i so' ops, of tm srv sc x] by blast
      let ?ns = "if ok then DNS_WAIT else DNS_REQUEST"
      let ?e = "if ok then e\<lparr>retryTimestamp := ?now + dnsRetryTicks\<rparr> else e"
      have sw: "cacheSwitch ops tm p cl (dnsCache cl ! i) e keep sc x =
          Some (dnsPollStatus, ?ns, ?e, True, p', cl, if ok then tickTaken sc else sc, x')"
        using request sel Some r(1) by (simp add: cacheSwitch_def)
      have stp: "dnsStep cl ?now e ok (if ?ns = DNS_EXPIRED then None else Some (?e\<lparr>dnsEntryState := ?ns\<rparr>))"
        using request_sent [OF request] request_again [OF request] sel Some setState_same [OF request]
        by (cases ok) simp_all
      show ?thesis by (rule res [OF sw stp r(2)])
        (use e request poll_status so' r(3) sel Some in \<open>auto intro!: stepKeeps_same simp: entryOk_def stepCalls_def\<close>)
    qed
  next
    case waiting
    have so': "udpSocketIpv4 cl \<noteq> None" using so i(2) waiting by (auto simp: dnsBusy_def)
    show ?thesis
    proof (cases "sint (retryTimestamp e - ?now) \<le> 0")
      case True
      let ?e = "e\<lparr>retryCount := u8 (retryCount e + 1)\<rparr>"
      let ?ns = "if u8 (retryCount e + 1) > GMOS_CONFIG_TCPIP_DNS_RETRY_COUNT then DNS_TIMEOUT else DNS_REQUEST"
      have sw: "cacheSwitch ops tm p cl (dnsCache cl ! i) e keep sc x =
          Some (GMOS_TASK_RUN_IMMEDIATE, ?ns, ?e, True, p, cl, tickTaken sc, x)"
        using waiting True by (simp add: cacheSwitch_def gmosTcpipDnsClientRetryTimeout_def GetTimer_eq)
      have stp: "dnsStep cl ?now e False (if ?ns = DNS_EXPIRED then None else Some (?e\<lparr>dnsEntryState := ?ns\<rparr>))"
        using wait_retry [OF waiting True] wait_timeout [OF waiting True]
        by (cases "u8 (retryCount e + 1) > GMOS_CONFIG_TCPIP_DNS_RETRY_COUNT") (simp_all add: not_less)
      show ?thesis by (rule res [OF sw stp st])
        (use e waiting so' in \<open>auto intro!: stepKeeps_same stepCalls_none simp: entryOk_def u8_def suspend_immediate [symmetric]\<close>)
    next
      case False
      then have sw: "cacheSwitch ops tm p cl (dnsCache cl ! i) e keep sc x =
          Some (GMOS_TASK_RUN_LATER (sint (retryTimestamp e - ?now)), DNS_WAIT, e, True, p, cl, tickTaken sc, x)"
        using waiting later_remaining(2) by (simp add: cacheSwitch_def gmosTcpipDnsClientRetryTimeout_def GetTimer_eq)
      have stp: "dnsStep cl ?now e False (if DNS_WAIT = DNS_EXPIRED then None else Some (e\<lparr>dnsEntryState := DNS_WAIT\<rparr>))"
        using wait_more [OF waiting] False setState_same [OF waiting] by simp
      show ?thesis by (rule res [OF sw stp st])
        (use e so' later_remaining(1) False waiting in \<open>auto intro!: stepKeeps_same stepCalls_none\<close>)
    qed
  next
    case over
    show ?thesis
    proof (cases "sint (expiryTimestamp e - ?now) \<le> 0")
      case True
      then have sw: "cacheSwitch ops tm p cl (dnsCache cl ! i) e keep sc x =
          Some (GMOS_TASK_SUSPEND, DNS_EXPIRED, e, keep, p, cl, tickTaken sc, x)"
        using over by (simp add: cacheSwitch_def gmosTcpipDnsClientExpiryTimeout_def GetTimer_eq)
      have stp: "dnsStep cl ?now e False (if DNS_EXPIRED = DNS_EXPIRED then None else Some (e\<lparr>dnsEntryState := DNS_EXPIRED\<rparr>))" using expire [OF over True] by simp
      show ?thesis by (rule res [OF sw stp st])
        (use e over in \<open>auto intro!: stepKeeps_same stepCalls_none\<close>)
    next
      case False
      then have sw: "cacheSwitch ops tm p cl (dnsCache cl ! i) e keep sc x =
          Some (GMOS_TASK_RUN_LATER (sint (expiryTimestamp e - ?now)), dnsEntryState e, e, keep, p, cl, tickTaken sc, x)"
        using over later_remaining(1) by (simp add: cacheSwitch_def gmosTcpipDnsClientExpiryTimeout_def GetTimer_eq)
      have stp: "dnsStep cl ?now e False (if dnsEntryState e = DNS_EXPIRED then None else Some (e\<lparr>dnsEntryState := dnsEntryState e\<rparr>))"
        using keep [OF over] False e by (simp add: entryOk_def)
      show ?thesis by (rule res [OF sw stp st])
        (use e later_remaining(1) False over in \<open>auto intro!: stepKeeps_same stepCalls_none simp: entryOk_def\<close>)
    qed
  qed
qed

lemma CacheProcess_None:
  assumes "cacheHolds p cl v R" "i < 2" "v ! i = None"
  shows "gmosTcpipDnsClientCacheProcess ops tm p cl i keep sc x = Some (GMOS_TASK_SUSPEND, keep, p, cl, sc, x)"
proof -
  obtain R' where R': "buf_state p (dnsCache cl ! i) (viewBytes (v ! i)) R'" "viewOk (v ! i)"
    by (rule cache_read [OF assms(1,2)])
  show ?thesis using readEntry_ok [OF R'] assms(3) by (simp add: gmosTcpipDnsClientCacheProcess_def Let_def)
qed

text \<open>A processed entry: its step, the cache and what the step promises.\<close>

lemma CacheProcess_Some:
  assumes st: "cacheHolds p cl v R" and i: "i < 2" "v ! i = Some (e, s)"
    and so: "dnsBusy (v ! i) \<longrightarrow> udpSocketIpv4 cl \<noteq> None" and ops: "udpSendOk ops"
  shows "\<exists>status keep' p' cl' sc' x' R' sent r.
    gmosTcpipDnsClientCacheProcess ops tm p cl i keep sc x = Some (status, keep', p', cl', sc', x') \<and>
    dnsStep cl (ticksNow tm sc) e sent r \<and>
    cacheHolds p' cl' (v[i := map_option (\<lambda>e'. (e', s)) r]) R' \<and>
    (status = GMOS_TASK_SUSPEND \<longleftrightarrow> r = None) \<and>
    (dnsBusy (map_option (\<lambda>e'. (e', s)) r) \<longrightarrow> keep' \<and> udpSocketIpv4 cl' \<noteq> None) \<and> (keep \<longrightarrow> keep') \<and>
    (\<exists>so c. cl' = cl\<lparr>udpSocketIpv4 := so, dnsCache := c\<rparr> \<and> (udpSocketIpv4 cl \<noteq> None \<longrightarrow> so \<noteq> None)) \<and>
    stepCalls ops p cl v R e s sent x x'"
proof -
  let ?b = "dnsCache cl ! i"
  obtain R0 where R0: "buf_state p ?b (viewBytes (v ! i)) R0" "viewOk (v ! i)" by (rule cache_read [OF st i(1)])
  have rd: "readEntry p ?b = Some (Some e)" using readEntry_ok [OF R0] i(2) by simp
  from cacheSwitch_ok [OF st i so ops, of tm keep sc x] obtain status ns e' keep' p1 cl1 sc' x' R1 sent where
    sw: "cacheSwitch ops tm p cl ?b e keep sc x = Some (status, ns, e', keep', p1, cl1, sc', x')"
      "cacheHolds p1 cl1 v R1" "entryOk e'" "dnsEntryState e' = dnsEntryState e" "ns \<le> DNS_EXPIRED"
      "ns = dnsEntryState e \<longrightarrow> e' = e"
      "dnsStep cl (ticksNow tm sc) e sent (if ns = DNS_EXPIRED then None else Some (e'\<lparr>dnsEntryState := ns\<rparr>))"
      "stepKeeps cl keep status ns keep' cl1" "stepCalls ops p cl v R e s sent x x'" by (elim exE conjE) (rule that)
  obtain so where so: "cl1 = cl\<lparr>udpSocketIpv4 := so\<rparr>" "udpSocketIpv4 cl \<noteq> None \<longrightarrow> so \<noteq> None"
    and k: "status = GMOS_TASK_SUSPEND \<longleftrightarrow> ns = DNS_EXPIRED"
      "ns = DNS_REQUEST \<or> ns = DNS_WAIT \<longrightarrow> keep' \<and> udpSocketIpv4 cl1 \<noteq> None" "keep \<longrightarrow> keep'"
    using sw(8) by (auto simp: stepKeeps_def)
  have b: "dnsCache cl1 ! i = ?b" by (simp add: so(1))
  obtain R' where R': "buf_state p1 ?b (viewBytes (v ! i)) R'"
    "\<And>p' b x. buf_state p' b (viewBytes x) R' \<Longrightarrow> same_on R' p1 p' \<Longrightarrow> viewOk x \<Longrightarrow>
       cacheHolds p' (setCache i b cl1) (v[i := x]) R1" by (rule cache_at [OF sw(2) i(1), unfolded b]) (rule that)
  have es: "acceptedName s \<and> 0 \<notin> set s" using R0(2) i(2) by simp
  let ?P = "gmosTcpipDnsClientCacheProcess ops tm p cl i keep sc x"
  show ?thesis
  proof (cases "ns = DNS_EXPIRED")
    case True
    obtain p2 where p2: "gmosBufferReset p1 ?b 0 = Some (True, p2, gmosBufferInit)"
      "buf_state p2 gmosBufferInit [] R'" "same_on R' p1 p2" by (rule Reset_zero [OF R'(1)]) (rule that)
    have P: "?P = Some (status, keep', p2, setCache i gmosBufferInit cl1, sc', x')"
      using rd sw(1) True p2(1) by (simp add: gmosTcpipDnsClientCacheProcess_def Let_def)
    have h: "cacheHolds p2 (setCache i gmosBufferInit cl1) (v[i := None]) R1"
      using p2(2) by (intro R'(2) [OF _ p2(3)]) simp_all
    have f: "\<exists>so c. setCache i gmosBufferInit cl1 = cl\<lparr>udpSocketIpv4 := so, dnsCache := c\<rparr> \<and>
        (udpSocketIpv4 cl \<noteq> None \<longrightarrow> so \<noteq> None)" using so by (auto simp: setCache_def)
    show ?thesis unfolding P using sw(7,9) h f k True
      by (intro exI [of _ status] exI [of _ keep'] exI [of _ p2] exI [of _ "setCache i gmosBufferInit cl1"]
            exI [of _ sc'] exI [of _ x'] exI [of _ R1] exI [of _ sent] exI [of _ None]) (simp add: dnsBusy_def)
  next
    case go: False
    let ?e = "e'\<lparr>dnsEntryState := ns\<rparr>"
    have e': "entryOk ?e" using sw(3,5) go by (simp add: entryOk_def)
    have "\<exists>p2. ?P = Some (status, keep', p2, cl1, sc', x') \<and> cacheHolds p2 cl1 (v[i := Some (?e, s)]) R1"
    proof (cases "ns = dnsEntryState e'")
      case True
      then have "?e = e" using sw(4,6) by simp
      then have "v[i := Some (?e, s)] = v" using i(2) by (metis list_update_id)
      then show ?thesis using rd sw(1,2) go True by (simp add: gmosTcpipDnsClientCacheProcess_def Let_def)
    next
      case False
      have bs: "buf_state p1 ?b (viewBytes (Some (e, s))) R'" "entryOk e" using R'(1) R0(2) i(2) by simp_all
      obtain p2 where p2: "writeEntry p1 ?b ?e = Some p2" "buf_state p2 ?b (viewBytes (Some (?e, s))) R'"
        "same_on R' p1 p2" by (rule writeEntry_ok [OF bs e'])
      have "cacheHolds p2 (setCache i ?b cl1) (v[i := Some (?e, s)]) R1"
        using e' es by (intro R'(2) [OF p2(2,3)]) simp
      then have "cacheHolds p2 cl1 (v[i := Some (?e, s)]) R1" using setCache_same [of i cl1] b by simp
      then show ?thesis using rd sw(1) go False p2(1) by (simp add: gmosTcpipDnsClientCacheProcess_def Let_def)
    qed
    then obtain p2 where P: "?P = Some (status, keep', p2, cl1, sc', x')" "cacheHolds p2 cl1 (v[i := Some (?e, s)]) R1"
      by blast
    have f: "\<exists>so c. cl1 = cl\<lparr>udpSocketIpv4 := so, dnsCache := c\<rparr> \<and> (udpSocketIpv4 cl \<noteq> None \<longrightarrow> so \<noteq> None)"
      using so by (intro exI [of _ so] exI [of _ "dnsCache cl"]) simp
    show ?thesis unfolding P(1) using sw(7,9) P(2) f k go
      by (intro exI [of _ status] exI [of _ keep'] exI [of _ p2] exI [of _ cl1]
            exI [of _ sc'] exI [of _ x'] exI [of _ R1] exI [of _ sent] exI [of _ "Some ?e"]) (simp add: dnsBusy_def)
  qed
qed

end
