(* ===== verification/Gmos_Dns_Worker.thy ===== *)
theory Gmos_Dns_Worker
  imports Gmos_Dns_Client
begin

text \<open>
  The DNS client at work: what a response does to the cache, how many queries a request can cost,
  the worker task as a whole, and the list of servers.
\<close>

subsection \<open>Responses\<close>

lemma bufs_member: "bufs p xs R \<Longrightarrow> (b, ds) \<in> set xs \<Longrightarrow> \<exists>R'. buf_state p b ds R'"
proof -
  assume st: "bufs p xs R" and "(b, ds) \<in> set xs"
  then obtain l r where "xs = l @ (b, ds) # r" by (meson split_list)
  with st have "bufs p ((b, ds) # l @ r) R" using bufs_front by blast
  then show ?thesis by (rule bufs_head) blast
qed

text \<open>The header and the question of a message: the number of answers, the next state and the answers.\<close>

definition respHeader :: "byte list \<Rightarrow> byte list \<Rightarrow> nat \<Rightarrow> nat \<times> nat \<times> byte list" where
  "respHeader ns s st =
     (let rcode = and (ns ! 3) 0x0F in
      if length ns < 12 \<or> and (ns ! 2) 0xFB \<noteq> 0x81 \<or> and (ns ! 3) 0x80 \<noteq> 0x80 then (0, st, ns)
      else if rcode = 1 \<or> rcode = 3 then (0, DNS_NOT_VALID, ns)
      else if rcode \<noteq> 0 then (0, st, ns)
      else if unat (ns ! 4) * 256 + unat (ns ! 5) \<noteq> 1 then (0, DNS_NOT_VALID, ns)
      else if \<not> validName s \<or> take (length s + 2) (drop 12 ns) \<noteq> dnsEncode (splitName s) then (0, DNS_NOT_VALID, ns)
      else if take 4 (drop (length s + 14) ns) \<noteq> [0, 1, 0, 1] \<or> length ns \<le> length s + 18 then (0, st, ns)
      else (unat (ns ! 6) * 256 + unat (ns ! 7), st, drop (length s + 18) ns))"

lemma take4: "length (xs :: byte list) = 4 \<Longrightarrow> xs = [a, b, c, d] \<longleftrightarrow> xs ! 0 = a \<and> xs ! 1 = b \<and> xs ! 2 = c \<and> xs ! 3 = d"
  by (cases xs; cases "tl xs"; cases "tl (tl xs)"; cases "tl (tl (tl xs))") auto

lemma CheckHeader_ok:
  assumes st: "bufs p [(m, ns), (b, viewBytes (Some (e, s)))] R" and v: "viewOk (Some (e, s))"
    and n: "length ns \<le> 65280" and r: "respHeader ns s ost = (an, nst, rs)"
  shows "\<exists>p' m' rs'. gmosTcpipDnsClientResponseCheckHeader p m b ost = Some (an, nst, p', m') \<and>
    bufs p' [(m', rs'), (b, viewBytes (Some (e, s)))] R \<and> same_on R p p' \<and> (an \<noteq> 0 \<longrightarrow> rs' = rs)"
proof -
  let ?v = "viewBytes (Some (e, s))" and ?C = "gmosTcpipDnsClientResponseCheckHeader p m b ost"
  obtain xs where x: "buf_rep p b xs ?v" "set xs \<inter> R = {}" "buf_state p m ns (set xs \<union> R)"
    by (rule bufs_2D [OF bufs_swap [OF st]])
  let ?S = "set xs \<union> R"
  note rd = gmosBufferRead_ok [OF x(3)]
  have keep: "\<exists>p' m' rs'. ?C = Some (an, nst, p', m') \<and> bufs p' [(m', rs'), (b, ?v)] R \<and> same_on R p p' \<and>
      (an \<noteq> 0 \<longrightarrow> rs' = rs)" if "?C = Some (an, nst, p, m)" "an = 0"
    using that st by (intro exI conjI) (assumption+, simp_all)
  note def = gmosTcpipDnsClientResponseCheckHeader_def
  show ?thesis
  proof (cases "length ns < 12")
    case True
    then show ?thesis using r rd [of 0 12] by (intro keep) (auto simp: respHeader_def def Let_def)
  next
    case len: False
    have hd: "gmosBufferRead p m 0 12 = Some (Some (take 12 ns))" using rd [of 0 12] len by simp
    let ?rc = "and (ns ! 3) 0x0F"
    show ?thesis
    proof (cases "and (ns ! 2) 0xFB \<noteq> 0x81 \<or> and (ns ! 3) 0x80 \<noteq> 0x80 \<or> ?rc \<noteq> 0 \<or>
        unat (ns ! 4) * 256 + unat (ns ! 5) \<noteq> 1")
      case True
      then show ?thesis using r hd len by (intro keep) (auto simp: respHeader_def def Let_def split: if_splits)
    next
      case ok: False
      obtain l ls where l: "splitName s = l # ls" "\<forall>l\<in>set (l # ls). plainLabel l" "joinLabels (l # ls) = s"
        by (rule joinLabels_inject [of s]) (use v in simp)
      obtain S' where "buf_state p b ?v S'" using bufs_member [OF st, of b ?v] by auto
      then have bs: "buf_state p b (entryBytes e @ dnsEncode (l # ls)) S'" using l(1) by simp
      have he: "length (entryBytes e) = 16" using v length_entryBytes by simp
      have "\<forall>l\<in>set (l # ls). wireLabel l" using l(2) plain_wire by blast
      note mb = MatchBuffer_ok [OF bs he x(3) this, of 12, unfolded l(1) [symmetric] length_dnsEncode]
      have ls: "length s \<le> 254" using v by (simp add: acceptedName_iff)
      have sz: "gmosBufferGetSize m = length ns" using bufs_size [OF st] by (simp add: gmosBufferGetSize_def)
      show ?thesis
      proof (cases "\<not> validName s \<or> take (length s + 2) (drop 12 ns) \<noteq> dnsEncode (splitName s)")
        case True
        then have "gmosTcpipDnsClientCacheMatchBuffer p b m 12 = Some 0" unfolding mb
          using v by (auto simp: u8_def validName_iff)
        then show ?thesis using r hd len ok True
          by (intro keep) (auto simp: respHeader_def def Let_def split: if_splits)
      next
        case name: False
        then have u: "u8 (length s + 2) = length s + 2" using v matchLength [of s] by simp
        then have mb': "gmosTcpipDnsClientCacheMatchBuffer p b m 12 = Some (length s + 2)" unfolding mb using name by simp
        have o: "u16 (12 + (length s + 2)) = length s + 14" "u16 (length s + 14 + 4) = length s + 18"
          using ls by simp_all
        let ?q = "take 4 (drop (length s + 14) ns)"
        show ?thesis
        proof (cases "?q \<noteq> [0, 1, 0, 1] \<or> length ns \<le> length s + 18")
          case True
          have an: "an = 0" "nst = ost" using r len ok name True by (auto simp: respHeader_def Let_def)
          have "?C = Some (0, ost, p, m)"
          proof (cases "length s + 18 \<le> length ns")
            case True
            define q where "q = ?q"
            have q: "gmosBufferRead p m (length s + 14) 4 = Some (Some q)" "length q = 4"
              using rd [of "length s + 14" 4] True by (simp_all add: q_def)
            have "q ! 0 \<noteq> 0 \<or> q ! 1 \<noteq> 1 \<or> q ! 2 \<noteq> 0 \<or> q ! 3 \<noteq> 1 \<or> length ns \<le> length s + 18"
              using take4 [OF q(2)] \<open>?q \<noteq> [0, 1, 0, 1] \<or> length ns \<le> length s + 18\<close> unfolding q_def by metis
            then show ?thesis using hd ok mb' o sz q(1) by (auto simp: def Let_def)
          next
            case False
            then show ?thesis using hd ok mb' o rd [of "length s + 14" 4] by (simp add: def Let_def)
          qed
          then show ?thesis using an by (intro keep) simp_all
        next
          case False
          have q: "gmosBufferRead p m (length s + 14) 4 = Some (Some ?q)" "?q = [0, 1, 0, 1]"
            using rd [of "length s + 14" 4] False by simp_all
          let ?n = "length ns - (length s + 18)"
          have nn: "?n < 65536" using n by simp
          from gmosBufferRebase_ok [OF x(3) nn] obtain ok1 p1 m1 where rb:
            "gmosBufferRebase p m ?n = Some (ok1, p1, m1)" "same_on ?S p p1"
            "ok1 \<longleftrightarrow> need (?n - length ns - bufferOffset m) \<le> avail p"
            "ok1 \<Longrightarrow> \<exists>junk. length junk = ?n - length ns \<and> buf_state p1 m1 (junk @ drop (length ns - ?n) ns) ?S"
            by metis
          have "length ns - ?n = length s + 18" using False by simp
          then have m1: "buf_state p1 m1 (drop (length s + 18) ns) ?S" using rb(3,4) by (auto simp: need_def)
          have C: "?C = Some (an, nst, p1, m1)" "rs = drop (length s + 18) ns"
            using r hd len ok name mb' o sz q rb(1) False by (auto simp: respHeader_def def Let_def)
          have "bufs p1 [(m1, drop (length s + 18) ns), (b, ?v)] R"
            by (rule bufs_swap [OF bufs_2I [OF x(1,2) m1 rb(2)]])
          then show ?thesis unfolding C using same_on_mono [OF rb(2)] by blast
        qed
      qed
    qed
  qed
qed

text \<open>
  The addresses in the first \<open>n\<close> answers. The length of the data of an answer is not checked and
  wraps around in 16 bits, as in the code.
\<close>

fun aRecords :: "nat \<Rightarrow> byte list \<Rightarrow> nat \<Rightarrow> byte list list" where
  "aRecords 0 ns off = []"
| "aRecords (Suc n) ns off =
     (case wireNameLength (drop off ns) of
        None \<Rightarrow> []
      | Some k \<Rightarrow>
          let rr = drop (off + k) ns; after = u16 (off + k + 10 + (unat (rr ! 8) * 256 + unat (rr ! 9)))
          in if length rr < 10 then []
             else if take 4 rr \<noteq> [0, 1, 0, 1] then aRecords n ns after
             else if length rr < 14 then []
             else take 4 (drop 10 rr) # aRecords n ns after)"

lemma wireNameLength_pos: "wireNameLength xs = Some k \<Longrightarrow> 0 < k"
  by (cases xs) (auto split: if_splits)

lemma first_chosen: "u32 (1 * and n 0xFFFF) < 0x10000"
proof -
  have "and n (mask 16) = n mod 65536" by (simp only: take_bit_eq_mask [symmetric] take_bit_eq_mod) simp
  then have "and n 0xFFFF < 65536" by (simp add: mask_eq_exp_minus_1)
  then show ?thesis by (simp add: u32_def)
qed

lemma scanRecords_ok:
  assumes st: "buf_state p m ns R" and n: "length ns \<le> 65280"
  shows "off < 65536 \<Longrightarrow> \<exists>e' nst x'. scanRecordsLoop ops p m an off cnt e ost x = Some (e', nst, x') \<and>
    (if aRecords an ns off = [] then e' = e \<and> nst = ost
     else (\<exists>a\<in>set (aRecords an ns off). e' = e\<lparr>resolvedAddr := a\<rparr> \<and> nst = DNS_VALID) \<or>
       cnt \<noteq> 0 \<and> e' = e \<and> nst = ost)"
proof (induction an arbitrary: off cnt e ost x)
  case (Suc an)
  note sk = SkipName_ok [OF st n Suc.prems]
  note rd = gmosBufferRead_ok [OF st]
  show ?case
  proof (cases "wireNameLength (drop off ns)")
    case None
    then show ?thesis using sk by simp
  next
    case (Some k)
    let ?o = "off + k" let ?rr = "drop ?o ns"
    let ?after = "u16 (?o + 10 + (unat (?rr ! 8) * 256 + unat (?rr ! 9)))"
    have k: "?o \<noteq> 0" using wireNameLength_pos [OF Some] by simp
    have sk': "gmosTcpipDnsClientResponseSkipDnsName p m off = Some ?o" using sk Some by simp
    show ?thesis
    proof (cases "length ?rr < 10")
      case True
      then have "gmosBufferRead p m ?o 10 = Some None" using rd [of ?o 10] by auto
      then show ?thesis using sk' k Some True by (simp add: Let_def)
    next
      case len: False
      then have len': "?o + 10 \<le> length ns" by simp
      define h where "h = take 10 ?rr"
      have h: "gmosBufferRead p m ?o 10 = Some (Some h)" using rd [of ?o 10] len' by (simp add: h_def)
      have hn: "h ! 8 = ?rr ! 8" "h ! 9 = ?rr ! 9" by (simp_all add: h_def)
      have "length (take 4 ?rr) = 4" using len by simp
      from take4 [OF this, of 0 1 0 1] have h4: "take 4 ?rr = [0, 1, 0, 1] \<longleftrightarrow> h ! 0 = 0 \<and> h ! 1 = 1 \<and> h ! 2 = 0 \<and> h ! 3 = 1"
        by (simp add: h_def)
      have o: "u16 (?o + 10) = ?o + 10" using len' n by simp
      have af: "u16 (u16 (?o + 10) + (unat (h ! 8) * 256 + unat (h ! 9))) = ?after" unfolding o hn ..
      have ab: "?after < 65536" by simp
      show ?thesis
      proof (cases "take 4 ?rr = [0, 1, 0, 1]")
        case False
        then have rec: "aRecords (Suc an) ns off = aRecords an ns ?after" using Some len by (simp add: Let_def)
        have "scanRecordsLoop ops p m (Suc an) off cnt e ost x = scanRecordsLoop ops p m an ?after cnt e ost x"
          using sk' k h False [unfolded h4] af by (auto simp: Let_def)
        then show ?thesis unfolding rec using Suc.IH [OF ab, of cnt e ost x] by simp
      next
        case isA: True
        show ?thesis
        proof (cases "length ?rr < 14")
          case True
          then have "gmosBufferRead p m (?o + 10) 4 = Some None" using rd [of "?o + 10" 4] by auto
          then show ?thesis using sk' k h isA [unfolded h4] isA o Some len True by (simp add: Let_def)
        next
          case False
          let ?a = "take 4 (drop 10 ?rr)"
          have ad: "drop 10 ?rr = drop (?o + 10) ns" unfolding drop_drop by (simp add: ac_simps)
          have a: "gmosBufferRead p m (?o + 10) 4 = Some (Some ?a)"
            unfolding ad using rd [of "?o + 10" 4] False by simp
          have rec: "aRecords (Suc an) ns off = ?a # aRecords an ns ?after"
            using Some len isA False by (simp add: Let_def)
          let ?cnt = "u16 (cnt + 1)"
          obtain bs x1 where rnd: "getRandomBytes ops 4 x = (bs, x1)" by fastforce
          let ?take = "u32 (?cnt * and (leNat bs) 0xFFFF) < 0x10000"
          let ?e = "if ?take then e\<lparr>resolvedAddr := ?a\<rparr> else e" and ?st = "if ?take then DNS_VALID else ost"
          have step: "scanRecordsLoop ops p m (Suc an) off cnt e ost x = scanRecordsLoop ops p m an ?after ?cnt ?e ?st x1"
            using sk' k h isA [unfolded h4] o a rnd af by (auto simp: Let_def)
          obtain e' nst x' where ih: "scanRecordsLoop ops p m an ?after ?cnt ?e ?st x1 = Some (e', nst, x')"
            "if aRecords an ns ?after = [] then e' = ?e \<and> nst = ?st
             else (\<exists>a\<in>set (aRecords an ns ?after). e' = ?e\<lparr>resolvedAddr := a\<rparr> \<and> nst = DNS_VALID) \<or>
               ?cnt \<noteq> 0 \<and> e' = ?e \<and> nst = ?st" using Suc.IH [OF ab, of ?cnt ?e ?st x1] by (elim exE conjE) (rule that)
          have first: "?take" if "cnt = 0" using first_chosen that by simp
          have "(\<exists>a\<in>set (aRecords (Suc an) ns off). e' = e\<lparr>resolvedAddr := a\<rparr> \<and> nst = DNS_VALID) \<or>
              cnt \<noteq> 0 \<and> e' = e \<and> nst = ost"
          proof (cases "\<exists>a\<in>set (aRecords an ns ?after). e' = ?e\<lparr>resolvedAddr := a\<rparr> \<and> nst = DNS_VALID")
            case True
            then show ?thesis unfolding rec by (cases "?take") auto
          next
            case False
            then have "e' = ?e \<and> nst = ?st" using ih(2) by (auto split: if_splits)
            then show ?thesis unfolding rec using first by (cases "?take") auto
          qed
          moreover have "aRecords (Suc an) ns off \<noteq> []" unfolding rec by simp
          ultimately show ?thesis unfolding step using ih(1)
            by (intro exI [of _ e'] exI [of _ nst] exI [of _ x']) (simp del: aRecords.simps scanRecordsLoop.simps)
        qed
      qed
    qed
  qed
qed simp

text \<open>The entry a message belongs to, and what the message may do with an entry.\<close>

definition dnsMatch :: "byte list \<Rightarrow> dnsView list \<Rightarrow> nat option" where
  "dnsMatch ns v =
     (if length ns < 2 then None
      else find (\<lambda>i. case v ! i of None \<Rightarrow> False | Some (e, _) \<Rightarrow> transactionId e = leNat (take 2 ns)) [0..<2])"

definition dnsRespond :: "byte list \<Rightarrow> dnsCacheEntry \<Rightarrow> byte list \<Rightarrow> dnsCacheEntry \<Rightarrow> bool" where
  "dnsRespond ns e s e' \<longleftrightarrow>
     (case respHeader ns s (dnsEntryState e) of (an, nst, rs) \<Rightarrow>
        if aRecords an rs 0 = [] then e' = e\<lparr>dnsEntryState := nst\<rparr>
        else if dnsEntryState e = DNS_VALID then e' = e
        else \<exists>a\<in>set (aRecords an rs 0). e' = e\<lparr>resolvedAddr := a, dnsEntryState := DNS_VALID\<rparr>)"

lemma respHeader_state: "respHeader ns s st = (an, nst, rs) \<Longrightarrow> nst = st \<or> nst = DNS_NOT_VALID \<and> an = 0"
  by (auto simp: respHeader_def Let_def split: if_splits)

lemma respHeader_rest: "respHeader ns s st = (an, nst, rs) \<Longrightarrow> length rs \<le> length ns"
  by (auto simp: respHeader_def Let_def split: if_splits)

lemma aRecords_length: "a \<in> set (aRecords n ns off) \<Longrightarrow> length a = 4"
  by (induction n arbitrary: off) (auto simp: Let_def split: option.splits if_splits)

lemma aRecords_0: "an = 0 \<Longrightarrow> aRecords an rs off = []"
  by simp

lemma readEntry_beside:
  assumes "bufs p ((m, ns) # zip (dnsCache cl) (map viewBytes v)) R" "i < 2"
    and "length (dnsCache cl) = 2" "length v = 2" "viewOk (v ! i)"
  shows "readEntry p (dnsCache cl ! i) = Some (map_option fst (v ! i))"
proof -
  have "zip (dnsCache cl) (map viewBytes v) ! i \<in> set (zip (dnsCache cl) (map viewBytes v))"
    using assms(2-4) by (intro nth_mem) simp
  then have "(dnsCache cl ! i, viewBytes (v ! i)) \<in> set ((m, ns) # zip (dnsCache cl) (map viewBytes v))"
    using assms(2-4) by simp
  from bufs_member [OF assms(1) this] obtain R' where "buf_state p (dnsCache cl ! i) (viewBytes (v ! i)) R'" by blast
  from readEntry_ok [OF this assms(5)] show ?thesis .
qed

lemma findTransaction_ok:
  assumes "bufs p ((m, ns) # zip (dnsCache cl) (map viewBytes v)) R"
    and l: "length (dnsCache cl) = 2" "length v = 2" "\<forall>x\<in>set v. viewOk x"
  shows "findTransaction p (dnsCache cl) xid 0 = Some (map_option (\<lambda>i. (i, fst (the (v ! i))))
    (find (\<lambda>i. case v ! i of None \<Rightarrow> False | Some (e, _) \<Rightarrow> transactionId e = xid) [0..<2]))"
proof -
  have rd: "readEntry p (dnsCache cl ! i) = Some (map_option fst (v ! i))" if i: "i < 2" for i
    by (rule readEntry_beside [OF assms(1) i l(1,2)]) (use l i in simp)
  show ?thesis using rd [of 0] rd [of 1]
    by (auto simp: findTransaction.simps [of _ _ _ 0] findTransaction.simps [of _ _ _ "Suc 0"]
        findTransaction.simps [of _ _ _ "Suc (Suc 0)"] upto2 split: option.splits)
qed

text \<open>The exit: the entry is written when its state has changed, and the message is released.\<close>

lemma responseExit_None:
  assumes "bufs p ((m, ns) # zip (dnsCache cl) (map viewBytes v)) R" "cacheHolds p0 cl v R0"
  shows "\<exists>p'. responseExit p cl m None x = Some (GMOS_TASK_RUN_IMMEDIATE, p', cl, x) \<and> cacheHolds p' cl v R"
proof -
  obtain p' where p': "gmosBufferReset p m 0 = Some (True, p', gmosBufferInit)"
    "bufs p' (zip (dnsCache cl) (map viewBytes v)) R" by (rule bufs_release [OF assms(1)])
  then show ?thesis using cacheHolds_move [OF assms(2) p'(2)] by (simp add: responseExit_def)
qed

lemma responseExit_Some:
  assumes st: "bufs p ((m, ns) # zip (dnsCache cl) (map viewBytes v)) R" and v: "cacheHolds p0 cl v R0"
    and i: "i < 2" "v ! i = Some (e, s)" and e': "entryOk e'" "dnsEntryState e' = dnsEntryState e"
    and nst: "nst < DNS_EXPIRED"
  shows "\<exists>p'. responseExit p cl m (Some (i, e', nst)) x = Some (GMOS_TASK_RUN_IMMEDIATE, p', cl, x) \<and>
    cacheHolds p' cl (v[i := Some (if nst = dnsEntryState e then e else e'\<lparr>dnsEntryState := nst\<rparr>, s)]) R"
proof -
  let ?z = "zip (dnsCache cl) (map viewBytes v)" and ?b = "dnsCache cl ! i"
  let ?e = "if nst = dnsEntryState e then e else e'\<lparr>dnsEntryState := nst\<rparr>"
  have l: "length (dnsCache cl) = 2" "length v = 2" "\<forall>x\<in>set v. viewOk x" using v by (simp_all add: cacheHolds_def)
  have ok: "viewOk (Some (e, s))" using viewOk_nth [OF v i(1)] i(2) by simp
  have ok': "viewOk (Some (?e, s))" using ok e' nst by (simp add: entryOk_def)
  have "\<exists>p1. (if nst \<noteq> dnsEntryState e' then writeEntry p ?b (e'\<lparr>dnsEntryState := nst\<rparr>) else Some p) = Some p1 \<and>
      bufs p1 ((m, ns) # zip (dnsCache cl) (map viewBytes (v[i := Some (?e, s)]))) R"
  proof (cases "nst = dnsEntryState e")
    case True
    then have "v[i := Some (?e, s)] = v" using i(2) by (metis list_update_id)
    then show ?thesis using True e'(2) st by simp
  next
    case False
    have "bufs p ([(m, ns)] @ ?z) R" using st by simp
    then obtain R' where R': "bufs p ([(m, ns)] @ [(?b, map viewBytes v ! i)]) R'"
      "\<And>p' ms' b d. bufs p' (ms' @ [(b, d)]) R' \<Longrightarrow> same_on R' p p' \<Longrightarrow>
         bufs p' (ms' @ zip ((dnsCache cl)[i := b]) ((map viewBytes v)[i := d])) R"
      by (rule bufs_pick) (use i l that in auto)
    have "bufs p [(m, ns), (?b, viewBytes (Some (e, s)))] R'" using R'(1) i l by simp
    then obtain xs where x: "buf_rep p m xs ns" "set xs \<inter> R' = {}"
      "buf_state p ?b (viewBytes (Some (e, s))) (set xs \<union> R')" by (rule bufs_2D)
    have eo: "entryOk e" "entryOk (e'\<lparr>dnsEntryState := nst\<rparr>)" using ok e'(1) nst by (simp_all add: entryOk_def)
    obtain p1 where p1: "writeEntry p ?b (e'\<lparr>dnsEntryState := nst\<rparr>) = Some p1"
      "buf_state p1 ?b (viewBytes (Some (e'\<lparr>dnsEntryState := nst\<rparr>, s))) (set xs \<union> R')" "same_on (set xs \<union> R') p p1"
      by (rule writeEntry_ok [OF x(3) eo])
    have "bufs p1 ([(m, ns)] @ [(?b, viewBytes (Some (e'\<lparr>dnsEntryState := nst\<rparr>, s)))]) R'"
      using bufs_2I [OF x(1,2) p1(2,3)] by simp
    from R'(2) [OF this same_on_mono [OF p1(3)]] show ?thesis
      using p1(1) False e'(2) by (simp add: map_update)
  qed
  then obtain p1 where p1: "(if nst \<noteq> dnsEntryState e' then writeEntry p ?b (e'\<lparr>dnsEntryState := nst\<rparr>) else Some p) = Some p1"
    "bufs p1 ((m, ns) # zip (dnsCache cl) (map viewBytes (v[i := Some (?e, s)]))) R" by blast
  obtain p2 where p2: "gmosBufferReset p1 m 0 = Some (True, p2, gmosBufferInit)"
    "bufs p2 (zip (dnsCache cl) (map viewBytes (v[i := Some (?e, s)]))) R" by (rule bufs_release [OF p1(2)])
  have "cacheHolds p2 cl (v[i := Some (?e, s)]) R"
    using p2(2) l ok' set_update_subset_insert [of v i "Some (?e, s)"] by (auto simp: cacheHolds_def)
  then show ?thesis using p1(1) p2(1) by (simp add: responseExit_def)
qed

lemma respond_state:
  assumes "dnsRespond ns e s e'" "entryOk e"
  shows "entryOk e'" "retryCount e' = retryCount e" "dnsEntryState e' = dnsEntryState e \<or>
    dnsEntryState e' = DNS_VALID \<or> dnsEntryState e' = DNS_NOT_VALID"
proof -
  obtain an nst rs where r: "respHeader ns s (dnsEntryState e) = (an, nst, rs)" by (rule prod_cases3)
  note d = assms(1) [unfolded dnsRespond_def r prod.case]
  have n: "nst = dnsEntryState e \<or> nst = DNS_NOT_VALID" using respHeader_state [OF r] by blast
  have "\<exists>a. e' = e\<lparr>dnsEntryState := nst\<rparr> \<or> e' = e \<or>
      (length a = 4 \<and> e' = e\<lparr>resolvedAddr := a, dnsEntryState := DNS_VALID\<rparr>)"
    using d aRecords_length [of _ an rs 0] by (auto split: if_splits)
  then show "entryOk e'" "retryCount e' = retryCount e" "dnsEntryState e' = dnsEntryState e \<or>
    dnsEntryState e' = DNS_VALID \<or> dnsEntryState e' = DNS_NOT_VALID"
    using n assms(2) by (auto simp: entryOk_def)
qed

lemma ResponseProcess_hit:
  assumes v: "cacheHolds p cl v R" and so: "udpSocketIpv4 cl = Some so"
    and rcv: "udpReceiveFrom ops so p gmosBufferInit x = (GMOS_NETWORK_STATUS_SUCCESS, p1, m, x1)"
    and st: "bufs p1 ((m, ns) # zip (dnsCache cl) (map viewBytes v)) R1" and n: "length ns \<le> 65280"
    and d: "dnsMatch ns v = Some i"
  shows "\<exists>p' x' e s e'. gmosTcpipDnsClientResponseProcess ops p cl x = Some (GMOS_TASK_RUN_IMMEDIATE, p', cl, x') \<and>
    i < 2 \<and> v ! i = Some (e, s) \<and> dnsRespond ns e s e' \<and> cacheHolds p' cl (v[i := Some (e', s)]) R1"
proof -
  let ?z = "zip (dnsCache cl) (map viewBytes v)" and ?b = "dnsCache cl ! i"
  have l: "length (dnsCache cl) = 2" "length v = 2" "\<forall>x\<in>set v. viewOk x" using v by (simp_all add: cacheHolds_def)
  have len: "2 \<le> length ns" and fd: "find (\<lambda>i. case v ! i of None \<Rightarrow> False | Some (e, _) \<Rightarrow>
      transactionId e = leNat (take 2 ns)) [0..<2] = Some i" using d by (auto simp: dnsMatch_def split: if_splits)
  obtain e s where i: "i < 2" "v ! i = Some (e, s)"
    using fd by (auto simp: find_Some_iff split: option.splits)
  have e: "entryOk e" "viewOk (Some (e, s))" using viewOk_nth [OF v i(1)] i(2) by simp_all
  obtain S where S: "buf_state p1 m ns S" using bufs_member [OF st, of m ns] by auto
  have rd: "gmosBufferRead p1 m 0 2 = Some (Some (take 2 ns))" using gmosBufferRead_ok [OF S, of 0 2] len by simp
  have ft: "findTransaction p1 (dnsCache cl) (leNat (take 2 ns)) 0 = Some (Some (i, e))"
    using findTransaction_ok [OF st l, of "leNat (take 2 ns)"] fd i(2) by simp
  have "bufs p1 ([(m, ns)] @ ?z) R1" using st by simp
  then obtain R' where R': "bufs p1 ([(m, ns)] @ [(?b, map viewBytes v ! i)]) R'"
    "\<And>p' ms' b d. bufs p' (ms' @ [(b, d)]) R' \<Longrightarrow> same_on R' p1 p' \<Longrightarrow>
       bufs p' (ms' @ zip ((dnsCache cl)[i := b]) ((map viewBytes v)[i := d])) R1"
    by (rule bufs_pick) (use i l that in auto)
  have pair: "bufs p1 [(m, ns), (?b, viewBytes (Some (e, s)))] R'" using R'(1) i l by simp
  obtain an nst rs where rh: "respHeader ns s (dnsEntryState e) = (an, nst, rs)" by (rule prod_cases3)
  from CheckHeader_ok [OF pair e(2) n rh] obtain p2 m2 rs' where
    ch: "gmosTcpipDnsClientResponseCheckHeader p1 m ?b (dnsEntryState e) = Some (an, nst, p2, m2)"
      "bufs p2 [(m2, rs'), (?b, viewBytes (Some (e, s)))] R'" "same_on R' p1 p2" "an \<noteq> 0 \<longrightarrow> rs' = rs"
    by (elim exE conjE) (rule that)
  have "bufs p2 ([(m2, rs')] @ [(?b, map viewBytes v ! i)]) R'" using ch(2) i l by simp
  from R'(2) [OF this ch(3)] have z2: "bufs p2 ((m2, rs') # ?z) R1" by simp
  have nst: "nst < DNS_EXPIRED" using respHeader_state [OF rh] e(1) by (auto simp: entryOk_def)
  let ?P = "gmosTcpipDnsClientResponseProcess ops p cl x"
  show ?thesis
  proof (cases "an = 0")
    case True
    let ?e = "if nst = dnsEntryState e then e else e\<lparr>dnsEntryState := nst\<rparr>"
    from responseExit_Some [OF z2 v i e(1) refl nst, of x1] obtain p3 where
      ex: "responseExit p2 cl m2 (Some (i, e, nst)) x1 = Some (GMOS_TASK_RUN_IMMEDIATE, p3, cl, x1)"
        "cacheHolds p3 cl (v[i := Some (?e, s)]) R1" by blast
    have "?P = Some (GMOS_TASK_RUN_IMMEDIATE, p3, cl, x1)"
      using so rcv rd ft ch(1) True ex(1) by (simp add: gmosTcpipDnsClientResponseProcess_def)
    moreover have "dnsRespond ns e s ?e" using True by (simp add: dnsRespond_def rh setState_same)
    ultimately show ?thesis using i ex(2) by blast
  next
    case False
    then have rs': "rs' = rs" using ch(4) by simp
    obtain S2 where S2: "buf_state p2 m2 rs S2" using bufs_member [OF z2, of m2 rs'] rs' by auto
    have nr: "length rs \<le> 65280" using respHeader_rest [OF rh] n by simp
    have ns: "nst = dnsEntryState e" using respHeader_state [OF rh] False by auto
    obtain e' nst' x2 where sc: "scanRecordsLoop ops p2 m2 an 0 0 e nst x1 = Some (e', nst', x2)"
      "if aRecords an rs 0 = [] then e' = e \<and> nst' = nst
       else (\<exists>a\<in>set (aRecords an rs 0). e' = e\<lparr>resolvedAddr := a\<rparr> \<and> nst' = DNS_VALID) \<or>
         (0 :: nat) \<noteq> 0 \<and> e' = e \<and> nst' = nst"
      using scanRecords_ok [OF S2 nr zero_less_numeral, of ops an 0 e nst x1] by (elim exE conjE) (rule that)
    have e': "entryOk e'" "dnsEntryState e' = dnsEntryState e" "nst' < DNS_EXPIRED"
      using sc(2) aRecords_length [of _ an rs 0] e(1) nst by (auto simp: entryOk_def split: if_splits)
    let ?e = "if nst' = dnsEntryState e then e else e'\<lparr>dnsEntryState := nst'\<rparr>"
    from responseExit_Some [OF z2 v i e', of x2] obtain p3 where
      ex: "responseExit p2 cl m2 (Some (i, e', nst')) x2 = Some (GMOS_TASK_RUN_IMMEDIATE, p3, cl, x2)"
        "cacheHolds p3 cl (v[i := Some (?e, s)]) R1" by blast
    have "?P = Some (GMOS_TASK_RUN_IMMEDIATE, p3, cl, x2)"
      using so rcv rd ft ch(1) False sc(1) ex(1)
      by (simp add: gmosTcpipDnsClientResponseProcess_def gmosTcpipDnsClientResponseScanRecords_def)
    moreover have "dnsRespond ns e s ?e"
    proof (cases "aRecords an rs 0 = []")
      case True
      then show ?thesis using sc(2) ns by (simp add: dnsRespond_def rh setState_same)
    next
      case False
      then obtain a where "a \<in> set (aRecords an rs 0)" "e' = e\<lparr>resolvedAddr := a\<rparr>" "nst' = DNS_VALID"
        using sc(2) by auto
      then show ?thesis using False by (auto simp: dnsRespond_def rh)
    qed
    ultimately show ?thesis using i ex(2) by blast
  qed
qed

lemma ResponseProcess_miss:
  assumes v: "cacheHolds p cl v R" and so: "udpSocketIpv4 cl = Some so"
    and rcv: "udpReceiveFrom ops so p gmosBufferInit x = (GMOS_NETWORK_STATUS_SUCCESS, p1, m, x1)"
    and st: "bufs p1 ((m, ns) # zip (dnsCache cl) (map viewBytes v)) R1" and d: "dnsMatch ns v = None"
  shows "\<exists>p'. gmosTcpipDnsClientResponseProcess ops p cl x = Some (GMOS_TASK_RUN_IMMEDIATE, p', cl, x1) \<and>
    cacheHolds p' cl v R1"
proof -
  have l: "length (dnsCache cl) = 2" "length v = 2" "\<forall>x\<in>set v. viewOk x" using v by (simp_all add: cacheHolds_def)
  obtain S where S: "buf_state p1 m ns S" using bufs_member [OF st, of m ns] by auto
  obtain p' where p': "responseExit p1 cl m None x1 = Some (GMOS_TASK_RUN_IMMEDIATE, p', cl, x1)" "cacheHolds p' cl v R1"
    using responseExit_None [OF st v, of x1] by (elim exE conjE) (rule that)
  have "gmosTcpipDnsClientResponseProcess ops p cl x = responseExit p1 cl m None x1"
  proof (cases "length ns < 2")
    case True
    then show ?thesis using so rcv gmosBufferRead_ok [OF S, of 0 2] by (simp add: gmosTcpipDnsClientResponseProcess_def)
  next
    case False
    then have "findTransaction p1 (dnsCache cl) (leNat (take 2 ns)) 0 = Some None"
      using findTransaction_ok [OF st l, of "leNat (take 2 ns)"] d by (simp add: dnsMatch_def)
    then show ?thesis using so rcv gmosBufferRead_ok [OF S, of 0 2] False
      by (simp add: gmosTcpipDnsClientResponseProcess_def)
  qed
  then show ?thesis using p' by simp
qed

subsection \<open>Well-formed responses\<close>

text \<open>
  A response of RFC 1035, section 4.1: the header with its flags, the question, the resource
  records of the answer, and the other sections behind them, which the client ignores. A name in a
  record is a list of labels that ends with an empty one or with a pointer, and the data of an
  address record has four octets.
\<close>

inductive wireName :: "byte list \<Rightarrow> bool" where
  root: "wireName [0]"
| pointer: "192 \<le> unat c \<Longrightarrow> wireName [c, d]"
| label: "l \<noteq> [] \<Longrightarrow> length l \<le> 63 \<Longrightarrow> wireName ns \<Longrightarrow> wireName (labelBytes l @ ns)"

record dnsRecord =
  rrName :: "byte list"
  rrType :: nat
  rrClass :: nat
  rrTtl :: "byte list"
  rrData :: "byte list"

definition be16 :: "nat \<Rightarrow> byte list" where
  "be16 n = [of_nat (n div 256), of_nat (n mod 256)]"

definition rrBytes :: "dnsRecord \<Rightarrow> byte list" where
  "rrBytes r = rrName r @ be16 (rrType r) @ be16 (rrClass r) @ rrTtl r @ be16 (length (rrData r)) @ rrData r"

definition isAddress :: "dnsRecord \<Rightarrow> bool" where
  "isAddress r \<longleftrightarrow> rrType r = 1 \<and> rrClass r = 1"

definition rrOk :: "dnsRecord \<Rightarrow> bool" where
  "rrOk r \<longleftrightarrow> wireName (rrName r) \<and> rrType r < 65536 \<and> rrClass r < 65536 \<and> length (rrTtl r) = 4 \<and>
     length (rrData r) < 65536 \<and> (isAddress r \<longrightarrow> length (rrData r) = 4)"

definition dnsReply :: "byte list \<Rightarrow> byte list \<Rightarrow> dnsRecord list \<Rightarrow> bool" where
  "dnsReply ns s rrs \<longleftrightarrow> (\<exists>xid f g counts rest.
     ns = xid @ [f, g] @ be16 1 @ be16 (length rrs) @ counts @ dnsEncode (splitName s) @ be16 1 @ be16 1 @
       concat (map rrBytes rrs) @ rest \<and>
     length xid = 2 \<and> and f 0xFB = 0x81 \<and> and g 0x80 = 0x80 \<and> and g 0x0F = 0 \<and> length counts = 4 \<and>
     length rrs < 65536 \<and> (\<forall>r\<in>set rrs. rrOk r))"

text \<open>What such a response does with an entry.\<close>

definition replyTaken :: "dnsRecord list \<Rightarrow> dnsCacheEntry \<Rightarrow> dnsCacheEntry \<Rightarrow> bool" where
  "replyTaken rrs e e' \<longleftrightarrow> (let addresses = map rrData (filter isAddress rrs) in
     if addresses = [] \<or> dnsEntryState e = DNS_VALID then e' = e
     else \<exists>a\<in>set addresses. e' = e\<lparr>resolvedAddr := a, dnsEntryState := DNS_VALID\<rparr>)"

lemma be16_value: "n < 65536 \<Longrightarrow> unat ((be16 n ! 0)) * 256 + unat (be16 n ! 1) = n" "length (be16 n) = 2"
  by (simp_all add: be16_def unsigned_of_nat take_bit_nat_eq_self)

lemma be16_inject: "m < 65536 \<Longrightarrow> n < 65536 \<Longrightarrow> be16 m = be16 n \<longleftrightarrow> m = n"
  using be16_value(1) by metis

lemma wireName_length: "wireName ns \<Longrightarrow> wireNameLength (ns @ rest) = Some (length ns)"
proof (induction rule: wireName.induct)
  case (pointer c d)
  then show ?case by (auto simp: unat_eq_0)
next
  case (label l ns)
  have u: "unat (of_nat (length l) :: byte) = length l" using label(2) by (simp add: unsigned_of_nat take_bit_nat_eq_self)
  then have "of_nat (length l) \<noteq> (0 :: byte)" using label(1) by (metis length_0_conv unsigned_0)
  then show ?case using u label by (simp add: labelBytes_def)
qed simp

lemma aRecords_reply:
  assumes "\<forall>r\<in>set rrs. rrOk r" "ns = pre @ concat (map rrBytes rrs) @ rest" "length ns \<le> 65280"
  shows "aRecords (length rrs) ns (length pre) = map rrData (filter isAddress rrs)"
  using assms
proof (induction rrs arbitrary: pre)
  case (Cons r rrs)
  have r: "wireName (rrName r)" "rrType r < 65536" "rrClass r < 65536" "length (rrTtl r) = 4"
    "length (rrData r) < 65536" "isAddress r \<Longrightarrow> length (rrData r) = 4" using Cons.prems(1) by (auto simp: rrOk_def)
  let ?tail = "concat (map rrBytes rrs) @ rest"
  define rr where "rr = be16 (rrType r) @ be16 (rrClass r) @ rrTtl r @ be16 (length (rrData r)) @ rrData r @ ?tail"
  have ns: "ns = (pre @ rrName r) @ rr" "ns = (pre @ rrBytes r) @ ?tail"
    using Cons.prems(2) by (simp_all add: rr_def rrBytes_def [of r])
  have "drop (length pre) ns = rrName r @ rr" by (simp add: ns(1))
  then have k: "wireNameLength (drop (length pre) ns) = Some (length (rrName r))" using wireName_length [OF r(1)] by simp
  have d: "drop (length pre + length (rrName r)) ns = rr" unfolding ns(1) by simp
  have l: "10 + length (rrData r) \<le> length rr" by (simp add: rr_def r(4) be16_def)
  obtain t0 t1 t2 t3 where ttl: "rrTtl r = [t0, t1, t2, t3]" using r(4) by (auto simp: length_Suc_conv numeral_eq_Suc)
  have rr: "rr = be16 (rrType r) @ be16 (rrClass r) @ [t0, t1, t2, t3] @ be16 (length (rrData r)) @ rrData r @ ?tail"
    unfolding rr_def ttl ..
  have f: "take 4 rr = be16 (rrType r) @ be16 (rrClass r)" "drop 10 rr = rrData r @ ?tail"
    unfolding rr by (simp_all add: be16_def)
  have "rr ! 8 = be16 (length (rrData r)) ! 0" "rr ! 9 = be16 (length (rrData r)) ! 1"
    unfolding rr by (simp_all add: be16_def)
  then have f3: "unat (rr ! 8) * 256 + unat (rr ! 9) = length (rrData r)" using be16_value(1) [OF r(5)] by (simp only:)
  have after: "u16 (length pre + length (rrName r) + 10 + (unat (rr ! 8) * 256 + unat (rr ! 9))) = length (pre @ rrBytes r)"
    unfolding f3 using Cons.prems(3) r(4) by (simp add: ns(1) rr_def rrBytes_def be16_def)
  have a: "take 4 rr = [0, 1, 0, 1] \<longleftrightarrow> isAddress r"
  proof -
    have "[0, 1, 0, 1 :: byte] = be16 1 @ be16 1" by (simp add: be16_def)
    then have "take 4 rr = [0, 1, 0, 1] \<longleftrightarrow> be16 (rrType r) = be16 1 \<and> be16 (rrClass r) = be16 1"
      unfolding f(1) by (simp add: be16_def)
    then show ?thesis using be16_inject [of _ 1] r(2,3) by (simp add: isAddress_def)
  qed
  have ih: "aRecords (length rrs) ns (length (pre @ rrBytes r)) = map rrData (filter isAddress rrs)"
    using Cons.prems ns(2) by (intro Cons.IH) auto
  have step: "aRecords (length (r # rrs)) ns (length pre) =
      (if take 4 rr \<noteq> [0, 1, 0, 1] then aRecords (length rrs) ns (length (pre @ rrBytes r))
       else if length rr < 14 then [] else take 4 (drop 10 rr) # aRecords (length rrs) ns (length (pre @ rrBytes r)))"
    using k l unfolding length_Cons aRecords.simps k option.case d Let_def after by auto
  show ?case unfolding step a f(2) ih using l r(6) by auto
qed simp

lemma respHeader_reply:
  assumes "dnsReply ns s rrs" "validName s"
  obtains rest an where "respHeader ns s st = (an, st, concat (map rrBytes rrs) @ rest)" "an = length rrs"
    "\<forall>r\<in>set rrs. rrOk r" "length (concat (map rrBytes rrs) @ rest) \<le> length ns"
  | rest n where "respHeader ns s st = (0, st, n)" "rrs = []"
proof -
  obtain xid f g counts rest where n: "ns = xid @ [f, g] @ be16 1 @ be16 (length rrs) @ counts @ dnsEncode (splitName s) @
      be16 1 @ be16 1 @ concat (map rrBytes rrs) @ rest"
    "length xid = 2" "and f 0xFB = 0x81" "and g 0x80 = 0x80" "and g 0x0F = 0" "length counts = 4"
    "length rrs < 65536" "\<forall>r\<in>set rrs. rrOk r" using assms(1) unfolding dnsReply_def by blast
  let ?body = "concat (map rrBytes rrs) @ rest"
  obtain x0 x1 c0 c1 c2 c3 where x: "xid = [x0, x1]" "counts = [c0, c1, c2, c3]"
    using n(2,6) by (auto simp: length_Suc_conv numeral_eq_Suc)
  have h: "ns = [x0, x1, f, g, 0, 1, be16 (length rrs) ! 0, be16 (length rrs) ! 1, c0, c1, c2, c3] @
      dnsEncode (splitName s) @ [0, 1, 0, 1] @ ?body" unfolding n(1) x by (simp add: be16_def)
  let ?h = "[x0, x1, f, g, 0, 1, be16 (length rrs) ! 0, be16 (length rrs) ! 1, c0, c1, c2, c3]"
  have hn: "ns ! 2 = f" "ns ! 3 = g" "ns ! 4 = 0" "ns ! 5 = 1" "ns ! 6 = be16 (length rrs) ! 0" "ns ! 7 = be16 (length rrs) ! 1"
    unfolding h by simp_all
  have d12: "drop 12 ns = dnsEncode (splitName s) @ [0, 1, 0, 1] @ ?body" unfolding h by simp
  have d14: "drop (length s + 14) ns = [0, 1, 0, 1] @ ?body"
  proof -
    have "drop (length s + 14) ns = drop (length s + 2) (drop 12 ns)" unfolding drop_drop by (simp add: ac_simps)
    then show ?thesis by (simp add: d12 length_dnsEncode)
  qed
  have d18: "drop (length s + 18) ns = ?body"
  proof -
    have "drop (length s + 18) ns = drop 4 (drop (length s + 14) ns)" unfolding drop_drop by (simp add: ac_simps)
    then show ?thesis by (simp add: d14)
  qed
  have len: "length ns = length s + 18 + length ?body" unfolding h by (simp add: length_dnsEncode)
  have t: "take (length s + 2) (drop 12 ns) = dnsEncode (splitName s)" by (simp add: d12 length_dnsEncode)
  have e: "respHeader ns s st = (if length ns \<le> length s + 18 then (0, st, ns) else (length rrs, st, ?body))"
    using be16_value(1) [OF n(7)] n(3-5) assms(2) len unfolding respHeader_def Let_def hn t d14 d18 by simp
  show thesis
  proof (cases "length ns \<le> length s + 18")
    case True
    then have "concat (map rrBytes rrs) = []" using len by simp
    then have "rrs = []" by (cases rrs) (auto simp: rrBytes_def be16_def)
    then show thesis using that(2) e True by simp
  next
    case False
    with e have "respHeader ns s st = (length rrs, st, ?body)" by (simp only: if_False)
    then show thesis by (rule that(1)) (use n(8) len in simp_all)
  qed
qed

lemma respond_reply:
  assumes "dnsReply ns s rrs" "validName s" "length ns \<le> 65280" "dnsRespond ns e s e'"
  shows "replyTaken rrs e e'"
proof (rule respHeader_reply [OF assms(1,2), of "dnsEntryState e"])
  fix rest an
  assume r: "respHeader ns s (dnsEntryState e) = (an, dnsEntryState e, concat (map rrBytes rrs) @ rest)" "an = length rrs"
    "\<forall>r\<in>set rrs. rrOk r" "length (concat (map rrBytes rrs) @ rest) \<le> length ns"
  have "aRecords (length rrs) (concat (map rrBytes rrs) @ rest) (length ([] :: byte list)) = map rrData (filter isAddress rrs)"
    by (rule aRecords_reply [OF r(3)]) (use r(4) assms(3) in simp_all)
  then show ?thesis using assms(4) setState_same [of e "dnsEntryState e"]
    by (cases "filter isAddress rrs = []") (auto simp: dnsRespond_def r(1,2) replyTaken_def Let_def)
next
  fix n
  assume "respHeader ns s (dnsEntryState e) = (0, dnsEntryState e, n)" "rrs = []"
  then show ?thesis using assms(4) setState_same [of e "dnsEntryState e"] by (simp add: dnsRespond_def replyTaken_def)
qed

subsection \<open>The number of queries\<close>

text \<open>
  The life of an entry, with the number of queries sent for it: it is created, takes steps of the
  state machine, receives responses, and is touched by later queries for the same name.
\<close>

inductive dnsRun :: "nat \<Rightarrow> dnsCacheEntry \<Rightarrow> bool" where
  created: "freshEntry cl now e \<Longrightarrow> dnsRun 0 e"
| stepped: "dnsRun n e \<Longrightarrow> dnsStep cl now e sent (Some e') \<Longrightarrow> dnsRun (if sent then n + 1 else n) e'"
| responded: "dnsRun n e \<Longrightarrow> dnsRespond ns e s e' \<Longrightarrow> dnsRun n e'"
| renewed: "dnsRun n e \<Longrightarrow> dnsRun n (touched now e)"

definition queriesOf :: "nat \<Rightarrow> dnsCacheEntry \<Rightarrow> bool" where
  "queriesOf n e \<longleftrightarrow>
     (if dnsEntryState e = DNS_OPEN \<or> dnsEntryState e = DNS_REQUEST then n = retryCount e \<and> n \<le> 3
      else if dnsEntryState e = DNS_WAIT then n = retryCount e + 1 \<and> n \<le> 4 else n \<le> 4)"

lemma queries_step: "dnsStep cl now e sent r \<Longrightarrow> r = Some e' \<Longrightarrow> queriesOf n e \<Longrightarrow>
    queriesOf (if sent then n + 1 else n) e'"
  by (induction rule: dnsStep.induct)
    (auto simp: queriesOf_def GMOS_CONFIG_TCPIP_DNS_RETRY_COUNT_def u8_def)

lemma queries_respond:
  assumes "dnsRespond ns e s e'" "queriesOf n e"
  shows "queriesOf n e'"
proof -
  obtain an nst rs where r: "respHeader ns s (dnsEntryState e) = (an, nst, rs)" by (rule prod_cases3)
  note d = assms(1) [unfolded dnsRespond_def r prod.case]
  have n: "nst = dnsEntryState e \<or> nst = DNS_NOT_VALID" using respHeader_state [OF r] by blast
  have "n \<le> 4" using assms(2) by (auto simp: queriesOf_def split: if_splits)
  moreover have "e' = e \<or> dnsEntryState e' = DNS_VALID \<or> dnsEntryState e' = DNS_NOT_VALID"
    using d n setState_same [of e "dnsEntryState e"] by (auto split: if_splits)
  ultimately show ?thesis using assms(2) by (auto simp: queriesOf_def)
qed

lemma queries_run: "dnsRun n e \<Longrightarrow> queriesOf n e"
proof (induction rule: dnsRun.induct)
  case (created cl now e)
  then show ?case by (simp add: freshEntry_def queriesOf_def)
next
  case (stepped n e cl now sent e')
  then show ?case using queries_step by blast
next
  case (responded n e ns s e')
  then show ?case using queries_respond by blast
next
  case (renewed n e now)
  then show ?case by (auto simp: queriesOf_def touched_def split: if_splits)
qed

subsection \<open>The worker task\<close>

text \<open>Entries under way keep the socket open.\<close>

definition dnsInv :: "mempool \<Rightarrow> dnsClient \<Rightarrow> dnsView list \<Rightarrow> nat set \<Rightarrow> bool" where
  "dnsInv p cl v R \<longleftrightarrow> cacheHolds p cl v R \<and> ((\<exists>x\<in>set v. dnsBusy x) \<longrightarrow> udpSocketIpv4 cl \<noteq> None)"

text \<open>What a step may do with an entry, and a response with the cache.\<close>

definition entryMoves :: "dnsClient \<Rightarrow> 32 word \<Rightarrow> dnsView \<Rightarrow> dnsView \<Rightarrow> bool" where
  "entryMoves cl now x r \<longleftrightarrow> (case x of None \<Rightarrow> r = None
     | Some (e, s) \<Rightarrow> \<exists>sent r'. dnsStep cl now e sent r' \<and> r = map_option (\<lambda>e'. (e', s)) r')"

definition responseMoves :: "dnsView list \<Rightarrow> dnsView list \<Rightarrow> bool" where
  "responseMoves v v' \<longleftrightarrow> v' = v \<or>
     (\<exists>ns i e s e'. dnsMatch ns v = Some i \<and> v ! i = Some (e, s) \<and> dnsRespond ns e s e' \<and> v' = v[i := Some (e', s)])"

lemma serverWalk_frame: "serverWalk (cl\<lparr>udpSocketIpv4 := so, dnsCache := c\<rparr>) s n = serverWalk cl s n"
proof (induction n arbitrary: s)
  case (Suc n)
  then show ?case by (cases "nextServer cl s"; cases "dnsServerList cl") simp_all
qed simp

lemma dnsStep_frame: "dnsStep (cl\<lparr>udpSocketIpv4 := so, dnsCache := c\<rparr>) now e sent r = dnsStep cl now e sent r"
proof -
  have "gmosTcpipDnsServerSelect (cl\<lparr>udpSocketIpv4 := so, dnsCache := c\<rparr>) e = gmosTcpipDnsServerSelect cl e" for e
    by (simp add: gmosTcpipDnsServerSelect_def serverWalk_frame split: option.split)
  then show ?thesis by (simp add: dnsStep.simps)
qed

lemma CacheProcess_any:
  assumes st: "cacheHolds p cl v R" and i: "i < 2" and so: "dnsBusy (v ! i) \<longrightarrow> udpSocketIpv4 cl \<noteq> None"
    and ops: "udpSendOk ops"
  shows "\<exists>status keep' p' cl' sc' x' R' r.
    gmosTcpipDnsClientCacheProcess ops tm p cl i keep sc x = Some (status, keep', p', cl', sc', x') \<and>
    entryMoves cl (ticksNow tm sc) (v ! i) r \<and> cacheHolds p' cl' (v[i := r]) R' \<and>
    (status = GMOS_TASK_SUSPEND \<longleftrightarrow> r = None) \<and> (dnsBusy r \<longrightarrow> keep' \<and> udpSocketIpv4 cl' \<noteq> None) \<and>
    (keep \<longrightarrow> keep') \<and>
    (\<exists>so c. cl' = cl\<lparr>udpSocketIpv4 := so, dnsCache := c\<rparr> \<and> (udpSocketIpv4 cl \<noteq> None \<longrightarrow> so \<noteq> None))"
proof (cases "v ! i")
  case None
  have "v[i := None] = v" using None by (metis list_update_id)
  moreover have "\<exists>so c. cl = cl\<lparr>udpSocketIpv4 := so, dnsCache := c\<rparr> \<and> (udpSocketIpv4 cl \<noteq> None \<longrightarrow> so \<noteq> None)"
    by (intro exI [of _ "udpSocketIpv4 cl"] exI [of _ "dnsCache cl"]) simp
  ultimately show ?thesis using CacheProcess_None [OF st i None, of ops tm keep sc x] st None
    by (intro exI [of _ "GMOS_TASK_SUSPEND"] exI [of _ keep] exI [of _ p] exI [of _ cl] exI [of _ sc] exI [of _ x]
          exI [of _ R] exI [of _ "None :: dnsView"] conjI) (simp_all add: entryMoves_def dnsBusy_def)
next
  case (Some y)
  obtain e s where y: "v ! i = Some (e, s)" using Some by (cases y) simp
  from CacheProcess_Some [OF st i y so ops, of tm keep sc x] obtain status keep' p' cl' sc' x' R' sent r where
    r: "gmosTcpipDnsClientCacheProcess ops tm p cl i keep sc x = Some (status, keep', p', cl', sc', x')"
      "dnsStep cl (ticksNow tm sc) e sent r" "cacheHolds p' cl' (v[i := map_option (\<lambda>e'. (e', s)) r]) R'"
      "status = GMOS_TASK_SUSPEND \<longleftrightarrow> r = None"
      "dnsBusy (map_option (\<lambda>e'. (e', s)) r) \<longrightarrow> keep' \<and> udpSocketIpv4 cl' \<noteq> None" "keep \<longrightarrow> keep'"
      "\<exists>so c. cl' = cl\<lparr>udpSocketIpv4 := so, dnsCache := c\<rparr> \<and> (udpSocketIpv4 cl \<noteq> None \<longrightarrow> so \<noteq> None)" by blast
  have "entryMoves cl (ticksNow tm sc) (v ! i) (map_option (\<lambda>e'. (e', s)) r)"
    using r(2) by (auto simp: entryMoves_def y)
  then show ?thesis using r
    by (intro exI [of _ status] exI [of _ keep'] exI [of _ p'] exI [of _ cl'] exI [of _ sc'] exI [of _ x']
          exI [of _ R'] exI [of _ "map_option (\<lambda>e'. (e', s)) r"] conjI) simp_all
qed

lemma resetCache_ok:
  assumes "cacheHolds p cl v R"
  shows "\<exists>p' c. resetCacheLoop p cl 0 = Some (p', cl\<lparr>dnsCache := c\<rparr>) \<and> cacheHolds p' (cl\<lparr>dnsCache := c\<rparr>) [None, None] R"
proof -
  have one: "\<exists>p' cl'. gmosBufferReset p (dnsCache cl ! i) 0 = Some (True, p', gmosBufferInit) \<and>
      cacheHolds p' (setCache i gmosBufferInit cl) (v[i := None]) R"
    if st: "cacheHolds p cl v R" and i: "i < 2" for p cl v i
  proof -
    obtain R' where R': "buf_state p (dnsCache cl ! i) (viewBytes (v ! i)) R'"
      "\<And>p' b x. buf_state p' b (viewBytes x) R' \<Longrightarrow> same_on R' p p' \<Longrightarrow> viewOk x \<Longrightarrow>
         cacheHolds p' (setCache i b cl) (v[i := x]) R" by (rule cache_at [OF st i]) (rule that)
    obtain p' where p': "gmosBufferReset p (dnsCache cl ! i) 0 = Some (True, p', gmosBufferInit)"
      "buf_state p' gmosBufferInit [] R'" "same_on R' p p'" by (rule Reset_zero [OF R'(1)]) (rule that)
    show ?thesis using p'(1) R'(2) [OF _ p'(3), of gmosBufferInit None] p'(2) by simp
  qed
  obtain p1 where p1: "gmosBufferReset p (dnsCache cl ! 0) 0 = Some (True, p1, gmosBufferInit)"
    "cacheHolds p1 (setCache 0 gmosBufferInit cl) (v[0 := None]) R" using one [OF assms, of 0] by auto
  let ?cl = "setCache 0 gmosBufferInit cl"
  obtain p2 where p2: "gmosBufferReset p1 (dnsCache ?cl ! 1) 0 = Some (True, p2, gmosBufferInit)"
    "cacheHolds p2 (setCache 1 gmosBufferInit ?cl) ((v[0 := None])[1 := None]) R" using one [OF p1(2), of 1] by auto
  have "length v = 2" using assms by (simp add: cacheHolds_def)
  then have v: "(v[0 := None])[1 := None] = [None, None]" by (cases v; cases "tl v") auto
  have "resetCacheLoop p cl 0 = Some (p2, setCache 1 gmosBufferInit ?cl)"
    using p1(1) p2(1) by (simp add: resetCacheLoop.simps [of _ _ 0] resetCacheLoop.simps [of _ _ "Suc 0"]
        resetCacheLoop.simps [of _ _ "Suc (Suc 0)"])
  then show ?thesis using p2(2) v by (auto simp: setCache_def)
qed

lemma Prioritise_suspended:
  "gmosSchedulerPrioritise a b = GMOS_TASK_SUSPEND \<longleftrightarrow> a = GMOS_TASK_SUSPEND \<and> b = GMOS_TASK_SUSPEND"
  using Prioritise_suspend [of a] Prioritise_suspend [of b] Prioritise_not_suspend [of a b]
  by (cases "a = GMOS_TASK_SUSPEND"; cases "b = GMOS_TASK_SUSPEND") simp_all

lemma cacheProcessLoop_ok:
  assumes inv: "dnsInv p cl v R" and ops: "udpSendOk ops"
  shows "\<exists>status keep p' cl' sc' x' R' v'.
    cacheProcessLoop ops tm p cl 0 False GMOS_TASK_SUSPEND sc x = Some (status, keep, p', cl', sc', x') \<and>
    cacheHolds p' cl' v' R' \<and> (\<forall>i<2. \<exists>k. entryMoves cl (tm k) (v ! i) (v' ! i)) \<and>
    (status = GMOS_TASK_SUSPEND \<longleftrightarrow> (\<forall>x\<in>set v'. x = None)) \<and>
    ((\<exists>x\<in>set v'. dnsBusy x) \<longrightarrow> keep \<and> udpSocketIpv4 cl' \<noteq> None)"
proof -
  have st: "cacheHolds p cl v R" and so: "(\<exists>x\<in>set v. dnsBusy x) \<longrightarrow> udpSocketIpv4 cl \<noteq> None"
    using inv by (simp_all add: dnsInv_def)
  have l: "length v = 2" using st by (simp add: cacheHolds_def)
  have b: "dnsBusy (v ! i) \<longrightarrow> udpSocketIpv4 cl \<noteq> None" if i: "i < 2" for i
    using so i l nth_mem [of i v] by auto
  have "dnsBusy (v ! 0) \<longrightarrow> udpSocketIpv4 cl \<noteq> None" by (rule b) simp
  from CacheProcess_any [OF st zero_less_numeral this ops, of tm False sc x] obtain s0 k0 p0 cl0 sc0 x0 R0 r0 so0 c0 where
    a: "gmosTcpipDnsClientCacheProcess ops tm p cl 0 False sc x = Some (s0, k0, p0, cl0, sc0, x0)"
      "entryMoves cl (ticksNow tm sc) (v ! 0) r0" "cacheHolds p0 cl0 (v[0 := r0]) R0"
      "s0 = GMOS_TASK_SUSPEND \<longleftrightarrow> r0 = None" "dnsBusy r0 \<longrightarrow> k0 \<and> udpSocketIpv4 cl0 \<noteq> None"
      "cl0 = cl\<lparr>udpSocketIpv4 := so0, dnsCache := c0\<rparr>" "udpSocketIpv4 cl \<noteq> None \<longrightarrow> so0 \<noteq> None"
    by (elim exE conjE) (rule that)
  have one: "(1 :: nat) < 2" by simp
  have "dnsBusy (v[0 := r0] ! 1) \<longrightarrow> udpSocketIpv4 cl0 \<noteq> None" using b [of 1] a(6,7) by auto
  from CacheProcess_any [OF a(3) one this ops, of tm k0 sc0 x0]
  obtain s1 k1 p1 cl1 sc1 x1 R1 r1 so1 c1 where
    c: "gmosTcpipDnsClientCacheProcess ops tm p0 cl0 1 k0 sc0 x0 = Some (s1, k1, p1, cl1, sc1, x1)"
      "entryMoves cl0 (ticksNow tm sc0) (v[0 := r0] ! 1) r1" "cacheHolds p1 cl1 ((v[0 := r0])[1 := r1]) R1"
      "s1 = GMOS_TASK_SUSPEND \<longleftrightarrow> r1 = None" "dnsBusy r1 \<longrightarrow> k1 \<and> udpSocketIpv4 cl1 \<noteq> None" "k0 \<longrightarrow> k1"
      "cl1 = cl0\<lparr>udpSocketIpv4 := so1, dnsCache := c1\<rparr>" "udpSocketIpv4 cl0 \<noteq> None \<longrightarrow> so1 \<noteq> None"
    by (elim exE conjE) (rule that)
  have v': "(v[0 := r0])[1 := r1] = [r0, r1]" using l by (cases v; cases "tl v") auto
  have "cacheProcessLoop ops tm p cl 0 False GMOS_TASK_SUSPEND sc x =
      Some (gmosSchedulerPrioritise s0 s1, k1, p1, cl1, sc1, x1)"
    using a(1) c(1) by (simp add: cacheProcessLoop.simps [of _ _ _ _ 0] cacheProcessLoop.simps [of _ _ _ _ "Suc 0"]
        cacheProcessLoop.simps [of _ _ _ _ "Suc (Suc 0)"] Prioritise_suspend)
  moreover have "entryMoves cl (ticksNow tm sc0) (v ! 1) r1"
    using c(2) l unfolding a(6) entryMoves_def dnsStep_frame by simp
  then have "\<forall>i<2. \<exists>k. entryMoves cl (tm k) (v ! i) ([r0, r1] ! i)"
    using a(2) by (auto simp: less_2_cases_iff ticksNow_def)
  moreover have "(\<exists>x\<in>set [r0, r1]. dnsBusy x) \<longrightarrow> k1 \<and> udpSocketIpv4 cl1 \<noteq> None"
    using a(5) c(5-8) by auto
  moreover have "gmosSchedulerPrioritise s0 s1 = GMOS_TASK_SUSPEND \<longleftrightarrow> (\<forall>x\<in>set [r0, r1]. x = None)"
    using a(4) c(4) by (simp add: Prioritise_suspended)
  ultimately show ?thesis using c(3) unfolding v' by blast
qed

lemma respond_busy: "dnsRespond ns e s e' \<Longrightarrow> entryOk e \<Longrightarrow> dnsBusy (Some (e', t)) \<Longrightarrow> dnsBusy (Some (e, t))"
  using respond_state(3) [of ns e s e'] by (auto simp: dnsBusy_def)

text \<open>The first half of the worker task.\<close>

lemma receive_ok:
  assumes inv: "dnsInv p cl v R" and ops: "udpReceiveOk ops"
  shows "\<exists>p' x' v' R'. (if udpSocketIpv4 cl \<noteq> None
      then do { (nextStatus, p, cl, x) \<leftarrow> gmosTcpipDnsClientResponseProcess ops p cl x; Some (p, cl, x) }
      else Some (p, cl, x)) = Some (p', cl, x') \<and> dnsInv p' cl v' R' \<and> responseMoves v v'"
proof (cases "udpSocketIpv4 cl")
  case None
  then show ?thesis using inv by (auto simp: responseMoves_def)
next
  case (Some so)
  have st: "cacheHolds p cl v R" using inv by (simp add: dnsInv_def)
  have iv: "dnsInv p' cl v' R'" if "cacheHolds p' cl v' R'" for p' v' R' using that Some by (simp add: dnsInv_def)
  obtain ns p1 m x1 where u: "udpReceiveFrom ops so p gmosBufferInit x = (ns, p1, m, x1)" by (rule prod_cases4)
  obtain R1 ds where R1: "length ds \<le> 65280"
    "bufs p1 ((m, if ns = GMOS_NETWORK_STATUS_SUCCESS then ds else []) # zip (dnsCache cl) (map viewBytes v)) R1"
    using ops [unfolded udpReceiveOk_def, rule_format, OF cacheHolds_bufs [OF st], of so x] u by auto
  show ?thesis
  proof (cases "ns = GMOS_NETWORK_STATUS_SUCCESS")
    case False
    then have "cacheHolds p1 cl v R1" using R1(2) by (intro cacheHolds_move [OF st]) simp
    from iv [OF this] have "dnsInv p1 cl v R1" .
    moreover have "responseMoves v v" by (simp add: responseMoves_def)
    moreover have "\<exists>nst. gmosTcpipDnsClientResponseProcess ops p cl x = Some (nst, p1, cl, x1)"
      using u False Some by (simp add: gmosTcpipDnsClientResponseProcess_def)
    ultimately show ?thesis using Some
      by (intro exI [of _ p1] exI [of _ x1] exI [of _ v] exI [of _ R1]) auto
  next
    case True
    then have u': "udpReceiveFrom ops so p gmosBufferInit x = (GMOS_NETWORK_STATUS_SUCCESS, p1, m, x1)"
      and b: "bufs p1 ((m, ds) # zip (dnsCache cl) (map viewBytes v)) R1" using u R1(2) by simp_all
    show ?thesis
    proof (cases "dnsMatch ds v")
      case None
      obtain p' where "gmosTcpipDnsClientResponseProcess ops p cl x = Some (GMOS_TASK_RUN_IMMEDIATE, p', cl, x1)"
        "cacheHolds p' cl v R1" using ResponseProcess_miss [OF st Some u' b None] by blast
      moreover from iv [OF this(2)] have "dnsInv p' cl v R1" .
      moreover have "responseMoves v v" by (simp add: responseMoves_def)
      ultimately show ?thesis using Some
        by (intro exI [of _ p'] exI [of _ x1] exI [of _ v] exI [of _ R1]) auto
    next
      case hit: (Some i)
      obtain p' x' e s e' where h: "gmosTcpipDnsClientResponseProcess ops p cl x = Some (GMOS_TASK_RUN_IMMEDIATE, p', cl, x')"
        "v ! i = Some (e, s)" "dnsRespond ds e s e'" "cacheHolds p' cl (v[i := Some (e', s)]) R1"
        using ResponseProcess_hit [OF st Some u' b R1(1) hit] by (elim exE conjE) (rule that)
      have "responseMoves v (v[i := Some (e', s)])" using hit h(2,3) unfolding responseMoves_def by blast
      then show ?thesis using iv [OF h(4)] Some h(1) by auto
    qed
  qed
qed

lemma WorkerTaskFn_ok:
  assumes inv: "dnsInv p cl v R" and ops: "udpSendOk ops" "udpReceiveOk ops"
  shows "\<exists>status p' cl' sc' x' R' v'.
    gmosTcpipDnsClientWorkerTaskFn ops tm p cl sc x = Some (status, p', cl', sc', x') \<and> dnsInv p' cl' v' R' \<and>
    (status = GMOS_TASK_SUSPEND \<longleftrightarrow> (\<forall>y\<in>set v'. y = None)) \<and>
    (if \<not> phyLinkIsUp ops x \<or> dnsServerList cl = None then v' = [None, None]
     else \<exists>v1. responseMoves v v1 \<and> (\<forall>i<2. \<exists>k. entryMoves cl (tm k) (v1 ! i) (v' ! i)))"
proof (cases "\<not> phyLinkIsUp ops x \<or> dnsServerList cl = None")
  case True
  have "cacheHolds p cl v R" using inv by (simp add: dnsInv_def)
  from resetCache_ok [OF this] obtain p' c where r: "resetCacheLoop p cl 0 = Some (p', cl\<lparr>dnsCache := c\<rparr>)"
    "cacheHolds p' (cl\<lparr>dnsCache := c\<rparr>) [None, None] R" by (elim exE conjE) (rule that)
  have "gmosTcpipDnsClientWorkerTaskFn ops tm p cl sc x = Some (GMOS_TASK_SUSPEND, p', cl\<lparr>dnsCache := c\<rparr>, sc, x)"
    using True r(1) by (simp add: gmosTcpipDnsClientWorkerTaskFn_def)
  moreover have "dnsInv p' (cl\<lparr>dnsCache := c\<rparr>) [None, None] R" using r(2) by (simp add: dnsInv_def dnsBusy_def)
  ultimately show ?thesis using True by (intro exI [of _ GMOS_TASK_SUSPEND] exI [of _ p'] exI [of _ "cl\<lparr>dnsCache := c\<rparr>"]
        exI [of _ sc] exI [of _ x] exI [of _ R] exI [of _ "[None, None] :: dnsView list"]) simp
next
  case False
  obtain p1 x1 v1 R1 where rc: "(if udpSocketIpv4 cl \<noteq> None
      then do { (nextStatus, p, cl, x) \<leftarrow> gmosTcpipDnsClientResponseProcess ops p cl x; Some (p, cl, x) }
      else Some (p, cl, x)) = Some (p1, cl, x1)" "dnsInv p1 cl v1 R1" "responseMoves v v1"
    using receive_ok [OF inv ops(2), of x] by (elim exE conjE) (rule that)
  from cacheProcessLoop_ok [OF rc(2) ops(1), of tm sc x1] obtain status keep p2 cl2 sc2 x2 R2 v2 where
    lp: "cacheProcessLoop ops tm p1 cl 0 False GMOS_TASK_SUSPEND sc x1 = Some (status, keep, p2, cl2, sc2, x2)"
      "cacheHolds p2 cl2 v2 R2" "\<forall>i<2. \<exists>k. entryMoves cl (tm k) (v1 ! i) (v2 ! i)"
      "status = GMOS_TASK_SUSPEND \<longleftrightarrow> (\<forall>x\<in>set v2. x = None)"
      "(\<exists>x\<in>set v2. dnsBusy x) \<longrightarrow> keep \<and> udpSocketIpv4 cl2 \<noteq> None" by (elim exE conjE) (rule that)
  let ?closed = "case udpSocketIpv4 cl2 of None \<Rightarrow> (cl2, x2)
    | Some so \<Rightarrow> if keep then (cl2, x2)
        else let (stackStatus, x) = udpClose ops so x2
             in if stackStatus \<noteq> GMOS_NETWORK_STATUS_RETRY then (cl2\<lparr>udpSocketIpv4 := None\<rparr>, x) else (cl2, x)"
  obtain cl3 x3 where e: "?closed = (cl3, x3)" by fastforce
  have w: "gmosTcpipDnsClientWorkerTaskFn ops tm p cl sc x = Some (status, p2, cl3, sc2, x3)"
  proof -
    have "(\<not> phyLinkIsUp ops x \<or> dnsServerList cl = None) = False" using False by simp
    then show ?thesis unfolding gmosTcpipDnsClientWorkerTaskFn_def Let_def rc(1) using e [unfolded Let_def]
      by (simp only: if_False bind.bind_lunit prod.case lp(1))
  qed
  have "cl3 = cl2 \<or> \<not> keep \<and> cl3 = cl2\<lparr>udpSocketIpv4 := None\<rparr>"
    using e by (auto split: option.splits if_splits prod.splits)
  then have "dnsInv p2 cl3 v2 R2" using lp(2,5) by (auto simp: dnsInv_def)
  then show ?thesis using w lp(3,4) rc(3) False by (intro exI [of _ status] exI [of _ p2] exI [of _ cl3]
        exI [of _ sc2] exI [of _ x3] exI [of _ R2] exI [of _ v2]) auto
qed

subsection \<open>Properties\<close>

text \<open>
  C31: The message for an entry is handed to the driver at most once: the query with its
  transaction identifier, its name and the type and class of an address, for the common port at
  the address of the chosen server. The result is whether the driver took it, and then the time of
  the next attempt is set; the driver is not called only when the pool has no room for the message,
  which a static pool with eight free segments always has. The cache stays as it is. Nothing
  leaks: at the call the message is all that was taken from the pool, behind a call that succeeds
  the client keeps and takes nothing, and when nothing was sent the same segments are in use as
  before, for a static pool down to the number of free ones.
\<close>

theorem dns_send:
  assumes "cacheHolds p cl v R" "i < 2" "v ! i = Some (e, s)" "udpSocketIpv4 cl = Some so" "udpSendOk ops" "udpRefuseOk ops"
  shows "\<exists>ok p' x'. gmosTcpipDnsClientSendRequest ops tm p cl srv (dnsCache cl ! i) e sc x =
      Some (ok, if ok then e\<lparr>retryTimestamp := ticksNow tm sc + dnsRetryTicks\<rparr> else e, p',
        if ok then tickTaken sc else sc, x') \<and>
    ((\<exists>p2. querySent ops p cl v R srv e s x ok p2 x' \<and> (ok \<longrightarrow> p' = p2)) \<or> \<not> ok \<and> x' = x \<and> \<not> sendRoom p) \<and>
    (if ok then \<exists>R'. cacheHolds p' cl v R' else cacheHolds p' cl v R \<and> (\<not> mempoolUseHeap p \<longrightarrow> avail p' = avail p))"
proof -
  from SendRequest_ok [OF assms(1-5), of tm srv sc x] obtain ok p' x' R' where
    "gmosTcpipDnsClientSendRequest ops tm p cl srv (dnsCache cl ! i) e sc x =
      Some (ok, if ok then e\<lparr>retryTimestamp := ticksNow tm sc + dnsRetryTicks\<rparr> else e, p',
        if ok then tickTaken sc else sc, x')" "cacheHolds p' cl v R'"
    "(\<exists>p2. querySent ops p cl v R srv e s x ok p2 x' \<and> (ok \<longrightarrow> p' = p2)) \<or> \<not> ok \<and> x' = x \<and> \<not> sendRoom p"
    "\<not> ok \<and> udpRefuseOk ops \<longrightarrow> R' = R \<and> (\<not> mempoolUseHeap p \<longrightarrow> avail p' = avail p)"
    by (elim exE conjE) (rule that)
  then show ?thesis using assms(6) by (intro exI [of _ ok] exI [of _ p'] exI [of _ x']) auto
qed

text \<open>
  C32: Processing an entry is one step of the state machine of its request, at the time the timer
  shows: the chosen server gets a query, the wait for the response is renewed up to the last
  attempt, and an entry that is over is kept until it expires and then cleared. The state of the
  driver shows the calls that come with the step: an entry to be sent makes one call with its
  query (none only when the pool has no room for the message) and counts as sent exactly when the
  driver takes it, an entry that is new opens the socket, and no other entry calls the driver at
  all. The entry is suspended only when it is gone, an entry under way keeps the socket open, and
  a request costs no more queries that the driver takes than the first one and the configured
  number of retries.
\<close>

theorem dns_process:
  assumes "cacheHolds p cl v R" "i < 2" "v ! i = Some (e, s)" "dnsBusy (v ! i) \<longrightarrow> udpSocketIpv4 cl \<noteq> None"
    and "udpSendOk ops" "dnsRun n e"
  shows "\<exists>status keep' p' cl' sc' x' R' sent r.
    gmosTcpipDnsClientCacheProcess ops tm p cl i keep sc x = Some (status, keep', p', cl', sc', x') \<and>
    dnsStep cl (ticksNow tm sc) e sent r \<and> stepCalls ops p cl v R e s sent x x' \<and>
    cacheHolds p' cl' (v[i := map_option (\<lambda>e'. (e', s)) r]) R' \<and>
    (status = GMOS_TASK_SUSPEND \<longleftrightarrow> r = None) \<and>
    (dnsBusy (map_option (\<lambda>e'. (e', s)) r) \<longrightarrow> keep' \<and> udpSocketIpv4 cl' \<noteq> None) \<and>
    (\<forall>e'. r = Some e' \<longrightarrow> dnsRun (if sent then n + 1 else n) e' \<and>
       (if sent then n + 1 else n) \<le> GMOS_CONFIG_TCPIP_DNS_RETRY_COUNT + 1)"
proof -
  from CacheProcess_Some [OF assms(1-5), of tm keep sc x] obtain status keep' p' cl' sc' x' R' sent r where
    c: "gmosTcpipDnsClientCacheProcess ops tm p cl i keep sc x = Some (status, keep', p', cl', sc', x')"
      "dnsStep cl (ticksNow tm sc) e sent r" "cacheHolds p' cl' (v[i := map_option (\<lambda>e'. (e', s)) r]) R'"
      "status = GMOS_TASK_SUSPEND \<longleftrightarrow> r = None"
      "dnsBusy (map_option (\<lambda>e'. (e', s)) r) \<longrightarrow> keep' \<and> udpSocketIpv4 cl' \<noteq> None"
      "stepCalls ops p cl v R e s sent x x'" by blast
  have "dnsRun (if sent then n + 1 else n) e' \<and> (if sent then n + 1 else n) \<le> GMOS_CONFIG_TCPIP_DNS_RETRY_COUNT + 1"
    if "r = Some e'" for e'
  proof -
    have run: "dnsRun (if sent then n + 1 else n) e'" using dnsRun.stepped [OF assms(6)] c(2) that by blast
    show ?thesis using run queries_run [OF run]
      by (auto simp: queriesOf_def GMOS_CONFIG_TCPIP_DNS_RETRY_COUNT_def split: if_splits)
  qed
  then show ?thesis using c by blast
qed

text \<open>
  C33: A datagram received changes at most the entry with its transaction identifier, and releases
  its memory. When it is a well-formed response to the question about the name of that entry, the
  entry becomes resolved with the data of one of the address records of the answer; without such a
  record it stays as it is, and so does an entry that is already resolved. For any datagram the
  entry is as \<open>dnsRespond\<close> says: an error code for a bad query or a name that does not exist, a
  number of questions other than one or a question about another name makes it invalid, even
  when it is already resolved; any other wrong header or question leaves it alone. The lengths of
  the records are not checked against the end of the message and are added up in 16 bits, so that a
  malformed answer can supply an address of any four bytes behind something that reads as the
  header of an address record.
\<close>

theorem dns_response:
  assumes "cacheHolds p cl v R" "udpSocketIpv4 cl = Some so"
    and "udpReceiveFrom ops so p gmosBufferInit x = (GMOS_NETWORK_STATUS_SUCCESS, p1, m, x1)"
    and "bufs p1 ((m, ns) # zip (dnsCache cl) (map viewBytes v)) R1" "length ns \<le> 65280"
  shows "\<exists>p' x' v'. gmosTcpipDnsClientResponseProcess ops p cl x = Some (GMOS_TASK_RUN_IMMEDIATE, p', cl, x') \<and>
    cacheHolds p' cl v' R1 \<and>
    (case dnsMatch ns v of None \<Rightarrow> v' = v
     | Some i \<Rightarrow> \<exists>e s e'. v ! i = Some (e, s) \<and> v' = v[i := Some (e', s)] \<and> dnsRespond ns e s e' \<and>
         (\<forall>rrs. dnsReply ns s rrs \<and> validName s \<longrightarrow> replyTaken rrs e e'))"
proof (cases "dnsMatch ns v")
  case None
  from ResponseProcess_miss [OF assms(1-4) None] show ?thesis unfolding None by (elim exE conjE) simp
next
  case (Some i)
  from ResponseProcess_hit [OF assms Some] obtain p' x' e s e' where
    "gmosTcpipDnsClientResponseProcess ops p cl x = Some (GMOS_TASK_RUN_IMMEDIATE, p', cl, x')"
    "v ! i = Some (e, s)" "dnsRespond ns e s e'" "cacheHolds p' cl (v[i := Some (e', s)]) R1"
    by (elim exE conjE) (rule that)
  then show ?thesis unfolding Some using respond_reply [OF _ _ assms(5)]
    by (intro exI [of _ p'] exI [of _ x'] exI [of _ "v[i := Some (e', s)]"]) auto
qed

text \<open>
  C34: Whatever the driver does within its contract, a run of the worker task does not fault and
  keeps the cache and the socket in order: without a network or a server the cache is cleared, else
  at most one response is taken in and every entry makes one step. The task is suspended exactly
  when no entry is left.
\<close>

theorem dns_worker:
  assumes "dnsInv p cl v R" "udpSendOk ops" "udpReceiveOk ops"
  shows "\<exists>status p' cl' sc' x' R' v'.
    gmosTcpipDnsClientWorkerTaskFn ops tm p cl sc x = Some (status, p', cl', sc', x') \<and> dnsInv p' cl' v' R' \<and>
    (status = GMOS_TASK_SUSPEND \<longleftrightarrow> (\<forall>y\<in>set v'. y = None)) \<and>
    (if \<not> phyLinkIsUp ops x \<or> dnsServerList cl = None then v' = [None, None]
     else \<exists>v1. responseMoves v v1 \<and> (\<forall>i<2. \<exists>k. entryMoves cl (tm k) (v1 ! i) (v' ! i)))"
  by (rule WorkerTaskFn_ok [OF assms])

subsection \<open>Concrete cases\<close>

text \<open>A driver that sends everything and receives nothing, and a client with one request, for the name a.b.\<close>

definition quietDriver :: "unit tcpipOps" where
  "quietDriver = \<lparr>phyLinkIsUp = (\<lambda>_. True), udpOpen = (\<lambda>_ _ x. (Some 1, x)),
     udpSendTo = (\<lambda>_ _ _ p m x. case gmosBufferReset p m 0 of
        None \<Rightarrow> (GMOS_NETWORK_STATUS_RETRY, p, m, x)
      | Some (_, p', m') \<Rightarrow> (GMOS_NETWORK_STATUS_SUCCESS, p', m', x)),
     udpReceiveFrom = (\<lambda>_ p m x. (GMOS_NETWORK_STATUS_RETRY, p, m, x)),
     udpClose = (\<lambda>_ x. (GMOS_NETWORK_STATUS_SUCCESS, x)), getRandomBytes = (\<lambda>n x. (replicate n 0, x))\<rparr>"

definition sampleEntry :: "nat \<Rightarrow> nat \<Rightarrow> dnsCacheEntry" where
  "sampleEntry st rc = \<lparr>expiryTimestamp = 100, retryTimestamp = 0, resolvedAddr = [0, 0, 0, 0],
     dnsEntryState = st, retryCount = rc, transactionId = 0\<rparr>"

definition sampleClient :: "gmosBuffer \<Rightarrow> dnsClient" where
  "sampleClient b = (emptyClient 5)\<lparr>dnsServerList := Some 7, udpSocketIpv4 := Some 1, dnsCache := [b, gmosBufferInit]\<rparr>"

lemma sampleClient_simps [simp]:
  "dnsServerList (sampleClient b) = Some 7" "udpSocketIpv4 (sampleClient b) = Some 1" "dnsWorkerTask (sampleClient b) = 5"
  "dnsCache (sampleClient b) = [b, gmosBufferInit]" "dnsXid (sampleClient b) = 0"
  by (simp_all add: sampleClient_def emptyClient_def)

lemma sampleEntry_ok: "st < DNS_EXPIRED \<Longrightarrow> rc < 256 \<Longrightarrow> entryOk (sampleEntry st rc)"
  by (simp add: entryOk_def sampleEntry_def)

lemma quietDriver_refuse: "udpRefuseOk quietDriver"
proof -
  have "bufs p' ((m', ds) # r) R \<and> settles p m p' m'"
    if b: "bufs p ((m, ds) # r) R" and u: "udpSendTo quietDriver so a port p m x = (st, p', m', x')"
      and st: "st \<noteq> GMOS_NETWORK_STATUS_SUCCESS" for so a port p m ds r R x st p' m' x'
  proof -
    obtain p1 where "gmosBufferReset p m 0 = Some (True, p1, gmosBufferInit)" by (rule bufs_release [OF b])
    then show ?thesis using u st by (simp add: quietDriver_def)
  qed
  then show ?thesis unfolding udpRefuseOk_def prod.case_eq_if by (metis prod.collapse)
qed

lemma quietDriver_ok: "udpSendOk quietDriver" "udpReceiveOk quietDriver"
proof -
  have "\<exists>R'. bufs p' ((m', if st = GMOS_NETWORK_STATUS_SUCCESS then [] else ds) # r) R'"
    if b: "bufs p ((m, ds) # r) R" and u: "udpSendTo quietDriver so a port p m x = (st, p', m', x')"
    for so a port p m ds r R x st p' m' x'
  proof -
    obtain p1 where p1: "gmosBufferReset p m 0 = Some (True, p1, gmosBufferInit)" "bufs p1 r R"
      by (rule bufs_release [OF b])
    have "bufs p1 ([(gmosBufferInit, [])] @ r) R" using p1(2) by simp
    then show ?thesis using u p1(1) by (auto simp: quietDriver_def)
  qed
  then show "udpSendOk quietDriver" unfolding udpSendOk_def prod.case_eq_if by (metis prod.collapse)
  have "\<exists>ns. length ns \<le> 65280 \<and> bufs p ((gmosBufferInit, []) # r) R" if "bufs p r R" for p r R
    using that by (intro exI [of _ "[]"]) simp
  then show "udpReceiveOk quietDriver" unfolding udpReceiveOk_def quietDriver_def by fastforce
qed

lemma name_ab: "acceptedName [97, 46, 98]" "validName [97, 46, 98]" "splitName [97, 46, 98] = [[97], [98]]" "dnsEncode [[97], [98]] = [1, 97, 1, 98, 0]"
  by (simp_all add: acceptedName_iff validName_iff okLabel_code gmosTcpipDnsClientCharIsLetter_def gmosTcpipDnsClientCharIsValid_def
      dnsEncode_def labelBytes_def)

lemma sample_cache:
  assumes "entryOk e"
  obtains p b where "cacheHolds p (sampleClient b) [Some (e, [97, 46, 98]), None] {}" "\<not> mempoolUseHeap p" "40 \<le> avail p"
proof -
  let ?v = "viewBytes (Some (e, [97, 46, 98]))"
  have "length ?v \<le> 1000" using length_entryBytes [OF assms] by (simp add: name_ab)
  then obtain p b where b: "buf_state p b ?v {}" "\<not> mempoolUseHeap p" "40 \<le> avail p" by (rule boot_data)
  have "bufs p ([(gmosBufferInit, [])] @ [(b, ?v)]) {}" using b(1) by (simp add: bufs_1)
  then have "bufs p [(b, ?v), (gmosBufferInit, [])] {}" by (simp add: bufs_swap)
  then have "cacheHolds p (sampleClient b) [Some (e, [97, 46, 98]), None] {}"
    using assms by (simp add: cacheHolds_def name_ab)
  then show thesis using b(2,3) by (rule that)
qed

theorem dns_query_witness:
  "\<exists>p' cl' sc' e. gmosTcpipDnsClientQuery quietDriver (\<lambda>_. 0) (sampleEntry 0 0) bootPool (sampleClient gmosBufferInit)
      [97, 46, 98, 0] False bootSched () = Some (GMOS_NETWORK_STATUS_RETRY, None, p', cl', sc') \<and>
    cacheHolds p' cl' [Some (e, [97, 46, 98]), None] {} \<and> dnsEntryState e = DNS_OPEN \<and>
    taskState sc' 5 = TASK_STATE_READY"
proof -
  let ?cl = "sampleClient gmosBufferInit" and ?s = "[97, 46, 98] :: byte list"
  have "buf_state bootPool gmosBufferInit [] {}" using buf_state_init [OF bootPool_ok(1)] .
  then have st: "cacheHolds bootPool ?cl [None, None] {}" by (simp add: cacheHolds_def bufs_last)
  have a: "0 \<notin> set ?s" "length ?s < 4294967295" "lruDefined [None, None]" "length (resolvedAddr (sampleEntry 0 0)) = 4"
    "dnsXid ?cl < 65536" "phyLinkIsUp quietDriver ()" "dnsServerList ?cl \<noteq> None"
    by (simp_all add: lruDefined_def sampleEntry_def quietDriver_def)
  have t: "taskState bootSched (dnsWorkerTask ?cl) \<noteq> TASK_STATE_ACTIVE" by (simp add: bootSched_def)
  have n: "dnsFind ?s [None, None] = None" "dnsVictim [None, None] = 0"
    by (simp_all add: dnsFind_def upto2 dnsHit_def dnsVictim_def)
  have r: "acceptedName ?s" "queryRoom bootPool" using name_ab(1) bootPool_ok by (simp_all add: queryRoom_def)
  from dns_query [OF st a(1,2,4,5) bootSched_inv(1) t, where ipv = False and ops = quietDriver and x = "()"
      and tm = "\<lambda>_. 0" and junk = "[]"] obtain st a p' cl' sc' v' where
    q: "gmosTcpipDnsClientQuery quietDriver (\<lambda>_. 0) (sampleEntry 0 0) bootPool ?cl (?s @ 0 # []) False bootSched () =
        Some (st, a, p', cl', sc')" "cacheHolds p' cl' v' {}"
      "queryAnswered (\<lambda>_. 0) bootPool ?cl ?s [None, None] bootSched st a cl' sc' v'"
    using a(3,6,7) by auto
  obtain e where "freshEntry ?cl (ticksNow (\<lambda>_. 0) bootSched) e" "v' = [Some (e, ?s), None]" "a = None"
    "st = GMOS_NETWORK_STATUS_RETRY" "taskState sc' 5 = TASK_STATE_READY"
    using q(3) r unfolding queryAnswered_def n option.case by auto
  then show ?thesis using q(1,2) by (auto simp: freshEntry_def)
qed

theorem dns_send_witness:
  "\<exists>p b p' sc' R' p2. gmosTcpipDnsClientSendRequest quietDriver (\<lambda>_. 0) p (sampleClient b) 7 b (sampleEntry 1 0) bootSched () =
      Some (True, (sampleEntry 1 0)\<lparr>retryTimestamp := dnsRetryTicks\<rparr>, p', sc', ()) \<and>
    querySent quietDriver p (sampleClient b) [Some (sampleEntry 1 0, [97, 46, 98]), None] {} 7 (sampleEntry 1 0)
      [97, 46, 98] () True p2 () \<and>
    cacheHolds p' (sampleClient b) [Some (sampleEntry 1 0, [97, 46, 98]), None] R'"
proof -
  let ?e = "sampleEntry 1 0" let ?v = "[Some (?e, [97, 46, 98]), None]"
  have "entryOk ?e" by (rule sampleEntry_ok) simp_all
  then obtain p b where st: "cacheHolds p (sampleClient b) ?v {}" "\<not> mempoolUseHeap p" "40 \<le> avail p"
    by (rule sample_cache)
  have i: "0 < (2 :: nat)" "?v ! 0 = Some (?e, [97, 46, 98])" "udpSocketIpv4 (sampleClient b) = Some 1"
    by simp_all
  have room: "sendRoom p" using st(2,3) by (simp add: sendRoom_def)
  from dns_send [OF st(1) i quietDriver_ok(1) quietDriver_refuse, of "\<lambda>_. 0" 7 bootSched "()"] obtain ok p' x' where
    d0: "gmosTcpipDnsClientSendRequest quietDriver (\<lambda>_. 0) p (sampleClient b) 7 (dnsCache (sampleClient b) ! 0) ?e bootSched () =
        Some (ok, if ok then ?e\<lparr>retryTimestamp := ticksNow (\<lambda>_. 0) bootSched + dnsRetryTicks\<rparr> else ?e, p',
          if ok then tickTaken bootSched else bootSched, x')"
      "(\<exists>p2. querySent quietDriver p (sampleClient b) ?v {} 7 ?e [97, 46, 98] () ok p2 x' \<and> (ok \<longrightarrow> p' = p2)) \<or>
        \<not> ok \<and> x' = () \<and> \<not> sendRoom p"
      "if ok then \<exists>R'. cacheHolds p' (sampleClient b) ?v R' else cacheHolds p' (sampleClient b) ?v {} \<and>
        (\<not> mempoolUseHeap p \<longrightarrow> avail p' = avail p)" by (elim exE conjE) (rule that)
  from d0(2) room obtain p2 where d: "querySent quietDriver p (sampleClient b) ?v {} 7 ?e [97, 46, 98] () ok p2 x'" by blast
  have ok: "ok"
  proof -
    obtain so p1 m1 st m2 where q: "bufs p1 ((m1, dnsQuery (transactionId ?e) [97, 46, 98]) # zip (dnsCache (sampleClient b)) (map viewBytes ?v)) {}"
      "udpSendTo quietDriver so (serverAddress (sampleClient b) 7) GMOS_TCPIP_DNS_COMMON_PORT p1 m1 () = (st, p2, m2, x')"
      "ok \<longleftrightarrow> st = GMOS_NETWORK_STATUS_SUCCESS" using d unfolding querySent_def by blast
    obtain p3 where "gmosBufferReset p1 m1 0 = Some (True, p3, gmosBufferInit)" by (rule bufs_release [OF q(1)])
    then show ?thesis using q(2,3) by (simp add: quietDriver_def)
  qed
  obtain R' where c: "cacheHolds p' (sampleClient b) ?v R'" using d0(3) ok by auto
  have "gmosTcpipDnsClientSendRequest quietDriver (\<lambda>_. 0) p (sampleClient b) 7 b ?e bootSched () =
      Some (True, ?e\<lparr>retryTimestamp := dnsRetryTicks\<rparr>, p', tickTaken bootSched, ())"
    using d0(1) ok by (simp add: ticksNow_def)
  moreover have "querySent quietDriver p (sampleClient b) ?v {} 7 ?e [97, 46, 98] () True p2 ()" using d ok by simp
  ultimately show ?thesis using c by blast
qed

theorem dns_process_witness:
  "\<exists>p b status keep' p' cl' sc' e' R'.
    gmosTcpipDnsClientCacheProcess quietDriver (\<lambda>_. 0) p (sampleClient b) 0 False bootSched () =
      Some (status, keep', p', cl', sc', ()) \<and> status \<noteq> GMOS_TASK_SUSPEND \<and>
    cacheHolds p' cl' [Some (e', [97, 46, 98]), None] R' \<and> dnsEntryState e' \<in> {DNS_OPEN, DNS_REQUEST}"
proof -
  let ?e = "sampleEntry 0 0"
  have "entryOk ?e" by (rule sampleEntry_ok) simp_all
  then obtain p b where st: "cacheHolds p (sampleClient b) [Some (?e, [97, 46, 98]), None] {}" by (rule sample_cache)
  have i: "0 < (2 :: nat)" "[Some (?e, [97, 46, 98]), None] ! 0 = Some (?e, [97, 46, 98])"
    "dnsBusy ([Some (?e, [97, 46, 98]), None] ! 0) \<longrightarrow> udpSocketIpv4 (sampleClient b) \<noteq> None" by simp_all
  have "freshEntry (sampleClient b) (100 - dnsRetentionTicks) ?e" by (simp add: freshEntry_def sampleEntry_def)
  then have run: "dnsRun 0 ?e" by (rule dnsRun.created)
  have open0: "dnsEntryState ?e = DNS_OPEN" by (simp add: sampleEntry_def)
  have sel: "gmosTcpipDnsServerSelect (sampleClient b) ?e = Some (Some 7)"
    by (simp add: gmosTcpipDnsServerSelect_def sampleEntry_def)
  have "\<exists>e'. r = Some e' \<and> dnsEntryState e' \<in> {DNS_OPEN, DNS_REQUEST}"
    if "dnsStep (sampleClient b) now ?e sent r" for now sent r
    using that by (cases rule: dnsStep.cases) (use open0 sel in simp_all)
  note now = this
  from dns_process [OF st i quietDriver_ok(1) run, of "\<lambda>_. 0" False bootSched "()"] obtain status keep' p' cl' sc' x' R' sent r where
    d: "gmosTcpipDnsClientCacheProcess quietDriver (\<lambda>_. 0) p (sampleClient b) 0 False bootSched () =
        Some (status, keep', p', cl', sc', x')" "dnsStep (sampleClient b) (ticksNow (\<lambda>_. 0) bootSched) ?e sent r"
      "cacheHolds p' cl' ([Some (?e, [97, 46, 98]), None][0 := map_option (\<lambda>e'. (e', [97, 46, 98])) r]) R'"
      "status = GMOS_TASK_SUSPEND \<longleftrightarrow> r = None" by blast
  obtain e' where "r = Some e'" "dnsEntryState e' \<in> {DNS_OPEN, DNS_REQUEST}" using now [OF d(2)] by blast
  then show ?thesis using d(1,3,4) by (intro exI [of _ p] exI [of _ b] exI [of _ status] exI [of _ keep'] exI [of _ p']
        exI [of _ cl'] exI [of _ sc'] exI [of _ e'] exI [of _ R']) simp
qed

text \<open>A response with one answer, the address 1.2.3.4.\<close>

definition sampleResponse :: "byte list" where
  "sampleResponse = [0, 0, 0x81, 0x80, 0, 1, 0, 1, 0, 0, 0, 0, 1, 97, 1, 98, 0, 0, 1, 0, 1,
     0xC0, 12, 0, 1, 0, 1, 0, 0, 0, 60, 0, 4, 1, 2, 3, 4]"

lemma sampleResponse_ok:
  "dnsMatch sampleResponse [Some (sampleEntry 2 0, [97, 46, 98]), None] = Some 0"
  "dnsRespond sampleResponse (sampleEntry 2 0) [97, 46, 98] e' \<longleftrightarrow>
     e' = (sampleEntry 2 0)\<lparr>resolvedAddr := [1, 2, 3, 4], dnsEntryState := DNS_VALID\<rparr>"
proof -
  show "dnsMatch sampleResponse [Some (sampleEntry 2 0, [97, 46, 98]), None] = Some 0"
    by (simp add: dnsMatch_def sampleResponse_def upto2 sampleEntry_def)
  have h: "respHeader sampleResponse [97, 46, 98] 2 =
      (1, 2, [0xC0, 12, 0, 1, 0, 1, 0, 0, 0, 60, 0, 4, 1, 2, 3, 4])"
    by (simp add: respHeader_def sampleResponse_def Let_def name_ab)
  have a: "aRecords 1 [0xC0, 12, 0, 1, 0, 1, 0, 0, 0, 60, 0, 4, 1, 2, 3, 4] 0 = [[1, 2, 3, 4]]"
    by (simp add: Let_def)
  show "dnsRespond sampleResponse (sampleEntry 2 0) [97, 46, 98] e' \<longleftrightarrow>
     e' = (sampleEntry 2 0)\<lparr>resolvedAddr := [1, 2, 3, 4], dnsEntryState := DNS_VALID\<rparr>"
    using h a by (simp add: dnsRespond_def sampleEntry_def)
qed

lemma sampleResponse_reply:
  "dnsReply sampleResponse [97, 46, 98]
     [\<lparr>rrName = [0xC0, 12], rrType = 1, rrClass = 1, rrTtl = [0, 0, 0, 60], rrData = [1, 2, 3, 4]\<rparr>]"
proof -
  have "wireName [0xC0, 12]" by (rule wireName.pointer) simp
  then show ?thesis unfolding dnsReply_def
    by (intro exI [of _ "[0, 0]"] exI [of _ "0x81"] exI [of _ "0x80"] exI [of _ "[0, 0, 0, 0]"] exI [of _ "[]"])
      (simp add: sampleResponse_def be16_def rrBytes_def rrOk_def isAddress_def name_ab)
qed

theorem dns_response_witness:
  "dnsReply sampleResponse [97, 46, 98]
     [\<lparr>rrName = [0xC0, 12], rrType = 1, rrClass = 1, rrTtl = [0, 0, 0, 60], rrData = [1, 2, 3, 4]\<rparr>] \<and> (\<exists>p b p1 m p'. gmosTcpipDnsClientResponseProcess
      (quietDriver\<lparr>udpReceiveFrom := (\<lambda>_ _ _ x. (GMOS_NETWORK_STATUS_SUCCESS, p1, m, x))\<rparr>) p (sampleClient b) () =
      Some (GMOS_TASK_RUN_IMMEDIATE, p', sampleClient b, ()) \<and>
    cacheHolds p (sampleClient b) [Some (sampleEntry 2 0, [97, 46, 98]), None] {} \<and>
    cacheHolds p' (sampleClient b)
      [Some ((sampleEntry 2 0)\<lparr>resolvedAddr := [1, 2, 3, 4], dnsEntryState := DNS_VALID\<rparr>, [97, 46, 98]), None] {})"
proof -
  let ?e = "sampleEntry 2 0" let ?v = "[Some (?e, [97, 46, 98]), None]"
  have "entryOk ?e" by (rule sampleEntry_ok) simp_all
  then obtain p b where st: "cacheHolds p (sampleClient b) ?v {}" "40 \<le> avail p" by (rule sample_cache)
  have "bufs p ([(gmosBufferInit, [])] @ zip (dnsCache (sampleClient b)) (map viewBytes ?v)) {}"
    using cacheHolds_bufs [OF st(1)] by (simp del: sampleClient_simps)
  then obtain R' where R': "buf_state p gmosBufferInit [] R'"
    "\<And>p' m' ds'. buf_state p' m' ds' R' \<Longrightarrow> same_on R' p p' \<Longrightarrow>
       bufs p' ((m', ds') # zip (dnsCache (sampleClient b)) (map viewBytes ?v)) {}"
    unfolding append_Cons append_Nil by (rule bufs_head) (rule that)
  have l: "length sampleResponse < 65536" by (simp add: sampleResponse_def)
  have n: "need (length sampleResponse) \<le> 40"
    by (simp add: sampleResponse_def need_def GMOS_CONFIG_MEMPOOL_SEGMENT_SIZE_def)
  obtain p1 m where "buf_state p1 m sampleResponse R'" "same_on R' p p1"
    by (rule gmosBufferAppend_ok [OF R'(1) l]) (use n l st(2) that in \<open>auto simp: need_def\<close>)
  then have b: "bufs p1 ((m, sampleResponse) # zip (dnsCache (sampleClient b)) (map viewBytes ?v)) {}" by (rule R'(2))
  let ?ops = "quietDriver\<lparr>udpReceiveFrom := (\<lambda>_ _ _ x. (GMOS_NETWORK_STATUS_SUCCESS, p1, m, x))\<rparr>"
  have u: "udpSocketIpv4 (sampleClient b) = Some 1"
    "udpReceiveFrom ?ops 1 p gmosBufferInit () = (GMOS_NETWORK_STATUS_SUCCESS, p1, m, ())"
    "length sampleResponse \<le> 65280" by (simp_all add: sampleResponse_def)
  from dns_response [OF st(1) u(1,2) b u(3)] st(1) show ?thesis
    using sampleResponse_reply by (fastforce simp: sampleResponse_ok)
qed

lemma dnsMatch_less: "dnsMatch ns v = Some i \<Longrightarrow> i = 0 \<or> i = 1"
  by (auto simp: dnsMatch_def find_Some_iff split: if_splits)

lemma respond_expiry: "dnsRespond ns e s e' \<Longrightarrow> expiryTimestamp e' = expiryTimestamp e"
  by (auto simp: dnsRespond_def split: prod.splits if_splits)

theorem dns_worker_witness:
  "\<exists>p b status p' cl' sc' R' v'. gmosTcpipDnsClientWorkerTaskFn quietDriver (\<lambda>_. 0) p (sampleClient b) bootSched () =
      Some (status, p', cl', sc', ()) \<and> dnsInv p' cl' v' R' \<and> v' ! 0 \<noteq> None \<and> status \<noteq> GMOS_TASK_SUSPEND"
proof -
  let ?e = "sampleEntry 2 0" let ?v = "[Some (?e, [97, 46, 98]), None]"
  have "entryOk ?e" by (rule sampleEntry_ok) simp_all
  then obtain p b where st: "cacheHolds p (sampleClient b) ?v {}" by (rule sample_cache)
  then have inv: "dnsInv p (sampleClient b) ?v {}" by (simp add: dnsInv_def)
  have up: "(\<not> phyLinkIsUp quietDriver () \<or> dnsServerList (sampleClient b) = None) = False" by (simp add: quietDriver_def)
  from dns_worker [OF inv quietDriver_ok, of "\<lambda>_. 0" bootSched "()", unfolded up if_False] obtain status p' cl' sc' x' R' v' v1 where
    w: "gmosTcpipDnsClientWorkerTaskFn quietDriver (\<lambda>_. 0) p (sampleClient b) bootSched () = Some (status, p', cl', sc', x')"
      "dnsInv p' cl' v' R'" "status = GMOS_TASK_SUSPEND \<longleftrightarrow> (\<forall>y\<in>set v'. y = None)"
      "responseMoves ?v v1" "entryMoves (sampleClient b) 0 (v1 ! 0) (v' ! 0)"
    by (elim exE conjE) (rule that, assumption+, simp)
  obtain e s where v1: "v1 ! 0 = Some (e, s)" "expiryTimestamp e = 100"
  proof -
    have "\<exists>e s. v1 ! 0 = Some (e, s) \<and> expiryTimestamp e = expiryTimestamp ?e"
      using w(4) unfolding responseMoves_def by (fastforce dest: dnsMatch_less respond_expiry)
    then show thesis using that by (auto simp: sampleEntry_def)
  qed
  have "r \<noteq> None" if "dnsStep (sampleClient b) 0 e sent r" for sent r
    using that by (cases rule: dnsStep.cases) (use v1(2) in simp_all)
  then have "v' ! 0 \<noteq> None" using w(5) v1(1) by (auto simp: entryMoves_def)
  moreover have "length v' = 2" using w(2) by (simp add: dnsInv_def cacheHolds_def)
  ultimately show ?thesis using w(1-3) nth_mem [of 0 v'] by fastforce
qed

end
