(* ===== verification/Gmos_Tcp_Stack.thy ===== *)
theory Gmos_Tcp_Stack
  imports Gmos_Dns_Client Gmos_Streams
begin

text \<open>
  Arrays over a TCP connection: gmosTcpipStackTcpWrite and gmosTcpipStackTcpRead of
  network/tcpip/common/src/gmos-tcpip-stack.c, which turn the buffers of the network driver into
  arrays of bytes. The functions of the network driver are parameters.
\<close>

subsection \<open>The network driver\<close>

record 'x tcpOps =
  tcpOpen :: "nat \<Rightarrow> nat option \<Rightarrow> 'x \<Rightarrow> nat option \<times> 'x"
  tcpConnect :: "nat \<Rightarrow> byte list \<Rightarrow> nat \<Rightarrow> 'x \<Rightarrow> gmosNetworkStatus \<times> 'x"
  tcpSend :: "nat \<Rightarrow> mempool \<Rightarrow> gmosBuffer \<Rightarrow> 'x \<Rightarrow> gmosNetworkStatus \<times> mempool \<times> gmosBuffer \<times> 'x"
  tcpReceive :: "nat \<Rightarrow> mempool \<Rightarrow> gmosStream \<Rightarrow> gmosBuffer \<Rightarrow> 'x \<Rightarrow>
    gmosNetworkStatus \<times> mempool \<times> gmosStream \<times> gmosBuffer \<times> 'x"
  tcpClose :: "nat \<Rightarrow> 'x \<Rightarrow> gmosNetworkStatus \<times> 'x"
  dhcpInUse :: bool
  dhcpReady :: "'x \<Rightarrow> bool"

subsection \<open>Arrays over a connection\<close>

text \<open>The results are the status and the transfer size. The append is not checked.\<close>

definition gmosTcpipStackTcpWrite ::
    "'x tcpOps \<Rightarrow> nat \<Rightarrow> mempool \<Rightarrow> byte list \<Rightarrow> 'x \<Rightarrow> (gmosNetworkStatus \<times> nat \<times> mempool \<times> 'x) option" where
  "gmosTcpipStackTcpWrite ops tcpSocket p writeData x =
     (let maxTransferSize = u32 (gmosMempoolSegmentsAvailable p * (GMOS_CONFIG_MEMPOOL_SEGMENT_SIZE div 2))
      in if maxTransferSize = 0 then Some (GMOS_NETWORK_STATUS_RETRY, 0, p, x)
         else do {
           let requestSize = (if maxTransferSize < length writeData then u16 maxTransferSize else length writeData);
           (_, p, writeBuffer) \<leftarrow> gmosBufferAppend p gmosBufferInit (take requestSize writeData);
           let (stackStatus, p, writeBuffer, x) = tcpSend ops tcpSocket p writeBuffer x;
           if stackStatus = GMOS_NETWORK_STATUS_SUCCESS
           then Some (GMOS_NETWORK_STATUS_SUCCESS, requestSize, p, x)
           else do {
             (_, p, writeBuffer) \<leftarrow> gmosBufferReset p writeBuffer 0;
             Some (stackStatus, 0, p, x) } })"

text \<open>The results are the status and the data read. Whether the rest fits into the stream is not checked.\<close>

definition gmosTcpipStackTcpRead ::
    "'x tcpOps \<Rightarrow> nat \<Rightarrow> mempool \<Rightarrow> gmosStream \<Rightarrow> nat \<Rightarrow> 'x \<Rightarrow>
     (gmosNetworkStatus \<times> byte list \<times> mempool \<times> gmosStream \<times> 'x) option" where
  "gmosTcpipStackTcpRead ops tcpSocket p rxStream requestSize x =
     (let (stackStatus, p, rxStream, payload, x) = tcpReceive ops tcpSocket p rxStream gmosBufferInit x
      in if stackStatus \<noteq> GMOS_NETWORK_STATUS_SUCCESS then Some (stackStatus, [], p, rxStream, x)
         else do {
           let payloadSize = gmosBufferGetSize payload;
           let (readSize, releaseBuffer) =
                 (if payloadSize > requestSize then (requestSize, False) else (payloadSize, True));
           r \<leftarrow> gmosBufferRead p payload 0 readSize;
           readData \<leftarrow> r;
           if releaseBuffer
           then do {
             (_, p, payload) \<leftarrow> gmosBufferReset p payload 0;
             Some (GMOS_NETWORK_STATUS_SUCCESS, readData, p, rxStream, x) }
           else do {
             (_, p, payload) \<leftarrow> gmosBufferRebase p payload (payloadSize - requestSize);
             (_, p, rxStream, payload) \<leftarrow> gmosStreamPushBackBuffer p rxStream payload;
             Some (GMOS_NETWORK_STATUS_SUCCESS, readData, p, rxStream, x) } })"

subsection \<open>Writing\<close>

declare bufs.simps [simp del]

text \<open>The driver takes the buffer over when it accepts it, and changes nothing when it does not.\<close>

definition tcpSendOk :: "'x tcpOps \<Rightarrow> bool" where
  "tcpSendOk ops \<longleftrightarrow> (\<forall>so p m ds r R x. bufs p ((m, ds) # r) R \<longrightarrow>
     (case tcpSend ops so p m x of (st, p', m', x') \<Rightarrow>
        if st = GMOS_NETWORK_STATUS_SUCCESS then \<exists>R'. bufs p' r R' else p' = p \<and> m' = m))"

lemma need_half: "n \<le> 32 * k \<Longrightarrow> need n \<le> k"
  using need_mono [of n "64 * k"] by (simp add: need_def GMOS_CONFIG_MEMPOOL_SEGMENT_SIZE_def)

lemma TcpWrite_ok:
  assumes "bufs p r R" "\<not> mempoolUseHeap p" "length ds < 65536" "tcpSendOk ops" "avail p \<noteq> 0"
  shows "\<exists>p1 m1 R1 st p' x'. buf_state p1 m1 (take (32 * avail p) ds) R1 \<and>
    st = fst (tcpSend ops so p1 m1 x) \<and>
    gmosTcpipStackTcpWrite ops so p ds x = Some (st,
      if st = GMOS_NETWORK_STATUS_SUCCESS then min (length ds) (32 * avail p) else 0, p', x') \<and>
    (if st = GMOS_NETWORK_STATUS_SUCCESS then \<exists>R'. bufs p' r R' else bufs p' r R \<and> avail p' = avail p)"
proof -
  let ?d = "take (32 * avail p) ds"
  have "bufs p ((gmosBufferInit, []) # r) R" using assms(1) by (simp only: bufs_Nil)
  then obtain R1 where R1: "R \<subseteq> R1" "buf_state p gmosBufferInit [] R1"
    "\<And>p' m' ds'. buf_state p' m' ds' R1 \<Longrightarrow> same_on R1 p p' \<Longrightarrow> bufs p' ((m', ds') # r) R"
    by (rule bufs_head) blast
  have "pool_ok p R1" using buf_state_Nil [OF R1(2)] by simp
  then have av: "avail p \<le> 65535" by (rule pool_ok_avail)
  have l: "length ?d < 65536" "length ?d \<le> 32 * avail p" using assms(3) by simp_all
  obtain ok p1 m1 where a: "gmosBufferAppend p gmosBufferInit ?d = Some (ok, p1, m1)" "same_on R1 p p1"
    "mempoolUseHeap p1 = mempoolUseHeap p"
    "ok \<longleftrightarrow> length ([] :: byte list) + length ?d < 65536 \<and>
       need (bufferOffset gmosBufferInit + length ([] :: byte list) + length ?d) -
       need (bufferOffset gmosBufferInit + length ([] :: byte list)) \<le> avail p"
    "buf_state p1 m1 (if ok then [] @ ?d else []) R1"
    "\<not> mempoolUseHeap p \<Longrightarrow> avail p1 =
      (if ok then avail p - (need (bufferOffset gmosBufferInit + length ([] :: byte list) + length ?d) -
         need (bufferOffset gmosBufferInit + length ([] :: byte list))) else avail p)"
    by (rule gmosBufferAppend_ok [OF R1(2) l(1)]) (rule that)
  have ok: "ok" using a(4) l(1) need_half [OF l(2)] by simp
  have st: "buf_state p1 m1 ?d R1" using a(5) ok by simp
  have av1: "avail p1 = avail p - need (length ?d)" using a(6) [OF assms(2)] ok by simp
  obtain st p2 m2 x2 where u: "tcpSend ops so p1 m1 x = (st, p2, m2, x2)" by (metis prod_cases4)
  have R2: "if st = GMOS_NETWORK_STATUS_SUCCESS then \<exists>R'. bufs p2 r R' else p2 = p1 \<and> m2 = m1"
    using assms(4) [unfolded tcpSendOk_def, rule_format, OF R1(3) [OF st a(2)], of so x] unfolding u prod.case .
  have mx: "u32 (gmosMempoolSegmentsAvailable p * (SEG div 2)) = 32 * avail p"
    using av by (simp add: gmosMempoolSegmentsAvailable_def GMOS_CONFIG_MEMPOOL_SEGMENT_SIZE_def)
  have tk: "take (min (length ds) (32 * avail p)) ds = ?d" "32 * avail p \<noteq> 0"
    "(if 32 * avail p < length ds then u16 (32 * avail p) else length ds) = min (length ds) (32 * avail p)"
    using assms(3,5) by (auto simp: min_def)
  have w: "gmosTcpipStackTcpWrite ops so p ds x =
      (if st = GMOS_NETWORK_STATUS_SUCCESS then Some (st, min (length ds) (32 * avail p), p2, x2)
       else do { (_, p, b) \<leftarrow> gmosBufferReset p2 m2 0; Some (st, 0, p, x2) })"
    unfolding gmosTcpipStackTcpWrite_def mx Let_def tk(3) using tk(2) by (simp only: tk(1) a(1)) (simp add: u)
  show ?thesis
  proof (cases "st = GMOS_NETWORK_STATUS_SUCCESS")
    case True
    then show ?thesis using st u w R2
      by (intro exI [of _ p1] exI [of _ m1] exI [of _ R1] exI [of _ st] exI [of _ p2] exI [of _ x2]) simp
  next
    case False
    obtain p3 where p3: "gmosBufferDiscardContents p1 m1 = Some (p3, gmosBufferInit)" "pool_ok p3 R1" "same_on R1 p1 p3"
      "mempoolUseHeap p3 = mempoolUseHeap p1"
      "\<not> mempoolUseHeap p1 \<Longrightarrow> avail p3 = avail p1 + need (bufferOffset m1 + length ?d)"
      by (rule gmosBufferDiscardContents_ok [OF st]) (rule that)
    have "avail p3 = avail p" using p3(5) a(3) assms(2) av1 need_half [OF l(2)] Append_offset [OF a(1)] by simp
    moreover have "bufs p3 ((gmosBufferInit, []) # r) R"
      by (rule R1(3) [OF buf_state_init [OF p3(2)] same_on_trans [OF a(2) p3(3)]])
    ultimately show ?thesis using st u w R2 False p3(1)
      by (intro exI [of _ p1] exI [of _ m1] exI [of _ R1] exI [of _ st] exI [of _ p3] exI [of _ x2])
        (simp add: bufs_Nil gmosBufferReset_def)
  qed
qed

subsection \<open>Reading\<close>

text \<open>Reading a stream leaves the offset of its end alone, and a static pool static.\<close>

lemma static_free: "\<not> mempoolUseHeap p \<Longrightarrow> gmosMempoolFree a p = Some p' \<Longrightarrow> \<not> mempoolUseHeap p'"
  by (auto simp: gmosMempoolFree_def checkUpperCapacityThreshold.simps split: option.splits)

lemma static_alloc: "gmosMempoolAlloc p = (a, p') \<Longrightarrow> \<not> mempoolUseHeap p \<Longrightarrow> \<not> mempoolUseHeap p'"
  by (auto simp: gmosMempoolAlloc_def Let_def checkLowerCapacityThreshold.simps split: option.splits)

lemma static_store: "streamStore s off ds p = Some p' \<Longrightarrow> \<not> mempoolUseHeap p \<Longrightarrow> \<not> mempoolUseHeap p'"
  by (auto simp: streamStore_def writeSeg_def split: if_splits)

lemma static_first: "streamFirstSegment start p st = Some (s, p', st') \<Longrightarrow> \<not> mempoolUseHeap p \<Longrightarrow> \<not> mempoolUseHeap p'"
  by (auto simp: streamFirstSegment_def setNext_def split: prod.splits bind_splits dest: static_alloc)

lemma static_append: "streamAppendSegment s p = Some (s', p') \<Longrightarrow> \<not> mempoolUseHeap p \<Longrightarrow> \<not> mempoolUseHeap p'"
  by (auto simp: streamAppendSegment_def setNext_def Let_def split: prod.splits bind_splits dest: static_alloc)

lemma static_write_loop: "streamWriteLoop s p st w = Some (p', st') \<Longrightarrow> \<not> mempoolUseHeap p \<Longrightarrow> \<not> mempoolUseHeap p'"
proof (induction s p st w rule: streamWriteLoop.induct)
  case (1 s p st w)
  show ?case
  proof (cases "w = []")
    case True
    then show ?thesis using "1.prems" by (simp add: streamWriteLoop.simps)
  next
    case False
    with "1.prems"(1) obtain s1 p1 p2 where r: "streamAppendSegment s p = Some (s1, p1)"
      "streamStore s1 0 (take (min SEG (length w)) w) p1 = Some p2"
      "streamWriteLoop s1 p2 (st\<lparr>writeOffset := min SEG (length w), streamSize := u16 (streamSize st + min SEG (length w))\<rparr>)
         (drop (min SEG (length w)) w) = Some (p', st')"
      by (subst (asm) streamWriteLoop.simps) (auto simp: Let_def split: bind_splits)
    have "\<not> mempoolUseHeap p2" using static_store [OF r(2) static_append [OF r(1) "1.prems"(2)]] .
    from "1.IH" [OF False r(1) refl refl r(2,3) this] show ?thesis .
  qed
qed

lemma static_push_loop: "streamPushBackLoop p st w = Some (p', st') \<Longrightarrow> \<not> mempoolUseHeap p \<Longrightarrow> \<not> mempoolUseHeap p'"
proof (induction p st w rule: streamPushBackLoop.induct)
  case (1 p st w)
  show ?case
  proof (cases "w = []")
    case True
    then show ?thesis using "1.prems" by (simp add: streamPushBackLoop.simps)
  next
    case False
    let ?c = "min SEG (length w)"
    obtain a p1 where a: "(a, p1) = gmosMempoolAlloc p" by (metis prod.exhaust)
    with False "1.prems"(1) obtain s p2 where r: "a = Some s"
      "streamStore s (SEG - ?c) (drop (length w - ?c) w) (setNext s (streamSegments st) p1) = Some p2"
      "streamPushBackLoop p2 (st\<lparr>streamSegments := Some s, readOffset := SEG - ?c, streamSize := u16 (streamSize st + ?c)\<rparr>)
         (take (length w - ?c) w) = Some (p', st')"
      by (subst (asm) streamPushBackLoop.simps) (auto simp: Let_def split: bind_splits prod.splits)
    have "\<not> mempoolUseHeap (setNext s (streamSegments st) p1)"
      using static_alloc [OF a [symmetric] "1.prems"(2)] by (simp add: setNext_def)
    then have "\<not> mempoolUseHeap p2" by (rule static_store [OF r(2)])
    from "1.IH" [OF False a refl r(1) refl refl refl refl r(2,3) this] show ?thesis .
  qed
qed

lemma static_write:
  "gmosStreamCommonWrite p sc st w = Some (p', sc', st') \<Longrightarrow> \<not> mempoolUseHeap p \<Longrightarrow> \<not> mempoolUseHeap p'"
  by (auto simp: gmosStreamCommonWrite_def streamWriteSegment_def Let_def split: if_splits bind_splits prod.splits
      dest: static_first static_store static_write_loop)

lemma static_push:
  "gmosStreamPushBack p st w = Some (ok, p', st') \<Longrightarrow> \<not> mempoolUseHeap p \<Longrightarrow> \<not> mempoolUseHeap p'"
  by (auto simp: gmosStreamPushBack_def Let_def split: if_splits bind_splits prod.splits option.splits
      dest: static_first static_store static_push_loop)

lemma CommonRead_keeps:
  assumes "gmosStreamCommonRead p st n = Some (r, p', st')"
  shows "writeOffset st' = writeOffset st \<and> (\<not> mempoolUseHeap p \<longrightarrow> \<not> mempoolUseHeap p')"
proof -
  have "case y of (r, p', st') \<Rightarrow> writeOffset st' = writeOffset st \<and> (\<not> mempoolUseHeap p \<longrightarrow> \<not> mempoolUseHeap p')"
    if "gmosStreamCommonRead p st n = Some y" for p st n y
    using that
  proof (rule gmosStreamCommonRead.raw_induct [rotated])
    fix g p st n y
    assume ih: "\<And>p st n y. g p st n = Some y \<Longrightarrow>
        case y of (r, p', st') \<Rightarrow> writeOffset st' = writeOffset st \<and> (\<not> mempoolUseHeap p \<longrightarrow> \<not> mempoolUseHeap p')"
      and e: "(if 0 < n then do {
          s \<leftarrow> streamSegments st;
          let copySize = min (sub32 SEG (readOffset st)) n;
          block \<leftarrow> streamLoad s (readOffset st) copySize p;
          (p, st) \<leftarrow> streamReleaseHead s p
            (st\<lparr>readOffset := u16 (readOffset st + copySize), streamSize := u16 (sub32 (streamSize st) copySize)\<rparr>);
          (readData, p, st) \<leftarrow> g p st (n - copySize);
          Some (block @ readData, p, st) } else Some ([], p, st)) = Some y"
    show "case y of (r, p', st') \<Rightarrow> writeOffset st' = writeOffset st \<and> (\<not> mempoolUseHeap p \<longrightarrow> \<not> mempoolUseHeap p')"
      using e by (auto simp: Let_def streamReleaseHead_def split: if_splits bind_splits prod.splits
          dest!: ih dest: static_free)
  qed
  from this [OF assms] show ?thesis by simp
qed

text \<open>
  The receive stream of a socket: the descriptors of the received buffers, which own their segments
  beside those of the stream.
\<close>

definition rxQueue :: "mempool \<Rightarrow> gmosStream \<Rightarrow> (gmosBuffer \<times> byte list) list \<Rightarrow> nat set \<Rightarrow> bool" where
  "rxQueue p st q R \<longleftrightarrow>
     (\<exists>xs. stream_rep p st xs (concat (map (bufferBytes \<circ> fst) q)) \<and> set xs \<inter> R = {} \<and> bufs p q (set xs \<union> R))"

lemma bufs_frame:
  "bufs p r (A \<union> R) \<Longrightarrow> A \<inter> R = {} \<Longrightarrow> \<exists>S. A \<inter> S = {} \<and> R \<subseteq> S \<and> pool_ok p (A \<union> S) \<and>
     (\<forall>p' A'. pool_ok p' (A' \<union> S) \<longrightarrow> A' \<inter> S = {} \<longrightarrow> same_on S p p' \<longrightarrow> bufs p' r (A' \<union> R))"
proof (induction r arbitrary: R)
  case Nil
  then show ?case by (intro exI [of _ R]) (auto simp: bufs.simps)
next
  case (Cons y r)
  from Cons.prems(1) obtain b ds xs where y: "y = (b, ds)" "buf_rep p b xs ds" "set xs \<inter> (A \<union> R) = {}"
    "bufs p r (set xs \<union> (A \<union> R))" by (rule bufs_ConsE)
  have "bufs p r (A \<union> (set xs \<union> R))" using y(4) by (simp only: Un_left_commute)
  from Cons.IH [OF this] obtain S where S: "A \<inter> S = {}" "set xs \<union> R \<subseteq> S" "pool_ok p (A \<union> S)"
    "\<And>p' A'. pool_ok p' (A' \<union> S) \<Longrightarrow> A' \<inter> S = {} \<Longrightarrow> same_on S p p' \<Longrightarrow> bufs p' r (A' \<union> (set xs \<union> R))"
    using y(3) Cons.prems(2) by blast
  have "bufs p' (y # r) (A' \<union> R)" if a: "pool_ok p' (A' \<union> S)" "A' \<inter> S = {}" "same_on S p p'" for p' A'
    unfolding y(1)
  proof (rule bufs_ConsI)
    show "buf_rep p' b xs ds" using buf_rep_same_on [OF y(2) a(3)] S(2) by simp
    show "set xs \<inter> (A' \<union> R) = {}" using a(2) S(2) y(3) by blast
    show "bufs p' r (set xs \<union> (A' \<union> R))" using S(4) [OF a] by (simp only: Un_left_commute)
  qed
  then show ?case using S(1-3) by blast
qed

text \<open>After a descriptor has been taken off the stream there is room to put one back.\<close>

lemma AcceptBuffer_room:
  assumes st: "stream_state p st (bufferBytes b @ ds) R N" and b: "bytesBuffer (bufferBytes b) = b"
    and static: "\<not> mempoolUseHeap p"
  obtains p' st' where "gmosStreamAcceptBuffer p st gmosBufferInit = Some (True, p', st', b)"
    "stream_state p' st' ds R N" "same_on R p p'" "\<not> mempoolUseHeap p'" "8 \<le> pushRoom p' st'"
proof -
  obtain p' st' where r: "gmosStreamReadAll p st 8 = Some (Some (bufferBytes b), p', st')"
    "stream_state p' st' ds R N" "same_on R p p'" "maxSize st' = maxSize st"
    by (rule ReadAll_ok [OF st, of 8]) auto
  then have "gmosStreamCommonRead p st 8 = Some (bufferBytes b, p', st')"
    using stream_state_capacity(2) [OF st] by (auto simp: gmosStreamReadAll_def split: bind_splits)
  note k = CommonRead_keeps [OF this]
  have e: "gmosStreamAcceptBuffer p st gmosBufferInit = Some (True, p', st', b)"
    by (simp add: gmosStreamAcceptBuffer_def gmosBufferReset_def gmosBufferDiscardContents_def r(1) b)
  obtain xs xs' where x: "stream_rep p st xs (bufferBytes b @ ds)" "stream_pool p xs R N"
    "stream_rep p' st' xs' ds" "stream_pool p' xs' R N" using st r(2) by (auto simp: stream_state_def)
  note s = stream_coreD [OF stream_rep_core [OF x(1)]] and s' = stream_coreD [OF stream_rep_core [OF x(3)]]
  have ne: "xs \<noteq> []" using stream_rep_Nil [OF x(1)] by (metis append_is_Nil_conv length_0_conv length_bufferBytes zero_neq_numeral)
  have av: "avail p + length xs = N" "avail p' + length xs' = N"
    using stream_poolD(4) [OF x(2)] stream_poolD(4) [OF x(4)] static k by auto
  have "8 \<le> (if streamSegments st' = None then 0 else readOffset st') + SEG * avail p'"
  proof (cases "avail p' = 0")
    case True
    then have le: "length xs \<le> length xs'" using av by simp
    then have ne': "xs' \<noteq> []" using ne by auto
    have "SEG * length xs \<le> SEG * length xs'" using le by simp
    then have "8 \<le> readOffset st'" using s(8) [OF ne] s'(8) [OF ne'] conjunct1 [OF k]
      by (simp only: length_append length_bufferBytes)
    then show ?thesis using s'(10) ne' by (cases "streamSegments st'") auto
  next
    case False
    then have "SEG \<le> SEG * avail p'" by simp
    then show ?thesis by (simp add: GMOS_CONFIG_MEMPOOL_SEGMENT_SIZE_def)
  qed
  moreover have "8 \<le> maxSize st' - streamSize st'" using s(2,3) s'(2) r(4) by simp
  ultimately have "8 \<le> pushRoom p' st'" by (simp add: pushRoom_def)
  with e r(2,3) k static show thesis by (intro that) auto
qed

lemma rxQueueI:
  assumes "stream_state p st (concat (map (bufferBytes \<circ> fst) q)) S N" "R \<subseteq> S"
    and "\<And>xs. pool_ok p (set xs \<union> S) \<Longrightarrow> set xs \<inter> S = {} \<Longrightarrow> bufs p q (set xs \<union> R)"
  shows "rxQueue p st q R"
  using assms by (fastforce simp: rxQueue_def stream_state_def stream_pool_def)

lemma Rebase_shrink:
  assumes st: "buf_state p b ds R" and "\<not> mempoolUseHeap p" "n < length ds"
  obtains p' b' where "gmosBufferRebase p b (length ds - n) = Some (True, p', b')" "same_on R p p'"
    "buf_state p' b' (drop n ds) R" "avail p \<le> avail p'" "\<not> mempoolUseHeap p'"
proof (cases "n = 0")
  case True
  then show thesis using st assms(2,3) buf_state_size [OF st] by (intro that [of p b]) (auto simp: gmosBufferRebase_def)
next
  case False
  have k: "length ds - n < 65536" "length ds - n < length ds" "length ds - n \<noteq> 0" using buf_state_size [OF st] False assms(3) by auto
  obtain ok p' b' where r: "gmosBufferRebase p b (length ds - n) = Some (ok, p', b')" "same_on R p p'"
    "mempoolUseHeap p' = mempoolUseHeap p" "ok \<longleftrightarrow> need (length ds - n - length ds - bufferOffset b) \<le> avail p"
    "ok \<Longrightarrow> \<exists>junk. length junk = length ds - n - length ds \<and>
       buf_state p' b' (junk @ drop (length ds - (length ds - n)) ds) R"
    "\<not> mempoolUseHeap p \<Longrightarrow> length ds - n < length ds \<Longrightarrow>
       avail p' = avail p + (if length ds - n = 0 then need (bufferOffset b + length ds)
         else (bufferOffset b + (length ds - (length ds - n))) div SEG)"
    by (rule gmosBufferRebase_ok [OF st k(1)]) (rule that)
  have "ok" using r(4) k by simp
  then show thesis using r(1,2,3,5) r(6) [OF assms(2) k(2)] assms(2,3) by (intro that [of p' b']) auto
qed

lemma TcpRead_ok:
  assumes q: "rxQueue p st ((b, ds) # q) R" and static: "\<not> mempoolUseHeap p"
    and rx: "tcpReceive ops so p st gmosBufferInit x = (GMOS_NETWORK_STATUS_SUCCESS, p1, st1, m, x1)"
      "gmosStreamAcceptBuffer p st gmosBufferInit = Some (True, p1, st1, m)"
  shows "\<exists>p' st' b'. gmosTcpipStackTcpRead ops so p st n x =
      Some (GMOS_NETWORK_STATUS_SUCCESS, take n ds, p', st', x1) \<and>
    rxQueue p' st' (if length ds \<le> n then q else (b', drop n ds) # q) R \<and> \<not> mempoolUseHeap p'"
proof -
  let ?rest = "concat (map (bufferBytes \<circ> fst) q)"
  from q obtain xs where xs: "stream_rep p st xs (bufferBytes b @ ?rest)" "set xs \<inter> R = {}"
    "bufs p ((b, ds) # q) (set xs \<union> R)" by (auto simp: rxQueue_def)
  from xs(3) obtain bx where bx: "buf_rep p b bx ds" "set bx \<inter> (set xs \<union> R) = {}"
    "bufs p q (set bx \<union> (set xs \<union> R))" by (auto simp: bufs.simps)
  have "bufs p q ((set xs \<union> set bx) \<union> R)" using bx(3) by (simp only: Un_ac)
  from bufs_frame [OF this] obtain S where S: "(set xs \<union> set bx) \<inter> S = {}" "R \<subseteq> S" "pool_ok p ((set xs \<union> set bx) \<union> S)"
    "\<And>p' A'. pool_ok p' (A' \<union> S) \<Longrightarrow> A' \<inter> S = {} \<Longrightarrow> same_on S p p' \<Longrightarrow> bufs p' q (A' \<union> R)"
    using xs(2) bx(2) by blast
  have pool: "pool_ok p (set xs \<union> (set bx \<union> S))" using S(3) by (simp only: Un_assoc)
  have bb: "bytesBuffer (bufferBytes b) = b" by (rule buf_rep_bytes [OF bx(1) pool]) auto
  have "set xs \<inter> (set bx \<union> S) = {}" using S(1) bx(2) by blast
  then have st: "stream_state p st (bufferBytes b @ ?rest) (set bx \<union> S) (avail p + length xs)"
    using xs(1) pool by (auto simp: stream_state_def stream_pool_def)
  obtain r: "m = b" "stream_state p1 st1 ?rest (set bx \<union> S) (avail p + length xs)" "same_on (set bx \<union> S) p p1"
    "\<not> mempoolUseHeap p1" "8 \<le> pushRoom p1 st1"
    by (rule AcceptBuffer_room [OF st bb static]) (use rx(2) in auto)
  from r(2) obtain ys where ys: "stream_rep p1 st1 ys ?rest" "pool_ok p1 (set ys \<union> (set bx \<union> S))"
    "set ys \<inter> (set bx \<union> S) = {}" by (auto simp: stream_state_def stream_pool_def)
  have b1: "buf_rep p1 b bx ds" by (rule buf_rep_same_on [OF bx(1) r(3)]) simp
  have bs: "buf_state p1 b ds (set ys \<union> S)"
    using b1 ys(2,3) S(1) by (intro buf_stateI) (auto simp: Un_ac)
  note sz = buf_state_size [OF bs]
  have sS: "same_on S p p1" using same_on_mono [OF r(3)] by simp
  show ?thesis
  proof (cases "length ds \<le> n")
    case True
    obtain p2 where p2: "gmosBufferReset p1 b 0 = Some (True, p2, gmosBufferInit)" "buf_state p2 gmosBufferInit [] (set ys \<union> S)"
      "same_on (set ys \<union> S) p1 p2" "\<not> mempoolUseHeap p2" by (rule Reset_zero [OF bs]) (use r(4) in simp)
    have "gmosTcpipStackTcpRead ops so p st n x = Some (GMOS_NETWORK_STATUS_SUCCESS, take n ds, p2, st1, x1)"
      using True rx(1) r(1) sz p2(1) gmosBufferRead_ok [OF bs, of 0 "length ds"]
      by (simp add: gmosTcpipStackTcpRead_def gmosBufferGetSize_def)
    moreover have "rxQueue p2 st1 q R"
    proof -
      have "bufs p2 q (set ys \<union> R)"
        using S(4) [of p2 "set ys"] buf_state_Nil [OF p2(2)] ys(3) same_on_trans [OF sS same_on_mono [OF p2(3)]] by auto
      moreover have "stream_rep p2 st1 ys ?rest" by (rule stream_rep_same_on [OF ys(1) p2(3)]) simp
      ultimately show ?thesis using ys(3) S(2) by (auto simp: rxQueue_def)
    qed
    ultimately show ?thesis using True p2(4) by simp
  next
    case False
    let ?k = "length ds - n"
    have k: "?k < 65536" "?k \<le> length ds" using sz by auto
    obtain p2 b2 where p2: "gmosBufferRebase p1 b ?k = Some (True, p2, b2)" "same_on (set ys \<union> S) p1 p2"
      "buf_state p2 b2 (drop n ds) (set ys \<union> S)" "avail p1 \<le> avail p2" "\<not> mempoolUseHeap p2"
      by (rule Rebase_shrink [OF bs r(4), of n]) (use False that in auto)
    from p2(3) obtain cx where cx: "buf_rep p2 b2 cx (drop n ds)" "set cx \<inter> (set ys \<union> S) = {}"
      "pool_ok p2 (set cx \<union> (set ys \<union> S))" by (auto simp: buf_state_def)
    have "stream_rep p2 st1 ys ?rest" by (rule stream_rep_same_on [OF ys(1) p2(2)]) simp
    then have st2: "stream_state p2 st1 ?rest (set cx \<union> S) (avail p2 + length ys)"
      using cx(2,3) ys(3) by (auto simp: stream_state_def stream_pool_def Un_ac)
    have "SEG * avail p1 \<le> SEG * avail p2" using p2(4) by simp
    then have "8 \<le> pushRoom p2 st1" using r(5) unfolding pushRoom_def by linarith
    then obtain p3 st3 b3 where p3: "gmosStreamPushBackBuffer p2 st1 b2 = Some (True, p3, st3, b3)"
      "stream_state p3 st3 (bufferBytes b2 @ ?rest) (set cx \<union> S) (avail p2 + length ys)" "same_on (set cx \<union> S) p2 p3"
      by - (rule PushBackBuffer_ok [OF st2, of b2], simp)
    have "gmosTcpipStackTcpRead ops so p st n x = Some (GMOS_NETWORK_STATUS_SUCCESS, take n ds, p3, st3, x1)"
      using False rx(1) r(1) sz p2(1) p3(1) gmosBufferRead_ok [OF bs, of 0 n]
      by (simp add: gmosTcpipStackTcpRead_def gmosBufferGetSize_def)
    moreover have "rxQueue p3 st3 ((b2, drop n ds) # q) R"
    proof (rule rxQueueI)
      show "stream_state p3 st3 (concat (map (bufferBytes \<circ> fst) ((b2, drop n ds) # q))) (set cx \<union> S) (avail p2 + length ys)"
        using p3(2) by simp
      show "R \<subseteq> set cx \<union> S" using S(2) by blast
      fix zs assume z: "pool_ok p3 (set zs \<union> (set cx \<union> S))" "set zs \<inter> (set cx \<union> S) = {}"
      have "same_on S p p3"
        using same_on_trans [OF sS same_on_trans [OF same_on_mono [OF p2(2)] same_on_mono [OF p3(3)]]] by auto
      moreover have "pool_ok p3 ((set cx \<union> set zs) \<union> S)" using z(1) by (simp only: Un_ac)
      moreover have "(set cx \<union> set zs) \<inter> S = {}" using z(2) cx(2) by blast
      ultimately have "bufs p3 q ((set cx \<union> set zs) \<union> R)" using S(4) by blast
      moreover have "buf_rep p3 b2 cx (drop n ds)" by (rule buf_rep_same_on [OF cx(1) p3(3)]) simp
      ultimately show "bufs p3 ((b2, drop n ds) # q) (set zs \<union> R)"
        using z(2) cx(2) S(2) by (intro bufs_ConsI [where xs = cx]) (auto simp: Un_ac)
    qed
    moreover have "\<not> mempoolUseHeap p3" using p3(1) p2(5)
      by (auto simp: gmosStreamPushBackBuffer_def split: bind_splits if_splits dest: static_push)
    ultimately show ?thesis using False by auto
  qed
qed

lemma AcceptBuffer_empty:
  assumes "rxQueue p st [] R"
  shows "gmosStreamAcceptBuffer p st gmosBufferInit = Some (False, p, st, gmosBufferInit)"
proof -
  from assms have "streamSize st = 0" by (auto simp: rxQueue_def stream_rep_def stream_core_def)
  then show ?thesis
    by (simp add: gmosStreamAcceptBuffer_def gmosBufferReset_def gmosBufferDiscardContents_def gmosStreamReadAll_def)
qed

text \<open>The driver takes the next buffer off the stream, or changes nothing.\<close>

definition tcpReceiveOk :: "'x tcpOps \<Rightarrow> bool" where
  "tcpReceiveOk ops \<longleftrightarrow> (\<forall>so p st x.
     (case tcpReceive ops so p st gmosBufferInit x of (status, p', st', m', x') \<Rightarrow>
        if status = GMOS_NETWORK_STATUS_SUCCESS
        then gmosStreamAcceptBuffer p st gmosBufferInit = Some (True, p', st', m') else p' = p \<and> st' = st))"

text \<open>A driver to start from: it keeps every buffer, and its stream is the receive stream.\<close>

definition demoTcp :: "unit tcpOps" where
  "demoTcp = \<lparr>tcpOpen = (\<lambda>_ _ x. (Some 0, x)), tcpConnect = (\<lambda>_ _ _ x. (GMOS_NETWORK_STATUS_SUCCESS, x)),
     tcpSend = (\<lambda>_ p m x. (GMOS_NETWORK_STATUS_SUCCESS, p, gmosBufferInit, x)),
     tcpReceive = (\<lambda>_ p st m x. case gmosStreamAcceptBuffer p st m of
        Some (True, p', st', m') \<Rightarrow> (GMOS_NETWORK_STATUS_SUCCESS, p', st', m', x)
      | _ \<Rightarrow> (GMOS_NETWORK_STATUS_RETRY, p, st, m, x)),
     tcpClose = (\<lambda>_ x. (GMOS_NETWORK_STATUS_SUCCESS, x)), dhcpInUse = True, dhcpReady = (\<lambda>_. True)\<rparr>"

lemma demoTcp_send: "tcpSendOk demoTcp"
  unfolding tcpSendOk_def demoTcp_def by (auto elim!: bufs_ConsE)

lemma demoTcp_receive: "tcpReceiveOk demoTcp"
  by (auto simp: tcpReceiveOk_def demoTcp_def split: option.split bool.split)

subsection \<open>Properties\<close>

text \<open>
  C36: Writing an array never takes more than half of the free memory of a static pool: the driver
  is offered a buffer with as many bytes from the front of the array as fit into half of the free
  segments. Its answer is the result. When it accepts, the transfer size is that number and the
  buffers of all other clients are as before; when it refuses, the transfer size is 0, the segments
  taken are free again and nothing has changed for anybody. Without a free segment the driver is
  not called and the result is to try again.
\<close>

theorem tcp_write:
  assumes "bufs p r R" "\<not> mempoolUseHeap p" "length ds < 65536" "tcpSendOk ops"
  shows "if avail p = 0 then gmosTcpipStackTcpWrite ops so p ds x = Some (GMOS_NETWORK_STATUS_RETRY, 0, p, x)
    else \<exists>p1 m1 R1 st p' x'. buf_state p1 m1 (take (32 * avail p) ds) R1 \<and>
      st = fst (tcpSend ops so p1 m1 x) \<and>
      gmosTcpipStackTcpWrite ops so p ds x = Some (st,
        if st = GMOS_NETWORK_STATUS_SUCCESS then min (length ds) (32 * avail p) else 0, p', x') \<and>
      (if st = GMOS_NETWORK_STATUS_SUCCESS then \<exists>R'. bufs p' r R' else bufs p' r R \<and> avail p' = avail p)"
  using TcpWrite_ok [OF assms]
  by (simp add: gmosTcpipStackTcpWrite_def gmosMempoolSegmentsAvailable_def)

theorem tcp_write_witness:
  "\<exists>p' R'. gmosTcpipStackTcpWrite demoTcp 0 bootPool [1, 2, 3] () =
     Some (GMOS_NETWORK_STATUS_SUCCESS, 3, p', ()) \<and> bufs p' [] R'"
proof -
  have "bufs bootPool [] {}" using bootPool_ok(1) by (simp add: bufs.simps)
  from tcp_write [OF this bootPool_ok(3) _ demoTcp_send, where ds = "[1, 2, 3]" and so = 0 and x = "()"] show ?thesis
    by (auto simp: bootPool_ok(2) demoTcp_def)
qed

text \<open>
  C37: Reading into an array loses nothing: the bytes returned followed by the bytes still queued
  are the bytes that were queued. A success returns the front of the first received buffer, at most
  as many bytes as requested, and puts the rest of that buffer back in front of the queue, for
  which a static pool always has room although the code does not check it.
\<close>

theorem tcp_read:
  assumes "rxQueue p st q R" "\<not> mempoolUseHeap p" "tcpReceiveOk ops"
  shows "\<exists>s ds p' st' x' q'. gmosTcpipStackTcpRead ops so p st n x = Some (s, ds, p', st', x') \<and>
    s = fst (tcpReceive ops so p st gmosBufferInit x) \<and> rxQueue p' st' q' R \<and> \<not> mempoolUseHeap p' \<and>
    ds @ concat (map snd q') = concat (map snd q) \<and>
    (if s = GMOS_NETWORK_STATUS_SUCCESS
     then \<exists>b d r. q = (b, d) # r \<and> ds = take n d \<and>
       map snd q' = (if length d \<le> n then [] else [drop n d]) @ map snd r
     else ds = [] \<and> p' = p \<and> st' = st)"
proof -
  obtain s p1 st1 m x1 where u: "tcpReceive ops so p st gmosBufferInit x = (s, p1, st1, m, x1)" by (metis prod_cases5)
  have c: "if s = GMOS_NETWORK_STATUS_SUCCESS
      then gmosStreamAcceptBuffer p st gmosBufferInit = Some (True, p1, st1, m) else p1 = p \<and> st1 = st"
    using assms(3) [unfolded tcpReceiveOk_def, THEN spec, of so, THEN spec, of p, THEN spec, of st, THEN spec, of x] unfolding u prod.case .
  show ?thesis
  proof (cases "s = GMOS_NETWORK_STATUS_SUCCESS")
    case False
    then show ?thesis using assms(1,2) u c by (auto simp: gmosTcpipStackTcpRead_def)
  next
    case True
    have "q \<noteq> []" using assms(1) c True AcceptBuffer_empty [of p st R] by auto
    then obtain b d r where q: "q = (b, d) # r" by (metis list.exhaust prod.exhaust)
    from TcpRead_ok [OF assms(1) [unfolded q] assms(2)] u c True obtain p' st' b' where
      "gmosTcpipStackTcpRead ops so p st n x = Some (GMOS_NETWORK_STATUS_SUCCESS, take n d, p', st', x1)"
      "rxQueue p' st' (if length d \<le> n then r else (b', drop n d) # r) R" "\<not> mempoolUseHeap p'" by fastforce
    then show ?thesis unfolding q using u True
      by (intro exI [of _ s] exI [of _ "take n d"] exI [of _ p'] exI [of _ st'] exI [of _ x1]
            exI [of _ "if length d \<le> n then r else (b', drop n d) # r"]) auto
  qed
qed

theorem tcp_read_witness:
  "\<exists>p st p' st' q' R. gmosTcpipStackTcpRead demoTcp 0 p st 1 () = Some (GMOS_NETWORK_STATUS_SUCCESS, [4], p', st', ()) \<and>
     rxQueue p' st' q' R \<and> map snd q' = [[5]]"
proof -
  obtain p b R where st: "buf_state p b [4, 5] R" "\<not> mempoolUseHeap p" "avail p = 62" by (rule boot_buf)
  from st(1) obtain bx where rep: "buf_rep p b bx [4, 5]" "set bx \<inter> R = {}" and ok: "pool_ok p (set bx \<union> R)"
    by (auto simp: buf_state_def)
  have s: "stream_state p demoStream [] (set bx \<union> R) 62"
    using stream_state_init [of p "set bx \<union> R" 200] ok st(3) by (simp add: demoStream_def)
  have "8 \<le> writeRoom p demoStream" using st(3)
    by (simp add: writeRoom_def demoStream_def gmosStreamInit_def GMOS_CONFIG_MEMPOOL_SEGMENT_SIZE_def)
  then obtain p1 st1 sc1 b1 where r: "gmosStreamSendBuffer p bootSched demoStream b = Some (True, p1, sc1, st1, b1)"
    "stream_state p1 st1 (bufferBytes b) (set bx \<union> R) 62" "same_on (set bx \<union> R) p p1"
    by - (rule SendBuffer_ok [OF s demoSched_ok, of b], simp)
  have static: "\<not> mempoolUseHeap p1" using r(1) st(2)
    by (auto simp: gmosStreamSendBuffer_def gmosStreamWriteAll_def split: if_splits bind_splits dest: static_write)
  have b: "buf_rep p1 b bx [4, 5]" by (rule buf_rep_same_on [OF rep(1) r(3)]) simp
  have q: "rxQueue p1 st1 [(b, [4, 5])] R"
  proof (rule rxQueueI)
    show "stream_state p1 st1 (concat (map (bufferBytes \<circ> fst) [(b, [4, 5])])) (set bx \<union> R) 62" using r(2) by simp
    fix zs assume "pool_ok p1 (set zs \<union> (set bx \<union> R))" "set zs \<inter> (set bx \<union> R) = {}"
    then show "bufs p1 [(b, [4, 5])] (set zs \<union> R)"
      using b rep(2) by (intro bufs_ConsI [where xs = bx]) (auto simp: bufs.simps Un_ac)
  qed simp
  have "fst (tcpReceive demoTcp 0 p1 st1 gmosBufferInit ()) = GMOS_NETWORK_STATUS_SUCCESS"
  proof -
    from r(2) obtain ys where "pool_ok p1 (set ys \<union> (set bx \<union> R))" by (auto simp: stream_state_def stream_pool_def)
    then have "bytesBuffer (bufferBytes b) = b" by (rule buf_rep_bytes [OF b]) auto
    note bb = this
    have "stream_state p1 st1 (bufferBytes b @ []) (set bx \<union> R) 62" using r(2) by simp
    then obtain p2 st2 where "gmosStreamAcceptBuffer p1 st1 gmosBufferInit = Some (True, p2, st2, b)"
      by (rule AcceptBuffer_room [OF _ bb static]) (rule that)
    then show ?thesis by (simp add: demoTcp_def)
  qed
  moreover obtain s ds p' st' x' q' where z: "gmosTcpipStackTcpRead demoTcp 0 p1 st1 1 () = Some (s, ds, p', st', x')"
    "s = fst (tcpReceive demoTcp 0 p1 st1 gmosBufferInit ())" "rxQueue p' st' q' R"
    "if s = GMOS_NETWORK_STATUS_SUCCESS
     then \<exists>b' d r. [(b, [4, 5])] = (b', d) # r \<and> ds = take 1 d \<and>
       map snd q' = (if length d \<le> 1 then [] else [drop 1 d]) @ map snd r
     else ds = [] \<and> p' = p1 \<and> st' = st1"
    using tcp_read [OF q static demoTcp_receive, where n = 1 and so = 0 and x = "()"]
    by (elim exE conjE) (rule that)
  ultimately have "s = GMOS_NETWORK_STATUS_SUCCESS" "ds = [4]" "map snd q' = [[5]]" by auto
  then show ?thesis using z(1,3)
    by (intro exI [of _ p1] exI [of _ st1] exI [of _ p'] exI [of _ st'] exI [of _ q'] exI [of _ R]) simp
qed

end
