(* ===== verification/Gmos_Tcp_Link.thy ===== *)
theory Gmos_Tcp_Link
  imports Gmos_Tcp_Stack Gmos_Dns_Worker
begin

text \<open>
  TCP links: the state machine of network/tcpip/common/src/gmos-tcpip-links.c behind the interface of
  network/common/include/gmos-network-links.h. A link resolves a name with the DNS client, connects,
  and passes the state of the connection on to its user. The functions of the network driver are
  parameters, and the calls of the handler of the user are the list of its notifications; what a
  handler may call in its turn, while the code has not yet stored the new state, is not modelled.
\<close>

subsection \<open>Notifications\<close>

datatype gmosTcpipStackNotify =
    GMOS_TCPIP_STACK_NOTIFY_PHY_LINK_UP
  | GMOS_TCPIP_STACK_NOTIFY_PHY_LINK_DOWN
  | GMOS_TCPIP_STACK_NOTIFY_UDP_SOCKET_OPENED
  | GMOS_TCPIP_STACK_NOTIFY_UDP_SOCKET_CLOSED
  | GMOS_TCPIP_STACK_NOTIFY_UDP_MESSAGE_SENT
  | GMOS_TCPIP_STACK_NOTIFY_UDP_ARP_TIMEOUT
  | GMOS_TCPIP_STACK_NOTIFY_TCP_SOCKET_OPENED
  | GMOS_TCPIP_STACK_NOTIFY_TCP_SOCKET_CONNECTED
  | GMOS_TCPIP_STACK_NOTIFY_TCP_SOCKET_CLOSED
  | GMOS_TCPIP_STACK_NOTIFY_TCP_CONNECT_TIMEOUT

datatype gmosNetworkNotify = GMOS_NETWORK_NOTIFY_CONNECTED | GMOS_NETWORK_NOTIFY_DISCONNECTED

subsection \<open>The interface of a network link\<close>

text \<open>
  What the user of a link is to be told: each change between up and down. The steps of a link are
  those of its provider; a run collects, for each of them, whether the link has a handler at that
  time and the notifications the handler gets.
\<close>

definition notifyChange :: "bool \<Rightarrow> bool \<Rightarrow> gmosNetworkNotify list" where
  "notifyChange up up' =
     (if up = up' then [] else if up' then [GMOS_NETWORK_NOTIFY_CONNECTED] else [GMOS_NETWORK_NOTIFY_DISCONNECTED])"

inductive notifyRun :: "('s \<Rightarrow> gmosNetworkNotify list \<Rightarrow> 's \<Rightarrow> bool) \<Rightarrow> ('s \<Rightarrow> bool) \<Rightarrow> 's \<Rightarrow>
    (bool \<times> gmosNetworkNotify list) list \<Rightarrow> 's \<Rightarrow> bool"
  for stp :: "'s \<Rightarrow> gmosNetworkNotify list \<Rightarrow> 's \<Rightarrow> bool" and handler :: "'s \<Rightarrow> bool" where
  start: "notifyRun stp handler s [] s"
| step: "notifyRun stp handler s ts s1 \<Longrightarrow> stp s1 out s2 \<Longrightarrow> notifyRun stp handler s (ts @ [(handler s1, out)]) s2"

text \<open>Notifications are delivered when there is a handler to take them.\<close>

definition delivered :: "(bool \<times> gmosNetworkNotify list) list \<Rightarrow> gmosNetworkNotify list list \<Rightarrow> bool" where
  "delivered ts ds \<longleftrightarrow> list_all2 (\<lambda>(h, out) d. out = (if h then d else [])) ts ds"

lemma delivered_snoc: "delivered ts ds \<Longrightarrow> out = (if h then d else []) \<Longrightarrow> delivered (ts @ [(h, out)]) (ds @ [d])"
  by (simp add: delivered_def list_all2_appendI)

lemma delivered_all: "delivered ts ds \<Longrightarrow> \<forall>t\<in>set ts. fst t \<Longrightarrow> concat (map snd ts) = concat ds"
  unfolding delivered_def by (induction rule: list_all2_induct) auto

definition sessions :: "nat \<Rightarrow> bool \<Rightarrow> gmosNetworkNotify list" where
  "sessions k up = concat (replicate k [GMOS_NETWORK_NOTIFY_CONNECTED, GMOS_NETWORK_NOTIFY_DISCONNECTED]) @
     (if up then [GMOS_NETWORK_NOTIFY_CONNECTED] else [])"

lemma sessions_change: "\<exists>k'. sessions k up @ notifyChange up up' = sessions k' up'"
proof (cases "up \<and> \<not> up'")
  case True
  have "sessions (Suc k) False = sessions k True @ [GMOS_NETWORK_NOTIFY_DISCONNECTED]"
    unfolding sessions_def by (subst replicate_Suc, subst replicate_append_same [symmetric]) simp
  then show ?thesis using True by (intro exI [of _ "Suc k"]) (simp add: notifyChange_def)
qed (auto simp: sessions_def notifyChange_def intro!: exI [of _ k])

locale network_link =
  fixes stp :: "'s \<Rightarrow> gmosNetworkNotify list \<Rightarrow> 's \<Rightarrow> bool" and good :: "'s \<Rightarrow> bool" and up :: "'s \<Rightarrow> bool"
    and handler :: "'s \<Rightarrow> bool"
  assumes step_good: "good s \<Longrightarrow> stp s out s' \<Longrightarrow> good s'"
    and step_notify: "good s \<Longrightarrow> stp s out s' \<Longrightarrow> out = (if handler s then notifyChange (up s) (up s') else [])"
begin

lemma run_ok:
  assumes "notifyRun stp handler s ts s'" "good s" "\<not> up s"
  shows "good s' \<and> (\<exists>k ds. delivered ts ds \<and> concat ds = sessions k (up s'))"
  using assms
proof (induction rule: notifyRun.induct)
  case (start s)
  then show ?case by (auto simp: sessions_def delivered_def intro: exI [of _ 0])
next
  case (step s ts s1 out s2)
  then obtain k ds where k: "good s1" "delivered ts ds" "concat ds = sessions k (up s1)" by blast
  let ?d = "notifyChange (up s1) (up s2)"
  obtain k' where "sessions k (up s1) @ ?d = sessions k' (up s2)" using sessions_change by blast
  then have "concat (ds @ [?d]) = sessions k' (up s2)" using k(3) by simp
  moreover have "delivered (ts @ [(handler s1, out)]) (ds @ [?d])"
    using delivered_snoc [OF k(2)] step_notify [OF k(1) step.hyps(2)] by blast
  ultimately show ?case using step_good [OF k(1) step.hyps(2)] by blast
qed

end

subsection \<open>State of a TCP link\<close>

datatype gmosTcpipLinkState =
    GMOS_TCPIP_LINK_STATE_INITIALISED
  | GMOS_TCPIP_LINK_STATE_CONFIGURED
  | GMOS_TCPIP_LINK_STATE_OPENING
  | GMOS_TCPIP_LINK_STATE_DNS_LOOKUP
  | GMOS_TCPIP_LINK_STATE_TCP_CONNECT
  | GMOS_TCPIP_LINK_STATE_TCP_WAIT
  | GMOS_TCPIP_LINK_STATE_CONNECTED
  | GMOS_TCPIP_LINK_STATE_CLOSING
  | GMOS_TCPIP_LINK_STATE_FAILURE

text \<open>The name is the array of characters its pointer refers to; \<open>linkHandler\<close> tells whether there is a handler.\<close>

record tcpipLink =
  linkHandler :: bool
  linkConsumer :: "nat option"
  linkSocket :: "nat option"
  remoteDnsName :: "byte list option"
  linkWorkerTask :: nat
  remoteIpAddr :: "byte list"
  remoteIpPort :: nat
  localIpPort :: nat
  linkState :: gmosTcpipLinkState

subsection \<open>The link\<close>

definition gmosTcpipLinkInit :: "tcpipLink \<Rightarrow> sched \<Rightarrow> (bool \<times> tcpipLink \<times> sched) option" where
  "gmosTcpipLinkInit l sc = do {
     let l = l\<lparr>linkHandler := False, linkConsumer := None, linkState := GMOS_TCPIP_LINK_STATE_INITIALISED,
           linkSocket := None, remoteDnsName := None\<rparr>;
     sc \<leftarrow> gmosSchedulerTaskStart (linkWorkerTask l) sc;
     Some (True, l, sc) }"

definition gmosNetworkLinkSetNotifyHandler :: "bool \<Rightarrow> tcpipLink \<Rightarrow> tcpipLink" where
  "gmosNetworkLinkSetNotifyHandler handler l = l\<lparr>linkHandler := handler\<rparr>"

definition gmosNetworkLinkSetConsumerTask :: "nat option \<Rightarrow> tcpipLink \<Rightarrow> tcpipLink" where
  "gmosNetworkLinkSetConsumerTask task l = l\<lparr>linkConsumer := task\<rparr>"

definition gmosTcpipLinkConfigureDnsName :: "byte list \<Rightarrow> nat \<Rightarrow> nat \<Rightarrow> tcpipLink \<Rightarrow> bool \<times> tcpipLink" where
  "gmosTcpipLinkConfigureDnsName dnsName remotePort localPort l =
     (if linkState l \<noteq> GMOS_TCPIP_LINK_STATE_INITIALISED \<and> linkState l \<noteq> GMOS_TCPIP_LINK_STATE_CONFIGURED
      then (False, l)
      else (True, l\<lparr>remoteDnsName := Some dnsName, remoteIpPort := remotePort, localIpPort := localPort,
             linkState := GMOS_TCPIP_LINK_STATE_CONFIGURED\<rparr>))"

definition gmosTcpipLinkConfigureFixedIp :: "byte list \<Rightarrow> nat \<Rightarrow> nat \<Rightarrow> tcpipLink \<Rightarrow> bool \<times> tcpipLink" where
  "gmosTcpipLinkConfigureFixedIp ipAddr remotePort localPort l =
     (if linkState l \<noteq> GMOS_TCPIP_LINK_STATE_INITIALISED \<and> linkState l \<noteq> GMOS_TCPIP_LINK_STATE_CONFIGURED
      then (False, l)
      else (True, l\<lparr>remoteIpAddr := take 4 ipAddr, remoteDnsName := None, remoteIpPort := remotePort,
             localIpPort := localPort, linkState := GMOS_TCPIP_LINK_STATE_CONFIGURED\<rparr>))"

definition gmosTcpipLinkConnector :: "'x tcpOps \<Rightarrow> tcpipLink \<Rightarrow> 'x \<Rightarrow> gmosNetworkStatus \<times> tcpipLink \<times> 'x" where
  "gmosTcpipLinkConnector ops l x =
     (if linkState l \<noteq> GMOS_TCPIP_LINK_STATE_CONFIGURED then (GMOS_NETWORK_STATUS_NOT_VALID, l, x)
      else let (so, x) = tcpOpen ops (localIpPort l) (linkConsumer l) x; l = l\<lparr>linkSocket := so\<rparr>
           in if so = None then (GMOS_NETWORK_STATUS_RETRY, l, x)
              else (GMOS_NETWORK_STATUS_SUCCESS, l\<lparr>linkState := GMOS_TCPIP_LINK_STATE_OPENING\<rparr>, x))"

definition gmosTcpipLinkDisconnector ::
    "'x tcpOps \<Rightarrow> tcpipLink \<Rightarrow> 'x \<Rightarrow> (gmosNetworkStatus \<times> tcpipLink \<times> 'x) option" where
  "gmosTcpipLinkDisconnector ops l x =
     (if linkState l \<noteq> GMOS_TCPIP_LINK_STATE_CONNECTED then Some (GMOS_NETWORK_STATUS_NOT_CONNECTED, l, x)
      else do {
        so \<leftarrow> linkSocket l;
        let (status, x) = tcpClose ops so x;
        Some (status, if status = GMOS_NETWORK_STATUS_SUCCESS
                      then l\<lparr>linkState := GMOS_TCPIP_LINK_STATE_CLOSING\<rparr> else l, x) })"

definition gmosTcpipLinkSender ::
    "'x tcpOps \<Rightarrow> tcpipLink \<Rightarrow> mempool \<Rightarrow> gmosBuffer \<Rightarrow> 'x \<Rightarrow>
     (gmosNetworkStatus \<times> mempool \<times> gmosBuffer \<times> 'x) option" where
  "gmosTcpipLinkSender ops l p payload x =
     (if linkState l \<noteq> GMOS_TCPIP_LINK_STATE_CONNECTED then Some (GMOS_NETWORK_STATUS_NOT_CONNECTED, p, payload, x)
      else do { so \<leftarrow> linkSocket l; Some (tcpSend ops so p payload x) })"

definition gmosTcpipLinkReceiver ::
    "'x tcpOps \<Rightarrow> tcpipLink \<Rightarrow> mempool \<Rightarrow> gmosStream \<Rightarrow> gmosBuffer \<Rightarrow> 'x \<Rightarrow>
     (gmosNetworkStatus \<times> mempool \<times> gmosStream \<times> gmosBuffer \<times> 'x) option" where
  "gmosTcpipLinkReceiver ops l p rxStream payload x = do {
     so \<leftarrow> linkSocket l;
     let (status, p, rxStream, payload, x) = tcpReceive ops so p rxStream payload x;
     Some (if status \<noteq> GMOS_NETWORK_STATUS_SUCCESS \<and> linkState l \<noteq> GMOS_TCPIP_LINK_STATE_CONNECTED
           then GMOS_NETWORK_STATUS_NOT_CONNECTED else status, p, rxStream, payload, x) }"

definition gmosTcpipLinkMonitor :: "'x tcpOps \<Rightarrow> tcpipLink \<Rightarrow> 'x \<Rightarrow> gmosNetworkStatus" where
  "gmosTcpipLinkMonitor ops l x =
     (if \<not> dhcpInUse ops then GMOS_NETWORK_STATUS_UNSUPPORTED
      else if \<not> dhcpReady ops x then GMOS_NETWORK_STATUS_NETWORK_DOWN
      else if linkState l = GMOS_TCPIP_LINK_STATE_CONNECTED then GMOS_NETWORK_STATUS_CONNECTED
      else if linkState l = GMOS_TCPIP_LINK_STATE_CONFIGURED then GMOS_NETWORK_STATUS_NOT_CONNECTED
      else if linkState l = GMOS_TCPIP_LINK_STATE_INITIALISED then GMOS_NETWORK_STATUS_NOT_VALID
      else if linkState l = GMOS_TCPIP_LINK_STATE_FAILURE then GMOS_NETWORK_STATUS_DRIVER_FAILURE
      else GMOS_NETWORK_STATUS_RETRY)"

text \<open>The notifications that reach the user, and the change of state that wakes the worker task.\<close>

definition notifyState :: "gmosTcpipStackNotify \<Rightarrow> tcpipLink \<Rightarrow> gmosTcpipLinkState \<times> gmosNetworkNotify list" where
  "notifyState notification l =
     (case linkState l of
        GMOS_TCPIP_LINK_STATE_OPENING \<Rightarrow>
          (if notification = GMOS_TCPIP_STACK_NOTIFY_TCP_SOCKET_OPENED
           then if remoteDnsName l \<noteq> None then GMOS_TCPIP_LINK_STATE_DNS_LOOKUP else GMOS_TCPIP_LINK_STATE_TCP_CONNECT
           else linkState l, [])
      | GMOS_TCPIP_LINK_STATE_TCP_WAIT \<Rightarrow>
          (if notification = GMOS_TCPIP_STACK_NOTIFY_TCP_SOCKET_CONNECTED
           then (GMOS_TCPIP_LINK_STATE_CONNECTED, if linkHandler l then [GMOS_NETWORK_NOTIFY_CONNECTED] else [])
           else (linkState l, []))
      | st \<Rightarrow>
          (if (st = GMOS_TCPIP_LINK_STATE_CONNECTED \<or> st = GMOS_TCPIP_LINK_STATE_CLOSING) \<and>
              notification = GMOS_TCPIP_STACK_NOTIFY_TCP_SOCKET_CLOSED
           then (GMOS_TCPIP_LINK_STATE_CONFIGURED, if linkHandler l then [GMOS_NETWORK_NOTIFY_DISCONNECTED] else [])
           else (st, [])))"

definition gmosTcpipLinkStackNotifyCallback ::
    "gmosTcpipStackNotify \<Rightarrow> tcpipLink \<Rightarrow> sched \<Rightarrow> (gmosNetworkNotify list \<times> tcpipLink \<times> sched) option" where
  "gmosTcpipLinkStackNotifyCallback notification l sc =
     (let (nextLinkState, out) = notifyState notification l
      in if linkState l \<noteq> nextLinkState
         then do {
           sc \<leftarrow> gmosSchedulerTaskResume (linkWorkerTask l) sc;
           Some (out, l\<lparr>linkState := nextLinkState\<rparr>, sc) }
         else Some (out, l, sc))"

text \<open>The worker task, with the DNS client and its pool.\<close>

definition gmosTcpipLinkWorkerTaskFn ::
    "'x tcpipOps \<Rightarrow> 'x tcpOps \<Rightarrow> (nat \<Rightarrow> 32 word) \<Rightarrow> dnsCacheEntry \<Rightarrow> mempool \<Rightarrow> dnsClient \<Rightarrow> tcpipLink \<Rightarrow> sched \<Rightarrow> 'x \<Rightarrow>
     (32 word \<times> mempool \<times> dnsClient \<times> tcpipLink \<times> sched \<times> 'x) option" where
  "gmosTcpipLinkWorkerTaskFn dops ops tm stack p dnsClient l sc x =
     (if linkState l = GMOS_TCPIP_LINK_STATE_DNS_LOOKUP then do {
        name \<leftarrow> remoteDnsName l;
        (networkStatus, addr, p, dnsClient, sc) \<leftarrow> gmosTcpipDnsClientQuery dops tm stack p dnsClient name False sc x;
        let l = (case addr of None \<Rightarrow> l | Some a \<Rightarrow> l\<lparr>remoteIpAddr := a\<rparr>);
        if networkStatus = GMOS_NETWORK_STATUS_SUCCESS
        then Some (GMOS_TASK_RUN_IMMEDIATE, p, dnsClient, l\<lparr>linkState := GMOS_TCPIP_LINK_STATE_TCP_CONNECT\<rparr>, sc, x)
        else if networkStatus = GMOS_NETWORK_STATUS_RETRY
        then Some (GMOS_TASK_RUN_LATER (int (GMOS_MS_TO_TICKS 1000)), p, dnsClient, l, sc, x)
        else Some (GMOS_TASK_RUN_IMMEDIATE, p, dnsClient, l\<lparr>linkState := GMOS_TCPIP_LINK_STATE_FAILURE\<rparr>, sc, x) }
      else if linkState l = GMOS_TCPIP_LINK_STATE_TCP_CONNECT then do {
        so \<leftarrow> linkSocket l;
        let (networkStatus, x) = tcpConnect ops so (remoteIpAddr l) (remoteIpPort l) x;
        if networkStatus = GMOS_NETWORK_STATUS_SUCCESS
        then Some (GMOS_TASK_RUN_IMMEDIATE, p, dnsClient, l\<lparr>linkState := GMOS_TCPIP_LINK_STATE_TCP_WAIT\<rparr>, sc, x)
        else if networkStatus = GMOS_NETWORK_STATUS_RETRY
        then Some (GMOS_TASK_RUN_LATER (int (GMOS_MS_TO_TICKS 250)), p, dnsClient, l, sc, x)
        else Some (GMOS_TASK_RUN_IMMEDIATE, p, dnsClient, l\<lparr>linkState := GMOS_TCPIP_LINK_STATE_FAILURE\<rparr>, sc, x) }
      else Some (GMOS_TASK_SUSPEND, p, dnsClient, l, sc, x))"

subsection \<open>The states a link goes through\<close>

text \<open>
  The steps of a link: the requests of its user, who may also set and remove the handler and the
  consumer task, send and receive, the notifications of the network driver and the runs of the worker
  task, in any order, with any state of the rest of the system around them. The list holds the
  notifications of the step. A call that faults is no step.
\<close>

inductive linkStep :: "'x tcpipOps \<Rightarrow> 'x tcpOps \<Rightarrow> tcpipLink \<Rightarrow> gmosNetworkNotify list \<Rightarrow> tcpipLink \<Rightarrow> bool"
  for dops :: "'x tcpipOps" and ops :: "'x tcpOps" where
  handler: "linkStep dops ops l [] (gmosNetworkLinkSetNotifyHandler h l)"
| consumer: "linkStep dops ops l [] (gmosNetworkLinkSetConsumerTask t l)"
| dnsName: "gmosTcpipLinkConfigureDnsName name rp lp l = (ok, l') \<Longrightarrow> linkStep dops ops l [] l'"
| fixedIp: "gmosTcpipLinkConfigureFixedIp addr rp lp l = (ok, l') \<Longrightarrow> linkStep dops ops l [] l'"
| connect: "gmosTcpipLinkConnector ops l x = (status, l', x') \<Longrightarrow> linkStep dops ops l [] l'"
| disconnect: "gmosTcpipLinkDisconnector ops l x = Some (status, l', x') \<Longrightarrow> linkStep dops ops l [] l'"
| send: "gmosTcpipLinkSender ops l p b x = Some r \<Longrightarrow> linkStep dops ops l [] l"
| receive: "gmosTcpipLinkReceiver ops l p st b x = Some r' \<Longrightarrow> linkStep dops ops l [] l"
| notify: "gmosTcpipLinkStackNotifyCallback n l sc = Some (out, l', sc') \<Longrightarrow> linkStep dops ops l out l'"
| worker: "gmosTcpipLinkWorkerTaskFn dops ops tm stack p cl l sc x = Some (ts, p', cl', l', sc', x') \<Longrightarrow>
    linkStep dops ops l [] l'"

text \<open>The automaton that the comments of the code describe, with what a handler is to be told.\<close>

inductive linkEdge :: "gmosTcpipLinkState \<Rightarrow> gmosNetworkNotify list \<Rightarrow> gmosTcpipLinkState \<Rightarrow> bool" where
  stay: "linkEdge s [] s"
| configure: "linkEdge GMOS_TCPIP_LINK_STATE_INITIALISED [] GMOS_TCPIP_LINK_STATE_CONFIGURED"
| openSocket: "linkEdge GMOS_TCPIP_LINK_STATE_CONFIGURED [] GMOS_TCPIP_LINK_STATE_OPENING"
| lookup: "linkEdge GMOS_TCPIP_LINK_STATE_OPENING [] GMOS_TCPIP_LINK_STATE_DNS_LOOKUP"
| fixed: "linkEdge GMOS_TCPIP_LINK_STATE_OPENING [] GMOS_TCPIP_LINK_STATE_TCP_CONNECT"
| resolved: "linkEdge GMOS_TCPIP_LINK_STATE_DNS_LOOKUP [] GMOS_TCPIP_LINK_STATE_TCP_CONNECT"
| unresolved: "linkEdge GMOS_TCPIP_LINK_STATE_DNS_LOOKUP [] GMOS_TCPIP_LINK_STATE_FAILURE"
| requested: "linkEdge GMOS_TCPIP_LINK_STATE_TCP_CONNECT [] GMOS_TCPIP_LINK_STATE_TCP_WAIT"
| refused: "linkEdge GMOS_TCPIP_LINK_STATE_TCP_CONNECT [] GMOS_TCPIP_LINK_STATE_FAILURE"
| connected: "linkEdge GMOS_TCPIP_LINK_STATE_TCP_WAIT [GMOS_NETWORK_NOTIFY_CONNECTED] GMOS_TCPIP_LINK_STATE_CONNECTED"
| closing: "linkEdge GMOS_TCPIP_LINK_STATE_CONNECTED [] GMOS_TCPIP_LINK_STATE_CLOSING"
| closedRemote: "linkEdge GMOS_TCPIP_LINK_STATE_CONNECTED [GMOS_NETWORK_NOTIFY_DISCONNECTED] GMOS_TCPIP_LINK_STATE_CONFIGURED"
| closed: "linkEdge GMOS_TCPIP_LINK_STATE_CLOSING [GMOS_NETWORK_NOTIFY_DISCONNECTED] GMOS_TCPIP_LINK_STATE_CONFIGURED"

lemmas linkDefs = gmosTcpipLinkConfigureDnsName_def gmosTcpipLinkConfigureFixedIp_def gmosTcpipLinkConnector_def
  gmosTcpipLinkDisconnector_def gmosTcpipLinkStackNotifyCallback_def gmosTcpipLinkWorkerTaskFn_def notifyState_def

definition socketOk :: "tcpipLink \<Rightarrow> bool" where
  "socketOk l \<longleftrightarrow>
     (linkState l \<notin> {GMOS_TCPIP_LINK_STATE_INITIALISED, GMOS_TCPIP_LINK_STATE_CONFIGURED} \<longrightarrow> linkSocket l \<noteq> None) \<and>
     (linkState l = GMOS_TCPIP_LINK_STATE_DNS_LOOKUP \<longrightarrow> remoteDnsName l \<noteq> None)"

definition linkUp :: "tcpipLink \<Rightarrow> bool" where
  "linkUp l \<longleftrightarrow> linkState l \<in> {GMOS_TCPIP_LINK_STATE_CONNECTED, GMOS_TCPIP_LINK_STATE_CLOSING}"

lemmas linkSets = gmosNetworkLinkSetNotifyHandler_def gmosNetworkLinkSetConsumerTask_def

lemma step_ok:
  assumes "linkStep dops ops l out l'" "socketOk l"
  shows "(\<exists>d. linkEdge (linkState l) d (linkState l') \<and> out = (if linkHandler l then d else [])) \<and> socketOk l'"
  using assms
proof (induction rule: linkStep.induct)
  case (handler l h)
  then show ?case by (auto simp: linkSets socketOk_def intro: linkEdge.intros)
next
  case (consumer l t)
  then show ?case by (auto simp: linkSets socketOk_def intro: linkEdge.intros)
next
  case (dnsName name rp lp l ok l')
  then have "linkEdge (linkState l) [] (linkState l') \<and> socketOk l'"
    by (auto simp: linkDefs socketOk_def intro: linkEdge.intros split: if_splits)
  then show ?case by auto
next
  case (fixedIp addr rp lp l ok l')
  then have "linkEdge (linkState l) [] (linkState l') \<and> socketOk l'"
    by (auto simp: linkDefs socketOk_def intro: linkEdge.intros split: if_splits)
  then show ?case by auto
next
  case (connect l x status l' x')
  then have "linkEdge (linkState l) [] (linkState l') \<and> socketOk l'"
    by (auto simp: linkDefs socketOk_def Let_def intro: linkEdge.intros split: if_splits prod.splits)
  then show ?case by auto
next
  case (disconnect l x status l' x')
  then have "linkEdge (linkState l) [] (linkState l') \<and> socketOk l'"
    by (auto simp: linkDefs socketOk_def Let_def intro: linkEdge.intros split: if_splits prod.splits bind_splits)
  then show ?case by auto
next
  case (send l p b x r)
  then show ?case by (auto intro: linkEdge.intros)
next
  case (receive l p st b x r')
  then show ?case by (auto intro: linkEdge.intros)
next
  case (notify n l sc out l' sc')
  have e: "\<exists>d. linkEdge (linkState l) d (fst (notifyState n l)) \<and> snd (notifyState n l) = (if linkHandler l then d else [])"
    by (cases "linkState l") (auto simp: notifyState_def intro: linkEdge.intros)
  moreover have "linkState l' = fst (notifyState n l) \<and> out = snd (notifyState n l)"
    using notify(1) by (auto simp: gmosTcpipLinkStackNotifyCallback_def Let_def split: prod.splits if_splits bind_splits)
  moreover have "socketOk l'" using notify
    by (cases "linkState l") (auto simp: linkDefs socketOk_def Let_def split: if_splits bind_splits)
  ultimately show ?case by simp
next
  case (worker tm stack p cl l sc x ts p' cl' l' sc' x')
  then have "linkEdge (linkState l) [] (linkState l') \<and> socketOk l'"
    by (auto simp: linkDefs socketOk_def Let_def intro: linkEdge.intros split: if_splits prod.splits bind_splits option.splits)
  then show ?case by auto
qed

lemma edge_notify:
  assumes "linkEdge s out s'"
  shows "out = notifyChange (s \<in> {GMOS_TCPIP_LINK_STATE_CONNECTED, GMOS_TCPIP_LINK_STATE_CLOSING})
    (s' \<in> {GMOS_TCPIP_LINK_STATE_CONNECTED, GMOS_TCPIP_LINK_STATE_CLOSING})"
  using assms by (cases rule: linkEdge.cases) (simp_all add: notifyChange_def)

lemma step_change:
  assumes "linkStep dops ops l out l'" "socketOk l"
  shows "linkEdge (linkState l) (notifyChange (linkUp l) (linkUp l')) (linkState l')"
    "out = (if linkHandler l then notifyChange (linkUp l) (linkUp l') else [])" "socketOk l'"
  using step_ok [OF assms] edge_notify unfolding linkUp_def by blast+

interpretation tl: network_link "linkStep dops ops" socketOk linkUp linkHandler for dops ops
  by unfold_locales (auto dest: step_change)

subsection \<open>The worker task\<close>

definition lookupResult :: "gmosNetworkStatus \<Rightarrow> byte list option \<Rightarrow> tcpipLink \<Rightarrow> 32 word \<times> tcpipLink" where
  "lookupResult status addr l =
     (if status = GMOS_NETWORK_STATUS_SUCCESS
      then (GMOS_TASK_RUN_IMMEDIATE, l\<lparr>remoteIpAddr := the addr, linkState := GMOS_TCPIP_LINK_STATE_TCP_CONNECT\<rparr>)
      else if status = GMOS_NETWORK_STATUS_RETRY then (GMOS_TASK_RUN_LATER (int (GMOS_MS_TO_TICKS 1000)), l)
      else (GMOS_TASK_RUN_IMMEDIATE, l\<lparr>linkState := GMOS_TCPIP_LINK_STATE_FAILURE\<rparr>))"

lemma Worker_lookup:
  assumes "linkState l = GMOS_TCPIP_LINK_STATE_DNS_LOOKUP" "remoteDnsName l = Some name"
    and "gmosTcpipDnsClientQuery dops tm stack p cl name False sc x = Some (status, addr, p', cl', sc')"
    and "addr \<noteq> None \<longleftrightarrow> status = GMOS_NETWORK_STATUS_SUCCESS"
  shows "gmosTcpipLinkWorkerTaskFn dops ops tm stack p cl l sc x =
    (case lookupResult status addr l of (ts, l') \<Rightarrow> Some (ts, p', cl', l', sc', x))"
  using assms by (cases addr) (auto simp: gmosTcpipLinkWorkerTaskFn_def lookupResult_def)

lemma Worker_connect:
  assumes "linkState l = GMOS_TCPIP_LINK_STATE_TCP_CONNECT" "linkSocket l = Some so"
    and "tcpConnect ops so (remoteIpAddr l) (remoteIpPort l) x = (GMOS_NETWORK_STATUS_SUCCESS, x')"
  shows "gmosTcpipLinkWorkerTaskFn dops ops tm stack p cl l sc x =
    Some (GMOS_TASK_RUN_IMMEDIATE, p, cl, l\<lparr>linkState := GMOS_TCPIP_LINK_STATE_TCP_WAIT\<rparr>, sc, x')"
  using assms by (simp add: gmosTcpipLinkWorkerTaskFn_def)

lemma Callback_ok:
  assumes "notifyState n l = (st, out)" "st \<noteq> linkState l"
    and "sched_inv sc T Q" "taskState sc (linkWorkerTask l) \<noteq> TASK_STATE_ACTIVE"
  obtains sc' where "gmosTcpipLinkStackNotifyCallback n l sc = Some (out, l\<lparr>linkState := st\<rparr>, sc')"
    "sched_inv sc' (\<lambda>L. filter (\<lambda>u. u \<noteq> linkWorkerTask l) (T L))
       (if linkWorkerTask l \<in> set Q then Q else Q @ [linkWorkerTask l])"
    "taskState sc' (linkWorkerTask l) = TASK_STATE_READY"
  by (rule TaskResume_ok [OF assms(3,4)])
    (use assms(1,2) that in \<open>auto simp: gmosTcpipLinkStackNotifyCallback_def\<close>)

subsection \<open>Properties\<close>

text \<open>
  C38: Whatever its user, the network driver and its worker task do and in whatever order, a link
  that has been initialised moves only along the edges of its automaton, from which no edge leaves
  the state of failure. The changes of the link are connections and disconnections in turn, the last
  one being a connection exactly while the link is connected or closing; its handler is told of
  each change that happens while there is one, and of nothing else. In every state but the two in
  which it is not in use a link has a socket, so that disconnecting, sending and the connection
  request of the worker task never follow a null pointer, and it has a name whenever it
  resolves one. Receiving is not guarded by the state and faults exactly when there is no socket,
  which can only be in one of those two states.
\<close>

theorem tcp_link_safe:
  assumes "gmosTcpipLinkInit l0 sc0 = Some (ok, l, sc1)" "notifyRun (linkStep dops ops) linkHandler l ts l'"
  shows "(\<exists>k ds. delivered ts ds \<and> concat ds = sessions k (linkUp l')) \<and>
    (linkStep dops ops l' out l'' \<longrightarrow> linkEdge (linkState l') (notifyChange (linkUp l') (linkUp l'')) (linkState l'') \<and>
       out = (if linkHandler l' then notifyChange (linkUp l') (linkUp l'') else [])) \<and>
    (linkState l' \<notin> {GMOS_TCPIP_LINK_STATE_INITIALISED, GMOS_TCPIP_LINK_STATE_CONFIGURED} \<longrightarrow> linkSocket l' \<noteq> None) \<and>
    gmosTcpipLinkDisconnector ops l' x \<noteq> None \<and> gmosTcpipLinkSender ops l' p b x \<noteq> None \<and>
    (gmosTcpipLinkReceiver ops l' p st b x = None \<longleftrightarrow> linkSocket l' = None) \<and>
    (gmosTcpipLinkWorkerTaskFn dops ops tm stack p cl l' sc x = None \<longrightarrow>
       (\<exists>name. remoteDnsName l' = Some name \<and> gmosTcpipDnsClientQuery dops tm stack p cl name False sc x = None))"
proof -
  have "socketOk l" "\<not> linkUp l" using assms(1)
    by (auto simp: gmosTcpipLinkInit_def socketOk_def linkUp_def split: bind_splits)
  from tl.run_ok [OF assms(2) this] have r: "socketOk l'" "\<exists>k ds. delivered ts ds \<and> concat ds = sessions k (linkUp l')" by auto
  have "gmosTcpipLinkDisconnector ops l' x \<noteq> None"
    using r(1) by (auto simp: socketOk_def gmosTcpipLinkDisconnector_def split: prod.splits)
  moreover have "gmosTcpipLinkSender ops l' p b x \<noteq> None"
    using r(1) by (cases "linkSocket l'") (auto simp: socketOk_def gmosTcpipLinkSender_def simp del: not_None_eq)
  moreover have "gmosTcpipLinkReceiver ops l' p st b x = None \<longleftrightarrow> linkSocket l' = None"
    by (cases "linkSocket l'") (auto simp: gmosTcpipLinkReceiver_def split: prod.splits)
  moreover have "gmosTcpipLinkWorkerTaskFn dops ops tm stack p cl l' sc x = None \<longrightarrow>
      (\<exists>name. remoteDnsName l' = Some name \<and> gmosTcpipDnsClientQuery dops tm stack p cl name False sc x = None)"
    using r(1) by (auto simp: socketOk_def gmosTcpipLinkWorkerTaskFn_def Let_def split: bind_splits if_splits prod.splits)
  ultimately show ?thesis using r step_change [of dops ops l' out l''] by (auto simp: socketOk_def)
qed

text \<open>
  C39: A run of the worker task of a link that resolves its name asks the DNS client. While the network
  is down or no DNS server is known the link fails, even when the cache knows the name, and for good,
  since nothing leads out of that state. Otherwise it follows the answer of the client: with the
  address of a resolved entry it goes on to connect, while the request is open, has just been
  started or found no memory it waits for a second, and when the request has timed out or the
  name does not exist or is not accepted it fails. The remaining case is the one in which the client
  itself is undefined, choosing the entry to replace. The task of the DNS client must not be
  running at the same time, and its cache is in order before and after.
\<close>

theorem tcp_link_worker:
  assumes "cacheHolds p cl v R" "0 \<notin> set s" "length s < 4294967295" "length (resolvedAddr stack) = 4"
    and "dnsXid cl < 65536" "sched_inv sc T Q" "taskState sc (dnsWorkerTask cl) \<noteq> TASK_STATE_ACTIVE"
    and "linkState l = GMOS_TCPIP_LINK_STATE_DNS_LOOKUP" "remoteDnsName l = Some (s @ 0 # junk)"
  shows "if \<not> phyLinkIsUp dops x \<or> dnsServerList cl = None
    then gmosTcpipLinkWorkerTaskFn dops ops tm stack p cl l sc x =
      Some (GMOS_TASK_RUN_IMMEDIATE, p, cl, l\<lparr>linkState := GMOS_TCPIP_LINK_STATE_FAILURE\<rparr>, sc, x)
    else if dnsFind s v = None \<and> \<not> lruDefined v
    then gmosTcpipLinkWorkerTaskFn dops ops tm stack p cl l sc x = None
    else \<exists>st a ts l' p' cl' sc' v'. gmosTcpipLinkWorkerTaskFn dops ops tm stack p cl l sc x = Some (ts, p', cl', l', sc', x) \<and>
      lookupResult st a l = (ts, l') \<and> cacheHolds p' cl' v' R \<and> queryAnswered tm p cl s v sc st a cl' sc' v'"
proof (cases "\<not> phyLinkIsUp dops x \<or> dnsServerList cl = None")
  case True
  then have "gmosTcpipDnsClientQuery dops tm stack p cl (s @ 0 # junk) False sc x =
      Some (GMOS_NETWORK_STATUS_NETWORK_DOWN, None, p, cl, sc)" by (simp add: gmosTcpipDnsClientQuery_def)
  from Worker_lookup [OF assms(8,9) this] show ?thesis unfolding if_P [OF True] by (simp add: lookupResult_def)
next
  case down: False
  then have up: "phyLinkIsUp dops x" "dnsServerList cl \<noteq> None" by auto
  show ?thesis
  proof (cases "dnsFind s v = None \<and> \<not> lruDefined v")
    case True
    then have "gmosTcpipDnsClientQuery dops tm stack p cl (s @ 0 # junk) False sc x = None"
      using Query_fault [OF assms(1,2) _ _ up] by blast
    then show ?thesis unfolding if_not_P [OF down] if_P [OF True] using assms(8,9) by (simp add: gmosTcpipLinkWorkerTaskFn_def)
  next
    case d: False
    then have "dnsFind s v = None \<longrightarrow> lruDefined v" by blast
    from Query_ok [OF assms(1-3) this assms(4,5) up assms(6,7), of tm junk] obtain st a p' cl' sc' v' where
      q: "gmosTcpipDnsClientQuery dops tm stack p cl (s @ 0 # junk) False sc x = Some (st, a, p', cl', sc')"
        "cacheHolds p' cl' v' R" "queryAnswered tm p cl s v sc st a cl' sc' v'" by (elim exE conjE) (rule that)
    have a: "a \<noteq> None \<longleftrightarrow> st = GMOS_NETWORK_STATUS_SUCCESS"
      using q(3) unfolding queryAnswered_def by (auto split: option.splits if_splits)
    obtain ts l' where l: "lookupResult st a l = (ts, l')" by fastforce
    have "gmosTcpipLinkWorkerTaskFn dops ops tm stack p cl l sc x = Some (ts, p', cl', l', sc', x)"
      using Worker_lookup [OF assms(8,9) q(1) a, of ops] unfolding l by simp
    then show ?thesis unfolding if_not_P [OF down] if_not_P [OF d] using l q(2,3) by blast
  qed
qed

text \<open>
  C40: A link comes up: when the name of a configured link is in the cache and the network driver
  opens the socket and takes the connection request, connecting, the notification that the socket
  is open, two runs of the worker task, which the notification makes ready, and the notification
  that the connection is established make the link connected; the request goes to the address the
  cache holds and the port of the link, the handler is told once, and what is sent then goes to
  that socket.
\<close>

theorem tcp_link_connects:
  assumes "cacheHolds p cl v R" "0 \<notin> set s" "dnsFind s v = Some i" "v ! i = Some (e, s)" "i < 2"
    and "phyLinkIsUp dops x1" "dnsServerList cl \<noteq> None" "dnsEntryState e = DNS_VALID"
    and "linkState l = GMOS_TCPIP_LINK_STATE_CONFIGURED" "remoteDnsName l = Some (s @ 0 # junk)" "linkHandler l"
    and "tcpOpen ops (localIpPort l) (linkConsumer l) x = (Some so, x1)"
    and "tcpConnect ops so (resolvedAddr e) (remoteIpPort l) x1 = (GMOS_NETWORK_STATUS_SUCCESS, x2)"
    and "sched_inv sc T Q" "taskState sc (linkWorkerTask l) \<noteq> TASK_STATE_ACTIVE"
  shows "\<exists>l1 l2 l3 l4 l5 p' sc1 sc2 sc3. gmosTcpipLinkConnector ops l x = (GMOS_NETWORK_STATUS_SUCCESS, l1, x1) \<and>
    gmosTcpipLinkStackNotifyCallback GMOS_TCPIP_STACK_NOTIFY_TCP_SOCKET_OPENED l1 sc = Some ([], l2, sc1) \<and>
    taskState sc1 (linkWorkerTask l) = TASK_STATE_READY \<and>
    gmosTcpipLinkWorkerTaskFn dops ops tm stack p cl l2 sc1 x1 = Some (GMOS_TASK_RUN_IMMEDIATE, p', cl, l3, sc2, x1) \<and>
    gmosTcpipLinkWorkerTaskFn dops ops tm stack p' cl l3 sc2 x1 = Some (GMOS_TASK_RUN_IMMEDIATE, p', cl, l4, sc2, x2) \<and>
    gmosTcpipLinkStackNotifyCallback GMOS_TCPIP_STACK_NOTIFY_TCP_SOCKET_CONNECTED l4 sc2 =
      Some ([GMOS_NETWORK_NOTIFY_CONNECTED], l5, sc3) \<and>
    gmosTcpipLinkSender ops l5 q b x2 = Some (tcpSend ops so q b x2)"
proof -
  let ?l1 = "l\<lparr>linkSocket := Some so, linkState := GMOS_TCPIP_LINK_STATE_OPENING\<rparr>"
  let ?l2 = "?l1\<lparr>linkState := GMOS_TCPIP_LINK_STATE_DNS_LOOKUP\<rparr>"
  let ?l3 = "?l2\<lparr>remoteIpAddr := resolvedAddr e, linkState := GMOS_TCPIP_LINK_STATE_TCP_CONNECT\<rparr>"
  let ?l4 = "?l3\<lparr>linkState := GMOS_TCPIP_LINK_STATE_TCP_WAIT\<rparr>"
  let ?l5 = "?l4\<lparr>linkState := GMOS_TCPIP_LINK_STATE_CONNECTED\<rparr>"
  have c: "gmosTcpipLinkConnector ops l x = (GMOS_NETWORK_STATUS_SUCCESS, ?l1, x1)"
    using assms(9,12) by (simp add: gmosTcpipLinkConnector_def)
  have n1: "notifyState GMOS_TCPIP_STACK_NOTIFY_TCP_SOCKET_OPENED ?l1 = (GMOS_TCPIP_LINK_STATE_DNS_LOOKUP, [])"
    using assms(10) by (simp add: notifyState_def)
  have t1: "taskState sc (linkWorkerTask ?l1) \<noteq> TASK_STATE_ACTIVE" using assms(15) by simp
  obtain sc1 where k1: "gmosTcpipLinkStackNotifyCallback GMOS_TCPIP_STACK_NOTIFY_TCP_SOCKET_OPENED ?l1 sc = Some ([], ?l2, sc1)"
    "sched_inv sc1 (\<lambda>L. filter (\<lambda>u. u \<noteq> linkWorkerTask ?l1) (T L))
       (if linkWorkerTask ?l1 \<in> set Q then Q else Q @ [linkWorkerTask ?l1])"
    "taskState sc1 (linkWorkerTask ?l1) = TASK_STATE_READY"
    by (rule Callback_ok [OF n1 _ assms(14) t1]) (use that in auto)
  obtain p' where q: "gmosTcpipDnsClientQuery dops tm stack p cl (s @ 0 # junk) False sc1 x1 =
      Some (queryStatus e, if queryStatus e = GMOS_NETWORK_STATUS_SUCCESS then Some (resolvedAddr e) else None,
        p', cl, if dnsEntryState e = DNS_VALID then tickTaken sc1 else sc1)"
    by (rule Query_found [OF assms(1-7)]) (rule that)
  have st: "queryStatus e = GMOS_NETWORK_STATUS_SUCCESS" using assms(8) by (simp add: queryStatus_def)
  have w1: "gmosTcpipLinkWorkerTaskFn dops ops tm stack p cl ?l2 sc1 x1 =
      Some (GMOS_TASK_RUN_IMMEDIATE, p', cl, ?l3, tickTaken sc1, x1)"
    using Worker_lookup [OF _ _ q, of ?l2 ops] assms(8,10) st by (simp add: lookupResult_def)
  have w2: "gmosTcpipLinkWorkerTaskFn dops ops tm stack p' cl ?l3 (tickTaken sc1) x1 =
      Some (GMOS_TASK_RUN_IMMEDIATE, p', cl, ?l4, tickTaken sc1, x2)"
    using Worker_connect [of ?l3 so ops x1 x2] assms(13) by simp
  have n2: "notifyState GMOS_TCPIP_STACK_NOTIFY_TCP_SOCKET_CONNECTED ?l4 =
      (GMOS_TCPIP_LINK_STATE_CONNECTED, [GMOS_NETWORK_NOTIFY_CONNECTED])"
    using assms(11) by (simp add: notifyState_def)
  have t2: "taskState (tickTaken sc1) (linkWorkerTask ?l4) \<noteq> TASK_STATE_ACTIVE" using k1(3) by simp
  obtain sc3 where k2: "gmosTcpipLinkStackNotifyCallback GMOS_TCPIP_STACK_NOTIFY_TCP_SOCKET_CONNECTED ?l4 (tickTaken sc1) =
      Some ([GMOS_NETWORK_NOTIFY_CONNECTED], ?l5, sc3)"
    by (rule Callback_ok [OF n2 _ tickTaken_sched(1) [THEN iffD2, OF k1(2)] t2]) (use that in auto)
  have "gmosTcpipLinkSender ops ?l5 q b x2 = Some (tcpSend ops so q b x2)" by (simp add: gmosTcpipLinkSender_def)
  moreover have "taskState sc1 (linkWorkerTask l) = TASK_STATE_READY" using k1(3) by simp
  ultimately show ?thesis using c k1(1) w1 w2 k2 by blast
qed

subsection \<open>Concrete cases\<close>

definition sampleLink :: "gmosTcpipLinkState \<Rightarrow> tcpipLink" where
  "sampleLink st = \<lparr>linkHandler = True, linkConsumer = None, linkSocket = None, remoteDnsName = Some [97, 46, 98, 0],
     linkWorkerTask = 6, remoteIpAddr = [0, 0, 0, 0], remoteIpPort = 80, localIpPort = 5000, linkState = st\<rparr>"

theorem tcp_link_safe_witness:
  "\<exists>l1 sc1 l2. gmosTcpipLinkInit (sampleLink GMOS_TCPIP_LINK_STATE_FAILURE) bootSched = Some (True, l1, sc1) \<and>
     notifyRun (linkStep quietDriver demoTcp) linkHandler l1 [(False, []), (True, []), (True, [])] l2 \<and>
     linkState l2 = GMOS_TCPIP_LINK_STATE_OPENING \<and> gmosTcpipLinkDisconnector demoTcp l2 () \<noteq> None"
proof -
  let ?l = "sampleLink GMOS_TCPIP_LINK_STATE_FAILURE"
  let ?l1 = "?l\<lparr>linkHandler := False, linkState := GMOS_TCPIP_LINK_STATE_INITIALISED, remoteDnsName := None\<rparr>"
  let ?h = "gmosNetworkLinkSetNotifyHandler True ?l1"
  let ?c = "?h\<lparr>remoteDnsName := Some [97, 0], remoteIpPort := 80, localIpPort := 81, linkState := GMOS_TCPIP_LINK_STATE_CONFIGURED\<rparr>"
  let ?o = "?c\<lparr>linkSocket := Some 0, linkState := GMOS_TCPIP_LINK_STATE_OPENING\<rparr>"
  obtain s where "gmosSchedulerTaskStart 6 bootSched = Some s"
    by (rule MakeTaskReady_ok [OF bootSched_inv(1), of 6]) (auto simp: gmosSchedulerTaskStart_def bootSched_def)
  then have i: "gmosTcpipLinkInit ?l bootSched = Some (True, ?l1, s)" by (simp add: gmosTcpipLinkInit_def sampleLink_def)
  have "gmosTcpipLinkConfigureDnsName [97, 0] 80 81 ?h = (True, ?c)"
    by (simp add: gmosTcpipLinkConfigureDnsName_def gmosNetworkLinkSetNotifyHandler_def)
  then have s1: "linkStep quietDriver demoTcp ?h [] ?c" by (rule linkStep.dnsName)
  have "gmosTcpipLinkConnector demoTcp ?c () = (GMOS_NETWORK_STATUS_SUCCESS, ?o, ())"
    by (simp add: gmosTcpipLinkConnector_def demoTcp_def)
  then have s2: "linkStep quietDriver demoTcp ?c [] ?o" by (rule linkStep.connect)
  have s0: "linkStep quietDriver demoTcp ?l1 [] ?h" by (rule linkStep.handler)
  note stp = notifyRun.step [where stp = "linkStep quietDriver demoTcp" and handler = linkHandler]
  have r: "notifyRun (linkStep quietDriver demoTcp) linkHandler ?l1 [(False, []), (True, []), (True, [])] ?o"
    using stp [OF stp [OF stp [OF notifyRun.start s0] s1] s2] by (simp add: gmosNetworkLinkSetNotifyHandler_def)
  have "gmosTcpipLinkDisconnector demoTcp ?o () \<noteq> None" using tcp_link_safe [OF i r] by blast
  then show ?thesis using i r by (intro exI [of _ ?l1] exI [of _ s] exI [of _ ?o]) simp
qed

theorem tcp_link_worker_witness:
  "\<exists>p b ts p' cl' l' sc'. gmosTcpipLinkWorkerTaskFn quietDriver demoTcp (\<lambda>_. 0) (sampleEntry 0 0) p (sampleClient b)
      (sampleLink GMOS_TCPIP_LINK_STATE_DNS_LOOKUP) bootSched () = Some (ts, p', cl', l', sc', ()) \<and>
    linkState l' = GMOS_TCPIP_LINK_STATE_TCP_CONNECT"
proof -
  let ?e = "sampleEntry DNS_VALID 0" and ?s = "[97, 46, 98] :: byte list" and ?l = "sampleLink GMOS_TCPIP_LINK_STATE_DNS_LOOKUP"
  have "entryOk ?e" by (rule sampleEntry_ok) simp_all
  then obtain p b where st: "cacheHolds p (sampleClient b) [Some (?e, ?s), None] {}" by (rule sample_cache)
  have a: "0 \<notin> set ?s" "length ?s < 4294967295" "lruDefined [Some (?e, ?s), None]" "length (resolvedAddr (sampleEntry 0 0)) = 4"
    "dnsXid (sampleClient b) < 65536" "phyLinkIsUp quietDriver ()" "dnsServerList (sampleClient b) \<noteq> None"
    by (simp_all add: lruDefined_def sampleEntry_def quietDriver_def)
  have t: "taskState bootSched (dnsWorkerTask (sampleClient b)) \<noteq> TASK_STATE_ACTIVE" by (simp add: bootSched_def)
  have l: "linkState ?l = GMOS_TCPIP_LINK_STATE_DNS_LOOKUP" "remoteDnsName ?l = Some (?s @ 0 # [])"
    by (simp_all add: sampleLink_def)
  have n: "dnsFind ?s [Some (?e, ?s), None] = Some 0" by (simp add: dnsFind_def upto2 dnsHit_def name_ab(2))
  have q: "queryStatus ?e = GMOS_NETWORK_STATUS_SUCCESS" by (simp add: queryStatus_def sampleEntry_def)
  have "\<not> (\<not> phyLinkIsUp quietDriver () \<or> dnsServerList (sampleClient b) = None)"
    "\<not> (dnsFind ?s [Some (?e, ?s), None] = None \<and> \<not> lruDefined [Some (?e, ?s), None])" using a(3,6,7) by auto
  note f = this
  from tcp_link_worker [OF st a(1,2,4,5) bootSched_inv(1) t l, where ops = demoTcp and tm = "\<lambda>_. 0" and dops = quietDriver and x = "()",
      unfolded if_not_P [OF f(1)] if_not_P [OF f(2)]]
  obtain st a ts l' p' cl' sc' v' where w:
    "gmosTcpipLinkWorkerTaskFn quietDriver demoTcp (\<lambda>_. 0) (sampleEntry 0 0) p (sampleClient b) ?l bootSched () =
      Some (ts, p', cl', l', sc', ())" "lookupResult st a ?l = (ts, l')"
    "queryAnswered (\<lambda>_. 0) p (sampleClient b) ?s [Some (?e, ?s), None] bootSched st a cl' sc' v'"
    by (elim exE conjE) (rule that)
  have "st = GMOS_NETWORK_STATUS_SUCCESS" using w(3) q unfolding queryAnswered_def n option.case by auto
  then have "linkState l' = GMOS_TCPIP_LINK_STATE_TCP_CONNECT" using w(2) by (auto simp: lookupResult_def)
  then show ?thesis using w(1) by blast
qed

theorem tcp_link_connects_witness:
  "\<exists>p b l1 l2 sc1. gmosTcpipLinkConnector demoTcp (sampleLink GMOS_TCPIP_LINK_STATE_CONFIGURED) () =
      (GMOS_NETWORK_STATUS_SUCCESS, l1, ()) \<and>
    gmosTcpipLinkStackNotifyCallback GMOS_TCPIP_STACK_NOTIFY_TCP_SOCKET_OPENED l1 bootSched = Some ([], l2, sc1) \<and>
    gmosTcpipLinkWorkerTaskFn quietDriver demoTcp (\<lambda>_. 0) (sampleEntry 0 0) p (sampleClient b) l2 sc1 () \<noteq> None"
proof -
  let ?e = "sampleEntry DNS_VALID 0" and ?s = "[97, 46, 98] :: byte list" and ?l = "sampleLink GMOS_TCPIP_LINK_STATE_CONFIGURED"
  have "entryOk ?e" by (rule sampleEntry_ok) simp_all
  then obtain p b where st: "cacheHolds p (sampleClient b) [Some (?e, ?s), None] {}" by (rule sample_cache)
  have n: "0 \<notin> set ?s" "dnsFind ?s [Some (?e, ?s), None] = Some 0" "[Some (?e, ?s), None] ! 0 = Some (?e, ?s)" "0 < (2 :: nat)"
    "phyLinkIsUp quietDriver ()" "dnsServerList (sampleClient b) \<noteq> None" "dnsEntryState ?e = DNS_VALID"
    by (simp_all add: dnsFind_def upto2 dnsHit_def quietDriver_def sampleEntry_def name_ab(2))
  have l: "linkState ?l = GMOS_TCPIP_LINK_STATE_CONFIGURED" "remoteDnsName ?l = Some (?s @ 0 # [])" "linkHandler ?l"
    "tcpOpen demoTcp (localIpPort ?l) (linkConsumer ?l) () = (Some 0, ())"
    "tcpConnect demoTcp 0 (resolvedAddr ?e) (remoteIpPort ?l) () = (GMOS_NETWORK_STATUS_SUCCESS, ())"
    by (simp_all add: sampleLink_def demoTcp_def)
  have t: "taskState bootSched (linkWorkerTask ?l) \<noteq> TASK_STATE_ACTIVE" by (simp add: bootSched_def)
  from tcp_link_connects [OF st n l bootSched_inv(1) t, where tm = "\<lambda>_. 0" and stack = "sampleEntry 0 0"] show ?thesis
    by fastforce
qed

end
