(* ===== verification/Gmos_Bus.thy ===== *)
theory Gmos_Bus
  imports Gmos_Scheduler
begin

text \<open>
  The contract of a shared serial bus: a device selects the bus, transfers data and releases it.
  The owner of the bus and whether a transfer is under way are an automaton (\<open>busAllows\<close>), which
  says for each call whether it is granted; the locale \<open>serial_bus\<close> says that the calls of a driver
  answer like the automaton and that the scheduler is kept awake exactly while the bus has an
  owner. The drivers for SPI and IIC are interpretations of it.
\<close>

subsection \<open>The abstract bus\<close>

datatype 'r busCall =
    BusSelect nat
  | BusRelease nat
  | BusStart 'r
  | BusInline 'r
  | BusComplete
  | BusEvents gmosEvents

type_synonym busView = "nat option \<times> bool"

fun busAllows :: "'r busCall \<Rightarrow> bool \<Rightarrow> busView \<Rightarrow> busView option" where
  "busAllows (BusSelect d) ok (own, act) =
     (if ok = (own = None) then Some (if ok then Some d else own, act) else None)"
| "busAllows (BusRelease d) ok (own, act) =
     (if ok = (own = Some d \<and> \<not> act) then Some (if ok then None else own, act) else None)"
| "busAllows (BusStart r) ok (own, act) =
     (if ok = (own \<noteq> None \<and> \<not> act) then Some (own, ok \<or> act) else None)"
| "busAllows (BusInline r) ok (own, act) =
     (if ok = (own \<noteq> None \<and> \<not> act) then Some (own, act) else None)"
| "busAllows BusComplete ok (own, act) = (if ok \<and> \<not> act then None else Some (own, act \<and> \<not> ok))"
| "busAllows (BusEvents ev) ok v = (if ok then Some v else None)"

fun busAccepts :: "'r busCall list \<Rightarrow> bool list \<Rightarrow> busView \<Rightarrow> busView option" where
  "busAccepts [] [] v = Some v"
| "busAccepts (c # cs) (ok # oks) v = Option.bind (busAllows c ok v) (busAccepts cs oks)"
| "busAccepts cs oks v = None"

text \<open>The number of requests to stay awake that the owner of a bus stands for.\<close>

definition busHeld :: "busView \<Rightarrow> nat" where
  "busHeld v = (if fst v = None then 0 else 1)"

text \<open>The bits a platform layer assigns to the completion event of a device.\<close>

definition busEventWord :: "nat \<Rightarrow> nat \<Rightarrow> 32 word" where
  "busEventWord status n = or (or (push_bit 8 (of_nat n)) (of_nat status)) 0x80000000"

lemma busEventWord_bit:
  assumes "status < 256" "n < 65536"
  shows "bit (busEventWord status n) k \<longleftrightarrow>
    (if k < 8 then bit status k else if k < 24 then bit n (k - 8) else k = 31)"
proof -
  have "take_bit 8 status = status" "take_bit 16 n = n" using assms by (simp_all add: take_bit_nat_eq_self)
  then have b: "bit status m \<Longrightarrow> m < 8" "bit n m \<Longrightarrow> m < 16" for m
    using bit_take_bit_iff [of 8 status m] bit_take_bit_iff [of 16 n m] by simp_all
  have "(0x80000000 :: 32 word) = 2 ^ 31" by simp
  then have top: "bit (0x80000000 :: 32 word) k \<longleftrightarrow> k = 31" by (simp only: bit_exp_iff) auto
  show ?thesis unfolding busEventWord_def bit_or_iff bit_push_bit_iff bit_of_nat_iff top
    using b(1) [of k] b(2) [of "k - 8"] by auto
qed

lemma busEventWord_decode:
  assumes "status < 256" "n < 65536"
  shows "busEventWord status n \<noteq> 0" "unat (and (busEventWord status n) 0x000000FF) = status"
    "unat (drop_bit 8 (and (busEventWord status n) 0x00FFFF00)) = n"
proof -
  note w = busEventWord_bit [OF assms]
  have "take_bit 8 status = status" "take_bit 16 n = n" using assms by (simp_all add: take_bit_nat_eq_self)
  then have b: "bit status m \<Longrightarrow> m < 8" "bit n m \<Longrightarrow> m < 16" for m
    using bit_take_bit_iff [of 8 status m] bit_take_bit_iff [of 16 n m] by simp_all
  have "bit (busEventWord status n) 31" by (simp add: w)
  then show "busEventWord status n \<noteq> 0" by auto
  have c: "(0x000000FF :: 32 word) = mask 8" "(0x00FFFF00 :: 32 word) = push_bit 8 (mask 16)"
    by (simp_all add: mask_eq_exp_minus_1 push_bit_eq_mult)
  have m: "bit (0x000000FF :: 32 word) k \<longleftrightarrow> k < 8" "bit (0x00FFFF00 :: 32 word) k \<longleftrightarrow> 8 \<le> k \<and> k < 24" for k
    unfolding c by (auto simp: bit_mask_iff bit_push_bit_iff simp del: push_bit_mask_eq)
  show "unat (and (busEventWord status n) 0x000000FF) = status"
    by (rule bit_eqI, unfold bit_unsigned_iff bit_and_iff w m) (use b(1) in auto)
  show "unat (drop_bit 8 (and (busEventWord status n) 0x00FFFF00)) = n"
    by (rule bit_eqI, unfold bit_unsigned_iff bit_drop_bit_eq comp_def bit_and_iff w m) (use b(2) in auto)
qed

text \<open>A poll that finds no completion leaves the events as they are.\<close>

lemma ResetBits_zero: "eventBits q e = 0 \<Longrightarrow> gmosEventResetBits e q = (0, q)"
  by (simp add: gmosEventResetBits_def fun_upd_idem)

subsection \<open>The interface\<close>

record ('r, 's) busOps =
  busSelect :: "nat \<Rightarrow> 's \<Rightarrow> (bool \<times> 's) option"
  busRelease :: "nat \<Rightarrow> 's \<Rightarrow> (bool \<times> 's) option"
  busStart :: "'r \<Rightarrow> 's \<Rightarrow> (bool \<times> 's) option"
  busInline :: "'r \<Rightarrow> 's \<Rightarrow> (bool \<times> 's) option"
  busComplete :: "'s \<Rightarrow> (bool \<times> 's) option"
  busEvents :: "gmosEvents \<Rightarrow> 's \<Rightarrow> 's"

fun busRun :: "('r, 's) busOps \<Rightarrow> 'r busCall \<Rightarrow> 's \<Rightarrow> (bool \<times> 's) option" where
  "busRun ops (BusSelect d) s = busSelect ops d s"
| "busRun ops (BusRelease d) s = busRelease ops d s"
| "busRun ops (BusStart r) s = busStart ops r s"
| "busRun ops (BusInline r) s = busInline ops r s"
| "busRun ops BusComplete s = busComplete ops s"
| "busRun ops (BusEvents ev) s = Some (True, busEvents ops ev s)"

fun busRuns :: "('r, 's) busOps \<Rightarrow> 'r busCall list \<Rightarrow> 's \<Rightarrow> (bool list \<times> 's) option" where
  "busRuns ops [] s = Some ([], s)"
| "busRuns ops (c # cs) s = do { (ok, s) \<leftarrow> busRun ops c s; (oks, s) \<leftarrow> busRuns ops cs s; Some (ok # oks, s) }"

fun busUses :: "'r busCall \<Rightarrow> nat set \<Rightarrow> bool" where
  "busUses (BusSelect d) D \<longleftrightarrow> d \<in> D"
| "busUses c D \<longleftrightarrow> True"

text \<open>
  What a call promises: an answer like the abstract bus, the invariant, the requests to stay awake,
  and that a refused call changes nothing at all, the platform layer included.
\<close>

definition busLaw ::
    "('s \<Rightarrow> bool) \<Rightarrow> ('s \<Rightarrow> busView) \<Rightarrow> ('s \<Rightarrow> nat) \<Rightarrow> 'r busCall \<Rightarrow> 's \<Rightarrow> (bool \<times> 's) option \<Rightarrow> bool" where
  "busLaw invar view awake c s r \<longleftrightarrow> (\<exists>ok s'. r = Some (ok, s') \<and> invar s' \<and>
     busAllows c ok (view s) = Some (view s') \<and> awake s' + busHeld (view s) = awake s + busHeld (view s') \<and>
     (\<not> ok \<longrightarrow> s' = s))"

locale serial_bus =
  fixes ops :: "('r, 's) busOps"
    and devices :: "nat set"
    and invar :: "'s \<Rightarrow> bool"
    and view :: "'s \<Rightarrow> busView"
    and awake :: "'s \<Rightarrow> nat"
  assumes select: "invar s \<Longrightarrow> d \<in> devices \<Longrightarrow> awake s < 4294967295 \<Longrightarrow>
      busLaw invar view awake (BusSelect d :: 'r busCall) s (busSelect ops d s)"
    and release: "invar s \<Longrightarrow> busLaw invar view awake (BusRelease d :: 'r busCall) s (busRelease ops d s)"
    and start: "invar s \<Longrightarrow> busLaw invar view awake (BusStart r) s (busStart ops r s)"
    and inline: "invar s \<Longrightarrow> busLaw invar view awake (BusInline r) s (busInline ops r s)"
    and complete: "invar s \<Longrightarrow> busLaw invar view awake (BusComplete :: 'r busCall) s (busComplete ops s)"
    and events: "invar s \<Longrightarrow> invar (busEvents ops ev s) \<and> view (busEvents ops ev s) = view s \<and>
      awake (busEvents ops ev s) = awake s"
begin

lemma run: "invar s \<Longrightarrow> busUses c devices \<Longrightarrow> awake s < 4294967295 \<Longrightarrow> busLaw invar view awake c s (busRun ops c s)"
proof (cases c)
  case (BusEvents ev)
  assume "invar s"
  then show ?thesis using BusEvents events [of s ev] by (auto simp: busLaw_def)
qed (simp_all add: select release start inline complete)

text \<open>A refused call changes nothing.\<close>

lemma refused: "invar s \<Longrightarrow> busUses c devices \<Longrightarrow> awake s < 4294967295 \<Longrightarrow> busRun ops c s = Some (False, s') \<Longrightarrow> s' = s"
  using run [of s c] by (auto simp: busLaw_def)

text \<open>Any sequence of calls of any devices is answered like the abstract bus answers it.\<close>

lemma runs:
  "invar s \<Longrightarrow> \<forall>c\<in>set cs. busUses c devices \<Longrightarrow> awake s < 4294967294 + busHeld (view s) \<Longrightarrow>
     \<exists>oks s'. busRuns ops cs s = Some (oks, s') \<and> invar s' \<and> busAccepts cs oks (view s) = Some (view s') \<and>
       awake s' + busHeld (view s) = awake s + busHeld (view s')"
proof (induction cs arbitrary: s)
  case Nil
  then show ?case by simp
next
  case (Cons c cs)
  have h: "busHeld v \<le> 1" for v by (simp add: busHeld_def)
  have "awake s < 4294967295" "busUses c devices" using Cons.prems(2,3) h [of "view s"] by simp_all
  from run [OF Cons.prems(1) this(2,1)] obtain ok s1 where
    c: "busRun ops c s = Some (ok, s1)" "invar s1" "busAllows c ok (view s) = Some (view s1)"
      "awake s1 + busHeld (view s) = awake s + busHeld (view s1)" by (auto simp: busLaw_def)
  have "awake s1 < 4294967294 + busHeld (view s1)" "\<forall>c\<in>set cs. busUses c devices" using Cons.prems(2,3) c(4) by simp_all
  from Cons.IH [OF c(2) this(2,1)] obtain oks s' where
    "busRuns ops cs s1 = Some (oks, s')" "invar s'" "busAccepts cs oks (view s1) = Some (view s')"
    "awake s' + busHeld (view s1) = awake s1 + busHeld (view s')" by blast
  then show ?case using c by (intro exI [of _ "ok # oks"] exI [of _ s']) simp
qed

end

text \<open>A bus that also shows its owner on one line per device.\<close>

locale select_line_bus = serial_bus ops devices invar view awake
  for ops :: "('r, 's) busOps" and devices invar view awake +
  fixes line :: "'s \<Rightarrow> nat \<Rightarrow> bool"
  assumes line: "invar s \<Longrightarrow> d \<in> devices \<Longrightarrow> line s d \<longleftrightarrow> fst (view s) = Some d"
begin

lemma one_line:
  assumes "invar s" "\<forall>c\<in>set cs. busUses c devices" "awake s < 4294967294 + busHeld (view s)"
    and "busRuns ops cs s = Some (oks, s')" "d \<in> devices" "e \<in> devices" "line s' d" "line s' e"
  shows "d = e"
proof -
  have "invar s'" using runs [OF assms(1-3)] assms(4) by auto
  then show ?thesis using line assms(5-8) by auto
qed

end

end
