(* ===== verification/Gmos_Spi.thy ===== *)
theory Gmos_Spi
  imports Gmos_Bus
begin

text \<open>
  The SPI bus driver, common/src/gmos-driver-spi.c. The platform layer is a record of functions on
  a state of its own, pins and devices are named by numbers, and the buffers of a transfer are
  addresses that are only handed to the platform layer.
\<close>

subsection \<open>State\<close>

datatype spiBusState =
    GMOS_DRIVER_SPI_BUS_RESET
  | GMOS_DRIVER_SPI_BUS_ERROR
  | GMOS_DRIVER_SPI_BUS_IDLE
  | GMOS_DRIVER_SPI_BUS_SELECTED
  | GMOS_DRIVER_SPI_BUS_ACTIVE

record spiDevice =
  spiCompletionEvent :: nat
  spiChipSelectPin :: nat
  spiClockRate :: nat
  spiChipSelectOptions :: nat
  spiClockMode :: nat

record spiBus =
  spiDeviceSelected :: "nat option"
  spiWriteData :: "nat option"
  spiReadData :: "nat option"
  spiTransferSize :: nat
  spiState :: spiBusState

record 'x spiPal =
  spiPalInit :: "spiBus \<Rightarrow> 'x \<Rightarrow> bool \<times> 'x"
  spiPalClockSetup :: "spiBus \<Rightarrow> 'x \<Rightarrow> 'x"
  spiPalTransaction :: "spiBus \<Rightarrow> 'x \<Rightarrow> 'x"
  spiPalInlineTransaction :: "spiBus \<Rightarrow> 'x \<Rightarrow> nat \<times> 'x"
  gpioPinInit :: "nat \<Rightarrow> bool \<Rightarrow> nat \<Rightarrow> nat \<Rightarrow> 'x \<Rightarrow> bool \<times> 'x"
  gpioSetAsOutput :: "nat \<Rightarrow> 'x \<Rightarrow> bool \<times> 'x"
  gpioSetPinState :: "nat \<Rightarrow> bool \<Rightarrow> 'x \<Rightarrow> 'x"

type_synonym 'x spiSystem = "spiBus \<times> sched \<times> 'x"

abbreviation (input) GMOS_DRIVER_SPI_STATUS_IDLE :: nat where "GMOS_DRIVER_SPI_STATUS_IDLE \<equiv> 0"
abbreviation (input) GMOS_DRIVER_SPI_STATUS_ACTIVE :: nat where "GMOS_DRIVER_SPI_STATUS_ACTIVE \<equiv> 2"
abbreviation (input) GMOS_DRIVER_SPI_STATUS_NOT_READY :: nat where "GMOS_DRIVER_SPI_STATUS_NOT_READY \<equiv> 3"

definition csActiveHigh :: "nat \<Rightarrow> bool" where
  "csActiveHigh options \<longleftrightarrow> and options 1 \<noteq> 0"

subsection \<open>Operations\<close>

fun gmosDriverSpiBusInit :: "'x spiPal \<Rightarrow> 'x spiSystem \<Rightarrow> bool \<times> 'x spiSystem" where
  "gmosDriverSpiBusInit pal (bus, sc, x) =
     (if spiState bus = GMOS_DRIVER_SPI_BUS_RESET
      then let (ok, x) = spiPalInit pal bus x
           in (ok, bus\<lparr>spiState := if ok then GMOS_DRIVER_SPI_BUS_IDLE else GMOS_DRIVER_SPI_BUS_ERROR\<rparr>, sc, x)
      else (False, bus, sc, x))"

text \<open>The drive strength and the pull resistors have their default values, zero.\<close>

fun gmosDriverSpiDeviceInit ::
    "'x spiPal \<Rightarrow> (nat \<Rightarrow> spiDevice) \<Rightarrow> nat \<Rightarrow> nat option \<Rightarrow> nat \<Rightarrow> nat \<Rightarrow> nat \<Rightarrow> nat \<Rightarrow> 'x spiSystem \<Rightarrow>
     bool \<times> (nat \<Rightarrow> spiDevice) \<times> 'x spiSystem" where
  "gmosDriverSpiDeviceInit pal devs d clientTask pin options clockRate clockMode (bus, sc, x) =
     (let devs = devs(d := (devs d)\<lparr>spiChipSelectPin := pin, spiChipSelectOptions := options,
            spiClockRate := clockRate, spiClockMode := clockMode\<rparr>);
          sc = sc\<lparr>events := gmosEventInit (spiCompletionEvent (devs d)) clientTask (events sc)\<rparr>;
          csIdleState = (\<not> csActiveHigh options);
          csOutputType = (and options 2 \<noteq> 0);
          (ok, x) = gpioPinInit pal pin csOutputType 0 0 x
      in if \<not> ok then (False, devs, bus, sc, x)
         else let (ok, x) = gpioSetAsOutput pal pin x
              in if \<not> ok then (False, devs, bus, sc, x)
                 else (True, devs, bus, sc, gpioSetPinState pal pin csIdleState x))"

fun gmosDriverSpiDeviceSelect ::
    "'x spiPal \<Rightarrow> (nat \<Rightarrow> spiDevice) \<Rightarrow> nat \<Rightarrow> 'x spiSystem \<Rightarrow> (bool \<times> 'x spiSystem) option" where
  "gmosDriverSpiDeviceSelect pal devs d (bus, sc, x) =
     (let csActiveState = csActiveHigh (spiChipSelectOptions (devs d))
      in if spiState bus = GMOS_DRIVER_SPI_BUS_IDLE
         then do {
           let bus = bus\<lparr>spiState := GMOS_DRIVER_SPI_BUS_SELECTED\<rparr>;
           let (bus, x) = (if spiDeviceSelected bus \<noteq> Some d
               then let bus = bus\<lparr>spiDeviceSelected := Some d\<rparr> in (bus, spiPalClockSetup pal bus x)
               else (bus, x));
           let x = gpioSetPinState pal (spiChipSelectPin (devs d)) csActiveState x;
           sc \<leftarrow> gmosSchedulerStayAwake sc;
           Some (True, bus, sc, x) }
         else Some (False, bus, sc, x))"

fun gmosDriverSpiDeviceRelease ::
    "'x spiPal \<Rightarrow> (nat \<Rightarrow> spiDevice) \<Rightarrow> nat \<Rightarrow> 'x spiSystem \<Rightarrow> (bool \<times> 'x spiSystem) option" where
  "gmosDriverSpiDeviceRelease pal devs d (bus, sc, x) =
     (let csIdleState = (\<not> csActiveHigh (spiChipSelectOptions (devs d)))
      in if spiState bus = GMOS_DRIVER_SPI_BUS_SELECTED \<and> spiDeviceSelected bus = Some d
         then do {
           let bus = bus\<lparr>spiState := GMOS_DRIVER_SPI_BUS_IDLE\<rparr>;
           let x = gpioSetPinState pal (spiChipSelectPin (devs d)) csIdleState x;
           sc \<leftarrow> gmosSchedulerCanSleep sc;
           Some (True, bus, sc, x) }
         else Some (False, bus, sc, x))"

fun gmosDriverSpiIoWrite :: "'x spiPal \<Rightarrow> nat \<Rightarrow> nat \<Rightarrow> 'x spiSystem \<Rightarrow> bool \<times> 'x spiSystem" where
  "gmosDriverSpiIoWrite pal writeData writeSize (bus, sc, x) =
     (if spiState bus = GMOS_DRIVER_SPI_BUS_SELECTED
      then let bus = bus\<lparr>spiState := GMOS_DRIVER_SPI_BUS_ACTIVE, spiWriteData := Some writeData,
                 spiReadData := None, spiTransferSize := writeSize\<rparr>
           in (True, bus, sc, spiPalTransaction pal bus x)
      else (False, bus, sc, x))"

fun gmosDriverSpiIoRead :: "'x spiPal \<Rightarrow> nat \<Rightarrow> nat \<Rightarrow> 'x spiSystem \<Rightarrow> bool \<times> 'x spiSystem" where
  "gmosDriverSpiIoRead pal readData readSize (bus, sc, x) =
     (if spiState bus = GMOS_DRIVER_SPI_BUS_SELECTED
      then let bus = bus\<lparr>spiState := GMOS_DRIVER_SPI_BUS_ACTIVE, spiWriteData := None,
                 spiReadData := Some readData, spiTransferSize := readSize\<rparr>
           in (True, bus, sc, spiPalTransaction pal bus x)
      else (False, bus, sc, x))"

fun gmosDriverSpiIoTransfer :: "'x spiPal \<Rightarrow> nat \<Rightarrow> nat \<Rightarrow> nat \<Rightarrow> 'x spiSystem \<Rightarrow> bool \<times> 'x spiSystem" where
  "gmosDriverSpiIoTransfer pal writeData readData transferSize (bus, sc, x) =
     (if spiState bus = GMOS_DRIVER_SPI_BUS_SELECTED
      then let bus = bus\<lparr>spiState := GMOS_DRIVER_SPI_BUS_ACTIVE, spiWriteData := Some writeData,
                 spiReadData := Some readData, spiTransferSize := transferSize\<rparr>
           in (True, bus, sc, spiPalTransaction pal bus x)
      else (False, bus, sc, x))"

text \<open>The results are the status, and the transfer size for callers that want it.\<close>

fun gmosDriverSpiIoComplete ::
    "(nat \<Rightarrow> spiDevice) \<Rightarrow> 'x spiSystem \<Rightarrow> (nat \<times> nat option \<times> 'x spiSystem) option" where
  "gmosDriverSpiIoComplete devs (bus, sc, x) =
     (if spiState bus = GMOS_DRIVER_SPI_BUS_ACTIVE
      then do {
        d \<leftarrow> spiDeviceSelected bus;
        let (eventBits, ev) = gmosEventResetBits (spiCompletionEvent (devs d)) (events sc);
        let sc = sc\<lparr>events := ev\<rparr>;
        if eventBits \<noteq> 0
        then Some (unat (and eventBits 0x000000FF), Some (unat (drop_bit 8 (and eventBits 0x00FFFF00))),
               bus\<lparr>spiState := GMOS_DRIVER_SPI_BUS_SELECTED\<rparr>, sc, x)
        else Some (GMOS_DRIVER_SPI_STATUS_ACTIVE, None, bus, sc, x) }
      else Some (GMOS_DRIVER_SPI_STATUS_IDLE, None, bus, sc, x))"

fun gmosDriverSpiIoInlineWrite :: "'x spiPal \<Rightarrow> nat \<Rightarrow> nat \<Rightarrow> 'x spiSystem \<Rightarrow> nat \<times> 'x spiSystem" where
  "gmosDriverSpiIoInlineWrite pal writeData writeSize (bus, sc, x) =
     (if spiState bus = GMOS_DRIVER_SPI_BUS_SELECTED
      then let bus = bus\<lparr>spiWriteData := Some writeData, spiReadData := None, spiTransferSize := writeSize\<rparr>;
               (spiStatus, x) = spiPalInlineTransaction pal bus x
           in (spiStatus, bus, sc, x)
      else (GMOS_DRIVER_SPI_STATUS_NOT_READY, bus, sc, x))"

fun gmosDriverSpiIoInlineRead :: "'x spiPal \<Rightarrow> nat \<Rightarrow> nat \<Rightarrow> 'x spiSystem \<Rightarrow> nat \<times> 'x spiSystem" where
  "gmosDriverSpiIoInlineRead pal readData readSize (bus, sc, x) =
     (if spiState bus = GMOS_DRIVER_SPI_BUS_SELECTED
      then let bus = bus\<lparr>spiWriteData := None, spiReadData := Some readData, spiTransferSize := readSize\<rparr>;
               (spiStatus, x) = spiPalInlineTransaction pal bus x
           in (spiStatus, bus, sc, x)
      else (GMOS_DRIVER_SPI_STATUS_NOT_READY, bus, sc, x))"

fun gmosDriverSpiIoInlineTransfer :: "'x spiPal \<Rightarrow> nat \<Rightarrow> nat \<Rightarrow> nat \<Rightarrow> 'x spiSystem \<Rightarrow> nat \<times> 'x spiSystem" where
  "gmosDriverSpiIoInlineTransfer pal writeData readData transferSize (bus, sc, x) =
     (if spiState bus = GMOS_DRIVER_SPI_BUS_SELECTED
      then let bus = bus\<lparr>spiWriteData := Some writeData, spiReadData := Some readData,
                 spiTransferSize := transferSize\<rparr>;
               (spiStatus, x) = spiPalInlineTransaction pal bus x
           in (spiStatus, bus, sc, x)
      else (GMOS_DRIVER_SPI_STATUS_NOT_READY, bus, sc, x))"

subsection \<open>The bus as an owner\<close>

text \<open>What clients ask for: a transfer is given by the addresses for writing and reading, and its size.\<close>

datatype spiRequest = SpiWrite nat nat | SpiRead nat nat | SpiTransfer nat nat nat

fun spiStart :: "'x spiPal \<Rightarrow> spiRequest \<Rightarrow> 'x spiSystem \<Rightarrow> bool \<times> 'x spiSystem" where
  "spiStart pal (SpiWrite w n) s = gmosDriverSpiIoWrite pal w n s"
| "spiStart pal (SpiRead r n) s = gmosDriverSpiIoRead pal r n s"
| "spiStart pal (SpiTransfer w r n) s = gmosDriverSpiIoTransfer pal w r n s"

fun spiInline :: "'x spiPal \<Rightarrow> spiRequest \<Rightarrow> 'x spiSystem \<Rightarrow> nat \<times> 'x spiSystem" where
  "spiInline pal (SpiWrite w n) s = gmosDriverSpiIoInlineWrite pal w n s"
| "spiInline pal (SpiRead r n) s = gmosDriverSpiIoInlineRead pal r n s"
| "spiInline pal (SpiTransfer w r n) s = gmosDriverSpiIoInlineTransfer pal w r n s"

text \<open>
  The operations as calls with a yes or no answer, taken from their results: completion is granted
  when it ends the transfer, and an inline transfer unless its status is not ready.
\<close>

definition spiBusOps :: "'x spiPal \<Rightarrow> (nat \<Rightarrow> spiDevice) \<Rightarrow> (spiRequest, 'x spiSystem) busOps" where
  "spiBusOps pal devs = \<lparr>
     busSelect = gmosDriverSpiDeviceSelect pal devs,
     busRelease = gmosDriverSpiDeviceRelease pal devs,
     busStart = (\<lambda>r s. Some (spiStart pal r s)),
     busInline = (\<lambda>r s. let (status, s') = spiInline pal r s
       in Some (status \<noteq> GMOS_DRIVER_SPI_STATUS_NOT_READY, s')),
     busComplete = (\<lambda>s. do { (_, size, s') \<leftarrow> gmosDriverSpiIoComplete devs s; Some (size \<noteq> None, s') }),
     busEvents = (\<lambda>ev (bus, sc, x). (bus, sc\<lparr>events := ev\<rparr>, x))\<rparr>"

fun spiView :: "'x spiSystem \<Rightarrow> busView" where
  "spiView (bus, sc, x) =
     (if spiState bus = GMOS_DRIVER_SPI_BUS_SELECTED \<or> spiState bus = GMOS_DRIVER_SPI_BUS_ACTIVE
      then spiDeviceSelected bus else None, spiState bus = GMOS_DRIVER_SPI_BUS_ACTIVE)"

fun spiAwake :: "'x spiSystem \<Rightarrow> nat" where
  "spiAwake (bus, sc, x) = stayAwakeCounter sc"

text \<open>
  The platform layer sets the level of the pin it is asked to set, and no function of it touches the
  chip select pins otherwise. An inline transfer reports its outcome, which is never that the bus is
  not ready. A device is selected while its pin has the level it is sensitive to.
\<close>

definition spiPalOk :: "'x spiPal \<Rightarrow> ('x \<Rightarrow> nat \<Rightarrow> bool) \<Rightarrow> nat set \<Rightarrow> bool" where
  "spiPalOk pal level pins \<longleftrightarrow>
     (\<forall>pin b x q. level (gpioSetPinState pal pin b x) q = (if q = pin then b else level x q)) \<and>
     (\<forall>bus x q. q \<in> pins \<longrightarrow> level (spiPalClockSetup pal bus x) q = level x q \<and>
        level (spiPalTransaction pal bus x) q = level x q \<and>
        level (snd (spiPalInlineTransaction pal bus x)) q = level x q) \<and>
     (\<forall>bus x. fst (spiPalInlineTransaction pal bus x) \<noteq> GMOS_DRIVER_SPI_STATUS_NOT_READY)"

fun spiLine :: "('x \<Rightarrow> nat \<Rightarrow> bool) \<Rightarrow> (nat \<Rightarrow> spiDevice) \<Rightarrow> 'x spiSystem \<Rightarrow> nat \<Rightarrow> bool" where
  "spiLine level devs (bus, sc, x) d \<longleftrightarrow>
     level x (spiChipSelectPin (devs d)) = csActiveHigh (spiChipSelectOptions (devs d))"

fun spiInv :: "'x spiPal \<Rightarrow> ('x \<Rightarrow> nat \<Rightarrow> bool) \<Rightarrow> (nat \<Rightarrow> spiDevice) \<Rightarrow> nat set \<Rightarrow> 'x spiSystem \<Rightarrow> bool" where
  "spiInv pal level devs D (bus, sc, x) \<longleftrightarrow>
     spiPalOk pal level ((\<lambda>d. spiChipSelectPin (devs d)) ` D) \<and> inj_on (\<lambda>d. spiChipSelectPin (devs d)) D \<and>
     spiState bus \<noteq> GMOS_DRIVER_SPI_BUS_RESET \<and> spiState bus \<noteq> GMOS_DRIVER_SPI_BUS_ERROR \<and>
     (spiState bus \<noteq> GMOS_DRIVER_SPI_BUS_IDLE \<longrightarrow>
        (\<exists>d\<in>D. spiDeviceSelected bus = Some d) \<and> 0 < stayAwakeCounter sc) \<and>
     (\<forall>d\<in>D. spiLine level devs (bus, sc, x) d \<longleftrightarrow> fst (spiView (bus, sc, x)) = Some d)"

lemma spiPalOkD:
  assumes "spiPalOk pal level pins"
  shows "level (gpioSetPinState pal pin b x) q = (if q = pin then b else level x q)"
    and "q \<in> pins \<Longrightarrow> level (spiPalClockSetup pal bus x) q = level x q"
    and "q \<in> pins \<Longrightarrow> level (spiPalTransaction pal bus x) q = level x q"
    and "q \<in> pins \<Longrightarrow> level (snd (spiPalInlineTransaction pal bus x)) q = level x q"
    and "fst (spiPalInlineTransaction pal bus x) \<noteq> GMOS_DRIVER_SPI_STATUS_NOT_READY"
  using assms by (simp_all add: spiPalOk_def)

lemma spi_select_law:
  assumes "spiInv pal level devs D s" "d \<in> D" "spiAwake s < 4294967295"
  shows "busLaw (spiInv pal level devs D) spiView spiAwake (BusSelect d :: spiRequest busCall) s
    (busSelect (spiBusOps pal devs) d s)"
proof -
  obtain bus sc x where s: "s = (bus, sc, x)" by (rule prod_cases3)
  note i = assms(1) [unfolded s spiInv.simps]
  note pal = spiPalOkD [OF conjunct1 [OF i]]
  show ?thesis
  proof (cases "spiState bus = GMOS_DRIVER_SPI_BUS_IDLE")
    case False
    then show ?thesis using assms(1) i
      by (cases "spiState bus") (auto simp: busLaw_def spiBusOps_def s)
  next
    case True
    let ?p = "\<lambda>d. spiChipSelectPin (devs d)" and ?a = "csActiveHigh (spiChipSelectOptions (devs d))"
    define b1 where "b1 = (let bus = bus\<lparr>spiState := GMOS_DRIVER_SPI_BUS_SELECTED\<rparr> in
      if spiDeviceSelected bus \<noteq> Some d then bus\<lparr>spiDeviceSelected := Some d\<rparr> else bus)"
    define x1 where "x1 = (if spiDeviceSelected bus \<noteq> Some d then spiPalClockSetup pal b1 x else x)"
    have b: "spiState b1 = GMOS_DRIVER_SPI_BUS_SELECTED" "spiDeviceSelected b1 = Some d" by (simp_all add: b1_def Let_def)
    have lv: "level x1 q = level x q" if "q \<in> ?p ` D" for q using pal(2) [OF that] by (simp add: x1_def)
    have off: "level x (?p e) \<noteq> csActiveHigh (spiChipSelectOptions (devs e))" if "e \<in> D" for e
      using i that True by auto
    let ?s = "(b1, sc\<lparr>stayAwakeCounter := stayAwakeCounter sc + 1\<rparr>, gpioSetPinState pal (?p d) ?a x1)"
    have r: "busSelect (spiBusOps pal devs) d s = Some (True, ?s)"
      using True assms(3) by (simp add: spiBusOps_def s Let_def gmosSchedulerStayAwake_def b1_def x1_def)
    have "spiLine level devs ?s e \<longleftrightarrow> fst (spiView ?s) = Some e" if "e \<in> D" for e
    proof (cases "e = d")
      case True
      then show ?thesis using b by (simp add: pal(1))
    next
      case False
      then have "?p e \<noteq> ?p d" using i that assms(2) by (auto dest: inj_onD)
      then show ?thesis using b False lv [of "?p e"] off that by (simp add: pal(1))
    qed
    then have "spiInv pal level devs D ?s" using i b assms(2,3) by (simp add: s)
    then show ?thesis unfolding busLaw_def r using True b i by (auto simp: s busHeld_def)
  qed
qed

lemma spi_release_law:
  assumes "spiInv pal level devs D s"
  shows "busLaw (spiInv pal level devs D) spiView spiAwake (BusRelease d :: spiRequest busCall) s
    (busRelease (spiBusOps pal devs) d s)"
proof -
  obtain bus sc x where s: "s = (bus, sc, x)" by (rule prod_cases3)
  note i = assms(1) [unfolded s spiInv.simps]
  note pal = spiPalOkD [OF conjunct1 [OF i]]
  show ?thesis
  proof (cases "spiState bus = GMOS_DRIVER_SPI_BUS_SELECTED \<and> spiDeviceSelected bus = Some d")
    case False
    then show ?thesis using assms(1) i
      by (cases "spiState bus") (auto simp: busLaw_def spiBusOps_def s)
  next
    case True
    let ?p = "\<lambda>d. spiChipSelectPin (devs d)" and ?a = "csActiveHigh (spiChipSelectOptions (devs d))"
    let ?s = "(bus\<lparr>spiState := GMOS_DRIVER_SPI_BUS_IDLE\<rparr>, sc\<lparr>stayAwakeCounter := stayAwakeCounter sc - 1\<rparr>,
      gpioSetPinState pal (?p d) (\<not> ?a) x)"
    have d: "d \<in> D" "0 < stayAwakeCounter sc" using i True by auto
    have r: "busRelease (spiBusOps pal devs) d s = Some (True, ?s)"
      using True d(2) by (simp add: spiBusOps_def s gmosSchedulerCanSleep_def)
    have "\<not> spiLine level devs ?s e" if "e \<in> D" for e
    proof (cases "e = d")
      case True
      then show ?thesis by (simp add: pal(1))
    next
      case False
      then have "?p e \<noteq> ?p d" using i that d(1) by (auto dest: inj_onD)
      then show ?thesis using i True False that by (simp add: pal(1))
    qed
    then have "spiInv pal level devs D ?s" using i by simp
    then show ?thesis unfolding busLaw_def r using True d by (auto simp: s busHeld_def)
  qed
qed

lemma spi_start_law:
  assumes "spiInv pal level devs D s"
  shows "busLaw (spiInv pal level devs D) spiView spiAwake (BusStart r :: spiRequest busCall) s
    (busStart (spiBusOps pal devs) r s)"
proof -
  obtain bus sc x where s: "s = (bus, sc, x)" by (rule prod_cases3)
  note i = assms(1) [unfolded s spiInv.simps]
  note pal = spiPalOkD [OF conjunct1 [OF i]]
  show ?thesis
  proof (cases "spiState bus = GMOS_DRIVER_SPI_BUS_SELECTED")
    case False
    then have "spiStart pal r s = (False, s)" by (cases r) (simp_all add: s)
    then show ?thesis using False assms(1) i
      by (cases "spiState bus") (auto simp: busLaw_def spiBusOps_def s)
  next
    case True
    obtain w rd n where r: "spiStart pal r s = (True, bus\<lparr>spiState := GMOS_DRIVER_SPI_BUS_ACTIVE, spiWriteData := w,
        spiReadData := rd, spiTransferSize := n\<rparr>, sc, spiPalTransaction pal (bus\<lparr>spiState := GMOS_DRIVER_SPI_BUS_ACTIVE,
        spiWriteData := w, spiReadData := rd, spiTransferSize := n\<rparr>) x)"
      using True by (cases r) (simp_all add: s Let_def)
    have "spiInv pal level devs D (snd (spiStart pal r s))"
      using i True pal(3) by (simp add: r)
    then show ?thesis using True i r unfolding busLaw_def by (auto simp: spiBusOps_def s busHeld_def)
  qed
qed

lemma spi_inline_law:
  assumes "spiInv pal level devs D s"
  shows "busLaw (spiInv pal level devs D) spiView spiAwake (BusInline r :: spiRequest busCall) s
    (busInline (spiBusOps pal devs) r s)"
proof -
  obtain bus sc x where s: "s = (bus, sc, x)" by (rule prod_cases3)
  note i = assms(1) [unfolded s spiInv.simps]
  note pal = spiPalOkD [OF conjunct1 [OF i]]
  show ?thesis
  proof (cases "spiState bus = GMOS_DRIVER_SPI_BUS_SELECTED")
    case False
    then have "spiInline pal r s = (GMOS_DRIVER_SPI_STATUS_NOT_READY, s)" by (cases r) (simp_all add: s)
    then show ?thesis using False assms(1) i
      by (cases "spiState bus") (auto simp: busLaw_def spiBusOps_def s)
  next
    case True
    obtain status w rd n where r: "spiInline pal r s = (status, bus\<lparr>spiWriteData := w, spiReadData := rd,
        spiTransferSize := n\<rparr>, sc, snd (spiPalInlineTransaction pal (bus\<lparr>spiWriteData := w, spiReadData := rd,
        spiTransferSize := n\<rparr>) x))" "status \<noteq> GMOS_DRIVER_SPI_STATUS_NOT_READY"
      using True pal(5) by (cases r) (simp_all add: s Let_def case_prod_beta)
    have "spiInv pal level devs D (snd (spiInline pal r s))"
      using i True pal(4) by (simp add: r)
    then show ?thesis using True i r unfolding busLaw_def by (auto simp: spiBusOps_def s busHeld_def)
  qed
qed

lemma spi_complete_law:
  assumes "spiInv pal level devs D s"
  shows "busLaw (spiInv pal level devs D) spiView spiAwake (BusComplete :: spiRequest busCall) s
    (busComplete (spiBusOps pal devs) s)"
proof -
  obtain bus sc x where s: "s = (bus, sc, x)" by (rule prod_cases3)
  note i = assms(1) [unfolded s spiInv.simps]
  note pal = spiPalOkD [OF conjunct1 [OF i]]
  show ?thesis
  proof (cases "spiState bus = GMOS_DRIVER_SPI_BUS_ACTIVE")
    case False
    then show ?thesis using assms(1) i by (auto simp: busLaw_def spiBusOps_def s)
  next
    case True
    then obtain d where d: "spiDeviceSelected bus = Some d" "d \<in> D" using i by auto
    show ?thesis
    proof (cases "eventBits (events sc) (spiCompletionEvent (devs d)) = 0")
      case none: True
      then have "busComplete (spiBusOps pal devs) s = Some (False, s)"
        using True d by (simp add: spiBusOps_def s ResetBits_zero)
      then show ?thesis using assms(1) True by (auto simp: busLaw_def s)
    next
      case False
      then show ?thesis using i True d
        by (auto simp: busLaw_def spiBusOps_def s busHeld_def gmosEventResetBits_def Let_def)
    qed
  qed
qed

interpretation spi: select_line_bus "spiBusOps pal devs" D "spiInv pal level devs D" spiView spiAwake "spiLine level devs"
  for pal :: "'x spiPal" and level devs D
proof
  show "spiInv pal level devs D (busEvents (spiBusOps pal devs) ev s) \<and>
      spiView (busEvents (spiBusOps pal devs) ev s) = spiView s \<and>
      spiAwake (busEvents (spiBusOps pal devs) ev s) = spiAwake s" if "spiInv pal level devs D s" for s ev
    using that by (cases s) (simp add: spiBusOps_def)
  show "spiLine level devs s d \<longleftrightarrow> fst (spiView s) = Some d" if "spiInv pal level devs D s" "d \<in> D" for s d
    using that by (cases s) simp
qed (simp_all add: spi_select_law spi_release_law spi_start_law spi_inline_law spi_complete_law)

text \<open>Initialisation: a bus that was reset becomes idle, and a device that was set up is not selected.\<close>

lemma spi_bus_init:
  "gmosDriverSpiBusInit pal (bus, sc, x) = (True, bus', sc', x') \<Longrightarrow>
     spiState bus = GMOS_DRIVER_SPI_BUS_RESET \<and> spiState bus' = GMOS_DRIVER_SPI_BUS_IDLE \<and> sc' = sc"
  by (auto simp: Let_def split: if_splits prod.splits)

lemma spi_device_init:
  assumes "spiPalOk pal level pins" "gmosDriverSpiDeviceInit pal devs d t pin opts rate mode s = (True, devs', s')"
  shows "\<not> spiLine level devs' s' d"
  using assms(2) spiPalOkD(1) [OF assms(1)]
  by (cases s) (auto simp: Let_def split: if_splits prod.splits)

subsection \<open>Properties\<close>

text \<open>
  C28: On an initialised SPI bus every sequence of calls, from any number of devices and with
  interrupts in between, is answered like the abstract bus answers it: a device gets the bus when
  it has no owner, and only the owner releases it, never during a transfer; transfers, inline ones
  included, start one at a time and only for an owner, as their results tell the caller. A refused
  call changes nothing, so it does not reach the platform layer. No call faults, the scheduler is
  kept awake exactly while the bus has an owner, and the chip select line of a device is active
  exactly while it is the owner. The platform layer keeps its hands off the chip select pins and
  reports an inline transfer it was asked to do by another status than not ready.
\<close>

theorem spi_bus:
  assumes "spiInv pal level devs D s" "\<forall>c\<in>set cs. busUses c D" "spiAwake s < 4294967294 + busHeld (spiView s)"
  shows "\<exists>oks s'. busRuns (spiBusOps pal devs) cs s = Some (oks, s') \<and> spiInv pal level devs D s' \<and>
    busAccepts cs oks (spiView s) = Some (spiView s') \<and>
    spiAwake s' + busHeld (spiView s) = spiAwake s + busHeld (spiView s') \<and>
    (\<forall>d\<in>D. spiLine level devs s' d \<longleftrightarrow> fst (spiView s') = Some d) \<and>
    (\<forall>c t. busUses c D \<longrightarrow> busRun (spiBusOps pal devs) c s' = Some (False, t) \<longrightarrow> t = s')"
proof -
  obtain oks s' where r: "busRuns (spiBusOps pal devs) cs s = Some (oks, s')" "spiInv pal level devs D s'"
    "busAccepts cs oks (spiView s) = Some (spiView s')"
    "spiAwake s' + busHeld (spiView s) = spiAwake s + busHeld (spiView s')"
    using spi.runs [OF assms] by (elim exE conjE) (rule that)
  have "busHeld (spiView s') \<le> 1" by (simp add: busHeld_def)
  then have "spiAwake s' < 4294967295" using r(4) assms(3) by linarith
  then show ?thesis using r spi.line [OF r(2)] spi.refused [OF r(2)] by blast
qed

text \<open>Two devices, one sensitive to a low and one to a high level, on pins 3 and 4.\<close>

definition samplePal :: "(nat \<Rightarrow> bool) spiPal" where
  "samplePal = \<lparr>spiPalInit = (\<lambda>_ x. (True, x)), spiPalClockSetup = (\<lambda>_ x. x), spiPalTransaction = (\<lambda>_ x. x),
     spiPalInlineTransaction = (\<lambda>_ x. (1, x)), gpioPinInit = (\<lambda>_ _ _ _ x. (True, x)),
     gpioSetAsOutput = (\<lambda>_ x. (True, x)), gpioSetPinState = (\<lambda>p b x. x(p := b))\<rparr>"

definition sampleDevices :: "nat \<Rightarrow> spiDevice" where
  "sampleDevices d = \<lparr>spiCompletionEvent = d, spiChipSelectPin = d + 3, spiClockRate = 1000,
     spiChipSelectOptions = d, spiClockMode = 0\<rparr>"

definition sampleSpi :: "(nat \<Rightarrow> bool) spiSystem" where
  "sampleSpi = (\<lparr>spiDeviceSelected = None, spiWriteData = None, spiReadData = None, spiTransferSize = 0,
     spiState = GMOS_DRIVER_SPI_BUS_IDLE\<rparr>, bootSched, (\<lambda>_. False)(3 := True))"

theorem spi_bus_witness:
  "\<exists>s'. busRuns (spiBusOps samplePal sampleDevices) [BusSelect 0, BusSelect 1, BusStart (SpiWrite 100 4), BusRelease 0]
      sampleSpi = Some ([True, False, True, False], s') \<and>
    spiLine id sampleDevices s' 0 \<and> \<not> spiLine id sampleDevices s' 1 \<and> spiAwake s' = 1"
proof -
  let ?cs = "[BusSelect 0, BusSelect 1, BusStart (SpiWrite 100 4), BusRelease 0]"
  have a: "stayAwakeCounter bootSched = 0" by (simp add: bootSched_def)
  have "spiInv samplePal id sampleDevices {0, 1} sampleSpi"
    by (auto simp: sampleSpi_def spiPalOk_def samplePal_def sampleDevices_def csActiveHigh_def)
  moreover have "\<forall>c\<in>set ?cs. busUses c {0, 1}" by simp
  moreover have "spiAwake sampleSpi < 4294967294 + busHeld (spiView sampleSpi)" by (simp add: sampleSpi_def a)
  ultimately obtain oks s' where r: "busRuns (spiBusOps samplePal sampleDevices) ?cs sampleSpi = Some (oks, s')"
    "busAccepts ?cs oks (spiView sampleSpi) = Some (spiView s')"
    "spiAwake s' + busHeld (spiView sampleSpi) = spiAwake sampleSpi + busHeld (spiView s')"
    "\<forall>d\<in>{0, 1}. spiLine id sampleDevices s' d \<longleftrightarrow> fst (spiView s') = Some d"
    by (rule exE [OF spi_bus]) (elim exE conjE, rule that)
  have v: "spiView sampleSpi = (None, False)" "spiAwake sampleSpi = 0" by (simp_all add: sampleSpi_def a)
  have "oks = [True, False, True, False] \<and> spiView s' = (Some 0, True)"
    using r(2) unfolding v
    by (cases oks; cases "tl oks"; cases "tl (tl oks)"; cases "tl (tl (tl oks))"; cases "tl (tl (tl (tl oks)))")
      (auto split: if_splits)
  then show ?thesis using r(1,3,4) v by (intro exI [of _ s']) (simp add: busHeld_def)
qed

end
