(* ===== verification/Gmos_Iic.thy ===== *)
theory Gmos_Iic
  imports Gmos_Spi
begin

text \<open>
  The IIC bus driver, common/src/gmos-driver-iic.c, modelled like the SPI driver: a bus without
  select lines, and transfers that write and then read.
\<close>

subsection \<open>State\<close>

datatype iicBusState =
    GMOS_DRIVER_IIC_BUS_RESET
  | GMOS_DRIVER_IIC_BUS_ERROR
  | GMOS_DRIVER_IIC_BUS_IDLE
  | GMOS_DRIVER_IIC_BUS_SELECTED
  | GMOS_DRIVER_IIC_BUS_ACTIVE

record iicDevice =
  iicCompletionEvent :: nat
  iicAddr :: nat

record iicBus =
  iicDeviceSelected :: "nat option"
  iicWriteData :: "nat option"
  iicReadData :: "nat option"
  iicWriteSize :: nat
  iicReadSize :: nat
  iicState :: iicBusState

record 'x iicPal =
  iicPalInit :: "iicBus \<Rightarrow> 'x \<Rightarrow> bool \<times> 'x"
  iicPalTransaction :: "iicBus \<Rightarrow> 'x \<Rightarrow> 'x"
  iicPalInlineTransaction :: "iicBus \<Rightarrow> 'x \<Rightarrow> nat \<times> 'x"

type_synonym 'x iicSystem = "iicBus \<times> sched \<times> 'x"

abbreviation (input) GMOS_DRIVER_IIC_STATUS_IDLE :: nat where "GMOS_DRIVER_IIC_STATUS_IDLE \<equiv> 0"
abbreviation (input) GMOS_DRIVER_IIC_STATUS_ACTIVE :: nat where "GMOS_DRIVER_IIC_STATUS_ACTIVE \<equiv> 2"
abbreviation (input) GMOS_DRIVER_IIC_STATUS_NOT_READY :: nat where "GMOS_DRIVER_IIC_STATUS_NOT_READY \<equiv> 3"

subsection \<open>Operations\<close>

fun gmosDriverIicBusInit :: "'x iicPal \<Rightarrow> 'x iicSystem \<Rightarrow> bool \<times> 'x iicSystem" where
  "gmosDriverIicBusInit pal (bus, sc, x) =
     (if iicState bus = GMOS_DRIVER_IIC_BUS_RESET
      then let (ok, x) = iicPalInit pal bus x
           in (ok, bus\<lparr>iicState := if ok then GMOS_DRIVER_IIC_BUS_IDLE else GMOS_DRIVER_IIC_BUS_ERROR\<rparr>, sc, x)
      else (False, bus, sc, x))"

fun gmosDriverIicDeviceInit ::
    "(nat \<Rightarrow> iicDevice) \<Rightarrow> nat \<Rightarrow> nat option \<Rightarrow> nat \<Rightarrow> 'x iicSystem \<Rightarrow>
     bool \<times> (nat \<Rightarrow> iicDevice) \<times> 'x iicSystem" where
  "gmosDriverIicDeviceInit devs d clientTask addr (bus, sc, x) =
     (let devs = devs(d := (devs d)\<lparr>iicAddr := addr\<rparr>);
          sc = sc\<lparr>events := gmosEventInit (iicCompletionEvent (devs d)) clientTask (events sc)\<rparr>
      in (True, devs, bus, sc, x))"

fun gmosDriverIicDeviceSelect :: "nat \<Rightarrow> 'x iicSystem \<Rightarrow> (bool \<times> 'x iicSystem) option" where
  "gmosDriverIicDeviceSelect d (bus, sc, x) =
     (if iicState bus = GMOS_DRIVER_IIC_BUS_IDLE
      then do {
        let bus = bus\<lparr>iicState := GMOS_DRIVER_IIC_BUS_SELECTED, iicDeviceSelected := Some d\<rparr>;
        sc \<leftarrow> gmosSchedulerStayAwake sc;
        Some (True, bus, sc, x) }
      else Some (False, bus, sc, x))"

fun gmosDriverIicDeviceRelease :: "nat \<Rightarrow> 'x iicSystem \<Rightarrow> (bool \<times> 'x iicSystem) option" where
  "gmosDriverIicDeviceRelease d (bus, sc, x) =
     (if iicState bus = GMOS_DRIVER_IIC_BUS_SELECTED \<and> iicDeviceSelected bus = Some d
      then do {
        let bus = bus\<lparr>iicState := GMOS_DRIVER_IIC_BUS_IDLE\<rparr>;
        sc \<leftarrow> gmosSchedulerCanSleep sc;
        Some (True, bus, sc, x) }
      else Some (False, bus, sc, x))"

fun gmosDriverIicIoWrite :: "'x iicPal \<Rightarrow> nat \<Rightarrow> nat \<Rightarrow> 'x iicSystem \<Rightarrow> bool \<times> 'x iicSystem" where
  "gmosDriverIicIoWrite pal writeData writeSize (bus, sc, x) =
     (if iicState bus = GMOS_DRIVER_IIC_BUS_SELECTED
      then let bus = bus\<lparr>iicState := GMOS_DRIVER_IIC_BUS_ACTIVE, iicWriteData := Some writeData,
                 iicReadData := None, iicWriteSize := writeSize, iicReadSize := 0\<rparr>
           in (True, bus, sc, iicPalTransaction pal bus x)
      else (False, bus, sc, x))"

fun gmosDriverIicIoRead :: "'x iicPal \<Rightarrow> nat \<Rightarrow> nat \<Rightarrow> 'x iicSystem \<Rightarrow> bool \<times> 'x iicSystem" where
  "gmosDriverIicIoRead pal readData readSize (bus, sc, x) =
     (if iicState bus = GMOS_DRIVER_IIC_BUS_SELECTED
      then let bus = bus\<lparr>iicState := GMOS_DRIVER_IIC_BUS_ACTIVE, iicWriteData := None,
                 iicReadData := Some readData, iicWriteSize := 0, iicReadSize := readSize\<rparr>
           in (True, bus, sc, iicPalTransaction pal bus x)
      else (False, bus, sc, x))"

fun gmosDriverIicIoTransfer ::
    "'x iicPal \<Rightarrow> nat \<Rightarrow> nat \<Rightarrow> nat \<Rightarrow> nat \<Rightarrow> 'x iicSystem \<Rightarrow> bool \<times> 'x iicSystem" where
  "gmosDriverIicIoTransfer pal writeData readData writeSize readSize (bus, sc, x) =
     (if iicState bus = GMOS_DRIVER_IIC_BUS_SELECTED
      then let bus = bus\<lparr>iicState := GMOS_DRIVER_IIC_BUS_ACTIVE, iicWriteData := Some writeData,
                 iicReadData := Some readData, iicWriteSize := writeSize, iicReadSize := readSize\<rparr>
           in (True, bus, sc, iicPalTransaction pal bus x)
      else (False, bus, sc, x))"

fun gmosDriverIicIoComplete ::
    "(nat \<Rightarrow> iicDevice) \<Rightarrow> 'x iicSystem \<Rightarrow> (nat \<times> nat option \<times> 'x iicSystem) option" where
  "gmosDriverIicIoComplete devs (bus, sc, x) =
     (if iicState bus = GMOS_DRIVER_IIC_BUS_ACTIVE
      then do {
        d \<leftarrow> iicDeviceSelected bus;
        let (eventBits, ev) = gmosEventResetBits (iicCompletionEvent (devs d)) (events sc);
        let sc = sc\<lparr>events := ev\<rparr>;
        if eventBits \<noteq> 0
        then Some (unat (and eventBits 0x000000FF), Some (unat (drop_bit 8 (and eventBits 0x00FFFF00))),
               bus\<lparr>iicState := GMOS_DRIVER_IIC_BUS_SELECTED\<rparr>, sc, x)
        else Some (GMOS_DRIVER_IIC_STATUS_ACTIVE, None, bus, sc, x) }
      else Some (GMOS_DRIVER_IIC_STATUS_IDLE, None, bus, sc, x))"

fun gmosDriverIicIoInlineWrite :: "'x iicPal \<Rightarrow> nat \<Rightarrow> nat \<Rightarrow> 'x iicSystem \<Rightarrow> nat \<times> 'x iicSystem" where
  "gmosDriverIicIoInlineWrite pal writeData writeSize (bus, sc, x) =
     (if iicState bus = GMOS_DRIVER_IIC_BUS_SELECTED
      then let bus = bus\<lparr>iicWriteData := Some writeData, iicReadData := None, iicWriteSize := writeSize,
                 iicReadSize := 0\<rparr>;
               (iicStatus, x) = iicPalInlineTransaction pal bus x
           in (iicStatus, bus, sc, x)
      else (GMOS_DRIVER_IIC_STATUS_NOT_READY, bus, sc, x))"

fun gmosDriverIicIoInlineRead :: "'x iicPal \<Rightarrow> nat \<Rightarrow> nat \<Rightarrow> 'x iicSystem \<Rightarrow> nat \<times> 'x iicSystem" where
  "gmosDriverIicIoInlineRead pal readData readSize (bus, sc, x) =
     (if iicState bus = GMOS_DRIVER_IIC_BUS_SELECTED
      then let bus = bus\<lparr>iicWriteData := None, iicReadData := Some readData, iicWriteSize := 0,
                 iicReadSize := readSize\<rparr>;
               (iicStatus, x) = iicPalInlineTransaction pal bus x
           in (iicStatus, bus, sc, x)
      else (GMOS_DRIVER_IIC_STATUS_NOT_READY, bus, sc, x))"

fun gmosDriverIicIoInlineTransfer ::
    "'x iicPal \<Rightarrow> nat \<Rightarrow> nat \<Rightarrow> nat \<Rightarrow> nat \<Rightarrow> 'x iicSystem \<Rightarrow> nat \<times> 'x iicSystem" where
  "gmosDriverIicIoInlineTransfer pal writeData readData writeSize readSize (bus, sc, x) =
     (if iicState bus = GMOS_DRIVER_IIC_BUS_SELECTED
      then let bus = bus\<lparr>iicWriteData := Some writeData, iicReadData := Some readData,
                 iicWriteSize := writeSize, iicReadSize := readSize\<rparr>;
               (iicStatus, x) = iicPalInlineTransaction pal bus x
           in (iicStatus, bus, sc, x)
      else (GMOS_DRIVER_IIC_STATUS_NOT_READY, bus, sc, x))"

subsection \<open>The bus as an owner\<close>

datatype iicRequest = IicWrite nat nat | IicRead nat nat | IicTransfer nat nat nat nat

fun iicStart :: "'x iicPal \<Rightarrow> iicRequest \<Rightarrow> 'x iicSystem \<Rightarrow> bool \<times> 'x iicSystem" where
  "iicStart pal (IicWrite w n) s = gmosDriverIicIoWrite pal w n s"
| "iicStart pal (IicRead r n) s = gmosDriverIicIoRead pal r n s"
| "iicStart pal (IicTransfer w r n k) s = gmosDriverIicIoTransfer pal w r n k s"

fun iicInline :: "'x iicPal \<Rightarrow> iicRequest \<Rightarrow> 'x iicSystem \<Rightarrow> nat \<times> 'x iicSystem" where
  "iicInline pal (IicWrite w n) s = gmosDriverIicIoInlineWrite pal w n s"
| "iicInline pal (IicRead r n) s = gmosDriverIicIoInlineRead pal r n s"
| "iicInline pal (IicTransfer w r n k) s = gmosDriverIicIoInlineTransfer pal w r n k s"

definition iicBusOps :: "'x iicPal \<Rightarrow> (nat \<Rightarrow> iicDevice) \<Rightarrow> (iicRequest, 'x iicSystem) busOps" where
  "iicBusOps pal devs = \<lparr>
     busSelect = gmosDriverIicDeviceSelect,
     busRelease = gmosDriverIicDeviceRelease,
     busStart = (\<lambda>r s. Some (iicStart pal r s)),
     busInline = (\<lambda>r s. let (status, s') = iicInline pal r s
       in Some (status \<noteq> GMOS_DRIVER_IIC_STATUS_NOT_READY, s')),
     busComplete = (\<lambda>s. do { (_, size, s') \<leftarrow> gmosDriverIicIoComplete devs s; Some (size \<noteq> None, s') }),
     busEvents = (\<lambda>ev (bus, sc, x). (bus, sc\<lparr>events := ev\<rparr>, x))\<rparr>"

fun iicView :: "'x iicSystem \<Rightarrow> busView" where
  "iicView (bus, sc, x) =
     (if iicState bus = GMOS_DRIVER_IIC_BUS_SELECTED \<or> iicState bus = GMOS_DRIVER_IIC_BUS_ACTIVE
      then iicDeviceSelected bus else None, iicState bus = GMOS_DRIVER_IIC_BUS_ACTIVE)"

fun iicAwake :: "'x iicSystem \<Rightarrow> nat" where
  "iicAwake (bus, sc, x) = stayAwakeCounter sc"

text \<open>The platform layer reports an inline transfer by another status than not ready.\<close>

fun iicInv :: "'x iicPal \<Rightarrow> 'x iicSystem \<Rightarrow> bool" where
  "iicInv pal (bus, sc, x) \<longleftrightarrow>
     (\<forall>bus x. fst (iicPalInlineTransaction pal bus x) \<noteq> GMOS_DRIVER_IIC_STATUS_NOT_READY) \<and> iicState bus \<noteq> GMOS_DRIVER_IIC_BUS_RESET \<and> iicState bus \<noteq> GMOS_DRIVER_IIC_BUS_ERROR \<and>
     (iicState bus \<noteq> GMOS_DRIVER_IIC_BUS_IDLE \<longrightarrow> iicDeviceSelected bus \<noteq> None \<and> 0 < stayAwakeCounter sc)"

lemma iic_select_law:
  assumes "iicInv pal s" "iicAwake s < 4294967295"
  shows "busLaw (iicInv pal) iicView iicAwake (BusSelect d :: iicRequest busCall) s (busSelect (iicBusOps pal devs) d s)"
proof -
  obtain bus sc x where s: "s = (bus, sc, x)" by (rule prod_cases3)
  show ?thesis using assms
    by (cases "iicState bus") (auto simp: busLaw_def iicBusOps_def s gmosSchedulerStayAwake_def busHeld_def)
qed

lemma iic_release_law:
  assumes "iicInv pal s"
  shows "busLaw (iicInv pal) iicView iicAwake (BusRelease d :: iicRequest busCall) s (busRelease (iicBusOps pal devs) d s)"
proof -
  obtain bus sc x where s: "s = (bus, sc, x)" by (rule prod_cases3)
  show ?thesis using assms
    by (cases "iicState bus") (auto simp: busLaw_def iicBusOps_def s gmosSchedulerCanSleep_def busHeld_def)
qed

lemma iic_start_law:
  assumes "iicInv pal s"
  shows "busLaw (iicInv pal) iicView iicAwake (BusStart r :: iicRequest busCall) s (busStart (iicBusOps pal devs) r s)"
proof -
  obtain bus sc x where s: "s = (bus, sc, x)" by (rule prod_cases3)
  show ?thesis using assms
    by (cases r; cases "iicState bus") (auto simp: busLaw_def iicBusOps_def s busHeld_def Let_def)
qed

lemma iic_inline_law:
  assumes "iicInv pal s"
  shows "busLaw (iicInv pal) iicView iicAwake (BusInline r :: iicRequest busCall) s (busInline (iicBusOps pal devs) r s)"
proof -
  obtain bus sc x where s: "s = (bus, sc, x)" by (rule prod_cases3)
  show ?thesis using assms
    by (cases r; cases "iicState bus") (auto simp: busLaw_def iicBusOps_def s busHeld_def Let_def case_prod_beta)
qed

lemma iic_complete_law:
  assumes "iicInv pal s"
  shows "busLaw (iicInv pal) iicView iicAwake (BusComplete :: iicRequest busCall) s (busComplete (iicBusOps pal devs) s)"
proof -
  obtain bus sc x where s: "s = (bus, sc, x)" by (rule prod_cases3)
  show ?thesis
  proof (cases "iicState bus = GMOS_DRIVER_IIC_BUS_ACTIVE")
    case False
    then show ?thesis using assms by (auto simp: busLaw_def iicBusOps_def s)
  next
    case True
    then obtain d where d: "iicDeviceSelected bus = Some d" using assms by (auto simp: s)
    show ?thesis
    proof (cases "eventBits (events sc) (iicCompletionEvent (devs d)) = 0")
      case none: True
      then have "busComplete (iicBusOps pal devs) s = Some (False, s)"
        using True d by (simp add: iicBusOps_def s ResetBits_zero)
      then show ?thesis using assms True by (auto simp: busLaw_def s)
    next
      case False
      then show ?thesis using assms True d
        by (auto simp: busLaw_def iicBusOps_def s busHeld_def gmosEventResetBits_def Let_def)
    qed
  qed
qed

interpretation iic: serial_bus "iicBusOps pal devs" UNIV "iicInv pal" iicView iicAwake
  for pal :: "'x iicPal" and devs
proof
  show "iicInv pal (busEvents (iicBusOps pal devs) ev s) \<and> iicView (busEvents (iicBusOps pal devs) ev s) = iicView s \<and>
      iicAwake (busEvents (iicBusOps pal devs) ev s) = iicAwake s" if "iicInv pal s" for s ev
    using that by (cases s) (simp add: iicBusOps_def)
qed (simp_all add: iic_select_law iic_release_law iic_start_law iic_inline_law iic_complete_law)

lemma AppendToQueue_bits: "gmosEventAppendToQueue e q = Some q' \<Longrightarrow> eventBits q' = eventBits q"
  by (auto simp: gmosEventAppendToQueue_def storeEventPtr_def Let_def split: if_splits option.splits bind_splits)

subsection \<open>Properties\<close>

text \<open>
  On an initialised IIC bus every sequence of calls, from any number of devices and with
  interrupts in between, is answered like the abstract bus answers it: a device gets the bus when
  it has no owner, and only the owner releases it, never during a transfer; transfers start one at
  a time and only for an owner. No call faults, and the scheduler is kept awake exactly while the
  bus has an owner. The platform layer reports an inline transfer by another status than not ready.
\<close>

theorem iic_bus:
  assumes "iicInv pal s" "iicAwake s < 4294967294 + busHeld (iicView s)"
  shows "\<exists>oks s'. busRuns (iicBusOps pal devs) cs s = Some (oks, s') \<and> iicInv pal s' \<and>
    busAccepts cs oks (iicView s) = Some (iicView s') \<and>
    iicAwake s' + busHeld (iicView s) = iicAwake s + busHeld (iicView s')"
proof -
  have "\<forall>c\<in>set cs. busUses c UNIV"
  proof
    fix c :: "iicRequest busCall"
    show "busUses c UNIV" by (cases c) simp_all
  qed
  then show ?thesis using assms by (intro iic.runs)
qed

text \<open>
  When an interrupt handler signals the end of a transfer, with the status and the size packed
  into the bits of the completion event, the next poll of either bus returns that status and that
  size, takes the event and hands the bus back to its owner.
\<close>

theorem serial_complete:
  assumes "st < 256" "n < 65536" "gmosEventAssignBits e (busEventWord st n) (events sc) = Some (old, ev)"
  shows "\<exists>ev'. eventBits ev' = (eventBits (events sc))(e := 0) \<and>
    (spiState sb = GMOS_DRIVER_SPI_BUS_ACTIVE \<and> spiDeviceSelected sb = Some d \<and> spiCompletionEvent (sd d) = e \<longrightarrow>
       gmosDriverSpiIoComplete sd (sb, sc\<lparr>events := ev\<rparr>, x) =
         Some (st, Some n, sb\<lparr>spiState := GMOS_DRIVER_SPI_BUS_SELECTED\<rparr>, sc\<lparr>events := ev'\<rparr>, x)) \<and>
    (iicState ib = GMOS_DRIVER_IIC_BUS_ACTIVE \<and> iicDeviceSelected ib = Some d \<and> iicCompletionEvent (idv d) = e \<longrightarrow>
       gmosDriverIicIoComplete idv (ib, sc\<lparr>events := ev\<rparr>, y) =
         Some (st, Some n, ib\<lparr>iicState := GMOS_DRIVER_IIC_BUS_SELECTED\<rparr>, sc\<lparr>events := ev'\<rparr>, y))"
proof -
  have "eventBits ev = (eventBits (events sc))(e := busEventWord st n)"
    using assms(3) AppendToQueue_bits by (fastforce simp: gmosEventAssignBits_def Let_def split: bind_splits)
  then show ?thesis using busEventWord_decode [OF assms(1,2)]
    by (intro exI [of _ "ev\<lparr>eventBits := (eventBits ev)(e := 0)\<rparr>"]) (simp add: gmosEventResetBits_def Let_def)
qed

definition sampleIicPal :: "unit iicPal" where
  "sampleIicPal = \<lparr>iicPalInit = (\<lambda>_ x. (True, x)), iicPalTransaction = (\<lambda>_ x. x), iicPalInlineTransaction = (\<lambda>_ x. (1, x))\<rparr>"

definition sampleIic :: "iicBusState \<Rightarrow> iicBus" where
  "sampleIic st = \<lparr>iicDeviceSelected = Some 2, iicWriteData = None, iicReadData = None, iicWriteSize = 0,
     iicReadSize = 0, iicState = st\<rparr>"

theorem iic_bus_witness:
  "\<exists>s'. busRuns (iicBusOps sampleIicPal (\<lambda>d. \<lparr>iicCompletionEvent = d, iicAddr = 80\<rparr>))
      [BusStart (IicRead 100 4), BusSelect 1, BusInline (IicWrite 100 2), BusRelease 2, BusRelease 1]
      (sampleIic GMOS_DRIVER_IIC_BUS_IDLE, bootSched, ()) = Some ([False, True, True, False, True], s') \<and>
    iicView s' = (None, False) \<and> iicAwake s' = 0"
proof -
  let ?s = "(sampleIic GMOS_DRIVER_IIC_BUS_IDLE, bootSched, ())"
  let ?cs = "[BusStart (IicRead 100 4), BusSelect 1, BusInline (IicWrite 100 2), BusRelease 2, BusRelease 1]"
  have a: "iicView ?s = (None, False)" "iicAwake ?s = 0" by (simp_all add: sampleIic_def bootSched_def)
  have "iicInv sampleIicPal ?s" "iicAwake ?s < 4294967294 + busHeld (iicView ?s)" using a by (simp_all add: sampleIic_def sampleIicPal_def)
  from iic_bus [OF this, of "\<lambda>d. \<lparr>iicCompletionEvent = d, iicAddr = 80\<rparr>" ?cs] obtain oks s' where r:
    "busRuns (iicBusOps sampleIicPal (\<lambda>d. \<lparr>iicCompletionEvent = d, iicAddr = 80\<rparr>)) ?cs ?s = Some (oks, s')"
    "busAccepts ?cs oks (None, False) = Some (iicView s')" "iicAwake s' + busHeld (None, False) = 0 + busHeld (iicView s')"
    unfolding a by (elim exE conjE) (rule that)
  have "oks = [False, True, True, False, True] \<and> iicView s' = (None, False)"
    using r(2)
    by (cases oks; cases "tl oks"; cases "tl (tl oks)"; cases "tl (tl (tl oks))"; cases "tl (tl (tl (tl oks)))";
        cases "tl (tl (tl (tl (tl oks))))") (auto split: if_splits)
  then show ?thesis using r(1,3) by (intro exI [of _ s']) (simp add: busHeld_def)
qed

theorem serial_complete_witness:
  "\<exists>ev ev'. gmosEventAssignBits 2 (busEventWord 1 4) (events bootSched) = Some (0, ev) \<and>
    gmosDriverIicIoComplete (\<lambda>d. \<lparr>iicCompletionEvent = d, iicAddr = 80\<rparr>)
      (sampleIic GMOS_DRIVER_IIC_BUS_ACTIVE, bootSched\<lparr>events := ev\<rparr>, ()) =
      Some (1, Some 4, sampleIic GMOS_DRIVER_IIC_BUS_SELECTED, bootSched\<lparr>events := ev'\<rparr>, ())"
proof -
  obtain q where "gmosEventAppendToQueue 2 ((events bootSched)\<lparr>eventBits := (eventBits (events bootSched))(2 := busEventWord 1 4)\<rparr>) = Some q"
    by (simp add: bootSched_def idleEvents_def gmosEventAppendToQueue_def eventQueueEnd.simps Let_def)
  then have a: "gmosEventAssignBits 2 (busEventWord 1 4) (events bootSched) = Some (0, q)"
    by (simp add: gmosEventAssignBits_def bootSched_def idleEvents_def)
  have "(1 :: nat) < 256" "(4 :: nat) < 65536" by simp_all
  from serial_complete [OF this a, of "fst sampleSpi" 2 sampleDevices "snd (snd sampleSpi)" "sampleIic GMOS_DRIVER_IIC_BUS_ACTIVE"
      "\<lambda>d. \<lparr>iicCompletionEvent = d, iicAddr = 80\<rparr>" "()"] a
  show ?thesis by (auto simp: sampleIic_def)
qed

end
