(* ===== verification/Gmos_Random.thy ===== *)
theory Gmos_Random
  imports Gmos_Prelude
begin

text \<open>
  The random number generator of common/src/gmos-random.c, the XOR based generator with 128 bits of
  state. The state vector is a record; the generator is deterministic, what is proved is that it
  never degenerates and that bytes are taken from its output words in order.
\<close>

unbundle bit_operations_syntax

subsection \<open>Model\<close>

record rngState =
  rng0 :: "32 word"
  rng1 :: "32 word"
  rng2 :: "32 word"
  rng3 :: "32 word"

definition rngSeed :: rngState where
  "rngSeed = \<lparr>rng0 = 0x0E466F34, rng1 = 0xA2EA3931, rng2 = 0xBBC1951E, rng3 = 0x475D083D\<rparr>"

definition rotl :: "32 word \<Rightarrow> nat \<Rightarrow> 32 word" where
  "rotl x k = push_bit k x OR drop_bit (32 - k) x"

definition rngNext :: "rngState \<Rightarrow> 32 word \<times> rngState" where
  "rngNext s =
     (let result = rotl (rng0 s + rng3 s) 7 + rng0 s;
          t = push_bit 9 (rng1 s);
          s = s\<lparr>rng2 := rng2 s XOR rng0 s\<rparr>;
          s = s\<lparr>rng3 := rng3 s XOR rng1 s\<rparr>;
          s = s\<lparr>rng1 := rng1 s XOR rng2 s\<rparr>;
          s = s\<lparr>rng0 := rng0 s XOR rng3 s\<rparr>;
          s = s\<lparr>rng2 := rng2 s XOR t\<rparr>;
          s = s\<lparr>rng3 := rotl (rng3 s) 11\<rparr>
      in (result, s))"

definition gmosPalAddRandomEntropy :: "32 word \<Rightarrow> rngState \<Rightarrow> rngState" where
  "gmosPalAddRandomEntropy randomEntropy s =
     (let s0 = rng0 s XOR randomEntropy;
          s = (if s0 \<noteq> 0 then s\<lparr>rng0 := s0\<rparr> else s)
      in snd (rngNext s))"

text \<open>The loop over the bytes from index \<open>i\<close> on, with \<open>n\<close> bytes still to fill.\<close>

fun randomBytesLoop :: "nat \<Rightarrow> nat \<Rightarrow> 32 word \<Rightarrow> rngState \<Rightarrow> byte list \<times> rngState" where
  "randomBytesLoop 0 i randValue s = ([], s)"
| "randomBytesLoop (Suc n) i randValue s =
     (let (randValue, s) = (if i AND 3 = 0 then rngNext s else (drop_bit 8 randValue, s));
          (bs, s) = randomBytesLoop n (i + 1) randValue s
      in (ucast randValue # bs, s))"

definition gmosPalGetRandomBytes :: "nat \<Rightarrow> rngState \<Rightarrow> byte list \<times> rngState" where
  "gmosPalGetRandomBytes byteArraySize s = randomBytesLoop byteArraySize 0 0 s"

subsection \<open>The state never degenerates\<close>

lemma bit_rotl: "k < 32 \<Longrightarrow> bit (rotl x k) n \<longleftrightarrow> n < 32 \<and> bit x (if k \<le> n then n - k else n + (32 - k))"
  using bit_imp_le_length [of x "n + (32 - k)"]
  by (auto simp: rotl_def bit_or_iff bit_push_bit_iff bit_drop_bit_eq ac_simps)

lemma rotl_inject: "rotl x 11 = rotl y 11 \<longleftrightarrow> x = y"
proof
  assume r: "rotl x 11 = rotl y 11"
  show "x = y"
  proof (rule bit_eqI)
    fix n :: nat
    let ?m = "if n < 21 then n + 11 else n - 21"
    assume "possible_bit TYPE(32 word) n"
    then have "n < 32" by simp
    moreover have "bit (rotl x 11) ?m = bit (rotl y 11) ?m" using r by simp
    ultimately show "bit x n = bit y n" by (simp add: bit_rotl split: if_splits)
  qed
qed simp

text \<open>A word is determined by its exclusive or with itself moved up.\<close>

lemma shift_xor_inject:
  assumes "(x :: 32 word) XOR push_bit 9 x = y XOR push_bit 9 y"
  shows "x = y"
proof (rule bit_eqI)
  fix n
  show "bit x n = bit y n"
  proof (induction n rule: less_induct)
    case (less n)
    have "bit (x XOR push_bit 9 x) n = bit (y XOR push_bit 9 y) n" using assms by simp
    then show ?case using less [of "n - 9"] bit_imp_le_length [of x n] bit_imp_le_length [of y n]
      by (cases "n < 32") (auto simp: bit_xor_iff bit_push_bit_iff)
  qed
qed

lemma rngNext_fields:
  "rng0 (snd (rngNext s)) = rng0 s XOR (rng3 s XOR rng1 s)"
  "rng1 (snd (rngNext s)) = rng1 s XOR (rng2 s XOR rng0 s)"
  "rng2 (snd (rngNext s)) = (rng2 s XOR rng0 s) XOR push_bit 9 (rng1 s)"
  "rng3 (snd (rngNext s)) = rotl (rng3 s XOR rng1 s) 11"
  by (simp_all add: rngNext_def Let_def)

lemma xor_twice: "(a XOR c) XOR c = (a :: 32 word)"
  by (simp add: xor.assoc)

lemma xor_cancel: "a XOR c = b XOR c \<longleftrightarrow> a = (b :: 32 word)"
proof
  assume "a XOR c = b XOR c"
  from arg_cong [OF this, of "\<lambda>x. x XOR c"] show "a = b" by (simp only: xor_twice)
qed simp

lemma xor_cancel_left: "c XOR a = c XOR b \<longleftrightarrow> a = (b :: 32 word)"
  using xor_cancel by (simp only: xor.commute [of c])

lemma rngNext_inject:
  assumes "snd (rngNext s) = snd (rngNext t)"
  shows "s = t"
proof -
  note f = arg_cong [OF assms, of rng0] arg_cong [OF assms, of rng1] arg_cong [OF assms, of rng2]
    arg_cong [OF assms, of rng3]
  have d3: "rng3 s XOR rng1 s = rng3 t XOR rng1 t" using f(4) by (simp add: rngNext_fields rotl_inject)
  then have 0: "rng0 s = rng0 t" using f(1) by (simp add: rngNext_fields xor_cancel)
  have "rng1 s XOR push_bit 9 (rng1 s) = rng1 t XOR push_bit 9 (rng1 t)"
  proof -
    have e: "a XOR (push_bit 9 a) = (a XOR b) XOR (b XOR push_bit 9 a)" for a b :: "32 word"
      by (simp only: xor.assoc [symmetric] xor_twice)
    show ?thesis using f(2,3) e [of "rng1 s" "rng2 s XOR rng0 s"] e [of "rng1 t" "rng2 t XOR rng0 t"]
      by (simp add: rngNext_fields)
  qed
  then have 1: "rng1 s = rng1 t" by (rule shift_xor_inject)
  have 2: "rng2 s = rng2 t" using f(2) 0 1 by (simp add: rngNext_fields xor_cancel xor_cancel_left)
  have 3: "rng3 s = rng3 t" using d3 1 by (simp add: xor_cancel)
  show ?thesis using 0 1 2 3 by simp
qed

definition rngZero :: rngState where
  "rngZero = \<lparr>rng0 = 0, rng1 = 0, rng2 = 0, rng3 = 0\<rparr>"

lemma rngNext_zero: "snd (rngNext s) = rngZero \<longleftrightarrow> s = rngZero"
proof -
  have "snd (rngNext rngZero) = rngZero" by (simp add: rngNext_def rngZero_def rotl_def)
  then show ?thesis using rngNext_inject by metis
qed

lemma randomBytesLoop_zero: "s \<noteq> rngZero \<Longrightarrow> snd (randomBytesLoop n i r s) \<noteq> rngZero"
proof (induction n arbitrary: i r s)
  case (Suc n)
  obtain r' s' where rs: "(if i AND 3 = 0 then rngNext s else (drop_bit 8 r, s)) = (r', s')" by fastforce
  then have "s' \<noteq> rngZero" using rngNext_zero [of s] Suc.prems by (auto split: if_splits)
  from Suc.IH [OF this, of "i + 1" r'] show ?case using rs by (simp add: Let_def case_prod_beta)
qed simp

datatype rngOp = RngEntropy "32 word" | RngBytes nat

fun runRng :: "rngState \<Rightarrow> rngOp \<Rightarrow> rngState" where
  "runRng s (RngEntropy e) = gmosPalAddRandomEntropy e s"
| "runRng s (RngBytes n) = snd (gmosPalGetRandomBytes n s)"

lemma runRng_zero: "s \<noteq> rngZero \<Longrightarrow> runRng s opn \<noteq> rngZero"
proof (cases opn)
  case (RngEntropy e)
  assume "s \<noteq> rngZero"
  moreover have "s\<lparr>rng0 := rng0 s XOR e\<rparr> \<noteq> rngZero" if "rng0 s XOR e \<noteq> 0"
    using that by (metis rngState.simps(1) rngState.select_convs(1) rngState.surjective rngState.update_convs(1) rngZero_def)
  ultimately show ?thesis using RngEntropy by (simp add: gmosPalAddRandomEntropy_def Let_def rngNext_zero)
qed (simp add: gmosPalGetRandomBytes_def randomBytesLoop_zero)

subsection \<open>The bytes\<close>

text \<open>The output words from a state on, and their bytes, least significant first.\<close>

fun rngWords :: "nat \<Rightarrow> rngState \<Rightarrow> 32 word list" where
  "rngWords 0 s = []"
| "rngWords (Suc n) s = fst (rngNext s) # rngWords n (snd (rngNext s))"

definition rngAfter :: "nat \<Rightarrow> rngState \<Rightarrow> rngState" where
  "rngAfter n s = ((\<lambda>s. snd (rngNext s)) ^^ n) s"

lemma rng_and_3: "(i :: nat) AND 3 = i mod 4"
proof -
  have "i AND mask 2 = take_bit 2 i" by (simp only: take_bit_eq_mask)
  then show ?thesis by (simp add: mask_eq_exp_minus_1 take_bit_eq_mod)
qed

lemma rngAfter_simps [simp]: "rngAfter 0 s = s" "rngAfter (Suc n) s = rngAfter n (snd (rngNext s))"
  unfolding rngAfter_def funpow_Suc_right by simp_all

lemma leBytes_4: "leBytes 4 (unat (w :: 32 word)) =
    [ucast w, ucast (drop_bit 8 w), ucast (drop_bit 8 (drop_bit 8 w)), ucast (drop_bit 8 (drop_bit 8 (drop_bit 8 w)))]"
proof -
  have d: "unat x div 256 = unat (drop_bit 8 x)" for x :: "32 word"
    unfolding unat_drop_bit_eq by (simp add: drop_bit_eq_div)
  have "leBytes (Suc n) (unat x) = ucast x # leBytes n (unat (drop_bit 8 x))" for n and x :: "32 word"
    unfolding leBytes_Suc d by simp
  then have "leBytes (Suc (Suc (Suc (Suc 0)))) (unat w) =
      [ucast w, ucast (drop_bit 8 w), ucast (drop_bit 8 (drop_bit 8 w)), ucast (drop_bit 8 (drop_bit 8 (drop_bit 8 w)))]"
    by (simp only: leBytes.simps(1))
  moreover have "(4 :: nat) = Suc (Suc (Suc (Suc 0)))" by simp
  ultimately show ?thesis by presburger
qed

definition rngBytes :: "nat \<Rightarrow> rngState \<Rightarrow> byte list" where
  "rngBytes n s = take n (concat (map (\<lambda>w. leBytes 4 (unat w)) (rngWords ((n + 3) div 4) s)))"

text \<open>Four bytes at a time, and the bytes of a last word.\<close>

lemma rng_and_3_steps:
  assumes "i mod 4 = 0"
  shows "i AND 3 = 0" "Suc i AND 3 = 1" "Suc (Suc i) AND 3 = 2" "Suc (Suc (Suc i)) AND 3 = 3"
  using assms unfolding rng_and_3 by presburger+

lemma randomBytesLoop_word:
  assumes "i mod 4 = 0"
  shows "randomBytesLoop (Suc (Suc (Suc (Suc k)))) i r s =
    (case randomBytesLoop k (Suc (Suc (Suc (Suc i)))) (drop_bit 8 (drop_bit 8 (drop_bit 8 (fst (rngNext s))))) (snd (rngNext s)) of
       (bs, s') \<Rightarrow> (leBytes 4 (unat (fst (rngNext s))) @ bs, s'))"
  using rng_and_3_steps [OF assms] unfolding leBytes_4
  by (simp add: Let_def case_prod_beta del: drop_bit_drop_bit)

lemma rngBytes_word: "rngBytes (k + 4) s = leBytes 4 (unat (fst (rngNext s))) @ rngBytes k (snd (rngNext s))"
proof -
  have "(k + 4 + 3) div 4 = Suc ((k + 3) div 4)" by simp
  then show ?thesis unfolding rngBytes_def by (simp add: take_append)
qed

lemma randomBytesLoop_rest:
  assumes "i mod 4 = 0" "n < 4"
  shows "randomBytesLoop n i r s = (rngBytes n s, rngAfter ((n + 3) div 4) s)"
proof -
  note m = rng_and_3_steps [OF assms(1)]
  consider "n = 0" | "n = Suc 0" | "n = Suc (Suc 0)" | "n = Suc (Suc (Suc 0))" using assms(2) by linarith
  then show ?thesis
    by cases (use m in \<open>simp_all add: rngBytes_def Let_def case_prod_beta leBytes_4 del: drop_bit_drop_bit\<close>)
qed

lemma randomBytesLoop_ok:
  "i mod 4 = 0 \<Longrightarrow> randomBytesLoop n i r s = (rngBytes n s, rngAfter ((n + 3) div 4) s)"
proof (induction n arbitrary: i r s rule: less_induct)
  case (less n)
  show ?case
  proof (cases "n < 4")
    case True
    show ?thesis by (rule randomBytesLoop_rest [OF less.prems True])
  next
    case False
    define k where "k = n - 4"
    have n: "n = k + 4" "k < n" "Suc (Suc (Suc (Suc k))) = n" using False by (simp_all add: k_def)
    have "Suc (Suc (Suc (Suc i))) mod 4 = 0" using less.prems by presburger
    note ih = less.IH [OF n(2) this]
    have "(n + 3) div 4 = Suc ((k + 3) div 4)" using n(1) by simp
    then show ?thesis using randomBytesLoop_word [OF less.prems, of k r s] ih rngBytes_word [of k s]
      unfolding n(3) n(1) [symmetric] by simp
  qed
qed

subsection \<open>Properties\<close>

text \<open>
  Two different states never step to the same state, and from the built-in seed no sequence of
  entropy added and bytes taken reaches the state of zeros, in which the generator would be stuck.
\<close>

theorem random_alive: "inj (\<lambda>s. snd (rngNext s)) \<and> foldl runRng rngSeed ops \<noteq> rngZero"
proof
  show "inj (\<lambda>s. snd (rngNext s))" using rngNext_inject by (auto simp: inj_def)
  have "foldl runRng s ops \<noteq> rngZero" if "s \<noteq> rngZero" for s
    using that by (induction ops arbitrary: s) (simp_all add: runRng_zero)
  moreover have "rngSeed \<noteq> rngZero" by (simp add: rngSeed_def rngZero_def)
  ultimately show "foldl runRng rngSeed ops \<noteq> rngZero" by blast
qed

text \<open>
  C27: A request for bytes takes one output word for every four bytes or part of them, and hands
  out the bytes of these words from the least significant one.
\<close>

theorem random_bytes: "gmosPalGetRandomBytes n s = (rngBytes n s, rngAfter ((n + 3) div 4) s) \<and> length (rngBytes n s) = n"
proof -
  have "length (concat (map (\<lambda>w. leBytes 4 (unat w)) (rngWords k s))) = 4 * k" for k
    by (induction k arbitrary: s) simp_all
  moreover have "n \<le> 4 * ((n + 3) div 4)" by presburger
  ultimately show ?thesis by (simp add: gmosPalGetRandomBytes_def randomBytesLoop_ok rngBytes_def)
qed

end
