(* ===== verification/Spec2Isabelle.thy ===== *)
theory Spec2Isabelle
  imports Gmos_Streams Gmos_Cbor_Dec Gmos_Eeprom Gmos_Rtc_Sw Gmos_Dns_Servers Gmos_Dns_Worker
    Gmos_Tcp_Link Gmos_Iic Gmos_Random
begin

text \<open>
  A verification library for GubbinsMOS, the C sources under src/.

  GubbinsMOS is a single-threaded run-to-completion operating system for microcontrollers.
  Tasks are state machines that the scheduler calls; they exchange data through buffers and
  streams, which are linked lists of segments of one memory pool; interrupt handlers wake tasks
  through event flags. The CBOR encoder and parser, the record store in EEPROM, the real time clock,
  the DNS client and TCP links are built on these.

  The theories, the code they model and what they prove:

  \<^item> \<open>Gmos_Prelude\<close>: the fault monad, machine integers, linked lists in memory.

  \<^item> \<open>Gmos_Segments\<close>: the locale \<open>segment_store\<close>, what buffers and streams rely on when they
    allocate, link and release segments; interpreted in \<open>Gmos_Mempool\<close>.

  \<^item> \<open>Gmos_Fifo\<close>: the locale \<open>fifo\<close> of an intrusive queue; interpreted on the queue of pending
    events in \<open>Gmos_Events\<close> and on the list of ready tasks in \<open>Gmos_Scheduler\<close>.

  \<^item> \<open>Gmos_Mempool\<close>: common/src/gmos-mempool.c. The invariant \<open>pool_ok\<close>, and what allocation and
    release do to it, with the heap extension and without.

  \<^item> \<open>Gmos_Buffers\<close>, \<open>Gmos_Buffer_Ops\<close>: common/src/gmos-buffers.c. \<open>buf_state\<close> abstracts a buffer to
    the byte list it holds; every operation is proved against its counterpart on byte lists, with
    the exact condition under which it succeeds.

  \<^item> \<open>Gmos_Buffer_Room\<close>: the segments these operations take from a static pool and give back
    (\<open>settles\<close>), which is what the clients that promise to lose none rest on.

  \<^item> \<open>Gmos_Events\<close>: common/src/gmos-events.c. The bit operations, and the delivery of events under
    every interleaving of interrupt handlers with the consumer, as a labelled step relation that
    refines one in which each event set is taken exactly once.

  \<^item> \<open>Gmos_Scheduler\<close>: common/src/gmos-scheduler.c. The three task lists, the invariant of all
    reachable states, the order in which tasks run, delays across the wrap-around of the timer,
    busy waiting, and the lifecycle monitors. Task functions and the timer are parameters.

  \<^item> \<open>Gmos_Streams\<close>: common/src/gmos-streams.c. Streams as bounded byte queues, with messages,
    push back and buffers passed by reference.

  \<^item> \<open>Gmos_Cbor_Enc\<close>: common/src/gmos-format-cbor-enc.c. Every encoding function appends what RFC
    8949 prescribes, and nested values are encoded call by call.

  \<^item> \<open>Gmos_Cbor_Scan\<close>, \<open>Gmos_Cbor_Value\<close>, \<open>Gmos_Cbor_Dec\<close>: common/src/gmos-format-cbor-dec.c. The
    scanner against an inductive description of what it accepts (\<open>scanItem\<close>), and that against
    the well-formed data items of RFC 8949 (\<open>cborItem\<close>), which are accepted with exactly their
    tokens, while a few malformed ones are, too; the round trip from a value over its encoding to
    its tokens, and the functions that match, decode and look up.

  \<^item> \<open>Gmos_Eeprom\<close>: common/src/gmos-driver-eeprom.c over the emulation in
    common/src/gmos-driver-eeprom-sw.c. A memory holds a list of records; creating a record on
    every branch, the activations of an asynchronous creation, and reading back what was written.

  \<^item> \<open>Gmos_Rtc\<close>, \<open>Gmos_Rtc_Sw\<close>: common/src/gmos-driver-rtc.c and the software clock in
    common/src/gmos-driver-rtc-sw.c. Conversion and validation against a calendar that counts
    days, the clock that keeps time, and synchronisation.

  \<^item> \<open>Gmos_Bus\<close>, \<open>Gmos_Spi\<close>, \<open>Gmos_Iic\<close>: common/src/gmos-driver-spi.c and
    common/src/gmos-driver-iic.c. The locale \<open>serial_bus\<close> is the contract of a bus that devices
    select, use and release; both drivers are interpretations of it, for every platform layer, the
    SPI driver also of its extension with select lines.

  \<^item> \<open>Gmos_Random\<close>: common/src/gmos-random.c. The generator never degenerates, and the bytes it
    hands out are those of its output words.

  \<^item> \<open>Gmos_Dns_Name\<close>, \<open>Gmos_Dns\<close>, \<open>Gmos_Dns_Client\<close>, \<open>Gmos_Dns_Worker\<close>, \<open>Gmos_Dns_Servers\<close>: the DNS client,
    network/tcpip/common/src/gmos-tcpip-dns.c. The names: checking, encoding, matching and skipping
    them. The rest of the model is in \<open>Gmos_Dns\<close>; the cache of buffers is seen as a list of optional
    entries with their names (\<open>cacheHolds\<close>). Proved are every branch of a query with the
    replacement of entries (\<open>queryAnswered\<close>), the messages sent and that none is lost, the state
    machine of a request (\<open>dnsStep\<close>) with its calls of the driver (\<open>stepCalls\<close>) and the number of
    queries it costs, what a response may do to the cache, as the code reads it (\<open>dnsRespond\<close>) and
    for the well-formed responses of RFC 1035 (\<open>dnsReply\<close>), the worker task as a whole and the
    list of servers. The functions of the network driver are a record of parameters; \<open>udpSendOk\<close>,
    \<open>udpRefuseOk\<close> and \<open>udpReceiveOk\<close> state what the client relies on, for buffers it hands over and
    gets back. Names of 254 characters, one more than the RFC allows, are accepted by the code but
    match no entry; \<open>acceptedName\<close> and \<open>validName\<close> keep the two apart. The build
    is the default one, without IPv6.

  \<^item> \<open>Gmos_Tcp_Stack\<close>, \<open>Gmos_Tcp_Link\<close>: the array functions of
    network/tcpip/common/src/gmos-tcpip-stack.c and the links of gmos-tcpip-links.c. The receive
    stream of a socket is a queue of buffers passed by reference (\<open>rxQueue\<close>), from which arrays are
    read without loss; the other functions of gmos-tcpip-stack.c forward to the network driver, the
    record \<open>tcpOps\<close> of parameters. The locale \<open>network_link\<close> is what the user of a link relies on, of
    network/common/include/gmos-network-links.h: connections and disconnections come in turn, and
    each is told to the handler that is there at the time. A TCP link is an interpretation of it
    over the step relation \<open>linkStep\<close>, whose states move along the automaton \<open>linkEdge\<close>; with the
    DNS client below it the link resolves its name and connects. Calls that a handler makes in its
    turn, before the code has stored the new state, are not modelled.

  How the code is read. A function that may dereference a null pointer, leave an array, run for
  ever or divide by zero returns an option whose \<open>None\<close> is that fault, so a result \<open>Some\<close> states
  safety and termination. State is passed explicitly: the pool, the scheduler and each object is
  a record with the fields of its structure, objects are named by numbers or held as values, and
  static variables are fields of the state. Unsigned integers are naturals with the narrowing
  written out, or words where the code computes bitwise or compares time stamps that wrap around;
  \<open>uint_fast16_t\<close> and \<open>uint_fast8_t\<close> have 32 bits, as on the Cortex-M targets. A difference of
  signed time stamps that overflows is a fault in \<open>cacheLruLoop\<close>; the shift of a negative clock
  drift in \<open>gmosDriverRtcSyncTime\<close> wraps, as every compiler for these targets does. The build
  is the default configuration of common/include/gmos-config.h.

  Bounds and termination. Loops that follow a list are partial functions, without fuel; their
  results are proved to exist under the invariants;
  the recursion of the CBOR scanner is bounded by the depth argument the code itself counts down;
  the two loops of the record store are partial functions, and \<open>eeprom_create\<close> says when the
  driver's loop does not return.

  Not modelled: the platform layers and the flash, display, touch and sensor drivers, which
  exchange register values with devices whose behaviour is not in the repository; the DHCP client;
  the remaining network and radio components, which stand on a network controller or on the Zigbee, OpenThread
  and Mbed TLS libraries; the imported LittleFS and printf; log output; and of the CBOR decoder the two
  functions that convert every number to floating point.
\<close>

end
